(* ===== verification/Prelude.thy ===== *)
theory Prelude
  imports "HOL-Library.Word" "HOL-Library.Monad_Syntax"
begin

unbundle bit_operations_syntax

text \<open>
  Shared vocabulary of the development: the machine integer types of
  \<^verbatim>\<open>core/include/types.h\<close>, bytes of text, the shape of a C \<^verbatim>\<open>for\<close> loop with early exits, and
  the arithmetic facts on 64 bit words (page and block rounding) that every component uses.

  Conventions.  A C integer of w bits is a \<open>w word\<close>; an object of bytes is a \<open>u8 list\<close>.  A
  function that can read or write outside an object, dereference a pointer that is not a live
  object, or never return, has an \<open>option\<close> result in which \<open>None\<close> stands for that event; error
  codes that the source returns are ordinary values.
\<close>

section \<open>Types and constants\<close>

type_synonym u8 = "8 word"
type_synonym u16 = "16 word"
type_synonym u32 = "32 word"
type_synonym u64 = "64 word"

text \<open>Collections: \<open>frame_simps\<close> holds the facts "this operation leaves that field alone",
  \<open>word_unfold\<close> the readings of word operations as arithmetic on \<open>nat\<close>.\<close>

named_theorems frame_simps "what an operation leaves unchanged"
named_theorems word_unfold "word operations read on the natural numbers"

definition lit :: "string \<Rightarrow> u8 list" where
  "lit s = map of_char s"

definition cstring :: "u8 list \<Rightarrow> u8 list" where
  "cstring buf = takeWhile (\<lambda>c. c \<noteq> 0) buf"

lemma cstring_Nil [simp]: "cstring [] = []"
  by (simp add: cstring_def)

lemma cstring_Cons [simp]: "cstring (c # s) = (if c = 0 then [] else c # cstring s)"
  by (simp add: cstring_def)

lemma cstring_nonzero: "c \<in> set (cstring s) \<Longrightarrow> c \<noteq> 0"
  by (auto simp: cstring_def dest: set_takeWhileD)

lemma cstring_id: "0 \<notin> set s \<Longrightarrow> cstring s = s"
  by (induction s) auto

lemma cstring_append_zero: "0 \<notin> set s \<Longrightarrow> cstring (s @ 0 # t) = s"
  by (induction s) auto

lemma length_cstring: "length (cstring s) \<le> length s"
  by (simp add: cstring_def length_takeWhile_le)

lemma uint_diff_eq_0 [simp]: "uint (a::u8) - uint b = 0 \<longleftrightarrow> a = b"
  by (simp add: word_uint_eq_iff)

lemma uint_eq_iff [simp]: "uint (a::u8) = uint b \<longleftrightarrow> a = b"
  by (simp add: word_uint_eq_iff)

lemma uint_zero_iff [simp]: "uint (a::u8) = 0 \<longleftrightarrow> a = 0"
  by (simp add: uint_0_iff)

lemma length_takeWhile_less: "x \<in> set xs \<Longrightarrow> \<not> P x \<Longrightarrow> length (takeWhile P xs) < length xs"
  by (induction xs) auto

section \<open>A counted loop with early exits\<close>

text \<open>
  \<^verbatim>\<open>for (i = lo; i < hi; i++) body\<close>, where the body may go on (\<open>Next\<close>), \<^verbatim>\<open>break\<close> (\<open>Stop\<close>) or
  \<^verbatim>\<open>return\<close> a value (\<open>Ret\<close>) without changing the state: the search loops of the kernel.
\<close>

datatype 'a flow = Next | Stop | Ret 'a

function for_scan :: "(nat \<Rightarrow> 'a flow) \<Rightarrow> nat \<Rightarrow> nat \<Rightarrow> 'a option" where
  "for_scan body i hi =
     (if i < hi then
        (case body i of Next \<Rightarrow> for_scan body (Suc i) hi | Stop \<Rightarrow> None | Ret x \<Rightarrow> Some x)
      else None)"
  by pat_completeness auto
termination
  by (relation "measure (\<lambda>(body, i, hi). hi - i)") auto

declare for_scan.simps [simp del]

definition for_find :: "(nat \<Rightarrow> bool) \<Rightarrow> nat \<Rightarrow> nat \<Rightarrow> nat option" where
  "for_find p lo hi = for_scan (\<lambda>i. if p i then Ret i else Next) lo hi"

lemma for_scan_step:
  "i < hi \<Longrightarrow> body i = Next \<Longrightarrow> for_scan body i hi = for_scan body (Suc i) hi"
  "i < hi \<Longrightarrow> body i = Stop \<Longrightarrow> for_scan body i hi = None"
  "i < hi \<Longrightarrow> body i = Ret x \<Longrightarrow> for_scan body i hi = Some x"
  "hi \<le> i \<Longrightarrow> for_scan body i hi = None"
  by (simp_all add: for_scan.simps [of body i hi])

lemma for_scan_Ret:
  "for_scan body lo hi = Some x \<longleftrightarrow>
     (\<exists>j. lo \<le> j \<and> j < hi \<and> body j = Ret x \<and> (\<forall>k. lo \<le> k \<and> k < j \<longrightarrow> body k = Next))"
  (is "_ \<longleftrightarrow> ?hit lo")
proof (induction body lo hi rule: for_scan.induct)
  case (1 body i hi)
  let ?hit = "\<lambda>i j. i \<le> j \<and> j < hi \<and> body j = Ret x \<and> (\<forall>k. i \<le> k \<and> k < j \<longrightarrow> body k = Next)"
  show ?case
  proof (cases "i < hi \<and> body i = Next")
    case True
    have "?hit (Suc i) j \<longleftrightarrow> ?hit i j" for j
    proof -
      have "?hit i j \<Longrightarrow> i \<noteq> j" using True by auto
      moreover have "(\<forall>k. i \<le> k \<and> k < j \<longrightarrow> body k = Next) \<longleftrightarrow>
          (\<forall>k. Suc i \<le> k \<and> k < j \<longrightarrow> body k = Next)"
        using True by (metis Suc_leD Suc_leI le_neq_implies_less)
      ultimately show ?thesis by (metis Suc_leD Suc_leI le_neq_implies_less)
    qed
    with True 1 show ?thesis by (simp add: for_scan_step)
  next
    case False
    have "?hit i j \<Longrightarrow> j = i" for j
      using False by (metis le_neq_implies_less le_refl le_trans less_imp_le_nat not_less)
    then have "(\<exists>j. ?hit i j) \<longleftrightarrow> i < hi \<and> body i = Ret x"
      by (metis le_refl not_less)
    with False show ?thesis
      by (cases "body i") (auto simp: for_scan.simps [of body i hi])
  qed
qed

lemma for_find_Some:
  "for_find p lo hi = Some j \<longleftrightarrow> lo \<le> j \<and> j < hi \<and> p j \<and> (\<forall>k. lo \<le> k \<and> k < j \<longrightarrow> \<not> p k)"
  unfolding for_find_def for_scan_Ret by (auto split: if_splits)

lemma for_find_None: "for_find p lo hi = None \<longleftrightarrow> (\<forall>k. lo \<le> k \<and> k < hi \<longrightarrow> \<not> p k)"
proof
  show "for_find p lo hi = None \<Longrightarrow> \<forall>k. lo \<le> k \<and> k < hi \<longrightarrow> \<not> p k"
  proof (rule ccontr)
    assume none: "for_find p lo hi = None" and "\<not> (\<forall>k. lo \<le> k \<and> k < hi \<longrightarrow> \<not> p k)"
    then obtain k where k: "lo \<le> k \<and> k < hi \<and> p k" by blast
    define j where "j = (LEAST k. lo \<le> k \<and> k < hi \<and> p k)"
    from k have "lo \<le> j \<and> j < hi \<and> p j" unfolding j_def by (rule LeastI)
    moreover have "\<forall>m. lo \<le> m \<and> m < j \<longrightarrow> \<not> p m"
      using calculation not_less_Least unfolding j_def by (metis (mono_tags, lifting) less_trans)
    ultimately have "for_find p lo hi = Some j" by (simp add: for_find_Some)
    with none show False by simp
  qed
next
  assume "\<forall>k. lo \<le> k \<and> k < hi \<longrightarrow> \<not> p k"
  then show "for_find p lo hi = None"
    by (metis for_find_Some not_None_eq)
qed

lemma for_find_bounds:
  "for_find p lo hi = Some j \<Longrightarrow> lo \<le> j \<and> j < hi"
  "for_find p lo hi = Some j \<Longrightarrow> p j"
  by (auto simp: for_find_Some)

text \<open>\<^verbatim>\<open>for\<close> over a state, left at the first step whose status is not 0.  A step may crash.\<close>

fun for_status :: "('i \<Rightarrow> 's \<Rightarrow> (int \<times> 's) option) \<Rightarrow> 'i list \<Rightarrow> 's \<Rightarrow> (int \<times> 's) option" where
  "for_status body [] s = Some (0, s)"
| "for_status body (i # is) s =
     do { (r, s1) \<leftarrow> body i s; if r \<noteq> 0 then Some (r, s1) else for_status body is s1 }"

lemma for_status_invariant:
  assumes "\<And>i s r s'. i \<in> set is \<Longrightarrow> P s \<Longrightarrow> body i s = Some (r, s') \<Longrightarrow> P s'"
  shows "P s \<Longrightarrow> for_status body is s = Some (r, s') \<Longrightarrow> P s'"
  using assms
proof (induction "is" arbitrary: s)
  case (Cons i "is")
  from Cons.prems(2) obtain r1 s1 where step: "body i s = Some (r1, s1)"
    and rest: "(if r1 \<noteq> 0 then Some (r1, s1) else for_status body is s1) = Some (r, s')"
    by (auto split: Option.bind_splits)
  have "P s1" using Cons.prems(3) [OF _ Cons.prems(1) step] by simp
  then show ?case
    using rest Cons.IH [of s1] Cons.prems(3) by (auto split: if_splits)
qed simp

section \<open>Rounding to a power of two\<close>

lemma and_not_mask_shift: "(x::u64) AND NOT (mask n) = push_bit n (drop_bit n x)"
  by (rule bit_eqI) (auto simp: bit_simps)

lemma unat_and_not_mask [word_unfold]:
  "unat ((x::u64) AND NOT (mask n)) = unat x div 2 ^ n * 2 ^ n"
proof -
  have "unat x div 2 ^ n * 2 ^ n \<le> unat x" by simp
  then have "unat x div 2 ^ n * 2 ^ n < 2 ^ LENGTH(64)"
    using unsigned_less [of x] by (rule le_less_trans)
  moreover have "take_bit LENGTH(64) (unat x) = unat x"
    by (rule take_bit_nat_eq_self) (rule unsigned_less)
  ultimately show ?thesis
    unfolding and_not_mask_shift unsigned_push_bit_eq unsigned_drop_bit_eq
    by (simp only: push_bit_eq_mult drop_bit_eq_div take_bit_nat_eq_self)
qed

lemma unat_and_mask [word_unfold]: "unat ((x::u64) AND mask n) = unat x mod 2 ^ n"
  unfolding take_bit_eq_mask [symmetric] unsigned_take_bit_eq
  by (simp add: take_bit_eq_mod)

lemma unat_add_small: "unat (a::u64) + unat b < 2 ^ 64 \<Longrightarrow> unat (a + b) = unat a + unat b"
  by (simp add: unat_word_ariths)

lemma unat_sub_le: "(b::u64) \<le> a \<Longrightarrow> unat (a - b) = unat a - unat b"
  by (rule unat_sub)

lemma unat_le_iff: "(a::u64) \<le> b \<longleftrightarrow> unat a \<le> unat b"
  by (rule word_le_nat_alt)

lemma unat_less_iff: "(a::u64) < b \<longleftrightarrow> unat a < unat b"
  by (rule word_less_nat_alt)

lemma unat_lt64 [simp]: "unat (x::u64) < 18446744073709551616"
  using unsigned_less [of x, where ?'a = nat] by simp

lemma unat_eq_iff: "(a::u64) = b \<longleftrightarrow> unat a = unat b"
  by (rule word_unat_eq_iff)

lemma unat_of_nat_small: "n < 2 ^ 64 \<Longrightarrow> unat (of_nat n :: u64) = n"
  by (simp add: unat_of_nat take_bit_nat_eq_self)

end
