(* ===== verification/Machine.thy ===== *)
theory Machine
  imports Prelude
begin

unbundle bit_operations_syntax

text \<open>
  The machine underneath the kernel: physical memory as bytes, the register CR3, little-endian
  access to it, and the interface through which the page-table code sees memory (entries of
  tables).  \<^verbatim>\<open>memset8\<close> is the routine of \<^verbatim>\<open>core/mm/paging.c\<close>; the byte copies of
  \<^verbatim>\<open>core/string.c\<close> into raw memory are \<open>mem_write\<close>.
\<close>

type_synonym memory = "u64 \<Rightarrow> u8"

record machine =
  mem :: memory
  cr3 :: u64

section \<open>Blocks of bytes\<close>

definition mem_read :: "memory \<Rightarrow> u64 \<Rightarrow> nat \<Rightarrow> u8 list" where
  "mem_read m a n = map (\<lambda>i. m (a + of_nat i)) [0..<n]"

fun mem_write :: "memory \<Rightarrow> u64 \<Rightarrow> u8 list \<Rightarrow> memory" where
  "mem_write m a [] = m"
| "mem_write m a (b # bs) = mem_write (m(a := b)) (a + 1) bs"

fun memset8 :: "memory \<Rightarrow> u64 \<Rightarrow> u8 \<Rightarrow> nat \<Rightarrow> memory" where
  "memset8 m dst v 0 = m"
| "memset8 m dst v (Suc n) = memset8 (m(dst := v)) (dst + 1) v n"

lemma length_mem_read [simp]: "length (mem_read m a n) = n"
  by (simp add: mem_read_def)

lemma nth_mem_read [simp]: "i < n \<Longrightarrow> mem_read m a n ! i = m (a + of_nat i)"
  by (simp add: mem_read_def)

lemma unat_diff_Suc: "x \<noteq> (a::u64) \<Longrightarrow> unat (x - a) = Suc (unat (x - (a + 1)))"
proof -
  assume "x \<noteq> a"
  then have "x - a \<noteq> 0" by simp
  then have "unat (x - a - 1) = unat (x - a) - 1" and "unat (x - a) \<noteq> 0"
    by (auto simp: unat_minus_one unat_eq_0)
  then show ?thesis by (simp add: algebra_simps)
qed

lemma unat_diff_max: "unat (a - (a + 1) :: u64) = 2 ^ 64 - 1"
  by (simp add: unsigned_minus_1_eq_mask mask_eq_exp_minus_1)

lemma mem_write_apply:
  "length bs \<le> 2 ^ 64 \<Longrightarrow>
     mem_write m a bs x = (if unat (x - a) < length bs then bs ! unat (x - a) else m x)"
proof (induction bs arbitrary: m a)
  case (Cons b bs)
  show ?case
  proof (cases "x = a")
    case True
    have "\<not> unat (a - (a + 1)) < length bs"
      using Cons.prems unfolding unat_diff_max by simp
    with True Cons show ?thesis by simp
  next
    case False
    with Cons show ?thesis by (simp add: unat_diff_Suc [OF False])
  qed
qed simp

lemma memset8_write: "memset8 m dst v n = mem_write m dst (replicate n v)"
  by (induction n arbitrary: m dst) auto

lemma memset8_apply:
  "n \<le> 2 ^ 64 \<Longrightarrow> memset8 m dst v n x = (if unat (x - dst) < n then v else m x)"
  by (simp add: memset8_write mem_write_apply)

definition apart :: "u64 \<Rightarrow> nat \<Rightarrow> u64 \<Rightarrow> nat \<Rightarrow> bool" where
  "apart a n b k \<longleftrightarrow> (\<forall>i < n. k \<le> unat (a + of_nat i - b))"

lemma mem_read_write_apart:
  "apart a n b (length bs) \<Longrightarrow> length bs \<le> 2 ^ 64 \<Longrightarrow>
     mem_read (mem_write m b bs) a n = mem_read m a n"
  by (rule nth_equalityI) (auto simp: mem_write_apply apart_def not_less)

lemma mem_read_write_inside:
  assumes "a = b + of_nat k" and "k + n \<le> length bs" and "length bs \<le> 2 ^ 64"
  shows "mem_read (mem_write m b bs) a n = take n (drop k bs)"
proof (rule nth_equalityI)
  show "length (mem_read (mem_write m b bs) a n) = length (take n (drop k bs))"
    using assms by simp
  fix i assume "i < length (mem_read (mem_write m b bs) a n)"
  then have "i < n" by simp
  with assms have "unat (a + of_nat i - b) = k + i"
    by (simp add: unat_of_nat_small flip: of_nat_add)
  with \<open>i < n\<close> assms show "mem_read (mem_write m b bs) a n ! i = take n (drop k bs) ! i"
    by (simp add: mem_write_apply)
qed

lemma mem_read_write_same: "length bs < 2 ^ 64 \<Longrightarrow> mem_read (mem_write m a bs) a (length bs) = bs"
  using mem_read_write_inside [of a a 0 "length bs" bs m] by simp

section \<open>Little-endian integers\<close>

fun le_val :: "u8 list \<Rightarrow> nat" where
  "le_val [] = 0"
| "le_val (b # bs) = unat b + 256 * le_val bs"

fun le_bytes :: "nat \<Rightarrow> nat \<Rightarrow> u8 list" where
  "le_bytes 0 v = []"
| "le_bytes (Suc n) v = of_nat v # le_bytes n (v div 256)"

lemma length_le_bytes [simp]: "length (le_bytes n v) = n"
  by (induction n arbitrary: v) auto

lemma le_val_bytes: "v < 256 ^ n \<Longrightarrow> le_val (le_bytes n v) = v"
proof (induction n arbitrary: v)
  case (Suc n)
  then have "v div 256 < 256 ^ n" by (simp add: less_mult_imp_div_less mult.commute)
  with Suc.IH show ?case by (simp add: unat_of_nat take_bit_eq_mod)
qed simp

lemma le_val_bound: "le_val bs < 256 ^ length bs"
proof (induction bs)
  case (Cons b bs)
  have "unat b < 256" using unsigned_less [of b, where ?'a = nat] by simp
  with Cons show ?case by (simp add: algebra_simps)
qed simp

lemma le_bytes_val: "le_bytes (length bs) (le_val bs) = bs"
proof (induction bs)
  case (Cons b bs)
  have b: "unat b < 256" using unsigned_less [of b, where ?'a = nat] by simp
  then have "(unat b + 256 * le_val bs) div 256 = le_val bs" by simp
  moreover have "of_nat (unat b + 256 * le_val bs) = b"
    using b by (simp add: word_unat_eq_iff unat_word_ariths)
  ultimately show ?case using Cons by simp
qed simp

lemma le_val_zeros: "le_val (replicate n 0) = 0"
  by (induction n) auto

definition rd32 :: "memory \<Rightarrow> u64 \<Rightarrow> u32" where
  "rd32 m a = of_nat (le_val (mem_read m a 4))"

definition rd64 :: "memory \<Rightarrow> u64 \<Rightarrow> u64" where
  "rd64 m a = of_nat (le_val (mem_read m a 8))"

definition wr64 :: "memory \<Rightarrow> u64 \<Rightarrow> u64 \<Rightarrow> memory" where
  "wr64 m a v = mem_write m a (le_bytes 8 (unat v))"

lemma mem_read_Suc: "mem_read m a (Suc n) = m a # mem_read m (a + 1) n"
proof -
  have "[0..<Suc n] = 0 # map Suc [0..<n]"
    by (simp add: map_Suc_upt upt_conv_Cons del: upt_Suc)
  then show ?thesis by (simp add: mem_read_def add.assoc del: upt_Suc)
qed

lemma mem_read_0 [simp]: "mem_read m a 0 = []"
  by (simp add: mem_read_def)

text \<open>Reading concrete bytes, for evaluation.\<close>

lemma mem_read_4: "mem_read m a 4 = [m a, m (a + 1), m (a + 2), m (a + 3)]"
  by (simp add: mem_read_Suc numeral_eq_Suc add.assoc)

lemma mem_read_8:
  "mem_read m a 8 = [m a, m (a + 1), m (a + 2), m (a + 3), m (a + 4), m (a + 5), m (a + 6), m (a + 7)]"
  by (simp add: mem_read_Suc numeral_eq_Suc add.assoc)

lemmas rd_eval = rd32_def rd64_def mem_read_4 mem_read_8

lemma rd64_wr64_same: "rd64 (wr64 m a v) a = v"
proof -
  have "mem_read (mem_write m a (le_bytes 8 (unat v))) a 8 = le_bytes 8 (unat v)"
    using mem_read_write_same [of "le_bytes 8 (unat v)" m a] by simp
  then show ?thesis by (simp add: rd64_def wr64_def le_val_bytes)
qed

lemma rd64_write_apart: "apart a 8 b (length bs) \<Longrightarrow> length bs \<le> 2 ^ 64 \<Longrightarrow>
    rd64 (mem_write m b bs) a = rd64 m a"
  by (simp add: rd64_def mem_read_write_apart)

lemma rd64_wr64_apart: "apart a 8 b 8 \<Longrightarrow> rd64 (wr64 m b v) a = rd64 m a"
  by (simp add: wr64_def rd64_write_apart)

end
