(* ===== verification/Multiboot.thy ===== *)
theory Multiboot
  imports Machine
begin

unbundle bit_operations_syntax

text \<open>
  \<^verbatim>\<open>core/multiboot.c\<close> and \<^verbatim>\<open>core/include/multiboot.h\<close>: walking the tag list that the boot
  loader leaves in memory.  The information structure is the address \<open>info\<close> of its first byte (0 is
  the null pointer) and its fields are read from memory.  The walks have no bound of their own, so
  they are partial functions: \<open>None\<close> is a walk that never ends, \<open>Some 0\<close> the null pointer.
  \<open>tag_chain\<close> describes a well-formed list, on which all of them return.
\<close>

section \<open>Fields and the walk\<close>

definition MULTIBOOT_TAG_TYPE_END :: u32 where [simp]: "MULTIBOOT_TAG_TYPE_END = 0"
definition MULTIBOOT_TAG_TYPE_MODULE :: u32 where [simp]: "MULTIBOOT_TAG_TYPE_MODULE = 3"
definition MULTIBOOT_TAG_TYPE_MMAP :: u32 where [simp]: "MULTIBOOT_TAG_TYPE_MMAP = 6"

definition tag_type :: "memory \<Rightarrow> u64 \<Rightarrow> u32" where "tag_type m tag = rd32 m tag"
definition tag_size :: "memory \<Rightarrow> u64 \<Rightarrow> u32" where "tag_size m tag = rd32 m (tag + 4)"
definition mod_start :: "memory \<Rightarrow> u64 \<Rightarrow> u32" where "mod_start m tag = rd32 m (tag + 8)"
definition mod_end :: "memory \<Rightarrow> u64 \<Rightarrow> u32" where "mod_end m tag = rd32 m (tag + 12)"

definition multiboot_first_tag :: "u64 \<Rightarrow> u64" where
  "multiboot_first_tag info = info + 8"

definition multiboot_next_tag :: "memory \<Rightarrow> u64 \<Rightarrow> u64" where
  "multiboot_next_tag m tag = tag + ucast ((tag_size m tag + 7) AND NOT 7)"

definition multiboot_info_valid :: "memory \<Rightarrow> u64 \<Rightarrow> bool" where
  "multiboot_info_valid m info \<longleftrightarrow> info \<noteq> 0 \<and> rd32 m info \<ge> 16"

definition multiboot_tag_end :: "memory \<Rightarrow> u64 \<Rightarrow> u64" where
  "multiboot_tag_end m info = info + ucast (rd32 m info)"

partial_function (option) find_tag_loop :: "memory \<Rightarrow> u64 \<Rightarrow> u64 \<Rightarrow> u32 \<Rightarrow> u64 option" where
  "find_tag_loop m tag stop type =
     (if tag < stop \<and> tag_type m tag \<noteq> MULTIBOOT_TAG_TYPE_END then
        (if tag_type m tag = type then Some tag
         else find_tag_loop m (multiboot_next_tag m tag) stop type)
      else Some 0)"

definition multiboot_find_tag :: "memory \<Rightarrow> u64 \<Rightarrow> u32 \<Rightarrow> u64 option" where
  "multiboot_find_tag m info type =
     (if \<not> multiboot_info_valid m info then Some 0
      else find_tag_loop m (multiboot_first_tag info) (multiboot_tag_end m info) type)"

definition multiboot_find_mmap :: "memory \<Rightarrow> u64 \<Rightarrow> u64 option" where
  "multiboot_find_mmap m info = multiboot_find_tag m info MULTIBOOT_TAG_TYPE_MMAP"

partial_function (option) module_count_loop :: "memory \<Rightarrow> u64 \<Rightarrow> u64 \<Rightarrow> u32 \<Rightarrow> u32 option" where
  "module_count_loop m tag stop count =
     (if tag < stop \<and> tag_type m tag \<noteq> MULTIBOOT_TAG_TYPE_END then
        module_count_loop m (multiboot_next_tag m tag) stop
          (if tag_type m tag = MULTIBOOT_TAG_TYPE_MODULE then count + 1 else count)
      else Some count)"

definition multiboot_module_count :: "memory \<Rightarrow> u64 \<Rightarrow> u32 option" where
  "multiboot_module_count m info =
     (if \<not> multiboot_info_valid m info then Some 0
      else module_count_loop m (multiboot_first_tag info) (multiboot_tag_end m info) 0)"

partial_function (option) module_at_loop ::
    "memory \<Rightarrow> u64 \<Rightarrow> u64 \<Rightarrow> u32 \<Rightarrow> u32 \<Rightarrow> u64 option" where
  "module_at_loop m tag stop index seen =
     (if tag < stop \<and> tag_type m tag \<noteq> MULTIBOOT_TAG_TYPE_END then
        (if tag_type m tag = MULTIBOOT_TAG_TYPE_MODULE then
           (if seen = index then Some tag
            else module_at_loop m (multiboot_next_tag m tag) stop index (seen + 1))
         else module_at_loop m (multiboot_next_tag m tag) stop index seen)
      else Some 0)"

definition multiboot_module_at :: "memory \<Rightarrow> u64 \<Rightarrow> u32 \<Rightarrow> u64 option" where
  "multiboot_module_at m info index =
     (if \<not> multiboot_info_valid m info then Some 0
      else module_at_loop m (multiboot_first_tag info) (multiboot_tag_end m info) index 0)"

definition multiboot_module_size :: "memory \<Rightarrow> u64 \<Rightarrow> u64" where
  "multiboot_module_size m module =
     (if module = 0 \<or> mod_end m module \<le> mod_start m module then 0
      else ucast (mod_end m module - mod_start m module))"

section \<open>Well-formed lists\<close>

text \<open>\<open>tag_chain m tag stop ts\<close>: from \<open>tag\<close> the walk visits exactly the tags at the addresses
  \<open>ts\<close> and then reaches the end tag or the end of the structure.\<close>

fun tag_chain :: "memory \<Rightarrow> u64 \<Rightarrow> u64 \<Rightarrow> u64 list \<Rightarrow> bool" where
  "tag_chain m tag stop [] \<longleftrightarrow> \<not> (tag < stop \<and> tag_type m tag \<noteq> MULTIBOOT_TAG_TYPE_END)"
| "tag_chain m tag stop (t # ts) \<longleftrightarrow>
     t = tag \<and> tag < stop \<and> tag_type m tag \<noteq> MULTIBOOT_TAG_TYPE_END \<and>
     tag_chain m (multiboot_next_tag m tag) stop ts"

definition modules :: "memory \<Rightarrow> u64 list \<Rightarrow> u64 list" where
  "modules m ts = filter (\<lambda>t. tag_type m t = MULTIBOOT_TAG_TYPE_MODULE) ts"

lemma find_tag_loop_chain:
  "tag_chain m tag stop ts \<Longrightarrow>
     find_tag_loop m tag stop type =
       Some (case filter (\<lambda>t. tag_type m t = type) ts of [] \<Rightarrow> 0 | t # _ \<Rightarrow> t)"
proof (induction ts arbitrary: tag)
  case Nil
  then show ?case by (subst find_tag_loop.simps) auto
next
  case (Cons t ts)
  then show ?case by (subst find_tag_loop.simps) auto
qed

lemma module_count_loop_chain:
  "tag_chain m tag stop ts \<Longrightarrow>
     module_count_loop m tag stop count = Some (count + of_nat (length (modules m ts)))"
proof (induction ts arbitrary: tag count)
  case Nil
  then show ?case by (subst module_count_loop.simps) (auto simp: modules_def)
next
  case (Cons t ts)
  then show ?case by (subst module_count_loop.simps) (auto simp: modules_def)
qed

lemma module_at_loop_chain:
  "tag_chain m tag stop ts \<Longrightarrow> unat seen \<le> unat index \<Longrightarrow>
     module_at_loop m tag stop index seen =
       Some (if unat index - unat seen < length (modules m ts)
             then modules m ts ! (unat index - unat seen) else 0)"
proof (induction ts arbitrary: tag seen)
  case Nil
  then show ?case by (subst module_at_loop.simps) (auto simp: modules_def)
next
  case (Cons t ts)
  show ?case
  proof (cases "tag_type m t = MULTIBOOT_TAG_TYPE_MODULE \<and> seen \<noteq> index")
    case True
    with Cons.prems have "unat seen < unat index"
      by (metis le_neq_implies_less word_unat_eq_iff)
    moreover then have "unat (seen + 1) = Suc (unat seen)"
      using unsigned_less [of index, where ?'a = nat] by (simp add: unat_word_ariths)
    ultimately have "unat index - unat seen = Suc (unat index - unat (seen + 1))"
      and "unat (seen + 1) \<le> unat index" by auto
    with True Cons show ?thesis
      by (subst module_at_loop.simps) (auto simp: modules_def)
  next
    case False
    with Cons show ?thesis
      by (subst module_at_loop.simps) (auto simp: modules_def)
  qed
qed

text \<open>C29. On a well-formed tag list the boot loader's modules are found by position: the module
  count is the number of module tags, the lookup of module i returns the i-th of them, and every
  lookup past the last one returns the null pointer (not a tag of another type).\<close>

theorem multiboot_modules_by_index:
  assumes "multiboot_info_valid m info"
    and "tag_chain m (multiboot_first_tag info) (multiboot_tag_end m info) ts"
    and "length (modules m ts) < 2 ^ 32"
  shows "(multiboot_module_count m info = Some n \<longleftrightarrow> unat n = length (modules m ts)) \<and>
     multiboot_module_at m info i =
       Some (if unat i < length (modules m ts) then modules m ts ! unat i else 0)"
proof
  have "multiboot_module_count m info = Some (of_nat (length (modules m ts)))"
    using assms module_count_loop_chain [OF assms(2), of 0]
    by (simp add: multiboot_module_count_def)
  then show "multiboot_module_count m info = Some n \<longleftrightarrow> unat n = length (modules m ts)"
    using assms(3) by (auto simp: unat_of_nat take_bit_nat_eq_self word_unat_eq_iff)
  show "multiboot_module_at m info i =
      Some (if unat i < length (modules m ts) then modules m ts ! unat i else 0)"
    using assms module_at_loop_chain [OF assms(2), of 0 i]
    by (simp add: multiboot_module_at_def)
qed

text \<open>An information structure at 4096 with two modules and a memory map between them.\<close>

definition example_info :: memory where
  "example_info = (\<lambda>_. 0)
     (0x1000 := 72,
      0x1008 := 3, 0x100C := 16, 0x1011 := 0x20, 0x1015 := 0x30,
      0x1018 := 6, 0x101C := 16,
      0x1028 := 3, 0x102C := 18, 0x1031 := 0x40, 0x1035 := 0x44)"

lemmas example_eval = example_info_def multiboot_info_valid_def multiboot_first_tag_def
  multiboot_tag_end_def multiboot_next_tag_def tag_type_def tag_size_def modules_def
  rd_eval

theorem multiboot_modules_by_index_witness:
  "multiboot_module_count example_info 0x1000 = Some 2 \<and>
   multiboot_module_at example_info 0x1000 1 = Some 0x1028 \<and>
   multiboot_module_at example_info 0x1000 2 = Some 0"
proof -
  have valid: "multiboot_info_valid example_info 0x1000"
    by (simp add: example_eval)
  have chain: "tag_chain example_info (multiboot_first_tag 0x1000)
      (multiboot_tag_end example_info 0x1000) [0x1008, 0x1018, 0x1028]"
    by (simp add: example_eval)
  have mods: "modules example_info [0x1008, 0x1018, 0x1028] = [0x1008, 0x1028]"
    by (simp add: example_eval)
  have len: "length (modules example_info [0x1008, 0x1018, 0x1028]) < 2 ^ 32"
    by (simp add: mods)
  note by_index = multiboot_modules_by_index [OF valid chain len]
  have "multiboot_module_count example_info 0x1000 = Some 2"
    using by_index [THEN conjunct1, of 2] by (simp add: mods)
  then show ?thesis
    using by_index [THEN conjunct2, of 1] by_index [THEN conjunct2, of 2] by (simp add: mods)
qed

text \<open>The walk makes no progress on a tag whose size rounds to zero, and then never returns.\<close>

lemma find_tag_loop_stuck:
  assumes "tag < stop" and "tag_type m tag \<noteq> MULTIBOOT_TAG_TYPE_END" and "tag_type m tag \<noteq> type"
    and "multiboot_next_tag m tag = tag"
  shows "find_tag_loop m tag stop type = None"
proof (rule ccontr)
  assume "find_tag_loop m tag stop type \<noteq> None"
  then obtain r where r: "find_tag_loop m tag stop type = Some r" by blast
  have "(m, tag, stop, type) \<noteq> (m, tag, stop, type)"
  proof (rule find_tag_loop.raw_induct
      [where P = "\<lambda>m' t s ty r. (m', t, s, ty) \<noteq> (m, tag, stop, type)", OF _ r])
    fix f m' t s ty r
    assume IH: "\<And>m' t s ty r. f m' t s ty = Some r \<Longrightarrow> (m', t, s, ty) \<noteq> (m, tag, stop, type)"
      and body: "(if t < s \<and> tag_type m' t \<noteq> MULTIBOOT_TAG_TYPE_END then
          (if tag_type m' t = ty then Some t else f m' (multiboot_next_tag m' t) s ty)
        else Some 0) = Some r"
    show "(m', t, s, ty) \<noteq> (m, tag, stop, type)"
    proof
      assume "(m', t, s, ty) = (m, tag, stop, type)"
      with body assms have "f m tag stop type = Some r" by simp
      then show False using IH by blast
    qed
  qed
  then show False by simp
qed

text \<open>The tag walk hangs on a tag whose size rounds to zero: if the first tag has such a size, is
  not the end tag and not of the type looked for, \<^verbatim>\<open>multiboot_find_tag\<close> never returns.\<close>

theorem multiboot_zero_tag_hangs:
  assumes "multiboot_info_valid m info" and "multiboot_first_tag info < multiboot_tag_end m info"
    and "(tag_size m (multiboot_first_tag info) + 7) AND NOT 7 = 0"
    and "tag_type m (multiboot_first_tag info) \<noteq> MULTIBOOT_TAG_TYPE_END"
    and "tag_type m (multiboot_first_tag info) \<noteq> type"
  shows "multiboot_find_tag m info type = None"
proof -
  have "multiboot_next_tag m (multiboot_first_tag info) = multiboot_first_tag info"
    unfolding multiboot_next_tag_def assms(3) by simp
  then show ?thesis
    using assms find_tag_loop_stuck by (simp add: multiboot_find_tag_def)
qed

theorem multiboot_zero_tag_hangs_witness:
  "multiboot_find_tag ((\<lambda>_. 0)(0x1000 := 72, 0x1008 := 3)) 0x1000 MULTIBOOT_TAG_TYPE_MMAP = None"
  by (rule multiboot_zero_tag_hangs) (simp_all add: example_eval)

end
