(* ===== verification/Interfaces.thy ===== *)
theory Interfaces
  imports Prelude
begin

text \<open>
  The interfaces between the kernel's components, as locales: what a client may assume of an
  allocator, of a store of entries and of a bounded queue, and what follows from that alone.  Each
  is interpreted on the model's own operations in the theory of the component that provides it.
\<close>

section \<open>Allocators\<close>

text \<open>
  An allocator returns the address of a fresh object, or the null pointer; \<open>None\<close> is an allocator
  that crashes.  \<open>live s p\<close> says that address \<open>p\<close> is handed out.  The page allocator, the
  page-table allocator and \<^verbatim>\<open>kmalloc\<close> provide it.
\<close>

locale allocator =
  fixes alloc :: "'s \<Rightarrow> (u64 \<times> 's) option"
    and live :: "'s \<Rightarrow> u64 \<Rightarrow> bool"
    and inv :: "'s \<Rightarrow> bool"
  assumes inv_alloc: "inv s \<Longrightarrow> alloc s = Some (p, s') \<Longrightarrow> inv s'"
    and alloc_fresh: "inv s \<Longrightarrow> alloc s = Some (p, s') \<Longrightarrow> p \<noteq> 0 \<Longrightarrow> \<not> live s p"
    and alloc_live: "inv s \<Longrightarrow> alloc s = Some (p, s') \<Longrightarrow> p \<noteq> 0 \<Longrightarrow>
      live s' q \<longleftrightarrow> q = p \<or> live s q"
    and alloc_null: "inv s \<Longrightarrow> alloc s = Some (0, s') \<Longrightarrow> live s' q \<longleftrightarrow> live s q"
begin

text \<open>A run of allocations: the addresses handed out, and the state after it.\<close>

fun allocs :: "nat \<Rightarrow> 's \<Rightarrow> (u64 list \<times> 's) option" where
  "allocs 0 s = Some ([], s)"
| "allocs (Suc n) s =
     do { (p, s1) \<leftarrow> alloc s; (ps, s2) \<leftarrow> allocs n s1; Some (p # ps, s2) }"

lemma alloc_mono: "inv s \<Longrightarrow> alloc s = Some (p, s') \<Longrightarrow> live s q \<Longrightarrow> live s' q"
  using alloc_live [of s p s' q] alloc_null [of s s' q] by (cases "p = 0") auto

lemma allocs_run:
  "inv s \<Longrightarrow> allocs n s = Some (ps, s') \<Longrightarrow>
     inv s' \<and> length ps = n \<and> (\<forall>q. live s q \<longrightarrow> live s' q) \<and>
     distinct (filter (\<lambda>p. p \<noteq> 0) ps) \<and> (\<forall>p \<in> set ps. p \<noteq> 0 \<longrightarrow> \<not> live s p \<and> live s' p)"
proof (induction n arbitrary: s ps)
  case (Suc n)
  from Suc.prems obtain p s1 qs where step: "alloc s = Some (p, s1)"
    and rest: "allocs n s1 = Some (qs, s')" and ps: "ps = p # qs"
    by (auto split: Option.bind_splits)
  have inv1: "inv s1" using Suc.prems step by (auto intro: inv_alloc)
  note IH = Suc.IH [OF inv1 rest]
  have mono: "live s q \<Longrightarrow> live s1 q" for q
    using Suc.prems step by (blast intro: alloc_mono)
  have fresh: "p \<noteq> 0 \<Longrightarrow> \<not> live s p \<and> live s1 p"
    using Suc.prems step alloc_fresh [of s p s1] alloc_live [of s p s1 p] by blast
  show ?case
    using IH mono fresh ps by auto
qed simp

lemma allocs_distinct:
  "inv s \<Longrightarrow> allocs n s = Some (ps, s') \<Longrightarrow> 0 \<notin> set ps \<Longrightarrow> distinct ps"
  using allocs_run [of s n ps s'] filter_True [of ps "\<lambda>p. p \<noteq> 0"] by metis

lemma alloc_twice_apart:
  "inv s \<Longrightarrow> alloc s = Some (p, s1) \<Longrightarrow> alloc s1 = Some (q, s2) \<Longrightarrow> q \<noteq> 0 \<Longrightarrow> p \<noteq> q"
  using alloc_fresh [of s1 q s2] alloc_live [of s p s1 p] inv_alloc [of s p s1]
  by (cases "p = 0") auto

end

section \<open>Stores of entries\<close>

text \<open>
  A store whose entries can be read and written independently of each other, for the keys that
  are \<open>valid\<close>: the 512 entries of the page tables in memory.
\<close>

locale entry_store =
  fixes get :: "'m \<Rightarrow> 'k \<Rightarrow> 'v"
    and put :: "'m \<Rightarrow> 'k \<Rightarrow> 'v \<Rightarrow> 'm"
    and valid :: "'k \<Rightarrow> bool"
  assumes get_put_same: "valid k \<Longrightarrow> get (put m k v) k = v"
    and get_put_other: "valid k \<Longrightarrow> valid k' \<Longrightarrow> k \<noteq> k' \<Longrightarrow> get (put m k v) k' = get m k'"
begin

lemma get_put: "valid k \<Longrightarrow> valid k' \<Longrightarrow> get (put m k v) k' = (if k = k' then v else get m k')"
  by (simp add: get_put_same get_put_other)

fun puts :: "('k \<times> 'v) list \<Rightarrow> 'm \<Rightarrow> 'm" where
  "puts [] m = m"
| "puts ((k, v) # kvs) m = puts kvs (put m k v)"

lemma get_puts_other:
  "list_all valid (map fst kvs) \<Longrightarrow> valid k \<Longrightarrow> k \<notin> set (map fst kvs) \<Longrightarrow> get (puts kvs m) k = get m k"
  by (induction kvs m rule: puts.induct) (auto simp: get_put)

lemma get_puts:
  "distinct (map fst kvs) \<Longrightarrow> list_all valid (map fst kvs) \<Longrightarrow> (k, v) \<in> set kvs \<Longrightarrow>
     get (puts kvs m) k = v"
proof (induction kvs m rule: puts.induct)
  case (2 k' v' kvs m)
  show ?case
  proof (cases "(k, v) = (k', v')")
    case True
    with 2 show ?thesis by (simp add: get_puts_other get_put_same)
  next
    case False
    with 2 show ?thesis by (auto simp: rev_image_eqI)
  qed
qed simp

end

section \<open>Bounded queues\<close>

text \<open>
  A first-in first-out queue of bounded capacity: the keyboard buffer and the pipes.  \<open>push\<close>
  drops its argument when the queue is full; \<open>pop\<close> is only called on a queue that holds an
  element.
\<close>

locale bounded_queue =
  fixes push :: "'a \<Rightarrow> 'q \<Rightarrow> 'q"
    and pop :: "'q \<Rightarrow> 'a \<times> 'q"
    and items :: "'q \<Rightarrow> 'a list"
    and capacity :: nat
    and qinv :: "'q \<Rightarrow> bool"
  assumes qinv_push: "qinv q \<Longrightarrow> qinv (push x q)"
    and qinv_pop: "qinv q \<Longrightarrow> items q \<noteq> [] \<Longrightarrow> qinv (snd (pop q))"
    and items_bound: "qinv q \<Longrightarrow> length (items q) \<le> capacity"
    and items_push: "qinv q \<Longrightarrow>
      items (push x q) = (if length (items q) < capacity then items q @ [x] else items q)"
    and items_pop: "qinv q \<Longrightarrow> items q \<noteq> [] \<Longrightarrow>
      items q = fst (pop q) # items (snd (pop q))"
begin

fun pushes :: "'a list \<Rightarrow> 'q \<Rightarrow> 'q" where
  "pushes [] q = q"
| "pushes (x # xs) q = pushes xs (push x q)"

fun pops :: "nat \<Rightarrow> 'q \<Rightarrow> 'a list \<times> 'q" where
  "pops 0 q = ([], q)"
| "pops (Suc n) q =
     (if items q = [] then ([], q)
      else (let (x, q1) = pop q; (xs, q2) = pops n q1 in (x # xs, q2)))"

lemma qinv_pushes: "qinv q \<Longrightarrow> qinv (pushes xs q)"
  by (induction xs q rule: pushes.induct) (auto intro: qinv_push)

lemma items_pushes:
  "qinv q \<Longrightarrow> items (pushes xs q) = take (max capacity (length (items q))) (items q @ xs)"
proof (induction xs q rule: pushes.induct)
  case (1 q)
  then show ?case by simp
next
  case (2 x xs q)
  then have bound: "length (items q) \<le> capacity" by (simp add: items_bound)
  show ?case
    using 2 bound
    by (cases "capacity - length (items q)") (auto simp: qinv_push items_push max_def diff_Suc)
qed

lemma pops_take:
  "qinv q \<Longrightarrow> pops n q = (take n (items q), snd (pops n q)) \<and>
     items (snd (pops n q)) = drop n (items q) \<and> qinv (snd (pops n q))"
proof (induction n arbitrary: q)
  case (Suc n)
  show ?case
  proof (cases "items q = []")
    case False
    obtain x q1 where pop: "pop q = (x, q1)" by (cases "pop q")
    with Suc.prems False have "items q = x # items q1" and "qinv q1"
      using items_pop [of q] qinv_pop [of q] by auto
    then show ?thesis
      using Suc.IH [of q1] False pop by (auto split: prod.splits)
  qed (use Suc.prems in simp)
qed simp

text \<open>First in, first out: what was pushed onto an empty queue comes out in order, up to the
  capacity.\<close>

lemma fifo: "qinv q \<Longrightarrow> items q = [] \<Longrightarrow> fst (pops n (pushes xs q)) = take n (take capacity xs)"
  using pops_take [of "pushes xs q" n] by (simp add: qinv_pushes items_pushes) (metis fst_conv)

end

end
