(* ===== verification/Frames.thy ===== *)
theory Frames
  imports Multiboot Interfaces
begin

unbundle bit_operations_syntax

text \<open>
  The physical frame allocator of \<^verbatim>\<open>core/mm/paging.c\<close>: the frame bitmap, the two allocation
  loops (any frame; a zeroed page-table frame inside the identity map), freeing, and reserving
  ranges.  The linker's symbols are fields of the state that nothing writes.  \<open>frame_used\<close> is what
  the bitmap means; both allocators are instances of the \<open>allocator\<close> interface over it.
\<close>

section \<open>State\<close>

record kpaging = machine +
  kernel_end :: u64
  stack_bottom :: u64
  stack_top :: u64
  pml4_table :: u64
  pdp_table :: u64
  pd_table :: u64
  frame_bitmap :: "nat \<Rightarrow> u8"
  total_frames :: u64
  pml4 :: u64
  pdp0 :: u64
  pd0 :: u64

definition PAGE_SIZE :: u64 where [simp]: "PAGE_SIZE = 4096"
definition PAGE_MASK :: u64 where [simp]: "PAGE_MASK = NOT (PAGE_SIZE - 1)"
definition PAGE_PRESENT :: u64 where [simp]: "PAGE_PRESENT = 1"
definition PAGE_WRITABLE :: u64 where [simp]: "PAGE_WRITABLE = 2"
definition PAGE_USER :: u64 where [simp]: "PAGE_USER = 4"
definition PAGE_HUGE :: u64 where [simp]: "PAGE_HUGE = 0x80"
definition IDENTITY_MAP_LIMIT :: u64 where [simp]: "IDENTITY_MAP_LIMIT = 0x10000000"
definition USER_IMAGE_PHYS_START :: u64 where [simp]: "USER_IMAGE_PHYS_START = 0x00400000"
definition USER_IMAGE_PHYS_END :: u64 where [simp]: "USER_IMAGE_PHYS_END = 0x00800000"
definition IDENTITY_4K_START :: u64 where [simp]: "IDENTITY_4K_START = 0x00400000"
definition IDENTITY_4K_END :: u64 where [simp]: "IDENTITY_4K_END = 0x04000000"
definition MAX_PHYS_MEM :: u64 where [simp]: "MAX_PHYS_MEM = 2048 * 1024 * 1024"
definition MAX_FRAMES :: u64 where [simp]: "MAX_FRAMES = 0x80000"
definition BITMAP_BYTES :: nat where [simp]: "BITMAP_BYTES = 0x10000"

section \<open>The bitmap\<close>

definition bitmap_set :: "u64 \<Rightarrow> 'a kpaging_scheme \<Rightarrow> 'a kpaging_scheme" where
  "bitmap_set frame s =
     (if frame \<ge> MAX_FRAMES then s
      else s\<lparr>frame_bitmap := (frame_bitmap s)(unat (frame div 8) :=
               frame_bitmap s (unat (frame div 8)) OR push_bit (unat (frame mod 8)) 1)\<rparr>)"

definition bitmap_clear :: "u64 \<Rightarrow> 'a kpaging_scheme \<Rightarrow> 'a kpaging_scheme" where
  "bitmap_clear frame s =
     (if frame \<ge> MAX_FRAMES then s
      else s\<lparr>frame_bitmap := (frame_bitmap s)(unat (frame div 8) :=
               frame_bitmap s (unat (frame div 8)) AND NOT (push_bit (unat (frame mod 8)) 1))\<rparr>)"

definition bitmap_test :: "u64 \<Rightarrow> 'a kpaging_scheme \<Rightarrow> bool" where
  "bitmap_test frame s =
     (if frame \<ge> MAX_FRAMES then True
      else drop_bit (unat (frame mod 8)) (frame_bitmap s (unat (frame div 8))) AND 1 \<noteq> 0)"

definition reserve_frames :: "u64 \<Rightarrow> u64 \<Rightarrow> 'a kpaging_scheme \<Rightarrow> 'a kpaging_scheme" where
  "reserve_frames start stop s =
     (let aligned_start = start AND PAGE_MASK;
          aligned_end = (stop + PAGE_SIZE - 1) AND PAGE_MASK
      in fold (\<lambda>frame s. if of_nat frame < MAX_FRAMES then bitmap_set (of_nat frame) s else s)
           [unat (aligned_start div PAGE_SIZE) ..< unat (aligned_end div PAGE_SIZE)] s)"

section \<open>Allocation\<close>

definition paging_alloc_page_noreserve :: "'a kpaging_scheme \<Rightarrow> u64 \<times> 'a kpaging_scheme" where
  "paging_alloc_page_noreserve s =
     (case for_find (\<lambda>i. \<not> bitmap_test (of_nat i) s) 0 (unat (total_frames s)) of
        Some i \<Rightarrow> (of_nat i * PAGE_SIZE, bitmap_set (of_nat i) s)
      | None \<Rightarrow> (0, s))"

definition paging_alloc_page :: "'a kpaging_scheme \<Rightarrow> u64 \<times> 'a kpaging_scheme" where
  "paging_alloc_page s = paging_alloc_page_noreserve s"

definition alloc_table_scan :: "'a kpaging_scheme \<Rightarrow> nat \<Rightarrow> nat flow" where
  "alloc_table_scan s i =
     (let addr = of_nat i * PAGE_SIZE
      in if addr \<ge> IDENTITY_MAP_LIMIT then Stop
         else if addr \<ge> kernel_end s \<and> addr < stack_top s then Next
         else if \<not> bitmap_test (of_nat i) s then Ret i
         else Next)"

definition paging_alloc_table :: "'a kpaging_scheme \<Rightarrow> u64 \<times> 'a kpaging_scheme" where
  "paging_alloc_table s =
     (case for_scan (alloc_table_scan s) 0 (unat (total_frames s)) of
        None \<Rightarrow> (0, s)
      | Some i \<Rightarrow>
          (let addr = of_nat i * PAGE_SIZE; s1 = bitmap_set (of_nat i) s
           in (addr, s1\<lparr>mem := memset8 (mem s1) addr 0 (unat PAGE_SIZE)\<rparr>)))"

definition paging_free_page :: "u64 \<Rightarrow> 'a kpaging_scheme \<Rightarrow> 'a kpaging_scheme" where
  "paging_free_page page s =
     (if page = 0 then s
      else (let frame = page div PAGE_SIZE
            in if frame < total_frames s then bitmap_clear frame s else s))"

section \<open>What the bitmap means\<close>

definition page_aligned :: "u64 \<Rightarrow> bool" where
  "page_aligned p \<longleftrightarrow> unat p mod 4096 = 0"

definition frame_used :: "'a kpaging_scheme \<Rightarrow> u64 \<Rightarrow> bool" where
  "frame_used s p \<longleftrightarrow> page_aligned p \<and> bitmap_test (p div PAGE_SIZE) s"

text \<open>The bitmap describes the first \<open>total_frames\<close> frames and frame 0 (the null pointer) is
  reserved, as \<^verbatim>\<open>paging_init\<close> leaves it.\<close>

definition frames_ok :: "'a kpaging_scheme \<Rightarrow> bool" where
  "frames_ok s \<longleftrightarrow> total_frames s \<le> MAX_FRAMES \<and> bitmap_test 0 s"

lemma drop_bit_and_1: "drop_bit k (x::u8) AND 1 \<noteq> 0 \<longleftrightarrow> bit x k"
  by (simp add: bit_iff_odd_drop_bit and_one_eq odd_iff_mod_2_eq_one)

lemma bit_or_push: "j < 8 \<Longrightarrow> bit ((x::u8) OR 2 ^ k) j \<longleftrightarrow> j = k \<or> bit x j"
  by (auto simp: bit_simps)

lemma bit_and_not_push: "j < 8 \<Longrightarrow> bit ((x::u8) AND NOT (2 ^ k)) j \<longleftrightarrow> j \<noteq> k \<and> bit x j"
  by (auto simp: bit_simps)

lemma unat_div_8: "unat (f div 8 :: u64) = unat f div 8" and unat_mod_8: "unat (f mod 8 :: u64) = unat f mod 8"
  by (simp_all add: unat_div unat_mod)

lemma bitmap_test_bit:
  "f < MAX_FRAMES \<Longrightarrow>
     bitmap_test f s \<longleftrightarrow> bit (frame_bitmap s (unat f div 8)) (unat f mod 8)"
  unfolding bitmap_test_def drop_bit_and_1 unat_div_8 unat_mod_8 by (simp only: not_le [symmetric] if_False)

lemma bitmap_set_bytes:
  "f < MAX_FRAMES \<Longrightarrow> frame_bitmap (bitmap_set f s) =
     (frame_bitmap s)(unat f div 8 := frame_bitmap s (unat f div 8) OR push_bit (unat f mod 8) 1)"
  unfolding bitmap_set_def unat_div_8 unat_mod_8 by (simp only: not_le [symmetric] if_False) simp

lemma bitmap_clear_bytes:
  "f < MAX_FRAMES \<Longrightarrow> frame_bitmap (bitmap_clear f s) =
     (frame_bitmap s)(unat f div 8 := frame_bitmap s (unat f div 8) AND NOT (push_bit (unat f mod 8) 1))"
  unfolding bitmap_clear_def unat_div_8 unat_mod_8 by (simp only: not_le [symmetric] if_False) simp

lemma div_mod_8_inject: "f \<noteq> g \<longleftrightarrow> unat (f::u64) div 8 \<noteq> unat g div 8 \<or> unat f mod 8 \<noteq> unat g mod 8"
  by (metis div_mult_mod_eq word_unat_eq_iff)

lemma bitmap_test_set:
  assumes "f < MAX_FRAMES" and "g < MAX_FRAMES"
  shows "bitmap_test g (bitmap_set f s) \<longleftrightarrow> g = f \<or> bitmap_test g s"
  unfolding bitmap_test_bit [OF assms(2)] bitmap_set_bytes [OF assms(1)]
  using div_mod_8_inject [of g f] by (auto simp: bit_or_push)

lemma bitmap_test_clear:
  assumes "f < MAX_FRAMES" and "g < MAX_FRAMES"
  shows "bitmap_test g (bitmap_clear f s) \<longleftrightarrow> g \<noteq> f \<and> bitmap_test g s"
  unfolding bitmap_test_bit [OF assms(2)] bitmap_clear_bytes [OF assms(1)]
  using div_mod_8_inject [of g f] by (auto simp: bit_and_not_push)

lemma bitmap_test_outside: "MAX_FRAMES \<le> f \<Longrightarrow> bitmap_test f s"
  by (simp add: bitmap_test_def)

lemma bitmap_frame_simps [frame_simps, simp]:
  "mem (bitmap_set f s) = mem s" "cr3 (bitmap_set f s) = cr3 s" "pml4 (bitmap_set f s) = pml4 s"
  "total_frames (bitmap_set f s) = total_frames s" "kernel_end (bitmap_set f s) = kernel_end s"
  "stack_top (bitmap_set f s) = stack_top s" "kpaging.more (bitmap_set f s) = kpaging.more s"
  "pd0 (bitmap_set f s) = pd0 s"
  "mem (bitmap_clear f s) = mem s" "cr3 (bitmap_clear f s) = cr3 s"
  "pml4 (bitmap_clear f s) = pml4 s" "pd0 (bitmap_clear f s) = pd0 s"
  "total_frames (bitmap_clear f s) = total_frames s"
  "kpaging.more (bitmap_clear f s) = kpaging.more s"
  by (simp_all add: bitmap_set_def bitmap_clear_def)

lemma bitmap_test_update [simp]:
  "bitmap_test f (s\<lparr>mem := m\<rparr>) = bitmap_test f s"
  by (simp add: bitmap_test_def)

lemma unat_frame_address: "f < MAX_FRAMES \<Longrightarrow> unat (f * PAGE_SIZE) = unat f * 4096"
  by (simp add: unat_word_ariths unat_less_iff)

lemma frame_address:
  assumes "f < MAX_FRAMES"
  shows "p = f * PAGE_SIZE \<longleftrightarrow> page_aligned p \<and> p div PAGE_SIZE = f"
proof -
  have "unat (p div PAGE_SIZE) = unat p div 4096" by (simp add: unat_div)
  then show ?thesis
    unfolding page_aligned_def unat_eq_iff unat_frame_address [OF assms] by auto
qed

lemma frame_used_set:
  assumes "f < MAX_FRAMES"
  shows "frame_used (bitmap_set f s) p \<longleftrightarrow> p = f * PAGE_SIZE \<or> frame_used s p"
  using bitmap_test_set [OF assms, of "p div PAGE_SIZE" s] bitmap_test_outside [of "p div PAGE_SIZE"]
  unfolding frame_used_def frame_address [OF assms] by (metis not_le)

lemma frame_used_clear:
  assumes "f < MAX_FRAMES"
  shows "frame_used (bitmap_clear f s) p \<longleftrightarrow> p \<noteq> f * PAGE_SIZE \<and> frame_used s p"
  using bitmap_test_clear [OF assms, of "p div PAGE_SIZE" s] bitmap_test_outside [of "p div PAGE_SIZE"] assms
  unfolding frame_used_def frame_address [OF assms] by (metis not_le)

section \<open>The allocators\<close>

lemma frame_index:
  assumes "i < unat (total_frames s)" and "total_frames s \<le> MAX_FRAMES"
  shows "(of_nat i :: u64) < MAX_FRAMES" and "unat (of_nat i :: u64) = i"
proof -
  have "i < 2 ^ 64" by (rule less_trans [OF assms(1)]) simp
  then show i: "unat (of_nat i :: u64) = i" by (rule unat_of_nat_small)
  show "(of_nat i :: u64) < MAX_FRAMES"
    using assms unfolding unat_less_iff i unat_le_iff by simp
qed

text \<open>Both allocation loops: a frame that was free, marked used; or no change.\<close>

definition takes_frame :: "'a kpaging_scheme \<Rightarrow> u64 \<Rightarrow> 'a kpaging_scheme \<Rightarrow> bool" where
  "takes_frame s p s' \<longleftrightarrow>
     (\<exists>f < MAX_FRAMES. f < total_frames s \<and> p = f * PAGE_SIZE \<and> \<not> bitmap_test f s \<and>
        (\<forall>q. frame_used s' q \<longleftrightarrow> q = p \<or> frame_used s q) \<and>
        total_frames s' = total_frames s \<and> (bitmap_test 0 s \<longrightarrow> bitmap_test 0 s'))"

lemma takes_frame_set:
  assumes "f < MAX_FRAMES" and "f < total_frames s" and "\<not> bitmap_test f s"
    and "frame_bitmap s' = frame_bitmap (bitmap_set f s)" and "total_frames s' = total_frames s"
  shows "takes_frame s (f * PAGE_SIZE) s'"
proof -
  have test: "bitmap_test g s' = bitmap_test g (bitmap_set f s)" for g
    using assms(4) by (simp add: bitmap_test_def)
  then have "frame_used s' q \<longleftrightarrow> q = f * PAGE_SIZE \<or> frame_used s q" for q
    using frame_used_set [OF assms(1), of s q] by (simp add: frame_used_def)
  moreover have "bitmap_test 0 s \<Longrightarrow> bitmap_test 0 s'"
    unfolding test using bitmap_test_set [OF assms(1), of 0 s] by simp
  ultimately show ?thesis using assms unfolding takes_frame_def by blast
qed

lemma alloc_page_cases:
  assumes "frames_ok s" and "paging_alloc_page s = (p, s')"
  shows "(p = 0 \<and> s' = s \<and> (\<forall>f < total_frames s. bitmap_test f s)) \<or> takes_frame s p s'"
proof (cases "for_find (\<lambda>i. \<not> bitmap_test (of_nat i) s) 0 (unat (total_frames s))")
  case None
  have "bitmap_test f s" if "f < total_frames s" for f
  proof -
    have "unat f < unat (total_frames s)" using that by (simp add: unat_less_iff)
    then show ?thesis
      using None [unfolded for_find_None, rule_format, of "unat f"] by simp
  qed
  with None assms(2) show ?thesis
    by (simp add: paging_alloc_page_def paging_alloc_page_noreserve_def)
next
  case (Some i)
  then have i: "i < unat (total_frames s)" and free: "\<not> bitmap_test (of_nat i) s"
    by (auto simp: for_find_Some)
  note idx = frame_index [OF i] assms(1) [unfolded frames_ok_def]
  have "takes_frame s (of_nat i * PAGE_SIZE) (bitmap_set (of_nat i) s)"
    using idx free i by (intro takes_frame_set) (auto simp: unat_less_iff)
  with Some assms(2) show ?thesis
    by (simp add: paging_alloc_page_def paging_alloc_page_noreserve_def)
qed

lemma alloc_table_cases:
  assumes "frames_ok s" and "paging_alloc_table s = (p, s')"
  shows "(p = 0 \<and> s' = s) \<or>
    takes_frame s p s' \<and> p < IDENTITY_MAP_LIMIT \<and> \<not> (kernel_end s \<le> p \<and> p < stack_top s) \<and>
    mem s' = memset8 (mem s) p 0 4096"
proof (cases "for_scan (alloc_table_scan s) 0 (unat (total_frames s))")
  case None
  with assms(2) show ?thesis by (simp add: paging_alloc_table_def)
next
  case (Some i)
  then have i: "i < unat (total_frames s)" and scan: "alloc_table_scan s i = Ret i"
    unfolding for_scan_Ret by (auto simp: alloc_table_scan_def Let_def split: if_splits)
  let ?p = "of_nat i * PAGE_SIZE"
  from scan have free: "\<not> bitmap_test (of_nat i) s" and low: "?p < IDENTITY_MAP_LIMIT"
    and image: "\<not> (kernel_end s \<le> ?p \<and> ?p < stack_top s)"
    by (auto simp: alloc_table_scan_def Let_def not_le split: if_splits)
  note idx = frame_index [OF i] assms(1) [unfolded frames_ok_def]
  from Some assms(2) have p: "p = ?p"
    and s': "s' = (bitmap_set (of_nat i) s)\<lparr>mem := memset8 (mem s) ?p 0 4096\<rparr>"
    by (auto simp: paging_alloc_table_def Let_def)
  have "takes_frame s ?p s'"
    using idx free i by (intro takes_frame_set) (auto simp: unat_less_iff s')
  then show ?thesis using low image p s' by simp
qed

lemma takes_frame_fresh:
  assumes "takes_frame s p s'"
  shows "\<not> frame_used s p"
proof -
  obtain f where "f < MAX_FRAMES" and "p = f * PAGE_SIZE" and "\<not> bitmap_test f s"
    using assms unfolding takes_frame_def by blast
  then show ?thesis using frame_address [of f p] by (auto simp: frame_used_def)
qed

lemma takes_frame_inv: "takes_frame s p s' \<Longrightarrow> frames_ok s \<Longrightarrow> frames_ok s'"
  by (auto simp: takes_frame_def frames_ok_def)

lemma takes_frame_nonnull:
  assumes "takes_frame s p s'" and "frames_ok s"
  shows "p \<noteq> 0"
proof
  assume "p = 0"
  then have "\<not> frame_used s 0" using assms(1) takes_frame_fresh by blast
  with assms(2) show False by (simp add: frame_used_def frames_ok_def page_aligned_def)
qed

lemma takes_frame_used: "takes_frame s p s' \<Longrightarrow> frame_used s' q \<longleftrightarrow> q = p \<or> frame_used s q"
  by (auto simp: takes_frame_def)

lemma takes_frame_aligned:
  assumes "takes_frame s p s'"
  shows "page_aligned p" and "unat p < 2 ^ 31"
proof -
  obtain f where f: "f < MAX_FRAMES" and p: "p = f * PAGE_SIZE"
    using assms unfolding takes_frame_def by blast
  show "page_aligned p" using frame_address [OF f] p by blast
  show "unat p < 2 ^ 31" using f unfolding p unat_frame_address [OF f] unat_less_iff by simp
qed

lemma alloc_page_fails: "frames_ok s \<Longrightarrow> paging_alloc_page s = (0, s') \<Longrightarrow> s' = s"
  using alloc_page_cases [of s 0 s'] takes_frame_nonnull by auto

lemma alloc_page_takes: "frames_ok s \<Longrightarrow> paging_alloc_page s = (p, s') \<Longrightarrow> p \<noteq> 0 \<Longrightarrow> takes_frame s p s'"
  using alloc_page_cases [of s p s'] by auto

lemma alloc_table_fails: "frames_ok s \<Longrightarrow> paging_alloc_table s = (0, s') \<Longrightarrow> s' = s"
  using alloc_table_cases [of s 0 s'] takes_frame_nonnull by auto

lemma alloc_table_takes:
  "frames_ok s \<Longrightarrow> paging_alloc_table s = (p, s') \<Longrightarrow> p \<noteq> 0 \<Longrightarrow> takes_frame s p s'"
  using alloc_table_cases [of s p s'] by auto

interpretation pages: allocator "\<lambda>s. Some (paging_alloc_page s)" frame_used frames_ok
proof
  fix s s' :: "'a kpaging_scheme" and p q
  assume ok: "frames_ok s" and "Some (paging_alloc_page s) = Some (p, s')"
  then have step: "paging_alloc_page s = (p, s')" by simp
  show "frames_ok s'"
    using alloc_page_cases [OF ok step] takes_frame_inv ok by auto
  show "p \<noteq> 0 \<Longrightarrow> \<not> frame_used s p"
    using alloc_page_takes [OF ok step] takes_frame_fresh by blast
  show "p \<noteq> 0 \<Longrightarrow> frame_used s' q \<longleftrightarrow> q = p \<or> frame_used s q"
    using alloc_page_takes [OF ok step] takes_frame_used by blast
next
  fix s s' :: "'a kpaging_scheme" and q
  assume "frames_ok s" and "Some (paging_alloc_page s) = Some (0, s')"
  then show "frame_used s' q \<longleftrightarrow> frame_used s q" using alloc_page_fails by auto
qed

interpretation tables: allocator "\<lambda>s. Some (paging_alloc_table s)" frame_used frames_ok
proof
  fix s s' :: "'a kpaging_scheme" and p q
  assume ok: "frames_ok s" and "Some (paging_alloc_table s) = Some (p, s')"
  then have step: "paging_alloc_table s = (p, s')" by simp
  show "frames_ok s'"
    using alloc_table_cases [OF ok step] takes_frame_inv ok by auto
  show "p \<noteq> 0 \<Longrightarrow> \<not> frame_used s p"
    using alloc_table_takes [OF ok step] takes_frame_fresh by blast
  show "p \<noteq> 0 \<Longrightarrow> frame_used s' q \<longleftrightarrow> q = p \<or> frame_used s q"
    using alloc_table_takes [OF ok step] takes_frame_used by blast
next
  fix s s' :: "'a kpaging_scheme" and q
  assume "frames_ok s" and "Some (paging_alloc_table s) = Some (0, s')"
  then show "frame_used s' q \<longleftrightarrow> frame_used s q" using alloc_table_fails by auto
qed

section \<open>The properties of the allocators\<close>

text \<open>A machine with 8 frames, of which 0 and 2 are in use; the kernel image ends below frame 4.\<close>

definition frames_example :: kpaging where
  "frames_example = \<lparr>mem = (\<lambda>a. 0xAA), cr3 = 0, kernel_end = 0x1000, stack_bottom = 0x3000,
     stack_top = 0x4000, pml4_table = 0, pdp_table = 0, pd_table = 0,
     frame_bitmap = (\<lambda>i. if i = 0 then 5 else 0), total_frames = 8, pml4 = 0, pdp0 = 0, pd0 = 0\<rparr>"

lemma frame_1_managed [simp]: "\<not> 0x80000 \<le> (1 :: u64)"
  by (simp add: unat_le_iff)

lemma frames_example_ok: "frames_ok frames_example"
  by (simp add: frames_ok_def bitmap_test_def frames_example_def)

lemma frames_example_alloc:
  "fst (paging_alloc_page frames_example) = 0x1000" "fst (paging_alloc_table frames_example) = 0x4000"
proof -
  show "fst (paging_alloc_page frames_example) = 0x1000"
    by (simp add: paging_alloc_page_def paging_alloc_page_noreserve_def for_find_def
        for_scan.simps bitmap_test_def frames_example_def)
  have "for_scan (alloc_table_scan frames_example) 0 8 = Some 4"
    by (simp add: for_scan.simps alloc_table_scan_def bitmap_test_def frames_example_def)
  then show "fst (paging_alloc_table frames_example) = 0x4000"
    by (simp add: paging_alloc_table_def Let_def) (simp add: frames_example_def)
qed

text \<open>C27. Allocating a page.  \<^verbatim>\<open>paging_alloc_page\<close> returns the null pointer only when every frame is
  in use, and then changes nothing; otherwise it returns an aligned frame inside the managed memory
  that was free, and marks this frame, and no other, as used.\<close>

theorem alloc_page_spec:
  assumes "frames_ok s" and "paging_alloc_page s = (p, s')"
  shows "frames_ok s' \<and>
    (if p = 0 then s' = s \<and> (\<forall>f < total_frames s. bitmap_test f s)
     else page_aligned p \<and> p div PAGE_SIZE < total_frames s \<and> \<not> frame_used s p \<and>
       (\<forall>q. frame_used s' q \<longleftrightarrow> q = p \<or> frame_used s q))"
proof (cases "p = 0")
  case True
  then have "\<not> takes_frame s p s'" using takes_frame_nonnull assms(1) by blast
  then show ?thesis using alloc_page_cases [OF assms] assms(1) by auto
next
  case False
  then have takes: "takes_frame s p s'" using alloc_page_cases [OF assms] by blast
  then obtain f where "f < MAX_FRAMES" "f < total_frames s" "p = f * PAGE_SIZE"
    unfolding takes_frame_def by blast
  then have "p div PAGE_SIZE < total_frames s" using frame_address [of f p] by auto
  then show ?thesis
    using False takes_frame_inv [OF takes assms(1)] takes_frame_aligned [OF takes]
      takes_frame_fresh [OF takes] takes_frame_used [OF takes] by simp
qed

theorem alloc_page_spec_witness:
  "\<exists>s'. paging_alloc_page frames_example = (0x1000, s') \<and> \<not> frame_used frames_example 0x1000 \<and>
     frame_used s' 0x1000"
proof -
  obtain s' where step: "paging_alloc_page frames_example = (0x1000, s')"
    using frames_example_alloc(1) by (metis prod.collapse)
  then show ?thesis using alloc_page_spec [OF frames_example_ok step] by simp
qed

text \<open>Allocating a page table.  The frame is below the identity-map limit, so that the kernel can
  edit it through its address, outside the span from the end of the kernel image to the top of the
  boot stack, was free, and reads as zero afterwards; memory outside of it is unchanged.\<close>

theorem alloc_table_spec:
  assumes "frames_ok s" and "paging_alloc_table s = (p, s')" and "p \<noteq> 0"
  shows "p < IDENTITY_MAP_LIMIT \<and> \<not> (kernel_end s \<le> p \<and> p < stack_top s) \<and> page_aligned p \<and>
    \<not> frame_used s p \<and> (\<forall>q. frame_used s' q \<longleftrightarrow> q = p \<or> frame_used s q) \<and>
    (\<forall>a. mem s' a = (if unat (a - p) < 4096 then 0 else mem s a))"
proof -
  from alloc_table_cases [OF assms(1,2)] assms(3)
  have takes: "takes_frame s p s'" and rest: "p < IDENTITY_MAP_LIMIT"
    "\<not> (kernel_end s \<le> p \<and> p < stack_top s)" "mem s' = memset8 (mem s) p 0 4096" by auto
  then show ?thesis
    using takes_frame_aligned [OF takes] takes_frame_fresh [OF takes] takes_frame_used [OF takes]
    by (simp add: memset8_apply)
qed

theorem alloc_table_spec_witness:
  "\<exists>s'. paging_alloc_table frames_example = (0x4000, s') \<and> mem frames_example 0x4008 = 0xAA \<and>
     mem s' 0x4008 = 0 \<and> mem s' 0x5000 = 0xAA"
proof -
  obtain s' where step: "paging_alloc_table frames_example = (0x4000, s')"
    using frames_example_alloc(2) by (metis prod.collapse)
  have m: "mem frames_example a = 0xAA" for a by (simp add: frames_example_def)
  show ?thesis using alloc_table_spec [OF frames_example_ok step] step m by simp
qed

lemma free_page_used:
  assumes "frames_ok s" and "page_aligned p" and "p \<noteq> 0" and "p div PAGE_SIZE < total_frames s"
  shows "frame_used (paging_free_page p s) q \<longleftrightarrow> q \<noteq> p \<and> frame_used s q"
proof -
  have f: "p div PAGE_SIZE < MAX_FRAMES"
    using assms(1,4) unfolding frames_ok_def by (meson less_le_trans)
  then have "p = p div PAGE_SIZE * PAGE_SIZE" using frame_address [OF f, of p] assms(2) by blast
  then show ?thesis
    using frame_used_clear [OF f, of s q] assms by (simp add: paging_free_page_def)
qed

text \<open>Freeing the page just allocated restores the set of used frames exactly.\<close>

theorem free_page_undoes_alloc:
  assumes "frames_ok s" and "paging_alloc_page s = (p, s')" and "p \<noteq> 0"
  shows "frames_ok (paging_free_page p s') \<and> frame_used (paging_free_page p s') q = frame_used s q"
proof -
  have takes: "takes_frame s p s'" using alloc_page_takes assms by blast
  then obtain f where f: "f < MAX_FRAMES" "f < total_frames s" "p = f * PAGE_SIZE" "total_frames s' = total_frames s"
    unfolding takes_frame_def by blast
  then have pf: "p div PAGE_SIZE = f" and al: "page_aligned p" using frame_address [of f p] by auto
  note ok' = takes_frame_inv [OF takes assms(1)]
  have "f \<noteq> 0" using assms(3) f(3) by auto
  then have "frames_ok (paging_free_page p s')"
    using ok' f(1,2,4) bitmap_test_clear [of f 0 s'] assms(3)
    unfolding paging_free_page_def Let_def pf by (simp add: frames_ok_def)
  then show ?thesis
    using free_page_used [OF ok' al assms(3), of q] f pf takes_frame_fresh [OF takes]
      takes_frame_used [OF takes, of q] by auto
qed

theorem free_page_undoes_alloc_witness:
  "\<exists>s'. paging_alloc_page frames_example = (0x1000, s') \<and> \<not> frame_used (paging_free_page 0x1000 s') 0x1000"
proof -
  obtain s' where step: "paging_alloc_page frames_example = (0x1000, s')"
    using frames_example_alloc(1) by (metis prod.collapse)
  have "\<not> frame_used frames_example 0x1000"
    by (simp add: frame_used_def bitmap_test_def frames_example_def)
  then show ?thesis using free_page_undoes_alloc [OF frames_example_ok step, of "0x1000"] step by simp
qed

text \<open>However many pages are allocated one after the other, no page is handed out twice.\<close>

theorem alloc_pages_distinct:
  assumes "frames_ok s" and "pages.allocs n s = Some (ps, s')" and "0 \<notin> set ps"
  shows "distinct ps \<and> (\<forall>p \<in> set ps. \<not> frame_used s p \<and> frame_used s' p)"
  using pages.allocs_distinct [OF assms] pages.allocs_run [OF assms(1,2)] assms(3) by auto

theorem alloc_pages_distinct_witness:
  "\<exists>p q s'. pages.allocs 2 frames_example = Some ([p, q], s') \<and> p \<noteq> q"
proof -
  obtain p s1 where a1: "paging_alloc_page frames_example = (p, s1)" by fastforce
  obtain q s2 where a2: "paging_alloc_page s1 = (q, s2)" by fastforce
  have run: "pages.allocs 2 frames_example = Some ([p, q], s2)"
    by (simp add: numeral_2_eq_2 a1 a2)
  have p: "p = 0x1000" using frames_example_alloc(1) a1 by simp
  have s1: "s1 = bitmap_set 1 frames_example"
    using a1 by (simp add: paging_alloc_page_def paging_alloc_page_noreserve_def for_find_def
        for_scan.simps bitmap_test_def frames_example_def)
  have "q = 0x3000"
    using a2 by (simp add: s1 paging_alloc_page_def paging_alloc_page_noreserve_def for_find_def
        for_scan.simps bitmap_test_def bitmap_set_def frames_example_def)
  then have "0 \<notin> set [p, q]" using p by simp
  then show ?thesis using alloc_pages_distinct [OF frames_example_ok run] run by auto
qed

section \<open>Reserving a range\<close>

lemma fold_bitmap_set_used:
  "b \<le> 2 ^ 64 \<Longrightarrow>
   frame_used (fold (\<lambda>f s. if of_nat f < MAX_FRAMES then bitmap_set (of_nat f) s else s) [a..<b] s) p \<longleftrightarrow>
     frame_used s p \<or> (\<exists>f. a \<le> f \<and> f < b \<and> f < unat MAX_FRAMES \<and> p = of_nat f * PAGE_SIZE)"
proof (induction b)
  case (Suc b)
  let ?F = "fold (\<lambda>f s. if of_nat f < MAX_FRAMES then bitmap_set (of_nat f) s else s) [a..<b] s"
  have b: "unat (of_nat b :: u64) = b" using Suc.prems by (simp add: unat_of_nat_small)
  then have lt: "(of_nat b :: u64) < MAX_FRAMES \<longleftrightarrow> b < unat MAX_FRAMES" by (simp add: unat_less_iff)
  show ?case
  proof (cases "a \<le> b")
    case True
    then have "fold (\<lambda>f s. if of_nat f < MAX_FRAMES then bitmap_set (of_nat f) s else s) [a..<Suc b] s =
        (if of_nat b < MAX_FRAMES then bitmap_set (of_nat b) ?F else ?F)" by simp
    then show ?thesis
      using Suc True frame_used_set [of "of_nat b" ?F p] lt
      by (auto simp: less_Suc_eq simp del: upt_Suc MAX_FRAMES_def PAGE_SIZE_def)
  next
    case False
    then show ?thesis by auto
  qed
qed simp

text \<open>Reserving a range marks every frame that the range touches as used, also partly covered
  ones at its ends, and no frame besides.\<close>

theorem reserve_frames_spec:
  assumes "unat stop + 4096 \<le> 2 ^ 64"
  shows "frame_used (reserve_frames start stop s) p \<longleftrightarrow>
    frame_used s p \<or>
    (page_aligned p \<and> unat p < unat MAX_PHYS_MEM \<and> unat start < unat p + 4096 \<and> unat p < unat stop)"
proof -
  define a where "a = unat start div 4096"
  define b where "b = (unat stop + 4095) div 4096"
  have mask: "PAGE_MASK = NOT (mask 12)" by (simp add: mask_eq_exp_minus_1)
  have up: "unat (stop + PAGE_SIZE - 1) = unat stop + 4095"
  proof -
    have "unat (stop + 4095) = unat stop + 4095" using assms by (simp add: unat_add_small)
    then show ?thesis by (simp add: add_diff_eq [symmetric])
  qed
  have lo: "unat ((start AND PAGE_MASK) div PAGE_SIZE) = a"
    by (simp only: unat_div mask unat_and_not_mask a_def) simp
  have hi: "unat ((stop + PAGE_SIZE - 1 AND PAGE_MASK) div PAGE_SIZE) = b"
    by (simp only: unat_div mask unat_and_not_mask up b_def) simp
  have b: "b \<le> 2 ^ 64" using assms by (simp add: b_def)
  have res: "reserve_frames start stop s =
      fold (\<lambda>f s. if of_nat f < MAX_FRAMES then bitmap_set (of_nat f) s else s) [a..<b] s"
    unfolding reserve_frames_def Let_def lo hi ..
  have "(\<exists>f. a \<le> f \<and> f < b \<and> f < unat MAX_FRAMES \<and> p = of_nat f * PAGE_SIZE) \<longleftrightarrow>
      page_aligned p \<and> unat p < unat MAX_PHYS_MEM \<and> unat start < unat p + 4096 \<and> unat p < unat stop"
    (is "?L \<longleftrightarrow> ?R")
  proof
    assume ?L
    then obtain f where f: "a \<le> f" "f < b" "f < 0x80000" "p = of_nat f * PAGE_SIZE" by auto
    have "unat p = f * 4096"
      using f(3,4) unat_frame_address [of "of_nat f"] by (simp add: unat_less_iff unat_of_nat_small)
    then show ?R using f unfolding a_def b_def page_aligned_def by auto
  next
    assume R: ?R
    then obtain f where f: "unat p = f * 4096" unfolding page_aligned_def by (metis mod_0_imp_dvd dvdE mult.commute)
    with R have lt: "f < 0x80000" "a \<le> f" "f < b" unfolding a_def b_def by auto
    then have "unat (of_nat f * PAGE_SIZE :: u64) = f * 4096"
      using unat_frame_address [of "of_nat f"] by (simp add: unat_less_iff unat_of_nat_small)
    then have "p = of_nat f * PAGE_SIZE" using f by (simp only: unat_eq_iff)
    then show ?L using lt by auto
  qed
  then show ?thesis unfolding res fold_bitmap_set_used [OF b] by blast
qed

theorem reserve_frames_spec_witness:
  "frame_used (reserve_frames 0x1800 0x3001 frames_example) 0x3000 \<and>
   frame_used (reserve_frames 0x1800 0x3001 frames_example) 0x1000 \<and>
   \<not> frame_used (reserve_frames 0x1800 0x3001 frames_example) 0x4000"
proof -
  have "unat (0x3001 :: u64) + 4096 \<le> 2 ^ 64" by simp
  note spec = reserve_frames_spec [OF this, of "0x1800" frames_example]
  have "\<not> frame_used frames_example 0x4000"
    by (simp add: frame_used_def bitmap_test_def frames_example_def)
  then show ?thesis unfolding spec by (simp add: page_aligned_def)
qed

end
