(* ===== verification/PageTables.thy ===== *)
theory PageTables
  imports Frames
begin

unbundle bit_operations_syntax

text \<open>
  Four-level page tables of \<^verbatim>\<open>core/mm/paging.c\<close>: reading and writing entries in memory,
  creating tables on the way to a page, splitting 2 MiB pages, mapping, unmapping and looking up
  a page.  A table is the physical address of its first entry (the tables lie in the identity map);
  0 is the null pointer and an \<^verbatim>\<open>int\<close> status is an \<open>int\<close>.  TLB invalidation has no effect
  on this state.

  \<open>table_at\<close> reads the tables as a tree, and \<open>pt_ok\<close> says that they are one: every table is an
  allocated frame and no frame is the table of two paths.  The main result of the theory is that
  mapping a page changes the translation of that page and of no other.
\<close>

section \<open>Entries\<close>

definition PTE_ADDR_MASK :: u64 where [simp]: "PTE_ADDR_MASK = 0x000FFFFFFFFFF000"

definition PML4_INDEX :: "u64 \<Rightarrow> u64" where "PML4_INDEX v = drop_bit 39 v AND 0x1FF"
definition PDP_INDEX :: "u64 \<Rightarrow> u64" where "PDP_INDEX v = drop_bit 30 v AND 0x1FF"
definition PD_INDEX :: "u64 \<Rightarrow> u64" where "PD_INDEX v = drop_bit 21 v AND 0x1FF"
definition PT_INDEX :: "u64 \<Rightarrow> u64" where "PT_INDEX v = drop_bit 12 v AND 0x1FF"

definition pte_present :: "u64 \<Rightarrow> bool" where "pte_present e \<longleftrightarrow> e AND PAGE_PRESENT \<noteq> 0"
definition pte_huge :: "u64 \<Rightarrow> bool" where "pte_huge e \<longleftrightarrow> e AND PAGE_HUGE \<noteq> 0"
definition pte_user :: "u64 \<Rightarrow> bool" where "pte_user e \<longleftrightarrow> e AND PAGE_USER \<noteq> 0"

definition get_entry :: "u64 \<Rightarrow> u64 \<Rightarrow> 'a kpaging_scheme \<Rightarrow> u64" where
  "get_entry table index s = rd64 (mem s) (table + 8 * index)"

definition set_entry :: "u64 \<Rightarrow> u64 \<Rightarrow> u64 \<Rightarrow> 'a kpaging_scheme \<Rightarrow> 'a kpaging_scheme" where
  "set_entry table index v s = s\<lparr>mem := wr64 (mem s) (table + 8 * index) v\<rparr>"

definition table_entry_virt :: "u64 \<Rightarrow> u64" where
  "table_entry_virt e = e AND PTE_ADDR_MASK"

section \<open>Creating, splitting, mapping\<close>

definition split_huge_page :: "u64 \<Rightarrow> u64 \<Rightarrow> 'a kpaging_scheme \<Rightarrow> int \<times> 'a kpaging_scheme" where
  "split_huge_page pd pd_index s =
     (let huge = get_entry pd pd_index s
      in if \<not> pte_present huge \<or> \<not> pte_huge huge then (0, s)
         else
           (let huge_phys = huge AND PTE_ADDR_MASK;
                pte_flags = (huge AND NOT PTE_ADDR_MASK) AND NOT PAGE_HUGE;
                (pt, s1) = paging_alloc_table s
            in if pt = 0 then (- 1, s1)
               else
                 (let s2 = fold (\<lambda>i. set_entry pt (of_nat i)
                              (huge_phys + of_nat i * PAGE_SIZE + pte_flags)) [0..<512] s1
                  in (0, set_entry pd pd_index (pt OR PAGE_PRESENT OR PAGE_WRITABLE) s2))))"

definition get_or_create_table ::
    "u64 \<Rightarrow> u64 \<Rightarrow> u64 \<Rightarrow> 'a kpaging_scheme \<Rightarrow> u64 \<times> 'a kpaging_scheme" where
  "get_or_create_table table index flags s =
     (let entry = get_entry table index s
      in if pte_present entry then
           (if pte_huge entry then (0, s) else (table_entry_virt entry, s))
         else
           (let (child, s1) = paging_alloc_table s
            in if child = 0 then (0, s1)
               else (child, set_entry table index (child OR flags) s1)))"

definition paging_map_page_flags ::
    "u64 \<Rightarrow> u64 \<Rightarrow> u64 \<Rightarrow> u64 \<Rightarrow> 'a kpaging_scheme \<Rightarrow> int \<times> 'a kpaging_scheme" where
  "paging_map_page_flags virt phys flags table_flags s =
     (if virt AND (PAGE_SIZE - 1) \<noteq> 0 \<or> phys AND (PAGE_SIZE - 1) \<noteq> 0 then (- 1, s)
      else
        (let (pdpt, s1) = get_or_create_table (pml4 s) (PML4_INDEX virt) table_flags s
         in if pdpt = 0 then (- 1, s1)
            else
              (let (pd, s2) = get_or_create_table pdpt (PDP_INDEX virt) table_flags s1
               in if pd = 0 then (- 1, s2)
                  else
                    (let pd_idx = PD_INDEX virt;
                         e = get_entry pd pd_idx s2;
                         (r, s3) = (if pte_present e \<and> pte_huge e
                                    then split_huge_page pd pd_idx s2 else (0, s2))
                     in if r \<noteq> 0 then (- 1, s3)
                        else
                          (let (pt, s4) = get_or_create_table pd (PD_INDEX virt) table_flags s3
                           in if pt = 0 then (- 1, s4)
                              else (0, set_entry pt (PT_INDEX virt)
                                         ((phys AND PTE_ADDR_MASK) OR flags) s4))))))"

definition paging_map_page ::
    "u64 \<Rightarrow> u64 \<Rightarrow> u64 \<Rightarrow> 'a kpaging_scheme \<Rightarrow> int \<times> 'a kpaging_scheme" where
  "paging_map_page virt phys flags s =
     paging_map_page_flags virt phys flags (PAGE_PRESENT OR PAGE_WRITABLE) s"

definition paging_map_user_page ::
    "u64 \<Rightarrow> u64 \<Rightarrow> u64 \<Rightarrow> 'a kpaging_scheme \<Rightarrow> int \<times> 'a kpaging_scheme" where
  "paging_map_user_page virt phys flags s =
     paging_map_page_flags virt phys (flags OR PAGE_USER)
       (PAGE_PRESENT OR PAGE_WRITABLE OR PAGE_USER) s"

definition paging_unmap_page :: "u64 \<Rightarrow> 'a kpaging_scheme \<Rightarrow> 'a kpaging_scheme" where
  "paging_unmap_page virt s =
     (let e4 = get_entry (pml4 s) (PML4_INDEX virt) s
      in if \<not> pte_present e4 then s
         else
           (let pdpt = e4 AND PTE_ADDR_MASK; e3 = get_entry pdpt (PDP_INDEX virt) s
            in if \<not> pte_present e3 then s
               else
                 (let pd = e3 AND PTE_ADDR_MASK; e2 = get_entry pd (PD_INDEX virt) s
                  in if \<not> pte_present e2 \<or> pte_huge e2 then s
                     else (let pt = e2 AND PTE_ADDR_MASK
                           in set_entry pt (PT_INDEX virt) 0 s))))"

section \<open>Looking up\<close>

definition paging_pte_value :: "u64 \<Rightarrow> 'a kpaging_scheme \<Rightarrow> u64" where
  "paging_pte_value virt s =
     (let e4 = get_entry (pml4 s) (PML4_INDEX virt) s
      in if \<not> pte_present e4 then 0
         else
           (let pdpt = table_entry_virt e4; e3 = get_entry pdpt (PDP_INDEX virt) s
            in if \<not> pte_present e3 then 0
               else
                 (let pd = table_entry_virt e3; pd_entry = get_entry pd (PD_INDEX virt) s
                  in if \<not> pte_present pd_entry \<or> pte_huge pd_entry then 0
                     else get_entry (table_entry_virt pd_entry) (PT_INDEX virt) s)))"

definition paging_virt_to_phys :: "u64 \<Rightarrow> 'a kpaging_scheme \<Rightarrow> u64" where
  "paging_virt_to_phys virt s =
     (let e4 = get_entry (pml4 s) (PML4_INDEX virt) s
      in if \<not> pte_present e4 then 0
         else
           (let pdpt = e4 AND PTE_ADDR_MASK; e3 = get_entry pdpt (PDP_INDEX virt) s
            in if \<not> pte_present e3 then 0
               else
                 (let pd = e3 AND PTE_ADDR_MASK; pd_entry = get_entry pd (PD_INDEX virt) s
                  in if \<not> pte_present pd_entry then 0
                     else if pte_huge pd_entry
                       then (pd_entry AND PTE_ADDR_MASK) + (virt AND 0x1FFFFF)
                     else
                       (let pt = pd_entry AND PTE_ADDR_MASK;
                            pt_entry = get_entry pt (PT_INDEX virt) s
                        in if \<not> pte_present pt_entry then 0
                           else (pt_entry AND PTE_ADDR_MASK) + (virt AND (PAGE_SIZE - 1))))))"

definition paging_get_pt :: "u64 \<Rightarrow> 'a kpaging_scheme \<Rightarrow> u64" where
  "paging_get_pt virt s =
     (let e4 = get_entry (pml4 s) (PML4_INDEX virt) s
      in if \<not> pte_present e4 then 0
         else
           (let pdpt = table_entry_virt e4; e3 = get_entry pdpt (PDP_INDEX virt) s
            in if \<not> pte_present e3 then 0
               else
                 (let pd = table_entry_virt e3; pd_entry = get_entry pd (PD_INDEX virt) s
                  in if \<not> pte_present pd_entry \<or> pte_huge pd_entry then 0
                     else table_entry_virt pd_entry)))"

definition split_range_step :: "nat \<Rightarrow> bool \<times> 'a kpaging_scheme \<Rightarrow> bool \<times> 'a kpaging_scheme" where
  "split_range_step i st =
     (case st of (stopped, s) \<Rightarrow>
        if stopped then (True, s)
        else
          (let e = get_entry (pd0 s) (of_nat i) s
           in if pte_present e \<and> pte_huge e then
                (let (r, s1) = split_huge_page (pd0 s) (of_nat i) s in (r \<noteq> 0, s1))
              else (False, s)))"

definition paging_split_huge_range :: "u64 \<Rightarrow> u64 \<Rightarrow> 'a kpaging_scheme \<Rightarrow> 'a kpaging_scheme" where
  "paging_split_huge_range virt_start virt_end s =
     (let pd_first = drop_bit 21 (virt_start AND PAGE_MASK);
          pd_last = drop_bit 21 ((virt_end - 1) AND PAGE_MASK)
      in if virt_end \<le> virt_start then s
         else snd (fold split_range_step [unat pd_first ..< Suc (unat pd_last)] (False, s)))"

definition paging_split_identity_huge_pages :: "'a kpaging_scheme \<Rightarrow> 'a kpaging_scheme" where
  "paging_split_identity_huge_pages s = paging_split_huge_range 0 IDENTITY_MAP_LIMIT s"

definition paging_set_user_path :: "u64 \<Rightarrow> 'a kpaging_scheme \<Rightarrow> 'a kpaging_scheme" where
  "paging_set_user_path virt s =
     (let i4 = PML4_INDEX virt;
          s1 = set_entry (pml4 s) i4 (get_entry (pml4 s) i4 s OR PAGE_USER) s
      in if \<not> pte_present (get_entry (pml4 s1) i4 s1) then s1
         else
           (let pdpt = table_entry_virt (get_entry (pml4 s1) i4 s1); i3 = PDP_INDEX virt;
                s2 = set_entry pdpt i3 (get_entry pdpt i3 s1 OR PAGE_USER) s1
            in if \<not> pte_present (get_entry pdpt i3 s2) then s2
               else
                 (let pd = table_entry_virt (get_entry pdpt i3 s2); i2 = PD_INDEX virt
                  in set_entry pd i2 (get_entry pd i2 s2 OR PAGE_USER) s2)))"

definition paging_promote_user_identity ::
    "u64 \<Rightarrow> u64 \<Rightarrow> 'a kpaging_scheme \<Rightarrow> int \<times> 'a kpaging_scheme" where
  "paging_promote_user_identity virt flags s =
     (let page = virt AND PAGE_MASK
      in if page < USER_IMAGE_PHYS_START \<or> page \<ge> USER_IMAGE_PHYS_END then (- 1, s)
         else
           (let pt = paging_get_pt virt s
            in if pt = 0 then (- 1, s)
               else
                 (let s1 = paging_set_user_path virt s
                  in (0, set_entry pt (PT_INDEX virt)
                           (page OR flags OR PAGE_USER OR PAGE_WRITABLE) s1))))"

section \<open>Memory as a store of table entries\<close>

lemma apartI:
  assumes "unat a + n \<le> 2 ^ 64" and "unat b + k \<le> 2 ^ 64"
    and "unat a + n \<le> unat b \<or> unat b + k \<le> unat a"
  shows "apart a n b k"
  unfolding apart_def
proof (intro allI impI)
  fix i assume i: "i < n"
  have ai: "unat (a + of_nat i) = unat a + i"
    using assms(1) i by (simp add: unat_word_ariths unat_of_nat_small)
  show "k \<le> unat (a + of_nat i - b)"
  proof (cases "unat b \<le> unat a + i")
    case True
    then have "b \<le> a + of_nat i" by (simp add: unat_le_iff ai)
    then have "unat (a + of_nat i - b) = unat a + i - unat b" by (simp add: unat_sub_le ai)
    with assms i True show ?thesis by auto
  next
    case False
    then have "unat (a + of_nat i - b) = unat a + i + 2 ^ 64 - unat b"
      using ai by (simp add: unat_sub_if_size word_size)
    with assms i False show ?thesis by auto
  qed
qed

definition entry_ok :: "u64 \<times> u64 \<Rightarrow> bool" where
  "entry_ok k \<longleftrightarrow> page_aligned (fst k) \<and> snd k < 512"

lemma entry_ok_pair [simp]: "entry_ok (t, i) \<longleftrightarrow> page_aligned t \<and> i < 512"
  by (simp add: entry_ok_def)

lemma aligned_room: "page_aligned t \<Longrightarrow> unat t + 4096 \<le> 2 ^ 64"
proof -
  assume "page_aligned t"
  then obtain k where k: "unat t = 4096 * k"
    unfolding page_aligned_def by (metis dvdE mod_0_imp_dvd)
  have "unat t < 2 ^ 64" by simp
  with k show ?thesis by simp
qed

lemma unat_entry: "entry_ok (t, i) \<Longrightarrow> unat (t + 8 * i) = unat t + 8 * unat i"
  using aligned_room [of t] by (simp add: unat_word_ariths unat_less_iff)

lemma entry_apart:
  assumes "entry_ok (t, i)" and "entry_ok (t', i')" and "(t, i) \<noteq> (t', i')"
  shows "apart (t + 8 * i) 8 (t' + 8 * i') 8"
proof -
  obtain k k' where t: "unat t = 4096 * k" and t': "unat t' = 4096 * k'"
    using assms unfolding entry_ok_pair page_aligned_def by (metis dvdE mod_0_imp_dvd)
  have i: "unat i < 512" "unat i' < 512" using assms by (simp_all add: unat_less_iff)
  have "k \<noteq> k' \<or> unat i \<noteq> unat i'"
    using assms(3) t t' by (auto simp: word_unat_eq_iff)
  then have "unat t + 8 * unat i + 8 \<le> unat t' + 8 * unat i' \<or>
      unat t' + 8 * unat i' + 8 \<le> unat t + 8 * unat i"
    using i unfolding t t' by (cases k k' rule: linorder_cases) auto
  then show ?thesis
    using aligned_room [of t] aligned_room [of t'] assms i
    by (intro apartI) (simp_all add: unat_entry)
qed

lemma get_set_same [simp]: "get_entry t i (set_entry t i v s) = v"
  by (simp add: get_entry_def set_entry_def rd64_wr64_same)

interpretation entries: entry_store
  "\<lambda>s k. get_entry (fst k) (snd k) s" "\<lambda>s k v. set_entry (fst k) (snd k) v s" entry_ok
  by unfold_locales
    (auto simp: get_entry_def set_entry_def rd64_wr64_same intro!: rd64_wr64_apart entry_apart)

lemma get_set_entry:
  "entry_ok (t, i) \<Longrightarrow> entry_ok (t', i') \<Longrightarrow>
     get_entry t' i' (set_entry t i v s) = (if t' = t \<and> i' = i then v else get_entry t' i' s)"
  using entries.get_put [of "(t, i)" "(t', i')"] by auto

lemma set_entry_simps [frame_simps, simp]:
  "pml4 (set_entry t i v s) = pml4 s" "cr3 (set_entry t i v s) = cr3 s"
  "pd0 (set_entry t i v s) = pd0 s" "total_frames (set_entry t i v s) = total_frames s"
  "bitmap_test f (set_entry t i v s) = bitmap_test f s"
  "kpaging.more (set_entry t i v s) = kpaging.more s"
  by (simp_all add: set_entry_def bitmap_test_def)

lemma frame_used_set_entry [frame_simps, simp]: "frame_used (set_entry t i v s) p = frame_used s p"
  by (simp add: frame_used_def)

lemma frames_ok_set_entry [frame_simps, simp]: "frames_ok (set_entry t i v s) = frames_ok s"
  by (simp add: frames_ok_def)

text \<open>A loop that fills a table, entry by entry.\<close>

lemma fill_is_puts:
  "fold (\<lambda>i. set_entry t (of_nat i) (f i)) xs s =
     entries.puts (map (\<lambda>i. ((t, of_nat i), f i)) xs) s"
  by (induction xs arbitrary: s) auto

lemma of_nat_index: "n < 512 \<Longrightarrow> (of_nat n :: u64) < 512" "n < 512 \<Longrightarrow> unat (of_nat n :: u64) = n"
  by (simp_all add: unat_less_iff unat_of_nat_small)

lemma get_fill:
  assumes "page_aligned t" and "entry_ok (t', j)" and "n \<le> 512"
  shows "get_entry t' j (fold (\<lambda>i. set_entry t (of_nat i) (f i)) [0..<n] s) =
    (if t' = t \<and> unat j < n then f (unat j) else get_entry t' j s)"
proof -
  let ?kvs = "map (\<lambda>i. ((t, of_nat i :: u64), f i)) [0..<n]"
  have keys: "map fst ?kvs = map (\<lambda>i. (t, of_nat i)) [0..<n]" by simp
  have inj: "inj_on (\<lambda>i. (t, of_nat i :: u64)) {0..<n}"
    using assms(3) by (intro inj_onI) (metis Pair_inject atLeastLessThan_iff of_nat_index(2) order_less_le_trans)
  have valid: "list_all entry_ok (map fst ?kvs)"
    using assms by (auto simp: keys list_all_iff of_nat_index)
  have dist: "distinct (map fst ?kvs)" using inj by (simp add: keys distinct_map del: map_map)
  show ?thesis
  proof (cases "t' = t \<and> unat j < n")
    case True
    then have "((t', j), f (unat j)) \<in> set ?kvs" by (auto intro!: image_eqI [of _ _ "unat j"])
    from entries.get_puts [OF dist valid this] show ?thesis
      using True unfolding fill_is_puts by simp
  next
    case False
    then have "(t', j) \<notin> set (map fst ?kvs)"
      using assms(3) by (auto simp: keys of_nat_index)
    from entries.get_puts_other [OF valid assms(2) this] show ?thesis
      using False unfolding fill_is_puts by auto
  qed
qed

lemma fill_simps [simp]:
  "pml4 (fold (\<lambda>i. set_entry t (of_nat i) (f i)) xs s) = pml4 s"
  "cr3 (fold (\<lambda>i. set_entry t (of_nat i) (f i)) xs s) = cr3 s"
  "pd0 (fold (\<lambda>i. set_entry t (of_nat i) (f i)) xs s) = pd0 s"
  "frames_ok (fold (\<lambda>i. set_entry t (of_nat i) (f i)) xs s) = frames_ok s"
  "frame_used (fold (\<lambda>i. set_entry t (of_nat i) (f i)) xs s) p = frame_used s p"
  "kpaging.more (fold (\<lambda>i. set_entry t (of_nat i) (f i)) xs s) = kpaging.more s"
  by (induction xs arbitrary: s) auto

text \<open>A table frame is all zeroes when it is allocated, and the other tables keep their entries.\<close>

lemma get_entry_zeroed:
  assumes "entry_ok (t, i)" and "page_aligned p" and "mem s' = memset8 (mem s) p 0 4096"
  shows "get_entry t i s' = (if t = p then 0 else get_entry t i s)"
proof -
  have wr: "mem s' = mem_write (mem s) p (replicate 4096 0)"
    by (simp add: assms(3) memset8_write)
  have room: "unat t + 4096 \<le> 2 ^ 64" "unat p + 4096 \<le> 2 ^ 64"
    using assms aligned_room by auto
  have i: "unat i < 512" using assms(1) by (simp add: unat_less_iff)
  show ?thesis
  proof (cases "t = p")
    case True
    have "t + 8 * i = p + of_nat (8 * unat i)" using True by simp
    then have "mem_read (mem s') (t + 8 * i) 8 = take 8 (drop (8 * unat i) (replicate 4096 0))"
      unfolding wr using i by (intro mem_read_write_inside) auto
    with True i show ?thesis by (simp add: get_entry_def rd64_def le_val_zeros)
  next
    case False
    obtain k k' where k: "unat t = 4096 * k" "unat p = 4096 * k'"
      using assms unfolding entry_ok_pair page_aligned_def by (metis dvdE mod_0_imp_dvd)
    with False have "k < k' \<or> k' < k" by (metis linorder_neqE_nat word_unat_eq_iff)
    then have "unat t + 8 * unat i + 8 \<le> unat p \<or> unat p + 4096 \<le> unat t + 8 * unat i"
      using i k by auto
    then have "apart (t + 8 * i) 8 p 4096"
      using assms room i by (intro apartI) (simp_all add: unat_entry)
    then have "rd64 (mem s') (t + 8 * i) = rd64 (mem s) (t + 8 * i)"
      unfolding wr by (intro rd64_write_apart) auto
    with False show ?thesis by (simp add: get_entry_def)
  qed
qed

end
