(* ===== verification/Translation.thy ===== *)
theory Translation
  imports PageTables
begin

unbundle bit_operations_syntax

text \<open>
  What the page tables mean and what mapping a page does to them.  A path is a list of table
  indices, the innermost first; \<open>table_at s p\<close> is the table it leads to.  \<open>pt_ok\<close> is the invariant of
  the page-table code: the tables form a tree of allocated frames, 2 MiB entries occur only in page
  directories and are aligned, and all tables lie below the identity-map limit.  Every operation of \<open>PageTables\<close> that edits tables keeps it, and
  \<open>map_page_flags_translates\<close> describes the translation afterwards.
\<close>

section \<open>The tree of tables\<close>

fun table_at :: "'a kpaging_scheme \<Rightarrow> u64 list \<Rightarrow> u64 option" where
  "table_at s [] = Some (pml4 s)"
| "table_at s (i # p) =
     (case table_at s p of
        None \<Rightarrow> None
      | Some t \<Rightarrow>
          (let e = get_entry t i s
           in if pte_present e \<and> \<not> pte_huge e then Some (e AND PTE_ADDR_MASK) else None))"

definition valid_path :: "u64 list \<Rightarrow> bool" where
  "valid_path p \<longleftrightarrow> length p \<le> 3 \<and> (\<forall>i \<in> set p. i < 512)"

lemma valid_path_Nil [simp]: "valid_path []"
  by (simp add: valid_path_def)

lemma valid_path_Cons: "valid_path (i # p) \<longleftrightarrow> i < 512 \<and> valid_path p \<and> length p \<le> 2"
  by (auto simp: valid_path_def)

definition pt_ok :: "'a kpaging_scheme \<Rightarrow> bool" where
  "pt_ok s \<longleftrightarrow>
     (\<forall>p t. valid_path p \<longrightarrow> table_at s p = Some t \<longrightarrow>
        frame_used s t \<and> t \<noteq> 0 \<and> t < IDENTITY_MAP_LIMIT) \<and>
     (\<forall>p q t. valid_path p \<longrightarrow> valid_path q \<longrightarrow> table_at s p = Some t \<longrightarrow> table_at s q = Some t \<longrightarrow> p = q) \<and>
     (\<forall>p t i. valid_path (i # p) \<longrightarrow> table_at s p = Some t \<longrightarrow> pte_present (get_entry t i s) \<longrightarrow>
        pte_huge (get_entry t i s) \<longrightarrow> length p = 2 \<and> get_entry t i s AND 0x1FF000 = 0)"

lemma pt_ok_table:
  assumes "pt_ok s" and "valid_path p" and "table_at s p = Some t"
  shows "frame_used s t" and "t \<noteq> 0" and "page_aligned t" and "t < IDENTITY_MAP_LIMIT"
  using assms unfolding pt_ok_def frame_used_def by blast+

lemma pt_ok_inject:
  "pt_ok s \<Longrightarrow> valid_path p \<Longrightarrow> valid_path q \<Longrightarrow> table_at s p = Some t \<Longrightarrow> table_at s q = Some t \<Longrightarrow> p = q"
  unfolding pt_ok_def by blast

lemma pt_ok_huge:
  "pt_ok s \<Longrightarrow> valid_path (i # p) \<Longrightarrow> table_at s p = Some t \<Longrightarrow> pte_present (get_entry t i s) \<Longrightarrow>
     pte_huge (get_entry t i s) \<Longrightarrow> length p = 2 \<and> get_entry t i s AND 0x1FF000 = 0"
  unfolding pt_ok_def by blast

lemma index_less [simp]:
  "PML4_INDEX v < 512" "PDP_INDEX v < 512" "PD_INDEX v < 512" "PT_INDEX v < 512"
proof -
  have "x AND 0x1FF < (512::u64)" for x
    using word_and_le1 [of x "0x1FF"] by (rule le_less_trans) simp
  then show "PML4_INDEX v < 512" "PDP_INDEX v < 512" "PD_INDEX v < 512" "PT_INDEX v < 512"
    by (simp_all add: PML4_INDEX_def PDP_INDEX_def PD_INDEX_def PT_INDEX_def)
qed

definition pd_path :: "u64 \<Rightarrow> u64 list" where
  "pd_path v = [PDP_INDEX v, PML4_INDEX v]"

lemma pd_path_valid [simp]: "valid_path (pd_path v)" "length (pd_path v) = 2"
  by (simp_all add: pd_path_def valid_path_def)

lemma valid_pt_path [simp]: "valid_path (PD_INDEX v # pd_path v)"
  by (simp add: valid_path_Cons)

text \<open>The lookup of the code, read on the tree.\<close>

lemma virt_to_phys_tree:
  assumes "pt_ok s"
  shows "paging_virt_to_phys v s =
    (case table_at s (pd_path v) of
       None \<Rightarrow> 0
     | Some pd \<Rightarrow>
         (let e = get_entry pd (PD_INDEX v) s
          in if \<not> pte_present e then 0
             else if pte_huge e then (e AND PTE_ADDR_MASK) + (v AND 0x1FFFFF)
             else
               (let f = get_entry (e AND PTE_ADDR_MASK) (PT_INDEX v) s
                in if \<not> pte_present f then 0
                   else (f AND PTE_ADDR_MASK) + (v AND (PAGE_SIZE - 1)))))"
proof -
  have h4: "pte_present (get_entry (pml4 s) (PML4_INDEX v) s) \<Longrightarrow>
      \<not> pte_huge (get_entry (pml4 s) (PML4_INDEX v) s)"
    using pt_ok_huge [OF assms, of "PML4_INDEX v" "[]"] by (auto simp: valid_path_def)
  have h3: "table_at s [PML4_INDEX v] = Some t \<Longrightarrow> pte_present (get_entry t (PDP_INDEX v) s) \<Longrightarrow>
      \<not> pte_huge (get_entry t (PDP_INDEX v) s)" for t
    using pt_ok_huge [OF assms, of "PDP_INDEX v" "[PML4_INDEX v]"] by (auto simp: valid_path_def)
  show ?thesis
    using h4 h3 by (auto simp: paging_virt_to_phys_def pd_path_def Let_def)
qed

section \<open>Linking a new table into the tree\<close>

text \<open>A table that is about to be linked: a fresh frame; no other table has changed, and unless it
  becomes a page table (a path of length 3) it is empty.\<close>

definition new_table :: "'a kpaging_scheme \<Rightarrow> u64 \<Rightarrow> 'a kpaging_scheme \<Rightarrow> bool" where
  "new_table s c s1 \<longleftrightarrow>
     page_aligned c \<and> c \<noteq> 0 \<and> c < IDENTITY_MAP_LIMIT \<and> c AND PTE_ADDR_MASK = c \<and> \<not> frame_used s c \<and>
     pml4 s1 = pml4 s \<and> (\<forall>q. frame_used s1 q \<longleftrightarrow> q = c \<or> frame_used s q) \<and>
     (\<forall>t i. entry_ok (t, i) \<longrightarrow> t \<noteq> c \<longrightarrow> get_entry t i s1 = get_entry t i s)"

definition linkable :: "u64 \<Rightarrow> bool" where
  "linkable flags \<longleftrightarrow> flags AND PTE_ADDR_MASK = 0 \<and> pte_present flags \<and> \<not> pte_huge flags"

lemma link_entry:
  assumes "c AND PTE_ADDR_MASK = c" and "linkable flags"
  shows "pte_present (c OR flags)" and "\<not> pte_huge (c OR flags)"
    and "(c OR flags) AND PTE_ADDR_MASK = c"
proof -
  show "(c OR flags) AND PTE_ADDR_MASK = c"
    using assms unfolding linkable_def by (simp add: bit.conj_disj_distrib2)
  have low: "c AND b = 0" if "PTE_ADDR_MASK AND b = 0" for b
  proof -
    have "c AND b = c AND (PTE_ADDR_MASK AND b)" by (simp only: and.assoc [symmetric] assms(1))
    then show ?thesis using that by simp
  qed
  show "\<not> pte_huge (c OR flags)" and "pte_present (c OR flags)"
    using assms low [of PAGE_HUGE] low [of PAGE_PRESENT]
    unfolding linkable_def pte_huge_def pte_present_def by (simp_all add: bit.conj_disj_distrib2)
qed

text \<open>\<open>links s s1 s2 p t i c flags\<close>: the table at path \<open>p\<close> is \<open>t\<close>, its entry \<open>i\<close> leads to no table,
  and the code stores the new table \<open>c\<close> there.\<close>

definition links ::
    "'a kpaging_scheme \<Rightarrow> 'a kpaging_scheme \<Rightarrow> 'a kpaging_scheme \<Rightarrow> u64 list \<Rightarrow> u64 \<Rightarrow> u64 \<Rightarrow> u64 \<Rightarrow> u64 \<Rightarrow> bool"
where
  "links s s1 s2 p t i c flags \<longleftrightarrow>
     pt_ok s \<and> valid_path (i # p) \<and> table_at s p = Some t \<and> table_at s (i # p) = None \<and>
     new_table s c s1 \<and> (length p < 2 \<longrightarrow> (\<forall>j < 512. \<not> pte_present (get_entry c j s1))) \<and>
     linkable flags \<and> s2 = set_entry t i (c OR flags) s1"

lemma links_facts:
  assumes "links s s1 s2 p t i c flags"
  shows "pt_ok s" and "valid_path (i # p)" and "table_at s p = Some t" and "table_at s (i # p) = None"
    and "new_table s c s1" and "length p < 2 \<Longrightarrow> j < 512 \<Longrightarrow> \<not> pte_present (get_entry c j s1)"
    and "linkable flags" and "s2 = set_entry t i (c OR flags) s1"
  using assms unfolding links_def by blast+

lemma links_table:
  assumes L: "links s s1 s2 p t i c flags"
  shows "page_aligned t" "i < 512" "t \<noteq> c" "valid_path p" "length p \<le> 2" "page_aligned c"
    "\<And>q. frame_used s2 q \<longleftrightarrow> q = c \<or> frame_used s q" "\<not> frame_used s c" "c \<noteq> 0"
  using pt_ok_table [OF links_facts(1) _ links_facts(3), OF L _ L] links_facts(2,5,8) [OF L]
  by (auto simp: valid_path_Cons new_table_def)

lemma links_entry:
  assumes L: "links s s1 s2 p t i c flags" and "entry_ok (t', j)"
  shows "get_entry t' j s2 = (if t' = t \<and> j = i then c OR flags else get_entry t' j s1)"
  using assms(2) links_table [OF L] by (simp add: links_facts(8) [OF L] get_set_entry)

lemma links_entry_kept:
  assumes L: "links s s1 s2 p t i c flags"
    and "entry_ok (t', j)" and "t' \<noteq> c" and "(t', j) \<noteq> (t, i)"
  shows "get_entry t' j s2 = get_entry t' j s"
  using assms(2-) links_facts(5) [OF L] by (auto simp: links_entry [OF L] new_table_def)

lemma links_entry_new:
  assumes L: "links s s1 s2 p t i c flags"
  shows "j < 512 \<Longrightarrow> get_entry c j s2 = get_entry c j s1"
  using links_table [OF L] by (simp add: links_entry [OF L])

lemma links_new_entry:
  assumes L: "links s s1 s2 p t i c flags"
  shows "get_entry t i s2 = c OR flags" and "pte_present (c OR flags)" and "\<not> pte_huge (c OR flags)"
    and "(c OR flags) AND PTE_ADDR_MASK = c"
proof -
  have "c AND PTE_ADDR_MASK = c" using links_facts(5) [OF L] by (simp add: new_table_def)
  note link_entry [OF this links_facts(7) [OF L]]
  then show "pte_present (c OR flags)" "\<not> pte_huge (c OR flags)" "(c OR flags) AND PTE_ADDR_MASK = c"
    by blast+
  show "get_entry t i s2 = c OR flags" using links_table [OF L] by (simp add: links_entry [OF L])
qed

lemma table_at_links:
  assumes L: "links s s1 s2 p t i c flags"
  shows "valid_path q \<Longrightarrow> table_at s2 q = (if q = i # p then Some c else table_at s q)"
proof (induction q)
  case Nil
  then show ?case using links_facts(5,8) [OF L] by (simp add: new_table_def)
next
  case (Cons j q)
  note L' = links_facts [OF L]
  note tf = links_table [OF L]
  from Cons have q: "valid_path q" "j < 512" "length q \<le> 2" by (auto simp: valid_path_Cons)
  note IH = Cons.IH [OF q(1)]
  show ?case
  proof (cases "q = i # p")
    case True
    then have "\<not> pte_present (get_entry c j s2)"
      using L'(6) [OF _ q(2)] q by (simp add: links_entry_new [OF L])
    then show ?thesis using True IH L'(4) by (simp add: Let_def)
  next
    case notlast: False
    show ?thesis
    proof (cases "table_at s q")
      case None
      then show ?thesis using notlast IH L'(3) by auto
    next
      case (Some t')
      have t': "page_aligned t'" "t' \<noteq> c"
        using pt_ok_table [OF L'(1) q(1) Some] L'(5) by (auto simp: new_table_def)
      show ?thesis
      proof (cases "(t', j) = (t, i)")
        case True
        then have "q = p" using pt_ok_inject [OF L'(1) q(1) tf(4) Some] L'(3) by simp
        then show ?thesis using True IH notlast L'(3) links_new_entry [OF L] by (simp add: Let_def)
      next
        case other: False
        then have "j # q \<noteq> i # p" using Some L'(3) by auto
        then show ?thesis
          using other IH notlast Some t' q links_entry_kept [OF L, of t' j] by auto
      qed
    qed
  qed
qed

lemma pt_ok_links:
  assumes L: "links s s1 s2 p t i c flags"
  shows "pt_ok s2"
  unfolding pt_ok_def
proof (intro conjI allI impI)
  note ok = links_facts(1) [OF L]
  fix q t' assume q: "valid_path q" "table_at s2 q = Some t'"
  show "frame_used s2 t'"
    using q pt_ok_table(1) [OF ok q(1)] links_table(7) [OF L]
    by (auto simp: table_at_links [OF L] split: if_splits)
  show "t' \<noteq> 0"
    using q pt_ok_table(2) [OF ok q(1)] links_table(9) [OF L]
    by (auto simp: table_at_links [OF L] split: if_splits)
  have "c < IDENTITY_MAP_LIMIT" using links_facts(5) [OF L] by (simp add: new_table_def)
  then show "t' < IDENTITY_MAP_LIMIT"
    using q pt_ok_table(4) [OF ok q(1)] table_at_links [OF L q(1)] by (metis option.inject)
next
  note ok = links_facts(1) [OF L]
  fix q q' t'
  assume q: "valid_path q" "valid_path q'" "table_at s2 q = Some t'" "table_at s2 q' = Some t'"
  have "\<And>r. valid_path r \<Longrightarrow> table_at s r \<noteq> Some c"
    using pt_ok_table(1) [OF ok] links_table(8) [OF L] by auto
  then show "q = q'"
    using q pt_ok_inject [OF ok q(1,2)] by (auto simp: table_at_links [OF L] split: if_splits)
next
  note L' = links_facts [OF L]
  fix q t' j
  assume q: "valid_path (j # q)" "table_at s2 q = Some t'" "pte_present (get_entry t' j s2)"
    "pte_huge (get_entry t' j s2)"
  then have j: "j < 512" "valid_path q" "length q \<le> 2" by (auto simp: valid_path_Cons)
  have "q \<noteq> i # p"
  proof
    assume qp: "q = i # p"
    then have "t' = c" using table_at_links [OF L j(2)] q(2) by simp
    moreover have "length p < 2" using qp j(3) by simp
    ultimately show False using q j L'(6) [of j] by (simp add: links_entry_new [OF L])
  qed
  then have at: "table_at s q = Some t'" using q j by (simp add: table_at_links [OF L])
  then have t': "page_aligned t'" "t' \<noteq> c"
    using pt_ok_table [OF L'(1) j(2) at] links_table(8) [OF L] by auto
  have "(t', j) \<noteq> (t, i)" using q links_new_entry [OF L] by auto
  then have "get_entry t' j s2 = get_entry t' j s" using t' j by (simp add: links_entry_kept [OF L])
  then show "length q = 2" and "get_entry t' j s2 AND 0x1FF000 = 0"
    using q at pt_ok_huge [OF L'(1) q(1) at] by auto
qed

text \<open>The translation is untouched when the new page table says what the entry said before.\<close>

lemma virt_links:
  assumes L: "links s s1 s2 p t i c flags"
    and leaf: "pd_path v = p \<Longrightarrow> PD_INDEX v = i \<Longrightarrow>
    (let f = get_entry c (PT_INDEX v) s1
     in if \<not> pte_present f then 0 else (f AND PTE_ADDR_MASK) + (v AND (PAGE_SIZE - 1))) =
    paging_virt_to_phys v s"
  shows "paging_virt_to_phys v s2 = paging_virt_to_phys v s"
proof (cases "pd_path v = i # p")
  case True
  then have "table_at s2 (pd_path v) = Some c" and "table_at s (pd_path v) = None"
    using links_facts(4) [OF L] table_at_links [OF L pd_path_valid(1)] by metis+
  moreover have "length p < 2" using True pd_path_valid(2) [of v] by simp
  ultimately show ?thesis
    using links_facts(6) [OF L, of "PD_INDEX v"]
    by (simp add: virt_to_phys_tree [OF links_facts(1), OF L] virt_to_phys_tree [OF pt_ok_links, OF L]
        links_entry_new [OF L])
next
  case False
  note vs = virt_to_phys_tree [OF links_facts(1), OF L] virt_to_phys_tree [OF pt_ok_links, OF L]
  note ok = links_facts(1) [OF L]
  have at2: "table_at s2 (pd_path v) = table_at s (pd_path v)"
    using False table_at_links [OF L pd_path_valid(1)] by metis
  show ?thesis
  proof (cases "table_at s (pd_path v)")
    case None
    then show ?thesis by (simp add: vs at2)
  next
    case (Some pd)
    have pd: "page_aligned pd" "pd \<noteq> c"
      using pt_ok_table [OF ok pd_path_valid(1) Some] links_table(8) [OF L] by auto
    show ?thesis
    proof (cases "(pd, PD_INDEX v) = (t, i)")
      case True
      then have "pd_path v = p" and "PD_INDEX v = i"
        using pt_ok_inject [OF ok pd_path_valid(1) links_table(4) [OF L] Some] links_facts(3) [OF L]
        by simp_all
      from leaf [OF this] show ?thesis
        using True Some links_new_entry [OF L] by (simp add: vs(2) at2 links_entry_new [OF L] Let_def)
    next
      case other: False
      let ?e = "get_entry pd (PD_INDEX v) s"
      have e: "get_entry pd (PD_INDEX v) s2 = ?e" using pd other by (simp add: links_entry_kept [OF L])
      have f: "get_entry (?e AND PTE_ADDR_MASK) (PT_INDEX v) s2 =
          get_entry (?e AND PTE_ADDR_MASK) (PT_INDEX v) s" if "pte_present ?e" "\<not> pte_huge ?e"
      proof -
        have at: "table_at s (PD_INDEX v # pd_path v) = Some (?e AND PTE_ADDR_MASK)"
          using Some that by (simp add: Let_def)
        note pt = pt_ok_table [OF ok valid_pt_path at]
        have "?e AND PTE_ADDR_MASK \<noteq> c" using pt(1) links_table(8) [OF L] by auto
        moreover have "?e AND PTE_ADDR_MASK \<noteq> t"
          using pt_ok_inject [OF ok valid_pt_path links_table(4) [OF L] at] links_facts(3) [OF L]
            links_table(5) [OF L] by force
        ultimately show ?thesis using pt(3) by (simp add: links_entry_kept [OF L])
      qed
      show ?thesis using Some e f by (simp add: vs at2 Let_def)
    qed
  qed
qed

section \<open>The operations that edit tables\<close>

lemma and_page_mask: "page_aligned c \<Longrightarrow> c AND NOT (mask 12) = c"
proof -
  assume "page_aligned c"
  then have "unat c div 2 ^ 12 * 2 ^ 12 = unat c"
    unfolding page_aligned_def by (auto simp: mod_eq_0_iff_dvd)
  then show ?thesis by (simp only: unat_eq_iff unat_and_not_mask)
qed

lemma aligned_low_mask:
  assumes "page_aligned c" and "unat c < 2 ^ 52"
  shows "c AND PTE_ADDR_MASK = c"
proof -
  have "c AND mask 52 = c"
    unfolding unat_eq_iff unat_and_mask using assms(2) by (rule mod_less)
  moreover have "PTE_ADDR_MASK = mask 52 AND NOT (mask 12)" by (simp add: mask_eq_exp_minus_1)
  ultimately show ?thesis using and_page_mask [OF assms(1)] by (metis and.assoc)
qed

lemma alloc_table_simps:
  assumes "paging_alloc_table s = (c, s1)"
  shows "pml4 s1 = pml4 s" and "kpaging.more s1 = kpaging.more s" and "pd0 s1 = pd0 s"
    and "cr3 s1 = cr3 s"
  using assms by (auto simp: paging_alloc_table_def Let_def split: option.splits)

lemma alloc_new_table:
  assumes "frames_ok s" and "paging_alloc_table s = (c, s1)" and "c \<noteq> 0"
  shows "new_table s c s1" and "frames_ok s1" and "j < 512 \<Longrightarrow> get_entry c j s1 = 0"
proof -
  from alloc_table_cases [OF assms(1,2)] assms(3)
  have takes: "takes_frame s c s1" and m: "mem s1 = memset8 (mem s) c 0 4096"
    and low: "c < IDENTITY_MAP_LIMIT" by auto
  note al = takes_frame_aligned [OF takes]
  show "frames_ok s1" using takes_frame_inv [OF takes assms(1)] .
  show "j < 512 \<Longrightarrow> get_entry c j s1 = 0"
    using get_entry_zeroed [of c j c s1 s] al m by simp
  have "c AND PTE_ADDR_MASK = c" using al by (intro aligned_low_mask) auto
  then show "new_table s c s1"
    unfolding new_table_def
    using al m low takes_frame_fresh [OF takes] takes_frame_used [OF takes] assms(3)
      get_entry_zeroed [of _ _ c s1 s] alloc_table_simps [OF assms(2)] by simp
qed

text \<open>What every editing step keeps, whether it succeeds or fails.\<close>

definition tables_kept :: "'a kpaging_scheme \<Rightarrow> 'a kpaging_scheme \<Rightarrow> bool" where
  "tables_kept s s' \<longleftrightarrow> pt_ok s' \<and> frames_ok s' \<and> pml4 s' = pml4 s \<and> cr3 s' = cr3 s \<and>
     pd0 s' = pd0 s \<and> kpaging.more s' = kpaging.more s \<and>
     (\<forall>p. frame_used s p \<longrightarrow> frame_used s' p) \<and>
     (\<forall>p t. valid_path p \<longrightarrow> table_at s p = Some t \<longrightarrow> table_at s' p = Some t) \<and>
     (\<forall>v. paging_virt_to_phys v s' = paging_virt_to_phys v s)"

lemma tables_kept_refl: "pt_ok s \<Longrightarrow> frames_ok s \<Longrightarrow> tables_kept s s"
  by (simp add: tables_kept_def)

lemma tables_kept_trans: "tables_kept s s' \<Longrightarrow> tables_kept s' s'' \<Longrightarrow> tables_kept s s''"
  by (auto simp: tables_kept_def)

lemma links_kept:
  assumes L: "links s s1 s2 p t i c flags"
    and "frames_ok s1" and "cr3 s1 = cr3 s" and "pd0 s1 = pd0 s" and "kpaging.more s1 = kpaging.more s"
    and "\<And>v. paging_virt_to_phys v s2 = paging_virt_to_phys v s"
  shows "tables_kept s s2 \<and> table_at s2 (i # p) = Some c"
proof -
  have "table_at s2 q = Some t'" if "valid_path q" "table_at s q = Some t'" for q t'
    using that table_at_links [OF L that(1)] links_facts(4) [OF L] by auto
  moreover have "table_at s2 (i # p) = Some c"
    using table_at_links [OF L links_facts(2) [OF L]] by metis
  moreover have "pml4 s1 = pml4 s" using links_facts(5) [OF L] by (simp add: new_table_def)
  ultimately show ?thesis
    using assms pt_ok_links [OF L] links_table(7) [OF L] links_facts(8) [OF L]
    by (simp add: tables_kept_def del: table_at.simps)
qed

lemma get_or_create_table_kept:
  assumes ok: "pt_ok s" "frames_ok s" and path: "valid_path (i # p)" "table_at s p = Some t"
    and flags: "linkable flags" and step: "get_or_create_table t i flags s = (c, s')"
  shows "tables_kept s s'" and "c \<noteq> 0 \<Longrightarrow> table_at s' (i # p) = Some c"
proof -
  have p: "valid_path p" "i < 512" "length p \<le> 2" using path by (auto simp: valid_path_Cons)
  have "tables_kept s s' \<and> (c \<noteq> 0 \<longrightarrow> table_at s' (i # p) = Some c)"
  proof (cases "pte_present (get_entry t i s)")
    case True
    then show ?thesis
      using step path ok
      by (auto simp: get_or_create_table_def table_entry_virt_def tables_kept_refl Let_def split: if_splits)
  next
    case False
    obtain d s1 where alloc: "paging_alloc_table s = (d, s1)" by fastforce
    show ?thesis
    proof (cases "d = 0")
      case True
      then have "s1 = s" using alloc_table_fails ok(2) alloc by blast
      then show ?thesis
        using True False alloc step ok by (auto simp: get_or_create_table_def tables_kept_refl)
    next
      case d: False
      note new = alloc_new_table [OF ok(2) alloc d]
      have c: "c = d" "s' = set_entry t i (d OR flags) s1"
        using False alloc d step by (auto simp: get_or_create_table_def)
      have "table_at s (i # p) = None" using False path by (simp add: Let_def)
      then have L: "links s s1 s' p t i d flags"
        using path flags new c ok by (simp add: links_def pte_present_def)
      have "paging_virt_to_phys v s' = paging_virt_to_phys v s" for v
      proof (rule virt_links [OF L])
        assume "pd_path v = p" and "PD_INDEX v = i"
        then show "(let f = get_entry d (PT_INDEX v) s1
           in if \<not> pte_present f then 0 else (f AND PTE_ADDR_MASK) + (v AND (PAGE_SIZE - 1))) =
          paging_virt_to_phys v s"
          using path False new(3) [of "PT_INDEX v"]
          by (simp add: virt_to_phys_tree [OF ok(1)] pte_present_def)
      qed
      then show ?thesis
        using links_kept [OF L] new(2) alloc_table_simps [OF alloc] c(1) by simp
    qed
  qed
  then show "tables_kept s s'" and "c \<noteq> 0 \<Longrightarrow> table_at s' (i # p) = Some c" by auto
qed

text \<open>Splitting a 2 MiB entry: the 512 entries of the new table cover the same frames.\<close>

lemma index_shift:
  assumes "(i::u64) < 512"
  shows "(i * PAGE_SIZE) AND 0x1FF000 = i * PAGE_SIZE"
proof -
  have "unat (i AND mask 9) = unat i"
    unfolding unat_and_mask using assms by (simp add: unat_less_iff)
  then have i: "i AND 0x1FF = i" by (simp add: unat_eq_iff mask_eq_exp_minus_1)
  have "push_bit 12 i AND push_bit 12 0x1FF = push_bit 12 i"
    by (simp only: i flip: push_bit_and)
  then show ?thesis by (simp add: push_bit_eq_mult mult.commute)
qed

lemma word_add_disjoint: "(a::u64) AND b = 0 \<Longrightarrow> a + b = a OR b"
  by (rule disjunctive_add_eq_or)

lemma and_zero_within: "(a::u64) AND m = a \<Longrightarrow> b AND m = 0 \<Longrightarrow> a AND b = 0"
proof -
  assume a: "a AND m = a" and b: "b AND m = 0"
  have "a AND b = (a AND m) AND b" by (simp only: a)
  also have "\<dots> = a AND (b AND m)" by (simp only: and.assoc and.commute [of m b])
  finally show ?thesis by (simp add: b)
qed

lemma split_entry:
  fixes h i :: u64
  assumes "pte_present h" and "h AND 0x1FF000 = 0" and "i < 512"
  defines "f \<equiv> (h AND PTE_ADDR_MASK) + i * PAGE_SIZE + ((h AND NOT PTE_ADDR_MASK) AND NOT PAGE_HUGE)"
  shows "pte_present f" and "f AND PTE_ADDR_MASK = (h AND PTE_ADDR_MASK) + i * PAGE_SIZE"
proof -
  let ?x = "h AND PTE_ADDR_MASK" and ?i = "i * PAGE_SIZE"
  let ?g = "(h AND NOT PTE_ADDR_MASK) AND NOT PAGE_HUGE"
  note sh = index_shift [OF assms(3)]
  have "?x AND 0x1FF000 = 0"
    using assms(2) by (simp add: and.assoc)
  then have xi: "?x + ?i = ?x OR ?i"
    using and_zero_within [OF sh, of ?x] by (intro word_add_disjoint) (simp add: and.commute)
  have im: "?i AND PTE_ADDR_MASK = ?i"
  proof -
    have "?i AND PTE_ADDR_MASK = (?i AND 0x1FF000) AND PTE_ADDR_MASK" by (simp only: sh)
    also have "\<dots> = ?i AND 0x1FF000" by (simp add: and.assoc)
    finally show ?thesis by (simp only: sh)
  qed
  then have m: "(?x OR ?i) AND PTE_ADDR_MASK = ?x OR ?i"
    by (simp only: bit.conj_disj_distrib2 and.assoc and.idem)
  have gm: "?g AND PTE_ADDR_MASK = 0" by (simp add: and.assoc)
  have f: "f = (?x OR ?i) OR ?g"
    unfolding f_def xi by (rule word_add_disjoint) (rule and_zero_within [OF m gm])
  show "f AND PTE_ADDR_MASK = ?x + ?i"
    unfolding f xi using m gm by (simp only: bit.conj_disj_distrib2 or.right_neutral)
  have "(?x OR ?i) AND PAGE_PRESENT = 0"
    by (rule and_zero_within [OF m]) simp
  moreover have "?g AND PAGE_PRESENT = h AND PAGE_PRESENT" by (simp add: and.assoc)
  ultimately show "pte_present f"
    using assms(1) unfolding f pte_present_def bit.conj_disj_distrib2 [of _ _ PAGE_PRESENT] by simp
qed

lemma low_21_bits: "PT_INDEX v * PAGE_SIZE + (v AND (PAGE_SIZE - 1)) = v AND 0x1FFFFF"
proof -
  have pt: "unat (PT_INDEX v) = unat v div 4096 mod 512"
    using unat_and_mask [of "drop_bit 12 v" 9]
    by (simp add: PT_INDEX_def mask_eq_exp_minus_1 drop_bit_eq_div unat_div)
  have lo: "unat (v AND (PAGE_SIZE - 1)) = unat v mod 4096"
    using unat_and_mask [of v 12] by (simp add: mask_eq_exp_minus_1)
  have hi: "unat (v AND 0x1FFFFF) = unat v mod (4096 * 512)"
    using unat_and_mask [of v 21] by (simp add: mask_eq_exp_minus_1)
  have "unat (PT_INDEX v * PAGE_SIZE) = (unat v div 4096 mod 512) * 4096"
    by (simp add: unat_word_ariths pt)
  moreover have "(unat v div 4096 mod 512) * 4096 + unat v mod 4096 < 2 ^ 64"
  proof -
    have "unat v div 4096 mod 512 \<le> 511" and "unat v mod 4096 \<le> 4095"
      using mod_less_divisor [of 512 "unat v div 4096"] mod_less_divisor [of 4096 "unat v"] by auto
    then show ?thesis by simp
  qed
  ultimately show ?thesis
    unfolding unat_eq_iff hi mod_mult2_eq using lo by (simp add: unat_add_small)
qed

lemma split_huge_page_kept:
  assumes ok: "pt_ok s" "frames_ok s" and path: "valid_path (i # p)" "table_at s p = Some t"
    and step: "split_huge_page t i s = (r, s')"
  shows "tables_kept s s'"
    and "r = 0 \<Longrightarrow> \<not> (pte_present (get_entry t i s') \<and> pte_huge (get_entry t i s'))"
proof -
  let ?h = "get_entry t i s"
  have "tables_kept s s' \<and> (r = 0 \<longrightarrow> \<not> (pte_present (get_entry t i s') \<and> pte_huge (get_entry t i s')))"
  proof (cases "pte_present ?h \<and> pte_huge ?h")
    case False
    then have "s' = s" using step by (auto simp: split_huge_page_def Let_def)
    then show ?thesis using False ok tables_kept_refl by blast
  next
    case True
    then have p2: "length p = 2" and low: "?h AND 0x1FF000 = 0"
      using pt_ok_huge [OF ok(1) path] by auto
    obtain c s1 where alloc: "paging_alloc_table s = (c, s1)" by fastforce
    show ?thesis
    proof (cases "c = 0")
      case c0: True
      then have "s1 = s" using alloc_table_fails ok(2) alloc by blast
      then show ?thesis
        using c0 True alloc step ok by (auto simp: split_huge_page_def tables_kept_refl Let_def)
    next
      case c: False
      note new = alloc_new_table [OF ok(2) alloc c]
      let ?f = "\<lambda>i. (?h AND PTE_ADDR_MASK) + of_nat i * PAGE_SIZE +
        ((?h AND NOT PTE_ADDR_MASK) AND NOT PAGE_HUGE)"
      define s2 where "s2 = fold (\<lambda>i. set_entry c (of_nat i) (?f i)) [0..<512] s1"
      have r: "r = 0" and s': "s' = set_entry t i (c OR (PAGE_PRESENT OR PAGE_WRITABLE)) s2"
        using step True alloc c
        by (simp_all add: split_huge_page_def Let_def s2_def or.assoc)
      have al: "page_aligned c" using new(1) by (simp add: new_table_def)
      have get2: "entry_ok (t', j) \<Longrightarrow> get_entry t' j s2 =
          (if t' = c then ?f (unat j) else get_entry t' j s1)" for t' j
        unfolding s2_def by (subst get_fill [OF al]) (auto simp: unat_less_iff)
      have new2: "new_table s c s2"
        using new(1) get2 by (simp add: new_table_def s2_def)
      have "linkable (PAGE_PRESENT OR PAGE_WRITABLE)"
        by (simp add: linkable_def pte_present_def pte_huge_def)
      then have L: "links s s2 s' p t i c (PAGE_PRESENT OR PAGE_WRITABLE)"
        using path True p2 new2 ok s' by (simp add: links_def Let_def)
      have "paging_virt_to_phys v s' = paging_virt_to_phys v s" for v
      proof (rule virt_links [OF L])
        assume v: "pd_path v = p" "PD_INDEX v = i"
        have "get_entry c (PT_INDEX v) s2 = ?f (unat (PT_INDEX v))"
          using al by (subst get2) auto
        then have "get_entry c (PT_INDEX v) s2 = (?h AND PTE_ADDR_MASK) + PT_INDEX v * PAGE_SIZE +
            ((?h AND NOT PTE_ADDR_MASK) AND NOT PAGE_HUGE)" by simp
        note f = split_entry [OF _ low index_less(4), of v, folded this]
        show "(let f = get_entry c (PT_INDEX v) s2
           in if \<not> pte_present f then 0 else (f AND PTE_ADDR_MASK) + (v AND (PAGE_SIZE - 1))) =
          paging_virt_to_phys v s"
          using f True v path low_21_bits [of v]
          by (simp add: virt_to_phys_tree [OF ok(1)] add.assoc)
      qed
      then have "tables_kept s s'"
        using links_kept [OF L] new(2) alloc_table_simps [OF alloc] by (simp add: s2_def)
      then show ?thesis using links_new_entry [OF L] by simp
    qed
  qed
  then show "tables_kept s s'"
    and "r = 0 \<Longrightarrow> \<not> (pte_present (get_entry t i s') \<and> pte_huge (get_entry t i s'))" by auto
qed

section \<open>Writing the entry of a page\<close>

definition same_page :: "u64 \<Rightarrow> u64 \<Rightarrow> bool" where
  "same_page v w \<longleftrightarrow> PML4_INDEX w = PML4_INDEX v \<and> PDP_INDEX w = PDP_INDEX v \<and>
     PD_INDEX w = PD_INDEX v \<and> PT_INDEX w = PT_INDEX v"

lemma same_page_paths: "same_page v w \<longleftrightarrow> PD_INDEX w # pd_path w = PD_INDEX v # pd_path v \<and> PT_INDEX w = PT_INDEX v"
  by (auto simp: same_page_def pd_path_def)

lemma leaf_entry_kept:
  assumes ok: "pt_ok s" and at: "table_at s p = Some pt" "valid_path p" "length p = 3"
    and q: "table_at s q = Some t" "valid_path q" "length q \<le> 2" and "i < 512" "j < 512"
  shows "get_entry t j (set_entry pt i e s) = get_entry t j s"
proof -
  have "t \<noteq> pt" using pt_ok_inject [OF ok at(2) q(2) at(1)] q at by force
  then show ?thesis
    using pt_ok_table(3) [OF ok at(2,1)] pt_ok_table(3) [OF ok q(2,1)] assms(8,9)
    by (simp add: get_set_entry)
qed

lemma leaf_table_at:
  assumes ok: "pt_ok s" and at: "table_at s p = Some pt" "valid_path p" "length p = 3" and "i < 512"
  shows "valid_path q \<Longrightarrow> table_at (set_entry pt i e s) q = table_at s q"
proof (induction q)
  case (Cons j q)
  then have q: "valid_path q" "j < 512" "length q \<le> 2" by (auto simp: valid_path_Cons)
  show ?case
    using Cons.IH [OF q(1)] leaf_entry_kept [OF ok at _ q(1,3) assms(5) q(2)]
    by (auto split: option.splits)
qed simp

lemma leaf_pt_ok:
  assumes ok: "pt_ok s" and at: "table_at s p = Some pt" "valid_path p" "length p = 3" and i: "i < 512"
  shows "pt_ok (set_entry pt i e s)"
proof -
  have huge: "length q = 2 \<and> get_entry t j (set_entry pt i e s) AND 0x1FF000 = 0"
    if q: "valid_path (j # q)" "table_at s q = Some t"
      "pte_present (get_entry t j (set_entry pt i e s))" "pte_huge (get_entry t j (set_entry pt i e s))"
    for q t j
  proof -
    have "get_entry t j (set_entry pt i e s) = get_entry t j s"
      using q by (intro leaf_entry_kept [OF ok at q(2)] i) (auto simp: valid_path_Cons)
    then show ?thesis using pt_ok_huge [OF ok q(1,2)] q(3,4) by simp
  qed
  have "valid_path q" if "valid_path (j # q)" for j :: u64 and q using that by (simp add: valid_path_Cons)
  then show ?thesis
    using pt_ok_table [OF ok] pt_ok_inject [OF ok] huge
    unfolding pt_ok_def by (simp add: leaf_table_at [OF ok at i])
qed

lemma leaf_virt:
  assumes ok: "pt_ok s" and at: "table_at s (PD_INDEX v # pd_path v) = Some pt"
  shows "paging_virt_to_phys w (set_entry pt (PT_INDEX v) e s) =
    (if same_page v w
     then (if pte_present e then (e AND PTE_ADDR_MASK) + (w AND (PAGE_SIZE - 1)) else 0)
     else paging_virt_to_phys w s)"
proof -
  let ?s = "set_entry pt (PT_INDEX v) e s"
  have len: "length (PD_INDEX v # pd_path v) = 3" by simp
  note leaf = at valid_pt_path len
  have at': "table_at ?s q = table_at s q" if "valid_path q" for q
    using leaf_table_at [OF ok leaf index_less(4) that] .
  note ok' = leaf_pt_ok [OF ok leaf index_less(4)]
  note vs = virt_to_phys_tree [OF ok] virt_to_phys_tree [OF ok']
  show ?thesis
  proof (cases "table_at s (pd_path w)")
    case None
    then have "\<not> same_page v w" using at by (auto simp: same_page_paths)
    then show ?thesis using None by (simp add: vs at')
  next
    case (Some pd)
    let ?e = "get_entry pd (PD_INDEX w) s"
    have e: "get_entry pd (PD_INDEX w) ?s = ?e"
      by (rule leaf_entry_kept [OF ok leaf Some pd_path_valid(1)]) simp_all
    show ?thesis
    proof (cases "pte_present ?e \<and> \<not> pte_huge ?e")
      case False
      then have "table_at s (PD_INDEX w # pd_path w) = None" using Some by (auto simp: Let_def)
      then have "\<not> same_page v w" using at by (metis same_page_paths option.distinct(1))
      then show ?thesis using Some False e by (auto simp: vs at' Let_def)
    next
      case True
      let ?t = "?e AND PTE_ADDR_MASK"
      have atw: "table_at s (PD_INDEX w # pd_path w) = Some ?t" using Some True by (simp add: Let_def)
      have same: "same_page v w \<longleftrightarrow> ?t = pt \<and> PT_INDEX w = PT_INDEX v"
        using pt_ok_inject [OF ok valid_pt_path valid_pt_path atw, of v] atw at
        unfolding same_page_paths by (metis option.inject)
      have "page_aligned pt" "page_aligned ?t"
        using pt_ok_table(3) [OF ok valid_pt_path at] pt_ok_table(3) [OF ok valid_pt_path atw] by auto
      then have "get_entry ?t (PT_INDEX w) ?s =
          (if same_page v w then e else get_entry ?t (PT_INDEX w) s)"
        using same by (simp add: get_set_entry del: PTE_ADDR_MASK_def)
      then show ?thesis using Some True e by (simp add: vs at' Let_def)
    qed
  qed
qed

lemma paging_map_page_flags_cases:
  assumes ok: "pt_ok s" "frames_ok s" and tf: "linkable table_flags"
    and step: "paging_map_page_flags virt phys flags table_flags s = (r, s')"
  shows "(r \<noteq> 0 \<and> tables_kept s s') \<or>
    (r = 0 \<and> (\<exists>s4 pt. tables_kept s s4 \<and> table_at s4 (PD_INDEX virt # pd_path virt) = Some pt \<and>
       s' = set_entry pt (PT_INDEX virt) ((phys AND PTE_ADDR_MASK) OR flags) s4))"
proof (cases "virt AND (PAGE_SIZE - 1) \<noteq> 0 \<or> phys AND (PAGE_SIZE - 1) \<noteq> 0")
  case True
  then show ?thesis using step tables_kept_refl [OF ok] by (auto simp: paging_map_page_flags_def)
next
  case False
  obtain pdpt s1 where g1: "get_or_create_table (pml4 s) (PML4_INDEX virt) table_flags s = (pdpt, s1)"
    by fastforce
  have v1: "valid_path [PML4_INDEX virt]" "table_at s [] = Some (pml4 s)" by (simp_all add: valid_path_def)
  note k1 = get_or_create_table_kept [OF ok v1 tf g1]
  show ?thesis
  proof (cases "pdpt = 0")
    case True
    then show ?thesis using step False g1 k1 by (auto simp: paging_map_page_flags_def)
  next
    case pdpt: False
    have ok1: "pt_ok s1" "frames_ok s1" using k1(1) by (simp_all add: tables_kept_def)
    obtain pd s2 where g2: "get_or_create_table pdpt (PDP_INDEX virt) table_flags s1 = (pd, s2)"
      by fastforce
    have v2: "valid_path [PDP_INDEX virt, PML4_INDEX virt]" by (simp add: valid_path_def)
    note k2 = get_or_create_table_kept [OF ok1 v2 k1(2) [OF pdpt] tf g2]
    note k02 = tables_kept_trans [OF k1(1) k2(1)]
    show ?thesis
    proof (cases "pd = 0")
      case True
      then show ?thesis using step False g1 g2 pdpt k02 by (auto simp: paging_map_page_flags_def)
    next
      case pd: False
      have ok2: "pt_ok s2" "frames_ok s2" using k2(1) by (simp_all add: tables_kept_def)
      note at2 = k2(2) [OF pd, folded pd_path_def]
      obtain r3 s3 where g3: "(if pte_present (get_entry pd (PD_INDEX virt) s2) \<and>
          pte_huge (get_entry pd (PD_INDEX virt) s2)
          then split_huge_page pd (PD_INDEX virt) s2 else (0, s2)) = (r3, s3)" by fastforce
      have k3: "tables_kept s2 s3"
        using g3 split_huge_page_kept(1) [OF ok2 valid_pt_path at2] tables_kept_refl [OF ok2]
        by (auto split: if_splits)
      note k03 = tables_kept_trans [OF k02 k3]
      show ?thesis
      proof (cases "r3 = 0")
        case r3: True
        have ok3: "pt_ok s3" "frames_ok s3" using k3 by (simp_all add: tables_kept_def)
        have at3: "table_at s3 (pd_path virt) = Some pd"
          using k3 at2 by (simp add: tables_kept_def)
        obtain pt s4 where g4: "get_or_create_table pd (PD_INDEX virt) table_flags s3 = (pt, s4)"
          by fastforce
        note k4 = get_or_create_table_kept [OF ok3 valid_pt_path at3 tf g4]
        show ?thesis
          using step False g1 g2 g3 g4 pdpt pd r3 tables_kept_trans [OF k03 k4(1)] k4(2)
          by (cases "pt = 0") (auto simp: paging_map_page_flags_def Let_def split: prod.splits)
      next
        case r3: False
        then show ?thesis
          using step False g1 g2 g3 pdpt pd k03 by (auto simp: paging_map_page_flags_def Let_def)
      qed
    qed
  qed
qed

section \<open>Mapping succeeds while table frames are free\<close>

definition free_tables :: "'a kpaging_scheme \<Rightarrow> u64 set" where
  "free_tables s = {p. page_aligned p \<and> p div PAGE_SIZE < total_frames s \<and> p < IDENTITY_MAP_LIMIT \<and>
     \<not> (kernel_end s \<le> p \<and> p < stack_top s) \<and> \<not> frame_used s p}"

lemma frame_of_page: "page_aligned p \<Longrightarrow> of_nat (unat (p div PAGE_SIZE)) * PAGE_SIZE = (p::u64)"
proof -
  assume al: "page_aligned p"
  have "unat (p div PAGE_SIZE * PAGE_SIZE) = unat (p div PAGE_SIZE) * 4096 mod 2 ^ 64"
    unfolding unat_word_ariths by simp
  also have "unat (p div PAGE_SIZE) = unat p div 4096" unfolding unat_div by simp
  also have "unat p div 4096 * 4096 = unat p"
    using al by (simp add: page_aligned_def mod_eq_0_iff_dvd)
  also have "unat p mod 2 ^ 64 = unat p" by simp
  finally have "p div PAGE_SIZE * PAGE_SIZE = p" by (simp only: unat_eq_iff)
  moreover have "of_nat (unat q) = q" for q :: u64 by simp
  ultimately show ?thesis by metis
qed

lemma alloc_table_succeeds:
  assumes ok: "frames_ok s" and free: "free_tables s \<noteq> {}"
  shows "fst (paging_alloc_table s) \<noteq> 0"
proof -
  let ?ok = "\<lambda>i. i < unat (total_frames s) \<and> alloc_table_scan s i = Ret i"
  from free obtain p where p: "p \<in> free_tables s" by blast
  let ?n = "unat (p div PAGE_SIZE)"
  have "?ok ?n"
    using p frame_of_page [of p]
    by (auto simp: free_tables_def alloc_table_scan_def Let_def frame_used_def unat_less_iff not_le)
  then have first: "?ok (LEAST i. ?ok i)" and least: "(LEAST i. ?ok i) \<le> ?n"
    by (rule LeastI, rule Least_le)
  let ?i = "LEAST i. ?ok i"
  have next_before: "alloc_table_scan s k = Next" if "k < ?i" for k
  proof -
    have k: "k < unat (total_frames s)" "k \<le> ?n" using that first least by auto
    note idx = frame_index [OF k(1)] ok [unfolded frames_ok_def]
    have "of_nat k * PAGE_SIZE \<le> p"
    proof -
      have "unat (of_nat k * PAGE_SIZE :: u64) = k * 4096"
        using idx unat_frame_address [of "of_nat k"] by simp
      moreover have "?n * 4096 \<le> unat p" by (simp add: unat_div)
      ultimately show ?thesis unfolding unat_le_iff using k(2) by simp
    qed
    then have "\<not> IDENTITY_MAP_LIMIT \<le> of_nat k * PAGE_SIZE"
      using p unfolding free_tables_def by auto
    moreover have "alloc_table_scan s k \<noteq> Ret k" using not_less_Least [OF that] k(1) by blast
    ultimately show ?thesis by (auto simp: alloc_table_scan_def Let_def split: if_splits)
  qed
  have "for_scan (alloc_table_scan s) 0 (unat (total_frames s)) = Some ?i"
    unfolding for_scan_Ret using first next_before by blast
  moreover have "(of_nat ?i :: u64) * PAGE_SIZE \<noteq> 0"
  proof -
    note idx = frame_index [OF conjunct1 [OF first]] ok [unfolded frames_ok_def]
    have "alloc_table_scan s 0 \<noteq> Ret 0"
      using ok by (simp add: alloc_table_scan_def frames_ok_def Let_def)
    then have "?i \<noteq> 0" using first by metis
    moreover have "unat (of_nat ?i * PAGE_SIZE :: u64) = ?i * 4096"
      using idx unat_frame_address [of "of_nat ?i"] by simp
    ultimately have "unat (of_nat ?i * PAGE_SIZE :: u64) \<noteq> 0" by simp
    then show ?thesis using unat_0 by metis
  qed
  ultimately show ?thesis by (simp add: paging_alloc_table_def Let_def)
qed

lemma alloc_table_limits:
  "kernel_end (snd (paging_alloc_table s)) = kernel_end s" "stack_top (snd (paging_alloc_table s)) = stack_top s"
  "total_frames (snd (paging_alloc_table s)) = total_frames s"
  by (auto simp: paging_alloc_table_def Let_def split: option.splits)

lemma alloc_table_consumes:
  assumes ok: "frames_ok s" and step: "paging_alloc_table s = (p, s')"
  shows "card (free_tables s) \<le> Suc (card (free_tables s'))"
proof -
  have "free_tables s - {p} \<subseteq> free_tables s'"
    using alloc_table_limits [of s] alloc_table_cases [OF ok step] takes_frame_used [of s p s']
    by (auto simp: free_tables_def step)
  then have "card (free_tables s - {p}) \<le> card (free_tables s')" by (intro card_mono) auto
  moreover have "card (free_tables s) \<le> Suc (card (free_tables s - {p}))"
    by (cases "p \<in> free_tables s") (simp_all add: card_Suc_Diff1)
  ultimately show ?thesis by simp
qed

lemma free_tables_set_entry [simp]: "free_tables (set_entry t i v s) = free_tables s"
  by (simp add: free_tables_def) (simp add: set_entry_def)

text \<open>Each step on the way to a page succeeds while a frame is left, and takes at most one.\<close>

lemma get_or_create_table_succeeds:
  assumes ok: "pt_ok s" "frames_ok s" and at: "valid_path (i # p)" "table_at s p = Some t"
    and not_huge: "\<not> (pte_present (get_entry t i s) \<and> pte_huge (get_entry t i s))"
    and free: "pte_present (get_entry t i s) \<or> free_tables s \<noteq> {}"
    and step: "get_or_create_table t i flags s = (c, s')"
  shows "c \<noteq> 0" and "card (free_tables s) \<le> Suc (card (free_tables s'))"
proof -
  have "c \<noteq> 0 \<and> card (free_tables s) \<le> Suc (card (free_tables s'))"
  proof (cases "pte_present (get_entry t i s)")
    case True
    then have c: "c = get_entry t i s AND PTE_ADDR_MASK" "s' = s"
      using step not_huge by (auto simp: get_or_create_table_def table_entry_virt_def Let_def)
    then have "table_at s (i # p) = Some c" using at True not_huge by (simp add: Let_def)
    then show ?thesis using pt_ok_table(2) [OF ok(1) at(1)] c by auto
  next
    case False
    obtain d s1 where alloc: "paging_alloc_table s = (d, s1)" by fastforce
    then have "d \<noteq> 0" using alloc_table_succeeds [OF ok(2)] free False by (metis fst_conv)
    then have "c = d" and "free_tables s' = free_tables s1"
      using step False alloc by (auto simp: get_or_create_table_def)
    then show ?thesis using alloc_table_consumes [OF ok(2) alloc] \<open>d \<noteq> 0\<close> by simp
  qed
  then show "c \<noteq> 0" and "card (free_tables s) \<le> Suc (card (free_tables s'))" by auto
qed

lemma fill_free_tables [simp]:
  "free_tables (fold (\<lambda>i. set_entry t (of_nat i) (f i)) xs s) = free_tables s"
  by (induction xs arbitrary: s) auto

lemma split_huge_page_succeeds:
  assumes ok: "frames_ok s" and huge: "pte_present (get_entry t i s) \<and> pte_huge (get_entry t i s)"
    and free: "free_tables s \<noteq> {}" and step: "split_huge_page t i s = (r, s')"
    and al: "page_aligned t" "i < 512"
  shows "r = 0" and "pte_present (get_entry t i s')" and "card (free_tables s) \<le> Suc (card (free_tables s'))"
proof -
  obtain d s1 where alloc: "paging_alloc_table s = (d, s1)" by fastforce
  then have d: "d \<noteq> 0" using alloc_table_succeeds [OF ok free] by simp
  note new = alloc_new_table [OF ok alloc d]
  have "linkable (PAGE_PRESENT OR PAGE_WRITABLE)"
    by (simp add: linkable_def pte_present_def pte_huge_def)
  then have "pte_present (d OR (PAGE_PRESENT OR PAGE_WRITABLE))"
    using link_entry(1) [of d] new(1) by (simp add: new_table_def)
  moreover have "r = 0" and "free_tables s' = free_tables s1"
    and "get_entry t i s' = d OR (PAGE_PRESENT OR PAGE_WRITABLE)"
    using step huge alloc d by (auto simp: split_huge_page_def Let_def or.assoc)
  ultimately show "r = 0" and "pte_present (get_entry t i s')"
    and "card (free_tables s) \<le> Suc (card (free_tables s'))"
    using alloc_table_consumes [OF ok alloc] by simp_all
qed

lemma pt_ok_not_huge:
  "pt_ok s \<Longrightarrow> valid_path (i # p) \<Longrightarrow> table_at s p = Some t \<Longrightarrow> length p < 2 \<Longrightarrow>
     \<not> (pte_present (get_entry t i s) \<and> pte_huge (get_entry t i s))"
  using pt_ok_huge [of s i p t] by auto

lemma card_pos_nonempty: "Suc n \<le> card A \<Longrightarrow> A \<noteq> {}"
  by auto

lemma paging_map_page_flags_succeeds:
  assumes ok: "pt_ok s" "frames_ok s" and tf: "linkable table_flags"
    and al: "virt AND (PAGE_SIZE - 1) = 0" "phys AND (PAGE_SIZE - 1) = 0"
    and free: "3 \<le> card (free_tables s)"
    and step: "paging_map_page_flags virt phys flags table_flags s = (r, s')"
  shows "r = 0"
proof -
  obtain pdpt s1 where g1: "get_or_create_table (pml4 s) (PML4_INDEX virt) table_flags s = (pdpt, s1)"
    by fastforce
  have v1: "valid_path [PML4_INDEX virt]" "table_at s [] = Some (pml4 s)" by (simp_all add: valid_path_def)
  note k1 = get_or_create_table_kept [OF ok v1 tf g1]
  have ok1: "pt_ok s1" "frames_ok s1" using k1(1) by (simp_all add: tables_kept_def)
  have "free_tables s \<noteq> {}" using free by auto
  then have n1: "pdpt \<noteq> 0" and f1: "2 \<le> card (free_tables s1)"
    using get_or_create_table_succeeds [OF ok v1 _ _ g1] pt_ok_not_huge [OF ok(1) v1] free by auto
  obtain pd s2 where g2: "get_or_create_table pdpt (PDP_INDEX virt) table_flags s1 = (pd, s2)"
    by fastforce
  have v2: "valid_path [PDP_INDEX virt, PML4_INDEX virt]" "table_at s1 [PML4_INDEX virt] = Some pdpt"
    using k1(2) [OF n1] by (simp_all add: valid_path_def)
  note k2 = get_or_create_table_kept [OF ok1 v2 tf g2]
  have ok2: "pt_ok s2" "frames_ok s2" using k2(1) by (simp_all add: tables_kept_def)
  have "free_tables s1 \<noteq> {}" using f1 by auto
  then have n2: "pd \<noteq> 0" and f2: "1 \<le> card (free_tables s2)"
    using get_or_create_table_succeeds [OF ok1 v2 _ _ g2] pt_ok_not_huge [OF ok1(1) v2] f1 by auto
  note at2 = k2(2) [OF n2, folded pd_path_def]
  have pd_al: "page_aligned pd" using pt_ok_table(3) [OF ok2(1) pd_path_valid(1) at2] .
  obtain r3 s3 where g3: "(if pte_present (get_entry pd (PD_INDEX virt) s2) \<and>
      pte_huge (get_entry pd (PD_INDEX virt) s2)
      then split_huge_page pd (PD_INDEX virt) s2 else (0, s2)) = (r3, s3)" by fastforce
  have f2': "free_tables s2 \<noteq> {}" using f2 by auto
  let ?e3 = "get_entry pd (PD_INDEX virt) s3"
  have "tables_kept s2 s3 \<and> r3 = 0 \<and> \<not> (pte_present ?e3 \<and> pte_huge ?e3) \<and>
      (pte_present ?e3 \<or> free_tables s3 \<noteq> {})"
  proof (cases "pte_present (get_entry pd (PD_INDEX virt) s2) \<and> pte_huge (get_entry pd (PD_INDEX virt) s2)")
    case True
    then have split: "split_huge_page pd (PD_INDEX virt) s2 = (r3, s3)" using g3 True by (simp only: if_True simp_thms)
    note splits = split_huge_page_succeeds [OF ok2(2) True f2' split pd_al index_less(3)]
    show ?thesis using split_huge_page_kept [OF ok2 valid_pt_path at2 split] splits by blast
  next
    case False
    then have "r3 = 0" "s3 = s2" using g3 by auto
    then show ?thesis using False tables_kept_refl [OF ok2] f2' by blast
  qed
  then have k3: "tables_kept s2 s3" and r3: "r3 = 0" "\<not> (pte_present ?e3 \<and> pte_huge ?e3)"
    "pte_present ?e3 \<or> free_tables s3 \<noteq> {}" by blast+
  have ok3: "pt_ok s3" "frames_ok s3" using k3 by (simp_all add: tables_kept_def)
  have at3: "table_at s3 (pd_path virt) = Some pd" using k3 at2 by (simp add: tables_kept_def)
  obtain pt s4 where g4: "get_or_create_table pd (PD_INDEX virt) table_flags s3 = (pt, s4)"
    by fastforce
  have "pt \<noteq> 0" using get_or_create_table_succeeds(1) [OF ok3 valid_pt_path at3 r3(2,3) g4] .
  then show ?thesis
    using step al g1 g2 g3 g4 n1 n2 r3
    by (auto simp: paging_map_page_flags_def Let_def split: prod.splits)
qed

section \<open>The properties of mapping\<close>

text \<open>A concrete machine for the witnesses: an empty PML4 in frame 1 of 16 frames, frames 0 and 1
  in use.\<close>

definition boot_example :: kpaging where
  "boot_example = \<lparr>mem = (\<lambda>a. 0), cr3 = 0x1000, kernel_end = 0, stack_bottom = 0, stack_top = 0,
     pml4_table = 0x1000, pdp_table = 0, pd_table = 0,
     frame_bitmap = (\<lambda>i. if i = 0 then 3 else 0), total_frames = 16, pml4 = 0x1000, pdp0 = 0, pd0 = 0\<rparr>"

lemma zero_entry: "mem s = (\<lambda>a. 0) \<Longrightarrow> get_entry t i s = 0"
  by (simp add: get_entry_def rd_eval)

lemma boot_example_ok: "pt_ok boot_example" "frames_ok boot_example"
proof -
  have at: "table_at boot_example p = (if p = [] then Some 0x1000 else None)" for p
    by (cases p) (auto simp: zero_entry boot_example_def pte_present_def split: option.splits)
  have "frame_used boot_example 0x1000"
    by (simp add: frame_used_def page_aligned_def bitmap_test_def boot_example_def)
  then show "pt_ok boot_example"
    unfolding pt_ok_def at by (auto simp: zero_entry boot_example_def pte_present_def split: if_splits)
  show "frames_ok boot_example"
    by (simp add: frames_ok_def bitmap_test_def boot_example_def)
qed

lemma boot_example_free: "3 \<le> card (free_tables boot_example)"
proof -
  have "{0x2000, 0x3000, 0x4000} \<subseteq> free_tables boot_example"
    by (simp add: free_tables_def frame_used_def page_aligned_def bitmap_test_def boot_example_def)
  then have "card {0x2000, 0x3000, 0x4000 :: u64} \<le> card (free_tables boot_example)"
    by (intro card_mono) simp
  then show ?thesis by simp
qed

lemma map_page_flags_virt:
  assumes "pt_ok s" and "frames_ok s" and "linkable table_flags"
    and "pte_present flags" and "flags AND PTE_ADDR_MASK = 0"
    and "paging_map_page_flags virt phys flags table_flags s = (r, s')"
  shows "pt_ok s' \<and> frames_ok s' \<and>
    (if r = 0
     then \<forall>w. paging_virt_to_phys w s' =
            (if same_page virt w then (phys AND PTE_ADDR_MASK) + (w AND (PAGE_SIZE - 1))
             else paging_virt_to_phys w s)
     else \<forall>w. paging_virt_to_phys w s' = paging_virt_to_phys w s)"
  using paging_map_page_flags_cases [OF assms(1,2,3,6)]
proof (elim disjE conjE exE)
  assume "r \<noteq> 0" and "tables_kept s s'"
  then show ?thesis by (simp add: tables_kept_def)
next
  fix s4 pt
  let ?e = "(phys AND PTE_ADDR_MASK) OR flags"
  assume r: "r = 0" and k: "tables_kept s s4" and at: "table_at s4 (PD_INDEX virt # pd_path virt) = Some pt"
    and s': "s' = set_entry pt (PT_INDEX virt) ?e s4"
  have ok4: "pt_ok s4" "frames_ok s4" using k by (simp_all add: tables_kept_def)
  have e: "pte_present ?e" "?e AND PTE_ADDR_MASK = phys AND PTE_ADDR_MASK"
    using assms(4,5) by (simp_all add: pte_present_def bit.conj_disj_distrib2 and.assoc)
  show ?thesis
    using leaf_virt [OF ok4(1) at] leaf_pt_ok [OF ok4(1) at valid_pt_path _ index_less(4)] k r e ok4
    by (simp add: s' tables_kept_def del: PTE_ADDR_MASK_def)
qed

text \<open>C1. Mapping a page.  On a well-formed table tree, \<^verbatim>\<open>paging_map_page_flags\<close> keeps the tree and the
  frame bitmap well-formed, whatever it returns.  If it fails, no translation has changed; if it
  returns 0, the addresses of the mapped page translate to the given frame and every other address
  of the address space translates as before (also those of a 2 MiB page that had to be split).\<close>

theorem map_page_flags_translates:
  assumes "pt_ok s" and "frames_ok s" and "linkable table_flags"
    and "pte_present flags" and "flags AND PTE_ADDR_MASK = 0"
    and "paging_map_page_flags virt phys flags table_flags s = (r, s')"
  shows "pt_ok s' \<and> frames_ok s' \<and>
    (if r = 0
     then \<forall>w. paging_virt_to_phys w s' =
            (if same_page virt w then (phys AND PTE_ADDR_MASK) + (w AND (PAGE_SIZE - 1))
             else paging_virt_to_phys w s)
     else \<forall>w. paging_virt_to_phys w s' = paging_virt_to_phys w s)"
  by (rule map_page_flags_virt [OF assms])

theorem map_page_flags_translates_witness:
  "\<exists>s'. paging_map_page_flags 0x400000 0x9000 3 3 boot_example = (0, s') \<and>
     paging_virt_to_phys 0x400123 s' = 0x9123 \<and> paging_virt_to_phys 0x401123 s' = 0"
proof -
  obtain r s' where step: "paging_map_page_flags 0x400000 0x9000 3 3 boot_example = (r, s')" by fastforce
  have tf: "linkable 3" by (simp add: linkable_def pte_present_def pte_huge_def)
  have r: "r = 0"
    by (rule paging_map_page_flags_succeeds [OF boot_example_ok tf _ _ boot_example_free step]) simp_all
  have "paging_virt_to_phys v boot_example = 0" for v
    by (simp add: paging_virt_to_phys_def zero_entry boot_example_def pte_present_def)
  then show ?thesis
    using map_page_flags_translates [OF boot_example_ok tf _ _ step] step r
    by (simp add: pte_present_def same_page_def PML4_INDEX_def PDP_INDEX_def PD_INDEX_def PT_INDEX_def)
qed



section \<open>Looking up and unmapping\<close>

lemma paging_get_pt_tree:
  assumes "pt_ok s"
  shows "paging_get_pt v s = (case table_at s (PD_INDEX v # pd_path v) of None \<Rightarrow> 0 | Some t \<Rightarrow> t)"
    and "paging_pte_value v s =
      (case table_at s (PD_INDEX v # pd_path v) of None \<Rightarrow> 0 | Some t \<Rightarrow> get_entry t (PT_INDEX v) s)"
    and "paging_unmap_page v s =
      (case table_at s (PD_INDEX v # pd_path v) of None \<Rightarrow> s | Some t \<Rightarrow> set_entry t (PT_INDEX v) 0 s)"
proof -
  have h4: "pte_present (get_entry (pml4 s) (PML4_INDEX v) s) \<Longrightarrow>
      \<not> pte_huge (get_entry (pml4 s) (PML4_INDEX v) s)"
    using pt_ok_huge [OF assms, of "PML4_INDEX v" "[]"] by (auto simp: valid_path_def)
  have h3: "table_at s [PML4_INDEX v] = Some t \<Longrightarrow> pte_present (get_entry t (PDP_INDEX v) s) \<Longrightarrow>
      \<not> pte_huge (get_entry t (PDP_INDEX v) s)" for t
    using pt_ok_huge [OF assms, of "PDP_INDEX v" "[PML4_INDEX v]"] by (auto simp: valid_path_def)
  note unfolds = paging_get_pt_def paging_pte_value_def paging_unmap_page_def pd_path_def Let_def
    table_entry_virt_def
  show "paging_get_pt v s = (case table_at s (PD_INDEX v # pd_path v) of None \<Rightarrow> 0 | Some t \<Rightarrow> t)"
    and "paging_pte_value v s =
      (case table_at s (PD_INDEX v # pd_path v) of None \<Rightarrow> 0 | Some t \<Rightarrow> get_entry t (PT_INDEX v) s)"
    and "paging_unmap_page v s =
      (case table_at s (PD_INDEX v # pd_path v) of None \<Rightarrow> s | Some t \<Rightarrow> set_entry t (PT_INDEX v) 0 s)"
    using h4 h3 by (auto simp: unfolds)
qed

text \<open>Unmapping a page.  \<^verbatim>\<open>paging_unmap_page\<close> keeps the tree well-formed; when the page is reached
  through a page table (\<^verbatim>\<open>paging_get_pt\<close> is not null) it no longer translates afterwards, and no other
  address changes its translation; a page inside a 2 MiB entry is left mapped.\<close>

theorem unmap_page_translates:
  assumes "pt_ok s"
  shows "pt_ok (paging_unmap_page virt s) \<and>
    paging_virt_to_phys w (paging_unmap_page virt s) =
      (if same_page virt w \<and> paging_get_pt virt s \<noteq> 0 then 0 else paging_virt_to_phys w s)"
proof (cases "table_at s (PD_INDEX virt # pd_path virt)")
  case None
  then have "paging_unmap_page virt s = s" "paging_get_pt virt s = 0"
    unfolding paging_get_pt_tree [OF assms] by (simp_all del: table_at.simps)
  then show ?thesis using assms by simp
next
  case (Some pt)
  then have u: "paging_unmap_page virt s = set_entry pt (PT_INDEX virt) 0 s" "paging_get_pt virt s = pt"
    unfolding paging_get_pt_tree [OF assms] by (simp_all del: table_at.simps)
  show ?thesis
    using leaf_virt [OF assms Some, of w 0] leaf_pt_ok [OF assms Some valid_pt_path _ index_less(4)]
      pt_ok_table(2) [OF assms valid_pt_path Some]
    by (simp add: u pte_present_def)
qed

lemma mapped_example:
  "\<exists>s. pt_ok s \<and> frames_ok s \<and> paging_get_pt 0x400000 s \<noteq> 0 \<and> paging_virt_to_phys 0x400123 s = 0x9123 \<and>
     paging_map_page_flags 0x400000 0x9000 3 3 boot_example = (0, s)"
proof -
  obtain r s where step: "paging_map_page_flags 0x400000 0x9000 3 3 boot_example = (r, s)" by fastforce
  have tf: "linkable 3" by (simp add: linkable_def pte_present_def pte_huge_def)
  have r: "r = 0"
    by (rule paging_map_page_flags_succeeds [OF boot_example_ok tf _ _ boot_example_free step]) simp_all
  then obtain s4 pt where k: "tables_kept boot_example s4"
    and at: "table_at s4 (PD_INDEX 0x400000 # pd_path 0x400000) = Some pt"
    and s: "s = set_entry pt (PT_INDEX 0x400000) ((0x9000 AND PTE_ADDR_MASK) OR 3) s4"
    using paging_map_page_flags_cases [OF boot_example_ok tf step] by blast
  have ok4: "pt_ok s4" "frames_ok s4" using k by (simp_all add: tables_kept_def)
  note leaf = at valid_pt_path
  have ok: "pt_ok s" unfolding s by (rule leaf_pt_ok [OF ok4(1) leaf]) simp_all
  have at': "table_at s (PD_INDEX 0x400000 # pd_path 0x400000) = Some pt"
    unfolding s using leaf_table_at [OF ok4(1) leaf _ index_less(4) valid_pt_path] at by simp
  have "same_page 0x400000 0x400123"
    by (simp add: same_page_def PML4_INDEX_def PDP_INDEX_def PD_INDEX_def PT_INDEX_def)
  then have "paging_virt_to_phys 0x400123 s = 0x9123"
    unfolding s leaf_virt [OF ok4(1) at] by (simp add: pte_present_def)
  moreover have "paging_get_pt 0x400000 s \<noteq> 0"
    unfolding paging_get_pt_tree [OF ok] at' option.case by (rule pt_ok_table(2) [OF ok valid_pt_path at'])
  ultimately show ?thesis using ok ok4 step r by (auto simp: s)
qed

theorem unmap_page_translates_witness:
  "\<exists>s :: kpaging. paging_virt_to_phys 0x400123 s = 0x9123 \<and>
     paging_virt_to_phys 0x400123 (paging_unmap_page 0x400000 s) = 0"
proof -
  obtain s :: kpaging where s: "pt_ok s" "paging_get_pt 0x400000 s \<noteq> 0" "paging_virt_to_phys 0x400123 s = 0x9123"
    using mapped_example by blast
  have "same_page 0x400000 0x400123"
    by (simp add: same_page_def PML4_INDEX_def PDP_INDEX_def PD_INDEX_def PT_INDEX_def)
  then show ?thesis using unmap_page_translates [OF s(1), of "0x400000" "0x400123"] s by auto
qed

end
