(* ===== verification/PhysWindow.thy ===== *)
theory PhysWindow
  imports Translation
begin

unbundle bit_operations_syntax

text \<open>
  The rest of \<^verbatim>\<open>core/mm/paging.c\<close>: reaching physical frames through the mapping window at
  \<open>KERNEL_KMAP_WINDOW\<close>, mapping fresh user ranges, copying an address space, and setting the paging
  state up at boot.  Here the code uses addresses that the processor translates: \<open>virt_read\<close> and
  \<open>virt_write\<close> go through the tables that CR3 points to, and are \<open>None\<close> when a byte is not mapped (a
  page fault in the kernel).  A buffer that the code fills is a list of bytes in the result.
\<close>

section \<open>Memory as the processor sees it\<close>

definition KERNEL_KMAP_WINDOW :: u64 where [simp]: "KERNEL_KMAP_WINDOW = 0x05000000"

definition paging_current_cr3 :: "'a kpaging_scheme \<Rightarrow> u64" where
  "paging_current_cr3 s = cr3 s"

definition paging_switch_cr3 :: "u64 \<Rightarrow> 'a kpaging_scheme \<Rightarrow> 'a kpaging_scheme" where
  "paging_switch_cr3 c s = s\<lparr>pml4 := c AND PTE_ADDR_MASK, cr3 := c\<rparr>"

definition mmu :: "'a kpaging_scheme \<Rightarrow> u64 \<Rightarrow> u64 option" where
  "mmu s v =
     (let e4 = get_entry (cr3 s AND PTE_ADDR_MASK) (PML4_INDEX v) s
      in if \<not> pte_present e4 then None
         else
           (let e3 = get_entry (e4 AND PTE_ADDR_MASK) (PDP_INDEX v) s
            in if \<not> pte_present e3 then None
               else
                 (let e2 = get_entry (e3 AND PTE_ADDR_MASK) (PD_INDEX v) s
                  in if \<not> pte_present e2 then None
                     else if pte_huge e2 then Some ((e2 AND PTE_ADDR_MASK) + (v AND 0x1FFFFF))
                     else
                       (let e1 = get_entry (e2 AND PTE_ADDR_MASK) (PT_INDEX v) s
                        in if \<not> pte_present e1 then None
                           else Some ((e1 AND PTE_ADDR_MASK) + (v AND (PAGE_SIZE - 1)))))))"

fun virt_read :: "'a kpaging_scheme \<Rightarrow> u64 \<Rightarrow> nat \<Rightarrow> u8 list option" where
  "virt_read s v 0 = Some []"
| "virt_read s v (Suc n) =
     do { a \<leftarrow> mmu s v; bs \<leftarrow> virt_read s (v + 1) n; Some (mem s a # bs) }"

fun virt_write :: "u64 \<Rightarrow> u8 list \<Rightarrow> 'a kpaging_scheme \<Rightarrow> 'a kpaging_scheme option" where
  "virt_write v [] s = Some s"
| "virt_write v (b # bs) s =
     do { a \<leftarrow> mmu s v; virt_write (v + 1) bs (s\<lparr>mem := (mem s)(a := b)\<rparr>) }"

section \<open>The window\<close>

text \<open>The bytes of one chunk, and its size: up to the end of the page.\<close>

definition page_chunk :: "u64 \<Rightarrow> u64 \<Rightarrow> u64" where
  "page_chunk phys len =
     (let offset = phys AND (PAGE_SIZE - 1); chunk = PAGE_SIZE - offset
      in if chunk > len then len else chunk)"

lemma page_chunk_bounds:
  assumes "len \<noteq> 0"
  shows "page_chunk phys len \<noteq> 0" and "page_chunk phys len \<le> len"
    and "unat (phys AND (PAGE_SIZE - 1)) + unat (page_chunk phys len) \<le> 4096"
proof -
  have off: "unat (phys AND (PAGE_SIZE - 1)) = unat phys mod 4096"
    using unat_and_mask [of phys 12] by (simp add: mask_eq_exp_minus_1)
  have "phys AND (PAGE_SIZE - 1) \<le> PAGE_SIZE"
    unfolding unat_le_iff off by (simp add: less_imp_le)
  then have chunk: "unat (PAGE_SIZE - (phys AND (PAGE_SIZE - 1))) = 4096 - unat phys mod 4096"
    unfolding off [symmetric] by (simp add: unat_sub_le)
  show "page_chunk phys len \<noteq> 0" "page_chunk phys len \<le> len"
    "unat (phys AND (PAGE_SIZE - 1)) + unat (page_chunk phys len) \<le> 4096"
    using assms chunk off unfolding page_chunk_def Let_def unat_eq_iff unat_le_iff
    by (auto simp: unat_less_iff not_less)
qed

lemma page_chunk_less [simp]: "len \<noteq> 0 \<Longrightarrow> unat (len - page_chunk phys len) < unat len"
  using page_chunk_bounds [of len phys] by (simp add: unat_sub_le unat_le_iff unat_eq_iff)

function paging_copy_from_phys ::
    "u64 \<Rightarrow> u64 \<Rightarrow> 'a kpaging_scheme \<Rightarrow> (int \<times> u8 list \<times> 'a kpaging_scheme) option" where
  "paging_copy_from_phys src_phys len s =
     (if len = 0 then Some (0, [], s)
      else
        (let page = src_phys AND PAGE_MASK; offset = src_phys AND (PAGE_SIZE - 1);
             chunk = page_chunk src_phys len
         in if page + offset < IDENTITY_MAP_LIMIT then
              do { bs \<leftarrow> virt_read s (page + offset) (unat chunk);
                   (r, rest, s1) \<leftarrow> paging_copy_from_phys (src_phys + chunk) (len - chunk) s;
                   Some (r, bs @ rest, s1) }
            else
              (let (r, s1) = paging_map_page KERNEL_KMAP_WINDOW page (PAGE_PRESENT OR PAGE_WRITABLE) s
               in if r \<noteq> 0 then Some (- 1, [], s1)
                  else
                    do { bs \<leftarrow> virt_read s1 (KERNEL_KMAP_WINDOW + offset) (unat chunk);
                         let s2 = paging_unmap_page KERNEL_KMAP_WINDOW s1;
                         (r, rest, s3) \<leftarrow> paging_copy_from_phys (src_phys + chunk) (len - chunk) s2;
                         Some (r, bs @ rest, s3) })))"
  by pat_completeness auto
termination
  by (relation "measure (\<lambda>(src_phys, len, s). unat len)") auto

function paging_write_phys ::
    "u64 \<Rightarrow> u8 list \<Rightarrow> u64 \<Rightarrow> 'a kpaging_scheme \<Rightarrow> (int \<times> 'a kpaging_scheme) option" where
  "paging_write_phys phys src len s =
     (if len = 0 then Some (0, s)
      else
        (let page = phys AND PAGE_MASK; offset = phys AND (PAGE_SIZE - 1);
             chunk = page_chunk phys len;
             (r, s1) = paging_map_page KERNEL_KMAP_WINDOW page (PAGE_PRESENT OR PAGE_WRITABLE) s
         in if r \<noteq> 0 then Some (- 1, s1)
            else
              do { s2 \<leftarrow> virt_write (KERNEL_KMAP_WINDOW + offset) (take (unat chunk) src) s1;
                   paging_write_phys (phys + chunk) (drop (unat chunk) src) (len - chunk)
                     (paging_unmap_page KERNEL_KMAP_WINDOW s2) }))"
  by pat_completeness auto
termination
  by (relation "measure (\<lambda>(phys, src, len, s). unat len)") auto

function paging_clear_phys ::
    "u64 \<Rightarrow> u64 \<Rightarrow> 'a kpaging_scheme \<Rightarrow> (int \<times> 'a kpaging_scheme) option" where
  "paging_clear_phys phys len s =
     (if len = 0 then Some (0, s)
      else
        (let page = phys AND PAGE_MASK; offset = phys AND (PAGE_SIZE - 1);
             chunk = page_chunk phys len;
             (r, s1) = paging_map_page KERNEL_KMAP_WINDOW page (PAGE_PRESENT OR PAGE_WRITABLE) s
         in if r \<noteq> 0 then Some (- 1, s1)
            else
              do { s2 \<leftarrow> virt_write (KERNEL_KMAP_WINDOW + offset) (replicate (unat chunk) 0) s1;
                   paging_clear_phys (phys + chunk) (len - chunk)
                     (paging_unmap_page KERNEL_KMAP_WINDOW s2) }))"
  by pat_completeness auto
termination
  by (relation "measure (\<lambda>(phys, len, s). unat len)") auto

declare paging_copy_from_phys.simps [simp del] paging_write_phys.simps [simp del]
  paging_clear_phys.simps [simp del]

definition paging_copy_frame ::
    "u64 \<Rightarrow> u64 \<Rightarrow> 'a kpaging_scheme \<Rightarrow> (int \<times> 'a kpaging_scheme) option" where
  "paging_copy_frame dst_phys src_phys s =
     (if src_phys < IDENTITY_MAP_LIMIT \<and> dst_phys < IDENTITY_MAP_LIMIT then
        do { bs \<leftarrow> virt_read s src_phys 4096; s1 \<leftarrow> virt_write dst_phys bs s; Some (0, s1) }
      else
        (let (r, s1) = paging_map_page KERNEL_KMAP_WINDOW src_phys PAGE_PRESENT s
         in if r \<noteq> 0 then Some (- 1, s1)
            else
              (let (r, s2) = paging_map_page (KERNEL_KMAP_WINDOW + PAGE_SIZE) dst_phys
                     (PAGE_PRESENT OR PAGE_WRITABLE) s1
               in if r \<noteq> 0 then Some (- 1, paging_unmap_page KERNEL_KMAP_WINDOW s2)
                  else
                    do { bs \<leftarrow> virt_read s2 KERNEL_KMAP_WINDOW 4096;
                         s3 \<leftarrow> virt_write (KERNEL_KMAP_WINDOW + PAGE_SIZE) bs s2;
                         let s4 = paging_unmap_page KERNEL_KMAP_WINDOW s3;
                         Some (0, paging_unmap_page (KERNEL_KMAP_WINDOW + PAGE_SIZE) s4) })))"

definition paging_zero_frame :: "u64 \<Rightarrow> 'a kpaging_scheme \<Rightarrow> 'a kpaging_scheme option" where
  "paging_zero_frame phys s =
     (let (r, s1) = paging_map_page KERNEL_KMAP_WINDOW phys (PAGE_PRESENT OR PAGE_WRITABLE) s
      in if r \<noteq> 0 then Some s1
         else
           do { s2 \<leftarrow> virt_write KERNEL_KMAP_WINDOW (replicate 4096 0) s1;
                Some (paging_unmap_page KERNEL_KMAP_WINDOW s2) })"

section \<open>User memory\<close>

definition map_user_page_step ::
    "u64 \<Rightarrow> u64 \<Rightarrow> 'a kpaging_scheme \<Rightarrow> (int \<times> 'a kpaging_scheme) option" where
  "map_user_page_step flags addr s =
     (let (frame, s1) = paging_alloc_page s
      in if frame = 0 then Some (- 1, s1)
         else
           do { s2 \<leftarrow> paging_zero_frame frame s1;
                let (r, s3) = paging_map_user_page addr frame flags s2;
                if r \<noteq> 0 then Some (- 1, paging_free_page frame s3) else Some (0, s3) })"

definition paging_map_user_range ::
    "u64 \<Rightarrow> u64 \<Rightarrow> u64 \<Rightarrow> 'a kpaging_scheme \<Rightarrow> (int \<times> 'a kpaging_scheme) option" where
  "paging_map_user_range virt sz flags s =
     (let addr = virt AND PAGE_MASK; stop = (virt + sz + PAGE_SIZE - 1) AND PAGE_MASK
      in for_status (\<lambda>p. map_user_page_step flags (of_nat p * PAGE_SIZE))
           [unat (addr div PAGE_SIZE) ..< unat (stop div PAGE_SIZE)] s)"

definition paging_clone_user_pt ::
    "u64 \<Rightarrow> u64 \<Rightarrow> u64 \<Rightarrow> u64 \<Rightarrow> 'a kpaging_scheme \<Rightarrow> (int \<times> 'a kpaging_scheme) option" where
  "paging_clone_user_pt dst_pd src_pt pd_idx virt_base s =
     (let (dst_pt, s1) = paging_alloc_table s
      in if dst_pt = 0 then Some (- 1, s1)
         else
           for_status (\<lambda>i s.
             (let src_entry = get_entry src_pt (of_nat i) s
              in if \<not> pte_present src_entry then Some (0, s)
                 else if \<not> pte_user src_entry then Some (0, set_entry dst_pt (of_nat i) src_entry s)
                 else
                   (let (frame, s2) = paging_alloc_page s
                    in if frame = 0 then Some (- 1, s2)
                       else
                         do { (r, s3) \<leftarrow> paging_copy_frame frame (src_entry AND PTE_ADDR_MASK) s2;
                              if r \<noteq> 0 then Some (- 1, paging_free_page frame s3)
                              else Some (0, set_entry dst_pt (of_nat i)
                                              (frame OR (src_entry AND NOT PTE_ADDR_MASK)) s3) })))
             [0..<512]
             (set_entry dst_pd pd_idx (dst_pt OR PAGE_PRESENT OR PAGE_WRITABLE OR PAGE_USER) s1))"

definition paging_clone_user_pd ::
    "u64 \<Rightarrow> u64 \<Rightarrow> u64 \<Rightarrow> u64 \<Rightarrow> 'a kpaging_scheme \<Rightarrow> (int \<times> 'a kpaging_scheme) option" where
  "paging_clone_user_pd dst_pdpt src_pd pdpt_idx virt_base s =
     (let (dst_pd, s1) = paging_alloc_table s
      in if dst_pd = 0 then Some (- 1, s1)
         else
           for_status (\<lambda>i s.
             (let e = get_entry src_pd (of_nat i) s
              in if \<not> pte_present e then Some (0, s)
                 else if \<not> pte_user e then Some (0, set_entry dst_pd (of_nat i) e s)
                 else if pte_huge e then Some (0, set_entry dst_pd (of_nat i) e s)
                 else
                   do { (r, s2) \<leftarrow> paging_clone_user_pt dst_pd (table_entry_virt e) (of_nat i)
                                    (virt_base + of_nat i * 0x200000) s;
                        Some (if r \<noteq> 0 then - 1 else 0, s2) }))
             [0..<512]
             (set_entry dst_pdpt pdpt_idx (dst_pd OR PAGE_PRESENT OR PAGE_WRITABLE OR PAGE_USER) s1))"

definition paging_clone_user_pdpt ::
    "u64 \<Rightarrow> u64 \<Rightarrow> u64 \<Rightarrow> u64 \<Rightarrow> 'a kpaging_scheme \<Rightarrow> (int \<times> 'a kpaging_scheme) option" where
  "paging_clone_user_pdpt dst_pml4 src_pdpt pml4_idx virt_base s =
     (let (dst_pdpt, s1) = paging_alloc_table s
      in if dst_pdpt = 0 then Some (- 1, s1)
         else
           for_status (\<lambda>i s.
             (let e = get_entry src_pdpt (of_nat i) s
              in if \<not> pte_present e then Some (0, s)
                 else if \<not> pte_user e then Some (0, set_entry dst_pdpt (of_nat i) e s)
                 else
                   do { (r, s2) \<leftarrow> paging_clone_user_pd dst_pdpt (table_entry_virt e) (of_nat i)
                                    (virt_base + of_nat i * 0x40000000) s;
                        Some (if r \<noteq> 0 then - 1 else 0, s2) }))
             [0..<512]
             (set_entry dst_pml4 pml4_idx (dst_pdpt OR PAGE_PRESENT OR PAGE_WRITABLE OR PAGE_USER) s1))"

definition paging_clone_current_address_space ::
    "bool \<Rightarrow> 'a kpaging_scheme \<Rightarrow> (u64 \<times> 'a kpaging_scheme) option" where
  "paging_clone_current_address_space copy_user s =
     (let src_pml4 = pml4 s; (dst_pml4, s1) = paging_alloc_table s
      in if dst_pml4 = 0 then Some (0, s1)
         else
           do { (r, s2) \<leftarrow> for_status (\<lambda>i s.
                  (let e = get_entry src_pml4 (of_nat i) s
                   in if \<not> pte_present e then Some (0, s)
                      else if \<not> copy_user \<or> \<not> pte_user e then Some (0, set_entry dst_pml4 (of_nat i) e s)
                      else paging_clone_user_pdpt dst_pml4 (table_entry_virt e) (of_nat i)
                             (push_bit 39 (of_nat i)) s))
                  [0..<512] s1;
                Some (if r \<noteq> 0 then 0 else dst_pml4, s2) })"

section \<open>Boot\<close>

definition paging_extend_identity_map :: "'a kpaging_scheme \<Rightarrow> 'a kpaging_scheme option" where
  "paging_extend_identity_map s =
     do { (r, s1) \<leftarrow> for_status (\<lambda>f s. Some (paging_map_page (of_nat f * PAGE_SIZE) (of_nat f * PAGE_SIZE)
                                              (PAGE_PRESENT OR PAGE_WRITABLE) s))
                      [unat (IDENTITY_4K_START div PAGE_SIZE) ..< unat (IDENTITY_4K_END div PAGE_SIZE)] s;
          Some s1 }"

definition MULTIBOOT_MEMORY_AVAILABLE :: u32 where [simp]: "MULTIBOOT_MEMORY_AVAILABLE = 1"

lemma unat_add_page: "(addr::u64) div PAGE_SIZE < MAX_FRAMES \<Longrightarrow> unat (addr + PAGE_SIZE) = unat addr + 4096"
  by (simp add: unat_less_iff unat_div unat_add_small)

function mark_region :: "u64 \<Rightarrow> u64 \<Rightarrow> 'a kpaging_scheme \<Rightarrow> 'a kpaging_scheme" where
  "mark_region addr region_end s =
     (if addr < region_end then
        (let frame = addr div PAGE_SIZE
         in if frame \<ge> MAX_FRAMES then s
            else
              (let s1 = (if frame + 1 > total_frames s then s\<lparr>total_frames := frame + 1\<rparr> else s)
               in mark_region (addr + PAGE_SIZE) region_end (bitmap_clear frame s1)))
      else s)"
  by pat_completeness auto
termination
proof (relation "measure (\<lambda>(addr, region_end, s). unat region_end - unat addr)")
  fix addr region_end frame :: u64 and s s1 :: "'a kpaging_scheme"
  assume "addr < region_end" "frame = addr div PAGE_SIZE" "\<not> MAX_FRAMES \<le> frame"
  then show "((addr + PAGE_SIZE, region_end, bitmap_clear frame s1), addr, region_end, s)
      \<in> measure (\<lambda>(addr, region_end, s). unat region_end - unat addr)"
    using unat_add_page [of addr] by (simp add: unat_less_iff not_le)
qed simp

declare mark_region.simps [simp del]

partial_function (option) mmap_loop ::
    "u64 \<Rightarrow> u64 \<Rightarrow> u64 \<Rightarrow> 'a kpaging_scheme \<Rightarrow> 'a kpaging_scheme option" where
  "mmap_loop mmap entry mmap_end s =
     (let entry_size = ucast (rd32 (mem s) (mmap + 8)) :: u64
      in if entry + entry_size \<le> mmap_end then
           (let base_addr = rd64 (mem s) entry; len = rd64 (mem s) (entry + 8);
                region_end = base_addr + len;
                region_end' = (if region_end > MAX_PHYS_MEM then MAX_PHYS_MEM else region_end);
                s1 = (if rd32 (mem s) (entry + 16) = MULTIBOOT_MEMORY_AVAILABLE \<and> base_addr < MAX_PHYS_MEM
                      then mark_region base_addr region_end' s else s)
            in mmap_loop mmap (entry + entry_size) mmap_end s1)
         else Some s)"

definition reserve_modules :: "u64 \<Rightarrow> 'a kpaging_scheme \<Rightarrow> 'a kpaging_scheme option" where
  "reserve_modules mb2_info s =
     do { count \<leftarrow> multiboot_module_count (mem s) mb2_info;
          (r, s1) \<leftarrow> for_status (\<lambda>i s.
             do { module \<leftarrow> multiboot_module_at (mem s) mb2_info (of_nat i);
                  Some (0, if module \<noteq> 0
                           then reserve_frames (ucast (mod_start (mem s) module)) (ucast (mod_end (mem s) module)) s
                           else s) })
             [0..<unat count] s;
          Some s1 }"

definition paging_init :: "u64 \<Rightarrow> 'a kpaging_scheme \<Rightarrow> 'a kpaging_scheme option" where
  "paging_init mb2_info s =
     do { let s1 = s\<lparr>pml4 := pml4_table s, pdp0 := pdp_table s, pd0 := pd_table s,
                     frame_bitmap := (\<lambda>i. 0xFF), total_frames := 0\<rparr>;
          mmap \<leftarrow> multiboot_find_mmap (mem s1) mb2_info;
          s2 \<leftarrow> (if mmap \<noteq> 0 \<and> rd32 (mem s1) (mmap + 8) \<ge> 24
                 then mmap_loop mmap (mmap + 16) (mmap + ucast (tag_size (mem s1) mmap)) s1
                 else Some s1);
          let s3 = (if total_frames s2 = 0
                    then s2\<lparr>total_frames := MAX_FRAMES, frame_bitmap := (\<lambda>i. 0)\<rparr> else s2);
          let s4 = reserve_frames 0 (if MAX_PHYS_MEM < kernel_end s3 then MAX_PHYS_MEM else kernel_end s3) s3;
          let s5 = reserve_frames (stack_bottom s4) (stack_top s4) s4;
          let s6 = reserve_frames USER_IMAGE_PHYS_START USER_IMAGE_PHYS_END s5;
          s7 \<leftarrow> (if mb2_info \<noteq> 0 then reserve_modules mb2_info s6 else Some s6);
          paging_extend_identity_map s7 }"

section \<open>Changes of memory away from the tables\<close>

definition page_of :: "u64 \<Rightarrow> u64" where
  "page_of a = a AND PAGE_MASK"

definition table_frame :: "'a kpaging_scheme \<Rightarrow> u64 \<Rightarrow> bool" where
  "table_frame s f \<longleftrightarrow> (\<exists>p. valid_path p \<and> table_at s p = Some f)"

lemma unat_page_of: "unat (page_of a) = unat a div 4096 * 4096"
proof -
  have mask: "PAGE_MASK = NOT (mask 12)" by (simp add: mask_eq_exp_minus_1)
  show ?thesis unfolding page_of_def mask unat_and_not_mask by simp
qed

lemma page_of_add:
  assumes "page_aligned t" and "unat k < 4096"
  shows "page_of (t + k) = t"
proof -
  have "unat (t + k) = unat t + unat k"
    using aligned_room [OF assms(1)] assms(2) by (simp add: unat_add_small)
  then show ?thesis
    using assms unfolding unat_eq_iff unat_page_of page_aligned_def
    by (auto simp: mod_eq_0_iff_dvd elim!: dvdE)
qed

lemma page_of_aligned [simp]: "page_aligned (page_of a)"
  by (simp add: page_aligned_def unat_page_of)

lemma page_of_entry:
  assumes "page_aligned t" and "i < 512" and "k < 8"
  shows "page_of (t + 8 * i + of_nat k) = t"
proof -
  have i: "unat i < 512" using assms(2) by (simp add: unat_less_iff)
  have "unat (8 * i + of_nat k) = 8 * unat i + k"
    using i assms(3) by (simp add: unat_word_ariths unat_of_nat_small)
  then show ?thesis
    using page_of_add [OF assms(1), of "8 * i + of_nat k"] i assms(3) by (simp add: add.assoc)
qed

lemma get_entry_agree:
  assumes "page_aligned t" and "i < 512" and "\<And>a. page_of a = t \<Longrightarrow> mem s' a = mem s a"
  shows "get_entry t i s' = get_entry t i s"
proof -
  have "mem_read (mem s') (t + 8 * i) 8 = mem_read (mem s) (t + 8 * i) 8"
    by (rule nth_equalityI) (use assms page_of_entry [OF assms(1,2)] in auto)
  then show ?thesis by (simp add: get_entry_def rd64_def)
qed

lemma set_entry_mem:
  assumes "page_aligned t" and "i < 512" and "page_of a \<noteq> t"
  shows "mem (set_entry t i v s) a = mem s a"
proof -
  have "\<not> unat (a - (t + 8 * i)) < 8"
  proof
    assume "unat (a - (t + 8 * i)) < 8"
    from page_of_entry [OF assms(1,2) this] assms(3) show False by simp
  qed
  then show ?thesis by (simp add: set_entry_def wr64_def mem_write_apply)
qed

lemma mmu_tree:
  assumes "pt_ok s" and cr: "cr3 s AND PTE_ADDR_MASK = pml4 s"
  shows "mmu s v =
    (case table_at s (pd_path v) of
       None \<Rightarrow> None
     | Some pd \<Rightarrow>
         (let e = get_entry pd (PD_INDEX v) s
          in if \<not> pte_present e then None
             else if pte_huge e then Some ((e AND PTE_ADDR_MASK) + (v AND 0x1FFFFF))
             else
               (let f = get_entry (e AND PTE_ADDR_MASK) (PT_INDEX v) s
                in if \<not> pte_present f then None
                   else Some ((f AND PTE_ADDR_MASK) + (v AND (PAGE_SIZE - 1))))))"
proof -
  have h4: "pte_present (get_entry (pml4 s) (PML4_INDEX v) s) \<Longrightarrow>
      \<not> pte_huge (get_entry (pml4 s) (PML4_INDEX v) s)"
    using pt_ok_huge [OF assms(1), of "PML4_INDEX v" "[]"] by (auto simp: valid_path_def)
  have h3: "table_at s [PML4_INDEX v] = Some t \<Longrightarrow> pte_present (get_entry t (PDP_INDEX v) s) \<Longrightarrow>
      \<not> pte_huge (get_entry t (PDP_INDEX v) s)" for t
    using pt_ok_huge [OF assms(1), of "PDP_INDEX v" "[PML4_INDEX v]"] by (auto simp: valid_path_def)
  show ?thesis
    unfolding mmu_def cr pd_path_def using h4 h3 by (auto simp: Let_def)
qed

lemma agree_tables:
  assumes ok: "pt_ok s" and s': "s' = s\<lparr>mem := m\<rparr>"
    and agree: "\<forall>a. table_frame s (page_of a) \<longrightarrow> m a = mem s a"
  shows "table_at s p = Some t \<Longrightarrow> valid_path p \<Longrightarrow> i < 512 \<Longrightarrow> get_entry t i s' = get_entry t i s"
    and "valid_path p \<Longrightarrow> table_at s' p = table_at s p"
    and "pt_ok s'" and "paging_virt_to_phys v s' = paging_virt_to_phys v s"
    and "cr3 s AND PTE_ADDR_MASK = pml4 s \<Longrightarrow> mmu s' v = mmu s v"
proof -
  have entry: "get_entry t i s' = get_entry t i s"
    if "table_at s p = Some t" "valid_path p" "i < 512" for p t i
    using that pt_ok_table(3) [OF ok that(2,1)] agree
    by (intro get_entry_agree) (auto simp: s' table_frame_def)
  show "table_at s p = Some t \<Longrightarrow> valid_path p \<Longrightarrow> i < 512 \<Longrightarrow> get_entry t i s' = get_entry t i s"
    by (rule entry)
  have at: "table_at s' p = table_at s p" if "valid_path p" for p
    using that
  proof (induction p)
    case (Cons i p)
    then show ?case using entry by (auto simp: valid_path_Cons split: option.splits)
  qed (simp add: s')
  show "valid_path p \<Longrightarrow> table_at s' p = table_at s p" by (rule at)
  have used: "frame_used s' f = frame_used s f" for f by (simp add: s' frame_used_def)
  have huge: "length p = 2 \<and> get_entry t i s' AND 0x1FF000 = 0"
    if "valid_path (i # p)" "table_at s p = Some t" "pte_present (get_entry t i s')" "pte_huge (get_entry t i s')"
    for p t i
    using that entry [OF that(2), of i] pt_ok_huge [OF ok that(1,2)] by (auto simp: valid_path_Cons)
  have tl: "valid_path p" if "valid_path (i # p)" for i :: u64 and p using that by (simp add: valid_path_Cons)
  show ok': "pt_ok s'"
    using pt_ok_table [OF ok] pt_ok_inject [OF ok] huge tl
    unfolding pt_ok_def used by (simp add: at del: table_at.simps)
  have pt: "table_at s (PD_INDEX v # pd_path v) = Some (e AND PTE_ADDR_MASK)"
    if "table_at s (pd_path v) = Some pd" "get_entry pd (PD_INDEX v) s = e" "pte_present e" "\<not> pte_huge e" for pd e
    using that by (simp add: Let_def)
  show "paging_virt_to_phys v s' = paging_virt_to_phys v s"
    unfolding virt_to_phys_tree [OF ok] virt_to_phys_tree [OF ok'] at [OF pd_path_valid(1)]
    using entry [OF _ pd_path_valid(1) index_less(3)] entry [OF pt valid_pt_path index_less(4)]
    by (auto split: option.splits simp: Let_def)
  show "mmu s' v = mmu s v" if cr: "cr3 s AND PTE_ADDR_MASK = pml4 s"
  proof -
    have cr': "cr3 s' AND PTE_ADDR_MASK = pml4 s'" using cr by (simp add: s')
    show ?thesis
      unfolding mmu_tree [OF ok cr] mmu_tree [OF ok' cr'] at [OF pd_path_valid(1)]
      using entry [OF _ pd_path_valid(1) index_less(3)] entry [OF pt valid_pt_path index_less(4)]
      by (auto split: option.splits simp: Let_def)
  qed
qed

text \<open>Reading and writing where the translation is known.\<close>

lemma virt_read_at:
  "(\<And>i. i < n \<Longrightarrow> mmu s (v + of_nat i) = Some (p + of_nat i)) \<Longrightarrow> virt_read s v n = Some (mem_read (mem s) p n)"
proof (induction n arbitrary: v p)
  case (Suc n)
  have "mmu s v = Some p" using Suc.prems [of 0] by simp
  moreover have "virt_read s (v + 1) n = Some (mem_read (mem s) (p + 1) n)"
    using Suc.prems [of "Suc _"] by (intro Suc.IH) (simp add: add.assoc)
  ultimately show ?case by (simp add: mem_read_Suc)
qed simp

lemma virt_write_at:
  assumes "pt_ok s" and "cr3 s AND PTE_ADDR_MASK = pml4 s"
    and "\<And>i. i < length bs \<Longrightarrow> mmu s (v + of_nat i) = Some (p + of_nat i)"
    and "\<And>i. i < length bs \<Longrightarrow> \<not> table_frame s (page_of (p + of_nat i))"
  shows "virt_write v bs s = Some (s\<lparr>mem := mem_write (mem s) p bs\<rparr>)"
  using assms
proof (induction bs arbitrary: s v p)
  case (Cons b bs)
  let ?s = "s\<lparr>mem := (mem s)(p := b)\<rparr>"
  have agree: "\<forall>a. table_frame s (page_of a) \<longrightarrow> ((mem s)(p := b)) a = mem s a"
    using Cons.prems(4) [of 0] by auto
  note ag = agree_tables [OF Cons.prems(1) refl agree]
  have at: "mmu s v = Some p" using Cons.prems(3) [of 0] by simp
  have tf: "table_frame ?s f = table_frame s f" for f
    using ag(2) unfolding table_frame_def by metis
  have "virt_write (v + 1) bs ?s = Some (?s\<lparr>mem := mem_write (mem ?s) (p + 1) bs\<rparr>)"
  proof (rule Cons.IH)
    show "pt_ok ?s" by (rule ag(3))
    show "cr3 ?s AND PTE_ADDR_MASK = pml4 ?s" using Cons.prems(2) by simp
    fix i assume i: "i < length bs"
    show "mmu ?s (v + 1 + of_nat i) = Some (p + 1 + of_nat i)"
      unfolding ag(5) [OF Cons.prems(2)] using Cons.prems(3) [of "Suc i"] i by (simp add: add.assoc)
    show "\<not> table_frame ?s (page_of (p + 1 + of_nat i))"
      unfolding tf using Cons.prems(4) [of "Suc i"] i by (simp add: add.assoc)
  qed
  then show ?case using at by simp
qed simp

section \<open>One chunk through the window\<close>

definition window_ready :: "'a kpaging_scheme \<Rightarrow> bool" where
  "window_ready s \<longleftrightarrow> pt_ok s \<and> cr3 s AND PTE_ADDR_MASK = pml4 s \<and> paging_get_pt KERNEL_KMAP_WINDOW s \<noteq> 0"

text \<open>What a use of the window leaves: only memory changes, the tables are the same, no translation differs
  outside the window, and of the tables only the window's page table has other contents.\<close>

definition window_step :: "'a kpaging_scheme \<Rightarrow> 'a kpaging_scheme \<Rightarrow> bool" where
  "window_step s s' \<longleftrightarrow> s' = s\<lparr>mem := mem s'\<rparr> \<and> pt_ok s' \<and>
     (\<forall>p. valid_path p \<longrightarrow> table_at s' p = table_at s p) \<and>
     (\<forall>v. \<not> same_page KERNEL_KMAP_WINDOW v \<longrightarrow> paging_virt_to_phys v s' = paging_virt_to_phys v s) \<and>
     (\<forall>a. table_frame s (page_of a) \<longrightarrow>
        table_at s (PD_INDEX KERNEL_KMAP_WINDOW # pd_path KERNEL_KMAP_WINDOW) \<noteq> Some (page_of a) \<longrightarrow> mem s' a = mem s a)"

lemma window_step_refl: "pt_ok s \<Longrightarrow> window_step s s"
  by (simp add: window_step_def)

lemma window_step_table_frame: "window_step s s' \<Longrightarrow> table_frame s' f = table_frame s f"
  unfolding window_step_def table_frame_def by metis

lemma window_step_trans:
  assumes a: "window_step s s'" and b: "window_step s' s''"
  shows "window_step s s''"
proof -
  have s': "s' = s\<lparr>mem := mem s'\<rparr>" and s'': "s'' = s'\<lparr>mem := mem s''\<rparr>" using a b by (simp_all add: window_step_def)
  have "s'' = s\<lparr>mem := mem s''\<rparr>" by (subst s'', subst s', simp)
  moreover have "table_at s' (PD_INDEX KERNEL_KMAP_WINDOW # pd_path KERNEL_KMAP_WINDOW) =
      table_at s (PD_INDEX KERNEL_KMAP_WINDOW # pd_path KERNEL_KMAP_WINDOW)"
    using a valid_pt_path unfolding window_step_def by blast
  ultimately show ?thesis
    using a b window_step_table_frame [OF a] unfolding window_step_def by (simp del: table_at.simps KERNEL_KMAP_WINDOW_def)
qed

lemma window_step_ready:
  assumes "window_step s s'" and "window_ready s"
  shows "window_ready s'"
proof -
  have ok: "pt_ok s" "pt_ok s'" using assms by (auto simp: window_step_def window_ready_def)
  have s': "s' = s\<lparr>mem := mem s'\<rparr>" using assms(1) by (simp add: window_step_def)
  have "cr3 s' = cr3 s" "pml4 s' = pml4 s" by (subst s', simp)+
  moreover have "paging_get_pt KERNEL_KMAP_WINDOW s' = paging_get_pt KERNEL_KMAP_WINDOW s"
    using assms(1) valid_pt_path unfolding paging_get_pt_tree [OF ok(1)] paging_get_pt_tree [OF ok(2)] window_step_def
    by (metis (no_types, lifting))
  ultimately show ?thesis using assms ok by (simp add: window_ready_def)
qed

lemma unat_index: "unat (drop_bit k (v::u64) AND 0x1FF) = unat v div 2 ^ k mod 512"
proof -
  have m: "(0x1FF :: u64) = mask 9" by (simp add: mask_eq_exp_minus_1)
  show ?thesis
    unfolding m unat_and_mask unsigned_drop_bit_eq by (simp add: drop_bit_eq_div take_bit_nat_eq_self)
qed

lemma window_offset:
  assumes "unat off < 4096"
  shows "same_page KERNEL_KMAP_WINDOW (KERNEL_KMAP_WINDOW + off)"
    and "(KERNEL_KMAP_WINDOW + off) AND (PAGE_SIZE - 1) = off"
proof -
  let ?v = "KERNEL_KMAP_WINDOW + off"
  have v: "unat ?v = 0x5000000 + unat off" using assms by (simp add: unat_add_small)
  have d: "unat ?v div 4096 = 0x5000" using assms unfolding v by simp
  have big: "unat ?v div (4096 * n) = 0x5000 div n" for n
    unfolding div_mult2_eq d ..
  show "same_page KERNEL_KMAP_WINDOW ?v"
    using big [of 1] big [of 512] big [of "512 * 512"] big [of "512 * 512 * 512"]
    unfolding same_page_def PML4_INDEX_def PDP_INDEX_def PD_INDEX_def PT_INDEX_def unat_eq_iff unat_index
    by simp
  have "unat (?v AND (PAGE_SIZE - 1)) = unat ?v mod 4096"
    using unat_and_mask [of ?v 12] by (simp add: mask_eq_exp_minus_1)
  then show "?v AND (PAGE_SIZE - 1) = off"
    unfolding unat_eq_iff v using assms by (simp add: mod_add_left_eq [symmetric])
qed

lemma linkable_present_writable: "linkable (PAGE_PRESENT OR PAGE_WRITABLE)"
  by (simp add: linkable_def pte_present_def pte_huge_def)

text \<open>With its page table in place, mapping the window writes one entry.\<close>

lemma map_present_path:
  assumes ok: "pt_ok s" and pt: "paging_get_pt v s = pt" "pt \<noteq> 0"
    and al: "v AND (PAGE_SIZE - 1) = 0" "phys AND (PAGE_SIZE - 1) = 0"
  shows "paging_map_page v phys flags s = (0, set_entry pt (PT_INDEX v) ((phys AND PTE_ADDR_MASK) OR flags) s)"
    and "table_at s (PD_INDEX v # pd_path v) = Some pt"
proof -
  show at: "table_at s (PD_INDEX v # pd_path v) = Some pt"
    using pt unfolding paging_get_pt_tree [OF ok] by (simp split: option.splits del: table_at.simps)
  then obtain pd where pd: "table_at s (pd_path v) = Some pd"
    and e2: "pte_present (get_entry pd (PD_INDEX v) s)" "\<not> pte_huge (get_entry pd (PD_INDEX v) s)"
      "get_entry pd (PD_INDEX v) s AND PTE_ADDR_MASK = pt"
    by (auto simp: Let_def split: option.splits if_splits)
  then obtain pdpt where pdpt: "table_at s [PML4_INDEX v] = Some pdpt"
    and e3: "pte_present (get_entry pdpt (PDP_INDEX v) s)" "\<not> pte_huge (get_entry pdpt (PDP_INDEX v) s)"
      "get_entry pdpt (PDP_INDEX v) s AND PTE_ADDR_MASK = pd"
    by (auto simp: Let_def pd_path_def split: option.splits if_splits)
  then have e4: "pte_present (get_entry (pml4 s) (PML4_INDEX v) s)" "\<not> pte_huge (get_entry (pml4 s) (PML4_INDEX v) s)"
    "get_entry (pml4 s) (PML4_INDEX v) s AND PTE_ADDR_MASK = pdpt"
    by (auto simp: Let_def split: if_splits)
  have nz: "pdpt \<noteq> 0" "pd \<noteq> 0"
    using pt_ok_table(2) [OF ok _ pdpt] pt_ok_table(2) [OF ok pd_path_valid(1) pd] by (auto simp: valid_path_def)
  show "paging_map_page v phys flags s = (0, set_entry pt (PT_INDEX v) ((phys AND PTE_ADDR_MASK) OR flags) s)"
    using e2 e3 e4 nz pt(2) al
    by (simp add: paging_map_page_def paging_map_page_flags_def get_or_create_table_def table_entry_virt_def
        del: PTE_ADDR_MASK_def PAGE_SIZE_def)
qed

text \<open>The window mapped to a frame: reads and writes reach that frame.\<close>

lemma window_mapped:
  assumes ready: "window_ready s" and al: "page_aligned page" "unat page < 2 ^ 52"
    and fl: "pte_present fl" "fl AND PTE_ADDR_MASK = 0"
  obtains s1 where "paging_map_page KERNEL_KMAP_WINDOW page fl s = (0, s1)"
    and "window_step s s1" and "window_ready s1"
    and "\<And>a. \<not> table_frame s (page_of a) \<Longrightarrow> mem s1 a = mem s a"
    and "\<And>i. i < 4096 \<Longrightarrow> mmu s1 (KERNEL_KMAP_WINDOW + of_nat i) = Some (page + of_nat i)"
    and "\<And>m. \<forall>a. table_frame s (page_of a) \<longrightarrow> m a = mem s1 a \<Longrightarrow>
      window_step s (paging_unmap_page KERNEL_KMAP_WINDOW (s1\<lparr>mem := m\<rparr>)) \<and>
      (\<forall>a. \<not> table_frame s (page_of a) \<longrightarrow> mem (paging_unmap_page KERNEL_KMAP_WINDOW (s1\<lparr>mem := m\<rparr>)) a = m a)"
proof -
  let ?w = KERNEL_KMAP_WINDOW
  have ok: "pt_ok s" and cr: "cr3 s AND PTE_ADDR_MASK = pml4 s" using ready by (auto simp: window_ready_def)
  define pt where "pt = paging_get_pt ?w s"
  have pt: "paging_get_pt ?w s = pt" "pt \<noteq> 0" using ready by (auto simp: pt_def window_ready_def)
  have page0: "page AND (PAGE_SIZE - 1) = 0"
    using al(1) unat_and_mask [of page 12] by (simp add: page_aligned_def mask_eq_exp_minus_1 unat_eq_iff)
  have w0: "?w AND (PAGE_SIZE - 1) = 0" by simp
  note map = map_present_path(1) [OF ok pt w0 page0, of fl] and at = map_present_path(2) [OF ok pt w0 page0]
  have pm: "page AND PTE_ADDR_MASK = page" using aligned_low_mask al by blast
  define e where "e = page OR fl"
  have e: "pte_present e" "e AND PTE_ADDR_MASK = page"
    using fl pm by (simp_all add: e_def pte_present_def bit.conj_disj_distrib2 or_eq_0_iff)
  define s1 where "s1 = set_entry pt (PT_INDEX ?w) e s"
  have leaf: "table_at s (PD_INDEX ?w # pd_path ?w) = Some pt" "valid_path (PD_INDEX ?w # pd_path ?w)"
    "length (PD_INDEX ?w # pd_path ?w) = 3" using at by (simp_all del: table_at.simps)
  have pt_al: "page_aligned pt" using pt_ok_table(3) [OF ok valid_pt_path at] .
  have step_leaf: "window_step s (set_entry pt (PT_INDEX ?w) x s)" for x
    using leaf_pt_ok [OF ok leaf index_less(4)] leaf_table_at [OF ok leaf index_less(4)] leaf_virt [OF ok at]
      set_entry_mem [OF pt_al index_less(4), of _ ?w x s] at
    unfolding window_step_def by (simp add: set_entry_def del: table_at.simps KERNEL_KMAP_WINDOW_def)
  have step1: "window_step s s1" unfolding s1_def by (rule step_leaf)
  have ok1: "pt_ok s1" and ready1: "window_ready s1"
    using step1 window_step_ready [OF step1 ready] by (auto simp: window_step_def)
  have cr1: "cr3 s1 AND PTE_ADDR_MASK = pml4 s1" using ready1 by (simp add: window_ready_def)
  have tf1: "table_frame s1 f = table_frame s f" for f by (rule window_step_table_frame [OF step1])
  have mem1: "mem s1 a = mem s a" if "\<not> table_frame s (page_of a)" for a
  proof -
    have "page_of a \<noteq> pt" using that leaf unfolding table_frame_def by metis
    then show ?thesis unfolding s1_def by (rule set_entry_mem [OF pt_al index_less(4)])
  qed
  have mmu1: "mmu s1 (?w + of_nat i) = Some (page + of_nat i)" if i: "i < 4096" for i
  proof -
    have "unat (of_nat i :: u64) < 4096" using i by (simp add: unat_of_nat_small)
    note off = window_offset [OF this]
    have at1: "table_at s1 (PD_INDEX (?w + of_nat i) # pd_path (?w + of_nat i)) = Some pt"
      using step1 off(1) at unfolding window_step_def same_page_paths by (metis valid_pt_path)
    have ent: "get_entry pt (PT_INDEX (?w + of_nat i)) s1 = e"
      using off(1) pt_al by (simp add: s1_def same_page_def)
    show ?thesis
      using at1 ent e off(2)
      by (auto simp: mmu_tree [OF ok1 cr1] Let_def split: option.splits if_splits)
  qed
  have unmap: "window_step s (paging_unmap_page ?w (s1\<lparr>mem := m\<rparr>)) \<and>
      (\<forall>a. \<not> table_frame s (page_of a) \<longrightarrow> mem (paging_unmap_page ?w (s1\<lparr>mem := m\<rparr>)) a = m a)"
    if m: "\<forall>a. table_frame s (page_of a) \<longrightarrow> m a = mem s1 a" for m
  proof -
    have m1: "\<forall>a. table_frame s1 (page_of a) \<longrightarrow> m a = mem s1 a" using m tf1 by simp
    note ag = agree_tables [OF ok1 refl m1]
    have st: "window_step s1 (s1\<lparr>mem := m\<rparr>)"
      unfolding window_step_def using ag(2,3,4) m1 by (simp del: table_at.simps)
    have at2: "table_at (s1\<lparr>mem := m\<rparr>) (PD_INDEX ?w # pd_path ?w) = Some pt"
      using ag(2) [OF valid_pt_path] step1 at valid_pt_path unfolding window_step_def by metis
    have u: "paging_unmap_page ?w (s1\<lparr>mem := m\<rparr>) = set_entry pt (PT_INDEX ?w) 0 (s1\<lparr>mem := m\<rparr>)"
      unfolding paging_get_pt_tree(3) [OF ag(3)] at2 by simp
    have leaf2: "window_step (s1\<lparr>mem := m\<rparr>) (set_entry pt (PT_INDEX ?w) 0 (s1\<lparr>mem := m\<rparr>))"
      using leaf_pt_ok [OF ag(3) at2 valid_pt_path _ index_less(4)]
        leaf_table_at [OF ag(3) at2 valid_pt_path _ index_less(4)] leaf_virt [OF ag(3) at2]
        set_entry_mem [OF pt_al index_less(4), of _ ?w 0 "s1\<lparr>mem := m\<rparr>"] at2
      unfolding window_step_def by (simp add: set_entry_def del: table_at.simps KERNEL_KMAP_WINDOW_def)
    have "mem (set_entry pt (PT_INDEX ?w) 0 (s1\<lparr>mem := m\<rparr>)) a = m a" if "\<not> table_frame s (page_of a)" for a
    proof -
      have "page_of a \<noteq> pt" using that leaf unfolding table_frame_def by metis
      then show ?thesis by (simp add: set_entry_mem [OF pt_al index_less(4)])
    qed
    then show ?thesis
      unfolding u using window_step_trans [OF step1 window_step_trans [OF st leaf2]] by blast
  qed
  show thesis
    by (rule that [OF _ step1 ready1 mem1 mmu1 unmap]) (use map pm in \<open>simp_all add: s1_def e_def\<close>)
qed

section \<open>Copying to and from physical memory\<close>

lemma mem_write_append: "mem_write m a (xs @ ys) = mem_write (mem_write m a xs) (a + of_nat (length xs)) ys"
  by (induction xs arbitrary: m a) (auto simp: algebra_simps)

lemma mem_write_cong:
  "length bs \<le> 2 ^ 64 \<Longrightarrow> m x = m' x \<Longrightarrow> mem_write m a bs x = mem_write m' a bs x"
  by (simp add: mem_write_apply)

lemma mem_read_append: "mem_read m a (n + k) = mem_read m a n @ mem_read m (a + of_nat n) k"
  by (induction n arbitrary: a) (auto simp: mem_read_Suc algebra_simps)

text \<open>A range of physical memory that the window may touch: in the address space of the entries, and
  no byte of it belongs to a table.\<close>

definition outside_tables :: "'a kpaging_scheme \<Rightarrow> u64 \<Rightarrow> nat \<Rightarrow> bool" where
  "outside_tables s phys n \<longleftrightarrow> unat phys + n \<le> 2 ^ 52 \<and>
     (\<forall>i < n. \<not> table_frame s (page_of (phys + of_nat i)))"

lemma outside_tables_split:
  assumes "outside_tables s phys n" and "unat c \<le> n"
  shows "outside_tables s phys (unat c)" and "outside_tables s (phys + c) (n - unat c)"
proof -
  have b: "unat phys + n \<le> 2 ^ 52" using assms(1) by (simp add: outside_tables_def)
  then have "unat (phys + c) = unat phys + unat c" using assms(2) by (simp add: unat_add_small)
  moreover have "\<not> table_frame s (page_of (phys + c + of_nat i))" if "i < n - unat c" for i
  proof -
    have "phys + c + of_nat i = phys + of_nat (unat c + i)" by simp
    then show ?thesis using assms that unfolding outside_tables_def by (metis less_diff_conv add.commute)
  qed
  ultimately show "outside_tables s (phys + c) (n - unat c)" using b assms(2) by (simp add: outside_tables_def)
  show "outside_tables s phys (unat c)" using assms by (simp add: outside_tables_def)
qed

lemma outside_tables_step: "window_step s s' \<Longrightarrow> outside_tables s' phys n = outside_tables s phys n"
  by (simp add: outside_tables_def window_step_table_frame)

lemma chunk_page:
  assumes "len \<noteq> 0" and "unat phys + unat len \<le> 2 ^ 52"
  shows "page_aligned (phys AND PAGE_MASK)" and "unat (phys AND PAGE_MASK) < 2 ^ 52"
    and "(phys AND PAGE_MASK) + (phys AND (PAGE_SIZE - 1)) = phys"
proof -
  show "page_aligned (phys AND PAGE_MASK)" using page_of_aligned [of phys] by (simp add: page_of_def)
  have "0 < unat len" using assms(1) by (simp add: unat_gt_0)
  then have lt: "unat phys < 2 ^ 52" using assms(2) by linarith
  have pg: "unat (phys AND PAGE_MASK) = unat phys div 4096 * 4096" using unat_page_of [of phys] by (simp add: page_of_def)
  have "unat phys div 4096 * 4096 \<le> unat phys" by (rule div_times_less_eq_dividend)
  then show "unat (phys AND PAGE_MASK) < 2 ^ 52" unfolding pg using lt by linarith
  have off: "unat (phys AND (PAGE_SIZE - 1)) = unat phys mod 4096"
    using unat_and_mask [of phys 12] by (simp add: mask_eq_exp_minus_1)
  have "unat phys div 4096 * 4096 + unat phys mod 4096 = unat phys" by simp
  then show "(phys AND PAGE_MASK) + (phys AND (PAGE_SIZE - 1)) = phys"
    unfolding unat_eq_iff using pg off
    by (subst unat_add_small) simp_all
qed

lemma window_chunk:
  assumes ready: "window_ready s" and len: "len \<noteq> 0" "unat phys + unat len \<le> 2 ^ 52"
    and out: "outside_tables s phys (unat (page_chunk phys len))"
  obtains s1 where "paging_map_page KERNEL_KMAP_WINDOW (phys AND PAGE_MASK) (PAGE_PRESENT OR PAGE_WRITABLE) s = (0, s1)"
    and "virt_read s1 (KERNEL_KMAP_WINDOW + (phys AND (PAGE_SIZE - 1))) (unat (page_chunk phys len)) =
      Some (mem_read (mem s) phys (unat (page_chunk phys len)))"
    and "window_step s (paging_unmap_page KERNEL_KMAP_WINDOW s1)"
    and "\<forall>a. \<not> table_frame s (page_of a) \<longrightarrow> mem (paging_unmap_page KERNEL_KMAP_WINDOW s1) a = mem s a"
    and "\<And>bs. length bs = unat (page_chunk phys len) \<Longrightarrow> \<exists>s2.
      virt_write (KERNEL_KMAP_WINDOW + (phys AND (PAGE_SIZE - 1))) bs s1 = Some s2 \<and>
      window_step s (paging_unmap_page KERNEL_KMAP_WINDOW s2) \<and>
      (\<forall>a. \<not> table_frame s (page_of a) \<longrightarrow>
         mem (paging_unmap_page KERNEL_KMAP_WINDOW s2) a = mem_write (mem s) phys bs a)"
proof -
  let ?w = KERNEL_KMAP_WINDOW and ?page = "phys AND PAGE_MASK" and ?off = "phys AND (PAGE_SIZE - 1)"
  let ?n = "unat (page_chunk phys len)"
  note pg = chunk_page [OF len]
  have fl: "pte_present (PAGE_PRESENT OR PAGE_WRITABLE)" "(PAGE_PRESENT OR PAGE_WRITABLE) AND PTE_ADDR_MASK = 0"
    by (simp_all add: pte_present_def)
  obtain s1 where map: "paging_map_page ?w ?page (PAGE_PRESENT OR PAGE_WRITABLE) s = (0, s1)"
    and st1: "window_step s s1" and ready1: "window_ready s1"
    and mem1: "\<And>a. \<not> table_frame s (page_of a) \<Longrightarrow> mem s1 a = mem s a"
    and mmu1: "\<And>i. i < 4096 \<Longrightarrow> mmu s1 (?w + of_nat i) = Some (?page + of_nat i)"
    and unmap: "\<And>m. \<forall>a. table_frame s (page_of a) \<longrightarrow> m a = mem s1 a \<Longrightarrow>
      window_step s (paging_unmap_page ?w (s1\<lparr>mem := m\<rparr>)) \<and>
      (\<forall>a. \<not> table_frame s (page_of a) \<longrightarrow> mem (paging_unmap_page ?w (s1\<lparr>mem := m\<rparr>)) a = m a)"
    using window_mapped [OF ready pg(1,2) fl] by blast
  have ok1: "pt_ok s1" "cr3 s1 AND PTE_ADDR_MASK = pml4 s1" using ready1 by (simp_all add: window_ready_def)
  have at: "mmu s1 (?w + ?off + of_nat i) = Some (phys + of_nat i)" if "i < ?n" for i
  proof -
    have "unat ?off + i < 4096" using page_chunk_bounds(3) [OF len(1), of phys] that by linarith
    from mmu1 [OF this] have "mmu s1 (?w + (?off + of_nat i)) = Some (?page + (?off + of_nat i))" by simp
    then show ?thesis unfolding add.assoc [symmetric] pg(3) .
  qed
  have nt: "\<not> table_frame s (page_of (phys + of_nat i))" if "i < ?n" for i
    using out that by (simp add: outside_tables_def)
  have "mem_read (mem s1) phys ?n = mem_read (mem s) phys ?n"
    using nt mem1 by (intro nth_equalityI) auto
  then have rd: "virt_read s1 (?w + ?off) ?n = Some (mem_read (mem s) phys ?n)"
    using virt_read_at [OF at] by simp
  have wr: "\<exists>s2. virt_write (?w + ?off) bs s1 = Some s2 \<and> window_step s (paging_unmap_page ?w s2) \<and>
      (\<forall>a. \<not> table_frame s (page_of a) \<longrightarrow> mem (paging_unmap_page ?w s2) a = mem_write (mem s) phys bs a)"
    if bs: "length bs = ?n" for bs
  proof -
    have lim: "length bs \<le> 2 ^ 64" unfolding bs by (rule less_imp_le) simp
    have "virt_write (?w + ?off) bs s1 = Some (s1\<lparr>mem := mem_write (mem s1) phys bs\<rparr>)"
      using virt_write_at [OF ok1] at nt window_step_table_frame [OF st1] bs by simp
    moreover have "\<forall>a. table_frame s (page_of a) \<longrightarrow> mem_write (mem s1) phys bs a = mem s1 a"
    proof (intro allI impI)
      fix a assume a: "table_frame s (page_of a)"
      have "\<not> unat (a - phys) < length bs" using nt [of "unat (a - phys)"] a bs by auto
      then show "mem_write (mem s1) phys bs a = mem s1 a" using lim by (simp add: mem_write_apply)
    qed
    note unmap [OF this]
    moreover have "mem_write (mem s1) phys bs a = mem_write (mem s) phys bs a" if "\<not> table_frame s (page_of a)" for a
      using mem_write_cong [OF lim, of "mem s1" a "mem s"] mem1 [OF that] by simp
    ultimately show ?thesis by simp
  qed
  have same: "s1\<lparr>mem := mem s1\<rparr> = s1" by simp
  show thesis
    by (rule that [OF map rd _ _ wr]) (use unmap [of "mem s1"] mem1 same in auto)
qed

lemma window_chunk_write:
  assumes "window_ready s" and "len \<noteq> 0" and "unat phys + unat len \<le> 2 ^ 52"
    and "outside_tables s phys (unat (page_chunk phys len))" and bs: "length bs = unat (page_chunk phys len)"
  shows "\<exists>s1 s2. paging_map_page KERNEL_KMAP_WINDOW (phys AND PAGE_MASK) (PAGE_PRESENT OR PAGE_WRITABLE) s = (0, s1) \<and>
    virt_write (KERNEL_KMAP_WINDOW + (phys AND (PAGE_SIZE - 1))) bs s1 = Some s2 \<and>
    window_step s (paging_unmap_page KERNEL_KMAP_WINDOW s2) \<and>
    (\<forall>a. \<not> table_frame s (page_of a) \<longrightarrow>
       mem (paging_unmap_page KERNEL_KMAP_WINDOW s2) a = mem_write (mem s) phys bs a)"
proof (rule window_chunk [OF assms(1-4)])
  fix s1
  assume map: "paging_map_page KERNEL_KMAP_WINDOW (phys AND PAGE_MASK) (PAGE_PRESENT OR PAGE_WRITABLE) s = (0, s1)"
  assume "\<And>bs. length bs = unat (page_chunk phys len) \<Longrightarrow> \<exists>s2.
      virt_write (KERNEL_KMAP_WINDOW + (phys AND (PAGE_SIZE - 1))) bs s1 = Some s2 \<and>
      window_step s (paging_unmap_page KERNEL_KMAP_WINDOW s2) \<and>
      (\<forall>a. \<not> table_frame s (page_of a) \<longrightarrow>
         mem (paging_unmap_page KERNEL_KMAP_WINDOW s2) a = mem_write (mem s) phys bs a)"
  from this [OF bs] map show ?thesis by metis
qed

lemma window_chunk_read:
  assumes "window_ready s" and "len \<noteq> 0" and "unat phys + unat len \<le> 2 ^ 52"
    and "outside_tables s phys (unat (page_chunk phys len))"
  shows "\<exists>s1. paging_map_page KERNEL_KMAP_WINDOW (phys AND PAGE_MASK) (PAGE_PRESENT OR PAGE_WRITABLE) s = (0, s1) \<and>
    virt_read s1 (KERNEL_KMAP_WINDOW + (phys AND (PAGE_SIZE - 1))) (unat (page_chunk phys len)) =
      Some (mem_read (mem s) phys (unat (page_chunk phys len))) \<and>
    window_step s (paging_unmap_page KERNEL_KMAP_WINDOW s1) \<and>
    (\<forall>a. \<not> table_frame s (page_of a) \<longrightarrow> mem (paging_unmap_page KERNEL_KMAP_WINDOW s1) a = mem s a)"
  by (rule window_chunk [OF assms]) metis

lemma write_phys_run:
  "window_ready s \<Longrightarrow> unat len = length src \<Longrightarrow> outside_tables s phys (length src) \<Longrightarrow>
     \<exists>s'. paging_write_phys phys src len s = Some (0, s') \<and> window_step s s' \<and>
       (\<forall>a. \<not> table_frame s (page_of a) \<longrightarrow> mem s' a = mem_write (mem s) phys src a)"
proof (induction "length src" arbitrary: phys src len s rule: less_induct)
  case less
  show ?case
  proof (cases "len = 0")
    case True
    then show ?thesis
      using less.prems window_step_refl by (auto simp: paging_write_phys.simps window_ready_def)
  next
    case False
    let ?c = "page_chunk phys len"
    note cb = page_chunk_bounds(1,2) [OF False, of phys]
    have c: "unat ?c \<le> length src" "0 < unat ?c"
      using cb less.prems(2) by (auto simp: unat_le_iff unat_gt_0)
    have len: "unat phys + unat len \<le> 2 ^ 52" using less.prems by (simp add: outside_tables_def)
    note out = outside_tables_split [OF less.prems(3) c(1)]
    have "length (take (unat ?c) src) = unat ?c" using c by simp
    from window_chunk_write [OF less.prems(1) False len out(1) this] obtain s1 s2
      where map: "paging_map_page KERNEL_KMAP_WINDOW (phys AND PAGE_MASK) (PAGE_PRESENT OR PAGE_WRITABLE) s = (0, s1)"
      and s2: "virt_write (KERNEL_KMAP_WINDOW + (phys AND (PAGE_SIZE - 1))) (take (unat ?c) src) s1 = Some s2"
        "window_step s (paging_unmap_page KERNEL_KMAP_WINDOW s2)"
        "\<forall>a. \<not> table_frame s (page_of a) \<longrightarrow>
           mem (paging_unmap_page KERNEL_KMAP_WINDOW s2) a = mem_write (mem s) phys (take (unat ?c) src) a"
      by (elim exE conjE)
    let ?s3 = "paging_unmap_page KERNEL_KMAP_WINDOW s2"
    note tf = window_step_table_frame [OF s2(2)]
    have shorter: "length (drop (unat ?c) src) < length src" using c by simp
    have "unat (len - ?c) = length (drop (unat ?c) src)"
      using cb less.prems(2) by (simp add: unat_sub_le)
    moreover have "outside_tables ?s3 (phys + ?c) (length (drop (unat ?c) src))"
      using out(2) by (simp only: outside_tables_step [OF s2(2)] length_drop)
    moreover note less.hyps [OF shorter window_step_ready [OF s2(2) less.prems(1)]]
    ultimately obtain s' where s': "paging_write_phys (phys + ?c) (drop (unat ?c) src) (len - ?c) ?s3 = Some (0, s')"
      "window_step ?s3 s'"
      "\<forall>a. \<not> table_frame ?s3 (page_of a) \<longrightarrow> mem s' a = mem_write (mem ?s3) (phys + ?c) (drop (unat ?c) src) a"
      by blast
    have step: "paging_write_phys phys src len s = Some (0, s')"
      using map s2(1) s'(1) False by (subst paging_write_phys.simps) (simp del: KERNEL_KMAP_WINDOW_def PAGE_SIZE_def PAGE_MASK_def)
    have "mem s' a = mem_write (mem s) phys src a" if a: "\<not> table_frame s (page_of a)" for a
    proof -
      have lim: "length (drop (unat ?c) src) \<le> 2 ^ 64" using len less.prems(2) by simp
      have "mem s' a = mem_write (mem_write (mem s) phys (take (unat ?c) src)) (phys + ?c) (drop (unat ?c) src) a"
        using s'(3) s2(3) a tf mem_write_cong [OF lim, of "mem ?s3" a] by simp
      also have "\<dots> = mem_write (mem s) phys (take (unat ?c) src @ drop (unat ?c) src) a"
        unfolding mem_write_append using c by simp
      finally show ?thesis by simp
    qed
    then show ?thesis using step window_step_trans [OF s2(2) s'(2)] by blast
  qed
qed

lemma copy_from_phys_run:
  "window_ready s \<Longrightarrow> outside_tables s phys (unat len) \<Longrightarrow> IDENTITY_MAP_LIMIT \<le> phys \<Longrightarrow>
     \<exists>s'. paging_copy_from_phys phys len s = Some (0, mem_read (mem s) phys (unat len), s') \<and> window_step s s' \<and>
       (\<forall>a. \<not> table_frame s (page_of a) \<longrightarrow> mem s' a = mem s a)"
proof (induction "unat len" arbitrary: phys len s rule: less_induct)
  case less
  show ?case
  proof (cases "len = 0")
    case True
    then show ?thesis
      using less.prems window_step_refl by (auto simp: paging_copy_from_phys.simps window_ready_def)
  next
    case False
    let ?c = "page_chunk phys len"
    note cb = page_chunk_bounds(1,2) [OF False, of phys]
    have c: "unat ?c \<le> unat len" "0 < unat ?c" using cb by (auto simp: unat_le_iff unat_gt_0)
    have len: "unat phys + unat len \<le> 2 ^ 52" using less.prems by (simp add: outside_tables_def)
    note out = outside_tables_split [OF less.prems(2) c(1)]
    from window_chunk_read [OF less.prems(1) False len out(1)] obtain s1
      where map: "paging_map_page KERNEL_KMAP_WINDOW (phys AND PAGE_MASK) (PAGE_PRESENT OR PAGE_WRITABLE) s = (0, s1)"
      and rd: "virt_read s1 (KERNEL_KMAP_WINDOW + (phys AND (PAGE_SIZE - 1))) (unat ?c) = Some (mem_read (mem s) phys (unat ?c))"
      and st: "window_step s (paging_unmap_page KERNEL_KMAP_WINDOW s1)"
      and mm: "\<forall>a. \<not> table_frame s (page_of a) \<longrightarrow> mem (paging_unmap_page KERNEL_KMAP_WINDOW s1) a = mem s a"
      by (elim exE conjE)
    let ?s2 = "paging_unmap_page KERNEL_KMAP_WINDOW s1"
    have high: "\<not> (phys AND PAGE_MASK) + (phys AND (PAGE_SIZE - 1)) < IDENTITY_MAP_LIMIT"
      using less.prems(3) unfolding chunk_page(3) [OF False len] by simp
    have up: "unat (phys + ?c) = unat phys + unat ?c" using len c by (simp add: unat_add_small)
    have rest: "unat (len - ?c) = unat len - unat ?c" using cb by (simp add: unat_sub_le)
    obtain s' where s': "paging_copy_from_phys (phys + ?c) (len - ?c) ?s2 =
        Some (0, mem_read (mem ?s2) (phys + ?c) (unat (len - ?c)), s')" "window_step ?s2 s'"
      "\<forall>a. \<not> table_frame ?s2 (page_of a) \<longrightarrow> mem s' a = mem ?s2 a"
      using less.hyps [OF _ window_step_ready [OF st less.prems(1)], of "len - ?c" "phys + ?c"]
        rest c out(2) outside_tables_step [OF st] less.prems(3) up by (auto simp: unat_le_iff)
    have eq: "mem_read (mem ?s2) (phys + ?c) (unat (len - ?c)) = mem_read (mem s) (phys + ?c) (unat (len - ?c))"
      using out(2) mm by (intro nth_equalityI) (auto simp: outside_tables_def rest)
    have "mem_read (mem s) phys (unat len) = mem_read (mem s) phys (unat ?c) @ mem_read (mem s) (phys + ?c) (unat (len - ?c))"
      using mem_read_append [of "mem s" phys "unat ?c" "unat (len - ?c)"] rest c by simp
    then have "paging_copy_from_phys phys len s = Some (0, mem_read (mem s) phys (unat len), s')"
      using map rd s'(1) eq False high
      by (subst paging_copy_from_phys.simps) (simp add: Let_def del: KERNEL_KMAP_WINDOW_def PAGE_SIZE_def PAGE_MASK_def IDENTITY_MAP_LIMIT_def)
    then show ?thesis
      using window_step_trans [OF st s'(2)] s'(3) mm window_step_table_frame [OF st] by auto
  qed
qed

text \<open>Memory above the identity map holds no table, so that it can be reached without harm.\<close>

lemma high_outside_tables:
  assumes "pt_ok s" and "IDENTITY_MAP_LIMIT \<le> phys" and "unat phys + n \<le> 2 ^ 52"
  shows "outside_tables s phys n"
  unfolding outside_tables_def
proof (intro conjI allI impI notI)
  show "unat phys + n \<le> 2 ^ 52" by (rule assms(3))
  fix i assume i: "i < n" and "table_frame s (page_of (phys + of_nat i))"
  then obtain p where "valid_path p" "table_at s p = Some (page_of (phys + of_nat i))"
    unfolding table_frame_def by blast
  from pt_ok_table(4) [OF assms(1) this] have lt: "unat (page_of (phys + of_nat i)) < 0x10000000"
    unfolding unat_less_iff by simp
  have "unat (phys + of_nat i) = unat phys + i"
    using assms(3) i by (simp add: unat_add_small unat_of_nat_small)
  moreover have "0x10000000 \<le> unat phys" using assms(2) unfolding unat_le_iff by simp
  ultimately show False using lt unfolding unat_page_of by simp
qed

definition window_example :: kpaging where
  "window_example = snd (paging_map_page_flags KERNEL_KMAP_WINDOW 0x9000 3 3 boot_example)"

lemma window_example_ready: "window_ready window_example"
proof -
  let ?v = KERNEL_KMAP_WINDOW
  obtain r s where step: "paging_map_page_flags ?v 0x9000 3 3 boot_example = (r, s)" by fastforce
  have tf: "linkable 3" by (simp add: linkable_def pte_present_def pte_huge_def)
  have "r = 0"
    by (rule paging_map_page_flags_succeeds [OF boot_example_ok tf _ _ boot_example_free step]) simp_all
  then obtain s4 pt where k: "tables_kept boot_example s4"
    and at: "table_at s4 (PD_INDEX ?v # pd_path ?v) = Some pt"
    and s: "s = set_entry pt (PT_INDEX ?v) ((0x9000 AND PTE_ADDR_MASK) OR 3) s4"
    using paging_map_page_flags_cases [OF boot_example_ok tf step] by blast
  have ok4: "pt_ok s4" "cr3 s4 = 0x1000" "pml4 s4 = 0x1000" using k by (simp_all add: tables_kept_def boot_example_def)
  have ok: "pt_ok s" unfolding s by (rule leaf_pt_ok [OF ok4(1) at valid_pt_path]) simp_all
  have at': "table_at s (PD_INDEX ?v # pd_path ?v) = Some pt"
    unfolding s using leaf_table_at [OF ok4(1) at valid_pt_path _ index_less(4) valid_pt_path] at by simp
  have "paging_get_pt ?v s \<noteq> 0"
    unfolding paging_get_pt_tree [OF ok] at' option.case by (rule pt_ok_table(2) [OF ok valid_pt_path at'])
  then show ?thesis
    using ok ok4 step s by (simp add: window_example_def window_ready_def)
qed

section \<open>The properties of the window\<close>

text \<open>C22. Writing physical memory.  For a range above the identity map, \<^verbatim>\<open>paging_write_phys\<close> returns 0 and
  never faults; the memory outside the tables is then the old one with the bytes written at the
  range, whatever page boundaries it crosses, and no translation outside the window has changed.\<close>

theorem write_phys_writes:
  assumes "window_ready s" and "unat len = length src"
    and "IDENTITY_MAP_LIMIT \<le> phys" and "unat phys + length src \<le> 2 ^ 52"
  shows "\<exists>s'. paging_write_phys phys src len s = Some (0, s') \<and> window_ready s' \<and>
    (\<forall>a. \<not> table_frame s (page_of a) \<longrightarrow> mem s' a = mem_write (mem s) phys src a) \<and>
    (\<forall>v. \<not> same_page KERNEL_KMAP_WINDOW v \<longrightarrow> paging_virt_to_phys v s' = paging_virt_to_phys v s)"
proof -
  have "pt_ok s" using assms(1) by (simp add: window_ready_def)
  from write_phys_run [OF assms(1,2) high_outside_tables [OF this assms(3,4)]]
  show ?thesis using window_step_ready [OF _ assms(1)] unfolding window_step_def by blast
qed

theorem write_phys_writes_witness:
  "\<exists>s'. paging_write_phys 0x10000FFE [1, 2, 3, 4] 4 window_example = Some (0, s') \<and> mem s' 0x10001000 = 3"
proof -
  have "unat (4::u64) = length [1, 2, 3, 4 :: u8]" by simp
  from write_phys_writes [OF window_example_ready this, of "0x10000FFE"]
  obtain s' where s': "paging_write_phys 0x10000FFE [1, 2, 3, 4] 4 window_example = Some (0, s')"
    "\<forall>a. \<not> table_frame window_example (page_of a) \<longrightarrow>
       mem s' a = mem_write (mem window_example) 0x10000FFE [1, 2, 3, 4] a" by auto
  have "pt_ok window_example" using window_example_ready by (simp add: window_ready_def)
  from high_outside_tables [OF this, of "0x10001000" 1]
  have "\<not> table_frame window_example (page_of 0x10001000)" by (simp add: outside_tables_def)
  then show ?thesis using s' by (simp add: mem_write_apply)
qed

text \<open>Round trip: what was written to physical memory above the identity map is what
  \<^verbatim>\<open>paging_copy_from_phys\<close> reads back.\<close>

theorem phys_write_copy_roundtrip:
  assumes "window_ready s" and "unat len = length src"
    and "IDENTITY_MAP_LIMIT \<le> phys" and "unat phys + length src \<le> 2 ^ 52"
  shows "\<exists>s1 s2. paging_write_phys phys src len s = Some (0, s1) \<and>
    paging_copy_from_phys phys len s1 = Some (0, src, s2) \<and> window_ready s2"
proof -
  have ok: "pt_ok s" using assms(1) by (simp add: window_ready_def)
  note out = high_outside_tables [OF ok assms(3,4)]
  from write_phys_run [OF assms(1,2) out] obtain s1
    where s1: "paging_write_phys phys src len s = Some (0, s1)" "window_step s s1"
      "\<forall>a. \<not> table_frame s (page_of a) \<longrightarrow> mem s1 a = mem_write (mem s) phys src a" by blast
  note ready1 = window_step_ready [OF s1(2) assms(1)]
  have "outside_tables s1 phys (unat len)" using out assms(2) outside_tables_step [OF s1(2)] by simp
  from copy_from_phys_run [OF ready1 this assms(3)] obtain s2
    where s2: "paging_copy_from_phys phys len s1 = Some (0, mem_read (mem s1) phys (unat len), s2)"
      "window_step s1 s2" by blast
  have lim: "length src < 2 ^ 64" using assms(4) by simp
  have "mem_read (mem s1) phys (length src) = mem_read (mem_write (mem s) phys src) phys (length src)"
    using s1(3) out by (intro nth_equalityI) (auto simp: outside_tables_def)
  then have "mem_read (mem s1) phys (unat len) = src"
    using mem_read_write_same [OF lim] assms(2) by simp
  then show ?thesis using s1(1) s2(1) window_step_ready [OF s2(2) ready1] by auto
qed

theorem phys_write_copy_roundtrip_witness:
  "\<exists>s1 s2. paging_write_phys 0x10000FFE [1, 2, 3, 4] 4 window_example = Some (0, s1) \<and>
     paging_copy_from_phys 0x10000FFE 4 s1 = Some (0, [1, 2, 3, 4], s2)"
proof -
  have "unat (4::u64) = length [1, 2, 3, 4 :: u8]" by simp
  from phys_write_copy_roundtrip [OF window_example_ready this, of "0x10000FFE"] show ?thesis by auto
qed

end
