(* ===== verification/Heap.thy ===== *)
theory Heap
  imports PhysWindow
begin

unbundle bit_operations_syntax

text \<open>
  The kernel heap of \<^verbatim>\<open>core/mm/heap.c\<close>: a doubly linked list of block headers in the address range
  from \<open>KERNEL_HEAP_START\<close>, first-fit allocation with splitting, coalescing on free, and growth by
  mapping fresh pages.  The headers are a typed store: \<open>hblocks s a\<close> is the header at address \<open>a\<close>;
  following a pointer to an address that holds no header, or creating one outside the mapped part
  of the heap, is \<open>None\<close>.  What callers keep in their blocks is modelled by the callers.

  \<open>heap_ok s L\<close> says that the store is the list \<open>L\<close> of blocks (address, size, free), tiling the heap
  without gaps and with no two free neighbours.  \<open>kmalloc\<close> and \<open>kfree\<close> are shown to be the first-fit
  algorithm on \<open>L\<close>.
\<close>

section \<open>State and operations\<close>

record heap_block =
  hb_size :: u64
  hb_free :: bool
  hb_next :: u64
  hb_prev :: u64

record kheap = kpaging +
  heap_head :: u64
  heap_current :: u64
  heap_mapped_end :: u64
  hblocks :: "u64 \<Rightarrow> heap_block option"

definition KERNEL_HEAP_START :: u64 where [simp]: "KERNEL_HEAP_START = 0x10000000"
definition KERNEL_HEAP_LIMIT :: u64 where [simp]: "KERNEL_HEAP_LIMIT = 0x50000000"
definition HEAP_MIN_EXPAND :: u64 where [simp]: "HEAP_MIN_EXPAND = 0x10000"
definition HEAP_ALIGN :: u64 where [simp]: "HEAP_ALIGN = 16"
definition sizeof_heap_block :: u64 where [simp]: "sizeof_heap_block = 32"

definition align_up :: "u64 \<Rightarrow> u64 \<Rightarrow> u64" where
  "align_up v align = (v + align - 1) AND NOT (align - 1)"

text \<open>Overwriting a header, and creating one where there was raw memory.\<close>

definition hput :: "u64 \<Rightarrow> heap_block \<Rightarrow> 'a kheap_scheme \<Rightarrow> 'a kheap_scheme" where
  "hput a b s = s\<lparr>hblocks := (hblocks s)(a \<mapsto> b)\<rparr>"

definition hnew :: "u64 \<Rightarrow> heap_block \<Rightarrow> 'a kheap_scheme \<Rightarrow> 'a kheap_scheme option" where
  "hnew a b s =
     (if KERNEL_HEAP_START \<le> a \<and> unat a + 32 \<le> unat (heap_mapped_end s) then Some (hput a b s) else None)"

text \<open>A merged header becomes raw memory again.\<close>

definition hdrop :: "u64 \<Rightarrow> 'a kheap_scheme \<Rightarrow> 'a kheap_scheme" where
  "hdrop a s = s\<lparr>hblocks := (hblocks s)(a := None)\<rparr>"

definition hmodify :: "u64 \<Rightarrow> (heap_block \<Rightarrow> heap_block) \<Rightarrow> 'a kheap_scheme \<Rightarrow> 'a kheap_scheme option" where
  "hmodify a f s = do { b \<leftarrow> hblocks s a; Some (hput a (f b) s) }"

text \<open>\<^verbatim>\<open>if (q) q->prev = p;\<close>\<close>

definition set_prev :: "u64 \<Rightarrow> u64 \<Rightarrow> 'a kheap_scheme \<Rightarrow> 'a kheap_scheme option" where
  "set_prev q p s = (if q \<noteq> 0 then hmodify q (\<lambda>c. c\<lparr>hb_prev := p\<rparr>) s else Some s)"

text \<open>One page of \<^verbatim>\<open>heap_map_more\<close>; \<open>heap_mapped_end\<close> stays below the limit, so that the loop runs
  once for every page between the old end and the target.\<close>

definition heap_map_page :: "'a kheap_scheme \<Rightarrow> int \<times> 'a kheap_scheme" where
  "heap_map_page s =
     (let (frame, s1) = paging_alloc_page s
      in if frame = 0 then (- 1, s1)
         else
           (let (r, s2) = paging_map_page (heap_mapped_end s1) frame (PAGE_PRESENT OR PAGE_WRITABLE) s1
            in if r \<noteq> 0 then (- 1, paging_free_page frame s2)
               else (0, s2\<lparr>heap_mapped_end := heap_mapped_end s2 + PAGE_SIZE\<rparr>)))"

definition heap_map_more :: "u64 \<Rightarrow> 'a kheap_scheme \<Rightarrow> (int \<times> 'a kheap_scheme) option" where
  "heap_map_more bytes s =
     (let target = heap_mapped_end s + bytes;
          target = (if target > KERNEL_HEAP_LIMIT then KERNEL_HEAP_LIMIT else target)
      in for_status (\<lambda>i s. Some (heap_map_page s))
           [0..<(unat target - unat (heap_mapped_end s) + 4095) div 4096] s)"

definition split_block :: "u64 \<Rightarrow> u64 \<Rightarrow> 'a kheap_scheme \<Rightarrow> (u64 \<times> 'a kheap_scheme) option" where
  "split_block block sz s =
     do { b \<leftarrow> hblocks s block;
          if hb_size b < sz + sizeof_heap_block + HEAP_ALIGN then Some (block, s)
          else
            do { let new_block = block + sizeof_heap_block + sz;
                 s1 \<leftarrow> hnew new_block \<lparr>hb_size = hb_size b - sz - sizeof_heap_block, hb_free = True,
                                       hb_next = hb_next b, hb_prev = block\<rparr> s;
                 s2 \<leftarrow> set_prev (hb_next b) new_block s1;
                 s3 \<leftarrow> hmodify block (\<lambda>b. b\<lparr>hb_size := sz, hb_next := new_block\<rparr>) s2;
                 Some (block, s3) } }"

definition coalesce_next :: "u64 \<Rightarrow> 'a kheap_scheme \<Rightarrow> 'a kheap_scheme option" where
  "coalesce_next block s =
     do { b \<leftarrow> hblocks s block;
          if hb_next b = 0 then Some s
          else
            do { n \<leftarrow> hblocks s (hb_next b);
                 if \<not> hb_free n then Some s
                 else
                   do { let s1 = hdrop (hb_next b) (hput block
                          (b\<lparr>hb_size := hb_size b + (sizeof_heap_block + hb_size n), hb_next := hb_next n\<rparr>) s);
                        set_prev (hb_next n) block s1 } } }"

definition coalesce_prev :: "u64 \<Rightarrow> 'a kheap_scheme \<Rightarrow> 'a kheap_scheme option" where
  "coalesce_prev block s =
     do { b \<leftarrow> hblocks s block;
          if hb_prev b = 0 then Some s
          else
            do { p \<leftarrow> hblocks s (hb_prev b);
                 if \<not> hb_free p then Some s
                 else
                   do { let s1 = hdrop block (hput (hb_prev b)
                          (p\<lparr>hb_size := hb_size p + (sizeof_heap_block + hb_size b), hb_next := hb_next b\<rparr>) s);
                        set_prev (hb_next b) (hb_prev b) s1 } } }"

definition coalesce :: "u64 \<Rightarrow> 'a kheap_scheme \<Rightarrow> 'a kheap_scheme option" where
  "coalesce block s = do { s1 \<leftarrow> coalesce_next block s; coalesce_prev block s1 }"

definition heap_init :: "'a kheap_scheme \<Rightarrow> 'a kheap_scheme option" where
  "heap_init s =
     do { (r, s1) \<leftarrow> heap_map_more HEAP_MIN_EXPAND
            (s\<lparr>heap_head := 0, heap_current := KERNEL_HEAP_START, heap_mapped_end := KERNEL_HEAP_START,
               hblocks := (\<lambda>a. None)\<rparr>);
          if r \<noteq> 0 then Some s1
          else
            do { s2 \<leftarrow> hnew (heap_current s1) \<lparr>hb_size = HEAP_MIN_EXPAND - sizeof_heap_block, hb_free = True,
                                             hb_next = 0, hb_prev = 0\<rparr> s1;
                 Some (s2\<lparr>heap_head := heap_current s2, heap_current := heap_current s2 + HEAP_MIN_EXPAND\<rparr>) } }"

partial_function (option) find_fit :: "u64 \<Rightarrow> 'a kheap_scheme \<Rightarrow> u64 \<Rightarrow> u64 option" where
  "find_fit sz s block =
     (if block = 0 then Some 0
      else
        do { b \<leftarrow> hblocks s block;
             if \<not> hb_free b \<or> hb_size b < sz then find_fit sz s (hb_next b) else Some block })"

partial_function (option) heap_tail :: "'a kheap_scheme \<Rightarrow> u64 \<Rightarrow> u64 option" where
  "heap_tail s tail =
     do { b \<leftarrow> hblocks s tail; if hb_next b \<noteq> 0 then heap_tail s (hb_next b) else Some tail }"

definition heap_append :: "u64 \<Rightarrow> u64 \<Rightarrow> 'a kheap_scheme \<Rightarrow> 'a kheap_scheme option" where
  "heap_append block expand s =
     do { s1 \<leftarrow> hnew block \<lparr>hb_size = expand - sizeof_heap_block, hb_free = False, hb_next = 0, hb_prev = 0\<rparr> s;
          s2 \<leftarrow> (if heap_head s1 \<noteq> 0 then
                  do { tail \<leftarrow> heap_tail s1 (heap_head s1);
                       s2 \<leftarrow> hmodify tail (\<lambda>t. t\<lparr>hb_next := block\<rparr>) s1;
                       hmodify block (\<lambda>b. b\<lparr>hb_prev := tail\<rparr>) s2 }
                else Some (s1\<lparr>heap_head := block\<rparr>));
          Some (s2\<lparr>heap_current := heap_current s2 + expand\<rparr>) }"

definition kmalloc :: "u64 \<Rightarrow> 'a kheap_scheme \<Rightarrow> (u64 \<times> 'a kheap_scheme) option" where
  "kmalloc size0 s =
     (if size0 = 0 then Some (0, s)
      else
        (let sz = align_up size0 HEAP_ALIGN
         in do { fit \<leftarrow> find_fit sz s (heap_head s);
                 if fit \<noteq> 0 then
                   do { s1 \<leftarrow> hmodify fit (\<lambda>b. b\<lparr>hb_free := False\<rparr>) s;
                        (block, s2) \<leftarrow> split_block fit sz s1;
                        Some (block + sizeof_heap_block, s2) }
                 else
                   do { let need = sz + sizeof_heap_block;
                        let expand = align_up need PAGE_SIZE;
                        let expand = (if expand < HEAP_MIN_EXPAND then HEAP_MIN_EXPAND else expand);
                        (r, s1) \<leftarrow> heap_map_more expand s;
                        if r \<noteq> 0 then Some (0, s1)
                        else
                          do { let block = heap_current s1;
                               s2 \<leftarrow> heap_append block expand s1;
                               (block, s3) \<leftarrow> split_block block sz s2;
                               Some (block + sizeof_heap_block, s3) } } }))"

definition kfree :: "u64 \<Rightarrow> 'a kheap_scheme \<Rightarrow> 'a kheap_scheme option" where
  "kfree ptr s =
     (if ptr = 0 then Some s
      else
        do { let block = ptr - sizeof_heap_block;
             s1 \<leftarrow> hmodify block (\<lambda>b. b\<lparr>hb_free := True\<rparr>) s;
             coalesce block s1 })"

section \<open>The layout of the heap\<close>

type_synonym layout = "(u64 \<times> u64 \<times> bool) list"

fun first_addr :: "layout \<Rightarrow> u64 \<Rightarrow> u64" where
  "first_addr [] q = q"
| "first_addr ((a, n, f) # L) q = a"

fun last_addr :: "u64 \<Rightarrow> layout \<Rightarrow> u64" where
  "last_addr p [] = p"
| "last_addr p ((a, n, f) # L) = last_addr a L"

text \<open>\<open>hseg h p L q\<close>: the headers of \<open>L\<close> are linked to each other, back to \<open>p\<close> and on to \<open>q\<close>.\<close>

fun hseg :: "(u64 \<Rightarrow> heap_block option) \<Rightarrow> u64 \<Rightarrow> layout \<Rightarrow> u64 \<Rightarrow> bool" where
  "hseg h p [] q \<longleftrightarrow> True"
| "hseg h p ((a, n, f) # L) q \<longleftrightarrow>
     h a = Some \<lparr>hb_size = n, hb_free = f, hb_next = first_addr L q, hb_prev = p\<rparr> \<and> hseg h a L q"

fun tiles :: "nat \<Rightarrow> layout \<Rightarrow> nat \<Rightarrow> bool" where
  "tiles s [] e \<longleftrightarrow> s = e"
| "tiles s ((a, n, f) # L) e \<longleftrightarrow>
     unat a = s \<and> 16 dvd unat n \<and> 16 \<le> unat n \<and> tiles (s + 32 + unat n) L e"

fun last_free :: "bool \<Rightarrow> layout \<Rightarrow> bool" where
  "last_free p [] = p"
| "last_free p ((a, n, f) # L) = last_free f L"

text \<open>No free block follows a free block; \<open>p\<close> says whether the block before the list is free.\<close>

fun coalesced :: "bool \<Rightarrow> layout \<Rightarrow> bool" where
  "coalesced p [] \<longleftrightarrow> True"
| "coalesced p ((a, n, f) # L) \<longleftrightarrow> \<not> (p \<and> f) \<and> coalesced f L"

definition addrs :: "layout \<Rightarrow> u64 set" where
  "addrs L = fst ` set L"

definition heap_shape :: "'a kheap_scheme \<Rightarrow> layout \<Rightarrow> bool" where
  "heap_shape s L \<longleftrightarrow> hseg (hblocks s) 0 L 0 \<and> heap_head s = first_addr L 0 \<and> dom (hblocks s) = addrs L \<and>
     tiles (unat KERNEL_HEAP_START) L (unat (heap_current s)) \<and>
     heap_current s \<le> heap_mapped_end s \<and> heap_mapped_end s \<le> KERNEL_HEAP_LIMIT \<and>
     unat (heap_mapped_end s) mod 4096 = 0 \<and> unat (heap_current s) mod 4096 = 0"

definition heap_ok :: "'a kheap_scheme \<Rightarrow> layout \<Rightarrow> bool" where
  "heap_ok s L \<longleftrightarrow> heap_shape s L \<and> coalesced False L"

lemma addrs_simps [simp]: "addrs [] = {}" "addrs ((a, n, f) # L) = insert a (addrs L)"
  "addrs (L @ M) = addrs L \<union> addrs M"
  by (auto simp: addrs_def)

lemma first_addr_append: "first_addr (L @ M) q = first_addr L (first_addr M q)"
  by (cases L) auto

lemma hseg_append: "hseg h p (L @ M) q \<longleftrightarrow> hseg h p L (first_addr M q) \<and> hseg h (last_addr p L) M q"
  by (induction L arbitrary: p) (auto simp: first_addr_append)

lemma last_addr_append [simp]: "last_addr p (L @ M) = last_addr (last_addr p L) M"
  by (induction L arbitrary: p) auto

lemma hseg_update: "a \<notin> addrs L \<Longrightarrow> hseg (h(a := v)) p L q = hseg h p L q"
  by (induction L arbitrary: p) auto

lemma hseg_dom: "hseg h p L q \<Longrightarrow> addrs L \<subseteq> dom h"
  by (induction L arbitrary: p) fastforce+

lemma tiles_append: "tiles s (L @ M) e \<longleftrightarrow> (\<exists>m. tiles s L m \<and> tiles m M e)"
  by (induction L arbitrary: s) auto

lemma tiles_le: "tiles s L e \<Longrightarrow> s \<le> e"
  by (induction L arbitrary: s) (auto, fastforce)

lemma tiles_addr: "tiles s L e \<Longrightarrow> a \<in> addrs L \<Longrightarrow> s \<le> unat a \<and> unat a + 48 \<le> e"
proof (induction L arbitrary: s)
  case (Cons x L)
  obtain b n f where x: "x = (b, n, f)" by (cases x) auto
  from Cons.prems x have t: "tiles (s + 32 + unat n) L e" "unat b = s" "16 \<le> unat n" by auto
  then show ?case using Cons x tiles_le [OF t(1)] by (auto dest!: Cons.IH [OF t(1)])
qed simp

lemma tiles_fun: "tiles s L e \<Longrightarrow> tiles s L e' \<Longrightarrow> e = e'"
  by (induction L arbitrary: s) auto

text \<open>A block in the middle: its neighbours have other addresses.\<close>

lemma tiles_middle:
  assumes "tiles s (xs @ (a, n, f) # ys) e"
  shows "a \<notin> addrs xs" "a \<notin> addrs ys" "addrs xs \<inter> addrs ys = {}"
    "tiles s xs (unat a)" "tiles (unat a + 32 + unat n) ys e" "16 dvd unat n" "16 \<le> unat n"
proof -
  from assms have t: "tiles s xs (unat a)" "tiles (unat a + 32 + unat n) ys e" "16 dvd unat n" "16 \<le> unat n"
    by (auto simp: tiles_append)
  then show "tiles s xs (unat a)" "tiles (unat a + 32 + unat n) ys e" "16 dvd unat n" "16 \<le> unat n" by auto
  show "a \<notin> addrs xs" "a \<notin> addrs ys" "addrs xs \<inter> addrs ys = {}"
    using tiles_addr [OF t(1)] tiles_addr [OF t(2)] by fastforce+
qed

lemma first_addr_zero: "tiles s L e \<Longrightarrow> 0 < s \<Longrightarrow> first_addr L 0 = 0 \<longleftrightarrow> L = []"
  by (cases L) (auto simp: unat_gt_0)

lemma last_addr_zero: "tiles s L e \<Longrightarrow> 0 < s \<Longrightarrow> last_addr 0 L = 0 \<longleftrightarrow> L = []"
proof (cases L rule: rev_exhaust)
  case (snoc L' x)
  assume "tiles s L e" "0 < s"
  then show ?thesis using snoc tiles_le [of s L' 0] by (cases x) (auto simp: tiles_append)
qed simp

lemma coalesced_append: "coalesced p (L @ M) \<longleftrightarrow> coalesced p L \<and> coalesced (last_free p L) M"
  by (induction L arbitrary: p) auto

lemma last_free_append [simp]: "last_free p (L @ M) = last_free (last_free p L) M"
  by (induction L arbitrary: p) auto

section \<open>Relinking\<close>

definition relink :: "(u64 \<Rightarrow> heap_block option) \<Rightarrow> u64 \<Rightarrow> u64 \<Rightarrow> (u64 \<Rightarrow> heap_block option)" where
  "relink h q p = (if q = 0 then h else h(q := map_option (\<lambda>c. c\<lparr>hb_prev := p\<rparr>) (h q)))"

lemma relink_step:
  assumes "q = 0 \<or> hblocks s q \<noteq> None"
  shows "set_prev q p s = Some (s\<lparr>hblocks := relink (hblocks s) q p\<rparr>)"
  using assms by (auto simp: set_prev_def hmodify_def hput_def relink_def)

lemma relink_other [simp]: "a \<noteq> q \<Longrightarrow> relink h q p a = h a"
  by (simp add: relink_def)

lemma dom_relink [simp]: "dom (relink h q p) = dom h"
  by (auto simp: relink_def)

lemma hseg_relink_other: "q \<notin> addrs L \<Longrightarrow> hseg (relink h q p') p L r = hseg h p L r"
  by (simp add: relink_def hseg_update)

lemma hseg_relink:
  assumes "hseg h p L 0" and "tiles s L e" and "0 < s"
  shows "hseg (relink h (first_addr L 0) p') p' L 0"
proof (cases L)
  case (Cons x L')
  obtain q m g where x: "x = (q, m, g)" by (cases x) auto
  have "q \<notin> addrs L'" using tiles_middle(2) [of s "[]" q m g L' e] assms(2) Cons x by simp
  moreover have "q \<noteq> 0" using assms(2,3) Cons x by auto
  ultimately show ?thesis using assms(1) Cons x by (simp add: hseg_relink_other) (simp add: relink_def)
qed simp

lemma first_addr_dom: "hseg h p L 0 \<Longrightarrow> first_addr L 0 = 0 \<or> h (first_addr L 0) \<noteq> None"
  by (cases L) auto

lemma first_addr_mem: "first_addr L 0 = 0 \<or> first_addr L 0 \<in> addrs L"
  by (cases L) auto

text \<open>What the shape says about a block in the middle of the list.\<close>

lemma shape_middle:
  assumes "heap_shape s (xs @ (a, n, f) # ys)"
  shows "hblocks s a = Some \<lparr>hb_size = n, hb_free = f, hb_next = first_addr ys 0, hb_prev = last_addr 0 xs\<rparr>"
    and "hseg (hblocks s) 0 xs a" and "hseg (hblocks s) a ys 0"
    and "tiles (unat KERNEL_HEAP_START) xs (unat a)" and "tiles (unat a + 32 + unat n) ys (unat (heap_current s))"
    and "a \<notin> addrs xs" and "a \<notin> addrs ys" and "addrs xs \<inter> addrs ys = {}"
    and "16 dvd unat n" and "16 \<le> unat n" and "unat a + 32 + unat n \<le> unat (heap_current s)"
    and "unat (heap_current s) \<le> 0x50000000" and "a \<noteq> 0" and "0x10000000 \<le> unat a"
proof -
  have seg: "hseg (hblocks s) 0 (xs @ (a, n, f) # ys) 0"
    and t: "tiles (unat KERNEL_HEAP_START) (xs @ (a, n, f) # ys) (unat (heap_current s))"
    and lim: "unat (heap_current s) \<le> unat (heap_mapped_end s)" "unat (heap_mapped_end s) \<le> 0x50000000"
    using assms by (auto simp: heap_shape_def unat_le_iff)
  note m = tiles_middle [OF t]
  show "hblocks s a = Some \<lparr>hb_size = n, hb_free = f, hb_next = first_addr ys 0, hb_prev = last_addr 0 xs\<rparr>"
    "hseg (hblocks s) 0 xs a" "hseg (hblocks s) a ys 0"
    using seg by (auto simp: hseg_append)
  show "tiles (unat KERNEL_HEAP_START) xs (unat a)" "tiles (unat a + 32 + unat n) ys (unat (heap_current s))"
    "a \<notin> addrs xs" "a \<notin> addrs ys" "addrs xs \<inter> addrs ys = {}" "16 dvd unat n" "16 \<le> unat n" by (rule m)+
  show "unat a + 32 + unat n \<le> unat (heap_current s)" by (rule tiles_le [OF m(5)])
  show "unat (heap_current s) \<le> 0x50000000" using lim by simp
  show ge: "0x10000000 \<le> unat a" using tiles_le [OF m(4)] by simp
  then show "a \<noteq> 0" by auto
qed

text \<open>Replacing a block in the middle by one or two blocks that fill the same space.\<close>

lemma shape_replace:
  assumes old: "heap_shape s (xs @ (a, n, f) # ys)"
    and tiles': "tiles (unat a) M (unat a + 32 + unat n)"
    and M: "first_addr M 0 = a" "hseg h a' M (first_addr ys 0)" "a' = last_addr 0 xs"
    and xs: "hseg h 0 xs a" and ys: "hseg h (last_addr a' M) ys 0"
    and dom: "dom h = addrs xs \<union> addrs M \<union> addrs ys"
  shows "heap_shape (s\<lparr>hblocks := h\<rparr>) (xs @ M @ ys)"
proof -
  note m = shape_middle [OF old]
  have "M \<noteq> []" using M(1) m(13) by auto
  then have first: "first_addr (xs @ M @ ys) 0 = first_addr (xs @ (a, n, f) # ys) 0"
    and fM: "first_addr (M @ ys) 0 = a"
    using M(1) by (auto simp: first_addr_append neq_Nil_conv)
  have "hseg h 0 (xs @ M @ ys) 0"
    using xs M ys fM by (simp add: hseg_append)
  moreover have "tiles (unat KERNEL_HEAP_START) (xs @ M @ ys) (unat (heap_current s))"
    using m(4,5) tiles' by (auto simp: tiles_append)
  ultimately show ?thesis
    using old dom first by (simp add: heap_shape_def Un_assoc)
qed

section \<open>Splitting\<close>

definition split_layout :: "u64 \<Rightarrow> u64 \<Rightarrow> bool \<Rightarrow> u64 \<Rightarrow> layout" where
  "split_layout a n f sz =
     (if unat n < unat sz + 48 then [(a, n, f)]
      else [(a, sz, f), (a + 32 + sz, n - sz - 32, True)])"

lemma split_sizes:
  assumes "unat (a::u64) + 32 + unat (n::u64) \<le> 0x50000000" and "unat sz + 48 \<le> unat n"
  shows "unat (a + 32 + sz) = unat a + 32 + unat sz" and "unat (n - sz - 32) = unat n - unat sz - 32"
    and "\<not> n < sz + 32 + 16"
proof -
  show "unat (a + 32 + sz) = unat a + 32 + unat sz"
    using assms by (simp add: unat_add_small)
  have 1: "unat (n - sz) = unat n - unat sz" using assms by (intro unat_sub_le) (simp add: unat_le_iff)
  have "32 \<le> n - sz" unfolding unat_le_iff 1 using assms(2) by simp
  then show "unat (n - sz - 32) = unat n - unat sz - 32" by (simp add: unat_sub_le 1)
  have "unat (sz + 32 + 16) = unat sz + 48" using assms by (simp add: unat_add_small add.assoc)
  then show "\<not> n < sz + 32 + 16" unfolding unat_less_iff using assms(2) by simp
qed

lemma split_block_shape:
  assumes sh: "heap_shape s (xs @ (a, n, f) # ys)"
    and sz: "16 dvd unat sz" "16 \<le> unat sz" "unat sz \<le> unat n"
  obtains h where "split_block a sz s = Some (a, s\<lparr>hblocks := h\<rparr>)"
    and "heap_shape (s\<lparr>hblocks := h\<rparr>) (xs @ split_layout a n f sz @ ys)"
proof (cases "unat n < unat sz + 48")
  case True
  note m = shape_middle [OF sh]
  have "unat (sz + 32 + 16) = unat sz + 48" using m(11,12) sz by (simp add: unat_add_small add.assoc)
  then have "n < sz + 32 + 16" unfolding unat_less_iff using True by simp
  then have "split_block a sz s = Some (a, s\<lparr>hblocks := hblocks s\<rparr>)" using m(1) by (simp add: split_block_def)
  then show thesis by (rule that) (use sh True in \<open>simp add: split_layout_def\<close>)
next
  case False
  note m = shape_middle [OF sh]
  have bound: "unat a + 32 + unat n \<le> 0x50000000" using m(11,12) by simp
  have room: "unat sz + 48 \<le> unat n" using False by simp
  note u = split_sizes [OF bound room]
  define nb where "nb = a + 32 + sz"
  define q where "q = first_addr ys 0"
  define h1 where "h1 = (hblocks s)(nb \<mapsto> \<lparr>hb_size = n - sz - 32, hb_free = True, hb_next = q, hb_prev = a\<rparr>)"
  define h2 where "h2 = relink h1 q nb"
  define h where "h = h2(a \<mapsto> \<lparr>hb_size = sz, hb_free = f, hb_next = nb, hb_prev = last_addr 0 xs\<rparr>)"
  have nb: "nb \<noteq> a" "nb \<notin> addrs xs" "nb \<notin> addrs ys"
    using u(1) tiles_addr [OF m(4), of nb] tiles_addr [OF m(5), of nb] room sz(2)
    by (auto simp: nb_def unat_eq_iff)
  have "nb \<noteq> 0" using u(1) by (auto simp: nb_def unat_eq_iff)
  then have q: "q = 0 \<or> q \<in> addrs ys" "q \<noteq> a" "q \<noteq> nb"
    using first_addr_mem [of ys] m(7,13) nb(3) unfolding q_def by metis+
  have qxs: "q \<notin> addrs xs" using q(1) m(8) tiles_addr [OF m(4), of q] by auto
  have "KERNEL_HEAP_START \<le> nb" "unat nb + 32 \<le> unat (heap_mapped_end s)"
    using sh m(11,14) room u(1) by (auto simp: nb_def unat_le_iff heap_shape_def)
  then have new: "hnew nb \<lparr>hb_size = n - sz - 32, hb_free = True, hb_next = q, hb_prev = a\<rparr> s = Some (s\<lparr>hblocks := h1\<rparr>)"
    by (simp add: hnew_def hput_def h1_def)
  have qin: "q = 0 \<or> hblocks (s\<lparr>hblocks := h1\<rparr>) q \<noteq> None"
    using first_addr_dom [OF m(3)] by (auto simp: q_def h1_def)
  note rel = relink_step [OF qin, of nb]
  have split: "split_block a sz s = Some (a, s\<lparr>hblocks := h\<rparr>)"
    using u(3) m(1) new rel nb(1) q(2)
    by (simp add: split_block_def nb_def [symmetric] q_def [symmetric] hmodify_def hput_def h_def h2_def h1_def)
  have "heap_shape (s\<lparr>hblocks := h\<rparr>) (xs @ [(a, sz, f), (nb, n - sz - 32, True)] @ ys)"
  proof (rule shape_replace [OF sh _ _ _ refl])
    show "tiles (unat a) [(a, sz, f), (nb, n - sz - 32, True)] (unat a + 32 + unat n)"
      using u room sz m(9) by (auto simp: nb_def intro!: dvd_diff_nat)
    show "first_addr [(a, sz, f), (nb, n - sz - 32, True)] 0 = a" by simp
    show "hseg h (last_addr 0 xs) [(a, sz, f), (nb, n - sz - 32, True)] (first_addr ys 0)"
      using nb(1) q(3) by (simp add: h_def h2_def h1_def q_def [symmetric])
    show "hseg h 0 xs a"
      using m(2,6) nb(2) qxs by (simp add: h_def h2_def h1_def hseg_update hseg_relink_other)
    have "hseg h1 a ys 0" using m(3) nb(3) by (simp add: h1_def hseg_update)
    then have "hseg h2 nb ys 0" unfolding h2_def q_def by (rule hseg_relink [OF _ m(5)]) simp
    then show "hseg h (last_addr (last_addr 0 xs) [(a, sz, f), (nb, n - sz - 32, True)]) ys 0"
      using m(7) by (simp add: h_def hseg_update)
    show "dom h = addrs xs \<union> addrs [(a, sz, f), (nb, n - sz - 32, True)] \<union> addrs ys"
      using sh by (auto simp: h_def h2_def h1_def heap_shape_def)
  qed
  then show thesis by (intro that [OF split]) (use False in \<open>simp add: split_layout_def nb_def\<close>)
qed

section \<open>Coalescing\<close>

lemma set_free_shape:
  assumes sh: "heap_shape s (xs @ (a, n, f) # ys)"
  obtains h where "hmodify a (\<lambda>b. b\<lparr>hb_free := g\<rparr>) s = Some (s\<lparr>hblocks := h\<rparr>)"
    and "heap_shape (s\<lparr>hblocks := h\<rparr>) (xs @ (a, n, g) # ys)"
proof -
  note m = shape_middle [OF sh]
  define h where "h = (hblocks s)(a \<mapsto> \<lparr>hb_size = n, hb_free = g, hb_next = first_addr ys 0, hb_prev = last_addr 0 xs\<rparr>)"
  have "hmodify a (\<lambda>b. b\<lparr>hb_free := g\<rparr>) s = Some (s\<lparr>hblocks := h\<rparr>)"
    using m(1) by (simp add: hmodify_def hput_def h_def)
  moreover have "heap_shape (s\<lparr>hblocks := h\<rparr>) (xs @ [(a, n, g)] @ ys)"
  proof (rule shape_replace [OF sh _ _ _ refl])
    show "dom h = addrs xs \<union> addrs [(a, n, g)] \<union> addrs ys" using sh by (auto simp: h_def heap_shape_def)
  qed (use m in \<open>simp_all add: h_def hseg_update\<close>)
  ultimately show thesis by (intro that) simp_all
qed

text \<open>Two neighbours merged.\<close>

lemma merge_shape:
  assumes sh: "heap_shape s (xs @ (a, n, f) # (b, k, g) # ys)"
  defines "q \<equiv> first_addr ys 0"
  defines "h1 \<equiv> (hblocks s)(a \<mapsto> \<lparr>hb_size = n + (32 + k), hb_free = f, hb_next = q, hb_prev = last_addr 0 xs\<rparr>, b := None)"
  shows "set_prev q a (s\<lparr>hblocks := h1\<rparr>) =
      Some (s\<lparr>hblocks := relink h1 q a\<rparr>)"
    and "heap_shape (s\<lparr>hblocks := relink h1 q a\<rparr>) (xs @ (a, n + (32 + k), f) # ys)"
proof -
  note m = shape_middle [OF sh]
  have sh': "heap_shape s ((xs @ [(a, n, f)]) @ (b, k, g) # ys)" using sh by simp
  note mb = shape_middle [OF sh']
  have ab: "a \<noteq> b" "b \<notin> addrs xs" "b \<notin> addrs ys" "a \<notin> addrs ys" using m(7) mb(6,7) by auto
  have b: "unat b = unat a + 32 + unat n" using m(5) by simp
  have nk: "unat (n + (32 + k)) = unat n + 32 + unat k"
    using m(11,12) mb(11) b by (simp add: unat_add_small)
  have q: "q = 0 \<or> q \<in> addrs ys" "q \<noteq> a" "q \<noteq> b"
    using first_addr_mem [of ys] ab m(13) mb(13) unfolding q_def by metis+
  have qxs: "q \<notin> addrs xs" using q(1) m(8) tiles_addr [OF m(4), of q] by auto
  have qin: "q = 0 \<or> hblocks (s\<lparr>hblocks := h1\<rparr>) q \<noteq> None"
    using first_addr_dom [OF mb(3)] q by (auto simp: q_def h1_def)
  show "set_prev q a (s\<lparr>hblocks := h1\<rparr>) =
      Some (s\<lparr>hblocks := relink h1 q a\<rparr>)"
    using relink_step [OF qin, of a] by simp
  have t: "tiles (unat a) [(a, n + (32 + k), f)] (unat b + 32 + unat k)"
    using nk b m(9,10) mb(9) by simp
  have "heap_shape (s\<lparr>hblocks := relink h1 q a\<rparr>) (xs @ [(a, n + (32 + k), f)] @ ys)"
    unfolding heap_shape_def
  proof (intro conjI)
    have "hseg h1 b ys 0" using mb(3) ab by (simp add: h1_def hseg_update)
    then have ys: "hseg (relink h1 q a) a ys 0" unfolding q_def by (rule hseg_relink [OF _ mb(5)]) simp
    have xs: "hseg (relink h1 q a) 0 xs a"
      using m(2,6) ab qxs by (simp add: h1_def hseg_update hseg_relink_other)
    have "relink h1 q a a = Some \<lparr>hb_size = n + (32 + k), hb_free = f, hb_next = q, hb_prev = last_addr 0 xs\<rparr>"
      using q(2) ab(1) by (simp add: h1_def)
    then show "hseg (hblocks (s\<lparr>hblocks := relink h1 q a\<rparr>)) 0 (xs @ [(a, n + (32 + k), f)] @ ys) 0"
      using xs ys by (simp add: hseg_append q_def [symmetric])
    show "dom (hblocks (s\<lparr>hblocks := relink h1 q a\<rparr>)) = addrs (xs @ [(a, n + (32 + k), f)] @ ys)"
      using sh ab by (auto simp: heap_shape_def h1_def)
    show "tiles (unat KERNEL_HEAP_START) (xs @ [(a, n + (32 + k), f)] @ ys)
        (unat (heap_current (s\<lparr>hblocks := relink h1 q a\<rparr>)))"
    proof -
      have "tiles (unat a) ([(a, n + (32 + k), f)] @ ys) (unat (heap_current s))"
        using t mb(5) unfolding tiles_append by blast
      then show ?thesis using m(4) unfolding tiles_append [of _ xs] by auto
    qed
  qed (use sh in \<open>auto simp: heap_shape_def first_addr_append\<close>)
  then show "heap_shape (s\<lparr>hblocks := relink h1 q a\<rparr>) (xs @ (a, n + (32 + k), f) # ys)" by simp
qed

fun merge_next :: "u64 \<times> u64 \<times> bool \<Rightarrow> layout \<Rightarrow> layout" where
  "merge_next (a, n, f) [] = [(a, n, f)]"
| "merge_next (a, n, f) ((b, k, g) # ys) =
     (if g then (a, n + (32 + k), f) # ys else (a, n, f) # (b, k, g) # ys)"

lemma coalesce_next_shape:
  assumes sh: "heap_shape s (xs @ (a, n, f) # ys)"
  obtains h where "coalesce_next a s = Some (s\<lparr>hblocks := h\<rparr>)"
    and "heap_shape (s\<lparr>hblocks := h\<rparr>) (xs @ merge_next (a, n, f) ys)"
proof (cases ys)
  case Nil
  then show thesis
    using shape_middle(1) [OF sh] sh by (intro that [of "hblocks s"]) (simp_all add: coalesce_next_def)
next
  case (Cons y ys')
  obtain b k g where y: "y = (b, k, g)" by (cases y) auto
  have sh2: "heap_shape s (xs @ (a, n, f) # (b, k, g) # ys')" using sh Cons y by simp
  have sh': "heap_shape s ((xs @ [(a, n, f)]) @ (b, k, g) # ys')" using sh Cons y by simp
  note m = shape_middle [OF sh2] and mb = shape_middle [OF sh']
  show thesis
  proof (cases g)
    case False
    then show thesis
      using m(1) mb(1) Cons y sh by (intro that [of "hblocks s"]) (simp_all add: coalesce_next_def)
  next
    case True
    note mg = merge_shape [OF sh2]
    define q where "q = first_addr ys' 0"
    define h1 where "h1 = (hblocks s)(a \<mapsto> \<lparr>hb_size = n + (32 + k), hb_free = f, hb_next = q, hb_prev = last_addr 0 xs\<rparr>, b := None)"
    have "coalesce_next a s = Some (s\<lparr>hblocks := relink h1 q a\<rparr>)"
      using m(1) mb(1,13) True mg(1)
      by (simp add: coalesce_next_def hput_def hdrop_def q_def h1_def)
    then show thesis
      by (rule that) (use mg(2) True Cons y in \<open>simp add: q_def h1_def\<close>)
  qed
qed

lemma coalesce_prev_shape:
  assumes sh: "heap_shape s ((ps @ [(p, k, g)]) @ (a, n, f) # ys)"
  obtains h where "coalesce_prev a s = Some (s\<lparr>hblocks := h\<rparr>)"
    and "heap_shape (s\<lparr>hblocks := h\<rparr>)
      (ps @ (if g then [(p, k + (32 + n), True)] else [(p, k, g), (a, n, f)]) @ ys)"
proof -
  have sh2: "heap_shape s (ps @ (p, k, g) # (a, n, f) # ys)" using sh by simp
  note m = shape_middle [OF sh] and mp = shape_middle [OF sh2]
  show thesis
  proof (cases g)
    case False
    then show thesis
      using m(1) mp(1,13) sh by (intro that [of "hblocks s"]) (simp_all add: coalesce_prev_def)
  next
    case True
    note mg = merge_shape [OF sh2]
    define q where "q = first_addr ys 0"
    define h1 where "h1 = (hblocks s)(p \<mapsto> \<lparr>hb_size = k + (32 + n), hb_free = g, hb_next = q, hb_prev = last_addr 0 ps\<rparr>, a := None)"
    have "coalesce_prev a s = Some (s\<lparr>hblocks := relink h1 q p\<rparr>)"
      using m(1) mp(1,13) True mg(1)
      by (simp add: coalesce_prev_def hput_def hdrop_def q_def h1_def)
    then show thesis
      by (rule that) (use mg(2) True in \<open>simp add: q_def h1_def\<close>)
  qed
qed

lemma coalesce_prev_first:
  assumes sh: "heap_shape s ((a, n, f) # ys)"
  shows "coalesce_prev a s = Some s"
  using shape_middle(1) [of s "[]" a n f ys] sh by (simp add: coalesce_prev_def)

section \<open>Freeing, as a function on the layout\<close>

text \<open>\<open>free_at a L\<close> marks the block at \<open>a\<close> free and joins it with its free neighbours.\<close>

fun free_at :: "u64 \<Rightarrow> layout \<Rightarrow> layout" where
  "free_at a [] = []"
| "free_at a ((b, n, f) # L) =
     (if b = a then merge_next (b, n, True) L
      else if f then merge_next (b, n, f) (free_at a L) else (b, n, f) # free_at a L)"

fun head_free :: "layout \<Rightarrow> bool" where
  "head_free [] = False"
| "head_free ((a, n, f) # L) = f"

lemma merge_next_cases:
  "merge_next (a, n, f) ys = (if head_free ys then (a, n + (32 + fst (snd (hd ys))), f) # tl ys else (a, n, f) # ys)"
  by (cases ys) auto

lemma head_free_merge [simp]: "head_free (merge_next (a, n, f) ys) = f"
  by (cases ys) (auto split: if_splits)

lemma head_free_free_at: "xs \<noteq> [] \<Longrightarrow> a \<notin> addrs xs \<Longrightarrow> head_free (free_at a (xs @ ys)) = head_free xs"
  by (cases xs) (auto split: if_splits)

lemma free_at_append:
  "a \<notin> addrs (xs @ [(p, k, g)]) \<Longrightarrow> coalesced c (xs @ [(p, k, g)]) \<Longrightarrow>
     free_at a ((xs @ [(p, k, g)]) @ (a, n, f) # ys) =
       xs @ (if g then merge_next (p, k, g) (merge_next (a, n, True) ys)
             else (p, k, g) # merge_next (a, n, True) ys)"
proof (induction xs arbitrary: c)
  case (Cons x xs)
  obtain b m h where x: "x = (b, m, h)" by (cases x) auto
  have IH: "free_at a ((xs @ [(p, k, g)]) @ (a, n, f) # ys) =
       xs @ (if g then merge_next (p, k, g) (merge_next (a, n, True) ys)
             else (p, k, g) # merge_next (a, n, True) ys)"
    using Cons.prems x by (intro Cons.IH [of h]) auto
  have "head_free (free_at a ((xs @ [(p, k, g)]) @ (a, n, f) # ys)) = head_free (xs @ [(p, k, g)])"
    using Cons.prems x by (intro head_free_free_at) auto
  moreover have "\<not> (h \<and> head_free (xs @ [(p, k, g)]))"
    using Cons.prems x by (cases xs) auto
  ultimately have "free_at a (((b, m, h) # xs @ [(p, k, g)]) @ (a, n, f) # ys) =
      (b, m, h) # free_at a ((xs @ [(p, k, g)]) @ (a, n, f) # ys)"
    using Cons.prems x by (auto simp: merge_next_cases)
  then show ?case using IH x by simp
qed auto

lemma coalesced_merge: "coalesced p ((a, n, False) # ys) \<Longrightarrow> coalesced False (merge_next (a, n, True) ys)"
proof (cases ys)
  case (Cons y zs)
  assume "coalesced p ((a, n, False) # ys)"
  then show ?thesis using Cons by (cases y; cases zs) auto
qed auto

lemma coalesced_head: "coalesced False L \<Longrightarrow> \<not> head_free L \<Longrightarrow> coalesced p L"
  by (cases L) auto

lemma merge_next_addrs: "addrs (merge_next (a, n, f) ys) \<subseteq> insert a (addrs ys)"
  by (cases ys) (auto split: if_splits)

text \<open>\<^verbatim>\<open>kfree\<close> on an allocated block is \<open>free_at\<close>.\<close>

lemma kfree_layout:
  assumes ok: "heap_ok s (xs @ (a, n, False) # ys)"
  obtains h where "kfree (a + 32) s = Some (s\<lparr>hblocks := h\<rparr>)"
    and "heap_ok (s\<lparr>hblocks := h\<rparr>) (free_at a (xs @ (a, n, False) # ys))"
proof -
  have sh: "heap_shape s (xs @ (a, n, False) # ys)" and co: "coalesced False (xs @ (a, n, False) # ys)"
    using ok by (simp_all add: heap_ok_def)
  note m = shape_middle [OF sh]
  have nz: "a + 32 \<noteq> 0"
  proof -
    have "unat (a + 32) = unat a + 32" using m(11,12) by (simp add: unat_add_small)
    then show ?thesis by (metis add_is_0 unat_0 zero_neq_numeral)
  qed
  obtain h1 where h1: "hmodify a (\<lambda>b. b\<lparr>hb_free := True\<rparr>) s = Some (s\<lparr>hblocks := h1\<rparr>)"
    "heap_shape (s\<lparr>hblocks := h1\<rparr>) (xs @ (a, n, True) # ys)"
    using set_free_shape [OF sh] by metis
  obtain h2 where h2: "coalesce_next a (s\<lparr>hblocks := h1\<rparr>) = Some (s\<lparr>hblocks := h1\<rparr>\<lparr>hblocks := h2\<rparr>)"
    "heap_shape (s\<lparr>hblocks := h1\<rparr>\<lparr>hblocks := h2\<rparr>) (xs @ merge_next (a, n, True) ys)"
    using coalesce_next_shape [OF h1(2)] by metis
  obtain n' ys' where mn: "merge_next (a, n, True) ys = (a, n', True) # ys'"
    by (cases "head_free ys") (auto simp: merge_next_cases)
  have sh2: "heap_shape (s\<lparr>hblocks := h2\<rparr>) (xs @ (a, n', True) # ys')" using h2(2) mn by simp
  have cm: "coalesced False ((a, n', True) # ys')"
    using coalesced_merge [of _ a n ys] co mn by (auto simp: coalesced_append)
  have start: "kfree (a + 32) s = coalesce_prev a (s\<lparr>hblocks := h2\<rparr>)"
    using nz h1(1) h2(1) by (simp add: kfree_def coalesce_def)
  show thesis
  proof (cases xs rule: rev_cases)
    case Nil
    have "kfree (a + 32) s = Some (s\<lparr>hblocks := h2\<rparr>)"
      unfolding start using coalesce_prev_first [of "s\<lparr>hblocks := h2\<rparr>" a n' True ys'] sh2 Nil by simp
    then show thesis
      by (rule that) (use Nil sh2 cm mn in \<open>simp add: heap_ok_def\<close>)
  next
    case (snoc ps p)
    obtain pa k g where p: "p = (pa, k, g)" by (cases p) auto
    have sh3: "heap_shape (s\<lparr>hblocks := h2\<rparr>) ((ps @ [(pa, k, g)]) @ (a, n', True) # ys')"
      using sh2 snoc p by simp
    obtain h3 where h3: "coalesce_prev a (s\<lparr>hblocks := h2\<rparr>) = Some (s\<lparr>hblocks := h2\<rparr>\<lparr>hblocks := h3\<rparr>)"
      "heap_shape (s\<lparr>hblocks := h2\<rparr>\<lparr>hblocks := h3\<rparr>)
        (ps @ (if g then [(pa, k + (32 + n'), True)] else [(pa, k, g), (a, n', True)]) @ ys')"
      using coalesce_prev_shape [OF sh3] by metis
    have lay: "free_at a (xs @ (a, n, False) # ys) =
        ps @ (if g then [(pa, k + (32 + n'), True)] else [(pa, k, g), (a, n', True)]) @ ys'"
      using free_at_append [of a ps pa k g False n False ys] m(6) co mn snoc p by (simp add: coalesced_append)
    have "coalesced False (free_at a (xs @ (a, n, False) # ys))"
      unfolding lay using co snoc p cm by (cases g) (auto simp: coalesced_append)
    then show thesis
      by (intro that [of h3]) (use start h3 lay in \<open>simp_all add: heap_ok_def\<close>)
  qed
qed

section \<open>Searching\<close>

lemma find_fit_list:
  "hseg (hblocks s) p L 0 \<Longrightarrow> tiles b L e \<Longrightarrow> 0 < b \<Longrightarrow>
     find_fit sz s (first_addr L 0) = Some (case find (\<lambda>(a, n, f). f \<and> sz \<le> n) L of
        None \<Rightarrow> 0 | Some (a, n, f) \<Rightarrow> a)"
proof (induction L arbitrary: p b)
  case Nil
  then show ?case by (subst find_fit.simps) simp
next
  case (Cons x L)
  obtain a n f where x: "x = (a, n, f)" by (cases x) auto
  have "a \<noteq> 0" using Cons.prems x by auto
  moreover have "find_fit sz s (first_addr L 0) = Some (case find (\<lambda>(a, n, f). f \<and> sz \<le> n) L of
        None \<Rightarrow> 0 | Some (a, n, f) \<Rightarrow> a)"
    using Cons.prems x by (intro Cons.IH [of a "b + 32 + unat n"]) auto
  ultimately show ?case
    using Cons.prems x by (subst find_fit.simps) (auto simp: not_less not_le)
qed

lemma heap_tail_list:
  "hseg (hblocks s) p L 0 \<Longrightarrow> tiles b L e \<Longrightarrow> 0 < b \<Longrightarrow> L \<noteq> [] \<Longrightarrow>
     heap_tail s (first_addr L 0) = Some (last_addr p L)"
proof (induction L arbitrary: p b)
  case (Cons x L)
  obtain a n f where x: "x = (a, n, f)" by (cases x) auto
  have t: "tiles (b + 32 + unat n) L e" using Cons.prems x by simp
  show ?case
  proof (cases "L = []")
    case True
    then show ?thesis using Cons.prems x by (subst heap_tail.simps) simp
  next
    case False
    then have "first_addr L 0 \<noteq> 0" using first_addr_zero [OF t] by simp
    moreover have "heap_tail s (first_addr L 0) = Some (last_addr a L)"
      using Cons.prems x t False by (intro Cons.IH [of a "b + 32 + unat n"]) auto
    ultimately show ?thesis using Cons.prems x by (subst heap_tail.simps) simp
  qed
qed simp

text \<open>First fit on the layout.\<close>

fun fit_layout :: "u64 \<Rightarrow> layout \<Rightarrow> (u64 \<times> layout) option" where
  "fit_layout sz [] = None"
| "fit_layout sz ((a, n, f) # L) =
     (if f \<and> sz \<le> n then Some (a, split_layout a n False sz @ L)
      else map_option (\<lambda>(p, L'). (p, (a, n, f) # L')) (fit_layout sz L))"

lemma find_fit_layout:
  "find (\<lambda>(a, n, f). f \<and> sz \<le> n) L = None \<longleftrightarrow> fit_layout sz L = None"
  by (induction L) (auto split: option.splits if_splits)

lemma find_split:
  assumes "find (\<lambda>(a, n, f). f \<and> sz \<le> n) L = Some x"
  obtains xs a n ys where "L = xs @ (a, n, True) # ys" and "x = (a, n, True)" and "sz \<le> n"
    and "fit_layout sz L = Some (a, xs @ split_layout a n False sz @ ys)"
  using assms
proof (induction L arbitrary: thesis)
  case (Cons y L)
  obtain a n f where y: "y = (a, n, f)" by (cases y) auto
  show ?case
  proof (cases "f \<and> sz \<le> n")
    case True
    then show ?thesis using Cons.prems y by (intro Cons.prems(1) [of "[]" a n L]) auto
  next
    case False
    then have "find (\<lambda>(a, n, f). f \<and> sz \<le> n) L = Some x" using Cons.prems(2) y by (auto split: if_splits)
    then obtain xs b m ys where "L = xs @ (b, m, True) # ys" "x = (b, m, True)" "sz \<le> m"
      "fit_layout sz L = Some (b, xs @ split_layout b m False sz @ ys)" using Cons.IH by blast
    then show ?thesis using y False by (intro Cons.prems(1) [of "y # xs" b m ys]) auto
  qed
qed simp

lemma coalesced_split: "coalesced p (xs @ (a, n, True) # ys) \<Longrightarrow> coalesced p (xs @ split_layout a n False sz @ ys)"
  using coalesced_head [of ys]
  by (cases ys) (auto simp: coalesced_append split_layout_def)

section \<open>Growing\<close>

lemma kpaging_more_simps [simp]:
  "kpaging.more (snd (paging_alloc_page s)) = kpaging.more s"
  "kpaging.more (paging_free_page p s) = kpaging.more s"
  by (auto simp: paging_alloc_page_def paging_alloc_page_noreserve_def paging_free_page_def Let_def
      split: option.splits)

lemma get_or_create_more: "kpaging.more (snd (get_or_create_table t i f s)) = kpaging.more s"
  using alloc_table_simps(2) [of s]
  by (auto simp: get_or_create_table_def Let_def split: prod.splits)

lemma split_huge_more: "kpaging.more (snd (split_huge_page t i s)) = kpaging.more s"
  using alloc_table_simps(2) [of s]
  by (auto simp: split_huge_page_def Let_def split: prod.splits)

lemma map_page_flags_more: "kpaging.more (snd (paging_map_page_flags v p f tf s)) = kpaging.more s"
proof -
  obtain a s1 where 1: "get_or_create_table (pml4 s) (PML4_INDEX v) tf s = (a, s1)" by fastforce
  obtain b s2 where 2: "get_or_create_table a (PDP_INDEX v) tf s1 = (b, s2)" by fastforce
  obtain r s3 where 3: "(if pte_present (get_entry b (PD_INDEX v) s2) \<and> pte_huge (get_entry b (PD_INDEX v) s2)
      then split_huge_page b (PD_INDEX v) s2 else (0, s2)) = (r, s3)" by fastforce
  obtain c s4 where 4: "get_or_create_table b (PD_INDEX v) tf s3 = (c, s4)" by fastforce
  have "kpaging.more s1 = kpaging.more s" "kpaging.more s2 = kpaging.more s1"
    "kpaging.more s4 = kpaging.more s3"
    using get_or_create_more 1 2 4 by (metis snd_conv)+
  moreover have "kpaging.more s3 = kpaging.more s2"
    using 3 split_huge_more [of b "PD_INDEX v" s2] by (auto split: if_splits)
  ultimately show ?thesis
    using 1 2 3 4 by (simp add: paging_map_page_flags_def Let_def split: prod.splits)
qed

lemma heap_fields:
  assumes "kpaging.more s' = kpaging.more s"
  shows "heap_head s' = heap_head s" "heap_current s' = heap_current s"
    "heap_mapped_end s' = heap_mapped_end s" "hblocks s' = hblocks s" "kheap.more s' = kheap.more s"
  using assms by (cases s; cases s'; simp)+

lemma heap_map_page_fields:
  assumes "heap_map_page s = (r, s')"
  shows "heap_head s' = heap_head s" "heap_current s' = heap_current s" "hblocks s' = hblocks s"
    "kheap.more s' = kheap.more s"
    "heap_mapped_end s' = (if r = 0 then heap_mapped_end s + PAGE_SIZE else heap_mapped_end s)"
proof -
  obtain fr s1 where a: "paging_alloc_page s = (fr, s1)" by fastforce
  obtain r2 s2 where b: "paging_map_page (heap_mapped_end s1) fr (PAGE_PRESENT OR PAGE_WRITABLE) s1 = (r2, s2)"
    by fastforce
  have m1: "kpaging.more s1 = kpaging.more s" using kpaging_more_simps(1) [of s] a by simp
  have m2: "kpaging.more s2 = kpaging.more s"
    using map_page_flags_more [of "heap_mapped_end s1" fr "PAGE_PRESENT OR PAGE_WRITABLE" "PAGE_PRESENT OR PAGE_WRITABLE" s1]
      b m1 by (simp add: paging_map_page_def)
  have m3: "kpaging.more (paging_free_page fr s2) = kpaging.more s" using m2 by simp
  note f = heap_fields [OF m1] heap_fields [OF m2] heap_fields [OF m3]
  show "heap_head s' = heap_head s" "heap_current s' = heap_current s" "hblocks s' = hblocks s"
    "kheap.more s' = kheap.more s"
    "heap_mapped_end s' = (if r = 0 then heap_mapped_end s + PAGE_SIZE else heap_mapped_end s)"
    using assms a b f by (auto simp: heap_map_page_def split: if_splits)
qed

lemma heap_map_pages:
  "unat (heap_mapped_end s) + 4096 * length is < 2 ^ 64 \<Longrightarrow>
   \<exists>r s'. for_status (\<lambda>i s. Some (heap_map_page s)) is s = Some (r, s') \<and>
     heap_head s' = heap_head s \<and> heap_current s' = heap_current s \<and> hblocks s' = hblocks s \<and>
     kheap.more s' = kheap.more s \<and>
     (\<exists>k \<le> length is. unat (heap_mapped_end s') = unat (heap_mapped_end s) + 4096 * k \<and> (r = 0 \<longrightarrow> k = length is))"
proof (induction "is" arbitrary: s)
  case (Cons i "is")
  obtain r s1 where step: "heap_map_page s = (r, s1)" by fastforce
  note f = heap_map_page_fields [OF step]
  show ?case
  proof (cases "r = 0")
    case True
    have e: "unat (heap_mapped_end s1) = unat (heap_mapped_end s) + 4096"
      using f(5) True Cons.prems by (simp add: unat_add_small)
    then have "unat (heap_mapped_end s1) + 4096 * length is < 2 ^ 64" using Cons.prems by simp
    from Cons.IH [OF this] obtain r' s' k where
      "for_status (\<lambda>i s. Some (heap_map_page s)) is s1 = Some (r', s')"
      "heap_head s' = heap_head s1" "heap_current s' = heap_current s1" "hblocks s' = hblocks s1"
      "kheap.more s' = kheap.more s1" "k \<le> length is"
      "unat (heap_mapped_end s') = unat (heap_mapped_end s1) + 4096 * k" "r' = 0 \<longrightarrow> k = length is" by blast
    then show ?thesis using step True f e by (auto intro!: exI [of _ "Suc k"])
  next
    case False
    then show ?thesis using step f by (auto intro!: exI [of _ 0])
  qed
qed simp

lemma heap_map_more_ok:
  assumes ok: "heap_ok s L" and room: "unat (heap_mapped_end s) + unat bytes < 2 ^ 64"
    and al: "unat bytes mod 4096 = 0"
  obtains r s' where "heap_map_more bytes s = Some (r, s')" and "heap_ok s' L"
    and "heap_current s' = heap_current s" and "hblocks s' = hblocks s" and "kheap.more s' = kheap.more s"
    and "r = 0 \<Longrightarrow> unat (heap_mapped_end s') = min 0x50000000 (unat (heap_mapped_end s) + unat bytes)"
proof -
  have e: "unat (heap_mapped_end s) \<le> 0x50000000" "unat (heap_mapped_end s) mod 4096 = 0"
    "unat (heap_current s) \<le> unat (heap_mapped_end s)"
    using ok by (auto simp: heap_ok_def heap_shape_def unat_le_iff)
  define target where "target = (if heap_mapped_end s + bytes > KERNEL_HEAP_LIMIT then KERNEL_HEAP_LIMIT
      else heap_mapped_end s + bytes)"
  have t: "unat target = min 0x50000000 (unat (heap_mapped_end s) + unat bytes)"
    using room by (auto simp: target_def unat_less_iff unat_add_small min_def)
  define n where "n = (unat target - unat (heap_mapped_end s) + 4095) div 4096"
  have "unat target mod 4096 = 0" unfolding t using e(2) al by (auto simp: min_def mod_add_eq [symmetric])
  then obtain j where j: "unat target = 4096 * j" by (metis mod_0_imp_dvd dvdE)
  obtain i where i: "unat (heap_mapped_end s) = 4096 * i" using e(2) by (metis mod_0_imp_dvd dvdE)
  have "i \<le> j" using t e(1) i j by simp
  then have "4096 * j - 4096 * i + 4095 = 4096 * (j - i) + 4095" by (simp add: diff_mult_distrib2)
  then have n: "unat (heap_mapped_end s) + 4096 * n = unat target"
    using \<open>i \<le> j\<close> unfolding n_def i j by simp
  have len: "unat (heap_mapped_end s) + 4096 * length [0..<n] < 2 ^ 64" using n t by simp
  from heap_map_pages [OF len] obtain r s' k where run:
    "for_status (\<lambda>i s. Some (heap_map_page s)) [0..<n] s = Some (r, s')"
    "heap_head s' = heap_head s" "heap_current s' = heap_current s" "hblocks s' = hblocks s"
    "kheap.more s' = kheap.more s" "k \<le> n"
    "unat (heap_mapped_end s') = unat (heap_mapped_end s) + 4096 * k" "r = 0 \<longrightarrow> k = n" by auto
  have le: "unat (heap_mapped_end s') \<le> unat target" using run(6,7) n by simp
  have "heap_map_more bytes s = Some (r, s')"
    using run(1) by (simp add: heap_map_more_def target_def n_def Let_def)
  moreover have "heap_ok s' L"
    using ok run le t e by (simp add: heap_ok_def heap_shape_def unat_le_iff)
  ultimately show thesis
    by (rule that [OF _ _ run(3-5)]) (use run(7,8) n t in simp)
qed

lemma heap_append_shape:
  assumes sh: "heap_shape s L" and room: "unat (heap_current s) + unat x \<le> unat (heap_mapped_end s)"
    and x: "unat x mod 4096 = 0" "0x10000 \<le> unat x"
  obtains s' where "heap_append (heap_current s) x s = Some s'"
    and "heap_shape s' (L @ [(heap_current s, x - 32, False)])" and "heap_mapped_end s' = heap_mapped_end s"
    and "kheap.more s' = kheap.more s"
proof -
  define c where "c = heap_current s"
  have t: "tiles (unat KERNEL_HEAP_START) L (unat c)" and seg: "hseg (hblocks s) 0 L 0"
    and hd: "heap_head s = first_addr L 0" and dm: "dom (hblocks s) = addrs L"
    and lim: "unat (heap_mapped_end s) \<le> 0x50000000"
    using sh by (auto simp: heap_shape_def c_def unat_le_iff)
  have start: "0x10000000 \<le> unat c" using tiles_le [OF t] by simp
  have cL: "c \<notin> addrs L" using tiles_addr [OF t, of c] by auto
  have "32 \<le> x" using x(2) by (simp add: unat_le_iff)
  then have x32: "unat (x - 32) = unat x - 32" by (simp add: unat_sub_le)
  have cx: "unat (c + x) = unat c + unat x" using room lim by (simp add: c_def unat_add_small)
  have d16: "16 dvd unat (x - 32)"
    unfolding x32 using x(1) by (intro dvd_diff_nat) (auto simp: mod_eq_0_iff_dvd elim: dvd_trans [rotated])
  have new: "hnew c b s = Some (hput c b s)" for b
    using start room x(2) by (simp add: hnew_def unat_le_iff c_def)
  define l where "l = last_addr 0 L"
  define b where "b = \<lparr>hb_size = x - 32, hb_free = False, hb_next = 0, hb_prev = l\<rparr>"
  show thesis
  proof (cases L rule: rev_cases)
    case Nil
    define s' where "s' = s\<lparr>hblocks := (hblocks s)(c \<mapsto> b), heap_head := c, heap_current := c + x\<rparr>"
    have "heap_append (heap_current s) x s = Some s'"
      using hd Nil new by (simp add: heap_append_def c_def [symmetric] hput_def s'_def b_def l_def)
    then show thesis
      by (rule that) (use sh Nil t dm x32 d16 x room lim cx in
        \<open>auto simp: heap_shape_def s'_def b_def l_def unat_le_iff c_def [symmetric] mod_add_eq [symmetric]\<close>)
  next
    case (snoc K y)
    obtain a n f where y: "y = (a, n, f)" by (cases y) auto
    have L: "L = K @ [(a, n, f)]" using snoc y by simp
    have la: "l = a" by (simp add: l_def L)
    have segK: "hseg (hblocks s) 0 K a" and ha: "hblocks s a = Some \<lparr>hb_size = n, hb_free = f, hb_next = 0, hb_prev = last_addr 0 K\<rparr>"
      using seg by (simp_all add: L hseg_append)
    have aK: "a \<notin> addrs K" using tiles_middle(1) [of _ K a n f "[]"] t by (simp add: L)
    have ac: "a \<noteq> c" "c \<notin> addrs K" using cL by (auto simp: L)
    have nz: "first_addr L 0 \<noteq> 0" using first_addr_zero [OF t] L by simp
    define s1 where "s1 = hput c (b\<lparr>hb_prev := 0\<rparr>) s"
    have "hseg (hblocks s1) 0 L 0" using seg cL by (simp add: s1_def hput_def hseg_update)
    from heap_tail_list [OF this t _] have tail: "heap_tail s1 (first_addr L 0) = Some a"
      using L by simp
    define h where "h = (hblocks s)(c \<mapsto> b, a \<mapsto> \<lparr>hb_size = n, hb_free = f, hb_next = c, hb_prev = last_addr 0 K\<rparr>)"
    define s' where "s' = s\<lparr>hblocks := h, heap_current := c + x\<rparr>"
    have "heap_append (heap_current s) x s = Some s'"
      using new [of "b\<lparr>hb_prev := 0\<rparr>"] hd nz tail ha ac
      by (simp add: heap_append_def c_def [symmetric] s1_def b_def la hmodify_def hput_def s'_def h_def fun_upd_twist)
    moreover have "hseg h 0 (L @ [(c, x - 32, False)]) 0"
      using segK aK ac by (simp add: L hseg_append h_def hseg_update b_def la)
    moreover have "tiles (unat KERNEL_HEAP_START) (L @ [(c, x - 32, False)]) (unat (c + x))"
      using t d16 x32 x cx by (auto simp: tiles_append)
    moreover have "dom h = insert c (addrs L)" using dm by (auto simp: h_def L)
    moreover have "first_addr (L @ [(c, x - 32, False)]) 0 = first_addr L 0" by (cases L) (auto simp: L)
    ultimately show thesis
      by (intro that [of s']) (use sh hd room lim cx x in
        \<open>auto simp: heap_shape_def s'_def unat_le_iff c_def [symmetric] mod_add_eq [symmetric]\<close>)
  qed
qed

section \<open>Allocation is first fit\<close>

text \<open>The block size for a request, and by how much the heap grows for it.\<close>

definition fit_size :: "u64 \<Rightarrow> u64" where
  "fit_size n = align_up n HEAP_ALIGN"

definition grow_size :: "u64 \<Rightarrow> u64" where
  "grow_size sz = (let x = align_up (sz + sizeof_heap_block) PAGE_SIZE
     in if x < HEAP_MIN_EXPAND then HEAP_MIN_EXPAND else x)"

lemma grow_size_eq:
  "(if align_up (sz + sizeof_heap_block) PAGE_SIZE < HEAP_MIN_EXPAND then HEAP_MIN_EXPAND
    else align_up (sz + sizeof_heap_block) PAGE_SIZE) = grow_size sz"
  by (simp add: grow_size_def Let_def)

definition heap_room :: "u64 \<Rightarrow> 'a kheap_scheme \<Rightarrow> bool" where
  "heap_room n s \<longleftrightarrow> unat (heap_current s) + unat n + 0x11000 \<le> 0x50000000"

lemma unat_align_up:
  assumes "unat v + 2 ^ k \<le> 2 ^ 64" and "align = 2 ^ k" and "k < 64"
  shows "unat (align_up v align) = (unat v + (2 ^ k - 1)) div 2 ^ k * 2 ^ k"
proof -
  have m: "align - 1 = mask k" unfolding assms(2) by (simp add: mask_eq_exp_minus_1)
  have "(2::nat) ^ k < 2 ^ 64" using assms(3) by (intro power_strict_increasing) auto
  then have "unat (of_nat (mask k) :: u64) = mask k"
    by (intro unat_of_nat_small) (simp add: mask_eq_exp_minus_1)
  then have u1: "unat (mask k :: u64) = 2 ^ k - 1"
    by (simp only: of_nat_mask_eq) (simp add: mask_eq_exp_minus_1)
  have e: "v + align - 1 = v + mask k" using m by (simp add: add_diff_eq [symmetric])
  have "unat (v + mask k) = unat v + (2 ^ k - 1)"
    unfolding u1 [symmetric] using assms(1) by (intro unat_add_small) (simp add: u1)
  then show ?thesis unfolding align_up_def e m unat_and_not_mask by simp
qed

lemma fit_size_bounds:
  assumes "n \<noteq> 0" and "unat n \<le> 0x50000000"
  shows "16 dvd unat (fit_size n)" and "unat n \<le> unat (fit_size n)" and "unat (fit_size n) < unat n + 16"
    and "16 \<le> unat (fit_size n)"
proof -
  have u: "unat (fit_size n) = (unat n + 15) div 16 * 16"
    unfolding fit_size_def using unat_align_up [of n 4 HEAP_ALIGN] assms(2) by simp
  have "0 < unat n" using assms(1) by (simp add: unat_gt_0)
  then show "16 dvd unat (fit_size n)" "unat n \<le> unat (fit_size n)" "unat (fit_size n) < unat n + 16"
    "16 \<le> unat (fit_size n)" unfolding u by auto
qed

lemma grow_size_bounds:
  assumes "unat sz \<le> 0x50000010"
  shows "unat (grow_size sz) mod 4096 = 0" and "unat sz + 32 \<le> unat (grow_size sz)"
    and "0x10000 \<le> unat (grow_size sz)" and "unat (grow_size sz) \<le> max 0x10000 (unat sz + 0x1020)"
proof -
  have "unat (sz + 32) = unat sz + 32" using assms by (simp add: unat_add_small)
  then have u: "unat (align_up (sz + 32) PAGE_SIZE) = (unat sz + 32 + 4095) div 4096 * 4096"
    using unat_align_up [of "sz + 32" 12 PAGE_SIZE] assms by simp
  show "unat (grow_size sz) mod 4096 = 0" "unat sz + 32 \<le> unat (grow_size sz)"
    "0x10000 \<le> unat (grow_size sz)" "unat (grow_size sz) \<le> max 0x10000 (unat sz + 0x1020)"
    using u by (auto simp: grow_size_def Let_def unat_less_iff max_def)
qed

lemma kmalloc_fit:
  assumes ok: "heap_ok s L" and n: "n \<noteq> 0" "unat n \<le> 0x50000000"
    and fit: "fit_layout (fit_size n) L = Some (a, L')"
  obtains h where "kmalloc n s = Some (a + 32, s\<lparr>hblocks := h\<rparr>)" and "heap_ok (s\<lparr>hblocks := h\<rparr>) L'"
proof -
  note b = fit_size_bounds [OF n]
  have sh: "heap_shape s L" and co: "coalesced False L" using ok by (simp_all add: heap_ok_def)
  from fit obtain x where f: "find (\<lambda>(a, m, f). f \<and> fit_size n \<le> m) L = Some x"
    using find_fit_layout [of "fit_size n" L] by fastforce
  obtain xs a' m ys where L: "L = xs @ (a', m, True) # ys" and x: "x = (a', m, True)" and le: "fit_size n \<le> m"
    and L': "fit_layout (fit_size n) L = Some (a', xs @ split_layout a' m False (fit_size n) @ ys)"
    using find_split [OF f] by blast
  have a: "a' = a" and L'': "L' = xs @ split_layout a m False (fit_size n) @ ys" using L' fit by simp_all
  have sh1: "heap_shape s (xs @ (a, m, True) # ys)" using sh L a by simp
  note md = shape_middle [OF sh1]
  have "find_fit (fit_size n) s (heap_head s) = Some a"
    using find_fit_list [of s 0 L "unat KERNEL_HEAP_START" "unat (heap_current s)" "fit_size n"] sh f x a
    by (simp add: heap_shape_def)
  moreover obtain h1 where h1: "hmodify a (\<lambda>b. b\<lparr>hb_free := False\<rparr>) s = Some (s\<lparr>hblocks := h1\<rparr>)"
    "heap_shape (s\<lparr>hblocks := h1\<rparr>) (xs @ (a, m, False) # ys)" using set_free_shape [OF sh1] by metis
  moreover obtain h2 where h2: "split_block a (fit_size n) (s\<lparr>hblocks := h1\<rparr>) = Some (a, s\<lparr>hblocks := h1\<rparr>\<lparr>hblocks := h2\<rparr>)"
    "heap_shape (s\<lparr>hblocks := h1\<rparr>\<lparr>hblocks := h2\<rparr>) (xs @ split_layout a m False (fit_size n) @ ys)"
    using split_block_shape [OF h1(2) b(1,4)] le unfolding unat_le_iff by metis
  ultimately have "kmalloc n s = Some (a + 32, s\<lparr>hblocks := h2\<rparr>)"
    using n(1) md(13) by (simp add: kmalloc_def fit_size_def [symmetric] del: HEAP_ALIGN_def)
  moreover have "heap_ok (s\<lparr>hblocks := h2\<rparr>) L'"
    using h2(2) coalesced_split co by (simp add: heap_ok_def L'' L a)
  ultimately show thesis by (rule that)
qed

lemma kmalloc_grow:
  assumes ok: "heap_ok s L" and n: "n \<noteq> 0" and room: "heap_room n s"
    and nofit: "fit_layout (fit_size n) L = None"
  obtains p s' L' where "kmalloc n s = Some (p, s')" and "heap_ok s' L'" and "kheap.more s' = kheap.more s"
    and "(p = 0 \<and> L' = L) \<or> (p = heap_current s + 32 \<and>
      L' = L @ split_layout (heap_current s) (grow_size (fit_size n) - 32) False (fit_size n))"
proof -
  have small: "unat n \<le> 0x50000000" using room by (simp add: heap_room_def)
  note b = fit_size_bounds [OF n small]
  have "unat (fit_size n) \<le> 0x50000010" using b(3) room by (simp add: heap_room_def)
  note g = grow_size_bounds [OF this]
  let ?x = "grow_size (fit_size n)"
  have sh: "heap_shape s L" using ok by (simp add: heap_ok_def)
  have "find (\<lambda>(a, m, f). f \<and> fit_size n \<le> m) L = None" using nofit find_fit_layout by blast
  then have ff: "find_fit (fit_size n) s (heap_head s) = Some 0"
    using find_fit_list [of s 0 L "unat KERNEL_HEAP_START" "unat (heap_current s)" "fit_size n"] sh
    by (simp add: heap_shape_def)
  have cur: "unat (heap_current s) \<le> unat (heap_mapped_end s)" "unat (heap_mapped_end s) \<le> 0x50000000"
    using sh by (simp_all add: heap_shape_def unat_le_iff)
  have big: "unat (heap_mapped_end s) + unat ?x < 2 ^ 64" using cur g(4) b(3) small by (simp add: max_def split: if_splits)
  obtain r s1 where m: "heap_map_more ?x s = Some (r, s1)" "heap_ok s1 L" "heap_current s1 = heap_current s"
    "kheap.more s1 = kheap.more s"
    "r = 0 \<Longrightarrow> unat (heap_mapped_end s1) = min 0x50000000 (unat (heap_mapped_end s) + unat ?x)"
    using heap_map_more_ok [OF ok big g(1)] by metis
  have start: "kmalloc n s = (if r \<noteq> 0 then Some (0, s1)
      else do { s2 \<leftarrow> heap_append (heap_current s1) ?x s1;
                (block, s3) \<leftarrow> split_block (heap_current s1) (fit_size n) s2;
                Some (block + sizeof_heap_block, s3) })"
    using n ff m(1) unfolding kmalloc_def Let_def fit_size_def [symmetric] grow_size_eq by simp
  show thesis
  proof (cases "r = 0")
    case False
    then show thesis using start m by (intro that [of 0 s1 L]) auto
  next
    case True
    have "unat (heap_current s1) + unat ?x \<le> unat (heap_mapped_end s1)"
      unfolding m(3) m(5) [OF True] using cur room g(4) b(3)
      by (auto simp: heap_room_def max_def min_def split: if_splits)
    moreover have "heap_shape s1 L" using m(2) by (simp add: heap_ok_def)
    ultimately obtain s2 where s2: "heap_append (heap_current s1) ?x s1 = Some s2"
      "heap_shape s2 (L @ [(heap_current s1, ?x - 32, False)])" "kheap.more s2 = kheap.more s1"
      using heap_append_shape g(1,3) by metis
    have "32 \<le> ?x" using g(3) by (simp add: unat_le_iff)
    then have x32: "unat (?x - 32) = unat ?x - 32" by (simp add: unat_sub_le)
    then have le: "unat (fit_size n) \<le> unat (?x - 32)" using g(2) by simp
    have "heap_shape s2 (L @ (heap_current s1, ?x - 32, False) # [])" using s2(2) by simp
    from split_block_shape [OF this b(1,4) le] obtain h
      where h: "split_block (heap_current s1) (fit_size n) s2 = Some (heap_current s1, s2\<lparr>hblocks := h\<rparr>)"
      "heap_shape (s2\<lparr>hblocks := h\<rparr>) (L @ split_layout (heap_current s1) (?x - 32) False (fit_size n) @ [])"
      by metis
    have "coalesced False (L @ split_layout (heap_current s1) (?x - 32) False (fit_size n))"
      using ok by (auto simp: heap_ok_def coalesced_append split_layout_def)
    then show thesis
      using start True s2 h m(3,4)
      by (intro that [of "heap_current s + 32" "s2\<lparr>hblocks := h\<rparr>"]) (auto simp: heap_ok_def)
  qed
qed

section \<open>Allocated blocks\<close>

definition used :: "layout \<Rightarrow> u64 set" where
  "used L = {a. \<exists>n. (a, n, False) \<in> set L}"

definition kmalloc_live :: "'a kheap_scheme \<Rightarrow> u64 \<Rightarrow> bool" where
  "kmalloc_live s p \<longleftrightarrow> (\<exists>b. hblocks s (p - 32) = Some b \<and> \<not> hb_free b)"

definition heap_inv :: "'a kheap_scheme \<Rightarrow> bool" where
  "heap_inv s \<longleftrightarrow> (\<exists>L. heap_ok s L)"

lemma used_simps [simp]:
  "used [] = {}" "used ((a, n, f) # L) = (if f then used L else insert a (used L))"
  "used (L @ M) = used L \<union> used M"
  by (auto simp: used_def)

lemma used_split [simp]: "used (split_layout a n False sz) = {a}"
  by (simp add: split_layout_def)

lemma used_addrs: "used L \<subseteq> addrs L"
  by (force simp: used_def addrs_def)

lemma hseg_mem: "hseg h p L q \<Longrightarrow> (a, n, f) \<in> set L \<Longrightarrow> \<exists>b. h a = Some b \<and> hb_free b = f \<and> hb_size b = n"
  by (induction L arbitrary: p) auto

lemma live_used:
  assumes "heap_shape s L"
  shows "kmalloc_live s p \<longleftrightarrow> p - 32 \<in> used L"
proof -
  have seg: "hseg (hblocks s) 0 L 0" and dm: "dom (hblocks s) = addrs L" using assms by (auto simp: heap_shape_def)
  show ?thesis
  proof
    assume "kmalloc_live s p"
    then obtain b where b: "hblocks s (p - 32) = Some b" "\<not> hb_free b" by (auto simp: kmalloc_live_def)
    then have "p - 32 \<in> addrs L" using dm by auto
    then obtain n f where "(p - 32, n, f) \<in> set L" by (force simp: addrs_def)
    then show "p - 32 \<in> used L" using hseg_mem [OF seg] b by (fastforce simp: used_def)
  next
    assume "p - 32 \<in> used L"
    then show "kmalloc_live s p" using hseg_mem [OF seg] by (fastforce simp: used_def kmalloc_live_def)
  qed
qed

lemma split_member: "\<exists>m. (a, m, f) \<in> set (split_layout a n f sz) \<and> (unat sz \<le> unat n \<longrightarrow> unat sz \<le> unat m)"
  by (cases "unat n < unat sz + 48") (auto simp: split_layout_def)

text \<open>What a request returns, in terms of the layout.\<close>

lemma kmalloc_layout:
  assumes ok: "heap_ok s L" and n: "n \<noteq> 0" and room: "heap_room n s"
  obtains p s' L' where "kmalloc n s = Some (p, s')" and "heap_ok s' L'" and "kheap.more s' = kheap.more s"
    and "p = 0 \<and> L' = L \<and> fit_layout (fit_size n) L = None \<or>
      p - 32 \<in> addrs L' \<and> p - 32 \<notin> used L \<and> used L' = insert (p - 32) (used L) \<and> p \<noteq> 0 \<and>
      (\<exists>m. (p - 32, m, False) \<in> set L' \<and> n \<le> m)"
    and "fit_layout (fit_size n) L = Some (a, M) \<Longrightarrow> p = a + 32 \<and> L' = M"
proof (cases "fit_layout (fit_size n) L")
  case (Some x)
  obtain a' M' where x: "x = (a', M')" by (cases x)
  have small: "unat n \<le> 0x50000000" using room by (simp add: heap_room_def)
  obtain h where k: "kmalloc n s = Some (a' + 32, s\<lparr>hblocks := h\<rparr>)" and ok': "heap_ok (s\<lparr>hblocks := h\<rparr>) M'"
    using kmalloc_fit [OF ok n small] Some x by metis
  obtain z where "find (\<lambda>(a, m, f). f \<and> fit_size n \<le> m) L = Some z"
    using Some find_fit_layout [of "fit_size n" L] by fastforce
  then obtain xs m ys where L: "L = xs @ (a', m, True) # ys" and le: "fit_size n \<le> m"
    and M': "M' = xs @ split_layout a' m False (fit_size n) @ ys"
    using Some x by (elim find_split) auto
  have sh: "heap_shape s (xs @ (a', m, True) # ys)" using ok L by (simp add: heap_ok_def)
  note md = shape_middle [OF sh]
  have nu: "a' \<notin> used L" using md(6,7) used_addrs [of xs] used_addrs [of ys] by (auto simp: L)
  have nz: "a' + 32 \<noteq> 0"
  proof -
    have "unat (a' + 32) = unat a' + 32" using md(11,12) by (simp add: unat_add_small)
    then show ?thesis by (metis add_is_0 unat_0 zero_neq_numeral)
  qed
  obtain k where k': "(a', k, False) \<in> set (split_layout a' m False (fit_size n))" "unat (fit_size n) \<le> unat k"
    using split_member [of a' False m "fit_size n"] le by (auto simp: unat_le_iff)
  have mem: "(a', k, False) \<in> set M'" "n \<le> k"
    using k' M' fit_size_bounds(2) [OF n small] by (auto simp: unat_le_iff)
  have "a' \<in> addrs M'" using mem(1) by (force simp: addrs_def)
  moreover have "used M' = insert a' (used L)" by (simp add: L M')
  ultimately have c: "a' + 32 - 32 \<in> addrs M' \<and> a' + 32 - 32 \<notin> used L \<and> used M' = insert (a' + 32 - 32) (used L) \<and>
      a' + 32 \<noteq> 0 \<and> (\<exists>m. (a' + 32 - 32, m, False) \<in> set M' \<and> n \<le> m)"
    using nu nz mem by auto
  show thesis
  proof (rule that [OF k ok' _ disjI2 [OF c]])
    show "kheap.more (s\<lparr>hblocks := h\<rparr>) = kheap.more s" by simp
    show "fit_layout (fit_size n) L = Some (a, M) \<Longrightarrow> a' + 32 = a + 32 \<and> M' = M" using Some x by simp
  qed
next
  case None
  obtain p s' L' where g: "kmalloc n s = Some (p, s')" "heap_ok s' L'" "kheap.more s' = kheap.more s"
    "(p = 0 \<and> L' = L) \<or> (p = heap_current s + 32 \<and>
      L' = L @ split_layout (heap_current s) (grow_size (fit_size n) - 32) False (fit_size n))"
    by (rule kmalloc_grow [OF ok n room None])
  have small: "unat n \<le> 0x50000000" using room by (simp add: heap_room_def)
  note b = fit_size_bounds [OF n small]
  have "unat (fit_size n) \<le> 0x50000010" using b(3) room by (simp add: heap_room_def)
  note gs = grow_size_bounds [OF this]
  have x32: "unat (grow_size (fit_size n) - 32) = unat (grow_size (fit_size n)) - 32"
  proof -
    have "32 \<le> grow_size (fit_size n)" using gs(3) by (simp add: unat_le_iff)
    then show ?thesis by (simp add: unat_sub_le)
  qed
  obtain k where k': "(heap_current s, k, False) \<in> set (split_layout (heap_current s) (grow_size (fit_size n) - 32) False (fit_size n))"
    "unat (fit_size n) \<le> unat k"
    using split_member [of "heap_current s" False "grow_size (fit_size n) - 32" "fit_size n"] gs(2) x32 by auto
  have t: "tiles (unat KERNEL_HEAP_START) L (unat (heap_current s))" and lim: "unat (heap_current s) \<le> 0x50000000"
    using ok by (auto simp: heap_ok_def heap_shape_def unat_le_iff)
  have nu: "heap_current s \<notin> used L" using tiles_addr [OF t, of "heap_current s"] used_addrs [of L] by auto
  have nz: "heap_current s + 32 \<noteq> 0"
  proof -
    have "unat (heap_current s + 32) = unat (heap_current s) + 32" using lim by (simp add: unat_add_small)
    then show ?thesis by (metis add_is_0 unat_0 zero_neq_numeral)
  qed
  have nk: "n \<le> k" using b(2) k'(2) by (simp add: unat_le_iff)
  have "heap_current s \<in> addrs (split_layout (heap_current s) (grow_size (fit_size n) - 32) False (fit_size n))"
    using k'(1) by (force simp: addrs_def)
  then have c: "p = 0 \<and> L' = L \<and> fit_layout (fit_size n) L = None \<or>
      p - 32 \<in> addrs L' \<and> p - 32 \<notin> used L \<and> used L' = insert (p - 32) (used L) \<and> p \<noteq> 0 \<and>
      (\<exists>m. (p - 32, m, False) \<in> set L' \<and> n \<le> m)"
    using g(4) None nu nz nk k'(1) by (elim disjE) auto
  show thesis
    by (rule that [OF g(1-3) c]) (simp add: None)
qed

definition kmalloc_within :: "u64 \<Rightarrow> 'a kheap_scheme \<Rightarrow> (u64 \<times> 'a kheap_scheme) option" where
  "kmalloc_within n s = (if n \<noteq> 0 \<and> heap_room n s then kmalloc n s else None)"

interpretation heap: allocator "kmalloc_within n" kmalloc_live heap_inv
proof
  fix s s' :: "'a kheap_scheme" and p q
  assume inv: "heap_inv s" and run: "kmalloc_within n s = Some (p, s')"
  obtain L where ok: "heap_ok s L" using inv by (auto simp: heap_inv_def)
  have n: "n \<noteq> 0" and room: "heap_room n s" and k: "kmalloc n s = Some (p, s')"
    using run by (auto simp: kmalloc_within_def split: if_splits)
  obtain L' where ok': "heap_ok s' L'" and c: "p = 0 \<and> L' = L \<or>
      p - 32 \<notin> used L \<and> used L' = insert (p - 32) (used L)"
    using kmalloc_layout [OF ok n room] k by (metis Pair_inject option.inject)
  note live = live_used [of s L] live_used [of s' L']
  have sh: "heap_shape s L" "heap_shape s' L'" using ok ok' by (simp_all add: heap_ok_def)
  show "heap_inv s'" using ok' by (auto simp: heap_inv_def)
  show "p \<noteq> 0 \<Longrightarrow> \<not> kmalloc_live s p" using c live sh by auto
  show "p \<noteq> 0 \<Longrightarrow> kmalloc_live s' q \<longleftrightarrow> q = p \<or> kmalloc_live s q" using c live sh by auto
next
  fix s s' :: "'a kheap_scheme" and q
  assume inv: "heap_inv s" and run: "kmalloc_within n s = Some (0, s')"
  obtain L where ok: "heap_ok s L" using inv by (auto simp: heap_inv_def)
  have n: "n \<noteq> 0" and room: "heap_room n s" and k: "kmalloc n s = Some (0, s')"
    using run by (auto simp: kmalloc_within_def split: if_splits)
  obtain L' where ok': "heap_ok s' L'" and c: "L' = L"
    using kmalloc_layout [OF ok n room] k by (metis Pair_inject option.inject)
  show "kmalloc_live s' q \<longleftrightarrow> kmalloc_live s q"
    using live_used [of s L] live_used [of s' L'] ok ok' c by (simp add: heap_ok_def)
qed

section \<open>The heap as its clients see it\<close>

definition heap_budget :: "nat \<Rightarrow> 'a kheap_scheme \<Rightarrow> bool" where
  "heap_budget b s \<longleftrightarrow> unat (heap_current s) + b \<le> 0x50000000"

lemma heap_budget_le: "heap_budget b s \<Longrightarrow> c \<le> b \<Longrightarrow> heap_budget c s"
  by (simp add: heap_budget_def)

lemma tiles_split:
  assumes "unat a + 32 + unat n \<le> 0x50000000"
  shows "tiles u (split_layout a n f sz) e \<Longrightarrow> e = u + 32 + unat n"
proof (cases "unat n < unat sz + 48")
  case False
  assume t: "tiles u (split_layout a n f sz) e"
  have "unat sz + 48 \<le> unat n" using False by simp
  note sp = split_sizes [OF assms this]
  show ?thesis using t False sp by (auto simp: split_layout_def)
qed (auto simp: split_layout_def)

lemma kmalloc_step:
  assumes inv: "heap_inv s" and n: "n \<noteq> 0" and budget: "heap_budget (unat n + 0x11000 + b) s"
  obtains p s' where "kmalloc n s = Some (p, s')" and "heap_inv s'" and "heap_budget b s'"
    and "kheap.more s' = kheap.more s" and "p \<noteq> 0 \<Longrightarrow> \<not> kmalloc_live s p"
    and "\<And>q. kmalloc_live s' q \<longleftrightarrow> (p \<noteq> 0 \<and> q = p) \<or> kmalloc_live s q"
proof -
  obtain L where ok: "heap_ok s L" using inv by (auto simp: heap_inv_def)
  have room: "heap_room n s" using budget by (simp add: heap_budget_def heap_room_def)
  have small: "unat n \<le> 0x50000000" using room by (simp add: heap_room_def)
  obtain p s' L' where k: "kmalloc n s = Some (p, s')" "heap_ok s' L'" "kheap.more s' = kheap.more s"
    and c: "p = 0 \<and> L' = L \<and> fit_layout (fit_size n) L = None \<or>
      p - 32 \<in> addrs L' \<and> p - 32 \<notin> used L \<and> used L' = insert (p - 32) (used L) \<and> p \<noteq> 0 \<and>
      (\<exists>m. (p - 32, m, False) \<in> set L' \<and> n \<le> m)"
    by (rule kmalloc_layout [OF ok n room])
  note live = live_used [of s L] live_used [of s' L']
  have sh: "heap_shape s L" "heap_shape s' L'" using ok k by (simp_all add: heap_ok_def)
  have t: "tiles (unat KERNEL_HEAP_START) L (unat (heap_current s))" using sh by (simp add: heap_shape_def)
  have t': "tiles (unat KERNEL_HEAP_START) L' (unat (heap_current s'))" using sh by (simp add: heap_shape_def)
  have grow: "unat (heap_current s') \<le> unat (heap_current s) + unat n + 0x11000"
  proof (cases "fit_layout (fit_size n) L")
    case (Some x)
    obtain a M where "x = (a, M)" by (cases x)
    then obtain h where "kmalloc n s = Some (a + 32, s\<lparr>hblocks := h\<rparr>)"
      using kmalloc_fit [OF ok n small] Some by metis
    then show ?thesis using k(1) by simp
  next
    case None
    obtain p2 s2 L2 where g: "kmalloc n s = Some (p2, s2)" "heap_ok s2 L2" "kheap.more s2 = kheap.more s"
      "(p2 = 0 \<and> L2 = L) \<or> (p2 = heap_current s + 32 \<and>
        L2 = L @ split_layout (heap_current s) (grow_size (fit_size n) - 32) False (fit_size n))"
      by (rule kmalloc_grow [OF ok n room None])
    have s2: "s2 = s'" using g(1) k(1) by simp
    have t2: "tiles (unat KERNEL_HEAP_START) L2 (unat (heap_current s'))"
      using g(2) s2 by (simp add: heap_ok_def heap_shape_def)
    have fs: "unat (fit_size n) < unat n + 16" using fit_size_bounds(3) [OF n small] .
    then have "unat (fit_size n) \<le> 0x50000010" using small by simp
    note gs = grow_size_bounds [OF this]
    have "32 \<le> grow_size (fit_size n)" using gs(3) by (simp add: unat_le_iff)
    then have x32: "unat (grow_size (fit_size n) - 32) = unat (grow_size (fit_size n)) - 32"
      by (simp add: unat_sub_le)
    have le: "unat (grow_size (fit_size n)) \<le> unat n + 0x11000"
      using gs(4) fs by (auto simp: max_def split: if_splits)
    from g(4) show ?thesis
    proof
      assume "p2 = 0 \<and> L2 = L"
      then show ?thesis using tiles_fun [OF t] t2 by simp
    next
      assume "p2 = heap_current s + 32 \<and>
        L2 = L @ split_layout (heap_current s) (grow_size (fit_size n) - 32) False (fit_size n)"
      then have "tiles (unat (heap_current s)) (split_layout (heap_current s) (grow_size (fit_size n) - 32) False (fit_size n))
          (unat (heap_current s'))"
        using t2 tiles_fun [OF t] by (auto simp: tiles_append)
      moreover have "unat (heap_current s) + 32 + unat (grow_size (fit_size n) - 32) \<le> 0x50000000"
        using room x32 le gs(3) by (simp add: heap_room_def)
      ultimately have "unat (heap_current s') = unat (heap_current s) + 32 + unat (grow_size (fit_size n) - 32)"
        using tiles_split by blast
      then show ?thesis using x32 le gs(3) by simp
    qed
  qed
  show thesis
  proof (rule that [OF k(1) _ _ k(3)])
    show "heap_inv s'" using k(2) by (auto simp: heap_inv_def)
    show "heap_budget b s'" using budget grow by (simp add: heap_budget_def)
    show "p \<noteq> 0 \<Longrightarrow> \<not> kmalloc_live s p" using c live(1) [OF sh(1)] by auto
    show "kmalloc_live s' q \<longleftrightarrow> (p \<noteq> 0 \<and> q = p) \<or> kmalloc_live s q" for q
      using c live(1) [OF sh(1)] live(2) [OF sh(2)] by auto
  qed
qed

text \<open>A free block that an allocation can be taken from without growing the heap.\<close>

definition heap_spare :: "nat \<Rightarrow> 'a kheap_scheme \<Rightarrow> bool" where
  "heap_spare k s \<longleftrightarrow> (\<exists>L a m. heap_ok s L \<and> (a, m, True) \<in> set L \<and> k \<le> unat m)"

lemma heap_spare_le: "heap_spare k s \<Longrightarrow> j \<le> k \<Longrightarrow> heap_spare j s"
  unfolding heap_spare_def by (meson le_trans)

lemma kmalloc_spare:
  assumes spare: "heap_spare (unat n + 64 + k) s" and n: "n \<noteq> 0" "unat n \<le> 0x50000000"
    and run: "kmalloc n s = Some (p, s')"
  shows "p \<noteq> 0 \<and> heap_spare k s' \<and> heap_current s' = heap_current s"
proof -
  obtain L a0 m0 where ok: "heap_ok s L" and mem: "(a0, m0, True) \<in> set L" and big: "unat n + 64 + k \<le> unat m0"
    using spare by (auto simp: heap_spare_def)
  have sz: "unat (fit_size n) < unat n + 16" by (rule fit_size_bounds(3) [OF n])
  then have "fit_size n \<le> m0" using big unfolding word_le_nat_alt by linarith
  then obtain x where f: "find (\<lambda>(a, m, f). f \<and> fit_size n \<le> m) L = Some x"
    using mem by (cases "find (\<lambda>(a, m, f). f \<and> fit_size n \<le> m) L") (auto simp: find_None_iff)
  obtain xs a m ys where L: "L = xs @ (a, m, True) # ys" and le: "fit_size n \<le> m"
    and fit: "fit_layout (fit_size n) L = Some (a, xs @ split_layout a m False (fit_size n) @ ys)"
    using find_split [OF f] by metis
  let ?L = "xs @ split_layout a m False (fit_size n) @ ys"
  obtain h where k: "kmalloc n s = Some (a + 32, s\<lparr>hblocks := h\<rparr>)" "heap_ok (s\<lparr>hblocks := h\<rparr>) ?L"
    by (rule kmalloc_fit [OF ok n fit])
  have s': "p = a + 32" "s' = s\<lparr>hblocks := h\<rparr>" using run k(1) by auto
  have "tiles (unat KERNEL_HEAP_START) L (unat (heap_current s))" using ok by (simp add: heap_ok_def heap_shape_def)
  from tiles_addr [OF this, of a] L have "unat a + 48 \<le> unat (heap_current s)" by simp
  moreover have "unat (heap_current s) < 2 ^ 64" by (rule order_less_le_trans [OF unat_lt64]) simp
  ultimately have "unat a + 48 < 2 ^ 64" by (rule order_le_less_trans)
  then have "unat a + unat (32::u64) < 2 ^ 64" by simp
  then have "unat (a + 32) = unat a + 32" by (simp add: unat_add_small)
  then have p: "p \<noteq> 0" using s'(1) by (metis add_is_0 unat_0 zero_neq_numeral)
  have "\<exists>b l. (b, l, True) \<in> set ?L \<and> k \<le> unat l"
  proof (cases "(a0, m0, True) \<in> set xs \<union> set ys")
    case True
    then show ?thesis using big by (intro exI [of _ a0] exI [of _ m0]) auto
  next
    case False
    then have m: "m = m0" using mem L by auto
    have "unat (fit_size n) + 32 \<le> unat m" using sz big unfolding m by linarith
    then have "unat (m - fit_size n - 32) = unat m - unat (fit_size n) - 32"
      by (simp add: unat_sub_le word_le_nat_alt)
    then have "k \<le> unat (m - fit_size n - 32)" using sz big unfolding m by linarith
    moreover have "\<not> unat m < unat (fit_size n) + 48" using sz big unfolding m by linarith
    ultimately show ?thesis
      by (intro exI [of _ "a + 32 + fit_size n"] exI [of _ "m - fit_size n - 32"]) (simp add: split_layout_def)
  qed
  then have "heap_spare k s'" unfolding heap_spare_def s'(2) using k(2) by blast
  then show ?thesis using p s'(2) by simp
qed

lemma used_free_at: "tiles u L e \<Longrightarrow> used (free_at a L) = used L - {a}"
proof (induction L arbitrary: u)
  case (Cons x L)
  obtain b n f where x: "x = (b, n, f)" by (cases x) auto
  have t: "tiles (u + 32 + unat n) L e" using Cons.prems x by simp
  have mu: "used (merge_next (c, m, True) K) = used K" for c m K
    by (cases K) (auto split: if_splits)
  have "b \<notin> used L"
    using tiles_middle(2) [of u "[]" b n f L e] Cons.prems x used_addrs [of L] by auto
  then show ?case using Cons.IH [OF t] x mu by auto
qed simp

lemma kfree_step:
  assumes inv: "heap_inv s" and live: "kmalloc_live s p"
  obtains s' where "kfree p s = Some s'" and "heap_inv s'" and "heap_current s' = heap_current s"
    and "kheap.more s' = kheap.more s" and "\<And>q. kmalloc_live s' q \<longleftrightarrow> q \<noteq> p \<and> kmalloc_live s q"
proof -
  obtain L where ok: "heap_ok s L" using inv by (auto simp: heap_inv_def)
  have sh: "heap_shape s L" using ok by (simp add: heap_ok_def)
  have "p - 32 \<in> used L" using live live_used [OF sh] by simp
  then obtain n xs ys where L: "L = xs @ (p - 32, n, False) # ys"
    by (auto simp: used_def dest: split_list)
  obtain h where k: "kfree (p - 32 + 32) s = Some (s\<lparr>hblocks := h\<rparr>)"
    "heap_ok (s\<lparr>hblocks := h\<rparr>) (free_at (p - 32) L)"
    using kfree_layout [OF ok [unfolded L]] unfolding L by metis
  have sh': "heap_shape (s\<lparr>hblocks := h\<rparr>) (free_at (p - 32) L)" using k(2) by (simp add: heap_ok_def)
  have u: "used (free_at (p - 32) L) = used L - {p - 32}"
    using used_free_at sh by (auto simp: heap_shape_def)
  show thesis
  proof (rule that [of "s\<lparr>hblocks := h\<rparr>"])
    show "kfree p s = Some (s\<lparr>hblocks := h\<rparr>)" using k(1) by simp
    show "heap_inv (s\<lparr>hblocks := h\<rparr>)" using k(2) by (auto simp: heap_inv_def)
    show "kmalloc_live (s\<lparr>hblocks := h\<rparr>) q \<longleftrightarrow> q \<noteq> p \<and> kmalloc_live s q" for q
      using live_used [OF sh'] live_used [OF sh] u by auto
  qed simp_all
qed

section \<open>The properties of the heap\<close>

text \<open>A heap of 64 KiB with one free block, as \<^verbatim>\<open>heap_init\<close> leaves it.\<close>

definition heap_example :: kheap where
  "heap_example = kpaging.extend (kpaging.truncate boot_example)
     (kheap.fields 0x10000000 0x10010000 0x10010000
        [0x10000000 \<mapsto> \<lparr>hb_size = 0xFFE0, hb_free = True, hb_next = 0, hb_prev = 0\<rparr>])"

definition example_layout :: layout where
  "example_layout = [(0x10000000, 0xFFE0, True)]"

lemma heap_example_simps [simp]:
  "heap_head heap_example = 0x10000000" "heap_current heap_example = 0x10010000"
  "heap_mapped_end heap_example = 0x10010000"
  "hblocks heap_example = [0x10000000 \<mapsto> \<lparr>hb_size = 0xFFE0, hb_free = True, hb_next = 0, hb_prev = 0\<rparr>]"
  by (simp_all add: heap_example_def kpaging.defs kheap.defs boot_example_def)

lemma heap_example_ok: "heap_ok heap_example example_layout"
  by (simp add: heap_ok_def heap_shape_def example_layout_def)


text \<open>C2. \<^verbatim>\<open>kmalloc\<close> is first fit.  On a well-formed heap with room below the limit it returns, and the
  heap is well-formed afterwards.  If a free block is large enough, the first one is taken and split;
  otherwise the heap grows by a block at its end, or, when no page is to be had, null is returned and
  the list of blocks is unchanged.\<close>

theorem kmalloc_first_fit:
  assumes "heap_ok s L" and "n \<noteq> 0" and "heap_room n s"
  shows "\<exists>p s' L'. kmalloc n s = Some (p, s') \<and> heap_ok s' L' \<and>
    (case fit_layout (fit_size n) L of
       Some (a, M) \<Rightarrow> p = a + 32 \<and> L' = M
     | None \<Rightarrow> (p = 0 \<and> L' = L) \<or> (p = heap_current s + 32 \<and>
         L' = L @ split_layout (heap_current s) (grow_size (fit_size n) - 32) False (fit_size n)))"
proof (cases "fit_layout (fit_size n) L")
  case None
  show ?thesis by (rule kmalloc_grow [OF assms None]) (auto simp: None)
next
  case (Some x)
  obtain a M where x: "x = (a, M)" by (cases x)
  have small: "unat n \<le> 0x50000000" using assms(3) by (simp add: heap_room_def)
  show ?thesis
    by (rule kmalloc_fit [OF assms(1,2) small Some [unfolded x]]) (auto simp: Some x)
qed

theorem kmalloc_first_fit_witness:
  "\<exists>s'. kmalloc 100 heap_example = Some (0x10000020, s') \<and>
     heap_ok s' [(0x10000000, 0x70, False), (0x10000090, 0xFF50, True)]"
proof -
  have "heap_room 100 heap_example" by (simp add: heap_room_def)
  moreover have "fit_layout (fit_size 100) example_layout =
      Some (0x10000000, [(0x10000000, 0x70, False), (0x10000090, 0xFF50, True)])"
    by (simp add: example_layout_def fit_size_def align_up_def split_layout_def)
  ultimately show ?thesis using kmalloc_first_fit [OF heap_example_ok, of 100] by simp
qed

text \<open>C18. \<^verbatim>\<open>kfree\<close> of an allocated block marks it free and joins it with its free neighbours: the
  result is the list \<open>free_at\<close>, it is well-formed, and no two free blocks are left side by side.\<close>

theorem kfree_coalesces:
  assumes "heap_ok s L" and "a \<in> used L"
  shows "\<exists>s'. kfree (a + 32) s = Some s' \<and> heap_ok s' (free_at a L) \<and> coalesced False (free_at a L)"
proof -
  obtain n xs ys where "L = xs @ (a, n, False) # ys"
    using assms(2) by (auto simp: used_def dest: split_list)
  with assms(1) obtain h where "kfree (a + 32) s = Some (s\<lparr>hblocks := h\<rparr>)"
    and "heap_ok (s\<lparr>hblocks := h\<rparr>) (free_at a L)"
    using kfree_layout by metis
  then show ?thesis by (auto simp: heap_ok_def)
qed

definition heap_example2 :: kheap where
  "heap_example2 = heap_example\<lparr>hblocks :=
     [0x10000000 \<mapsto> \<lparr>hb_size = 0x70, hb_free = False, hb_next = 0x10000090, hb_prev = 0\<rparr>,
      0x10000090 \<mapsto> \<lparr>hb_size = 0xFF50, hb_free = True, hb_next = 0, hb_prev = 0x10000000\<rparr>]\<rparr>"

lemma heap_example2_ok: "heap_ok heap_example2 [(0x10000000, 0x70, False), (0x10000090, 0xFF50, True)]"
  by (simp add: heap_ok_def heap_shape_def heap_example2_def insert_commute)

theorem kfree_coalesces_witness:
  "\<exists>s'. kfree 0x10000020 heap_example2 = Some s' \<and> heap_ok s' example_layout"
  using kfree_coalesces [OF heap_example2_ok, of "0x10000000"] by (simp add: example_layout_def)

lemma tiles_apart:
  "tiles s L e \<Longrightarrow> (a, n, f) \<in> set L \<Longrightarrow> (b, k, g) \<in> set L \<Longrightarrow> a \<noteq> b \<Longrightarrow>
     unat a + 32 + unat n \<le> unat b \<or> unat b + 32 + unat k \<le> unat a"
proof (induction L arbitrary: s)
  case (Cons x L)
  obtain c m h where x: "x = (c, m, h)" by (cases x) auto
  have t: "tiles (unat c + 32 + unat m) L e" using Cons.prems x by simp
  have "(q, k, g) \<in> set L \<Longrightarrow> unat c + 32 + unat m \<le> unat q" for q k g
    using tiles_addr [OF t, of q] by (force simp: addrs_def)
  then show ?case using Cons.prems Cons.IH [OF t] x by auto
qed simp

lemma tiles_aligned: "tiles s L e \<Longrightarrow> 16 dvd s \<Longrightarrow> a \<in> addrs L \<Longrightarrow> 16 dvd unat a"
proof (induction L arbitrary: s)
  case (Cons x L)
  obtain c m h where x: "x = (c, m, h)" by (cases x) auto
  have "16 dvd s + 32 + unat m" using Cons.prems x by (intro dvd_add) auto
  then show ?case using Cons x by auto
qed simp



text \<open>C26. Separate allocations: however many requests are made one after the other, the blocks
  returned are all different, were not in use before, and stay allocated.\<close>

theorem kmalloc_run_distinct:
  assumes "heap_ok s L" and "heap.allocs n k s = Some (ps, s')" and "0 \<notin> set ps"
  shows "distinct ps \<and> length ps = k \<and> (\<forall>p \<in> set ps. \<not> kmalloc_live s p \<and> kmalloc_live s' p)"
proof -
  have inv: "heap_inv s" using assms(1) by (auto simp: heap_inv_def)
  show ?thesis
    using heap.allocs_distinct [OF inv assms(2,3)] heap.allocs_run [OF inv assms(2)] assms(3) by auto
qed

theorem kmalloc_run_distinct_witness:
  "\<exists>p q s'. heap.allocs 100 2 heap_example = Some ([p, q], s') \<and> p \<noteq> q"
proof -
  have room: "heap_room 100 heap_example" by (simp add: heap_room_def)
  have fit: "fit_layout (fit_size 100) example_layout =
      Some (0x10000000, [(0x10000000, 0x70, False), (0x10000090, 0xFF50, True)])"
    by (simp add: example_layout_def fit_size_def align_up_def split_layout_def)
  obtain h where k1: "kmalloc 100 heap_example = Some (0x10000020, heap_example\<lparr>hblocks := h\<rparr>)"
    and ok1: "heap_ok (heap_example\<lparr>hblocks := h\<rparr>) [(0x10000000, 0x70, False), (0x10000090, 0xFF50, True)]"
    by (rule kmalloc_fit [OF heap_example_ok _ _ fit]) simp_all
  have fit2: "fit_layout (fit_size 100) [(0x10000000, 0x70, False), (0x10000090, 0xFF50, True)] =
      Some (0x10000090, [(0x10000000, 0x70, False), (0x10000090, 0x70, False), (0x10000120, 0xFEC0, True)])"
    by (simp add: fit_size_def align_up_def split_layout_def)
  obtain h2 where k2: "kmalloc 100 (heap_example\<lparr>hblocks := h\<rparr>) = Some (0x100000B0, heap_example\<lparr>hblocks := h\<rparr>\<lparr>hblocks := h2\<rparr>)"
    by (rule kmalloc_fit [OF ok1 _ _ fit2]) simp_all
  have "heap_room 100 (heap_example\<lparr>hblocks := h\<rparr>)" by (simp add: heap_room_def)
  then have run: "heap.allocs 100 2 heap_example = Some ([0x10000020, 0x100000B0], heap_example\<lparr>hblocks := h\<rparr>\<lparr>hblocks := h2\<rparr>)"
    unfolding numeral_2_eq_2 using room k1 k2 by (simp add: kmalloc_within_def)
  show ?thesis using kmalloc_run_distinct [OF heap_example_ok run] run by auto
qed

lemma coalesced_front: "coalesced p (xs @ (a, n, True) # ys) \<Longrightarrow> \<not> last_free p xs \<and> \<not> head_free ys"
  by (cases ys) (auto simp: coalesced_append)

lemma free_at_fit:
  assumes "coalesced False (xs @ (a, n, True) # ys)" and "a \<notin> addrs xs"
  shows "free_at a (xs @ split_layout a n False sz @ ys) = xs @ (a, n, True) # ys"
proof -
  note fr = coalesced_front [OF assms(1)]
  obtain m zs where sp: "split_layout a n False sz @ ys = (a, m, False) # zs"
    by (cases "unat n < unat sz + 48") (auto simp: split_layout_def)
  have mn: "merge_next (a, m, True) zs = (a, n, True) # ys"
    using sp fr by (auto simp: split_layout_def merge_next_cases split: if_splits)
  show ?thesis
  proof (cases xs rule: rev_cases)
    case Nil
    then show ?thesis using sp mn by simp
  next
    case (snoc ps p)
    obtain b k g where p: "p = (b, k, g)" by (cases p) auto
    have "\<not> g" using fr snoc p by simp
    moreover have "coalesced False (ps @ [(b, k, g)])" using assms(1) snoc p by (simp add: coalesced_append)
    ultimately show ?thesis
      using free_at_append [of a ps b k g False m False zs] assms(2) sp mn snoc p by simp
  qed
qed

text \<open>C25. Freeing the block just allocated, when it came from a free block, restores the list of blocks
  exactly: splitting and coalescing are inverse to each other.\<close>

theorem kmalloc_kfree_roundtrip:
  assumes "heap_ok s L" and "n \<noteq> 0" and "unat n \<le> 0x50000000" and "fit_layout (fit_size n) L \<noteq> None"
  shows "\<exists>p s1 s2. kmalloc n s = Some (p, s1) \<and> p \<noteq> 0 \<and> kfree p s1 = Some s2 \<and> heap_ok s2 L"
proof -
  obtain a M where fit: "fit_layout (fit_size n) L = Some (a, M)" using assms(4) by auto
  obtain h where k: "kmalloc n s = Some (a + 32, s\<lparr>hblocks := h\<rparr>)" and ok1: "heap_ok (s\<lparr>hblocks := h\<rparr>) M"
    by (rule kmalloc_fit [OF assms(1,2,3) fit])
  obtain z where "find (\<lambda>(a, m, f). f \<and> fit_size n \<le> m) L = Some z"
    using fit find_fit_layout [of "fit_size n" L] by fastforce
  then obtain xs m ys where L: "L = xs @ (a, m, True) # ys"
    and M: "M = xs @ split_layout a m False (fit_size n) @ ys"
    using fit by (elim find_split) auto
  have sh: "heap_shape s (xs @ (a, m, True) # ys)" using assms(1) L by (simp add: heap_ok_def)
  note md = shape_middle [OF sh]
  have restore: "free_at a M = L"
    unfolding M L using assms(1) md(6) by (intro free_at_fit) (auto simp: heap_ok_def L)
  obtain m' zs where M': "M = xs @ (a, m', False) # zs"
    unfolding M by (cases "unat m < unat (fit_size n) + 48") (auto simp: split_layout_def)
  obtain h2 where f: "kfree (a + 32) (s\<lparr>hblocks := h\<rparr>) = Some (s\<lparr>hblocks := h\<rparr>\<lparr>hblocks := h2\<rparr>)"
    "heap_ok (s\<lparr>hblocks := h\<rparr>\<lparr>hblocks := h2\<rparr>) (free_at a M)"
    using kfree_layout [OF ok1 [unfolded M']] unfolding M' by metis
  have "unat (a + 32) = unat a + 32" using md(11,12) by (simp add: unat_add_small)
  then have "a + 32 \<noteq> 0" by (metis add_is_0 unat_0 zero_neq_numeral)
  then show ?thesis using k f restore by auto
qed

theorem kmalloc_kfree_roundtrip_witness:
  "\<exists>p s1 s2. kmalloc 100 heap_example = Some (p, s1) \<and> kfree p s1 = Some s2 \<and> heap_ok s2 example_layout"
proof -
  have "fit_layout (fit_size 100) example_layout \<noteq> None"
    by (simp add: example_layout_def fit_size_def align_up_def)
  then show ?thesis using kmalloc_kfree_roundtrip [OF heap_example_ok, of 100] by auto
qed

text \<open>A request within 15 bytes of the top of the address range wraps around to size 0 when it is
  rounded up: on a fresh heap \<^verbatim>\<open>kmalloc\<close> then returns a block with no payload instead of null.\<close>

theorem kmalloc_wraps:
  assumes "2 ^ 64 - 15 \<le> unat n"
  shows "\<exists>s'. kmalloc n heap_example = Some (0x10000020, s') \<and>
    map_option hb_size (hblocks s' 0x10000000) = Some 0"
proof -
  have "n \<noteq> 0" using assms by auto
  have "unat (n - (2 ^ 64 - 15 :: u64)) < 15"
  proof -
    have "(2 ^ 64 - 15 :: u64) \<le> n" unfolding unat_le_iff using assms by simp
    then have "unat (n - (2 ^ 64 - 15 :: u64)) = unat n - (2 ^ 64 - 15)" by (simp add: unat_sub_le)
    moreover have "unat n < 18446744073709551616" by (rule unat_lt64)
    then have "unat n - 18446744073709551601 < 15" by linarith
    ultimately show ?thesis by simp
  qed
  moreover have "n - 18446744073709551601 = n + (15 :: u64)" by (simp add: diff_eq_eq add.assoc)
  ultimately have "unat (n + 15) < 15" by simp
  moreover have "align_up n HEAP_ALIGN = (n + 15) AND NOT (mask 4)"
    by (simp add: align_up_def mask_eq_exp_minus_1 add.commute)
  ultimately have "unat (align_up n HEAP_ALIGN) = 0"
    using unat_and_not_mask [of "n + 15" 4] by simp
  then have z: "align_up n HEAP_ALIGN = 0" by (simp add: unat_eq_iff)
  have "find_fit 0 heap_example 0x10000000 = Some 0x10000000"
    by (subst find_fit.simps) simp
  then show ?thesis
    using \<open>n \<noteq> 0\<close> z
    by (simp add: kmalloc_def hmodify_def hput_def split_block_def hnew_def set_prev_def unat_le_iff)
qed

theorem kmalloc_wraps_witness:
  "\<exists>s'. kmalloc (- 1) heap_example = Some (0x10000020, s')"
proof -
  have "2 ^ 64 - 15 \<le> unat (- 1 :: u64)" by (simp add: unsigned_minus_1_eq_mask mask_eq_exp_minus_1)
  from kmalloc_wraps [OF this] show ?thesis by blast
qed

end
