(* ===== verification/CString.thy ===== *)
theory CString
  imports Prelude
begin

text \<open>
  \<^verbatim>\<open>core/string.c\<close>: the freestanding string and memory routines.  A pointer into an object is
  the list of the object's bytes from that position on, so that running off the end of the list
  is the out-of-bounds access of the source (\<open>None\<close>).  Routines that write return the
  destination's bytes afterwards.
\<close>

section \<open>Routines that read\<close>

fun strcmp :: "u8 list \<Rightarrow> u8 list \<Rightarrow> int option" where
  "strcmp (a # s) (b # t) =
     (if a \<noteq> 0 \<and> a = b then strcmp s t else Some (uint a - uint b))"
| "strcmp _ _ = None"

fun strncmp :: "u8 list \<Rightarrow> u8 list \<Rightarrow> nat \<Rightarrow> int option" where
  "strncmp s t 0 = Some 0"
| "strncmp (a # s) (b # t) (Suc n) =
     (if a \<noteq> b then Some (uint a - uint b)
      else if a = 0 then Some 0
      else strncmp s t n)"
| "strncmp _ _ (Suc n) = None"

fun strlen :: "u8 list \<Rightarrow> nat option" where
  "strlen [] = None"
| "strlen (c # s) = (if c = 0 then Some 0 else map_option Suc (strlen s))"

text \<open>\<open>strrchr\<close> returns the index of the last match, \<open>Some None\<close> for the null pointer; \<open>i\<close> is
  the index of the head of the list and \<open>seen\<close> the match seen so far.\<close>

fun strrchr_loop :: "u8 list \<Rightarrow> u8 \<Rightarrow> nat \<Rightarrow> nat option \<Rightarrow> nat option option" where
  "strrchr_loop [] c i seen = None"
| "strrchr_loop (a # s) c i seen =
     (if a \<noteq> 0 then strrchr_loop s c (Suc i) (if a = c then Some i else seen)
      else if c = 0 then Some (Some i)
      else Some seen)"

definition strrchr :: "u8 list \<Rightarrow> u8 \<Rightarrow> nat option option" where
  "strrchr s c = strrchr_loop s c 0 None"

fun memcmp :: "u8 list \<Rightarrow> u8 list \<Rightarrow> nat \<Rightarrow> int option" where
  "memcmp a b 0 = Some 0"
| "memcmp (x # a) (y # b) (Suc n) = (if x \<noteq> y then Some (uint x - uint y) else memcmp a b n)"
| "memcmp _ _ (Suc n) = None"

section \<open>Routines that write\<close>

fun strcpy :: "u8 list \<Rightarrow> u8 list \<Rightarrow> u8 list option" where
  "strcpy (d # dest) (c # src) =
     (if c = 0 then Some (0 # dest) else map_option ((#) c) (strcpy dest src))"
| "strcpy _ _ = None"

fun strncpy_pad :: "u8 list \<Rightarrow> nat \<Rightarrow> u8 list option" where
  "strncpy_pad dest 0 = Some dest"
| "strncpy_pad (d # dest) (Suc n) = map_option ((#) 0) (strncpy_pad dest n)"
| "strncpy_pad [] (Suc n) = None"

fun strncpy :: "u8 list \<Rightarrow> u8 list \<Rightarrow> nat \<Rightarrow> u8 list option" where
  "strncpy dest src 0 = Some dest"
| "strncpy dest [] (Suc n) = None"
| "strncpy dest (c # src) (Suc n) =
     (if c = 0 then strncpy_pad dest (Suc n)
      else (case dest of [] \<Rightarrow> None | d # dest' \<Rightarrow> map_option ((#) c) (strncpy dest' src n)))"

fun memcpy :: "u8 list \<Rightarrow> u8 list \<Rightarrow> nat \<Rightarrow> u8 list option" where
  "memcpy dest src 0 = Some dest"
| "memcpy (d # dest) (s # src) (Suc n) = map_option ((#) s) (memcpy dest src n)"
| "memcpy _ _ (Suc n) = None"

fun memset :: "u8 list \<Rightarrow> int \<Rightarrow> nat \<Rightarrow> u8 list option" where
  "memset s c 0 = Some s"
| "memset (p # s) c (Suc n) = map_option ((#) (word_of_int c)) (memset s c n)"
| "memset [] c (Suc n) = None"

section \<open>What they compute\<close>

lemma strlen_cstring: "strlen s = Some n \<Longrightarrow> n = length (cstring s)"
  by (induction s arbitrary: n) (auto split: if_splits)

lemma strlen_terminated: "strlen s \<noteq> None \<longleftrightarrow> 0 \<in> set s"
  by (induction s) auto

lemma strlen_eq: "0 \<in> set s \<Longrightarrow> strlen s = Some (length (cstring s))"
  by (induction s) auto

lemma strcmp_total: "0 \<in> set s \<Longrightarrow> 0 \<in> set t \<Longrightarrow> strcmp s t \<noteq> None"
  by (induction s t rule: strcmp.induct) auto

lemma strncmp_total: "0 \<in> set s \<Longrightarrow> 0 \<in> set t \<Longrightarrow> strncmp s t n \<noteq> None"
  by (induction s t n rule: strncmp.induct) auto

lemma strcmp_zero:
  "strcmp s t = Some r \<Longrightarrow> r = 0 \<longleftrightarrow> cstring s = cstring t"
  by (induction s t arbitrary: r rule: strcmp.induct) (auto split: if_splits)

lemma strncmp_zero:
  "strncmp s t n = Some r \<Longrightarrow> r = 0 \<longleftrightarrow> take n (cstring s) = take n (cstring t)"
proof (induction s t n arbitrary: r rule: strncmp.induct)
  case (2 a s b t n)
  then show ?case by (auto split: if_splits)
qed auto

lemma strncmp_antisym: "strncmp s t n = Some r \<Longrightarrow> strncmp t s n = Some (- r)"
  by (induction s t n arbitrary: r rule: strncmp.induct) (auto split: if_splits)

lemma memcmp_zero:
  "memcmp a b n = Some r \<Longrightarrow> r = 0 \<longleftrightarrow> take n a = take n b"
  by (induction a b n arbitrary: r rule: memcmp.induct) (auto split: if_splits)

lemma memcmp_total: "n \<le> length a \<Longrightarrow> n \<le> length b \<Longrightarrow> memcmp a b n \<noteq> None"
  by (induction a b n rule: memcmp.induct) auto

lemma memcpy_eq:
  "n \<le> length dest \<Longrightarrow> n \<le> length src \<Longrightarrow>
     memcpy dest src n = Some (take n src @ drop n dest)"
  by (induction dest src n rule: memcpy.induct) auto

lemma memset_eq:
  "n \<le> length s \<Longrightarrow> memset s c n = Some (replicate n (word_of_int c) @ drop n s)"
  by (induction s c n rule: memset.induct) auto

lemma strcpy_eq:
  "0 \<in> set src \<Longrightarrow> length (cstring src) < length dest \<Longrightarrow>
     strcpy dest src = Some (cstring src @ 0 # drop (Suc (length (cstring src))) dest)"
  by (induction dest src rule: strcpy.induct) auto

lemma strncpy_pad_eq:
  "n \<le> length dest \<Longrightarrow> strncpy_pad dest n = Some (replicate n 0 @ drop n dest)"
  by (induction dest n rule: strncpy_pad.induct) auto

lemma strncpy_eq:
  "n \<le> length dest \<Longrightarrow> 0 \<in> set src \<or> n \<le> length src \<Longrightarrow>
     strncpy dest src n =
       Some (take n (cstring src) @ replicate (n - length (cstring src)) 0 @ drop n dest)"
proof (induction dest src n rule: strncpy.induct)
  case (3 dest c src n)
  then show ?case
    by (cases dest) (auto simp: strncpy_pad_eq)
qed auto

lemma strrchr_loop_last:
  "strrchr_loop s c i seen = Some r \<Longrightarrow> c \<noteq> 0 \<Longrightarrow>
     r = (if c \<in> set (cstring s)
          then Some (i + (length (cstring s) - 1 - length (takeWhile (\<lambda>x. x \<noteq> c) (rev (cstring s)))))
          else seen)"
proof (induction s c i seen rule: strrchr_loop.induct)
  case (2 a s c i seen)
  show ?case
  proof (cases "a = 0")
    case True
    with 2 show ?thesis by auto
  next
    case False
    let ?w = "length (takeWhile (\<lambda>x. x \<noteq> c) (rev (cstring s)))"
    have "c \<in> set (cstring s) \<Longrightarrow> ?w < length (cstring s)"
      using length_takeWhile_less [of c "rev (cstring s)" "\<lambda>x. x \<noteq> c"] by simp
    moreover have "c \<notin> set (cstring s) \<Longrightarrow> takeWhile (\<lambda>x. x \<noteq> c) (rev (cstring s)) = rev (cstring s)"
      by (auto simp: takeWhile_eq_all_conv)
    ultimately show ?thesis
      using False 2 by (auto simp: takeWhile_append)
  qed
qed simp

text \<open>The bounded copy idiom of the kernel, \<^verbatim>\<open>strncpy (out, s, n - 1); out[n - 1] = 0\<close>
  on a buffer of n bytes and a terminated source, stays inside the buffer and leaves exactly the
  first n - 1 characters of the source's string in it.  Every path the kernel handles is copied so;
  the models of the file system and of the system calls write \<open>take (n - 1) s\<close> for it.\<close>

theorem strncpy_bounded_copy:
  assumes "n = length out" and "0 < n" and "0 \<in> set src"
  shows "\<exists>buf. strncpy out src (n - 1) = Some buf \<and> length buf = n
           \<and> cstring (buf[n - 1 := 0]) = take (n - 1) (cstring src)"
proof -
  let ?c = "cstring src"
  let ?buf = "take (n - 1) ?c @ replicate (n - 1 - length ?c) 0 @ drop (n - 1) out"
  from assms have some: "strncpy out src (n - 1) = Some ?buf"
    by (intro strncpy_eq) auto
  have len: "length ?buf = n" using assms by auto
  have tail: "drop (n - 1) out = [out ! (n - 1)]"
    using assms by (simp add: Cons_nth_drop_Suc [symmetric])
  have "cstring (?buf[n - 1 := 0]) = take (n - 1) ?c"
  proof (cases "length ?c < n - 1")
    case True
    then obtain k where "n - 1 - length ?c = Suc k" by (metis Suc_diff_Suc)
    with True show ?thesis
      using cstring_append_zero [of ?c] cstring_nonzero [of 0 src]
      by (auto simp: list_update_append)
  next
    case False
    then have "?buf[n - 1 := 0] = take (n - 1) ?c @ [0]"
      unfolding tail by (simp add: list_update_append min_def)
    then show ?thesis
      using cstring_append_zero [of "take (n - 1) ?c" "[]"] cstring_nonzero [of 0 src]
      by (auto dest: in_set_takeD)
  qed
  with some len show ?thesis by blast
qed

theorem strncpy_bounded_copy_witness:
  "\<exists>buf. strncpy [9, 9, 9] [97, 98, 99, 100, 0] 2 = Some buf \<and> length buf = 3
     \<and> cstring (buf[2 := 0]) = take 2 (cstring [97, 98, 99, 100, 0])"
  using strncpy_bounded_copy [of 3 "[9, 9, 9]" "[97, 98, 99, 100, 0]"] by simp

end
