(* ===== verification/Vfs.thy ===== *)
theory Vfs
  imports Heap CString
begin

unbundle bit_operations_syntax

text \<open>
  The in-memory file system of \<^verbatim>\<open>core/fs/vfs.c\<close>.  Inodes live in blocks that \<open>kmalloc\<close> returned:
  \<open>inodes s a\<close> is the inode at address \<open>a\<close>, 0 the null pointer.  A C string is the list of its
  characters without the terminating zero; the routines of \<open>CString\<close> are applied to it with the
  zero appended.  The list of directory entries is a HOL list, newest first as in the code; the
  addresses of entries and names matter only for freeing them when an operation fails half way.
  \<open>None\<close> is an access to no live inode, an access outside a buffer, or a lookup that never returns.
\<close>

section \<open>State\<close>

datatype vfs_type = VFS_TYPE_DIR | VFS_TYPE_FILE | VFS_TYPE_SYMLINK

record vfs_dentry =
  de_name :: "u8 list"
  de_inode :: u64

text \<open>The three members of the union are three fields; a pointer member is the address of its block
  together with the bytes that the file system stored there, \<open>None\<close> when it is null.\<close>

record vfs_inode =
  i_type :: vfs_type
  i_mode :: u32
  i_size :: u64
  i_data :: "(u64 \<times> u8 list) option"
  i_target :: "(u64 \<times> u8 list) option"
  i_children :: "vfs_dentry list"

record kvfs = kheap +
  root_inode :: u64
  inodes :: "u64 \<Rightarrow> vfs_inode option"

record vfs_stat_rec =
  st_type :: vfs_type
  st_mode :: u32
  st_size :: u64

record vfs_file =
  vf_inode :: u64
  vf_pos :: u64
  vf_path :: "u8 list"
  vf_pipe :: "nat option"
  vf_pipe_end :: int

definition S_IFMT :: u32 where [simp]: "S_IFMT = 0xF000"
definition S_IFDIR :: u32 where [simp]: "S_IFDIR = 0x4000"
definition S_IFREG :: u32 where [simp]: "S_IFREG = 0x8000"
definition S_IFLNK :: u32 where [simp]: "S_IFLNK = 0xA000"

definition slash :: u8 where [simp]: "slash = 47"
definition sizeof_inode :: u64 where [simp]: "sizeof_inode = 24"
definition sizeof_dentry :: u64 where [simp]: "sizeof_dentry = 24"

definition iput :: "u64 \<Rightarrow> vfs_inode \<Rightarrow> 'a kvfs_scheme \<Rightarrow> 'a kvfs_scheme" where
  "iput a i s = s\<lparr>inodes := (inodes s)(a \<mapsto> i)\<rparr>"

definition idrop :: "u64 \<Rightarrow> 'a kvfs_scheme \<Rightarrow> 'a kvfs_scheme" where
  "idrop a s = s\<lparr>inodes := (inodes s)(a := None)\<rparr>"

section \<open>Strings and paths\<close>

definition vfs_strdup :: "u8 list \<Rightarrow> 'a kvfs_scheme \<Rightarrow> ((u64 \<times> u8 list) option \<times> 'a kvfs_scheme) option" where
  "vfs_strdup src s =
     do { len \<leftarrow> strlen (src @ [0]);
          (copy, s1) \<leftarrow> kmalloc (of_nat len + 1) s;
          if copy = 0 then Some (None, s1) else Some (Some (copy, src), s1) }"

definition vfs_is_absolute :: "u8 list \<Rightarrow> bool" where
  "vfs_is_absolute path \<longleftrightarrow> (case path of [] \<Rightarrow> False | c # _ \<Rightarrow> c = slash)"

definition vfs_skip_slash :: "u8 list \<Rightarrow> u8 list" where
  "vfs_skip_slash path = dropWhile (\<lambda>c. c = slash) path"

text \<open>The inner loop that copies one component into the 256-byte buffer: the component and what
  follows it, \<open>None\<close> when it does not fit.\<close>

fun scan_component :: "u8 list \<Rightarrow> nat \<Rightarrow> (u8 list \<times> u8 list) option" where
  "scan_component [] len = Some ([], [])"
| "scan_component (c # cursor) len =
     (if c = slash then Some ([], c # cursor)
      else if len + 1 \<ge> 256 then None
      else map_option (\<lambda>(component, rest). (c # component, rest)) (scan_component cursor (Suc len)))"

lemma scan_component_append: "scan_component cursor k = Some (cm, rest) \<Longrightarrow> cursor = cm @ rest"
  by (induction cursor k arbitrary: cm rule: scan_component.induct) (auto split: if_splits)

lemma scan_component_shrinks:
  assumes "scan_component cursor k = Some (cm, rest)" and "cursor \<noteq> []"
  shows "length (vfs_skip_slash rest) < length cursor"
proof (cases cm)
  case Nil
  have "rest \<noteq> [] \<Longrightarrow> hd rest = slash"
    using assms Nil by (cases cursor) (auto split: if_splits)
  then have "length (vfs_skip_slash rest) < length rest"
    using scan_component_append [OF assms(1)] Nil assms(2)
    by (cases rest) (auto simp: vfs_skip_slash_def less_Suc_eq_le length_dropWhile_le)
  then show ?thesis using scan_component_append [OF assms(1)] by simp
next
  case (Cons c cm1)
  have "length (vfs_skip_slash rest) \<le> length rest"
    by (simp add: vfs_skip_slash_def length_dropWhile_le)
  then show ?thesis using scan_component_append [OF assms(1)] Cons by simp
qed

section \<open>Directories\<close>

definition dentry_matches :: "u8 list \<Rightarrow> u8 list \<Rightarrow> nat \<Rightarrow> bool option" where
  "dentry_matches entry_name name len =
     do { r \<leftarrow> strncmp (entry_name @ [0]) (name @ [0]) len;
          if r \<noteq> 0 then Some False
          else if len < length (entry_name @ [0]) then Some ((entry_name @ [0]) ! len = 0) else None }"

fun dir_find_loop :: "vfs_dentry list \<Rightarrow> u8 list \<Rightarrow> nat \<Rightarrow> vfs_dentry option option" where
  "dir_find_loop [] name len = Some None"
| "dir_find_loop (e # es) name len =
     do { m \<leftarrow> dentry_matches (de_name e) name len;
          if m then Some (Some e) else dir_find_loop es name len }"

definition vfs_dir_find :: "u64 \<Rightarrow> u8 list \<Rightarrow> nat \<Rightarrow> 'a kvfs_scheme \<Rightarrow> vfs_dentry option option" where
  "vfs_dir_find dir name len s =
     (if dir = 0 then Some None
      else
        do { d \<leftarrow> inodes s dir;
             if i_type d \<noteq> VFS_TYPE_DIR then Some None else dir_find_loop (i_children d) name len })"

definition vfs_dir_add :: "u64 \<Rightarrow> u8 list \<Rightarrow> u64 \<Rightarrow> 'a kvfs_scheme \<Rightarrow> (int \<times> 'a kvfs_scheme) option" where
  "vfs_dir_add dir name inode s =
     (if dir = 0 \<or> inode = 0 then Some (- 1, s)
      else
        do { d \<leftarrow> inodes s dir;
             if i_type d \<noteq> VFS_TYPE_DIR then Some (- 1, s)
             else
               do { len \<leftarrow> strlen (name @ [0]);
                    found \<leftarrow> vfs_dir_find dir name len s;
                    if found \<noteq> None then Some (- 1, s)
                    else
                      do { (entry, s1) \<leftarrow> kmalloc sizeof_dentry s;
                           if entry = 0 then Some (- 1, s1)
                           else
                             do { (copy, s2) \<leftarrow> vfs_strdup name s1;
                                  case copy of
                                    None \<Rightarrow> do { s3 \<leftarrow> kfree entry s2; Some (- 1, s3) }
                                  | Some (p, str) \<Rightarrow>
                                      do { d2 \<leftarrow> inodes s2 dir;
                                           Some (0, iput dir (d2\<lparr>i_children :=
                                             \<lparr>de_name = str, de_inode = inode\<rparr> # i_children d2\<rparr>) s2) } } } } })"

definition vfs_inode_new :: "vfs_type \<Rightarrow> u32 \<Rightarrow> 'a kvfs_scheme \<Rightarrow> (u64 \<times> 'a kvfs_scheme) option" where
  "vfs_inode_new type mode s =
     do { (inode, s1) \<leftarrow> kmalloc sizeof_inode s;
          if inode = 0 then Some (0, s1)
          else Some (inode, iput inode \<lparr>i_type = type, i_mode = mode, i_size = 0, i_data = None,
                                        i_target = None, i_children = []\<rparr> s1) }"

section \<open>Resolving paths\<close>

text \<open>The loop of \<^verbatim>\<open>vfs_lookup_parent\<close>: the parent directory and the last component.\<close>

function lookup_parent_loop ::
    "bool \<Rightarrow> u64 \<Rightarrow> u8 list \<Rightarrow> 'a kvfs_scheme \<Rightarrow> (u64 \<times> u8 list \<times> 'a kvfs_scheme) option" where
  "lookup_parent_loop create current cursor s =
     (if cursor = [] then Some (current, [], s)
      else
        (case scan_component cursor 0 of
           None \<Rightarrow> Some (0, [], s)
         | Some (component, rest) \<Rightarrow>
             (let cursor' = vfs_skip_slash rest
              in if cursor' = [] then Some (current, take 255 component, s)
                 else
                   do { cur \<leftarrow> inodes s current;
                        if i_type cur \<noteq> VFS_TYPE_DIR then Some (0, [], s)
                        else
                          do { entry \<leftarrow> vfs_dir_find current component (length component) s;
                               case entry of
                                 Some e \<Rightarrow> lookup_parent_loop create (de_inode e) cursor' s
                               | None \<Rightarrow>
                                   if \<not> create then Some (0, [], s)
                                   else
                                     do { (next, s1) \<leftarrow> vfs_inode_new VFS_TYPE_DIR (S_IFDIR OR 0x1ED) s;
                                          if next = 0 then Some (0, [], s1)
                                          else
                                            do { (r, s2) \<leftarrow> vfs_dir_add current component next s1;
                                                 if r \<noteq> 0 then Some (0, [], s2)
                                                 else lookup_parent_loop create next cursor' s2 } } } })))"
  by pat_completeness auto
termination
  by (relation "measure (\<lambda>(create, current, cursor, s). length cursor)") (auto simp: scan_component_shrinks)

declare lookup_parent_loop.simps [simp del]

definition vfs_lookup_parent ::
    "u8 list \<Rightarrow> bool \<Rightarrow> 'a kvfs_scheme \<Rightarrow> (u64 \<times> u8 list \<times> 'a kvfs_scheme) option" where
  "vfs_lookup_parent path create s =
     (if \<not> vfs_is_absolute path \<or> root_inode s = 0 then Some (0, [], s)
      else lookup_parent_loop create (root_inode s) (vfs_skip_slash path) s)"

text \<open>\<^verbatim>\<open>vfs_symlink_resolve\<close> into a buffer of 512 bytes: the string left in it.\<close>

definition vfs_symlink_resolve :: "u8 list \<Rightarrow> u8 list \<Rightarrow> u8 list option" where
  "vfs_symlink_resolve base target =
     (if vfs_is_absolute target then Some (take 511 target)
      else
        do { last \<leftarrow> strrchr (base @ [0]) slash;
             case last of
               None \<Rightarrow> Some []
             | Some i \<Rightarrow>
                 (let dirlen = (if i = 0 then 1 else i)
                  in if dirlen + 1 + length target + 1 > 512 then Some []
                     else Some (take dirlen base @ slash # target)) })"

text \<open>The lookup: \<^verbatim>\<open>goto restart\<close> is a recursive call at the root; the walk need not end.\<close>

partial_function (option) lookup_walk ::
    "bool \<Rightarrow> 'a kvfs_scheme \<Rightarrow> u8 list \<Rightarrow> u64 \<Rightarrow> u8 list \<Rightarrow> nat \<Rightarrow> u64 option" where
  "lookup_walk follow s curpath current cursor depth =
     (if cursor = [] then
        do { cur \<leftarrow> inodes s current;
             if i_type cur = VFS_TYPE_SYMLINK \<and> follow then
               (case i_target cur of
                  None \<Rightarrow> Some 0
                | Some (p, target) \<Rightarrow>
                    do { linkbuf \<leftarrow> vfs_symlink_resolve curpath target;
                         if \<not> vfs_is_absolute linkbuf \<or> root_inode s = 0 then Some 0
                         else (let path = take 511 linkbuf
                               in lookup_walk True s path (root_inode s) (vfs_skip_slash path) 0) })
             else Some current }
      else
        (case scan_component cursor 0 of
           None \<Rightarrow> Some 0
         | Some (component, rest) \<Rightarrow>
             (let cursor' = vfs_skip_slash rest
              in do { cur \<leftarrow> inodes s current;
                      if i_type cur \<noteq> VFS_TYPE_DIR then Some 0
                      else
                        do { entry \<leftarrow> vfs_dir_find current component (length component) s;
                             case entry of
                               None \<Rightarrow> Some 0
                             | Some e \<Rightarrow>
                                 do { node \<leftarrow> inodes s (de_inode e);
                                      if i_type node = VFS_TYPE_SYMLINK \<and> follow then
                                        (case i_target node of
                                           None \<Rightarrow> Some 0
                                         | Some (p, target) \<Rightarrow>
                                             (let rest = take 255 cursor';
                                                  plen = length curpath - length cursor'
                                              in if depth + 1 > 8 \<or> plen \<ge> 512 then Some 0
                                                 else
                                                   do { linkbuf \<leftarrow> vfs_symlink_resolve (take plen curpath) target;
                                                        if rest \<noteq> [] \<and> length linkbuf + 1 + length rest + 1 > 512
                                                        then Some 0
                                                        else
                                                          (let path = take 511 (if rest = [] then linkbuf
                                                                                else linkbuf @ slash # rest)
                                                           in lookup_walk follow s path (root_inode s)
                                                                (vfs_skip_slash path) 0) }))
                                      else lookup_walk follow s curpath (de_inode e) cursor' depth } } })))"

definition vfs_lookup_path :: "u8 list \<Rightarrow> bool \<Rightarrow> 'a kvfs_scheme \<Rightarrow> u64 option" where
  "vfs_lookup_path path follow s =
     (if \<not> vfs_is_absolute path \<or> root_inode s = 0 then Some 0
      else (let curpath = take 511 path
            in lookup_walk follow s curpath (root_inode s) (vfs_skip_slash curpath) 0))"

section \<open>Operations\<close>

definition vfs_init :: "'a kvfs_scheme \<Rightarrow> 'a kvfs_scheme option" where
  "vfs_init s =
     do { (r, s1) \<leftarrow> vfs_inode_new VFS_TYPE_DIR (S_IFDIR OR 0x1ED) s; Some (s1\<lparr>root_inode := r\<rparr>) }"

definition vfs_root_inode :: "'a kvfs_scheme \<Rightarrow> u64" where
  "vfs_root_inode s = root_inode s"

definition vfs_mkdir :: "u8 list \<Rightarrow> u32 \<Rightarrow> 'a kvfs_scheme \<Rightarrow> (int \<times> 'a kvfs_scheme) option" where
  "vfs_mkdir path mode s =
     do { (parent, name, s1) \<leftarrow> vfs_lookup_parent path True s;
          if parent = 0 \<or> name = [] then Some (- 1, s1)
          else
            do { len \<leftarrow> strlen (name @ [0]);
                 found \<leftarrow> vfs_dir_find parent name len s1;
                 if found \<noteq> None then Some (0, s1)
                 else
                   do { (inode, s2) \<leftarrow> vfs_inode_new VFS_TYPE_DIR mode s1;
                        if inode = 0 then Some (- 1, s2) else vfs_dir_add parent name inode s2 } } }"

definition vfs_create ::
    "u8 list \<Rightarrow> u32 \<Rightarrow> u8 list \<Rightarrow> u64 \<Rightarrow> 'a kvfs_scheme \<Rightarrow> (int \<times> 'a kvfs_scheme) option" where
  "vfs_create path mode data sz s =
     do { (parent, name, s1) \<leftarrow> vfs_lookup_parent path True s;
          if parent = 0 \<or> name = [] then Some (- 1, s1)
          else
            do { len \<leftarrow> strlen (name @ [0]);
                 found \<leftarrow> vfs_dir_find parent name len s1;
                 if found \<noteq> None then Some (- 1, s1)
                 else
                   do { (inode, s2) \<leftarrow> vfs_inode_new VFS_TYPE_FILE mode s1;
                        if inode = 0 then Some (- 1, s2)
                        else
                          do { i \<leftarrow> inodes s2 inode;
                               (copy, s3) \<leftarrow> (if sz > 0 then kmalloc sz s2 else Some (0, s2));
                               if sz > 0 \<and> copy = 0 then
                                 do { s4 \<leftarrow> kfree inode (idrop inode s3); Some (- 1, s4) }
                               else if unat sz > length data then None
                               else
                                 do { let file = i\<lparr>i_size := sz,
                                        i_data := (if sz > 0 then Some (copy, take (unat sz) data) else None)\<rparr>;
                                      (r, s4) \<leftarrow> vfs_dir_add parent name inode (iput inode file s3);
                                      if r \<noteq> 0 then
                                        do { s5 \<leftarrow> kfree copy s4;
                                             s6 \<leftarrow> kfree inode (idrop inode s5);
                                             Some (- 1, s6) }
                                      else Some (0, s4) } } } } }"

definition vfs_symlink :: "u8 list \<Rightarrow> u8 list \<Rightarrow> 'a kvfs_scheme \<Rightarrow> (int \<times> 'a kvfs_scheme) option" where
  "vfs_symlink target path s =
     do { (parent, name, s1) \<leftarrow> vfs_lookup_parent path True s;
          if parent = 0 \<or> name = [] then Some (- 1, s1)
          else
            do { len \<leftarrow> strlen (name @ [0]);
                 found \<leftarrow> vfs_dir_find parent name len s1;
                 if found \<noteq> None then Some (- 1, s1)
                 else
                   do { (inode, s2) \<leftarrow> vfs_inode_new VFS_TYPE_SYMLINK (S_IFLNK OR 0x1FF) s1;
                        if inode = 0 then Some (- 1, s2)
                        else
                          do { (copy, s3) \<leftarrow> vfs_strdup target s2;
                               case copy of
                                 None \<Rightarrow> do { s4 \<leftarrow> kfree inode (idrop inode s3); Some (- 1, s4) }
                               | Some (p, str) \<Rightarrow>
                                   do { i \<leftarrow> inodes s3 inode;
                                        tlen \<leftarrow> strlen (target @ [0]);
                                        let link = i\<lparr>i_target := Some (p, str), i_size := of_nat tlen\<rparr>;
                                        (r, s4) \<leftarrow> vfs_dir_add parent name inode (iput inode link s3);
                                        if r \<noteq> 0 then
                                          do { s5 \<leftarrow> kfree p s4;
                                               s6 \<leftarrow> kfree inode (idrop inode s5);
                                               Some (- 1, s6) }
                                        else Some (0, s4) } } } } }"

definition inode_stat :: "vfs_inode \<Rightarrow> vfs_stat_rec" where
  "inode_stat i = \<lparr>st_type = i_type i, st_mode = i_mode i, st_size = i_size i\<rparr>"

text \<open>The status and, when it is 0, what is stored through the result pointer.\<close>

definition vfs_stat :: "u8 list \<Rightarrow> 'a kvfs_scheme \<Rightarrow> (int \<times> vfs_stat_rec option) option" where
  "vfs_stat path s =
     do { inode \<leftarrow> vfs_lookup_path path True s;
          if inode = 0 then Some (- 1, None)
          else do { i \<leftarrow> inodes s inode; Some (0, Some (inode_stat i)) } }"

definition vfs_fstat :: "vfs_file \<Rightarrow> 'a kvfs_scheme \<Rightarrow> (int \<times> vfs_stat_rec option) option" where
  "vfs_fstat file s =
     (if vf_inode file = 0 then Some (- 1, None)
      else do { i \<leftarrow> inodes s (vf_inode file); Some (0, Some (inode_stat i)) })"

definition vfs_readlink :: "u8 list \<Rightarrow> u64 \<Rightarrow> 'a kvfs_scheme \<Rightarrow> (int \<times> u8 list) option" where
  "vfs_readlink path bufsz s =
     do { inode \<leftarrow> vfs_lookup_path path False s;
          if inode = 0 \<or> bufsz = 0 then Some (- 1, [])
          else
            do { i \<leftarrow> inodes s inode;
                 if i_type i \<noteq> VFS_TYPE_SYMLINK then Some (- 1, [])
                 else
                   (case i_target i of
                      None \<Rightarrow> Some (- 1, [])
                    | Some (p, target) \<Rightarrow>
                        (let len = (if length target \<ge> unat bufsz then unat bufsz - 1 else length target)
                         in Some (int len, take len target))) } }"

definition vfs_open :: "u8 list \<Rightarrow> vfs_file \<Rightarrow> 'a kvfs_scheme \<Rightarrow> (int \<times> vfs_file) option" where
  "vfs_open path file s =
     do { inode \<leftarrow> vfs_lookup_path path True s;
          if inode = 0 then Some (- 1, file)
          else
            do { i \<leftarrow> inodes s inode;
                 if i_type i \<noteq> VFS_TYPE_FILE \<and> i_type i \<noteq> VFS_TYPE_DIR then Some (- 1, file)
                 else Some (0, file\<lparr>vf_path := take 255 path, vf_inode := inode, vf_pos := 0\<rparr>) } }"

text \<open>The bytes \<^verbatim>\<open>memcpy\<close> takes from a file's block at an offset.\<close>

definition file_bytes :: "(u64 \<times> u8 list) option \<Rightarrow> u64 \<Rightarrow> u64 \<Rightarrow> u8 list option" where
  "file_bytes d pos count =
     (case d of
        None \<Rightarrow> Some []
      | Some (p, bytes) \<Rightarrow>
          if unat pos + unat count \<le> length bytes
          then Some (take (unat count) (drop (unat pos) bytes)) else None)"

definition vfs_read :: "vfs_file \<Rightarrow> u64 \<Rightarrow> 'a kvfs_scheme \<Rightarrow> (int \<times> u8 list \<times> vfs_file) option" where
  "vfs_read file count s =
     (if vf_inode file = 0 then Some (- 1, [], file)
      else
        do { i \<leftarrow> inodes s (vf_inode file);
             if i_type i \<noteq> VFS_TYPE_FILE then Some (- 1, [], file)
             else if vf_pos file \<ge> i_size i then Some (0, [], file)
             else
               do { let available = i_size i - vf_pos file;
                    let n = (if count > available then available else count);
                    bytes \<leftarrow> file_bytes (i_data i) (vf_pos file) n;
                    Some (sint n, bytes,
                      if n > 0 \<and> i_data i \<noteq> None then file\<lparr>vf_pos := vf_pos file + n\<rparr> else file) } })"

definition vfs_close :: "vfs_file \<Rightarrow> vfs_file" where
  "vfs_close file = file\<lparr>vf_inode := 0, vf_pos := 0\<rparr>"

fun readdir_loop :: "vfs_dentry list \<Rightarrow> nat \<Rightarrow> 'a kvfs_scheme \<Rightarrow> (u8 list \<times> vfs_type) list option" where
  "readdir_loop [] n s = Some []"
| "readdir_loop (e # es) 0 s = Some []"
| "readdir_loop (e # es) (Suc n) s =
     do { i \<leftarrow> inodes s (de_inode e);
          rest \<leftarrow> readdir_loop es n s;
          Some ((de_name e, i_type i) # rest) }"

definition vfs_readdir ::
    "u8 list \<Rightarrow> nat \<Rightarrow> 'a kvfs_scheme \<Rightarrow> (int \<times> (u8 list \<times> vfs_type) list) option" where
  "vfs_readdir path max_entries s =
     do { inode \<leftarrow> vfs_lookup_path path True s;
          if inode = 0 then Some (- 1, [])
          else
            do { i \<leftarrow> inodes s inode;
                 if i_type i \<noteq> VFS_TYPE_DIR then Some (- 1, [])
                 else
                   do { es \<leftarrow> readdir_loop (i_children i) max_entries s;
                        Some (int (length es), es) } } }"

definition vfs_read_at :: "u8 list \<Rightarrow> u64 \<Rightarrow> u64 \<Rightarrow> 'a kvfs_scheme \<Rightarrow> (int \<times> u8 list) option" where
  "vfs_read_at path offset count s =
     do { inode \<leftarrow> vfs_lookup_path path True s;
          if inode = 0 then Some (- 1, [])
          else
            do { i \<leftarrow> inodes s inode;
                 if i_type i \<noteq> VFS_TYPE_FILE then Some (- 1, [])
                 else if offset \<ge> i_size i then Some (0, [])
                 else
                   do { let available = i_size i - offset;
                        let n = (if count > available then available else count);
                        bytes \<leftarrow> file_bytes (i_data i) offset n;
                        Some (sint n, bytes) } } }"

section \<open>Names and directories\<close>

definition name_ok :: "u8 list \<Rightarrow> bool" where
  "name_ok nm \<longleftrightarrow> nm \<noteq> [] \<and> 0 \<notin> set nm \<and> slash \<notin> set nm \<and> length nm \<le> 255"

lemma strlen_terminated_eq [simp]: "0 \<notin> set s \<Longrightarrow> strlen (s @ [0]) = Some (length s)"
  by (induction s) auto

lemma dentry_matches_eq:
  assumes "0 \<notin> set en" and "0 \<notin> set nm" and "len \<le> length nm"
  shows "dentry_matches en nm len = Some (en = take len nm)"
proof -
  obtain r where r: "strncmp (en @ [0]) (nm @ [0]) len = Some r"
    using strncmp_total [of "en @ [0]" "nm @ [0]" len] by auto
  have c: "cstring (en @ [0]) = en" "cstring (nm @ [0]) = nm"
    using assms cstring_append_zero [of _ "[]"] by auto
  have z: "r = 0 \<longleftrightarrow> take len en = take len nm" using strncmp_zero [OF r] c by simp
  show ?thesis
  proof (cases "r = 0")
    case True
    then have eq: "take len en = take len nm" using z by simp
    then have len: "len \<le> length en" using assms(3) by (metis length_take min.absorb2 min.cobounded1)
    have "(en @ [0]) ! len = 0 \<longleftrightarrow> length en = len"
      using len assms(1) by (auto simp: nth_append) (metis in_set_conv_nth le_neq_implies_less)
    moreover have "length en = len \<longleftrightarrow> en = take len nm"
      using eq len assms(3) by (metis length_take min.absorb2 take_all_iff le_refl)
    ultimately show ?thesis using r True len by (simp add: dentry_matches_def)
  next
    case False
    then have "en \<noteq> take len nm" using z by (metis take_take min.idem)
    then show ?thesis using r False by (simp add: dentry_matches_def)
  qed
qed

definition find_entry :: "vfs_inode \<Rightarrow> u8 list \<Rightarrow> vfs_dentry option" where
  "find_entry d nm = find (\<lambda>e. de_name e = nm) (i_children d)"

definition inode_ok :: "'a kvfs_scheme \<Rightarrow> vfs_inode \<Rightarrow> bool" where
  "inode_ok s i \<longleftrightarrow>
     (\<forall>e \<in> set (i_children i). name_ok (de_name e) \<and> inodes s (de_inode e) \<noteq> None) \<and>
     distinct (map de_name (i_children i)) \<and>
     (i_type i = VFS_TYPE_FILE \<longrightarrow>
        (case i_data i of None \<Rightarrow> i_size i = 0 | Some (p, bs) \<Rightarrow> length bs = unat (i_size i))) \<and>
     (\<forall>p t. i_target i = Some (p, t) \<longrightarrow> 0 \<notin> set t)"

text \<open>The invariant of the file system: inodes are allocated blocks, directories hold proper, distinct
  names of existing inodes, files hold as many bytes as their size says, and the root is a directory.\<close>

definition vfs_ok :: "'a kvfs_scheme \<Rightarrow> bool" where
  "vfs_ok s \<longleftrightarrow> heap_inv s \<and>
     (\<forall>a i. inodes s a = Some i \<longrightarrow> a \<noteq> 0 \<and> kmalloc_live s a \<and> inode_ok s i) \<and>
     (\<exists>r. inodes s (root_inode s) = Some r \<and> i_type r = VFS_TYPE_DIR)"

lemma vfs_okD:
  assumes "vfs_ok s" and "inodes s a = Some i"
  shows "a \<noteq> 0" and "kmalloc_live s a" and "inode_ok s i"
    and "\<And>e. e \<in> set (i_children i) \<Longrightarrow> name_ok (de_name e) \<and> inodes s (de_inode e) \<noteq> None"
    and "distinct (map de_name (i_children i))"
  using assms unfolding vfs_ok_def inode_ok_def by blast+

lemma vfs_ok_root: "vfs_ok s \<Longrightarrow> \<exists>r. inodes s (root_inode s) = Some r \<and> i_type r = VFS_TYPE_DIR \<and> root_inode s \<noteq> 0"
  unfolding vfs_ok_def by blast

lemma dir_find_loop_eq:
  "(\<forall>e \<in> set es. 0 \<notin> set (de_name e)) \<Longrightarrow> 0 \<notin> set nm \<Longrightarrow>
     dir_find_loop es nm (length nm) = Some (find (\<lambda>e. de_name e = nm) es)"
  by (induction es) (auto simp: dentry_matches_eq)

lemma vfs_dir_find_eq:
  assumes "vfs_ok s" and "inodes s dir = Some d" and "0 \<notin> set nm"
  shows "vfs_dir_find dir nm (length nm) s = Some (if i_type d = VFS_TYPE_DIR then find_entry d nm else None)"
proof -
  have "\<forall>e \<in> set (i_children d). 0 \<notin> set (de_name e)"
    using vfs_okD(4) [OF assms(1,2)] by (auto simp: name_ok_def)
  then show ?thesis
    using assms vfs_okD(1) [OF assms(1,2)] dir_find_loop_eq [of "i_children d" nm]
    by (simp add: vfs_dir_find_def find_entry_def)
qed

lemma find_entry_mem: "find_entry d nm = Some e \<Longrightarrow> e \<in> set (i_children d) \<and> de_name e = nm"
  by (auto simp: find_entry_def find_Some_iff)

section \<open>Paths\<close>

function comps :: "u8 list \<Rightarrow> u8 list list" where
  "comps p =
     (let c = vfs_skip_slash p
      in if c = [] then [] else takeWhile (\<lambda>x. x \<noteq> slash) c # comps (dropWhile (\<lambda>x. x \<noteq> slash) c))"
  by pat_completeness auto
termination
proof (relation "measure length")
  fix p c :: "u8 list"
  assume c: "c = vfs_skip_slash p" "c \<noteq> []"
  then have "hd c \<noteq> slash" unfolding vfs_skip_slash_def using hd_dropWhile [of "\<lambda>x. x = slash" p] by simp
  then have "length (dropWhile (\<lambda>x. x \<noteq> slash) c) < length c"
    using c(2) by (cases c) (auto simp: less_Suc_eq_le length_dropWhile_le)
  moreover have "length c \<le> length p" using c(1) by (simp add: vfs_skip_slash_def length_dropWhile_le)
  ultimately show "(dropWhile (\<lambda>x. x \<noteq> slash) c, p) \<in> measure length" by simp
qed simp

declare comps.simps [simp del]

lemma skip_slash_idem [simp]: "vfs_skip_slash (vfs_skip_slash p) = vfs_skip_slash p"
  by (simp add: vfs_skip_slash_def dropWhile_idem)

lemma comps_skip: "comps (vfs_skip_slash p) = comps p"
  by (simp add: comps.simps [of p] comps.simps [of "vfs_skip_slash p"])

lemma comps_cursor:
  assumes "vfs_skip_slash cursor = cursor" and "cursor \<noteq> []"
  shows "comps cursor = takeWhile (\<lambda>x. x \<noteq> slash) cursor # comps (vfs_skip_slash (dropWhile (\<lambda>x. x \<noteq> slash) cursor))"
  using assms by (subst comps.simps) (simp add: Let_def comps_skip)

lemma comps_empty: "vfs_skip_slash cursor = [] \<Longrightarrow> comps cursor = []"
  by (subst comps.simps) simp

lemma comps_Nil [simp]: "comps [] = []"
  by (rule comps_empty) (simp add: vfs_skip_slash_def)

lemma comps_cursor_empty: "vfs_skip_slash cursor = cursor \<Longrightarrow> comps cursor = [] \<longleftrightarrow> cursor = []"
  by (metis comps_cursor comps_empty list.distinct(1))

lemma scan_component_eq:
  "k \<le> 255 \<Longrightarrow> scan_component cursor k =
     (if k + length (takeWhile (\<lambda>x. x \<noteq> slash) cursor) \<le> 255
      then Some (takeWhile (\<lambda>x. x \<noteq> slash) cursor, dropWhile (\<lambda>x. x \<noteq> slash) cursor) else None)"
proof (induction cursor k rule: scan_component.induct)
  case (2 c cursor len)
  then show ?case by (cases "len = 255") auto
qed simp

lemma comps_names:
  "c \<in> set (comps p) \<Longrightarrow> 0 \<notin> set p \<Longrightarrow> c \<noteq> [] \<and> 0 \<notin> set c \<and> slash \<notin> set c"
proof (induction p rule: comps.induct)
  case (1 p)
  let ?c = "vfs_skip_slash p"
  show ?case
  proof (cases "?c = []")
    case True
    then show ?thesis using 1(2) comps_empty by simp
  next
    case False
    have sub: "set ?c \<subseteq> set p" unfolding vfs_skip_slash_def by (meson set_dropWhileD subsetI)
    have hd: "hd ?c \<noteq> slash" using False unfolding vfs_skip_slash_def using hd_dropWhile [of "\<lambda>x. x = slash" p] by simp
    have "comps p = takeWhile (\<lambda>x. x \<noteq> slash) ?c # comps (dropWhile (\<lambda>x. x \<noteq> slash) ?c)"
      using False by (subst comps.simps) (simp add: Let_def)
    then consider "c = takeWhile (\<lambda>x. x \<noteq> slash) ?c" | "c \<in> set (comps (dropWhile (\<lambda>x. x \<noteq> slash) ?c))"
      using 1(2) by auto
    then show ?thesis
    proof cases
      case 1
      then show ?thesis
        using hd False sub \<open>0 \<notin> set p\<close> by (cases ?c) (auto dest: set_takeWhileD)
    next
      case 2
      have "0 \<notin> set (dropWhile (\<lambda>x. x \<noteq> slash) ?c)" using sub 1(3) by (meson set_dropWhileD subsetD)
      then show ?thesis using 1(1) [OF refl False 2] by blast
    qed
  qed
qed

text \<open>Walking a list of names, without following symbolic links.\<close>

fun walk :: "'a kvfs_scheme \<Rightarrow> u64 \<Rightarrow> u8 list list \<Rightarrow> u64 option" where
  "walk s a [] = Some a"
| "walk s a (c # cs) =
     (case inodes s a of
        None \<Rightarrow> None
      | Some d \<Rightarrow>
          if i_type d \<noteq> VFS_TYPE_DIR then None
          else (case find_entry d c of None \<Rightarrow> None | Some e \<Rightarrow> walk s (de_inode e) cs))"

text \<open>No symbolic link is met on the way.\<close>

fun no_links :: "'a kvfs_scheme \<Rightarrow> u64 \<Rightarrow> u8 list list \<Rightarrow> bool" where
  "no_links s a [] \<longleftrightarrow> True"
| "no_links s a (c # cs) \<longleftrightarrow>
     (case inodes s a of
        None \<Rightarrow> True
      | Some d \<Rightarrow>
          (case find_entry d c of
             None \<Rightarrow> True
           | Some e \<Rightarrow> (\<forall>i. inodes s (de_inode e) = Some i \<longrightarrow> i_type i \<noteq> VFS_TYPE_SYMLINK) \<and>
               no_links s (de_inode e) cs))"

lemma walk_inode:
  assumes "vfs_ok s"
  shows "walk s a cs = Some b \<Longrightarrow> inodes s a \<noteq> None \<Longrightarrow> inodes s b \<noteq> None"
proof (induction cs arbitrary: a)
  case (Cons c cs)
  then show ?case
    using vfs_okD(4) [OF assms] find_entry_mem
    by (auto split: option.splits if_splits)
qed simp

lemma lookup_walk_plain:
  assumes ok: "vfs_ok s"
  shows "vfs_skip_slash cursor = cursor \<Longrightarrow> 0 \<notin> set cursor \<Longrightarrow> inodes s current = Some cur \<Longrightarrow>
    i_type cur \<noteq> VFS_TYPE_SYMLINK \<or> \<not> follow \<Longrightarrow> (follow \<Longrightarrow> no_links s current (comps cursor)) \<Longrightarrow>
    lookup_walk follow s curpath current cursor depth =
      Some (case walk s current (comps cursor) of None \<Rightarrow> 0 | Some a \<Rightarrow> a)"
proof (induction "length cursor" arbitrary: cursor current cur rule: less_induct)
  case less
  show ?case
  proof (cases "cursor = []")
    case True
    then show ?thesis using less.prems by (subst lookup_walk.simps) (auto simp: comps_empty)
  next
    case False
    let ?c = "takeWhile (\<lambda>x. x \<noteq> slash) cursor" and ?r = "dropWhile (\<lambda>x. x \<noteq> slash) cursor"
    note cs = comps_cursor [OF less.prems(1) False]
    have c0: "0 \<notin> set ?c" using less.prems(2) by (meson set_takeWhileD)
    note find = vfs_dir_find_eq [OF ok less.prems(3) c0]
    show ?thesis
    proof (cases "length ?c \<le> 255")
      case long: False
      have "find_entry cur ?c = None"
        using vfs_okD(4) [OF ok less.prems(3)] long find_entry_mem [of cur ?c]
        by (metis name_ok_def not_None_eq)
      then show ?thesis
        using False long less.prems(3) cs by (subst lookup_walk.simps) (simp add: scan_component_eq)
    next
      case True
      note scan = scan_component_eq [of 0 cursor] True
      show ?thesis
      proof (cases "i_type cur = VFS_TYPE_DIR")
        case nodir: False
        then show ?thesis using False scan less.prems(3) cs by (subst lookup_walk.simps) simp
      next
        case dir: True
        show ?thesis
        proof (cases "find_entry cur ?c")
          case None
          then show ?thesis using False scan less.prems(3) cs dir find by (subst lookup_walk.simps) simp
        next
          case (Some e)
          obtain node where node: "inodes s (de_inode e) = Some node"
            using vfs_okD(4) [OF ok less.prems(3)] find_entry_mem [OF Some] by blast
          have nl: "i_type node \<noteq> VFS_TYPE_SYMLINK \<or> \<not> follow"
            "follow \<Longrightarrow> no_links s (de_inode e) (comps (vfs_skip_slash ?r))"
            using less.prems(3,5) cs Some node by auto
          have shorter: "length (vfs_skip_slash ?r) < length cursor"
            using scan scan_component_shrinks [of cursor 0 ?c ?r] False by simp
          have "0 \<notin> set (vfs_skip_slash ?r)"
            using less.prems(2) unfolding vfs_skip_slash_def by (meson set_dropWhileD)
          then have "lookup_walk follow s curpath (de_inode e) (vfs_skip_slash ?r) depth =
              Some (case walk s (de_inode e) (comps (vfs_skip_slash ?r)) of None \<Rightarrow> 0 | Some a \<Rightarrow> a)"
            using less.hyps [OF shorter _ _ node nl] by simp
          then show ?thesis
            using False scan less.prems(3) cs dir find Some node nl(1) by (subst lookup_walk.simps) auto
        qed
      qed
    qed
  qed
qed

section \<open>What the operations keep\<close>

lemma vfs_fields:
  assumes "kheap.more s' = kheap.more s"
  shows "root_inode s' = root_inode s" "inodes s' = inodes s" "kvfs.more s' = kvfs.more s"
  using assms by (cases s; cases s'; simp)+

lemma heap_upd_vfs [simp]:
  "heap_inv (s\<lparr>inodes := m\<rparr>) = heap_inv s" "kmalloc_live (s\<lparr>inodes := m\<rparr>) q = kmalloc_live s q"
  "heap_budget b (s\<lparr>inodes := m\<rparr>) = heap_budget b s"
  "heap_inv (s\<lparr>root_inode := r\<rparr>) = heap_inv s" "kmalloc_live (s\<lparr>root_inode := r\<rparr>) q = kmalloc_live s q"
  "heap_budget b (s\<lparr>root_inode := r\<rparr>) = heap_budget b s"
  "heap_spare b (s\<lparr>inodes := m\<rparr>) = heap_spare b s"
  by (simp_all add: heap_inv_def heap_ok_def heap_shape_def kmalloc_live_def heap_budget_def heap_spare_def)

lemma inode_ok_mono:
  "inode_ok s i \<Longrightarrow> (\<And>a. inodes s a \<noteq> None \<Longrightarrow> inodes s' a \<noteq> None) \<Longrightarrow> inode_ok s' i"
  unfolding inode_ok_def by blast

lemma vfs_ok_heap:
  assumes "vfs_ok s" and "heap_inv s'" and "kheap.more s' = kheap.more s"
    and "\<And>q. kmalloc_live s q \<Longrightarrow> kmalloc_live s' q"
  shows "vfs_ok s'"
  using assms(1,2,4) vfs_fields [OF assms(3)] unfolding vfs_ok_def inode_ok_def by simp

text \<open>The old part of the file system is still there: every inode has its type, mode, size, data and
  target, and every name still denotes the same inode.\<close>

definition extends :: "'a kvfs_scheme \<Rightarrow> 'a kvfs_scheme \<Rightarrow> bool" where
  "extends s s' \<longleftrightarrow> root_inode s' = root_inode s \<and> kvfs.more s' = kvfs.more s \<and>
     (\<forall>a i. inodes s a = Some i \<longrightarrow>
        (\<exists>new. inodes s' a = Some (i\<lparr>i_children := new @ i_children i\<rparr>)))"

lemma extends_refl: "extends s s"
  unfolding extends_def by (auto intro!: exI [of _ "[]"])

lemma extends_inode:
  "extends s s' \<Longrightarrow> inodes s a = Some i \<Longrightarrow> \<exists>new. inodes s' a = Some (i\<lparr>i_children := new @ i_children i\<rparr>)"
  by (simp add: extends_def)

lemma extends_trans:
  assumes "extends s s'" and "extends s' s''"
  shows "extends s s''"
proof -
  have "\<exists>new. inodes s'' a = Some (i\<lparr>i_children := new @ i_children i\<rparr>)" if i: "inodes s a = Some i" for a i
  proof -
    obtain new where "inodes s' a = Some (i\<lparr>i_children := new @ i_children i\<rparr>)"
      using extends_inode [OF assms(1) i] by blast
    from extends_inode [OF assms(2) this] obtain new2 where "inodes s'' a = Some (i\<lparr>i_children := new @ i_children i\<rparr>
        \<lparr>i_children := new2 @ (new @ i_children i)\<rparr>)" by auto
    then show ?thesis by (intro exI [of _ "new2 @ new"]) simp
  qed
  then show ?thesis using assms by (auto simp: extends_def)
qed

lemma extends_heap:
  "kheap.more s' = kheap.more s \<Longrightarrow> extends s s'"
  using vfs_fields [of s' s] unfolding extends_def by (auto intro!: exI [of _ "[]"])

lemma find_distinct_append:
  "distinct (map de_name (new @ old)) \<Longrightarrow> find (\<lambda>e. de_name e = nm) old = Some e \<Longrightarrow>
     find (\<lambda>e. de_name e = nm) (new @ old) = Some e"
proof (induction new)
  case (Cons x new)
  have "e \<in> set old" "de_name e = nm" using Cons.prems(2) by (auto simp: find_Some_iff)
  then have "de_name x \<noteq> nm" using Cons.prems(1) by force
  then show ?case using Cons by simp
qed simp

lemma extends_find:
  assumes "vfs_ok s'" and "extends s s'" and "inodes s a = Some i" and "find_entry i nm = Some e"
  shows "\<exists>i'. inodes s' a = Some i' \<and> i_type i' = i_type i \<and> find_entry i' nm = Some e"
proof -
  obtain new where new: "inodes s' a = Some (i\<lparr>i_children := new @ i_children i\<rparr>)"
    using extends_inode [OF assms(2,3)] by blast
  have "distinct (map de_name (new @ i_children i))" using vfs_okD(5) [OF assms(1) new] by simp
  then show ?thesis using new assms(4) find_distinct_append by (auto simp: find_entry_def)
qed

lemma extends_walk:
  assumes "vfs_ok s'" and "extends s s'"
  shows "walk s a cs = Some b \<Longrightarrow> walk s' a cs = Some b"
proof (induction cs arbitrary: a)
  case (Cons c cs)
  then obtain d e where d: "inodes s a = Some d" "i_type d = VFS_TYPE_DIR" "find_entry d c = Some e"
    "walk s (de_inode e) cs = Some b" by (auto split: option.splits if_splits)
  then show ?case using extends_find [OF assms d(1,3)] Cons.IH [OF d(4)] by auto
qed simp

lemma extends_no_links:
  assumes "vfs_ok s" and "vfs_ok s'" and "extends s s'"
  shows "walk s a cs = Some b \<Longrightarrow> no_links s a cs \<Longrightarrow> no_links s' a cs"
proof (induction cs arbitrary: a)
  case (Cons c cs)
  then obtain d e where d: "inodes s a = Some d" "i_type d = VFS_TYPE_DIR" "find_entry d c = Some e"
    "walk s (de_inode e) cs = Some b" by (auto split: option.splits if_splits)
  obtain n where n: "inodes s (de_inode e) = Some n"
    using vfs_okD(4) [OF assms(1) d(1)] find_entry_mem [OF d(3)] by blast
  obtain new where "inodes s' (de_inode e) = Some (n\<lparr>i_children := new\<rparr>)"
    using extends_inode [OF assms(3) n] by blast
  moreover have "i_type n \<noteq> VFS_TYPE_SYMLINK" "no_links s (de_inode e) cs" using Cons.prems(2) d n by auto
  ultimately show ?case using extends_find [OF assms(2,3) d(1,3)] Cons.IH [OF d(4)] by auto
qed simp

lemma inode_new_ok:
  assumes ok: "vfs_ok s" and budget: "heap_budget (0x11018 + b) s"
  obtains p s' where "vfs_inode_new t m s = Some (p, s')" and "vfs_ok s'" and "heap_budget b s'"
    and "extends s s'" and "p = 0 \<Longrightarrow> inodes s' = inodes s"
    and "p \<noteq> 0 \<Longrightarrow> inodes s p = None \<and> inodes s' = (inodes s)(p \<mapsto> \<lparr>i_type = t, i_mode = m, i_size = 0,
      i_data = None, i_target = None, i_children = []\<rparr>)"
    and "\<And>q. kmalloc_live s q \<Longrightarrow> kmalloc_live s' q" and "p \<noteq> 0 \<Longrightarrow> \<not> kmalloc_live s p"
proof -
  have inv: "heap_inv s" using ok by (simp add: vfs_ok_def)
  have bud: "heap_budget (unat sizeof_inode + 0x11000 + b) s" using budget by (simp add: heap_budget_def)
  obtain p s1 where k: "kmalloc sizeof_inode s = Some (p, s1)" "heap_inv s1" "heap_budget b s1"
    "kheap.more s1 = kheap.more s" "p \<noteq> 0 \<Longrightarrow> \<not> kmalloc_live s p"
    "\<And>q. kmalloc_live s1 q \<longleftrightarrow> (p \<noteq> 0 \<and> q = p) \<or> kmalloc_live s q"
    by (rule kmalloc_step [OF inv _ bud]) simp_all
  note f = vfs_fields [OF k(4)]
  have ok1: "vfs_ok s1" using vfs_ok_heap [OF ok k(2,4)] k(6) by blast
  have ex1: "extends s s1" by (rule extends_heap [OF k(4)])
  show thesis
  proof (cases "p = 0")
    case True
    then show thesis using that [of 0 s1] k ok1 ex1 f by (simp add: vfs_inode_new_def)
  next
    case False
    let ?i = "\<lparr>i_type = t, i_mode = m, i_size = 0, i_data = None, i_target = None, i_children = []\<rparr>"
    have fresh: "inodes s p = None"
    proof (cases "inodes s p")
      case (Some i)
      then show ?thesis using vfs_okD(2) [OF ok Some] k(5) [OF False] by simp
    qed
    have nr: "p \<noteq> root_inode s1" using vfs_ok_root [OF ok] fresh f by auto
    have io: "inode_ok (iput p ?i s1) ?i" by (simp add: inode_ok_def)
    have "vfs_ok (iput p ?i s1)"
      unfolding vfs_ok_def
    proof (intro conjI allI impI)
      fix a j assume a: "inodes (iput p ?i s1) a = Some j"
      show "a \<noteq> 0" using a False vfs_okD(1) [OF ok1] by (auto simp: iput_def split: if_splits)
      show "kmalloc_live (iput p ?i s1) a"
        using a False vfs_okD(2) [OF ok1] k(6) by (auto simp: iput_def split: if_splits)
      show "inode_ok (iput p ?i s1) j"
      proof (cases "a = p")
        case True
        then show ?thesis using a io by (simp add: iput_def)
      next
        case other: False
        then have "inode_ok s1 j" using a vfs_okD(3) [OF ok1] by (simp add: iput_def)
        then show ?thesis by (rule inode_ok_mono) (simp add: iput_def)
      qed
    qed (use ok1 nr k in \<open>auto simp: vfs_ok_def iput_def\<close>)
    moreover have "extends s (iput p ?i s1)"
      using ex1 fresh f unfolding extends_def by (auto simp: iput_def)
    ultimately show thesis
      using that [of p "iput p ?i s1"] False k f fresh by (simp add: vfs_inode_new_def iput_def)
  qed
qed

lemma strdup_ok:
  assumes ok: "vfs_ok s" and str: "0 \<notin> set str" "length str < 0x10000" and budget: "heap_budget (length str + 0x11001 + b) s"
  obtains c s' where "vfs_strdup str s = Some (c, s')" and "vfs_ok s'" and "heap_budget b s'"
    and "extends s s'" and "inodes s' = inodes s" and "c = None \<or> (\<exists>p. c = Some (p, str) \<and> p \<noteq> 0 \<and> kmalloc_live s' p \<and> \<not> kmalloc_live s p)"
    and "kheap.more s' = kheap.more s" and "\<And>q. kmalloc_live s q \<Longrightarrow> kmalloc_live s' q"
proof -
  have inv: "heap_inv s" using ok by (simp add: vfs_ok_def)
  have n: "unat (of_nat (length str) + 1 :: u64) = length str + 1"
  proof -
    have "unat (of_nat (Suc (length str)) :: u64) = Suc (length str)"
      using str(2) by (intro unat_of_nat_small) simp
    then show ?thesis by (simp add: add.commute)
  qed
  then have nz: "(of_nat (length str) + 1 :: u64) \<noteq> 0" by (metis Suc_eq_plus1 nat.distinct(1) unat_0)
  have bud: "heap_budget (unat (of_nat (length str) + 1 :: u64) + 0x11000 + b) s" using budget n by (simp add: heap_budget_def)
  obtain p s1 where k: "kmalloc (of_nat (length str) + 1) s = Some (p, s1)" "heap_inv s1" "heap_budget b s1"
    "kheap.more s1 = kheap.more s" "p \<noteq> 0 \<Longrightarrow> \<not> kmalloc_live s p"
    "\<And>q. kmalloc_live s1 q \<longleftrightarrow> (p \<noteq> 0 \<and> q = p) \<or> kmalloc_live s q"
    by (rule kmalloc_step [OF inv nz bud]) blast
  have "vfs_strdup str s = Some (if p = 0 then None else Some (p, str), s1)"
    using k(1) str(1) by (simp add: vfs_strdup_def)
  then show thesis
    using that [of _ s1] vfs_ok_heap [OF ok k(2,4)] extends_heap [OF k(4)] vfs_fields [OF k(4)] k(3,4,5,6) by auto
qed

lemma free_ok:
  assumes ok: "vfs_ok s" and live: "kmalloc_live s p" and no: "inodes s p = None"
  obtains s' where "kfree p s = Some s'" and "vfs_ok s'" and "heap_current s' = heap_current s"
    and "kheap.more s' = kheap.more s" and "extends s s'" and "inodes s' = inodes s"
    and "\<And>q. kmalloc_live s' q \<longleftrightarrow> q \<noteq> p \<and> kmalloc_live s q"
proof -
  have inv: "heap_inv s" using ok by (simp add: vfs_ok_def)
  obtain s' where k: "kfree p s = Some s'" "heap_inv s'" "heap_current s' = heap_current s"
    "kheap.more s' = kheap.more s" "\<And>q. kmalloc_live s' q \<longleftrightarrow> q \<noteq> p \<and> kmalloc_live s q"
    using kfree_step [OF inv live] by blast
  note f = vfs_fields [OF k(4)]
  have "vfs_ok s'"
    using ok k(2) no unfolding vfs_ok_def f k(5) inode_ok_def by fastforce
  then show thesis using that [OF k(1)] k extends_heap [OF k(4)] f by blast
qed

lemma budget_current: "heap_current s' = heap_current s \<Longrightarrow> heap_budget b s' = heap_budget b s"
  by (simp add: heap_budget_def)

lemma add_entry_ok:
  assumes ok: "vfs_ok s" and d: "inodes s dir = Some d" and nm: "name_ok nm" and ino: "inodes s ino \<noteq> None"
    and new: "find_entry d nm = None"
  defines "s' \<equiv> iput dir (d\<lparr>i_children := \<lparr>de_name = nm, de_inode = ino\<rparr> # i_children d\<rparr>) s"
  shows "vfs_ok s'" and "extends s s'"
proof -
  let ?d = "d\<lparr>i_children := \<lparr>de_name = nm, de_inode = ino\<rparr> # i_children d\<rparr>"
  have dok: "inode_ok s d" by (rule vfs_okD(3) [OF ok d])
  have "nm \<notin> set (map de_name (i_children d))"
    using new by (auto simp: find_entry_def find_None_iff)
  then have "inode_ok s ?d" using dok nm ino by (auto simp: inode_ok_def split: option.splits)
  then have dok': "inode_ok s' ?d" by (rule inode_ok_mono) (simp add: s'_def iput_def)
  show "extends s s'"
    unfolding extends_def using d by (auto simp: s'_def iput_def intro: exI [of _ "[]"]
      exI [of _ "[\<lparr>de_name = nm, de_inode = ino\<rparr>]"])
  show "vfs_ok s'"
    unfolding vfs_ok_def
  proof (intro conjI allI impI)
    show "heap_inv s'" using ok by (simp add: vfs_ok_def s'_def iput_def)
    fix a i assume a: "inodes s' a = Some i"
    show "a \<noteq> 0" using a vfs_okD(1) [OF ok] d by (auto simp: s'_def iput_def split: if_splits)
    show "kmalloc_live s' a" using a vfs_okD(2) [OF ok] d by (auto simp: s'_def iput_def split: if_splits)
    show "inode_ok s' i"
    proof (cases "a = dir")
      case True
      then show ?thesis using a dok' by (simp add: s'_def iput_def)
    next
      case False
      then have "inode_ok s i" using a vfs_okD(3) [OF ok] by (simp add: s'_def iput_def)
      then show ?thesis by (rule inode_ok_mono) (simp add: s'_def iput_def)
    qed
  next
    show "\<exists>r. inodes s' (root_inode s') = Some r \<and> i_type r = VFS_TYPE_DIR"
      using ok d by (auto simp: vfs_ok_def s'_def iput_def)
  qed
qed

lemma dir_add_ok:
  assumes ok: "vfs_ok s" and d: "inodes s dir = Some d" and nm: "name_ok nm" and ino: "inodes s ino \<noteq> None" "ino \<noteq> 0"
    and budget: "heap_budget (0x22200 + b) s"
  obtains r s' where "vfs_dir_add dir nm ino s = Some (r, s')" and "vfs_ok s'" and "heap_budget b s'"
    and "extends s s'" and "r = 0 \<or> r = - 1" and "r \<noteq> 0 \<Longrightarrow> inodes s' = inodes s"
    and "\<And>q. kmalloc_live s q \<Longrightarrow> kmalloc_live s' q"
    and "r = 0 \<Longrightarrow> i_type d = VFS_TYPE_DIR \<and> find_entry d nm = None \<and>
      inodes s' = (inodes s)(dir \<mapsto> d\<lparr>i_children := \<lparr>de_name = nm, de_inode = ino\<rparr> # i_children d\<rparr>)"
proof -
  have z: "0 \<notin> set nm" and len: "length nm \<le> 255" using nm by (auto simp: name_ok_def)
  have dnz: "dir \<noteq> 0" by (rule vfs_okD(1) [OF ok d])
  note find = vfs_dir_find_eq [OF ok d z]
  have weak: "heap_budget b s" by (rule heap_budget_le [OF budget]) simp
  show thesis
  proof (cases "i_type d = VFS_TYPE_DIR \<and> find_entry d nm = None")
    case False
    then have "vfs_dir_add dir nm ino s = Some (- 1, s)"
      using d z dnz ino find by (auto simp: vfs_dir_add_def)
    then show thesis by (rule that) (use ok weak extends_refl in auto)
  next
    case True
    have inv: "heap_inv s" using ok by (simp add: vfs_ok_def)
    have bud: "heap_budget (unat sizeof_dentry + 0x11000 + (0x11100 + b)) s"
      by (rule heap_budget_le [OF budget]) simp
    obtain p s1 where k: "kmalloc sizeof_dentry s = Some (p, s1)" "heap_inv s1" "heap_budget (0x11100 + b) s1"
      "kheap.more s1 = kheap.more s" "p \<noteq> 0 \<Longrightarrow> \<not> kmalloc_live s p"
      "\<And>q. kmalloc_live s1 q \<longleftrightarrow> (p \<noteq> 0 \<and> q = p) \<or> kmalloc_live s q"
      by (rule kmalloc_step [OF inv _ bud]) simp_all
    note f1 = vfs_fields [OF k(4)]
    have ok1: "vfs_ok s1" using vfs_ok_heap [OF ok k(2,4)] k(6) by blast
    have ex1: "extends s s1" by (rule extends_heap [OF k(4)])
    show thesis
    proof (cases "p = 0")
      case True
      then have "vfs_dir_add dir nm ino s = Some (- 1, s1)"
        using d z dnz ino find k(1) \<open>i_type d = VFS_TYPE_DIR \<and> find_entry d nm = None\<close>
        by (simp add: vfs_dir_add_def)
      then show thesis
        by (rule that) (use ok1 heap_budget_le [OF k(3), of b] ex1 f1 k(6) in auto)
    next
      case p: False
      have bud1: "heap_budget (length nm + 0x11001 + b) s1" by (rule heap_budget_le [OF k(3)]) (use len in simp)
      obtain c s2 where sd: "vfs_strdup nm s1 = Some (c, s2)" "vfs_ok s2" "heap_budget b s2"
        "extends s1 s2" "inodes s2 = inodes s1"
        "c = None \<or> (\<exists>q. c = Some (q, nm) \<and> q \<noteq> 0 \<and> kmalloc_live s2 q \<and> \<not> kmalloc_live s1 q)"
        "kheap.more s2 = kheap.more s1" "\<And>q. kmalloc_live s1 q \<Longrightarrow> kmalloc_live s2 q"
        by (rule strdup_ok [OF ok1 z _ bud1]) (use len in auto)
      have start: "vfs_dir_add dir nm ino s = (case c of
          None \<Rightarrow> do { s3 \<leftarrow> kfree p s2; Some (- 1, s3) }
        | Some (q, str) \<Rightarrow> Some (0, iput dir (d\<lparr>i_children := \<lparr>de_name = str, de_inode = ino\<rparr> # i_children d\<rparr>) s2))"
        using d z dnz ino find k(1) True p sd f1
        by (auto simp: vfs_dir_add_def split: option.splits)
      have d2: "inodes s2 dir = Some d" using sd(5) f1 d by simp
      have ex2: "extends s s2" by (rule extends_trans [OF ex1 sd(4)])
      have pl: "kmalloc_live s2 p" using sd(8) k(6) p by blast
      have pn: "inodes s2 p = None"
      proof (cases "inodes s p")
        case (Some i)
        then show ?thesis using vfs_okD(2) [OF ok Some] k(5) [OF p] by simp
      qed (use sd(5) f1 in simp)
      show thesis
      proof (cases c)
        case None
        obtain s3 where fr: "kfree p s2 = Some s3" "vfs_ok s3" "heap_current s3 = heap_current s2"
          "kheap.more s3 = kheap.more s2" "extends s2 s3" "inodes s3 = inodes s2"
          "\<And>q. kmalloc_live s3 q \<longleftrightarrow> q \<noteq> p \<and> kmalloc_live s2 q"
          using free_ok [OF sd(2) pl pn] by blast
        have "vfs_dir_add dir nm ino s = Some (- 1, s3)" using start None fr(1) by simp
        then show thesis
        proof (rule that)
          show "heap_budget b s3" using sd(3) budget_current [OF fr(3)] by simp
          show "extends s s3" by (rule extends_trans [OF ex2 fr(5)])
          show "kmalloc_live s q \<Longrightarrow> kmalloc_live s3 q" for q
            using fr(7) k(5,6) p sd(8) by metis
        qed (use fr sd f1 in auto)
      next
        case (Some x)
        then obtain q where q: "c = Some (q, nm)" using sd(6) by auto
        let ?s3 = "iput dir (d\<lparr>i_children := \<lparr>de_name = nm, de_inode = ino\<rparr> # i_children d\<rparr>) s2"
        have res: "vfs_dir_add dir nm ino s = Some (0, ?s3)" using start q by simp
        have i2: "inodes s2 ino \<noteq> None" using ino sd(5) f1 by simp
        note ad = add_entry_ok [OF sd(2) d2 nm i2 conjunct2 [OF True]]
        show thesis
        proof (rule that [OF res ad(1)])
          show "heap_budget b ?s3" using sd(3) by (simp add: iput_def)
          show "extends s ?s3" by (rule extends_trans [OF ex2 ad(2)])
          show "kmalloc_live s q \<Longrightarrow> kmalloc_live ?s3 q" for q using k(6) sd(8) by (simp add: iput_def)
        qed (use True sd(5) f1 in \<open>simp_all add: iput_def\<close>)
      qed
    qed
  qed
qed

section \<open>Looking up the parent\<close>

text \<open>What \<^verbatim>\<open>vfs_lookup_parent\<close> with \<open>create\<close> leaves: the path of the parent exists, and everything that
  existed before.\<close>

lemma lookup_parent_loop_ok:
  assumes "vfs_ok s" and "vfs_skip_slash cursor = cursor" and "0 \<notin> set cursor"
    and "inodes s current \<noteq> None" and "heap_budget (length cursor * 0x40000 + b) s"
  shows "\<exists>p nm s'. lookup_parent_loop True current cursor s = Some (p, nm, s') \<and> vfs_ok s' \<and> heap_budget b s' \<and>
    extends s s' \<and> (\<forall>q. kmalloc_live s q \<longrightarrow> kmalloc_live s' q) \<and>
    (p \<noteq> 0 \<longrightarrow> inodes s' p \<noteq> None \<and> (if comps cursor = [] then p = current \<and> nm = []
       else name_ok nm \<and> nm = last (comps cursor) \<and> walk s' current (butlast (comps cursor)) = Some p))"
  using assms
proof (induction "length cursor" arbitrary: cursor current s rule: less_induct)
  case less
  note ok = less.prems(1)
  have weak: "heap_budget b s" by (rule heap_budget_le [OF less.prems(5)]) simp
  show ?case
  proof (cases "cursor = []")
    case True
    then show ?thesis
      using less.prems weak extends_refl by (auto simp: lookup_parent_loop.simps comps_empty)
  next
    case False
    let ?c = "takeWhile (\<lambda>x. x \<noteq> slash) cursor" and ?r = "dropWhile (\<lambda>x. x \<noteq> slash) cursor"
    let ?k = "vfs_skip_slash ?r"
    note cs = comps_cursor [OF less.prems(2) False]
    have kk: "vfs_skip_slash ?k = ?k" by simp
    show ?thesis
    proof (cases "length ?c \<le> 255")
      case long: False
      then have "lookup_parent_loop True current cursor s = Some (0, [], s)"
        using False by (subst lookup_parent_loop.simps) (simp add: scan_component_eq)
      then show ?thesis using ok weak extends_refl by auto
    next
      case len: True
      note scan = scan_component_eq [of 0 cursor] len
      have cin: "?c \<in> set (comps cursor)" using cs by simp
      have nok: "name_ok ?c" using comps_names [OF cin less.prems(3)] len by (simp add: name_ok_def)
      then have c0: "0 \<notin> set ?c" by (simp add: name_ok_def)
      show ?thesis
      proof (cases "?k = []")
        case True
        then have "comps ?k = []" by (rule comps_empty [OF kk [THEN trans]])
        moreover have "lookup_parent_loop True current cursor s = Some (current, ?c, s)"
          using False scan True by (subst lookup_parent_loop.simps) simp
        ultimately show ?thesis
          using ok weak extends_refl cs nok less.prems(4) by auto
      next
        case more: False
        then have ne: "comps ?k \<noteq> []" using comps_cursor_empty [OF kk] by simp
        obtain cur where cur: "inodes s current = Some cur" using less.prems(4) by auto
        note find = vfs_dir_find_eq [OF ok cur c0]
        have shorter: "length ?k < length cursor"
          using scan scan_component_shrinks [of cursor 0 ?c ?r] False by simp
        have k0: "0 \<notin> set ?k" using less.prems(3) unfolding vfs_skip_slash_def by (meson set_dropWhileD)
        have bk: "heap_budget (length ?k * 0x40000 + b + 0x40000) s"
        proof (rule heap_budget_le [OF less.prems(5)])
          have "(length ?k + 1) * 0x40000 \<le> length cursor * 0x40000" using shorter by (intro mult_right_mono) auto
          then show "length ?k * 0x40000 + b + 0x40000 \<le> length cursor * 0x40000 + b" by simp
        qed
        show ?thesis
        proof (cases "i_type cur = VFS_TYPE_DIR")
          case nodir: False
          then have "lookup_parent_loop True current cursor s = Some (0, [], s)"
            using False scan more cur by (subst lookup_parent_loop.simps) simp
          then show ?thesis using ok weak extends_refl by auto
        next
          case dir: True
          show ?thesis
          proof (cases "find_entry cur ?c")
            case (Some e)
            have e: "inodes s (de_inode e) \<noteq> None"
              using vfs_okD(4) [OF ok cur] find_entry_mem [OF Some] by blast
            have step: "lookup_parent_loop True current cursor s = lookup_parent_loop True (de_inode e) ?k s"
              using False scan more cur dir find Some by (subst lookup_parent_loop.simps) simp
            obtain p nm s' where run: "lookup_parent_loop True (de_inode e) ?k s = Some (p, nm, s')" "vfs_ok s'"
              "heap_budget b s'" "extends s s'" "\<forall>q. kmalloc_live s q \<longrightarrow> kmalloc_live s' q"
              "p \<noteq> 0 \<longrightarrow> inodes s' p \<noteq> None \<and> name_ok nm \<and> nm = last (comps ?k) \<and>
                 walk s' (de_inode e) (butlast (comps ?k)) = Some p"
              using less.hyps [OF shorter ok kk k0 e heap_budget_le [OF bk]] ne by auto
            have "p \<noteq> 0 \<longrightarrow> walk s' current (butlast (comps cursor)) = Some p"
              using run(6) extends_find [OF run(2,4) cur Some] dir ne cs by auto
            then show ?thesis using step run ne cs by auto
          next
            case None
            have b1: "heap_budget (0x11018 + (0x22200 + (length ?k * 0x40000 + b))) s"
              by (rule heap_budget_le [OF bk]) simp
            obtain nx s1 where n1: "vfs_inode_new VFS_TYPE_DIR (S_IFDIR OR 0x1ED) s = Some (nx, s1)" "vfs_ok s1"
              "heap_budget (0x22200 + (length ?k * 0x40000 + b)) s1" "extends s s1"
              "nx = 0 \<Longrightarrow> inodes s1 = inodes s"
              "nx \<noteq> 0 \<Longrightarrow> inodes s nx = None \<and> inodes s1 = (inodes s)(nx \<mapsto> \<lparr>i_type = VFS_TYPE_DIR, i_mode = S_IFDIR OR 0x1ED,
                i_size = 0, i_data = None, i_target = None, i_children = []\<rparr>)"
              "\<And>q. kmalloc_live s q \<Longrightarrow> kmalloc_live s1 q"
              by (rule inode_new_ok [OF ok b1]) blast
            have w1: "heap_budget b s1" by (rule heap_budget_le [OF n1(3)]) simp
            show ?thesis
            proof (cases "nx = 0")
              case True
              then have "lookup_parent_loop True current cursor s = Some (0, [], s1)"
                using False scan more cur dir find None n1(1) by (subst lookup_parent_loop.simps) simp
              then show ?thesis using n1 w1 by auto
            next
              case nx: False
              have cur1: "inodes s1 current = Some cur" using n1(6) [OF nx] cur by auto
              obtain r s2 where a: "vfs_dir_add current ?c nx s1 = Some (r, s2)" "vfs_ok s2"
                "heap_budget (length ?k * 0x40000 + b) s2" "extends s1 s2" "r = 0 \<or> r = - 1"
                "r \<noteq> 0 \<Longrightarrow> inodes s2 = inodes s1" "\<And>q. kmalloc_live s1 q \<Longrightarrow> kmalloc_live s2 q"
                "r = 0 \<Longrightarrow> i_type cur = VFS_TYPE_DIR \<and> find_entry cur ?c = None \<and> inodes s2 =
                  (inodes s1)(current \<mapsto> cur\<lparr>i_children := \<lparr>de_name = ?c, de_inode = nx\<rparr> # i_children cur\<rparr>)"
                by (rule dir_add_ok [OF n1(2) cur1 nok _ nx n1(3)]) (use n1(6) [OF nx] in auto)
              note ex2 = extends_trans [OF n1(4) a(4)]
              have w2: "heap_budget b s2" by (rule heap_budget_le [OF a(3)]) simp
              have step: "lookup_parent_loop True current cursor s =
                  (if r \<noteq> 0 then Some (0, [], s2) else lookup_parent_loop True nx ?k s2)"
                using False scan more cur dir find None n1(1) nx a(1) by (subst lookup_parent_loop.simps) simp
              show ?thesis
              proof (cases "r = 0")
                case rf: False
                then show ?thesis using step a w2 ex2 n1(7) by auto
              next
                case r0: True
                have ncur: "nx \<noteq> current" using n1(6) [OF nx] cur by auto
                have nx2: "inodes s2 nx \<noteq> None" using a(8) [OF r0] n1(6) [OF nx] ncur by simp
                obtain p nm s' where run: "lookup_parent_loop True nx ?k s2 = Some (p, nm, s')" "vfs_ok s'"
                  "heap_budget b s'" "extends s2 s'" "\<forall>q. kmalloc_live s2 q \<longrightarrow> kmalloc_live s' q"
                  "p \<noteq> 0 \<longrightarrow> inodes s' p \<noteq> None \<and> name_ok nm \<and> nm = last (comps ?k) \<and>
                     walk s' nx (butlast (comps ?k)) = Some p"
                  using less.hyps [OF shorter a(2) kk k0 nx2 a(3)] ne by auto
                let ?cur2 = "cur\<lparr>i_children := \<lparr>de_name = ?c, de_inode = nx\<rparr> # i_children cur\<rparr>"
                have c2: "inodes s2 current = Some ?cur2" using a(8) [OF r0] by simp
                have f2: "find_entry ?cur2 ?c = Some \<lparr>de_name = ?c, de_inode = nx\<rparr>" by (simp add: find_entry_def)
                have "p \<noteq> 0 \<longrightarrow> walk s' current (butlast (comps cursor)) = Some p"
                  using run(6) extends_find [OF run(2,4) c2 f2] dir ne cs by auto
                then show ?thesis
                  using step r0 run ne cs extends_trans [OF ex2 run(4)] n1(7) a(7) by auto
              qed
            qed
          qed
        qed
      qed
    qed
  qed
qed

section \<open>Lookups of existing files\<close>

lemma walk_append: "walk s a (xs @ ys) = (case walk s a xs of None \<Rightarrow> None | Some b \<Rightarrow> walk s b ys)"
  by (induction xs arbitrary: a) (auto split: option.splits)

lemma walk_snoc:
  "walk s a cs = Some p \<Longrightarrow> inodes s p = Some d \<Longrightarrow> i_type d = VFS_TYPE_DIR \<Longrightarrow> find_entry d nm = Some e \<Longrightarrow>
     walk s a (cs @ [nm]) = Some (de_inode e)"
  by (simp add: walk_append)

lemma walk_no_links:
  "walk s a cs = Some b \<Longrightarrow> inodes s b = Some i \<Longrightarrow> i_type i \<noteq> VFS_TYPE_SYMLINK \<Longrightarrow> no_links s a cs"
proof (induction cs arbitrary: a)
  case (Cons c cs)
  then obtain d e where d: "inodes s a = Some d" "i_type d = VFS_TYPE_DIR" "find_entry d c = Some e"
    "walk s (de_inode e) cs = Some b" by (auto split: option.splits if_splits)
  have "i_type j \<noteq> VFS_TYPE_SYMLINK" if "inodes s (de_inode e) = Some j" for j
    using d(4) that Cons.prems(2,3) by (cases cs) (auto split: if_splits)
  then show ?case using d Cons by auto
qed simp

definition path_ok :: "u8 list \<Rightarrow> bool" where
  "path_ok path \<longleftrightarrow> vfs_is_absolute path \<and> 0 \<notin> set path \<and> length path \<le> 511"

lemma lookup_found:
  assumes ok: "vfs_ok s" and path: "path_ok path" and w: "walk s (root_inode s) (comps path) = Some a"
    and a: "inodes s a = Some i" and f: "i_type i \<noteq> VFS_TYPE_SYMLINK \<or> \<not> follow"
  shows "vfs_lookup_path path follow s = Some a"
proof -
  obtain r where r: "inodes s (root_inode s) = Some r" "i_type r = VFS_TYPE_DIR" "root_inode s \<noteq> 0"
    using vfs_ok_root [OF ok] by blast
  have z: "0 \<notin> set (vfs_skip_slash path)"
    using path unfolding path_ok_def vfs_skip_slash_def by (meson set_dropWhileD)
  have nl: "no_links s (root_inode s) (comps (vfs_skip_slash path))" if follow
    using walk_no_links [OF w a] f that by (simp add: comps_skip)
  have "lookup_walk follow s path (root_inode s) (vfs_skip_slash path) 0 = Some a"
    using lookup_walk_plain [OF ok _ z r(1) _ nl] r w by (simp add: comps_skip)
  then show ?thesis using path r by (simp add: vfs_lookup_path_def path_ok_def)
qed

lemma lookup_missing:
  assumes ok: "vfs_ok s" and path: "path_ok path" and w: "walk s (root_inode s) (comps path) = None"
    and nl: "follow \<Longrightarrow> no_links s (root_inode s) (comps path)"
  shows "vfs_lookup_path path follow s = Some 0"
proof -
  obtain r where r: "inodes s (root_inode s) = Some r" "i_type r = VFS_TYPE_DIR" "root_inode s \<noteq> 0"
    using vfs_ok_root [OF ok] by blast
  have z: "0 \<notin> set (vfs_skip_slash path)"
    using path unfolding path_ok_def vfs_skip_slash_def by (meson set_dropWhileD)
  have "lookup_walk follow s path (root_inode s) (vfs_skip_slash path) 0 = Some 0"
    using lookup_walk_plain [OF ok _ z r(1)] r w nl by (simp add: comps_skip)
  then show ?thesis using path r by (simp add: vfs_lookup_path_def path_ok_def)
qed

section \<open>Creating files\<close>

lemma parent_ok:
  assumes ok: "vfs_ok s" and path: "0 \<notin> set path" and budget: "heap_budget (length path * 0x40000 + b) s"
  obtains p nm s' where "vfs_lookup_parent path True s = Some (p, nm, s')" and "vfs_ok s'" and "heap_budget b s'"
    and "extends s s'" and "\<And>q. kmalloc_live s q \<Longrightarrow> kmalloc_live s' q"
    and "p \<noteq> 0 \<Longrightarrow> nm \<noteq> [] \<Longrightarrow> inodes s' p \<noteq> None \<and> name_ok nm \<and>
      (\<exists>ds. comps path = ds @ [nm] \<and> walk s' (root_inode s') ds = Some p)"
proof (cases "vfs_is_absolute path")
  case False
  then have "vfs_lookup_parent path True s = Some (0, [], s)" by (simp add: vfs_lookup_parent_def)
  then show thesis
    by (rule that) (use ok heap_budget_le [OF budget, of b] extends_refl in auto)
next
  case True
  obtain r where r: "inodes s (root_inode s) = Some r" "root_inode s \<noteq> 0" using vfs_ok_root [OF ok] by blast
  have z: "0 \<notin> set (vfs_skip_slash path)" using path unfolding vfs_skip_slash_def by (meson set_dropWhileD)
  have "length (vfs_skip_slash path) \<le> length path" by (simp add: vfs_skip_slash_def length_dropWhile_le)
  then have b: "heap_budget (length (vfs_skip_slash path) * 0x40000 + b) s"
    by (intro heap_budget_le [OF budget]) simp
  have "inodes s (root_inode s) \<noteq> None" using r by simp
  from lookup_parent_loop_ok [OF ok skip_slash_idem z this b] obtain p nm s' where
    run: "lookup_parent_loop True (root_inode s) (vfs_skip_slash path) s = Some (p, nm, s')" "vfs_ok s'"
    "heap_budget b s'" "extends s s'" "\<forall>q. kmalloc_live s q \<longrightarrow> kmalloc_live s' q"
    "p \<noteq> 0 \<longrightarrow> inodes s' p \<noteq> None \<and> (if comps (vfs_skip_slash path) = [] then p = root_inode s \<and> nm = []
       else name_ok nm \<and> nm = last (comps (vfs_skip_slash path)) \<and>
         walk s' (root_inode s) (butlast (comps (vfs_skip_slash path))) = Some p)" by blast
  have "vfs_lookup_parent path True s = Some (p, nm, s')"
    using run(1) True r by (simp add: vfs_lookup_parent_def)
  then show thesis
  proof (rule that [OF _ run(2-4)])
    show "kmalloc_live s q \<Longrightarrow> kmalloc_live s' q" for q using run(5) by blast
    assume "p \<noteq> 0" "nm \<noteq> []"
    then have c: "inodes s' p \<noteq> None" "comps path \<noteq> []" "name_ok nm" "nm = last (comps path)"
      "walk s' (root_inode s) (butlast (comps path)) = Some p"
      using run(6) by (auto simp: comps_skip split: if_splits)
    moreover have "root_inode s' = root_inode s" using run(4) by (simp add: extends_def)
    ultimately show "inodes s' p \<noteq> None \<and> name_ok nm \<and>
        (\<exists>ds. comps path = ds @ [nm] \<and> walk s' (root_inode s') ds = Some p)"
      by (auto intro!: exI [of _ "butlast (comps path)"])
  qed
qed

text \<open>Undoing the allocation of an inode that was not linked.\<close>

lemma drop_free_ok:
  assumes ok0: "vfs_ok s0" and inv: "heap_inv s" and ino: "inodes s = (inodes s0)(a \<mapsto> i)" "inodes s0 a = None"
    and live: "kmalloc_live s a" "\<not> kmalloc_live s0 a" "\<forall>q. kmalloc_live s0 q \<longrightarrow> kmalloc_live s q"
    and root: "root_inode s = root_inode s0" "kvfs.more s = kvfs.more s0"
  obtains s' where "kfree a (idrop a s) = Some s'" and "vfs_ok s'" and "heap_current s' = heap_current s"
    and "inodes s' = inodes s0" and "extends s0 s'" and "\<And>q. kmalloc_live s0 q \<Longrightarrow> kmalloc_live s' q"
proof -
  have in0: "inodes (idrop a s) = inodes s0" using ino by (auto simp: idrop_def)
  have ok: "vfs_ok (idrop a s)"
    using ok0 inv live(3) root unfolding vfs_ok_def inode_ok_def in0 by (simp add: idrop_def)
  have la: "kmalloc_live (idrop a s) a" using live(1) by (simp add: idrop_def)
  obtain s' where k: "kfree a (idrop a s) = Some s'" "vfs_ok s'" "heap_current s' = heap_current (idrop a s)"
    "kheap.more s' = kheap.more (idrop a s)" "inodes s' = inodes (idrop a s)"
    "\<And>q. kmalloc_live s' q \<longleftrightarrow> q \<noteq> a \<and> kmalloc_live (idrop a s) q"
    using free_ok [OF ok la] in0 ino(2) by metis
  have "kmalloc_live s' q" if l: "kmalloc_live s0 q" for q
    using k(6) [of q] live(2,3) l by (auto simp: idrop_def)
  note lv = this
  have "root_inode s' = root_inode s0" "kvfs.more s' = kvfs.more s0"
    using vfs_fields [OF k(4)] root by (simp_all add: idrop_def)
  then have "extends s0 s'"
    using k(5) in0 unfolding extends_def by (auto intro!: exI [of _ "[]"])
  then show thesis using that [OF k(1,2)] k(3,5) in0 lv by (simp add: idrop_def)
qed

text \<open>With a large enough free block the allocations of an operation succeed.\<close>

lemma inode_new_spare:
  "vfs_inode_new t m s = Some (p, s') \<Longrightarrow> heap_spare (88 + k) s \<Longrightarrow> p \<noteq> 0 \<and> heap_spare k s'"
  using kmalloc_spare [of sizeof_inode k s]
  by (auto simp: vfs_inode_new_def iput_def split: Option.bind_splits if_splits)

lemma strdup_spare:
  assumes run: "vfs_strdup str s = Some (c, s')" and str: "0 \<notin> set str" "length str < 0x10000"
    and spare: "heap_spare (length str + 65 + k) s"
  shows "c \<noteq> None \<and> heap_spare k s'"
proof -
  have "unat (of_nat (Suc (length str)) :: u64) = Suc (length str)" using str(2) by (intro unat_of_nat_small) simp
  then have n: "unat (of_nat (length str) + 1 :: u64) = length str + 1" by (simp add: add.commute)
  then have nz: "(of_nat (length str) + 1 :: u64) \<noteq> 0" by (metis Suc_eq_plus1 nat.distinct(1) unat_0)
  obtain p where p: "kmalloc (of_nat (length str) + 1) s = Some (p, s')" "c = (if p = 0 then None else Some (p, str))"
    using run str(1) by (auto simp: vfs_strdup_def split: Option.bind_splits if_splits)
  have sp: "heap_spare (unat (of_nat (length str) + 1 :: u64) + 64 + k) s"
    by (rule heap_spare_le [OF spare]) (use n in simp)
  have "unat (of_nat (length str) + 1 :: u64) \<le> 0x50000000" using n str(2) by simp
  from kmalloc_spare [OF sp nz this p(1)] show ?thesis using p(2) by simp
qed

lemma dir_add_spare:
  assumes ok: "vfs_ok s" and d: "inodes s dir = Some d" "i_type d = VFS_TYPE_DIR" "find_entry d nm = None"
    and nm: "name_ok nm" and ino: "ino \<noteq> 0" and spare: "heap_spare (408 + k) s"
    and run: "vfs_dir_add dir nm ino s = Some (r, s')"
  shows "r = 0 \<and> heap_spare k s'"
proof -
  have z: "0 \<notin> set nm" and len: "length nm \<le> 255" using nm by (auto simp: name_ok_def)
  have dnz: "dir \<noteq> 0" by (rule vfs_okD(1) [OF ok d(1)])
  obtain p s1 where k1: "kmalloc sizeof_dentry s = Some (p, s1)"
    using run d dnz ino z vfs_dir_find_eq [OF ok d(1) z] by (auto simp: vfs_dir_add_def split: Option.bind_splits)
  have "heap_spare (unat sizeof_dentry + 64 + (320 + k)) s" using spare by simp
  from kmalloc_spare [OF this _ _ k1] have p: "p \<noteq> 0" "heap_spare (320 + k) s1" by simp_all
  obtain c s2 where c: "vfs_strdup nm s1 = Some (c, s2)"
    using run d dnz ino z vfs_dir_find_eq [OF ok d(1) z] k1 p
    by (auto simp: vfs_dir_add_def split: Option.bind_splits)
  have "heap_spare (length nm + 65 + k) s1" by (rule heap_spare_le [OF p(2)]) (use len in simp)
  then have "c \<noteq> None" "heap_spare k s2" using strdup_spare [OF c z] len by simp_all
  then show ?thesis
    using run d dnz ino z vfs_dir_find_eq [OF ok d(1) z] k1 p c
    by (auto simp: vfs_dir_add_def iput_def split: Option.bind_splits option.splits)
qed

lemma iput_content_ok:
  assumes ok: "vfs_ok s" and a: "inodes s a = Some i" and i': "inode_ok s i'" "i_type i' = i_type i"
  shows "vfs_ok (iput a i' s)"
  unfolding vfs_ok_def
proof (intro conjI allI impI)
  show "heap_inv (iput a i' s)" using ok by (simp add: vfs_ok_def iput_def)
  show "\<exists>r. inodes (iput a i' s) (root_inode (iput a i' s)) = Some r \<and> i_type r = VFS_TYPE_DIR"
    using vfs_ok_root [OF ok] a i'(2) by (auto simp: iput_def)
  fix b j assume b: "inodes (iput a i' s) b = Some j"
  show "b \<noteq> 0" "kmalloc_live (iput a i' s) b"
    using b a vfs_okD(1,2) [OF ok] by (auto simp: iput_def split: if_splits)
  have "inode_ok s j" using b i'(1) vfs_okD(3) [OF ok] by (auto simp: iput_def split: if_splits)
  then show "inode_ok (iput a i' s) j" by (rule inode_ok_mono) (simp add: iput_def)
qed

text \<open>The tail of \<^verbatim>\<open>vfs_create\<close> and \<^verbatim>\<open>vfs_symlink\<close>: the inode at \<open>a\<close>, created since \<open>s1\<close>, is linked
  into its directory, or it and its buffer \<open>c\<close> are freed again.\<close>

lemma link_node_ok:
  assumes ok1: "vfs_ok s1" and d: "inodes s1 p = Some d" and nm: "name_ok nm" and a: "inodes s1 a = None" "a \<noteq> 0"
    and s3: "vfs_ok s3" "inodes s3 = (inodes s1)(a \<mapsto> i0)" "root_inode s3 = root_inode s1" "kvfs.more s3 = kvfs.more s1"
    and i: "inode_ok s3 i" "i_type i = i_type i0"
    and c: "c \<noteq> 0 \<longrightarrow> kmalloc_live s3 c \<and> \<not> kmalloc_live s1 c \<and> c \<noteq> a"
    and live: "kmalloc_live s3 a" "\<not> kmalloc_live s1 a" "\<forall>q. kmalloc_live s1 q \<longrightarrow> kmalloc_live s3 q"
    and budget: "heap_budget (0x22200 + b) s3"
  obtains r s' where
    "do { (r, s4) \<leftarrow> vfs_dir_add p nm a (iput a i s3);
          if r \<noteq> 0 then do { s5 \<leftarrow> kfree c s4; s6 \<leftarrow> kfree a (idrop a s5); Some (- 1 :: int, s6) }
          else Some (0, s4) } = Some (r, s')"
    and "vfs_ok s'" and "heap_budget b s'" and "extends s1 s'" and "r = 0 \<or> r = - 1"
    and "r = 0 \<Longrightarrow> i_type d = VFS_TYPE_DIR \<and> find_entry d nm = None \<and> inodes s' = (inodes s1)(a \<mapsto> i,
      p \<mapsto> d\<lparr>i_children := \<lparr>de_name = nm, de_inode = a\<rparr> # i_children d\<rparr>)"
    and "\<And>q. kmalloc_live s1 q \<Longrightarrow> kmalloc_live s' q"
    and "i_type d = VFS_TYPE_DIR \<Longrightarrow> find_entry d nm = None \<Longrightarrow> heap_spare 408 s3 \<Longrightarrow> r = 0"
proof -
  let ?s = "iput a i s3"
  have i0: "inodes s3 a = Some i0" using s3(2) by simp
  have ok: "vfs_ok ?s" by (rule iput_content_ok [OF s3(1) i0 i])
  have pa: "p \<noteq> a" using d a by auto
  have dp: "inodes ?s p = Some d" and ap: "inodes ?s a \<noteq> None" using s3(2) d pa by (simp_all add: iput_def)
  have bs: "heap_budget (0x22200 + b) ?s" using budget by (simp add: iput_def)
  have ins: "inodes ?s = (inodes s1)(a \<mapsto> i)" using s3(2) by (simp add: iput_def)
  have ex: "extends s1 ?s"
    using s3 a(1) unfolding extends_def by (auto simp: iput_def intro!: exI [of _ "[]"])
  have ls: "kmalloc_live ?s q = kmalloc_live s3 q" for q by (simp add: iput_def)
  obtain r s4 where da: "vfs_dir_add p nm a ?s = Some (r, s4)" "vfs_ok s4" "heap_budget b s4" "extends ?s s4"
    "r = 0 \<or> r = - 1" "r \<noteq> 0 \<Longrightarrow> inodes s4 = inodes ?s" "\<And>q. kmalloc_live ?s q \<Longrightarrow> kmalloc_live s4 q"
    "r = 0 \<Longrightarrow> i_type d = VFS_TYPE_DIR \<and> find_entry d nm = None \<and>
      inodes s4 = (inodes ?s)(p \<mapsto> d\<lparr>i_children := \<lparr>de_name = nm, de_inode = a\<rparr> # i_children d\<rparr>)"
    by (rule dir_add_ok [OF ok dp nm ap a(2) bs]) blast
  have spare: "i_type d = VFS_TYPE_DIR \<Longrightarrow> find_entry d nm = None \<Longrightarrow> heap_spare 408 s3 \<Longrightarrow> r = 0"
    using dir_add_spare [OF ok dp _ _ nm a(2) _ da(1), of 0] by (simp add: iput_def)
  have l14: "kmalloc_live s1 q \<Longrightarrow> kmalloc_live s4 q" for q using da(7) live(3) ls by blast
  show thesis
  proof (cases "r = 0")
    case True
    show thesis
      by (rule that [of 0 s4]) (use da True ins l14 extends_trans [OF ex da(4)] in simp_all)
  next
    case False
    have ino4: "inodes s4 = (inodes s1)(a \<mapsto> i)" using da(6) [OF False] ins by simp
    obtain s5 where f5: "kfree c s4 = Some s5" "heap_inv s5" "heap_current s5 = heap_current s4"
      "kheap.more s5 = kheap.more s4" "\<And>q. kmalloc_live s4 q \<Longrightarrow> c = 0 \<or> q \<noteq> c \<Longrightarrow> kmalloc_live s5 q"
    proof (cases "c = 0")
      case True
      then show thesis using that [of s4] da(2) by (simp add: kfree_def vfs_ok_def)
    next
      case nz: False
      have lc: "kmalloc_live s4 c" using c nz da(7) ls by blast
      have "inodes s4 c = None"
      proof (cases "inodes s1 c")
        case (Some j)
        then show ?thesis using vfs_okD(2) [OF ok1 Some] c nz by simp
      qed (use ino4 c nz in simp)
      then obtain s5 where "kfree c s4 = Some s5" "vfs_ok s5" "heap_current s5 = heap_current s4"
        "kheap.more s5 = kheap.more s4" "\<And>q. kmalloc_live s5 q \<longleftrightarrow> q \<noteq> c \<and> kmalloc_live s4 q"
        using free_ok [OF da(2) lc] by metis
      then show thesis using that nz unfolding vfs_ok_def by blast
    qed
    note v5 = vfs_fields [OF f5(4)]
    have more4: "root_inode s4 = root_inode s1" "kvfs.more s4 = kvfs.more s1"
      using extends_trans [OF ex da(4)] by (simp_all add: extends_def)
    have ca: "c \<noteq> a" using c a(2) by blast
    have la: "kmalloc_live s5 a" using f5(5) da(7) ls live(1) ca by blast
    have l15: "\<forall>q. kmalloc_live s1 q \<longrightarrow> kmalloc_live s5 q" using f5(5) [OF l14] c by metis
    obtain s6 where f6: "kfree a (idrop a s5) = Some s6" "vfs_ok s6" "heap_current s6 = heap_current s5"
      "inodes s6 = inodes s1" "extends s1 s6" "\<And>q. kmalloc_live s1 q \<Longrightarrow> kmalloc_live s6 q"
      by (rule drop_free_ok [OF ok1 f5(2) _ a(1) la live(2) l15])
        (use v5 ino4 more4 in simp_all)
    have "do { (r, s4) \<leftarrow> vfs_dir_add p nm a ?s;
          if r \<noteq> 0 then do { s5 \<leftarrow> kfree c s4; s6 \<leftarrow> kfree a (idrop a s5); Some (- 1 :: int, s6) }
          else Some (0, s4) } = Some (- 1, s6)" using da(1) False f5(1) f6(1) by simp
    then show thesis
    proof (rule that [OF _ f6(2) _ f6(5)])
      show "heap_budget b s6" using da(3) budget_current f5(3) f6(3) by metis
    qed (use False spare f6 in simp_all)
  qed
qed

text \<open>The buffer for the contents of a file; none is allocated for an empty one.\<close>

lemma buffer_ok:
  assumes ok: "vfs_ok s" and budget: "heap_budget (unat sz + 0x11000 + b) s"
  obtains c s' where "(if sz > 0 then kmalloc sz s else Some (0, s)) = Some (c, s')" and "vfs_ok s'"
    and "heap_budget b s'" and "kheap.more s' = kheap.more s" and "c \<noteq> 0 \<Longrightarrow> kmalloc_live s' c \<and> \<not> kmalloc_live s c"
    and "\<And>q. kmalloc_live s q \<Longrightarrow> kmalloc_live s' q"
    and "\<And>k. heap_spare (unat sz + 64 + k) s \<Longrightarrow> (sz > 0 \<longrightarrow> c \<noteq> 0) \<and> heap_spare k s'"
proof (cases "sz = 0")
  case True
  show thesis
    by (rule that [of 0 s]) (use True ok heap_budget_le [OF budget, of b] in \<open>auto elim: heap_spare_le\<close>)
next
  case False
  have inv: "heap_inv s" using ok by (simp add: vfs_ok_def)
  obtain p s1 where k: "kmalloc sz s = Some (p, s1)" "heap_inv s1" "heap_budget b s1"
    "kheap.more s1 = kheap.more s" "p \<noteq> 0 \<Longrightarrow> \<not> kmalloc_live s p"
    "\<And>q. kmalloc_live s1 q \<longleftrightarrow> (p \<noteq> 0 \<and> q = p) \<or> kmalloc_live s q"
    by (rule kmalloc_step [OF inv False budget]) blast
  have small: "unat sz \<le> 0x50000000" using budget by (simp add: heap_budget_def)
  show thesis
    by (rule that [of p s1])
      (use False k vfs_ok_heap [OF ok k(2,4)] kmalloc_spare [OF _ False small k(1)] in \<open>simp_all add: word_gt_0\<close>)
qed

definition kept :: "nat \<Rightarrow> 'a kvfs_scheme \<Rightarrow> 'a kvfs_scheme \<Rightarrow> bool" where
  "kept b s s' \<longleftrightarrow> vfs_ok s' \<and> heap_budget b s' \<and> extends s s' \<and> (\<forall>q. kmalloc_live s q \<longrightarrow> kmalloc_live s' q)"

text \<open>The place of a new node: the parent \<open>p\<close>, found or created, has no entry of that name yet.\<close>

definition new_place :: "u8 list \<Rightarrow> 'a kvfs_scheme \<Rightarrow> u64 \<Rightarrow> u8 list \<Rightarrow> vfs_inode \<Rightarrow> bool" where
  "new_place path s p nm d \<longleftrightarrow> inodes s p = Some d \<and> name_ok nm \<and>
     \<not> (i_type d = VFS_TYPE_DIR \<and> find_entry d nm \<noteq> None) \<and>
     (\<exists>ds. comps path = ds @ [nm] \<and> walk s (root_inode s) ds = Some p)"

definition blank_inode :: "vfs_type \<Rightarrow> u32 \<Rightarrow> vfs_inode" where
  "blank_inode t m = \<lparr>i_type = t, i_mode = m, i_size = 0, i_data = None, i_target = None, i_children = []\<rparr>"

text \<open>The common start of \<^verbatim>\<open>vfs_mkdir\<close>, \<^verbatim>\<open>vfs_create\<close> and \<^verbatim>\<open>vfs_symlink\<close>.\<close>

lemma node_cases:
  fixes t :: vfs_type and m :: u32
  assumes ok: "vfs_ok s" and path: "0 \<notin> set path"
    and budget: "heap_budget (length path * 0x40000 + (0x11018 + b)) s"
  obtains (refused) p nm s1 where "vfs_lookup_parent path True s = Some (p, nm, s1)" and "kept b s s1"
      and "p = 0 \<or> nm = [] \<or> p \<noteq> 0 \<and> nm \<noteq> [] \<and> strlen (nm @ [0]) = Some (length nm) \<and>
        (\<exists>e. vfs_dir_find p nm (length nm) s1 = Some (Some e) \<and> walk s1 (root_inode s1) (comps path) = Some (de_inode e))"
    | (full) p nm s1 s2 where "vfs_lookup_parent path True s = Some (p, nm, s1)" and "p \<noteq> 0" and "nm \<noteq> []"
      and "strlen (nm @ [0]) = Some (length nm)" and "vfs_dir_find p nm (length nm) s1 = Some None"
      and "vfs_inode_new t m s1 = Some (0, s2)" and "kept b s s2"
    | (new) p nm s1 s2 d a where "vfs_lookup_parent path True s = Some (p, nm, s1)" and "p \<noteq> 0" and "nm \<noteq> []"
      and "strlen (nm @ [0]) = Some (length nm)" and "vfs_dir_find p nm (length nm) s1 = Some None"
      and "vfs_inode_new t m s1 = Some (a, s2)" and "a \<noteq> 0" and "vfs_ok s1" and "extends s s1" and "kept b s s2"
      and "extends s1 s2" and "new_place path s1 p nm d" and "inodes s1 a = None"
      and "inodes s2 = (inodes s1)(a \<mapsto> blank_inode t m)"
      and "\<not> kmalloc_live s1 a" and "\<forall>q. kmalloc_live s1 q \<longrightarrow> kmalloc_live s2 q"
      and "\<forall>q. kmalloc_live s q \<longrightarrow> kmalloc_live s1 q"
proof -
  obtain p nm s1 where pa: "vfs_lookup_parent path True s = Some (p, nm, s1)" "vfs_ok s1"
    "heap_budget (0x11018 + b) s1" "extends s s1" "\<And>q. kmalloc_live s q \<Longrightarrow> kmalloc_live s1 q"
    "p \<noteq> 0 \<Longrightarrow> nm \<noteq> [] \<Longrightarrow> inodes s1 p \<noteq> None \<and> name_ok nm \<and>
      (\<exists>ds. comps path = ds @ [nm] \<and> walk s1 (root_inode s1) ds = Some p)"
    by (rule parent_ok [OF ok path budget]) blast
  have k1: "kept b s s1" using pa heap_budget_le [OF pa(3), of b] by (simp add: kept_def)
  show thesis
  proof (cases "p = 0 \<or> nm = []")
    case True
    then show thesis using refused [OF pa(1) k1] by blast
  next
    case False
    then obtain d where d: "inodes s1 p = Some d" and nm: "name_ok nm"
      and ds: "\<exists>ds. comps path = ds @ [nm] \<and> walk s1 (root_inode s1) ds = Some p" using pa(6) by auto
    have z: "0 \<notin> set nm" using nm by (simp add: name_ok_def)
    then have sl: "strlen (nm @ [0]) = Some (length nm)" by simp
    note find = vfs_dir_find_eq [OF pa(2) d z]
    show thesis
    proof (cases "i_type d = VFS_TYPE_DIR \<and> find_entry d nm \<noteq> None")
      case True
      then obtain e where e: "i_type d = VFS_TYPE_DIR" "find_entry d nm = Some e" by auto
      have "walk s1 (root_inode s1) (comps path) = Some (de_inode e)"
        using ds walk_snoc [OF _ d e] by auto
      then show thesis using refused [OF pa(1) k1] False find sl e by auto
    next
      case fresh: False
      have none: "vfs_dir_find p nm (length nm) s1 = Some None" using find fresh by auto
      have place: "new_place path s1 p nm d" using d nm fresh ds by (simp add: new_place_def)
      obtain a s2 where n: "vfs_inode_new t m s1 = Some (a, s2)" "vfs_ok s2" "heap_budget b s2" "extends s1 s2"
        "a \<noteq> 0 \<Longrightarrow> inodes s1 a = None \<and> inodes s2 = (inodes s1)(a \<mapsto> blank_inode t m)"
        "\<And>q. kmalloc_live s1 q \<Longrightarrow> kmalloc_live s2 q" "a \<noteq> 0 \<Longrightarrow> \<not> kmalloc_live s1 a"
        unfolding blank_inode_def by (rule inode_new_ok [OF pa(2,3)]) blast
      have k2: "kept b s s2" using n pa(5) extends_trans [OF pa(4) n(4)] by (simp add: kept_def)
      show thesis
      proof (cases "a = 0")
        case True
        then show thesis using full [OF pa(1) _ _ sl none _ k2] False n(1) by simp
      next
        case a: False
        show thesis
          by (rule new [OF pa(1) _ _ sl none n(1) a pa(2,4) k2 n(4) place]) (use False n(5-7) a pa(5) in auto)
      qed
    qed
  qed
qed

text \<open>What linking the node at \<open>a\<close> into its place means for lookups.\<close>

lemma linked:
  assumes s1: "vfs_ok s1" "extends s s1" and place: "new_place path s1 p nm d" and a: "inodes s1 a = None"
    and s': "vfs_ok s'" "extends s1 s'" and dir: "i_type d = VFS_TYPE_DIR"
    and ino: "inodes s' = (inodes s1)(a \<mapsto> i, p \<mapsto> d\<lparr>i_children := \<lparr>de_name = nm, de_inode = a\<rparr> # i_children d\<rparr>)"
  shows "walk s' (root_inode s') (comps path) = Some a" and "inodes s' a = Some i" and "inodes s a = None"
    and "walk s (root_inode s) (comps path) = None"
proof -
  let ?d = "d\<lparr>i_children := \<lparr>de_name = nm, de_inode = a\<rparr> # i_children d\<rparr>"
  obtain ds where ds: "comps path = ds @ [nm]" "walk s1 (root_inode s1) ds = Some p"
    using place by (auto simp: new_place_def)
  have d: "inodes s1 p = Some d" "find_entry d nm = None" using place dir by (simp_all add: new_place_def)
  have "p \<noteq> a" using d a by auto
  then have dd: "inodes s' p = Some ?d" "inodes s' a = Some i" using ino by simp_all
  then show "inodes s' a = Some i" by simp
  have "walk s' (root_inode s') ds = Some p"
    using extends_walk [OF s' ds(2)] s'(2) by (simp add: extends_def)
  then show "walk s' (root_inode s') (comps path) = Some a"
    using walk_snoc [of s' _ ds p ?d nm] dd dir ds(1) by (simp add: find_entry_def)
  show "inodes s a = None"
  proof (cases "inodes s a")
    case (Some j)
    then show ?thesis using extends_inode [OF s1(2) Some] a by auto
  qed
  have "walk s1 (root_inode s1) (comps path) = None" using dir ds d by (simp add: walk_append)
  then show "walk s (root_inode s) (comps path) = None"
    using extends_walk [OF s1] s1(2) by (cases "walk s (root_inode s) (comps path)") (auto simp: extends_def)
qed

section \<open>When a new node has a place\<close>

lemma lookup_parent_existing:
  assumes ok: "vfs_ok s"
  shows "vfs_skip_slash cursor = cursor \<Longrightarrow> 0 \<notin> set cursor \<Longrightarrow> comps cursor = ds @ [nm] \<Longrightarrow>
    \<forall>c \<in> set (comps cursor). length c \<le> 255 \<Longrightarrow> inodes s current \<noteq> None \<Longrightarrow> walk s current ds = Some q \<Longrightarrow>
    lookup_parent_loop create current cursor s = Some (q, nm, s)"
proof (induction ds arbitrary: cursor current)
  case Nil
  have ne: "cursor \<noteq> []" using Nil.prems(3) by auto
  note cs = comps_cursor [OF Nil.prems(1) ne]
  have "vfs_skip_slash (dropWhile (\<lambda>x. x \<noteq> slash) cursor) = []"
    using cs Nil.prems(3) by (metis append_Nil comps_cursor_empty list.inject skip_slash_idem)
  then show ?case
    using cs Nil.prems ne scan_component_eq [of 0 cursor] by (subst lookup_parent_loop.simps) simp
next
  case (Cons c ds)
  have ne: "cursor \<noteq> []" using Cons.prems(3) by auto
  note cs = comps_cursor [OF Cons.prems(1) ne]
  let ?k = "vfs_skip_slash (dropWhile (\<lambda>x. x \<noteq> slash) cursor)"
  have c: "c = takeWhile (\<lambda>x. x \<noteq> slash) cursor" and k: "comps ?k = ds @ [nm]" using cs Cons.prems(3) by simp_all
  have len: "length c \<le> 255" using Cons.prems(3,4) by simp
  have kne: "?k \<noteq> []" using k by (metis append_is_Nil_conv comps_Nil list.distinct(1))
  have c0: "0 \<notin> set c" using Cons.prems(2) c by (meson set_takeWhileD)
  obtain cur e where cur: "inodes s current = Some cur" "i_type cur = VFS_TYPE_DIR" "find_entry cur c = Some e"
    "walk s (de_inode e) ds = Some q" using Cons.prems(6) by (auto split: option.splits if_splits)
  have "inodes s (de_inode e) \<noteq> None" using vfs_okD(4) [OF ok cur(1)] find_entry_mem [OF cur(3)] by blast
  moreover have "0 \<notin> set ?k" using Cons.prems(2) unfolding vfs_skip_slash_def by (meson set_dropWhileD)
  moreover have "\<forall>x \<in> set (comps ?k). length x \<le> 255" using Cons.prems(4) cs by simp
  ultimately have "lookup_parent_loop create (de_inode e) ?k s = Some (q, nm, s)"
    using Cons.IH [OF _ _ k _ _ cur(4)] by simp
  then show ?case
    using ne scan_component_eq [of 0 cursor] c len kne cur vfs_dir_find_eq [OF ok cur(1) c0]
    by (subst lookup_parent_loop.simps) simp
qed

text \<open>A path that names a new entry of an existing directory, and memory to create it.\<close>

definition creatable :: "u8 list \<Rightarrow> nat \<Rightarrow> 'a kvfs_scheme \<Rightarrow> bool" where
  "creatable path k s \<longleftrightarrow> vfs_is_absolute path \<and> heap_spare k s \<and> (\<forall>c \<in> set (comps path). length c \<le> 255) \<and>
     (\<exists>ds nm q d. comps path = ds @ [nm] \<and> walk s (root_inode s) ds = Some q \<and> inodes s q = Some d \<and>
        i_type d = VFS_TYPE_DIR \<and> find_entry d nm = None)"

lemma creatable_place:
  assumes ok: "vfs_ok s" and path: "0 \<notin> set path" and cr: "creatable path k s"
    and run: "vfs_lookup_parent path create s = Some (p, nm, s1)"
  shows "s1 = s \<and> heap_spare k s \<and> p \<noteq> 0 \<and> nm \<noteq> [] \<and> vfs_dir_find p nm (length nm) s = Some None \<and>
    (\<forall>d. inodes s p = Some d \<longrightarrow> i_type d = VFS_TYPE_DIR \<and> find_entry d nm = None)"
proof -
  obtain ds n q d where ds: "comps path = ds @ [n]" "walk s (root_inode s) ds = Some q" "inodes s q = Some d"
    "i_type d = VFS_TYPE_DIR" "find_entry d n = None"
    and cr': "vfs_is_absolute path" "heap_spare k s" "\<forall>c \<in> set (comps path). length c \<le> 255"
    using cr by (auto simp: creatable_def)
  have r: "inodes s (root_inode s) \<noteq> None" "root_inode s \<noteq> 0" using vfs_ok_root [OF ok] by auto
  have z: "0 \<notin> set (vfs_skip_slash path)" using path unfolding vfs_skip_slash_def by (meson set_dropWhileD)
  have "lookup_parent_loop create (root_inode s) (vfs_skip_slash path) s = Some (q, n, s)"
    using lookup_parent_existing [OF ok skip_slash_idem z _ _ r(1) ds(2)] ds(1) cr'(3) by (simp add: comps_skip)
  then have run': "p = q" "nm = n" "s1 = s" using run cr' r by (simp_all add: vfs_lookup_parent_def)
  have nm: "n \<noteq> [] \<and> 0 \<notin> set n \<and> slash \<notin> set n" by (rule comps_names [OF _ path]) (simp add: ds(1))
  then show ?thesis
    using run' ds cr'(2) vfs_okD(1) [OF ok ds(3)] vfs_dir_find_eq [OF ok ds(3)] by simp
qed

section \<open>Creating directories, files and links\<close>

lemma kept_extends:
  assumes "extends s s1" and "\<forall>q. kmalloc_live s q \<longrightarrow> kmalloc_live s1 q"
    and "vfs_ok s'" and "heap_budget b s'" and "extends s1 s'" and "\<forall>q. kmalloc_live s1 q \<longrightarrow> kmalloc_live s' q"
  shows "kept b s s'"
  using assms extends_trans by (auto simp: kept_def)

definition file_inode :: "u32 \<Rightarrow> u64 \<Rightarrow> u64 \<Rightarrow> u8 list \<Rightarrow> vfs_inode" where
  "file_inode mode sz c data = \<lparr>i_type = VFS_TYPE_FILE, i_mode = mode, i_size = sz,
     i_data = (if sz > 0 then Some (c, take (unat sz) data) else None), i_target = None, i_children = []\<rparr>"

lemma vfs_inode_new_live:
  assumes "vfs_ok s2" and "inodes s2 = m(a \<mapsto> i)"
  shows "kmalloc_live s2 a" and "inodes s2 a = Some i"
  using vfs_okD(2) [OF assms(1), of a i] assms(2) by simp_all

lemma create_ok:
  assumes ok: "vfs_ok s" and path: "0 \<notin> set path" and len: "unat sz \<le> length data"
    and budget: "heap_budget (length path * 0x40000 + (unat sz + 0x60000 + b)) s"
  obtains r s' where "vfs_create path mode data sz s = Some (r, s')" and "kept b s s'" and "r = 0 \<or> r = - 1"
    and "r = 0 \<Longrightarrow> \<exists>a c. walk s' (root_inode s') (comps path) = Some a \<and> inodes s a = None \<and>
      inodes s' a = Some (file_inode mode sz c data) \<and> walk s (root_inode s) (comps path) = None"
    and "creatable path (unat sz + 560) s \<Longrightarrow> r = 0"
proof -
  have bud: "heap_budget (length path * 0x40000 + (0x11018 + (unat sz + 0x11000 + (0x22200 + b)))) s"
    by (rule heap_budget_le [OF budget]) simp
  have weak: "kept (unat sz + 0x11000 + (0x22200 + b)) s s' \<Longrightarrow> kept b s s'" for s'
    using heap_budget_le by (force simp: kept_def)
  show thesis
  proof (cases rule: node_cases [OF ok path bud, where t = VFS_TYPE_FILE and m = mode, case_names refused full new])
    case (refused p nm s1)
    then have "vfs_create path mode data sz s = Some (- 1, s1)" by (auto simp: vfs_create_def)
    then show thesis
      by (rule that [OF _ weak [OF refused(2)]])
        (use creatable_place [OF ok path _ refused(1)] refused(3) in auto)
  next
    case (full p nm s1 s2)
    then have "vfs_create path mode data sz s = Some (- 1, s2)" by (auto simp: vfs_create_def)
    then show thesis
    proof (rule that [OF _ weak [OF full(7)]])
      assume "creatable path (unat sz + 560) s"
      from creatable_place [OF ok path this full(1)]
      have "s1 = s" "heap_spare (88 + (unat sz + 472)) s" by (simp_all add: add.commute)
      then show "(- 1 :: int) = 0" using inode_new_spare full(6) by blast
    qed auto
  next
    case (new p nm s1 s2 d a)
    let ?new = "blank_inode VFS_TYPE_FILE mode"
    note k2 = new(10) [unfolded kept_def]
    note la = vfs_inode_new_live [OF conjunct1 [OF k2] new(14)]
    obtain c s3 where c: "(if sz > 0 then kmalloc sz s2 else Some (0, s2)) = Some (c, s3)" "vfs_ok s3"
      "heap_budget (0x22200 + b) s3" "kheap.more s3 = kheap.more s2"
      "c \<noteq> 0 \<Longrightarrow> kmalloc_live s3 c \<and> \<not> kmalloc_live s2 c" "\<And>q. kmalloc_live s2 q \<Longrightarrow> kmalloc_live s3 q"
      "\<And>k. heap_spare (unat sz + 64 + k) s2 \<Longrightarrow> (sz > 0 \<longrightarrow> c \<noteq> 0) \<and> heap_spare k s3"
      by (rule buffer_ok [of s2 sz "0x22200 + b"]) (use k2 in blast)+
    note v3 = vfs_fields [OF c(4)]
    have ino3: "inodes s3 = (inodes s1)(a \<mapsto> ?new)" using v3 new(14) by simp
    have more3: "root_inode s3 = root_inode s1" "kvfs.more s3 = kvfs.more s1"
      using v3 new(11) by (simp_all add: extends_def)
    have l13: "\<forall>q. kmalloc_live s1 q \<longrightarrow> kmalloc_live s3 q" using new(16) c(6) by blast
    have la3: "kmalloc_live s3 a" using la c(6) by blast
    have spare: "(sz > 0 \<longrightarrow> c \<noteq> 0) \<and> heap_spare 408 s3" if cr: "creatable path (unat sz + 560) s"
    proof -
      from creatable_place [OF ok path cr new(1)]
      have "s1 = s" "heap_spare (88 + (unat sz + 472)) s" by (simp_all add: add.commute)
      then have "heap_spare (unat sz + 472) s2" using inode_new_spare new(6) by blast
      then show ?thesis using c(7) [of 408] by (simp add: add.assoc)
    qed
    show thesis
    proof (cases "sz > 0 \<and> c = 0")
      case True
      have inv3: "heap_inv s3" using c(2) by (simp add: vfs_ok_def)
      obtain s4 where f: "kfree a (idrop a s3) = Some s4" "vfs_ok s4" "heap_current s4 = heap_current s3"
        "inodes s4 = inodes s1" "extends s1 s4" "\<And>q. kmalloc_live s1 q \<Longrightarrow> kmalloc_live s4 q"
        by (rule drop_free_ok [OF new(8) inv3 ino3 new(13) la3 new(15) l13 more3]) blast
      have run: "vfs_create path mode data sz s = Some (- 1, s4)"
        using new(1-7) la(2) c(1) True f(1) by (auto simp: vfs_create_def)
      have b4: "heap_budget b s4" using heap_budget_le [OF c(3), of b] budget_current [OF f(3)] by simp
      show thesis
        by (rule that [OF run kept_extends [OF new(9,17) f(2) b4 f(5)]]) (use f(6) spare True in auto)
    next
      case buf: False
      let ?file = "file_inode mode sz c data"
      have io: "inode_ok s3 ?file" using len by (simp add: inode_ok_def file_inode_def word_gt_0)
      have ty: "i_type ?file = i_type ?new" by (simp add: file_inode_def blank_inode_def)
      have ca: "c \<noteq> 0 \<longrightarrow> kmalloc_live s3 c \<and> \<not> kmalloc_live s1 c \<and> c \<noteq> a" using c(5) new(16) la by blast
      have d: "inodes s1 p = Some d" "name_ok nm" using new(12) by (simp_all add: new_place_def)
      obtain r s' where lk: "do { (r, s4) \<leftarrow> vfs_dir_add p nm a (iput a ?file s3);
          if r \<noteq> 0 then do { s5 \<leftarrow> kfree c s4; s6 \<leftarrow> kfree a (idrop a s5); Some (- 1 :: int, s6) }
          else Some (0, s4) } = Some (r, s')" "vfs_ok s'" "heap_budget b s'" "extends s1 s'" "r = 0 \<or> r = - 1"
        "r = 0 \<Longrightarrow> i_type d = VFS_TYPE_DIR \<and> find_entry d nm = None \<and> inodes s' = (inodes s1)(a \<mapsto> ?file,
           p \<mapsto> d\<lparr>i_children := \<lparr>de_name = nm, de_inode = a\<rparr> # i_children d\<rparr>)"
        "\<And>q. kmalloc_live s1 q \<Longrightarrow> kmalloc_live s' q"
        "i_type d = VFS_TYPE_DIR \<Longrightarrow> find_entry d nm = None \<Longrightarrow> heap_spare 408 s3 \<Longrightarrow> r = 0"
        by (rule link_node_ok [OF new(8) d new(13,7) c(2) ino3 more3 io ty ca la3 new(15) l13 c(3)])
          (rule that, (assumption | blast)+)
      have run: "vfs_create path mode data sz s = Some (r, s')"
        using new(1-7) la(2) c(1) buf len lk(1) [simplified]
        by (simp add: vfs_create_def file_inode_def blank_inode_def) blast
      show thesis
      proof (rule that [OF run kept_extends [OF new(9,17) lk(2-4)] lk(5)])
        assume r: "r = 0"
        show "\<exists>a c. walk s' (root_inode s') (comps path) = Some a \<and> inodes s a = None \<and>
            inodes s' a = Some (file_inode mode sz c data) \<and> walk s (root_inode s) (comps path) = None"
          using linked [OF new(8,9,12,13) lk(2,4)] lk(6) [OF r] by blast
      next
        assume cr: "creatable path (unat sz + 560) s"
        from creatable_place [OF ok path cr new(1)] have "i_type d = VFS_TYPE_DIR \<and> find_entry d nm = None"
          using d(1) by auto
        then show "r = 0" using lk(8) spare [OF cr] by blast
      qed (use lk(7) in blast)
    qed
  qed
qed

definition link_inode :: "u64 \<Rightarrow> u8 list \<Rightarrow> vfs_inode" where
  "link_inode c target = \<lparr>i_type = VFS_TYPE_SYMLINK, i_mode = S_IFLNK OR 0x1FF, i_size = of_nat (length target),
     i_data = None, i_target = Some (c, target), i_children = []\<rparr>"

lemma symlink_ok:
  assumes ok: "vfs_ok s" and path: "0 \<notin> set path" and len: "0 \<notin> set target" "length target < 0x10000"
    and budget: "heap_budget (length path * 0x40000 + (length target + 0x60000 + b)) s"
  obtains r s' where "vfs_symlink target path s = Some (r, s')" and "kept b s s'" and "r = 0 \<or> r = - 1"
    and "r = 0 \<Longrightarrow> \<exists>a c. walk s' (root_inode s') (comps path) = Some a \<and> inodes s a = None \<and>
      inodes s' a = Some (link_inode c target) \<and> walk s (root_inode s) (comps path) = None"
    and "creatable path (length target + 561) s \<Longrightarrow> r = 0"
proof -
  have bud: "heap_budget (length path * 0x40000 + (0x11018 + (length target + 0x11001 + (0x22200 + b)))) s"
    by (rule heap_budget_le [OF budget]) simp
  have weak: "kept (length target + 0x11001 + (0x22200 + b)) s s' \<Longrightarrow> kept b s s'" for s'
    using heap_budget_le by (force simp: kept_def)
  show thesis
  proof (cases rule: node_cases [OF ok path bud, where t = VFS_TYPE_SYMLINK and m = "S_IFLNK OR 0x1FF", case_names refused full new])
    case (refused p nm s1)
    then have "vfs_symlink target path s = Some (- 1, s1)" by (auto simp: vfs_symlink_def)
    then show thesis
      by (rule that [OF _ weak [OF refused(2)]])
        (use creatable_place [OF ok path _ refused(1)] refused(3) in auto)
  next
    case (full p nm s1 s2)
    then have "vfs_symlink target path s = Some (- 1, s2)" by (auto simp: vfs_symlink_def)
    then show thesis
    proof (rule that [OF _ weak [OF full(7)]])
      assume "creatable path (length target + 561) s"
      from creatable_place [OF ok path this full(1)]
      have "s1 = s" "heap_spare (88 + (length target + 473)) s" by (simp_all add: add.commute)
      then show "(- 1 :: int) = 0" using inode_new_spare full(6) by blast
    qed auto
  next
    case (new p nm s1 s2 d a)
    let ?new = "blank_inode VFS_TYPE_SYMLINK (S_IFLNK OR 0x1FF)"
    note k2 = new(10) [unfolded kept_def]
    note la = vfs_inode_new_live [OF conjunct1 [OF k2] new(14)]
    obtain c s3 where c: "vfs_strdup target s2 = Some (c, s3)" "vfs_ok s3" "heap_budget (0x22200 + b) s3"
      "extends s2 s3" "inodes s3 = inodes s2"
      "c = None \<or> (\<exists>p. c = Some (p, target) \<and> p \<noteq> 0 \<and> kmalloc_live s3 p \<and> \<not> kmalloc_live s2 p)"
      "kheap.more s3 = kheap.more s2" "\<And>q. kmalloc_live s2 q \<Longrightarrow> kmalloc_live s3 q"
      by (rule strdup_ok [of s2 target "0x22200 + b"]) (use k2 len in blast)+
    note v3 = vfs_fields [OF c(7)]
    have ino3: "inodes s3 = (inodes s1)(a \<mapsto> ?new)" using v3 new(14) by simp
    have more3: "root_inode s3 = root_inode s1" "kvfs.more s3 = kvfs.more s1"
      using v3 new(11) by (simp_all add: extends_def)
    have l13: "\<forall>q. kmalloc_live s1 q \<longrightarrow> kmalloc_live s3 q" using new(16) c(8) by blast
    have la3: "kmalloc_live s3 a" using la c(8) by blast
    have spare: "c \<noteq> None \<and> heap_spare 408 s3" if cr: "creatable path (length target + 561) s"
    proof -
      from creatable_place [OF ok path cr new(1)]
      have "s1 = s" "heap_spare (88 + (length target + 473)) s" by (simp_all add: add.commute)
      then have "heap_spare (length target + 473) s2" using inode_new_spare new(6) by blast
      then show ?thesis using strdup_spare [OF c(1) len, of 408] by (simp add: add.assoc)
    qed
    show thesis
    proof (cases c)
      case None
      have inv3: "heap_inv s3" using c(2) by (simp add: vfs_ok_def)
      obtain s4 where f: "kfree a (idrop a s3) = Some s4" "vfs_ok s4" "heap_current s4 = heap_current s3"
        "inodes s4 = inodes s1" "extends s1 s4" "\<And>q. kmalloc_live s1 q \<Longrightarrow> kmalloc_live s4 q"
        by (rule drop_free_ok [OF new(8) inv3 ino3 new(13) la3 new(15) l13 more3]) blast
      have run: "vfs_symlink target path s = Some (- 1, s4)"
        using new(1-7) la(2) c(1) None f(1) by (simp add: vfs_symlink_def)
      have b4: "heap_budget b s4" using heap_budget_le [OF c(3), of b] budget_current [OF f(3)] by simp
      show thesis
        by (rule that [OF run kept_extends [OF new(9,17) f(2) b4 f(5)]]) (use f(6) spare None in auto)
    next
      case (Some x)
      then obtain q where q: "c = Some (q, target)" "q \<noteq> 0" "kmalloc_live s3 q" "\<not> kmalloc_live s2 q" using c(6) by auto
      let ?link = "link_inode q target"
      have io: "inode_ok s3 ?link" using len by (simp add: inode_ok_def link_inode_def)
      have ty: "i_type ?link = i_type ?new" by (simp add: link_inode_def blank_inode_def)
      have ca: "q \<noteq> 0 \<longrightarrow> kmalloc_live s3 q \<and> \<not> kmalloc_live s1 q \<and> q \<noteq> a" using q new(16) la by blast
      have d: "inodes s1 p = Some d" "name_ok nm" using new(12) by (simp_all add: new_place_def)
      obtain r s' where lk: "do { (r, s4) \<leftarrow> vfs_dir_add p nm a (iput a ?link s3);
          if r \<noteq> 0 then do { s5 \<leftarrow> kfree q s4; s6 \<leftarrow> kfree a (idrop a s5); Some (- 1 :: int, s6) }
          else Some (0, s4) } = Some (r, s')" "vfs_ok s'" "heap_budget b s'" "extends s1 s'" "r = 0 \<or> r = - 1"
        "r = 0 \<Longrightarrow> i_type d = VFS_TYPE_DIR \<and> find_entry d nm = None \<and> inodes s' = (inodes s1)(a \<mapsto> ?link,
           p \<mapsto> d\<lparr>i_children := \<lparr>de_name = nm, de_inode = a\<rparr> # i_children d\<rparr>)"
        "\<And>q. kmalloc_live s1 q \<Longrightarrow> kmalloc_live s' q"
        "i_type d = VFS_TYPE_DIR \<Longrightarrow> find_entry d nm = None \<Longrightarrow> heap_spare 408 s3 \<Longrightarrow> r = 0"
        by (rule link_node_ok [OF new(8) d new(13,7) c(2) ino3 more3 io ty ca la3 new(15) l13 c(3)])
          (rule that, (assumption | blast)+)
      have run: "vfs_symlink target path s = Some (r, s')"
        using new(1-7) la(2) c(1,5) q(1) len lk(1) [simplified]
        by (simp add: vfs_symlink_def link_inode_def blank_inode_def)
      show thesis
      proof (rule that [OF run kept_extends [OF new(9,17) lk(2-4)] lk(5)])
        assume r: "r = 0"
        show "\<exists>a c. walk s' (root_inode s') (comps path) = Some a \<and> inodes s a = None \<and>
            inodes s' a = Some (link_inode c target) \<and> walk s (root_inode s) (comps path) = None"
          using linked [OF new(8,9,12,13) lk(2,4)] lk(6) [OF r] by blast
      next
        assume cr: "creatable path (length target + 561) s"
        from creatable_place [OF ok path cr new(1)] have "i_type d = VFS_TYPE_DIR \<and> find_entry d nm = None"
          using d(1) by auto
        then show "r = 0" using lk(8) spare [OF cr] by blast
      qed (use lk(7) in blast)
    qed
  qed
qed

lemma mkdir_ok:
  assumes ok: "vfs_ok s" and path: "0 \<notin> set path"
    and budget: "heap_budget (length path * 0x40000 + (0x60000 + b)) s"
  obtains r s' where "vfs_mkdir path mode s = Some (r, s')" and "kept b s s'" and "r = 0 \<or> r = - 1"
    and "r = 0 \<Longrightarrow> \<exists>a. walk s' (root_inode s') (comps path) = Some a \<and>
      (inodes s a = None \<and> inodes s' a = Some (blank_inode VFS_TYPE_DIR mode) \<and> walk s (root_inode s) (comps path) = None \<or>
       (\<exists>p nm e s1. vfs_lookup_parent path True s = Some (p, nm, s1) \<and> s' = s1 \<and> vfs_dir_find p nm (length nm) s1 = Some (Some e)))"
    and "creatable path 496 s \<Longrightarrow> r = 0 \<and> walk s (root_inode s) (comps path) = None"
proof -
  have bud: "heap_budget (length path * 0x40000 + (0x11018 + (0x22200 + b))) s"
    by (rule heap_budget_le [OF budget]) simp
  have weak: "kept (0x22200 + b) s s' \<Longrightarrow> kept b s s'" for s'
    using heap_budget_le by (force simp: kept_def)
  have none: "walk s (root_inode s) (comps path) = None" if "creatable path 496 s"
    using that by (auto simp: creatable_def walk_append)
  show thesis
  proof (cases rule: node_cases [OF ok path bud, where t = VFS_TYPE_DIR and m = mode, case_names refused full new])
    case (refused p nm s1)
    then have "vfs_mkdir path mode s = Some (if p = 0 \<or> nm = [] then - 1 else 0, s1)" by (auto simp: vfs_mkdir_def)
    then show thesis
      by (rule that [OF _ weak [OF refused(2)]])
        (use creatable_place [OF ok path _ refused(1)] refused(1,3) none in \<open>auto split: if_splits\<close>)
  next
    case (full p nm s1 s2)
    then have "vfs_mkdir path mode s = Some (- 1, s2)" by (auto simp: vfs_mkdir_def)
    then show thesis
    proof (rule that [OF _ weak [OF full(7)]])
      assume "creatable path 496 s"
      from creatable_place [OF ok path this full(1)]
      have "s1 = s" "heap_spare (88 + 408) s" by simp_all
      then show "(- 1 :: int) = 0 \<and> walk s (root_inode s) (comps path) = None" using inode_new_spare full(6) by blast
    qed auto
  next
    case (new p nm s1 s2 d a)
    note k2 = new(10) [unfolded kept_def]
    have d: "inodes s1 p = Some d" "name_ok nm" using new(12) by (simp_all add: new_place_def)
    have pa: "p \<noteq> a" using d new(13) by auto
    have d2: "inodes s2 p = Some d" "inodes s2 a \<noteq> None" using d pa new(14) by simp_all
    obtain r s' where da: "vfs_dir_add p nm a s2 = Some (r, s')" "vfs_ok s'" "heap_budget b s'" "extends s2 s'"
      "r = 0 \<or> r = - 1" "\<And>q. kmalloc_live s2 q \<Longrightarrow> kmalloc_live s' q"
      "r = 0 \<Longrightarrow> i_type d = VFS_TYPE_DIR \<and> find_entry d nm = None \<and>
        inodes s' = (inodes s2)(p \<mapsto> d\<lparr>i_children := \<lparr>de_name = nm, de_inode = a\<rparr> # i_children d\<rparr>)"
      by (rule dir_add_ok [of s2 p d nm a b]) (use k2 d2 d new(7) in blast)+
    have run: "vfs_mkdir path mode s = Some (r, s')" using new(1-7) da(1) by (simp add: vfs_mkdir_def)
    note ex = extends_trans [OF new(11) da(4)]
    show thesis
    proof (rule that [OF run kept_extends [OF new(9,17) da(2,3) ex] da(5)])
      show "\<forall>q. kmalloc_live s1 q \<longrightarrow> kmalloc_live s' q" using new(16) da(6) by blast
      assume "r = 0"
      note d7 = da(7) [OF this]
      have "inodes s' = (inodes s1)(a \<mapsto> blank_inode VFS_TYPE_DIR mode,
          p \<mapsto> d\<lparr>i_children := \<lparr>de_name = nm, de_inode = a\<rparr> # i_children d\<rparr>)" using d7 new(14) by simp
      from linked [OF new(8,9,12,13) da(2) ex conjunct1 [OF d7] this]
      show "\<exists>a. walk s' (root_inode s') (comps path) = Some a \<and>
        (inodes s a = None \<and> inodes s' a = Some (blank_inode VFS_TYPE_DIR mode) \<and> walk s (root_inode s) (comps path) = None \<or>
         (\<exists>p nm e s1. vfs_lookup_parent path True s = Some (p, nm, s1) \<and> s' = s1 \<and>
            vfs_dir_find p nm (length nm) s1 = Some (Some e)))" by blast
    next
      assume cr: "creatable path 496 s"
      from creatable_place [OF ok path cr new(1)] have "i_type d = VFS_TYPE_DIR" "find_entry d nm = None" "s1 = s"
        "heap_spare (88 + 408) s" using d(1) by auto
      then show "r = 0 \<and> walk s (root_inode s) (comps path) = None"
        using dir_add_spare [OF conjunct1 [OF k2] d2(1) _ _ d(2) new(7) _ da(1), of 0] inode_new_spare [OF new(6), of 408]
          none [OF cr] by auto
    qed
  qed
qed

section \<open>Lookups survive\<close>

lemma scan_component_zero: "scan_component cursor k = Some (c, rest) \<Longrightarrow> 0 \<notin> set cursor \<Longrightarrow> 0 \<notin> set c \<and> 0 \<notin> set rest"
  using scan_component_append by fastforce

lemma skip_slash_zero: "0 \<notin> set p \<Longrightarrow> 0 \<notin> set (vfs_skip_slash p)"
  unfolding vfs_skip_slash_def by (meson set_dropWhileD)

lemma take_zero: "0 \<notin> set p \<Longrightarrow> 0 \<notin> set (take n p)"
  by (meson in_set_takeD)

lemma symlink_resolve_zero:
  "vfs_symlink_resolve base target = Some out \<Longrightarrow> 0 \<notin> set base \<Longrightarrow> 0 \<notin> set target \<Longrightarrow> 0 \<notin> set out"
  by (auto simp: vfs_symlink_resolve_def take_zero Let_def split: if_splits Option.bind_splits option.splits dest: in_set_takeD)

text \<open>A lookup that found an inode, through symbolic links or not, finds the same one in a file system
  that extends the old one.\<close>

lemma lookup_walk_extends:
  assumes ok: "vfs_ok s" "vfs_ok s'" and ex: "extends s s'"
    and run: "lookup_walk follow s curpath current cursor depth = Some a" and a: "a \<noteq> 0"
    and z: "0 \<notin> set curpath" "0 \<notin> set cursor"
  shows "lookup_walk follow s' curpath current cursor depth = Some a"
proof -
  have root: "root_inode s' = root_inode s" using ex by (simp add: extends_def)
  have inode: "\<exists>i'. inodes s' x = Some i' \<and> i_type i' = i_type i \<and> i_target i' = i_target i" if "inodes s x = Some i" for x i
    using extends_inode [OF ex that] by force
  have target: "0 \<notin> set t" if "inodes s x = Some i" "i_target i = Some (p, t)" for x i p t
    using vfs_okD(3) [OF ok(1) that(1)] that(2) by (auto simp: inode_ok_def)
  have find: "vfs_dir_find d c (length c) s' = Some (Some e)"
    if f: "vfs_dir_find d c (length c) s = Some (Some e)" and c: "0 \<notin> set c" and d: "inodes s d = Some i" for d c e i
  proof -
    have "i_type i = VFS_TYPE_DIR" "find_entry i c = Some e"
      using f vfs_dir_find_eq [OF ok(1) d c] by (auto split: if_splits)
    then obtain i' where "inodes s' d = Some i'" "i_type i' = i_type i" "find_entry i' c = Some e"
      using extends_find [OF ok(2) ex d] by blast
    then show ?thesis using vfs_dir_find_eq [OF ok(2) _ c] \<open>i_type i = VFS_TYPE_DIR\<close> by simp
  qed
  define P where "P f s0 cp cu cs de y \<longleftrightarrow> (s0 = s \<longrightarrow> y \<noteq> 0 \<longrightarrow> 0 \<notin> set cp \<longrightarrow> 0 \<notin> set cs \<longrightarrow>
    lookup_walk f s' cp cu cs de = Some y)" for f s0 cp cu cs de y
  have "P follow s curpath current cursor depth a"
  proof (rule lookup_walk.raw_induct [OF _ run], goal_cases)
    case (1 lw follow s0 curpath current cursor depth y)
    note IH = 1(1) [unfolded P_def] and body = 1(2)
    show ?case
      unfolding P_def
    proof (intro impI)
      assume s0: "s0 = s" and y: "y \<noteq> 0" and zp: "0 \<notin> set curpath" and zc: "0 \<notin> set cursor"
      have again: "lookup_walk f s' cp cu cs de = Some y"
        if "lw f s cp cu cs de = Some y" "0 \<notin> set cp" "0 \<notin> set cs" for f cp cu cs de
        using IH [OF that(1)] that(2,3) y by blast
      obtain cur where cur: "inodes s current = Some cur"
        using body y s0 by (auto simp: Let_def split: if_splits Option.bind_splits option.splits)
      obtain cur' where cur': "inodes s' current = Some cur'" "i_type cur' = i_type cur" "i_target cur' = i_target cur"
        using inode [OF cur] by blast
      show "lookup_walk follow s' curpath current cursor depth = Some y"
      proof (cases "cursor = []")
        case True
        show ?thesis
        proof (cases "i_type cur = VFS_TYPE_SYMLINK \<and> follow")
          case False
          then show ?thesis using True body s0 cur cur' by (subst lookup_walk.simps) auto
        next
          case link: True
          then obtain p target l where l: "i_target cur = Some (p, target)" "vfs_symlink_resolve curpath target = Some l"
            "vfs_is_absolute l" "root_inode s \<noteq> 0"
            "lw True s (take 511 l) (root_inode s) (vfs_skip_slash (take 511 l)) 0 = Some y"
            using True body s0 cur y by (auto simp: Let_def split: if_splits Option.bind_splits option.splits)
          have "0 \<notin> set (take 511 l)"
            by (rule take_zero [OF symlink_resolve_zero [OF l(2) zp target [OF cur l(1)]]])
          from again [OF l(5) this skip_slash_zero [OF this]] show ?thesis
            using True link l cur' root by (subst lookup_walk.simps) simp
        qed
      next
        case False
        obtain c rest where sc: "scan_component cursor 0 = Some (c, rest)"
          using False body y by (auto split: option.splits)
        have zcr: "0 \<notin> set c" "0 \<notin> set (vfs_skip_slash rest)"
          using scan_component_zero [OF sc zc] skip_slash_zero by blast+
        obtain e node where e: "i_type cur = VFS_TYPE_DIR" "vfs_dir_find current c (length c) s = Some (Some e)"
          "inodes s (de_inode e) = Some node"
          using False body y s0 sc cur by (auto simp: Let_def split: if_splits Option.bind_splits option.splits)
        obtain node' where n': "inodes s' (de_inode e) = Some node'" "i_type node' = i_type node" "i_target node' = i_target node"
          using inode [OF e(3)] by blast
        note e' = find [OF e(2) zcr(1) cur]
        show ?thesis
        proof (cases "i_type node = VFS_TYPE_SYMLINK \<and> follow")
          case plain: False
          then have "lw follow s curpath (de_inode e) (vfs_skip_slash rest) depth = Some y"
            using False body s0 sc cur e by auto
          from again [OF this zp zcr(2)] show ?thesis
            using False plain sc cur' e e' n' by (subst lookup_walk.simps) auto
        next
          case link: True
          let ?k = "vfs_skip_slash rest"
          let ?plen = "length curpath - length ?k"
          let ?path = "\<lambda>l. take 511 (if take 255 ?k = [] then l else l @ slash # take 255 ?k)"
          obtain p target l where l: "i_target node = Some (p, target)" "\<not> (depth + 1 > 8 \<or> ?plen \<ge> 512)"
            "vfs_symlink_resolve (take ?plen curpath) target = Some l"
            "\<not> (take 255 ?k \<noteq> [] \<and> length l + 1 + length (take 255 ?k) + 1 > 512)"
            "lw follow s (?path l) (root_inode s) (vfs_skip_slash (?path l)) 0 = Some y"
            using False body s0 sc cur e link y by (auto simp: Let_def split: if_splits Option.bind_splits option.splits)
          have "0 \<notin> set l" by (rule symlink_resolve_zero [OF l(3) take_zero [OF zp] target [OF e(3) l(1)]])
          then have "0 \<notin> set (?path l)" using zcr(2) by (intro take_zero) (auto dest: in_set_takeD)
          from again [OF l(5) this skip_slash_zero [OF this]] show ?thesis
            using False link sc cur' e e' n' l root
            by (cases "?k = []"; subst lookup_walk.simps; simp add: Let_def)
        qed
      qed
    qed
  qed
  then show ?thesis using a z by (simp add: P_def)
qed

lemma lookup_extends:
  assumes "vfs_ok s" "vfs_ok s'" "extends s s'" and "0 \<notin> set path"
    and "vfs_lookup_path path follow s = Some a" and "a \<noteq> 0"
  shows "vfs_lookup_path path follow s' = Some a"
proof -
  have r: "root_inode s' = root_inode s" using assms(3) by (simp add: extends_def)
  note z = take_zero [OF assms(4), of 511]
  have "vfs_is_absolute path" "root_inode s \<noteq> 0"
    "lookup_walk follow s (take 511 path) (root_inode s) (vfs_skip_slash (take 511 path)) 0 = Some a"
    using assms(5,6) by (auto simp: vfs_lookup_path_def Let_def split: if_splits)
  then show ?thesis
    using lookup_walk_extends [OF assms(1-3) _ assms(6) z skip_slash_zero [OF z]] r
    by (simp add: vfs_lookup_path_def Let_def)
qed

text \<open>Every path that led somewhere still leads there, to the same kind of inode with the same contents.\<close>

definition files_kept :: "'a kvfs_scheme \<Rightarrow> 'a kvfs_scheme \<Rightarrow> bool" where
  "files_kept s s' \<longleftrightarrow> (\<forall>q a. 0 \<notin> set q \<longrightarrow> vfs_lookup_path q True s = Some a \<longrightarrow> a \<noteq> 0 \<longrightarrow>
     vfs_lookup_path q True s' = Some a \<and> vfs_stat q s' = vfs_stat q s \<and>
     (\<forall>off cnt. vfs_read_at q off cnt s' = vfs_read_at q off cnt s))"

lemma lookup_walk_inode:
  assumes ok: "vfs_ok s" and run: "lookup_walk follow s curpath current cursor depth = Some a"
  shows "a = 0 \<or> inodes s a \<noteq> None"
proof -
  define P where "P f s0 cp cu cs de y \<longleftrightarrow> (y = 0 \<or> inodes s0 y \<noteq> None)"
    for f :: bool and s0 :: "'a kvfs_scheme" and cp :: "u8 list" and cu :: u64 and cs :: "u8 list" and de :: nat and y
  have "P follow s curpath current cursor depth a"
  proof (rule lookup_walk.raw_induct [OF _ run], goal_cases)
    case (1 lw follow s0 curpath current cursor depth y)
    have IH: "y = 0" if "lw f s0 cp cu cs de = Some y" "inodes s0 y = None" for f cp cu cs de
      using 1(1) [OF that(1)] that(2) by (simp add: P_def)
    show ?case
      unfolding P_def using 1(2)
      by (auto simp: Let_def split: if_splits Option.bind_splits option.splits) (erule IH, assumption)+
  qed
  then show ?thesis by (simp add: P_def)
qed

lemma lookup_inode:
  assumes "vfs_ok s" and "vfs_lookup_path path follow s = Some a" and "a \<noteq> 0"
  obtains i where "inodes s a = Some i"
proof -
  have "lookup_walk follow s (take 511 path) (root_inode s) (vfs_skip_slash (take 511 path)) 0 = Some a"
    using assms(2,3) by (auto simp: vfs_lookup_path_def Let_def split: if_splits)
  from lookup_walk_inode [OF assms(1) this] show thesis using assms(3) that by blast
qed

lemma extends_files_kept:
  assumes ok: "vfs_ok s" "vfs_ok s'" and ex: "extends s s'"
  shows "files_kept s s'"
  unfolding files_kept_def
proof (intro allI impI)
  fix q a assume q: "0 \<notin> set q" and l: "vfs_lookup_path q True s = Some a" and a: "a \<noteq> 0"
  note l' = lookup_extends [OF ok ex q l a]
  obtain i where i: "inodes s a = Some i" by (rule lookup_inode [OF ok(1) l a])
  obtain new where "inodes s' a = Some (i\<lparr>i_children := new\<rparr>)" using extends_inode [OF ex i] by blast
  then show "vfs_lookup_path q True s' = Some a \<and> vfs_stat q s' = vfs_stat q s \<and>
      (\<forall>off cnt. vfs_read_at q off cnt s' = vfs_read_at q off cnt s)"
    using l l' i a by (simp add: vfs_stat_def inode_stat_def vfs_read_at_def)
qed

lemma kept_files: "vfs_ok s \<Longrightarrow> kept b s s' \<Longrightarrow> vfs_ok s' \<and> files_kept s s'"
  using extends_files_kept by (auto simp: kept_def)

section \<open>The properties of the file system\<close>

text \<open>A file system that holds only its root directory.\<close>

definition vfs_example :: kvfs where
  "vfs_example = kheap.extend (kheap.truncate (heap_example\<lparr>hblocks :=
      [0x10000000 \<mapsto> \<lparr>hb_size = 0x20, hb_free = False, hb_next = 0x10000040, hb_prev = 0\<rparr>,
       0x10000040 \<mapsto> \<lparr>hb_size = 0xFFA0, hb_free = True, hb_next = 0, hb_prev = 0x10000000\<rparr>]\<rparr>))
     (kvfs.fields 0x10000020 [0x10000020 \<mapsto> blank_inode VFS_TYPE_DIR 0x41ED])"

lemma vfs_example_simps [simp]:
  "root_inode vfs_example = 0x10000020"
  "inodes vfs_example = [0x10000020 \<mapsto> blank_inode VFS_TYPE_DIR 0x41ED]"
  "heap_current vfs_example = 0x10010000" "heap_head vfs_example = 0x10000000"
  "heap_mapped_end vfs_example = 0x10010000"
  "hblocks vfs_example = [0x10000000 \<mapsto> \<lparr>hb_size = 0x20, hb_free = False, hb_next = 0x10000040, hb_prev = 0\<rparr>,
       0x10000040 \<mapsto> \<lparr>hb_size = 0xFFA0, hb_free = True, hb_next = 0, hb_prev = 0x10000000\<rparr>]"
  by (simp_all add: vfs_example_def kheap.defs kvfs.defs heap_example_def kpaging.defs)

lemma vfs_example_heap: "heap_ok vfs_example [(0x10000000, 0x20, False), (0x10000040, 0xFFA0, True)]"
  by (simp add: heap_ok_def heap_shape_def insert_commute)

lemma vfs_example_ok: "vfs_ok vfs_example"
proof -
  have "heap_inv vfs_example" using vfs_example_heap by (auto simp: heap_inv_def)
  then show ?thesis
    by (simp add: vfs_ok_def kmalloc_live_def inode_ok_def blank_inode_def)
qed

lemma vfs_example_spare: "heap_spare 0xFFA0 vfs_example"
  using vfs_example_heap unfolding heap_spare_def by force

text \<open>The path \<^verbatim>\<open>/etc\<close>.\<close>

definition etc_path :: "u8 list" where
  "etc_path = [47, 101, 116, 99]"

lemma etc_comps [simp]: "comps etc_path = [[101, 116, 99]]"
  by (simp add: etc_path_def comps.simps vfs_skip_slash_def)

lemma etc_ok [simp]: "path_ok etc_path" "vfs_is_absolute etc_path" "0 \<notin> set etc_path" "length etc_path = 4"
  by (simp_all add: path_ok_def etc_path_def vfs_is_absolute_def)

lemma etc_creatable: "k \<le> 0xFFA0 \<Longrightarrow> creatable etc_path k vfs_example"
  using heap_spare_le [OF vfs_example_spare]
  by (auto simp: creatable_def blank_inode_def find_entry_def intro!: exI [of _ "[]"])

text \<open>Reading at an offset.\<close>

definition file_content :: "vfs_inode \<Rightarrow> u8 list" where
  "file_content i = (case i_data i of None \<Rightarrow> [] | Some (p, bs) \<Rightarrow> bs)"

lemma file_content_length: "inode_ok s i \<Longrightarrow> i_type i = VFS_TYPE_FILE \<Longrightarrow> length (file_content i) = unat (i_size i)"
  by (auto simp: inode_ok_def file_content_def split: option.splits)

lemma sint_small:
  assumes "unat (x::u64) < 2 ^ 63"
  shows "sint x = int (unat x)"
proof -
  have u: "uint x = int (unat x)" by simp
  have "int (unat x) < int (2 ^ 63)" using assms by (simp only: of_nat_less_iff)
  then have "uint x < 2 ^ 63" unfolding u by simp
  moreover have "- (2 ^ 63) \<le> uint x" by (rule order_trans [OF _ uint_ge_0]) simp
  ultimately have a: "signed_take_bit 63 (uint x) = uint x" by (rule signed_take_bit_int_eq_self [rotated])
  have b: "sint x = signed_take_bit 63 (uint x)" unfolding sint_uint by (rule arg_cong2 [of _ _ _ _ signed_take_bit]) simp_all
  show ?thesis by (rule trans [OF b trans [OF a u]])
qed

lemma read_at_file:
  assumes l: "vfs_lookup_path path True s = Some a" "a \<noteq> 0" and i: "inodes s a = Some i" "i_type i = VFS_TYPE_FILE"
    and ok: "inode_ok s i" and sz: "unat (i_size i) < 2 ^ 63"
  shows "vfs_read_at path off cnt s = Some (int (min (unat cnt) (unat (i_size i) - unat off)),
    take (unat cnt) (drop (unat off) (file_content i)))"
proof (cases "off \<ge> i_size i")
  case True
  then have "unat (i_size i) \<le> unat off" by (simp add: word_le_nat_alt)
  then show ?thesis
    using True l i file_content_length [OF ok i(2)] by (simp add: vfs_read_at_def)
next
  case False
  let ?av = "i_size i - off"
  define n where "n = (if cnt > ?av then ?av else cnt)"
  have lt: "unat off < unat (i_size i)" using False by (simp add: word_le_nat_alt not_le)
  have av: "unat ?av = unat (i_size i) - unat off" using False by (intro unat_sub_le) simp
  have n: "unat n = min (unat cnt) (unat (i_size i) - unat off)"
    using av by (auto simp: n_def word_less_nat_alt min_def)
  have "unat n < 2 ^ 63" using n sz by linarith
  note sn = sint_small [OF this]
  obtain p bs where d: "i_data i = Some (p, bs)"
    using ok i(2) lt by (auto simp: inode_ok_def split: option.splits)
  have len: "length bs = unat (i_size i)" using file_content_length [OF ok i(2)] d by (simp add: file_content_def)
  have "file_bytes (i_data i) off n = Some (take (unat n) (drop (unat off) bs))"
    using d n len lt by (simp add: file_bytes_def)
  moreover have "take (unat n) (drop (unat off) bs) = take (unat cnt) (drop (unat off) bs)"
    using n len by (simp add: min_def)
  ultimately show ?thesis
    using False l i sn d n by (simp add: vfs_read_at_def n_def [symmetric] Let_def file_content_def)
qed

text \<open>C19. \<^verbatim>\<open>vfs_create\<close> followed by \<^verbatim>\<open>vfs_read_at\<close>.  On a well-formed file system, with a path that names a
  new entry of an existing directory and memory for it, the file is created, and reading it back at any
  offset returns the bytes it was created with, cut off at its end.\<close>

theorem vfs_create_then_read:
  assumes "vfs_ok s" and "path_ok path" and "unat sz \<le> length data"
    and "heap_budget (length path * 0x40000 + (unat sz + 0x60000)) s"
    and "creatable path (unat sz + 560) s"
  shows "\<exists>s'. vfs_create path mode data sz s = Some (0, s') \<and> vfs_ok s' \<and>
    (\<forall>off cnt. vfs_read_at path off cnt s' =
       Some (int (min (unat cnt) (unat sz - unat off)), take (unat cnt) (drop (unat off) (take (unat sz) data))))"
proof -
  have z: "0 \<notin> set path" using assms(2) by (simp add: path_ok_def)
  obtain r s' where c: "vfs_create path mode data sz s = Some (r, s')" "kept 0 s s'"
    "r = 0 \<Longrightarrow> \<exists>a c. walk s' (root_inode s') (comps path) = Some a \<and> inodes s a = None \<and>
      inodes s' a = Some (file_inode mode sz c data) \<and> walk s (root_inode s) (comps path) = None"
    "creatable path (unat sz + 560) s \<Longrightarrow> r = 0"
    by (rule create_ok [OF assms(1) z assms(3), of 0]) (use assms(4) in auto)
  have ok: "vfs_ok s'" using c(2) by (simp add: kept_def)
  obtain a b where a: "walk s' (root_inode s') (comps path) = Some a" "inodes s' a = Some (file_inode mode sz b data)"
    using c(3) c(4) [OF assms(5)] by blast
  let ?i = "file_inode mode sz b data"
  have i: "i_type ?i = VFS_TYPE_FILE" "i_size ?i = sz" "file_content ?i = take (unat sz) data"
    by (auto simp: file_inode_def file_content_def word_gt_0)
  have sz: "unat (i_size ?i) < 2 ^ 63" using assms(4) i by (simp add: heap_budget_def)
  have l: "vfs_lookup_path path True s' = Some a" by (rule lookup_found [OF ok assms(2) a]) (simp add: i)
  show ?thesis
    using read_at_file [OF l vfs_okD(1) [OF ok a(2)] a(2) i(1) vfs_okD(3) [OF ok a(2)] sz] c(1,4) assms(5) ok i
    by auto
qed

theorem vfs_create_then_read_witness:
  "\<exists>s'. vfs_create etc_path 0x81A4 [104, 105, 33] 3 vfs_example = Some (0, s') \<and>
     vfs_read_at etc_path 1 10 s' = Some (2, [105, 33])"
  using vfs_create_then_read [OF vfs_example_ok, where path = etc_path and sz = 3 and data = "[104, 105, 33]" and mode = "0x81A4"] etc_creatable [of 563]
  by (auto simp: heap_budget_def)

text \<open>C20. Creating a file, a directory or a link never crashes the kernel, whatever the path, and keeps
  everything that is there: the operation returns 0 or -1, the file system stays well-formed, and every
  path that led to an inode, through symbolic links or not, leads to the same inode with the same status
  and the same bytes.  \<^verbatim>\<open>vfs_create\<close> refuses a path that exists.\<close>

theorem vfs_updates_keep_files:
  assumes "vfs_ok s" and "0 \<notin> set path" and "unat sz \<le> length data"
    and "0 \<notin> set target" and "length target < 0x10000"
    and "heap_budget (length path * 0x40000 + (unat sz + (length target + 0x60000))) s"
  shows "(\<exists>r s'. vfs_create path mode data sz s = Some (r, s') \<and> r \<in> {0, - 1} \<and> vfs_ok s' \<and> files_kept s s' \<and>
      (walk s (root_inode s) (comps path) \<noteq> None \<longrightarrow> r = - 1)) \<and>
    (\<exists>r s'. vfs_mkdir path mode s = Some (r, s') \<and> r \<in> {0, - 1} \<and> vfs_ok s' \<and> files_kept s s') \<and>
    (\<exists>r s'. vfs_symlink target path s = Some (r, s') \<and> r \<in> {0, - 1} \<and> vfs_ok s' \<and> files_kept s s' \<and>
      (walk s (root_inode s) (comps path) \<noteq> None \<longrightarrow> r = - 1))"
proof (intro conjI)
  have b: "heap_budget (length path * 0x40000 + (unat sz + 0x60000 + 0)) s"
    "heap_budget (length path * 0x40000 + (length target + 0x60000 + 0)) s"
    "heap_budget (length path * 0x40000 + (0x60000 + 0)) s"
    by (rule heap_budget_le [OF assms(6)]; simp)+
  note keep = kept_files [OF assms(1), of 0]
  show "\<exists>r s'. vfs_create path mode data sz s = Some (r, s') \<and> r \<in> {0, - 1} \<and> vfs_ok s' \<and> files_kept s s' \<and>
      (walk s (root_inode s) (comps path) \<noteq> None \<longrightarrow> r = - 1)"
    by (rule create_ok [OF assms(1-3) b(1), of mode]) (use keep in blast)
  show "\<exists>r s'. vfs_mkdir path mode s = Some (r, s') \<and> r \<in> {0, - 1} \<and> vfs_ok s' \<and> files_kept s s'"
    by (rule mkdir_ok [OF assms(1,2) b(3), of mode]) (use keep in blast)
  show "\<exists>r s'. vfs_symlink target path s = Some (r, s') \<and> r \<in> {0, - 1} \<and> vfs_ok s' \<and> files_kept s s' \<and>
      (walk s (root_inode s) (comps path) \<noteq> None \<longrightarrow> r = - 1)"
    by (rule symlink_ok [OF assms(1,2,4,5) b(2)]) (use keep in blast)
qed

theorem vfs_updates_keep_files_witness:
  "\<exists>r s'. vfs_create etc_path 0x81A4 [104, 105] 2 vfs_example = Some (r, s') \<and> vfs_ok s' \<and> files_kept vfs_example s'"
  using vfs_updates_keep_files [OF vfs_example_ok etc_ok(3), where sz = 2 and data = "[104, 105]" and target = "[]" and mode = "0x81A4"]
  by (auto simp: heap_budget_def)

text \<open>C30. On paths that meet no symbolic link, the C-level scan with its fixed-size buffers is the walk
  over the list of path components: \<^verbatim>\<open>vfs_lookup_path\<close> returns the inode the walk reaches, and null
  exactly when a component is missing, is longer than 255 bytes or is looked up in something that is no directory.\<close>

theorem vfs_lookup_plain:
  assumes "vfs_ok s" and "path_ok path" and "no_links s (root_inode s) (comps path)"
  shows "vfs_lookup_path path follow s =
    Some (case walk s (root_inode s) (comps path) of None \<Rightarrow> 0 | Some a \<Rightarrow> a)"
proof -
  obtain r where r: "inodes s (root_inode s) = Some r" "i_type r = VFS_TYPE_DIR" "root_inode s \<noteq> 0"
    using vfs_ok_root [OF assms(1)] by blast
  have z: "0 \<notin> set (vfs_skip_slash path)" using assms(2) skip_slash_zero by (simp add: path_ok_def)
  then show ?thesis
    using lookup_walk_plain [OF assms(1) _ z r(1)] r assms(2,3)
    by (simp add: vfs_lookup_path_def path_ok_def comps_skip)
qed

theorem vfs_lookup_plain_witness:
  "vfs_lookup_path etc_path True vfs_example = Some 0"
  using vfs_lookup_plain [OF vfs_example_ok etc_ok(1), of True]
  by (simp add: blank_inode_def find_entry_def)

text \<open>C31. \<^verbatim>\<open>vfs_symlink\<close> followed by \<^verbatim>\<open>vfs_readlink\<close> gives the target back, cut to the buffer with room
  for the terminating zero.\<close>

theorem vfs_symlink_then_readlink:
  assumes "vfs_ok s" and "path_ok path" and "0 \<notin> set target" and "length target < 0x10000"
    and "heap_budget (length path * 0x40000 + (length target + 0x60000)) s"
    and "creatable path (length target + 561) s" and "bufsz \<noteq> 0"
  shows "\<exists>s'. vfs_symlink target path s = Some (0, s') \<and> vfs_ok s' \<and>
    vfs_readlink path bufsz s' = Some (int (min (length target) (unat bufsz - 1)), take (unat bufsz - 1) target)"
proof -
  have z: "0 \<notin> set path" using assms(2) by (simp add: path_ok_def)
  have b: "heap_budget (length path * 0x40000 + (length target + 0x60000 + 0)) s" using assms(5) by simp
  obtain r s' where c: "vfs_symlink target path s = Some (r, s')" "kept 0 s s'"
    "r = 0 \<Longrightarrow> \<exists>a c. walk s' (root_inode s') (comps path) = Some a \<and> inodes s a = None \<and>
      inodes s' a = Some (link_inode c target) \<and> walk s (root_inode s) (comps path) = None"
    "creatable path (length target + 561) s \<Longrightarrow> r = 0"
    by (rule symlink_ok [OF assms(1) z assms(3,4) b]) blast
  have ok: "vfs_ok s'" using c(2) by (simp add: kept_def)
  obtain a q where a: "walk s' (root_inode s') (comps path) = Some a" "inodes s' a = Some (link_inode q target)"
    using c(3) c(4) [OF assms(6)] by blast
  have "vfs_lookup_path path False s' = Some a" by (rule lookup_found [OF ok assms(2) a]) simp
  moreover have "0 < unat bufsz" using assms(7) by (simp add: unat_gt_0)
  ultimately show ?thesis
    using c(1) c(4) [OF assms(6)] ok a(2) vfs_okD(1) [OF ok a(2)] assms(7)
    by (auto simp: vfs_readlink_def link_inode_def Let_def)
qed

theorem vfs_symlink_then_readlink_witness:
  "\<exists>s'. vfs_symlink [47, 98, 105, 110] etc_path vfs_example = Some (0, s') \<and>
     vfs_readlink etc_path 4 s' = Some (3, [47, 98, 105])"
  using vfs_symlink_then_readlink [OF vfs_example_ok etc_ok(1), where target = "[47, 98, 105, 110]" and bufsz = 4]
    etc_creatable [of 565]
  by (auto simp: heap_budget_def)

text \<open>\<^verbatim>\<open>vfs_mkdir\<close> makes an empty directory of the given mode, and doing it again succeeds and changes
  nothing.\<close>

theorem vfs_mkdir_then_stat:
  assumes "vfs_ok s" and "path_ok path" and "heap_budget (length path * 0x40000 + 0x60000) s"
    and "creatable path 496 s"
  shows "\<exists>s'. vfs_mkdir path mode s = Some (0, s') \<and> vfs_ok s' \<and>
    vfs_stat path s' = Some (0, Some \<lparr>st_type = VFS_TYPE_DIR, st_mode = mode, st_size = 0\<rparr>) \<and>
    vfs_readdir path n s' = Some (0, []) \<and> vfs_mkdir path mode2 s' = Some (0, s')"
proof -
  have z: "0 \<notin> set path" using assms(2) by (simp add: path_ok_def)
  have b: "heap_budget (length path * 0x40000 + (0x60000 + 0)) s" using assms(3) by simp
  obtain r s' where m: "vfs_mkdir path mode s = Some (r, s')" "kept 0 s s'"
    "r = 0 \<Longrightarrow> \<exists>a. walk s' (root_inode s') (comps path) = Some a \<and>
      (inodes s a = None \<and> inodes s' a = Some (blank_inode VFS_TYPE_DIR mode) \<and> walk s (root_inode s) (comps path) = None \<or>
       (\<exists>p nm e s1. vfs_lookup_parent path True s = Some (p, nm, s1) \<and> s' = s1 \<and> vfs_dir_find p nm (length nm) s1 = Some (Some e)))"
    "creatable path 496 s \<Longrightarrow> r = 0 \<and> walk s (root_inode s) (comps path) = None"
    by (rule mkdir_ok [OF assms(1) z b]) blast
  have ok: "vfs_ok s'" using m(2) by (simp add: kept_def)
  have r0: "r = 0" using m(4) [OF assms(4)] by simp
  obtain a where a: "walk s' (root_inode s') (comps path) = Some a" "inodes s' a = Some (blank_inode VFS_TYPE_DIR mode)"
    using m(3) [OF r0] creatable_place [OF assms(1) z assms(4)] by fastforce
  have l: "vfs_lookup_path path True s' = Some a" by (rule lookup_found [OF ok assms(2) a]) (simp add: blank_inode_def)
  obtain ds nm where ds: "comps path = ds @ [nm]" "vfs_is_absolute path" "\<forall>c \<in> set (comps path). length c \<le> 255"
    using assms(4) by (auto simp: creatable_def)
  obtain p d e where p: "walk s' (root_inode s') ds = Some p" "inodes s' p = Some d" "i_type d = VFS_TYPE_DIR"
    "find_entry d nm = Some e"
    using a(1) ds(1) by (auto simp: walk_append split: option.splits if_splits)
  have rt: "inodes s' (root_inode s') \<noteq> None" "root_inode s' \<noteq> 0" using vfs_ok_root [OF ok] by auto
  have "lookup_parent_loop True (root_inode s') (vfs_skip_slash path) s' = Some (p, nm, s')"
    using lookup_parent_existing [OF ok skip_slash_idem skip_slash_zero [OF z] _ _ rt(1) p(1)] ds by (simp add: comps_skip)
  then have par: "vfs_lookup_parent path True s' = Some (p, nm, s')" using ds(2) rt by (simp add: vfs_lookup_parent_def)
  have nm: "nm \<noteq> [] \<and> 0 \<notin> set nm \<and> slash \<notin> set nm" by (rule comps_names [OF _ z]) (simp add: ds(1))
  then have "vfs_mkdir path mode2 s' = Some (0, s')"
    using par p vfs_okD(1) [OF ok p(2)] vfs_dir_find_eq [OF ok p(2)] by (simp add: vfs_mkdir_def)
  then show ?thesis
    using m(1) r0 ok l a(2) vfs_okD(1) [OF ok a(2)]
    by (auto simp: vfs_stat_def inode_stat_def vfs_readdir_def blank_inode_def)
qed

theorem vfs_mkdir_then_stat_witness:
  "\<exists>s'. vfs_mkdir etc_path 0x41ED vfs_example = Some (0, s') \<and>
     vfs_stat etc_path s' = Some (0, Some \<lparr>st_type = VFS_TYPE_DIR, st_mode = 0x41ED, st_size = 0\<rparr>)"
  using vfs_mkdir_then_stat [OF vfs_example_ok etc_ok(1), where mode = "0x41ED"] etc_creatable [of 496]
  by (auto simp: heap_budget_def)

text \<open>C32. A symbolic link to itself hangs the kernel: the limit of eight links is reset before every
  restart, so looking up the path of a link in the root directory whose target is that path never returns.\<close>

theorem vfs_symlink_cycle_hangs:
  assumes "vfs_ok s" and "inodes s (root_inode s) = Some root" and "name_ok nm"
    and "find_entry root nm = Some e" and "inodes s (de_inode e) = Some link"
    and "i_type link = VFS_TYPE_SYMLINK" and "i_target link = Some (p, slash # nm)"
  shows "vfs_lookup_path (slash # nm) True s = None"
proof -
  let ?path = "slash # nm"
  have ty: "i_type root = VFS_TYPE_DIR" and r0: "root_inode s \<noteq> 0" using vfs_ok_root [OF assms(1)] assms(2) by auto
  have nm: "nm \<noteq> []" "0 \<notin> set nm" "slash \<notin> set nm" "length nm \<le> 255" using assms(3) by (simp_all add: name_ok_def)
  have tw: "takeWhile (\<lambda>x. x \<noteq> slash) nm = nm" "dropWhile (\<lambda>x. x \<noteq> slash) nm = []"
    using nm(3) by (auto simp: takeWhile_eq_all_conv dropWhile_eq_Nil_conv)
  have sk: "vfs_skip_slash ?path = nm" "vfs_skip_slash [] = []"
    using nm(1,3) by (cases nm; simp add: vfs_skip_slash_def)+
  have sc: "scan_component nm 0 = Some (nm, [])" using scan_component_eq [of 0 nm] nm(4) by (simp only: tw) simp
  have fd: "vfs_dir_find (root_inode s) nm (length nm) s = Some (Some e)"
    using vfs_dir_find_eq [OF assms(1,2) nm(2)] ty assms(4) by simp
  have rs: "vfs_symlink_resolve b ?path = Some ?path" for b
    using nm(4) by (simp add: vfs_symlink_resolve_def vfs_is_absolute_def)
  have tk: "take 511 ?path = ?path" using nm(4) by simp
  have "lookup_walk True s ?path (root_inode s) nm 0 = None"
  proof (rule ccontr)
    assume "lookup_walk True s ?path (root_inode s) nm 0 \<noteq> None"
    then obtain y where y: "lookup_walk True s ?path (root_inode s) nm 0 = Some y" by blast
    define Q where "Q f t cp cu cs de \<longleftrightarrow> \<not> (f \<and> t = s \<and> cp = ?path \<and> cu = root_inode s \<and> cs = nm \<and> de = 0)"
      for f t cp cu cs and de :: nat
    have "Q True s ?path (root_inode s) nm 0"
    proof (rule lookup_walk.raw_induct [where P = "\<lambda>f t cp cu cs de y. Q f t cp cu cs de", OF _ y], goal_cases)
      case (1 lw f t cp cu cs de z)
      show ?case
        unfolding Q_def
      proof
        assume "f \<and> t = s \<and> cp = ?path \<and> cu = root_inode s \<and> cs = nm \<and> de = 0"
        then have "lw True s ?path (root_inode s) nm 0 = Some z"
          using 1(2) sc nm(1,4) assms(2,5,6,7) ty fd sk rs tk by (simp add: Let_def)
        then show False using 1(1) unfolding Q_def by blast
      qed
    qed
    then show False by (simp add: Q_def)
  qed
  then show ?thesis using r0 sk tk by (simp add: vfs_lookup_path_def vfs_is_absolute_def Let_def)
qed

fun read_run :: "u64 list \<Rightarrow> vfs_file \<Rightarrow> 'a kvfs_scheme \<Rightarrow> (u8 list \<times> vfs_file) option" where
  "read_run [] file s = Some ([], file)"
| "read_run (n # ns) file s =
     do { (r, bytes, file1) \<leftarrow> vfs_read file n s;
          (rest, file2) \<leftarrow> read_run ns file1 s;
          Some (bytes @ rest, file2) }"

lemma clamp_min: "(if (n::u64) > m then m else n) = min n m"
  by (auto simp: min_def)

lemma read_step:
  assumes i: "inodes s (vf_inode f) = Some i" "i_type i = VFS_TYPE_FILE" "vf_inode f \<noteq> 0" and ok: "inode_ok s i"
    and pos: "vf_pos f \<le> i_size i"
  obtains r where "vfs_read f n s = Some (r, take (unat n) (drop (unat (vf_pos f)) (file_content i)),
      f\<lparr>vf_pos := vf_pos f + min n (i_size i - vf_pos f)\<rparr>)"
    and "unat (vf_pos f + min n (i_size i - vf_pos f)) = min (unat (vf_pos f) + unat n) (unat (i_size i))"
    and "vf_pos f + min n (i_size i - vf_pos f) \<le> i_size i"
    and "r = sint (min n (i_size i - vf_pos f))"
    and "unat (min n (i_size i - vf_pos f)) = min (unat n) (unat (i_size i) - unat (vf_pos f))"
proof -
  let ?av = "i_size i - vf_pos f"
  let ?n = "min n ?av"
  have le: "unat (vf_pos f) \<le> unat (i_size i)" using pos by (simp add: word_le_nat_alt)
  have av: "unat ?av = unat (i_size i) - unat (vf_pos f)" by (rule unat_sub_le [OF pos])
  have un: "unat ?n = min (unat n) (unat (i_size i) - unat (vf_pos f))"
    unfolding av [symmetric] by (simp add: min_def word_le_nat_alt)
  have len: "length (file_content i) = unat (i_size i)" by (rule file_content_length [OF ok i(2)])
  have "unat (i_size i) < 2 ^ 64" by (rule order_less_le_trans [OF unat_lt64]) simp
  then have "unat (vf_pos f) + unat ?n < 2 ^ 64" using un le by linarith
  then have s: "unat (vf_pos f + ?n) = unat (vf_pos f) + unat ?n" by (rule unat_add_small)
  then have p: "unat (vf_pos f + ?n) = min (unat (vf_pos f) + unat n) (unat (i_size i))" using un le by linarith
  then have q: "vf_pos f + ?n \<le> i_size i" by (simp add: word_le_nat_alt)
  show thesis
  proof (cases "i_size i \<le> vf_pos f")
    case True
    then have e: "vf_pos f = i_size i" using pos by simp
    then have "vfs_read f n s = Some (0, [], f)" using i by (simp add: vfs_read_def)
    then show thesis using that [of 0] e len p q un by (cases f) simp
  next
    case False
    then have lt: "unat (vf_pos f) < unat (i_size i)" by (simp add: word_le_nat_alt)
    obtain q bs where d: "i_data i = Some (q, bs)" using ok i(2) lt by (auto simp: inode_ok_def split: option.splits)
    have lb: "length bs = unat (i_size i)" using len d by (simp add: file_content_def)
    have fb: "file_bytes (i_data i) (vf_pos f) ?n = Some (take (unat ?n) (drop (unat (vf_pos f)) bs))"
      using d un lb lt by (simp add: file_bytes_def)
    have tk: "take (unat ?n) (drop (unat (vf_pos f)) bs) = take (unat n) (drop (unat (vf_pos f)) bs)"
      using un lb by (simp add: min_def)
    have mn: "(if n > ?av then ?av else n) = ?n" by (rule clamp_min)
    have up: "(if ?n > 0 \<and> i_data i \<noteq> None then f\<lparr>vf_pos := vf_pos f + ?n\<rparr> else f) = f\<lparr>vf_pos := vf_pos f + ?n\<rparr>"
    proof (cases "?n = 0")
      case True
      then show ?thesis by (cases f) simp
    qed (use d in \<open>simp add: word_gt_0\<close>)
    have "vfs_read f n s = Some (sint ?n, take (unat n) (drop (unat (vf_pos f)) bs), f\<lparr>vf_pos := vf_pos f + ?n\<rparr>)"
      using i False fb tk up by (simp add: vfs_read_def Let_def mn cong: if_cong split del: if_split)
    then show thesis using that [of "sint ?n"] d p q un by (simp add: file_content_def)
  qed
qed

text \<open>C33. Reading an open file in pieces: whatever the sequence of counts, the pieces together are the
  file's bytes from the old position on, as many as were asked for or as there are, and the position
  advances by as many.\<close>

theorem vfs_read_in_pieces:
  assumes "vfs_ok s" and "vf_inode f \<noteq> 0" and "inodes s (vf_inode f) = Some i"
    and "i_type i = VFS_TYPE_FILE" and "vf_pos f \<le> i_size i"
  shows "\<exists>f'. read_run ns f s =
      Some (take (sum_list (map unat ns)) (drop (unat (vf_pos f)) (file_content i)), f') \<and>
    unat (vf_pos f') = min (unat (vf_pos f) + sum_list (map unat ns)) (unat (i_size i))"
  using assms(2,3,5)
proof (induction ns arbitrary: f)
  case Nil
  then show ?case by (simp add: word_le_nat_alt min_def)
next
  case (Cons n ns)
  let ?pos = "vf_pos f + min n (i_size i - vf_pos f)"
  have ok: "inode_ok s i" by (rule vfs_okD(3) [OF assms(1) Cons.prems(2)])
  obtain r where r: "vfs_read f n s = Some (r, take (unat n) (drop (unat (vf_pos f)) (file_content i)),
      f\<lparr>vf_pos := ?pos\<rparr>)"
    and p: "unat ?pos = min (unat (vf_pos f) + unat n) (unat (i_size i))" and le: "?pos \<le> i_size i"
    by (rule read_step [OF Cons.prems(2) assms(4) Cons.prems(1) ok Cons.prems(3)])
  obtain f' where run: "read_run ns (f\<lparr>vf_pos := ?pos\<rparr>) s =
      Some (take (sum_list (map unat ns)) (drop (unat ?pos) (file_content i)), f')"
    "unat (vf_pos f') = min (unat ?pos + sum_list (map unat ns)) (unat (i_size i))"
    using Cons.IH [of "f\<lparr>vf_pos := ?pos\<rparr>"] Cons.prems le by auto
  have len: "length (file_content i) = unat (i_size i)" by (rule file_content_length [OF ok assms(4)])
  let ?d = "drop (unat (vf_pos f)) (file_content i)"
  have "take (unat n) ?d @ take (sum_list (map unat ns)) (drop (unat ?pos) (file_content i)) =
      take (unat n + sum_list (map unat ns)) ?d"
  proof -
    have "drop (unat ?pos) (file_content i) = drop (unat n) ?d"
      using p len by (auto simp: min_def add.commute)
    then show ?thesis by (simp add: take_add)
  qed
  then show ?case using r run p by (auto simp: min_def)
qed

text \<open>The example with the file \<^verbatim>\<open>/etc\<close> of five bytes.\<close>

definition file_example :: kvfs where
  "file_example = vfs_example\<lparr>hblocks := [0x10000000 \<mapsto> \<lparr>hb_size = 0x20, hb_free = False, hb_next = 0x10000040, hb_prev = 0\<rparr>,
       0x10000040 \<mapsto> \<lparr>hb_size = 0xFFA0, hb_free = False, hb_next = 0, hb_prev = 0x10000000\<rparr>],
     inodes := [0x10000020 \<mapsto> (blank_inode VFS_TYPE_DIR 0x41ED)\<lparr>i_children := [\<lparr>de_name = [101, 116, 99], de_inode = 0x10000060\<rparr>]\<rparr>,
       0x10000060 \<mapsto> file_inode 0x81A4 5 0x10000090 [1, 2, 3, 4, 5]]\<rparr>"

lemma file_example_ok: "vfs_ok file_example"
proof -
  have "heap_ok file_example [(0x10000000, 0x20, False), (0x10000040, 0xFFA0, False)]"
    by (simp add: heap_ok_def heap_shape_def file_example_def insert_commute)
  then have "heap_inv file_example" by (auto simp: heap_inv_def)
  then show ?thesis
    by (simp add: vfs_ok_def kmalloc_live_def inode_ok_def blank_inode_def file_inode_def name_ok_def file_example_def)
qed

theorem vfs_read_in_pieces_witness:
  "\<exists>f. read_run [1, 3, 5] \<lparr>vf_inode = 0x10000060, vf_pos = 0, vf_path = [], vf_pipe = None, vf_pipe_end = 0\<rparr> file_example =
     Some ([1, 2, 3, 4, 5], f) \<and> unat (vf_pos f) = 5"
  using vfs_read_in_pieces [OF file_example_ok, where ns = "[1, 3, 5]" and f =
      "\<lparr>vf_inode = 0x10000060, vf_pos = 0, vf_path = [], vf_pipe = None, vf_pipe_end = 0\<rparr>"]
  by (simp add: file_example_def file_inode_def file_content_def)

text \<open>The example with \<^verbatim>\<open>/etc\<close> a symbolic link to itself.\<close>

definition loop_example :: kvfs where
  "loop_example = file_example\<lparr>inodes :=
     [0x10000020 \<mapsto> (blank_inode VFS_TYPE_DIR 0x41ED)\<lparr>i_children := [\<lparr>de_name = [101, 116, 99], de_inode = 0x10000060\<rparr>]\<rparr>,
      0x10000060 \<mapsto> link_inode 0x10000090 etc_path]\<rparr>"

lemma loop_example_ok: "vfs_ok loop_example"
proof -
  have "heap_inv loop_example" using file_example_ok by (simp add: vfs_ok_def loop_example_def)
  then show ?thesis
    by (simp add: vfs_ok_def kmalloc_live_def inode_ok_def blank_inode_def link_inode_def name_ok_def file_example_def
        loop_example_def)
qed

theorem vfs_symlink_cycle_hangs_witness:
  "vfs_lookup_path etc_path True loop_example = None"
proof -
  have "find_entry ((blank_inode VFS_TYPE_DIR 0x41ED)\<lparr>i_children := [\<lparr>de_name = [101, 116, 99], de_inode = 0x10000060\<rparr>]\<rparr>)
      [101, 116, 99] = Some \<lparr>de_name = [101, 116, 99], de_inode = 0x10000060\<rparr>" by (simp add: find_entry_def)
  from vfs_symlink_cycle_hangs [OF loop_example_ok _ _ this, of "link_inode 0x10000090 etc_path" "0x10000090"]
  have "vfs_lookup_path (slash # [101, 116, 99]) True loop_example = None"
    by (simp add: loop_example_def file_example_def name_ok_def link_inode_def etc_path_def)
  then show ?thesis by (simp add: etc_path_def)
qed

text \<open>\<^verbatim>\<open>vfs_init\<close> on a fresh heap makes a well-formed file system whose only path is the root, an
  empty directory; it needs one small block, and leaves the root null when there is none.\<close>

theorem vfs_init_ok:
  assumes "heap_inv s" and "heap_budget 0x11018 s" and "inodes s = (\<lambda>a. None)"
  shows "\<exists>s'. vfs_init s = Some s' \<and> (heap_spare 88 s \<longrightarrow> vfs_root_inode s' \<noteq> 0) \<and>
    (vfs_root_inode s' \<noteq> 0 \<longrightarrow> vfs_ok s' \<and> vfs_readdir [slash] n s' = Some (0, []) \<and>
      (\<forall>path. path_ok path \<longrightarrow> comps path \<noteq> [] \<longrightarrow> vfs_lookup_path path True s' = Some 0))"
proof -
  have b: "heap_budget (unat sizeof_inode + 0x11000 + 0) s" using assms(2) by simp
  obtain p s1 where k: "kmalloc sizeof_inode s = Some (p, s1)" "heap_inv s1" "kheap.more s1 = kheap.more s"
    "\<And>q. kmalloc_live s1 q \<longleftrightarrow> (p \<noteq> 0 \<and> q = p) \<or> kmalloc_live s q"
    by (rule kmalloc_step [OF assms(1) _ b]) simp_all
  note f = vfs_fields [OF k(3)]
  have m: "S_IFDIR OR 0x1ED = (0x41ED :: u32)" by simp
  show ?thesis
  proof (cases "p = 0")
    case True
    then show ?thesis
      using k(1) kmalloc_spare [of sizeof_inode 0 s p s1] by (auto simp: vfs_init_def vfs_inode_new_def vfs_root_inode_def)
  next
    case False
    let ?s = "(iput p (blank_inode VFS_TYPE_DIR 0x41ED) s1)\<lparr>root_inode := p\<rparr>"
    have run: "vfs_init s = Some ?s"
      using k(1) False by (simp add: vfs_init_def vfs_inode_new_def blank_inode_def m)
    have ino: "inodes ?s = [p \<mapsto> blank_inode VFS_TYPE_DIR 0x41ED]" using f assms(3) by (simp add: iput_def)
    have ok: "vfs_ok ?s"
      using k False ino by (simp add: vfs_ok_def inode_ok_def blank_inode_def iput_def)
    have "vfs_lookup_path path True ?s = Some 0" if "path_ok path" "comps path \<noteq> []" for path
      using vfs_lookup_plain [OF ok that(1)] that(2) ino
      by (cases "comps path") (simp_all add: find_entry_def blank_inode_def)
    moreover have "vfs_readdir [slash] n ?s = Some (0, [])"
    proof -
      have "comps [slash] = []" by (simp add: comps.simps vfs_skip_slash_def)
      moreover have "path_ok [slash]" by (simp add: path_ok_def vfs_is_absolute_def)
      ultimately have "vfs_lookup_path [slash] True ?s = Some p"
        using vfs_lookup_plain [OF ok, of "[slash]"] by (simp add: iput_def)
      then show ?thesis using False ino by (simp add: vfs_readdir_def blank_inode_def)
    qed
    ultimately show ?thesis using run ok False by (simp add: vfs_root_inode_def)
  qed
qed

theorem vfs_init_ok_witness:
  "\<exists>s'. vfs_init (vfs_example\<lparr>inodes := \<lambda>a. None\<rparr>) = Some s' \<and> vfs_ok s' \<and> vfs_lookup_path etc_path True s' = Some 0"
proof -
  have "heap_inv vfs_example" using vfs_example_ok by (simp add: vfs_ok_def)
  then show ?thesis
    using vfs_init_ok [of "vfs_example\<lparr>inodes := \<lambda>a. None\<rparr>" 0] heap_spare_le [OF vfs_example_spare, of 88]
    by (auto simp: heap_budget_def)
qed

end
