(* ===== verification/Cpio.thy ===== *)
theory Cpio
  imports Vfs Multiboot
begin

unbundle bit_operations_syntax

text \<open>
  The initial file system: \<^verbatim>\<open>core/fs/cpio.c\<close> unpacks a ``newc'' cpio archive into the VFS, either from
  bytes in the kernel's address space or from physical memory through the mapping window, and
  \<^verbatim>\<open>core/fs/initramfs.c\<close> does it for the first boot module.  An archive in memory is a base address and
  the list of its bytes; a pointer is a 64-bit address into it, because the code aligns addresses.
  \<open>None\<close> is a read outside the archive, a crash of an operation below, or a loop that does not end.
\<close>

section \<open>Fields of the header\<close>

definition CPIO_NEWC_MAGIC :: "u8 list" where "CPIO_NEWC_MAGIC = [48, 55, 48, 55, 48, 49]"
definition CPIO_TRAILER :: "u8 list" where "CPIO_TRAILER = [84, 82, 65, 73, 76, 69, 82, 33, 33, 33, 0]"
definition CPIO_HEADER_SIZE :: u64 where [simp]: "CPIO_HEADER_SIZE = 110"

definition hex_digit :: "u8 \<Rightarrow> u32" where
  "hex_digit c =
     (if c \<ge> 48 \<and> c \<le> 57 then ucast (c - 48)
      else if c \<ge> 97 \<and> c \<le> 102 then ucast (c - 97) + 10
      else if c \<ge> 65 \<and> c \<le> 70 then ucast (c - 65) + 10
      else 0)"

fun parse_hex_loop :: "u8 list \<Rightarrow> nat \<Rightarrow> u32 \<Rightarrow> u32 option" where
  "parse_hex_loop text 0 val = Some val"
| "parse_hex_loop [] (Suc n) val = None"
| "parse_hex_loop (c # text) (Suc n) val = parse_hex_loop text n (push_bit 4 val OR hex_digit c)"

definition cpio_parse_hex :: "u8 list \<Rightarrow> nat \<Rightarrow> u32 option" where
  "cpio_parse_hex text len = parse_hex_loop text len 0"

text \<open>\<open>~3U\<close> is a 32-bit constant, so the mask clears the upper half of a 64-bit value.\<close>

definition cpio_align4 :: "u64 \<Rightarrow> u64" where
  "cpio_align4 v = (v + 3) AND ucast (NOT (3 :: u32))"

definition cpio_align_offset :: "u64 \<Rightarrow> u64" where
  "cpio_align_offset offset = cpio_align4 offset"

text \<open>The offsets in the header of the fields that are read.\<close>

definition cpio_field :: "u8 list \<Rightarrow> nat \<Rightarrow> u32 option" where
  "cpio_field hdr off = cpio_parse_hex (drop off hdr) 8"

definition c_mode :: nat where [simp]: "c_mode = 14"
definition c_filesize :: nat where [simp]: "c_filesize = 54"
definition c_namesize :: nat where [simp]: "c_namesize = 94"

section \<open>Installing an entry\<close>

text \<open>The name is given by its bytes up to the end of the object it is in.\<close>

definition strip_prefix :: "u8 list \<Rightarrow> u8 list" where
  "strip_prefix name = dropWhile (\<lambda>c. c = slash) (dropWhile (\<lambda>c. c = 46) name)"

definition cpio_normalize_path ::
    "u8 list \<Rightarrow> 'a kvfs_scheme \<Rightarrow> ((u64 \<times> u8 list) option \<times> 'a kvfs_scheme) option" where
  "cpio_normalize_path name s =
     do { len \<leftarrow> strlen name;
          let rest = strip_prefix (take len name);
          if rest = [] then Some (None, s)
          else
            do { (path, s1) \<leftarrow> kmalloc (of_nat (length rest) + 2) s;
                 if path = 0 then Some (None, s1) else Some (Some (path, slash # rest), s1) } }"

text \<open>\<open>data\<close> is \<open>None\<close> for the null pointer.\<close>

definition cpio_install_entry ::
    "u8 list \<Rightarrow> u32 \<Rightarrow> u8 list option \<Rightarrow> u64 \<Rightarrow> 'a kvfs_scheme \<Rightarrow> (int \<times> 'a kvfs_scheme) option" where
  "cpio_install_entry path mode data sz s =
     (if mode AND S_IFMT = S_IFDIR then vfs_mkdir path mode s
      else if mode AND S_IFMT = S_IFLNK then
        (case data of
           None \<Rightarrow> Some (- 1, s)
         | Some bytes \<Rightarrow>
             if sz = 0 then Some (- 1, s)
             else
               do { (target, s1) \<leftarrow> kmalloc (sz + 1) s;
                    if target = 0 then Some (- 1, s1)
                    else if unat sz > length bytes then None
                    else
                      do { (rc, s2) \<leftarrow> vfs_symlink (cstring (take (unat sz) bytes)) path s1;
                           s3 \<leftarrow> kfree target s2;
                           Some (rc, s3) } })
      else if mode AND S_IFMT = S_IFREG \<or> mode AND S_IFMT = 0 then
        (let mode = (if mode AND S_IFMT = 0 then mode OR S_IFREG else mode)
         in vfs_create path mode (case data of None \<Rightarrow> [] | Some bytes \<Rightarrow> bytes) sz s)
      else Some (0, s))"

definition cpio_install_entry_phys ::
    "u8 list \<Rightarrow> u32 \<Rightarrow> u64 \<Rightarrow> u64 \<Rightarrow> 'a kvfs_scheme \<Rightarrow> (int \<times> 'a kvfs_scheme) option" where
  "cpio_install_entry_phys path mode data_phys sz s =
     (if mode AND S_IFMT = S_IFDIR then vfs_mkdir path mode s
      else if mode AND S_IFMT = S_IFLNK then
        (if sz = 0 then Some (- 1, s)
         else
           do { (target, s1) \<leftarrow> kmalloc (sz + 1) s;
                if target = 0 then Some (- 1, s1)
                else
                  do { (r, bytes, s2) \<leftarrow> paging_copy_from_phys data_phys sz s1;
                       if r \<noteq> 0 then do { s3 \<leftarrow> kfree target s2; Some (- 1, s3) }
                       else
                         do { (rc, s3) \<leftarrow> vfs_symlink (cstring bytes) path s2;
                              s4 \<leftarrow> kfree target s3;
                              Some (rc, s4) } } })
      else if mode AND S_IFMT = S_IFREG \<or> mode AND S_IFMT = 0 then
        (let mode = (if mode AND S_IFMT = 0 then mode OR S_IFREG else mode)
         in if sz > 0 then
              do { (data, s1) \<leftarrow> kmalloc sz s;
                   if data = 0 then Some (- 1, s1)
                   else
                     do { (r, bytes, s2) \<leftarrow> paging_copy_from_phys data_phys sz s1;
                          if r \<noteq> 0 then do { s3 \<leftarrow> kfree data s2; Some (- 1, s3) }
                          else
                            do { (rc, s3) \<leftarrow> vfs_create path mode bytes sz s2;
                                 s4 \<leftarrow> kfree data s3;
                                 Some (rc, s4) } } }
            else
              do { (rc, s1) \<leftarrow> vfs_create path mode [] 0 s;
                   s2 \<leftarrow> kfree 0 s1;
                   Some (rc, s2) })
      else Some (0, s))"

section \<open>Unpacking\<close>

text \<open>The bytes from address \<open>a\<close> to the end of the archive.\<close>

definition bytes_from :: "u64 \<Rightarrow> u8 list \<Rightarrow> u64 \<Rightarrow> u8 list option" where
  "bytes_from base data a =
     (if unat (a - base) \<le> length data then Some (drop (unat (a - base)) data) else None)"

partial_function (option) populate_loop ::
    "u64 \<Rightarrow> u8 list \<Rightarrow> u64 \<Rightarrow> u64 \<Rightarrow> 'a kvfs_scheme \<Rightarrow> (int \<times> 'a kvfs_scheme) option" where
  "populate_loop base data cursor stop s =
     (if stop - cursor < CPIO_HEADER_SIZE then Some (- 1, s)
      else
        do { hdr \<leftarrow> bytes_from base data cursor;
             m \<leftarrow> memcmp hdr CPIO_NEWC_MAGIC 6;
             if m \<noteq> 0 then Some (- 1, s)
             else
               do { namesize \<leftarrow> cpio_field hdr c_namesize;
                    filesize \<leftarrow> cpio_field hdr c_filesize;
                    mode \<leftarrow> cpio_field hdr c_mode;
                    let cursor = cursor + CPIO_HEADER_SIZE;
                    if stop - cursor < ucast namesize then Some (- 1, s)
                    else if namesize = 0 then Some (- 1, s)
                    else
                      do { name \<leftarrow> bytes_from base data cursor;
                           t \<leftarrow> strncmp name CPIO_TRAILER (unat (namesize - 1));
                           if t = 0 then Some (0, s)
                           else
                             (let file_data = cpio_align_offset (cursor + ucast namesize)
                              in if file_data > stop then Some (- 1, s)
                                 else if stop - file_data < ucast filesize then Some (- 1, s)
                                 else
                                   do { (path, s1) \<leftarrow> cpio_normalize_path name s;
                                        let next = cpio_align_offset (file_data + ucast filesize);
                                        case path of
                                          None \<Rightarrow> populate_loop base data next stop s1
                                        | Some (p, str) \<Rightarrow>
                                            do { bytes \<leftarrow> bytes_from base data file_data;
                                                 (rc, s2) \<leftarrow> cpio_install_entry str mode
                                                   (if filesize > 0 then Some bytes else None) (ucast filesize) s1;
                                                 s3 \<leftarrow> kfree p s2;
                                                 if rc \<noteq> 0 then Some (rc, s3)
                                                 else populate_loop base data next stop s3 } }) } } })"

definition cpio_populate_vfs :: "u64 \<Rightarrow> u8 list \<Rightarrow> u64 \<Rightarrow> 'a kvfs_scheme \<Rightarrow> (int \<times> 'a kvfs_scheme) option" where
  "cpio_populate_vfs base data sz s =
     (if base = 0 then Some (- 1, s) else populate_loop base data base (base + sz) s)"

partial_function (option) populate_phys_loop ::
    "u64 \<Rightarrow> u64 \<Rightarrow> u64 \<Rightarrow> 'a kvfs_scheme \<Rightarrow> (int \<times> 'a kvfs_scheme) option" where
  "populate_phys_loop base_phys sz offset s =
     (if \<not> offset + CPIO_HEADER_SIZE \<le> sz then Some (- 1, s)
      else
        do { (r, hdr, s1) \<leftarrow> paging_copy_from_phys (base_phys + offset) CPIO_HEADER_SIZE s;
             if r \<noteq> 0 then Some (- 1, s1)
             else
               do { m \<leftarrow> memcmp hdr CPIO_NEWC_MAGIC 6;
                    if m \<noteq> 0 then Some (- 1, s1)
                    else
                      do { namesize \<leftarrow> cpio_field hdr c_namesize;
                           filesize \<leftarrow> cpio_field hdr c_filesize;
                           mode \<leftarrow> cpio_field hdr c_mode;
                           if namesize = 0 \<or> namesize > 4096 then Some (- 1, s1)
                           else
                             (let offset = offset + CPIO_HEADER_SIZE
                              in if offset + ucast namesize > sz then Some (- 1, s1)
                                 else
                                   do { (nbuf, s2) \<leftarrow> kmalloc (ucast namesize) s1;
                                        if nbuf = 0 then Some (- 1, s2)
                                        else
                                          do { (r, name, s3) \<leftarrow> paging_copy_from_phys (base_phys + offset) (ucast namesize) s2;
                                               if r \<noteq> 0 then do { s4 \<leftarrow> kfree nbuf s3; Some (- 1, s4) }
                                               else
                                                 do { t \<leftarrow> strncmp name CPIO_TRAILER (unat (namesize - 1));
                                                      if t = 0 then do { s4 \<leftarrow> kfree nbuf s3; Some (0, s4) }
                                                      else
                                                        (let offset = cpio_align_offset (offset + ucast namesize)
                                                         in if offset + ucast filesize > sz
                                                            then do { s4 \<leftarrow> kfree nbuf s3; Some (- 1, s4) }
                                                            else
                                                              do { (path, s4) \<leftarrow> cpio_normalize_path name s3;
                                                                   s5 \<leftarrow> kfree nbuf s4;
                                                                   let next = cpio_align_offset (offset + ucast filesize);
                                                                   case path of
                                                                     None \<Rightarrow> populate_phys_loop base_phys sz next s5
                                                                   | Some (p, str) \<Rightarrow>
                                                                       do { (rc, s6) \<leftarrow> cpio_install_entry_phys str mode
                                                                              (base_phys + offset) (ucast filesize) s5;
                                                                            s7 \<leftarrow> kfree p s6;
                                                                            if rc \<noteq> 0 then Some (rc, s7)
                                                                            else populate_phys_loop base_phys sz next s7 } }) } } }) } } })"

definition cpio_populate_vfs_phys :: "u64 \<Rightarrow> u64 \<Rightarrow> 'a kvfs_scheme \<Rightarrow> (int \<times> 'a kvfs_scheme) option" where
  "cpio_populate_vfs_phys base_phys sz s = populate_phys_loop base_phys sz 0 s"

section \<open>The initramfs\<close>

text \<open>The listing that \<^verbatim>\<open>initramfs_list_root\<close> prints: name and kind of each entry, \<open>None\<close> when the root
  cannot be read.\<close>

definition initramfs_list_root :: "'a kvfs_scheme \<Rightarrow> (u8 list \<times> string) list option option" where
  "initramfs_list_root s =
     do { (count, entries) \<leftarrow> vfs_readdir [slash] 32 s;
          if count < 0 then Some None
          else Some (Some (map (\<lambda>(name, t). (name, case t of VFS_TYPE_DIR \<Rightarrow> ''dir''
                                                    | VFS_TYPE_SYMLINK \<Rightarrow> ''link''
                                                    | VFS_TYPE_FILE \<Rightarrow> ''file'')) entries)) }"

definition dev_console :: "u8 list" where
  "dev_console = [47, 100, 101, 118, 47, 99, 111, 110, 115, 111, 108, 101]"

definition dev_null :: "u8 list" where
  "dev_null = [47, 100, 101, 118, 47, 110, 117, 108, 108]"

text \<open>The return code, the listing if one was printed, and the state; the structure at \<open>info\<close> is read
  through the identity mapping.\<close>

definition initramfs_load ::
    "u64 \<Rightarrow> 'a kvfs_scheme \<Rightarrow> (int \<times> (u8 list \<times> string) list option option \<times> 'a kvfs_scheme) option" where
  "initramfs_load info s =
     do { s1 \<leftarrow> vfs_init s;
          module \<leftarrow> multiboot_module_at (mem s1) info 0;
          if module = 0 then Some (0, None, s1)
          else
            (let sz = multiboot_module_size (mem s1) module
             in if sz = 0 then Some (- 1, None, s1)
                else
                  do { (rc, s2) \<leftarrow> cpio_populate_vfs_phys (ucast (mod_start (mem s1) module)) sz s1;
                       if rc \<noteq> 0 then Some (rc, None, s2)
                       else
                         do { listing \<leftarrow> initramfs_list_root s2;
                              (rc1, s3) \<leftarrow> vfs_create dev_console (S_IFREG OR 0x190) [0] 0 s2;
                              (rc2, s4) \<leftarrow> vfs_create dev_null (S_IFREG OR 0x1B6) [0] 0 s3;
                              Some (0, Some listing, s4) } }) }"

section \<open>Archives\<close>

text \<open>The format: a header of hexadecimal fields, the name with its terminating zero padded to four
  bytes, the contents padded to four bytes, and at the end an entry of the trailer's name.\<close>

definition hex_char :: "u32 \<Rightarrow> u8" where
  "hex_char d = (if d < 10 then 48 + ucast d else 55 + ucast d)"

fun print_hex :: "nat \<Rightarrow> u32 \<Rightarrow> u8 list" where
  "print_hex 0 v = []"
| "print_hex (Suc n) v = print_hex n (drop_bit 4 v) @ [hex_char (v AND 15)]"

lemma length_print_hex [simp]: "length (print_hex n v) = n"
  by (induction n v rule: print_hex.induct) simp_all

lemma parse_hex_append:
  "parse_hex_loop (xs @ ys) (length xs + n) v = (case parse_hex_loop xs (length xs) v of None \<Rightarrow> None | Some w \<Rightarrow> parse_hex_loop ys n w)"
  by (induction xs arbitrary: v) simp_all

lemma hex_digit_char:
  assumes "d < 16"
  shows "hex_digit (hex_char d) = d"
proof -
  have all: "\<forall>n \<in> set [0..<16]. hex_digit (hex_char (of_nat n)) = of_nat n" by code_simp
  have "unat d < 16" using assms by (simp add: word_less_nat_alt)
  then have "unat d \<in> set [0..<16]" by simp
  from bspec [OF all this] show ?thesis by simp
qed

lemma parse_print_hex:
  "n \<le> 8 \<Longrightarrow> parse_hex_loop (print_hex n v) n 0 = Some (v AND mask (4 * n))"
proof (induction n v rule: print_hex.induct)
  case (2 n v)
  have "v AND 15 \<le> 15" by (simp add: word_and_le1)
  then have d: "v AND 15 < 16" by (rule order_le_less_trans) simp
  have "push_bit 4 (drop_bit 4 v AND mask (4 * n)) OR (v AND 15) = v AND mask (4 * Suc n)"
  proof (rule bit_word_eqI)
    fix i assume "i < LENGTH(32)"
    have m: "(15 :: u32) = mask 4" by (simp add: mask_eq_exp_minus_1)
    show "bit (push_bit 4 (drop_bit 4 v AND mask (4 * n)) OR (v AND 15)) i = bit (v AND mask (4 * Suc n)) i"
      unfolding m by (auto simp: bit_simps not_le)
  qed
  then show ?case
    using 2 parse_hex_append [of "print_hex n (drop_bit 4 v)" "[hex_char (v AND 15)]" 1 0] hex_digit_char [OF d]
    by simp
qed simp

definition al4 :: "nat \<Rightarrow> nat" where "al4 n = (n + 3) div 4 * 4"

definition pad4 :: "u8 list \<Rightarrow> u8 list" where
  "pad4 xs = xs @ replicate (al4 (length xs) - length xs) 0"

text \<open>The fields that the unpacker does not read are the filler.\<close>

record cpio_entry =
  ce_name :: "u8 list"
  ce_mode :: u32
  ce_data :: "u8 list"
  ce_filler :: "u8 list \<times> u8 list \<times> u8 list \<times> u8 list"

definition entry_header :: "cpio_entry \<Rightarrow> u8 list" where
  "entry_header e = (case ce_filler e of (f1, f2, f3, f4) \<Rightarrow>
     CPIO_NEWC_MAGIC @ f1 @ print_hex 8 (ce_mode e) @ f2 @ print_hex 8 (of_nat (length (ce_data e))) @ f3 @
     print_hex 8 (of_nat (length (ce_name e) + 1)) @ f4)"

definition entry_ok :: "cpio_entry \<Rightarrow> bool" where
  "entry_ok e \<longleftrightarrow> 0 \<notin> set (ce_name e) \<and>
     (case ce_filler e of (f1, f2, f3, f4) \<Rightarrow> length f1 = 8 \<and> length f2 = 32 \<and> length f3 = 32 \<and> length f4 = 8)"

definition entry_bytes :: "cpio_entry \<Rightarrow> u8 list" where
  "entry_bytes e = pad4 (entry_header e @ ce_name e @ [0]) @ pad4 (ce_data e)"

definition archive :: "cpio_entry list \<Rightarrow> u8 list" where
  "archive es = concat (map entry_bytes es)"

text \<open>What unpacking means: the entries are installed in order, up to one whose name is a prefix of the
  trailer's, or to the first that fails; names that are only dots and slashes are skipped.\<close>

fun install_all :: "cpio_entry list \<Rightarrow> 'a kvfs_scheme \<Rightarrow> (int \<times> 'a kvfs_scheme) option" where
  "install_all [] s = Some (- 1, s)"
| "install_all (e # es) s =
     (if ce_name e = take (length (ce_name e)) (butlast CPIO_TRAILER) then Some (0, s)
      else
        do { (path, s1) \<leftarrow> cpio_normalize_path (ce_name e @ [0]) s;
             case path of
               None \<Rightarrow> install_all es s1
             | Some (p, str) \<Rightarrow>
                 do { (rc, s2) \<leftarrow> cpio_install_entry str (ce_mode e)
                        (if ce_data e = [] then None else Some (ce_data e)) (of_nat (length (ce_data e))) s1;
                      s3 \<leftarrow> kfree p s2;
                      if rc \<noteq> 0 then Some (rc, s3) else install_all es s3 } })"

lemma al4_bounds: "n \<le> al4 n" "al4 n < n + 4" "4 dvd al4 n"
  unfolding al4_def by (presburger, presburger, simp)

lemma al4_add: "4 dvd k \<Longrightarrow> al4 (k + n) = k + al4 n"
  unfolding al4_def by presburger

lemma length_pad4 [simp]: "length (pad4 xs) = al4 (length xs)"
  using al4_bounds(1) [of "length xs"] by (simp add: pad4_def)

lemma unat_align4:
  assumes "unat v + 3 < 2 ^ 32"
  shows "unat (cpio_align4 v) = al4 (unat v)"
proof -
  have u: "unat (v + 3) = unat v + 3" using assms by (simp add: unat_add_small)
  have m: "ucast (NOT (3 :: u32)) = (mask 32 AND NOT (mask 2) :: u64)" by (simp add: mask_eq_exp_minus_1)
  have "(v + 3) AND mask 32 = v + 3"
    using assms u by (simp add: unat_eq_iff unat_and_mask)
  moreover have "cpio_align4 v = ((v + 3) AND mask 32) AND NOT (mask 2)"
    unfolding cpio_align4_def m by (simp only: and.assoc)
  ultimately have "cpio_align4 v = (v + 3) AND NOT (mask 2)" by simp
  then show ?thesis using u by (simp add: unat_and_not_mask al4_def)
qed

section \<open>Reading an archive\<close>

lemma parse_field: "parse_hex_loop (print_hex 8 v @ xs) 8 0 = Some v"
proof -
  have "v AND mask 32 = v" by (rule bit_word_eqI) (simp add: bit_simps)
  then show ?thesis using parse_hex_append [of "print_hex 8 v" xs 0 0] parse_print_hex [of 8 v] by simp
qed

lemma header_fields:
  assumes "entry_ok e"
  shows "length (entry_header e) = 110" and "cpio_field (entry_header e @ xs) c_mode = Some (ce_mode e)"
    and "cpio_field (entry_header e @ xs) c_filesize = Some (of_nat (length (ce_data e)))"
    and "cpio_field (entry_header e @ xs) c_namesize = Some (of_nat (length (ce_name e) + 1))"
    and "memcmp (entry_header e @ xs) CPIO_NEWC_MAGIC 6 = Some 0"
proof -
  obtain f1 f2 f3 f4 where f: "ce_filler e = (f1, f2, f3, f4)" "length f1 = 8" "length f2 = 32" "length f3 = 32" "length f4 = 8"
    using assms by (cases "ce_filler e") (auto simp: entry_ok_def)
  note d = entry_header_def f cpio_field_def cpio_parse_hex_def
  have m: "length CPIO_NEWC_MAGIC = 6" by (simp add: CPIO_NEWC_MAGIC_def)
  show "length (entry_header e) = 110" using f m by (simp add: entry_header_def)
  show "cpio_field (entry_header e @ xs) c_mode = Some (ce_mode e)"
    using m by (simp add: d parse_field)
  show "cpio_field (entry_header e @ xs) c_filesize = Some (of_nat (length (ce_data e)))"
    using m by (simp add: d parse_field)
  show "cpio_field (entry_header e @ xs) c_namesize = Some (of_nat (length (ce_name e) + 1))"
    using m by (simp add: d parse_field)
  show "memcmp (entry_header e @ xs) CPIO_NEWC_MAGIC 6 = Some 0"
    using f by (simp add: entry_header_def CPIO_NEWC_MAGIC_def eval_nat_numeral)
qed

lemma trailer_test:
  assumes "0 \<notin> set name"
  obtains r where "strncmp (name @ 0 # xs) CPIO_TRAILER (length name) = Some r"
    and "r = 0 \<longleftrightarrow> name = take (length name) (butlast CPIO_TRAILER)"
proof -
  have z: "0 \<in> set CPIO_TRAILER" "cstring CPIO_TRAILER = butlast CPIO_TRAILER" by (simp_all add: CPIO_TRAILER_def)
  obtain r where r: "strncmp (name @ 0 # xs) CPIO_TRAILER (length name) = Some r"
    using strncmp_total [of "name @ 0 # xs" CPIO_TRAILER "length name"] z(1) by auto
  then show thesis using that strncmp_zero [OF r] cstring_append_zero [OF assms] z(2) by simp
qed

lemma strlen_name: "0 \<notin> set name \<Longrightarrow> strlen (name @ 0 # xs) = Some (length name)"
  by (induction name) auto

lemma normalize_name: "0 \<notin> set name \<Longrightarrow> cpio_normalize_path (name @ 0 # xs) s = cpio_normalize_path (name @ [0]) s"
  by (simp add: cpio_normalize_path_def strlen_name)

lemma create_prefix: "unat sz = length d \<Longrightarrow> vfs_create path mode (d @ xs) sz s = vfs_create path mode d sz s"
proof -
  assume sz: "unat sz = length d"
  have c: "(unat sz > length (d @ xs)) = False" "(unat sz > length d) = False" "take (unat sz) (d @ xs) = take (unat sz) d"
    using sz by simp_all
  show ?thesis unfolding vfs_create_def c ..
qed

lemma install_prefix:
  assumes "unat sz = length d"
  shows "cpio_install_entry path mode (if d = [] then None else Some (d @ xs)) sz s =
    cpio_install_entry path mode (if d = [] then None else Some d) sz s"
proof -
  have c: "(unat sz > length (d @ xs)) = False" "(unat sz > length d) = False" "take (unat sz) (d @ xs) = take (unat sz) d"
    using assms by simp_all
  show ?thesis
  proof (cases "d = []")
    case False
    then show ?thesis
      unfolding cpio_install_entry_def
      by (simp only: option.case if_False c create_prefix [OF assms])
  qed simp
qed

lemma of_nat_diff_word: "j \<le> n \<Longrightarrow> (base + of_nat n) - (base + of_nat j) = (of_nat (n - j) :: u64)"
  by (simp add: of_nat_diff)

lemma bytes_from_at:
  assumes "unat base + length data < 2 ^ 32" and "k \<le> length data"
  shows "bytes_from base data (base + of_nat k) = Some (drop k data)"
proof -
  have "unat (of_nat k :: u64) = k" using assms by (intro unat_of_nat_small) simp
  then show ?thesis using assms(2) by (simp add: bytes_from_def)
qed

lemma align_at:
  assumes "4 dvd unat base" and "unat base + k + 3 < 2 ^ 32"
  shows "cpio_align_offset (base + of_nat k) = base + of_nat (al4 k)"
proof -
  have k: "unat (of_nat k :: u64) = k" "unat (of_nat (al4 k) :: u64) = al4 k"
    using assms(2) al4_bounds(2) [of k] by (auto intro!: unat_of_nat_small)
  have "unat (base + of_nat k) = unat base + k" using k assms(2) by (simp add: unat_add_small)
  then have "unat (cpio_align_offset (base + of_nat k)) = al4 (unat base + k)"
    using unat_align4 [of "base + of_nat k"] assms(2) by (simp add: cpio_align_offset_def)
  also have "\<dots> = unat base + al4 k" by (rule al4_add [OF assms(1)])
  also have "\<dots> = unat (base + of_nat (al4 k))"
    using k assms(2) al4_bounds(2) [of k] by (simp add: unat_add_small)
  finally show ?thesis by (simp add: unat_eq_iff)
qed

lemma ucast_nat: "n < 2 ^ 32 \<Longrightarrow> ucast (of_nat n :: u32) = (of_nat n :: u64)"
  by (simp add: unsigned_of_nat take_bit_nat_eq_self)

lemma entry_split:
  assumes "entry_ok e"
  obtains X Y where "entry_bytes e @ rest = entry_header e @ X" and "X = ce_name e @ 0 # Y"
    and "drop (al4 (110 + (length (ce_name e) + 1))) (entry_bytes e @ rest) = pad4 (ce_data e) @ rest"
    and "length (entry_bytes e) = al4 (110 + (length (ce_name e) + 1)) + al4 (length (ce_data e))"
proof -
  let ?h = "entry_header e @ ce_name e @ [0]"
  let ?p = "replicate (al4 (length ?h) - length ?h) (0 :: u8)"
  have len: "length ?h = 110 + (length (ce_name e) + 1)" using header_fields(1) [OF assms] by simp
  show thesis
  proof (rule that)
    show "entry_bytes e @ rest = entry_header e @ (ce_name e @ 0 # ?p @ pad4 (ce_data e) @ rest)"
      by (simp add: entry_bytes_def pad4_def)
    have "length (pad4 ?h) = al4 (110 + (length (ce_name e) + 1))" using len by simp
    then show "drop (al4 (110 + (length (ce_name e) + 1))) (entry_bytes e @ rest) = pad4 (ce_data e) @ rest"
      by (simp add: entry_bytes_def)
    show "length (entry_bytes e) = al4 (110 + (length (ce_name e) + 1)) + al4 (length (ce_data e))"
      using len by (simp add: entry_bytes_def)
  qed simp
qed

lemma populate_round:
  fixes s :: "'a kvfs_scheme"
  assumes "\<not> stop - cur < 110" and "bytes_from base data cur = Some hdr" and "memcmp hdr CPIO_NEWC_MAGIC 6 = Some 0"
    and "cpio_field hdr c_namesize = Some ns" and "cpio_field hdr c_filesize = Some fs" and "cpio_field hdr c_mode = Some mode"
    and "\<not> stop - (cur + 110) < ucast ns" and "ns \<noteq> 0" and "bytes_from base data (cur + 110) = Some name"
    and "strncmp name CPIO_TRAILER (unat (ns - 1)) = Some r"
    and "cpio_align_offset (cur + 110 + ucast ns) = fd" and "\<not> fd > stop" and "\<not> stop - fd < ucast fs"
    and "cpio_normalize_path name s = cpio_normalize_path name' s"
    and "cpio_align_offset (fd + ucast fs) = nxt" and "bytes_from base data fd = Some bytes"
    and "\<And>str (s1 :: 'a kvfs_scheme). cpio_install_entry str mode (if fs > 0 then Some bytes else None) (ucast fs) s1 =
      cpio_install_entry str mode contents len s1"
  shows "populate_loop base data cur stop s =
    (if r = 0 then Some (0, s)
     else
       do { (path, s1) \<leftarrow> cpio_normalize_path name' s;
            case path of
              None \<Rightarrow> populate_loop base data nxt stop s1
            | Some (p, str) \<Rightarrow>
                do { (rc, s2) \<leftarrow> cpio_install_entry str mode contents len s1;
                     s3 \<leftarrow> kfree p s2;
                     if rc \<noteq> 0 then Some (rc, s3) else populate_loop base data nxt stop s3 } })"
proof (cases "r = 0")
  case True
  then show ?thesis using assms(1-16) by (subst populate_loop.simps) simp
next
  case False
  then show ?thesis
    unfolding assms(17) [symmetric] using assms(1-16)
    by (subst populate_loop.simps) (simp add: Let_def cong: option.case_cong split del: if_split)
qed

text \<open>One round of the loop on an entry that lies in the archive at offset \<open>k\<close>.\<close>

lemma populate_entry:
  assumes e: "entry_ok e" and base: "4 dvd unat base" "unat base + length data + 3 < 2 ^ 32"
    and k: "4 dvd k" "k \<le> length data" "drop k data = entry_bytes e @ rest"
  shows "populate_loop base data (base + of_nat k) (base + of_nat (length data)) s =
    (if ce_name e = take (length (ce_name e)) (butlast CPIO_TRAILER) then Some (0, s)
     else
       do { (path, s1) \<leftarrow> cpio_normalize_path (ce_name e @ [0]) s;
            case path of
              None \<Rightarrow> populate_loop base data (base + of_nat (k + length (entry_bytes e))) (base + of_nat (length data)) s1
            | Some (p, str) \<Rightarrow>
                do { (rc, s2) \<leftarrow> cpio_install_entry str (ce_mode e)
                       (if ce_data e = [] then None else Some (ce_data e)) (of_nat (length (ce_data e))) s1;
                     s3 \<leftarrow> kfree p s2;
                     if rc \<noteq> 0 then Some (rc, s3)
                     else populate_loop base data (base + of_nat (k + length (entry_bytes e))) (base + of_nat (length data)) s3 } })"
    (is "?lhs = ?rhs")
proof -
  let ?N = "length data" and ?L = "length (ce_name e) + 1" and ?D = "length (ce_data e)"
  let ?k2 = "k + al4 (110 + ?L)"
  obtain X Y where X: "entry_bytes e @ rest = entry_header e @ X" "X = ce_name e @ 0 # Y"
    "drop (al4 (110 + ?L)) (entry_bytes e @ rest) = pad4 (ce_data e) @ rest"
    "length (entry_bytes e) = al4 (110 + ?L) + al4 ?D" by (rule entry_split [OF e])
  note hd = header_fields [OF e]
  have z: "0 \<notin> set (ce_name e)" using e by (simp add: entry_ok_def)
  have b: "unat base + ?N < 2 ^ 32" using base(2) by simp
  have lenN: "?N = k + (length (entry_bytes e) + length rest)"
    using arg_cong [OF k(3), of length] k(2) by simp
  have kl: "k + 110 + ?L \<le> ?k2" "?k2 + ?D \<le> ?N"
    using al4_bounds(1) [of "110 + ?L"] al4_bounds(1) [of ?D] lenN X(4) by simp_all
  have small: "unat (of_nat x :: u64) = x" if "x \<le> ?N" for x
    using that b by (intro unat_of_nat_small) simp
  have w: "unat (of_nat (?N - k) :: u64) = ?N - k" "unat (of_nat (?N - (k + 110)) :: u64) = ?N - (k + 110)"
    "unat (of_nat (?N - ?k2) :: u64) = ?N - ?k2" "unat (of_nat ?L :: u64) = ?L" "unat (of_nat ?D :: u64) = ?D"
    by (rule small, use kl in linarith)+
  have nb: "?L < 2 ^ 32" "?D < 2 ^ 32" using b kl by linarith+
  have ns: "ucast (of_nat ?L :: u32) = (of_nat ?L :: u64)" "ucast (of_nat ?D :: u32) = (of_nat ?D :: u64)"
    using ucast_nat [OF nb(1)] ucast_nat [OF nb(2)] by blast+
  have "unat (of_nat x :: u32) = x" if "x < 2 ^ 32" for x
    using that by (simp add: unat_of_nat take_bit_nat_eq_self)
  note u32 = this [OF nb(1)] this [OF nb(2)]
  have n1: "unat (of_nat ?L - 1 :: u32) = length (ce_name e)"
  proof -
    have "(1::u32) \<le> of_nat ?L" using u32(1) by (simp only: word_le_nat_alt) simp
    then show ?thesis using u32(1) by (subst unat_sub) simp_all
  qed
  have nz: "(of_nat ?L :: u32) \<noteq> 0" using u32(1) by (metis add_is_0 one_neq_zero unat_0)
  have c1: "base + of_nat k + 110 = base + of_nat (k + 110)" by (simp add: add.assoc)
  have c2: "base + of_nat (k + 110) + of_nat ?L = base + of_nat (k + 110 + ?L)" by (simp add: add.assoc add.commute)
  have "al4 (k + 110 + ?L) = ?k2" using al4_add [OF k(1), of "110 + ?L"] by (simp only: add.assoc)
  then have fd: "cpio_align_offset (base + of_nat (k + 110 + ?L)) = base + of_nat ?k2"
    using align_at [OF base(1), of "k + 110 + ?L"] base(2) kl by simp
  have k24: "4 dvd ?k2" using k(1) al4_bounds(3) by simp
  have "al4 (?k2 + ?D) = k + length (entry_bytes e)" using al4_add [OF k24, of ?D] X(4) by simp
  then have nx: "cpio_align_offset (base + of_nat (?k2 + ?D)) = base + of_nat (k + length (entry_bytes e))"
    using align_at [OF base(1), of "?k2 + ?D"] base(2) kl by simp
  have c3: "base + of_nat ?k2 + of_nat ?D = base + of_nat (?k2 + ?D)" by (simp add: add.assoc)
  let ?cur = "base + of_nat k" and ?stop = "base + of_nat ?N"
  have st: "?stop - ?cur = of_nat (?N - k)" "?stop - (?cur + 110) = of_nat (?N - (k + 110))"
    "?stop - (base + of_nat ?k2) = of_nat (?N - ?k2)"
    unfolding c1 by (rule of_nat_diff_word; use kl in linarith)+
  obtain r where r: "strncmp X CPIO_TRAILER (length (ce_name e)) = Some r"
    "r = 0 \<longleftrightarrow> ce_name e = take (length (ce_name e)) (butlast CPIO_TRAILER)"
    using trailer_test [OF z] X(2) by metis
  have d1: "drop (k + 110) data = X"
    using k(3) X(1) hd(1) by (metis append_eq_conv_conj add.commute drop_drop)
  have d2: "drop ?k2 data = pad4 (ce_data e) @ rest" using k(3) X(3) by (metis add.commute drop_drop)
  then obtain Z where Z: "drop ?k2 data = ce_data e @ Z" by (auto simp: pad4_def)
  have uD: "unat (ucast (of_nat ?D :: u32) :: u64) = ?D" unfolding ns(2) by (rule w(5))
  show ?thesis
    unfolding r(2) [symmetric]
  proof (rule populate_round [where hdr = "entry_header e @ X" and name = X and ns = "of_nat ?L" and fs = "of_nat ?D"
        and fd = "base + of_nat ?k2" and bytes = "ce_data e @ Z"])
    show "\<not> ?stop - ?cur < 110" unfolding st using w(1) kl by (simp only: word_less_nat_alt; simp)
    show "bytes_from base data ?cur = Some (entry_header e @ X)" using bytes_from_at [OF b k(2)] k(3) X(1) by simp
    show "\<not> ?stop - (?cur + 110) < ucast (of_nat ?L :: u32)"
      unfolding st ns using w(2,4) kl by (simp only: word_less_nat_alt; simp)
    show "bytes_from base data (?cur + 110) = Some X"
      unfolding c1 using bytes_from_at [OF b, of "k + 110"] kl d1 by simp
    show "strncmp X CPIO_TRAILER (unat (of_nat ?L - 1 :: u32)) = Some r" using r(1) n1 by simp
    show "cpio_align_offset (?cur + 110 + ucast (of_nat ?L :: u32)) = base + of_nat ?k2"
      unfolding ns c1 c2 by (rule fd)
    have "unat (base + of_nat x) = unat base + x" if "x \<le> ?N" for x
      using small [OF that] that b by (simp add: unat_add_small)
    note un = this [of ?N] this [of ?k2]
    show "\<not> ?stop < base + of_nat ?k2"
      unfolding word_less_nat_alt using un kl by simp
    show "\<not> ?stop - (base + of_nat ?k2) < ucast (of_nat ?D :: u32)"
      unfolding st ns using w(3,5) kl by (simp only: word_less_nat_alt; simp)
    show "cpio_normalize_path X s = cpio_normalize_path (ce_name e @ [0]) s"
      unfolding X(2) by (rule normalize_name [OF z])
    show "cpio_align_offset (base + of_nat ?k2 + ucast (of_nat ?D :: u32)) = base + of_nat (k + length (entry_bytes e))"
      unfolding ns c3 by (rule nx)
    show "bytes_from base data (base + of_nat ?k2) = Some (ce_data e @ Z)"
      using bytes_from_at [OF b, of ?k2] kl Z by simp
    show "cpio_install_entry str (ce_mode e) (if (of_nat ?D :: u32) > 0 then Some (ce_data e @ Z) else None)
        (ucast (of_nat ?D :: u32)) s1 =
      cpio_install_entry str (ce_mode e) (if ce_data e = [] then None else Some (ce_data e)) (of_nat ?D) s1" for str s1
    proof -
      have c: "(of_nat ?D :: u32) > 0 \<longleftrightarrow> ce_data e \<noteq> []" using u32(2) by (simp add: word_less_nat_alt)
      show ?thesis unfolding ns c using install_prefix [OF w(5), of str "ce_mode e" Z s1] by (cases "ce_data e = []") simp_all
    qed
  qed (use hd nz in \<open>simp_all del: of_nat_add\<close>)
qed

lemma populate_archive:
  fixes s :: "'a kvfs_scheme"
  assumes base: "4 dvd unat base" "unat base + length data + 3 < 2 ^ 32"
  shows "(\<forall>e \<in> set es. entry_ok e) \<Longrightarrow> 4 dvd k \<Longrightarrow> k \<le> length data \<Longrightarrow> drop k data = archive es \<Longrightarrow>
    populate_loop base data (base + of_nat k) (base + of_nat (length data)) s = install_all es s"
proof (induction es arbitrary: k s)
  case Nil
  then have "k = length data" by (simp add: archive_def)
  then show ?case by (subst populate_loop.simps) simp
next
  case (Cons e es)
  have e: "entry_ok e" using Cons.prems(1) by simp
  have d: "drop k data = entry_bytes e @ archive es" using Cons.prems(4) by (simp add: archive_def)
  let ?k = "k + length (entry_bytes e)"
  have le: "?k \<le> length data" using arg_cong [OF d, of length] Cons.prems(3) by simp
  have "drop ?k data = drop (length (entry_bytes e)) (drop k data)" by (simp add: add.commute)
  then have dk: "drop ?k data = archive es" unfolding d by simp
  obtain l where "length (entry_bytes e) = al4 (110 + (length (ce_name e) + 1)) + al4 (length (ce_data e))"
    by (rule entry_split [OF e])
  then have dv: "4 dvd ?k" using Cons.prems(2) al4_bounds(3) by simp
  have IH: "populate_loop base data (base + of_nat ?k) (base + of_nat (length data)) s' = install_all es s'"
    for s' :: "'a kvfs_scheme"
    using Cons.IH [OF _ dv le dk] Cons.prems(1) by simp
  show ?case
    unfolding populate_entry [OF e base Cons.prems(2,3) d] IH by simp
qed

text \<open>C21. Unpacking an archive does what it says: for every list of entries, laid out in the newc format at
  a word-aligned address below 4 GiB, \<^verbatim>\<open>cpio_populate_vfs\<close> installs exactly these entries in order, each
  with its mode and contents, up to the trailer; an archive without trailer is refused at its end.\<close>

theorem cpio_populate_installs:
  assumes "\<forall>e \<in> set es. entry_ok e" and "base \<noteq> 0" and "4 dvd unat base"
    and "unat base + length (archive es) + 3 < 2 ^ 32"
  shows "cpio_populate_vfs base (archive es) (of_nat (length (archive es))) s = install_all es s"
  using populate_archive [OF assms(3,4,1), of 0 s] assms(2) by (simp add: cpio_populate_vfs_def)

text \<open>An archive of a directory \<^verbatim>\<open>./etc\<close> and the trailer.\<close>

definition no_filler :: "u8 list \<times> u8 list \<times> u8 list \<times> u8 list" where
  "no_filler = (replicate 8 48, replicate 32 48, replicate 32 48, replicate 8 48)"

definition etc_entry :: cpio_entry where
  "etc_entry = \<lparr>ce_name = [46, 47, 101, 116, 99], ce_mode = 0x41ED, ce_data = [], ce_filler = no_filler\<rparr>"

definition trailer_entry :: cpio_entry where
  "trailer_entry = \<lparr>ce_name = butlast CPIO_TRAILER, ce_mode = 0, ce_data = [], ce_filler = no_filler\<rparr>"

lemma example_entries_ok: "entry_ok etc_entry" "entry_ok trailer_entry"
  by (simp_all add: entry_ok_def etc_entry_def trailer_entry_def no_filler_def CPIO_TRAILER_def)

theorem cpio_populate_installs_witness:
  "cpio_populate_vfs 0x100000 (archive [etc_entry, trailer_entry]) (of_nat (length (archive [etc_entry, trailer_entry]))) file_example =
     install_all [etc_entry, trailer_entry] file_example"
proof (rule cpio_populate_installs)
  show "\<forall>e \<in> set [etc_entry, trailer_entry]. entry_ok e" using example_entries_ok by simp
  have "length (archive [etc_entry, trailer_entry]) = 240"
    using header_fields(1) [OF example_entries_ok(1)] header_fields(1) [OF example_entries_ok(2)]
    by (simp add: archive_def entry_bytes_def) (simp add: etc_entry_def trailer_entry_def al4_def CPIO_TRAILER_def)
  then show "unat (0x100000 :: u64) + length (archive [etc_entry, trailer_entry]) + 3 < 2 ^ 32" by simp
qed simp_all

end
