(* ===== verification/Ring.thy ===== *)
theory Ring
  imports Interfaces
begin

text \<open>
  The kernel's two ring buffers.  \<open>ring xs t n\<close> is the contents of a buffer \<open>xs\<close> of which \<open>n\<close> cells are
  in use from index \<open>t\<close> on, wrapping at the end.  The pipes (\<^verbatim>\<open>struct pipe\<close> of \<^verbatim>\<open>core/include/proc.h\<close>
  with \<^verbatim>\<open>pipe_read\<close> and \<^verbatim>\<open>pipe_write\<close> of \<^verbatim>\<open>core/syscall.c\<close>) are modelled here; the keyboard's buffer
  uses the same lemmas.
\<close>

section \<open>Rings\<close>

definition ring :: "'a list \<Rightarrow> nat \<Rightarrow> nat \<Rightarrow> 'a list" where
  "ring xs t n = map (\<lambda>i. xs ! ((t + i) mod length xs)) [0..<n]"

lemma length_ring [simp]: "length (ring xs t n) = n"
  by (simp add: ring_def)

lemma ring_zero [simp]: "ring xs t 0 = []"
  by (simp add: ring_def)

lemma mod_add_inj:
  assumes "i < k" and "k < n" and "(t + i) mod n = (t + k) mod (n::nat)"
  shows False
proof -
  have "n dvd (t + k) - (t + i)" using assms(3) by (metis mod_eq_dvd_iff_nat assms(1) less_imp_le nat_add_left_cancel_le)
  then have "n dvd k - i" by simp
  moreover have "0 < k - i" "k - i < n" using assms(1,2) by auto
  ultimately show False using nat_dvd_not_less by blast
qed

lemma ring_push:
  assumes "n < length xs"
  shows "ring (xs[(t + n) mod length xs := x]) t (Suc n) = ring xs t n @ [x]"
proof (rule nth_equalityI)
  fix i assume "i < length (ring (xs[(t + n) mod length xs := x]) t (Suc n))"
  then consider "i < n" | "i = n" by fastforce
  then show "ring (xs[(t + n) mod length xs := x]) t (Suc n) ! i = (ring xs t n @ [x]) ! i"
  proof cases
    case 1
    then have "(t + i) mod length xs \<noteq> (t + n) mod length xs" using mod_add_inj assms by blast
    then show ?thesis using 1 by (simp add: ring_def nth_append del: upt_Suc)
  next
    case 2
    have "(t + n) mod length xs < length xs" using assms by (intro mod_less_divisor) linarith
    then show ?thesis using 2 by (simp add: ring_def nth_append del: upt_Suc)
  qed
qed simp

lemma ring_pop:
  assumes "t < length xs"
  shows "ring xs t (Suc n) = xs ! t # ring xs ((t + 1) mod length xs) n"
proof -
  have "map (\<lambda>i. xs ! ((t + i) mod length xs)) [0..<Suc n] =
      xs ! t # map (\<lambda>i. xs ! ((t + Suc i) mod length xs)) [0..<n]"
    using assms by (simp add: upt_conv_Cons map_Suc_upt [symmetric] del: upt_Suc)
  moreover have "(t + Suc i) mod length xs = ((t + 1) mod length xs + i) mod length xs" for i
    by (simp add: mod_simps)
  ultimately show ?thesis by (simp only: ring_def)
qed

section \<open>Pipes\<close>

definition PIPE_SIZE :: u64 where [simp]: "PIPE_SIZE = 4096"

record pipe =
  buf :: "u8 list"
  head :: u64
  tail :: u64
  count :: u64
  readers :: int
  writers :: int
  in_use :: bool

text \<open>One round of the loops of \<^verbatim>\<open>pipe_write\<close> and \<^verbatim>\<open>pipe_read\<close>.\<close>

definition pipe_put :: "u8 \<Rightarrow> pipe \<Rightarrow> pipe" where
  "pipe_put b p = p\<lparr>buf := (buf p)[unat (head p) := b], head := (head p + 1) mod PIPE_SIZE, count := count p + 1\<rparr>"

definition pipe_take :: "pipe \<Rightarrow> u8 \<times> pipe" where
  "pipe_take p = (buf p ! unat (tail p), p\<lparr>tail := (tail p + 1) mod PIPE_SIZE, count := count p - 1\<rparr>)"

text \<open>The number of bytes moved.  \<open>room\<close> is the size of the kernel buffer that the bytes go to; running
  past it, or past the end of the bytes to write, is \<open>None\<close>.\<close>

fun pipe_write :: "u8 list \<Rightarrow> nat \<Rightarrow> pipe \<Rightarrow> (nat \<times> pipe) option" where
  "pipe_write bs 0 p = Some (0, p)"
| "pipe_write bs (Suc n) p =
     (if count p < PIPE_SIZE then
        (case bs of
           [] \<Rightarrow> None
         | b # rest \<Rightarrow> do { (k, p1) \<leftarrow> pipe_write rest n (pipe_put b p); Some (Suc k, p1) })
      else Some (0, p))"

fun pipe_read :: "nat \<Rightarrow> nat \<Rightarrow> pipe \<Rightarrow> (u8 list \<times> pipe) option" where
  "pipe_read room 0 p = Some ([], p)"
| "pipe_read room (Suc n) p =
     (if count p > 0 then
        (case room of
           0 \<Rightarrow> None
         | Suc room' \<Rightarrow> (let (b, p1) = pipe_take p in do { (bs, p2) \<leftarrow> pipe_read room' n p1; Some (b # bs, p2) }))
      else Some ([], p))"

section \<open>Pipes are bounded queues\<close>

definition pipe_items :: "pipe \<Rightarrow> u8 list" where
  "pipe_items p = ring (buf p) (unat (tail p)) (unat (count p))"

definition pipe_ok :: "pipe \<Rightarrow> bool" where
  "pipe_ok p \<longleftrightarrow> length (buf p) = 4096 \<and> unat (tail p) < 4096 \<and> unat (count p) \<le> 4096 \<and>
     unat (head p) = (unat (tail p) + unat (count p)) mod 4096"

definition pipe_push :: "u8 \<Rightarrow> pipe \<Rightarrow> pipe" where
  "pipe_push b p = (if count p < PIPE_SIZE then pipe_put b p else p)"

lemma unat_step: "unat ((x + 1) mod PIPE_SIZE) = (unat x + 1) mod 4096" if "unat x < 4096"
  using that by (simp add: unat_mod unat_add_small)

lemma pipe_put_ok:
  assumes "pipe_ok p" and "count p < PIPE_SIZE"
  shows "pipe_ok (pipe_put b p)" and "pipe_items (pipe_put b p) = pipe_items p @ [b]"
proof -
  have c: "unat (count p) < 4096" using assms(2) by (simp add: word_less_nat_alt)
  then have c1: "unat (count p + 1) = Suc (unat (count p))" by (simp add: unat_add_small)
  have h: "unat (head p) < 4096" using assms(1) by (simp add: pipe_ok_def)
  show "pipe_ok (pipe_put b p)"
    using assms(1) c c1 unat_step [OF h] by (simp add: pipe_ok_def pipe_put_def mod_simps)
  show "pipe_items (pipe_put b p) = pipe_items p @ [b]"
    using assms(1) c c1 ring_push [of "unat (count p)" "buf p" "unat (tail p)" b]
    by (simp add: pipe_ok_def pipe_items_def pipe_put_def)
qed

lemma pipe_take_ok:
  assumes "pipe_ok p" and "count p > 0"
  shows "pipe_ok (snd (pipe_take p))" and "pipe_items p = fst (pipe_take p) # pipe_items (snd (pipe_take p))"
proof -
  have c: "0 < unat (count p)" using assms(2) by (simp add: word_less_nat_alt)
  then have "1 \<le> count p" by (simp add: word_le_nat_alt)
  then have c1: "unat (count p - 1) = unat (count p) - 1" by (simp add: unat_sub_le)
  have t: "unat (tail p) < 4096" using assms(1) by (simp add: pipe_ok_def)
  have "((unat (tail p) + 1) mod 4096 + (unat (count p) - 1)) mod 4096 = (unat (tail p) + unat (count p)) mod 4096"
    using c by (cases "unat (count p)") (simp_all add: mod_simps)
  then show "pipe_ok (snd (pipe_take p))"
    using assms(1) c c1 unat_step [OF t] by (auto simp: pipe_ok_def pipe_take_def)
  show "pipe_items p = fst (pipe_take p) # pipe_items (snd (pipe_take p))"
    using assms(1) c c1 unat_step [OF t] ring_pop [of "unat (tail p)" "buf p" "unat (count p) - 1"]
    by (simp add: pipe_ok_def pipe_items_def pipe_take_def)
qed

lemma pipe_items_empty: "pipe_items p \<noteq> [] \<longleftrightarrow> count p > 0"
proof -
  have "length (pipe_items p) = unat (count p)" by (simp add: pipe_items_def)
  then show ?thesis by (metis length_0_conv unat_eq_zero word_gt_0)
qed

lemma pipe_full: "length (pipe_items p) < 4096 \<longleftrightarrow> count p < PIPE_SIZE"
  by (simp add: pipe_items_def word_less_nat_alt)

interpretation pipe: bounded_queue pipe_push pipe_take pipe_items 4096 pipe_ok
proof unfold_locales
  fix p b
  assume ok: "pipe_ok p"
  show "pipe_ok (pipe_push b p)" using pipe_put_ok [OF ok] ok by (simp add: pipe_push_def)
  show "pipe_items p \<noteq> [] \<Longrightarrow> pipe_ok (snd (pipe_take p))"
    using pipe_take_ok [OF ok] by (simp only: pipe_items_empty)
  show "length (pipe_items p) \<le> 4096" using ok by (simp add: pipe_ok_def pipe_items_def)
  show "pipe_items (pipe_push b p) = (if length (pipe_items p) < 4096 then pipe_items p @ [b] else pipe_items p)"
    using pipe_put_ok [OF ok] unfolding pipe_full by (simp add: pipe_push_def)
  show "pipe_items p \<noteq> [] \<Longrightarrow> pipe_items p = fst (pipe_take p) # pipe_items (snd (pipe_take p))"
    using pipe_take_ok [OF ok] by (simp only: pipe_items_empty)
qed

lemma pipe_write_pushes:
  "pipe_ok p \<Longrightarrow> n \<le> length bs \<Longrightarrow>
     pipe_write bs n p = Some (min n (4096 - length (pipe_items p)), pipe.pushes (take n bs) p)"
proof (induction bs n p rule: pipe_write.induct)
  case (2 bs n p)
  obtain b rest where bs: "bs = b # rest" using 2(3) by (cases bs) auto
  show ?case
  proof (cases "count p < PIPE_SIZE")
    case True
    note put = pipe_put_ok [OF 2(2) True, of b]
    have "pipe_write rest n (pipe_put b p) =
        Some (min n (4096 - length (pipe_items (pipe_put b p))), pipe.pushes (take n rest) (pipe_put b p))"
      using 2(1) [OF True bs put(1)] 2(3) bs by simp
    moreover have "length (pipe_items p) < 4096" using True by (simp only: pipe_full)
    moreover from this have "Suc (min n (4095 - length (pipe_items p))) = min (Suc n) (4096 - length (pipe_items p))"
      by linarith
    moreover have "pipe_push b p = pipe_put b p" using True by (simp add: pipe_push_def)
    ultimately show ?thesis using True bs put(2) by simp
  next
    case False
    then have full: "\<not> length (pipe_items p) < 4096" using pipe_full by blast
    have "pipe_push x p = p" for x using False by (simp only: pipe_push_def if_False)
    then have "pipe.pushes xs p = p" for xs by (induction xs) simp_all
    then show ?thesis using False full by simp
  qed
qed simp

lemma pipe_read_pops:
  "pipe_ok p \<Longrightarrow> min n (length (pipe_items p)) \<le> room \<Longrightarrow> pipe_read room n p = Some (pipe.pops n p)"
proof (induction room n p rule: pipe_read.induct)
  case (2 room n p)
  show ?case
  proof (cases "count p > 0")
    case True
    obtain b p1 where t: "pipe_take p = (b, p1)" by (cases "pipe_take p")
    note take = pipe_take_ok [OF 2(2) True, unfolded t]
    obtain room' where r: "room = Suc room'" using 2(3) take(2) by (cases room) auto
    have "pipe_read room' n p1 = Some (pipe.pops n p1)"
      using 2(1) [OF True r t [symmetric] refl] take 2(3) r by simp
    then show ?thesis using True r t take(2) by (cases "pipe.pops n p1") simp
  next
    case False
    then have "pipe_items p = []" using pipe_items_empty by blast
    then show ?thesis using False by simp
  qed
qed simp

text \<open>Writing to a pipe appends to it: as many of the bytes as fit into the 4096 of the buffer, in order,
  and the number of them is returned; nothing that was there is lost or overwritten.\<close>

theorem pipe_write_appends:
  assumes "pipe_ok p" and "n \<le> length bs"
  shows "\<exists>p'. pipe_write bs n p = Some (min n (4096 - length (pipe_items p)), p') \<and> pipe_ok p' \<and>
    pipe_items p' = pipe_items p @ take (4096 - length (pipe_items p)) (take n bs)"
proof -
  have "length (pipe_items p) \<le> 4096" using pipe.items_bound [OF assms(1)] .
  then show ?thesis
    using pipe_write_pushes [OF assms] pipe.qinv_pushes [OF assms(1)] pipe.items_pushes [OF assms(1)] by simp
qed

definition empty_pipe :: pipe where
  "empty_pipe = \<lparr>buf = replicate 4096 0, head = 0, tail = 0, count = 0, readers = 1, writers = 1, in_use = True\<rparr>"

lemma empty_pipe_ok: "pipe_ok empty_pipe" "pipe_items empty_pipe = []"
  by (simp_all add: pipe_ok_def empty_pipe_def pipe_items_def)

theorem pipe_write_appends_witness:
  "\<exists>p'. pipe_write [1, 2, 3] 3 empty_pipe = Some (3, p') \<and> pipe_items p' = [1, 2, 3]"
  using pipe_write_appends [OF empty_pipe_ok(1), of 3 "[1, 2, 3]"] empty_pipe_ok(2) by auto

text \<open>A pipe is first in, first out: reading takes the oldest bytes, as many as asked for or as there
  are, and leaves the rest; so what was written to an empty pipe comes out in order, whatever the
  positions in the ring.\<close>

theorem pipe_fifo:
  assumes "pipe_ok p" and "min m (length (pipe_items p)) \<le> room"
  shows "\<exists>p'. pipe_read room m p = Some (take m (pipe_items p), p') \<and> pipe_ok p' \<and>
    pipe_items p' = drop m (pipe_items p)"
  using pipe_read_pops [OF assms] pipe.pops_take [OF assms(1), of m] by simp metis

theorem pipe_fifo_witness:
  "\<exists>p'. pipe_read 256 10 (pipe.pushes [1, 2, 3] empty_pipe) = Some ([1, 2, 3], p') \<and> pipe_items p' = []"
  using pipe_fifo [OF pipe.qinv_pushes [OF empty_pipe_ok(1)], of 10 "[1, 2, 3]" 256]
    pipe.items_pushes [OF empty_pipe_ok(1), of "[1, 2, 3]"] empty_pipe_ok(2) by auto

text \<open>Reading more bytes than the buffer has room for, when the pipe holds them, runs past the buffer:
  \<^verbatim>\<open>sys_read\<close> reads a pipe with the caller's count into 256 bytes of the kernel stack.\<close>

theorem pipe_read_overruns:
  assumes "pipe_ok p" and "room < n" and "room < length (pipe_items p)"
  shows "pipe_read room n p = None"
  using assms
proof (induction room n p rule: pipe_read.induct)
  case (2 room n p)
  have c: "count p > 0" using 2(4) pipe_items_empty [of p] by force
  obtain b p1 where t: "pipe_take p = (b, p1)" by (cases "pipe_take p")
  note take = pipe_take_ok [OF 2(2) c, unfolded t]
  show ?case
  proof (cases room)
    case (Suc room')
    then have "pipe_read room' n p1 = None" using 2(1) [OF c Suc t [symmetric] refl] take 2(3,4) by simp
    then show ?thesis using c Suc t by simp
  qed (use c in simp)
qed simp

theorem pipe_read_overruns_witness:
  "pipe_read 1 2 (pipe.pushes [1, 2, 3] empty_pipe) = None"
  using pipe_read_overruns [OF pipe.qinv_pushes [OF empty_pipe_ok(1)], of 1 2 "[1, 2, 3]"]
    pipe.items_pushes [OF empty_pipe_ok(1), of "[1, 2, 3]"] empty_pipe_ok(2) by simp

end
