(* ===== verification/Kept.thy ===== *)
theory Kept
  imports Heap
begin

unbundle bit_operations_syntax

text \<open>
  What the memory layers leave alone: the state that the file system and the process table add to the
  machine is the \<open>more\<close> part of its record, and neither the heap nor the cloning of address spaces touches
  it, whatever they return.
\<close>

section \<open>The heap\<close>

lemma hput_more [simp]: "kheap.more (hput a b s) = kheap.more s"
  by (simp add: hput_def)

lemma hdrop_more [simp]: "kheap.more (hdrop a s) = kheap.more s"
  by (simp add: hdrop_def)

lemma hnew_more: "hnew a b s = Some s' \<Longrightarrow> kheap.more s' = kheap.more s"
  by (auto simp: hnew_def split: if_splits)

lemma hmodify_more: "hmodify a f s = Some s' \<Longrightarrow> kheap.more s' = kheap.more s"
  by (auto simp: hmodify_def split: Option.bind_splits)

lemma set_prev_more: "set_prev q p s = Some s' \<Longrightarrow> kheap.more s' = kheap.more s"
  by (auto simp: set_prev_def hmodify_more split: if_splits)

lemmas header_more = hnew_more hmodify_more set_prev_more

lemma split_block_more: "split_block b sz s = Some (p, s') \<Longrightarrow> kheap.more s' = kheap.more s"
  by (auto simp: split_block_def Let_def dest!: header_more split: Option.bind_splits if_splits)

lemma coalesce_next_more: "coalesce_next b s = Some s' \<Longrightarrow> kheap.more s' = kheap.more s"
  by (auto simp: coalesce_next_def Let_def dest!: header_more split: Option.bind_splits if_splits)

lemma coalesce_prev_more: "coalesce_prev b s = Some s' \<Longrightarrow> kheap.more s' = kheap.more s"
  by (auto simp: coalesce_prev_def Let_def dest!: header_more split: Option.bind_splits if_splits)

lemma heap_append_more: "heap_append b x s = Some s' \<Longrightarrow> kheap.more s' = kheap.more s"
  by (auto simp: heap_append_def Let_def dest!: header_more split: Option.bind_splits if_splits)

lemma heap_map_more_more: "heap_map_more n s = Some (r, s') \<Longrightarrow> kheap.more s' = kheap.more s"
proof -
  assume run: "heap_map_more n s = Some (r, s')"
  then show ?thesis
    unfolding heap_map_more_def Let_def
    by (elim for_status_invariant [where P = "\<lambda>s1. kheap.more s1 = kheap.more s", rotated 2])
      (auto dest: heap_map_page_fields(4))
qed

lemma kmalloc_more: "kmalloc n s = Some (p, s') \<Longrightarrow> kheap.more s' = kheap.more s"
  by (auto simp: kmalloc_def Let_def dest!: hmodify_more split_block_more heap_map_more_more heap_append_more
      split: Option.bind_splits if_splits)

lemma kfree_more: "kfree p s = Some s' \<Longrightarrow> kheap.more s' = kheap.more s"
  by (auto simp: kfree_def coalesce_def Let_def dest!: hmodify_more coalesce_next_more coalesce_prev_more
      split: Option.bind_splits if_splits)

section \<open>Address spaces\<close>

lemma virt_write_more: "virt_write v bs s = Some s' \<Longrightarrow> kpaging.more s' = kpaging.more s"
  by (induction v bs s rule: virt_write.induct) (auto split: option.splits Option.bind_splits)

lemma set_entry_more [simp]: "kpaging.more (set_entry t i e s) = kpaging.more s"
  by (simp add: set_entry_def)

lemma unmap_page_more [simp]: "kpaging.more (paging_unmap_page v s) = kpaging.more s"
  by (simp add: paging_unmap_page_def Let_def)

lemma map_page_more: "paging_map_page v p f s = (r, s') \<Longrightarrow> kpaging.more s' = kpaging.more s"
  using map_page_flags_more [of v p f "PAGE_PRESENT OR PAGE_WRITABLE" s] by (simp add: paging_map_page_def)

lemma alloc_page_more: "paging_alloc_page s = (p, s') \<Longrightarrow> kpaging.more s' = kpaging.more s"
  using kpaging_more_simps(1) [of s] by simp

lemma alloc_table_more: "paging_alloc_table s = (p, s') \<Longrightarrow> kpaging.more s' = kpaging.more s"
  using alloc_table_simps(2) [of s] by simp

lemmas page_more = map_page_more alloc_page_more alloc_table_more virt_write_more

lemma copy_frame_more: "paging_copy_frame d p s = Some (r, s') \<Longrightarrow> kpaging.more s' = kpaging.more s"
  by (auto simp: paging_copy_frame_def Let_def dest!: page_more split: Option.bind_splits if_splits prod.splits)

lemma clone_pt_more: "paging_clone_user_pt a b c d s = Some (r, s') \<Longrightarrow> kpaging.more s' = kpaging.more s"
  unfolding paging_clone_user_pt_def Let_def
  by (auto split: prod.splits if_splits Option.bind_splits dest!: alloc_table_more alloc_page_more copy_frame_more
      elim!: for_status_invariant [where P = "\<lambda>s1. kpaging.more s1 = kpaging.more s", rotated 2])

lemma clone_pd_more: "paging_clone_user_pd a b c d s = Some (r, s') \<Longrightarrow> kpaging.more s' = kpaging.more s"
  unfolding paging_clone_user_pd_def Let_def
  by (auto split: prod.splits if_splits Option.bind_splits dest!: alloc_table_more clone_pt_more
      elim!: for_status_invariant [where P = "\<lambda>s1. kpaging.more s1 = kpaging.more s", rotated 2])

lemma clone_pdpt_more: "paging_clone_user_pdpt a b c d s = Some (r, s') \<Longrightarrow> kpaging.more s' = kpaging.more s"
  unfolding paging_clone_user_pdpt_def Let_def
  by (auto split: prod.splits if_splits Option.bind_splits dest!: alloc_table_more clone_pd_more
      elim!: for_status_invariant [where P = "\<lambda>s1. kpaging.more s1 = kpaging.more s", rotated 2])

lemma clone_more: "paging_clone_current_address_space u s = Some (r, s') \<Longrightarrow> kpaging.more s' = kpaging.more s"
  unfolding paging_clone_current_address_space_def Let_def
  by (auto split: prod.splits if_splits Option.bind_splits dest!: alloc_table_more clone_pdpt_more
      elim!: for_status_invariant [where P = "\<lambda>s1. kpaging.more s1 = kpaging.more s", rotated 2])

section \<open>User pages\<close>

lemma map_user_page_more: "paging_map_user_page v p f s = (r, s') \<Longrightarrow> kpaging.more s' = kpaging.more s"
  using map_page_flags_more [of v p "f OR PAGE_USER" "PAGE_PRESENT OR PAGE_WRITABLE OR PAGE_USER" s]
  by (simp add: paging_map_user_page_def)

lemma zero_frame_more: "paging_zero_frame p s = Some s' \<Longrightarrow> kpaging.more s' = kpaging.more s"
  by (auto simp: paging_zero_frame_def Let_def dest!: page_more split: Option.bind_splits if_splits prod.splits)

lemma map_user_range_more: "paging_map_user_range v n f s = Some (r, s') \<Longrightarrow> kpaging.more s' = kpaging.more s"
  unfolding paging_map_user_range_def Let_def
  by (elim for_status_invariant [where P = "\<lambda>s1. kpaging.more s1 = kpaging.more s", rotated 2])
    (auto simp: map_user_page_step_def Let_def dest!: alloc_page_more zero_frame_more map_user_page_more
      split: Option.bind_splits if_splits prod.splits)

lemma clear_phys_more: "paging_clear_phys p n s = Some (r, s') \<Longrightarrow> kpaging.more s' = kpaging.more s"
proof (induction p n s rule: paging_clear_phys.induct)
  case (1 p n s)
  obtain q s1 where m: "paging_map_page KERNEL_KMAP_WINDOW (p AND PAGE_MASK) (PAGE_PRESENT OR PAGE_WRITABLE) s = (q, s1)"
    by fastforce
  note k = map_page_more [OF m]
  show ?case
  proof (cases "n = 0 \<or> q \<noteq> 0")
    case True
    then show ?thesis using 1(2) m k by (subst (asm) paging_clear_phys.simps) (auto simp: Let_def split: if_splits)
  next
    case False
    then obtain s2 where w: "virt_write (KERNEL_KMAP_WINDOW + (p AND (PAGE_SIZE - 1))) (replicate (unat (page_chunk p n)) 0) s1 = Some s2"
      "paging_clear_phys (p + page_chunk p n) (n - page_chunk p n) (paging_unmap_page KERNEL_KMAP_WINDOW s2) = Some (r, s')"
      using 1(2) m by (subst (asm) paging_clear_phys.simps) (auto simp: Let_def split: Option.bind_splits)
    have "n \<noteq> 0" "\<not> q \<noteq> 0" using False by simp_all
    from 1(1) [OF this(1) refl refl refl m [symmetric] refl this(2) w] show ?thesis using k virt_write_more [OF w(1)] by simp
  qed
qed

lemma write_phys_more: "paging_write_phys p bs n s = Some (r, s') \<Longrightarrow> kpaging.more s' = kpaging.more s"
proof (induction p bs n s rule: paging_write_phys.induct)
  case (1 p bs n s)
  obtain q s1 where m: "paging_map_page KERNEL_KMAP_WINDOW (p AND PAGE_MASK) (PAGE_PRESENT OR PAGE_WRITABLE) s = (q, s1)"
    by fastforce
  note k = map_page_more [OF m]
  show ?case
  proof (cases "n = 0 \<or> q \<noteq> 0")
    case True
    then show ?thesis using 1(2) m k by (subst (asm) paging_write_phys.simps) (auto simp: Let_def split: if_splits)
  next
    case False
    then obtain s2 where w: "virt_write (KERNEL_KMAP_WINDOW + (p AND (PAGE_SIZE - 1))) (take (unat (page_chunk p n)) bs) s1 = Some s2"
      "paging_write_phys (p + page_chunk p n) (drop (unat (page_chunk p n)) bs) (n - page_chunk p n)
        (paging_unmap_page KERNEL_KMAP_WINDOW s2) = Some (r, s')"
      using 1(2) m by (subst (asm) paging_write_phys.simps) (auto simp: Let_def split: Option.bind_splits)
    have "n \<noteq> 0" "\<not> q \<noteq> 0" using False by simp_all
    from 1(1) [OF this(1) refl refl refl m [symmetric] refl this(2) w] show ?thesis using k virt_write_more [OF w(1)] by simp
  qed
qed

lemma set_user_path_more: "kpaging.more (paging_set_user_path v s) = kpaging.more s"
  by (simp add: paging_set_user_path_def Let_def)

lemma promote_more: "paging_promote_user_identity v f s = (r, s') \<Longrightarrow> kpaging.more s' = kpaging.more s"
  by (auto simp: paging_promote_user_identity_def Let_def set_user_path_more split: if_splits)

lemma split_huge_range_more: "kpaging.more (paging_split_huge_range a b s) = kpaging.more s"
proof -
  have step: "kpaging.more (snd (split_range_step i st)) = kpaging.more (snd st)" for i and st :: "bool \<times> 'a kpaging_scheme"
    using split_huge_more [of "pd0 (snd st)" "of_nat i" "snd st"]
    by (auto simp: split_range_step_def Let_def split: prod.splits)
  have "kpaging.more (snd (fold split_range_step is st)) = kpaging.more (snd st)" for "is" and st :: "bool \<times> 'a kpaging_scheme"
    by (induction "is" arbitrary: st) (simp_all add: step)
  then show ?thesis by (simp add: paging_split_huge_range_def Let_def)
qed

end
