(* ===== verification/Proc.thy ===== *)
theory Proc
  imports Vfs Ring Kept
begin

unbundle bit_operations_syntax

text \<open>
  \<^verbatim>\<open>core/proc.c\<close>: the sixteen tasks, their file descriptors, the pipes, fork, exit and wait.  A pointer to
  a task or a pipe is its index in the array; a \<^verbatim>\<open>struct vfs_file\<close> lives in a block of the heap and
  \<open>files s a\<close> is the one at address \<open>a\<close>, 0 the null pointer.  The model-specific registers and the
  stack pointer in the TSS are part of the state.  Running a user program is the parameter \<open>run\<close> of
  \<open>proc_run_runnable\<close>: what the machine does from entering user mode until control returns to
  the kernel through \<^verbatim>\<open>longjmp_asm\<close>, \<open>None\<close> if it never does.
\<close>

section \<open>State\<close>

datatype task_state = TASK_UNUSED | TASK_RUNNABLE | TASK_RUNNING | TASK_BLOCKED | TASK_ZOMBIE

definition PROC_MAX_FD :: nat where [simp]: "PROC_MAX_FD = 32"
definition PROC_MAX_PIPE :: nat where [simp]: "PROC_MAX_PIPE = 8"
definition PROC_MAX_TASKS :: nat where [simp]: "PROC_MAX_TASKS = 16"
definition TASK_KERNEL_STACK_SIZE :: u64 where [simp]: "TASK_KERNEL_STACK_SIZE = 0x10000"
definition USER_BRK_START :: u64 where [simp]: "USER_BRK_START = 0x80000000"
definition sizeof_vfs_file :: u64 where [simp]: "sizeof_vfs_file = 288"

record process =
  p_brk :: u64
  p_cr3 :: u64
  p_kernel_rsp :: u64
  p_user_rsp :: u64
  p_user_rip :: u64
  p_user_rflags :: u64
  p_user_rax :: u64
  p_user_regs :: "u64 list"
  p_fs_base :: u64
  p_wake_deadline :: u64
  p_kernel_stack :: u64
  p_cwd :: "u8 list"
  p_pid :: int
  p_ppid :: int
  p_sid :: int
  p_pgid :: int
  p_exit_status :: int
  p_state :: task_state
  p_parent :: "nat option"
  p_fds :: "u64 list"

record kproc = kvfs +
  tasks :: "process list"
  current_task :: nat
  pipes :: "pipe list"
  next_pid :: int
  files :: "u64 \<Rightarrow> vfs_file option"
  fork_jmp_active :: bool
  fork_jmp_parent :: "nat option"
  msr_fs_base :: u64
  tss_rsp0 :: u64

text \<open>A task of zero bytes.\<close>

definition zero_task :: process where
  "zero_task = \<lparr>p_brk = 0, p_cr3 = 0, p_kernel_rsp = 0, p_user_rsp = 0, p_user_rip = 0, p_user_rflags = 0,
     p_user_rax = 0, p_user_regs = replicate 15 0, p_fs_base = 0, p_wake_deadline = 0, p_kernel_stack = 0,
     p_cwd = [], p_pid = 0, p_ppid = 0, p_sid = 0, p_pgid = 0, p_exit_status = 0, p_state = TASK_UNUSED,
     p_parent = None, p_fds = replicate PROC_MAX_FD 0\<rparr>"

definition zero_pipe :: pipe where
  "zero_pipe = \<lparr>buf = replicate 4096 0, head = 0, tail = 0, count = 0, readers = 0, writers = 0, in_use = False\<rparr>"

abbreviation task :: "'a kproc_scheme \<Rightarrow> nat \<Rightarrow> process" where
  "task s i \<equiv> tasks s ! i"

abbreviation cur :: "'a kproc_scheme \<Rightarrow> process" where
  "cur s \<equiv> task s (current_task s)"

definition on_task :: "nat \<Rightarrow> (process \<Rightarrow> process) \<Rightarrow> 'a kproc_scheme \<Rightarrow> 'a kproc_scheme" where
  "on_task i f s = s\<lparr>tasks := (tasks s)[i := f (task s i)]\<rparr>"

definition on_pipe :: "nat \<Rightarrow> (pipe \<Rightarrow> pipe) \<Rightarrow> 'a kproc_scheme \<Rightarrow> 'a kproc_scheme" where
  "on_pipe i f s = s\<lparr>pipes := (pipes s)[i := f (pipes s ! i)]\<rparr>"

definition set_fd :: "nat \<Rightarrow> nat \<Rightarrow> u64 \<Rightarrow> 'a kproc_scheme \<Rightarrow> 'a kproc_scheme" where
  "set_fd i fd a s = on_task i (\<lambda>t. t\<lparr>p_fds := (p_fds t)[fd := a]\<rparr>) s"

definition fput :: "u64 \<Rightarrow> vfs_file \<Rightarrow> 'a kproc_scheme \<Rightarrow> 'a kproc_scheme" where
  "fput a f s = s\<lparr>files := (files s)(a \<mapsto> f)\<rparr>"

definition fdrop :: "u64 \<Rightarrow> 'a kproc_scheme \<Rightarrow> 'a kproc_scheme" where
  "fdrop a s = s\<lparr>files := (files s)(a := None)\<rparr>"

text \<open>Freeing the block of an open file.\<close>

definition free_file :: "u64 \<Rightarrow> 'a kproc_scheme \<Rightarrow> 'a kproc_scheme option" where
  "free_file a s = kfree a (fdrop a s)"

text \<open>\<^verbatim>\<open>x++\<close> on an \<^verbatim>\<open>int\<close>: the overflow is undefined.\<close>

definition int_inc :: "int \<Rightarrow> int option" where
  "int_inc x = (if x = 2 ^ 31 - 1 then None else Some (x + 1))"

definition set_state :: "nat \<Rightarrow> task_state \<Rightarrow> 'a kproc_scheme \<Rightarrow> 'a kproc_scheme" where
  "set_state i st = on_task i (\<lambda>t. t\<lparr>p_state := st\<rparr>)"

text \<open>The first index of a task that satisfies a test, the search loop of the operations below.\<close>

definition find_task :: "(process \<Rightarrow> bool) \<Rightarrow> 'a kproc_scheme \<Rightarrow> nat option" where
  "find_task P s = find (\<lambda>i. P (task s i)) [0..<PROC_MAX_TASKS]"

section \<open>Tasks\<close>

definition proc_current :: "'a kproc_scheme \<Rightarrow> nat" where
  "proc_current s = current_task s"

definition proc_alloc_task :: "'a kproc_scheme \<Rightarrow> (nat option \<times> 'a kproc_scheme) option" where
  "proc_alloc_task s =
     (case find_task (\<lambda>t. p_state t = TASK_UNUSED) s of
        None \<Rightarrow> Some (None, s)
      | Some i \<Rightarrow>
          do { pid' \<leftarrow> int_inc (next_pid s);
               let s1 = (on_task i (\<lambda>t. zero_task\<lparr>p_pid := next_pid s, p_state := TASK_RUNNABLE,
                                                  p_cr3 := paging_current_cr3 s\<rparr>) s)
                          \<lparr>next_pid := pid'\<rparr>;
               (stack, s2) \<leftarrow> kmalloc TASK_KERNEL_STACK_SIZE s1;
               let s3 = on_task i (\<lambda>t. t\<lparr>p_kernel_stack := stack\<rparr>) s2;
               if stack = 0 then Some (None, set_state i TASK_UNUSED s3)
               else Some (Some i, on_task i (\<lambda>t. t\<lparr>p_kernel_rsp := stack + TASK_KERNEL_STACK_SIZE\<rparr>) s3) })"

definition console_path :: "u8 list" where
  "console_path = [47, 100, 101, 118, 47, 99, 111, 110, 115, 111, 108, 101]"

definition proc_open_console_fd :: "int \<Rightarrow> 'a kproc_scheme \<Rightarrow> 'a kproc_scheme option" where
  "proc_open_console_fd fd s =
     (if fd < 0 \<or> fd \<ge> int PROC_MAX_FD \<or> p_fds (cur s) ! nat fd \<noteq> 0 then Some s
      else
        do { (file, s1) \<leftarrow> kmalloc sizeof_vfs_file s;
             if file = 0 then Some s1
             else Some (set_fd (current_task s1) (nat fd) file
                    (fput file \<lparr>vf_inode = 0, vf_pos = 0, vf_path = console_path, vf_pipe = None, vf_pipe_end = - 1\<rparr> s1)) })"

definition proc_open_standard_fds :: "'a kproc_scheme \<Rightarrow> 'a kproc_scheme option" where
  "proc_open_standard_fds s =
     do { s1 \<leftarrow> proc_open_console_fd 0 s; s2 \<leftarrow> proc_open_console_fd 1 s1; proc_open_console_fd 2 s2 }"

definition proc_task_by_pid :: "int \<Rightarrow> 'a kproc_scheme \<Rightarrow> nat option" where
  "proc_task_by_pid pid s = find_task (\<lambda>t. p_state t \<noteq> TASK_UNUSED \<and> p_pid t = pid) s"

definition proc_switch_current :: "nat \<Rightarrow> 'a kproc_scheme \<Rightarrow> 'a kproc_scheme" where
  "proc_switch_current i s = s\<lparr>current_task := i\<rparr>"

definition proc_pipe_alloc :: "'a kproc_scheme \<Rightarrow> nat option \<times> 'a kproc_scheme" where
  "proc_pipe_alloc s =
     (case find (\<lambda>i. \<not> in_use (pipes s ! i)) [0..<PROC_MAX_PIPE] of
        None \<Rightarrow> (None, s)
      | Some i \<Rightarrow> (Some i, on_pipe i (\<lambda>p. zero_pipe\<lparr>in_use := True\<rparr>) s))"

definition proc_pipe_free :: "nat \<Rightarrow> 'a kproc_scheme \<Rightarrow> 'a kproc_scheme" where
  "proc_pipe_free i s = on_pipe i (\<lambda>p. p\<lparr>in_use := False\<rparr>) s"

fun fd_close_loop :: "nat list \<Rightarrow> 'a kproc_scheme \<Rightarrow> 'a kproc_scheme option" where
  "fd_close_loop [] s = Some s"
| "fd_close_loop (i # is) s =
     (let a = p_fds (cur s) ! i
      in if a \<noteq> 0 then
           do { f \<leftarrow> files s a;
                s1 \<leftarrow> free_file a (fput a (vfs_close f) s);
                fd_close_loop is (set_fd (current_task s1) i 0 s1) }
         else fd_close_loop is s)"

definition proc_fd_close_all :: "'a kproc_scheme \<Rightarrow> 'a kproc_scheme option" where
  "proc_fd_close_all s = fd_close_loop [3..<PROC_MAX_FD] s"

definition proc_fork_is_child :: int where "proc_fork_is_child = 0"

definition proc_fork_child_pid :: "'a kproc_scheme \<Rightarrow> int" where
  "proc_fork_child_pid s =
     (case find_task (\<lambda>t. p_state t \<noteq> TASK_UNUSED \<and> p_parent t = Some (current_task s)) s of
        None \<Rightarrow> - 1 | Some i \<Rightarrow> p_pid (task s i))"

definition proc_has_children :: "'a kproc_scheme \<Rightarrow> bool" where
  "proc_has_children s \<longleftrightarrow>
     find_task (\<lambda>t. p_state t \<noteq> TASK_UNUSED \<and> p_parent t = Some (current_task s) \<and> p_state t \<noteq> TASK_ZOMBIE) s \<noteq> None \<or>
     find_task (\<lambda>t. p_state t = TASK_ZOMBIE \<and> p_parent t = Some (current_task s)) s \<noteq> None"

text \<open>The pid or -1, and the exit status that is stored.\<close>

definition proc_fork_take_status :: "int \<Rightarrow> 'a kproc_scheme \<Rightarrow> int \<times> int option \<times> 'a kproc_scheme" where
  "proc_fork_take_status pid s =
     (case find_task (\<lambda>t. \<not> (p_state t \<noteq> TASK_ZOMBIE \<or> p_parent t \<noteq> Some (current_task s)) \<and>
                          \<not> (pid \<noteq> - 1 \<and> pid \<noteq> p_pid t)) s of
        None \<Rightarrow> (- 1, None, s)
      | Some i \<Rightarrow> (p_pid (task s i), Some (p_exit_status (task s i)), set_state i TASK_UNUSED s))"

section \<open>Fork\<close>

text \<open>The reference that the copy of an open file takes on its pipe.\<close>

definition pipe_ref :: "vfs_file \<Rightarrow> 'a kproc_scheme \<Rightarrow> 'a kproc_scheme option" where
  "pipe_ref f s =
     (case vf_pipe f of
        None \<Rightarrow> Some s
      | Some k \<Rightarrow>
          if vf_pipe_end f = 0 then
            do { n \<leftarrow> int_inc (readers (pipes s ! k)); Some (on_pipe k (\<lambda>p. p\<lparr>readers := n\<rparr>) s) }
          else if vf_pipe_end f = 1 then
            do { n \<leftarrow> int_inc (writers (pipes s ! k)); Some (on_pipe k (\<lambda>p. p\<lparr>writers := n\<rparr>) s) }
          else Some s)"

text \<open>The loop over the descriptors; whether it ran to its end.\<close>

fun fork_fds :: "nat \<Rightarrow> nat \<Rightarrow> nat list \<Rightarrow> 'a kproc_scheme \<Rightarrow> (bool \<times> 'a kproc_scheme) option" where
  "fork_fds parent child [] s = Some (True, s)"
| "fork_fds parent child (i # is) s =
     (let a = p_fds (task s parent) ! i
      in if a = 0 then fork_fds parent child is s
         else
           do { (file, s1) \<leftarrow> kmalloc sizeof_vfs_file s;
                let s2 = set_fd child i file s1;
                if file = 0 then Some (False, set_state child TASK_UNUSED s2)
                else
                  do { f \<leftarrow> files s2 a;
                       s3 \<leftarrow> pipe_ref f (fput file f s2);
                       fork_fds parent child is s3 } })"

definition proc_fork :: "'a kproc_scheme \<Rightarrow> (int \<times> 'a kproc_scheme) option" where
  "proc_fork s =
     do { let parent = current_task s;
          (child, s1) \<leftarrow> proc_alloc_task s;
          case child of
            None \<Rightarrow> Some (- 1, s1)
          | Some c \<Rightarrow>
              do { (child_cr3, s2) \<leftarrow> paging_clone_current_address_space True s1;
                   if child_cr3 = 0 then Some (- 1, set_state c TASK_UNUSED s2)
                   else
                     do { let p = task s2 parent;
                          let s3 = on_task c (\<lambda>t. t\<lparr>p_cr3 := child_cr3, p_brk := p_brk p, p_ppid := p_pid p,
                                     p_sid := p_sid p, p_pgid := p_pgid p, p_parent := Some parent,
                                     p_user_rip := p_user_rip p, p_user_rsp := p_user_rsp p,
                                     p_user_rflags := p_user_rflags p, p_user_rax := 0,
                                     p_user_regs := p_user_regs p, p_fs_base := p_fs_base p, p_cwd := p_cwd p\<rparr>) s2;
                          (done_all, s4) \<leftarrow> fork_fds parent c [0..<PROC_MAX_FD] s3;
                          if \<not> done_all then Some (- 1, s4)
                          else (let s5 = set_state c TASK_RUNNABLE s4 in Some (p_pid (task s5 c), s5)) } } }"

section \<open>Running tasks, exit\<close>

definition wrmsr_fs_base :: "u64 \<Rightarrow> 'a kproc_scheme \<Rightarrow> 'a kproc_scheme" where
  "wrmsr_fs_base v s = s\<lparr>msr_fs_base := v\<rparr>"

definition gdt_set_rsp0 :: "u64 \<Rightarrow> 'a kproc_scheme \<Rightarrow> 'a kproc_scheme" where
  "gdt_set_rsp0 v s = s\<lparr>tss_rsp0 := v\<rparr>"

definition proc_activate :: "nat \<Rightarrow> 'a kproc_scheme \<Rightarrow> 'a kproc_scheme" where
  "proc_activate i s =
     (let s1 = wrmsr_fs_base (p_fs_base (task s i)) (paging_switch_cr3 (p_cr3 (task s i)) (proc_switch_current i s));
          s2 = (if p_kernel_rsp (task s1 i) \<noteq> 0 then gdt_set_rsp0 (p_kernel_rsp (task s1 i)) s1 else s1)
      in set_state i TASK_RUNNING s2)"

text \<open>The first task that is runnable and not the current one runs until it comes back; whether there was
  one.\<close>

definition proc_run_runnable ::
    "('a kproc_scheme \<Rightarrow> 'a kproc_scheme option) \<Rightarrow> 'a kproc_scheme \<Rightarrow> (bool \<times> 'a kproc_scheme) option" where
  "proc_run_runnable run s =
     (let self = current_task s
      in case find (\<lambda>i. \<not> (p_state (task s i) \<noteq> TASK_RUNNABLE \<or> i = self)) [0..<PROC_MAX_TASKS] of
           None \<Rightarrow> Some (False, s)
         | Some i \<Rightarrow>
             do { s1 \<leftarrow> run (proc_activate i (s\<lparr>fork_jmp_parent := Some self, fork_jmp_active := True\<rparr>));
                  Some (True, proc_activate self (s1\<lparr>fork_jmp_active := False, fork_jmp_parent := None\<rparr>)) })"

definition proc_wake_parent :: "'a kproc_scheme \<Rightarrow> 'a kproc_scheme" where
  "proc_wake_parent s =
     (case p_parent (cur s) of
        None \<Rightarrow> s
      | Some p \<Rightarrow> if p_state (task s p) = TASK_BLOCKED then set_state p TASK_RUNNABLE s else s)"

text \<open>Whether control goes back to the parent by \<^verbatim>\<open>longjmp_asm\<close>; otherwise the caller goes on.\<close>

definition proc_fork_sync_exit :: "int \<Rightarrow> 'a kproc_scheme \<Rightarrow> bool \<times> 'a kproc_scheme" where
  "proc_fork_sync_exit status s =
     (if \<not> fork_jmp_active s \<or> fork_jmp_parent s = None then (False, s)
      else (True, proc_wake_parent (on_task (current_task s)
                    (\<lambda>t. t\<lparr>p_exit_status := status, p_state := TASK_ZOMBIE\<rparr>) s)))"

definition proc_exit :: "int \<Rightarrow> 'a kproc_scheme \<Rightarrow> bool \<times> 'a kproc_scheme" where
  "proc_exit status s =
     (let (jumped, s1) = proc_fork_sync_exit status s
      in if jumped then (True, s1)
         else (False, proc_wake_parent (on_task (current_task s1)
                 (\<lambda>t. t\<lparr>p_exit_status := status, p_state := TASK_ZOMBIE\<rparr>) s1)))"

section \<open>Saved contexts\<close>

definition proc_save_user_context :: "u64 \<Rightarrow> u64 \<Rightarrow> u64 \<Rightarrow> 'a kproc_scheme \<Rightarrow> 'a kproc_scheme" where
  "proc_save_user_context rip rsp rflags s =
     on_task (current_task s) (\<lambda>t. t\<lparr>p_user_rip := rip, p_user_rsp := rsp, p_user_rflags := rflags\<rparr>) s"

definition proc_set_user_context :: "u64 \<Rightarrow> u64 \<Rightarrow> u64 \<Rightarrow> 'a kproc_scheme \<Rightarrow> 'a kproc_scheme" where
  "proc_set_user_context rip rsp rflags s =
     on_task (current_task s) (\<lambda>t. t\<lparr>p_user_rip := rip, p_user_rsp := rsp, p_user_rflags := rflags\<rparr>) s"

text \<open>The frames that the entry code pushed: 14 words for a system call, 19 for an interrupt.\<close>

definition proc_save_syscall_frame :: "u64 list \<Rightarrow> u64 \<Rightarrow> u64 \<Rightarrow> 'a kproc_scheme \<Rightarrow> 'a kproc_scheme" where
  "proc_save_syscall_frame kframe rcx r11 s =
     on_task (current_task s) (\<lambda>t. t\<lparr>p_user_regs :=
         [kframe ! 0, kframe ! 4, rcx, kframe ! 3, kframe ! 2, kframe ! 1, kframe ! 5, kframe ! 6, kframe ! 7,
          kframe ! 8, r11, kframe ! 10, kframe ! 11, kframe ! 12, kframe ! 13],
       p_user_rax := kframe ! 0\<rparr>) s"

definition proc_save_irq_frame :: "u64 list \<Rightarrow> 'a kproc_scheme \<Rightarrow> 'a kproc_scheme" where
  "proc_save_irq_frame frame s =
     on_task (current_task s) (\<lambda>t. t\<lparr>p_user_rip := frame ! 15, p_user_rsp := frame ! 18,
       p_user_rflags := frame ! 17, p_user_rax := frame ! 14,
       p_user_regs := map (\<lambda>i. frame ! (14 - i)) [0..<15]\<rparr>) s"

definition proc_restore_irq_frame :: "u64 list \<Rightarrow> 'a kproc_scheme \<Rightarrow> u64 list" where
  "proc_restore_irq_frame frame s =
     (let t = cur s;
          f = frame[15 := p_user_rip t, 18 := p_user_rsp t, 17 := p_user_rflags t, 14 := p_user_rax t]
      in foldl (\<lambda>f i. f[14 - i := p_user_regs t ! i]) f [0..<15])"

definition proc_set_fs_base :: "u64 \<Rightarrow> 'a kproc_scheme \<Rightarrow> 'a kproc_scheme" where
  "proc_set_fs_base fs_base s = wrmsr_fs_base fs_base (on_task (current_task s) (\<lambda>t. t\<lparr>p_fs_base := fs_base\<rparr>) s)"

definition proc_init :: "'a kproc_scheme \<Rightarrow> 'a kproc_scheme option" where
  "proc_init s =
     do { let s1 = s\<lparr>tasks := replicate PROC_MAX_TASKS zero_task, current_task := 0\<rparr>;
          let s2 = on_task 0 (\<lambda>t. t\<lparr>p_pid := 1, p_ppid := 0, p_sid := 1, p_pgid := 1, p_brk := USER_BRK_START,
                                     p_cr3 := paging_current_cr3 s1\<rparr>) s1;
          (stack, s3) \<leftarrow> kmalloc TASK_KERNEL_STACK_SIZE s2;
          let s4 = on_task 0 (\<lambda>t. t\<lparr>p_kernel_stack := stack\<rparr>) s3;
          let s5 = (if stack \<noteq> 0 then on_task 0 (\<lambda>t. t\<lparr>p_kernel_rsp := stack + TASK_KERNEL_STACK_SIZE\<rparr>) s4 else s4);
          let s6 = on_task 0 (\<lambda>t. t\<lparr>p_state := TASK_RUNNING, p_cwd := [slash]\<rparr>) s5;
          proc_open_standard_fds s6 }"

section \<open>The process table\<close>

lemma proc_fields:
  assumes "kheap.more s' = kheap.more s"
  shows "tasks s' = tasks s" "current_task s' = current_task s" "pipes s' = pipes s" "next_pid s' = next_pid s"
    "files s' = files s" "fork_jmp_active s' = fork_jmp_active s" "fork_jmp_parent s' = fork_jmp_parent s"
    "inodes s' = inodes s" "root_inode s' = root_inode s" "kproc.more s' = kproc.more s"
  using assms by (cases s; cases s'; simp)+

lemma proc_fields_paging:
  assumes "kpaging.more s' = kpaging.more s"
  shows "kheap.more s' = kheap.more s"
  using assms by (cases s; cases s'; simp)

lemmas kmalloc_fields = proc_fields [OF kmalloc_more]
lemmas kfree_fields = proc_fields [OF kfree_more]
lemmas clone_fields = proc_fields [OF proc_fields_paging [OF clone_more]]

lemma on_task_simps [simp]:
  "tasks (on_task i f s) = (tasks s)[i := f (tasks s ! i)]" "current_task (on_task i f s) = current_task s"
  "pipes (on_task i f s) = pipes s" "next_pid (on_task i f s) = next_pid s" "files (on_task i f s) = files s"
  "fork_jmp_parent (on_task i f s) = fork_jmp_parent s" "fork_jmp_active (on_task i f s) = fork_jmp_active s"
  "inodes (on_task i f s) = inodes s"
  by (simp_all add: on_task_def)

lemma on_pipe_simps [simp]:
  "tasks (on_pipe i g s) = tasks s" "current_task (on_pipe i g s) = current_task s"
  "pipes (on_pipe i g s) = (pipes s)[i := g (pipes s ! i)]" "next_pid (on_pipe i g s) = next_pid s"
  "files (on_pipe i g s) = files s" "fork_jmp_parent (on_pipe i g s) = fork_jmp_parent s" "inodes (on_pipe i g s) = inodes s"
  by (simp_all add: on_pipe_def)

lemma file_update_simps [simp]:
  "tasks (fput a f s) = tasks s" "current_task (fput a f s) = current_task s" "pipes (fput a f s) = pipes s"
  "next_pid (fput a f s) = next_pid s" "files (fput a f s) = (files s)(a \<mapsto> f)" "fork_jmp_parent (fput a f s) = fork_jmp_parent s"
  "inodes (fput a f s) = inodes s"
  "tasks (fdrop a s) = tasks s" "current_task (fdrop a s) = current_task s" "pipes (fdrop a s) = pipes s"
  "next_pid (fdrop a s) = next_pid s" "files (fdrop a s) = (files s)(a := None)" "fork_jmp_parent (fdrop a s) = fork_jmp_parent s"
  "inodes (fdrop a s) = inodes s"
  by (simp_all add: fput_def fdrop_def)

text \<open>A slot of the table; pids are never reused, so that a freed slot keeps a pid of its own.\<close>

definition task_ok :: "int \<Rightarrow> nat \<Rightarrow> process \<Rightarrow> bool" where
  "task_ok n i t \<longleftrightarrow> length (p_fds t) = 32 \<and> length (p_user_regs t) = 15 \<and> 0 \<le> p_pid t \<and> p_pid t < n \<and>
     (p_state t \<noteq> TASK_UNUSED \<longrightarrow> 0 < p_pid t) \<and> p_parent t \<noteq> Some i \<and> (\<forall>q. p_parent t = Some q \<longrightarrow> q < 16)"

definition procs_ok :: "'a kproc_scheme \<Rightarrow> bool" where
  "procs_ok s \<longleftrightarrow> length (tasks s) = 16 \<and> current_task s < 16 \<and> p_state (cur s) \<noteq> TASK_UNUSED \<and> 0 < next_pid s \<and>
     (\<forall>i < 16. task_ok (next_pid s) i (task s i)) \<and>
     (\<forall>i < 16. \<forall>j < 16. i \<noteq> j \<and> 0 < p_pid (task s i) \<longrightarrow> p_pid (task s i) \<noteq> p_pid (task s j)) \<and>
     (\<forall>q. fork_jmp_parent s = Some q \<longrightarrow> q < 16 \<and> 0 < p_pid (task s q))"

lemma procs_okD:
  assumes "procs_ok s"
  shows "length (tasks s) = 16" "current_task s < 16" "p_state (cur s) \<noteq> TASK_UNUSED"
    "i < 16 \<Longrightarrow> task_ok (next_pid s) i (task s i)"
    "i < 16 \<Longrightarrow> j < 16 \<Longrightarrow> i \<noteq> j \<Longrightarrow> 0 < p_pid (task s i) \<Longrightarrow> p_pid (task s i) \<noteq> p_pid (task s j)"
    "fork_jmp_parent s = Some q \<Longrightarrow> q < 16 \<and> 0 < p_pid (task s q)" "0 < next_pid s"
  using assms by (auto simp: procs_ok_def)

lemma task_okD:
  assumes "task_ok n i t"
  shows "length (p_fds t) = 32" "length (p_user_regs t) = 15" "p_pid t < n" "p_parent t \<noteq> Some i"
    "p_parent t = Some q \<Longrightarrow> q < 16" "p_state t \<noteq> TASK_UNUSED \<Longrightarrow> 0 < p_pid t" "0 \<le> p_pid t"
  using assms by (auto simp: task_ok_def)

text \<open>An update of one slot that keeps its pid.\<close>

lemma procs_ok_on_task:
  assumes "procs_ok s" and "i < 16" and "task_ok (next_pid s) i (f (task s i))"
    and "p_pid (f (task s i)) = p_pid (task s i)"
    and "i = current_task s \<Longrightarrow> p_state (f (task s i)) \<noteq> TASK_UNUSED"
  shows "procs_ok (on_task i f s)"
proof -
  let ?s = "on_task i f s"
  note ok = procs_okD [OF assms(1)]
  have "task ?s j = (if j = i then f (task s i) else task s j)" if "j < 16" for j using that ok(1) by simp
  then have pid: "p_pid (task ?s j) = p_pid (task s j)" and t: "task_ok (next_pid s) j (task ?s j)"
    and st: "j = current_task s \<Longrightarrow> p_state (task ?s j) \<noteq> TASK_UNUSED" if "j < 16" for j
    using that ok(3) ok(4) [OF that] assms(3-5) by auto
  have par: "q < 16 \<and> 0 < p_pid (task ?s q)" if "fork_jmp_parent s = Some q" for q using ok(6) [OF that] pid by simp
  have cur: "p_state (task ?s (current_task s)) \<noteq> TASK_UNUSED" using st ok(2) by blast
  show ?thesis
    unfolding procs_ok_def using ok(1,2,5,7) ok(6) par pid t cur by (simp del: on_task_simps(1) add: on_task_def)
qed

lemma procs_ok_same:
  assumes "tasks s' = tasks s" "current_task s' = current_task s" "next_pid s' = next_pid s"
    "fork_jmp_parent s' = fork_jmp_parent s"
  shows "procs_ok s' = procs_ok s"
  by (simp add: procs_ok_def assms)

lemma procs_ok_upd [simp]:
  "procs_ok (on_pipe k g s) = procs_ok s" "procs_ok (fput a f s) = procs_ok s" "procs_ok (fdrop a s) = procs_ok s"
  "procs_ok (wrmsr_fs_base v s) = procs_ok s" "procs_ok (gdt_set_rsp0 v s) = procs_ok s"
  "procs_ok (paging_switch_cr3 v s) = procs_ok s"
  by (rule procs_ok_same;
      simp add: wrmsr_fs_base_def gdt_set_rsp0_def paging_switch_cr3_def on_pipe_def fput_def fdrop_def Let_def)+

lemma find_task_Some:
  "find_task P s = Some i \<Longrightarrow> i < 16 \<and> P (task s i) \<and> (\<forall>j < i. \<not> P (task s j))"
  unfolding find_task_def find_Some_iff by fastforce

lemma find_task_None: "find_task P s = None \<longleftrightarrow> (\<forall>i < 16. \<not> P (task s i))"
  unfolding find_task_def find_None_iff by auto

lemma set_state_ok:
  assumes "procs_ok s" and "i < 16" and "st \<noteq> TASK_UNUSED \<Longrightarrow> 0 < p_pid (task s i)"
    and "i = current_task s \<Longrightarrow> st \<noteq> TASK_UNUSED"
  shows "procs_ok (set_state i st s)"
  unfolding set_state_def
  by (rule procs_ok_on_task) (use assms procs_okD(4) [OF assms(1,2)] in \<open>auto simp: task_ok_def\<close>)

section \<open>New tasks\<close>

lemma procs_ok_new:
  assumes ok: "procs_ok s" and i: "i < 16" "p_state (task s i) = TASK_UNUSED"
    and new: "task_ok (next_pid s + 1) i t" "p_pid t = next_pid s"
  shows "procs_ok ((on_task i (\<lambda>_. t) s)\<lparr>next_pid := next_pid s + 1\<rparr>)"
proof -
  let ?s = "(on_task i (\<lambda>_. t) s)\<lparr>next_pid := next_pid s + 1\<rparr>"
  note k = procs_okD [OF ok]
  have ic: "i \<noteq> current_task s" using i k(3) by auto
  have t: "task ?s j = (if j = i then t else task s j)" if "j < 16" for j using that k(1) by simp
  have tk: "task_ok (next_pid ?s) j (task ?s j)" if "j < 16" for j
    using k(4) [OF that] new t [OF that] by (auto simp: task_ok_def)
  have "p_pid (task s j) \<noteq> next_pid s" if "j < 16" for j using k(4) [OF that] by (simp add: task_ok_def)
  then have pid: "p_pid (task ?s a) \<noteq> p_pid (task ?s b)" if "a < 16" "b < 16" "a \<noteq> b" "0 < p_pid (task ?s a)" for a b
    using that k(5) [OF that(1-3)] new(2) t [OF that(1)] t [OF that(2)] by (metis (no_types, lifting))
  have par: "q < 16 \<and> 0 < p_pid (task ?s q)" if "fork_jmp_parent s = Some q" for q
    using k(6) [OF that] k(7) new(2) t by auto
  have "p_state (cur ?s) \<noteq> TASK_UNUSED" using t [OF k(2)] ic k(3) by simp
  moreover have "length (tasks ?s) = 16" "fork_jmp_parent ?s = fork_jmp_parent s" "current_task ?s = current_task s"
    using k(1) by simp_all
  ultimately show ?thesis unfolding procs_ok_def using k(2,7) tk pid par by (simp del: on_task_simps(1) add: on_task_def)
qed

text \<open>The tasks other than \<open>i\<close> are as they were.\<close>

definition others_same :: "nat \<Rightarrow> 'a kproc_scheme \<Rightarrow> 'a kproc_scheme \<Rightarrow> bool" where
  "others_same i s s' \<longleftrightarrow> current_task s' = current_task s \<and> fork_jmp_parent s' = fork_jmp_parent s \<and>
     length (tasks s') = length (tasks s) \<and> (\<forall>j. j \<noteq> i \<longrightarrow> task s' j = task s j)"

lemma others_same_trans: "others_same i s s' \<Longrightarrow> others_same i s' s'' \<Longrightarrow> others_same i s s''"
  by (simp add: others_same_def)

lemma others_same_on_task [simp]: "others_same i s (on_task i f s)"
  by (simp add: others_same_def)

lemma alloc_task_ok:
  fixes s s' :: "'a kproc_scheme"
  assumes ok: "procs_ok s" and run: "proc_alloc_task s = Some (r, s')"
  shows "procs_ok s'" "pipes s' = pipes s" "files s' = files s" "inodes s' = inodes s" "root_inode s' = root_inode s"
    and "r = None \<Longrightarrow> tasks s' = tasks s \<or> (\<exists>i < 16. p_state (task s i) = TASK_UNUSED \<and>
      p_state (task s' i) = TASK_UNUSED \<and> others_same i s s')"
    and "r = Some i \<Longrightarrow> i < 16 \<and> p_state (task s i) = TASK_UNUSED \<and> others_same i s s' \<and> next_pid s' = next_pid s + 1 \<and>
      (\<exists>stack. task s' i = zero_task\<lparr>p_pid := next_pid s, p_state := TASK_RUNNABLE, p_cr3 := paging_current_cr3 s,
         p_kernel_stack := stack, p_kernel_rsp := stack + TASK_KERNEL_STACK_SIZE\<rparr>)"
proof -
  define goal where "goal = (procs_ok s' \<and> pipes s' = pipes s \<and> files s' = files s \<and> inodes s' = inodes s \<and>
    root_inode s' = root_inode s \<and> (r = None \<longrightarrow> tasks s' = tasks s \<or> (\<exists>i < 16. p_state (task s i) = TASK_UNUSED \<and>
      p_state (task s' i) = TASK_UNUSED \<and> others_same i s s')) \<and>
    (\<forall>i. r = Some i \<longrightarrow> i < 16 \<and> p_state (task s i) = TASK_UNUSED \<and> others_same i s s' \<and> next_pid s' = next_pid s + 1 \<and>
      (\<exists>stack. task s' i = zero_task\<lparr>p_pid := next_pid s, p_state := TASK_RUNNABLE, p_cr3 := paging_current_cr3 s,
         p_kernel_stack := stack, p_kernel_rsp := stack + TASK_KERNEL_STACK_SIZE\<rparr>)))"
  have goal
  proof (cases "find_task (\<lambda>t. p_state t = TASK_UNUSED) s")
    case None
    then show ?thesis using run ok by (simp add: proc_alloc_task_def goal_def)
  next
    case (Some i)
    have i: "i < 16" "p_state (task s i) = TASK_UNUSED" using find_task_Some [OF Some] by auto
    note k = procs_okD [OF ok]
    define t where "t = zero_task\<lparr>p_pid := next_pid s, p_state := TASK_RUNNABLE, p_cr3 := paging_current_cr3 s\<rparr>"
    define s1 where "s1 = (on_task i (\<lambda>_. t) s)\<lparr>next_pid := next_pid s + 1\<rparr>"
    obtain stack s2 where k2: "kmalloc TASK_KERNEL_STACK_SIZE s1 = Some (stack, s2)"
      using run Some by (auto simp: proc_alloc_task_def int_inc_def s1_def t_def Let_def split: if_splits Option.bind_splits)
    define s3 where "s3 = on_task i (\<lambda>t. t\<lparr>p_kernel_stack := stack\<rparr>) s2"
    have s': "(r, s') = (if stack = 0 then (None, set_state i TASK_UNUSED s3)
        else (Some i, on_task i (\<lambda>t. t\<lparr>p_kernel_rsp := stack + TASK_KERNEL_STACK_SIZE\<rparr>) s3))"
      using run Some k2 by (auto simp: proc_alloc_task_def int_inc_def s1_def t_def s3_def Let_def split: if_splits)
    have "task_ok (next_pid s + 1) i t" using k(7) by (simp add: task_ok_def t_def zero_task_def)
    then have "procs_ok s1" unfolding s1_def by (rule procs_ok_new [OF ok i]) (simp add: t_def)
    then have ok2: "procs_ok s2" using procs_ok_same kmalloc_fields [OF k2] by metis
    have t2: "task s2 i = t" "length (tasks s2) = 16" using kmalloc_fields [OF k2] i(1) k(1) by (simp_all add: s1_def)
    have n2: "next_pid s2 = next_pid s + 1" using kmalloc_fields [OF k2] by (simp add: s1_def)
    have c: "i \<noteq> current_task s2" using kmalloc_fields [OF k2] i k(3) by (auto simp: s1_def)
    have ok3: "procs_ok s3"
      unfolding s3_def
      by (rule procs_ok_on_task [OF ok2 i(1)]) (use t2 n2 c k(7) in \<open>simp_all add: task_ok_def t_def zero_task_def\<close>)
    have s3: "task s3 i = t\<lparr>p_kernel_stack := stack\<rparr>" "length (tasks s3) = 16" "next_pid s3 = next_pid s + 1" "i \<noteq> current_task s3"
      using t2 n2 c i(1) by (simp_all add: s3_def)
    have o: "others_same i s s3" using kmalloc_fields [OF k2] by (simp add: others_same_def s1_def s3_def)
    have same: "pipes s3 = pipes s" "files s3 = files s" "inodes s3 = inodes s" "root_inode s3 = root_inode s"
      using kmalloc_fields [OF k2] by (simp_all add: s1_def s3_def on_task_def)
    show ?thesis
    proof (cases "stack = 0")
      case True
      then have r: "r = None" "s' = set_state i TASK_UNUSED s3" using s' by auto
      have "procs_ok s'" unfolding r(2) by (rule set_state_ok [OF ok3 i(1)]) (use s3 in auto)
      moreover have "others_same i s s'" using o unfolding r(2) set_state_def by (blast intro: others_same_trans others_same_on_task)
      moreover have "p_state (task s' i) = TASK_UNUSED" unfolding r(2) set_state_def using s3 i(1) by simp
      moreover have "root_inode s' = root_inode s" using same r(2) by (simp add: set_state_def on_task_def)
      ultimately show ?thesis using r i same unfolding goal_def by (auto simp: set_state_def)
    next
      case False
      then have r: "r = Some i" "s' = on_task i (\<lambda>t. t\<lparr>p_kernel_rsp := stack + TASK_KERNEL_STACK_SIZE\<rparr>) s3"
        using s' by auto
      have "procs_ok s'"
        unfolding r(2) by (rule procs_ok_on_task [OF ok3 i(1)]) (use s3 k(7) in \<open>simp_all add: task_ok_def t_def zero_task_def\<close>)
      moreover have "others_same i s s'" using o unfolding r(2) by (blast intro: others_same_trans others_same_on_task)
      moreover have "task s' i = t\<lparr>p_kernel_stack := stack, p_kernel_rsp := stack + TASK_KERNEL_STACK_SIZE\<rparr>"
        unfolding r(2) using s3 i(1) by simp
      moreover have "root_inode s' = root_inode s" using same r(2) by (simp add: on_task_def)
      ultimately show ?thesis using r i same s3 unfolding goal_def t_def by auto
    qed
  qed
  then show "procs_ok s'" "pipes s' = pipes s" "files s' = files s" "inodes s' = inodes s" "root_inode s' = root_inode s"
    "r = None \<Longrightarrow> tasks s' = tasks s \<or> (\<exists>i < 16. p_state (task s i) = TASK_UNUSED \<and>
      p_state (task s' i) = TASK_UNUSED \<and> others_same i s s')"
    "r = Some i \<Longrightarrow> i < 16 \<and> p_state (task s i) = TASK_UNUSED \<and> others_same i s s' \<and> next_pid s' = next_pid s + 1 \<and>
      (\<exists>stack. task s' i = zero_task\<lparr>p_pid := next_pid s, p_state := TASK_RUNNABLE, p_cr3 := paging_current_cr3 s,
         p_kernel_stack := stack, p_kernel_rsp := stack + TASK_KERNEL_STACK_SIZE\<rparr>)"
    unfolding goal_def by blast+
qed

section \<open>Exit and wait\<close>

lemma wake_parent_simps [simp]:
  "current_task (proc_wake_parent s) = current_task s" "next_pid (proc_wake_parent s) = next_pid s"
  "fork_jmp_parent (proc_wake_parent s) = fork_jmp_parent s" "length (tasks (proc_wake_parent s)) = length (tasks s)"
  "pipes (proc_wake_parent s) = pipes s" "files (proc_wake_parent s) = files s" "inodes (proc_wake_parent s) = inodes s"
  by (auto simp: proc_wake_parent_def set_state_def split: option.splits)

lemma wake_parent_task:
  assumes "procs_ok s" and "i < 16"
  shows "task (proc_wake_parent s) i =
    (if p_parent (cur s) = Some i \<and> p_state (task s i) = TASK_BLOCKED then (task s i)\<lparr>p_state := TASK_RUNNABLE\<rparr> else task s i)"
  using assms procs_okD(1) [OF assms(1)]
  by (cases "p_parent (cur s) = Some i") (auto simp: proc_wake_parent_def set_state_def split: option.splits)

lemma wake_parent_ok:
  assumes "procs_ok s"
  shows "procs_ok (proc_wake_parent s)"
proof (cases "p_parent (cur s)")
  case (Some q)
  have q: "q < 16" using procs_okD(4) [OF assms procs_okD(2) [OF assms]] Some by (auto simp: task_ok_def)
  have "0 < p_pid (task s q)" if "p_state (task s q) = TASK_BLOCKED"
    using procs_okD(4) [OF assms q] that by (auto simp: task_ok_def)
  then show ?thesis using Some assms q by (auto simp: proc_wake_parent_def intro!: set_state_ok)
qed (use assms in \<open>simp add: proc_wake_parent_def\<close>)

text \<open>Both ways out of \<^verbatim>\<open>proc_exit\<close> leave the same state.\<close>

definition zombify :: "int \<Rightarrow> 'a kproc_scheme \<Rightarrow> 'a kproc_scheme" where
  "zombify status s = on_task (current_task s) (\<lambda>t. t\<lparr>p_exit_status := status, p_state := TASK_ZOMBIE\<rparr>) s"

lemma proc_exit_eq:
  "proc_exit status s = (fork_jmp_active s \<and> fork_jmp_parent s \<noteq> None, proc_wake_parent (zombify status s))"
  by (auto simp: proc_exit_def proc_fork_sync_exit_def zombify_def Let_def)

lemma zombify_ok: "procs_ok s \<Longrightarrow> procs_ok (zombify status s)"
  unfolding zombify_def
  by (rule procs_ok_on_task) (use procs_okD(2,3,4) [of s] in \<open>auto simp: task_ok_def\<close>)

lemma take_status_Some:
  assumes ok: "procs_ok s" and q: "current_task s = q" and i: "i < 16" "p_state (task s i) = TASK_ZOMBIE" "p_parent (task s i) = Some q"
  shows "proc_fork_take_status (p_pid (task s i)) s =
    (p_pid (task s i), Some (p_exit_status (task s i)), set_state i TASK_UNUSED s)"
proof -
  let ?P = "\<lambda>t. \<not> (p_state t \<noteq> TASK_ZOMBIE \<or> p_parent t \<noteq> Some (current_task s)) \<and>
      \<not> (p_pid (task s i) \<noteq> - 1 \<and> p_pid (task s i) \<noteq> p_pid t)"
  have pos: "0 < p_pid (task s i)" using procs_okD(4) [OF ok i(1)] i(2) by (simp add: task_ok_def)
  obtain j where j: "find_task ?P s = Some j" using i q find_task_None [of ?P s] by fastforce
  from find_task_Some [OF this] have "j < 16" "p_pid (task s i) = p_pid (task s j)" using pos by auto
  then have "j = i" using procs_okD(5) [OF ok i(1) _ _ pos] by blast
  then show ?thesis using j by (simp add: proc_fork_take_status_def)
qed

text \<open>A task reaps only its own zombies, whatever it asks for.\<close>

lemma take_status_spec:
  assumes "proc_fork_take_status pid s = (r, st, s')"
  shows "(r = - 1 \<and> st = None \<and> s' = s) \<or>
    (\<exists>i < 16. p_state (task s i) = TASK_ZOMBIE \<and> p_parent (task s i) = Some (current_task s) \<and> r = p_pid (task s i) \<and>
       st = Some (p_exit_status (task s i)) \<and> s' = set_state i TASK_UNUSED s)"
  using assms by (auto simp: proc_fork_take_status_def dest!: find_task_Some split: option.splits)

lemma take_status_ok:
  assumes ok: "procs_ok s" and run: "proc_fork_take_status pid s = (r, st, s')"
  shows "procs_ok s'"
proof -
  have "procs_ok (set_state i TASK_UNUSED s)" if "i < 16" "p_parent (task s i) = Some (current_task s)" for i
    by (rule set_state_ok [OF ok that(1)]) (use procs_okD(4) [OF ok that(1)] that(2) in \<open>auto simp: task_ok_def\<close>)
  then show ?thesis using take_status_spec [OF run] ok by blast
qed

text \<open>A shell that waits for its child, task 1.\<close>

definition wait_example :: kproc where
  "wait_example = kvfs.extend (kvfs.truncate vfs_example) (kproc.fields
     ([zero_task\<lparr>p_pid := 1, p_state := TASK_BLOCKED\<rparr>,
       zero_task\<lparr>p_pid := 2, p_state := TASK_RUNNING, p_parent := Some 0\<rparr>] @ replicate 14 zero_task)
     1 (replicate 8 zero_pipe) 3 (\<lambda>a. None) False None 0 0)"

lemma wait_example_simps:
  "tasks wait_example = [zero_task\<lparr>p_pid := 1, p_state := TASK_BLOCKED\<rparr>,
       zero_task\<lparr>p_pid := 2, p_state := TASK_RUNNING, p_parent := Some 0\<rparr>] @ replicate 14 zero_task"
  "current_task wait_example = 1" "next_pid wait_example = 3" "fork_jmp_parent wait_example = None"
  by (simp_all add: wait_example_def kvfs.defs kproc.defs)

lemma wait_example_ok: "procs_ok wait_example"
proof -
  have t: "task wait_example i = (if i = 0 then zero_task\<lparr>p_pid := 1, p_state := TASK_BLOCKED\<rparr>
      else if i = 1 then zero_task\<lparr>p_pid := 2, p_state := TASK_RUNNING, p_parent := Some 0\<rparr> else zero_task)" if "i < 16" for i
    using that by (simp add: wait_example_simps nth_Cons')
  have len: "length (tasks wait_example) = 16" by (simp add: wait_example_simps)
  show ?thesis
    unfolding procs_ok_def using t len by (auto simp: wait_example_simps(2-) task_ok_def zero_task_def)
qed

text \<open>C11. A task that exits is reaped exactly once, by its parent and with its status: exit leaves it a zombie and wakes a
  parent that waits; when the parent asks for its pid it gets that pid and the status, the slot is
  free again and no other task has changed; asking a second time finds nothing.\<close>

theorem exit_then_wait:
  assumes "procs_ok s" and "p_parent (cur s) = Some q" and "proc_exit status s = (jumped, s1)"
  shows "\<exists>s2. proc_fork_take_status (p_pid (cur s)) (proc_switch_current q s1) = (p_pid (cur s), Some status, s2) \<and>
    p_state (task s2 (current_task s)) = TASK_UNUSED \<and>
    (p_state (task s q) = TASK_BLOCKED \<longrightarrow> p_state (task s2 q) = TASK_RUNNABLE) \<and>
    (\<forall>j < 16. j \<noteq> current_task s \<and> j \<noteq> q \<longrightarrow> task s2 j = task s j) \<and>
    fst (proc_fork_take_status (p_pid (cur s)) s2) = - 1"
proof -
  let ?c = "current_task s" and ?z = "zombify status s"
  note k = procs_okD [OF assms(1)]
  have c: "?c < 16" "q < 16" "q \<noteq> ?c" using k(2) k(4) [OF k(2)] assms(2) by (auto simp: task_ok_def)
  have okz: "procs_ok ?z" using zombify_ok [OF assms(1)] .
  have s1: "s1 = proc_wake_parent ?z" using assms(3) by (simp add: proc_exit_eq)
  have ok1: "procs_ok s1" using wake_parent_ok [OF okz] s1 by simp
  have z: "cur ?z = (cur s)\<lparr>p_exit_status := status, p_state := TASK_ZOMBIE\<rparr>" "current_task ?z = ?c"
    "j \<noteq> ?c \<Longrightarrow> task ?z j = task s j" for j
    using c k(1) by (simp_all add: zombify_def)
  have t1: "task s1 ?c = (cur s)\<lparr>p_exit_status := status, p_state := TASK_ZOMBIE\<rparr>"
    "j < 16 \<Longrightarrow> j \<noteq> ?c \<Longrightarrow> task s1 j = (if j = q \<and> p_state (task s j) = TASK_BLOCKED
       then (task s j)\<lparr>p_state := TASK_RUNNABLE\<rparr> else task s j)" for j
    using wake_parent_task [OF okz] z assms(2) c unfolding s1 by auto
  let ?s = "proc_switch_current q s1" and ?pid = "p_pid (cur s)"
  have sw: "tasks ?s = tasks s1" "current_task ?s = q" by (simp_all add: proc_switch_current_def)
  have pos: "0 < ?pid" using k(3) k(4) [OF k(2)] by (simp add: task_ok_def)
  let ?P = "\<lambda>t. \<not> (p_state t \<noteq> TASK_ZOMBIE \<or> p_parent t \<noteq> Some q) \<and> \<not> (?pid \<noteq> - 1 \<and> ?pid \<noteq> p_pid t)"
  have uniq: "p_pid (task s1 j) = ?pid \<longleftrightarrow> j = ?c" if "j < 16" for j
    using procs_okD(5) [OF ok1 c(1) that] t1(1) pos by (cases "?c = j") auto
  have "?P (task ?s ?c)" using t1(1) assms(2) sw by simp
  then obtain i where i: "find_task ?P ?s = Some i" using find_task_None [of ?P ?s] c(1) by fastforce
  have "i = ?c" using find_task_Some [OF i] uniq sw pos by auto
  define s2 where "s2 = set_state ?c TASK_UNUSED ?s"
  have run: "proc_fork_take_status ?pid ?s = (?pid, Some status, s2)"
    using i \<open>i = ?c\<close> t1(1) sw by (simp add: proc_fork_take_status_def s2_def)
  have len: "length (tasks s1) = 16" using procs_okD(1) [OF ok1] .
  have t2: "task s2 ?c = (task s1 ?c)\<lparr>p_state := TASK_UNUSED\<rparr>" "j \<noteq> ?c \<Longrightarrow> task s2 j = task s1 j" "current_task s2 = q" for j
    using c(1) len sw by (simp_all add: s2_def set_state_def)
  have "\<not> ?P (task s2 j)" if "j < 16" for j using t2(1,2) uniq [OF that] pos by (cases "j = ?c") auto
  then have "find_task ?P s2 = None" unfolding find_task_None by blast
  then have "fst (proc_fork_take_status ?pid s2) = - 1" using t2(3) by (simp add: proc_fork_take_status_def)
  then show ?thesis using run t1 t2 c by (intro exI [of _ s2]) auto
qed

theorem exit_then_wait_witness:
  "\<exists>s2. proc_fork_take_status 2 (proc_switch_current 0 (snd (proc_exit 7 wait_example))) = (2, Some 7, s2) \<and>
     p_state (task s2 1) = TASK_UNUSED \<and> p_state (task s2 0) = TASK_RUNNABLE"
  using exit_then_wait [OF wait_example_ok, of 0 7 "fst (proc_exit 7 wait_example)" "snd (proc_exit 7 wait_example)"]
  by (auto simp: wait_example_simps)

section \<open>Interrupt frames\<close>

lemma upt_15: "[0..<15] = [0, 1, 2, 3, 4, 5, 6, 7, 8, 9, 10, 11, 12, 13, 14]"
  by (simp add: upt_rec)

lemma upt_19: "[0..<19] = [0, 1, 2, 3, 4, 5, 6, 7, 8, 9, 10, 11, 12, 13, 14, 15, 16, 17, 18]"
  by (simp add: upt_rec)

text \<open>What an interrupt saves of the user's registers is what returning from it puts back: restoring into
  any frame after saving from another gives the saved registers, instruction pointer, flags and stack
  pointer, and leaves the two segment selectors of the frame alone.\<close>

theorem irq_frame_roundtrip:
  assumes "current_task s < length (tasks s)" and "length frame = 19" and "length frame' = 19"
  shows "proc_restore_irq_frame frame' (proc_save_irq_frame frame s) =
    take 16 frame @ [frame' ! 16] @ drop 17 frame"
proof (rule nth_equalityI)
  let ?s = "proc_save_irq_frame frame s"
  have cur: "cur ?s = (cur s)\<lparr>p_user_rip := frame ! 15, p_user_rsp := frame ! 18, p_user_rflags := frame ! 17,
      p_user_rax := frame ! 14, p_user_regs := map (\<lambda>i. frame ! (14 - i)) [0..<15]\<rparr>"
    using assms(1) by (simp add: proc_save_irq_frame_def)
  show "length (proc_restore_irq_frame frame' ?s) = length (take 16 frame @ [frame' ! 16] @ drop 17 frame)"
    using assms by (simp add: proc_restore_irq_frame_def Let_def upt_15)
  fix i assume "i < length (proc_restore_irq_frame frame' ?s)"
  then have "i < 19" using assms by (simp add: proc_restore_irq_frame_def Let_def upt_15)
  then have "i \<in> set [0..<19]" by simp
  then have "i \<in> {0, 1, 2, 3, 4, 5, 6, 7, 8, 9, 10, 11, 12, 13, 14, 15, 16, 17, 18}"
    unfolding upt_19 by (simp only: list.set)
  then show "proc_restore_irq_frame frame' ?s ! i = (take 16 frame @ [frame' ! 16] @ drop 17 frame) ! i"
    unfolding proc_restore_irq_frame_def cur using assms(2,3)
    by (elim insertE; simp add: Let_def upt_15 nth_append numeral_eq_Suc nth_Cons')
qed

theorem irq_frame_roundtrip_witness:
  "proc_restore_irq_frame (replicate 19 0x23) (proc_save_irq_frame (replicate 19 7) wait_example) =
    replicate 16 7 @ [0x23] @ [7, 7]"
  using irq_frame_roundtrip [of wait_example "replicate 19 7" "replicate 19 0x23"]
  by (simp add: wait_example_simps numeral_2_eq_2)

end
