(* ===== verification/Sched.thy ===== *)
theory Sched
  imports Proc
begin

text \<open>
  \<^verbatim>\<open>core/sched.c\<close>: the round-robin choice of the next task, switching the current task, blocking and
  waking.  \<open>run\<close> is what the machine does after the kernel enters a user task until control comes back
  (see \<open>Proc\<close>), and \<open>irq\<close> is what the interrupt handlers do while the processor is halted in
  \<^verbatim>\<open>sched_block_current\<close>; both may never return, which is \<open>None\<close>.
\<close>

section \<open>State and operations\<close>

record ksched = kproc +
  rr_index :: u32
  ticks :: u64

definition ready :: "process \<Rightarrow> bool" where
  "ready t \<longleftrightarrow> p_state t = TASK_RUNNABLE \<or> p_state t = TASK_RUNNING"

definition sched_count_runnable :: "'a ksched_scheme \<Rightarrow> nat" where
  "sched_count_runnable s = length (filter (\<lambda>i. ready (task s i)) [0..<PROC_MAX_TASKS])"

text \<open>The loop looks at the slots after \<open>rr_index\<close>, with the 32-bit arithmetic of the source.\<close>

definition rr_slot :: "u32 \<Rightarrow> nat \<Rightarrow> u32" where
  "rr_slot rr i = (rr + of_nat i + 1) mod of_nat PROC_MAX_TASKS"

definition sched_pick_next :: "'a ksched_scheme \<Rightarrow> nat \<times> 'a ksched_scheme" where
  "sched_pick_next s =
     (case find (\<lambda>i. ready (task s (unat (rr_slot (rr_index s) i)))) [0..<PROC_MAX_TASKS] of
        None \<Rightarrow> (proc_current s, s)
      | Some i \<Rightarrow> (unat (rr_slot (rr_index s) i), s\<lparr>rr_index := rr_slot (rr_index s) i\<rparr>))"

definition sched_switch_to :: "nat \<Rightarrow> 'a ksched_scheme \<Rightarrow> 'a ksched_scheme" where
  "sched_switch_to next s =
     (let c = proc_current s
      in if next = c then (if p_state (task s c) = TASK_RUNNABLE then set_state c TASK_RUNNING s else s)
         else
           (let s1 = (if p_state (task s c) = TASK_RUNNING then set_state c TASK_RUNNABLE s else s);
                s2 = set_state next TASK_RUNNING s1;
                s3 = paging_switch_cr3 (p_cr3 (task s2 next)) (proc_switch_current next s2);
                s4 = wrmsr_fs_base (p_fs_base (task s3 next)) s3
            in if p_kernel_rsp (task s4 next) \<noteq> 0 then gdt_set_rsp0 (p_kernel_rsp (task s4 next)) s4 else s4))"

definition sched_init :: "'a ksched_scheme \<Rightarrow> 'a ksched_scheme" where
  "sched_init s =
     (let s1 = s\<lparr>rr_index := 0, ticks := 0\<rparr>
      in if p_kernel_rsp (cur s1) \<noteq> 0 then gdt_set_rsp0 (p_kernel_rsp (cur s1)) s1 else s1)"

definition sched_tick :: "'a ksched_scheme \<Rightarrow> 'a ksched_scheme" where
  "sched_tick s = s\<lparr>ticks := ticks s + 1\<rparr>"

definition sched_irq_frame :: "u64 list \<Rightarrow> 'a ksched_scheme \<Rightarrow> int \<times> 'a ksched_scheme" where
  "sched_irq_frame frame s = (0, s\<lparr>ticks := ticks s + 1\<rparr>)"

definition sched_yield :: "'a ksched_scheme \<Rightarrow> 'a ksched_scheme" where
  "sched_yield s =
     (if sched_count_runnable s \<le> 1 then s
      else (let (next, s1) = sched_pick_next s in sched_switch_to next s1))"

partial_function (option) block_wait ::
    "('a ksched_scheme \<Rightarrow> 'a ksched_scheme option) \<Rightarrow> ('a ksched_scheme \<Rightarrow> 'a ksched_scheme option) \<Rightarrow>
     nat \<Rightarrow> 'a ksched_scheme \<Rightarrow> 'a ksched_scheme option" where
  "block_wait run irq c s =
     (if proc_current s = c \<and> p_state (task s c) = TASK_BLOCKED then
        do { (ran, s1) \<leftarrow> proc_run_runnable run s;
             if ran then Some s1
             else do { s2 \<leftarrow> irq s1; block_wait run irq c s2 } }
      else Some s)"

definition run_again :: "nat \<Rightarrow> 'a ksched_scheme \<Rightarrow> 'a ksched_scheme" where
  "run_again c s = (if p_state (task s c) = TASK_RUNNABLE then set_state c TASK_RUNNING s else s)"

definition sched_block_current ::
    "('a ksched_scheme \<Rightarrow> 'a ksched_scheme option) \<Rightarrow> ('a ksched_scheme \<Rightarrow> 'a ksched_scheme option) \<Rightarrow>
     'a ksched_scheme \<Rightarrow> 'a ksched_scheme option" where
  "sched_block_current run irq s =
     (let c = proc_current s
      in do { (ran, s1) \<leftarrow> proc_run_runnable run s;
              if ran then Some (run_again c s1)
              else
                do { let s2 = sched_yield (set_state c TASK_BLOCKED s1);
                     s3 \<leftarrow> block_wait run irq c s2;
                     Some (run_again c s3) } })"

definition wake_slot :: "nat \<Rightarrow> 'a kproc_scheme \<Rightarrow> 'a kproc_scheme" where
  "wake_slot i s = (if p_state (task s i) = TASK_BLOCKED then set_state i TASK_RUNNABLE s else s)"

definition sched_wake_pid :: "int \<Rightarrow> 'a ksched_scheme \<Rightarrow> 'a ksched_scheme" where
  "sched_wake_pid pid s = (case proc_task_by_pid pid s of None \<Rightarrow> s | Some i \<Rightarrow> wake_slot i s)"

definition sched_wake_all :: "'a kproc_scheme \<Rightarrow> 'a kproc_scheme" where
  "sched_wake_all s = fold wake_slot [0..<PROC_MAX_TASKS] s"

definition sched_after_syscall :: "u64 \<Rightarrow> 'a ksched_scheme \<Rightarrow> u32 \<times> 'a ksched_scheme" where
  "sched_after_syscall ret s = (ucast ret, on_task (proc_current s) (\<lambda>t. t\<lparr>p_user_rax := ret\<rparr>) s)"

definition sched_current_user_rip :: "'a ksched_scheme \<Rightarrow> u64" where
  "sched_current_user_rip s = p_user_rip (cur s)"
definition sched_current_user_rsp :: "'a ksched_scheme \<Rightarrow> u64" where
  "sched_current_user_rsp s = p_user_rsp (cur s)"
definition sched_current_user_rflags :: "'a ksched_scheme \<Rightarrow> u64" where
  "sched_current_user_rflags s = p_user_rflags (cur s)"
definition sched_current_user_rax :: "'a ksched_scheme \<Rightarrow> u64" where
  "sched_current_user_rax s = p_user_rax (cur s)"

section \<open>Round robin\<close>

text \<open>How many slots lie between the last pick and slot \<open>k\<close>, going up and around.\<close>

definition rr_distance :: "u32 \<Rightarrow> nat \<Rightarrow> nat" where
  "rr_distance rr k = (k + 15 - unat rr mod 16) mod 16"

lemma unat_rr_slot: "unat (rr_slot rr i) = (unat rr + i + 1) mod 16"
proof -
  have "unat (rr + of_nat i + 1) mod 16 = (unat rr + i + 1) mod 16"
    by (simp add: unat_word_ariths unat_of_nat take_bit_eq_mod mod_simps) (simp add: mod_mod_cancel mod_simps)
  then show ?thesis by (simp add: rr_slot_def unat_mod)
qed

lemma slot_distance:
  assumes "k < 16"
  shows "unat (rr_slot rr (rr_distance rr k)) = k" and "rr_distance rr k < 16"
    and "i < 16 \<Longrightarrow> unat (rr_slot rr i) = k \<Longrightarrow> i = rr_distance rr k"
    and "i < rr_distance rr k \<Longrightarrow> rr_distance (rr_slot rr i) k = rr_distance rr k - i - 1"
proof -
  define r where "r = unat rr mod 16"
  have r: "r < 16" by (simp add: r_def)
  have slot: "unat (rr_slot rr i) = (r + i + 1) mod 16" for i
    unfolding unat_rr_slot r_def by (metis mod_add_left_eq add.assoc)
  have d: "rr_distance rr k = (if r < k then k - r - 1 else k + 15 - r)"
  proof (cases "r < k")
    case True
    then have "(k + 15 - r) mod 16 = (k - r - 1 + 16) mod 16" by (intro arg_cong [where f = "\<lambda>x. x mod 16"]) simp
    also have "\<dots> = k - r - 1" using assms by simp
    finally show ?thesis using True by (simp add: rr_distance_def r_def [symmetric])
  qed (use assms in \<open>simp add: rr_distance_def r_def [symmetric]\<close>)
  have e: "(r + i + 1) mod 16 = (if r + i + 1 < 16 then r + i + 1 else r + i + 1 - 16)" if "i < 16" for i
    using that r by (auto simp: mod_if)
  show lt: "rr_distance rr k < 16" unfolding d using assms r by auto
  show "unat (rr_slot rr (rr_distance rr k)) = k" unfolding slot e [OF lt] unfolding d using assms r by auto
  show "i < 16 \<Longrightarrow> unat (rr_slot rr i) = k \<Longrightarrow> i = rr_distance rr k"
    unfolding slot d using e [of i] assms r by (auto split: if_splits)
  show "rr_distance (rr_slot rr i) k = rr_distance rr k - i - 1" if "i < rr_distance rr k"
  proof -
    have i: "i < 16" using that lt by simp
    have "rr_distance (rr_slot rr i) k = (k + 15 - (r + i + 1) mod 16) mod 16"
      by (simp add: rr_distance_def slot)
    also have "\<dots> = rr_distance rr k - i - 1"
      using that assms r unfolding e [OF i] d by (auto split: if_splits simp: mod_if)
    finally show ?thesis .
  qed
qed

text \<open>What a pick returns: the ready slot that comes first in the round.\<close>

lemma pick_next_ready:
  assumes "k < 16" and "ready (task s k)" and "sched_pick_next s = (n, s')"
  shows "n < 16 \<and> ready (task s n) \<and> s' = s\<lparr>rr_index := rr_index s'\<rparr> \<and> unat (rr_index s') = n \<and>
    rr_distance (rr_index s) n \<le> rr_distance (rr_index s) k \<and>
    (n \<noteq> k \<longrightarrow> rr_distance (rr_index s') k < rr_distance (rr_index s) k)"
proof -
  let ?P = "\<lambda>i. ready (task s (unat (rr_slot (rr_index s) i)))" and ?d = "rr_distance (rr_index s) k"
  note d = slot_distance [OF assms(1), where rr = "rr_index s"]
  have "?P ?d" "?d < 16" using d(1,2) assms(2) by simp_all
  then obtain i where f: "find ?P [0..<16] = Some i"
    by (cases "find ?P [0..<16]") (auto simp: find_None_iff)
  then have i: "i < 16" "?P i" "\<forall>j < i. \<not> ?P j" unfolding find_Some_iff by fastforce+
  then have le: "i \<le> ?d" using \<open>?P ?d\<close> not_le by blast
  have n: "n = unat (rr_slot (rr_index s) i)" "s' = s\<lparr>rr_index := rr_slot (rr_index s) i\<rparr>"
    using assms(3) f by (auto simp: sched_pick_next_def)
  have n16: "n < 16" unfolding n unat_rr_slot by simp
  have "i = rr_distance (rr_index s) n" using slot_distance(3) [OF n16 i(1)] n(1) by simp
  moreover have "i < ?d" if "n \<noteq> k" using that le d(1) n(1) by (metis nat_less_le)
  ultimately show ?thesis using n n16 i(2) le d(4) [of i] by auto
qed

text \<open>C35. The scheduler is fair: in any run of sixteen picks, whatever happens to the tasks in between, a task
  that is ready at each of them is picked.\<close>

theorem round_robin_fair:
  fixes S :: "nat \<Rightarrow> 'a ksched_scheme"
  assumes "k < 16" and "\<forall>n < 16. ready (task (S n) k)"
    and "\<forall>n. rr_index (S (Suc n)) = rr_index (snd (sched_pick_next (S n)))"
  shows "\<exists>n < 16. fst (sched_pick_next (S n)) = k"
proof (rule ccontr)
  assume never: "\<not> (\<exists>n < 16. fst (sched_pick_next (S n)) = k)"
  have "rr_distance (rr_index (S n)) k + n \<le> 15" if "n \<le> 16" for n
    using that
  proof (induction n)
    case 0
    then show ?case using slot_distance(2) [OF assms(1), of "rr_index (S 0)"] by simp
  next
    case (Suc n)
    have n: "n < 16" using Suc.prems by simp
    have "rr_distance (rr_index (snd (sched_pick_next (S n)))) k < rr_distance (rr_index (S n)) k"
      using pick_next_ready [OF assms(1), of "S n"] assms(2) never n by (metis prod.collapse)
    then show ?case using Suc assms(3) by simp
  qed
  from this [of 16] show False by simp
qed

definition sched_example :: ksched where
  "sched_example = kproc.extend (kproc.truncate wait_example) (ksched.fields 5 0)"

theorem round_robin_fair_witness:
  "\<exists>n < (16 :: nat). fst (sched_pick_next (sched_example\<lparr>rr_index := if n = 0 then 5 else 1\<rparr>)) = 1"
proof (rule round_robin_fair [where S = "\<lambda>n :: nat. sched_example\<lparr>rr_index := if n = 0 then 5 else 1\<rparr>"])
  have t: "tasks sched_example = tasks wait_example" by (simp add: sched_example_def kproc.defs ksched.defs)
  then have r: "ready (task sched_example 1)" by (simp add: wait_example_simps ready_def)
  then show "\<forall>n < 16. ready (task (sched_example\<lparr>rr_index := if n = 0 then 5 else 1\<rparr>) 1)" by simp
  have only: "\<not> ready (task sched_example j)" if "j < 16" "j \<noteq> 1" for j
    using that unfolding t by (auto simp: wait_example_simps ready_def zero_task_def nth_Cons')
  show "\<forall>n :: nat. rr_index (sched_example\<lparr>rr_index := if Suc n = 0 then 5 else 1\<rparr>) =
      rr_index (snd (sched_pick_next (sched_example\<lparr>rr_index := if n = 0 then 5 else 1\<rparr>)))"
  proof
    fix n :: nat
    let ?s = "sched_example\<lparr>rr_index := if n = 0 then 5 else (1 :: u32)\<rparr>"
    obtain m s' where p: "sched_pick_next ?s = (m, s')" by fastforce
    have "m < 16 \<and> ready (task ?s m) \<and> unat (rr_index s') = m"
      using pick_next_ready [OF _ _ p, of 1] r by simp
    then have "unat (rr_index s') = unat (1 :: u32)" using only [of m] by auto
    then show "rr_index (sched_example\<lparr>rr_index := if Suc n = 0 then 5 else 1\<rparr>) = rr_index (snd (sched_pick_next ?s))"
      unfolding p by (simp add: word_unat_eq_iff)
  qed
qed simp

section \<open>What scheduling keeps\<close>

lemma wake_slot_ok: "procs_ok s \<Longrightarrow> i < 16 \<Longrightarrow> procs_ok (wake_slot i s)"
  unfolding wake_slot_def by (auto intro!: set_state_ok dest: task_okD(6) [OF procs_okD(4)])

lemma wake_slot_simps [simp]:
  "length (tasks (wake_slot i s)) = length (tasks s)" "current_task (wake_slot i s) = current_task s"
  "i < length (tasks s) \<Longrightarrow> task (wake_slot i s) j = (if j = i \<and> p_state (task s i) = TASK_BLOCKED
     then (task s i)\<lparr>p_state := TASK_RUNNABLE\<rparr> else task s j)"
  by (auto simp: wake_slot_def set_state_def)

lemma wake_all_ok:
  assumes "procs_ok s"
  shows "procs_ok (sched_wake_all s)" and "current_task (sched_wake_all s) = current_task s"
    and "i < 16 \<Longrightarrow> task (sched_wake_all s) i =
      (if p_state (task s i) = TASK_BLOCKED then (task s i)\<lparr>p_state := TASK_RUNNABLE\<rparr> else task s i)"
proof -
  have "n \<le> 16 \<Longrightarrow> procs_ok (fold wake_slot [0..<n] s) \<and> current_task (fold wake_slot [0..<n] s) = current_task s \<and>
      (\<forall>i. task (fold wake_slot [0..<n] s) i = (if i < n \<and> p_state (task s i) = TASK_BLOCKED
         then (task s i)\<lparr>p_state := TASK_RUNNABLE\<rparr> else task s i))" for n
  proof (induction n)
    case 0
    show ?case using assms by simp
  next
    case (Suc n)
    let ?s = "fold wake_slot [0..<n] s"
    have s1: "fold wake_slot [0..<Suc n] s = wake_slot n ?s" by simp
    have IH: "procs_ok ?s" "current_task ?s = current_task s"
      "task ?s i = (if i < n \<and> p_state (task s i) = TASK_BLOCKED then (task s i)\<lparr>p_state := TASK_RUNNABLE\<rparr> else task s i)" for i
      using Suc by simp_all
    have "n < length (tasks ?s)" using procs_okD(1) [OF IH(1)] Suc.prems by simp
    from wake_slot_simps(3) [OF this]
    have "task (wake_slot n ?s) i = (if i < Suc n \<and> p_state (task s i) = TASK_BLOCKED
        then (task s i)\<lparr>p_state := TASK_RUNNABLE\<rparr> else task s i)" for i
      unfolding IH(3) by (cases "i = n") auto
    moreover have "procs_ok (wake_slot n ?s)" using wake_slot_ok [OF IH(1), of n] Suc.prems by simp
    ultimately show ?case unfolding s1 using IH(2) by simp
  qed
  from this [of 16] show "procs_ok (sched_wake_all s)" "current_task (sched_wake_all s) = current_task s"
    "i < 16 \<Longrightarrow> task (sched_wake_all s) i =
      (if p_state (task s i) = TASK_BLOCKED then (task s i)\<lparr>p_state := TASK_RUNNABLE\<rparr> else task s i)"
    by (simp_all add: sched_wake_all_def del: upt_Suc)
qed

lemma switch_current_ok:
  "procs_ok s \<Longrightarrow> i < 16 \<Longrightarrow> p_state (task s i) \<noteq> TASK_UNUSED \<Longrightarrow> procs_ok (proc_switch_current i s)"
  by (simp add: procs_ok_def proc_switch_current_def)

lemma procs_ok_rr [simp]: "procs_ok (s\<lparr>rr_index := r\<rparr>) = procs_ok s" "procs_ok (s\<lparr>ticks := t\<rparr>) = procs_ok s"
  by (rule procs_ok_same; simp)+

lemma switch_fields [simp]:
  "tasks (proc_switch_current i s) = tasks s" "current_task (proc_switch_current i s) = i"
  "tasks (paging_switch_cr3 v s) = tasks s" "current_task (paging_switch_cr3 v s) = current_task s"
  "tasks (wrmsr_fs_base v s) = tasks s" "current_task (wrmsr_fs_base v s) = current_task s"
  "tasks (gdt_set_rsp0 v s) = tasks s" "current_task (gdt_set_rsp0 v s) = current_task s"
  by (simp_all add: proc_switch_current_def paging_switch_cr3_def wrmsr_fs_base_def gdt_set_rsp0_def Let_def)

lemma switch_to_ok:
  assumes ok: "procs_ok s" and n: "n < 16" "ready (task s n)"
  shows "procs_ok (sched_switch_to n s)" and "current_task (sched_switch_to n s) = n"
proof -
  have c: "current_task s < 16" using procs_okD(2) [OF ok] .
  have st: "0 < p_pid (task s i)" if "i < 16" "p_state (task s i) \<noteq> TASK_UNUSED" for i
    using procs_okD(4) [OF ok that(1)] that(2) by (simp add: task_ok_def)
  let ?s1 = "if p_state (cur s) = TASK_RUNNING then set_state (current_task s) TASK_RUNNABLE s else s"
  have ok1: "procs_ok ?s1" using ok c st [OF c] by (auto intro!: set_state_ok)
  have t1: "p_pid (task ?s1 n) = p_pid (task s n)" "length (tasks ?s1) = 16"
    using c procs_okD(1) [OF ok] by (auto simp: set_state_def nth_list_update)
  have u: "p_state (task s n) \<noteq> TASK_UNUSED" using n(2) by (auto simp: ready_def)
  let ?s2 = "set_state n TASK_RUNNING ?s1"
  have ok2: "procs_ok ?s2" by (rule set_state_ok [OF ok1 n(1)]) (use st [OF n(1) u] t1 in auto)
  have "task ?s2 n = (task ?s1 n)\<lparr>p_state := TASK_RUNNING\<rparr>" using t1(2) n(1) by (simp add: set_state_def)
  then have ok3: "procs_ok (proc_switch_current n ?s2)" by (intro switch_current_ok [OF ok2 n(1)]) simp
  show "procs_ok (sched_switch_to n s)"
    using ok ok3 st [OF c] c unfolding sched_switch_to_def Let_def proc_current_def
    by (auto intro!: set_state_ok split del: if_split split: if_split)
  show "current_task (sched_switch_to n s) = n"
    unfolding sched_switch_to_def Let_def proc_current_def by (auto simp: set_state_def)
qed

lemma yield_ok:
  assumes "procs_ok s"
  shows "procs_ok (sched_yield s)"
proof (cases "sched_count_runnable s \<le> 1")
  case False
  then have "filter (\<lambda>i. ready (task s i)) [0..<16] \<noteq> []" by (auto simp: sched_count_runnable_def)
  then obtain k where k: "k < 16" "ready (task s k)" by (auto simp: filter_empty_conv)
  obtain n s1 where p: "sched_pick_next s = (n, s1)" by fastforce
  note q = pick_next_ready [OF k p]
  then obtain r where "s1 = s\<lparr>rr_index := r\<rparr>" by blast
  then have "procs_ok s1" "ready (task s1 n)" using q assms by simp_all
  then have "procs_ok (sched_switch_to n s1)" using q by (blast intro: switch_to_ok(1))
  then show ?thesis using False p by (simp add: sched_yield_def)
qed (use assms in \<open>simp add: sched_yield_def\<close>)

section \<open>Blocking below two suspended callers\<close>

lemma set_state_simps [simp]:
  "current_task (set_state i st s) = current_task s" "length (tasks (set_state i st s)) = length (tasks s)"
  "i < length (tasks s) \<Longrightarrow> task (set_state i st s) j = (if j = i then (task s i)\<lparr>p_state := st\<rparr> else task s j)"
  by (simp_all add: set_state_def)

lemma switch_to_others:
  assumes "j < length (tasks s)" and "n < length (tasks s)" and "current_task s < length (tasks s)" and "j \<noteq> n"
    and "p_state (cur s) = TASK_BLOCKED" and "n \<noteq> current_task s"
  shows "task (sched_switch_to n s) j = task s j"
  using assms unfolding sched_switch_to_def Let_def proc_current_def by simp

text \<open>A task that waits for a child runs it inside its own system call and stays \<^verbatim>\<open>TASK_RUNNING\<close>.  With two
  such callers suspended and nothing runnable, a task that blocks makes \<^verbatim>\<open>sched_yield\<close> switch to one of them
  and returns from \<^verbatim>\<open>sched_block_current\<close> at once, still blocked and with another task current, on
  the kernel stack of the one that called.\<close>

theorem block_current_switches:
  assumes ok: "procs_ok s" and none: "\<forall>i < 16. p_state (task s i) = TASK_RUNNABLE \<longrightarrow> i = current_task s"
    and two: "i < 16" "j < 16" "i \<noteq> j" "i \<noteq> current_task s" "j \<noteq> current_task s"
    "p_state (task s i) = TASK_RUNNING" "p_state (task s j) = TASK_RUNNING"
  shows "\<exists>s'. sched_block_current run irq s = Some s' \<and> current_task s' \<noteq> current_task s \<and>
    p_state (task s' (current_task s)) = TASK_BLOCKED"
proof -
  let ?c = "current_task s" and ?s = "set_state (current_task s) TASK_BLOCKED s"
  note k = procs_okD [OF ok]
  have len: "length (tasks s) = 16" "length (tasks ?s) = 16" using k(1) by simp_all
  have cur: "p_state (cur ?s) = TASK_BLOCKED" using k(1,2) by simp
  have "find (\<lambda>i. \<not> (p_state (task s i) \<noteq> TASK_RUNNABLE \<or> i = ?c)) [0..<PROC_MAX_TASKS] = None"
    using none by (auto simp: find_None_iff)
  then have r: "proc_run_runnable run s = Some (False, s)" by (simp add: proc_run_runnable_def Let_def)
  have ij: "ready (task ?s i)" "ready (task ?s j)" using two k(1,2) by (simp_all add: ready_def)
  have "{i, j} \<subseteq> set (filter (\<lambda>i. ready (task ?s i)) [0..<16])" using two(1,2) ij by simp
  moreover have "card {i, j} = 2" using two(3) by simp
  ultimately have "\<not> sched_count_runnable ?s \<le> 1"
    using card_length [of "filter (\<lambda>i. ready (task ?s i)) [0..<16]"]
      card_mono [of "set (filter (\<lambda>i. ready (task ?s i)) [0..<16])" "{i, j}"]
    by (simp add: sched_count_runnable_def)
  moreover obtain n s1 where p: "sched_pick_next ?s = (n, s1)" by fastforce
  ultimately have y: "sched_yield ?s = sched_switch_to n s1" by (simp add: sched_yield_def)
  have n: "n < 16" "ready (task ?s n)" and s1: "s1 = ?s\<lparr>rr_index := rr_index s1\<rparr>"
    using pick_next_ready [OF two(1) ij(1) p] by auto
  have f: "tasks s1 = tasks ?s" "current_task s1 = ?c" by (subst s1, simp)+
  have nc: "n \<noteq> ?c" using n(2) cur by (auto simp: ready_def)
  have "current_task (sched_switch_to n s1) = n"
    unfolding sched_switch_to_def Let_def proc_current_def using nc f by simp
  moreover have "task (sched_switch_to n s1) ?c = cur ?s"
    using switch_to_others [of ?c s1 n] f nc len k(2) n(1) cur by simp
  ultimately show ?thesis
    using r y nc cur
    by (simp add: sched_block_current_def proc_current_def block_wait.simps [of run irq ?c "sched_switch_to n s1"] run_again_def)
qed

end
