(* ===== verification/Vga.thy ===== *)
theory Vga
  imports Prelude
begin

unbundle bit_operations_syntax

text \<open>
  \<^verbatim>\<open>core/drivers/vga.c\<close>: the text screen and \<^verbatim>\<open>kprintf\<close>.  The state holds the 25 rows of 80 cells at \<^verbatim>\<open>0xB8000\<close>
  as one list of 2000 cells in the order of their addresses, the cursor, the colour, the position the
  cursor registers of the controller were last set to, and what was sent to the debug port \<^verbatim>\<open>0xE9\<close>.  A cell
  outside the 2000 is \<open>None\<close>.  A \<^verbatim>\<open>char\<close> is signed, so that it is sign-extended when it is combined with the
  colour.  The variable arguments of \<^verbatim>\<open>kprintf\<close> are a list: numbers as 64-bit words of which
  \<^verbatim>\<open>va_arg\<close> reads as many bits as the type it names has, strings as lists without the final zero, \<open>None\<close> for
  the null pointer.  An argument that is missing or of the other sort, an overflow of an \<^verbatim>\<open>int\<close>, writing
  past the 66 characters of \<^verbatim>\<open>kprintf_num_buf\<close> and reading past the end of the format are \<open>None\<close>.
\<close>

section \<open>The screen\<close>

definition VGA_WIDTH :: int where [simp]: "VGA_WIDTH = 80"
definition VGA_HEIGHT :: int where [simp]: "VGA_HEIGHT = 25"
definition KPRINTF_NUM_BUF :: nat where [simp]: "KPRINTF_NUM_BUF = 66"

record vga =
  vmem :: "u16 list"
  cursor_x :: int
  cursor_y :: int
  current_color :: u8
  hw_cursor :: u16
  debugcon :: "u8 list"

definition vput :: "int \<Rightarrow> u16 \<Rightarrow> vga \<Rightarrow> vga option" where
  "vput i v s = (if 0 \<le> i \<and> i < 2000 then Some (s\<lparr>vmem := (vmem s)[nat i := v]\<rparr>) else None)"

text \<open>\<^verbatim>\<open>c | (current_color << 8)\<close> stored in a cell.\<close>

definition cell :: "u8 \<Rightarrow> u8 \<Rightarrow> u16" where
  "cell c color = ucast ((scast c :: u32) OR push_bit 8 (ucast color))"

definition vga_update_hardware_cursor :: "vga \<Rightarrow> vga" where
  "vga_update_hardware_cursor s = s\<lparr>hw_cursor := word_of_int (cursor_y s * VGA_WIDTH + cursor_x s)\<rparr>"

definition scroll_row :: "nat \<Rightarrow> u16 list \<Rightarrow> u16 list" where
  "scroll_row y m = fold (\<lambda>x m. m[(y - 1) * 80 + x := m ! (y * 80 + x)]) [0..<80] m"

definition vga_scroll :: "vga \<Rightarrow> vga" where
  "vga_scroll s =
     (let m = fold scroll_row [1..<25] (vmem s);
          empty_cell = cell 32 (current_color s)
      in s\<lparr>vmem := fold (\<lambda>x m. m[24 * 80 + x := empty_cell]) [0..<80] m\<rparr>)"

definition vga_setcolorbase :: "u8 \<Rightarrow> vga \<Rightarrow> vga" where
  "vga_setcolorbase color s = s\<lparr>current_color := color\<rparr>"

definition vga_init :: "vga \<Rightarrow> vga" where
  "vga_init s =
     (let s1 = vga_setcolorbase 0x8f (s\<lparr>cursor_x := 0, cursor_y := 0\<rparr>);
          m = fold (\<lambda>x. fold (\<lambda>y m. m[y * 80 + x := 0x8f20]) [0..<25]) [0..<80] (vmem s1)
      in vga_update_hardware_cursor (s1\<lparr>vmem := m\<rparr>))"

definition vga_get_cursor :: "vga \<Rightarrow> int \<times> int" where
  "vga_get_cursor s = (cursor_x s, cursor_y s)"

definition vga_set_cursor :: "int \<Rightarrow> int \<Rightarrow> vga \<Rightarrow> vga" where
  "vga_set_cursor x y s =
     (let x1 = (if x < 0 then 0 else x);
          y1 = (if y < 0 then 0 else y);
          y2 = (if y1 \<ge> VGA_HEIGHT then VGA_HEIGHT - 1 else y1);
          x2 = (if x1 \<ge> VGA_WIDTH then VGA_WIDTH - 1 else x1)
      in vga_update_hardware_cursor (s\<lparr>cursor_x := x2, cursor_y := y2\<rparr>))"

definition debugcon_putchar :: "u8 \<Rightarrow> vga \<Rightarrow> vga" where
  "debugcon_putchar c s = s\<lparr>debugcon := debugcon s @ [c]\<rparr>"

text \<open>The end of \<^verbatim>\<open>vga_putchar\<close>: the next line, and the scrolling at the bottom.\<close>

definition wrap_cursor :: "vga \<Rightarrow> vga" where
  "wrap_cursor s =
     (let s1 = (if cursor_x s \<ge> VGA_WIDTH then s\<lparr>cursor_x := 0, cursor_y := cursor_y s + 1\<rparr> else s);
          s2 = (if cursor_y s1 \<ge> VGA_HEIGHT then (vga_scroll s1)\<lparr>cursor_y := VGA_HEIGHT - 1\<rparr> else s1)
      in vga_update_hardware_cursor s2)"

definition vga_putchar :: "u8 \<Rightarrow> vga \<Rightarrow> vga option" where
  "vga_putchar c s0 =
     (let s = debugcon_putchar c s0
      in if c = 10 then Some (wrap_cursor (s\<lparr>cursor_x := 0, cursor_y := cursor_y s + 1\<rparr>))
         else if c = 13 then Some (wrap_cursor (s\<lparr>cursor_x := 0\<rparr>))
         else if c = 9 then Some (wrap_cursor (s\<lparr>cursor_x := (cursor_x s + 8) AND NOT 7\<rparr>))
         else if c = 8 then
           (if cursor_x s = 0 \<and> cursor_y s = 0 then Some s
            else
              do { let s1 = (if cursor_x s > 0 then s\<lparr>cursor_x := cursor_x s - 1\<rparr>
                             else s\<lparr>cursor_y := cursor_y s - 1, cursor_x := VGA_WIDTH - 1\<rparr>);
                   s2 \<leftarrow> vput (cursor_y s1 * VGA_WIDTH + cursor_x s1) (cell 32 (current_color s1)) s1;
                   Some (vga_update_hardware_cursor s2) })
         else
           do { s1 \<leftarrow> vput (cursor_y s * VGA_WIDTH + cursor_x s) (cell c (current_color s)) s;
                Some (wrap_cursor (s1\<lparr>cursor_x := cursor_x s1 + 1\<rparr>)) })"

fun vga_puts :: "u8 list \<Rightarrow> vga \<Rightarrow> vga option" where
  "vga_puts [] s = Some s"
| "vga_puts (c # cs) s = do { s1 \<leftarrow> vga_putchar c s; vga_puts cs s1 }"

definition vga_write :: "u8 list \<Rightarrow> u8 \<Rightarrow> vga \<Rightarrow> vga option" where
  "vga_write str color s =
     do { let old_color = current_color s;
          s1 \<leftarrow> vga_puts str (s\<lparr>current_color := color\<rparr>);
          Some (s1\<lparr>current_color := old_color\<rparr>) }"

section \<open>Numbers\<close>

text \<open>The value of an \<^verbatim>\<open>int\<close> expression.\<close>

definition c_int :: "int \<Rightarrow> int option" where
  "c_int x = (if - (2 ^ 31) \<le> x \<and> x < 2 ^ 31 then Some x else None)"

record fmt_flags =
  fl_width :: int
  fl_precision :: int
  fl_left :: bool
  fl_zero_pad :: bool
  fl_alt :: bool
  fl_uppercase :: bool
  fl_length :: u8

definition digit :: "u8 \<Rightarrow> bool" where
  "digit c \<longleftrightarrow> 48 \<le> c \<and> c \<le> 57"

text \<open>The digits at the front of the format; the value and what is left.\<close>

fun parse_digits :: "u8 list \<Rightarrow> int \<Rightarrow> (int \<times> u8 list) option" where
  "parse_digits [] v = Some (v, [])"
| "parse_digits (c # cs) v =
     (if digit c then do { v1 \<leftarrow> c_int (v * 10 + (uint c - 48)); parse_digits cs v1 }
      else Some (v, c # cs))"

definition abs_s64 :: "u64 \<Rightarrow> u64 \<times> u8" where
  "abs_s64 v = (if sint v < 0 then (- (v + 1) + 1, 45) else (v, 0))"

definition digit_char :: "bool \<Rightarrow> u64 \<Rightarrow> u8" where
  "digit_char uppercase d =
     (lit (if uppercase then ''0123456789ABCDEF'' else ''0123456789abcdef'')) ! unat d"

text \<open>The loop of \<^verbatim>\<open>u64_to_str\<close>; the digits, the lowest first.\<close>

partial_function (option) u64_digits :: "u64 \<Rightarrow> u64 \<Rightarrow> bool \<Rightarrow> u8 list option" where
  "u64_digits value base uppercase =
     (if value > 0 then
        (if base = 0 then None
         else do { ds \<leftarrow> u64_digits (value div base) base uppercase;
                   Some (digit_char uppercase (value mod base) # ds) })
      else Some [])"

definition u64_to_str :: "u64 \<Rightarrow> u64 \<Rightarrow> bool \<Rightarrow> u8 list option" where
  "u64_to_str value base uppercase =
     (if value = 0 then Some [48]
      else do { ds \<leftarrow> u64_digits value base uppercase;
                if length ds \<le> KPRINTF_NUM_BUF then Some ds else None })"

definition reverse_buf :: "u8 list \<Rightarrow> u8 list" where
  "reverse_buf b =
     (let n = length b
      in fold (\<lambda>i b. b[i := b ! (n - 1 - i), n - 1 - i := b ! i]) [0..<n div 2] b)"

definition kputs_padded :: "u8 list \<Rightarrow> fmt_flags \<Rightarrow> u8 \<Rightarrow> u8 list option" where
  "kputs_padded str flags pad_char =
     do { pad \<leftarrow> c_int (fl_width flags - int (length str));
          let pad_count = (if pad < 0 then 0 else pad);
          Some ((if \<not> fl_left flags then replicate (nat pad_count) pad_char else []) @ str @
                (if fl_left flags then replicate (nat pad_count) 32 else [])) }"

text \<open>The characters that are put on the screen.\<close>

definition format_number :: "u64 \<Rightarrow> u8 \<Rightarrow> u64 \<Rightarrow> fmt_flags \<Rightarrow> u8 list option" where
  "format_number value sign base flags =
     do { ds \<leftarrow> u64_to_str value base (fl_uppercase flags);
          let b = reverse_buf ds;
          let precision = (if fl_precision flags < 0 then 1 else fl_precision flags);
          num \<leftarrow> (if value = 0 \<and> precision = 0 then Some []
                 else if int (length b) < precision then
                   (if precision \<le> int KPRINTF_NUM_BUF
                    then Some (replicate (nat precision - length b) 48 @ b) else None)
                 else Some b);
          let prefix = (if fl_alt flags \<and> value \<noteq> 0 then
                          (if base = 16 then [48, if fl_uppercase flags then 88 else 120]
                           else if base = 8 then [48] else [])
                        else []);
          let pad_char = (if fl_zero_pad flags \<and> \<not> fl_left flags \<and> fl_precision flags < 0 then 48 else 32 :: u8);
          w \<leftarrow> c_int (fl_width flags - (int (length prefix) + (if sign \<noteq> 0 then 1 else 0)));
          let out_flags = flags\<lparr>fl_width := w\<rparr>;
          let sign1 = (if pad_char = 48 \<and> sign \<noteq> 0 then 0 else sign);
          (out2, out_flags2) \<leftarrow>
            (if sign1 \<noteq> 0 \<and> pad_char = 32 then
               do { o1 \<leftarrow> kputs_padded [sign1] out_flags 32;
                    w2 \<leftarrow> c_int (fl_width flags - int (length prefix) - 1);
                    Some (o1, out_flags\<lparr>fl_width := w2\<rparr>) }
             else if sign1 \<noteq> 0 then Some ([sign1], out_flags)
             else Some ([], out_flags));
          o3 \<leftarrow> kputs_padded num out_flags2 pad_char;
          Some ((if pad_char = 48 \<and> sign \<noteq> 0 then [sign] else []) @ (if pad_char = 48 then prefix else []) @
                out2 @ (if pad_char = 32 then prefix else []) @ o3) }"

definition format_string :: "u8 list option \<Rightarrow> fmt_flags \<Rightarrow> u8 list option" where
  "format_string str flags =
     (let str1 = (case str of None \<Rightarrow> lit ''(null)'' | Some t \<Rightarrow> t);
          len = (if fl_precision flags \<ge> 0 \<and> int (length str1) > fl_precision flags
                 then nat (fl_precision flags) else length str1)
      in kputs_padded (take len str1) flags 32)"

definition format_char :: "u8 \<Rightarrow> fmt_flags \<Rightarrow> u8 list option" where
  "format_char ch flags = kputs_padded [ch] flags 32"

definition format_pointer :: "u64 \<Rightarrow> fmt_flags \<Rightarrow> u8 list option" where
  "format_pointer value flags =
     format_number value 0 16
       (flags\<lparr>fl_alt := True, fl_uppercase := False,
              fl_precision := (if fl_precision flags < 0 then 16 else fl_precision flags)\<rparr>)"

section \<open>kprintf\<close>

datatype va_arg = Va_word u64 | Va_str "u8 list option"

text \<open>Reading the next argument as a word or as a string.\<close>

fun va_word :: "va_arg list \<Rightarrow> (u64 \<times> va_arg list) option" where
  "va_word (Va_word w # args) = Some (w, args)"
| "va_word _ = None"

fun va_str :: "va_arg list \<Rightarrow> (u8 list option \<times> va_arg list) option" where
  "va_str (Va_str t # args) = Some (t, args)"
| "va_str _ = None"

definition va_int :: "va_arg list \<Rightarrow> (int \<times> va_arg list) option" where
  "va_int args = do { (w, args1) \<leftarrow> va_word args; Some (sint (ucast w :: u32), args1) }"

text \<open>\<^verbatim>\<open>*fmt\<close>: the final zero stands behind the last character.\<close>

fun peek :: "u8 list \<Rightarrow> u8" where
  "peek [] = 0"
| "peek (c # cs) = c"

fun parse_flags :: "u8 list \<Rightarrow> fmt_flags \<Rightarrow> fmt_flags \<times> u8 list" where
  "parse_flags [] fl = (fl, [])"
| "parse_flags (c # cs) fl =
     (if c = 45 then parse_flags cs (fl\<lparr>fl_left := True\<rparr>)
      else if c = 48 then parse_flags cs (fl\<lparr>fl_zero_pad := True\<rparr>)
      else if c = 35 then parse_flags cs (fl\<lparr>fl_alt := True\<rparr>)
      else (fl, c # cs))"

text \<open>A star, digits or nothing, for the width and the precision.\<close>

definition parse_count :: "int \<Rightarrow> u8 list \<Rightarrow> va_arg list \<Rightarrow> (int \<times> u8 list \<times> va_arg list) option" where
  "parse_count v fmt args =
     (if peek fmt = 42 then do { (n, args1) \<leftarrow> va_int args; Some (n, drop 1 fmt, args1) }
      else if digit (peek fmt) then do { (n, fmt1) \<leftarrow> parse_digits fmt 0; Some (n, fmt1, args) }
      else Some (v, fmt, args))"

definition parse_length :: "u8 list \<Rightarrow> u8 \<times> u8 list" where
  "parse_length fmt =
     (if peek fmt = 104 then (if peek (drop 1 fmt) = 104 then (72, drop 2 fmt) else (104, drop 1 fmt))
      else if peek fmt = 108 then (if peek (drop 1 fmt) = 108 then (76, drop 2 fmt) else (108, drop 1 fmt))
      else if peek fmt = 122 then (122, drop 1 fmt)
      else (0, fmt))"

definition no_flags :: fmt_flags where
  "no_flags = \<lparr>fl_width = 0, fl_precision = - 1, fl_left = False, fl_zero_pad = False, fl_alt = False,
               fl_uppercase = False, fl_length = 0\<rparr>"

definition parse_spec :: "u8 list \<Rightarrow> va_arg list \<Rightarrow> (fmt_flags \<times> u8 list \<times> va_arg list) option" where
  "parse_spec fmt args =
     do { let (fl, fmt1) = parse_flags fmt no_flags;
          (w, fmt2, args2) \<leftarrow> parse_count 0 fmt1 args;
          (p, fmt3, args3) \<leftarrow> (if peek fmt2 = 46 then parse_count 0 (drop 1 fmt2) args2 else Some (- 1, fmt2, args2));
          let (len, fmt4) = parse_length fmt3;
          Some (fl\<lparr>fl_width := w, fl_precision := p, fl_length := len\<rparr>, fmt4, args3) }"

text \<open>The cast of the argument of an integer conversion to 64 bits.\<close>

definition signed_arg :: "u8 \<Rightarrow> u64 \<Rightarrow> u64" where
  "signed_arg len w =
     (if len = 72 then scast (ucast w :: u8) else if len = 104 then scast (ucast w :: u16)
      else if len = 76 \<or> len = 108 \<or> len = 122 then w else scast (ucast w :: u32))"

definition unsigned_arg :: "u8 \<Rightarrow> u64 \<Rightarrow> u64" where
  "unsigned_arg len w =
     (if len = 72 then ucast (ucast w :: u8) else if len = 104 then ucast (ucast w :: u16)
      else if len = 76 \<or> len = 108 \<or> len = 122 then w else ucast (ucast w :: u32))"

definition format_spec :: "u8 \<Rightarrow> fmt_flags \<Rightarrow> va_arg list \<Rightarrow> (u8 list \<times> va_arg list) option" where
  "format_spec spec flags args =
     (if spec = 100 \<or> spec = 105 then
        do { (w, args1) \<leftarrow> va_word args;
             let (uvalue, sign) = abs_s64 (signed_arg (fl_length flags) w);
             cs \<leftarrow> format_number uvalue sign 10 flags;
             Some (cs, args1) }
      else if spec = 117 then
        do { (w, args1) \<leftarrow> va_word args;
             cs \<leftarrow> format_number (unsigned_arg (fl_length flags) w) 0 10 flags;
             Some (cs, args1) }
      else if spec = 120 \<or> spec = 88 then
        do { (w, args1) \<leftarrow> va_word args;
             cs \<leftarrow> format_number (unsigned_arg (fl_length flags) w) 0 16 (flags\<lparr>fl_uppercase := (spec = 88)\<rparr>);
             Some (cs, args1) }
      else if spec = 111 then
        do { (w, args1) \<leftarrow> va_word args;
             cs \<leftarrow> format_number (unsigned_arg (fl_length flags) w) 0 8 flags;
             Some (cs, args1) }
      else if spec = 99 then
        do { (w, args1) \<leftarrow> va_word args; cs \<leftarrow> format_char (ucast w) flags; Some (cs, args1) }
      else if spec = 115 then
        do { (t, args1) \<leftarrow> va_str args; cs \<leftarrow> format_string t flags; Some (cs, args1) }
      else if spec = 112 then
        do { (w, args1) \<leftarrow> va_word args; cs \<leftarrow> format_pointer w flags; Some (cs, args1) }
      else
        Some ([37] @ (if fl_left flags then [45] else []) @ (if fl_zero_pad flags then [48] else []) @
              (if fl_alt flags then [35] else []) @ [spec], args))"

text \<open>What \<^verbatim>\<open>kvprintf\<close> prints.  The character after the parsed flags is the conversion; when the format ends
  there, the loop goes on behind its final zero.\<close>

partial_function (option) kvprintf :: "u8 list \<Rightarrow> va_arg list \<Rightarrow> u8 list option" where
  "kvprintf fmt args =
     (case fmt of
        [] \<Rightarrow> Some []
      | c # rest \<Rightarrow>
          if c \<noteq> 37 then do { out \<leftarrow> kvprintf rest args; Some (c # out) }
          else if peek rest = 37 then do { out \<leftarrow> kvprintf (drop 1 rest) args; Some (37 # out) }
          else
            do { (flags, fmt1, args1) \<leftarrow> parse_spec rest args;
                 if fmt1 = [] then None
                 else
                   do { (cs, args2) \<leftarrow> format_spec (peek fmt1) flags args1;
                        out \<leftarrow> kvprintf (drop 1 fmt1) args2;
                        Some (cs @ out) } })"

definition kprintf :: "u8 list \<Rightarrow> va_arg list \<Rightarrow> vga \<Rightarrow> vga option" where
  "kprintf fmt args s = do { out \<leftarrow> kvprintf fmt args; vga_puts out s }"

section \<open>The screen is a terminal\<close>

text \<open>A terminal: rows of cells, a cursor and a colour.  Leaving the last row scrolls.\<close>

record terminal =
  t_rows :: "u16 list list"
  t_x :: nat
  t_y :: nat
  t_color :: u8

definition blank_row :: "terminal \<Rightarrow> u16 list" where
  "blank_row t = replicate 80 (cell 32 (t_color t))"

definition t_set :: "nat \<Rightarrow> nat \<Rightarrow> u8 \<Rightarrow> terminal \<Rightarrow> terminal" where
  "t_set y x c t = t\<lparr>t_rows := (t_rows t)[y := (t_rows t ! y)[x := cell c (t_color t)]]\<rparr>"

definition t_wrap :: "terminal \<Rightarrow> terminal" where
  "t_wrap t =
     (let t1 = (if t_x t < 80 then t else t\<lparr>t_x := 0, t_y := t_y t + 1\<rparr>)
      in if t_y t1 < 25 then t1 else t1\<lparr>t_rows := tl (t_rows t) @ [blank_row t], t_y := 24\<rparr>)"

definition t_put :: "u8 \<Rightarrow> terminal \<Rightarrow> terminal" where
  "t_put c t =
     (if c = 10 then t_wrap (t\<lparr>t_x := 0, t_y := t_y t + 1\<rparr>)
      else if c = 13 then t\<lparr>t_x := 0\<rparr>
      else if c = 9 then t_wrap (t\<lparr>t_x := (t_x t div 8 + 1) * 8\<rparr>)
      else if c = 8 then
        (if t_x t > 0 then t_set (t_y t) (t_x t - 1) 32 t\<lparr>t_x := t_x t - 1\<rparr>
         else if t_y t > 0 then t_set (t_y t - 1) 79 32 t\<lparr>t_x := 79, t_y := t_y t - 1\<rparr>
         else t)
      else t_wrap (t_set (t_y t) (t_x t) c t\<lparr>t_x := t_x t + 1\<rparr>))"

definition grid :: "u16 list list \<Rightarrow> bool" where
  "grid R \<longleftrightarrow> length R = 25 \<and> (\<forall>r \<in> set R. length r = 80)"

text \<open>What the memory shows is the terminal; the cursor registers are up to date.\<close>

definition screen :: "vga \<Rightarrow> terminal \<Rightarrow> bool" where
  "screen s t \<longleftrightarrow> grid (t_rows t) \<and> vmem s = concat (t_rows t) \<and> cursor_x s = int (t_x t) \<and> cursor_y s = int (t_y t) \<and>
     t_x t < 80 \<and> t_y t < 25 \<and> current_color s = t_color t \<and> hw_cursor s = of_nat (t_y t * 80 + t_x t)"

lemma concat_nth:
  "\<forall>r \<in> set R. length r = n \<Longrightarrow> y < length R \<Longrightarrow> x < n \<Longrightarrow> concat R ! (y * n + x) = R ! y ! x"
proof (induction R arbitrary: y)
  case (Cons r R)
  then show ?case by (cases y) (simp_all add: nth_append add.assoc)
qed simp

lemma concat_update:
  "\<forall>r \<in> set R. length r = n \<Longrightarrow> y < length R \<Longrightarrow> x < n \<Longrightarrow>
     (concat R)[y * n + x := v] = concat (R[y := (R ! y)[x := v]])"
proof (induction R arbitrary: y)
  case (Cons r R)
  then show ?case by (cases y) (simp_all add: list_update_append add.assoc)
qed simp

lemma gridD: "grid R \<Longrightarrow> y < 25 \<Longrightarrow> length (R ! y) = 80" "grid R \<Longrightarrow> length R = 25"
  by (simp_all add: grid_def)

lemma grid_update [intro]: "grid R \<Longrightarrow> length r = 80 \<Longrightarrow> grid (R[y := r])"
  using set_update_subset_insert [of R y r] by (auto simp: grid_def)

lemma length_concat_const: "\<forall>r \<in> set R. length r = n \<Longrightarrow> length (concat R) = length R * n"
  by (induction R) auto

lemma length_concat_grid: "grid R \<Longrightarrow> length (concat R) = 2000"
  using length_concat_const [of R 80] by (simp add: grid_def)

lemma upt_Suc_fold: "fold f [a..<Suc n] z = (if a \<le> n then f n (fold f [a..<n] z) else z)"
  by simp

lemma take_update_step: "k < length q \<Longrightarrow> k < length r \<Longrightarrow> (take k q @ drop k r)[k := q ! k] = take (Suc k) q @ drop (Suc k) r"
  by (simp add: list_update_append take_Suc_conv_app_nth Cons_nth_drop_Suc [symmetric])

lemma scroll_row_grid:
  assumes R: "grid R" and y: "y < 24"
  shows "scroll_row (Suc y) (concat R) = concat (R[y := R ! Suc y])"
proof -
  have "fold (\<lambda>x m. m[y * 80 + x := m ! (Suc y * 80 + x)]) [0..<k] (concat R) =
      concat (R[y := take k (R ! Suc y) @ drop k (R ! y)])" if "k \<le> 80" for k
    using that
  proof (induction k)
    case (Suc k)
    let ?r = "take k (R ! Suc y) @ drop k (R ! y)"
    have l: "length (R ! y) = 80" "length (R ! Suc y) = 80" "length R = 25" using gridD [OF R] y by auto
    have "length ?r = 80" using l(1,2) Suc.prems by simp
    then have "grid (R[y := ?r])" by (rule grid_update [OF R])
    then have g: "\<forall>r \<in> set (R[y := ?r]). length r = 80" unfolding grid_def by (rule conjunct2)
    have ly: "Suc y < length (R[y := ?r])" "y < length (R[y := ?r])" "k < 80" using l(3) y Suc.prems by simp_all
    have "R[y := ?r] ! Suc y = R ! Suc y" "R[y := ?r] ! y = ?r" using ly by (simp_all only: nth_list_update_neq nth_list_update_eq length_list_update)
    then have "concat (R[y := ?r]) ! (Suc y * 80 + k) = R ! Suc y ! k"
      "(concat (R[y := ?r]))[y * 80 + k := v] = concat (R[y := ?r[k := v]])" for v
      using concat_nth [OF g ly(1,3)] concat_update [OF g ly(2,3), of v] by (simp_all only: list_update_overwrite)
    moreover have "?r[k := R ! Suc y ! k] = take (Suc k) (R ! Suc y) @ drop (Suc k) (R ! y)"
      by (rule take_update_step) (use l Suc.prems in simp_all)
    ultimately show ?case using Suc by (simp add: upt_Suc_fold del: upt_Suc)
  qed simp
  from this [of 80] show ?thesis using gridD [OF R] y by (simp add: scroll_row_def)
qed

lemma scroll_rows_grid:
  assumes R: "grid R" and k: "k \<le> 24"
  shows "fold scroll_row [1..<Suc k] (concat R) = concat (take k (tl R) @ drop k R)"
  using k
proof (induction k)
  case (Suc k)
  let ?R = "take k (tl R) @ drop k R"
  have l: "length R = 25" "length (tl R) = 24" using gridD [OF R] by auto
  have "set (tl R) \<subseteq> set R" by (cases R) auto
  then have "\<forall>r \<in> set ?R. length r = 80" using R by (auto simp: grid_def dest: in_set_takeD in_set_dropD)
  then have g: "grid ?R" using l Suc.prems by (simp add: grid_def)
  have "R ! Suc k = tl R ! k" using l Suc.prems by (simp add: nth_tl)
  moreover have "?R ! Suc k = R ! Suc k" using l Suc.prems by (simp add: nth_append)
  ultimately have "?R[k := ?R ! Suc k] = take (Suc k) (tl R) @ drop (Suc k) R"
    using take_update_step [of k "tl R" R] l Suc.prems by simp
  then show ?case using Suc scroll_row_grid [OF g, of k] by (simp add: upt_Suc_fold del: upt_Suc)
qed simp

lemma blank_last_row:
  assumes R: "grid R"
  shows "fold (\<lambda>x m. m[24 * 80 + x := c]) [0..<80] (concat R) = concat (R[24 := replicate 80 c])"
proof -
  have "fold (\<lambda>x m. m[24 * 80 + x := c]) [0..<k] (concat R) = concat (R[24 := replicate k c @ drop k (R ! 24)])" if "k \<le> 80" for k
    using that
  proof (induction k)
    case (Suc k)
    let ?r = "replicate k c @ drop k (R ! 24)"
    have l: "length (R ! 24) = 80" "length R = 25" using gridD [OF R] by auto
    have "grid (R[24 := ?r])" using R l Suc.prems by (intro grid_update) simp_all
    then have g: "\<forall>r \<in> set (R[24 := ?r]). length r = 80" by (simp add: grid_def)
    have "(concat (R[24 := ?r]))[24 * 80 + k := c] = concat (R[24 := ?r[k := c]])"
      using concat_update [OF g, of 24 k c] l Suc.prems by simp
    moreover have "?r[k := c] = replicate (Suc k) c @ drop (Suc k) (R ! 24)"
      using take_update_step [of k "replicate 80 c" "R ! 24"] l Suc.prems by simp
    ultimately show ?case using Suc by (simp add: upt_Suc_fold del: upt_Suc)
  qed simp
  from this [of 80] show ?thesis using gridD [OF R] by simp
qed

lemma scroll_grid:
  assumes R: "grid R" and "vmem s = concat R"
  shows "vga_scroll s = s\<lparr>vmem := concat (tl R @ [replicate 80 (cell 32 (current_color s))])\<rparr>"
proof -
  let ?R = "tl R @ drop 24 R"
  have l: "length R = 25" using R by (simp add: grid_def)
  then have g: "grid ?R" using R by (cases R) (auto simp: grid_def dest: in_set_dropD)
  obtain r where r: "drop 24 R = [r]" using l by (cases "drop 24 R") (auto simp: length_Suc_conv dest!: arg_cong [where f = length])
  have "fold scroll_row [1..<25] (concat R) = concat ?R" using scroll_rows_grid [OF R, of 24] l by simp
  moreover have "?R[24 := c] = tl R @ [c]" for c using l  r
    by (simp add: list_update_append)
  ultimately show ?thesis using blank_last_row [OF g] assms(2) by (simp add: vga_scroll_def Let_def)
qed

lemma screen_row:
  assumes "screen s t"
  shows "length (t_rows t) = 25" "y < 25 \<Longrightarrow> length (t_rows t ! y) = 80"
  using assms gridD [of "t_rows t"] by (simp_all add: screen_def)

lemma vput_cursor:
  assumes g: "grid (t_rows t)" and m: "vmem s = concat (t_rows t)"
    and c: "cursor_x s = int x" "cursor_y s = int y" "x < 80" "y < 25" "current_color s = t_color t"
  shows "vput (cursor_y s * VGA_WIDTH + cursor_x s) (cell ch (current_color s)) s = Some (s\<lparr>vmem := concat (t_rows (t_set y x ch t))\<rparr>)"
    and "grid (t_rows (t_set y x ch t))"
proof -
  have i: "nat (int y * VGA_WIDTH + int x) = y * 80 + x" "int y * VGA_WIDTH + int x < 2000" using c(3,4) by auto
  have "(concat (t_rows t))[y * 80 + x := v] = concat ((t_rows t)[y := (t_rows t ! y)[x := v]])" for v
    by (rule concat_update) (use g c(3,4) in \<open>simp_all add: grid_def\<close>)
  then show "vput (cursor_y s * VGA_WIDTH + cursor_x s) (cell ch (current_color s)) s = Some (s\<lparr>vmem := concat (t_rows (t_set y x ch t))\<rparr>)"
    unfolding vput_def c(1,2,5) using i m by (simp add: t_set_def)
  show "grid (t_rows (t_set y x ch t))" unfolding t_set_def using grid_update [OF g] gridD [OF g] c(4) by simp
qed

lemma t_set_simps [simp]: "t_x (t_set y x c t) = t_x t" "t_y (t_set y x c t) = t_y t" "t_color (t_set y x c t) = t_color t"
  by (simp_all add: t_set_def)

lemma hw_position: "(word_of_int (int y * 80 + int x) :: u16) = of_nat (y * 80 + x)"
  by simp

text \<open>The state and the terminal before the cursor is wrapped: it may be one row too low, or to the right
  of the last column.\<close>

definition almost :: "vga \<Rightarrow> terminal \<Rightarrow> bool" where
  "almost s t \<longleftrightarrow> grid (t_rows t) \<and> vmem s = concat (t_rows t) \<and> cursor_x s = int (t_x t) \<and> cursor_y s = int (t_y t) \<and>
     (t_x t < 80 \<and> t_y t \<le> 25 \<or> t_y t < 25) \<and> current_color s = t_color t"

lemma wrap_screen:
  assumes "almost s t"
  shows "screen (wrap_cursor s) (t_wrap t)" and "debugcon (wrap_cursor s) = debugcon s"
proof -
  define s1 where "s1 = (if cursor_x s \<ge> VGA_WIDTH then s\<lparr>cursor_x := 0, cursor_y := cursor_y s + 1\<rparr> else s)"
  define t1 where "t1 = (if t_x t < 80 then t else t\<lparr>t_x := 0, t_y := t_y t + 1\<rparr>)"
  have a: "grid (t_rows t1)" "vmem s1 = concat (t_rows t1)" "cursor_x s1 = int (t_x t1)" "cursor_y s1 = int (t_y t1)"
    "t_x t1 < 80" "t_y t1 \<le> 25" "current_color s1 = t_color t1" "t_rows t1 = t_rows t" "t_color t1 = t_color t" "debugcon s1 = debugcon s"
    using assms by (auto simp: almost_def s1_def t1_def)
  have g: "grid (tl (t_rows t) @ [blank_row t])"
    using a(1,8) by (cases "t_rows t") (auto simp: grid_def blank_row_def)
  have w: "wrap_cursor s = vga_update_hardware_cursor (if t_y t1 < 25 then s1
      else s1\<lparr>vmem := concat (tl (t_rows t) @ [blank_row t]), cursor_y := 24\<rparr>)"
  proof -
    have "wrap_cursor s = vga_update_hardware_cursor (if cursor_y s1 \<ge> VGA_HEIGHT then (vga_scroll s1)\<lparr>cursor_y := VGA_HEIGHT - 1\<rparr> else s1)"
      unfolding wrap_cursor_def s1_def Let_def by (rule refl)
    then show ?thesis using a scroll_grid [OF a(1,2)] by (simp add: blank_row_def)
  qed
  have t: "t_wrap t = (if t_y t1 < 25 then t1 else t1\<lparr>t_rows := tl (t_rows t) @ [blank_row t], t_y := 24\<rparr>)"
    by (simp add: t_wrap_def t1_def [symmetric] Let_def)
  have hw: "(word_of_int (int y * 80 + int x) :: u16) = of_nat (y * 80 + x)" for x y by simp
  show "screen (wrap_cursor s) (t_wrap t)"
    unfolding w t using a g hw by (cases "t_y t1 < 25") (simp_all add: screen_def vga_update_hardware_cursor_def)
  show "debugcon (wrap_cursor s) = debugcon s"
    unfolding w using a(10) by (simp add: vga_update_hardware_cursor_def)
qed

lemma tab_stop: "(int n + 8) AND NOT 7 = int ((n div 8 + 1) * 8)"
proof -
  have "(int n + 8) AND NOT 7 = (int n + 8) AND NOT (mask 3)" by (simp add: mask_eq_exp_minus_1)
  also have "\<dots> = push_bit 3 (drop_bit 3 (int n + 8))" by (rule bit_eqI) (auto simp: bit_simps)
  also have "\<dots> = (int n + 8) div 8 * 8" by (simp add: push_bit_eq_mult drop_bit_eq_div)
  also have "\<dots> = int ((n div 8 + 1) * 8)" using div_add_self2 [of 8 "int n"] by (simp add: zdiv_int)
  finally show ?thesis .
qed

lemma putchar_screen:
  assumes "screen s t"
  shows "\<exists>s'. vga_putchar c s = Some s' \<and> screen s' (t_put c t) \<and> debugcon s' = debugcon s @ [c]"
proof -
  let ?s = "debugcon_putchar c s" and ?x = "t_x t" and ?y = "t_y t"
  have s: "screen ?s t" "debugcon ?s = debugcon s @ [c]" using assms by (simp_all add: screen_def debugcon_putchar_def)
  note d = s(1) [unfolded screen_def]
  have wrap: "\<exists>s'. Some (wrap_cursor s1) = Some s' \<and> screen s' (t_wrap t1) \<and> debugcon s' = debugcon s @ [c]"
    if "almost s1 t1" "debugcon s1 = debugcon ?s" for s1 t1
    using wrap_screen [OF that(1)] that(2) s(2) by simp
  consider "c = 10" | "c = 13" | "c = 9" | "c = 8" "?x > 0" | "c = 8" "?x = 0" "?y > 0" | "c = 8" "?x = 0" "?y = 0"
    | "c \<noteq> 10" "c \<noteq> 13" "c \<noteq> 9" "c \<noteq> 8" by blast
  then show ?thesis
  proof cases
    case 1
    then show ?thesis using wrap [of "?s\<lparr>cursor_x := 0, cursor_y := cursor_y ?s + 1\<rparr>" "t\<lparr>t_x := 0, t_y := ?y + 1\<rparr>"] d
      by (simp add: vga_putchar_def t_put_def almost_def)
  next
    case 2
    have "t_wrap (t\<lparr>t_x := 0\<rparr>) = t\<lparr>t_x := 0\<rparr>" using d by (simp add: t_wrap_def)
    then show ?thesis using 2 wrap [of "?s\<lparr>cursor_x := 0\<rparr>" "t\<lparr>t_x := 0\<rparr>"] d
      by (simp add: vga_putchar_def t_put_def almost_def)
  next
    case 3
    then show ?thesis using wrap [of "?s\<lparr>cursor_x := (cursor_x ?s + 8) AND NOT 7\<rparr>" "t\<lparr>t_x := (?x div 8 + 1) * 8\<rparr>"] d
      tab_stop [of ?x] by (simp add: vga_putchar_def t_put_def almost_def del: bit_not_int_iff)
  next
    case 4
    let ?s1 = "?s\<lparr>cursor_x := cursor_x ?s - 1\<rparr>"
    have c: "cursor_x ?s1 = int (?x - 1)" "cursor_y ?s1 = int ?y" "?x - 1 < 80" using d 4 by auto
    note v = vput_cursor [of t ?s1, OF _ _ c(1,2,3), of 32]
    show ?thesis using 4 d s v c hw_position [of ?y "?x - 1"]
      by (auto simp: vga_putchar_def t_put_def Let_def screen_def vga_update_hardware_cursor_def)
  next
    case 5
    let ?s1 = "?s\<lparr>cursor_y := cursor_y ?s - 1, cursor_x := VGA_WIDTH - 1\<rparr>"
    have c: "cursor_x ?s1 = int 79" "cursor_y ?s1 = int (?y - 1)" "?y - 1 < 25" using d 5 by auto
    note v = vput_cursor [of t ?s1, OF _ _ c(1,2) _ c(3), of 32]
    show ?thesis using 5 d s v c hw_position [of "?y - 1" 79]
      by (auto simp: vga_putchar_def t_put_def Let_def screen_def vga_update_hardware_cursor_def)
  next
    case 6
    then show ?thesis using d s by (simp add: vga_putchar_def t_put_def)
  next
    case 7
    note v = vput_cursor [of t ?s ?x ?y c]
    show ?thesis
      using 7 d v wrap [of "?s\<lparr>vmem := concat (t_rows (t_set ?y ?x c t)), cursor_x := int ?x + 1\<rparr>" "t_set ?y ?x c t\<lparr>t_x := ?x + 1\<rparr>"]
      by (auto simp: vga_putchar_def t_put_def Let_def almost_def)
  qed
qed

lemma puts_screen:
  "screen s t \<Longrightarrow> \<exists>s'. vga_puts cs s = Some s' \<and> screen s' (fold t_put cs t) \<and> debugcon s' = debugcon s @ cs"
proof (induction cs arbitrary: s t)
  case (Cons c cs)
  obtain s1 where s1: "vga_putchar c s = Some s1" "screen s1 (t_put c t)" "debugcon s1 = debugcon s @ [c]"
    using putchar_screen [OF Cons.prems, of c] by blast
  then show ?case using Cons.IH [OF s1(2)] by auto
qed simp

text \<open>The blank screen that \<^verbatim>\<open>vga_init\<close> leaves, whatever was in the memory.\<close>

definition blank_terminal :: terminal where
  "blank_terminal = \<lparr>t_rows = replicate 25 (replicate 80 0x8f20), t_x = 0, t_y = 0, t_color = 0x8f\<rparr>"

lemma fold_nested: "fold (\<lambda>x. fold (f x) ys) xs m = fold (\<lambda>(x, y). f x y) (List.product xs ys) m"
  by (induction xs arbitrary: m) (simp_all add: fold_map comp_def)

lemma fold_const_update:
  "i < length m \<Longrightarrow> fold (\<lambda>j m. m[g j := v]) js m ! i = (if i \<in> g ` set js then v else m ! i) \<and>
     length (fold (\<lambda>j m. m[g j := v]) js m) = length m"
  by (induction js arbitrary: m) (auto simp: nth_list_update)

lemma concat_replicate_const: "concat (replicate n (replicate k c)) = replicate (n * k) c"
  by (induction n) (auto simp: replicate_add)

lemma vga_init_screen:
  assumes "length (vmem s) = 2000"
  shows "screen (vga_init s) blank_terminal"
proof -
  let ?js = "List.product [0..<80] [0..<25]"
  let ?m = "fold (\<lambda>x. fold (\<lambda>y m. m[y * 80 + x := (0x8f20 :: u16)]) [0..<25]) [0..<80] (vmem s)"
  have m: "?m = fold (\<lambda>j m. m[snd j * 80 + fst j := 0x8f20]) ?js (vmem s)"
    unfolding fold_nested by (simp only: case_prod_unfold)
  have in_js: "i \<in> (\<lambda>j. snd j * 80 + fst j) ` set ?js" if "i < 2000" for i :: nat
    by (rule image_eqI [of _ _ "(i mod 80, i div 80)"]) (use that in \<open>simp_all add: less_mult_imp_div_less\<close>)
  note u = fold_const_update [where m = "vmem s" and g = "\<lambda>j. snd j * 80 + fst j" and v = "0x8f20" and js = ?js]
  have "?m = replicate 2000 0x8f20"
    unfolding m
  proof (rule nth_equalityI)
    show "length (fold (\<lambda>j m. m[snd j * 80 + fst j := 0x8f20]) ?js (vmem s)) = length (replicate 2000 (0x8f20 :: u16))"
      using u [of 0] assms by simp
  next
    fix i assume "i < length (fold (\<lambda>j m. m[snd j * 80 + fst j := 0x8f20]) ?js (vmem s))"
    then have "i < 2000" using u [of 0] assms by simp
    then show "fold (\<lambda>j m. m[snd j * 80 + fst j := 0x8f20]) ?js (vmem s) ! i = replicate 2000 (0x8f20 :: u16) ! i"
      using u [of i] in_js assms by (simp only: if_True nth_replicate)
  qed
  also have "\<dots> = concat (replicate 25 (replicate 80 0x8f20))"
    by (simp only: concat_replicate_const mult_numeral_left_semiring_numeral) simp
  finally show ?thesis
    by (simp add: screen_def blank_terminal_def grid_def vga_init_def vga_setcolorbase_def vga_update_hardware_cursor_def Let_def)
qed

text \<open>C36. The screen is a terminal of 25 rows of 80 columns: printing text never writes outside the video
  memory, and what the memory, the cursor and the cursor registers show afterwards is what the terminal
  shows after each character was put on it, with scrolling as the loss of the first row.\<close>

theorem vga_puts_terminal:
  assumes "screen s t"
  shows "\<exists>s'. vga_puts cs s = Some s' \<and> screen s' (fold t_put cs t) \<and> debugcon s' = debugcon s @ cs"
  using assms by (rule puts_screen)

theorem vga_puts_terminal_witness:
  "\<exists>s'. vga_puts [72, 105, 10]
      (vga_init \<lparr>vmem = replicate 2000 0, cursor_x = 3, cursor_y = 4, current_color = 0, hw_cursor = 0, debugcon = []\<rparr>) = Some s' \<and>
     t_rows (fold t_put [72, 105, 10] blank_terminal) ! 0 ! 1 = 0x8f69 \<and>
     screen s' (fold t_put [72, 105, 10] blank_terminal)"
  using vga_puts_terminal [OF vga_init_screen [of "\<lparr>vmem = replicate 2000 0, cursor_x = 3, cursor_y = 4,
    current_color = 0, hw_cursor = 0, debugcon = []\<rparr>"], of "[72, 105, 10]"]
  by (auto simp: blank_terminal_def t_put_def t_wrap_def t_set_def cell_def)

section \<open>Numbers are printed as their digits\<close>

definition hex_digit_char :: "nat \<Rightarrow> u8" where
  "hex_digit_char d = (if d < 10 then of_nat (48 + d) else of_nat (87 + d))"

text \<open>The digits of a number in a base, the highest first.\<close>

function digits_of :: "nat \<Rightarrow> nat \<Rightarrow> u8 list" where
  "digits_of b n = (if n < b \<or> b < 2 then [hex_digit_char n] else digits_of b (n div b) @ [hex_digit_char (n mod b)])"
  by pat_completeness auto
termination
  by (relation "measure snd") (auto intro: div_less_dividend)

declare digits_of.simps [simp del]

definition decimal :: "int \<Rightarrow> u8 list" where
  "decimal x = (if x < 0 then [45] else []) @ digits_of 10 (nat \<bar>x\<bar>)"

lemma digit_char_hex: "unat d < 16 \<Longrightarrow> digit_char False d = hex_digit_char (unat d)"
proof -
  have "list_all (\<lambda>n. lit ''0123456789abcdef'' ! n = hex_digit_char n) [0..<16]" by code_simp
  then have "\<forall>n < 16. lit ''0123456789abcdef'' ! n = hex_digit_char n" by (simp only: list_all_iff set_upt) simp
  then show "unat d < 16 \<Longrightarrow> digit_char False d = hex_digit_char (unat d)" by (simp add: digit_char_def)
qed

lemma u64_digits_spec:
  assumes "2 \<le> unat b" and "unat b \<le> 16"
  shows "v \<noteq> 0 \<Longrightarrow> unat v < 2 ^ k \<Longrightarrow> \<exists>ds. u64_digits v b False = Some ds \<and> rev ds = digits_of (unat b) (unat v) \<and> length ds \<le> k"
proof (induction k arbitrary: v)
  case 0
  then show ?case by (simp add: unat_eq_zero)
next
  case (Suc k)
  have v: "v > 0" "b \<noteq> 0" using Suc.prems(1) assms(1) by (auto simp: word_gt_0)
  have m: "unat (v mod b) = unat v mod unat b" "unat (v div b) = unat v div unat b" by (simp_all add: unat_mod unat_div)
  have c: "digit_char False (v mod b) = hex_digit_char (unat v mod unat b)"
    using digit_char_hex [of "v mod b"] m(1) assms by (simp add: less_le_trans [OF mod_less_divisor])
  show ?case
  proof (cases "v div b = 0")
    case True
    then have "unat v < unat b" using m(2) assms(1) by (metis div_eq_0_iff unat_0 not_numeral_le_zero)
    then show ?thesis
      using v c True u64_digits.simps [of v b False] u64_digits.simps [of 0 b False] by (simp add: digits_of.simps)
  next
    case False
    have "unat v div unat b \<le> unat v div 2" using assms(1) by (intro div_le_mono2) simp_all
    also have "\<dots> < 2 ^ k" using Suc.prems(2) by (simp add: less_mult_imp_div_less)
    finally obtain ds where ds: "u64_digits (v div b) b False = Some ds" "rev ds = digits_of (unat b) (unat v div unat b)" "length ds \<le> k"
      using Suc.IH [OF False] m(2) by auto
    have "\<not> unat v < unat b" using False m(2) by (metis div_less unat_eq_zero)
    then have "digits_of (unat b) (unat v) = digits_of (unat b) (unat v div unat b) @ [hex_digit_char (unat v mod unat b)]"
      using assms(1) by (subst digits_of.simps) simp
    then show ?thesis using v c ds u64_digits.simps [of v b False] by simp
  qed
qed

lemma reverse_buf_rev: "reverse_buf b = rev b"
proof -
  define n where "n = length b"
  have "fold (\<lambda>i b. b[i := b ! (n - 1 - i), n - 1 - i := b ! i]) [0..<k] b =
      map (\<lambda>j. if j < k \<or> n - k \<le> j then b ! (n - 1 - j) else b ! j) [0..<n]" if "k \<le> n div 2" for k
    using that
  proof (induction k)
    case 0
    show ?case by (rule nth_equalityI) (simp_all add: n_def)
  next
    case (Suc k)
    let ?g = "\<lambda>k. map (\<lambda>j. if j < k \<or> n - k \<le> j then b ! (n - 1 - j) else b ! j) [0..<n]"
    have k: "k < n - 1 - k" "n - 1 - k < n" "n - 1 - (n - 1 - k) = k" using Suc.prems by linarith+
    have at: "?g k ! k = b ! k" "?g k ! (n - 1 - k) = b ! (n - 1 - k)" using k by auto
    have "(?g k)[k := b ! (n - 1 - k), n - 1 - k := b ! k] = ?g (Suc k)"
    proof (rule nth_equalityI)
      fix j assume "j < length ((?g k)[k := b ! (n - 1 - k), n - 1 - k := b ! k])"
      then have j: "j < n" by simp
      consider "j = k" | "j = n - 1 - k" | "j \<noteq> k" "j \<noteq> n - 1 - k" by blast
      then show "(?g k)[k := b ! (n - 1 - k), n - 1 - k := b ! k] ! j = ?g (Suc k) ! j"
      proof cases
        case 3
        then have "j < Suc k \<or> n - Suc k \<le> j \<longleftrightarrow> j < k \<or> n - k \<le> j" using k by linarith
        then show ?thesis using 3 j by simp
      qed (use k in simp_all)
    qed simp
    then show ?case using Suc at by simp
  qed
  from this [of "n div 2"] have "reverse_buf b = map (\<lambda>j. if j < n div 2 \<or> n - n div 2 \<le> j then b ! (n - 1 - j) else b ! j) [0..<n]"
    by (simp add: reverse_buf_def n_def Let_def)
  moreover have "b ! j = b ! (n - 1 - j)" if "\<not> (j < n div 2 \<or> n - n div 2 \<le> j)" for j
  proof -
    have "n - 1 - j = j" using that by linarith
    then show ?thesis by simp
  qed
  ultimately show ?thesis by (intro nth_equalityI) (auto simp: n_def rev_nth)
qed

lemma u64_to_str_spec:
  assumes "2 \<le> unat b" and "unat b \<le> 16"
  obtains ds where "u64_to_str v b False = Some ds" and "reverse_buf ds = digits_of (unat b) (unat v)" and "length ds \<le> 64" and "ds \<noteq> []"
proof (cases "v = 0")
  case True
  then show thesis using that [of "[48]"] assms by (simp add: u64_to_str_def reverse_buf_rev digits_of.simps hex_digit_char_def)
next
  case False
  have "unat v < 2 ^ 64" using unsigned_less [of v] by simp
  from u64_digits_spec [OF assms False this] obtain ds where ds: "u64_digits v b False = Some ds"
    "rev ds = digits_of (unat b) (unat v)" "length ds \<le> 64" by blast
  moreover have "ds \<noteq> []" using ds(2) digits_of.simps [of "unat b" "unat v"] by (auto split: if_splits)
  ultimately show thesis using that [of ds] False by (simp add: u64_to_str_def reverse_buf_rev)
qed

lemma c_int_small: "- 1000 \<le> x \<Longrightarrow> x \<le> 1000 \<Longrightarrow> c_int x = Some x"
  by (simp add: c_int_def)

lemma format_number_plain:
  assumes "2 \<le> unat b" and "unat b \<le> 16"
  shows "format_number v sign b (no_flags\<lparr>fl_length := l\<rparr>) =
    Some ((if sign = 0 then [] else [sign]) @ digits_of (unat b) (unat v))"
proof -
  obtain ds where ds: "u64_to_str v b False = Some ds" "reverse_buf ds = digits_of (unat b) (unat v)" "length ds \<le> 64" "ds \<noteq> []"
    by (rule u64_to_str_spec [OF assms])
  have "length (digits_of (unat b) (unat v)) = length ds" using ds(2) reverse_buf_rev [of ds] by (metis length_rev)
  then have len: "length (digits_of (unat b) (unat v)) \<le> 64" "1 \<le> length (digits_of (unat b) (unat v))"
    using ds(3,4) by (simp_all add: Suc_leI)
  then have ne: "digits_of (unat b) (unat v) \<noteq> []" by force
  show ?thesis
    using ds(1,2) len ne by (simp add: format_number_def no_flags_def kputs_padded_def c_int_small Let_def)
qed

lemma abs_s64_decimal:
  assumes "abs_s64 v = (u, sign)"
  shows "(if sign = 0 then [] else [sign]) @ digits_of 10 (unat u) = decimal (sint v)"
proof -
  have "- (v + 1) + 1 = - v" by simp
  moreover have "unat (- v) = nat \<bar>sint v\<bar>" if "sint v < 0"
  proof -
    have "- v = word_of_int (- sint v)" by simp
    moreover have "- sint v < 2 ^ 64" "0 \<le> - sint v" using sint_greater_eq [of v] that by simp_all
    ultimately have "uint (- v) = - sint v" by (simp only: uint_word_of_int) simp
    then show ?thesis using that by (simp add: unat_eq_nat_uint)
  qed
  moreover have "unat v = nat \<bar>sint v\<bar>" if "0 \<le> sint v"
  proof -
    have "sint v < 2 ^ 64" using sint_less [of v] by simp
    then have "uint v = sint v" using uint_word_of_int [of "sint v", where 'a = 64] that by simp
    then show ?thesis using that by (simp add: unat_eq_nat_uint)
  qed
  ultimately show ?thesis using assms by (auto simp: abs_s64_def decimal_def split: if_splits)
qed

lemma kvprintf_plain: "37 \<notin> set pre \<Longrightarrow> kvprintf (pre @ fmt) args = map_option ((@) pre) (kvprintf fmt args)"
proof (induction pre)
  case (Cons c pre)
  then show ?case using kvprintf.simps [of "(c # pre) @ fmt" args] by (cases "kvprintf fmt args") auto
qed (simp add: option.map_id0 [unfolded id_def, symmetric] map_option_idI)

lemma sint_scast_32: "sint (scast (x :: u32) :: u64) = sint x"
  by (simp add: sint_up_scast is_up)

lemma format_spec_numbers:
  shows "format_spec 100 no_flags (Va_word w # args) = Some (decimal (sint (ucast w :: u32)), args)"
    and "format_spec 100 (no_flags\<lparr>fl_length := 76\<rparr>) (Va_word w # args) = Some (decimal (sint w), args)"
    and "format_spec 117 (no_flags\<lparr>fl_length := 76\<rparr>) (Va_word w # args) = Some (digits_of 10 (unat w), args)"
    and "format_spec 120 (no_flags\<lparr>fl_length := 76\<rparr>) (Va_word w # args) = Some (digits_of 16 (unat w), args)"
proof -
  have dec: "format_number u s 10 (no_flags\<lparr>fl_length := l\<rparr>) = Some (decimal (sint v))" if "abs_s64 v = (u, s)" for u s v l
    using format_number_plain [of 10 u s l] abs_s64_decimal [OF that] by simp
  have nf: "no_flags\<lparr>fl_length := 0\<rparr> = no_flags" by (simp add: no_flags_def)
  show "format_spec 100 no_flags (Va_word w # args) = Some (decimal (sint (ucast w :: u32)), args)"
    using dec [of "scast (ucast w :: u32)", where l = 0, unfolded nf]
    by (cases "abs_s64 (scast (ucast w :: u32))") (simp add: format_spec_def signed_arg_def sint_scast_32 no_flags_def)
  show "format_spec 100 (no_flags\<lparr>fl_length := 76\<rparr>) (Va_word w # args) = Some (decimal (sint w), args)"
    using dec [of w, where l = 76] by (cases "abs_s64 w") (simp add: format_spec_def signed_arg_def)
  show "format_spec 117 (no_flags\<lparr>fl_length := 76\<rparr>) (Va_word w # args) = Some (digits_of 10 (unat w), args)"
    using format_number_plain [of 10 w 0 76] by (simp add: format_spec_def unsigned_arg_def)
  have "(no_flags\<lparr>fl_length := 76\<rparr>)\<lparr>fl_uppercase := False\<rparr> = no_flags\<lparr>fl_length := 76\<rparr>" by (simp add: no_flags_def)
  then show "format_spec 120 (no_flags\<lparr>fl_length := 76\<rparr>) (Va_word w # args) = Some (digits_of 16 (unat w), args)"
    using format_number_plain [of 16 w 0 76] by (simp add: format_spec_def unsigned_arg_def)
qed

lemma parse_spec_plain:
  shows "parse_spec (100 # rest) args = Some (no_flags, 100 # rest, args)"
    and "c \<in> {100, 117, 120} \<Longrightarrow> parse_spec (108 # 108 # c # rest) args = Some (no_flags\<lparr>fl_length := 76\<rparr>, c # rest, args)"
  by (auto simp: parse_spec_def parse_count_def parse_length_def digit_def no_flags_def)

lemma kvprintf_number:
  assumes "parse_spec fmt args = Some (flags, c # rest, args1)" and "format_spec c flags args1 = Some (cs, args2)" and "peek fmt \<noteq> 37"
  shows "kvprintf (37 # fmt) args = map_option ((@) cs) (kvprintf rest args2)"
  using assms kvprintf.simps [of "37 # fmt" args] by (cases "kvprintf rest args2") auto



declare u64_digits.simps [code] kvprintf.simps [code]

text \<open>A negative number in a field with blanks is padded twice: once before its sign, once after it.\<close>

theorem negative_padded_twice: "kvprintf (lit ''%5d'') [Va_word (- 3)] = Some (lit ''   -   3'')"
  by code_simp

text \<open>A format that ends in a lone percent sign makes \<^verbatim>\<open>kvprintf\<close> read past its end.\<close>

theorem lone_percent_overruns: "kvprintf [37] args = None"
  using kvprintf.simps [of "[37]" args]
  by (simp add: parse_spec_def parse_count_def parse_length_def digit_def no_flags_def)

end
