(* ===== verification/Keyboard.thy ===== *)
theory Keyboard
  imports Sched Vga
begin

unbundle bit_operations_syntax

text \<open>
  \<^verbatim>\<open>core/drivers/keyboard.c\<close>: decoding scancodes, the ring of 256 keys, waiting for a key, and reading a line
  with editing.  \<open>kbd_data\<close> is what the keyboard controller holds in its output buffer: \<^verbatim>\<open>keyboard_poll\<close> reads
  until the controller reports that it is empty; \<open>Ports\<close> has the same loop on the controller's ports, and the set-up of
  the controller.  \<open>run\<close> and \<open>irq\<close> are those of \<open>Sched\<close>: what happens
  while the caller is blocked, the interrupt that brings new scancodes included.
\<close>

section \<open>State\<close>

record kconsole = ksched +
  vga_dev :: vga
  shift_pressed :: bool
  extended_scancode :: bool
  keyboard_buffer :: "int list"
  buffer_head :: int
  buffer_tail :: int
  kbd_data :: "u8 list"
  line_buf :: "u8 list"

definition BUFFER_SIZE :: int where [simp]: "BUFFER_SIZE = 256"
definition LSHIFT_MAKE :: u8 where [simp]: "LSHIFT_MAKE = 0x2A"
definition LSHIFT_BREAK :: u8 where [simp]: "LSHIFT_BREAK = 0xAA"
definition RSHIFT_MAKE :: u8 where [simp]: "RSHIFT_MAKE = 0x36"
definition RSHIFT_BREAK :: u8 where [simp]: "RSHIFT_BREAK = 0xB6"
definition KEY_LEFT :: int where [simp]: "KEY_LEFT = 0x100"
definition KEY_RIGHT :: int where [simp]: "KEY_RIGHT = 0x101"
definition KEY_UP :: int where [simp]: "KEY_UP = 0x102"
definition KEY_DOWN :: int where [simp]: "KEY_DOWN = 0x103"

text \<open>The two tables; the entries that the initialisers leave out are zero.\<close>

definition kbd_us_map :: "u8 list" where
  "kbd_us_map =
     [0, 27] @ lit ''1234567890-='' @ [8] @
     [9] @ lit ''qwertyuiop[]'' @ [10] @
     [0] @ lit ''asdfghjkl;'' @ [39, 96, 0] @
     [92] @ lit ''zxcvbnm,./'' @ [0, 42, 0, 32] @
     replicate 15 0 @
     [0, 0, 45, 0, 0, 0, 43, 0, 0, 0, 0, 0, 0, 0, 0] @
     replicate 15 0 @ replicate 25 0"

definition kbd_us_shift_map :: "u8 list" where
  "kbd_us_shift_map =
     [0, 27] @ lit ''!@#$%^&*()_+'' @ [8] @
     [9] @ lit ''QWERTYUIOP{}'' @ [10] @
     [0] @ lit ''ASDFGHJKL:'' @ [34, 126, 0] @
     [124] @ lit ''ZXCVBNM<>?'' @ [0, 42, 0, 32] @
     replicate 15 0 @
     [0, 0, 45, 0, 0, 0, 43, 0, 0, 0, 0, 0, 0, 0, 0] @
     replicate 15 0 @ replicate 25 0"

section \<open>Operations\<close>

definition keyboard_push :: "int \<Rightarrow> 'a kconsole_scheme \<Rightarrow> 'a kconsole_scheme" where
  "keyboard_push key s =
     (let next = (buffer_head s + 1) mod BUFFER_SIZE
      in if next = buffer_tail s then s
         else sched_wake_all (s\<lparr>keyboard_buffer := (keyboard_buffer s)[nat (buffer_head s) := key],
                                buffer_head := next\<rparr>))"

definition keyboard_handle_extended :: "u8 \<Rightarrow> 'a kconsole_scheme \<Rightarrow> int \<times> 'a kconsole_scheme" where
  "keyboard_handle_extended scancode s =
     (if scancode AND 0x80 \<noteq> 0 then (0, s)
      else if scancode = 0x4B then (1, keyboard_push KEY_LEFT s)
      else if scancode = 0x4D then (1, keyboard_push KEY_RIGHT s)
      else if scancode = 0x48 then (1, keyboard_push KEY_UP s)
      else if scancode = 0x50 then (1, keyboard_push KEY_DOWN s)
      else (0, s))"

definition keyboard_init :: "'a kconsole_scheme \<Rightarrow> 'a kconsole_scheme" where
  "keyboard_init s = s\<lparr>buffer_head := 0, buffer_tail := 0, shift_pressed := False, extended_scancode := False\<rparr>"

definition keyboard_handle_scancode :: "u8 \<Rightarrow> 'a kconsole_scheme \<Rightarrow> 'a kconsole_scheme" where
  "keyboard_handle_scancode scancode s =
     (if scancode = 0xE0 then s\<lparr>extended_scancode := True\<rparr>
      else if scancode = 0xE1 then s\<lparr>extended_scancode := False\<rparr>
      else if extended_scancode s then snd (keyboard_handle_extended scancode (s\<lparr>extended_scancode := False\<rparr>))
      else if scancode = LSHIFT_MAKE \<or> scancode = RSHIFT_MAKE then s\<lparr>shift_pressed := True\<rparr>
      else if scancode = LSHIFT_BREAK \<or> scancode = RSHIFT_BREAK then s\<lparr>shift_pressed := False\<rparr>
      else if scancode AND 0x80 \<noteq> 0 then s
      else
        (let ascii = (if shift_pressed s then kbd_us_shift_map ! unat scancode else kbd_us_map ! unat scancode)
         in if ascii = 0 then s else keyboard_push (uint ascii) s))"

definition keyboard_poll :: "'a kconsole_scheme \<Rightarrow> 'a kconsole_scheme" where
  "keyboard_poll s = fold keyboard_handle_scancode (kbd_data s) (s\<lparr>kbd_data := []\<rparr>)"

definition keyboard_handler :: "'a kconsole_scheme \<Rightarrow> 'a kconsole_scheme" where
  "keyboard_handler s = keyboard_poll s"

definition keyboard_haschar :: "'a kconsole_scheme \<Rightarrow> bool \<times> 'a kconsole_scheme" where
  "keyboard_haschar s = (let s1 = keyboard_poll s in (buffer_head s1 \<noteq> buffer_tail s1, s1))"

partial_function (option) getchar_wait ::
    "('a kconsole_scheme \<Rightarrow> 'a kconsole_scheme option) \<Rightarrow> ('a kconsole_scheme \<Rightarrow> 'a kconsole_scheme option) \<Rightarrow>
     'a kconsole_scheme \<Rightarrow> 'a kconsole_scheme option" where
  "getchar_wait run irq s =
     (let (has, s1) = keyboard_haschar s
      in if has then Some s1
         else do { s2 \<leftarrow> sched_block_current run irq s1; getchar_wait run irq s2 })"

definition keyboard_getchar ::
    "('a kconsole_scheme \<Rightarrow> 'a kconsole_scheme option) \<Rightarrow> ('a kconsole_scheme \<Rightarrow> 'a kconsole_scheme option) \<Rightarrow>
     'a kconsole_scheme \<Rightarrow> (int \<times> 'a kconsole_scheme) option" where
  "keyboard_getchar run irq s =
     do { s1 \<leftarrow> getchar_wait run irq s;
          let key = keyboard_buffer s1 ! nat (buffer_tail s1);
          Some (key, s1\<lparr>buffer_tail := (buffer_tail s1 + 1) mod BUFFER_SIZE\<rparr>) }"

section \<open>Reading a line\<close>

definition input_redraw :: "int \<Rightarrow> int \<Rightarrow> u8 list \<Rightarrow> nat \<Rightarrow> nat \<Rightarrow> nat \<Rightarrow> vga \<Rightarrow> vga option" where
  "input_redraw line_x line_y str len cursor clear_to v =
     do { v1 \<leftarrow> vga_puts (take len str) (vga_set_cursor line_x line_y v);
          v2 \<leftarrow> vga_puts (replicate (clear_to - len) 32) v1;
          Some (vga_set_cursor (line_x + int cursor) line_y v2) }"

text \<open>The local variables \<^verbatim>\<open>len\<close>, \<^verbatim>\<open>cursor\<close> and \<^verbatim>\<open>max_drawn\<close> of \<^verbatim>\<open>get_string\<close>.\<close>

record line =
  ln_len :: nat
  ln_cursor :: nat
  ln_max :: nat

text \<open>What a key other than the newline does to the line, the buffer and the screen.\<close>

definition line_key :: "int \<Rightarrow> int \<Rightarrow> int \<Rightarrow> line \<Rightarrow> u8 list \<Rightarrow> vga \<Rightarrow> (line \<times> u8 list \<times> vga) option" where
  "line_key line_x line_y c ln str v =
     (if c = KEY_LEFT then
        (if ln_cursor ln > 0 then
           (let ln1 = ln\<lparr>ln_cursor := ln_cursor ln - 1\<rparr>
            in Some (ln1, str, vga_set_cursor (line_x + int (ln_cursor ln1)) line_y v))
         else Some (ln, str, v))
      else if c = KEY_RIGHT then
        (if ln_cursor ln < ln_len ln then
           (let ln1 = ln\<lparr>ln_cursor := ln_cursor ln + 1\<rparr>
            in Some (ln1, str, vga_set_cursor (line_x + int (ln_cursor ln1)) line_y v))
         else Some (ln, str, v))
      else if c = 8 then
        (if ln_cursor ln > 0 then
           (let str1 = fold (\<lambda>i t. t[i := t ! (i + 1)]) [ln_cursor ln - 1..<ln_len ln] str;
                ln1 = ln\<lparr>ln_len := ln_len ln - 1, ln_cursor := ln_cursor ln - 1\<rparr>
            in do { v1 \<leftarrow> input_redraw line_x line_y str1 (ln_len ln1) (ln_cursor ln1) (ln_max ln1) v;
                    Some (ln1, str1, v1) })
         else Some (ln, str, v))
      else if 32 \<le> c \<and> c < 127 \<and> ln_len ln < length str - 1 then
        (let str1 = fold (\<lambda>i t. t[i := t ! (i - 1)]) (rev [ln_cursor ln + 1..<ln_len ln + 1]) str;
             str2 = str1[ln_cursor ln := word_of_int c];
             len1 = ln_len ln + 1;
             ln1 = ln\<lparr>ln_len := len1, ln_cursor := ln_cursor ln + 1,
                      ln_max := (if len1 > ln_max ln then len1 else ln_max ln)\<rparr>
         in do { v1 \<leftarrow> input_redraw line_x line_y str2 (ln_len ln1) (ln_cursor ln1) (ln_max ln1) v;
                 Some (ln1, str2, v1) })
      else Some (ln, str, v))"

partial_function (option) get_string_loop ::
    "('a kconsole_scheme \<Rightarrow> 'a kconsole_scheme option) \<Rightarrow> ('a kconsole_scheme \<Rightarrow> 'a kconsole_scheme option) \<Rightarrow>
     int \<Rightarrow> int \<Rightarrow> line \<Rightarrow> 'a kconsole_scheme \<Rightarrow> (u8 list \<times> 'a kconsole_scheme) option" where
  "get_string_loop run irq line_x line_y ln s =
     do { (c, s1) \<leftarrow> keyboard_getchar run irq s;
          if c = 10 then
            do { let s2 = s1\<lparr>line_buf := (line_buf s1)[ln_len ln := 0]\<rparr>;
                 v \<leftarrow> vga_putchar 10 (vga_dev s2);
                 Some (line_buf s2, s2\<lparr>vga_dev := v\<rparr>) }
          else
            do { (ln1, str1, v1) \<leftarrow> line_key line_x line_y c ln (line_buf s1) (vga_dev s1);
                 get_string_loop run irq line_x line_y ln1 (s1\<lparr>line_buf := str1, vga_dev := v1\<rparr>) } }"

definition get_string ::
    "('a kconsole_scheme \<Rightarrow> 'a kconsole_scheme option) \<Rightarrow> ('a kconsole_scheme \<Rightarrow> 'a kconsole_scheme option) \<Rightarrow>
     'a kconsole_scheme \<Rightarrow> (u8 list \<times> 'a kconsole_scheme) option" where
  "get_string run irq s =
     (let (line_x, line_y) = vga_get_cursor (vga_dev s)
      in get_string_loop run irq line_x line_y \<lparr>ln_len = 0, ln_cursor = 0, ln_max = 0\<rparr> s)"

section \<open>The ring of keys is a bounded queue\<close>

definition keys_ok :: "'a kconsole_scheme \<Rightarrow> bool" where
  "keys_ok s \<longleftrightarrow> length (keyboard_buffer s) = 256 \<and> 0 \<le> buffer_head s \<and> buffer_head s < 256 \<and>
     0 \<le> buffer_tail s \<and> buffer_tail s < 256"

definition keys :: "'a kconsole_scheme \<Rightarrow> int list" where
  "keys s = ring (keyboard_buffer s) (nat (buffer_tail s)) (nat ((buffer_head s - buffer_tail s) mod 256))"

definition keyboard_take :: "'a kconsole_scheme \<Rightarrow> int \<times> 'a kconsole_scheme" where
  "keyboard_take s = (keyboard_buffer s ! nat (buffer_tail s), s\<lparr>buffer_tail := (buffer_tail s + 1) mod BUFFER_SIZE\<rparr>)"

lemma wake_slot_ring [simp]:
  "keyboard_buffer (wake_slot i s) = keyboard_buffer s" "buffer_head (wake_slot i s) = buffer_head s"
  "buffer_tail (wake_slot i s) = buffer_tail s" "shift_pressed (wake_slot i s) = shift_pressed s"
  "extended_scancode (wake_slot i s) = extended_scancode s" "kbd_data (wake_slot i s) = kbd_data s"
  "line_buf (wake_slot i s) = line_buf s" "vga_dev (wake_slot i s) = vga_dev s"
  for s :: "'a kconsole_scheme"
  by (simp_all add: wake_slot_def set_state_def on_task_def)

lemma wake_slots_ring:
  fixes s :: "'a kconsole_scheme"
  shows "keyboard_buffer (fold wake_slot is s) = keyboard_buffer s \<and> buffer_head (fold wake_slot is s) = buffer_head s \<and>
    buffer_tail (fold wake_slot is s) = buffer_tail s \<and> shift_pressed (fold wake_slot is s) = shift_pressed s \<and>
    extended_scancode (fold wake_slot is s) = extended_scancode s \<and> kbd_data (fold wake_slot is s) = kbd_data s \<and>
    line_buf (fold wake_slot is s) = line_buf s \<and> vga_dev (fold wake_slot is s) = vga_dev s"
  by (induction "is" arbitrary: s) auto

lemma wake_all_ring [simp]:
  fixes s :: "'a kconsole_scheme"
  shows "keyboard_buffer (sched_wake_all s) = keyboard_buffer s" "buffer_head (sched_wake_all s) = buffer_head s"
    "buffer_tail (sched_wake_all s) = buffer_tail s" "shift_pressed (sched_wake_all s) = shift_pressed s"
    "extended_scancode (sched_wake_all s) = extended_scancode s" "kbd_data (sched_wake_all s) = kbd_data s"
    "line_buf (sched_wake_all s) = line_buf s" "vga_dev (sched_wake_all s) = vga_dev s"
  unfolding sched_wake_all_def using wake_slots_ring [of _ s] by auto

lemma keys_count:
  assumes "keys_ok s"
  defines "n \<equiv> nat ((buffer_head s - buffer_tail s) mod 256)"
  shows "n < 256" and "(nat (buffer_tail s) + n) mod 256 = nat (buffer_head s)"
    and "(buffer_head s + 1) mod 256 = buffer_tail s \<longleftrightarrow> n = 255" and "buffer_head s = buffer_tail s \<longleftrightarrow> n = 0"
    and "n < 255 \<Longrightarrow> nat (((buffer_head s + 1) mod 256 - buffer_tail s) mod 256) = Suc n"
    and "0 < n \<Longrightarrow> nat ((buffer_head s - (buffer_tail s + 1) mod 256) mod 256) = n - 1"
proof -
  note b = assms(1) [unfolded keys_ok_def]
  have n: "n = nat (if buffer_tail s \<le> buffer_head s then buffer_head s - buffer_tail s else buffer_head s - buffer_tail s + 256)"
  proof (cases "buffer_tail s \<le> buffer_head s")
    case False
    have "(buffer_head s - buffer_tail s) mod 256 = (buffer_head s - buffer_tail s + 256) mod 256" by simp
    also have "\<dots> = buffer_head s - buffer_tail s + 256" using b False by (intro mod_pos_pos_trivial) auto
    finally show ?thesis using False by (simp add: n_def)
  qed (use b in \<open>simp add: n_def\<close>)
  have h: "(buffer_head s + 1) mod 256 = (if buffer_head s = 255 then 0 else buffer_head s + 1)"
    and t: "(buffer_tail s + 1) mod 256 = (if buffer_tail s = 255 then 0 else buffer_tail s + 1)" using b by auto
  have nat_shift: "nat (x + 256) mod 256 = nat x mod 256" if "0 \<le> x" for x :: int using that by (simp add: nat_add_distrib)
  show "n < 256" using n b by (auto split: if_splits)
  show "(nat (buffer_tail s) + n) mod 256 = nat (buffer_head s)"
    using n b by (cases "buffer_tail s \<le> buffer_head s") (auto simp: nat_add_distrib [symmetric] nat_shift)
  show "(buffer_head s + 1) mod 256 = buffer_tail s \<longleftrightarrow> n = 255" unfolding h n using b by auto
  show "buffer_head s = buffer_tail s \<longleftrightarrow> n = 0" unfolding n using b by auto
  have wrap: "nat (d mod 256) = nat (if 0 \<le> d then d else d + 256)" if "- 256 \<le> d" "d < 256" for d :: int
    using that mod_add_self2 [of d 256] by (auto simp: mod_pos_pos_trivial simp del: mod_add_self2)
  show "n < 255 \<Longrightarrow> nat (((buffer_head s + 1) mod 256 - buffer_tail s) mod 256) = Suc n"
    unfolding h using b by (subst wrap) (auto simp: n split: if_splits)
  show "0 < n \<Longrightarrow> nat ((buffer_head s - (buffer_tail s + 1) mod 256) mod 256) = n - 1"
    unfolding t using b by (subst wrap) (auto simp: n split: if_splits)
qed

lemma keys_push:
  assumes ok: "keys_ok s"
  shows "keys_ok (keyboard_push k s)" and "keys (keyboard_push k s) = (if length (keys s) < 255 then keys s @ [k] else keys s)"
proof -
  note c = keys_count [OF ok] and b = ok [unfolded keys_ok_def]
  let ?n = "nat ((buffer_head s - buffer_tail s) mod 256)"
  have len: "length (keys s) = ?n" by (simp add: keys_def)
  show "keys_ok (keyboard_push k s)" using b by (simp add: keyboard_push_def keys_ok_def Let_def)
  show "keys (keyboard_push k s) = (if length (keys s) < 255 then keys s @ [k] else keys s)"
  proof (cases "?n = 255")
    case True
    then show ?thesis using c(3) len by (simp add: keyboard_push_def Let_def)
  next
    case False
    then have n: "?n < 255" using c(1) by linarith
    have "keys (keyboard_push k s) = ring ((keyboard_buffer s)[nat (buffer_head s) := k]) (nat (buffer_tail s)) (Suc ?n)"
      using c(3,5) n False by (simp add: keyboard_push_def keys_def Let_def)
    then show ?thesis using ring_push [of ?n "keyboard_buffer s" "nat (buffer_tail s)" k] n b c(2) len
      by (simp add: keys_def)
  qed
qed

lemma keys_empty: "keys_ok s \<Longrightarrow> keys s \<noteq> [] \<longleftrightarrow> buffer_head s \<noteq> buffer_tail s"
  using keys_count(4) [of s] by (simp add: keys_def ring_def)

lemma keys_take:
  assumes ok: "keys_ok s" and "keys s \<noteq> []"
  shows "keys_ok (snd (keyboard_take s))" and "keys s = fst (keyboard_take s) # keys (snd (keyboard_take s))"
proof -
  note c = keys_count [OF ok] and b = ok [unfolded keys_ok_def]
  let ?n = "nat ((buffer_head s - buffer_tail s) mod 256)"
  have n: "0 < ?n" using keys_empty [OF ok] assms(2) c(4) by simp
  show "keys_ok (snd (keyboard_take s))" using b by (simp add: keyboard_take_def keys_ok_def)
  have t: "nat ((buffer_tail s + 1) mod 256) = (nat (buffer_tail s) + 1) mod 256"
    using b by (simp add: nat_mod_distrib nat_add_distrib)
  have tl: "nat (buffer_tail s) < length (keyboard_buffer s)" using b by auto
  show "keys s = fst (keyboard_take s) # keys (snd (keyboard_take s))"
    using ring_pop [OF tl, of "?n - 1"] b n c(6) t
    by (simp add: keyboard_take_def keys_def)
qed

interpretation keyq: bounded_queue keyboard_push keyboard_take keys 255 keys_ok
proof unfold_locales
  fix s :: "'a kconsole_scheme" and k
  assume ok: "keys_ok s"
  show "keys_ok (keyboard_push k s)" using keys_push [OF ok] by simp
  show "keys s \<noteq> [] \<Longrightarrow> keys_ok (snd (keyboard_take s))" using keys_take [OF ok] by simp
  show "length (keys s) \<le> 255" using keys_count(1) [OF ok] by (simp add: keys_def)
  show "keys (keyboard_push k s) = (if length (keys s) < 255 then keys s @ [k] else keys s)" using keys_push [OF ok] by simp
  show "keys s \<noteq> [] \<Longrightarrow> keys s = fst (keyboard_take s) # keys (snd (keyboard_take s))" using keys_take [OF ok] by simp
qed

section \<open>Typing\<close>

text \<open>The scancodes of the key of a character: its position in one of the two tables, made and broken, with the
  left shift key around it for the second table.\<close>

fun index_of :: "u8 \<Rightarrow> u8 list \<Rightarrow> nat" where
  "index_of c [] = 0"
| "index_of c (d # ds) = (if c = d then 0 else Suc (index_of c ds))"

definition key_strokes :: "u8 \<Rightarrow> u8 list" where
  "key_strokes c =
     (if c \<in> set kbd_us_map then (let i = of_nat (index_of c kbd_us_map) in [i, i OR 0x80])
      else (let i = of_nat (index_of c kbd_us_shift_map) in [LSHIFT_MAKE, i, i OR 0x80, LSHIFT_BREAK]))"

definition typeable :: "u8 \<Rightarrow> bool" where
  "typeable c \<longleftrightarrow> c \<noteq> 0 \<and> (c \<in> set kbd_us_map \<or> c \<in> set kbd_us_shift_map)"

lemma push_flags [simp]:
  "shift_pressed (keyboard_push k s) = shift_pressed s" "extended_scancode (keyboard_push k s) = extended_scancode s"
  "kbd_data (keyboard_push k s) = kbd_data s" "vga_dev (keyboard_push k s) = vga_dev s" "line_buf (keyboard_push k s) = line_buf s"
  by (simp_all add: keyboard_push_def Let_def)

text \<open>What the two codes of a key do, for the codes that are neither prefixes nor shift keys.\<close>

definition plain_code :: "u8 \<Rightarrow> bool" where
  "plain_code i \<longleftrightarrow> i AND 0x80 = 0 \<and> i \<noteq> 0x2A \<and> i \<noteq> 0x36 \<and> (i OR 0x80) AND 0x80 \<noteq> 0 \<and> i OR 0x80 \<notin> {0xE0, 0xE1, 0xAA, 0xB6, 0x2A, 0x36} \<and>
      i \<notin> {0xE0, 0xE1, 0xAA, 0xB6}"

lemma kbd_maps [code]:
  "kbd_us_map =
     [0, 27, 49, 50, 51, 52, 53, 54, 55, 56, 57, 48, 45, 61, 8, 9, 113, 119, 101, 114, 116, 121,
      117, 105, 111, 112, 91, 93, 10, 0, 97, 115, 100, 102, 103, 104, 106, 107, 108, 59, 39, 96, 0,
      92, 122, 120, 99, 118, 98, 110, 109, 44, 46, 47, 0, 42, 0, 32] @
     replicate 17 0 @ [45, 0, 0, 0, 43] @ replicate 48 0"
  "kbd_us_shift_map =
     [0, 27, 33, 64, 35, 36, 37, 94, 38, 42, 40, 41, 95, 43, 8, 9, 81, 87, 69, 82, 84, 89, 85, 73,
      79, 80, 123, 125, 10, 0, 65, 83, 68, 70, 71, 72, 74, 75, 76, 58, 34, 126, 0, 124, 90, 88, 67,
      86, 66, 78, 77, 60, 62, 63, 0, 42, 0, 32] @
     replicate 17 0 @ [45, 0, 0, 0, 43] @ replicate 48 0"
  by (simp_all add: kbd_us_map_def kbd_us_shift_map_def lit_def of_char_def replicate_add [symmetric] numeral_eq_Suc)

lemma map_codes: "list_all (\<lambda>i. kbd_us_map ! i \<noteq> 0 \<or> kbd_us_shift_map ! i \<noteq> 0 \<longrightarrow> plain_code (of_nat i)) [0..<128]"
  by code_simp

lemma index_of_nth: "c \<in> set m \<Longrightarrow> index_of c m < length m \<and> m ! index_of c m = c"
  by (induction m) auto

lemma typeable_strokes:
  assumes "c \<noteq> 0" and "c \<in> set m" and m: "m = kbd_us_map \<or> m = kbd_us_shift_map"
  shows "plain_code (of_nat (index_of c m))" and "unat (of_nat (index_of c m) :: u8) = index_of c m" and "m ! index_of c m = c"
proof -
  have "length m = 128" using m by (auto simp: kbd_maps)
  then have i: "index_of c m < 128" "m ! index_of c m = c" using index_of_nth [OF assms(2)] by simp_all
  then have "index_of c m \<in> set [0..<128]" by simp
  then show "plain_code (of_nat (index_of c m))" using map_codes m i(2) assms(1) unfolding list_all_iff by (elim disjE) force+
  show "unat (of_nat (index_of c m) :: u8) = index_of c m" using i(1) by (simp add: unsigned_of_nat take_bit_nat_eq_self)
  show "m ! index_of c m = c" by (rule i(2))
qed

lemma shift_wake: "wake_slot i (s\<lparr>shift_pressed := b\<rparr>) = (wake_slot i s)\<lparr>shift_pressed := b\<rparr>"
  for s :: "'a kconsole_scheme"
  by (simp add: wake_slot_def set_state_def on_task_def)

lemma shift_wake_all: "sched_wake_all (s\<lparr>shift_pressed := b\<rparr>) = (sched_wake_all s)\<lparr>shift_pressed := b\<rparr>"
  for s :: "'a kconsole_scheme"
proof -
  have "fold wake_slot is (s\<lparr>shift_pressed := b\<rparr>) = (fold wake_slot is s)\<lparr>shift_pressed := b\<rparr>" for "is"
    by (induction "is" arbitrary: s) (simp_all add: shift_wake)
  then show ?thesis by (simp add: sched_wake_all_def)
qed

lemma shift_push: "keyboard_push k (s\<lparr>shift_pressed := b\<rparr>) = (keyboard_push k s)\<lparr>shift_pressed := b\<rparr>"
proof -
  let ?t = "s\<lparr>keyboard_buffer := (keyboard_buffer s)[nat (buffer_head s) := k], buffer_head := (buffer_head s + 1) mod BUFFER_SIZE\<rparr>"
  have "s\<lparr>shift_pressed := b, keyboard_buffer := (keyboard_buffer s)[nat (buffer_head s) := k],
      buffer_head := (buffer_head s + 1) mod BUFFER_SIZE\<rparr> = ?t\<lparr>shift_pressed := b\<rparr>" by (rule kconsole.equality) simp_all
  then have "sched_wake_all (s\<lparr>shift_pressed := b, keyboard_buffer := (keyboard_buffer s)[nat (buffer_head s) := k],
      buffer_head := (buffer_head s + 1) mod BUFFER_SIZE\<rparr>) = (sched_wake_all ?t)\<lparr>shift_pressed := b\<rparr>"
    by (simp only: shift_wake_all)
  then show ?thesis by (simp add: keyboard_push_def Let_def)
qed

lemma shift_same: "\<not> shift_pressed s \<Longrightarrow> s\<lparr>shift_pressed := False\<rparr> = s"
  by (rule kconsole.equality) simp_all

lemma type_key:
  assumes "typeable c" and s: "\<not> extended_scancode s" "\<not> shift_pressed s"
  shows "fold keyboard_handle_scancode (key_strokes c) s = keyboard_push (uint c) s"
proof (cases "c \<in> set kbd_us_map")
  case True
  then show ?thesis
    using s assms(1) typeable_strokes [of c kbd_us_map]
    by (simp add: typeable_def key_strokes_def Let_def keyboard_handle_scancode_def plain_code_def)
next
  case False
  then show ?thesis
    using s assms(1) typeable_strokes [of c kbd_us_shift_map]
    by (simp add: typeable_def key_strokes_def Let_def keyboard_handle_scancode_def plain_code_def shift_push shift_same)
qed

lemma keys_kbd_data [simp]: "keys (s\<lparr>kbd_data := d\<rparr>) = keys s" "keys_ok (s\<lparr>kbd_data := d\<rparr>) = keys_ok s"
  by (simp_all add: keys_def keys_ok_def)

lemma type_keys:
  "list_all typeable msg \<Longrightarrow> \<not> extended_scancode s \<Longrightarrow> \<not> shift_pressed s \<Longrightarrow>
     fold keyboard_handle_scancode (concat (map key_strokes msg)) s = keyq.pushes (map uint msg) s"
  by (induction msg arbitrary: s) (simp_all add: type_key)

lemma pushes_flags [simp]:
  "shift_pressed (keyq.pushes ks s) = shift_pressed s" "extended_scancode (keyq.pushes ks s) = extended_scancode s"
  "kbd_data (keyq.pushes ks s) = kbd_data s" "vga_dev (keyq.pushes ks s) = vga_dev s" "line_buf (keyq.pushes ks s) = line_buf s"
  by (induction ks arbitrary: s) simp_all


definition console_example :: kconsole where
  "console_example = ksched.extend (ksched.truncate sched_example) (kconsole.fields
     \<lparr>vmem = replicate 2000 0x8f20, cursor_x = 0, cursor_y = 0, current_color = 0x8f, hw_cursor = 0, debugcon = []\<rparr>
     False False (replicate 256 0) 250 250 [] (replicate 1024 0))"

lemma console_example_simps:
  "keyboard_buffer console_example = replicate 256 0" "buffer_head console_example = 250" "buffer_tail console_example = 250"
  "\<not> shift_pressed console_example" "\<not> extended_scancode console_example" "kbd_data console_example = []"
  "line_buf console_example = replicate 1024 0"
  "vga_dev console_example = \<lparr>vmem = replicate 2000 0x8f20, cursor_x = 0, cursor_y = 0, current_color = 0x8f, hw_cursor = 0, debugcon = []\<rparr>"
  by (simp_all add: console_example_def ksched.defs kconsole.defs)

lemma console_example_ok: "keys_ok console_example" "keys console_example = []"
  by (simp_all add: keys_ok_def keys_def console_example_simps)


section \<open>Waiting for keys and editing a line\<close>

lemma poll_nothing: "kbd_data s = [] \<Longrightarrow> keyboard_poll s = s"
proof -
  assume "kbd_data s = []"
  then have "s\<lparr>kbd_data := []\<rparr> = s" by (intro kconsole.equality) simp_all
  then show ?thesis using \<open>kbd_data s = []\<close> by (simp add: keyboard_poll_def)
qed

text \<open>A key that waits is returned at once, without blocking.\<close>

lemma getchar_ready:
  assumes "keys_ok s" and "keys s = k # ks" and "kbd_data s = []"
  obtains s' where "keyboard_getchar run irq s = Some (k, s')" and "keys_ok s'" and "keys s' = ks" and "kbd_data s' = []"
    and "vga_dev s' = vga_dev s" and "line_buf s' = line_buf s"
proof -
  have ne: "keys s \<noteq> []" using assms(2) by simp
  then have "getchar_wait run irq s = Some s"
    using keys_empty [OF assms(1)] poll_nothing [OF assms(3)] getchar_wait.simps [of run irq s]
    by (simp add: keyboard_haschar_def)
  then have "keyboard_getchar run irq s = Some (keyboard_take s)" by (simp add: keyboard_getchar_def keyboard_take_def)
  moreover have "keys_ok (snd (keyboard_take s))" "k # ks = fst (keyboard_take s) # keys (snd (keyboard_take s))"
    using keys_take [OF assms(1) ne] assms(2) by simp_all
  ultimately show thesis using that [of "snd (keyboard_take s)"] assms(3) by (cases "keyboard_take s") (auto simp: keyboard_take_def)
qed

text \<open>The line as the text before and behind the cursor.\<close>

fun edit_key :: "int \<Rightarrow> u8 list \<times> u8 list \<Rightarrow> u8 list \<times> u8 list" where
  "edit_key c (before, behind) =
     (if c = KEY_LEFT then (if before = [] then (before, behind) else (butlast before, last before # behind))
      else if c = KEY_RIGHT then
        (case behind of [] \<Rightarrow> (before, behind) | b # rest \<Rightarrow> (before @ [b], rest))
      else if c = 8 then (butlast before, behind)
      else if 32 \<le> c \<and> c < 127 \<and> length before + length behind < 1023 then (before @ [word_of_int c], behind)
      else (before, behind))"

definition shows_line :: "line \<Rightarrow> u8 list \<Rightarrow> u8 list \<times> u8 list \<Rightarrow> bool" where
  "shows_line ln str bb \<longleftrightarrow> length str = 1024 \<and> ln_len ln = length (fst bb) + length (snd bb) \<and> ln_len ln \<le> 1023 \<and>
     ln_cursor ln = length (fst bb) \<and> take (ln_len ln) str = fst bb @ snd bb"

lemma set_cursor_screen:
  "screen v t \<Longrightarrow> \<exists>t'. screen (vga_set_cursor x y v) t'"
proof -
  assume s: "screen v t"
  let ?x = "nat (if x < 0 then 0 else if 80 \<le> x then 79 else x)" and ?y = "nat (if y < 0 then 0 else if 25 \<le> y then 24 else y)"
  have "screen (vga_set_cursor x y v) (t\<lparr>t_x := ?x, t_y := ?y\<rparr>)"
    using s hw_position [of ?y ?x] by (auto simp: screen_def vga_set_cursor_def vga_update_hardware_cursor_def Let_def)
  then show ?thesis by blast
qed

lemma redraw_screen:
  assumes "screen v t"
  shows "\<exists>v' t'. input_redraw x y str len cursor clear v = Some v' \<and> screen v' t'"
proof -
  obtain t1 where 1: "screen (vga_set_cursor x y v) t1" using set_cursor_screen [OF assms] by blast
  obtain v2 t2 where 2: "vga_puts (take len str) (vga_set_cursor x y v) = Some v2" "screen v2 t2" using puts_screen [OF 1] by blast
  obtain v3 t3 where 3: "vga_puts (replicate (clear - len) 32) v2 = Some v3" "screen v3 t3" using puts_screen [OF 2(2)] by blast
  obtain t4 where "screen (vga_set_cursor (x + int cursor) y v3) t4" using set_cursor_screen [OF 3(2)] by blast
  then show ?thesis using 2 3 by (auto simp: input_redraw_def)
qed

lemma shift_down:
  "a \<le> n \<Longrightarrow> n < length str \<Longrightarrow>
     fold (\<lambda>i t. t[i := t ! (i + 1)]) [a..<n] str = map (\<lambda>j. if a \<le> j \<and> j < n then str ! (j + 1) else str ! j) [0..<length str]"
proof (induction n)
  case (Suc n)
  let ?f = "\<lambda>i t. t[i := t ! (i + 1)]" and ?g = "\<lambda>n. map (\<lambda>j. if a \<le> j \<and> j < n then str ! (j + 1) else str ! j) [0..<length str]"
  show ?case
  proof (cases "a = Suc n")
    case True
    then have "?g (Suc n) = str" by (intro nth_equalityI) auto
    then show ?thesis using True by simp
  next
    case False
    then have a: "a \<le> n" using Suc.prems by simp
    have "?f n (?g n) = ?g (Suc n)"
      by (rule nth_equalityI) (use a Suc.prems in \<open>auto simp: nth_list_update less_Suc_eq\<close>)
    then show ?thesis using Suc.IH [OF a] Suc.prems a by simp
  qed
next
  case 0
  have "map ((!) str) [0..<length str] = str" by (rule map_nth)
  then show ?case using 0 by simp
qed

lemma shift_up:
  "c \<le> n \<Longrightarrow> n < length str \<Longrightarrow>
     fold (\<lambda>i t. t[i := t ! (i - 1)]) (rev [c + 1..<n + 1]) str = map (\<lambda>j. if c < j \<and> j \<le> n then str ! (j - 1) else str ! j) [0..<length str]"
proof (induction n arbitrary: str)
  case (Suc n)
  let ?f = "\<lambda>i t. t[i := t ! (i - 1)]"
  show ?case
  proof (cases "c = Suc n")
    case True
    then have "map (\<lambda>j. if c < j \<and> j \<le> Suc n then str ! (j - 1) else str ! j) [0..<length str] = str"
      by (intro nth_equalityI) auto
    then show ?thesis using True by simp
  next
    case False
    then have c: "c \<le> n" using Suc.prems by simp
    let ?str = "str[Suc n := str ! n]"
    have "rev [c + 1..<Suc n + 1] = Suc n # rev [c + 1..<n + 1]" using c by simp
    then have "fold ?f (rev [c + 1..<Suc n + 1]) str = fold ?f (rev [c + 1..<n + 1]) ?str" by simp
    also have "\<dots> = map (\<lambda>j. if c < j \<and> j \<le> n then ?str ! (j - 1) else ?str ! j) [0..<length str]"
      using Suc.IH [OF c, of ?str] Suc.prems by simp
    also have "\<dots> = map (\<lambda>j. if c < j \<and> j \<le> Suc n then str ! (j - 1) else str ! j) [0..<length str]"
      by (rule nth_equalityI) (use c Suc.prems in \<open>auto simp: nth_list_update\<close>)
    finally show ?thesis .
  qed
next
  case 0
  then show ?case by (intro nth_equalityI) auto
qed

lemma delete_line:
  assumes "take n str = before @ c # behind" and "n = Suc (length before + length behind)" and "n < length str"
  defines "str1 \<equiv> fold (\<lambda>i t. t[i := t ! (i + 1)]) [length before..<n] str"
  shows "take (n - 1) str1 = before @ behind" and "length str1 = length str"
proof -
  have s: "str1 = map (\<lambda>j. if length before \<le> j \<and> j < n then str ! (j + 1) else str ! j) [0..<length str]"
    unfolding str1_def by (rule shift_down) (use assms(2,3) in simp_all)
  then show "length str1 = length str" by simp
  have nth: "str ! j = (before @ c # behind) ! j" if "j < n" for j using that assms(1) by (metis nth_take)
  show "take (n - 1) str1 = before @ behind"
    by (rule nth_equalityI) (use assms(2,3) s nth in \<open>auto simp: nth_append\<close>)
qed

lemma insert_line:
  fixes c :: u8
  assumes "take n str = before @ behind" and "n = length before + length behind" and "n < length str"
  defines "str1 \<equiv> (fold (\<lambda>i t. t[i := t ! (i - 1)]) (rev [length before + 1..<n + 1]) str)[length before := c]"
  shows "take (n + 1) str1 = before @ c # behind" and "length str1 = length str"
proof -
  have s: "str1 = (map (\<lambda>j. if length before < j \<and> j \<le> n then str ! (j - 1) else str ! j) [0..<length str])[length before := c]"
    unfolding str1_def by (subst shift_up) (use assms(2,3) in simp_all)
  then show "length str1 = length str" by simp
  have nth: "str ! j = (before @ behind) ! j" if "j < n" for j using that assms(1) by (metis nth_take)
  show "take (n + 1) str1 = before @ c # behind"
    by (rule nth_equalityI) (use assms(2,3) s nth in \<open>auto simp: nth_append nth_list_update nth_Cons' not_less\<close>)
qed

lemma line_key_edits:
  assumes l: "shows_line ln str bb" and v: "screen v t"
  shows "\<exists>ln1 str1 v1 t1. line_key x y c ln str v = Some (ln1, str1, v1) \<and> shows_line ln1 str1 (edit_key c bb) \<and> screen v1 t1"
proof -
  obtain before behind where bb: "bb = (before, behind)" by fastforce
  note d = l [unfolded shows_line_def bb fst_conv snd_conv]
  have cur: "\<exists>t1. screen (vga_set_cursor a y v) t1" for a by (rule set_cursor_screen [OF v])
  have redraw: "\<exists>v1 t1. input_redraw x y str1 n m k v = Some v1 \<and> screen v1 t1" for str1 n m k by (rule redraw_screen [OF v])
  consider "c = KEY_LEFT" | "c = KEY_RIGHT" | "c = 8" | "32 \<le> c" "c < 127" | "c \<noteq> KEY_LEFT" "c \<noteq> KEY_RIGHT" "c \<noteq> 8" "\<not> (32 \<le> c \<and> c < 127)"
    by blast
  then show ?thesis
  proof cases
    case 1
    then show ?thesis using d bb cur v l
      by (cases before rule: rev_cases) (auto simp: line_key_def shows_line_def Let_def)
  next
    case 2
    then show ?thesis using d bb cur v l
      by (cases behind) (auto simp: line_key_def shows_line_def Let_def)
  next
    case 3
    show ?thesis
    proof (cases before rule: rev_cases)
      case Nil
      then show ?thesis using 3 d bb v l by (auto simp: line_key_def)
    next
      case (snoc b0 b)
      have e: "take (ln_len ln) str = b0 @ b # behind" "ln_len ln = Suc (length b0 + length behind)" "ln_len ln < length str"
        using d snoc by auto
      obtain v1 t1 where "input_redraw x y (fold (\<lambda>i t. t[i := t ! (i + 1)]) [length b0..<ln_len ln] str)
          (ln_len ln - 1) (length b0) (ln_max ln) v = Some v1" "screen v1 t1" using redraw by blast
      then show ?thesis using 3 d bb snoc delete_line [OF e]
        by (auto simp: line_key_def shows_line_def Let_def)
    qed
  next
    case 4
    show ?thesis
    proof (cases "ln_len ln < 1023")
      case True
      have e: "take (ln_len ln) str = before @ behind" "ln_len ln = length before + length behind" "ln_len ln < length str"
        using d True by auto
      let ?str = "(fold (\<lambda>i t. t[i := t ! (i - 1)]) (rev [length before + 1..<ln_len ln + 1]) str)[length before := word_of_int c]"
      obtain v1 t1 where "input_redraw x y ?str (ln_len ln + 1) (length before + 1)
          (if ln_len ln + 1 > ln_max ln then ln_len ln + 1 else ln_max ln) v = Some v1" "screen v1 t1" using redraw by blast
      then show ?thesis using 4 d bb True insert_line [OF e, of "word_of_int c"]
        by (auto simp: line_key_def shows_line_def Let_def)
    next
      case False
      then show ?thesis using 4 d bb v l by (auto simp: line_key_def)
    qed
  next
    case 5
    then show ?thesis using bb v l by (auto simp: line_key_def)
  qed
qed

lemma get_string_loop_edits:
  "keys_ok s \<Longrightarrow> kbd_data s = [] \<Longrightarrow> keys s = ks @ 10 # rest \<Longrightarrow> 10 \<notin> set ks \<Longrightarrow> shows_line ln (line_buf s) bb \<Longrightarrow>
     screen (vga_dev s) t \<Longrightarrow>
     \<exists>str s'. get_string_loop run irq x y ln s = Some (str, s') \<and> keys s' = rest \<and> keys_ok s' \<and> length str = 1024 \<and>
       (let (before, behind) = fold edit_key ks bb in take (length before + length behind + 1) str = before @ behind @ [0])"
proof (induction ks arbitrary: s ln bb t)
  case Nil
  obtain s1 where s1: "keyboard_getchar run irq s = Some (10, s1)" "keys_ok s1" "keys s1 = rest" "kbd_data s1 = []"
    "vga_dev s1 = vga_dev s" "line_buf s1 = line_buf s"
    by (rule getchar_ready [OF Nil(1) Nil(3) [unfolded append_Nil] Nil(2)]) blast
  obtain v where v: "vga_putchar 10 (vga_dev s) = Some v" using putchar_screen [OF Nil(6)] by blast
  obtain before behind where bb: "bb = (before, behind)" by fastforce
  note d = Nil(5) [unfolded shows_line_def bb fst_conv snd_conv]
  have "take (Suc (ln_len ln)) ((line_buf s)[ln_len ln := 0]) = (before @ behind) @ [0]"
  proof -
    have "take (Suc n) (L[n := 0]) = take n L @ [0 :: u8]" if "n < length L" for n and L :: "u8 list"
      using that by (simp add: take_Suc_conv_app_nth)
    then show ?thesis using d by force
  qed
  moreover have "keys (s1\<lparr>line_buf := B, vga_dev := v\<rparr>) = keys s1" "keys_ok (s1\<lparr>line_buf := B, vga_dev := v\<rparr>) = keys_ok s1" for B
    by (simp_all add: keys_def keys_ok_def)
  ultimately show ?case using s1 v d bb get_string_loop.simps [of run irq x y ln s] by simp
next
  case (Cons k ks)
  obtain s1 where s1: "keyboard_getchar run irq s = Some (k, s1)" "keys_ok s1" "keys s1 = ks @ 10 # rest" "kbd_data s1 = []"
    "vga_dev s1 = vga_dev s" "line_buf s1 = line_buf s"
    by (rule getchar_ready [OF Cons(2) Cons(4) [unfolded append_Cons] Cons(3)]) blast
  obtain ln1 str1 v1 t1 where k: "line_key x y k ln (line_buf s) (vga_dev s) = Some (ln1, str1, v1)"
    "shows_line ln1 str1 (edit_key k bb)" "screen v1 t1" using line_key_edits [OF Cons(6,7)] by blast
  let ?s = "s1\<lparr>line_buf := str1, vga_dev := v1\<rparr>"
  have s: "keys ?s = keys s1" "keys_ok ?s = keys_ok s1" by (simp_all add: keys_def keys_ok_def)
  have "\<exists>str s'. get_string_loop run irq x y ln1 ?s = Some (str, s') \<and> keys s' = rest \<and> keys_ok s' \<and> length str = 1024 \<and>
      (let (before, behind) = fold edit_key ks (edit_key k bb) in take (length before + length behind + 1) str = before @ behind @ [0])"
    by (rule Cons.IH [of ?s _ _ t1]) (use Cons(5) s s1 k in simp_all)
  then show ?case using s1 k Cons(5) get_string_loop.simps [of run irq x y ln s] by simp
qed



text \<open>The keypad entries of the tables stand one place too far: the minus key of the keypad, scancode 0x4A,
  gives nothing, and the key 4 beside it gives a minus.\<close>

lemma keypad_minus_misplaced: "kbd_us_map ! 0x4A = 0 \<and> kbd_us_map ! 0x4B = 45 \<and> kbd_us_map ! 0x4E = 0 \<and> kbd_us_map ! 0x4F = 43"
  by (simp add: kbd_maps nth_append)

end
