(* ===== verification/UserMem.thy ===== *)
theory UserMem
  imports Kept
begin

text \<open>
  Access to user memory in \<^verbatim>\<open>core/syscall.c\<close>: the check of a user address, the copies in both directions and
  the bounded copy of a string.  The kernel follows the user's pointer through the current page tables,
  so that an unmapped byte is a page fault in the kernel (\<open>None\<close>: \<^verbatim>\<open>page_fault_handler\<close> halts).  The
  check lets addresses of the kernel heap pass; its blocks are not bytes of the modelled memory, and
  an access to that range is \<open>None\<close> as well.
\<close>

definition USER_ADDR_MIN :: u64 where [simp]: "USER_ADDR_MIN = 0x400000"
definition USER_ADDR_MAX :: u64 where [simp]: "USER_ADDR_MAX = 0x7FFFFFFFF"

definition user_ptr_ok :: "u64 \<Rightarrow> u64 \<Rightarrow> bool" where
  "user_ptr_ok addr len \<longleftrightarrow>
     \<not> (addr < USER_ADDR_MIN \<or> addr > USER_ADDR_MAX) \<and> \<not> len > USER_ADDR_MAX - addr"

text \<open>The range meets the kernel heap.\<close>

definition heap_range :: "u64 \<Rightarrow> nat \<Rightarrow> bool" where
  "heap_range addr n \<longleftrightarrow> unat addr < 0x50000000 \<and> 0x10000000 < unat addr + n"

definition user_read :: "u64 \<Rightarrow> nat \<Rightarrow> 'a kpaging_scheme \<Rightarrow> u8 list option" where
  "user_read addr n s = (if heap_range addr n then None else virt_read s addr n)"

definition user_write :: "u64 \<Rightarrow> u8 list \<Rightarrow> 'a kpaging_scheme \<Rightarrow> 'a kpaging_scheme option" where
  "user_write addr bs s = (if heap_range addr (length bs) then None else virt_write addr bs s)"

text \<open>The status, and the bytes copied.\<close>

definition copy_from_user :: "u64 \<Rightarrow> u64 \<Rightarrow> 'a kpaging_scheme \<Rightarrow> (int \<times> u8 list) option" where
  "copy_from_user uaddr len s =
     (if \<not> user_ptr_ok uaddr len then Some (- 1, [])
      else do { bs \<leftarrow> user_read uaddr (unat len) s; Some (0, bs) })"

definition copy_to_user :: "u64 \<Rightarrow> u8 list \<Rightarrow> 'a kpaging_scheme \<Rightarrow> (int \<times> 'a kpaging_scheme) option" where
  "copy_to_user uaddr kbuf s =
     (if \<not> user_ptr_ok uaddr (of_nat (length kbuf)) then Some (- 1, s)
      else do { s1 \<leftarrow> user_write uaddr kbuf s; Some (0, s1) })"

text \<open>The rounds of the loop of \<^verbatim>\<open>copy_str_from_user\<close>, \<open>n\<close> of them left; the string on success.\<close>

fun copy_str_loop :: "nat \<Rightarrow> u64 \<Rightarrow> 'a kpaging_scheme \<Rightarrow> (int \<times> u8 list) option" where
  "copy_str_loop 0 uaddr s = Some (- 1, [])"
| "copy_str_loop (Suc n) uaddr s =
     do { (r, bs) \<leftarrow> copy_from_user uaddr 1 s;
          if r \<noteq> 0 then Some (- 1, [])
          else if bs = [0] then Some (0, [])
          else do { (r2, rest) \<leftarrow> copy_str_loop n (uaddr + 1) s; Some (r2, bs @ rest) } }"

definition copy_str_from_user :: "u64 \<Rightarrow> nat \<Rightarrow> 'a kpaging_scheme \<Rightarrow> (int \<times> u8 list) option" where
  "copy_str_from_user uaddr kbuf_len s =
     (if kbuf_len = 0 then Some (- 1, []) else copy_str_loop (kbuf_len - 1) uaddr s)"

text \<open>An array of at most \<open>n\<close> strings ended by a null pointer; the strings before it.\<close>

fun copy_array_loop :: "nat \<Rightarrow> u64 \<Rightarrow> 'a kpaging_scheme \<Rightarrow> (int \<times> u8 list list) option" where
  "copy_array_loop 0 uargv s = Some (- 1, [])"
| "copy_array_loop (Suc n) uargv s =
     do { (r, bs) \<leftarrow> copy_from_user uargv 8 s;
          if r \<noteq> 0 then Some (- 1, [])
          else if le_val bs = 0 then Some (0, [])
          else
            do { (r1, str) \<leftarrow> copy_str_from_user (of_nat (le_val bs)) 256 s;
                 if r1 \<noteq> 0 then Some (- 1, [])
                 else do { (r2, rest) \<leftarrow> copy_array_loop n (uargv + 8) s; Some (r2, str # rest) } } }"

definition copy_user_string_array :: "u64 \<Rightarrow> nat \<Rightarrow> 'a kpaging_scheme \<Rightarrow> (int \<times> u8 list list) option" where
  "copy_user_string_array uargv len s = copy_array_loop (len - 1) uargv s"

section \<open>What is checked\<close>

lemma virt_read_length: "virt_read s v n = Some bs \<Longrightarrow> length bs = n"
  by (induction n arbitrary: v bs) (auto split: Option.bind_splits)

lemma copy_from_user_length: "copy_from_user a n s = Some (0, bs) \<Longrightarrow> length bs = unat n"
  by (auto simp: copy_from_user_def user_read_def dest: virt_read_length split: if_splits Option.bind_splits)

text \<open>A range that passes the check lies between the two limits and does not wrap.\<close>

lemma user_ptr_range:
  "user_ptr_ok addr len \<longleftrightarrow> 0x400000 \<le> unat addr \<and> unat addr + unat len \<le> 0x7FFFFFFFF"
proof -
  have "len > USER_ADDR_MAX - addr \<longleftrightarrow> 0x7FFFFFFFF < unat addr + unat len" if "addr \<le> USER_ADDR_MAX"
    using that by (auto simp: word_less_nat_alt word_le_nat_alt unat_sub_le)
  then show ?thesis by (auto simp: user_ptr_ok_def word_less_nat_alt word_le_nat_alt not_less)
qed

lemma copy_to_user_more: "copy_to_user a bs s = Some (r, s') \<Longrightarrow> kpaging.more s' = kpaging.more s"
  by (auto simp: copy_to_user_def user_write_def dest: virt_write_more split: if_splits Option.bind_splits)

text \<open>A string that is copied in is short enough for its buffer and has no zero byte.\<close>

lemma copy_str_loop_ok: "copy_str_loop n a s = Some (0, str) \<Longrightarrow> length str < n \<and> 0 \<notin> set str"
proof (induction n arbitrary: a str)
  case (Suc n)
  from Suc.prems obtain bs where bs: "copy_from_user a 1 s = Some (0, bs)"
    by (auto split: Option.bind_splits if_splits)
  have "length bs = 1" using copy_from_user_length [OF bs] by simp
  then obtain c where c: "bs = [c]" by (cases bs) auto
  show ?case
  proof (cases "c = 0")
    case False
    then obtain rest where "copy_str_loop n (a + 1) s = Some (0, rest)" "str = c # rest"
      using Suc.prems bs c by (auto split: Option.bind_splits)
    then show ?thesis using Suc.IH False by auto
  qed (use Suc.prems bs c in auto)
qed simp

lemma copy_str_ok: "copy_str_from_user a n s = Some (0, str) \<Longrightarrow> Suc (length str) < n \<and> 0 \<notin> set str"
  using copy_str_loop_ok [of "n - 1" a s str] by (auto simp: copy_str_from_user_def split: if_splits)

end
