(* ===== verification/Fds.thy ===== *)
theory Fds
  imports Proc UserMem
begin

text \<open>
  The descriptor layer of \<^verbatim>\<open>core/syscall.c\<close>: allocating, looking up, duplicating and closing descriptors,
  opening files and creating pipes.  The second half shows who owns what: every descriptor of a task has an
  open file of its own on the heap, and a pipe that an open file refers to is in use.
\<close>

section \<open>Operations\<close>

definition E_NOENT :: int where [simp]: "E_NOENT = 2"
definition E_BADF :: int where [simp]: "E_BADF = 9"
definition E_CHLD :: int where [simp]: "E_CHLD = 10"
definition E_NOMEM :: int where [simp]: "E_NOMEM = 12"
definition E_ACCES :: int where [simp]: "E_ACCES = 13"
definition E_FAULT :: int where [simp]: "E_FAULT = 14"
definition E_NOTDIR :: int where [simp]: "E_NOTDIR = 20"
definition E_INVAL :: int where [simp]: "E_INVAL = 22"
definition E_NOSYS :: int where [simp]: "E_NOSYS = 38"
definition EPIPE :: int where [simp]: "EPIPE = 32"

definition blank_file :: vfs_file where
  "blank_file = \<lparr>vf_inode = 0, vf_pos = 0, vf_path = [], vf_pipe = None, vf_pipe_end = - 1\<rparr>"

text \<open>The descriptor, -1 on failure, and the address stored through \<^verbatim>\<open>out\<close>.\<close>

definition fd_alloc :: "'a kproc_scheme \<Rightarrow> (int \<times> u64 \<times> 'a kproc_scheme) option" where
  "fd_alloc s =
     (case find (\<lambda>i. p_fds (cur s) ! i = 0) [0..<PROC_MAX_FD] of
        None \<Rightarrow> Some (- 1, 0, s)
      | Some i \<Rightarrow>
          do { (f, s1) \<leftarrow> kmalloc sizeof_vfs_file s;
               if f = 0 then Some (- 1, 0, s1)
               else Some (int i, f, fput f blank_file (set_fd (current_task s1) i f s1)) })"

definition fd_get :: "int \<Rightarrow> 'a kproc_scheme \<Rightarrow> u64" where
  "fd_get fd s = (if fd < 0 \<or> fd \<ge> int PROC_MAX_FD then 0 else p_fds (cur s) ! nat fd)"

definition console_names :: "u8 list list" where
  "console_names = [console_path, [47, 100, 101, 118, 47, 116, 116, 121]]"

definition is_console_path :: "u8 list \<Rightarrow> bool" where
  "is_console_path path \<longleftrightarrow> path \<in> set console_names"

definition is_null_path :: "u8 list \<Rightarrow> bool" where
  "is_null_path path \<longleftrightarrow> path = [47, 100, 101, 118, 47, 110, 117, 108, 108]"

text \<open>\<^verbatim>\<open>strncat_simple\<close> and \<^verbatim>\<open>resolve_path\<close> on strings, with the size of the buffer.\<close>

definition strncat_simple :: "u8 list \<Rightarrow> u8 list \<Rightarrow> nat \<Rightarrow> u8 list" where
  "strncat_simple dest src destlen = dest @ take (destlen - 1 - length dest) src"

definition resolve_path :: "u8 list \<Rightarrow> nat \<Rightarrow> 'a kproc_scheme \<Rightarrow> u8 list" where
  "resolve_path path outlen s =
     (if outlen = 0 then []
      else if vfs_is_absolute path then take (outlen - 1) path
      else if p_cwd (cur s) = [slash] then take (outlen - 1) (slash # take (outlen - 2) path)
      else strncat_simple (strncat_simple (take (outlen - 1) (p_cwd (cur s))) [slash] outlen) path outlen)"

definition fd_dup_to :: "int \<Rightarrow> int \<Rightarrow> 'a kproc_scheme \<Rightarrow> (int \<times> 'a kproc_scheme) option" where
  "fd_dup_to oldfd newfd s =
     (let src = fd_get oldfd s
      in if src = 0 then Some (- E_BADF, s)
         else
           do { (fd, dst, s1) \<leftarrow>
                  (if newfd < 0 then
                     do { (fd, dst, s1) \<leftarrow> fd_alloc s;
                          Some (if fd < 0 then - E_NOMEM else fd, dst, s1) }
                   else if newfd \<ge> int PROC_MAX_FD then Some (- E_BADF, 0, s)
                   else
                     do { let a = p_fds (cur s) ! nat newfd;
                          s1 \<leftarrow> (if a \<noteq> 0 then do { f \<leftarrow> files s a; free_file a (fput a (vfs_close f) s) } else Some s);
                          (dst, s2) \<leftarrow> kmalloc sizeof_vfs_file s1;
                          if dst = 0 then Some (- E_NOMEM, 0, s2)
                          else Some (newfd, dst, set_fd (current_task s2) (nat newfd) dst s2) });
                if fd < 0 then Some (fd, s1)
                else
                  do { f \<leftarrow> files s1 src;
                       s2 \<leftarrow> pipe_ref f (fput dst f s1);
                       Some (fd, s2) } })"

definition fd_dup_from :: "int \<Rightarrow> int \<Rightarrow> 'a kproc_scheme \<Rightarrow> (int \<times> 'a kproc_scheme) option" where
  "fd_dup_from oldfd minfd s =
     (let src = fd_get oldfd s
      in if src = 0 \<or> minfd < 0 \<or> minfd \<ge> int PROC_MAX_FD then Some (- E_BADF, s)
         else
           (case find (\<lambda>i. p_fds (cur s) ! i = 0) [nat minfd..<PROC_MAX_FD] of
              None \<Rightarrow> Some (- E_BADF, s)
            | Some fd \<Rightarrow>
                do { (dst, s1) \<leftarrow> kmalloc sizeof_vfs_file s;
                     if dst = 0 then Some (- E_NOMEM, s1)
                     else
                       do { f \<leftarrow> files s1 src;
                            s2 \<leftarrow> pipe_ref f (fput dst f s1);
                            Some (int fd, set_fd (current_task s2) fd dst s2) } }))"

definition int_bytes :: "int \<Rightarrow> u8 list" where
  "int_bytes x = le_bytes 4 (unat (word_of_int x :: u32))"

definition pipe_file :: "nat \<Rightarrow> int \<Rightarrow> vfs_file" where
  "pipe_file k e = blank_file\<lparr>vf_pipe := Some k, vf_pipe_end := e\<rparr>"

definition sys_pipe_impl :: "u64 \<Rightarrow> 'a kproc_scheme \<Rightarrow> (int \<times> 'a kproc_scheme) option" where
  "sys_pipe_impl ufd s =
     (case proc_pipe_alloc s of
        (None, s1) \<Rightarrow> Some (- E_NOMEM, s1)
      | (Some k, s1) \<Rightarrow>
          do { (readfd, readf, s2) \<leftarrow> fd_alloc s1;
               if readfd < 0 then Some (- E_NOMEM, proc_pipe_free k s2)
               else
                 do { (writefd, writef, s3) \<leftarrow> fd_alloc s2;
                      if writefd < 0 then
                        do { s4 \<leftarrow> free_file (p_fds (cur s3) ! nat readfd) s3;
                             Some (- E_NOMEM, proc_pipe_free k (set_fd (current_task s4) (nat readfd) 0 s4)) }
                      else
                        do { let s4 = on_pipe k (\<lambda>p. p\<lparr>readers := 1, writers := 1\<rparr>) s3;
                             let s5 = fput writef (pipe_file k 1) (fput readf (pipe_file k 0) s4);
                             (r, s6) \<leftarrow> copy_to_user ufd (int_bytes readfd @ int_bytes writefd) s5;
                             if r \<noteq> 0 then
                               do { let s7 = set_fd (current_task s6) (nat readfd) 0 s6;
                                    let s8 = set_fd (current_task s7) (nat writefd) 0 s7;
                                    s9 \<leftarrow> free_file readf s8;
                                    s10 \<leftarrow> free_file writef s9;
                                    Some (- E_FAULT, proc_pipe_free k s10) }
                             else Some (0, s6) } } })"

definition sys_open_path :: "u8 list \<Rightarrow> 'a kproc_scheme \<Rightarrow> (int \<times> 'a kproc_scheme) option" where
  "sys_open_path path s =
     do { (fd, file, s1) \<leftarrow> fd_alloc s;
          if fd < 0 then Some (- E_NOMEM, s1)
          else if is_console_path path \<or> is_null_path path then
            Some (fd, fput file (blank_file\<lparr>vf_path := take 255 path\<rparr>) s1)
          else
            do { f \<leftarrow> files s1 file;
                 (r, f') \<leftarrow> vfs_open path f s1;
                 let s2 = fput file f' s1;
                 if r \<noteq> 0 then
                   do { s3 \<leftarrow> free_file (p_fds (cur s2) ! nat fd) s2;
                        Some (- E_NOENT, set_fd (current_task s3) (nat fd) 0 s3) }
                 else Some (fd, s2) } }"

text \<open>The reference of an open file on its pipe is dropped; the last one frees the pipe.\<close>

definition pipe_unref :: "vfs_file \<Rightarrow> nat \<Rightarrow> 'a kproc_scheme \<Rightarrow> 'a kproc_scheme" where
  "pipe_unref f k s =
     (let p = pipes s ! k;
          s1 = (if vf_pipe_end f = 0 \<and> readers p > 0 then on_pipe k (\<lambda>p. p\<lparr>readers := readers p - 1\<rparr>) s
                else if vf_pipe_end f = 1 \<and> writers p > 0 then on_pipe k (\<lambda>p. p\<lparr>writers := writers p - 1\<rparr>) s
                else s)
      in if readers (pipes s1 ! k) = 0 \<and> writers (pipes s1 ! k) = 0 then proc_pipe_free k s1 else s1)"

definition sys_close :: "int \<Rightarrow> 'a kproc_scheme \<Rightarrow> (int \<times> 'a kproc_scheme) option" where
  "sys_close fd s =
     (if fd < 0 \<or> fd \<ge> int PROC_MAX_FD \<or> p_fds (cur s) ! nat fd = 0 then Some (- E_BADF, s)
      else
        do { let file = p_fds (cur s) ! nat fd;
             f \<leftarrow> files s file;
             let s1 = (case vf_pipe f of
                         Some k \<Rightarrow> pipe_unref f k s
                       | None \<Rightarrow> fput file (vfs_close f) s);
             s2 \<leftarrow> free_file file s1;
             Some (0, set_fd (current_task s2) (nat fd) 0 s2) })"

section \<open>Ownership\<close>

text \<open>The open file that a descriptor of a task holds.\<close>

type_synonym slot = "nat \<times> nat"

definition held :: "'a kproc_scheme \<Rightarrow> slot \<Rightarrow> u64 option" where
  "held s x =
     (case x of (i, fd) \<Rightarrow>
        if i < 16 \<and> fd < 32 \<and> p_state (task s i) \<noteq> TASK_UNUSED \<and> p_fds (task s i) ! fd \<noteq> 0
        then Some (p_fds (task s i) ! fd) else None)"

definition points :: "vfs_file \<Rightarrow> nat \<Rightarrow> int \<Rightarrow> bool" where
  "points f k e \<longleftrightarrow> vf_pipe f = Some k \<and> vf_pipe_end f = e"

text \<open>The descriptors that refer to one end of a pipe.\<close>

definition refs :: "('k \<Rightarrow> u64 option) \<Rightarrow> (u64 \<Rightarrow> vfs_file option) \<Rightarrow> nat \<Rightarrow> int \<Rightarrow> 'k set" where
  "refs H F k e = {x. \<exists>a f. H x = Some a \<and> F a = Some f \<and> points f k e}"

definition file_ok :: "(u64 \<Rightarrow> vfs_inode option) \<Rightarrow> pipe list \<Rightarrow> vfs_file \<Rightarrow> bool" where
  "file_ok I P f \<longleftrightarrow> (vf_inode f \<noteq> 0 \<longrightarrow> I (vf_inode f) \<noteq> None) \<and>
     (\<forall>k. vf_pipe f = Some k \<longrightarrow> k < 8 \<and> in_use (P ! k) \<and> (vf_pipe_end f = 0 \<or> vf_pipe_end f = 1))"

text \<open>Every held open file is a live block of the heap, held once; a pipe counts at least the descriptors
  that refer to it.\<close>

definition own_ok :: "('k \<Rightarrow> u64 option) \<Rightarrow> (u64 \<Rightarrow> vfs_file option) \<Rightarrow> pipe list \<Rightarrow> (u64 \<Rightarrow> bool) \<Rightarrow>
    (u64 \<Rightarrow> vfs_inode option) \<Rightarrow> bool" where
  "own_ok H F P live I \<longleftrightarrow> finite (dom H) \<and> inj_on H (dom H) \<and> length P = 8 \<and>
     (\<forall>a \<in> ran H. a \<noteq> 0 \<and> live a \<and> I a = None \<and> (\<exists>f. F a = Some f \<and> file_ok I P f)) \<and>
     (\<forall>k < 8. int (card (refs H F k 0)) \<le> readers (P ! k) \<and> int (card (refs H F k 1)) \<le> writers (P ! k))"

lemma own_okD:
  assumes "own_ok H F P live I"
  shows "finite (dom H)" "inj_on H (dom H)" "length P = 8" "a \<in> ran H \<Longrightarrow> a \<noteq> 0" "a \<in> ran H \<Longrightarrow> live a"
    "a \<in> ran H \<Longrightarrow> I a = None" "a \<in> ran H \<Longrightarrow> \<exists>f. F a = Some f \<and> file_ok I P f"
    "k < 8 \<Longrightarrow> int (card (refs H F k 0)) \<le> readers (P ! k)" "k < 8 \<Longrightarrow> int (card (refs H F k 1)) \<le> writers (P ! k)"
  using assms by (auto simp: own_ok_def)

lemma refs_dom: "refs H F k e \<subseteq> dom H"
  by (auto simp: refs_def)

lemma refs_finite: "finite (dom H) \<Longrightarrow> finite (refs H F k e)"
  using refs_dom by (metis finite_subset)

lemma own_once: "inj_on H (dom H) \<Longrightarrow> H x = Some a \<Longrightarrow> H y = Some a \<Longrightarrow> x = y"
  by (metis domI inj_onD)

lemma refs_add:
  assumes "H x = None" and "a \<notin> ran H"
  shows "refs (H(x \<mapsto> a)) (F(a \<mapsto> f)) k e = refs H F k e \<union> (if points f k e then {x} else {})"
proof -
  have "H y = Some b \<Longrightarrow> b \<noteq> a" for y b using assms(2) ranI by metis
  then show ?thesis using assms(1) by (auto simp: refs_def split: if_splits)
qed

lemma refs_del:
  assumes "H x = Some a" and "inj_on H (dom H)"
  shows "refs (H(x := None)) (F(a := v)) k e = refs H F k e - {x}"
proof -
  have "H y = Some a \<Longrightarrow> y = x" for y using own_once [OF assms(2)] assms(1) by blast
  then show ?thesis by (auto simp: refs_def split: if_splits)
qed

lemma refs_set:
  assumes "H x = Some a" and "F a = Some f" and "inj_on H (dom H)" and "vf_pipe f' = vf_pipe f" "vf_pipe_end f' = vf_pipe_end f"
  shows "refs H (F(a \<mapsto> f')) k e = refs H F k e"
  using assms by (auto simp: refs_def points_def)

lemma refs_count_del:
  assumes "H x = Some a" "F a = Some f" and "inj_on H (dom H)" and "finite (dom H)"
  shows "int (card (refs (H(x := None)) (F(a := v)) k e)) = int (card (refs H F k e)) - (if points f k e then 1 else 0)"
proof -
  have "x \<in> refs H F k e \<longleftrightarrow> points f k e" using assms(1,2) by (auto simp: refs_def)
  then show ?thesis
    unfolding refs_del [OF assms(1,3)] using refs_finite [OF assms(4), of F k e] card_gt_0_iff [of "refs H F k e"]
    by (auto simp: card_Diff_singleton of_nat_diff Suc_leI)
qed

text \<open>The changes that the operations make: a new descriptor, a closed one, fewer tasks, another content of an
  open file, other pipes, more blocks.\<close>

lemma own_add:
  assumes ok: "own_ok H F P live I" and x: "H x = None" and a: "a \<noteq> 0" "\<not> live a" "I a = None"
    and live: "\<And>q. live' q \<longleftrightarrow> q = a \<or> live q"
    and P: "length P' = 8" "\<And>k. k < 8 \<Longrightarrow> in_use (P ! k) \<Longrightarrow> in_use (P' ! k)"
      "\<And>k. k < 8 \<Longrightarrow> readers (P ! k) + (if points f k 0 then 1 else 0) \<le> readers (P' ! k)"
      "\<And>k. k < 8 \<Longrightarrow> writers (P ! k) + (if points f k 1 then 1 else 0) \<le> writers (P' ! k)"
    and f: "file_ok I P' f"
  shows "own_ok (H(x \<mapsto> a)) (F(a \<mapsto> f)) P' live' I"
proof -
  note o = own_okD [OF ok]
  have na: "a \<notin> ran H" using o(5) a(2) by blast
  have ra: "ran (H(x \<mapsto> a)) = insert a (ran H)" using x by (rule ran_map_upd)
  have inj: "inj_on (H(x \<mapsto> a)) (dom (H(x \<mapsto> a)))"
  proof (rule inj_onI)
    fix y z assume "y \<in> dom (H(x \<mapsto> a))" "z \<in> dom (H(x \<mapsto> a))" "(H(x \<mapsto> a)) y = (H(x \<mapsto> a)) z"
    then show "y = z" using na o(2) by (auto simp: ran_def inj_on_def split: if_splits)
  qed
  have cnt: "int (card (refs (H(x \<mapsto> a)) (F(a \<mapsto> f)) k e)) = int (card (refs H F k e)) + (if points f k e then 1 else 0)" for k e
  proof -
    have "x \<notin> refs H F k e" using x by (simp add: refs_def)
    then show ?thesis unfolding refs_add [OF x na] using refs_finite [OF o(1)] by simp
  qed
  have fo: "file_ok I P' g" if "file_ok I P g" for g using that P(2) unfolding file_ok_def by blast
  have old: "\<exists>g. F b = Some g \<and> file_ok I P' g" if "b \<in> ran H" for b using o(7) [OF that] fo by blast
  have "(\<forall>b \<in> ran (H(x \<mapsto> a)). b \<noteq> 0 \<and> live' b \<and> I b = None \<and> (\<exists>g. (F(a \<mapsto> f)) b = Some g \<and> file_ok I P' g))"
    unfolding ra using o(4-6) a live f na old by auto
  moreover have "\<forall>k < 8. int (card (refs (H(x \<mapsto> a)) (F(a \<mapsto> f)) k 0)) \<le> readers (P' ! k) \<and>
      int (card (refs (H(x \<mapsto> a)) (F(a \<mapsto> f)) k 1)) \<le> writers (P' ! k)"
    unfolding cnt using o(8,9) P(3,4) by (meson add_right_mono order_trans)
  ultimately show ?thesis unfolding own_ok_def using o(1) inj P(1) by simp
qed

lemma own_sub:
  assumes ok: "own_ok H F P live I" and sub: "H' \<subseteq>\<^sub>m H"
  shows "own_ok H' F P live I"
proof -
  note o = own_okD [OF ok]
  have d: "dom H' \<subseteq> dom H" using sub by (rule map_le_implies_dom_le)
  have eq: "H x = H' x" if "x \<in> dom H'" for x using sub that unfolding map_le_def by metis
  have r: "b \<in> ran H" if "b \<in> ran H'" for b using that eq unfolding ran_def by (auto, metis domI)
  have rf: "refs H' F k e \<subseteq> refs H F k e" for k e 
  proof
    fix y assume "y \<in> refs H' F k e"
    then obtain a f where y: "H' y = Some a" "F a = Some f" "points f k e" by (auto simp: refs_def)
    then have "H y = Some a" using eq [of y] by force
    then show "y \<in> refs H F k e" using y by (auto simp: refs_def)
  qed
  have c: "int (card (refs H' F k e)) \<le> int (card (refs H F k e))" for k e
    using card_mono [OF refs_finite [OF o(1)] rf] by simp
  have fin: "finite (dom H')" using d o(1) finite_subset by blast
  have inj: "inj_on H' (dom H')"
  proof (rule inj_onI)
    fix y z assume "y \<in> dom H'" "z \<in> dom H'" "H' y = H' z"
    then show "y = z" using eq d o(2) unfolding inj_on_def by (metis subsetD)
  qed
  have "int (card (refs H' F k 0)) \<le> readers (P ! k) \<and> int (card (refs H' F k 1)) \<le> writers (P ! k)" if "k < 8" for k
    using c [of k 0] c [of k 1] o(8,9) [OF that] by linarith
  then show ?thesis unfolding own_ok_def using fin inj o(3-7) r by blast
qed

lemma own_del:
  assumes ok: "own_ok H F P live I" and x: "H x = Some a" "F a = Some f"
    and live: "\<And>q. live' q \<longleftrightarrow> q \<noteq> a \<and> live q"
    and P: "length P' = 8"
      "\<And>k. k < 8 \<Longrightarrow> in_use (P ! k) \<Longrightarrow> refs (H(x := None)) (F(a := v)) k 0 \<noteq> {} \<or> refs (H(x := None)) (F(a := v)) k 1 \<noteq> {} \<Longrightarrow> in_use (P' ! k)"
      "\<And>k. k < 8 \<Longrightarrow> readers (P ! k) - (if points f k 0 then 1 else 0) \<le> readers (P' ! k)"
      "\<And>k. k < 8 \<Longrightarrow> writers (P ! k) - (if points f k 1 then 1 else 0) \<le> writers (P' ! k)"
  shows "own_ok (H(x := None)) (F(a := v)) P' live' I"
proof -
  note o = own_okD [OF ok]
  let ?H = "H(x := None)" and ?F = "F(a := v)"
  have na: "b \<in> ran ?H \<Longrightarrow> b \<in> ran H \<and> b \<noteq> a" for b
    using own_once [OF o(2) x(1)] unfolding ran_def by (auto split: if_splits)
  have inj: "inj_on ?H (dom ?H)" using o(2) by (auto simp: inj_on_def)
  have cnt: "int (card (refs ?H ?F k e)) = int (card (refs H F k e)) - (if points f k e then 1 else 0)" for k e
    by (rule refs_count_del [of H x a F f, OF x o(2,1)])
  have fo: "file_ok I P' g" if b: "b \<in> ran ?H" "F b = Some g" and g: "file_ok I P g" for b g
  proof -
    obtain y where y: "?H y = Some b" using b(1) by (auto simp: ran_def)
    have "?F b = Some g" using na [OF b(1)] b(2) by simp
    then have "y \<in> refs ?H ?F k (vf_pipe_end g)" if "vf_pipe g = Some k" for k
      using y that unfolding refs_def points_def by blast
    then show ?thesis using g P(2) unfolding file_ok_def by (metis empty_iff)
  qed
  have "\<forall>b \<in> ran ?H. b \<noteq> 0 \<and> live' b \<and> I b = None \<and> (\<exists>g. ?F b = Some g \<and> file_ok I P' g)"
  proof
    fix b assume b: "b \<in> ran ?H"
    obtain g where "F b = Some g" "file_ok I P g" using o(7) na [OF b] by blast
    then show "b \<noteq> 0 \<and> live' b \<and> I b = None \<and> (\<exists>g. ?F b = Some g \<and> file_ok I P' g)"
      using o(4-6) na [OF b] live fo [OF b] by simp
  qed
  moreover have "\<forall>k < 8. int (card (refs ?H ?F k 0)) \<le> readers (P' ! k) \<and> int (card (refs ?H ?F k 1)) \<le> writers (P' ! k)"
    unfolding cnt using o(8,9) P(3,4) by (meson diff_right_mono order_trans)
  ultimately show ?thesis unfolding own_ok_def using o(1) inj P(1) by simp
qed

lemma own_file:
  assumes ok: "own_ok H F P live I" and x: "H x = Some a" "F a = Some f"
    and f': "file_ok I P f'" "vf_pipe f' = vf_pipe f" "vf_pipe_end f' = vf_pipe_end f"
  shows "own_ok H (F(a \<mapsto> f')) P live I"
proof -
  have r: "refs H (F(a \<mapsto> f')) k e = refs H F k e" for k e
    by (rule refs_set [where f = f]) (use x f'(2,3) own_okD(2) [OF ok] in simp_all)
  show ?thesis using ok f'(1) unfolding own_ok_def r by auto
qed

lemma own_frame:
  assumes ok: "own_ok H F P live I" and "\<And>q. live q \<Longrightarrow> live' q"
  shows "own_ok H F P live' I"
  using assms unfolding own_ok_def by blast

section \<open>The invariant of the descriptors\<close>

definition fds_ok :: "'a kproc_scheme \<Rightarrow> bool" where
  "fds_ok s \<longleftrightarrow> procs_ok s \<and> vfs_ok s \<and> own_ok (held s) (files s) (pipes s) (kmalloc_live s) (inodes s) \<and>
     (\<forall>k < 8. in_use (pipes s ! k) \<longrightarrow> pipe_ok (pipes s ! k))"

text \<open>The same but for one slot, which may dangle.\<close>

definition fds_ok_but :: "slot \<Rightarrow> 'a kproc_scheme \<Rightarrow> bool" where
  "fds_ok_but x s \<longleftrightarrow> procs_ok s \<and> vfs_ok s \<and>
     own_ok ((held s)(x := None)) (files s) (pipes s) (kmalloc_live s) (inodes s) \<and>
     (\<forall>k < 8. in_use (pipes s ! k) \<longrightarrow> pipe_ok (pipes s ! k))"

lemma fds_ok_butI:
  assumes "fds_ok s"
  shows "fds_ok_but x s"
proof -
  have "(held s)(x := None) \<subseteq>\<^sub>m held s" by (simp add: map_le_def)
  with assms show ?thesis unfolding fds_ok_def fds_ok_but_def using own_sub by blast
qed

lemma fds_ok_butD:
  assumes "fds_ok_but x s"
  shows "procs_ok s" "vfs_ok s" "own_ok ((held s)(x := None)) (files s) (pipes s) (kmalloc_live s) (inodes s)"
    "k < 8 \<Longrightarrow> in_use (pipes s ! k) \<Longrightarrow> pipe_ok (pipes s ! k)"
  using assms by (auto simp: fds_ok_but_def)

definition heap_view :: "'a kheap_scheme \<Rightarrow> u64 \<times> u64 \<times> u64 \<times> (u64 \<Rightarrow> heap_block option)" where
  "heap_view s = (heap_head s, heap_current s, heap_mapped_end s, hblocks s)"

text \<open>The parts of the state that the invariant reads.\<close>

definition agree :: "'a kproc_scheme \<Rightarrow> 'a kproc_scheme \<Rightarrow> bool" where
  "agree s s' \<longleftrightarrow> heap_view s' = heap_view s \<and> inodes s' = inodes s \<and> root_inode s' = root_inode s \<and>
     tasks s' = tasks s \<and> current_task s' = current_task s \<and> next_pid s' = next_pid s \<and>
     fork_jmp_parent s' = fork_jmp_parent s \<and> files s' = files s \<and> pipes s' = pipes s"

lemma heap_view_same:
  assumes "heap_view s' = heap_view s"
  shows "heap_inv s' = heap_inv s" "kmalloc_live s' = kmalloc_live s" "heap_budget b s' = heap_budget b s"
proof -
  have "kmalloc_live s' q = kmalloc_live s q" for q using assms by (simp add: heap_view_def kmalloc_live_def)
  then show "kmalloc_live s' = kmalloc_live s" by blast
qed (use assms in \<open>simp_all add: heap_view_def heap_inv_def heap_ok_def heap_shape_def heap_budget_def\<close>)

lemma vfs_view_same:
  assumes "heap_view s' = heap_view s" "inodes s' = inodes s" "root_inode s' = root_inode s"
  shows "vfs_ok s' = vfs_ok s"
  using heap_view_same [OF assms(1)] by (simp add: vfs_ok_def inode_ok_def assms)

lemma held_same: "tasks s' = tasks s \<Longrightarrow> held s' = held s"
  by (auto simp: held_def fun_eq_iff)

lemma fds_ok_agree: "agree s s' \<Longrightarrow> fds_ok s' = fds_ok s"
  using heap_view_same [of s' s] vfs_view_same [of s' s] procs_ok_same [of s' s] held_same [of s' s]
  by (simp add: agree_def fds_ok_def)

lemma fds_okD:
  assumes "fds_ok s"
  shows "procs_ok s" "vfs_ok s" "own_ok (held s) (files s) (pipes s) (kmalloc_live s) (inodes s)"
    "k < 8 \<Longrightarrow> in_use (pipes s ! k) \<Longrightarrow> pipe_ok (pipes s ! k)"
  using assms by (auto simp: fds_ok_def)

lemma view_simps [simp]:
  "heap_view (on_task i f s) = heap_view s" "root_inode (on_task i f s) = root_inode s"
  "heap_view (on_pipe k g s) = heap_view s" "root_inode (on_pipe k g s) = root_inode s"
  "heap_view (fput a fl s) = heap_view s" "root_inode (fput a fl s) = root_inode s"
  "heap_view (fdrop a s) = heap_view s" "root_inode (fdrop a s) = root_inode s"
  "heap_view (s\<lparr>files := F, pipes := P\<rparr>) = heap_view s" "heap_view (s\<lparr>files := F\<rparr>) = heap_view s"
  by (simp_all add: heap_view_def on_task_def on_pipe_def fput_def fdrop_def)

lemma held_Some:
  "held s (i, fd) = Some a \<longleftrightarrow>
     i < 16 \<and> fd < 32 \<and> p_state (task s i) \<noteq> TASK_UNUSED \<and> p_fds (task s i) ! fd = a \<and> a \<noteq> 0"
  by (auto simp: held_def)

lemma held_set_fd:
  assumes "procs_ok s" and "i < 16" "fd < 32" "p_state (task s i) \<noteq> TASK_UNUSED"
  shows "held (set_fd i fd a s) = (held s)((i, fd) := if a = 0 then None else Some a)"
proof -
  have "length (tasks s) = 16" "length (p_fds (task s i)) = 32"
    using procs_okD(1) [OF assms(1)] task_okD(1) [OF procs_okD(4) [OF assms(1,2)]] by auto
  then show ?thesis
    using assms by (auto simp: held_def set_fd_def nth_list_update fun_eq_iff)
qed

lemma set_fd_ok:
  assumes "procs_ok s" and "i < 16"
  shows "procs_ok (set_fd i fd a s)"
  unfolding set_fd_def
  by (rule procs_ok_on_task [OF assms]) (use procs_okD(4) [OF assms] procs_okD(3) [OF assms(1)] in \<open>auto simp: task_ok_def\<close>)

lemma set_fd_simps [simp]:
  "current_task (set_fd i fd a s) = current_task s" "pipes (set_fd i fd a s) = pipes s" "files (set_fd i fd a s) = files s"
  "next_pid (set_fd i fd a s) = next_pid s" "inodes (set_fd i fd a s) = inodes s" "heap_view (set_fd i fd a s) = heap_view s"
  "root_inode (set_fd i fd a s) = root_inode s" "fork_jmp_parent (set_fd i fd a s) = fork_jmp_parent s"
  "tasks (set_fd i fd a s) = (tasks s)[i := (task s i)\<lparr>p_fds := (p_fds (task s i))[fd := a]\<rparr>]"
  by (simp_all add: set_fd_def)

text \<open>A block for an open file.\<close>

lemma new_file_block:
  fixes s :: "'a kproc_scheme"
  assumes ok: "fds_ok_but x s" and budget: "heap_budget (0x12000 + b) s"
  obtains a s1 where "kmalloc sizeof_vfs_file s = Some (a, s1)" and "fds_ok_but x s1" and "heap_budget b s1"
    and "kheap.more s1 = kheap.more s" and "vfs_ok s1"
    and "a \<noteq> 0 \<Longrightarrow> \<not> kmalloc_live s a \<and> inodes s a = None" and "\<And>q. kmalloc_live s1 q \<longleftrightarrow> (a \<noteq> 0 \<and> q = a) \<or> kmalloc_live s q"
proof -
  have inv: "heap_inv s" and vok: "vfs_ok s" using fds_ok_butD(2) [OF ok] by (auto simp: vfs_ok_def)
  have nz: "sizeof_vfs_file \<noteq> 0" by simp
  have "heap_budget (unat sizeof_vfs_file + 0x11000 + b) s" using budget by (rule heap_budget_le) simp
  from kmalloc_step [OF inv nz this] obtain a s1 where k: "kmalloc sizeof_vfs_file s = Some (a, s1)" "heap_inv s1" "heap_budget b s1" "kheap.more s1 = kheap.more s"
    "a \<noteq> 0 \<Longrightarrow> \<not> kmalloc_live s a" "\<And>q. kmalloc_live s1 q \<longleftrightarrow> (a \<noteq> 0 \<and> q = a) \<or> kmalloc_live s q"
    by blast
  have v1: "vfs_ok s1" using vfs_ok_heap [OF vok k(2,4)] k(6) by blast
  note f = proc_fields [OF k(4)]
  have "own_ok ((held s1)(x := None)) (files s1) (pipes s1) (kmalloc_live s1) (inodes s1)"
    unfolding held_same [OF f(1)] f(3,5,8) using own_frame [OF fds_ok_butD(3) [OF ok]] k(6) by blast
  then have "fds_ok_but x s1"
    using fds_ok_butD [OF ok] v1 f(3) procs_ok_same [OF f(1,2,4,7)] unfolding fds_ok_but_def by simp
  moreover have "inodes s a = None" if "a \<noteq> 0" using vfs_okD(2) [OF vok] k(5) [OF that] by (metis not_None_eq)
  ultimately show thesis using that [OF k(1) _ k(3,4) v1] k(5,6) by blast
qed

text \<open>The process table and the inodes are the same.\<close>

definition same_table :: "'a kproc_scheme \<Rightarrow> 'a kproc_scheme \<Rightarrow> bool" where
  "same_table s s' \<longleftrightarrow> tasks s' = tasks s \<and> current_task s' = current_task s \<and> next_pid s' = next_pid s \<and>
     fork_jmp_parent s' = fork_jmp_parent s \<and> inodes s' = inodes s"

lemma same_table_more: "kheap.more s' = kheap.more s \<Longrightarrow> same_table s s'"
  using proc_fields [of s' s] by (simp add: same_table_def)

lemma same_tableD:
  assumes "same_table s s'"
  shows "tasks s' = tasks s" "current_task s' = current_task s" "next_pid s' = next_pid s"
    "fork_jmp_parent s' = fork_jmp_parent s" "inodes s' = inodes s"
  using assms by (simp_all add: same_table_def)

text \<open>A new open file in a free descriptor, and a descriptor that is closed.\<close>

lemma add_file:
  assumes ok: "fds_ok_but (i, fd) s" and k: "same_table s s1" "vfs_ok s1" "a \<noteq> 0" "\<not> kmalloc_live s a" "inodes s a = None"
      "\<And>q. kmalloc_live s1 q \<longleftrightarrow> q = a \<or> kmalloc_live s q"
    and slot: "i < 16" "fd < 32" "p_state (task s i) \<noteq> TASK_UNUSED"
    and P: "length P = 8" "\<And>k. k < 8 \<Longrightarrow> in_use (pipes s ! k) \<Longrightarrow> in_use (P ! k)"
      "\<And>k. k < 8 \<Longrightarrow> readers (pipes s ! k) + (if points f k 0 then 1 else 0) \<le> readers (P ! k)"
      "\<And>k. k < 8 \<Longrightarrow> writers (pipes s ! k) + (if points f k 1 then 1 else 0) \<le> writers (P ! k)"
      "\<And>k. k < 8 \<Longrightarrow> in_use (P ! k) \<Longrightarrow> pipe_ok (P ! k)"
    and f: "file_ok (inodes s) P f"
    and s': "agree (set_fd i fd a s1\<lparr>files := (files s)(a \<mapsto> f), pipes := P\<rparr>) s'"
  shows "fds_ok s'" and "held s' = (held s)((i, fd) \<mapsto> a)"
proof -
  let ?s = "set_fd i fd a s1\<lparr>files := (files s)(a \<mapsto> f), pipes := P\<rparr>"
  note g = same_tableD [OF k(1)]
  have p1: "procs_ok s1" using procs_ok_same [OF g(1-4)] fds_ok_butD(1) [OF ok] by simp
  have p: "procs_ok ?s" using procs_ok_same [of ?s "set_fd i fd a s1"] set_fd_ok [OF p1 slot(1)] by simp
  have v: "vfs_ok ?s" using vfs_view_same [of ?s s1] k(2) by simp
  have "held ?s = held (set_fd i fd a s1)" by (rule held_same) simp
  also have "\<dots> = (held s)((i, fd) \<mapsto> a)"
    using held_set_fd [OF p1 slot(1,2)] slot(3) g(1) k(3) held_same [OF g(1)] by simp
  finally have h: "held ?s = (held s)((i, fd) \<mapsto> a)" .
  have "kmalloc_live ?s = kmalloc_live s1" by (rule heap_view_same) simp
  then have "own_ok (held ?s) (files ?s) (pipes ?s) (kmalloc_live ?s) (inodes ?s)"
    unfolding h using own_add [OF fds_ok_butD(3) [OF ok] _ k(3-6) P(1-4) f, of "(i, fd)"] g(5) by simp
  then have "fds_ok ?s" using p v P(5) unfolding fds_ok_def by simp
  then show "fds_ok s'" using fds_ok_agree [OF s'] by simp
  show "held s' = (held s)((i, fd) \<mapsto> a)" using held_same [of s' ?s] s' h by (simp add: agree_def)
qed

lemma drop_file:
  assumes ok: "fds_ok s" and slot: "i < 16" "fd < 32" "held s (i, fd) = Some a" and f: "files s a = Some f"
    and P: "length P = 8"
      "\<And>k. k < 8 \<Longrightarrow> in_use (pipes s ! k) \<Longrightarrow> refs ((held s)((i, fd) := None)) ((files s)(a := None)) k 0 \<noteq> {} \<or>
         refs ((held s)((i, fd) := None)) ((files s)(a := None)) k 1 \<noteq> {} \<Longrightarrow> in_use (P ! k)"
      "\<And>k. k < 8 \<Longrightarrow> readers (pipes s ! k) - (if points f k 0 then 1 else 0) \<le> readers (P ! k)"
      "\<And>k. k < 8 \<Longrightarrow> writers (pipes s ! k) - (if points f k 1 then 1 else 0) \<le> writers (P ! k)"
      "\<And>k. k < 8 \<Longrightarrow> in_use (P ! k) \<Longrightarrow> pipe_ok (P ! k)"
    and k: "same_table s s1" "vfs_ok s1" "\<And>q. kmalloc_live s1 q \<longleftrightarrow> q \<noteq> a \<and> kmalloc_live s q"
    and s': "agree (set_fd i fd 0 s1\<lparr>files := (files s)(a := None), pipes := P\<rparr>) s'"
  shows "fds_ok s'" and "held s' = (held s)((i, fd) := None)"
proof -
  let ?s = "set_fd i fd 0 s1\<lparr>files := (files s)(a := None), pipes := P\<rparr>"
  note g = same_tableD [OF k(1)]
  have st: "p_state (task s i) \<noteq> TASK_UNUSED" using slot(3) by (simp add: held_Some)
  have p1: "procs_ok s1" using procs_ok_same [OF g(1-4)] fds_okD(1) [OF ok] by simp
  have p: "procs_ok ?s" using procs_ok_same [of ?s "set_fd i fd 0 s1"] set_fd_ok [OF p1 slot(1)] by simp
  have v: "vfs_ok ?s" using vfs_view_same [of ?s s1] k(2) by simp
  have "held ?s = held (set_fd i fd 0 s1)" by (rule held_same) simp
  also have "\<dots> = (held s)((i, fd) := None)"
    using held_set_fd [OF p1 slot(1,2)] st g(1) held_same [OF g(1)] by simp
  finally have h: "held ?s = (held s)((i, fd) := None)" .
  have "kmalloc_live ?s = kmalloc_live s1" by (rule heap_view_same) simp
  then have "own_ok (held ?s) (files ?s) (pipes ?s) (kmalloc_live ?s) (inodes ?s)"
    unfolding h using own_del [OF fds_okD(3) [OF ok] slot(3) f k(3) P(1-4)] g(5) by simp
  then have "fds_ok ?s" using p v P(5) unfolding fds_ok_def by simp
  then show "fds_ok s'" using fds_ok_agree [OF s'] by simp
  show "held s' = (held s)((i, fd) := None)" using held_same [of s' ?s] s' h by (simp add: agree_def)
qed

section \<open>What the operations keep\<close>

lemma on_pipe_eq: "on_pipe k g s = s\<lparr>pipes := (pipes s)[k := g (pipes s ! k)]\<rparr>"
  by (simp add: on_pipe_def)

text \<open>A reference more on the pipe of an open file.\<close>

lemma pipe_ref_step:
  assumes run: "pipe_ref f s = Some s'" and len: "length (pipes s) = 8" and f: "file_ok I (pipes s) f"
  shows "s' = s\<lparr>pipes := pipes s'\<rparr>" "length (pipes s') = 8"
    "k < 8 \<Longrightarrow> in_use (pipes s' ! k) = in_use (pipes s ! k)"
    "k < 8 \<Longrightarrow> readers (pipes s' ! k) = readers (pipes s ! k) + (if points f k 0 then 1 else 0)"
    "k < 8 \<Longrightarrow> writers (pipes s' ! k) = writers (pipes s ! k) + (if points f k 1 then 1 else 0)"
    "k < 8 \<Longrightarrow> pipe_ok (pipes s' ! k) = pipe_ok (pipes s ! k)"
  using assms
  by (auto simp: pipe_ref_def file_ok_def points_def int_inc_def on_pipe_eq nth_list_update pipe_ok_def
      split: option.splits if_splits)

text \<open>No counter of a pipe is at its maximum, where the next reference would overflow.\<close>

definition counts_ok :: "'a kproc_scheme \<Rightarrow> bool" where
  "counts_ok s \<longleftrightarrow> (\<forall>k < 8. readers (pipes s ! k) < 2 ^ 31 - 1 \<and> writers (pipes s ! k) < 2 ^ 31 - 1)"

lemma pipe_ref_defined: "file_ok I (pipes s) f \<Longrightarrow> counts_ok s \<Longrightarrow> \<exists>s'. pipe_ref f s = Some s'"
  by (auto simp: pipe_ref_def file_ok_def counts_ok_def int_inc_def split: option.splits)

text \<open>A reference less, when the descriptor that holds it is closed.\<close>

lemma pipe_unref_step:
  assumes own: "own_ok H F (pipes s) live I" and x: "H x = Some a" "F a = Some f" and f: "vf_pipe f = Some k"
    and s': "s' = pipe_unref f k s"
  shows "s' = s\<lparr>pipes := pipes s'\<rparr>" "length (pipes s') = 8"
    "j < 8 \<Longrightarrow> in_use (pipes s ! j) \<Longrightarrow> refs (H(x := None)) (F(a := None)) j 0 \<noteq> {} \<or>
       refs (H(x := None)) (F(a := None)) j 1 \<noteq> {} \<Longrightarrow> in_use (pipes s' ! j)"
    "j < 8 \<Longrightarrow> readers (pipes s ! j) - (if points f j 0 then 1 else 0) \<le> readers (pipes s' ! j)"
    "j < 8 \<Longrightarrow> writers (pipes s ! j) - (if points f j 1 then 1 else 0) \<le> writers (pipes s' ! j)"
    "j < 8 \<Longrightarrow> in_use (pipes s' ! j) \<Longrightarrow> in_use (pipes s ! j) \<and> pipe_ok (pipes s' ! j) = pipe_ok (pipes s ! j)"
proof -
  note o = own_okD [OF own]
  have "file_ok I (pipes s) f" using o(7) x by (metis option.inject ranI)
  then have k: "k < 8" and e: "vf_pipe_end f = 0 \<or> vf_pipe_end f = 1" using f by (auto simp: file_ok_def)
  define p where "p = pipes s ! k"
  define p1 where "p1 = (if vf_pipe_end f = 0 \<and> readers p > 0 then p\<lparr>readers := readers p - 1\<rparr>
      else if vf_pipe_end f = 1 \<and> writers p > 0 then p\<lparr>writers := writers p - 1\<rparr> else p)"
  define p2 where "p2 = (if readers p1 = 0 \<and> writers p1 = 0 then p1\<lparr>in_use := False\<rparr> else p1)"
  have len: "length (pipes s) = 8" by (rule o(3))
  have s2: "s' = s\<lparr>pipes := (pipes s)[k := p2]\<rparr>"
    unfolding s' pipe_unref_def p2_def p1_def p_def using len k
    by (auto simp: Let_def on_pipe_eq proc_pipe_free_def)
  have cnt: "int (card (refs (H(x := None)) (F(a := None)) j e)) = int (card (refs H F j e)) - (if points f j e then 1 else 0)" for j e
    by (rule refs_count_del [of H x a F f, OF x o(2,1)])
  have nn: "0 \<le> int (card (refs (H(x := None)) (F(a := None)) j e))" for j e by simp
  have pos: "points f k 0 \<Longrightarrow> 0 < readers p" "points f k 1 \<Longrightarrow> 0 < writers p"
    using cnt [of k 0] cnt [of k 1] nn [of k 0] nn [of k 1] o(8,9) [OF k] unfolding p_def by (auto split: if_splits)
  have p1: "readers p1 = readers p - (if points f k 0 then 1 else 0)" "writers p1 = writers p - (if points f k 1 then 1 else 0)"
    using pos e f unfolding p1_def points_def by auto
  have p2: "readers p2 = readers p1" "writers p2 = writers p1" "pipe_ok p2 = pipe_ok p" "in_use p2 \<Longrightarrow> in_use p"
    unfolding p2_def p1_def pipe_ok_def by (auto split: if_splits)
  have keep: "in_use p2" if "in_use p" "refs (H(x := None)) (F(a := None)) k 0 \<noteq> {} \<or> refs (H(x := None)) (F(a := None)) k 1 \<noteq> {}"
  proof -
    have fin: "finite (refs (H(x := None)) (F(a := None)) k e)" for e by (rule refs_finite) (use o(1) in simp)
    have "0 < card (refs (H(x := None)) (F(a := None)) k 0) \<or> 0 < card (refs (H(x := None)) (F(a := None)) k 1)"
      using that(2) fin by (simp add: card_gt_0_iff)
    then have "readers p1 \<noteq> 0 \<or> writers p1 \<noteq> 0"
      using cnt [of k 0] cnt [of k 1] o(8,9) [OF k] p1 unfolding p_def by linarith
    moreover have "in_use p1" using that(1) by (simp add: p1_def)
    ultimately show ?thesis by (simp add: p2_def)
  qed
  have nth: "pipes s' ! j = (if j = k then p2 else pipes s ! j)" if "j < 8" for j using s2 that len by simp
  show "s' = s\<lparr>pipes := pipes s'\<rparr>" "length (pipes s') = 8" using s2 len by simp_all
  have np: "\<not> points f j e" if "j \<noteq> k" for j e using that f by (simp add: points_def)
  show "j < 8 \<Longrightarrow> in_use (pipes s ! j) \<Longrightarrow> refs (H(x := None)) (F(a := None)) j 0 \<noteq> {} \<or>
       refs (H(x := None)) (F(a := None)) j 1 \<noteq> {} \<Longrightarrow> in_use (pipes s' ! j)"
    using nth keep by (cases "j = k") (simp_all add: p_def)
  show "j < 8 \<Longrightarrow> readers (pipes s ! j) - (if points f j 0 then 1 else 0) \<le> readers (pipes s' ! j)"
    "j < 8 \<Longrightarrow> writers (pipes s ! j) - (if points f j 1 then 1 else 0) \<le> writers (pipes s' ! j)"
    using nth p1 p2 np by (cases "j = k"; simp add: p_def)+
  show "j < 8 \<Longrightarrow> in_use (pipes s' ! j) \<Longrightarrow> in_use (pipes s ! j) \<and> pipe_ok (pipes s' ! j) = pipe_ok (pipes s ! j)"
    using nth p2 by (cases "j = k") (simp_all add: p_def)
qed

lemma cur_slot:
  assumes "fds_ok s"
  shows "current_task s < 16" "p_state (cur s) \<noteq> TASK_UNUSED" "length (tasks s) = 16" "length (p_fds (cur s)) = 32"
  using procs_okD(1-3) [OF fds_okD(1) [OF assms]]
    task_okD(1) [OF procs_okD(4) [OF fds_okD(1) [OF assms] procs_okD(2) [OF fds_okD(1) [OF assms]]]] by auto

lemma find_free_fd:
  "find (\<lambda>i. p_fds (cur s) ! i = 0) [m..<PROC_MAX_FD] = Some i \<Longrightarrow> m \<le> i \<and> i < 32 \<and> p_fds (cur s) ! i = 0"
  unfolding find_Some_iff by fastforce

lemma blank_file_ok [simp]: "file_ok I P blank_file" "\<not> points blank_file k e" "file_ok I P (blank_file\<lparr>vf_path := p\<rparr>)"
  by (simp_all add: file_ok_def blank_file_def points_def)

text \<open>A fresh file without inode and pipe in a free descriptor of the current task, when there is a block for it.\<close>

lemma install_file:
  fixes s :: "'a kproc_scheme"
  assumes ok: "fds_ok s" and budget: "heap_budget (0x12000 + b) s" and i: "i < 32" "p_fds (cur s) ! i = 0"
  obtains a s1 where "kmalloc sizeof_vfs_file s = Some (a, s1)" and "kheap.more s1 = kheap.more s"
    and "a = 0 \<Longrightarrow> fds_ok s1 \<and> heap_budget b s1"
    and "\<And>path s'. a \<noteq> 0 \<Longrightarrow> s' = fput a (blank_file\<lparr>vf_path := path\<rparr>) (set_fd (current_task s) i a s1) \<Longrightarrow>
      fds_ok s' \<and> heap_budget b s' \<and> held s' = (held s)((current_task s, i) \<mapsto> a)"
proof -
  obtain a s1 where k: "kmalloc sizeof_vfs_file s = Some (a, s1)" "fds_ok_but (current_task s, i) s1" "heap_budget b s1" "kheap.more s1 = kheap.more s" "vfs_ok s1"
    "a \<noteq> 0 \<Longrightarrow> \<not> kmalloc_live s a \<and> inodes s a = None" "\<And>q. kmalloc_live s1 q \<longleftrightarrow> (a \<noteq> 0 \<and> q = a) \<or> kmalloc_live s q"
    by (rule new_file_block [OF fds_ok_butI [OF ok] budget]) blast
  note g = proc_fields [OF k(4)]
  let ?c = "current_task s" and ?s = "\<lambda>path. fput a (blank_file\<lparr>vf_path := path\<rparr>) (set_fd (current_task s) i a s1)"
  note c = cur_slot [OF ok] and o = own_okD(3,8,9) [OF fds_okD(3) [OF ok]]
  show thesis
  proof (rule that [OF k(1,4)])
    show "fds_ok s1 \<and> heap_budget b s1" if "a = 0"
      using that k(3,5,7) g fds_okD [OF ok] procs_ok_same [OF g(1,2,4,7)] held_same [OF g(1)] own_frame [OF fds_okD(3) [OF ok]]
      by (simp add: fds_ok_def)
    fix path s' assume a: "a \<noteq> 0" and s': "s' = ?s path"
    have ag: "agree (set_fd ?c i a s1\<lparr>files := (files s)(a \<mapsto> blank_file\<lparr>vf_path := path\<rparr>), pipes := pipes s\<rparr>) (?s path)"
      using g by (simp add: agree_def)
    note new = add_file [OF fds_ok_butI [OF ok] same_table_more [OF k(4)] k(5) a _ _ _ c(1) _ c(2) o(1) _ _ _ _ _ ag]
    have "fds_ok (?s path)"
      by (rule new(1)) (use k(6,7) a i fds_okD(4) [OF ok] in \<open>simp_all add: points_def file_ok_def blank_file_def\<close>)
    moreover have "held (?s path) = (held s)((?c, i) \<mapsto> a)"
      by (rule new(2)) (use k(6,7) a i fds_okD(4) [OF ok] in \<open>simp_all add: points_def file_ok_def blank_file_def\<close>)
    moreover have "heap_budget b (?s path)" using heap_view_same(3) [of "?s path" s1] k(3) by simp
    ultimately show "fds_ok s' \<and> heap_budget b s' \<and> held s' = (held s)((?c, i) \<mapsto> a)" using s' by simp
  qed
qed

lemma fd_alloc_ok:
  fixes s :: "'a kproc_scheme"
  assumes ok: "fds_ok s" and budget: "heap_budget (0x12000 + b) s"
  obtains fd f s' where "fd_alloc s = Some (fd, f, s')" and "fds_ok s'" and "heap_budget b s'" and "pipes s' = pipes s"
    and "current_task s' = current_task s" and "inodes s' = inodes s"
    and "(fd = - 1 \<and> same_table s s' \<and> files s' = files s) \<or>
      (0 \<le> fd \<and> fd < 32 \<and> f \<noteq> 0 \<and> held s (current_task s, nat fd) = None \<and>
       held s' = (held s)((current_task s, nat fd) \<mapsto> f) \<and> files s' = (files s)(f \<mapsto> blank_file))"
proof (cases "find (\<lambda>i. p_fds (cur s) ! i = 0) [0..<PROC_MAX_FD]")
  case None
  have "heap_budget b s" using budget by (rule heap_budget_le) simp
  then show thesis using None ok by (intro that [of "- 1" 0 s]) (simp_all add: fd_alloc_def same_table_def)
next
  case (Some i)
  note i = find_free_fd [OF Some]
  obtain a s1 where k: "kmalloc sizeof_vfs_file s = Some (a, s1)" "kheap.more s1 = kheap.more s"
    "a = 0 \<Longrightarrow> fds_ok s1 \<and> heap_budget b s1"
    and new: "\<And>path s'. a \<noteq> 0 \<Longrightarrow> s' = fput a (blank_file\<lparr>vf_path := path\<rparr>) (set_fd (current_task s) i a s1) \<Longrightarrow>
      fds_ok s' \<and> heap_budget b s' \<and> held s' = (held s)((current_task s, i) \<mapsto> a)"
    by (rule install_file [OF ok budget]) (use i in blast)+
  note g = proc_fields [OF k(2)]
  show thesis
  proof (cases "a = 0")
    case True
    then show thesis using Some k g same_table_more [OF k(2)] by (intro that [of "- 1" 0 s1]) (simp_all add: fd_alloc_def)
  next
    case False
    let ?s = "fput a blank_file (set_fd (current_task s) i a s1)"
    have "held s (current_task s, i) = None" using i by (simp add: held_def)
    moreover have b: "blank_file\<lparr>vf_path := []\<rparr> = blank_file" by (simp add: blank_file_def)
    ultimately show thesis
      using Some k(1) False g i new [OF False, of ?s "[]", unfolded b] by (intro that [of "int i" a ?s]) (simp_all add: fd_alloc_def)
  qed
qed

lemma held_file:
  assumes "fds_ok s" and "held s x = Some a"
  obtains f where "files s a = Some f" and "file_ok (inodes s) (pipes s) f" and "a \<noteq> 0" and "kmalloc_live s a" and "inodes s a = None"
  using own_okD(4-7) [OF fds_okD(3) [OF assms(1)]] ranI [of "held s", OF assms(2)] that by blast

text \<open>Freeing the block of a held file.\<close>

lemma free_held:
  fixes s s0 :: "'a kproc_scheme"
  assumes ok: "vfs_ok s" and a: "kmalloc_live s a" "inodes s a = None"
    and s0: "heap_view s0 = heap_view s" "inodes s0 = inodes s" "root_inode s0 = root_inode s"
  obtains s1 where "free_file a s0 = Some s1" and "same_table s0 s1" and "vfs_ok s1" and "pipes s1 = pipes s0"
    and "files s1 = (files s0)(a := None)" and "\<And>q. kmalloc_live s1 q \<longleftrightarrow> q \<noteq> a \<and> kmalloc_live s q"
    and "heap_current s1 = heap_current s" and "root_inode s1 = root_inode s"
proof -
  let ?s = "fdrop a s0"
  have v: "vfs_ok ?s" using vfs_view_same [of ?s s] ok s0 by simp
  have l: "kmalloc_live ?s = kmalloc_live s" by (rule heap_view_same) (use s0 in simp)
  have live: "kmalloc_live ?s a" and ino: "inodes ?s a = None" using a l s0 by simp_all
  obtain s1 where k: "kfree a ?s = Some s1" "vfs_ok s1" "heap_current s1 = heap_current ?s" "kheap.more s1 = kheap.more ?s"
    "\<And>q. kmalloc_live s1 q \<longleftrightarrow> q \<noteq> a \<and> kmalloc_live ?s q"
    by (rule free_ok [OF v live ino]) blast
  note g = proc_fields [OF k(4)]
  show thesis
  proof (rule that [of s1])
    show "free_file a s0 = Some s1" using k(1) by (simp add: free_file_def)
    show "same_table s0 s1" using g by (simp add: same_table_def)
    show "heap_current s1 = heap_current s" using k(3) s0(1) by (simp add: heap_view_def fdrop_def)
    show "kmalloc_live s1 q \<longleftrightarrow> q \<noteq> a \<and> kmalloc_live s q" for q using k(5) l by simp
  qed (use g k(2) s0(3) in simp_all)
qed

lemma same_table_trans: "same_table s s' \<Longrightarrow> same_table s' s'' \<Longrightarrow> same_table s s''"
  by (simp add: same_table_def)

lemma same_table_refl [simp]: "same_table s s"
  by (simp add: same_table_def)

lemma view_pipes [simp]:
  "heap_view (s\<lparr>pipes := P\<rparr>) = heap_view s" "same_table s (s\<lparr>pipes := P\<rparr>)" "same_table s (fput a f s)"
  by (simp_all add: heap_view_def same_table_def)

lemma close_file_step:
  assumes ok: "fds_ok s" and h: "held s x = Some a" and f: "files s a = Some f"
    and s1: "s1 = (case vf_pipe f of Some k \<Rightarrow> pipe_unref f k s | None \<Rightarrow> fput a (vfs_close f) s)"
  shows "length (pipes s1) = 8"
    "k < 8 \<Longrightarrow> in_use (pipes s ! k) \<Longrightarrow> refs ((held s)(x := None)) ((files s)(a := None)) k 0 \<noteq> {} \<or>
       refs ((held s)(x := None)) ((files s)(a := None)) k 1 \<noteq> {} \<Longrightarrow> in_use (pipes s1 ! k)"
    "k < 8 \<Longrightarrow> readers (pipes s ! k) - (if points f k 0 then 1 else 0) \<le> readers (pipes s1 ! k)"
    "k < 8 \<Longrightarrow> writers (pipes s ! k) - (if points f k 1 then 1 else 0) \<le> writers (pipes s1 ! k)"
    "k < 8 \<Longrightarrow> in_use (pipes s1 ! k) \<Longrightarrow> pipe_ok (pipes s1 ! k)"
    and "(files s1)(a := None) = (files s)(a := None)"
    and "heap_view s1 = heap_view s" "same_table s s1" "root_inode s1 = root_inode s"
proof -
  define goal where "goal \<longleftrightarrow> length (pipes s1) = 8 \<and> (\<forall>k < 8.
     (in_use (pipes s ! k) \<and> (refs ((held s)(x := None)) ((files s)(a := None)) k 0 \<noteq> {} \<or>
       refs ((held s)(x := None)) ((files s)(a := None)) k 1 \<noteq> {}) \<longrightarrow> in_use (pipes s1 ! k)) \<and>
     readers (pipes s ! k) - (if points f k 0 then 1 else 0) \<le> readers (pipes s1 ! k) \<and>
     writers (pipes s ! k) - (if points f k 1 then 1 else 0) \<le> writers (pipes s1 ! k) \<and>
     (in_use (pipes s1 ! k) \<longrightarrow> pipe_ok (pipes s1 ! k))) \<and>
     (files s1)(a := None) = (files s)(a := None) \<and> heap_view s1 = heap_view s \<and> same_table s s1 \<and> root_inode s1 = root_inode s"
  have own: "own_ok (held s) (files s) (pipes s) (kmalloc_live s) (inodes s)" by (rule fds_okD(3) [OF ok])
  have goal
  proof (cases "vf_pipe f")
    case None
    then show ?thesis using s1 own_okD(3) [OF own] fds_okD(4) [OF ok] by (simp add: goal_def points_def)
  next
    case (Some k)
    then have "s1 = pipe_unref f k s" using s1 by simp
    note u = pipe_unref_step [OF own h f Some this]
    obtain P where P: "s1 = s\<lparr>pipes := P\<rparr>" using u(1) by blast
    show ?thesis using u(2-6) fds_okD(4) [OF ok] unfolding goal_def by (simp add: P)
  qed
  then show "length (pipes s1) = 8"
    "k < 8 \<Longrightarrow> in_use (pipes s ! k) \<Longrightarrow> refs ((held s)(x := None)) ((files s)(a := None)) k 0 \<noteq> {} \<or>
       refs ((held s)(x := None)) ((files s)(a := None)) k 1 \<noteq> {} \<Longrightarrow> in_use (pipes s1 ! k)"
    "k < 8 \<Longrightarrow> readers (pipes s ! k) - (if points f k 0 then 1 else 0) \<le> readers (pipes s1 ! k)"
    "k < 8 \<Longrightarrow> writers (pipes s ! k) - (if points f k 1 then 1 else 0) \<le> writers (pipes s1 ! k)"
    "k < 8 \<Longrightarrow> in_use (pipes s1 ! k) \<Longrightarrow> pipe_ok (pipes s1 ! k)"
    "(files s1)(a := None) = (files s)(a := None)"
    "heap_view s1 = heap_view s" "same_table s s1" "root_inode s1 = root_inode s"
    unfolding goal_def by blast+
qed

text \<open>Closing a held descriptor: \<open>s1\<close> is the state after the pipe or the file was told, \<open>s2\<close> after the block was
  freed.\<close>

lemma close_held:
  fixes s s1 :: "'a kproc_scheme"
  assumes ok: "fds_ok s" and slot: "i < 16" "fd < 32" "held s (i, fd) = Some a" and f: "files s a = Some f"
    and s1: "length (pipes s1) = 8"
      "\<And>k. k < 8 \<Longrightarrow> in_use (pipes s ! k) \<Longrightarrow> refs ((held s)((i, fd) := None)) ((files s)(a := None)) k 0 \<noteq> {} \<or>
         refs ((held s)((i, fd) := None)) ((files s)(a := None)) k 1 \<noteq> {} \<Longrightarrow> in_use (pipes s1 ! k)"
      "\<And>k. k < 8 \<Longrightarrow> readers (pipes s ! k) - (if points f k 0 then 1 else 0) \<le> readers (pipes s1 ! k)"
      "\<And>k. k < 8 \<Longrightarrow> writers (pipes s ! k) - (if points f k 1 then 1 else 0) \<le> writers (pipes s1 ! k)"
      "\<And>k. k < 8 \<Longrightarrow> in_use (pipes s1 ! k) \<Longrightarrow> pipe_ok (pipes s1 ! k)"
      "(files s1)(a := None) = (files s)(a := None)"
      "heap_view s1 = heap_view s" "same_table s s1" "root_inode s1 = root_inode s"
  obtains s2 where "free_file a s1 = Some s2" and "fds_ok (set_fd i fd 0 s2)"
    and "held (set_fd i fd 0 s2) = (held s)((i, fd) := None)" and "heap_current s2 = heap_current s" and "same_table s s2"
    and "pipes s2 = pipes s1" and "files s2 = (files s)(a := None)" and "root_inode s2 = root_inode s"
proof -
  obtain f' where "kmalloc_live s a" "inodes s a = None" by (rule held_file [OF ok slot(3)]) blast
  then obtain s2 where k: "free_file a s1 = Some s2" "same_table s1 s2" "vfs_ok s2" "pipes s2 = pipes s1"
    "files s2 = (files s1)(a := None)" "\<And>q. kmalloc_live s2 q \<longleftrightarrow> q \<noteq> a \<and> kmalloc_live s q"
    "heap_current s2 = heap_current s" "root_inode s2 = root_inode s"
    by (rule free_held [OF fds_okD(2) [OF ok] _ _ s1(7) same_tableD(5) [OF s1(8)] s1(9)]) blast
  have t: "same_table s s2" by (rule same_table_trans [OF s1(8) k(2)])
  have "agree (set_fd i fd 0 s2\<lparr>files := (files s)(a := None), pipes := pipes s1\<rparr>) (set_fd i fd 0 s2)"
    using k(4,5) s1(6) by (simp add: agree_def)
  note new = drop_file [OF ok slot f s1(1-5) t k(3,6) this]
  show thesis using that [OF k(1) new k(7) t k(4) _ k(8)] k(5) s1(6) by simp
qed

lemma sys_close_ok:
  fixes s :: "'a kproc_scheme"
  assumes ok: "fds_ok s"
  obtains r s' where "sys_close fd s = Some (r, s')" and "fds_ok s'" and "heap_current s' = heap_current s"
    and "current_task s' = current_task s" and "inodes s' = inodes s"
    and "(r = - E_BADF \<and> s' = s) \<or> (r = 0 \<and> 0 \<le> fd \<and> held s' = (held s)((current_task s, nat fd) := None))"
proof (cases "fd < 0 \<or> fd \<ge> int PROC_MAX_FD \<or> p_fds (cur s) ! nat fd = 0")
  case True
  then have "sys_close fd s = Some (- E_BADF, s)" unfolding sys_close_def by (rule if_P)
  then show thesis using ok that [of "- E_BADF" s] by simp
next
  case False
  let ?c = "current_task s" and ?a = "p_fds (cur s) ! nat fd"
  note c = cur_slot [OF ok]
  have fd: "nat fd < 32" "0 \<le> fd" using False by auto
  have h: "held s (?c, nat fd) = Some ?a" using False c fd by (simp add: held_Some)
  obtain f where f: "files s ?a = Some f" by (rule held_file [OF ok h]) blast
  obtain s1 where s1: "s1 = (case vf_pipe f of Some k \<Rightarrow> pipe_unref f k s | None \<Rightarrow> fput ?a (vfs_close f) s)" by blast
  obtain s2 where k: "free_file ?a s1 = Some s2" "fds_ok (set_fd ?c (nat fd) 0 s2)"
    "held (set_fd ?c (nat fd) 0 s2) = (held s)((?c, nat fd) := None)" "heap_current s2 = heap_current s" "same_table s s2"
    by (rule close_held [OF ok c(1) fd(1) h f close_file_step [OF ok h f s1]]) blast
  have "sys_close fd s = Some (0, set_fd ?c (nat fd) 0 s2)"
    unfolding sys_close_def using False f s1 k(1) same_tableD(2) [OF k(5)] by (simp add: Let_def)
  then show thesis
    by (rule that [OF _ k(2)])
      (use k(3-5) fd same_tableD [OF k(5)] in \<open>simp_all add: set_fd_def on_task_def\<close>)
qed

section \<open>Duplicating\<close>

text \<open>A copy of the open file \<open>f\<close> in the slot \<open>(i, fd)\<close>, with its reference taken in the state \<open>t\<close>.\<close>

lemma dup_into:
  assumes ok: "fds_ok_but (i, fd) s" and f: "file_ok (inodes s) (pipes s) f"
    and k: "same_table s s1" "vfs_ok s1" "dst \<noteq> 0" "\<not> kmalloc_live s dst" "inodes s dst = None"
      "\<And>q. kmalloc_live s1 q \<longleftrightarrow> q = dst \<or> kmalloc_live s q"
    and slot: "i < 16" "fd < 32" "p_state (task s i) \<noteq> TASK_UNUSED"
    and ref: "pipe_ref f t = Some s2" "pipes t = pipes s"
    and s': "agree (set_fd i fd dst s1\<lparr>files := (files s)(dst \<mapsto> f), pipes := pipes s2\<rparr>) s'"
  shows "fds_ok s'" and "held s' = (held s)((i, fd) \<mapsto> dst)"
proof -
  have len: "length (pipes t) = 8" using own_okD(3) [OF fds_ok_butD(3) [OF ok]] ref(2) by simp
  have ft: "file_ok (inodes s) (pipes t) f" using f ref(2) by simp
  note r = pipe_ref_step [OF ref(1) len ft, unfolded ref(2)]
  have f2: "file_ok (inodes s) (pipes s2) f" using f r(3) by (auto simp: file_ok_def)
  note new = add_file [OF ok k slot r(2) _ _ _ _ f2 s']
  show "fds_ok s'" "held s' = (held s)((i, fd) \<mapsto> dst)"
    by (rule new; use r(3-6) fds_ok_butD(4) [OF ok] in simp)+
qed

lemma fd_get_held: "fds_ok s \<Longrightarrow> fd_get fd s = a \<Longrightarrow> a \<noteq> 0 \<Longrightarrow> 0 \<le> fd \<and> held s (current_task s, nat fd) = Some a"
  using cur_slot [of s] by (auto simp: fd_get_def held_Some split: if_splits)

lemma fd_dup_from_ok:
  fixes s :: "'a kproc_scheme"
  assumes ok: "fds_ok s" and budget: "heap_budget (0x12000 + b) s" and counts: "counts_ok s"
  obtains r s' where "fd_dup_from oldfd minfd s = Some (r, s')" and "fds_ok s'" and "heap_budget b s'"
    and "current_task s' = current_task s" and "inodes s' = inodes s"
    and "r < 0 \<and> held s' = held s \<or> minfd \<le> r \<and> r < 32 \<and> held s (current_task s, nat r) = None \<and>
      (\<exists>src dst f. held s (current_task s, nat oldfd) = Some src \<and> files s src = Some f \<and>
         held s' = (held s)((current_task s, nat r) \<mapsto> dst) \<and> files s' = (files s)(dst \<mapsto> f))"
proof (cases "fd_get oldfd s = 0 \<or> minfd < 0 \<or> minfd \<ge> int PROC_MAX_FD")
  case True
  then have "fd_dup_from oldfd minfd s = Some (- E_BADF, s)" unfolding fd_dup_from_def Let_def by (rule if_P)
  then show thesis using that [of "- E_BADF" s] ok heap_budget_le [OF budget] by simp
next
  case False
  let ?c = "current_task s" and ?src = "fd_get oldfd s"
  note c = cur_slot [OF ok]
  show thesis
  proof (cases "find (\<lambda>i. p_fds (cur s) ! i = 0) [nat minfd..<PROC_MAX_FD]")
    case None
    then have "fd_dup_from oldfd minfd s = Some (- E_BADF, s)" using False by (simp add: fd_dup_from_def Let_def)
    then show thesis using that [of "- E_BADF" s] ok heap_budget_le [OF budget] by simp
  next
    case (Some fd)
    note i = find_free_fd [OF Some]
    obtain a s1 where k: "kmalloc sizeof_vfs_file s = Some (a, s1)" "fds_ok_but (?c, fd) s1" "heap_budget b s1"
      "kheap.more s1 = kheap.more s" "vfs_ok s1" "a \<noteq> 0 \<Longrightarrow> \<not> kmalloc_live s a \<and> inodes s a = None"
      "\<And>q. kmalloc_live s1 q \<longleftrightarrow> (a \<noteq> 0 \<and> q = a) \<or> kmalloc_live s q"
      by (rule new_file_block [OF fds_ok_butI [OF ok] budget]) blast
    note g = proc_fields [OF k(4)]
    have h0: "held s (?c, fd) = None" using i by (simp add: held_def)
    have src: "held s (?c, nat oldfd) = Some ?src" using fd_get_held [OF ok refl] False by blast
    obtain f where f: "files s ?src = Some f" "file_ok (inodes s) (pipes s) f" by (rule held_file [OF ok src]) blast
    have start: "fd_dup_from oldfd minfd s = (if a = 0 then Some (- E_NOMEM, s1) else
        do { f \<leftarrow> files s1 ?src; s2 \<leftarrow> pipe_ref f (fput a f s1); Some (int fd, set_fd (current_task s2) fd a s2) })"
      using False Some k(1) by (simp add: fd_dup_from_def Let_def)
    show thesis
    proof (cases "a = 0")
      case True
      have "(held s1)((?c, fd) := None) = held s1" using h0 held_same [OF g(1)] by (simp add: fun_upd_idem)
      then have "fds_ok s1" using fds_ok_butD [OF k(2)] by (simp add: fds_ok_def)
      then show thesis using start True k(3) g that [of "- E_NOMEM" s1] held_same [OF g(1)] by simp
    next
      case a: False
      have cs: "counts_ok (fput a f s1)" using counts g by (simp add: counts_ok_def)
      have "file_ok (inodes s) (pipes (fput a f s1)) f" using f(2) g by simp
      from pipe_ref_defined [OF this cs] obtain s2 where r: "pipe_ref f (fput a f s1) = Some s2" by blast
      have "length (pipes (fput a f s1)) = 8" using own_okD(3) [OF fds_okD(3) [OF ok]] g by simp
      from pipe_ref_step(1) [OF r this] f(2) g have "s2 = (fput a f s1)\<lparr>pipes := pipes s2\<rparr>" by simp
      then obtain P where P: "s2 = (fput a f s1)\<lparr>pipes := P\<rparr>" by blast
      let ?s = "set_fd ?c fd a s2"
      have ag: "agree (set_fd ?c fd a s1\<lparr>files := (files s)(a \<mapsto> f), pipes := pipes s2\<rparr>) ?s"
        using g by (simp add: agree_def P)
      have n: "\<not> kmalloc_live s a" "inodes s a = None" "\<And>q. kmalloc_live s1 q \<longleftrightarrow> q = a \<or> kmalloc_live s q"
        using k(6,7) a by simp_all
      have fd: "fd < 32" using i by simp
      have pt: "pipes (fput a f s1) = pipes s" using g by simp
      note new = dup_into [OF fds_ok_butI [OF ok] f(2) same_table_more [OF k(4)] k(5) a n c(1) fd c(2) r pt ag]
      have "heap_budget b ?s" using heap_view_same(3) [of ?s s1] k(3) by (simp add: P)
      moreover have "fd_dup_from oldfd minfd s = Some (int fd, ?s)" using start a f(1) g r by (simp add: P)
      moreover have "files ?s = (files s)(a \<mapsto> f)" "current_task ?s = ?c" "inodes ?s = inodes s" using g by (simp_all add: P)
      ultimately show thesis using new h0 src f(1) i by (intro that [of "int fd" ?s]) auto
    qed
  qed
qed

text \<open>A held file that had no pipe gets another content.\<close>

lemma retarget:
  assumes ok: "fds_ok s" and h: "held s x = Some a" "files s a = Some g" "vf_pipe g = None"
    and P: "length P = 8" "\<And>k. k < 8 \<Longrightarrow> in_use (pipes s ! k) \<Longrightarrow> in_use (P ! k)"
      "\<And>k. k < 8 \<Longrightarrow> readers (pipes s ! k) + (if points f k 0 then 1 else 0) \<le> readers (P ! k)"
      "\<And>k. k < 8 \<Longrightarrow> writers (pipes s ! k) + (if points f k 1 then 1 else 0) \<le> writers (P ! k)"
      "\<And>k. k < 8 \<Longrightarrow> in_use (P ! k) \<Longrightarrow> pipe_ok (P ! k)"
    and f: "file_ok (inodes s) P f"
    and s': "agree (s\<lparr>files := (files s)(a \<mapsto> f), pipes := P\<rparr>) s'"
  shows "fds_ok s'" and "held s' = held s"
proof -
  let ?s = "s\<lparr>files := (files s)(a \<mapsto> f), pipes := P\<rparr>" and ?live = "\<lambda>q. q \<noteq> a \<and> kmalloc_live s q"
  note own = fds_okD(3) [OF ok]
  have np: "\<not> points g k e" for k e using h(3) by (simp add: points_def)
  have a: "a \<noteq> 0" "kmalloc_live s a" "inodes s a = None" using held_file [OF ok h(1)] by blast+
  have "own_ok ((held s)(x := None)) ((files s)(a := None)) (pipes s) ?live (inodes s)"
    by (rule own_del [OF own h(1,2)]) (use np own_okD(3) [OF own] in simp_all)
  from own_add [OF this _ a(1) _ a(3), of x "kmalloc_live s" P f]
  have "own_ok (held s) ((files s)(a \<mapsto> f)) P (kmalloc_live s) (inodes s)"
    using P f a(2) h(1) by (auto simp: fun_upd_idem)
  moreover have "held ?s = held s" by (rule held_same) simp
  moreover have "kmalloc_live ?s = kmalloc_live s" by (rule heap_view_same) simp
  moreover have "vfs_ok ?s = vfs_ok s" by (rule vfs_view_same) simp_all
  moreover have "procs_ok ?s = procs_ok s" by (rule procs_ok_same) simp_all
  ultimately have "fds_ok ?s" using fds_okD(1,2) [OF ok] P(5) by (simp add: fds_ok_def)
  then show "fds_ok s'" using fds_ok_agree [OF s'] by simp
  show "held s' = held s" using held_same [of s' s] s' by (simp add: agree_def)
qed

lemma fd_dup_ok:
  fixes s :: "'a kproc_scheme"
  assumes ok: "fds_ok s" and budget: "heap_budget (0x12000 + b) s" and counts: "counts_ok s"
  obtains r s' where "fd_dup_to oldfd (- 1) s = Some (r, s')" and "fds_ok s'" and "heap_budget b s'"
    and "current_task s' = current_task s" and "inodes s' = inodes s"
    and "r < 0 \<and> held s' = held s \<or> 0 \<le> r \<and> r < 32 \<and> held s (current_task s, nat r) = None \<and>
      (\<exists>src dst f. held s (current_task s, nat oldfd) = Some src \<and> files s src = Some f \<and>
         held s' = (held s)((current_task s, nat r) \<mapsto> dst) \<and> files s' = (files s)(dst \<mapsto> f))"
proof (cases "fd_get oldfd s = 0")
  case True
  then have "fd_dup_to oldfd (- 1) s = Some (- E_BADF, s)" by (simp add: fd_dup_to_def)
  then show thesis using that [of "- E_BADF" s] ok heap_budget_le [OF budget] by simp
next
  case False
  let ?c = "current_task s" and ?src = "fd_get oldfd s"
  have src: "held s (?c, nat oldfd) = Some ?src" using fd_get_held [OF ok refl False] by blast
  obtain f where f: "files s ?src = Some f" "file_ok (inodes s) (pipes s) f" by (rule held_file [OF ok src]) blast
  obtain fd dst s1 where a: "fd_alloc s = Some (fd, dst, s1)" "fds_ok s1" "heap_budget b s1" "pipes s1 = pipes s"
    "current_task s1 = ?c" "inodes s1 = inodes s"
    "(fd = - 1 \<and> same_table s s1 \<and> files s1 = files s) \<or>
      (0 \<le> fd \<and> fd < 32 \<and> dst \<noteq> 0 \<and> held s (?c, nat fd) = None \<and>
       held s1 = (held s)((?c, nat fd) \<mapsto> dst) \<and> files s1 = (files s)(dst \<mapsto> blank_file))"
    by (rule fd_alloc_ok [OF ok budget]) blast
  have start: "fd_dup_to oldfd (- 1) s = (if fd < 0 then Some (- E_NOMEM, s1) else
      do { f \<leftarrow> files s1 ?src; s2 \<leftarrow> pipe_ref f (fput dst f s1); Some (fd, s2) })"
    using False a(1) by (simp add: fd_dup_to_def Let_def)
  show thesis
  proof (cases "fd < 0")
    case True
    then have "same_table s s1" using a(7) by auto
    then show thesis using start True a that [of "- E_NOMEM" s1] held_same [of s1 s] by (simp add: same_table_def)
  next
    case pos: False
    then have n: "fd < 32" "held s (?c, nat fd) = None" "held s1 = (held s)((?c, nat fd) \<mapsto> dst)"
      "files s1 = (files s)(dst \<mapsto> blank_file)" using a(7) by auto
    have h1: "held s1 (?c, nat fd) = Some dst" "held s1 (?c, nat oldfd) = Some ?src"
      using n src by auto
    have ne: "?src \<noteq> dst"
      using own_once [OF own_okD(2) [OF fds_okD(3) [OF a(2)]] h1(1), of "(?c, nat oldfd)"] h1(2) src n(2) by auto
    then have f1: "files s1 ?src = Some f" using n(4) f(1) by simp
    have "counts_ok (fput dst f s1)" "file_ok (inodes s) (pipes (fput dst f s1)) f"
      using counts f(2) a(4) by (simp_all add: counts_ok_def)
    from pipe_ref_defined [OF this(2,1)] obtain s2 where r: "pipe_ref f (fput dst f s1) = Some s2" by blast
    have len: "length (pipes (fput dst f s1)) = 8" using own_okD(3) [OF fds_okD(3) [OF a(2)]] by simp
    have ft: "file_ok (inodes s1) (pipes (fput dst f s1)) f" using f(2) a(4,6) by simp
    note st = pipe_ref_step [OF r len ft]
    obtain P where P: "s2 = (fput dst f s1)\<lparr>pipes := P\<rparr>" using st(1) by blast
    have ag: "agree (s1\<lparr>files := (files s1)(dst \<mapsto> f), pipes := pipes s2\<rparr>) s2" by (simp add: P agree_def)
    have fb: "files s1 dst = Some blank_file" "vf_pipe blank_file = None" using n(4) by (simp_all add: blank_file_def)
    have f2: "file_ok (inodes s1) (pipes s2) f" using ft st(3) by (auto simp: file_ok_def)
    have new: "fds_ok s2" "held s2 = held s1"
      by (rule retarget [OF a(2) h1(1) fb st(2) _ _ _ _ f2 ag]; use st(3-6) fds_okD(4) [OF a(2)] in simp)+
    have "heap_budget b s2" using heap_view_same(3) [of s2 s1] a(3) by (simp add: P)
    moreover have "fd_dup_to oldfd (- 1) s = Some (fd, s2)" using start pos f1 r by simp
    moreover have "files s2 = (files s)(dst \<mapsto> f)" "current_task s2 = ?c" "inodes s2 = inodes s" using n a by (simp_all add: P)
    ultimately show thesis using new n src f(1) pos by (intro that [of fd s2]) auto
  qed
qed

text \<open>Duplicating onto a descriptor closes it first.  When there is no memory for the copy the old address
  stays in the table; every other slot is as it should be.\<close>

lemma fd_dup2_ok:
  fixes s :: "'a kproc_scheme"
  assumes ok: "fds_ok s" and budget: "heap_budget (0x12000 + b) s" and counts: "counts_ok s"
    and fds: "0 \<le> newfd" "newfd \<noteq> oldfd"
  obtains r s' where "fd_dup_to oldfd newfd s = Some (r, s')" and "fds_ok_but (current_task s, nat newfd) s'"
    and "heap_budget b s'" and "current_task s' = current_task s" and "inodes s' = inodes s"
    and "r = - E_NOMEM \<or> fds_ok s' \<and> (r = - E_BADF \<and> s' = s \<or> r = newfd \<and> newfd < 32 \<and>
      (\<exists>src dst f. held s (current_task s, nat oldfd) = Some src \<and> files s src = Some f \<and>
         held s' = (held s)((current_task s, nat newfd) \<mapsto> dst) \<and> files s' dst = Some f))"
proof (cases "fd_get oldfd s = 0 \<or> newfd \<ge> int PROC_MAX_FD")
  case True
  then have "fd_dup_to oldfd newfd s = Some (- E_BADF, s)"
    using fds(1) by (cases "fd_get oldfd s = 0") (simp_all add: fd_dup_to_def Let_def)
  then show thesis using that [of "- E_BADF" s] ok fds_ok_butI [OF ok] heap_budget_le [OF budget] by simp
next
  case False
  let ?c = "current_task s" and ?src = "fd_get oldfd s" and ?n = "nat newfd"
  let ?x = "(?c, ?n)" and ?a = "p_fds (cur s) ! ?n"
  note c = cur_slot [OF ok]
  have n: "?n < 32" using False fds(1) by auto
  have src: "0 \<le> oldfd" "held s (?c, nat oldfd) = Some ?src" using fd_get_held [OF ok refl] False by auto
  have ne: "(?c, nat oldfd) \<noteq> ?x" using fds src(1) by auto
  obtain f where f: "files s ?src = Some f" "file_ok (inodes s) (pipes s) f" by (rule held_file [OF ok src(2)]) blast
  define close where "close = (if ?a \<noteq> 0 then do { g \<leftarrow> files s ?a; free_file ?a (fput ?a (vfs_close g) s) } else Some s)"
  obtain s1 where cl: "close = Some s1" "fds_ok_but ?x s1" "heap_current s1 = heap_current s" "same_table s s1"
    "pipes s1 = pipes s" "files s1 ?src = Some f"
  proof (cases "?a = 0")
    case True
    then show thesis using that [of s] fds_ok_butI [OF ok] f(1) by (simp add: close_def)
  next
    case nz: False
    have h: "held s ?x = Some ?a" using nz c n by (simp add: held_Some)
    obtain g where g: "files s ?a = Some g" by (rule held_file [OF ok h]) blast
    let ?s1 = "fput ?a (vfs_close g) s"
    have P: "length (pipes ?s1) = 8" using own_okD(3) [OF fds_okD(3) [OF ok]] by simp
    have upd: "(files ?s1)(?a := None) = (files s)(?a := None)" by simp
    obtain s2 where k: "free_file ?a ?s1 = Some s2" "fds_ok (set_fd ?c ?n 0 s2)" "held (set_fd ?c ?n 0 s2) = (held s)(?x := None)"
      "heap_current s2 = heap_current s" "same_table s s2" "pipes s2 = pipes ?s1" "files s2 = (files s)(?a := None)"
      "root_inode s2 = root_inode s"
      by (rule close_held [OF ok c(1) n h g P _ _ _ _ upd]) (use fds_okD(4) [OF ok] in simp_all)
    have "?src \<noteq> ?a" using own_once [OF own_okD(2) [OF fds_okD(3) [OF ok]] h, of "(?c, nat oldfd)"] src(2) ne by auto
    moreover have "fds_ok_but ?x s2"
    proof -
      note d = fds_okD [OF k(2)]
      have "vfs_ok s2" using vfs_view_same [of "set_fd ?c ?n 0 s2" s2] d(2) by simp
      moreover have "procs_ok s2"
        using procs_ok_same [of s2 s] fds_okD(1) [OF ok] same_tableD [OF k(5)] by simp
      moreover have "kmalloc_live (set_fd ?c ?n 0 s2) = kmalloc_live s2" by (rule heap_view_same) simp
      moreover have "(held s2)(?x := None) = held (set_fd ?c ?n 0 s2)"
        unfolding k(3) using held_same [of s2 s] same_tableD(1) [OF k(5)] by simp
      ultimately show ?thesis using d(3,4) by (simp add: fds_ok_but_def)
    qed
    ultimately show thesis using that [of s2] k f(1) g nz by (simp add: close_def)
  qed
  note t = same_tableD [OF cl(4)]
  have "heap_budget (0x12000 + b) s1" using budget budget_current [OF cl(3)] by simp
  from new_file_block [OF cl(2) this] obtain dst s2 where k: "kmalloc sizeof_vfs_file s1 = Some (dst, s2)"
    "fds_ok_but ?x s2" "heap_budget b s2" "kheap.more s2 = kheap.more s1" "vfs_ok s2"
    "dst \<noteq> 0 \<Longrightarrow> \<not> kmalloc_live s1 dst \<and> inodes s1 dst = None"
    "\<And>q. kmalloc_live s2 q \<longleftrightarrow> (dst \<noteq> 0 \<and> q = dst) \<or> kmalloc_live s1 q" by blast
  note g = proc_fields [OF k(4)]
  have start: "fd_dup_to oldfd newfd s = (if dst = 0 then Some (- E_NOMEM, s2) else
      do { f \<leftarrow> files s2 ?src; s3 \<leftarrow> pipe_ref f (fput dst f (set_fd ?c ?n dst s2)); Some (newfd, s3) })"
    using False fds(1) cl(1) k(1) g t unfolding fd_dup_to_def close_def by (simp add: Let_def)
  show thesis
  proof (cases "dst = 0")
    case True
    then show thesis using start k g t that [of "- E_NOMEM" s2] by simp
  next
    case nz: False
    let ?t = "fput dst f (set_fd ?c ?n dst s2)"
    have pt: "pipes ?t = pipes s1" "pipes ?t = pipes s" using g cl(5) by simp_all
    have "counts_ok ?t" "file_ok (inodes s) (pipes ?t) f" using counts f(2) pt by (simp_all add: counts_ok_def)
    from pipe_ref_defined [OF this(2,1)] obtain s3 where r: "pipe_ref f ?t = Some s3" by blast
    have "length (pipes ?t) = 8" using own_okD(3) [OF fds_okD(3) [OF ok]] pt by simp
    from pipe_ref_step(1) [OF r this \<open>file_ok (inodes s) (pipes ?t) f\<close>] obtain P where P: "s3 = ?t\<lparr>pipes := P\<rparr>" by blast
    have f1: "file_ok (inodes s1) (pipes s1) f" using f(2) t cl(5) by simp
    have nw: "\<not> kmalloc_live s1 dst" "inodes s1 dst = None" "\<And>q. kmalloc_live s2 q \<longleftrightarrow> q = dst \<or> kmalloc_live s1 q"
      using k(6,7) nz by simp_all
    have st: "p_state (task s1 ?c) \<noteq> TASK_UNUSED" using c(2) t by simp
    have ag: "agree (set_fd ?c ?n dst s2\<lparr>files := (files s1)(dst \<mapsto> f), pipes := pipes s3\<rparr>) s3"
      using g by (simp add: agree_def P)
    have new: "fds_ok s3" "held s3 = (held s1)(?x \<mapsto> dst)"
      using dup_into [OF cl(2) f1 same_table_more [OF k(4)] k(5) nz nw c(1) n st r pt(1) ag] by blast+
    have "heap_budget b s3" using heap_view_same(3) [of s3 s2] k(3) by (simp add: P)
    moreover have "fd_dup_to oldfd newfd s = Some (newfd, s3)" using start nz cl(6) g r by simp
    moreover have "files s3 dst = Some f" "current_task s3 = ?c" "inodes s3 = inodes s" using g t by (simp_all add: P)
    moreover have "held s3 = (held s)(?x \<mapsto> dst)" using new(2) held_same [OF t(1)] by simp
    ultimately show thesis
      using new(1) fds_ok_butI [OF new(1)] src(2) f(1) n fds(1) by (intro that [of newfd s3]) auto
  qed
qed

text \<open>Duplicating a descriptor onto itself reads the open file after its block was freed.\<close>

lemma fd_dup_same:
  assumes ok: "fds_ok s" and h: "held s (current_task s, nat fd) = Some a" "0 \<le> fd"
  shows "fd_dup_to fd fd s = None \<or> (\<exists>s'. fd_dup_to fd fd s = Some (- E_NOMEM, s'))"
proof -
  have fd: "p_fds (cur s) ! nat fd = a" "a \<noteq> 0" "fd < 32" using h by (auto simp: held_Some)
  obtain f where f: "files s a = Some f" "file_ok (inodes s) (pipes s) f" "a \<noteq> 0" "kmalloc_live s a" "inodes s a = None"
    by (rule held_file [OF ok h(1)]) blast
  let ?s = "fput a (vfs_close f) s"
  obtain s1 where k: "free_file a ?s = Some s1" "files s1 = (files ?s)(a := None)"
    by (rule free_held [OF fds_okD(2) [OF ok] f(4,5), of ?s]) auto
  show ?thesis
  proof (cases "kmalloc sizeof_vfs_file s1")
    case (Some x)
    obtain dst s2 where x: "x = (dst, s2)" by fastforce
    have "files s2 a = None" using kmalloc_fields(5) Some x k(2) by fastforce
    then show ?thesis using fd h(2) f(1) k(1) Some x by (simp add: fd_dup_to_def fd_get_def Let_def)
  qed (use fd h(2) f(1) k(1) in \<open>simp add: fd_dup_to_def fd_get_def Let_def\<close>)
qed

section \<open>Opening files and pipes\<close>

text \<open>Opening returns whenever the path lookup does; the new descriptor holds the file.\<close>

lemma vfs_open_result:
  assumes "vfs_open path f s = Some (r, f')" and "file_ok (inodes s) P f"
  shows "vf_pipe f' = vf_pipe f" "vf_pipe_end f' = vf_pipe_end f" "file_ok (inodes s) P f'" "r \<noteq> 0 \<Longrightarrow> f' = f"
    "r = 0 \<Longrightarrow> vf_inode f' \<noteq> 0 \<and> vf_pos f' = 0"
  using assms by (auto simp: vfs_open_def file_ok_def split: Option.bind_splits if_splits)

lemma sys_open_ok:
  fixes s :: "'a kproc_scheme"
  assumes ok: "fds_ok s" and budget: "heap_budget (0x12000 + b) s" and run: "sys_open_path path s = Some (r, s')"
  shows "fds_ok s'" and "heap_budget b s'" and "current_task s' = current_task s" and "inodes s' = inodes s"
    and "r < 0 \<and> held s' = held s \<or> 0 \<le> r \<and> r < 32 \<and> (\<exists>a f. held s' = (held s)((current_task s, nat r) \<mapsto> a) \<and>
      files s' a = Some f \<and> vf_pipe f = None \<and> vf_pos f = 0)"
proof -
  let ?c = "current_task s"
  obtain fd a s1 where k: "fd_alloc s = Some (fd, a, s1)" "fds_ok s1" "heap_budget b s1" "pipes s1 = pipes s"
    "current_task s1 = ?c" "inodes s1 = inodes s"
    "(fd = - 1 \<and> same_table s s1 \<and> files s1 = files s) \<or>
      (0 \<le> fd \<and> fd < 32 \<and> a \<noteq> 0 \<and> held s (?c, nat fd) = None \<and>
       held s1 = (held s)((?c, nat fd) \<mapsto> a) \<and> files s1 = (files s)(a \<mapsto> blank_file))"
    by (rule fd_alloc_ok [OF ok budget]) blast
  define goal where "goal \<longleftrightarrow> fds_ok s' \<and> heap_budget b s' \<and> current_task s' = ?c \<and> inodes s' = inodes s \<and>
    (r < 0 \<and> held s' = held s \<or> 0 \<le> r \<and> r < 32 \<and> (\<exists>a f. held s' = (held s)((?c, nat r) \<mapsto> a) \<and>
      files s' a = Some f \<and> vf_pipe f = None \<and> vf_pos f = 0))"
  have goal
  proof (cases "fd < 0")
    case True
    then have s': "r = - E_NOMEM" "s' = s1" using run k(1) by (auto simp: sys_open_path_def)
    have "same_table s s1" using k(7) True by auto
    then show ?thesis using k s' held_same [of s1 s] by (simp add: goal_def same_table_def)
  next
    case False
    then have n: "0 \<le> fd" "fd < 32" "a \<noteq> 0" "held s (?c, nat fd) = None" "held s1 = (held s)((?c, nat fd) \<mapsto> a)"
      "files s1 = (files s)(a \<mapsto> blank_file)" using k(7) by auto
    have h1: "held s1 (?c, nat fd) = Some a" "files s1 a = Some blank_file" using n by simp_all
    have nb: "vf_pipe blank_file = None" by (simp add: blank_file_def)
    have set: "fds_ok (fput a f s1)" "held (fput a f s1) = held s1" "heap_budget b (fput a f s1)"
      if f: "file_ok (inodes s1) (pipes s1) f" "vf_pipe f = None" for f
    proof -
      have ag: "agree (s1\<lparr>files := (files s1)(a \<mapsto> f), pipes := pipes s1\<rparr>) (fput a f s1)" by (simp add: agree_def)
      have np: "\<not> points f k e" for k e using f(2) by (simp add: points_def)
      show "fds_ok (fput a f s1)" "held (fput a f s1) = held s1"
        by (rule retarget [OF k(2) h1 nb _ _ _ _ _ f(1) ag];
            use np own_okD(3) [OF fds_okD(3) [OF k(2)]] fds_okD(4) [OF k(2)] in simp)+
      show "heap_budget b (fput a f s1)" using heap_view_same(3) [of "fput a f s1" s1] k(3) by simp
    qed
    show ?thesis
    proof (cases "is_console_path path \<or> is_null_path path")
      case True
      then have s': "r = fd" "s' = fput a (blank_file\<lparr>vf_path := take 255 path\<rparr>) s1"
        using run k(1) False by (auto simp: sys_open_path_def)
      have "vf_pipe (blank_file\<lparr>vf_path := take 255 path\<rparr>) = None" by (simp add: blank_file_def)
      note st = set [OF blank_file_ok(3) this]
      show ?thesis using st s' n k(5,6) unfolding goal_def by (auto intro!: exI [of _ a] simp: blank_file_def)
    next
      case vfs: False
      obtain r1 f where o: "vfs_open path blank_file s1 = Some (r1, f)"
        and rest: "(let s2 = fput a f s1 in if r1 \<noteq> 0 then
            do { s3 \<leftarrow> free_file (p_fds (cur s2) ! nat fd) s2; Some (- E_NOENT, set_fd (current_task s3) (nat fd) 0 s3) }
          else Some (fd, s2)) = Some (r, s')"
        using run k(1) False vfs h1(2) by (auto simp: sys_open_path_def Let_def split: Option.bind_splits)
      note f = vfs_open_result [OF o blank_file_ok(1)]
      show ?thesis
      proof (cases "r1 = 0")
        case True
        then have s': "r = fd" "s' = fput a f s1" using rest by simp_all
        note st = set [OF f(3) f(1) [unfolded nb]]
        show ?thesis using st s' n k(5,6) f(1,5) nb True unfolding goal_def by (auto intro!: exI [of _ a])
      next
        case bad: False
        let ?s2 = "fput a blank_file s1"
        have s2: "fds_ok ?s2" "held ?s2 = held s1" using set [OF blank_file_ok(1) nb] by simp_all
        have h2: "held ?s2 (?c, nat fd) = Some a" "files ?s2 a = Some blank_file" using h1 s2(2) by simp_all
        have fda: "p_fds (cur ?s2) ! nat fd = a" using h2(1) k(5) by (simp add: held_Some)
        have c: "?c < 16" using cur_slot(1) [OF ok] .
        have len: "length (pipes ?s2) = 8" using own_okD(3) [OF fds_okD(3) [OF s2(1)]] .
        obtain s3 where d: "free_file a ?s2 = Some s3" "fds_ok (set_fd ?c (nat fd) 0 s3)"
          "held (set_fd ?c (nat fd) 0 s3) = (held ?s2)((?c, nat fd) := None)" "heap_current s3 = heap_current ?s2" "same_table ?s2 s3"
          by (rule close_held [OF s2(1) c _ h2 len]) (use n(2) fds_okD(4) [OF s2(1)] in auto)
        have s': "r = - E_NOENT" "s' = set_fd ?c (nat fd) 0 s3"
          using rest bad f(4) d(1) fda same_tableD(2) [OF d(5)] k(5) by (simp_all add: Let_def)
        have "heap_budget b s'"
          using budget_current [of s' ?s2 b] set(3) [OF blank_file_ok(1) nb] d(4) s'(2) by (simp add: set_fd_def on_task_def)
        moreover have "held s' = held s" unfolding s'(2) d(3) s2(2) using n(4,5) by (simp add: fun_upd_idem)
        ultimately show ?thesis using d(2) s' same_tableD [OF d(5)] k(5,6) by (simp add: goal_def)
      qed
    qed
  qed
  then show "fds_ok s'" "heap_budget b s'" "current_task s' = current_task s" "inodes s' = inodes s"
    "r < 0 \<and> held s' = held s \<or> 0 \<le> r \<and> r < 32 \<and> (\<exists>a f. held s' = (held s)((current_task s, nat r) \<mapsto> a) \<and>
      files s' a = Some f \<and> vf_pipe f = None \<and> vf_pos f = 0)"
    unfolding goal_def by blast+
qed

text \<open>Taking a pipe out of use, and into use.\<close>

lemma own_pipe:
  assumes ok: "own_ok H F P live I" and k: "k < 8" "refs H F k 0 = {}" "refs H F k 1 = {}" and p: "0 \<le> readers p" "0 \<le> writers p"
  shows "own_ok H F (P[k := p]) live I"
proof -
  note o = own_okD [OF ok]
  have "file_ok I (P[k := p]) f" if a: "a \<in> ran H" "F a = Some f" "file_ok I P f" for a f
  proof -
    obtain x where "H x = Some a" using a(1) by (auto simp: ran_def)
    then have "\<not> points f k 0" "\<not> points f k 1" using a(2) k(2,3) by (auto simp: refs_def)
    then show ?thesis using a(3) k(1) o(3) by (auto simp: file_ok_def points_def nth_list_update)
  qed
  then have "\<forall>a \<in> ran H. a \<noteq> 0 \<and> live a \<and> I a = None \<and> (\<exists>f. F a = Some f \<and> file_ok I (P[k := p]) f)"
    using o(4-6) o(7) by blast
  moreover have "int (card (refs H F j 0)) \<le> readers (P[k := p] ! j) \<and> int (card (refs H F j 1)) \<le> writers (P[k := p] ! j)"
    if "j < 8" for j
    using that o(3,8,9) k p by (cases "j = k") simp_all
  ultimately show ?thesis unfolding own_ok_def using o(1-3) by simp
qed

lemma refs_unused:
  assumes "own_ok H F P live I" and "k < 8" and "\<not> in_use (P ! k)"
  shows "refs H F k e = {}"
proof -
  have False if "H x = Some a" "F a = Some f" "points f k e" for x a f
    using own_okD(7) [OF assms(1) ranI [of H, OF that(1)]] that(2,3) assms(3) by (auto simp: file_ok_def points_def)
  then show ?thesis by (auto simp: refs_def)
qed

lemma refs_zero:
  assumes "own_ok H F P live I" and "k < 8"
  shows "readers (P ! k) = 0 \<Longrightarrow> refs H F k 0 = {}" "writers (P ! k) = 0 \<Longrightarrow> refs H F k 1 = {}"
  using own_okD(8,9) [OF assms] refs_finite [OF own_okD(1) [OF assms(1)]] card_0_eq by (fastforce simp: card_0_eq)+

lemma fds_ok_pipe:
  assumes ok: "fds_ok s" and k: "k < 8" "refs (held s) (files s) k 0 = {}" "refs (held s) (files s) k 1 = {}"
    and p: "0 \<le> readers p" "0 \<le> writers p" "in_use p \<Longrightarrow> pipe_ok p"
  shows "fds_ok (s\<lparr>pipes := (pipes s)[k := p]\<rparr>)"
proof -
  let ?s = "s\<lparr>pipes := (pipes s)[k := p]\<rparr>"
  have "held ?s = held s" by (rule held_same) simp
  moreover have "kmalloc_live ?s = kmalloc_live s" by (rule heap_view_same) simp
  moreover have "vfs_ok ?s = vfs_ok s" by (rule vfs_view_same) simp_all
  moreover have "procs_ok ?s = procs_ok s" by (rule procs_ok_same) simp_all
  ultimately show ?thesis
    using own_pipe [OF fds_okD(3) [OF ok] k p(1,2)] fds_okD [OF ok] k(1) p(3) own_okD(3) [OF fds_okD(3) [OF ok]]
    by (auto simp: fds_ok_def nth_list_update)
qed

lemma zero_pipe_ok: "pipe_ok (zero_pipe\<lparr>in_use := b\<rparr>)"
  by (simp add: pipe_ok_def zero_pipe_def)

lemma pipe_alloc_ok:
  assumes ok: "fds_ok s" and run: "proc_pipe_alloc s = (r, s1)"
  shows "fds_ok s1" "r = None \<Longrightarrow> s1 = s"
    "r = Some k \<Longrightarrow> k < 8 \<and> \<not> in_use (pipes s ! k) \<and> s1 = s\<lparr>pipes := (pipes s)[k := zero_pipe\<lparr>in_use := True\<rparr>]\<rparr>"
proof -
  have len: "length (pipes s) = 8" using own_okD(3) [OF fds_okD(3) [OF ok]] .
  show sp: "r = Some k \<Longrightarrow> k < 8 \<and> \<not> in_use (pipes s ! k) \<and> s1 = s\<lparr>pipes := (pipes s)[k := zero_pipe\<lparr>in_use := True\<rparr>]\<rparr>" for k
    using run unfolding proc_pipe_alloc_def by (auto simp: find_Some_iff on_pipe_eq split: option.splits)
  show n: "r = None \<Longrightarrow> s1 = s" using run unfolding proc_pipe_alloc_def by (auto split: option.splits)
  show "fds_ok s1"
  proof (cases r)
    case (Some k)
    note u = refs_unused [OF fds_okD(3) [OF ok], of k]
    show ?thesis
      using sp [OF Some] fds_ok_pipe [OF ok _ u u, of "zero_pipe\<lparr>in_use := True\<rparr>"] zero_pipe_ok [of True]
      by (simp add: zero_pipe_def)
  qed (use n ok in simp)
qed

text \<open>Both ends of a new pipe that could not be returned are closed again.\<close>

lemma close_two:
  fixes s :: "'a kproc_scheme"
  assumes ok: "fds_ok s" and i: "i < 16" "m < 32" "n < 32" "m \<noteq> n"
    and h: "held s (i, m) = Some a" "held s (i, n) = Some b" "files s a = Some f" "files s b = Some g"
    and f: "vf_pipe f = Some k" "vf_pipe g = Some k" "k < 8"
    and only: "refs ((held s)((i, m) := None, (i, n) := None)) (files s) k 0 = {}"
      "refs ((held s)((i, m) := None, (i, n) := None)) (files s) k 1 = {}"
  obtains s1 s2 where "free_file a (set_fd i n 0 (set_fd i m 0 s)) = Some s1" and "free_file b s1 = Some s2"
    and "fds_ok (proc_pipe_free k s2)" and "held s2 = (held s)((i, m) := None, (i, n) := None)"
    and "heap_current s2 = heap_current s" and "current_task s2 = current_task s" and "inodes s2 = inodes s"
proof -
  let ?t = "set_fd i n 0 (set_fd i m 0 s)" and ?H1 = "(held s)((i, m) := None)"
  let ?H = "?H1((i, n) := None)"
  have st: "p_state (task s i) \<noteq> TASK_UNUSED" using h(1) by (simp add: held_Some)
  have pm: "procs_ok (set_fd i m 0 s)" by (rule set_fd_ok [OF fds_okD(1) [OF ok] i(1)])
  have stm: "p_state (task (set_fd i m 0 s) i) \<noteq> TASK_UNUSED"
    using st procs_okD(1) [OF fds_okD(1) [OF ok]] i(1) by simp
  have pt: "procs_ok ?t" by (rule set_fd_ok [OF pm i(1)])
  have ht: "held ?t = ?H"
    using held_set_fd [OF pm i(1,3) stm] held_set_fd [OF fds_okD(1) [OF ok] i(1,2) st] by simp
  have ab: "b \<noteq> a" using own_once [OF own_okD(2) [OF fds_okD(3) [OF ok]] h(1), of "(i, n)"] h(2) i(4) by auto
  have a: "kmalloc_live s a" "inodes s a = None" using held_file [OF ok h(1)] by blast+
  have b: "kmalloc_live s b" "inodes s b = None" using held_file [OF ok h(2)] by blast+
  obtain s1 where k1: "free_file a ?t = Some s1" "same_table ?t s1" "vfs_ok s1" "pipes s1 = pipes ?t"
    "files s1 = (files ?t)(a := None)" "\<And>q. kmalloc_live s1 q \<longleftrightarrow> q \<noteq> a \<and> kmalloc_live s q"
    "heap_current s1 = heap_current s"
    by (rule free_held [OF fds_okD(2) [OF ok] a, of ?t]) auto
  have b1: "kmalloc_live s1 b" "inodes s1 b = None" using k1(6) b ab same_tableD(5) [OF k1(2)] by auto
  obtain s2 where k2: "free_file b s1 = Some s2" "same_table s1 s2" "vfs_ok s2" "pipes s2 = pipes s1"
    "files s2 = (files s1)(b := None)" "\<And>q. kmalloc_live s2 q \<longleftrightarrow> q \<noteq> b \<and> kmalloc_live s1 q"
    "heap_current s2 = heap_current s1"
    by (rule free_held [OF k1(3) b1 refl refl refl]) blast
  have T: "same_table ?t s2" by (rule same_table_trans [OF k1(2) k2(2)])
  note own = fds_okD(3) [OF ok]
  have len: "length (pipes s) = 8" by (rule own_okD(3) [OF own])
  have o1: "own_ok ?H1 ((files s)(a := None)) (pipes s) (kmalloc_live s1) (inodes s)"
    by (rule own_del [OF own h(1,3)]) (use k1(6) len in simp_all)
  have o2: "own_ok ?H ((files s)(a := None, b := None)) (pipes s) (kmalloc_live s2) (inodes s)"
    by (rule own_del [OF o1, where f = g]) (use k2(6) len h(2,4) ab i(4) in simp_all)
  have sub: "refs ?H ((files s)(a := None, b := None)) k e \<subseteq> refs ?H (files s) k e" for e
    by (auto simp: refs_def split: if_splits)
  have none: "refs ?H ((files s)(a := None, b := None)) k 0 = {}" "refs ?H ((files s)(a := None, b := None)) k 1 = {}"
    using sub [of 0] sub [of 1] only by auto
  let ?p = "(pipes s ! k)\<lparr>in_use := False\<rparr>" and ?s = "proc_pipe_free k s2"
  have pos: "0 \<le> readers ?p" "0 \<le> writers ?p" using own_okD(8,9) [OF own f(3)] by simp_all
  have o3: "own_ok ?H ((files s)(a := None, b := None)) ((pipes s)[k := ?p]) (kmalloc_live s2) (inodes s)"
    by (rule own_pipe [OF o2 f(3) none pos])
  have "held ?s = ?H" using held_same [of ?s ?t] same_tableD(1) [OF T] ht by (simp add: proc_pipe_free_def)
  moreover have "kmalloc_live ?s = kmalloc_live s2" by (rule heap_view_same) (simp add: proc_pipe_free_def)
  moreover have "vfs_ok ?s" using vfs_view_same [of ?s s2] k2(3) by (simp add: proc_pipe_free_def)
  moreover have "procs_ok ?s" using procs_ok_same [of ?s ?t] pt same_tableD [OF T] by (simp add: proc_pipe_free_def)
  moreover have "files ?s = (files s)(a := None, b := None)" "inodes ?s = inodes s"
    using k1(5) k2(5) same_tableD(5) [OF T] by (simp_all add: proc_pipe_free_def)
  moreover have "pipes ?s = (pipes s)[k := ?p]" using k1(4) k2(4) by (simp add: proc_pipe_free_def)
  ultimately have "fds_ok ?s"
    using o3 fds_okD(4) [OF ok] len f(3) unfolding fds_ok_def by (auto simp: nth_list_update)
  moreover have "held s2 = ?H" using held_same [of s2 ?t] same_tableD(1) [OF T] ht by simp
  ultimately show thesis
    using that [OF k1(1) k2(1)] k1(7) k2(7) same_tableD [OF T] by simp
qed

lemma copy_to_user_agree:
  assumes "copy_to_user a bs s = Some (r, s')"
  shows "agree s s'"
  using copy_to_user_more [OF assms] heap_fields [OF copy_to_user_more [OF assms]]
    proc_fields [OF proc_fields_paging [OF copy_to_user_more [OF assms]]]
  by (simp add: agree_def heap_view_def)

text \<open>Both ends are installed: \<open>s\<close> is the state in which the descriptors hold blank files.\<close>

lemma pipe_ends:
  assumes ok: "fds_ok s" and k: "k < 8" "in_use (pipes s ! k)" "readers (pipes s ! k) = 0" "writers (pipes s ! k) = 0"
    and h: "held s x = Some a" "held s y = Some b" "x \<noteq> y" "files s a = Some blank_file" "files s b = Some blank_file"
  defines "s5 \<equiv> fput b (pipe_file k 1) (fput a (pipe_file k 0) (on_pipe k (\<lambda>p. p\<lparr>readers := 1, writers := 1\<rparr>) s))"
  shows "fds_ok s5" and "held s5 = held s" and "a \<noteq> b"
proof -
  have len: "length (pipes s) = 8" using own_okD(3) [OF fds_okD(3) [OF ok]] .
  show ab: "a \<noteq> b" using own_once [OF own_okD(2) [OF fds_okD(3) [OF ok]] h(1), of y] h(2,3) by auto
  let ?s1 = "s\<lparr>files := (files s)(a \<mapsto> pipe_file k 0), pipes := (pipes s)[k := (pipes s ! k)\<lparr>readers := 1\<rparr>]\<rparr>"
  have nb: "vf_pipe blank_file = None" by (simp add: blank_file_def)
  have pk: "pipe_ok (pipes s ! k)" using fds_okD(4) [OF ok k(1,2)] .
  have f0: "file_ok (inodes s) ((pipes s)[k := (pipes s ! k)\<lparr>readers := 1\<rparr>]) (pipe_file k 0)"
    using k len by (simp add: file_ok_def pipe_file_def blank_file_def)
  have 1: "fds_ok ?s1" "held ?s1 = held s"
    by (rule retarget [OF ok h(1,4) nb _ _ _ _ _ f0];
        use len k pk fds_okD(4) [OF ok] in \<open>auto simp: agree_def nth_list_update points_def pipe_file_def pipe_ok_def split: if_splits\<close>)+
  have hb: "held ?s1 y = Some b" "files ?s1 b = Some blank_file" using 1(2) h ab by auto
  have f1: "file_ok (inodes ?s1) ((pipes s)[k := (pipes s ! k)\<lparr>readers := 1, writers := 1\<rparr>]) (pipe_file k 1)"
    using k len by (simp add: file_ok_def pipe_file_def blank_file_def)
  have ag: "agree (?s1\<lparr>files := (files ?s1)(b \<mapsto> pipe_file k 1), pipes := (pipes s)[k := (pipes s ! k)\<lparr>readers := 1, writers := 1\<rparr>]\<rparr>) s5"
    by (simp add: agree_def s5_def)
  have 2: "fds_ok s5" "held s5 = held ?s1"
    by (rule retarget [OF 1(1) hb nb _ _ _ _ _ f1 ag];
        use len k pk fds_okD(4) [OF ok] in \<open>auto simp: nth_list_update points_def pipe_file_def pipe_ok_def split: if_splits\<close>)+
  then show "fds_ok s5" "held s5 = held s" using 1(2) by simp_all
qed

lemma sys_pipe_ok:
  fixes s :: "'a kproc_scheme"
  assumes ok: "fds_ok s" and budget: "heap_budget (0x24000 + b) s" and run: "sys_pipe_impl ufd s = Some (r, s')"
  shows "fds_ok s' \<and> heap_budget b s' \<and> current_task s' = current_task s \<and> inodes s' = inodes s \<and>
    (r < 0 \<and> held s' = held s \<or> r = 0 \<and> (\<exists>m n p q k. m < 32 \<and> n < 32 \<and> m \<noteq> n \<and> k < 8 \<and> \<not> in_use (pipes s ! k) \<and>
       held s' = (held s)((current_task s, m) \<mapsto> p, (current_task s, n) \<mapsto> q) \<and>
       files s' p = Some (pipe_file k 0) \<and> files s' q = Some (pipe_file k 1) \<and> pipe_items (pipes s' ! k) = []))"
proof -
  let ?c = "current_task s"
  note c = cur_slot [OF ok]
  have b0: "heap_budget (0x12000 + (0x12000 + b)) s" using heap_budget_le [OF budget] by simp
  obtain k0 s1 where pa: "proc_pipe_alloc s = (k0, s1)" by fastforce
  note pk = pipe_alloc_ok [OF ok pa]
  show ?thesis
  proof (cases k0)
    case None
    then show ?thesis using run pa pk(2) ok heap_budget_le [OF budget] by (simp add: sys_pipe_impl_def)
  next
    case (Some k)
    have k: "k < 8" "\<not> in_use (pipes s ! k)" and s1: "s1 = s\<lparr>pipes := (pipes s)[k := zero_pipe\<lparr>in_use := True\<rparr>]\<rparr>"
      using pk(3) [OF Some] by auto
    have len: "length (pipes s) = 8" using own_okD(3) [OF fds_okD(3) [OF ok]] .
    have p1: "pipes s1 ! k = zero_pipe\<lparr>in_use := True\<rparr>" using s1 k(1) len by simp
    have h1: "held s1 = held s" by (rule held_same) (simp add: s1)
    have b1: "heap_budget (0x12000 + (0x12000 + b)) s1" using heap_view_same(3) [of s1 s] b0 by (simp add: s1)
    obtain m p s2 where a2: "fd_alloc s1 = Some (m, p, s2)" "fds_ok s2" "heap_budget (0x12000 + b) s2" "pipes s2 = pipes s1"
      "current_task s2 = current_task s1" "inodes s2 = inodes s1"
      "(m = - 1 \<and> same_table s1 s2 \<and> files s2 = files s1) \<or>
        (0 \<le> m \<and> m < 32 \<and> p \<noteq> 0 \<and> held s1 (current_task s1, nat m) = None \<and>
         held s2 = (held s1)((current_task s1, nat m) \<mapsto> p) \<and> files s2 = (files s1)(p \<mapsto> blank_file))"
      by (rule fd_alloc_ok [OF pk(1) b1]) blast
    have free: "fds_ok (proc_pipe_free k t)" "held (proc_pipe_free k t) = held t" "heap_budget b (proc_pipe_free k t) = heap_budget b t"
      if t: "fds_ok t" "pipes t = pipes s1" for t
    proof -
      have z: "readers (pipes t ! k) = 0" "writers (pipes t ! k) = 0" using t(2) p1 by (simp_all add: zero_pipe_def)
      have "proc_pipe_free k t = t\<lparr>pipes := (pipes t)[k := (pipes t ! k)\<lparr>in_use := False\<rparr>]\<rparr>"
        by (simp add: proc_pipe_free_def on_pipe_eq)
      moreover have "fds_ok \<dots>"
        by (rule fds_ok_pipe [OF t(1) k(1) refs_zero(1) [OF fds_okD(3) [OF t(1)] k(1) z(1)]
              refs_zero(2) [OF fds_okD(3) [OF t(1)] k(1) z(2)]]) (simp_all add: z)
      ultimately show "fds_ok (proc_pipe_free k t)" by simp
      show "held (proc_pipe_free k t) = held t" by (rule held_same) (simp add: proc_pipe_free_def)
      show "heap_budget b (proc_pipe_free k t) = heap_budget b t" by (rule heap_view_same) (simp add: proc_pipe_free_def)
    qed
    have cs: "current_task s1 = ?c" "inodes s1 = inodes s" by (simp_all add: s1)
    show ?thesis
    proof (cases "m < 0")
      case True
      then have s': "r = - E_NOMEM" "s' = proc_pipe_free k s2" using run pa Some a2(1) by (auto simp: sys_pipe_impl_def)
      have "held s2 = held s" using a2(7) True h1 held_same [of s2 s1] by (auto simp: same_table_def)
      then show ?thesis
        using s' free [OF a2(2,4)] heap_budget_le [OF a2(3), of b] a2(5,6) cs by (simp add: proc_pipe_free_def)
    next
      case m: False
      then have m2: "0 \<le> m" "m < 32" "held s (?c, nat m) = None" "held s2 = (held s)((?c, nat m) \<mapsto> p)"
        "files s2 = (files s1)(p \<mapsto> blank_file)" using a2(7) h1 cs by auto
      obtain n q s3 where a3: "fd_alloc s2 = Some (n, q, s3)" "fds_ok s3" "heap_budget b s3" "pipes s3 = pipes s2"
        "current_task s3 = current_task s2" "inodes s3 = inodes s2"
        "(n = - 1 \<and> same_table s2 s3 \<and> files s3 = files s2) \<or>
          (0 \<le> n \<and> n < 32 \<and> q \<noteq> 0 \<and> held s2 (current_task s2, nat n) = None \<and>
           held s3 = (held s2)((current_task s2, nat n) \<mapsto> q) \<and> files s3 = (files s2)(q \<mapsto> blank_file))"
        by (rule fd_alloc_ok [OF a2(2,3)]) blast
      have c3: "current_task s3 = ?c" "inodes s3 = inodes s" "pipes s3 = pipes s1" using a2 a3 cs by simp_all
      show ?thesis
      proof (cases "n < 0")
        case True
        then have n3: "held s3 = held s2" "files s3 = files s2" using a3(7) held_same [of s3 s2] by (auto simp: same_table_def)
        have hp: "held s3 (?c, nat m) = Some p" "files s3 p = Some blank_file" using n3 m2 by simp_all
        have fp: "p_fds (cur s3) ! nat m = p" using hp(1) c3(1) by (simp add: held_Some)
        have l3: "length (pipes s3) = 8" using own_okD(3) [OF fds_okD(3) [OF a3(2)]] .
        obtain s4 where d: "free_file p s3 = Some s4" "fds_ok (set_fd ?c (nat m) 0 s4)"
          "held (set_fd ?c (nat m) 0 s4) = (held s3)((?c, nat m) := None)" "heap_current s4 = heap_current s3" "same_table s3 s4"
          "pipes s4 = pipes s3"
          by (rule close_held [OF a3(2) c(1) _ hp l3]) (use m2(2) fds_okD(4) [OF a3(2)] in auto)
        have s': "r = - E_NOMEM" "s' = proc_pipe_free k (set_fd ?c (nat m) 0 s4)"
          using run pa Some a2(1) m a3(1) True fp d(1) same_tableD(2) [OF d(5)] c3(1)
          by (simp_all add: sys_pipe_impl_def)
        have "heap_budget b (set_fd ?c (nat m) 0 s4)"
          using budget_current [of "set_fd ?c (nat m) 0 s4" s3 b] a3(3) d(4) by (simp add: set_fd_def on_task_def)
        moreover have "held (set_fd ?c (nat m) 0 s4) = held s" using d(3) n3(1) m2(3,4) by (simp add: fun_upd_idem)
        ultimately show ?thesis
          using s' free [OF d(2)] d(6) c3 same_tableD [OF d(5)] by (simp add: proc_pipe_free_def)
      next
        case nn: False
        then have n2: "0 \<le> n" "n < 32" "held s2 (?c, nat n) = None" "held s3 = (held s2)((?c, nat n) \<mapsto> q)"
          "files s3 = (files s2)(q \<mapsto> blank_file)" using a3(7) a2(5) cs by auto
        have mn: "nat m \<noteq> nat n" using n2(3) m2(4) by auto
        have hp: "held s3 (?c, nat m) = Some p" "held s3 (?c, nat n) = Some q" using n2 m2 mn by simp_all
        have pq: "p \<noteq> q" using own_once [OF own_okD(2) [OF fds_okD(3) [OF a3(2)]] hp(1), of "(?c, nat n)"] hp(2) mn by auto
        have fp: "files s3 p = Some blank_file" "files s3 q = Some blank_file" using n2 m2 pq by simp_all
        have zk: "in_use (pipes s3 ! k)" "readers (pipes s3 ! k) = 0" "writers (pipes s3 ! k) = 0"
          using c3(3) p1 by (simp_all add: zero_pipe_def)
        define s5 where "s5 = fput q (pipe_file k 1) (fput p (pipe_file k 0) (on_pipe k (\<lambda>p. p\<lparr>readers := 1, writers := 1\<rparr>) s3))"
        have e: "fds_ok s5" "held s5 = held s3" using pipe_ends [OF a3(2) k(1) zk hp _ fp] mn unfolding s5_def by auto
        obtain r0 s6 where cp: "copy_to_user ufd (int_bytes m @ int_bytes n) s5 = Some (r0, s6)"
          using run pa Some a2(1) m a3(1) nn by (auto simp: sys_pipe_impl_def s5_def Let_def split: Option.bind_splits)
        note ag = copy_to_user_agree [OF cp]
        have e6: "fds_ok s6" "held s6 = held s3" using fds_ok_agree [OF ag] e held_same [of s6 s5] ag by (simp_all add: agree_def)
        have f6: "files s6 p = Some (pipe_file k 0)" "files s6 q = Some (pipe_file k 1)" "current_task s6 = ?c" "inodes s6 = inodes s"
          "heap_budget b s6" "pipes s6 ! k = zero_pipe\<lparr>in_use := True, readers := 1, writers := 1\<rparr>"
          using ag pq c3 heap_view_same(3) [of s6 s5] heap_view_same(3) [of s5 s3] a3(3) p1 k(1) len
          by (simp_all add: agree_def s5_def s1 zero_pipe_def)
        have H: "held s6 = (held s)((?c, nat m) \<mapsto> p, (?c, nat n) \<mapsto> q)" using e6(2) n2(4) m2(4) by simp
        show ?thesis
        proof (cases "r0 = 0")
          case True
          then have s': "r = 0" "s' = s6"
            using run pa Some a2(1) m a3(1) nn cp by (simp_all add: sys_pipe_impl_def s5_def Let_def)
          have "pipe_items (pipes s6 ! k) = []" using f6(6) by (simp add: pipe_items_def zero_pipe_def)
          moreover have "nat m < 32" "nat n < 32" using m2(1,2) n2(1,2) by auto
          ultimately show ?thesis using s' e6(1) f6(1-5) H k mn by blast
        next
          case r0: False
          have h6: "held s6 (?c, nat m) = Some p" "held s6 (?c, nat n) = Some q" using e6(2) hp by simp_all
          have pf: "vf_pipe (pipe_file k 0) = Some k" "vf_pipe (pipe_file k 1) = Some k" by (simp_all add: pipe_file_def)
          have u: "refs (held s) (files s) k e = {}" for e using refs_unused [OF fds_okD(3) [OF ok] k] .
          have orig: "(held s6)((?c, nat m) := None, (?c, nat n) := None) = held s"
            unfolding H using m2(3) n2(3) m2(4) mn by (auto simp: fun_eq_iff)
          have "refs (held s) (files s6) k e = {}" for e
          proof -
            have fr: "p \<notin> ran (held s)" "q \<notin> ran (held s)"
            proof -
              have "held s x \<noteq> Some p \<and> held s x \<noteq> Some q" for x
              proof
                have x6: "held s6 x = held s x" if "held s x \<noteq> None"
                  using that m2(3) n2(3) m2(4) H by (auto split: if_splits)
                note inj = own_okD(2) [OF fds_okD(3) [OF e6(1)]]
                show "held s x \<noteq> Some p" using x6 own_once [OF inj h6(1), of x] m2(3) by auto
                show "held s x \<noteq> Some q" using x6 own_once [OF inj h6(2), of x] n2(3) m2(4) mn by auto
              qed
              then show "p \<notin> ran (held s)" "q \<notin> ran (held s)" by (auto simp: ran_def)
            qed
            have "files s6 a = files s a" if "a \<in> ran (held s)" for a
              using that fr ag n2(5) m2(5) by (auto simp: agree_def s5_def s1)
            then have "files s6 a = files s a" if "held s x = Some a" for x a using that ranI by metis
            then have "refs (held s) (files s6) k e = refs (held s) (files s) k e" unfolding refs_def by metis
            then show ?thesis using u [of e] by simp
          qed
          then have only: "refs ((held s6)((?c, nat m) := None, (?c, nat n) := None)) (files s6) k e = {}" for e unfolding orig .
          have mn32: "nat m < 32" "nat n < 32" using m2(1,2) n2(1,2) by auto
          obtain t1 t2 where d: "free_file p (set_fd ?c (nat n) 0 (set_fd ?c (nat m) 0 s6)) = Some t1" "free_file q t1 = Some t2"
            "fds_ok (proc_pipe_free k t2)" "held t2 = (held s6)((?c, nat m) := None, (?c, nat n) := None)"
            "heap_current t2 = heap_current s6" "current_task t2 = current_task s6" "inodes t2 = inodes s6"
            by (rule close_two [OF e6(1) c(1) mn32 mn h6 f6(1,2) pf k(1) only only]) blast
          have s': "r = - E_FAULT" "s' = proc_pipe_free k t2"
            using run pa Some a2(1) m a3(1) nn cp r0 d(1,2) f6(3) by (simp_all add: sys_pipe_impl_def s5_def Let_def)
          have "held s' = held s" using held_same [of s' t2] d(4) orig s'(2) by (simp add: proc_pipe_free_def)
          moreover have "heap_budget b s'"
            using budget_current [of s' s6 b] d(5) f6(5) s'(2) by (simp add: proc_pipe_free_def on_pipe_def)
          ultimately show ?thesis using s' d(3,6,7) f6(3,4) by (simp add: proc_pipe_free_def)
        qed
      qed
    qed
  qed
qed

section \<open>Tasks and their descriptors\<close>

lemma fds_ok_table:
  assumes ok: "fds_ok s" and p: "procs_ok s'" and h: "held s' \<subseteq>\<^sub>m held s" and v: "vfs_ok s'"
    and same: "files s' = files s" "pipes s' = pipes s" "inodes s' = inodes s" and live: "\<And>q. kmalloc_live s q \<Longrightarrow> kmalloc_live s' q"
  shows "fds_ok s'"
  using own_frame [OF own_sub [OF fds_okD(3) [OF ok] h] live] fds_okD(4) [OF ok] p v by (simp add: fds_ok_def same)

lemma set_state_simps' [simp]:
  "files (set_state i st s) = files s" "pipes (set_state i st s) = pipes s" "inodes (set_state i st s) = inodes s"
  "heap_view (set_state i st s) = heap_view s" "root_inode (set_state i st s) = root_inode s"
  "current_task (set_state i st s) = current_task s" "next_pid (set_state i st s) = next_pid s"
  "fork_jmp_parent (set_state i st s) = fork_jmp_parent s"
  by (simp_all add: set_state_def)

lemma held_on_task:
  assumes "length (tasks s) = 16" and "i < 16" and "p_fds (f (task s i)) = p_fds (task s i)"
    and "p_state (f (task s i)) = TASK_UNUSED \<longleftrightarrow> p_state (task s i) = TASK_UNUSED"
  shows "held (on_task i f s) = held s"
  using assms by (auto simp: held_def nth_list_update fun_eq_iff)

lemma set_state_fds_ok:
  assumes ok: "fds_ok s" and i: "i < 16" and st: "st = TASK_UNUSED \<or> p_state (task s i) \<noteq> TASK_UNUSED"
    and c: "i = current_task s \<Longrightarrow> st \<noteq> TASK_UNUSED"
  shows "fds_ok (set_state i st s)"
proof (rule fds_ok_table [OF ok])
  have len: "length (tasks s) = 16" using procs_okD(1) [OF fds_okD(1) [OF ok]] .
  have "0 < p_pid (task s i)" if "p_state (task s i) \<noteq> TASK_UNUSED"
    using procs_okD(4) [OF fds_okD(1) [OF ok] i] that by (simp add: task_ok_def)
  then show "procs_ok (set_state i st s)" by (intro set_state_ok [OF fds_okD(1) [OF ok] i]) (use st c in auto)
  show "held (set_state i st s) \<subseteq>\<^sub>m held s"
    using len i st by (auto simp: map_le_def held_def set_state_def nth_list_update split: if_splits)
  show "vfs_ok (set_state i st s)" using vfs_view_same [of "set_state i st s" s] fds_okD(2) [OF ok] by simp
  show "kmalloc_live (set_state i st s) q" if "kmalloc_live s q" for q
    using that heap_view_same(2) [of "set_state i st s" s] by simp
qed simp_all

text \<open>The loop that copies the parent's descriptors into the child's free ones.\<close>

lemma fork_fds_ok:
  fixes s s' :: "'a kproc_scheme"
  assumes "fork_fds p c is s = Some (all, s')" and "fds_ok s" and "heap_budget (length is * 0x12000 + b) s"
    and "p < 16" "c < 16" "p \<noteq> c" "c \<noteq> current_task s" "p_state (task s c) \<noteq> TASK_UNUSED" "p_state (task s p) \<noteq> TASK_UNUSED"
    and "distinct is" "\<forall>i \<in> set is. i < 32 \<and> p_fds (task s c) ! i = 0"
  shows "fds_ok s' \<and> heap_budget b s' \<and> others_same c s s' \<and> inodes s' = inodes s \<and>
    (all \<longrightarrow> task s' c = (task s c)\<lparr>p_fds := p_fds (task s' c)\<rparr> \<and>
       (\<forall>x a. held s x = Some a \<longrightarrow> held s' x = Some a \<and> files s' a = files s a) \<and>
       (\<forall>i < 32. i \<notin> set is \<longrightarrow> held s' (c, i) = held s (c, i)) \<and>
       (\<forall>i \<in> set is. case held s (p, i) of None \<Rightarrow> held s' (c, i) = None
          | Some a \<Rightarrow> \<exists>a'. held s' (c, i) = Some a' \<and> files s' a' = files s a)) \<and>
    (\<not> all \<longrightarrow> p_state (task s' c) = TASK_UNUSED)"
  using assms
proof (induction "is" arbitrary: s)
  case Nil
  then show ?case by (auto simp: others_same_def)
next
  case (Cons i "is")
  note run = Cons.prems(1) and ok = Cons.prems(2) and budget = Cons.prems(3) and ids = Cons.prems(4-9)
  let ?a = "p_fds (task s p) ! i"
  have i: "i < 32" "p_fds (task s c) ! i = 0" "i \<notin> set is" "distinct is" "\<forall>j \<in> set is. j < 32 \<and> p_fds (task s c) ! j = 0"
    using Cons.prems(10,11) by auto
  have hp: "held s (p, i) = (if ?a = 0 then None else Some ?a)" using ids i by (simp add: held_def)
  have hc: "held s (c, i) = None" using i by (simp add: held_def)
  show ?case
  proof (cases "?a = 0")
    case True
    have "heap_budget (length is * 0x12000 + b) s" using budget by (rule heap_budget_le) simp
    moreover have "fork_fds p c is s = Some (all, s')" using run True by simp
    ultimately show ?thesis using Cons.IH [of s] ok ids i hp hc True by auto
  next
    case False
    have h: "held s (p, i) = Some ?a" using hp False by simp
    obtain f where f: "files s ?a = Some f" "file_ok (inodes s) (pipes s) f" by (rule held_file [OF ok h]) blast
    have "heap_budget (0x12000 + (length is * 0x12000 + b)) s" using budget by (rule heap_budget_le) simp
    from new_file_block [OF fds_ok_butI [OF ok, of "(c, i)"] this] obtain d s1 where k: "kmalloc sizeof_vfs_file s = Some (d, s1)"
      "fds_ok_but (c, i) s1" "heap_budget (length is * 0x12000 + b) s1" "kheap.more s1 = kheap.more s" "vfs_ok s1"
      "d \<noteq> 0 \<Longrightarrow> \<not> kmalloc_live s d \<and> inodes s d = None" "\<And>q. kmalloc_live s1 q \<longleftrightarrow> (d \<noteq> 0 \<and> q = d) \<or> kmalloc_live s q" by blast
    note g = proc_fields [OF k(4)]
    have len: "length (tasks s) = 16" "length (p_fds (task s c)) = 32"
      using procs_okD(1) [OF fds_okD(1) [OF ok]] task_okD(1) [OF procs_okD(4) [OF fds_okD(1) [OF ok] ids(2)]] by simp_all
    show ?thesis
    proof (cases "d = 0")
      case True
      let ?t = "set_fd c i 0 s1"
      have s': "all = False" "s' = set_state c TASK_UNUSED ?t" using run False k(1) True by (simp_all add: Let_def)
      have t1: "fds_ok ?t"
      proof (rule fds_ok_table [OF ok])
        have "procs_ok s1" using procs_ok_same [OF g(1,2,4,7)] fds_okD(1) [OF ok] by simp
        then show "procs_ok ?t" "held ?t \<subseteq>\<^sub>m held s"
          using set_fd_ok [OF _ ids(2), of s1] held_set_fd [of s1 c i 0] ids(2,5) i(1) g(1) held_same [OF g(1)]
          by (simp_all add: map_le_def)
        show "vfs_ok ?t" using vfs_view_same [of ?t s1] k(5) by simp
        show "kmalloc_live ?t q" if "kmalloc_live s q" for q using that heap_view_same(2) [of ?t s1] k(7) by simp
      qed (use g in simp_all)
      have "fds_ok s'" unfolding s'(2) by (rule set_state_fds_ok [OF t1 ids(2)]) (use ids(4) g in auto)
      moreover have "heap_budget b s'"
        using heap_view_same(3) [of s' s1] heap_budget_le [OF k(3), of b] s'(2) by simp
      moreover have "others_same c s s'" using g by (simp add: others_same_def s'(2) set_state_def)
      ultimately show ?thesis using s' g len ids(2) by (simp add: set_state_def)
    next
      case d: False
      let ?t = "set_fd c i d s1"
      have ne: "?a \<noteq> d" using k(6) [OF d] held_file [OF ok h] by metis
      obtain s3 where r: "pipe_ref f (fput d f ?t) = Some s3" and rest: "fork_fds p c is s3 = Some (all, s')"
        using run False k(1) d f(1) g by (auto simp: Let_def split: Option.bind_splits)
      have pt: "pipes (fput d f ?t) = pipes s" using g by simp
      have lp: "length (pipes (fput d f ?t)) = 8" "file_ok (inodes s) (pipes (fput d f ?t)) f"
        using own_okD(3) [OF fds_okD(3) [OF ok]] f(2) pt by simp_all
      from pipe_ref_step(1) [OF r lp] obtain P where P: "s3 = (fput d f ?t)\<lparr>pipes := P\<rparr>" by blast
      have ag: "agree (set_fd c i d s1\<lparr>files := (files s)(d \<mapsto> f), pipes := pipes s3\<rparr>) s3" using g by (simp add: agree_def P)
      have n: "\<not> kmalloc_live s d" "inodes s d = None" "\<And>q. kmalloc_live s1 q \<longleftrightarrow> q = d \<or> kmalloc_live s q"
        using k(6,7) d by simp_all
      note new = dup_into [OF fds_ok_butI [OF ok] f(2) same_table_more [OF k(4)] k(5) d n ids(2) i(1) ids(5) r pt ag]
      have b3: "heap_budget (length is * 0x12000 + b) s3" using heap_view_same(3) [of s3 s1] k(3) by (simp add: P)
      have t3: "task s3 c = (task s c)\<lparr>p_fds := (p_fds (task s c))[i := d]\<rparr>" "task s3 p = task s p" "current_task s3 = current_task s"
        "inodes s3 = inodes s" "others_same c s s3"
        using g len ids by (simp_all add: P others_same_def)
      have fr: "p_fds (task s3 c) ! j = 0" if "j \<in> set is" for j using t3(1) i(3,5) that by (metis nth_list_update_neq process.select_convs(20) process.surjective process.update_convs(20))
      have "fds_ok s' \<and> heap_budget b s' \<and> others_same c s3 s' \<and> inodes s' = inodes s3 \<and>
        (all \<longrightarrow> task s' c = (task s3 c)\<lparr>p_fds := p_fds (task s' c)\<rparr> \<and>
           (\<forall>x a. held s3 x = Some a \<longrightarrow> held s' x = Some a \<and> files s' a = files s3 a) \<and>
           (\<forall>i < 32. i \<notin> set is \<longrightarrow> held s' (c, i) = held s3 (c, i)) \<and>
           (\<forall>i \<in> set is. case held s3 (p, i) of None \<Rightarrow> held s' (c, i) = None
              | Some a \<Rightarrow> \<exists>a'. held s' (c, i) = Some a' \<and> files s' a' = files s3 a)) \<and>
        (\<not> all \<longrightarrow> p_state (task s' c) = TASK_UNUSED)"
        by (rule Cons.IH [OF rest new(1) b3]) (use ids t3 i(4,5) fr in simp_all)
      note IH = this
      have old: "held s3 x = Some a \<and> files s3 a = files s a" if "held s x = Some a" for x a
      proof -
        have "x \<noteq> (c, i)" using that hc by auto
        moreover have "a \<noteq> d" using n(1) held_file [OF ok that] by metis
        ultimately show ?thesis using that new(2) g by (simp add: P)
      qed
      have hp3: "held s3 (p, j) = held s (p, j)" for j using new(2) ids(3) by simp
      have d3: "held s3 (c, i) = Some d" "files s3 d = Some f" using new(2) by (simp_all add: P)
      show ?thesis
      proof (intro conjI impI)
        show "fds_ok s'" "heap_budget b s'" "inodes s' = inodes s" using IH t3 by simp_all
        show "others_same c s s'" using others_same_trans [OF t3(5)] IH by blast
        assume all: all
        show "task s' c = (task s c)\<lparr>p_fds := p_fds (task s' c)\<rparr>" using IH all t3(1) by simp
        show "\<forall>x a. held s x = Some a \<longrightarrow> held s' x = Some a \<and> files s' a = files s a" using IH all old by metis
        show "\<forall>j < 32. j \<notin> set (i # is) \<longrightarrow> held s' (c, j) = held s (c, j)" using IH all new(2) by simp
        have "held s' (c, i) = Some d" "files s' d = files s ?a" using IH all d3 f(1) i(1,3) by auto
        moreover have "case held s (p, j) of None \<Rightarrow> held s' (c, j) = None
            | Some a \<Rightarrow> \<exists>a'. held s' (c, j) = Some a' \<and> files s' a' = files s a" if "j \<in> set is" for j
          using IH all that hp3 [of j] old [of "(p, j)"] by (auto split: option.splits)
        ultimately show "\<forall>j \<in> set (i # is). case held s (p, j) of None \<Rightarrow> held s' (c, j) = None
            | Some a \<Rightarrow> \<exists>a'. held s' (c, j) = Some a' \<and> files s' a' = files s a" using h by auto
      next
        assume "\<not> all" then show "p_state (task s' c) = TASK_UNUSED" using IH by simp
      qed
    qed
  qed
qed

end
