(* ===== verification/Elf.thy ===== *)
theory Elf
  imports Fds
begin

unbundle bit_operations_syntax

text \<open>
  \<^verbatim>\<open>core/elf.c\<close> and \<^verbatim>\<open>proc_exec\<close> of \<^verbatim>\<open>core/proc.c\<close>: loading the segments of a program, building the initial stack
  and entering it.  The buffer of \<^verbatim>\<open>elf_map_segment\<close> is not initialised: \<open>junk\<close> is what the kernel stack holds
  there.  The stack of the new program is written through its user addresses, byte by byte with
  \<^verbatim>\<open>virt_write\<close>.  The messages that are printed are not modelled.
\<close>

section \<open>Headers\<close>

definition ELFCLASS64 :: u8 where [simp]: "ELFCLASS64 = 2"
definition ELFDATA2LSB :: u8 where [simp]: "ELFDATA2LSB = 1"
definition ET_EXEC :: u16 where [simp]: "ET_EXEC = 2"
definition ET_DYN :: u16 where [simp]: "ET_DYN = 3"
definition PT_LOAD :: u32 where [simp]: "PT_LOAD = 1"
definition PF_W :: u32 where [simp]: "PF_W = 2"
definition USER_STACK_TOP :: u64 where [simp]: "USER_STACK_TOP = 0x7FF00000"
definition USER_STACK_SIZE :: u64 where [simp]: "USER_STACK_SIZE = 0x20000"
definition sizeof_elf64_hdr :: u64 where [simp]: "sizeof_elf64_hdr = 64"
definition sizeof_elf64_phdr :: u64 where [simp]: "sizeof_elf64_phdr = 56"

record elf64_hdr =
  e_ident :: "u8 list"
  e_type :: u16
  e_machine :: u16
  e_version :: u32
  e_entry :: u64
  e_phoff :: u64
  e_shoff :: u64
  e_flags :: u32
  e_ehsize :: u16
  e_phentsize :: u16
  e_phnum :: u16
  e_shentsize :: u16
  e_shnum :: u16
  e_shstrndx :: u16

record elf64_phdr =
  p_type :: u32
  p_flags :: u32
  p_offset :: u64
  p_vaddr :: u64
  p_paddr :: u64
  p_filesz :: u64
  p_memsz :: u64
  p_align :: u64

text \<open>The packed structures as they lie in the file.\<close>

definition le_field :: "u8 list \<Rightarrow> nat \<Rightarrow> nat \<Rightarrow> 'w :: len word" where
  "le_field bs off n = of_nat (le_val (take n (drop off bs)))"

definition hdr_of_bytes :: "u8 list \<Rightarrow> elf64_hdr" where
  "hdr_of_bytes bs =
     \<lparr>e_ident = take 16 bs, e_type = le_field bs 16 2, e_machine = le_field bs 18 2, e_version = le_field bs 20 4,
      e_entry = le_field bs 24 8, e_phoff = le_field bs 32 8, e_shoff = le_field bs 40 8, e_flags = le_field bs 48 4,
      e_ehsize = le_field bs 52 2, e_phentsize = le_field bs 54 2, e_phnum = le_field bs 56 2,
      e_shentsize = le_field bs 58 2, e_shnum = le_field bs 60 2, e_shstrndx = le_field bs 62 2\<rparr>"

definition phdr_of_bytes :: "u8 list \<Rightarrow> elf64_phdr" where
  "phdr_of_bytes bs =
     \<lparr>p_type = le_field bs 0 4, p_flags = le_field bs 4 4, p_offset = le_field bs 8 8, p_vaddr = le_field bs 16 8,
      p_paddr = le_field bs 24 8, p_filesz = le_field bs 32 8, p_memsz = le_field bs 40 8, p_align = le_field bs 48 8\<rparr>"

definition elf_check_hdr :: "elf64_hdr \<Rightarrow> int" where
  "elf_check_hdr hdr =
     (if e_ident hdr ! 0 \<noteq> 0x7F \<or> e_ident hdr ! 1 \<noteq> 69 \<or> e_ident hdr ! 2 \<noteq> 76 \<or> e_ident hdr ! 3 \<noteq> 70 then - 1
      else if e_ident hdr ! 4 \<noteq> ELFCLASS64 \<or> e_ident hdr ! 5 \<noteq> ELFDATA2LSB then - 1
      else if e_type hdr \<noteq> ET_EXEC \<and> e_type hdr \<noteq> ET_DYN then - 1
      else if e_machine hdr \<noteq> 0x3E then - 1
      else 0)"

section \<open>Segments\<close>

definition elf_segment_flags :: "u32 \<Rightarrow> u64" where
  "elf_segment_flags flags = (if flags AND PF_W \<noteq> 0 then PAGE_PRESENT OR PAGE_WRITABLE else PAGE_PRESENT)"

text \<open>One round of the loop over the pages of a segment.\<close>

definition segment_page ::
    "u8 list \<Rightarrow> u8 list \<Rightarrow> elf64_phdr \<Rightarrow> u64 \<Rightarrow> 'a kvfs_scheme \<Rightarrow> (int \<times> 'a kvfs_scheme) option" where
  "segment_page junk path ph addr s =
     (let file_end = p_vaddr ph + p_filesz ph;
          page_end = addr + PAGE_SIZE;
          copy_start = (if addr < p_vaddr ph then p_vaddr ph else addr);
          copy_end = (if page_end < file_end then page_end else file_end)
      in do { (_, s1) \<leftarrow> paging_clear_phys addr PAGE_SIZE s;
              (r, s2) \<leftarrow>
                (if copy_start < copy_end then
                   (let len = copy_end - copy_start;
                        src_off = p_offset ph + (copy_start - p_vaddr ph)
                    in if len > 4096 then Some (- 1, s1)
                       else
                         do { (n, bytes) \<leftarrow> vfs_read_at path src_off len s1;
                              if n < 0 then Some (- 1, s1)
                              else
                                do { (w, s2) \<leftarrow> paging_write_phys copy_start (bytes @ drop (length bytes) junk) len s1;
                                     Some (if w \<noteq> 0 then - 1 else 0, s2) } })
                 else Some (0, s1));
              if r \<noteq> 0 then Some (r, s2)
              else
                (let (p, s3) = paging_promote_user_identity addr (elf_segment_flags (p_flags ph)) s2
                 in Some (if p \<noteq> 0 then - 1 else 0, s3)) })"

definition elf_map_segment ::
    "u8 list \<Rightarrow> u8 list \<Rightarrow> elf64_phdr \<Rightarrow> 'a kvfs_scheme \<Rightarrow> (int \<times> 'a kvfs_scheme) option" where
  "elf_map_segment junk path ph s =
     (let seg_start = p_vaddr ph AND PAGE_MASK;
          seg_end = (p_vaddr ph + p_memsz ph + PAGE_SIZE - 1) AND PAGE_MASK
      in if seg_start < USER_IMAGE_PHYS_START \<or> seg_end > USER_IMAGE_PHYS_END then Some (- 1, s)
         else
           for_status (\<lambda>p. segment_page junk path ph (of_nat p * PAGE_SIZE))
             [unat (seg_start div PAGE_SIZE) ..< unat (seg_end div PAGE_SIZE)]
             (paging_split_huge_range seg_start seg_end s))"

text \<open>The status and the entry address.\<close>

definition elf_load :: "u8 list \<Rightarrow> u8 list \<Rightarrow> 'a kvfs_scheme \<Rightarrow> (int \<times> u64 \<times> 'a kvfs_scheme) option" where
  "elf_load junk path s =
     do { (n, bytes) \<leftarrow> vfs_read_at path 0 sizeof_elf64_hdr s;
          if n \<noteq> 64 then Some (- 1, 0, s)
          else
            (let hdr = hdr_of_bytes bytes
             in if elf_check_hdr hdr \<noteq> 0 then Some (- 1, 0, s)
                else
                  do { (r, s1) \<leftarrow> for_status (\<lambda>i s.
                         do { (n, bytes) \<leftarrow> vfs_read_at path (e_phoff hdr + of_nat i * sizeof_elf64_phdr) sizeof_elf64_phdr s;
                              if n \<noteq> 56 then Some (- 1, s)
                              else if p_type (phdr_of_bytes bytes) \<noteq> PT_LOAD then Some (0, s)
                              else elf_map_segment junk path (phdr_of_bytes bytes) s })
                         [0..<unat (e_phnum hdr)] s;
                       if r \<noteq> 0 then Some (- 1, 0, s1) else Some (0, e_entry hdr, s1) }) }"

section \<open>The initial stack\<close>

definition store64 :: "u64 \<Rightarrow> u64 \<Rightarrow> 'a kpaging_scheme \<Rightarrow> 'a kpaging_scheme option" where
  "store64 addr v s = virt_write addr (le_bytes 8 (unat v)) s"

definition align16 :: "u64 \<Rightarrow> u64" where
  "align16 sp = sp AND NOT 0xF"

text \<open>The strings, each with its zero and aligned to 16; their addresses in order.\<close>

fun push_strings :: "u8 list list \<Rightarrow> u64 \<Rightarrow> 'a kpaging_scheme \<Rightarrow> (u64 list \<times> u64 \<times> 'a kpaging_scheme) option" where
  "push_strings [] sp s = Some ([], sp, s)"
| "push_strings (str # strs) sp s =
     do { let sp1 = align16 (sp - of_nat (length str + 1));
          s1 \<leftarrow> virt_write sp1 (str @ [0]) s;
          (ptrs, sp2, s2) \<leftarrow> push_strings strs sp1 s1;
          Some (sp1 # ptrs, sp2, s2) }"

text \<open>Two words of 8 bytes below the stack pointer, as the entries of the auxiliary vector.\<close>

definition push_aux :: "u64 \<Rightarrow> u64 \<Rightarrow> u64 \<Rightarrow> 'a kpaging_scheme \<Rightarrow> (u64 \<times> 'a kpaging_scheme) option" where
  "push_aux key v sp s =
     do { let sp1 = align16 (sp - 16);
          s1 \<leftarrow> store64 (sp1 + 8) v s;
          s2 \<leftarrow> store64 sp1 key s1;
          Some (sp1, s2) }"

text \<open>A list of words, the last one pushed first.\<close>

fun push_words :: "u64 list \<Rightarrow> u64 \<Rightarrow> 'a kpaging_scheme \<Rightarrow> (u64 \<times> 'a kpaging_scheme) option" where
  "push_words [] sp s = Some (sp, s)"
| "push_words (w # ws) sp s =
     do { (sp1, s1) \<leftarrow> push_words ws sp s;
          s2 \<leftarrow> store64 (sp1 - 8) w s1;
          Some (sp1 - 8, s2) }"

definition random_seed :: "u8 list" where
  "random_seed = [0x11, 0x22, 0x33, 0x44, 0x55, 0x66, 0x77, 0x88, 0x99, 0xaa, 0xbb, 0xcc, 0xdd, 0xee, 0xff, 0x00]"

text \<open>What is returned: the stack pointer (0 on failure), the number of arguments and the two tables.\<close>

record user_stack =
  us_sp :: u64
  us_argc :: u64
  us_argv :: u64
  us_envp :: u64

definition elf_build_stack ::
    "u8 list list \<Rightarrow> u8 list list \<Rightarrow> 'a kpaging_scheme \<Rightarrow> (user_stack \<times> 'a kpaging_scheme) option" where
  "elf_build_stack argv envp s =
     do { (r, s1) \<leftarrow> paging_map_user_range (USER_STACK_TOP - USER_STACK_SIZE) (USER_STACK_SIZE + PAGE_SIZE)
                       (PAGE_PRESENT OR PAGE_WRITABLE) s;
          if r \<noteq> 0 then Some (\<lparr>us_sp = 0, us_argc = 0, us_argv = 0, us_envp = 0\<rparr>, s1)
          else
            do { let args = take 15 argv;
                 (envp_ptrs, sp2, s2) \<leftarrow> push_strings (take 15 envp) USER_STACK_TOP s1;
                 (argv_ptrs, sp3, s3) \<leftarrow> push_strings args sp2 s2;
                 let random_ptr = align16 (sp3 - 16);
                 s4 \<leftarrow> virt_write random_ptr random_seed s3;
                 (sp5, s5) \<leftarrow> push_aux 0 0 random_ptr s4;
                 (sp6, s6) \<leftarrow> push_aux 25 random_ptr sp5 s5;
                 (sp7, s7) \<leftarrow> push_aux 6 4096 sp6 s6;
                 (envp_table, s8) \<leftarrow> push_words (envp_ptrs @ [0]) sp7 s7;
                 (argv_table, s9) \<leftarrow> push_words (argv_ptrs @ [0]) envp_table s8;
                 (sp, s10) \<leftarrow> push_words [of_nat (length args)] argv_table s9;
                 Some (\<lparr>us_sp = sp, us_argc = of_nat (length args), us_argv = argv_table, us_envp = envp_table\<rparr>, s10) } }"

definition elf_user_stack_init ::
    "u8 list list \<Rightarrow> u8 list list \<Rightarrow> 'a kpaging_scheme \<Rightarrow> (user_stack \<times> 'a kpaging_scheme) option" where
  "elf_user_stack_init argv envp s = elf_build_stack argv envp s"

section \<open>Executing a program\<close>

text \<open>The call returns -1, or enters user mode and does not return.\<close>

datatype exec_outcome = Exec_failed | Enter_usermode u64 u64 u64 u64 u64

definition proc_exec ::
    "u8 list \<Rightarrow> u8 list \<Rightarrow> u8 list list \<Rightarrow> u8 list list \<Rightarrow> 'a kproc_scheme \<Rightarrow> (exec_outcome \<times> 'a kproc_scheme) option" where
  "proc_exec junk path argv envp s =
     do { (r, st) \<leftarrow> vfs_stat path s;
          if r \<noteq> 0 \<or> map_option st_type st \<noteq> Some VFS_TYPE_FILE then Some (Exec_failed, s)
          else
            do { s1 \<leftarrow> proc_fd_close_all s;
                 (new_cr3, s2) \<leftarrow> paging_clone_current_address_space False s1;
                 let s3 = (if new_cr3 \<noteq> 0
                           then paging_switch_cr3 new_cr3 (on_task (current_task s2) (\<lambda>t. t\<lparr>p_cr3 := new_cr3\<rparr>) s2)
                           else s2);
                 let s4 = wrmsr_fs_base 0 (on_task (current_task s3) (\<lambda>t. t\<lparr>p_brk := USER_BRK_START, p_fs_base := 0\<rparr>) s3);
                 (r5, entry, s5) \<leftarrow> elf_load junk path s4;
                 if r5 \<noteq> 0 then Some (Exec_failed, s5)
                 else
                   do { (us, s6) \<leftarrow> elf_user_stack_init argv envp s5;
                        if us_sp us = 0 then Some (Exec_failed, s6)
                        else
                          Some (Enter_usermode entry (us_sp us) (us_argc us) (us_argv us) (us_envp us),
                            on_task (current_task s6) (\<lambda>t. t\<lparr>p_user_rip := entry, p_user_rsp := us_sp us,
                              p_user_rflags := 0x202, p_user_rax := 0, p_user_regs := replicate 15 0,
                              p_cr3 := paging_current_cr3 s6\<rparr>) s6) } } }"

end
