(* ===== verification/Syscall.thy ===== *)
theory Syscall
  imports Keyboard Elf
begin

unbundle bit_operations_syntax

text \<open>
  \<^verbatim>\<open>core/syscall.c\<close>: the system calls and their dispatch, over the descriptors of \<open>Fds\<close>, the user memory of
  \<open>UserMem\<close>, the console of \<open>Keyboard\<close> and \<open>Vga\<close> and the loader of \<open>Elf\<close>.  An \<^verbatim>\<open>int64_t\<close> result is an \<open>int\<close>,
  negative for an error.  A call returns a value, enters a new program (\<^verbatim>\<open>execve\<close>) or leaves by
  \<^verbatim>\<open>longjmp_asm\<close> (\<^verbatim>\<open>exit\<close> below a waiting parent).  \<open>run\<close> and \<open>irq\<close> are those of \<open>Sched\<close>, \<open>junk\<close> is that of \<open>Elf\<close>.
\<close>

section \<open>Reading and writing\<close>

definition fd_is_tty_out :: "int \<Rightarrow> 'a kproc_scheme \<Rightarrow> bool option" where
  "fd_is_tty_out fd s =
     (if fd = 1 \<or> fd = 2 then Some True
      else if fd_get fd s = 0 then Some False
      else do { f \<leftarrow> files s (fd_get fd s); Some (is_console_path (vf_path f)) })"

text \<open>The inner loop of the pipe branch of \<^verbatim>\<open>sys_write\<close>, on the open file at \<open>a\<close>: the error or 0, and the number of
  bytes that were taken.\<close>

partial_function (option) pipe_put_wait ::
    "('a kconsole_scheme \<Rightarrow> 'a kconsole_scheme option) \<Rightarrow> ('a kconsole_scheme \<Rightarrow> 'a kconsole_scheme option) \<Rightarrow>
     u64 \<Rightarrow> u8 list \<Rightarrow> 'a kconsole_scheme \<Rightarrow> (int \<times> nat \<times> 'a kconsole_scheme) option" where
  "pipe_put_wait run irq a kbuf s =
     do { f \<leftarrow> files s a;
          case vf_pipe f of
            None \<Rightarrow> Some (- E_FAULT, 0, s)
          | Some k \<Rightarrow>
              do { (n, p) \<leftarrow> pipe_write kbuf (length kbuf) (pipes s ! k);
                   let s1 = on_pipe k (\<lambda>_. p) s;
                   if n > 0 then Some (0, n, sched_wake_all s1)
                   else if readers (pipes s1 ! k) = 0 then Some (- EPIPE, 0, s1)
                   else do { s2 \<leftarrow> sched_block_current run irq s1; pipe_put_wait run irq a kbuf s2 } } }"

partial_function (option) write_pipe_loop ::
    "('a kconsole_scheme \<Rightarrow> 'a kconsole_scheme option) \<Rightarrow> ('a kconsole_scheme \<Rightarrow> 'a kconsole_scheme option) \<Rightarrow>
     u64 \<Rightarrow> u64 \<Rightarrow> u64 \<Rightarrow> u64 \<Rightarrow> 'a kconsole_scheme \<Rightarrow> (int \<times> 'a kconsole_scheme) option" where
  "write_pipe_loop run irq a ubuf written cnt s =
     (if written < cnt then
        do { let chunk = (if cnt - written > 512 then 512 else cnt - written);
             (r, kbuf) \<leftarrow> copy_from_user (ubuf + written) chunk s;
             if r \<noteq> 0 then Some (- E_FAULT, s)
             else
               do { (e, n, s1) \<leftarrow> pipe_put_wait run irq a kbuf s;
                    if e \<noteq> 0 then Some (e, s1)
                    else write_pipe_loop run irq a ubuf (written + of_nat n) cnt s1 } }
      else Some (sint written, s))"

partial_function (option) write_tty_loop ::
    "u64 \<Rightarrow> u64 \<Rightarrow> u64 \<Rightarrow> 'a kconsole_scheme \<Rightarrow> (int \<times> 'a kconsole_scheme) option" where
  "write_tty_loop ubuf written cnt s =
     (if written < cnt then
        do { let chunk = (if cnt - written > 512 then 512 else cnt - written);
             (r, kbuf) \<leftarrow> copy_from_user (ubuf + written) chunk s;
             if r \<noteq> 0 then Some (- E_FAULT, s)
             else
               do { v \<leftarrow> vga_puts kbuf (vga_dev s);
                    write_tty_loop ubuf (written + chunk) cnt (s\<lparr>vga_dev := v\<rparr>) } }
      else Some (sint written, s))"

text \<open>The open file of a descriptor, or none.\<close>

definition fd_file :: "int \<Rightarrow> 'a kproc_scheme \<Rightarrow> vfs_file option option" where
  "fd_file fd s =
     (if fd_get fd s = 0 then Some None else do { f \<leftarrow> files s (fd_get fd s); Some (Some f) })"

definition sys_write ::
    "('a kconsole_scheme \<Rightarrow> 'a kconsole_scheme option) \<Rightarrow> ('a kconsole_scheme \<Rightarrow> 'a kconsole_scheme option) \<Rightarrow>
     int \<Rightarrow> u64 \<Rightarrow> u64 \<Rightarrow> 'a kconsole_scheme \<Rightarrow> (int \<times> 'a kconsole_scheme) option" where
  "sys_write run irq fd ubuf cnt s =
     do { file \<leftarrow> fd_file fd s;
          if (case file of Some f \<Rightarrow> is_null_path (vf_path f) | None \<Rightarrow> False) then Some (sint cnt, s)
          else if (case file of Some f \<Rightarrow> vf_pipe f \<noteq> None \<and> vf_pipe_end f = 1 | None \<Rightarrow> False) then
            write_pipe_loop run irq (fd_get fd s) ubuf 0 cnt s
          else
            do { tty \<leftarrow> fd_is_tty_out fd s;
                 if tty then write_tty_loop ubuf 0 cnt s
                 else if file = None then Some (- E_BADF, s)
                 else Some (sint cnt, s) } }"

text \<open>The pipe branch of \<^verbatim>\<open>sys_read\<close>; its buffer on the kernel stack has 256 bytes.\<close>

partial_function (option) read_pipe_loop ::
    "('a kconsole_scheme \<Rightarrow> 'a kconsole_scheme option) \<Rightarrow> ('a kconsole_scheme \<Rightarrow> 'a kconsole_scheme option) \<Rightarrow>
     u64 \<Rightarrow> u64 \<Rightarrow> u64 \<Rightarrow> 'a kconsole_scheme \<Rightarrow> (int \<times> 'a kconsole_scheme) option" where
  "read_pipe_loop run irq a ubuf cnt s =
     do { f \<leftarrow> files s a;
          case vf_pipe f of
            None \<Rightarrow> Some (- E_FAULT, s)
          | Some k \<Rightarrow>
              do { (kbuf, p) \<leftarrow> pipe_read 256 (unat cnt) (pipes s ! k);
                   let s1 = on_pipe k (\<lambda>_. p) s;
                   if kbuf \<noteq> [] then
                     do { (r, s2) \<leftarrow> copy_to_user ubuf kbuf s1;
                          Some (if r \<noteq> 0 then - E_FAULT else int (length kbuf), s2) }
                   else if writers (pipes s1 ! k) = 0 then Some (0, s1)
                   else do { s2 \<leftarrow> sched_block_current run irq s1; read_pipe_loop run irq a ubuf cnt s2 } } }"

definition sys_read ::
    "('a kconsole_scheme \<Rightarrow> 'a kconsole_scheme option) \<Rightarrow> ('a kconsole_scheme \<Rightarrow> 'a kconsole_scheme option) \<Rightarrow>
     int \<Rightarrow> u64 \<Rightarrow> u64 \<Rightarrow> 'a kconsole_scheme \<Rightarrow> (int \<times> 'a kconsole_scheme) option" where
  "sys_read run irq fd ubuf cnt s =
     do { file \<leftarrow> fd_file fd s;
          if (case file of Some f \<Rightarrow> vf_pipe f \<noteq> None \<and> vf_pipe_end f = 0 | None \<Rightarrow> False) then
            read_pipe_loop run irq (fd_get fd s) ubuf cnt s
          else if fd = 0 \<or> (case file of Some f \<Rightarrow> is_console_path (vf_path f) | None \<Rightarrow> False) then
            (if cnt = 0 then Some (0, s)
             else
               do { (c, s1) \<leftarrow> keyboard_getchar run irq s;
                    (r, s2) \<leftarrow> copy_to_user ubuf [word_of_int c] s1;
                    Some (if r \<noteq> 0 then - E_FAULT else 1, s2) })
          else
            (case file of
               None \<Rightarrow> Some (- E_BADF, s)
             | Some f \<Rightarrow>
                 if is_null_path (vf_path f) then Some (0, s)
                 else
                   do { let cnt1 = (if cnt > 256 then 256 else cnt);
                        (n, kbuf, f1) \<leftarrow> vfs_read f cnt1 s;
                        let s1 = fput (fd_get fd s) f1 s;
                        if n < 0 then Some (- E_FAULT, s1)
                        else if n > 0 then
                          do { (r, s2) \<leftarrow> copy_to_user ubuf kbuf s1;
                               Some (if r \<noteq> 0 then - E_FAULT else n, s2) }
                        else Some (n, s1) }) }"

text \<open>The loop of \<^verbatim>\<open>sys_writev\<close> over the vector, from its entry \<open>i\<close> on.\<close>

partial_function (option) writev_loop ::
    "('a kconsole_scheme \<Rightarrow> 'a kconsole_scheme option) \<Rightarrow> ('a kconsole_scheme \<Rightarrow> 'a kconsole_scheme option) \<Rightarrow>
     int \<Rightarrow> u64 \<Rightarrow> u64 \<Rightarrow> u64 \<Rightarrow> int \<Rightarrow> 'a kconsole_scheme \<Rightarrow> (int \<times> 'a kconsole_scheme) option" where
  "writev_loop run irq fd iovp iovcnt i tot s =
     (if i < iovcnt then
        do { (r, iov) \<leftarrow> copy_from_user (iovp + i * 16) 16 s;
             if r \<noteq> 0 then Some (if tot > 0 then tot else - E_FAULT, s)
             else
               do { let base = of_nat (le_val (take 8 iov));
                    let len = of_nat (le_val (drop 8 iov));
                    (n, s1) \<leftarrow> sys_write run irq fd base len s;
                    if n < 0 then Some (if tot > 0 then tot else n, s1)
                    else if (word_of_int n :: u64) < len then Some (tot + n, s1)
                    else writev_loop run irq fd iovp iovcnt (i + 1) (tot + n) s1 } }
      else Some (tot, s))"

definition sys_writev ::
    "('a kconsole_scheme \<Rightarrow> 'a kconsole_scheme option) \<Rightarrow> ('a kconsole_scheme \<Rightarrow> 'a kconsole_scheme option) \<Rightarrow>
     int \<Rightarrow> u64 \<Rightarrow> u64 \<Rightarrow> 'a kconsole_scheme \<Rightarrow> (int \<times> 'a kconsole_scheme) option" where
  "sys_writev run irq fd iovp iovcnt s = writev_loop run irq fd iovp iovcnt 0 0 s"

definition sys_readv ::
    "('a kconsole_scheme \<Rightarrow> 'a kconsole_scheme option) \<Rightarrow> ('a kconsole_scheme \<Rightarrow> 'a kconsole_scheme option) \<Rightarrow>
     int \<Rightarrow> u64 \<Rightarrow> 'a kconsole_scheme \<Rightarrow> (int \<times> 'a kconsole_scheme) option" where
  "sys_readv run irq fd iovp s =
     do { (r, iov) \<leftarrow> copy_from_user iovp 16 s;
          if r \<noteq> 0 then Some (- E_FAULT, s)
          else sys_read run irq fd (of_nat (le_val (take 8 iov))) (of_nat (le_val (drop 8 iov))) s }"

section \<open>Memory\<close>

text \<open>The loop of \<^verbatim>\<open>sys_brk\<close> for the task \<open>p\<close>: whether it reached the address.\<close>

partial_function (option) brk_loop ::
    "nat \<Rightarrow> u64 \<Rightarrow> 'a kproc_scheme \<Rightarrow> (bool \<times> 'a kproc_scheme) option" where
  "brk_loop p addr s =
     (if p_brk (task s p) < addr then
        (let (frame, s1) = paging_alloc_page s
         in if frame = 0 then Some (False, s1)
            else
              do { (r, s2) \<leftarrow> paging_clear_phys frame PAGE_SIZE s1;
                   if r \<noteq> 0 then Some (False, paging_free_page frame s2)
                   else
                     (let (r, s3) = paging_map_user_page (p_brk (task s2 p)) frame (PAGE_PRESENT OR PAGE_WRITABLE) s2
                      in if r \<noteq> 0 then Some (False, paging_free_page frame s3)
                         else brk_loop p addr (on_task p (\<lambda>t. t\<lparr>p_brk := p_brk t + PAGE_SIZE\<rparr>) s3)) })
      else Some (True, s))"

definition sys_brk :: "u64 \<Rightarrow> 'a kproc_scheme \<Rightarrow> (int \<times> 'a kproc_scheme) option" where
  "sys_brk addr s =
     (let p = current_task s; old = p_brk (task s p)
      in if addr = 0 then Some (sint old, s)
         else if addr < USER_BRK_START then Some (sint old, s)
         else
           do { (reached, s1) \<leftarrow> brk_loop p addr s;
                if \<not> reached then Some (sint old, s1)
                else
                  (let b = (addr + PAGE_SIZE - 1) AND PAGE_MASK
                   in Some (sint addr, on_task p (\<lambda>t. t\<lparr>p_brk := (if b < addr then addr else b)\<rparr>) s1)) })"

definition sys_mmap :: "u64 \<Rightarrow> u64 \<Rightarrow> u64 \<Rightarrow> u64 \<Rightarrow> 'a kproc_scheme \<Rightarrow> (int \<times> 'a kproc_scheme) option" where
  "sys_mmap addr len prot flags s =
     (if len = 0 \<or> flags AND 0x20 = 0 then Some (- E_INVAL, s)
      else
        do { let page_flags = (if prot AND 2 \<noteq> 0 then PAGE_PRESENT OR PAGE_USER OR PAGE_WRITABLE
                               else PAGE_PRESENT OR PAGE_USER);
             let map_addr = ((if addr \<noteq> 0 then addr else USER_BRK_START + 0x1000000) + PAGE_SIZE - 1) AND PAGE_MASK;
             (r, s1) \<leftarrow> paging_map_user_range map_addr len page_flags s;
             Some (if r \<noteq> 0 then - E_NOMEM else sint map_addr, s1) })"

section \<open>Files\<close>

definition sys_lseek :: "int \<Rightarrow> u64 \<Rightarrow> int \<Rightarrow> 'a kproc_scheme \<Rightarrow> (int \<times> 'a kproc_scheme) option" where
  "sys_lseek fd offset whence s =
     do { file \<leftarrow> fd_file fd s;
          case file of
            None \<Rightarrow> Some (- E_BADF, s)
          | Some f \<Rightarrow>
              if vf_inode f = 0 then Some (0, s)
              else
                do { (r, vs) \<leftarrow> vfs_fstat f s;
                     case vs of
                       None \<Rightarrow> Some (0, s)
                     | Some st \<Rightarrow>
                         if r \<noteq> 0 \<or> st_type st \<noteq> VFS_TYPE_FILE then Some (0, s)
                         else
                           (let seek = (\<lambda>pos. Some (sint pos, fput (fd_get fd s) (f\<lparr>vf_pos := pos\<rparr>) s))
                            in if whence = 0 then seek offset
                               else if whence = 1 then seek (vf_pos f + offset)
                               else if whence = 2 then seek (st_size st + offset)
                               else Some (- E_INVAL, s)) } }"

definition DT_DIR :: u8 where [simp]: "DT_DIR = 4"
definition DT_REG :: u8 where [simp]: "DT_REG = 8"
definition DT_LNK :: u8 where [simp]: "DT_LNK = 10"

definition vfs_type_to_dirent :: "vfs_type \<Rightarrow> u8" where
  "vfs_type_to_dirent ty =
     (case ty of VFS_TYPE_DIR \<Rightarrow> DT_DIR | VFS_TYPE_FILE \<Rightarrow> DT_REG | VFS_TYPE_SYMLINK \<Rightarrow> DT_LNK)"

definition sizeof_linux_dirent64 :: u64 where [simp]: "sizeof_linux_dirent64 = 19"

definition dirent_bytes :: "u32 \<Rightarrow> u64 \<Rightarrow> vfs_type \<Rightarrow> u8 list" where
  "dirent_bytes i reclen ty =
     le_bytes 8 (unat (i + 1)) @ le_bytes 8 (unat (i + 1)) @ le_bytes 2 (unat (ucast reclen :: u16)) @ [vfs_type_to_dirent ty]"

text \<open>The loop over the entries from index \<open>i\<close> on, for the open file at \<open>a\<close>.\<close>

fun getdents_loop ::
    "u64 \<Rightarrow> u64 \<Rightarrow> u64 \<Rightarrow> (u8 list \<times> vfs_type) list \<Rightarrow> u32 \<Rightarrow> u64 \<Rightarrow> 'a kproc_scheme \<Rightarrow> (int \<times> 'a kproc_scheme) option" where
  "getdents_loop a ubuf cnt [] i out s = Some (sint out, s)"
| "getdents_loop a ubuf cnt ((name, ty) # es) i out s =
     (let namelen = of_nat (length name + 1);
          reclen = (sizeof_linux_dirent64 + namelen + 7) AND 0xFFFFFFF8
      in if out + reclen > cnt then Some (sint out, s)
         else
           do { (r, s1) \<leftarrow> copy_to_user (ubuf + out) (dirent_bytes i reclen ty) s;
                if r \<noteq> 0 then Some (- E_FAULT, s1)
                else
                  do { (r, s2) \<leftarrow> copy_to_user (ubuf + out + sizeof_linux_dirent64) (name @ [0]) s1;
                       if r \<noteq> 0 then Some (- E_FAULT, s2)
                       else
                         do { f \<leftarrow> files s2 a;
                              getdents_loop a ubuf cnt es (i + 1) (out + reclen) (fput a (f\<lparr>vf_pos := ucast (i + 1)\<rparr>) s2) } } })"

definition sys_getdents64 :: "int \<Rightarrow> u64 \<Rightarrow> u64 \<Rightarrow> 'a kproc_scheme \<Rightarrow> (int \<times> 'a kproc_scheme) option" where
  "sys_getdents64 fd ubuf cnt s =
     do { file \<leftarrow> fd_file fd s;
          case file of
            None \<Rightarrow> Some (- E_NOTDIR, s)
          | Some f \<Rightarrow>
              do { (r, vs) \<leftarrow> vfs_fstat f s;
                   if r \<noteq> 0 \<or> map_option st_type vs \<noteq> Some VFS_TYPE_DIR then Some (- E_NOTDIR, s)
                   else
                     do { (n, entries) \<leftarrow> vfs_readdir (vf_path f) 32 s;
                          if n < 0 then Some (- E_FAULT, s)
                          else
                            (let i = (ucast (vf_pos f) :: u32)
                             in getdents_loop (fd_get fd s) ubuf cnt (drop (unat i) entries) i 0 s) } } }"

text \<open>The fields of \<^verbatim>\<open>struct linux_stat\<close> that are ever set; its 144 bytes.\<close>

record linux_stat =
  ls_mode :: u32
  ls_nlink :: u64
  ls_size :: u64

definition stat_bytes :: "linux_stat \<Rightarrow> u8 list" where
  "stat_bytes st =
     replicate 16 0 @ le_bytes 8 (unat (ls_nlink st)) @ le_bytes 4 (unat (ls_mode st)) @ replicate 20 0 @
     le_bytes 8 (unat (ls_size st)) @ replicate 88 0"

definition fill_stat :: "vfs_stat_rec \<Rightarrow> linux_stat" where
  "fill_stat vs = \<lparr>ls_mode = st_mode vs, ls_nlink = 1, ls_size = st_size vs\<rparr>"

text \<open>Bytes for the user, and 0 or the error of a bad address.\<close>

definition answer :: "u64 \<Rightarrow> u8 list \<Rightarrow> int \<Rightarrow> 'a kproc_scheme \<Rightarrow> (int \<times> 'a kproc_scheme) option" where
  "answer dst bytes ret s = do { (r, s1) \<leftarrow> copy_to_user dst bytes s; Some (if r \<noteq> 0 then - E_FAULT else ret, s1) }"

section \<open>The cases of the dispatch\<close>

definition AT_FDCWD :: u64 where [simp]: "AT_FDCWD = - 100"
definition F_DUPFD :: int where [simp]: "F_DUPFD = 0"
definition F_DUPFD_CLOEXEC :: int where [simp]: "F_DUPFD_CLOEXEC = 1030"
definition F_GETFL :: int where [simp]: "F_GETFL = 3"
definition TIOCGWINSZ :: u64 where [simp]: "TIOCGWINSZ = 0x5413"
definition TIOCGPGRP :: u64 where [simp]: "TIOCGPGRP = 0x540F"
definition TCGETS :: u64 where [simp]: "TCGETS = 0x5401"
definition POLLIN :: u16 where [simp]: "POLLIN = 1"
definition ARCH_SET_FS :: u64 where [simp]: "ARCH_SET_FS = 0x1002"
definition ARCH_GET_FS :: u64 where [simp]: "ARCH_GET_FS = 0x1003"
definition CLONE_VM :: u64 where [simp]: "CLONE_VM = 0x100"
definition CLONE_SETTLS :: u64 where [simp]: "CLONE_SETTLS = 0x80000"

text \<open>A path of the user, resolved against the working directory.\<close>

definition user_path :: "u64 \<Rightarrow> 'a kproc_scheme \<Rightarrow> (int \<times> u8 list) option" where
  "user_path upath s =
     do { (r, path) \<leftarrow> copy_str_from_user upath 256 s; Some (r, resolve_path path 256 s) }"

definition sys_open :: "u64 \<Rightarrow> 'a kproc_scheme \<Rightarrow> (int \<times> 'a kproc_scheme) option" where
  "sys_open upath s =
     do { (r, path) \<leftarrow> user_path upath s;
          if r \<noteq> 0 then Some (- E_FAULT, s) else sys_open_path path s }"

definition sys_dup2 :: "int \<Rightarrow> int \<Rightarrow> 'a kproc_scheme \<Rightarrow> (int \<times> 'a kproc_scheme) option" where
  "sys_dup2 oldfd newfd s =
     (if newfd < 0 \<or> newfd \<ge> int PROC_MAX_FD then Some (- E_BADF, s) else fd_dup_to oldfd newfd s)"

definition sys_clone :: "u64 \<Rightarrow> u64 \<Rightarrow> 'a kproc_scheme \<Rightarrow> (int \<times> 'a kproc_scheme) option" where
  "sys_clone flags tls s =
     (if flags AND CLONE_VM \<noteq> 0 then
        (let s1 = (if flags AND CLONE_SETTLS \<noteq> 0 then proc_set_fs_base tls s else s) in Some (p_pid (cur s1), s1))
      else proc_fork s)"

partial_function (option) wait_loop ::
    "('a kconsole_scheme \<Rightarrow> 'a kconsole_scheme option) \<Rightarrow> ('a kconsole_scheme \<Rightarrow> 'a kconsole_scheme option) \<Rightarrow>
     int \<Rightarrow> u64 \<Rightarrow> 'a kconsole_scheme \<Rightarrow> (int \<times> 'a kconsole_scheme) option" where
  "wait_loop run irq pid ustatus s =
     (let (reaped, status, s1) = proc_fork_take_status pid s
      in if reaped \<ge> 0 then
           (case status of
              Some st \<Rightarrow>
                if ustatus \<noteq> 0 then
                  do { (r, s2) \<leftarrow> copy_to_user ustatus (int_bytes st) s1;
                       Some (if r \<noteq> 0 then - E_FAULT else reaped, s2) }
                else Some (reaped, s1)
            | None \<Rightarrow> None)
         else if \<not> proc_has_children s1 then Some (- E_CHLD, s1)
         else
           do { (ran, s2) \<leftarrow> proc_run_runnable run s1;
                if ran then wait_loop run irq pid ustatus s2
                else do { s3 \<leftarrow> sched_block_current run irq s2; wait_loop run irq pid ustatus s3 } })"

definition sys_wait4 ::
    "('a kconsole_scheme \<Rightarrow> 'a kconsole_scheme option) \<Rightarrow> ('a kconsole_scheme \<Rightarrow> 'a kconsole_scheme option) \<Rightarrow>
     int \<Rightarrow> u64 \<Rightarrow> 'a kconsole_scheme \<Rightarrow> (int \<times> 'a kconsole_scheme) option" where
  "sys_wait4 run irq pid ustatus s =
     (if \<not> proc_has_children s then Some (- E_CHLD, s) else wait_loop run irq pid ustatus s)"

definition sys_setsid :: "'a kproc_scheme \<Rightarrow> (int \<times> 'a kproc_scheme) option" where
  "sys_setsid s = (let s1 = on_task (current_task s) (\<lambda>t. t\<lparr>p_sid := p_pid t\<rparr>) s in Some (p_sid (cur s1), s1))"

definition sys_setpgid :: "int \<Rightarrow> int \<Rightarrow> 'a kproc_scheme \<Rightarrow> (int \<times> 'a kproc_scheme) option" where
  "sys_setpgid pid pgid s =
     (if pid = 0 \<or> pid = p_pid (cur s) then Some (0, on_task (current_task s) (\<lambda>t. t\<lparr>p_pgid := pgid\<rparr>) s)
      else Some (- E_INVAL, s))"

definition sys_getcwd :: "u64 \<Rightarrow> u64 \<Rightarrow> 'a kproc_scheme \<Rightarrow> (int \<times> 'a kproc_scheme) option" where
  "sys_getcwd ubuf usize s =
     (let len = length (p_cwd (cur s)) + 1
      in if usize < of_nat len then Some (- E_INVAL, s) else answer ubuf (p_cwd (cur s) @ [0]) (int len) s)"

definition sys_chdir :: "u64 \<Rightarrow> 'a kproc_scheme \<Rightarrow> (int \<times> 'a kproc_scheme) option" where
  "sys_chdir upath s =
     do { (r, path) \<leftarrow> user_path upath s;
          if r \<noteq> 0 then Some (- E_FAULT, s)
          else
            do { (e, st) \<leftarrow> vfs_stat path s;
                 if e \<noteq> 0 \<or> map_option st_type st \<noteq> Some VFS_TYPE_DIR then Some (- E_NOENT, s)
                 else Some (0, on_task (current_task s) (\<lambda>t. t\<lparr>p_cwd := take 255 path\<rparr>) s) } }"

definition sys_access :: "u64 \<Rightarrow> 'a kproc_scheme \<Rightarrow> (int \<times> 'a kproc_scheme) option" where
  "sys_access upath s =
     do { (r, path) \<leftarrow> user_path upath s;
          if r \<noteq> 0 then Some (- E_FAULT, s)
          else do { (e, st) \<leftarrow> vfs_stat path s; Some (if e \<noteq> 0 then - E_NOENT else 0, s) } }"

definition sys_unlink :: "u64 \<Rightarrow> 'a kproc_scheme \<Rightarrow> (int \<times> 'a kproc_scheme) option" where
  "sys_unlink upath s =
     do { (r, path) \<leftarrow> user_path upath s;
          Some (if r \<noteq> 0 then - E_FAULT else if is_console_path path \<or> is_null_path path then - E_ACCES else 0, s) }"

definition sys_fcntl :: "int \<Rightarrow> int \<Rightarrow> int \<Rightarrow> 'a kproc_scheme \<Rightarrow> (int \<times> 'a kproc_scheme) option" where
  "sys_fcntl fd cmd arg s =
     (if cmd = F_DUPFD \<or> cmd = F_DUPFD_CLOEXEC then fd_dup_from fd arg s
      else if cmd = F_GETFL then Some (0x10000, s)
      else Some (0, s))"

definition winsize_bytes :: "u8 list" where
  "winsize_bytes = le_bytes 2 25 @ le_bytes 2 80 @ le_bytes 2 0 @ le_bytes 2 0"

definition termios_bytes :: "u8 list" where
  "termios_bytes = replicate 8 0 @ le_bytes 4 0x4B00 @ replicate 5 0 @ [3] @ replicate 18 0"

definition sys_ioctl :: "u64 \<Rightarrow> u64 \<Rightarrow> 'a kproc_scheme \<Rightarrow> (int \<times> 'a kproc_scheme) option" where
  "sys_ioctl request arg s =
     (if request = TIOCGWINSZ then answer arg winsize_bytes 0 s
      else if request = TIOCGPGRP then answer arg (int_bytes (p_pgid (cur s))) 0 s
      else if request = TCGETS then answer arg termios_bytes 0 s
      else Some (0, s))"

definition sys_poll :: "u64 \<Rightarrow> u64 \<Rightarrow> 'a kproc_scheme \<Rightarrow> (int \<times> 'a kproc_scheme) option" where
  "sys_poll ufds timeout s =
     (if ufds = 0 \<or> timeout = 0 then Some (0, s)
      else
        do { (r, pfd) \<leftarrow> copy_from_user ufds 8 s;
             if r \<noteq> 0 then Some (- E_FAULT, s)
             else
               (let fd = sint (of_nat (le_val (take 4 pfd)) :: u32);
                    events = (of_nat (le_val (take 2 (drop 4 pfd))) :: u16);
                    is_ready = (fd \<ge> 0 \<and> fd_get fd s \<noteq> 0);
                    pfd1 = (if is_ready then take 6 pfd @ le_bytes 2 (unat (events AND POLLIN)) else pfd)
                in answer ufds pfd1 (if is_ready then 1 else 0) s) })"

definition sys_prlimit64 :: "u64 \<Rightarrow> 'a kproc_scheme \<Rightarrow> (int \<times> 'a kproc_scheme) option" where
  "sys_prlimit64 urlim s =
     (if urlim \<noteq> 0 then answer urlim (le_bytes 8 0x10000000 @ le_bytes 8 0x10000000) 0 s else Some (0, s))"

definition sys_arch_prctl :: "u64 \<Rightarrow> u64 \<Rightarrow> 'a kproc_scheme \<Rightarrow> (int \<times> 'a kproc_scheme) option" where
  "sys_arch_prctl code addr s =
     (if code = ARCH_SET_FS then Some (0, proc_set_fs_base addr s)
      else if code = ARCH_GET_FS then answer addr (le_bytes 8 (unat (msr_fs_base s))) 0 s
      else Some (- E_INVAL, s))"

definition sys_mount :: "u64 \<Rightarrow> u64 \<Rightarrow> u64 \<Rightarrow> 'a kproc_scheme \<Rightarrow> (int \<times> 'a kproc_scheme) option" where
  "sys_mount usource utarget ufstype s =
     do { (r1, source) \<leftarrow> copy_str_from_user usource 64 s;
          if r1 \<noteq> 0 then Some (- E_FAULT, s)
          else
            do { (r2, target) \<leftarrow> copy_str_from_user utarget 256 s;
                 if r2 \<noteq> 0 then Some (- E_FAULT, s)
                 else
                   do { (r3, fstype) \<leftarrow> copy_str_from_user ufstype 32 s;
                        if r3 \<noteq> 0 then Some (- E_FAULT, s)
                        else do { (_, s1) \<leftarrow> vfs_mkdir target 0x1ED s; Some (0, s1) } } } }"

definition sys_clock_gettime :: "u64 \<Rightarrow> 'a kproc_scheme \<Rightarrow> (int \<times> 'a kproc_scheme) option" where
  "sys_clock_gettime uts s = answer uts (replicate 16 0) 0 s"

text \<open>A buffer of no bytes makes the length -1, which no user range has.\<close>

definition sys_readlink :: "u64 \<Rightarrow> u64 \<Rightarrow> u64 \<Rightarrow> 'a kproc_scheme \<Rightarrow> (int \<times> 'a kproc_scheme) option" where
  "sys_readlink upath ubuf bufsz s =
     do { (r, path) \<leftarrow> copy_str_from_user upath 256 s;
          if r \<noteq> 0 then Some (- E_FAULT, s)
          else
            do { (len, target) \<leftarrow> vfs_readlink path 256 s;
                 if len < 0 then Some (- E_NOENT, s)
                 else
                   (let len1 = (if nat len \<ge> unat bufsz then sint (bufsz - 1) else len)
                    in if len1 < 0 then Some (- E_FAULT, s)
                       else answer ubuf (take (nat len1) target) len1 s) } }"

definition sys_readlinkat :: "u64 \<Rightarrow> u64 \<Rightarrow> u64 \<Rightarrow> u64 \<Rightarrow> 'a kproc_scheme \<Rightarrow> (int \<times> 'a kproc_scheme) option" where
  "sys_readlinkat dirfd upath ubuf bufsz s =
     (if dirfd \<noteq> AT_FDCWD then Some (- E_NOSYS, s) else sys_readlink upath ubuf bufsz s)"

definition fake_random :: "u8 list" where
  "fake_random = 0x42 # replicate 255 0"

definition sys_getrandom :: "u64 \<Rightarrow> u64 \<Rightarrow> 'a kproc_scheme \<Rightarrow> (int \<times> 'a kproc_scheme) option" where
  "sys_getrandom ubuf usize s =
     (let len = (if unat usize > length fake_random then length fake_random else unat usize)
      in answer ubuf (take len fake_random) (int len) s)"

text \<open>What a call does: it returns a value, enters a program, or jumps to a waiting parent.\<close>

datatype sys_outcome = Sys_ret int | Sys_enter u64 u64 u64 u64 u64 | Sys_jump

definition sys_execve ::
    "u8 list \<Rightarrow> u64 \<Rightarrow> u64 \<Rightarrow> u64 \<Rightarrow> 'a kproc_scheme \<Rightarrow> (sys_outcome \<times> 'a kproc_scheme) option" where
  "sys_execve junk upath uargv uenvp s =
     do { (r1, path) \<leftarrow> copy_str_from_user upath 256 s;
          if r1 \<noteq> 0 then Some (Sys_ret (- E_FAULT), s)
          else
            do { (r2, argv) \<leftarrow> copy_user_string_array uargv 16 s;
                 if r2 \<noteq> 0 then Some (Sys_ret (- E_FAULT), s)
                 else
                   do { (r3, envp) \<leftarrow> copy_user_string_array uenvp 16 s;
                        if r3 \<noteq> 0 then Some (Sys_ret (- E_FAULT), s)
                        else
                          do { (x, s1) \<leftarrow> proc_exec junk path (takeWhile (\<lambda>t. t \<noteq> []) argv) (takeWhile (\<lambda>t. t \<noteq> []) envp) s;
                               Some (case x of Exec_failed \<Rightarrow> Sys_ret (- E_NOENT)
                                             | Enter_usermode e sp ac av ep \<Rightarrow> Sys_enter e sp ac av ep, s1) } } } }"

text \<open>The status of a file by its path, and by its descriptor.\<close>

definition stat_path :: "u8 list \<Rightarrow> u64 \<Rightarrow> 'a kproc_scheme \<Rightarrow> (int \<times> 'a kproc_scheme) option" where
  "stat_path path dst s =
     do { (r, vs) \<leftarrow> vfs_stat path s;
          case vs of
            None \<Rightarrow> Some (- E_NOENT, s)
          | Some st \<Rightarrow> if r \<noteq> 0 then Some (- E_NOENT, s) else answer dst (stat_bytes (fill_stat st)) 0 s }"

definition sys_stat :: "u64 \<Rightarrow> u64 \<Rightarrow> 'a kproc_scheme \<Rightarrow> (int \<times> 'a kproc_scheme) option" where
  "sys_stat upath dst s =
     do { (r, path) \<leftarrow> copy_str_from_user upath 256 s;
          if r \<noteq> 0 then Some (- E_FAULT, s) else stat_path path dst s }"

definition sys_newfstatat :: "u64 \<Rightarrow> u64 \<Rightarrow> u64 \<Rightarrow> 'a kproc_scheme \<Rightarrow> (int \<times> 'a kproc_scheme) option" where
  "sys_newfstatat dirfd upath dst s =
     do { (r, path) \<leftarrow> copy_str_from_user upath 256 s;
          if r \<noteq> 0 then Some (- E_FAULT, s)
          else
            (let absolute = vfs_is_absolute path;
                 path1 = (if \<not> absolute \<and> dirfd = AT_FDCWD then take 255 (slash # path) else path)
             in if \<not> absolute \<and> dirfd = AT_FDCWD \<and> length path + 2 \<ge> 280 then Some (- E_FAULT, s)
                else if dirfd \<noteq> AT_FDCWD \<and> \<not> vfs_is_absolute path1 then Some (- E_NOSYS, s)
                else stat_path path1 dst s) }"

definition sys_fstat :: "int \<Rightarrow> u64 \<Rightarrow> 'a kproc_scheme \<Rightarrow> (int \<times> 'a kproc_scheme) option" where
  "sys_fstat fd dst s =
     do { file \<leftarrow> fd_file fd s;
          case file of
            None \<Rightarrow> Some (- E_BADF, s)
          | Some f \<Rightarrow>
              if vf_inode f = 0 \<and> is_console_path (vf_path f) then
                answer dst (stat_bytes \<lparr>ls_mode = 0x10180, ls_nlink = 1, ls_size = 0\<rparr>) 0 s
              else
                do { (r, vs) \<leftarrow> vfs_fstat f s;
                     case vs of
                       None \<Rightarrow> Some (- E_BADF, s)
                     | Some st \<Rightarrow> if r \<noteq> 0 then Some (- E_BADF, s) else answer dst (stat_bytes (fill_stat st)) 0 s } }"

definition utsname_bytes :: "u8 list" where
  "utsname_bytes =
     concat (map (\<lambda>t. lit t @ replicate (65 - length t) 0) [''Linux'', ''TypeOS'', ''6.1.0'', ''TypeOS'', ''x86_64'', []])"

definition sys_uname :: "u64 \<Rightarrow> 'a kproc_scheme \<Rightarrow> (int \<times> 'a kproc_scheme) option" where
  "sys_uname dst s = answer dst utsname_bytes 0 s"

definition exit_format :: "u8 list" where
  "exit_format = [10] @ lit ''[process exited with code %lld]'' @ [10]"

text \<open>The halt at the end of an exit without a waiting parent never returns.\<close>

definition sys_exit ::
    "('a kconsole_scheme \<Rightarrow> 'a kconsole_scheme option) \<Rightarrow> u64 \<Rightarrow> 'a kconsole_scheme \<Rightarrow> (sys_outcome \<times> 'a kconsole_scheme) option" where
  "sys_exit run code s =
     do { v \<leftarrow> kprintf exit_format [Va_word code] (vga_dev s);
          let (jumped, s1) = proc_exit (sint (ucast code :: u32)) (s\<lparr>vga_dev := v\<rparr>);
          if jumped then Some (Sys_jump, s1)
          else if p_state (cur s1) = TASK_ZOMBIE then do { _ \<leftarrow> proc_run_runnable run s1; None }
          else Some (Sys_ret 0, s1) }"

section \<open>Dispatch\<close>

text \<open>The calls by their numbers.  Those that share a branch share a constructor; \<open>SYS_ignored\<close> are the ones that
  only return 0.\<close>

datatype (plugins only: code) sysno =
    SYS_read | SYS_write | SYS_open | SYS_close | SYS_stat | SYS_fstat | SYS_poll | SYS_lseek | SYS_mmap
  | SYS_brk | SYS_ioctl | SYS_readv | SYS_writev | SYS_access | SYS_pipe | SYS_dup | SYS_dup2 | SYS_getpid
  | SYS_socket | SYS_clone | SYS_fork | SYS_execve | SYS_exit | SYS_wait4 | SYS_uname | SYS_fcntl | SYS_getcwd
  | SYS_chdir | SYS_unlink | SYS_readlink | SYS_setpgid | SYS_getppid | SYS_getpgrp | SYS_setsid | SYS_arch_prctl
  | SYS_mount | SYS_getdents64 | SYS_clock_gettime | SYS_openat | SYS_newfstatat | SYS_readlinkat | SYS_prlimit64
  | SYS_getrandom | SYS_ignored

definition sys_table :: "(u64 \<times> sysno) list" where
  "sys_table =
     [(0, SYS_read), (1, SYS_write), (2, SYS_open), (3, SYS_close), (4, SYS_stat), (5, SYS_fstat), (7, SYS_poll),
      (8, SYS_lseek), (9, SYS_mmap), (10, SYS_ignored), (11, SYS_ignored), (12, SYS_brk), (13, SYS_ignored),
      (14, SYS_ignored), (16, SYS_ioctl), (19, SYS_readv), (20, SYS_writev), (21, SYS_access), (22, SYS_pipe),
      (28, SYS_ignored), (32, SYS_dup), (33, SYS_dup2), (39, SYS_getpid), (41, SYS_socket), (56, SYS_clone),
      (57, SYS_fork), (58, SYS_fork), (59, SYS_execve), (60, SYS_exit), (61, SYS_wait4), (62, SYS_ignored),
      (63, SYS_uname), (72, SYS_fcntl), (79, SYS_getcwd), (80, SYS_chdir), (87, SYS_unlink), (89, SYS_readlink),
      (102, SYS_ignored), (104, SYS_ignored), (105, SYS_ignored), (106, SYS_ignored), (107, SYS_ignored),
      (108, SYS_ignored), (109, SYS_setpgid), (110, SYS_getppid), (111, SYS_getpgrp), (112, SYS_setsid),
      (121, SYS_getpgrp), (125, SYS_ignored), (128, SYS_ignored), (155, SYS_ignored), (158, SYS_arch_prctl),
      (165, SYS_mount), (169, SYS_ignored), (186, SYS_getpid), (202, SYS_ignored), (217, SYS_getdents64),
      (218, SYS_ignored), (228, SYS_clock_gettime), (230, SYS_ignored), (231, SYS_exit), (234, SYS_ignored),
      (257, SYS_openat), (262, SYS_newfstatat), (267, SYS_readlinkat), (273, SYS_ignored), (292, SYS_dup2),
      (293, SYS_pipe), (302, SYS_prlimit64), (318, SYS_getrandom), (332, SYS_newfstatat), (334, SYS_ignored),
      (437, SYS_openat)]"

definition ret :: "(int \<times> 's) option \<Rightarrow> (sys_outcome \<times> 's) option" where
  "ret m = do { (r, s) \<leftarrow> m; Some (Sys_ret r, s) }"

text \<open>\<^verbatim>\<open>(int) a\<close>\<close>

definition as_int :: "u64 \<Rightarrow> int" where
  "as_int a = sint (ucast a :: u32)"

definition dev_null_path :: "u8 list" where
  "dev_null_path = [47, 100, 101, 118, 47, 110, 117, 108, 108]"

definition syscall_dispatch ::
    "('a kconsole_scheme \<Rightarrow> 'a kconsole_scheme option) \<Rightarrow> ('a kconsole_scheme \<Rightarrow> 'a kconsole_scheme option) \<Rightarrow> u8 list \<Rightarrow>
     u64 \<Rightarrow> u64 \<Rightarrow> u64 \<Rightarrow> u64 \<Rightarrow> u64 \<Rightarrow> u64 \<Rightarrow> u64 \<Rightarrow> 'a kconsole_scheme \<Rightarrow> (sys_outcome \<times> 'a kconsole_scheme) option" where
  "syscall_dispatch run irq junk num a0 a1 a2 a3 a4 a5 s =
     (case map_of sys_table num of
        None \<Rightarrow> ret (Some (- E_NOSYS, s))
      | Some SYS_read \<Rightarrow> ret (sys_read run irq (as_int a0) a1 a2 s)
      | Some SYS_write \<Rightarrow> ret (sys_write run irq (as_int a0) a1 a2 s)
      | Some SYS_writev \<Rightarrow> ret (sys_writev run irq (as_int a0) a1 a2 s)
      | Some SYS_readv \<Rightarrow> ret (sys_readv run irq (as_int a0) a1 s)
      | Some SYS_open \<Rightarrow> ret (sys_open a0 s)
      | Some SYS_openat \<Rightarrow> ret (sys_open a1 s)
      | Some SYS_close \<Rightarrow> ret (sys_close (as_int a0) s)
      | Some SYS_dup \<Rightarrow> ret (fd_dup_to (as_int a0) (- 1) s)
      | Some SYS_dup2 \<Rightarrow> ret (sys_dup2 (as_int a0) (as_int a1) s)
      | Some SYS_pipe \<Rightarrow> ret (sys_pipe_impl a0 s)
      | Some SYS_fork \<Rightarrow> ret (proc_fork s)
      | Some SYS_clone \<Rightarrow> ret (sys_clone a0 a4 s)
      | Some SYS_wait4 \<Rightarrow> ret (sys_wait4 run irq (as_int a0) a1 s)
      | Some SYS_socket \<Rightarrow> ret (sys_open_path dev_null_path s)
      | Some SYS_setsid \<Rightarrow> ret (sys_setsid s)
      | Some SYS_setpgid \<Rightarrow> ret (sys_setpgid (as_int a0) (as_int a1) s)
      | Some SYS_getpgrp \<Rightarrow> ret (Some (p_pgid (cur s), s))
      | Some SYS_getppid \<Rightarrow> ret (Some (p_ppid (cur s), s))
      | Some SYS_getpid \<Rightarrow> ret (Some (p_pid (cur s), s))
      | Some SYS_getcwd \<Rightarrow> ret (sys_getcwd a0 a1 s)
      | Some SYS_chdir \<Rightarrow> ret (sys_chdir a0 s)
      | Some SYS_access \<Rightarrow> ret (sys_access a0 s)
      | Some SYS_unlink \<Rightarrow> ret (sys_unlink a0 s)
      | Some SYS_fcntl \<Rightarrow> ret (sys_fcntl (as_int a0) (as_int a1) (as_int a2) s)
      | Some SYS_ioctl \<Rightarrow> ret (sys_ioctl a1 a2 s)
      | Some SYS_poll \<Rightarrow> ret (sys_poll a0 a2 s)
      | Some SYS_prlimit64 \<Rightarrow> ret (sys_prlimit64 a2 s)
      | Some SYS_brk \<Rightarrow> ret (sys_brk a0 s)
      | Some SYS_mmap \<Rightarrow> ret (sys_mmap a0 a1 a2 a3 s)
      | Some SYS_lseek \<Rightarrow> ret (sys_lseek (as_int a0) a1 (as_int a2) s)
      | Some SYS_getdents64 \<Rightarrow> ret (sys_getdents64 (as_int a0) a1 a2 s)
      | Some SYS_arch_prctl \<Rightarrow> ret (sys_arch_prctl a0 a1 s)
      | Some SYS_mount \<Rightarrow> ret (sys_mount a0 a1 a2 s)
      | Some SYS_clock_gettime \<Rightarrow> ret (sys_clock_gettime a1 s)
      | Some SYS_readlink \<Rightarrow> ret (sys_readlink a0 a1 a2 s)
      | Some SYS_readlinkat \<Rightarrow> ret (sys_readlinkat a0 a1 a2 a3 s)
      | Some SYS_getrandom \<Rightarrow> ret (sys_getrandom a0 a1 s)
      | Some SYS_execve \<Rightarrow> sys_execve junk a0 a1 a2 s
      | Some SYS_stat \<Rightarrow> ret (sys_stat a0 a1 s)
      | Some SYS_newfstatat \<Rightarrow> ret (sys_newfstatat a0 a1 a2 s)
      | Some SYS_fstat \<Rightarrow> ret (sys_fstat (as_int a0) a1 s)
      | Some SYS_uname \<Rightarrow> ret (sys_uname a0 s)
      | Some SYS_exit \<Rightarrow> sys_exit run a0 s
      | Some SYS_ignored \<Rightarrow> ret (Some (0, s)))"

end
