(* ===== verification/Descr.thy ===== *)
theory Descr
  imports Prelude
begin

unbundle bit_operations_syntax

text \<open>
  \<^verbatim>\<open>core/gdt.c\<close> and \<^verbatim>\<open>core/idt.c\<close>: the segment descriptors, the descriptor of the task state segment, the interrupt
  gates and the registers of the processor that the set-up writes.  The addresses of the tables' contents
  (the task state segment, the assembly entry points) are parameters; the timer is in \<open>Ports\<close>, the interrupt
  controller is programmed in assembly.  The lemmas read the packed fields back the way the
  processor does.
\<close>

record gdt_entry =
  limit_low :: u16
  base_low :: u16
  base_mid :: u8
  access :: u8
  granularity :: u8
  base_high :: u8

record idt_entry =
  isr_low :: u16
  kernel_cs :: u16
  ist :: u8
  attributes :: u8
  isr_mid :: u16
  isr_high :: u32
  reserved :: u32

record kcpu =
  gdt :: "gdt_entry list"
  idt :: "idt_entry list"
  tss_rsp0_field :: u64
  iomap_base :: u16
  gdt_limit :: u16
  idtr_limit :: u16
  task_register :: u16
  msr_star :: u64
  msr_lstar :: u64
  msr_sfmask :: u64
  msr_efer :: u64
  cr0_reg :: u64
  cr4_reg :: u64

definition sizeof_tss :: u32 where [simp]: "sizeof_tss = 104"
definition TSS_STACK_SIZE :: u64 where [simp]: "TSS_STACK_SIZE = 0x10000"
definition GDT_KERNEL_CS :: u64 where [simp]: "GDT_KERNEL_CS = 0x08"
definition GDT_USER_CS :: u64 where [simp]: "GDT_USER_CS = 0x23"

section \<open>Segments\<close>

definition make_entry :: "u32 \<Rightarrow> u32 \<Rightarrow> u8 \<Rightarrow> u8 \<Rightarrow> gdt_entry" where
  "make_entry base limit acc gran =
     \<lparr>limit_low = ucast (limit AND 0xFFFF), base_low = ucast (base AND 0xFFFF),
      base_mid = ucast (drop_bit 16 base AND 0xFF), access = acc,
      granularity = ucast (drop_bit 16 limit AND 0x0F) OR gran, base_high = ucast (drop_bit 24 base AND 0xFF)\<rparr>"

definition gdt_set_entry :: "nat \<Rightarrow> u32 \<Rightarrow> u32 \<Rightarrow> u8 \<Rightarrow> u8 \<Rightarrow> kcpu \<Rightarrow> kcpu" where
  "gdt_set_entry index base limit acc gran s = s\<lparr>gdt := (gdt s)[index := make_entry base limit acc gran]\<rparr>"

text \<open>The sixteen bytes of the system descriptor lie over two entries: the second one holds the upper half of the
  base in its first four bytes.\<close>

definition gdt_set_tss :: "nat \<Rightarrow> u64 \<Rightarrow> u32 \<Rightarrow> kcpu \<Rightarrow> kcpu" where
  "gdt_set_tss index base limit s =
     (let upper = (ucast (drop_bit 32 base) :: u32)
      in s\<lparr>gdt := (gdt s)[
             index := \<lparr>limit_low = ucast (limit AND 0xFFFF), base_low = ucast (base AND 0xFFFF),
                       base_mid = ucast (drop_bit 16 base AND 0xFF), access = 0x89,
                       granularity = ucast (drop_bit 16 limit AND 0x0F), base_high = ucast (drop_bit 24 base AND 0xFF)\<rparr>,
             Suc index := \<lparr>limit_low = ucast upper, base_low = ucast (drop_bit 16 upper), base_mid = 0, access = 0,
                           granularity = 0, base_high = 0\<rparr>]\<rparr>)"

definition gdt_init :: "u64 \<Rightarrow> u64 \<Rightarrow> u64 \<Rightarrow> kcpu \<Rightarrow> kcpu" where
  "gdt_init tss_addr tss_stack syscall_entry s =
     (let s1 = gdt_set_entry 4 0 0 0xFA 0xA0 (gdt_set_entry 3 0 0 0xF2 0xC0 (gdt_set_entry 2 0 0 0x92 0xC0
                 (gdt_set_entry 1 0 0 0x9A 0xA0 (gdt_set_entry 0 0 0 0 0 s))));
          s2 = s1\<lparr>iomap_base := ucast sizeof_tss, tss_rsp0_field := tss_stack + TSS_STACK_SIZE\<rparr>;
          s3 = gdt_set_tss 5 tss_addr (sizeof_tss - 1) s2
      in s3\<lparr>gdt_limit := 7 * 8 - 1, task_register := 0x28,
            msr_star := push_bit 48 (GDT_USER_CS - 16) OR push_bit 32 GDT_KERNEL_CS,
            msr_lstar := syscall_entry,
            msr_sfmask := push_bit 9 1,
            msr_efer := (msr_efer s3 OR 1) AND NOT (push_bit 11 1),
            cr0_reg := (cr0_reg s3 AND NOT (push_bit 2 1)) OR push_bit 1 1,
            cr4_reg := cr4_reg s3 OR (push_bit 9 1 OR push_bit 10 1)\<rparr>)"

section \<open>Interrupt gates\<close>

definition idt_set_descriptor :: "u8 \<Rightarrow> u64 \<Rightarrow> u8 \<Rightarrow> kcpu \<Rightarrow> kcpu" where
  "idt_set_descriptor vector isr flags s =
     s\<lparr>idt := (idt s)[unat vector :=
        \<lparr>isr_low = ucast (isr AND 0xFFFF), kernel_cs = 0x08, ist = 0, attributes = flags,
         isr_mid = ucast (drop_bit 16 isr AND 0xFFFF), isr_high = ucast (drop_bit 32 isr AND 0xFFFFFFFF), reserved = 0\<rparr>]\<rparr>"

definition idt_set_handler :: "u8 \<Rightarrow> u64 \<Rightarrow> kcpu \<Rightarrow> kcpu" where
  "idt_set_handler num handler s = idt_set_descriptor num handler 0x8E s"

definition idt_init :: "u64 \<Rightarrow> u64 \<Rightarrow> u64 \<Rightarrow> kcpu \<Rightarrow> kcpu" where
  "idt_init pf_handler irq0_handler irq1_handler s =
     idt_set_handler 0x09 irq1_handler (idt_set_handler 0x21 irq1_handler (idt_set_handler 0x20 irq0_handler
       (idt_set_handler 0x0E pf_handler (s\<lparr>idtr_limit := 16 * 256 - 1\<rparr>))))"

section \<open>What the processor reads\<close>

definition entry_base :: "gdt_entry \<Rightarrow> u64" where
  "entry_base e = ucast (base_low e) OR push_bit 16 (ucast (base_mid e)) OR push_bit 24 (ucast (base_high e))"

definition entry_limit :: "gdt_entry \<Rightarrow> u32" where
  "entry_limit e = ucast (limit_low e) OR push_bit 16 (ucast (granularity e) AND 0x0F)"

definition entry_dpl :: "gdt_entry \<Rightarrow> u8" where
  "entry_dpl e = drop_bit 5 (access e) AND 3"

definition tss_base :: "gdt_entry \<Rightarrow> gdt_entry \<Rightarrow> u64" where
  "tss_base e e' = entry_base e OR push_bit 32 (ucast (limit_low e')) OR push_bit 48 (ucast (base_low e'))"

definition gate_target :: "idt_entry \<Rightarrow> u64" where
  "gate_target g = ucast (isr_low g) OR push_bit 16 (ucast (isr_mid g)) OR push_bit 32 (ucast (isr_high g))"

lemma low_mask: "(0xFFFF :: 'a :: len word) = mask 16" "(0xFF :: 'a word) = mask 8" "(0x0F :: 'a word) = mask 4"
  "(0xFFFFFFFF :: 'a word) = mask 32" "(3 :: 'a word) = mask 2"
  by (simp_all add: mask_eq_exp_minus_1)

text \<open>The pieces of a word, put together again.\<close>

lemma split_16_32:
  "(ucast (ucast (x AND mask 16) :: u16) :: u64) OR push_bit 16 (ucast (ucast (drop_bit 16 x AND mask 16) :: u16)) OR
     push_bit 32 (ucast (ucast (drop_bit 32 x AND mask 32) :: u32)) = x"
  for x :: u64
proof (rule bit_word_eqI)
  fix n assume "n < LENGTH(64)"
  then consider "n < 16" | "16 \<le> n" "n < 32" | "32 \<le> n" "n < 64" by fastforce
  then show "bit ((ucast (ucast (x AND mask 16) :: u16) :: u64) OR push_bit 16 (ucast (ucast (drop_bit 16 x AND mask 16) :: u16)) OR
     push_bit 32 (ucast (ucast (drop_bit 32 x AND mask 32) :: u32))) n = bit x n"
    by cases (auto simp: bit_simps dest: bit_imp_le_length)
qed

lemma split_base:
  "(ucast (ucast (x AND mask 16) :: u16) :: u64) OR push_bit 16 (ucast (ucast (drop_bit 16 x AND mask 8) :: u8)) OR
     push_bit 24 (ucast (ucast (drop_bit 24 x AND mask 8) :: u8)) = ucast x AND mask 32"
  for x :: "'a :: len word"
proof (rule bit_word_eqI)
  fix n assume "n < LENGTH(64)"
  then consider "n < 16" | "16 \<le> n" "n < 24" | "24 \<le> n" "n < 32" | "32 \<le> n" by fastforce
  then show "bit ((ucast (ucast (x AND mask 16) :: u16) :: u64) OR push_bit 16 (ucast (ucast (drop_bit 16 x AND mask 8) :: u8)) OR
     push_bit 24 (ucast (ucast (drop_bit 24 x AND mask 8) :: u8))) n = bit (ucast x AND mask 32 :: u64) n"
    using \<open>n < LENGTH(64)\<close> by cases (auto simp: bit_simps dest: bit_imp_le_length)
qed

lemma gate_target_set:
  "unat v < length (idt s) \<Longrightarrow> gate_target (idt (idt_set_descriptor v isr flags s) ! unat v) = isr"
  unfolding gate_target_def idt_set_descriptor_def low_mask using split_16_32 by simp

lemma entry_base_make: "entry_base (make_entry base limit acc gran) = ucast base AND mask 32"
  unfolding entry_base_def make_entry_def low_mask using split_base by simp

lemma tss_base_set:
  assumes "Suc i < length (gdt s)"
  shows "tss_base (gdt (gdt_set_tss i base limit s) ! i) (gdt (gdt_set_tss i base limit s) ! Suc i) = base"
proof -
  have "tss_base (gdt (gdt_set_tss i base limit s) ! i) (gdt (gdt_set_tss i base limit s) ! Suc i) =
      (base AND mask 32) OR push_bit 32 (ucast (ucast (ucast (drop_bit 32 base) :: u32) :: u16)) OR
        push_bit 48 (ucast (ucast (drop_bit 16 (ucast (drop_bit 32 base) :: u32)) :: u16))"
    using assms split_base [of base] by (simp add: tss_base_def gdt_set_tss_def entry_base_def low_mask Let_def)
  also have "\<dots> = base"
  proof (rule bit_word_eqI)
    fix n assume "n < LENGTH(64)"
    then consider "n < 32" | "32 \<le> n" "n < 48" | "48 \<le> n" "n < 64" by fastforce
    then show "bit ((base AND mask 32) OR push_bit 32 (ucast (ucast (ucast (drop_bit 32 base) :: u32) :: u16)) OR
        push_bit 48 (ucast (ucast (drop_bit 16 (ucast (drop_bit 32 base) :: u32)) :: u16))) n = bit base n"
      by cases (auto simp: bit_simps dest: bit_imp_le_length)
  qed
  finally show ?thesis .
qed



end
