(* ===== verification/Boot.thy ===== *)
theory Boot
  imports Multiboot Cpio Syscall Descr
begin

text \<open>
  \<^verbatim>\<open>core/kernel.c\<close>: what the boot does with the other parts, in its order, and the two messages that are nothing but
  text: the summary of the boot tags (\<^verbatim>\<open>core/multiboot.c\<close>) and the report of a page fault (\<^verbatim>\<open>core/exc.c\<close>).
  The machine is the state of the whole kernel with the tables of \<open>Descr\<close>.  Where the boot ends in its halt loop the
  outcome is \<open>Exec_failed\<close>.
\<close>

section \<open>Boot tags\<close>

definition total_size :: "memory \<Rightarrow> u64 \<Rightarrow> u32" where "total_size m info = rd32 m info"
definition entry_size :: "memory \<Rightarrow> u64 \<Rightarrow> u32" where "entry_size m tag = rd32 m (tag + 8)"

text \<open>The string that starts at an address.\<close>

partial_function (option) string_at :: "memory \<Rightarrow> u64 \<Rightarrow> u8 list option" where
  "string_at m a = (if m a = 0 then Some [] else do { t \<leftarrow> string_at m (a + 1); Some (m a # t) })"

definition cmdline :: "memory \<Rightarrow> u64 \<Rightarrow> u8 list option" where
  "cmdline m module = string_at m (module + 16)"

definition module_format :: "u8 list" where
  "module_format = lit ''  [%u] phys %p-%p (%u bytes)''"

definition cmdline_format :: "u8 list" where
  "cmdline_format = lit '' cmdline='' @ [34] @ lit ''%s'' @ [34]"

text \<open>The loop over the modules.\<close>

fun print_modules :: "memory \<Rightarrow> u64 \<Rightarrow> nat list \<Rightarrow> vga \<Rightarrow> vga option" where
  "print_modules m info [] v = Some v"
| "print_modules m info (i # is) v =
     do { module \<leftarrow> multiboot_module_at m info (of_nat i);
          if module = 0 then print_modules m info is v
          else
            do { v1 \<leftarrow> kprintf module_format
                   [Va_word (of_nat i), Va_word (ucast (mod_start m module)), Va_word (ucast (mod_end m module)),
                    Va_word (multiboot_module_size m module)] v;
                 v2 \<leftarrow> (if m (module + 16) \<noteq> 0 then do { t \<leftarrow> cmdline m module; kprintf cmdline_format [Va_str (Some t)] v1 }
                        else Some v1);
                 v3 \<leftarrow> kprintf [10] [] v2;
                 print_modules m info is v3 } }"

definition multiboot_print_info :: "memory \<Rightarrow> u64 \<Rightarrow> vga \<Rightarrow> vga option" where
  "multiboot_print_info m info v =
     (if \<not> multiboot_info_valid m info then kprintf (lit ''Multiboot info: unavailable'' @ [10]) [] v
      else
        do { v1 \<leftarrow> kprintf (lit ''Multiboot info size: %u bytes'' @ [10]) [Va_word (ucast (total_size m info))] v;
             mmap \<leftarrow> multiboot_find_mmap m info;
             v2 \<leftarrow> (if mmap \<noteq> 0 then kprintf (lit ''Memory map: entry_size=%u'' @ [10]) [Va_word (ucast (entry_size m mmap))] v1
                    else kprintf (lit ''Memory map: not provided'' @ [10]) [] v1);
             n \<leftarrow> multiboot_module_count m info;
             v3 \<leftarrow> kprintf (lit ''Modules: %u'' @ [10]) [Va_word (ucast n)] v2;
             print_modules m info [0..<unat n] v3 })"

section \<open>The page fault report\<close>

record kboot = kconsole +
  cpu :: kcpu

definition on_screen :: "(vga \<Rightarrow> vga option) \<Rightarrow> 'a kconsole_scheme \<Rightarrow> 'a kconsole_scheme option" where
  "on_screen f s = do { v \<leftarrow> f (vga_dev s); Some (s\<lparr>vga_dev := v\<rparr>) }"

text \<open>The state in which the processor halts for good.\<close>

definition page_fault_handler :: "u64 \<Rightarrow> u64 \<Rightarrow> u64 \<Rightarrow> u64 \<Rightarrow> 'a kboot_scheme \<Rightarrow> 'a kboot_scheme option" where
  "page_fault_handler error_code cr2 rip cs s =
     do { let pte = paging_pte_value cr2 s;
          s1 \<leftarrow> on_screen (kprintf ([10] @ lit ''#PF: cr2=%p err=%llx pte=%llx'' @ [10])
                  [Va_word cr2, Va_word error_code, Va_word pte]) s;
          on_screen (kprintf (lit ''#PF: cs=%llx rip=%p cr0=%llx cr4=%llx efer=%llx'' @ [10])
                  [Va_word cs, Va_word rip, Va_word (cr0_reg (cpu s1)), Va_word (cr4_reg (cpu s1)), Va_word (msr_efer (cpu s1))]) s1 }"

section \<open>The boot\<close>

definition MULTIBOOT2_BOOTLOADER_MAGIC :: u64 where [simp]: "MULTIBOOT2_BOOTLOADER_MAGIC = 0x36d76289"

text \<open>Addresses that the linker gives: the task state segment, its stack, the entry points.\<close>

record link_map =
  at_tss :: u64
  at_tss_stack :: u64
  at_syscall_entry :: u64
  at_pf_handler :: u64
  at_irq0_handler :: u64
  at_irq1_handler :: u64

definition boot_tables :: "link_map \<Rightarrow> 'a kboot_scheme \<Rightarrow> 'a kboot_scheme" where
  "boot_tables k s =
     (let c1 = gdt_init (at_tss k) (at_tss_stack k) (at_syscall_entry k) (cpu s);
          s1 = gdt_set_rsp0 (tss_rsp0_field c1) s
      in s1\<lparr>cpu := idt_init (at_pf_handler k) (at_irq0_handler k) (at_irq1_handler k) c1\<rparr>)"

definition boot_envp :: "u8 list list" where
  "boot_envp = [lit ''HOME=/'', lit ''PATH=/bin:/sbin:/usr/bin'', lit ''TERM=linux'']"

definition boot_start :: "u8 list \<Rightarrow> 'a kboot_scheme \<Rightarrow> (exec_outcome \<times> 'a kboot_scheme) option" where
  "boot_start junk s =
     do { (x, s1) \<leftarrow> proc_exec junk (lit ''/bin/sh'') [lit ''/bin/sh''] boot_envp s;
          case x of
            Enter_usermode _ _ _ _ _ \<Rightarrow> Some (x, s1)
          | Exec_failed \<Rightarrow>
              do { s2 \<leftarrow> on_screen (kprintf (lit ''sh failed, trying /linuxrc'' @ [10]) []) s1;
                   (y, s3) \<leftarrow> proc_exec junk (lit ''/linuxrc'') [lit ''/linuxrc''] boot_envp s2;
                   case y of
                     Enter_usermode _ _ _ _ _ \<Rightarrow> Some (y, s3)
                   | Exec_failed \<Rightarrow>
                       do { s4 \<leftarrow> on_screen (kprintf (lit ''Could not start sh or linuxrc'' @ [10]) []) s3;
                            Some (Exec_failed, s4) } } }"

definition kmain :: "u8 list \<Rightarrow> link_map \<Rightarrow> u64 \<Rightarrow> u64 \<Rightarrow> 'a kboot_scheme \<Rightarrow> (exec_outcome \<times> 'a kboot_scheme) option" where
  "kmain junk k magic info s =
     do { let s1 = s\<lparr>vga_dev := vga_init (vga_dev s)\<rparr>;
          s2 \<leftarrow> (if magic \<noteq> MULTIBOOT2_BOOTLOADER_MAGIC
                 then on_screen (kprintf (lit ''Invalid multiboot magic: 0x%x'' @ [10]) [Va_word magic]) s1
                 else
                   do { t \<leftarrow> on_screen (kprintf (lit ''Multiboot2 OK, info @ %p'' @ [10]) [Va_word info]) s1;
                        on_screen (multiboot_print_info (mem t) info) t });
          s3 \<leftarrow> paging_init info s2;
          s4 \<leftarrow> heap_init s3;
          (_, _, s5) \<leftarrow> initramfs_load info s4;
          s6 \<leftarrow> proc_init (boot_tables k s5);
          s7 \<leftarrow> on_screen (kprintf (lit ''Starting /bin/sh...'' @ [10]) []) (sched_init s6);
          (_, s8) \<leftarrow> vfs_mkdir (lit ''/proc'') 0x1ED s7;
          (_, s9) \<leftarrow> vfs_mkdir (lit ''/sys'') 0x1ED s8;
          boot_start junk s9 }"

end
