(* ===== verification/UserPages.thy ===== *)
theory UserPages
  imports UserMem
begin

unbundle bit_operations_syntax

text \<open>
  The memory of a user program: which addresses are its own, what editing the page tables leaves of their
  contents, and what \<^verbatim>\<open>paging_map_user_range\<close> adds to them.  An address is private when it translates to a byte of
  a used frame that holds no page table, and no two private addresses share a byte.  On private addresses the
  copies of \<^verbatim>\<open>core/syscall.c\<close> act as on an array.
\<close>

section \<open>What editing the tables leaves of the memory\<close>

definition tables_grow :: "'a kpaging_scheme \<Rightarrow> 'a kpaging_scheme \<Rightarrow> bool" where
  "tables_grow s s' \<longleftrightarrow>
     (\<forall>f. table_frame s f \<longrightarrow> table_frame s' f) \<and>
     (\<forall>f. table_frame s' f \<longrightarrow> table_frame s f \<or> \<not> frame_used s f) \<and>
     (\<forall>a. \<not> table_frame s' (page_of a) \<longrightarrow> mem s' a = mem s a)"

lemma tables_grow_refl [simp]: "tables_grow s s"
  by (simp add: tables_grow_def)

lemma tables_grow_trans:
  assumes "tables_grow s s'" and "tables_grow s' s''" and "\<And>f. frame_used s f \<Longrightarrow> frame_used s' f"
  shows "tables_grow s s''"
  using assms unfolding tables_grow_def by metis

lemma links_table_frame:
  assumes L: "links s s1 s2 p t i c flags"
  shows "table_frame s2 f \<longleftrightarrow> f = c \<or> table_frame s f"
proof -
  note at = table_at_links [OF L] and v = links_facts(2) [OF L] and n = links_facts(4) [OF L]
  have "table_frame s2 f" if "table_frame s f"
  proof -
    from that obtain q where q: "valid_path q" "table_at s q = Some f" by (auto simp: table_frame_def)
    then have "q \<noteq> i # p" using n by auto
    then have "table_at s2 q = Some f" using at [OF q(1)] q(2) by simp
    then show ?thesis using q(1) unfolding table_frame_def by blast
  qed
  moreover have "table_frame s2 c" using at [OF v] v unfolding table_frame_def by metis
  moreover have "f = c \<or> table_frame s f" if f: "table_frame s2 f"
  proof -
    from f obtain q where q: "valid_path q" "table_at s2 q = Some f" by (auto simp: table_frame_def)
    then show ?thesis using at [OF q(1)] unfolding table_frame_def by (metis option.inject)
  qed
  ultimately show ?thesis by metis
qed

lemma links_grow:
  assumes L: "links s s1 s2 p t i c flags" and m: "\<And>a. page_of a \<noteq> c \<Longrightarrow> mem s1 a = mem s a"
  shows "tables_grow s s2"
proof -
  note tf = links_table_frame [OF L]
  have t: "table_frame s t" using links_facts(3) [OF L] links_table(4) [OF L] unfolding table_frame_def by blast
  have "mem s2 a = mem s a" if "\<not> table_frame s2 (page_of a)" for a
  proof -
    have "page_of a \<noteq> c" "page_of a \<noteq> t" using that t unfolding tf by auto
    then show ?thesis
      using m by (simp add: links_facts(8) [OF L] set_entry_mem [OF links_table(1,2) [OF L]])
  qed
  then show ?thesis using links_table(8) [OF L] unfolding tables_grow_def by (auto simp: tf)
qed

lemma in_page:
  assumes "page_aligned t" and "unat (a - t) < 4096"
  shows "page_of a = t"
  using page_of_add [OF assms] by simp

lemma alloc_table_mem:
  assumes "frames_ok s" and "paging_alloc_table s = (c, s1)" and "c \<noteq> 0" and "page_of a \<noteq> c"
  shows "mem s1 a = mem s a"
proof -
  from alloc_table_cases [OF assms(1,2)] assms(3)
  have "takes_frame s c s1" and m: "mem s1 = memset8 (mem s) c 0 4096" by auto
  then have "page_aligned c" by (simp add: takes_frame_aligned)
  then have "\<not> unat (a - c) < 4096" using in_page assms(4) by blast
  then show ?thesis by (simp add: m memset8_apply)
qed

lemma get_or_create_table_grow:
  assumes ok: "pt_ok s" "frames_ok s" and path: "valid_path (i # p)" "table_at s p = Some t"
    and flags: "linkable flags" and step: "get_or_create_table t i flags s = (c, s')"
  shows "tables_grow s s'"
proof (cases "pte_present (get_entry t i s)")
  case True
  then show ?thesis using step by (auto simp: get_or_create_table_def Let_def split: if_splits)
next
  case False
  obtain d s1 where alloc: "paging_alloc_table s = (d, s1)" by fastforce
  show ?thesis
  proof (cases "d = 0")
    case True
    then have "s1 = s" using alloc_table_fails ok(2) alloc by blast
    then show ?thesis using True False alloc step by (auto simp: get_or_create_table_def)
  next
    case d: False
    note new = alloc_new_table [OF ok(2) alloc d]
    have c: "s' = set_entry t i (d OR flags) s1" using False alloc d step by (auto simp: get_or_create_table_def)
    have "table_at s (i # p) = None" using False path by (simp add: Let_def)
    then have "links s s1 s' p t i d flags" using path flags new c ok by (simp add: links_def pte_present_def)
    then show ?thesis using alloc_table_mem [OF ok(2) alloc d] by (rule links_grow)
  qed
qed

lemma fill_mem:
  assumes "page_aligned t" and "page_of a \<noteq> t" and "n \<le> 512"
  shows "mem (fold (\<lambda>i. set_entry t (of_nat i) (f i)) [0..<n] s) a = mem s a"
  using assms(3)
proof (induction n)
  case (Suc n)
  then show ?case by (simp add: set_entry_mem [OF assms(1) of_nat_index(1) assms(2)])
qed simp

lemma split_huge_page_grow:
  assumes ok: "pt_ok s" "frames_ok s" and path: "valid_path (i # p)" "table_at s p = Some t"
    and step: "split_huge_page t i s = (r, s')"
  shows "tables_grow s s'"
proof (cases "pte_present (get_entry t i s) \<and> pte_huge (get_entry t i s)")
  case False
  then show ?thesis using step by (auto simp: split_huge_page_def Let_def)
next
  case True
  let ?h = "get_entry t i s"
  have p2: "length p = 2" using True pt_ok_huge [OF ok(1) path] by auto
  obtain c s1 where alloc: "paging_alloc_table s = (c, s1)" by fastforce
  show ?thesis
  proof (cases "c = 0")
    case c0: True
    then have "s1 = s" using alloc_table_fails ok(2) alloc by blast
    then show ?thesis using c0 True alloc step by (auto simp: split_huge_page_def Let_def)
  next
    case c: False
    note new = alloc_new_table [OF ok(2) alloc c]
    let ?f = "\<lambda>i. (?h AND PTE_ADDR_MASK) + of_nat i * PAGE_SIZE + ((?h AND NOT PTE_ADDR_MASK) AND NOT PAGE_HUGE)"
    define s2 where "s2 = fold (\<lambda>i. set_entry c (of_nat i) (?f i)) [0..<512] s1"
    have s': "s' = set_entry t i (c OR (PAGE_PRESENT OR PAGE_WRITABLE)) s2"
      using step True alloc c by (simp_all add: split_huge_page_def Let_def s2_def or.assoc)
    have al: "page_aligned c" using new(1) by (simp add: new_table_def)
    have "entry_ok (t', j) \<Longrightarrow> t' \<noteq> c \<Longrightarrow> get_entry t' j s2 = get_entry t' j s1" for t' j
      unfolding s2_def by (subst get_fill [OF al]) auto
    then have new2: "new_table s c s2" using new(1) by (simp add: new_table_def s2_def)
    have "links s s2 s' p t i c (PAGE_PRESENT OR PAGE_WRITABLE)"
      using path True p2 new2 ok s' linkable_present_writable by (simp add: links_def Let_def)
    moreover have "mem s2 a = mem s a" if "page_of a \<noteq> c" for a
      unfolding s2_def using alloc_table_mem [OF ok(2) alloc c that] by (subst fill_mem [OF al that]) simp_all
    ultimately show ?thesis by (rule links_grow)
  qed
qed

lemma kept_grow_trans:
  "tables_kept s s' \<Longrightarrow> tables_grow s s' \<Longrightarrow> tables_grow s' s'' \<Longrightarrow> tables_grow s s''"
  using tables_grow_trans unfolding tables_kept_def by blast

lemma leaf_grow:
  assumes ok: "pt_ok s" and at: "table_at s (PD_INDEX v # pd_path v) = Some pt"
  shows "tables_grow s (set_entry pt (PT_INDEX v) e s)"
proof -
  have len: "length (PD_INDEX v # pd_path v) = 3" by simp
  have tf: "table_frame (set_entry pt (PT_INDEX v) e s) f = table_frame s f" for f
    using leaf_table_at [OF ok at valid_pt_path len index_less(4)] unfolding table_frame_def by metis
  have pt: "table_frame s pt" using at valid_pt_path unfolding table_frame_def by blast
  have "page_aligned pt" by (rule pt_ok_table(3) [OF ok valid_pt_path at])
  then show ?thesis unfolding tables_grow_def tf using set_entry_mem [OF _ index_less(4)] pt by metis
qed

lemma map_page_flags_grow:
  assumes ok: "pt_ok s" "frames_ok s" and tf: "linkable table_flags"
    and step: "paging_map_page_flags virt phys flags table_flags s = (r, s')"
  shows "tables_grow s s'"
proof (cases "virt AND (PAGE_SIZE - 1) \<noteq> 0 \<or> phys AND (PAGE_SIZE - 1) \<noteq> 0")
  case True
  then show ?thesis using step by (auto simp: paging_map_page_flags_def)
next
  case al: False
  obtain pdpt s1 where g1: "get_or_create_table (pml4 s) (PML4_INDEX virt) table_flags s = (pdpt, s1)" by fastforce
  have v1: "valid_path [PML4_INDEX virt]" "table_at s [] = Some (pml4 s)" by (simp_all add: valid_path_def)
  note k1 = get_or_create_table_kept [OF ok v1 tf g1] and w1 = get_or_create_table_grow [OF ok v1 tf g1]
  have ok1: "pt_ok s1" "frames_ok s1" using k1(1) by (simp_all add: tables_kept_def)
  show ?thesis
  proof (cases "pdpt = 0")
    case True
    then show ?thesis using step al g1 w1 by (auto simp: paging_map_page_flags_def)
  next
    case pdpt: False
    obtain pd s2 where g2: "get_or_create_table pdpt (PDP_INDEX virt) table_flags s1 = (pd, s2)" by fastforce
    have v2: "valid_path [PDP_INDEX virt, PML4_INDEX virt]" by (simp add: valid_path_def)
    note k2 = get_or_create_table_kept [OF ok1 v2 k1(2) [OF pdpt] tf g2]
    note w2 = kept_grow_trans [OF k1(1) w1 get_or_create_table_grow [OF ok1 v2 k1(2) [OF pdpt] tf g2]]
    note k02 = tables_kept_trans [OF k1(1) k2(1)]
    show ?thesis
    proof (cases "pd = 0")
      case True
      then show ?thesis using step al g1 g2 pdpt w2 by (auto simp: paging_map_page_flags_def)
    next
      case pd: False
      have ok2: "pt_ok s2" "frames_ok s2" using k2(1) by (simp_all add: tables_kept_def)
      note at2 = k2(2) [OF pd, folded pd_path_def]
      obtain r3 s3 where g3: "(if pte_present (get_entry pd (PD_INDEX virt) s2) \<and> pte_huge (get_entry pd (PD_INDEX virt) s2)
          then split_huge_page pd (PD_INDEX virt) s2 else (0, s2)) = (r3, s3)" by fastforce
      have k3: "tables_kept s2 s3" and "tables_grow s2 s3"
        using g3 split_huge_page_kept(1) [OF ok2 valid_pt_path at2] tables_kept_refl [OF ok2]
          split_huge_page_grow [OF ok2 valid_pt_path at2] by (auto split: if_splits)
      then have w3: "tables_grow s s3" using kept_grow_trans [OF k02 w2] by blast
      note k03 = tables_kept_trans [OF k02 k3]
      show ?thesis
      proof (cases "r3 = 0")
        case r3: True
        have ok3: "pt_ok s3" "frames_ok s3" using k3 by (simp_all add: tables_kept_def)
        have at3: "table_at s3 (pd_path virt) = Some pd" using k3 at2 by (simp add: tables_kept_def)
        obtain pt s4 where g4: "get_or_create_table pd (PD_INDEX virt) table_flags s3 = (pt, s4)" by fastforce
        note k4 = get_or_create_table_kept [OF ok3 valid_pt_path at3 tf g4]
        note w4 = kept_grow_trans [OF k03 w3 get_or_create_table_grow [OF ok3 valid_pt_path at3 tf g4]]
        show ?thesis
        proof (cases "pt = 0")
          case True
          then show ?thesis using step al g1 g2 g3 g4 pdpt pd r3 w4
            by (auto simp: paging_map_page_flags_def Let_def split: prod.splits)
        next
          case pt: False
          have "pt_ok s4" using k4(1) by (simp add: tables_kept_def)
          then have "tables_grow s4 (set_entry pt (PT_INDEX virt) ((phys AND PTE_ADDR_MASK) OR flags) s4)"
            by (rule leaf_grow [OF _ k4(2) [OF pt]])
          then show ?thesis
            using step al g1 g2 g3 g4 pdpt pd r3 pt kept_grow_trans [OF tables_kept_trans [OF k03 k4(1)] w4]
            by (auto simp: paging_map_page_flags_def Let_def split: prod.splits)
        qed
      next
        case r3: False
        then show ?thesis using step al g1 g2 g3 pdpt pd w3 by (auto simp: paging_map_page_flags_def Let_def)
      qed
    qed
  qed
qed

section \<open>Private addresses\<close>

definition user_byte :: "'a kpaging_scheme \<Rightarrow> u64 \<Rightarrow> bool" where
  "user_byte s p \<longleftrightarrow> p \<noteq> 0 \<and> frame_used s (page_of p) \<and> \<not> table_frame s (page_of p)"

definition owned :: "'a kpaging_scheme \<Rightarrow> u64 set \<Rightarrow> bool" where
  "owned s V \<longleftrightarrow> (\<forall>v \<in> V. user_byte s (paging_virt_to_phys v s)) \<and> inj_on (\<lambda>v. paging_virt_to_phys v s) V"

text \<open>The memory as the program sees it.\<close>

definition view :: "'a kpaging_scheme \<Rightarrow> memory" where
  "view s v = mem s (paging_virt_to_phys v s)"

definition space_ok :: "'a kpaging_scheme \<Rightarrow> bool" where
  "space_ok s \<longleftrightarrow> window_ready s \<and> frames_ok s"

definition range_in :: "u64 \<Rightarrow> nat \<Rightarrow> u64 set \<Rightarrow> bool" where
  "range_in a n V \<longleftrightarrow> (\<forall>i < n. a + of_nat i \<in> V)"

lemma range_in_Suc: "range_in a (Suc n) V \<longleftrightarrow> a \<in> V \<and> range_in (a + 1) n V"
proof
  assume r: "range_in a (Suc n) V"
  show "a \<in> V \<and> range_in (a + 1) n V"
    unfolding range_in_def
  proof (intro conjI allI impI)
    show "a \<in> V" using r [unfolded range_in_def, rule_format, of 0] by simp
    fix i assume "i < n"
    then show "a + 1 + of_nat i \<in> V" using r [unfolded range_in_def, rule_format, of "Suc i"] by (simp add: add.assoc)
  qed
next
  assume r: "a \<in> V \<and> range_in (a + 1) n V"
  show "range_in a (Suc n) V"
    unfolding range_in_def
  proof (intro allI impI)
    fix i assume "i < Suc n"
    then show "a + of_nat i \<in> V"
      using r unfolding range_in_def by (cases i) (auto simp: add.assoc)
  qed
qed

lemma range_in_0 [simp]: "range_in a 0 V"
  by (simp add: range_in_def)

lemma range_in_mono: "range_in a n V \<Longrightarrow> V \<subseteq> W \<Longrightarrow> range_in a n W"
  by (auto simp: range_in_def)

lemma space_okD: "space_ok s \<Longrightarrow> pt_ok s" "space_ok s \<Longrightarrow> frames_ok s" "space_ok s \<Longrightarrow> cr3 s AND PTE_ADDR_MASK = pml4 s"
  "space_ok s \<Longrightarrow> window_ready s"
  by (auto simp: space_ok_def window_ready_def)

lemma mmu_virt:
  assumes "pt_ok s" and "cr3 s AND PTE_ADDR_MASK = pml4 s" and "paging_virt_to_phys v s \<noteq> 0"
  shows "mmu s v = Some (paging_virt_to_phys v s)"
  using assms(3) unfolding mmu_tree [OF assms(1,2)] virt_to_phys_tree [OF assms(1)]
  by (auto simp: Let_def split: option.splits if_splits)

lemma mmu_owned: "space_ok s \<Longrightarrow> owned s V \<Longrightarrow> v \<in> V \<Longrightarrow> mmu s v = Some (paging_virt_to_phys v s)"
  using mmu_virt [OF space_okD(1,3)] by (auto simp: owned_def user_byte_def)

text \<open>A step that changes data only.\<close>

definition data_step :: "'a kpaging_scheme \<Rightarrow> 'a kpaging_scheme \<Rightarrow> bool" where
  "data_step s s' \<longleftrightarrow> s' = s\<lparr>mem := mem s'\<rparr> \<and> (\<forall>a. table_frame s (page_of a) \<longrightarrow> mem s' a = mem s a)"

lemma data_step_kept:
  assumes "data_step s s'" and ok: "space_ok s"
  shows "space_ok s'" and "paging_virt_to_phys v s' = paging_virt_to_phys v s" and "mmu s' v = mmu s v"
    and "table_frame s' f = table_frame s f" and "frame_used s' f = frame_used s f"
    and "owned s' V = owned s V" and "kpaging.more s' = kpaging.more s"
    and "cr3 s' = cr3 s" and "pml4 s' = pml4 s"
proof -
  have s': "s' = s\<lparr>mem := mem s'\<rparr>" and ag: "\<forall>a. table_frame s (page_of a) \<longrightarrow> mem s' a = mem s a"
    using assms(1) by (auto simp: data_step_def)
  note agree = agree_tables [OF space_okD(1) [OF ok] s' ag]
  show v: "paging_virt_to_phys v s' = paging_virt_to_phys v s" for v by (rule agree(4))
  show "mmu s' v = mmu s v" by (rule agree(5) [OF space_okD(3) [OF ok]])
  show tf: "table_frame s' f = table_frame s f" for f using agree(2) unfolding table_frame_def by metis
  show u: "frame_used s' f = frame_used s f" for f by (subst s') (simp add: frame_used_def bitmap_test_def)
  show "owned s' V = owned s V" by (simp add: owned_def user_byte_def v tf u)
  show eq: "kpaging.more s' = kpaging.more s" "cr3 s' = cr3 s" "pml4 s' = pml4 s" by (subst s', simp)+
  have "paging_get_pt KERNEL_KMAP_WINDOW s' = paging_get_pt KERNEL_KMAP_WINDOW s"
    unfolding paging_get_pt_tree [OF space_okD(1) [OF ok]] paging_get_pt_tree [OF agree(3)] agree(2) [OF valid_pt_path] ..
  moreover have "frames_ok s' = frames_ok s" by (subst s') (simp add: frames_ok_def bitmap_test_def)
  ultimately show "space_ok s'" using ok agree(3) by (simp add: space_ok_def window_ready_def eq)
qed

lemma data_step_refl [simp]: "data_step s s"
  by (simp add: data_step_def)

lemma data_step_trans:
  assumes "data_step s s'" and "space_ok s" and "data_step s' s''"
  shows "data_step s s''"
proof -
  have "s'' = s'\<lparr>mem := mem s''\<rparr>" "s' = s\<lparr>mem := mem s'\<rparr>" using assms by (simp_all add: data_step_def)
  then have "s'' = s\<lparr>mem := mem s''\<rparr>" by (metis machine.update_convs(1) machine.fold_congs(1) machine.surjective)
  then show ?thesis
    using assms(1,3) data_step_kept(4) [OF assms(1,2)] unfolding data_step_def by auto
qed

text \<open>The addresses from one up to another.\<close>

definition region :: "nat \<Rightarrow> nat \<Rightarrow> u64 set" where
  "region lo hi = {v. lo \<le> unat v \<and> unat v < hi}"

lemma region_range: "unat a + n < 2 ^ 64 \<Longrightarrow> lo \<le> unat a \<Longrightarrow> unat a + n \<le> hi \<Longrightarrow> range_in a n (region lo hi)"
  by (auto simp: range_in_def region_def unat_add_small unat_of_nat_small)

section \<open>Reading and writing them\<close>

lemma mem_write_agree: "m v = m' v \<Longrightarrow> mem_write m a bs v = mem_write m' a bs v"
proof (induction bs arbitrary: a m m')
  case (Cons b bs)
  have "(m(a := b)) v = (m'(a := b)) v" using Cons.prems by simp
  then have "mem_write (m(a := b)) (a + 1) bs v = mem_write (m'(a := b)) (a + 1) bs v" by (rule Cons.IH)
  then show ?case by simp
qed simp

lemma owned_read:
  assumes "space_ok s" and "owned s V"
  shows "range_in a n V \<Longrightarrow> virt_read s a n = Some (mem_read (view s) a n)"
proof (induction n arbitrary: a)
  case (Suc n)
  then show ?case using mmu_owned [OF assms] by (simp add: range_in_Suc mem_read_Suc view_def)
qed simp

lemma owned_write:
  "space_ok s \<Longrightarrow> owned s V \<Longrightarrow> range_in a (length bs) V \<Longrightarrow>
     \<exists>s'. virt_write a bs s = Some s' \<and> data_step s s' \<and> (\<forall>v \<in> V. view s' v = mem_write (view s) a bs v)"
proof (induction bs arbitrary: a s)
  case (Cons b bs)
  let ?p = "paging_virt_to_phys a s"
  let ?s = "s\<lparr>mem := (mem s)(?p := b)\<rparr>"
  have a: "a \<in> V" "range_in (a + 1) (length bs) V" using Cons.prems(3) by (simp_all add: range_in_Suc)
  then have p: "user_byte s ?p" using Cons.prems(2) by (simp add: owned_def)
  then have step: "data_step s ?s" by (auto simp: data_step_def user_byte_def)
  note k = data_step_kept [OF step Cons.prems(1)]
  have eq: "view ?s v = ((view s)(a := b)) v" if "v \<in> V" for v
    using that a(1) Cons.prems(2) unfolding view_def k(2) owned_def inj_on_def by auto
  from Cons.IH [OF k(1), of "a + 1"] Cons.prems(2) a(2) k(6)
  obtain s' where s': "virt_write (a + 1) bs ?s = Some s'" "data_step ?s s'"
    "\<forall>v \<in> V. view s' v = mem_write (view ?s) (a + 1) bs v" by blast
  have "mem_write (view ?s) (a + 1) bs v = mem_write ((view s)(a := b)) (a + 1) bs v" if "v \<in> V" for v
    using eq [OF that] by (rule mem_write_agree)
  then show ?case
    using s' mmu_owned [OF Cons.prems(1,2) a(1)] data_step_trans [OF step Cons.prems(1) s'(2)] by auto
qed simp

section \<open>Steps that leave a program its memory\<close>

text \<open>Addresses below the canonical limit, except those of the mapping window.\<close>

definition user_addr :: "u64 \<Rightarrow> bool" where
  "user_addr v \<longleftrightarrow> unat v < 2 ^ 47 \<and> unat v div 4096 \<noteq> 0x5000"

lemma same_page_number:
  assumes "unat v < 2 ^ 48" and "unat w < 2 ^ 48"
  shows "same_page v w \<longleftrightarrow> unat v div 4096 = unat w div 4096"
proof -
  define x y where "x = unat v div 4096" and "y = unat w div 4096"
  have lt: "x < 2 ^ 36" "y < 2 ^ 36" using assms by (auto simp: x_def y_def)
  have ix: "unat v div (4096 * n) = x div n" "unat w div (4096 * n) = y div n" for n
    unfolding x_def y_def div_mult2_eq by (rule refl)+
  have "same_page v w \<longleftrightarrow> y div (512 * 512 * 512) mod 512 = x div (512 * 512 * 512) mod 512 \<and>
      y div (512 * 512) mod 512 = x div (512 * 512) mod 512 \<and> y div 512 mod 512 = x div 512 mod 512 \<and> y mod 512 = x mod 512"
    using ix [of 1] ix [of 512] ix [of "512 * 512"] ix [of "512 * 512 * 512"]
    unfolding same_page_def PML4_INDEX_def PDP_INDEX_def PD_INDEX_def PT_INDEX_def unat_eq_iff unat_index by simp
  also have "\<dots> \<longleftrightarrow> x = y"
  proof
    assume e: "y div (512 * 512 * 512) mod 512 = x div (512 * 512 * 512) mod 512 \<and>
      y div (512 * 512) mod 512 = x div (512 * 512) mod 512 \<and> y div 512 mod 512 = x div 512 mod 512 \<and> y mod 512 = x mod 512"
    have "x div (512 * 512 * 512) < 512" "y div (512 * 512 * 512) < 512" using lt by (simp_all add: less_mult_imp_div_less)
    then have "x div (512 * 512 * 512) = y div (512 * 512 * 512)" using e by simp
    then have "x div (512 * 512) = y div (512 * 512)" using e by (metis div_mult2_eq div_mod_decomp)
    then have "x div 512 = y div 512" using e by (metis div_mult2_eq div_mod_decomp)
    then show "x = y" using e by (metis div_mod_decomp)
  qed auto
  finally show ?thesis by (simp add: x_def y_def)
qed

lemma user_addr_not_window: "user_addr v \<Longrightarrow> \<not> same_page KERNEL_KMAP_WINDOW v"
  by (subst same_page_number) (auto simp: user_addr_def)

definition keeps :: "u64 set \<Rightarrow> 'a kpaging_scheme \<Rightarrow> 'a kpaging_scheme \<Rightarrow> bool" where
  "keeps V s s' \<longleftrightarrow> space_ok s' \<and> kpaging.more s' = kpaging.more s \<and> cr3 s' = cr3 s \<and> pml4 s' = pml4 s \<and>
     (\<forall>f. frame_used s f \<longrightarrow> frame_used s' f) \<and>
     (\<forall>f. table_frame s' f \<longrightarrow> table_frame s f \<or> \<not> frame_used s f) \<and>
     (\<forall>v \<in> V. paging_virt_to_phys v s' = paging_virt_to_phys v s) \<and>
     (\<forall>a. frame_used s (page_of a) \<longrightarrow> \<not> table_frame s (page_of a) \<longrightarrow> mem s' a = mem s a)"

lemma keeps_trans:
  assumes "keeps V s s'" and "keeps V s' s''"
  shows "keeps V s s''"
proof -
  note d = assms [unfolded keeps_def]
  have "table_frame s f \<or> \<not> frame_used s f" if "table_frame s'' f" for f using that d by blast
  moreover have "mem s'' a = mem s a" if "frame_used s (page_of a)" "\<not> table_frame s (page_of a)" for a
    using that d by metis
  ultimately show ?thesis unfolding keeps_def using d by simp
qed

lemma keeps_owned:
  assumes "keeps V s s'" and "owned s V"
  shows "owned s' V" and "v \<in> V \<Longrightarrow> view s' v = view s v"
proof -
  have tr: "\<forall>v \<in> V. paging_virt_to_phys v s' = paging_virt_to_phys v s" using assms(1) by (simp add: keeps_def)
  have b: "user_byte s (paging_virt_to_phys v s)" if "v \<in> V" for v using assms(2) that by (simp add: owned_def)
  have "user_byte s' p" if "user_byte s p" for p using that assms(1) unfolding user_byte_def keeps_def by blast
  then have "\<forall>v \<in> V. user_byte s' (paging_virt_to_phys v s')" using b tr by metis
  moreover have "inj_on (\<lambda>v. paging_virt_to_phys v s') V"
    using assms(2) tr unfolding owned_def inj_on_def by metis
  ultimately show "owned s' V" by (simp add: owned_def)
  show "view s' v = view s v" if "v \<in> V"
    using b [OF that] tr that assms(1) unfolding view_def keeps_def user_byte_def by metis
qed

lemma table_frame_used: "pt_ok s \<Longrightarrow> table_frame s f \<Longrightarrow> frame_used s f"
  by (auto simp: table_frame_def dest: pt_ok_table(1))

text \<open>A change of the frame bitmap only.\<close>

lemma bitmap_step:
  assumes "s' = s\<lparr>frame_bitmap := b\<rparr>"
  shows "get_entry t i s' = get_entry t i s" and "table_at s' p = table_at s p"
    and "table_frame s' f = table_frame s f"
proof -
  show e: "get_entry t i s' = get_entry t i s" for t i by (simp add: assms get_entry_def)
  show at: "table_at s' p = table_at s p" for p by (induction p) (simp add: assms, simp add: e split: option.split)
  show "table_frame s' f = table_frame s f" by (simp add: table_frame_def at)
qed

lemma bitmap_step_ok:
  assumes s': "s' = s\<lparr>frame_bitmap := b\<rparr>" and ok: "space_ok s" and f: "frames_ok s'"
    and u: "\<And>f. table_frame s f \<Longrightarrow> frame_used s' f"
  shows "space_ok s'" and "paging_virt_to_phys v s' = paging_virt_to_phys v s"
proof -
  note b = bitmap_step [OF s']
  note pt = space_okD(1) [OF ok]
  have used: "table_at s p = Some t \<Longrightarrow> valid_path p \<Longrightarrow> frame_used s' t" for p t
    using u by (auto simp: table_frame_def)
  have pt': "pt_ok s'"
    using used pt_ok_table(2,4) [OF pt] pt_ok_inject [OF pt] pt_ok_huge [OF pt] unfolding pt_ok_def b by blast
  show "paging_virt_to_phys v s' = paging_virt_to_phys v s"
    unfolding virt_to_phys_tree [OF pt] virt_to_phys_tree [OF pt'] b ..
  have "paging_get_pt KERNEL_KMAP_WINDOW s' = paging_get_pt KERNEL_KMAP_WINDOW s"
    unfolding paging_get_pt_tree [OF pt] paging_get_pt_tree [OF pt'] b ..
  then show "space_ok s'" using ok pt' f by (simp add: space_ok_def window_ready_def s')
qed

text \<open>A frame is taken and zeroed through the window.\<close>

lemma alloc_page_shape: "paging_alloc_page s = (p, s1) \<Longrightarrow> s1 = s\<lparr>frame_bitmap := frame_bitmap s1\<rparr>"
  by (auto simp: paging_alloc_page_def paging_alloc_page_noreserve_def bitmap_set_def Let_def split: option.splits)

lemma page_of_diff: "page_aligned t \<Longrightarrow> page_of a = t \<longleftrightarrow> unat (a - t) < 4096"
proof
  assume t: "page_aligned t" and a: "page_of a = t"
  have "t \<le> a" unfolding unat_le_iff a [symmetric] unat_page_of by simp
  then have "unat (a - t) = unat a - unat a div 4096 * 4096" using a by (metis unat_page_of unat_sub_le)
  also have "\<dots> = unat a mod 4096" by (simp add: minus_div_mult_eq_mod)
  finally show "unat (a - t) < 4096" by simp
qed (rule in_page)

lemma aligned_low: "page_aligned f \<Longrightarrow> f AND (PAGE_SIZE - 1) = 0" "page_aligned f \<Longrightarrow> f AND PAGE_MASK = f"
proof -
  show "f AND (PAGE_SIZE - 1) = 0" if "page_aligned f"
    using unat_and_mask [of f 12] that by (simp add: page_aligned_def mask_eq_exp_minus_1 unat_eq_iff)
  show "f AND PAGE_MASK = f" if "page_aligned f"
    using page_of_add [OF that, of 0] by (simp add: page_of_def)
qed

lemma zero_chunk_run:
  assumes ok: "space_ok s" and f: "page_aligned f" "unat f < 2 ^ 31" "\<not> table_frame s f"
  obtains s1 s2 where "paging_map_page KERNEL_KMAP_WINDOW f (PAGE_PRESENT OR PAGE_WRITABLE) s = (0, s1)"
    and "virt_write KERNEL_KMAP_WINDOW (replicate 4096 0) s1 = Some s2"
    and "window_step s (paging_unmap_page KERNEL_KMAP_WINDOW s2)"
    and "\<And>a. \<not> table_frame s (page_of a) \<Longrightarrow>
      mem (paging_unmap_page KERNEL_KMAP_WINDOW s2) a = (if page_of a = f then 0 else mem s a)"
proof -
  note al = aligned_low [OF f(1)]
  have chunk: "page_chunk f 4096 = 4096" using al(1) by (simp add: page_chunk_def Let_def)
  have "outside_tables s f 4096"
    unfolding outside_tables_def
  proof (intro conjI allI impI)
    fix i :: nat assume "i < 4096"
    then show "\<not> table_frame s (page_of (f + of_nat i))"
      using page_of_add [OF f(1), of "of_nat i"] f(3) by (simp add: unat_of_nat_small)
  qed (use f(2) in simp)
  then have "outside_tables s f (unat (page_chunk f 4096))" by (simp add: chunk)
  moreover have "unat f + unat (4096 :: u64) \<le> 2 ^ 52" using f(2) by simp
  moreover have "length (replicate 4096 (0 :: u8)) = unat (page_chunk f 4096)" by (simp add: chunk)
  moreover note window_chunk_write [OF space_okD(4) [OF ok], of 4096 f "replicate 4096 0"]
  ultimately obtain s1 s2
    where s1: "paging_map_page KERNEL_KMAP_WINDOW f (PAGE_PRESENT OR PAGE_WRITABLE) s = (0, s1)"
    and s2: "virt_write KERNEL_KMAP_WINDOW (replicate 4096 0) s1 = Some s2"
    and st: "window_step s (paging_unmap_page KERNEL_KMAP_WINDOW s2)"
    and m: "\<forall>a. \<not> table_frame s (page_of a) \<longrightarrow>
       mem (paging_unmap_page KERNEL_KMAP_WINDOW s2) a = mem_write (mem s) f (replicate 4096 0) a"
    unfolding al by auto
  have "mem (paging_unmap_page KERNEL_KMAP_WINDOW s2) a = (if page_of a = f then 0 else mem s a)"
    if "\<not> table_frame s (page_of a)" for a
    using m that page_of_diff [OF f(1)] by (simp add: mem_write_apply)
  then show thesis using that [OF s1 s2 st] by blast
qed

lemma zero_frame_run:
  assumes ok: "space_ok s" and f: "page_aligned f" "unat f < 2 ^ 31" "\<not> table_frame s f"
  obtains s' where "paging_zero_frame f s = Some s'" and "window_step s s'"
    and "\<And>a. \<not> table_frame s (page_of a) \<Longrightarrow> mem s' a = (if page_of a = f then 0 else mem s a)"
  by (rule zero_chunk_run [OF assms]) (auto simp: paging_zero_frame_def)

lemma clear_frame_run:
  assumes ok: "space_ok s" and f: "page_aligned f" "unat f < 2 ^ 31" "\<not> table_frame s f"
  obtains s' where "paging_clear_phys f PAGE_SIZE s = Some (0, s')" and "window_step s s'"
    and "\<And>a. \<not> table_frame s (page_of a) \<Longrightarrow> mem s' a = (if page_of a = f then 0 else mem s a)"
proof (rule zero_chunk_run [OF assms])
  fix s1 s2
  assume z: "paging_map_page KERNEL_KMAP_WINDOW f (PAGE_PRESENT OR PAGE_WRITABLE) s = (0, s1)"
    "virt_write KERNEL_KMAP_WINDOW (replicate 4096 0) s1 = Some s2"
    "window_step s (paging_unmap_page KERNEL_KMAP_WINDOW s2)"
    "\<And>a. \<not> table_frame s (page_of a) \<Longrightarrow>
      mem (paging_unmap_page KERNEL_KMAP_WINDOW s2) a = (if page_of a = f then 0 else mem s a)"
  have "page_chunk f 4096 = 4096" using aligned_low(1) [OF f(1)] by (simp add: page_chunk_def Let_def)
  then have "paging_clear_phys f PAGE_SIZE s = Some (0, paging_unmap_page KERNEL_KMAP_WINDOW s2)"
    using z(1,2) aligned_low [OF f(1)] by (subst paging_clear_phys.simps) (simp add: paging_clear_phys.simps [of _ 0])
  then show thesis using that z(3,4) by blast
qed

lemma window_step_facts:
  assumes "window_step s s'" and "space_ok s"
  shows "space_ok s'" and "kpaging.more s' = kpaging.more s" and "cr3 s' = cr3 s" and "pml4 s' = pml4 s"
    and "frame_used s' f = frame_used s f" and "table_frame s' f = table_frame s f"
    and "user_addr v \<Longrightarrow> paging_virt_to_phys v s' = paging_virt_to_phys v s"
proof -
  have s': "s' = s\<lparr>mem := mem s'\<rparr>" using assms(1) by (simp add: window_step_def)
  show "kpaging.more s' = kpaging.more s" "cr3 s' = cr3 s" "pml4 s' = pml4 s" by (subst s', simp)+
  show "frame_used s' f = frame_used s f" by (subst s') (simp add: frame_used_def bitmap_test_def)
  have "frames_ok s' = frames_ok s" by (subst s') (simp add: frames_ok_def bitmap_test_def)
  then show "space_ok s'" using window_step_ready [OF assms(1)] assms(2) by (simp add: space_ok_def)
  show "table_frame s' f = table_frame s f" by (rule window_step_table_frame [OF assms(1)])
  show "user_addr v \<Longrightarrow> paging_virt_to_phys v s' = paging_virt_to_phys v s"
    using assms(1) user_addr_not_window by (simp add: window_step_def)
qed

lemma free_tables_cong:
  "frame_bitmap s' = frame_bitmap s \<Longrightarrow> total_frames s' = total_frames s \<Longrightarrow> kernel_end s' = kernel_end s \<Longrightarrow>
     stack_top s' = stack_top s \<Longrightarrow> free_tables s' = free_tables s"
  by (simp add: free_tables_def frame_used_def bitmap_test_def)

lemma window_step_free: "window_step s s' \<Longrightarrow> free_tables s' = free_tables s"
proof -
  assume "window_step s s'"
  then have s': "s' = s\<lparr>mem := mem s'\<rparr>" by (simp add: window_step_def)
  show ?thesis by (rule free_tables_cong) (subst s', simp)+
qed

text \<open>A page that was taken from the free frames and holds zeroes, not yet mapped for the program.\<close>

definition fresh_page :: "u64 set \<Rightarrow> u64 \<Rightarrow> 'a kpaging_scheme \<Rightarrow> 'a kpaging_scheme \<Rightarrow> bool" where
  "fresh_page V f s s' \<longleftrightarrow> keeps V s s' \<and> page_aligned f \<and> f \<noteq> 0 \<and> unat f < 2 ^ 31 \<and> \<not> table_frame s' f \<and>
     \<not> frame_used s f \<and> frame_used s' f \<and> (\<forall>a. page_of a = f \<longrightarrow> mem s' a = 0) \<and>
     card (free_tables s) \<le> Suc (card (free_tables s'))"

lemma alloc_page_consumes:
  assumes ok: "frames_ok s" and a: "paging_alloc_page s = (f, s1)"
  shows "card (free_tables s) \<le> Suc (card (free_tables s1))" and "0 < card (free_tables s) \<Longrightarrow> f \<noteq> 0"
proof -
  note shape = alloc_page_shape [OF a]
  have lim: "total_frames s1 = total_frames s" "kernel_end s1 = kernel_end s" "stack_top s1 = stack_top s" by (subst shape, simp)+
  have "free_tables s - {f} \<subseteq> free_tables s1"
    using alloc_page_cases [OF ok a] takes_frame_used [of s f s1] lim by (auto simp: free_tables_def)
  then have "card (free_tables s - {f}) \<le> card (free_tables s1)" by (intro card_mono) auto
  moreover have "card (free_tables s) \<le> Suc (card (free_tables s - {f}))"
    by (cases "f \<in> free_tables s") (simp_all add: card_Suc_Diff1)
  ultimately show "card (free_tables s) \<le> Suc (card (free_tables s1))" by simp
  show "f \<noteq> 0" if "0 < card (free_tables s)"
  proof
    assume "f = 0"
    then have all: "\<forall>g < total_frames s. bitmap_test g s"
      using alloc_page_cases [OF ok a] takes_frame_nonnull ok by blast
    from that obtain p where "p \<in> free_tables s" by (auto simp: card_gt_0_iff)
    then show False using all by (auto simp: free_tables_def frame_used_def)
  qed
qed

lemma alloc_fresh:
  assumes ok: "space_ok s" and a: "paging_alloc_page s = (f, s1)" "f \<noteq> 0" and V: "\<And>v. v \<in> V \<Longrightarrow> user_addr v"
  shows "space_ok s1" and "page_aligned f" and "unat f < 2 ^ 31" and "\<not> table_frame s1 f"
    and "window_step s1 s2 \<Longrightarrow>
      (\<And>a. \<not> table_frame s1 (page_of a) \<Longrightarrow> mem s2 a = (if page_of a = f then 0 else mem s1 a)) \<Longrightarrow> fresh_page V f s s2"
proof -
  note shape = alloc_page_shape [OF a(1)]
  have tk: "takes_frame s f s1" by (rule alloc_page_takes [OF space_okD(2) [OF ok] a])
  note f = takes_frame_aligned [OF tk] takes_frame_fresh [OF tk] takes_frame_used [OF tk]
  note bs = bitmap_step [OF shape]
  have ok1: "space_ok s1" "paging_virt_to_phys v s1 = paging_virt_to_phys v s" for v
    using bitmap_step_ok [OF shape ok takes_frame_inv [OF tk space_okD(2) [OF ok]]] f(4)
      table_frame_used [OF space_okD(1) [OF ok]] by blast+
  have nt: "\<not> table_frame s1 f" unfolding bs(3) using f(3) table_frame_used [OF space_okD(1) [OF ok]] by blast
  show "space_ok s1" "page_aligned f" "unat f < 2 ^ 31" "\<not> table_frame s1 f" by (rule ok1(1) f(1,2) nt)+
  assume st: "window_step s1 s2"
    and m: "\<And>a. \<not> table_frame s1 (page_of a) \<Longrightarrow> mem s2 a = (if page_of a = f then 0 else mem s1 a)"
  note w = window_step_facts [OF st ok1(1)]
  have same: "mem s1 = mem s" "kpaging.more s1 = kpaging.more s" "cr3 s1 = cr3 s" "pml4 s1 = pml4 s" by (subst shape, simp)+
  have "mem s2 a = mem s a" if "frame_used s (page_of a)" "\<not> table_frame s (page_of a)" for a
    using that m [of a] f(3) bs(3) same(1) by auto
  then have "keeps V s s2"
    unfolding keeps_def using w V ok1(2) f(4) by (simp add: bs(3) same)
  then show "fresh_page V f s s2"
    using f nt w m a(2) alloc_page_consumes(1) [OF space_okD(2) [OF ok] a(1)] window_step_free [OF st]
    by (auto simp: fresh_page_def)
qed

text \<open>A page is mapped, or it is not and the tables say what they said.\<close>

lemma linkable_user: "linkable (PAGE_PRESENT OR PAGE_WRITABLE OR PAGE_USER)"
  by (simp add: linkable_def pte_present_def pte_huge_def)

lemma map_page_ready:
  assumes ok: "space_ok s" and tf: "linkable table_flags"
    and step: "paging_map_page_flags virt phys flags table_flags s = (r, s')"
  shows "space_ok s'" and "kpaging.more s' = kpaging.more s" and "cr3 s' = cr3 s" and "pml4 s' = pml4 s"
    and "frame_used s f \<Longrightarrow> frame_used s' f"
proof -
  note pt = space_okD(1,2) [OF ok]
  have w: "\<exists>t. table_at s (PD_INDEX KERNEL_KMAP_WINDOW # pd_path KERNEL_KMAP_WINDOW) = Some t"
    using space_okD(4) [OF ok] unfolding window_ready_def paging_get_pt_tree [OF pt(1)]
    by (simp split: option.splits del: table_at.simps)
  have kept: "window_ready s4" if k: "tables_kept s s4" for s4 :: "'a kpaging_scheme"
  proof -
    obtain t where t: "table_at s4 (PD_INDEX KERNEL_KMAP_WINDOW # pd_path KERNEL_KMAP_WINDOW) = Some t"
      using w k valid_pt_path unfolding tables_kept_def by blast
    have ok4: "pt_ok s4" using k by (simp add: tables_kept_def)
    have "paging_get_pt KERNEL_KMAP_WINDOW s4 \<noteq> 0"
      unfolding paging_get_pt_tree [OF ok4] t option.case by (rule pt_ok_table(2) [OF ok4 valid_pt_path t])
    then show ?thesis using ok4 k space_okD(3) [OF ok] by (simp add: window_ready_def tables_kept_def)
  qed
  consider "tables_kept s s'" | s4 pt where "tables_kept s s4" "table_at s4 (PD_INDEX virt # pd_path virt) = Some pt"
      "s' = set_entry pt (PT_INDEX virt) ((phys AND PTE_ADDR_MASK) OR flags) s4"
    using paging_map_page_flags_cases [OF pt tf step] by blast
  then have "space_ok s' \<and> kpaging.more s' = kpaging.more s \<and> cr3 s' = cr3 s \<and> pml4 s' = pml4 s \<and>
      (frame_used s f \<longrightarrow> frame_used s' f)"
  proof cases
    case 1
    then show ?thesis using kept by (simp add: space_ok_def tables_kept_def)
  next
    case 2
    note s' = 2(3)
    have ok4: "pt_ok s4" "frames_ok s4" using 2(1) by (simp_all add: tables_kept_def)
    have len: "length (PD_INDEX virt # pd_path virt) = 3" by simp
    note leaf = leaf_table_at [OF ok4(1) 2(2) valid_pt_path len index_less(4)]
    have ok': "pt_ok s'" unfolding s' by (rule leaf_pt_ok [OF ok4(1) 2(2) valid_pt_path len index_less(4)])
    have "paging_get_pt KERNEL_KMAP_WINDOW s' = paging_get_pt KERNEL_KMAP_WINDOW s4"
      unfolding paging_get_pt_tree [OF ok'] paging_get_pt_tree [OF ok4(1)] unfolding s' leaf [OF valid_pt_path] ..
    then show ?thesis
      using kept [OF 2(1)] 2(1) ok' ok4(2) by (simp add: space_ok_def window_ready_def tables_kept_def s')
  qed
  then show "space_ok s'" "kpaging.more s' = kpaging.more s" "cr3 s' = cr3 s" "pml4 s' = pml4 s"
    "frame_used s f \<Longrightarrow> frame_used s' f" by auto
qed

lemma map_page_keeps:
  assumes ok: "space_ok s" and step: "paging_map_user_page virt phys flags s = (r, s')"
    and fl: "pte_present flags" "flags AND PTE_ADDR_MASK = 0"
    and V: "\<And>v. v \<in> V \<Longrightarrow> \<not> same_page virt v"
  shows "keeps V s s'"
    and "r = 0 \<Longrightarrow> same_page virt w \<Longrightarrow> paging_virt_to_phys w s' = (phys AND PTE_ADDR_MASK) + (w AND (PAGE_SIZE - 1))"
proof -
  note step' = step [unfolded paging_map_user_page_def]
  have fl': "pte_present (flags OR PAGE_USER)" "(flags OR PAGE_USER) AND PTE_ADDR_MASK = 0"
    using fl by (simp_all add: pte_present_def bit.conj_disj_distrib2)
  note tr = map_page_flags_virt [OF space_okD(1,2) [OF ok] linkable_user fl' step']
  note rd = map_page_ready [OF ok linkable_user step']
  note gr = map_page_flags_grow [OF space_okD(1,2) [OF ok] linkable_user step', unfolded tables_grow_def]
  have "\<forall>v \<in> V. paging_virt_to_phys v s' = paging_virt_to_phys v s" using tr V by (auto split: if_splits)
  moreover have "mem s' a = mem s a" if "frame_used s (page_of a)" "\<not> table_frame s (page_of a)" for a
    using gr that by blast
  ultimately show "keeps V s s'" using rd gr by (simp add: keeps_def)
  show "r = 0 \<Longrightarrow> same_page virt w \<Longrightarrow> paging_virt_to_phys w s' = (phys AND PTE_ADDR_MASK) + (w AND (PAGE_SIZE - 1))"
    using tr by simp
qed

text \<open>A frame that holds no table is given back.\<close>

lemma free_page_shape: "paging_free_page f s = s\<lparr>frame_bitmap := frame_bitmap (paging_free_page f s)\<rparr>"
  by (simp add: paging_free_page_def bitmap_clear_def Let_def)

lemma free_page_frames:
  assumes "frames_ok s" and "page_aligned f" and "f \<noteq> 0"
  shows "frames_ok (paging_free_page f s)" and "q \<noteq> f \<Longrightarrow> frame_used s q \<Longrightarrow> frame_used (paging_free_page f s) q"
proof -
  have "frames_ok (paging_free_page f s) \<and> (q \<noteq> f \<longrightarrow> frame_used s q \<longrightarrow> frame_used (paging_free_page f s) q)"
  proof (cases "f div PAGE_SIZE < total_frames s")
    case True
    then have lt: "f div PAGE_SIZE < MAX_FRAMES" using assms(1) unfolding frames_ok_def by (meson less_le_trans)
    have f: "f = f div PAGE_SIZE * PAGE_SIZE" using frame_address [OF lt, of f] assms(2) by blast
    then have nz: "f div PAGE_SIZE \<noteq> 0" using assms(3) by auto
    have "bitmap_test 0 (bitmap_clear (f div PAGE_SIZE) s)"
      using assms(1) nz bitmap_test_clear [OF lt, of 0 s] by (auto simp: frames_ok_def)
    then show ?thesis
      using True assms frame_used_clear [OF lt, of s q] f by (simp add: paging_free_page_def frames_ok_def)
  next
    case False
    then show ?thesis using assms by (simp add: paging_free_page_def)
  qed
  then show "frames_ok (paging_free_page f s)" "q \<noteq> f \<Longrightarrow> frame_used s q \<Longrightarrow> frame_used (paging_free_page f s) q" by auto
qed

lemma free_page_keeps:
  assumes k: "keeps V s s'" and f: "\<not> frame_used s f" "page_aligned f" "f \<noteq> 0" "\<not> table_frame s' f"
  shows "keeps V s (paging_free_page f s')"
proof -
  have ok: "space_ok s'" using k by (simp add: keeps_def)
  note shape = free_page_shape [of f s'] and fr = free_page_frames [OF space_okD(2) [OF ok] f(2,3)]
  note bs = bitmap_step [OF shape]
  have used: "frame_used (paging_free_page f s') q" if "table_frame s' q" for q
  proof (rule fr(2))
    show "q \<noteq> f" using that f(4) by auto
    show "frame_used s' q" using that table_frame_used [OF space_okD(1) [OF ok]] by blast
  qed
  note ok' = bitmap_step_ok [OF shape ok fr(1) used]
  have same: "mem (paging_free_page f s') = mem s'" "kpaging.more (paging_free_page f s') = kpaging.more s'"
    "cr3 (paging_free_page f s') = cr3 s'" "pml4 (paging_free_page f s') = pml4 s'" by (subst shape, simp)+
  have "frame_used (paging_free_page f s') q" if "frame_used s q" for q
    using that f(1) k by (intro fr(2)) (auto simp: keeps_def)
  then show ?thesis
    using k ok' unfolding keeps_def by (simp add: bs(3) same)
qed

section \<open>Frames that are used up\<close>

lemma get_or_create_table_consumes:
  assumes "frames_ok s" and "get_or_create_table t i flags s = (c, s')"
  shows "frames_ok s' \<and> card (free_tables s) \<le> Suc (card (free_tables s'))"
proof (cases "pte_present (get_entry t i s)")
  case True
  then show ?thesis using assms by (auto simp: get_or_create_table_def Let_def split: if_splits)
next
  case False
  obtain d s1 where alloc: "paging_alloc_table s = (d, s1)" by fastforce
  have "frames_ok s1" using alloc_table_cases [OF assms(1) alloc] takes_frame_inv assms(1) by blast
  moreover have "free_tables s' = free_tables s1" "frames_ok s' = frames_ok s1"
    using assms(2) False alloc by (auto simp: get_or_create_table_def split: if_splits)
  ultimately show ?thesis using alloc_table_consumes [OF assms(1) alloc] by simp
qed

lemma split_huge_page_consumes:
  assumes "frames_ok s" and "split_huge_page t i s = (r, s')"
  shows "frames_ok s' \<and> card (free_tables s) \<le> Suc (card (free_tables s'))"
proof (cases "pte_present (get_entry t i s) \<and> pte_huge (get_entry t i s)")
  case False
  then show ?thesis using assms by (auto simp: split_huge_page_def Let_def)
next
  case True
  obtain d s1 where alloc: "paging_alloc_table s = (d, s1)" by fastforce
  have "frames_ok s1" using alloc_table_cases [OF assms(1) alloc] takes_frame_inv assms(1) by blast
  moreover have "free_tables s' = free_tables s1" "frames_ok s' = frames_ok s1"
    using assms(2) True alloc by (auto simp: split_huge_page_def Let_def split: if_splits)
  ultimately show ?thesis using alloc_table_consumes [OF assms(1) alloc] by simp
qed

lemma map_page_flags_consumes:
  assumes "frames_ok s" and "paging_map_page_flags virt phys flags table_flags s = (r, s')"
  shows "card (free_tables s) \<le> card (free_tables s') + 4"
proof (cases "virt AND (PAGE_SIZE - 1) \<noteq> 0 \<or> phys AND (PAGE_SIZE - 1) \<noteq> 0")
  case True
  then show ?thesis using assms(2) by (auto simp: paging_map_page_flags_def)
next
  case False
  obtain pdpt s1 where g1: "get_or_create_table (pml4 s) (PML4_INDEX virt) table_flags s = (pdpt, s1)" by fastforce
  note c1 = get_or_create_table_consumes [OF assms(1) g1]
  obtain pd s2 where g2: "get_or_create_table pdpt (PDP_INDEX virt) table_flags s1 = (pd, s2)" by fastforce
  note c2 = get_or_create_table_consumes [OF conjunct1 [OF c1] g2]
  obtain r3 s3 where g3: "(if pte_present (get_entry pd (PD_INDEX virt) s2) \<and> pte_huge (get_entry pd (PD_INDEX virt) s2)
      then split_huge_page pd (PD_INDEX virt) s2 else (0, s2)) = (r3, s3)" by fastforce
  have c3: "frames_ok s3 \<and> card (free_tables s2) \<le> Suc (card (free_tables s3))"
    using g3 split_huge_page_consumes [OF conjunct1 [OF c2], of pd "PD_INDEX virt" r3 s3] c2 by (auto split: if_splits)
  obtain pt s4 where g4: "get_or_create_table pd (PD_INDEX virt) table_flags s3 = (pt, s4)" by fastforce
  note c4 = get_or_create_table_consumes [OF conjunct1 [OF c3] g4]
  have "s' \<in> {s1, s2, s3, s4} \<or> (\<exists>e. s' = set_entry pt (PT_INDEX virt) e s4)"
    using assms(2) False g1 g2 g3 g4 by (auto simp: paging_map_page_flags_def Let_def split: if_splits)
  then show ?thesis using c1 c2 c3 c4 by auto
qed

section \<open>Mapping pages for a program\<close>

definition page_addrs :: "nat set \<Rightarrow> u64 set" where
  "page_addrs P = {v. unat v div 4096 \<in> P}"

definition user_flags :: "u64 \<Rightarrow> bool" where
  "user_flags flags \<longleftrightarrow> pte_present flags \<and> flags AND PTE_ADDR_MASK = 0"

lemma page_offset:
  assumes "page_aligned f" and "unat v div 4096 = p" and "unat w div 4096 = p"
  shows "page_of (f + (v AND (PAGE_SIZE - 1))) = f"
    and "f + (v AND (PAGE_SIZE - 1)) = f + (w AND (PAGE_SIZE - 1)) \<longleftrightarrow> v = w"
proof -
  have off: "unat (v AND (PAGE_SIZE - 1)) = unat v mod 4096" for v
    using unat_and_mask [of v 12] by (simp add: mask_eq_exp_minus_1)
  show "page_of (f + (v AND (PAGE_SIZE - 1))) = f" by (rule page_of_add [OF assms(1)]) (subst off, rule mod_less_divisor, simp)
  have "v = w \<longleftrightarrow> unat v mod 4096 = unat w mod 4096"
    unfolding unat_eq_iff using assms(2,3) by (metis div_mod_decomp)
  then show "f + (v AND (PAGE_SIZE - 1)) = f + (w AND (PAGE_SIZE - 1)) \<longleftrightarrow> v = w"
    unfolding off [symmetric] unat_eq_iff [symmetric] by simp
qed

lemma owned_more:
  assumes own: "owned s V" and k: "keeps V s s'" and f: "\<not> frame_used s f" "frame_used s' f" "\<not> table_frame s' f"
      "page_aligned f" "f \<noteq> 0" "unat f < 2 ^ 31"
    and tr: "\<And>w. w \<in> page_addrs {p} \<Longrightarrow> paging_virt_to_phys w s' = f + (w AND (PAGE_SIZE - 1))"
  shows "owned s' (V \<union> page_addrs {p})"
proof -
  have V: "owned s' V" by (rule keeps_owned(1) [OF k own])
  have new: "page_of (paging_virt_to_phys w s') = f" if "w \<in> page_addrs {p}" for w
    using that page_offset(1) [OF f(4)] tr by (simp add: page_addrs_def)
  have "user_byte s' (paging_virt_to_phys w s')" if "w \<in> page_addrs {p}" for w
    using new [OF that] f by (auto simp: user_byte_def page_of_def)
  then have "\<forall>v \<in> V \<union> page_addrs {p}. user_byte s' (paging_virt_to_phys v s')" using V by (auto simp: owned_def)
  moreover have ap: "paging_virt_to_phys v s' \<noteq> paging_virt_to_phys w s'" if "v \<in> V" "w \<in> page_addrs {p}" for v w
  proof -
    have "paging_virt_to_phys v s' = paging_virt_to_phys v s" using k that(1) by (simp add: keeps_def)
    moreover have "frame_used s (page_of (paging_virt_to_phys v s))" using own that(1) by (simp add: owned_def user_byte_def)
    ultimately show ?thesis using new [OF that(2)] f(1) by metis
  qed
  moreover have "inj_on (\<lambda>v. paging_virt_to_phys v s') (page_addrs {p})"
    using page_offset(2) [OF f(4)] by (auto simp: inj_on_def tr page_addrs_def)
  moreover have "inj_on (\<lambda>v. paging_virt_to_phys v s') V" using V by (simp add: owned_def)
  ultimately show ?thesis unfolding owned_def inj_on_Un by (auto dest: ap)
qed

lemma keeps_refl: "space_ok s \<Longrightarrow> keeps V s s"
  by (simp add: keeps_def)

lemma keeps_mono: "keeps V s s' \<Longrightarrow> W \<subseteq> V \<Longrightarrow> keeps W s s'"
  unfolding keeps_def by blast

lemma page_base:
  assumes "p < 2 ^ 35"
  shows "unat (of_nat p * PAGE_SIZE) = p * 4096" and "of_nat p * PAGE_SIZE AND (PAGE_SIZE - 1) = 0"
    and "unat v < 2 ^ 47 \<Longrightarrow> same_page (of_nat p * PAGE_SIZE) v \<longleftrightarrow> unat v div 4096 = p"
proof -
  have "unat (of_nat p :: u64) = p" by (rule unat_of_nat_small) (use assms in simp)
  then show u: "unat (of_nat p * PAGE_SIZE) = p * 4096" using assms by (simp add: unat_word_ariths)
  have "page_aligned (of_nat p * PAGE_SIZE)" unfolding page_aligned_def u by simp
  then show "of_nat p * PAGE_SIZE AND (PAGE_SIZE - 1) = 0" by (rule aligned_low(1))
  have "unat (of_nat p * PAGE_SIZE) < 2 ^ 48" unfolding u using assms by simp
  from same_page_number [OF this, of v]
  show "unat v < 2 ^ 47 \<Longrightarrow> same_page (of_nat p * PAGE_SIZE) v \<longleftrightarrow> unat v div 4096 = p" unfolding u by auto
qed

text \<open>Mapping a fresh page at the page with number \<open>p\<close>.\<close>

lemma map_fresh_page:
  assumes own: "owned s V" and new: "fresh_page V f s s2" and fl: "user_flags flags" and p: "p < 2 ^ 35"
    and V: "\<And>v. v \<in> V \<Longrightarrow> user_addr v" "V \<inter> page_addrs {p} = {}"
    and m: "paging_map_user_page (of_nat p * PAGE_SIZE) f flags s2 = (r, s3)"
  shows "keeps V s s3" and "card (free_tables s) \<le> card (free_tables s3) + 5" and "keeps V s (paging_free_page f s3)"
    and "4 \<le> card (free_tables s) \<Longrightarrow> r = 0"
    and "r = 0 \<Longrightarrow> owned s3 (V \<union> page_addrs {p}) \<and> (\<forall>v \<in> page_addrs {p}. view s3 v = 0)"
proof -
  note z = new [unfolded fresh_page_def]
  have ok2: "space_ok s2" using z by (simp add: keeps_def)
  have same: "same_page (of_nat p * PAGE_SIZE) v \<longleftrightarrow> v \<in> page_addrs {p}" if "unat v < 2 ^ 47" for v
    using page_base(3) [OF p that] by (simp add: page_addrs_def)
  have "\<not> same_page (of_nat p * PAGE_SIZE) v" if "v \<in> V" for v using same V that by (auto simp: user_addr_def)
  note mk = map_page_keeps [OF ok2 m, of V, OF _ _ this] fl [unfolded user_flags_def]
  have k23: "keeps V s2 s3" using mk by blast
  show k: "keeps V s s3" by (rule keeps_trans [OF _ k23]) (use z in simp)
  have f3: "frame_used s3 f" "\<not> table_frame s3 f" using k23 z by (auto simp: keeps_def)
  show "keeps V s (paging_free_page f s3)" by (rule free_page_keeps [OF k _ _ _ f3(2)]) (use z in simp_all)
  show "card (free_tables s) \<le> card (free_tables s3) + 5"
    using map_page_flags_consumes [OF space_okD(2) [OF ok2] m [unfolded paging_map_user_page_def]] z by simp
  show "r = 0" if "4 \<le> card (free_tables s)"
  proof (rule paging_map_page_flags_succeeds [OF space_okD(1,2) [OF ok2] linkable_user _ _ _ m [unfolded paging_map_user_page_def]])
    show "3 \<le> card (free_tables s2)" using that z by simp
    show "of_nat p * PAGE_SIZE AND (PAGE_SIZE - 1) = 0" by (rule page_base(2) [OF p])
    show "f AND (PAGE_SIZE - 1) = 0" by (rule aligned_low(1)) (use z in simp)
  qed
  assume r: "r = 0"
  have fm: "f AND PTE_ADDR_MASK = f" by (rule aligned_low_mask) (use z in simp_all)
  have tr: "paging_virt_to_phys w s3 = f + (w AND (PAGE_SIZE - 1))" if "w \<in> page_addrs {p}" for w
  proof -
    have "unat w < 2 ^ 47" using that p unfolding page_addrs_def by (simp add: div_less_iff_less_mult)
    then show ?thesis using mk r same [of w] that fm by auto
  qed
  have "view s3 v = 0" if v: "v \<in> page_addrs {p}" for v
  proof -
    have pg: "page_of (f + (v AND (PAGE_SIZE - 1))) = f" by (rule page_offset(1) [of _ _ p]) (use z v in \<open>simp_all add: page_addrs_def\<close>)
    have "mem s3 (f + (v AND (PAGE_SIZE - 1))) = mem s2 (f + (v AND (PAGE_SIZE - 1)))"
      using k23 z pg unfolding keeps_def by metis
    then show ?thesis unfolding view_def tr [OF v] using z pg by metis
  qed
  moreover have "owned s3 (V \<union> page_addrs {p})" by (rule owned_more [OF own k _ f3 _ _ _ tr]) (use z in simp_all)
  ultimately show "owned s3 (V \<union> page_addrs {p}) \<and> (\<forall>v \<in> page_addrs {p}. view s3 v = 0)" by blast
qed

lemma map_user_page_step_run:
  assumes ok: "space_ok s" and own: "owned s V" and fl: "user_flags flags" and p: "p < 2 ^ 35"
    and V: "\<And>v. v \<in> V \<Longrightarrow> user_addr v" "V \<inter> page_addrs {p} = {}"
  obtains r s' where "map_user_page_step flags (of_nat p * PAGE_SIZE) s = Some (r, s')" and "keeps V s s'"
    and "r = 0 \<Longrightarrow> owned s' (V \<union> page_addrs {p}) \<and> (\<forall>v \<in> page_addrs {p}. view s' v = 0) \<and>
      card (free_tables s) \<le> card (free_tables s') + 5"
    and "4 \<le> card (free_tables s) \<Longrightarrow> r = 0"
proof -
  note con = alloc_page_consumes [OF space_okD(2) [OF ok]]
  obtain f s1 where a: "paging_alloc_page s = (f, s1)" by fastforce
  show thesis
  proof (cases "f = 0")
    case True
    then have "s1 = s" using alloc_page_fails [OF space_okD(2) [OF ok]] a by blast
    moreover have "\<not> 4 \<le> card (free_tables s)" using con(2) [OF a] True by auto
    ultimately show thesis using that [of "- 1" s] a True keeps_refl [OF ok] by (simp add: map_user_page_step_def)
  next
    case f0: False
    note al = alloc_fresh [OF ok a f0 V(1)]
    obtain s2 where z: "paging_zero_frame f s1 = Some s2" "fresh_page V f s s2"
      using zero_frame_run [OF al(1-4)] al(5) by metis
    obtain r s3 where m: "paging_map_user_page (of_nat p * PAGE_SIZE) f flags s2 = (r, s3)" by fastforce
    note mf = map_fresh_page [OF own z(2) fl p V m]
    show thesis
    proof (cases "r = 0")
      case True
      then show thesis using that [of r s3] a f0 z(1) m mf(1,2,5) by (simp add: map_user_page_step_def)
    next
      case False
      then have "\<not> 4 \<le> card (free_tables s)" using mf(4) by blast
      then show thesis
        using False that [of "- 1" "paging_free_page f s3"] a f0 z(1) m mf(3) by (simp add: map_user_page_step_def)
    qed
  qed
qed

lemma map_pages_run:
  "space_ok s \<Longrightarrow> owned s V \<Longrightarrow> user_flags flags \<Longrightarrow> distinct ps \<Longrightarrow> (\<And>p. p \<in> set ps \<Longrightarrow> p < 2 ^ 35 \<and> p \<noteq> 0x5000) \<Longrightarrow>
     (\<And>v. v \<in> V \<Longrightarrow> user_addr v) \<Longrightarrow> V \<inter> page_addrs (set ps) = {} \<Longrightarrow>
     \<exists>r s'. for_status (\<lambda>p. map_user_page_step flags (of_nat p * PAGE_SIZE)) ps s = Some (r, s') \<and> keeps V s s' \<and>
       (r = 0 \<longrightarrow> owned s' (V \<union> page_addrs (set ps)) \<and> (\<forall>v \<in> page_addrs (set ps). view s' v = 0)) \<and>
       (5 * length ps \<le> card (free_tables s) \<longrightarrow> r = 0)"
proof (induction ps arbitrary: s V)
  case Nil
  then show ?case using keeps_refl by (auto simp: page_addrs_def)
next
  case (Cons p ps)
  have p: "p < 2 ^ 35" "p \<noteq> 0x5000" using Cons.prems(5) by auto
  have un: "page_addrs (set (p # ps)) = page_addrs {p} \<union> page_addrs (set ps)" by (auto simp: page_addrs_def)
  have V1: "V \<inter> page_addrs {p} = {}" using Cons.prems(7) un by auto
  obtain r1 s1 where 1: "map_user_page_step flags (of_nat p * PAGE_SIZE) s = Some (r1, s1)" "keeps V s s1"
    "r1 = 0 \<Longrightarrow> owned s1 (V \<union> page_addrs {p}) \<and> (\<forall>v \<in> page_addrs {p}. view s1 v = 0) \<and>
      card (free_tables s) \<le> card (free_tables s1) + 5"
    "4 \<le> card (free_tables s) \<Longrightarrow> r1 = 0"
    using map_user_page_step_run [OF Cons.prems(1-3) p(1) Cons.prems(6) V1] by blast
  show ?case
  proof (cases "r1 = 0")
    case True
    let ?V = "V \<union> page_addrs {p}"
    have dis: "?V \<inter> page_addrs (set ps) = {}" using Cons.prems(4,7) by (auto simp: page_addrs_def)
    have ua: "user_addr v" if "v \<in> ?V" for v
      using that Cons.prems(6) p by (auto simp: page_addrs_def user_addr_def div_less_iff_less_mult)
    have "space_ok s1" using 1(2) by (simp add: keeps_def)
    from Cons.IH [OF this conjunct1 [OF 1(3) [OF True]] Cons.prems(3) _ _ ua dis] Cons.prems(4,5)
    obtain r s' where 2: "for_status (\<lambda>p. map_user_page_step flags (of_nat p * PAGE_SIZE)) ps s1 = Some (r, s')"
      "keeps ?V s1 s'" "r = 0 \<longrightarrow> owned s' (?V \<union> page_addrs (set ps)) \<and> (\<forall>v \<in> page_addrs (set ps). view s' v = 0)"
      "5 * length ps \<le> card (free_tables s1) \<longrightarrow> r = 0" by auto
    have "view s' v = 0" if "v \<in> page_addrs {p}" for v
      using keeps_owned(2) [OF 2(2) conjunct1 [OF 1(3) [OF True]], of v] 1(3) [OF True] that by simp
    moreover have "keeps V s s'" by (rule keeps_trans [OF 1(2) keeps_mono [OF 2(2)]]) simp
    ultimately show ?thesis using 1(1,3) 2(1,3,4) True un by (auto simp: Un_assoc)
  next
    case False
    then show ?thesis using 1(1,2,4) by auto
  qed
qed

section \<open>The properties of user memory\<close>

text \<open>The addresses that a call for \<open>sz\<close> bytes at \<open>virt\<close> maps: whole pages.\<close>

definition range_pages :: "u64 \<Rightarrow> u64 \<Rightarrow> nat set" where
  "range_pages virt sz = {unat virt div 4096 ..< (unat virt + unat sz + 4095) div 4096}"

lemma range_pages_in:
  assumes "unat virt + unat sz < 2 ^ 48"
  shows "range_in virt (unat sz) (page_addrs (range_pages virt sz))"
proof -
  have "unat (virt + of_nat i) div 4096 \<in> range_pages virt sz" if i: "i < unat sz" for i
  proof -
    have "unat (of_nat i :: u64) = i" by (rule unat_of_nat_small) (rule less_le_trans [OF i], use assms in simp)
    then have "unat (virt + of_nat i) = unat virt + i" using i assms by (simp add: unat_add_small)
    then show ?thesis using i by (auto simp: range_pages_def div_le_mono)
  qed
  then show ?thesis by (simp add: range_in_def page_addrs_def)
qed

lemma map_user_range_pages:
  assumes "unat virt + unat sz < 2 ^ 47"
  shows "paging_map_user_range virt sz flags s = for_status (\<lambda>p. map_user_page_step flags (of_nat p * PAGE_SIZE))
     [unat virt div 4096 ..< (unat virt + unat sz + 4095) div 4096] s"
proof -
  have m: "PAGE_MASK = NOT (mask 12)" by (simp add: mask_eq_exp_minus_1)
  have idx: "unat ((x AND PAGE_MASK) div PAGE_SIZE) = unat x div 4096" for x
    unfolding m unat_div unat_and_not_mask by simp
  have "unat (virt + sz + PAGE_SIZE - 1) = unat (virt + (sz + 4095))" by (simp add: algebra_simps)
  also have "\<dots> = unat virt + unat sz + 4095"
    using assms by (simp add: unat_add_small)
  finally show ?thesis unfolding paging_map_user_range_def Let_def idx by simp
qed

lemma map_user_range_run:
  assumes "space_ok s" and "owned s V" and "user_flags flags" and "unat virt + unat sz + 4096 \<le> 2 ^ 47"
    and "0x5000 \<notin> range_pages virt sz" and "\<forall>v \<in> V. user_addr v" and "V \<inter> page_addrs (range_pages virt sz) = {}"
  obtains r s' where "paging_map_user_range virt sz flags s = Some (r, s')" and "keeps V s s'"
    and "r = 0 \<longrightarrow> owned s' (V \<union> page_addrs (range_pages virt sz)) \<and> (\<forall>v \<in> page_addrs (range_pages virt sz). view s' v = 0)"
    and "5 * card (range_pages virt sz) \<le> card (free_tables s) \<longrightarrow> r = 0"
proof -
  let ?ps = "[unat virt div 4096 ..< (unat virt + unat sz + 4095) div 4096]"
  have set: "set ?ps = range_pages virt sz" by (simp add: range_pages_def)
  have b: "p < 2 ^ 35 \<and> p \<noteq> 0x5000" if "p \<in> set ?ps" for p
  proof -
    have "p \<le> (unat virt + unat sz + 4094) div 4096" using that by auto
    also have "\<dots> < 2 ^ 35" using assms(4) by (simp add: div_less_iff_less_mult)
    finally show ?thesis using that assms(5) unfolding set by auto
  qed
  have run: "paging_map_user_range virt sz flags s = for_status (\<lambda>p. map_user_page_step flags (of_nat p * PAGE_SIZE)) ?ps s"
    by (rule map_user_range_pages) (use assms(4) in simp)
  have "V \<inter> page_addrs (set ?ps) = {}" using assms(7) unfolding set .
  from map_pages_run [OF assms(1-3) distinct_upt b _ this] assms(6) that
  show thesis unfolding run set by (auto simp: range_pages_def)
qed


text \<open>Machines with a window and \<open>n\<close> frames, for the witnesses.\<close>

lemma window_after_map:
  assumes ok: "pt_ok s0" "frames_ok s0" and cr: "cr3 s0 AND PTE_ADDR_MASK = pml4 s0" and free: "3 \<le> card (free_tables s0)"
    and step: "paging_map_page_flags KERNEL_KMAP_WINDOW 0x9000 3 3 s0 = (r, s)"
  shows "space_ok s" and "card (free_tables s0) \<le> card (free_tables s) + 4"
proof -
  let ?v = KERNEL_KMAP_WINDOW
  have tf: "linkable 3" by (simp add: linkable_def pte_present_def pte_huge_def)
  have "r = 0" by (rule paging_map_page_flags_succeeds [OF ok tf _ _ free step]) simp_all
  then obtain s4 pt where k: "tables_kept s0 s4" and at: "table_at s4 (PD_INDEX ?v # pd_path ?v) = Some pt"
    and s: "s = set_entry pt (PT_INDEX ?v) ((0x9000 AND PTE_ADDR_MASK) OR 3) s4"
    using paging_map_page_flags_cases [OF ok tf step] by blast
  have ok4: "pt_ok s4" "frames_ok s4" "cr3 s4 = cr3 s0" "pml4 s4 = pml4 s0" using k by (simp_all add: tables_kept_def)
  have ok': "pt_ok s" unfolding s by (rule leaf_pt_ok [OF ok4(1) at valid_pt_path]) simp_all
  have at': "table_at s (PD_INDEX ?v # pd_path ?v) = Some pt"
    unfolding s using leaf_table_at [OF ok4(1) at valid_pt_path _ index_less(4) valid_pt_path] at by simp
  have "paging_get_pt ?v s \<noteq> 0"
    unfolding paging_get_pt_tree [OF ok'] at' option.case by (rule pt_ok_table(2) [OF ok' valid_pt_path at'])
  then show "space_ok s" using ok' ok4 cr by (simp add: space_ok_def window_ready_def s)
  show "card (free_tables s0) \<le> card (free_tables s) + 4" by (rule map_page_flags_consumes [OF ok(2) step])
qed

definition sized_example :: "u64 \<Rightarrow> kpaging" where
  "sized_example n = snd (paging_map_page_flags KERNEL_KMAP_WINDOW 0x9000 3 3 (boot_example\<lparr>total_frames := n\<rparr>))"

lemma sized_example_ok:
  assumes n: "15 \<le> n" "n \<le> 0x10000"
  shows "space_ok (sized_example n)" and "unat n \<le> card (free_tables (sized_example n)) + 12"
proof -
  let ?s = "boot_example\<lparr>total_frames := n\<rparr>"
  obtain r where step: "paging_map_page_flags KERNEL_KMAP_WINDOW 0x9000 3 3 ?s = (r, sized_example n)"
    unfolding sized_example_def by (metis prod.collapse)
  have e: "get_entry t i ?s = get_entry t i boot_example" for t i by (simp add: get_entry_def)
  have at: "table_at ?s p = table_at boot_example p" for p
    by (induction p) (simp, simp add: e split: option.split)
  have used: "frame_used ?s f = frame_used boot_example f" for f by (simp add: frame_used_def bitmap_test_def)
  have ok: "pt_ok ?s" using boot_example_ok(1) unfolding pt_ok_def at e used .
  have fr: "frames_ok ?s" using n by (simp add: frames_ok_def bitmap_test_def boot_example_def unat_le_iff)
  let ?f = "\<lambda>i::nat. of_nat i * PAGE_SIZE :: u64"
  have num: "unat (?f i) = i * 4096" "unat (?f i div PAGE_SIZE) = i" if "i < unat n" for i
  proof -
    have "i < 0x10000" using that n(2) by (simp add: unat_le_iff)
    then show "unat (?f i) = i * 4096" by (simp add: unat_word_ariths unat_of_nat_small)
    then show "unat (?f i div PAGE_SIZE) = i" unfolding unat_div by simp
  qed
  have "?f i \<in> free_tables ?s" if "i \<in> {8..<unat n}" for i
  proof -
    have i: "8 \<le> i" "i < unat n" "i < 0x10000" using that n(2) by (auto simp: unat_le_iff)
    have "unat (?f i div PAGE_SIZE div 8) = i div 8" unfolding unat_div [of _ 8] num(2) [OF i(2)] by simp
    moreover have "i div 8 \<noteq> 0" using i(1) by (simp add: div_eq_0_iff)
    ultimately have "unat (?f i div PAGE_SIZE div 8) \<noteq> 0" by simp
    then have "\<not> bitmap_test (?f i div PAGE_SIZE) ?s"
      using num(2) [OF i(2)] i(3) by (simp add: bitmap_test_def boot_example_def unat_le_iff del: PAGE_SIZE_def)
    then show ?thesis
      using num [OF i(2)] i by (simp add: free_tables_def frame_used_def page_aligned_def unat_less_iff boot_example_def del: PAGE_SIZE_def)
  qed
  then have "?f ` {8..<unat n} \<subseteq> free_tables ?s" by blast
  then have "card (?f ` {8..<unat n}) \<le> card (free_tables ?s)" by (rule card_mono [rotated]) simp
  moreover have "inj_on ?f {8..<unat n}"
    by (rule inj_onI) (metis atLeastLessThan_iff num(2))
  ultimately have c: "unat n \<le> card (free_tables ?s) + 8" by (simp add: card_image)
  moreover have "15 \<le> unat n" using n(1) by (simp add: unat_le_iff)
  ultimately have "3 \<le> card (free_tables ?s)" by simp
  note w = window_after_map [OF ok fr _ this step]
  have "cr3 ?s AND PTE_ADDR_MASK = pml4 ?s" by (simp add: boot_example_def)
  with w c show "space_ok (sized_example n)" "unat n \<le> card (free_tables (sized_example n)) + 12" by simp_all
qed

lemma owned_empty [simp]: "owned s {}"
  by (simp add: owned_def)

lemma ex_size: "15 \<le> (64 :: u64)" "(64 :: u64) \<le> 0x10000"
  by simp_all

lemma page_400: "range_pages 0x400000 0x1000 = {0x400}"
  by (auto simp: range_pages_def)


section \<open>Copies between the kernel and user memory\<close>

text \<open>A buffer that lies in the program's own memory and passes the checks of the copies.\<close>

definition user_buffer :: "u64 \<Rightarrow> nat \<Rightarrow> u64 set \<Rightarrow> bool" where
  "user_buffer a n V \<longleftrightarrow> range_in a n V \<and> n < 2 ^ 64 \<and> user_ptr_ok a (of_nat n) \<and> \<not> heap_range a n"

lemma copy_to_user_run:
  assumes "space_ok s" and "owned s V" and "user_buffer a (length bs) V"
  obtains s' where "copy_to_user a bs s = Some (0, s')" and "data_step s s'" and "space_ok s'" and "owned s' V"
    and "\<And>v. paging_virt_to_phys v s' = paging_virt_to_phys v s" and "\<forall>v \<in> V. view s' v = mem_write (view s) a bs v"
proof -
  note b = assms(3) [unfolded user_buffer_def]
  obtain s' where w: "virt_write a bs s = Some s'" "data_step s s'" "\<forall>v \<in> V. view s' v = mem_write (view s) a bs v"
    using owned_write [OF assms(1,2)] b by blast
  note k = data_step_kept [OF w(2) assms(1)]
  have "copy_to_user a bs s = Some (0, s')" using w(1) b by (simp add: copy_to_user_def user_write_def)
  moreover have "owned s' V" using assms(2) k(6) by simp
  ultimately show thesis by (rule that [OF _ w(2) k(1) _ k(2) w(3)])
qed

lemma copy_from_user_run:
  assumes "space_ok s" and "owned s V" and "user_buffer a n V"
  shows "copy_from_user a (of_nat n) s = Some (0, mem_read (view s) a n)"
  using owned_read [OF assms(1,2)] assms(3) by (simp add: user_buffer_def copy_from_user_def user_read_def unat_of_nat_small)

lemma mem_read_agree: "(\<forall>v \<in> V. m v = m' v) \<Longrightarrow> range_in a n V \<Longrightarrow> mem_read m a n = mem_read m' a n"
  by (auto intro!: nth_equalityI simp: range_in_def)


definition page_example :: kpaging where
  "page_example = snd (the (paging_map_user_range 0x400000 0x1000 3 (sized_example 64)))"

lemma page_example_owned: "space_ok page_example" "owned page_example (page_addrs {0x400})"
proof -
  have fl: "user_flags 3" by (simp add: user_flags_def pte_present_def)
  obtain r s' where r: "paging_map_user_range 0x400000 0x1000 3 (sized_example 64) = Some (r, s')" "keeps {} (sized_example 64) s'"
    "r = 0 \<longrightarrow> owned s' (page_addrs {0x400})" "5 * card {0x400 :: nat} \<le> card (free_tables (sized_example 64)) \<longrightarrow> r = 0"
    by (rule map_user_range_run [OF sized_example_ok(1) [OF ex_size] owned_empty fl, of "0x400000" "0x1000"]) (simp_all add: page_400)
  then have "r = 0" using sized_example_ok(2) [OF ex_size] by simp
  then show "space_ok page_example" "owned page_example (page_addrs {0x400})"
    using r by (simp_all add: page_example_def keeps_def)
qed


end
