(* ===== verification/UserStack.thy ===== *)
theory UserStack
  imports Elf UserPages
begin

unbundle bit_operations_syntax

text \<open>
  The initial stack that \<^verbatim>\<open>elf_build_stack\<close> (\<^verbatim>\<open>core/elf.c\<close>) leaves for a program, read through the program's own
  addresses: the number of arguments, the two tables of strings with their null pointers, the auxiliary vector, the
  strings themselves.  The pushes go downwards, each below the last, so that none overwrites another.
\<close>

section \<open>Writes that stay in a range\<close>

text \<open>From \<open>s\<close> to \<open>s'\<close> only bytes at the addresses from \<open>lo\<close> up to \<open>hi\<close> change.\<close>

definition fills :: "u64 set \<Rightarrow> nat \<Rightarrow> nat \<Rightarrow> 'a kpaging_scheme \<Rightarrow> 'a kpaging_scheme \<Rightarrow> bool" where
  "fills V lo hi s s' \<longleftrightarrow> data_step s s' \<and> (\<forall>v \<in> V. unat v < lo \<or> hi \<le> unat v \<longrightarrow> view s' v = view s v)"

lemma fills_trans:
  assumes "fills V a b s s'" and "space_ok s" and "fills V c d s' s''" and "lo \<le> a" "lo \<le> c" "b \<le> hi" "d \<le> hi"
  shows "fills V lo hi s s''"
  using assms data_step_trans [of s s' s''] unfolding fills_def by auto

lemma fills_refl [simp]: "fills V lo hi s s"
  by (simp add: fills_def)

lemma fills_kept:
  assumes "fills V lo hi s s'" and "space_ok s" and "owned s V"
  shows "space_ok s'" and "owned s' V"
  using assms data_step_kept [of s s'] by (auto simp: fills_def)

lemma mem_read_cong: "(\<And>i. i < n \<Longrightarrow> m (a + of_nat i) = m' (a + of_nat i)) \<Longrightarrow> mem_read m a n = mem_read m' a n"
  by (auto intro: nth_equalityI)

text \<open>What lies outside is read as before.\<close>

lemma fills_read:
  assumes "fills V lo hi s s'" and "range_in a n V" and "unat a + n < 2 ^ 64" and "unat a + n \<le> lo \<or> hi \<le> unat a"
  shows "mem_read (view s') a n = mem_read (view s) a n"
proof (rule mem_read_cong)
  fix i assume i: "i < n"
  then have "unat (a + of_nat i) = unat a + i" using assms(3) by (simp add: unat_add_small unat_of_nat_small)
  then show "view s' (a + of_nat i) = view s (a + of_nat i)"
    using assms i by (auto simp: fills_def range_in_def)
qed

lemma fills_write:
  assumes "space_ok s" and "owned s V" and "range_in a (length bs) V" and "unat a + length bs < 2 ^ 64"
  obtains s' where "virt_write a bs s = Some s'" and "fills V (unat a) (unat a + length bs) s s'"
    and "mem_read (view s') a (length bs) = bs"
proof -
  obtain s' where w: "virt_write a bs s = Some s'" "data_step s s'" "\<forall>v \<in> V. view s' v = mem_write (view s) a bs v"
    using owned_write [OF assms(1-3)] by blast
  have "view s' v = view s v" if "v \<in> V" "unat v < unat a \<or> unat a + length bs \<le> unat v" for v
  proof -
    have "\<not> unat (v - a) < length bs"
    proof
      assume "unat (v - a) < length bs"
      then show False using unat_add_small [of a "v - a"] assms(4) that(2) by simp
    qed
    then show ?thesis using w(3) that(1) assms(4) by (simp add: mem_write_apply)
  qed
  then have "fills V (unat a) (unat a + length bs) s s'" using w(2) by (simp add: fills_def)
  moreover have "mem_read (view s') a (length bs) = mem_read (mem_write (view s) a bs) a (length bs)"
    using w(3) assms(3) by (intro mem_read_cong) (simp add: range_in_def)
  then have "mem_read (view s') a (length bs) = bs" using mem_read_write_same [of bs] assms(4) by simp
  ultimately show thesis using that w(1) by blast
qed

section \<open>Pushing\<close>

lemma unat_align16: "unat (align16 sp) = unat sp div 16 * 16"
proof -
  have "align16 sp = sp AND NOT (mask 4)" by (simp add: align16_def mask_eq_exp_minus_1)
  then show ?thesis using unat_and_not_mask [of sp 4] by simp
qed

lemma align16_below:
  assumes "n \<le> unat sp"
  shows "unat (align16 (sp - of_nat n)) + n \<le> unat sp" and "unat sp \<le> unat (align16 (sp - of_nat n)) + n + 15"
    and "unat (align16 (sp - of_nat n)) mod 16 = 0"
proof -
  have "unat (of_nat n :: u64) = n" by (rule unat_of_nat_small) (rule le_less_trans [OF assms], simp)
  then have d: "unat (sp - of_nat n) = unat sp - n" using assms by (simp add: unat_sub_le unat_le_iff)
  show "unat (align16 (sp - of_nat n)) + n \<le> unat sp" "unat sp \<le> unat (align16 (sp - of_nat n)) + n + 15"
    "unat (align16 (sp - of_nat n)) mod 16 = 0"
    unfolding unat_align16 d using assms div_times_less_eq_dividend [of "unat sp - n" 16] dividend_less_times_div [of 16 "unat sp - n"]
    by simp_all
qed


text \<open>The strings.\<close>

definition room :: "u8 list list \<Rightarrow> nat" where
  "room strs = (\<Sum>t \<leftarrow> strs. length t + 16)"

lemma room_simps [simp]: "room [] = 0" "room (t # ts) = length t + 16 + room ts"
  by (simp_all add: room_def)

lemma push_strings_run:
  "space_ok s \<Longrightarrow> owned s V \<Longrightarrow> region lo hi \<subseteq> V \<Longrightarrow> lo + room strs \<le> unat sp \<Longrightarrow> unat sp \<le> hi \<Longrightarrow> hi < 2 ^ 64 \<Longrightarrow>
     \<exists>ptrs sp' s'. push_strings strs sp s = Some (ptrs, sp', s') \<and> fills V (unat sp') (unat sp) s s' \<and>
       unat sp' \<le> unat sp \<and> unat sp \<le> unat sp' + room strs \<and> (unat sp mod 16 = 0 \<longrightarrow> unat sp' mod 16 = 0) \<and>
       length ptrs = length strs \<and>
       (\<forall>i < length strs. unat sp' \<le> unat (ptrs ! i) \<and> unat (ptrs ! i) + length (strs ! i) < unat sp \<and>
          mem_read (view s') (ptrs ! i) (length (strs ! i) + 1) = strs ! i @ [0])"
proof (induction strs arbitrary: sp s)
  case (Cons str strs)
  let ?n = "length str + 1"
  define sp1 where "sp1 = align16 (sp - of_nat ?n)"
  have "?n \<le> unat sp" using Cons.prems(4) by simp
  note al = align16_below [OF this, folded sp1_def]
  have "range_in sp1 ?n (region lo hi)" by (rule region_range) (use al Cons.prems in simp_all)
  then have r: "range_in sp1 (length (str @ [0])) V" using range_in_mono [OF _ Cons.prems(3)] by simp
  obtain s1 where s1: "virt_write sp1 (str @ [0]) s = Some s1" "fills V (unat sp1) (unat sp1 + ?n) s s1"
    "mem_read (view s1) sp1 ?n = str @ [0]"
    by (rule fills_write [OF Cons.prems(1,2) r]) (use al Cons.prems in simp_all)
  have "lo + room strs \<le> unat sp1" "unat sp1 \<le> hi" using al Cons.prems by simp_all
  from Cons.IH [OF fills_kept [OF s1(2) Cons.prems(1,2)] Cons.prems(3) this Cons.prems(6)]
  obtain ptrs sp2 s2 where 2: "push_strings strs sp1 s1 = Some (ptrs, sp2, s2)" "fills V (unat sp2) (unat sp1) s1 s2"
    "unat sp2 \<le> unat sp1" "unat sp1 \<le> unat sp2 + room strs" "unat sp1 mod 16 = 0 \<longrightarrow> unat sp2 mod 16 = 0"
    "length ptrs = length strs"
    "\<forall>i < length strs. unat sp2 \<le> unat (ptrs ! i) \<and> unat (ptrs ! i) + length (strs ! i) < unat sp1 \<and>
       mem_read (view s2) (ptrs ! i) (length (strs ! i) + 1) = strs ! i @ [0]" by (elim exE conjE) (rule that; assumption)
  have str: "mem_read (view s2) sp1 ?n = str @ [0]"
    unfolding s1(3) [symmetric] by (rule fills_read [OF 2(2)]) (use r al Cons.prems in simp_all)
  have all: "unat sp2 \<le> unat ((sp1 # ptrs) ! i) \<and> unat ((sp1 # ptrs) ! i) + length ((str # strs) ! i) < unat sp \<and>
      mem_read (view s2) ((sp1 # ptrs) ! i) (length ((str # strs) ! i) + 1) = (str # strs) ! i @ [0]"
    if "i < length (str # strs)" for i
  proof (cases i)
    case 0
    then show ?thesis using str al 2(3) by simp
  next
    case (Suc j)
    then have "j < length strs" using that by simp
    then show ?thesis using 2(7) [rule_format, of j] al Suc by simp
  qed
  have "fills V (unat sp2) (unat sp) s s2"
    by (rule fills_trans [OF s1(2) Cons.prems(1) 2(2)]) (use al 2(3) in simp_all)
  moreover have "push_strings (str # strs) sp s = Some (sp1 # ptrs, sp2, s2)"
    using s1(1) 2(1) by (simp add: sp1_def Let_def)
  moreover have "unat sp2 \<le> unat sp" "unat sp \<le> unat sp2 + room (str # strs)" "unat sp2 mod 16 = 0"
    using al 2(3-5) by simp_all
  ultimately show ?case using all 2(6) by (intro exI [of _ "sp1 # ptrs"] exI [of _ sp2] exI [of _ s2]) simp
qed simp


text \<open>Words.\<close>

lemma store64_run:
  assumes "space_ok s" and "owned s V" and "region lo hi \<subseteq> V" and "lo \<le> unat a" and "unat a + 8 \<le> hi" and "hi < 2 ^ 64"
  obtains s' where "store64 a w s = Some s'" and "fills V (unat a) (unat a + 8) s s'" and "rd64 (view s') a = w"
proof -
  have "range_in a 8 (region lo hi)" by (rule region_range) (use assms in simp_all)
  then have r: "range_in a (length (le_bytes 8 (unat w))) V" using range_in_mono [OF _ assms(3)] by simp
  have lim: "unat a + length (le_bytes 8 (unat w)) < 2 ^ 64" using assms by simp
  obtain s' where w: "virt_write a (le_bytes 8 (unat w)) s = Some s'" "fills V (unat a) (unat a + length (le_bytes 8 (unat w))) s s'"
    "mem_read (view s') a (length (le_bytes 8 (unat w))) = le_bytes 8 (unat w)"
    by (rule fills_write [OF assms(1,2) r lim])
  have "le_val (le_bytes 8 (unat w)) = unat w" by (rule le_val_bytes) simp
  then have "rd64 (view s') a = w" using w(3) by (simp add: rd64_def)
  then show thesis using that [of s'] w(1,2) by (simp add: store64_def)
qed

lemma fills_rd64:
  assumes "fills V lo' hi' s s'" and "region lo hi \<subseteq> V" and "lo \<le> unat a" and "unat a + 8 \<le> hi" and "hi < 2 ^ 64"
    and "unat a + 8 \<le> lo' \<or> hi' \<le> unat a"
  shows "rd64 (view s') a = rd64 (view s) a"
proof -
  have "range_in a 8 (region lo hi)" by (rule region_range) (use assms in simp_all)
  then have "range_in a 8 V" by (rule range_in_mono [OF _ assms(2)])
  then show ?thesis using fills_read [OF assms(1), of a 8] assms by (simp add: rd64_def)
qed

lemma unat_down: "n \<le> unat sp \<Longrightarrow> unat (sp - of_nat n :: u64) = unat sp - n"
proof -
  assume n: "n \<le> unat sp"
  then have "unat (of_nat n :: u64) = n" by (intro unat_of_nat_small) (rule le_less_trans [OF n], simp)
  then show ?thesis using n by (simp add: unat_sub_le unat_le_iff)
qed

lemma push_words_run:
  "space_ok s \<Longrightarrow> owned s V \<Longrightarrow> region lo hi \<subseteq> V \<Longrightarrow> lo + 8 * length ws \<le> unat sp \<Longrightarrow> unat sp \<le> hi \<Longrightarrow> hi < 2 ^ 64 \<Longrightarrow>
     \<exists>s'. push_words ws sp s = Some (sp - of_nat (8 * length ws), s') \<and> fills V (unat sp - 8 * length ws) (unat sp) s s' \<and>
       (\<forall>i < length ws. rd64 (view s') (sp - of_nat (8 * length ws) + of_nat (8 * i)) = ws ! i)"
proof (induction ws)
  case (Cons w ws)
  let ?n = "8 * length ws"
  define sp1 where "sp1 = sp - of_nat ?n"
  have "lo + ?n \<le> unat sp" using Cons.prems(4) by simp
  from Cons.IH [OF Cons.prems(1-3) this Cons.prems(5,6), folded sp1_def]
  obtain s1 where 1: "push_words ws sp s = Some (sp1, s1)" "fills V (unat sp - ?n) (unat sp) s s1"
    "\<forall>i < length ws. rd64 (view s1) (sp1 + of_nat (8 * i)) = ws ! i" by (elim exE conjE) (rule that; assumption)
  have u1: "unat sp1 = unat sp - ?n" unfolding sp1_def by (rule unat_down) (use Cons.prems(4) in simp)
  have u2: "unat (sp1 - 8) = unat sp - ?n - 8"
    using unat_down [of 8 sp1] u1 Cons.prems(4) by simp
  have "lo \<le> unat (sp1 - 8)" "unat (sp1 - 8) + 8 \<le> hi" unfolding u2 using Cons.prems(4,5) by simp_all
  note rg = Cons.prems(3) this Cons.prems(6)
  obtain s2 where 2: "store64 (sp1 - 8) w s1 = Some s2" "fills V (unat (sp1 - 8)) (unat (sp1 - 8) + 8) s1 s2"
    "rd64 (view s2) (sp1 - 8) = w"
    by (rule store64_run [OF fills_kept [OF 1(2) Cons.prems(1,2)] rg])
  have sp': "sp - of_nat (8 * length (w # ws)) = sp1 - 8" by (simp add: sp1_def algebra_simps)
  have "rd64 (view s2) (sp1 - 8 + of_nat (8 * i)) = (w # ws) ! i" if "i < length (w # ws)" for i
  proof (cases i)
    case 0
    then show ?thesis using 2(3) by simp
  next
    case (Suc j)
    then have j: "j < length ws" using that by simp
    have "unat (of_nat (8 * j) :: u64) = 8 * j"
      by (rule unat_of_nat_small) (use j Cons.prems(4-6) in simp)
    then have uj: "unat (sp1 + of_nat (8 * j)) = unat sp - ?n + 8 * j"
      using u1 j Cons.prems(4-6) by (subst unat_add_small) simp_all
    have n: "?n + 8 \<le> unat sp" using Cons.prems(4) by simp
    then have "unat (sp1 - 8) + 8 \<le> unat (sp1 + of_nat (8 * j))" unfolding uj u2 by linarith
    then have "rd64 (view s2) (sp1 + of_nat (8 * j)) = rd64 (view s1) (sp1 + of_nat (8 * j))"
      by (intro fills_rd64 [OF 2(2) Cons.prems(3) _ _ Cons.prems(6)] disjI2) (use uj j Cons.prems(4,5) in simp_all)
    then show ?thesis using 1(3) j Suc by (simp add: algebra_simps)
  qed
  moreover have "fills V (unat sp - 8 * length (w # ws)) (unat sp) s s2"
    by (rule fills_trans [OF 1(2) Cons.prems(1) 2(2)]) (use u2 Cons.prems(4) in simp_all)
  ultimately show ?case using 1(1) 2(1) unfolding sp' by (simp add: Let_def)
qed simp

lemma push_aux_run:
  assumes "space_ok s" and "owned s V" and "region lo hi \<subseteq> V" and "lo + 16 \<le> unat sp" and "unat sp \<le> hi" and "hi < 2 ^ 64"
    and "unat sp mod 16 = 0"
  obtains s' where "push_aux key v sp s = Some (sp - 16, s')" and "fills V (unat sp - 16) (unat sp) s s'"
    and "rd64 (view s') (sp - 16) = key" and "rd64 (view s') (sp - 16 + 8) = v"
proof -
  have u: "unat (sp - 16) = unat sp - 16" using unat_down [of 16 sp] assms(4) by simp
  then have u8: "unat (sp - 16 + 8) = unat sp - 8" using assms(4-6) by (subst unat_add_small) simp_all
  have "16 dvd unat sp - 16" using assms(7) by (intro dvd_diff_nat) (auto simp: dvd_eq_mod_eq_0)
  then have "unat (align16 (sp - 16)) = unat (sp - 16)" unfolding unat_align16 u by (rule dvd_div_mult_self)
  then have al: "align16 (sp - 16) = sp - 16" by (simp only: unat_eq_iff)
  have b: "lo \<le> unat (sp - 16 + 8)" "unat (sp - 16 + 8) + 8 \<le> hi" "lo \<le> unat (sp - 16)" "unat (sp - 16) + 8 \<le> hi"
    unfolding u u8 using assms(4,5) by simp_all
  obtain s1 where 1: "store64 (sp - 16 + 8) v s = Some s1" "fills V (unat (sp - 16 + 8)) (unat (sp - 16 + 8) + 8) s s1"
    "rd64 (view s1) (sp - 16 + 8) = v"
    by (rule store64_run [OF assms(1-3) b(1,2) assms(6)])
  obtain s2 where 2: "store64 (sp - 16) key s1 = Some s2" "fills V (unat (sp - 16)) (unat (sp - 16) + 8) s1 s2"
    "rd64 (view s2) (sp - 16) = key"
    by (rule store64_run [OF fills_kept [OF 1(2) assms(1,2)] assms(3) b(3,4) assms(6)])
  have "unat (sp - 16) + 8 \<le> unat (sp - 16 + 8)" unfolding u u8 using assms(4) by linarith
  then have "rd64 (view s2) (sp - 16 + 8) = v"
    unfolding 1(3) [symmetric] by (intro fills_rd64 [OF 2(2) assms(3) b(1,2) assms(6)] disjI2)
  moreover have "fills V (unat sp - 16) (unat sp) s s2"
    by (rule fills_trans [OF 1(2) assms(1) 2(2)]) (use u u8 assms(4) in simp_all)
  moreover have "push_aux key v sp s = Some (sp - 16, s2)" using 1(1) 2(1) by (simp add: push_aux_def al Let_def)
  ultimately show thesis using that 2(3) by blast
qed


section \<open>The layout of the stack\<close>

text \<open>A table of pointers to strings, ended by a null pointer.\<close>

definition strings_at :: "memory \<Rightarrow> u64 \<Rightarrow> u8 list list \<Rightarrow> bool" where
  "strings_at m table strs \<longleftrightarrow>
     (\<forall>i < length strs. mem_read m (rd64 m (table + of_nat (8 * i))) (length (strs ! i) + 1) = strs ! i @ [0]) \<and>
     rd64 m (table + of_nat (8 * length strs)) = 0"

text \<open>The auxiliary vector: the page size, sixteen bytes that pass for random, the end.\<close>

definition auxv_at :: "memory \<Rightarrow> u64 \<Rightarrow> bool" where
  "auxv_at m aux \<longleftrightarrow> rd64 m aux = 6 \<and> rd64 m (aux + 8) = 4096 \<and> rd64 m (aux + 16) = 25 \<and>
     mem_read m (rd64 m (aux + 24)) 16 = random_seed \<and> rd64 m (aux + 32) = 0 \<and> rd64 m (aux + 40) = 0"

definition stack_frame :: "memory \<Rightarrow> user_stack \<Rightarrow> u8 list list \<Rightarrow> u8 list list \<Rightarrow> bool" where
  "stack_frame m us args env \<longleftrightarrow>
     us_argc us = of_nat (length args) \<and> rd64 m (us_sp us) = of_nat (length args) \<and>
     us_argv us = us_sp us + 8 \<and> strings_at m (us_argv us) args \<and>
     us_envp us = us_argv us + of_nat (8 * (length args + 1)) \<and> strings_at m (us_envp us) env \<and>
     auxv_at m (us_envp us + of_nat (8 * (length env + 1)))"

lemma fills_kept_reads:
  assumes "fills V lo' hi' s s'" and "region lo hi \<subseteq> V" and "lo \<le> hi'" and "hi' \<le> unat a" and "unat a + n \<le> hi" and "hi < 2 ^ 64"
  shows "mem_read (view s') a n = mem_read (view s) a n"
proof -
  have "range_in a n (region lo hi)" by (rule region_range) (use assms in simp_all)
  then have "range_in a n V" by (rule range_in_mono [OF _ assms(2)])
  then show ?thesis using fills_read [OF assms(1)] assms by simp
qed

text \<open>The auxiliary vector, pushed from an aligned pointer.\<close>

lemma push_auxv_run:
  assumes "space_ok s" and "owned s V" and "region lo hi \<subseteq> V" and "lo + 48 \<le> unat r" and "unat r + 16 \<le> hi" and "hi < 2 ^ 64"
    and "unat r mod 16 = 0" and "mem_read (view s) r 16 = random_seed"
  obtains s1 s2 s3 where "push_aux 0 0 r s = Some (r - 16, s1)" and "push_aux 25 r (r - 16) s1 = Some (r - 32, s2)"
    and "push_aux 6 4096 (r - 32) s2 = Some (r - 48, s3)" and "fills V (unat r - 48) (unat r) s s3"
    and "auxv_at (view s3) (r - 48)" and "rd64 (view s3) (r - 24) = r"
proof -
  have u: "unat (r - of_nat n) = unat r - n" if "n \<le> 48" for n using assms(4) that by (intro unat_down) simp
  have m: "(unat r - 16) mod 16 = 0" "(unat r - 32) mod 16 = 0"
    using assms(4,7) by (auto simp: dvd_eq_mod_eq_0 [symmetric] intro!: dvd_diff_nat)
  have e: "unat (r - 16) = unat r - 16" "unat (r - 32) = unat r - 32" "unat (r - 48) = unat r - 48"
    using u [of 16] u [of 32] u [of 48] by simp_all
  obtain s1 where 1: "push_aux 0 0 r s = Some (r - 16, s1)" "fills V (unat r - 16) (unat r) s s1"
    "rd64 (view s1) (r - 16) = 0" "rd64 (view s1) (r - 16 + 8) = 0"
    by (rule push_aux_run [OF assms(1-3) _ _ assms(6,7), of 0 0]) (use assms in simp_all)
  note k1 = fills_kept [OF 1(2) assms(1,2)]
  obtain s2 where 2: "push_aux 25 r (r - 16) s1 = Some (r - 16 - 16, s2)" "fills V (unat (r - 16) - 16) (unat (r - 16)) s1 s2"
    "rd64 (view s2) (r - 16 - 16) = 25" "rd64 (view s2) (r - 16 - 16 + 8) = r"
    by (rule push_aux_run [OF k1 assms(3) _ _ assms(6), of "r - 16" 25 r]) (use assms e m in simp_all)
  note k2 = fills_kept [OF 2(2) k1]
  obtain s3 where 3: "push_aux 6 4096 (r - 32) s2 = Some (r - 32 - 16, s3)" "fills V (unat (r - 32) - 16) (unat (r - 32)) s2 s3"
    "rd64 (view s3) (r - 32 - 16) = 6" "rd64 (view s3) (r - 32 - 16 + 8) = 4096"
    by (rule push_aux_run [OF k2 assms(3) _ _ assms(6), of "r - 32" 6 4096]) (use assms e m in simp_all)
  have 13: "fills V (unat r - 48) (unat (r - 16)) s1 s3"
    by (rule fills_trans [OF 2(2) k1(1) 3(2)]) (use e in simp_all)
  have 03: "fills V (unat r - 48) (unat r) s s3"
    by (rule fills_trans [OF 1(2) assms(1) 13]) (use e in simp_all)
  have at: "unat (r - 8) = unat r - 8" "unat (r - 24) = unat r - 24" using u [of 8] u [of 24] by simp_all
  have "rd64 (view s3) (r - 32) = rd64 (view s2) (r - 32)" "rd64 (view s3) (r - 32 + 8) = rd64 (view s2) (r - 32 + 8)"
    using fills_kept_reads [OF 3(2) assms(3) _ _ _ assms(6), of _ 8] e at assms(4,5) by (simp_all add: rd64_def)
  moreover have "rd64 (view s3) (r - 16) = rd64 (view s1) (r - 16)" "rd64 (view s3) (r - 16 + 8) = rd64 (view s1) (r - 16 + 8)"
    using fills_kept_reads [OF 13 assms(3) _ _ _ assms(6), of _ 8] e at assms(4,5) by (simp_all add: rd64_def)
  moreover have "mem_read (view s3) r 16 = random_seed"
    unfolding assms(8) [symmetric] by (rule fills_kept_reads [OF 03 assms(3) _ _ _ assms(6)]) (use assms(4,5) in simp_all)
  ultimately have "auxv_at (view s3) (r - 48) \<and> rd64 (view s3) (r - 24) = r"
    using 1(3,4) 2(3,4) 3(3,4) by (simp add: auxv_at_def algebra_simps)
  then show thesis using that 1(1) 2(1) 3(1) 03 by (simp add: algebra_simps)
qed


lemma strings_atI:
  assumes "\<forall>i < length (ptrs @ [0]). rd64 m (table + of_nat (8 * i)) = (ptrs @ [0]) ! i" and "length ptrs = length strs"
    and "\<forall>i < length strs. mem_read m (ptrs ! i) (length (strs ! i) + 1) = strs ! i @ [0]"
  shows "strings_at m table strs"
proof -
  have "rd64 m (table + of_nat (8 * i)) = ptrs ! i" if "i < length strs" for i
    using assms(1) [rule_format, of i] that assms(2) by (simp add: nth_append)
  moreover have "rd64 m (table + of_nat (8 * length strs)) = 0"
    using assms(1) [rule_format, of "length strs"] assms(2) by (simp add: nth_append)
  ultimately show ?thesis using assms(3) by (simp add: strings_at_def)
qed

text \<open>The three tables below the auxiliary vector, pushed from \<open>aux\<close> downwards.\<close>

lemma push_tables_run:
  assumes "space_ok s" and "owned s V" and "region lo hi \<subseteq> V" and "unat aux \<le> hi" and "hi < 2 ^ 64"
    and "lo + 8 * (length es + length as + 3) \<le> unat aux"
  obtains sp s1 s2 s3 where "push_words (es @ [0]) aux s = Some (sp + 8 + of_nat (8 * (length as + 1)), s1)"
    and "push_words (as @ [0]) (sp + 8 + of_nat (8 * (length as + 1))) s1 = Some (sp + 8, s2)"
    and "push_words [c] (sp + 8) s2 = Some (sp, s3)"
    and "aux = sp + 8 + of_nat (8 * (length as + 1)) + of_nat (8 * (length es + 1))"
    and "unat sp = unat aux - 8 * (length es + length as + 3)" and "fills V (unat sp) (unat aux) s s3"
    and "rd64 (view s3) sp = c"
    and "\<forall>i < length (as @ [0]). rd64 (view s3) (sp + 8 + of_nat (8 * i)) = (as @ [0]) ! i"
    and "\<forall>i < length (es @ [0]). rd64 (view s3) (sp + 8 + of_nat (8 * (length as + 1)) + of_nat (8 * i)) = (es @ [0]) ! i"
proof -
  define et where "et = aux - of_nat (8 * length (es @ [0]))"
  define at where "at = et - of_nat (8 * length (as @ [0]))"
  define sp where "sp = at - 8"
  have ue: "unat et = unat aux - 8 * length (es @ [0])" unfolding et_def by (rule unat_down) (use assms(6) in simp)
  have ua: "unat at = unat et - 8 * length (as @ [0])" unfolding at_def by (rule unat_down) (use assms(6) ue in simp)
  have us: "unat sp = unat at - 8" unfolding sp_def using unat_down [of 8 at] ua ue assms(6) by simp
  have pe: "lo + 8 * length (es @ [0]) \<le> unat aux" using assms(6) by simp
  have pa: "lo + 8 * length (as @ [0]) \<le> unat et" "unat et \<le> hi" using assms(4,6) ue by auto
  have pc: "lo + 8 * length [c] \<le> unat at" "unat at \<le> hi" using assms(4,6) ue ua by auto
  from push_words_run [OF assms(1-3) pe assms(4,5), folded et_def]
  obtain s1 where 1: "push_words (es @ [0]) aux s = Some (et, s1)" "fills V (unat aux - 8 * length (es @ [0])) (unat aux) s s1"
    "\<forall>i < length (es @ [0]). rd64 (view s1) (et + of_nat (8 * i)) = (es @ [0]) ! i" by (elim exE conjE) (rule that)
  note k1 = fills_kept [OF 1(2) assms(1,2)]
  from push_words_run [OF k1 assms(3) pa assms(5), folded at_def]
  obtain s2 where 2: "push_words (as @ [0]) et s1 = Some (at, s2)" "fills V (unat et - 8 * length (as @ [0])) (unat et) s1 s2"
    "\<forall>i < length (as @ [0]). rd64 (view s2) (at + of_nat (8 * i)) = (as @ [0]) ! i" by (elim exE conjE) (rule that)
  note k2 = fills_kept [OF 2(2) k1]
  obtain s3 where 3: "push_words [c] at s2 = Some (sp, s3)" "fills V (unat at - 8) (unat at) s2 s3" "rd64 (view s3) sp = c"
    using push_words_run [OF k2 assms(3) pc assms(5)] by (auto simp: sp_def)
  have 13: "fills V (unat sp) (unat et) s1 s3" by (rule fills_trans [OF 2(2) k1(1) 3(2)]) (use us ua in simp_all)
  have 03: "fills V (unat sp) (unat aux) s s3" by (rule fills_trans [OF 1(2) assms(1) 13]) (use us ua ue in simp_all)
  have step: "rd64 (view s3) (b + of_nat (8 * i)) = rd64 (view s') (b + of_nat (8 * i))"
    if "fills V lo' hi' s' s3" "hi' \<le> unat b" "lo \<le> hi'" "unat b + 8 * n \<le> hi" "i < n" for b i n lo' hi' and s' :: "'a kpaging_scheme"
  proof -
    have "unat (of_nat (8 * i) :: u64) = 8 * i" by (rule unat_of_nat_small) (use that assms(5) in simp)
    then have u: "unat (b + of_nat (8 * i)) = unat b + 8 * i" using that assms(5) by (subst unat_add_small) simp_all
    show ?thesis
      unfolding rd64_def by (subst fills_kept_reads [OF that(1) assms(3) that(3) _ _ assms(5)]) (use u that in simp_all)
  qed
  have eq: "sp + 8 = at" "at + of_nat (8 * (length as + 1)) = et" "et + of_nat (8 * (length es + 1)) = aux"
    by (simp_all add: sp_def at_def et_def)
  have ras: "\<forall>i < length (as @ [0]). rd64 (view s3) (at + of_nat (8 * i)) = (as @ [0]) ! i"
  proof (intro allI impI)
    fix i assume i: "i < length (as @ [0])"
    show "rd64 (view s3) (at + of_nat (8 * i)) = (as @ [0]) ! i"
      using step [OF 3(2) _ _ _ i] 2(3) i pc ua pa by simp
  qed
  have res: "\<forall>i < length (es @ [0]). rd64 (view s3) (et + of_nat (8 * i)) = (es @ [0]) ! i"
  proof (intro allI impI)
    fix i assume i: "i < length (es @ [0])"
    show "rd64 (view s3) (et + of_nat (8 * i)) = (es @ [0]) ! i"
      using step [OF 13 _ _ _ i] 1(3) i ue pa pe assms(4) by simp
  qed
  show thesis
  proof (rule that [of sp s1 s2 s3, unfolded eq, OF 1(1) 2(1) 3(1) refl _ 03 3(3) ras res])
    show "unat sp = unat aux - 8 * (length es + length as + 3)" using us ua ue by simp
  qed
qed


lemma room_bound: "\<forall>t \<in> set strs. length t \<le> 255 \<Longrightarrow> room strs \<le> 271 * length strs"
  by (induction strs) auto

text \<open>Everything that is pushed once the pages of the stack are there.\<close>

definition push_all :: "u8 list list \<Rightarrow> u8 list list \<Rightarrow> 'a kpaging_scheme \<Rightarrow> (user_stack \<times> 'a kpaging_scheme) option" where
  "push_all args env s1 =
     do { (envp_ptrs, sp2, s2) \<leftarrow> push_strings env USER_STACK_TOP s1;
          (argv_ptrs, sp3, s3) \<leftarrow> push_strings args sp2 s2;
          let random_ptr = align16 (sp3 - 16);
          s4 \<leftarrow> virt_write random_ptr random_seed s3;
          (sp5, s5) \<leftarrow> push_aux 0 0 random_ptr s4;
          (sp6, s6) \<leftarrow> push_aux 25 random_ptr sp5 s5;
          (sp7, s7) \<leftarrow> push_aux 6 4096 sp6 s6;
          (envp_table, s8) \<leftarrow> push_words (envp_ptrs @ [0]) sp7 s7;
          (argv_table, s9) \<leftarrow> push_words (argv_ptrs @ [0]) envp_table s8;
          (sp, s10) \<leftarrow> push_words [of_nat (length args)] argv_table s9;
          Some (\<lparr>us_sp = sp, us_argc = of_nat (length args), us_argv = argv_table, us_envp = envp_table\<rparr>, s10) }"

lemma push_top_run:
  assumes ok: "space_ok s" "owned s V" and V: "region 0x7FEE0000 0x7FF01000 \<subseteq> V"
    and len: "length args \<le> 15" "length env \<le> 15" "\<forall>t \<in> set args. length t \<le> 255" "\<forall>t \<in> set env. length t \<le> 255"
  obtains es as sp2 s2 sp3 s3 r s4 s5 s6 s7 where "push_strings env USER_STACK_TOP s = Some (es, sp2, s2)"
    and "push_strings args sp2 s2 = Some (as, sp3, s3)" and "r = align16 (sp3 - 16)" and "virt_write r random_seed s3 = Some s4"
    and "push_aux 0 0 r s4 = Some (r - 16, s5)" and "push_aux 25 r (r - 16) s5 = Some (r - 32, s6)"
    and "push_aux 6 4096 (r - 32) s6 = Some (r - 48, s7)" and "fills V (unat (r - 48)) 0x7FF00000 s s7"
    and "0x7FEE0000 + 552 \<le> unat (r - 48)" and "unat (r - 48) + 64 \<le> 0x7FF00000" and "length es = length env" and "length as = length args"
    and "\<forall>i < length env. unat (r - 48) \<le> unat (es ! i) \<and> unat (es ! i) + (length (env ! i) + 1) \<le> 0x7FF00000 \<and>
       mem_read (view s7) (es ! i) (length (env ! i) + 1) = env ! i @ [0]"
    and "\<forall>i < length args. unat (r - 48) \<le> unat (as ! i) \<and> unat (as ! i) + (length (args ! i) + 1) \<le> 0x7FF00000 \<and>
       mem_read (view s7) (as ! i) (length (args ! i) + 1) = args ! i @ [0]"
    and "auxv_at (view s7) (r - 48)" and "rd64 (view s7) (r - 24) = r"
proof -
  let ?lo = "0x7FEE0000 :: nat" and ?hi = "0x7FF01000 :: nat" and ?top = "0x7FF00000 :: nat"
  have hi: "?hi < 2 ^ 64" by simp
  have re: "room env \<le> 4065" and ra: "room args \<le> 4065" using room_bound [OF len(4)] room_bound [OF len(3)] len(1,2) by linarith+
  have top: "unat USER_STACK_TOP = ?top" by simp
  have p1: "?lo + room env \<le> unat USER_STACK_TOP" "unat USER_STACK_TOP \<le> ?hi" using re top by simp_all
  from push_strings_run [OF ok V p1 hi, unfolded top]
  obtain es sp2 s2 where 2: "push_strings env USER_STACK_TOP s = Some (es, sp2, s2)" "fills V (unat sp2) ?top s s2"
    "unat sp2 \<le> ?top" "?top \<le> unat sp2 + room env" "?top mod 16 = 0 \<longrightarrow> unat sp2 mod 16 = 0"
    "length es = length env" "\<forall>i < length env. unat sp2 \<le> unat (es ! i) \<and> unat (es ! i) + length (env ! i) < ?top \<and>
       mem_read (view s2) (es ! i) (length (env ! i) + 1) = env ! i @ [0]" by (elim exE conjE) (rule that)
  note k2 = fills_kept [OF 2(2) ok]
  have p2: "?lo + room args \<le> unat sp2" "unat sp2 \<le> ?hi" using re ra 2(3,4) by linarith+
  from push_strings_run [OF k2 V p2 hi]
  obtain as sp3 s3 where 3: "push_strings args sp2 s2 = Some (as, sp3, s3)" "fills V (unat sp3) (unat sp2) s2 s3"
    "unat sp3 \<le> unat sp2" "unat sp2 \<le> unat sp3 + room args" "unat sp2 mod 16 = 0 \<longrightarrow> unat sp3 mod 16 = 0"
    "length as = length args" "\<forall>i < length args. unat sp3 \<le> unat (as ! i) \<and> unat (as ! i) + length (args ! i) < unat sp2 \<and>
       mem_read (view s3) (as ! i) (length (args ! i) + 1) = args ! i @ [0]" by (elim exE conjE) (rule that)
  note k3 = fills_kept [OF 3(2) k2]
  define r where "r = align16 (sp3 - of_nat 16)"
  have b3: "16 \<le> unat sp3" using re ra 2(4) 3(4) by linarith
  note al = align16_below [OF b3, folded r_def]
  have ur: "?lo + 600 \<le> unat r" "unat r + 16 \<le> ?hi" using al re ra 2(3,4) 3(3,4) by linarith+
  have seed: "length random_seed = 16" by (simp add: random_seed_def)
  have "range_in r 16 (region ?lo ?hi)" by (rule region_range) (use ur in simp_all)
  then have rr: "range_in r (length random_seed) V" unfolding seed by (rule range_in_mono [OF _ V])
  obtain s4 where 4: "virt_write r random_seed s3 = Some s4" "fills V (unat r) (unat r + 16) s3 s4"
    "mem_read (view s4) r 16 = random_seed"
    using fills_write [OF k3 rr] ur unfolding seed by auto
  note k4 = fills_kept [OF 4(2) k3]
  have "?lo + 48 \<le> unat r" using ur by simp
  then obtain s5 s6 s7 where 7: "push_aux 0 0 r s4 = Some (r - 16, s5)" "push_aux 25 r (r - 16) s5 = Some (r - 32, s6)"
    "push_aux 6 4096 (r - 32) s6 = Some (r - 48, s7)" "fills V (unat r - 48) (unat r) s4 s7" "auxv_at (view s7) (r - 48)"
    "rd64 (view s7) (r - 24) = r"
    using push_auxv_run [OF k4 V _ ur(2) hi al(3) 4(3)] by blast
  have u7: "unat (r - 48) = unat r - 48" using unat_down [of 48 r] ur by simp
  have f4: "fills V (unat (r - 48)) (unat sp3) s3 s7"
    by (rule fills_trans [OF 4(2) k3(1) 7(4), unfolded seed]) (use u7 al(1) in simp_all)
  have f2: "fills V (unat (r - 48)) (unat sp2) s2 s7"
    by (rule fills_trans [OF 3(2) k2(1) f4]) (use u7 al(1) 3(3) in simp_all)
  have f1: "fills V (unat (r - 48)) ?top s s7"
    by (rule fills_trans [OF 2(2) ok(1) f2]) (use u7 al(1) 2(3) 3(3) in simp_all)
  have e: "unat (r - 48) \<le> unat (es ! i) \<and> unat (es ! i) + (length (env ! i) + 1) \<le> ?top \<and>
      mem_read (view s7) (es ! i) (length (env ! i) + 1) = env ! i @ [0]" if "i < length env" for i
    using fills_kept_reads [OF f2 V _ _ _ hi, of "es ! i" "length (env ! i) + 1"] 2(3,7) that p2 u7 al(1) 3(3) by auto
  have a: "unat (r - 48) \<le> unat (as ! i) \<and> unat (as ! i) + (length (args ! i) + 1) \<le> ?top \<and>
      mem_read (view s7) (as ! i) (length (args ! i) + 1) = args ! i @ [0]" if "i < length args" for i
    using fills_kept_reads [OF f4 V _ _ _ hi, of "as ! i" "length (args ! i) + 1"] 2(3) 3(3,7) that p2 ur u7 al(1) by auto
  have "?lo + 552 \<le> unat (r - 48)" "unat (r - 48) + 64 \<le> ?top" using ur u7 al(1) 2(3) 3(3) by simp_all
  moreover have "r = align16 (sp3 - 16)" by (simp add: r_def)
  ultimately show thesis using that [OF 2(1) 3(1) _ 4(1) 7(1-3) f1 _ _ 2(6) 3(6) _ _ 7(5,6)] e a by blast
qed

lemma push_all_run:
  assumes ok: "space_ok s" "owned s V" and V: "region 0x7FEE0000 0x7FF01000 \<subseteq> V"
    and len: "length args \<le> 15" "length env \<le> 15" "\<forall>t \<in> set args. length t \<le> 255" "\<forall>t \<in> set env. length t \<le> 255"
  obtains us s' where "push_all args env s = Some (us, s')" and "fills V 0x7FEE0000 0x7FF00000 s s'" and "us_sp us \<noteq> 0"
    and "stack_frame (view s') us args env"
proof (rule push_top_run [OF assms])
  let ?lo = "0x7FEE0000 :: nat" and ?hi = "0x7FF01000 :: nat" and ?top = "0x7FF00000 :: nat"
  fix es as sp2 s2 sp3 s3 r s4 s5 s6 s7
  assume pushed: "push_strings env USER_STACK_TOP s = Some (es, sp2, s2)" "push_strings args sp2 s2 = Some (as, sp3, s3)"
      "r = align16 (sp3 - 16)" "virt_write r random_seed s3 = Some s4" "push_aux 0 0 r s4 = Some (r - 16, s5)"
      "push_aux 25 r (r - 16) s5 = Some (r - 32, s6)" "push_aux 6 4096 (r - 32) s6 = Some (r - 48, s7)"
    and f7: "fills V (unat (r - 48)) ?top s s7" and b: "?lo + 552 \<le> unat (r - 48)" "unat (r - 48) + 64 \<le> ?top"
    and n: "length es = length env" "length as = length args"
    and e: "\<forall>i < length env. unat (r - 48) \<le> unat (es ! i) \<and> unat (es ! i) + (length (env ! i) + 1) \<le> ?top \<and>
       mem_read (view s7) (es ! i) (length (env ! i) + 1) = env ! i @ [0]"
    and a: "\<forall>i < length args. unat (r - 48) \<le> unat (as ! i) \<and> unat (as ! i) + (length (args ! i) + 1) \<le> ?top \<and>
       mem_read (view s7) (as ! i) (length (args ! i) + 1) = args ! i @ [0]"
    and aux: "auxv_at (view s7) (r - 48)" "rd64 (view s7) (r - 24) = r"
  have hi: "?hi < 2 ^ 64" by simp
  have p7: "unat (r - 48) \<le> ?hi" using b by simp
  have "length es + length as + 3 \<le> 33" using n len(1,2) by linarith
  then have "8 * (length es + length as + 3) \<le> 552" by simp
  then have p8: "?lo + 8 * (length es + length as + 3) \<le> unat (r - 48)" using b(1) by (meson add_left_mono order_trans)
  obtain sp s8 s9 s10 where 10: "push_words (es @ [0]) (r - 48) s7 = Some (sp + 8 + of_nat (8 * (length as + 1)), s8)"
    "push_words (as @ [0]) (sp + 8 + of_nat (8 * (length as + 1))) s8 = Some (sp + 8, s9)"
    "push_words [of_nat (length args)] (sp + 8) s9 = Some (sp, s10)"
    "r - 48 = sp + 8 + of_nat (8 * (length as + 1)) + of_nat (8 * (length es + 1))"
    "unat sp = unat (r - 48) - 8 * (length es + length as + 3)" "fills V (unat sp) (unat (r - 48)) s7 s10"
    "rd64 (view s10) sp = of_nat (length args)"
    "\<forall>i < length (as @ [0]). rd64 (view s10) (sp + 8 + of_nat (8 * i)) = (as @ [0]) ! i"
    "\<forall>i < length (es @ [0]). rd64 (view s10) (sp + 8 + of_nat (8 * (length as + 1)) + of_nat (8 * i)) = (es @ [0]) ! i"
    by (rule push_tables_run [OF fills_kept [OF f7 ok] V p7 hi p8, of "of_nat (length args)"])
  define us where "us = \<lparr>us_sp = sp, us_argc = of_nat (length args), us_argv = sp + 8, us_envp = sp + 8 + of_nat (8 * (length as + 1))\<rparr>"
  have run: "push_all args env s = Some (us, s10)"
    using pushed 10(1-3) by (simp add: push_all_def us_def del: push_words.simps)
  have usp: "?lo \<le> unat sp" "unat sp \<le> unat (r - 48)" using 10(5) p8 by simp_all
  have f1: "fills V ?lo ?top s s10" by (rule fills_trans [OF f7 ok(1) 10(6)]) (use usp b in simp_all)
  note rd = fills_kept_reads [OF 10(6) V _ _ _ hi]
  have "mem_read (view s10) (es ! i) (length (env ! i) + 1) = env ! i @ [0]" if "i < length env" for i
    using e [rule_format, OF that] by (subst rd) (use usp b in simp_all)
  then have E: "strings_at (view s10) (sp + 8 + of_nat (8 * (length as + 1))) env" using strings_atI [OF 10(9) n(1)] by blast
  have "mem_read (view s10) (as ! i) (length (args ! i) + 1) = args ! i @ [0]" if "i < length args" for i
    using a [rule_format, OF that] by (subst rd) (use usp b in simp_all)
  then have A: "strings_at (view s10) (sp + 8) args" using strings_atI [OF 10(8) n(2)] by blast
  have w: "rd64 (view s10) (r - 48 + of_nat k) = rd64 (view s7) (r - 48 + of_nat k)" if "k \<le> 40" for k
  proof -
    have "unat (r - 48 + of_nat k) = unat (r - 48) + k"
      using that p7 by (subst unat_add_small) (simp_all add: unat_of_nat_small)
    then show ?thesis unfolding rd64_def by (subst rd) (use that usp b in simp_all)
  qed
  have "unat (r - 48 + 48) = unat (r - 48) + 48" using b by (subst unat_add_small) simp_all
  then have "mem_read (view s10) r 16 = mem_read (view s7) r 16" using rd [of r 16] usp b by simp
  then have "auxv_at (view s10) (r - 48)"
    using aux w [of 0] w [of 8] w [of 16] w [of 24] w [of 32] w [of 40] by (simp add: auxv_at_def)
  then have "stack_frame (view s10) us args env" using A E 10(4,7) n unfolding stack_frame_def us_def by simp
  moreover have "us_sp us \<noteq> 0" using usp(1) by (auto simp: us_def)
  ultimately show thesis using that [OF run f1] by blast
qed


section \<open>The property\<close>

lemma elf_build_stack_push:
  "elf_user_stack_init argv envp s =
     do { (r, s1) \<leftarrow> paging_map_user_range (USER_STACK_TOP - USER_STACK_SIZE) (USER_STACK_SIZE + PAGE_SIZE)
                       (PAGE_PRESENT OR PAGE_WRITABLE) s;
          if r \<noteq> 0 then Some (\<lparr>us_sp = 0, us_argc = 0, us_argv = 0, us_envp = 0\<rparr>, s1)
          else push_all (take 15 argv) (take 15 envp) s1 }"
  by (simp only: elf_user_stack_init_def elf_build_stack_def push_all_def Let_def)

definition stack_addrs :: "u64 set" where
  "stack_addrs = region 0x7FEE0000 0x7FF01000"

lemma stack_pages: "page_addrs (range_pages 0x7FEE0000 0x21000) = stack_addrs" "card (range_pages 0x7FEE0000 0x21000) = 33"
  "0x5000 \<notin> range_pages 0x7FEE0000 0x21000"
proof -
  have "0x7FEE0 \<le> n div 4096 \<and> n div 4096 < 0x7FF01 \<longleftrightarrow> 0x7FEE0000 \<le> n \<and> n < 0x7FF01000" for n :: nat
    by (simp add: div_less_iff_less_mult less_eq_div_iff_mult_less_eq)
  then show "page_addrs (range_pages 0x7FEE0000 0x21000) = stack_addrs"
    by (auto simp: page_addrs_def range_pages_def stack_addrs_def region_def)
qed (simp_all add: range_pages_def)



end
