(* ===== verification/SysMem.thy ===== *)
theory SysMem
  imports Syscall UserPages
begin

unbundle bit_operations_syntax

text \<open>
  The system calls that give a program memory, \<^verbatim>\<open>sys_brk\<close> and \<^verbatim>\<open>sys_mmap\<close> of \<^verbatim>\<open>core/syscall.c\<close>, against the view of
  user memory of \<open>UserPages\<close>.
\<close>

section \<open>The process table beside the page tables\<close>

text \<open>What the page tables say depends on the machine and the paging variables alone.\<close>

lemma paging_part:
  fixes s :: "'a kpaging_scheme" and s' :: "'b kpaging_scheme"
  assumes "kpaging.truncate s' = kpaging.truncate s"
  shows "space_ok s' = space_ok s" and "owned s' V = owned s V" and "view s' = view s" and "free_tables s' = free_tables s"
proof -
  have f: "mem s' = mem s" "cr3 s' = cr3 s" "pml4 s' = pml4 s" "frame_bitmap s' = frame_bitmap s"
    "total_frames s' = total_frames s" "kernel_end s' = kernel_end s" "stack_top s' = stack_top s"
    using assms by (simp_all add: kpaging.defs)
  have e: "get_entry t i s' = get_entry t i s" for t i by (simp add: get_entry_def f)
  have v: "paging_virt_to_phys v s' = paging_virt_to_phys v s" for v by (simp add: paging_virt_to_phys_def e Let_def f)
  have g: "paging_get_pt v s' = paging_get_pt v s" for v by (simp add: paging_get_pt_def e Let_def f)
  have t: "table_at s' p = table_at s p" for p by (induction p) (simp add: f, simp add: e split: option.split)
  have b: "bitmap_test i s' = bitmap_test i s" for i by (simp add: bitmap_test_def f)
  have u: "frame_used s' i = frame_used s i" for i by (simp add: frame_used_def b)
  have "frames_ok s' = frames_ok s" by (simp add: frames_ok_def b f)
  moreover have "pt_ok s' = pt_ok s" unfolding pt_ok_def t u e ..
  ultimately show "space_ok s' = space_ok s" by (simp add: space_ok_def window_ready_def g f)
  show "owned s' V = owned s V" by (simp add: owned_def user_byte_def table_frame_def t u v)
  show "view s' = view s" by (simp add: view_def fun_eq_iff v f)
  show "free_tables s' = free_tables s" by (simp add: free_tables_def u f)
qed

lemma on_task_space [simp]:
  "space_ok (on_task i f s) = space_ok s" "owned (on_task i f s) V = owned s V" "view (on_task i f s) = view s"
  "free_tables (on_task i f s) = free_tables s"
proof -
  have "kpaging.truncate (on_task i f s) = kpaging.truncate s" by (simp add: on_task_def kpaging.defs)
  note paging_part [OF this]
  then show "space_ok (on_task i f s) = space_ok s" "owned (on_task i f s) V = owned s V" "view (on_task i f s) = view s"
    "free_tables (on_task i f s) = free_tables s" by simp_all
qed

lemma keeps_tasks: "keeps V s s' \<Longrightarrow> tasks s' = tasks s" "keeps V s s' \<Longrightarrow> current_task s' = current_task s"
proof -
  assume "keeps V s s'"
  then have "kpaging.more s' = kpaging.more s" by (simp add: keeps_def)
  note f = proc_fields [OF proc_fields_paging [OF this]]
  show "tasks s' = tasks s" "current_task s' = current_task s" by (rule f)+
qed

section \<open>The break\<close>

lemma page_region: "unat b mod 4096 = 0 \<Longrightarrow> page_addrs {unat b div 4096} = region (unat b) (unat b + 4096)"
proof -
  assume "unat b mod 4096 = 0"
  then obtain k where k: "unat b = 4096 * k" by (auto simp: dvd_eq_mod_eq_0 [symmetric])
  have "n div 4096 = k \<longleftrightarrow> 4096 * k \<le> n \<and> n < 4096 * k + 4096" for n :: nat
    by (auto simp: div_less_iff_less_mult less_eq_div_iff_mult_less_eq le_antisym)
  then show ?thesis unfolding page_addrs_def region_def k by simp
qed

text \<open>One round of the loop: a fresh page at the break.\<close>

lemma brk_round:
  assumes ok: "space_ok s" and own: "owned s V" and V: "\<forall>v \<in> V. user_addr v"
    and b: "unat b mod 4096 = 0" "unat b + 4096 \<le> 2 ^ 47" and dis: "V \<inter> region (unat b) (unat b + 4096) = {}"
    and brk: "p_brk (task s p) = b" "b < addr"
  obtains s1 where "keeps V s s1" and "brk_loop p addr s = Some (False, s1)" and "card (free_tables s) < 5"
  | s1 where "keeps V s s1" and "owned s1 (V \<union> region (unat b) (unat b + 4096))"
    and "\<And>v. v \<in> region (unat b) (unat b + 4096) \<Longrightarrow> view s1 v = 0" and "card (free_tables s) \<le> card (free_tables s1) + 5"
    and "brk_loop p addr s = brk_loop p addr (on_task p (\<lambda>t. t\<lparr>p_brk := p_brk t + PAGE_SIZE\<rparr>) s1)"
proof -
  obtain f s1 where a: "paging_alloc_page s = (f, s1)" by fastforce
  note con = alloc_page_consumes [OF space_okD(2) [OF ok] a]
  let ?p = "unat b div 4096"
  have p: "?p < 2 ^ 35" using b(2) by (simp add: div_less_iff_less_mult)
  have base: "of_nat ?p * PAGE_SIZE = b"
    unfolding unat_eq_iff page_base(1) [OF p] using b(1) by (simp add: mod_eq_0_iff_dvd)
  note pg = page_region [OF b(1)]
  show thesis
  proof (cases "f = 0")
    case True
    then have "s1 = s" using alloc_page_fails [OF space_okD(2) [OF ok]] a by blast
    then have "brk_loop p addr s = Some (False, s)" using a True brk by (subst brk_loop.simps) simp
    then show thesis using that(1) [OF keeps_refl [OF ok]] con(2) True by force
  next
    case f0: False
    note al = alloc_fresh [OF ok a f0 bspec [OF V]]
    obtain s2 where z: "paging_clear_phys f PAGE_SIZE s1 = Some (0, s2)" "fresh_page V f s s2"
      using clear_frame_run [OF al(1-4)] al(5) by metis
    obtain r s3 where m: "paging_map_user_page (of_nat ?p * PAGE_SIZE) f (PAGE_PRESENT OR PAGE_WRITABLE) s2 = (r, s3)" by fastforce
    have fl: "user_flags (PAGE_PRESENT OR PAGE_WRITABLE)" by (simp add: user_flags_def pte_present_def)
    have dis': "V \<inter> page_addrs {?p} = {}" unfolding pg by (rule dis)
    note mf = map_fresh_page [OF own z(2) fl p bspec [OF V] dis' m, unfolded pg]
    have "keeps V s s2" using z(2) by (simp add: fresh_page_def)
    then have t2: "p_brk (task s2 p) = b" using brk(1) keeps_tasks(1) by metis
    note m' = m [unfolded base]
    show thesis
    proof (cases "r = 0")
      case True
      have "brk_loop p addr s = brk_loop p addr (on_task p (\<lambda>t. t\<lparr>p_brk := p_brk t + PAGE_SIZE\<rparr>) s3)"
        using a f0 z(1) m' t2 True brk by (subst brk_loop.simps) simp
      then show thesis using that(2) [of s3] mf(1,2,5) True by blast
    next
      case False
      then have "card (free_tables s) < 5" using mf(4) by fastforce
      moreover have "brk_loop p addr s = Some (False, paging_free_page f s3)"
        using a f0 z(1) m' t2 False brk by (subst brk_loop.simps) simp
      ultimately show thesis using that(1) [OF mf(3)] by blast
    qed
  qed
qed


lemma region_user: "0x5001000 \<le> lo \<Longrightarrow> hi \<le> 2 ^ 47 \<Longrightarrow> v \<in> region lo hi \<Longrightarrow> user_addr v"
proof -
  assume "0x5001000 \<le> lo" "hi \<le> 2 ^ 47" "v \<in> region lo hi"
  then have "unat v < 2 ^ 47" "0x5001 \<le> unat v div 4096" by (auto simp: region_def less_eq_div_iff_mult_less_eq)
  then show ?thesis by (simp add: user_addr_def)
qed

lemma region_empty [simp]: "region n n = {}"
  by (auto simp: region_def)

lemma region_split: "lo \<le> m \<Longrightarrow> m \<le> hi \<Longrightarrow> region lo hi = region lo m \<union> region m hi"
  by (auto simp: region_def)

lemma five_step: "5 * Suc k \<le> c \<Longrightarrow> c \<le> d + 5 \<Longrightarrow> 5 * k \<le> (d :: nat)"
  by simp

lemma brk_loop_run:
  assumes "unat addr + 4096 \<le> 2 ^ 47"
  shows "space_ok s \<Longrightarrow> owned s V \<Longrightarrow> (\<forall>v \<in> V. user_addr v) \<Longrightarrow> p < length (tasks s) \<Longrightarrow> p_brk (task s p) = b \<Longrightarrow>
     unat b mod 4096 = 0 \<Longrightarrow> 0x5001000 \<le> unat b \<Longrightarrow> V \<inter> region (unat b) (unat addr + 4096) = {} \<Longrightarrow>
     \<exists>ok s'. brk_loop p addr s = Some (ok, s') \<and> space_ok s' \<and> length (tasks s') = length (tasks s) \<and>
       owned s' (V \<union> region (unat b) (unat (p_brk (task s' p)))) \<and> (\<forall>v \<in> V. view s' v = view s v) \<and>
       (\<forall>v \<in> region (unat b) (unat (p_brk (task s' p))). view s' v = 0) \<and> unat b \<le> unat (p_brk (task s' p)) \<and>
       (ok \<longrightarrow> addr \<le> p_brk (task s' p)) \<and> (5 * ((unat addr + 4095 - unat b) div 4096) \<le> card (free_tables s) \<longrightarrow> ok)"
proof (induction "unat addr - unat b" arbitrary: b s V rule: less_induct)
  case less
  note brk = less.prems(5)
  show ?case
  proof (cases "b < addr")
    case False
    then have "brk_loop p addr s = Some (True, s)" using brk by (subst brk_loop.simps) simp
    then show ?thesis
      using less.prems False by (intro exI [of _ True] exI [of _ s]) auto
  next
    case True
    then have lt: "unat b < unat addr" by (simp add: unat_less_iff)
    then have b2: "unat b + 4096 \<le> 2 ^ 47" using assms by simp
    have dis: "V \<inter> region (unat b) (unat b + 4096) = {}" using less.prems(8) lt by (auto simp: region_def)
    have "(unat addr + 4095 - unat b) div 4096 = Suc ((unat addr + 4095 - unat b - 4096) div 4096)"
      by (rule le_div_geq) (use lt in simp_all)
    then have pages: "(unat addr + 4095 - unat b) div 4096 = Suc ((unat addr + 4095 - (unat b + 4096)) div 4096)" by simp
    from brk_round [OF less.prems(1-3,6) b2 dis brk True] show ?thesis
    proof cases
      case (1 s1)
      have "task s1 p = task s p" using keeps_tasks(1) [OF 1(1)] by simp
      moreover have "space_ok s1" using 1(1) by (simp add: keeps_def)
      ultimately show ?thesis
        using 1 brk pages keeps_tasks(1) [OF 1(1)] keeps_owned [OF 1(1) less.prems(2)]
        by (intro exI [of _ False] exI [of _ s1]) auto
    next
      case (2 s1)
      let ?s = "on_task p (\<lambda>t. t\<lparr>p_brk := p_brk t + PAGE_SIZE\<rparr>) s1" and ?V = "V \<union> region (unat b) (unat b + 4096)"
      have t: "tasks s1 = tasks s" by (rule keeps_tasks(1) [OF 2(1)])
      have b': "p_brk (task ?s p) = b + PAGE_SIZE" using t less.prems(4) brk by simp
      have ub: "unat (b + PAGE_SIZE) = unat b + 4096" using b2 by (simp add: unat_add_small)
      have "unat addr - unat (b + PAGE_SIZE) < unat addr - unat b" unfolding ub using lt by simp
      moreover have "space_ok ?s" "owned ?s ?V" "p < length (tasks ?s)" using 2(1,2) t less.prems(4) by (simp_all add: keeps_def)
      moreover have "\<forall>v \<in> ?V. user_addr v" using less.prems(3) region_user [OF less.prems(7) b2] by auto
      moreover have "unat (b + PAGE_SIZE) mod 4096 = 0" "0x5001000 \<le> unat (b + PAGE_SIZE)" unfolding ub using less.prems(6,7) by simp_all
      moreover have "?V \<inter> region (unat (b + PAGE_SIZE)) (unat addr + 4096) = {}" unfolding ub using less.prems(8) by (auto simp: region_def)
      ultimately obtain ok s' where r: "brk_loop p addr ?s = Some (ok, s')" "space_ok s'" "length (tasks s') = length (tasks s)"
        "owned s' (?V \<union> region (unat b + 4096) (unat (p_brk (task s' p))))" "\<forall>v \<in> ?V. view s' v = view ?s v"
        "\<forall>v \<in> region (unat b + 4096) (unat (p_brk (task s' p))). view s' v = 0" "unat b + 4096 \<le> unat (p_brk (task s' p))"
        "ok \<longrightarrow> addr \<le> p_brk (task s' p)"
        "5 * ((unat addr + 4095 - (unat b + 4096)) div 4096) \<le> card (free_tables s1) \<longrightarrow> ok"
        using less.hyps [OF _ _ _ _ _ b', of ?V] unfolding ub by (auto simp: t)
      have reg: "region (unat b) (unat (p_brk (task s' p))) =
          region (unat b) (unat b + 4096) \<union> region (unat b + 4096) (unat (p_brk (task s' p)))"
        by (rule region_split) (use r(7) in simp_all)
      have "\<forall>v \<in> V. view s' v = view s v" using r(5) keeps_owned(2) [OF 2(1) less.prems(2)] by simp
      moreover have "\<forall>v \<in> region (unat b) (unat (p_brk (task s' p))). view s' v = 0"
        using r(5,6) 2(3) unfolding reg by auto
      moreover have "owned s' (V \<union> region (unat b) (unat (p_brk (task s' p))))" using r(4) unfolding reg by (simp add: Un_assoc)
      moreover have "5 * ((unat addr + 4095 - unat b) div 4096) \<le> card (free_tables s) \<longrightarrow> ok"
        unfolding pages by (intro impI mp [OF r(9)] five_step [OF _ 2(4)])
      moreover have "unat b \<le> unat (p_brk (task s' p))" using r(7) by simp
      ultimately show ?thesis using r(1-3,8) 2(5) by (intro exI [of _ ok] exI [of _ s']) simp
    qed
  qed
qed




text \<open>A machine with a window and \<open>n\<close> frames on which one task runs.\<close>

definition task_example :: "u64 \<Rightarrow> kproc" where
  "task_example n = kpaging.extend (kpaging.truncate (sized_example n))
     \<lparr>heap_head = 0, heap_current = 0, heap_mapped_end = 0, hblocks = (\<lambda>a. None), root_inode = 0, inodes = (\<lambda>a. None),
      tasks = [zero_task\<lparr>p_brk := USER_BRK_START\<rparr>], current_task = 0, pipes = [], next_pid = 2, files = (\<lambda>a. None),
      fork_jmp_active = False, fork_jmp_parent = None, msr_fs_base = 0, tss_rsp0 = 0\<rparr>"


lemma task_example_ok:
  assumes n: "15 \<le> n" "n \<le> 0x10000"
  shows "space_ok (task_example n)" and "unat n \<le> card (free_tables (task_example n)) + 12"
    and "current_task (task_example n) = 0" and "tasks (task_example n) = [zero_task\<lparr>p_brk := USER_BRK_START\<rparr>]"
proof -
  have "kpaging.truncate (task_example n) = kpaging.truncate (sized_example n)" by (simp add: task_example_def kpaging.defs)
  note paging_part [OF this]
  then show "space_ok (task_example n)" "unat n \<le> card (free_tables (task_example n)) + 12"
    using sized_example_ok [OF n] by simp_all
  show "current_task (task_example n) = 0" "tasks (task_example n) = [zero_task\<lparr>p_brk := USER_BRK_START\<rparr>]"
    by (simp_all add: task_example_def kpaging.defs)
qed


section \<open>Anonymous mappings\<close>

definition mmap_addr :: "u64 \<Rightarrow> u64" where
  "mmap_addr addr = ((if addr \<noteq> 0 then addr else USER_BRK_START + 0x1000000) + PAGE_SIZE - 1) AND PAGE_MASK"



text \<open>Without a hint the address is always the same.\<close>

lemma anonymous_maps_collide:
  assumes "sys_mmap 0 len prot flags s = Some (a, s1)" and "0 \<le> a" and "sys_mmap 0 len' prot' flags' s1 = Some (b, s2)" and "0 \<le> b"
  shows "b = a \<and> a = 0x81000000"
  using assms by (auto simp: sys_mmap_def E_INVAL_def E_NOMEM_def split: if_splits Option.bind_splits prod.splits)

end
