(* ===== verification/SysIO.thy ===== *)
theory SysIO
  imports SysMem
begin

text \<open>
  Reading and writing through system calls: \<^verbatim>\<open>sys_read\<close> and \<^verbatim>\<open>sys_write\<close> of \<^verbatim>\<open>core/syscall.c\<close> on files and pipes against
  the view of user memory of \<open>UserPages\<close>, and the errors that \<^verbatim>\<open>syscall_dispatch\<close> returns for bad numbers and pointers.
\<close>

section \<open>User memory beside files and pipes\<close>

lemma fput_space [simp]:
  "space_ok (fput a f s) = space_ok s" "owned (fput a f s) V = owned s V" "view (fput a f s) = view s"
proof -
  have "kpaging.truncate (fput a f s) = kpaging.truncate s" by (simp add: fput_def kpaging.defs)
  note paging_part [OF this]
  then show "space_ok (fput a f s) = space_ok s" "owned (fput a f s) V = owned s V" "view (fput a f s) = view s" by simp_all
qed

lemma on_pipe_space [simp]:
  "space_ok (on_pipe k g s) = space_ok s" "owned (on_pipe k g s) V = owned s V" "view (on_pipe k g s) = view s"
proof -
  have "kpaging.truncate (on_pipe k g s) = kpaging.truncate s" by (simp add: on_pipe_def kpaging.defs)
  note paging_part [OF this]
  then show "space_ok (on_pipe k g s) = space_ok s" "owned (on_pipe k g s) V = owned s V" "view (on_pipe k g s) = view s"
    by simp_all
qed

lemma on_pipe_fields: "files (on_pipe k g s) = files s" "pipes (on_pipe k g s) = (pipes s)[k := g (pipes s ! k)]"
  by (simp_all add: on_pipe_def)

text \<open>What waking the blocked tasks leaves alone.\<close>

definition only_tasks :: "'a kproc_scheme \<Rightarrow> 'a kproc_scheme \<Rightarrow> bool" where
  "only_tasks s s' \<longleftrightarrow> s' = s\<lparr>tasks := tasks s'\<rparr> \<and> length (tasks s') = length (tasks s) \<and>
     (\<forall>i < length (tasks s). p_fds (task s' i) = p_fds (task s i))"

lemma only_tasks_refl [simp]: "only_tasks s s"
  by (simp add: only_tasks_def)

lemma wake_slot_only:
  assumes "only_tasks s s'"
  shows "only_tasks s (wake_slot i s')"
proof -
  have s': "s' = s\<lparr>tasks := tasks s'\<rparr>" using assms by (simp add: only_tasks_def)
  have "wake_slot i s' = s'\<lparr>tasks := tasks (wake_slot i s')\<rparr>" by (simp add: wake_slot_def set_state_def on_task_def)
  also have "\<dots> = s\<lparr>tasks := tasks (wake_slot i s')\<rparr>" by (subst s') simp
  finally have "wake_slot i s' = s\<lparr>tasks := tasks (wake_slot i s')\<rparr>" .
  moreover have "p_fds (task (wake_slot i s') j) = p_fds (task s' j)" if "j < length (tasks s')" for j
    using that by (cases "i < length (tasks s')") (simp_all add: wake_slot_def set_state_def on_task_def nth_list_update)
  ultimately show ?thesis using assms by (simp add: only_tasks_def)
qed

lemma wake_all_only: "only_tasks s (sched_wake_all s)"
proof -
  have "only_tasks s s' \<Longrightarrow> only_tasks s (fold wake_slot is s')" for "is" s'
    by (induction "is" arbitrary: s') (simp_all add: wake_slot_only)
  then show ?thesis by (simp add: sched_wake_all_def)
qed

lemma only_tasks_space:
  assumes "only_tasks s s'"
  shows "space_ok s' = space_ok s" and "owned s' V = owned s V" and "view s' = view s"
proof -
  have s': "s' = s\<lparr>tasks := tasks s'\<rparr>" using assms by (simp add: only_tasks_def)
  have "kpaging.truncate s' = kpaging.truncate s" by (subst s') (simp add: kpaging.defs)
  note p = paging_part [OF this]
  show "space_ok s' = space_ok s" "owned s' V = owned s V" "view s' = view s" by (rule p)+
qed

lemma only_tasks_fds:
  assumes "only_tasks s s'" and "current_task s < length (tasks s)"
  shows "fd_get fd s' = fd_get fd s" and "files s' = files s" and "pipes s' = pipes s" and "current_task s' = current_task s"
proof -
  have s': "s' = s\<lparr>tasks := tasks s'\<rparr>" using assms by (simp add: only_tasks_def)
  show "files s' = files s" "pipes s' = pipes s" and c: "current_task s' = current_task s" by (subst s', simp)+
  show "fd_get fd s' = fd_get fd s" using assms c by (simp add: fd_get_def only_tasks_def)
qed

lemma fd_get_simps [simp]: "fd_get fd (fput a f s) = fd_get fd s" "fd_get fd (on_pipe k g s) = fd_get fd s"
  by (simp_all add: fd_get_def fput_def on_pipe_def)

text \<open>A copy to the user leaves the tables of the kernel alone.\<close>

lemma data_step_tables:
  fixes s :: "'a kproc_scheme"
  assumes "data_step s s'"
  shows "files s' = files s" and "pipes s' = pipes s" and "fd_get fd s' = fd_get fd s"
proof -
  have s': "s' = s\<lparr>mem := mem s'\<rparr>" using assms by (simp add: data_step_def)
  have t: "tasks s' = tasks s" "current_task s' = current_task s" by (subst s', simp)+
  show "files s' = files s" "pipes s' = pipes s" by (subst s', simp)+
  show "fd_get fd s' = fd_get fd s" by (simp add: fd_get_def t)
qed

text \<open>The console of \<open>Keyboard\<close> on the machine with one user page of \<open>UserPages\<close>, the file system with the file of five bytes, and
  the task whose descriptors 3, 4 and 5 are that file and the ends of an empty pipe.\<close>

definition fs_example :: kconsole where
  "fs_example = kvfs.extend (kvfs.truncate file_example) (kvfs.more (console_example\<lparr>
     tasks := [zero_task\<lparr>p_fds := [0, 0, 0, 1, 2, 3] @ replicate 10 0\<rparr>], current_task := 0, pipes := [empty_pipe],
     files := [1 \<mapsto> blank_file\<lparr>vf_inode := 0x10000060\<rparr>, 2 \<mapsto> pipe_file 0 0, 3 \<mapsto> pipe_file 0 1]\<rparr>))"

definition io_example :: kconsole where
  "io_example = kpaging.extend (kpaging.truncate page_example) (kpaging.more fs_example)"

lemma replace_machine:
  fixes r :: "'a kproc_scheme"
  shows "tasks (kpaging.extend a (kpaging.more r)) = tasks r" "current_task (kpaging.extend a (kpaging.more r)) = current_task r"
    "pipes (kpaging.extend a (kpaging.more r)) = pipes r" "files (kpaging.extend a (kpaging.more r)) = files r"
    "inodes (kpaging.extend a (kpaging.more r)) = inodes r" "root_inode (kpaging.extend a (kpaging.more r)) = root_inode r"
    "heap_view (kpaging.extend a (kpaging.more r)) = heap_view r"
  by (cases r; simp add: kpaging.defs heap_view_def)+

lemma replace_vfs:
  fixes r :: "'a kproc_scheme"
  shows "tasks (kvfs.extend (kvfs.truncate f) (kvfs.more r)) = tasks r" "current_task (kvfs.extend (kvfs.truncate f) (kvfs.more r)) = current_task r"
    "pipes (kvfs.extend (kvfs.truncate f) (kvfs.more r)) = pipes r" "files (kvfs.extend (kvfs.truncate f) (kvfs.more r)) = files r"
    "inodes (kvfs.extend (kvfs.truncate f) (kvfs.more r)) = inodes f" "root_inode (kvfs.extend (kvfs.truncate f) (kvfs.more r)) = root_inode f"
    "heap_view (kvfs.extend (kvfs.truncate f) (kvfs.more r)) = heap_view f"
  by (cases r; simp add: kvfs.defs heap_view_def)+

lemmas replace_parts = replace_machine replace_vfs

lemma io_example_simps:
  "tasks io_example = [zero_task\<lparr>p_fds := [0, 0, 0, 1, 2, 3] @ replicate 10 0\<rparr>]" "current_task io_example = 0"
  "pipes io_example = [empty_pipe]" "inodes io_example = inodes file_example"
  "files io_example = [1 \<mapsto> blank_file\<lparr>vf_inode := 0x10000060\<rparr>, 2 \<mapsto> pipe_file 0 0, 3 \<mapsto> pipe_file 0 1]"
  by (simp_all add: io_example_def fs_example_def replace_parts)

lemma io_example_ok: "space_ok io_example" "owned io_example (page_addrs {0x400})" "vfs_ok io_example"
proof -
  have "kpaging.truncate io_example = kpaging.truncate page_example" by (simp add: io_example_def kpaging.defs)
  note paging_part [OF this]
  then show "space_ok io_example" "owned io_example (page_addrs {0x400})" using page_example_owned by simp_all
  have "heap_view io_example = heap_view file_example" "root_inode io_example = root_inode file_example"
    by (simp_all add: io_example_def fs_example_def replace_parts)
  then show "vfs_ok io_example" using vfs_view_same [OF _ io_example_simps(4)] file_example_ok by blast
qed

lemma io_example_buffer: "0x400000 \<le> unat a \<Longrightarrow> unat a + n \<le> 0x401000 \<Longrightarrow> user_buffer a n (page_addrs {0x400})"
proof -
  assume a: "0x400000 \<le> unat a" "unat a + n \<le> 0x401000"
  have "unat (a + of_nat i) div 4096 = 0x400" if "i < n" for i
    using a that by (simp add: unat_add_small unat_of_nat_small div_nat_eqI)
  then show ?thesis
    using a by (simp add: user_buffer_def range_in_def page_addrs_def user_ptr_range heap_range_def unat_of_nat_small)
qed

section \<open>Reading a file\<close>

text \<open>A descriptor of a regular file of the ramfs.\<close>

definition regular_fd :: "'a kproc_scheme \<Rightarrow> int \<Rightarrow> vfs_file \<Rightarrow> vfs_inode \<Rightarrow> bool" where
  "regular_fd s fd f i \<longleftrightarrow> fd \<noteq> 0 \<and> fd_get fd s \<noteq> 0 \<and> files s (fd_get fd s) = Some f \<and> vf_pipe f = None \<and>
     \<not> is_console_path (vf_path f) \<and> \<not> is_null_path (vf_path f) \<and> vf_inode f \<noteq> 0 \<and>
     inodes s (vf_inode f) = Some i \<and> i_type i = VFS_TYPE_FILE \<and> vf_pos f \<le> i_size i"

text \<open>The bytes that a read of at most \<open>cnt\<close> finds.\<close>

definition next_bytes :: "vfs_file \<Rightarrow> vfs_inode \<Rightarrow> u64 \<Rightarrow> u8 list" where
  "next_bytes f i cnt = take (min 256 (unat cnt)) (drop (unat (vf_pos f)) (file_content i))"



section \<open>A pipe between two buffers\<close>

text \<open>A descriptor of an end of the pipe \<open>k\<close>.\<close>

definition pipe_fd :: "'a kproc_scheme \<Rightarrow> int \<Rightarrow> nat \<Rightarrow> int \<Rightarrow> bool" where
  "pipe_fd s fd k e \<longleftrightarrow> fd_get fd s \<noteq> 0 \<and> k < length (pipes s) \<and>
     (\<exists>f. files s (fd_get fd s) = Some f \<and> vf_pipe f = Some k \<and> vf_pipe_end f = e \<and> \<not> is_null_path (vf_path f))"

lemma write_pipe_run:
  fixes s :: "'a kconsole_scheme"
  assumes sp: "space_ok s" "owned s V" and fd: "pipe_fd s fd k 1" and b: "user_buffer a n V" and n: "n \<le> 512"
    and p: "pipe_ok (pipes s ! k)" "length (pipe_items (pipes s ! k)) + n \<le> 4096" and cur: "current_task s < length (tasks s)"
  obtains s' where "sys_write run irq fd a (of_nat n) s = Some (int n, s')" and "space_ok s'" and "owned s' V"
    and "view s' = view s" and "\<And>g. fd_get g s' = fd_get g s" and "files s' = files s"
    and "pipes s' = (pipes s)[k := pipe.pushes (mem_read (view s) a n) (pipes s ! k)]"
proof -
  let ?c = "of_nat n :: u64" and ?bs = "mem_read (view s) a n"
  obtain f where f: "files s (fd_get fd s) = Some f" "vf_pipe f = Some k" "vf_pipe_end f = 1" "\<not> is_null_path (vf_path f)"
    and fd0: "fd_get fd s \<noteq> 0" and k: "k < length (pipes s)" using fd by (auto simp: pipe_fd_def)
  have un: "unat ?c = n" using n by (simp add: unat_of_nat_small)
  have c: "\<not> 512 < ?c" using n un by (simp add: unat_less_iff)
  have open_file: "sys_write run irq fd a ?c s = write_pipe_loop run irq (fd_get fd s) a 0 ?c s"
    using f fd0 by (simp add: sys_write_def fd_file_def)
  have sn: "sint ?c = int n" using un n by (subst sint_small) simp_all
  show thesis
  proof (cases "n = 0")
    case True
    then have "sys_write run irq fd a ?c s = Some (int n, s)"
      unfolding open_file by (subst write_pipe_loop.simps) simp
    then show thesis by (rule that) (use sp True in simp_all)
  next
    case False
    then have pos: "0 < ?c" using un by (simp add: unat_less_iff)
    note cp = copy_from_user_run [OF sp b]
    let ?q = "pipe.pushes ?bs (pipes s ! k)" and ?s = "on_pipe k (\<lambda>_. pipe.pushes ?bs (pipes s ! k)) s"
    have w: "pipe_write ?bs n (pipes s ! k) = Some (n, ?q)"
      using pipe_write_pushes [OF p(1), of n ?bs] p(2) by (simp add: min_def)
    have put: "pipe_put_wait run irq (fd_get fd s) ?bs s = Some (0, n, sched_wake_all ?s)"
      using f w False by (subst pipe_put_wait.simps) (simp add: Let_def)
    have last: "write_pipe_loop run irq (fd_get fd s) a ?c ?c t = Some (int n, t)" for t
      by (subst write_pipe_loop.simps) (simp add: sn)
    have run: "sys_write run irq fd a ?c s = Some (int n, sched_wake_all ?s)"
      unfolding open_file using pos c cp put last by (subst write_pipe_loop.simps) (simp add: Let_def)
    have cur': "current_task ?s < length (tasks ?s)" using cur by (simp add: on_pipe_def)
    note o = only_tasks_space [OF wake_all_only [of ?s]] only_tasks_fds [OF wake_all_only [of ?s] cur']
    show thesis
      by (rule that [OF run]) (use o sp in \<open>simp_all add: on_pipe_fields\<close>)
  qed
qed

lemma read_pipe_run:
  fixes s :: "'a kconsole_scheme"
  assumes sp: "space_ok s" "owned s V" and fd: "pipe_fd s fd k 0" and cnt: "unat cnt \<le> 256"
    and p: "pipe_ok (pipes s ! k)" "pipe_items (pipes s ! k) \<noteq> []" "cnt \<noteq> 0"
    and b: "user_buffer a (length (take (unat cnt) (pipe_items (pipes s ! k)))) V"
  obtains s' where "sys_read run irq fd a cnt s = Some (int (length (take (unat cnt) (pipe_items (pipes s ! k)))), s')"
    and "space_ok s'" and "owned s' V"
    and "\<forall>v \<in> V. view s' v = mem_write (view s) a (take (unat cnt) (pipe_items (pipes s ! k))) v"
    and "pipes s' = (pipes s)[k := snd (pipe.pops (unat cnt) (pipes s ! k))]"
proof -
  let ?bs = "take (unat cnt) (pipe_items (pipes s ! k))"
  obtain f where f: "files s (fd_get fd s) = Some f" "vf_pipe f = Some k" "vf_pipe_end f = 0"
    and fd0: "fd_get fd s \<noteq> 0" and k: "k < length (pipes s)" using fd by (auto simp: pipe_fd_def)
  note pop = pipe.pops_take [OF p(1), of "unat cnt"]
  let ?q = "snd (pipe.pops (unat cnt) (pipes s ! k))"
  let ?s = "on_pipe k (\<lambda>_. ?q) s"
  have r: "pipe_read 256 (unat cnt) (pipes s ! k) = Some (?bs, ?q)"
    using pipe_read_pops [OF p(1), of "unat cnt" 256] pop cnt by auto
  have ne: "?bs \<noteq> []" using p(2,3) by (simp add: unat_eq_zero)
  have sps: "space_ok ?s" "owned ?s V" using sp by simp_all
  obtain s' where w: "copy_to_user a ?bs ?s = Some (0, s')" "data_step ?s s'" "space_ok s'" "owned s' V"
    "\<forall>v \<in> V. view s' v = mem_write (view ?s) a ?bs v"
    by (rule copy_to_user_run [OF sps b], rule that)
  have "sys_read run irq fd a cnt s = read_pipe_loop run irq (fd_get fd s) a cnt s"
    using f fd0 by (simp add: sys_read_def fd_file_def)
  also have "\<dots> = Some (int (length ?bs), s')"
    using f r ne w(1) by (subst read_pipe_loop.simps) (simp add: Let_def)
  finally show thesis
    by (rule that) (use w data_step_tables(2) [OF w(2)] in \<open>simp_all add: on_pipe_fields\<close>)
qed



section \<open>Errors of the dispatch\<close>

text \<open>The calls that look at user memory before they do anything else, and which of their arguments points to it.\<close>

fun first_pointer :: "sysno \<Rightarrow> nat option" where
  "first_pointer SYS_open = Some 0"
| "first_pointer SYS_openat = Some 1"
| "first_pointer SYS_stat = Some 0"
| "first_pointer SYS_newfstatat = Some 1"
| "first_pointer SYS_execve = Some 0"
| "first_pointer SYS_chdir = Some 0"
| "first_pointer SYS_access = Some 0"
| "first_pointer SYS_unlink = Some 0"
| "first_pointer SYS_readlink = Some 0"
| "first_pointer SYS_mount = Some 0"
| "first_pointer SYS_uname = Some 0"
| "first_pointer SYS_getrandom = Some 0"
| "first_pointer SYS_clock_gettime = Some 1"
| "first_pointer SYS_readv = Some 1"
| "first_pointer _ = None"

definition bad_pointer :: "u64 \<Rightarrow> bool" where
  "bad_pointer a \<longleftrightarrow> a < USER_ADDR_MIN \<or> a > USER_ADDR_MAX"

lemma bad_pointer_copies:
  assumes "bad_pointer a"
  shows "copy_from_user a n s = Some (- 1, [])" and "copy_to_user a bs s = Some (- 1, s)"
    and "copy_str_from_user a k s = Some (- 1, [])"
proof -
  have bad: "\<not> user_ptr_ok a n" for n using assms by (simp add: bad_pointer_def user_ptr_ok_def)
  then show f: "copy_from_user a n s = Some (- 1, [])" for n by (simp add: copy_from_user_def)
  show "copy_to_user a bs s = Some (- 1, s)" using bad by (simp add: copy_to_user_def)
  show "copy_str_from_user a k s = Some (- 1, [])" using f by (cases "k - 1") (auto simp: copy_str_from_user_def)
qed

text \<open>C17. What a bad call gets.  A number that is not in the table gives the error for a missing call, and a pointer that does
  not lie in user memory gives the error for a bad address, in every call that starts from a pointer; in both cases
  nothing of the state has changed: no descriptor, no frame and no byte of memory.\<close>

theorem syscall_errors:
  assumes "case map_of sys_table num of None \<Rightarrow> e = E_NOSYS
    | Some c \<Rightarrow> e = E_FAULT \<and> (\<exists>k. first_pointer c = Some k \<and> bad_pointer ([a0, a1, a2, a3, a4, a5] ! k))"
  shows "syscall_dispatch run irq junk num a0 a1 a2 a3 a4 a5 s = Some (Sys_ret (- e), s)"
proof (cases "map_of sys_table num")
  case None
  then show ?thesis using assms by (simp add: syscall_dispatch_def ret_def)
next
  case (Some c)
  then obtain k where k: "e = E_FAULT" "first_pointer c = Some k" "bad_pointer ([a0, a1, a2, a3, a4, a5] ! k)"
    using assms by auto
  note calls = sys_open_def sys_stat_def sys_newfstatat_def sys_execve_def sys_chdir_def sys_access_def sys_unlink_def
    sys_readlink_def sys_mount_def sys_uname_def sys_getrandom_def sys_clock_gettime_def sys_readv_def user_path_def answer_def
  show ?thesis
    unfolding syscall_dispatch_def Some using k
    by (cases c) (auto simp: ret_def calls bad_pointer_copies Let_def)
qed

theorem syscall_errors_witness:
  "syscall_dispatch Some Some [] 2 0x3FFFFF 0 0 0 0 0 io_example = Some (Sys_ret (- 14), io_example)"
  using syscall_errors [where num = 2 and e = E_FAULT and ?a0.0 = "0x3FFFFF" and ?a1.0 = 0 and ?a2.0 = 0 and ?a3.0 = 0 and
      ?a4.0 = 0 and ?a5.0 = 0 and run = Some and irq = Some and junk = "[]" and s = io_example]
  by (simp add: sys_table_def bad_pointer_def)

end
