(* ===== verification/Reach.thy ===== *)
theory Reach
  imports Fds
begin

text \<open>
  The life of the process table and its descriptors from \<^verbatim>\<open>proc_init\<close> on: forking, exiting, reaping, switching,
  opening, duplicating, closing and piping as the steps of a transition system, and the ownership of \<open>Fds\<close> as
  its invariant.
\<close>

section \<open>Fork\<close>

lemma agree_paging_more:
  assumes "kpaging.more s' = kpaging.more s"
  shows "agree s s'"
  using heap_fields [OF assms] proc_fields [OF proc_fields_paging [OF assms]] by (simp add: agree_def heap_view_def)

text \<open>A new task holds no open file.\<close>

lemma held_fresh:
  assumes "length (tasks s) = 16" "length (tasks s') = 16" and "\<And>j. j \<noteq> i \<Longrightarrow> task s' j = task s j"
    and "p_state (task s i) = TASK_UNUSED" and "p_state (task s' i) = TASK_UNUSED \<or> p_fds (task s' i) = replicate 32 0"
  shows "held s' = held s"
proof
  fix x :: slot
  obtain j fd where x: "x = (j, fd)" by (cases x)
  show "held s' x = held s x" using assms(3-) by (cases "j = i") (auto simp: held_def x)
qed

lemma alloc_task_current: "proc_alloc_task s = Some (r, s') \<Longrightarrow> current_task s' = current_task s"
  by (auto simp: proc_alloc_task_def int_inc_def Let_def set_state_def dest!: kmalloc_fields(2) split: option.splits Option.bind_splits if_splits)

lemma alloc_task_heap:
  fixes s s' :: "'a kproc_scheme"
  assumes v: "vfs_ok s" and budget: "heap_budget (0x21000 + b) s" and run: "proc_alloc_task s = Some (r, s')"
  shows "vfs_ok s'" and "heap_budget b s'" and "kmalloc_live s q \<Longrightarrow> kmalloc_live s' q"
proof -
  have "vfs_ok s' \<and> heap_budget b s' \<and> (\<forall>q. kmalloc_live s q \<longrightarrow> kmalloc_live s' q)"
  proof (cases "find_task (\<lambda>t. p_state t = TASK_UNUSED) s")
    case None
    then show ?thesis using run v heap_budget_le [OF budget] by (simp add: proc_alloc_task_def)
  next
    case (Some i)
    obtain s1 s2 :: "'a kproc_scheme" and stack where k: "kmalloc TASK_KERNEL_STACK_SIZE s1 = Some (stack, s2)"
      and s1: "heap_view s1 = heap_view s" "inodes s1 = inodes s" "root_inode s1 = root_inode s"
      and s': "heap_view s' = heap_view s2" "inodes s' = inodes s2" "root_inode s' = root_inode s2"
    proof -
      define s1 where "s1 = (on_task i (\<lambda>t. zero_task\<lparr>p_pid := next_pid s, p_state := TASK_RUNNABLE,
          p_cr3 := paging_current_cr3 s\<rparr>) s)\<lparr>next_pid := next_pid s + 1\<rparr>"
      obtain stack s2 where k: "kmalloc TASK_KERNEL_STACK_SIZE s1 = Some (stack, s2)"
        using run Some by (auto simp: proc_alloc_task_def int_inc_def s1_def Let_def split: if_splits Option.bind_splits)
      have "heap_view s' = heap_view s2 \<and> inodes s' = inodes s2 \<and> root_inode s' = root_inode s2"
        using run Some k by (auto simp: proc_alloc_task_def int_inc_def s1_def Let_def set_state_def split: if_splits)
      then show thesis
        by (intro that [OF k]) (simp_all add: s1_def on_task_def heap_view_def)
    qed
    have v1: "vfs_ok s1" using vfs_view_same [OF s1] v by simp
    have inv: "heap_inv s1" using v1 by (simp add: vfs_ok_def)
    have nz: "TASK_KERNEL_STACK_SIZE \<noteq> 0" and b1: "heap_budget (unat TASK_KERNEL_STACK_SIZE + 0x11000 + b) s1"
      using budget heap_view_same(3) [OF s1(1)] by (simp_all add: heap_budget_def)
    obtain p t where t: "kmalloc TASK_KERNEL_STACK_SIZE s1 = Some (p, t)" "heap_inv t" "heap_budget b t"
      "kheap.more t = kheap.more s1" "p \<noteq> 0 \<Longrightarrow> \<not> kmalloc_live s1 p"
      "\<And>q. kmalloc_live t q \<longleftrightarrow> (p \<noteq> 0 \<and> q = p) \<or> kmalloc_live s1 q"
      by (rule kmalloc_step [OF inv nz b1]) blast
    have eq: "t = s2" using t(1) k by simp
    have "vfs_ok s2" using vfs_ok_heap [OF v1 t(2,4)] t(6) eq by blast
    then show ?thesis
      using vfs_view_same [OF s'] heap_view_same(2,3) [OF s'(1)] heap_view_same(2) [OF s1(1)] t(3,6) eq by simp
  qed
  then show "vfs_ok s'" "heap_budget b s'" "kmalloc_live s q \<Longrightarrow> kmalloc_live s' q" by blast+
qed

lemma alloc_task_fds:
  fixes s s' :: "'a kproc_scheme"
  assumes ok: "fds_ok s" and budget: "heap_budget (0x21000 + b) s" and run: "proc_alloc_task s = Some (r, s')"
  shows "fds_ok s'" and "held s' = held s"
proof -
  note a = alloc_task_ok [OF fds_okD(1) [OF ok] run] and h = alloc_task_heap [OF fds_okD(2) [OF ok] budget run]
  have len: "length (tasks s) = 16" "length (tasks s') = 16" using procs_okD(1) a(1) fds_okD(1) [OF ok] by blast+
  show held: "held s' = held s"
  proof (cases r)
    case None
    then consider "tasks s' = tasks s" | i where "p_state (task s i) = TASK_UNUSED" "p_state (task s' i) = TASK_UNUSED" "others_same i s s'"
      using a(6) by blast
    then show ?thesis using held_same held_fresh [OF len] by cases (auto simp: others_same_def)
  next
    case (Some i)
    show ?thesis
      by (rule held_fresh [OF len, of i]) (use a(7) [OF Some] in \<open>auto simp: others_same_def zero_task_def\<close>)
  qed
  show "fds_ok s'" by (rule fds_ok_table [OF ok a(1) _ h(1) a(3,2,4) h(3)]) (simp_all add: held)
qed

text \<open>What a successful fork leaves: the child is a fresh task with the parent's context, its own copy of every open
  file, and 0 for the result that it sees.\<close>

definition forked :: "int \<Rightarrow> 'a kproc_scheme \<Rightarrow> 'a kproc_scheme \<Rightarrow> bool" where
  "forked r s s' \<longleftrightarrow> (\<exists>c < 16. p_state (task s c) = TASK_UNUSED \<and> r = next_pid s \<and> (\<forall>j. j \<noteq> c \<longrightarrow> task s' j = task s j) \<and>
     (let t = task s' c; p = cur s in
        p_state t = TASK_RUNNABLE \<and> p_pid t = r \<and> p_parent t = Some (current_task s) \<and> p_ppid t = p_pid p \<and> p_user_rax t = 0 \<and>
        p_user_rip t = p_user_rip p \<and> p_user_rsp t = p_user_rsp p \<and> p_user_rflags t = p_user_rflags p \<and>
        p_user_regs t = p_user_regs p \<and> p_fs_base t = p_fs_base p \<and> p_brk t = p_brk p \<and> p_cwd t = p_cwd p \<and> p_sid t = p_sid p) \<and>
     (\<forall>x a. held s x = Some a \<longrightarrow> held s' x = Some a \<and> files s' a = files s a) \<and>
     (\<forall>fd < 32. case held s (current_task s, fd) of None \<Rightarrow> held s' (c, fd) = None
        | Some a \<Rightarrow> \<exists>a'. a' \<noteq> a \<and> held s' (c, fd) = Some a' \<and> files s' a' = files s a))"

text \<open>The context that the parent \<open>p\<close>, task \<open>q\<close>, gives to its child.\<close>

definition child_of :: "process \<Rightarrow> nat \<Rightarrow> u64 \<Rightarrow> process \<Rightarrow> process" where
  "child_of p q root t = t\<lparr>p_cr3 := root, p_brk := p_brk p, p_ppid := p_pid p, p_sid := p_sid p, p_pgid := p_pgid p,
     p_parent := Some q, p_user_rip := p_user_rip p, p_user_rsp := p_user_rsp p, p_user_rflags := p_user_rflags p,
     p_user_rax := 0, p_user_regs := p_user_regs p, p_fs_base := p_fs_base p, p_cwd := p_cwd p\<rparr>"

lemma child_of_simps [simp]:
  "p_fds (child_of p q root t) = p_fds t" "p_state (child_of p q root t) = p_state t" "p_pid (child_of p q root t) = p_pid t"
  by (simp_all add: child_of_def)

lemma child_of_ok:
  assumes ok: "fds_ok s" and c: "c < 16" "c \<noteq> current_task s" "p_state (task s c) \<noteq> TASK_UNUSED"
  shows "fds_ok (on_task c (child_of (cur s) (current_task s) root) s)"
    and "held (on_task c (child_of (cur s) (current_task s) root) s) = held s"
proof -
  let ?s = "on_task c (child_of (cur s) (current_task s) root) s"
  note po = procs_okD [OF fds_okD(1) [OF ok]]
  have p: "procs_ok ?s"
    by (rule procs_ok_on_task [OF fds_okD(1) [OF ok] c(1)])
      (use c po(2) po(4) [OF po(2)] po(4) [OF c(1)] in \<open>auto simp: child_of_def task_ok_def\<close>)
  show h: "held ?s = held s" by (rule held_on_task [OF po(1) c(1)]) simp_all
  have v: "heap_view ?s = heap_view s" "inodes ?s = inodes s" "root_inode ?s = root_inode s" by simp_all
  show "fds_ok ?s"
    by (rule fds_ok_table [OF ok p]) (use h vfs_view_same [OF v] heap_view_same(2) [OF v(1)] fds_okD(2) [OF ok] in simp_all)
qed

text \<open>The child when its descriptors have been copied; \<open>t\<close> is the task that was allocated for it.\<close>

lemma forkedI:
  assumes ok: "fds_ok s'" and c: "c < 16" "p_state (task s c) = TASK_UNUSED" "c \<noteq> current_task s"
    and others: "\<And>j. j \<noteq> c \<Longrightarrow> task s' j = task s j"
    and t: "task s' c = (child_of (cur s) (current_task s) root t)\<lparr>p_fds := fds, p_state := TASK_RUNNABLE\<rparr>" "p_pid t = next_pid s"
    and old: "\<And>x a. held s x = Some a \<Longrightarrow> held s' x = Some a \<and> files s' a = files s a"
    and copy: "\<And>fd. fd < 32 \<Longrightarrow> case held s (current_task s, fd) of None \<Rightarrow> held s' (c, fd) = None
        | Some a \<Rightarrow> \<exists>a'. held s' (c, fd) = Some a' \<and> files s' a' = files s a"
  shows "forked (next_pid s) s s'"
proof -
  have own: "case held s (current_task s, fd) of None \<Rightarrow> held s' (c, fd) = None
        | Some a \<Rightarrow> \<exists>a'. a' \<noteq> a \<and> held s' (c, fd) = Some a' \<and> files s' a' = files s a" if "fd < 32" for fd
  proof (cases "held s (current_task s, fd)")
    case None
    then show ?thesis using copy [OF that] by simp
  next
    case (Some a)
    note cp = copy [OF that]
    obtain a' where a': "held s' (c, fd) = Some a'" "files s' a' = files s a" using cp Some by auto
    have "held s' (current_task s, fd) = Some a" using old Some by blast
    then have "a' \<noteq> a" using own_once [OF own_okD(2) [OF fds_okD(3) [OF ok]]] a'(1) c(3) by blast
    then show ?thesis using Some a' by auto
  qed
  show ?thesis
    unfolding forked_def Let_def using c(1,2) others old own t
    by (intro exI [of _ c]) (auto simp: child_of_def)
qed

lemma proc_fork_child:
  fixes s s' :: "'a kproc_scheme"
  assumes ok: "fds_ok s2" and c: "c < 16" "p_state (task s c) = TASK_UNUSED" "c \<noteq> current_task s"
    and t: "task s2 c = t" "p_pid t = next_pid s" "p_state t = TASK_RUNNABLE" "p_fds t = replicate 32 0"
    and same: "others_same c s s2" "held s2 = held s" "files s2 = files s" and budget: "heap_budget (0x240000 + b) s2"
    and s3: "s3 = on_task c (child_of (cur s) (current_task s) root) s2"
    and run: "fork_fds (current_task s) c [0..<PROC_MAX_FD] s3 = Some (all, s4)"
    and s': "s' = (if all then set_state c TASK_RUNNABLE s4 else s4)"
  shows "fds_ok s' \<and> heap_budget b s' \<and> current_task s' = current_task s \<and>
    (all \<longrightarrow> p_pid (task s' c) = next_pid s \<and> forked (next_pid s) s s')"
proof -
  let ?p = "current_task s"
  note po = procs_okD [OF fds_okD(1) [OF ok]]
  have cur: "cur s2 = cur s" "current_task s2 = ?p" using same(1) c(3) by (simp_all add: others_same_def)
  have ch: "fds_ok s3" "held s3 = held s"
    unfolding s3 using child_of_ok [OF ok c(1), of root] c(3) t(1,3) cur same(2) by simp_all
  have t3: "task s3 c = child_of (cur s) ?p root t" "\<And>j. j \<noteq> c \<Longrightarrow> task s3 j = task s j" "current_task s3 = ?p" "files s3 = files s"
    using c(1) po(1) t(1) same(1,3) by (simp_all add: s3 others_same_def)
  have p: "?p < 16" "p_state (task s3 ?p) \<noteq> TASK_UNUSED" "c \<noteq> current_task s3" "p_state (task s3 c) \<noteq> TASK_UNUSED"
    using po(2,3) cur t3 c(3) t(3) by simp_all
  have b3: "heap_budget (length [0..<PROC_MAX_FD] * 0x12000 + b) s3" using heap_view_same(3) [of s3 s2] budget by (simp add: s3)
  have free: "\<forall>i \<in> set [0..<PROC_MAX_FD]. i < 32 \<and> p_fds (task s3 c) ! i = 0" using t3(1) t(4) by simp
  have F: "fds_ok s4 \<and> heap_budget b s4 \<and> others_same c s3 s4 \<and> inodes s4 = inodes s3 \<and>
    (all \<longrightarrow> task s4 c = (task s3 c)\<lparr>p_fds := p_fds (task s4 c)\<rparr> \<and>
       (\<forall>x a. held s3 x = Some a \<longrightarrow> held s4 x = Some a \<and> files s4 a = files s3 a) \<and>
       (\<forall>i < 32. i \<notin> set [0..<PROC_MAX_FD] \<longrightarrow> held s4 (c, i) = held s3 (c, i)) \<and>
       (\<forall>i \<in> set [0..<PROC_MAX_FD]. case held s3 (?p, i) of None \<Rightarrow> held s4 (c, i) = None
          | Some a \<Rightarrow> \<exists>a'. held s4 (c, i) = Some a' \<and> files s4 a' = files s3 a)) \<and>
    (\<not> all \<longrightarrow> p_state (task s4 c) = TASK_UNUSED)"
    by (rule fork_fds_ok [OF run ch(1) b3 p(1) c(1) c(3) [symmetric] p(3,4,2) _ free]) simp
  have s4: "current_task s4 = ?p" "length (tasks s4) = 16"
    using F t3(3) procs_okD(1) [OF fds_okD(1) [OF ch(1)]] by (simp_all add: others_same_def)
  show ?thesis
  proof (cases all)
    case False
    then show ?thesis using s' F s4 by simp
  next
    case True
    have t4: "task s4 c = (child_of (cur s) ?p root t)\<lparr>p_fds := p_fds (task s4 c)\<rparr>" using F True t3(1) by simp
    have "p_state (task s4 c) = TASK_RUNNABLE" by (subst t4) (simp add: t(3))
    then have live: "p_state (task s4 c) \<noteq> TASK_UNUSED" by simp
    have h': "held s' = held s4" "files s' = files s4"
      using live True by (simp_all add: s' set_state_def held_on_task [OF s4(2) c(1)])
    have ok': "fds_ok s'" using True by (simp add: s') (rule set_state_fds_ok, use F c live s4 in auto)
    have t': "task s' c = (child_of (cur s) ?p root t)\<lparr>p_fds := p_fds (task s4 c), p_state := TASK_RUNNABLE\<rparr>"
      using t4 s4(2) c(1) True by (simp add: s' set_state_def)
    have "forked (next_pid s) s s'"
    proof (rule forkedI [OF ok' c _ t' t(2)])
      show "task s' j = task s j" if "j \<noteq> c" for j
        using F t3(2) True that by (simp add: s' set_state_def others_same_def)
      show "held s' x = Some a \<and> files s' a = files s a" if "held s x = Some a" for x a
        using F True ch(2) h' t3(4) that by (cases x) simp
      have each: "\<forall>i \<in> set [0..<PROC_MAX_FD]. case held s3 (?p, i) of None \<Rightarrow> held s4 (c, i) = None
          | Some a \<Rightarrow> \<exists>a'. held s4 (c, i) = Some a' \<and> files s4 a' = files s3 a" using F True by blast
      show "case held s (?p, fd) of None \<Rightarrow> held s' (c, fd) = None
          | Some a \<Rightarrow> \<exists>a'. held s' (c, fd) = Some a' \<and> files s' a' = files s a" if "fd < 32" for fd
        using bspec [OF each, of fd] that unfolding h' ch(2) t3(4) by simp
    qed
    moreover have "heap_budget b s'" using heap_view_same(3) [of s' s4] F True by (simp add: s')
    ultimately show ?thesis using ok' s4(1) t' t(2) True by (simp add: s')
  qed
qed

lemma proc_fork_ok:
  fixes s s' :: "'a kproc_scheme"
  assumes ok: "fds_ok s" and budget: "heap_budget (0x261000 + b) s" and run: "proc_fork s = Some (r, s')"
  shows "fds_ok s' \<and> heap_budget b s' \<and> current_task s' = current_task s \<and> (r = - 1 \<or> forked r s s')"
proof -
  let ?p = "current_task s"
  note po = procs_okD [OF fds_okD(1) [OF ok]]
  obtain child s1 where al: "proc_alloc_task s = Some (child, s1)" using run by (auto simp: proc_fork_def Let_def split: Option.bind_splits)
  have budget': "heap_budget (0x21000 + (0x240000 + b)) s" using budget by (simp add: heap_budget_def)
  note a = alloc_task_ok [OF fds_okD(1) [OF ok] al] and f1 = alloc_task_fds [OF ok budget' al]
    and b1 = alloc_task_heap(2) [OF fds_okD(2) [OF ok] budget' al]
  show ?thesis
  proof (cases child)
    case None
    then show ?thesis using run al None f1(1) heap_budget_le [OF b1] alloc_task_current [OF al] by (simp add: proc_fork_def)
  next
    case (Some c)
    from a(7) [OF Some] obtain stack where c: "c < 16" "p_state (task s c) = TASK_UNUSED" "others_same c s s1"
      and t1: "task s1 c = zero_task\<lparr>p_pid := next_pid s, p_state := TASK_RUNNABLE, p_cr3 := paging_current_cr3 s,
         p_kernel_stack := stack, p_kernel_rsp := stack + TASK_KERNEL_STACK_SIZE\<rparr>" by blast
    obtain root s2 where cl: "paging_clone_current_address_space True s1 = Some (root, s2)"
      using run al Some by (auto simp: proc_fork_def Let_def split: Option.bind_splits)
    have ag: "agree s1 s2" by (rule agree_paging_more [OF clone_more [OF cl]])
    then have t2: "tasks s2 = tasks s1" "heap_view s2 = heap_view s1" "files s2 = files s" "held s2 = held s" "others_same c s s2"
      using c(3) a(3) f1(2) held_same [of s2 s1] by (simp_all add: agree_def others_same_def)
    have f2: "fds_ok s2" using fds_ok_agree [OF ag] f1(1) by simp
    have b2: "heap_budget (0x240000 + b) s2" using heap_view_same(3) [OF t2(2)] b1 by simp
    have ne: "c \<noteq> ?p" using c(2) po(3) by auto
    show ?thesis
    proof (cases "root = 0")
      case True
      then have s': "r = - 1" "s' = set_state c TASK_UNUSED s2" using run al Some cl by (simp_all add: proc_fork_def)
      have "fds_ok s'" unfolding s'(2) by (rule set_state_fds_ok [OF f2 c(1)]) (use ne t2(5) in \<open>auto simp: others_same_def\<close>)
      moreover have "heap_budget b s'" using heap_view_same(3) [of s' s2] heap_budget_le [OF b2, of b] s'(2) by simp
      ultimately show ?thesis using s' t2(5) by (simp add: others_same_def)
    next
      case False
      have cur2: "task s2 ?p = cur s" using t2(5) ne by (simp add: others_same_def)
      obtain all s4 where fk: "fork_fds ?p c [0..<PROC_MAX_FD] (on_task c (child_of (cur s) ?p root) s2) = Some (all, s4)"
        and s': "s' = (if all then set_state c TASK_RUNNABLE s4 else s4)" "r = (if all then p_pid (task s' c) else - 1)"
        using run al Some cl False by (auto simp: proc_fork_def child_of_def [abs_def] cur2 Let_def split: Option.bind_splits if_splits)
      have "task s2 c = task s1 c" using t2(1) by simp
      from proc_fork_child [OF f2 c(1,2) ne this _ _ _ t2(5,4,3) b2 refl fk s'(1)]
      show ?thesis using t1 s'(2) by (auto simp: zero_task_def)
    qed
  qed
qed

section \<open>The first task\<close>

lemma console_fd_ok:
  fixes s :: "'a kproc_scheme"
  assumes ok: "fds_ok s" and budget: "heap_budget (0x12000 + b) s"
  obtains s' where "proc_open_console_fd fd s = Some s'" and "fds_ok s'" and "heap_budget b s'"
    and "current_task s' = current_task s" and "pipes s' = pipes s"
proof (cases "fd < 0 \<or> fd \<ge> int PROC_MAX_FD \<or> p_fds (cur s) ! nat fd \<noteq> 0")
  case True
  then show thesis using that [of s] ok heap_budget_le [OF budget] by (simp add: proc_open_console_fd_def)
next
  case False
  then have i: "nat fd < 32" "p_fds (cur s) ! nat fd = 0" by auto
  obtain a s1 where k: "kmalloc sizeof_vfs_file s = Some (a, s1)" "kheap.more s1 = kheap.more s"
    "a = 0 \<Longrightarrow> fds_ok s1 \<and> heap_budget b s1"
    and new: "\<And>path s'. a \<noteq> 0 \<Longrightarrow> s' = fput a (blank_file\<lparr>vf_path := path\<rparr>) (set_fd (current_task s) (nat fd) a s1) \<Longrightarrow>
      fds_ok s' \<and> heap_budget b s' \<and> held s' = (held s)((current_task s, nat fd) \<mapsto> a)"
    by (rule install_file [OF ok budget i]) blast
  note g = proc_fields [OF k(2)]
  show thesis
  proof (cases "a = 0")
    case True
    then show thesis using that [of s1] k False g by (simp add: proc_open_console_fd_def)
  next
    case nz: False
    let ?s = "fput a (blank_file\<lparr>vf_path := console_path\<rparr>) (set_fd (current_task s) (nat fd) a s1)"
    have "proc_open_console_fd fd s = Some ?s"
      using False k(1) nz g(2) by (simp add: proc_open_console_fd_def blank_file_def fput_def set_fd_def on_task_def)
    then show thesis using that [of ?s] new [OF nz, of ?s console_path] g(2,3) by simp
  qed
qed

text \<open>What the state is when the process table is set up: a file system, no pipes in use, pids from 2 on.\<close>

definition before_init :: "'a kproc_scheme \<Rightarrow> bool" where
  "before_init s \<longleftrightarrow> vfs_ok s \<and> length (pipes s) = 8 \<and> (\<forall>k < 8. readers (pipes s ! k) = 0 \<and> writers (pipes s ! k) = 0 \<and> \<not> in_use (pipes s ! k)) \<and>
     1 < next_pid s \<and> fork_jmp_parent s = None"

lemma fds_ok_first:
  assumes "before_init t" and v: "vfs_ok s" and p: "pipes s = pipes t" "next_pid s = next_pid t" "fork_jmp_parent s = None" "current_task s = 0"
    and tasks: "tasks s = (replicate 16 zero_task)[0 := t0]"
    and t0: "p_fds t0 = replicate 32 0" "length (p_user_regs t0) = 15" "p_pid t0 = 1" "p_parent t0 = None" "p_state t0 = TASK_RUNNING"
  shows "fds_ok s"
proof -
  note b = assms(1) [unfolded before_init_def]
  have t: "task s i = (if i = 0 then t0 else zero_task)" if "i < 16" for i using that tasks by (simp add: nth_list_update)
  have z: "p_fds zero_task = replicate 32 0" "length (p_user_regs zero_task) = 15" "p_pid zero_task = 0"
    "p_parent zero_task = None" "p_state zero_task = TASK_UNUSED" by (simp_all add: zero_task_def)
  have len: "length (tasks s) = 16" using tasks by simp
  have "task_ok (next_pid s) i (task s i)" if "i < 16" for i using t [OF that] b p t0 z by (simp add: task_ok_def)
  moreover have "p_pid (task s i) \<noteq> p_pid (task s j)" if "i < 16" "j < 16" "i \<noteq> j" "0 < p_pid (task s i)" for i j
    using t [OF that(1)] t [OF that(2)] that t0 z by (auto split: if_splits)
  ultimately have "procs_ok s"
    unfolding procs_ok_def using t [of 0] len b p t0 by simp
  moreover have "held s x = None" for x using t t0(1) z by (cases x) (auto simp: held_def)
  then have "held s = Map.empty" by blast
  then have "own_ok (held s) (files s) (pipes s) (kmalloc_live s) (inodes s)"
    using b p(1) by (simp add: own_ok_def refs_def)
  ultimately show ?thesis using v b p(1) by (simp add: fds_ok_def)
qed

lemma proc_init_ok:
  fixes s :: "'a kproc_scheme"
  assumes b: "before_init s" and budget: "heap_budget (0x57000 + c) s"
  obtains s' where "proc_init s = Some s'" and "fds_ok s'" and "heap_budget c s'" and "current_task s' = 0" and "pipes s' = pipes s"
proof -
  define g :: "process \<Rightarrow> process" where "g = (\<lambda>t. t\<lparr>p_pid := 1, p_ppid := 0, p_sid := 1, p_pgid := 1, p_brk := USER_BRK_START,
      p_cr3 := paging_current_cr3 (s\<lparr>tasks := replicate PROC_MAX_TASKS zero_task, current_task := 0\<rparr>)\<rparr>)"
  define s2 where "s2 = on_task 0 g (s\<lparr>tasks := replicate PROC_MAX_TASKS zero_task, current_task := 0\<rparr>)"
  have v2: "heap_view s2 = heap_view s" "inodes s2 = inodes s" "root_inode s2 = root_inode s"
    by (simp_all add: s2_def heap_view_def on_task_def)
  have vok: "vfs_ok s2" using vfs_view_same [OF v2] b by (simp add: before_init_def)
  then have inv: "heap_inv s2" by (simp add: vfs_ok_def)
  have nz: "TASK_KERNEL_STACK_SIZE \<noteq> 0" and b2: "heap_budget (unat TASK_KERNEL_STACK_SIZE + 0x11000 + (0x36000 + c)) s2"
    using budget heap_view_same(3) [OF v2(1)] by (simp_all add: heap_budget_def)
  obtain stack s3 where k: "kmalloc TASK_KERNEL_STACK_SIZE s2 = Some (stack, s3)" "heap_inv s3" "heap_budget (0x36000 + c) s3"
    "kheap.more s3 = kheap.more s2" "stack \<noteq> 0 \<Longrightarrow> \<not> kmalloc_live s2 stack"
    "\<And>q. kmalloc_live s3 q \<longleftrightarrow> (stack \<noteq> 0 \<and> q = stack) \<or> kmalloc_live s2 q"
    by (rule kmalloc_step [OF inv nz b2]) blast
  note f = proc_fields [OF k(4)]
  have v3: "vfs_ok s3" using vfs_ok_heap [OF vok k(2,4)] k(6) by blast
  define t0 where "t0 = (let t = (g zero_task)\<lparr>p_kernel_stack := stack\<rparr>
      in (if stack \<noteq> 0 then t\<lparr>p_kernel_rsp := stack + TASK_KERNEL_STACK_SIZE\<rparr> else t)\<lparr>p_state := TASK_RUNNING, p_cwd := [slash]\<rparr>)"
  define s6 where "s6 = on_task 0 (\<lambda>_. t0) s3"
  have run: "proc_init s = proc_open_standard_fds s6"
    unfolding proc_init_def Let_def g_def [symmetric] s2_def [symmetric] k(1)
    by (simp add: s6_def t0_def on_task_def s2_def f Let_def)
  have t3: "tasks s3 = (replicate 16 zero_task)[0 := g zero_task]" using f(1) by (simp add: s2_def)
  have v6: "heap_view s6 = heap_view s3" "inodes s6 = inodes s3" "root_inode s6 = root_inode s3" by (simp_all add: s6_def)
  have "fds_ok s6"
  proof (rule fds_ok_first [OF b, where ?t0.0 = t0])
    show "vfs_ok s6" using vfs_view_same [OF v6] v3 by simp
    show "tasks s6 = (replicate 16 zero_task)[0 := t0]" by (simp add: s6_def t3)
  qed (use b f in \<open>simp_all add: s6_def s2_def t0_def g_def zero_task_def Let_def before_init_def on_task_def\<close>)
  moreover have "heap_budget (0x12000 + (0x12000 + (0x12000 + c))) s6" using heap_view_same(3) [OF v6(1)] k(3) by (simp add: heap_budget_def)
  ultimately obtain s7 where 7: "proc_open_console_fd 0 s6 = Some s7" "fds_ok s7" "heap_budget (0x12000 + (0x12000 + c)) s7" "current_task s7 = current_task s6" "pipes s7 = pipes s6"
    by (rule console_fd_ok)
  obtain s8 where 8: "proc_open_console_fd 1 s7 = Some s8" "fds_ok s8" "heap_budget (0x12000 + c) s8" "current_task s8 = current_task s7" "pipes s8 = pipes s7"
    by (rule console_fd_ok [OF 7(2,3)])
  obtain s9 where 9: "proc_open_console_fd 2 s8 = Some s9" "fds_ok s9" "heap_budget c s9" "current_task s9 = current_task s8" "pipes s9 = pipes s8"
    by (rule console_fd_ok [OF 8(2,3)])
  have "current_task s6 = 0" "pipes s6 = pipes s" using f(2,3) by (simp_all add: s6_def s2_def on_task_def)
  then show thesis using that [OF _ 9(2,3)] 7(1,4,5) 8(1,4,5) 9(1,4,5) run by (simp add: proc_open_standard_fds_def)
qed

section \<open>Steps\<close>

text \<open>What the calls of the tasks do to the descriptors.  Duplicating a descriptor onto itself and a duplication that
  ends without memory are left out: they leave a dangling descriptor (\<open>fd_dup_same\<close>, \<open>fd_dup2_ok\<close>).  Reading,
  seeking and listing move the position of an open file; the bytes of a pipe move through \<open>pipe_write\<close> and \<open>pipe_read\<close>.\<close>

inductive fd_step :: "'a kproc_scheme \<Rightarrow> 'a kproc_scheme \<Rightarrow> bool" where
  open_path: "sys_open_path path s = Some (r, s') \<Longrightarrow> fd_step s s'"
| close: "sys_close fd s = Some (r, s') \<Longrightarrow> fd_step s s'"
| dup: "fd_dup_to fd (- 1) s = Some (r, s') \<Longrightarrow> fd_step s s'"
| dup2: "fd_dup_to fd newfd s = Some (r, s') \<Longrightarrow> 0 \<le> newfd \<Longrightarrow> newfd \<noteq> fd \<Longrightarrow> r \<noteq> - E_NOMEM \<Longrightarrow> fd_step s s'"
| dup_from: "fd_dup_from fd minfd s = Some (r, s') \<Longrightarrow> fd_step s s'"
| pipe_new: "sys_pipe_impl ufd s = Some (r, s') \<Longrightarrow> fd_step s s'"
| pipe_in: "k < 8 \<Longrightarrow> in_use (pipes s ! k) \<Longrightarrow> pipe_write bs n (pipes s ! k) = Some (m, p) \<Longrightarrow> fd_step s (on_pipe k (\<lambda>_. p) s)"
| pipe_out: "k < 8 \<Longrightarrow> in_use (pipes s ! k) \<Longrightarrow> pipe_read room n (pipes s ! k) = Some (bs, p) \<Longrightarrow> fd_step s (on_pipe k (\<lambda>_. p) s)"
| seek: "held s x = Some a \<Longrightarrow> files s a = Some f \<Longrightarrow> fd_step s (fput a (f\<lparr>vf_pos := pos\<rparr>) s)"
| fork: "proc_fork s = Some (r, s') \<Longrightarrow> fd_step s s'"
| exit: "fd_step s (snd (proc_exit status s))"
| reap: "proc_fork_take_status pid s = (r, st, s') \<Longrightarrow> fd_step s s'"
| activate: "i < 16 \<Longrightarrow> p_state (task s i) \<noteq> TASK_UNUSED \<Longrightarrow> fd_step s (proc_activate i s)"

text \<open>There is memory for a whole fork, and no reference count is about to overflow.\<close>

definition ample :: "'a kproc_scheme \<Rightarrow> bool" where
  "ample s \<longleftrightarrow> heap_budget 0x261000 s \<and> counts_ok s"

lemma pipe_write_ok:
  "pipe_write bs n p = Some (m, p') \<Longrightarrow>
     (pipe_ok p \<longrightarrow> pipe_ok p') \<and> readers p' = readers p \<and> writers p' = writers p \<and> in_use p' = in_use p"
proof (induction bs n p arbitrary: m p' rule: pipe_write.induct)
  case (2 bs n p)
  show ?case
  proof (cases "count p < PIPE_SIZE")
    case True
    then obtain b rest k where b: "bs = b # rest" "pipe_write rest n (pipe_put b p) = Some (k, p')"
      using 2(2) by (auto split: list.splits Option.bind_splits)
    show ?thesis using 2(1) [OF True b] pipe_put_ok(1) [OF _ True, of b] by (simp add: pipe_put_def)
  qed (use 2(2) in simp)
qed simp

lemma pipe_read_ok:
  "pipe_read room n p = Some (bs, p') \<Longrightarrow>
     (pipe_ok p \<longrightarrow> pipe_ok p') \<and> readers p' = readers p \<and> writers p' = writers p \<and> in_use p' = in_use p"
proof (induction room n p arbitrary: bs p' rule: pipe_read.induct)
  case (2 room n p)
  show ?case
  proof (cases "count p > 0")
    case True
    obtain b p1 where t: "pipe_take p = (b, p1)" by (cases "pipe_take p")
    then obtain room' bs' where b: "room = Suc room'" "pipe_read room' n p1 = Some (bs', p')"
      using 2(2) True by (auto split: nat.splits Option.bind_splits)
    have "(pipe_ok p1 \<longrightarrow> pipe_ok p') \<and> readers p' = readers p1 \<and> writers p' = writers p1 \<and> in_use p' = in_use p1"
      using 2(1) [OF True b(1) t [symmetric] refl b(2)] by simp
    moreover have p1: "p1 = snd (pipe_take p)" using t by simp
    moreover have "pipe_ok p \<longrightarrow> pipe_ok p1" unfolding p1 using pipe_take_ok(1) [OF _ True] by blast
    moreover have "readers p1 = readers p \<and> writers p1 = writers p \<and> in_use p1 = in_use p" by (simp add: p1 pipe_take_def)
    ultimately show ?thesis by simp
  qed (use 2(2) in simp)
qed simp

text \<open>A pipe whose bytes moved.\<close>

lemma pipe_bytes_ok:
  assumes ok: "fds_ok s"
    and p: "(pipe_ok (pipes s ! k) \<longrightarrow> pipe_ok p) \<and> readers p = readers (pipes s ! k) \<and> writers p = writers (pipes s ! k) \<and>
      in_use p = in_use (pipes s ! k)"
  shows "fds_ok (on_pipe k (\<lambda>_. p) s)"
proof -
  let ?s = "on_pipe k (\<lambda>_. p) s"
  note o = own_okD [OF fds_okD(3) [OF ok]]
  have same: "readers (pipes ?s ! j) = readers (pipes s ! j)" "writers (pipes ?s ! j) = writers (pipes s ! j)"
    "in_use (pipes ?s ! j) = in_use (pipes s ! j)" "in_use (pipes ?s ! j) \<Longrightarrow> pipe_ok (pipes ?s ! j)" if "j < 8" for j
    using that p o(3) fds_okD(4) [OF ok that] by (cases "j = k"; simp)+
  have fo: "file_ok I (pipes ?s) f = file_ok I (pipes s) f" for I f using same(3) by (auto simp: file_ok_def)
  have live: "kmalloc_live ?s = kmalloc_live s" by (rule heap_view_same) simp
  have "own_ok (held ?s) (files ?s) (pipes ?s) (kmalloc_live ?s) (inodes ?s)"
    using fds_okD(3) [OF ok] same(1,2) held_same [of ?s s] unfolding own_ok_def fo live by simp
  moreover have "vfs_ok ?s" using vfs_view_same [of ?s s] fds_okD(2) [OF ok] by simp
  ultimately show ?thesis using fds_okD(1) [OF ok] same(4) by (simp add: fds_ok_def)
qed

lemma seek_ok:
  assumes ok: "fds_ok s" and h: "held s x = Some a" and f: "files s a = Some f"
  shows "fds_ok (fput a (f\<lparr>vf_pos := pos\<rparr>) s)"
proof -
  let ?s = "fput a (f\<lparr>vf_pos := pos\<rparr>) s"
  have "file_ok (inodes s) (pipes s) f" using own_okD(7) [OF fds_okD(3) [OF ok], of a] ranI [of "held s", OF h] f by auto
  then have "own_ok (held s) ((files s)(a \<mapsto> f\<lparr>vf_pos := pos\<rparr>)) (pipes s) (kmalloc_live s) (inodes s)"
    by (intro own_file [OF fds_okD(3) [OF ok] h f]) (auto simp: file_ok_def)
  moreover have "kmalloc_live ?s = kmalloc_live s" by (rule heap_view_same) simp
  moreover have "vfs_ok ?s" using vfs_view_same [of ?s s] fds_okD(2) [OF ok] by simp
  ultimately show ?thesis using fds_okD(1,4) [OF ok] held_same [of ?s s] by (simp add: fds_ok_def)
qed

lemma exit_fds_ok:
  assumes ok: "fds_ok s"
  shows "fds_ok (snd (proc_exit status s))"
proof -
  note po = procs_okD [OF fds_okD(1) [OF ok]]
  let ?z = "zombify status s" and ?s = "proc_wake_parent (zombify status s)"
  have okz: "procs_ok ?z" using zombify_ok [OF fds_okD(1) [OF ok]] .
  have "heap_view ?z = heap_view s" "root_inode ?z = root_inode s" "inodes ?z = inodes s" by (simp_all add: zombify_def)
  then have "heap_view ?s = heap_view s" "inodes ?s = inodes s" "root_inode ?s = root_inode s"
    by (auto simp: proc_wake_parent_def split: option.splits)
  note same = this
  have hz: "held ?z = held s"
    unfolding zombify_def by (rule held_on_task) (use po(1-3) in simp_all)
  have lz: "length (tasks ?z) = 16" using procs_okD(1) [OF okz] .
  have "held ?s x = held ?z x" for x
    using wake_parent_task [OF okz] by (cases x) (auto simp: held_def)
  then have "held ?s = held ?z" by (rule ext)
  then have hs: "held ?s = held s" using hz by simp
  have "fds_ok ?s"
    by (rule fds_ok_table [OF ok])
      (use wake_parent_ok [OF okz] hs same vfs_view_same [OF same] fds_okD(2) [OF ok] heap_view_same(2) [OF same(1)] in \<open>simp_all add: zombify_def\<close>)
  then show ?thesis by (simp add: proc_exit_eq)
qed

lemma activate_fds_ok:
  assumes ok: "fds_ok s" and i: "i < 16" "p_state (task s i) \<noteq> TASK_UNUSED"
  shows "fds_ok (proc_activate i s)"
proof -
  let ?t = "proc_switch_current i s"
  have "procs_ok ?t" using fds_okD(1) [OF ok] i by (simp add: procs_ok_def proc_switch_current_def)
  moreover have "held ?t = held s" by (rule held_same) (simp add: proc_switch_current_def)
  ultimately have t: "fds_ok ?t"
    by (intro fds_ok_table [OF ok])
      (use fds_okD(2) [OF ok] vfs_view_same [of ?t s] heap_view_same(2) [of ?t s] in \<open>simp_all add: proc_switch_current_def heap_view_def\<close>)
  define v where "v = wrmsr_fs_base (p_fs_base (task s i)) (paging_switch_cr3 (p_cr3 (task s i)) ?t)"
  define u where "u = (if p_kernel_rsp (task v i) \<noteq> 0 then gdt_set_rsp0 (p_kernel_rsp (task v i)) v else v)"
  have u: "proc_activate i s = set_state i TASK_RUNNING u" by (simp add: proc_activate_def Let_def u_def v_def)
  have "agree ?t v" "agree v u"
    by (simp_all add: u_def v_def agree_def heap_view_def wrmsr_fs_base_def gdt_set_rsp0_def paging_switch_cr3_def Let_def)
  then have ag: "agree ?t u" by (simp add: agree_def)
  have "fds_ok u" using fds_ok_agree [OF ag] t by simp
  then show ?thesis
    unfolding u by (rule set_state_fds_ok [OF _ i(1)]) (use ag i(2) in \<open>auto simp: agree_def proc_switch_current_def\<close>)
qed

lemma reap_fds_ok:
  assumes ok: "fds_ok s" and run: "proc_fork_take_status pid s = (r, st, s')"
  shows "fds_ok s'"
proof -
  have "fds_ok (set_state i TASK_UNUSED s)" if "i < 16" "p_parent (task s i) = Some (current_task s)" for i
    by (rule set_state_fds_ok [OF ok that(1)]) (use procs_okD(4) [OF fds_okD(1) [OF ok] that(1)] that(2) in \<open>auto simp: task_ok_def\<close>)
  then show ?thesis using take_status_spec [OF run] ok by blast
qed

lemma fd_step_ok: "fd_step s s' \<Longrightarrow> ample s \<Longrightarrow> fds_ok s \<Longrightarrow> fds_ok s'"
proof (induction rule: fd_step.induct)
  case (open_path path s r s')
  have "heap_budget (0x12000 + 0) s" using open_path(2) heap_budget_le by (simp add: ample_def heap_budget_def)
  then show ?case using sys_open_ok(1) [OF open_path(3) _ open_path(1)] by blast
next
  case (close fd s r s')
  show ?case by (rule sys_close_ok [OF close(3), of fd]) (use close(1) in auto)
next
  case (dup fd s r s')
  then have b: "heap_budget (0x12000 + 0) s" "counts_ok s" by (simp_all add: ample_def heap_budget_def)
  show ?case by (rule fd_dup_ok [OF dup(3) b, of fd]) (use dup(1) in auto)
next
  case (dup2 fd newfd s r s')
  then have b: "heap_budget (0x12000 + 0) s" "counts_ok s" by (simp_all add: ample_def heap_budget_def)
  show ?case by (rule fd_dup2_ok [OF dup2(6) b dup2(2,3)]) (use dup2(1,4,6) in auto)
next
  case (dup_from fd minfd s r s')
  then have b: "heap_budget (0x12000 + 0) s" "counts_ok s" by (simp_all add: ample_def heap_budget_def)
  show ?case by (rule fd_dup_from_ok [OF dup_from(3) b, of fd minfd]) (use dup_from(1) in auto)
next
  case (pipe_new ufd s r s')
  then have b: "heap_budget (0x24000 + 0) s" by (simp add: ample_def heap_budget_def)
  show ?case using sys_pipe_ok [OF pipe_new(3) b pipe_new(1)] by blast
next
  case (pipe_in k s bs n m p)
  then show ?case by (intro pipe_bytes_ok pipe_write_ok)
next
  case (pipe_out k s room n bs p)
  then show ?case by (intro pipe_bytes_ok pipe_read_ok)
next
  case (fork s r s')
  then have b: "heap_budget (0x261000 + 0) s" by (simp add: ample_def)
  show ?case using proc_fork_ok [OF fork(3) b fork(1)] by blast
qed (simp_all add: seek_ok exit_fds_ok activate_fds_ok reap_fds_ok)


text \<open>The machine before the first task, on the file system of \<open>vfs_example\<close>.\<close>

definition boot_procs :: kproc where
  "boot_procs = kvfs.extend (kvfs.truncate vfs_example)
     (kproc.fields (replicate 16 zero_task) 0 (replicate 8 zero_pipe) 2 (\<lambda>a. None) False None 0 0)"

lemma boot_procs_view:
  "pipes boot_procs = replicate 8 zero_pipe"
  "next_pid boot_procs = 2" "fork_jmp_parent boot_procs = None" "heap_current boot_procs = 0x10010000"
  by (simp_all add: boot_procs_def kvfs.defs kproc.defs heap_view_def)

lemma boot_procs_before: "before_init boot_procs"
proof -
  have "heap_ok boot_procs [(0x10000000, 0x20, False), (0x10000040, 0xFFA0, True)]"
    by (simp add: heap_ok_def heap_shape_def boot_procs_def kvfs.defs kproc.defs insert_commute)
  then have "heap_inv boot_procs" unfolding heap_inv_def by blast
  then have "vfs_ok boot_procs"
    using vfs_example_ok unfolding vfs_ok_def
    by (simp add: kmalloc_live_def inode_ok_def boot_procs_def kvfs.defs kproc.defs)
  then show ?thesis by (simp add: before_init_def boot_procs_view zero_pipe_def)
qed


section \<open>Fork makes a copy\<close>

text \<open>C9. Fork.  When it returns a pid, the child under that pid is a task of its own in a slot that was free, with the
  context, the break and the working directory of its parent and 0 for its result; it holds copies of exactly the open
  files that the parent holds, under the same descriptors, and the parent's are as they were; no other task has changed.
  When it fails, -1 is returned.  Either way every descriptor still has a file of its own.\<close>

theorem fork_copies:
  assumes "fds_ok s" and "heap_budget 0x261000 s" and "proc_fork s = Some (r, s')"
  shows "fds_ok s' \<and> (r = - 1 \<or> forked r s s')"
proof -
  have "heap_budget (0x261000 + 0) s" using assms(2) by simp
  then show ?thesis using proc_fork_ok [OF assms(1) _ assms(3)] by blast
qed

text \<open>A task with one open file on a machine with nothing mapped.\<close>

lemma for_status_skip: "(\<And>i. i \<in> set is \<Longrightarrow> body i s = Some (0, s)) \<Longrightarrow> for_status body is s = Some (0, s)"
  by (induction "is") simp_all

lemma clone_empty:
  assumes "frames_ok s" and "mem s = (\<lambda>a. 0)" and "free_tables s \<noteq> {}"
  obtains t s' where "paging_clone_current_address_space u s = Some (t, s')" and "t \<noteq> 0"
proof -
  obtain t s1 where al: "paging_alloc_table s = (t, s1)" by fastforce
  have t: "t \<noteq> 0" using alloc_table_succeeds [OF assms(1,3)] al by simp
  have "mem s1 = (\<lambda>a. 0)"
    using al assms(2) t by (auto simp: paging_alloc_table_def Let_def memset8_apply bitmap_set_def split: option.splits)
  then have "for_status (\<lambda>i s'. (let e = get_entry (pml4 s) (of_nat i) s'
                   in if \<not> pte_present e then Some (0, s')
                      else if \<not> u \<or> \<not> pte_user e then Some (0, set_entry t (of_nat i) e s')
                      else paging_clone_user_pdpt t (table_entry_virt e) (of_nat i)
                             (push_bit 39 (of_nat i)) s')) [0..<512] s1 = Some (0, s1)"
    by (intro for_status_skip) (simp add: zero_entry pte_present_def Let_def)
  then have "paging_clone_current_address_space u s = Some (t, s1)"
    using al t by (simp add: paging_clone_current_address_space_def)
  then show thesis using that t by blast
qed

lemma fork_fds_none: "(\<And>i. i \<in> set is \<Longrightarrow> p_fds (task s p) ! i = 0) \<Longrightarrow> fork_fds p c is s = Some (True, s)"
  by (induction "is") simp_all

lemma heap_ok_view: "heap_view s' = heap_view s \<Longrightarrow> heap_ok s' L = heap_ok s L"
  by (simp add: heap_view_def heap_ok_def heap_shape_def)

definition fork_layout :: layout where
  "fork_layout = [(0x10000000, 0x20, False), (0x10000040, 0x120, False), (0x10000180, 0x7FE60, True)]"

definition fork_example :: kproc where
  "fork_example = boot_procs\<lparr>heap_current := 0x10080000, heap_mapped_end := 0x10080000,
     hblocks := [0x10000000 \<mapsto> \<lparr>hb_size = 0x20, hb_free = False, hb_next = 0x10000040, hb_prev = 0\<rparr>,
       0x10000040 \<mapsto> \<lparr>hb_size = 0x120, hb_free = False, hb_next = 0x10000180, hb_prev = 0x10000000\<rparr>,
       0x10000180 \<mapsto> \<lparr>hb_size = 0x7FE60, hb_free = True, hb_next = 0, hb_prev = 0x10000040\<rparr>],
     tasks := zero_task\<lparr>p_pid := 1, p_state := TASK_RUNNING, p_fds := 0x10000060 # replicate 31 0\<rparr> # replicate 15 zero_task,
     files := [0x10000060 \<mapsto> blank_file\<lparr>vf_path := console_path\<rparr>]\<rparr>"

lemma fork_example_heap: "heap_ok fork_example fork_layout"
  by (simp add: heap_ok_def heap_shape_def fork_example_def fork_layout_def boot_procs_def kvfs.defs kproc.defs insert_commute)

lemma fork_example_simps:
  "tasks fork_example = zero_task\<lparr>p_pid := 1, p_state := TASK_RUNNING, p_fds := 0x10000060 # replicate 31 0\<rparr> # replicate 15 zero_task"
  "files fork_example = [0x10000060 \<mapsto> blank_file\<lparr>vf_path := console_path\<rparr>]" "pipes fork_example = replicate 8 zero_pipe"
  "current_task fork_example = 0" "next_pid fork_example = 2" "fork_jmp_parent fork_example = None"
  "inodes fork_example = inodes vfs_example" "root_inode fork_example = root_inode vfs_example" "mem fork_example = (\<lambda>a. 0)"
  "frames_ok fork_example = frames_ok boot_example" "free_tables fork_example = free_tables boot_example"
  by (simp_all add: fork_example_def boot_procs_def kvfs.defs kproc.defs kheap.defs kpaging.defs vfs_example_def heap_example_def
      frames_ok_def free_tables_def frame_used_def bitmap_test_def boot_example_def)

lemma fork_example_ok: "fds_ok fork_example"
proof -
  note e = fork_example_simps
  let ?t = "zero_task\<lparr>p_pid := 1, p_state := TASK_RUNNING, p_fds := 0x10000060 # replicate 31 0\<rparr>"
  have t: "task fork_example i = (if i = 0 then ?t else zero_task)" if "i < 16" for i
    using that by (simp add: e nth_Cons')
  have len: "length (tasks fork_example) = 16" by (simp add: e)
  have p: "procs_ok fork_example"
    unfolding procs_ok_def using t len by (auto simp: e(2-) task_ok_def zero_task_def)
  have "heap_inv fork_example" using fork_example_heap unfolding heap_inv_def by blast
  moreover have "kmalloc_live fork_example a" if "a = 0x10000020 \<or> a = 0x10000060" for a
    using that by (auto simp: kmalloc_live_def fork_example_def)
  moreover note live = this
  ultimately have v: "vfs_ok fork_example"
    by (auto simp: vfs_ok_def e inode_ok_def blank_inode_def)
  have held: "held fork_example = [(0, 0) \<mapsto> 0x10000060]"
  proof
    fix x :: slot
    obtain i fd where x: "x = (i, fd)" by (cases x)
    have "i < 16 \<Longrightarrow> fd < 32 \<Longrightarrow> p_fds (task fork_example i) ! fd = (if i = 0 \<and> fd = 0 then 0x10000060 else 0)"
      using t by (simp add: nth_Cons' zero_task_def)
    then show "held fork_example x = [(0, 0) \<mapsto> 0x10000060] x"
      using t by (cases "i = 0") (auto simp: held_def x zero_task_def)
  qed
  have "refs (held fork_example) (files fork_example) k m = {}" for k m
    by (auto simp: refs_def held e points_def blank_file_def split: if_splits)
  then have "own_ok (held fork_example) (files fork_example) (pipes fork_example) (kmalloc_live fork_example) (inodes fork_example)"
    using live by (simp add: own_ok_def held e zero_pipe_def)
  then show ?thesis using p v by (simp add: fds_ok_def e zero_pipe_def)
qed

lemma fork_example_runs: "\<exists>r s'. proc_fork fork_example = Some (r, s') \<and> r = 2"
proof -
  note e = fork_example_simps
  define s1 where "s1 = (on_task 1 (\<lambda>t. zero_task\<lparr>p_pid := 2, p_state := TASK_RUNNABLE, p_cr3 := paging_current_cr3 fork_example\<rparr>)
      fork_example)\<lparr>next_pid := 3\<rparr>"
  have len: "length (tasks fork_example) = 16" by (simp add: e)
  have find: "find_task (\<lambda>t. p_state t = TASK_UNUSED) fork_example = Some 1"
    by (simp add: find_task_def e upt_rec zero_task_def)
  have "heap_view s1 = heap_view fork_example" by (simp add: s1_def on_task_def heap_view_def)
  then have h1: "heap_ok s1 fork_layout" using heap_ok_view fork_example_heap by blast
  have fit: "fit_layout (fit_size TASK_KERNEL_STACK_SIZE) fork_layout = Some (0x10000180,
      [(0x10000000, 0x20, False), (0x10000040, 0x120, False), (0x10000180, 0x10000, False), (0x100101A0, 0x6FE40, True)])"
    by (simp add: fork_layout_def fit_size_def align_up_def split_layout_def)
  obtain h where k1: "kmalloc TASK_KERNEL_STACK_SIZE s1 = Some (0x100001A0, s1\<lparr>hblocks := h\<rparr>)"
    and h2: "heap_ok (s1\<lparr>hblocks := h\<rparr>) [(0x10000000, 0x20, False), (0x10000040, 0x120, False), (0x10000180, 0x10000, False), (0x100101A0, 0x6FE40, True)]"
    by (rule kmalloc_fit [OF h1 _ _ fit]) simp_all
  define s2 where "s2 = on_task 1 (\<lambda>t. t\<lparr>p_kernel_rsp := 0x100101A0\<rparr>) (on_task 1 (\<lambda>t. t\<lparr>p_kernel_stack := 0x100001A0\<rparr>) (s1\<lparr>hblocks := h\<rparr>))"
  have al: "proc_alloc_task fork_example = Some (Some 1, s2)"
    using find k1 by (simp add: proc_alloc_task_def int_inc_def e s1_def s2_def)
  have fr: "frames_ok s2" "mem s2 = (\<lambda>a. 0)" "free_tables s2 \<noteq> {}"
  proof -
    have same: "frames_ok s2 = frames_ok fork_example" "mem s2 = mem fork_example" "free_tables s2 = free_tables fork_example"
      by (simp_all add: s2_def s1_def on_task_def frames_ok_def free_tables_def frame_used_def bitmap_test_def)
    show "frames_ok s2" "mem s2 = (\<lambda>a. 0)" "free_tables s2 \<noteq> {}"
      using boot_example_ok(2) boot_example_free by (auto simp: same e)
  qed
  obtain t s3 where cl: "paging_clone_current_address_space True s2 = Some (t, s3)" "t \<noteq> 0" by (rule clone_empty [OF fr])
  note ag = agree_paging_more [OF clone_more [OF cl(1)], unfolded agree_def]
  define s4 where "s4 = on_task 1 (\<lambda>u. u\<lparr>p_cr3 := t, p_brk := p_brk (task s3 0), p_ppid := p_pid (task s3 0),
      p_sid := p_sid (task s3 0), p_pgid := p_pgid (task s3 0), p_parent := Some 0,
      p_user_rip := p_user_rip (task s3 0), p_user_rsp := p_user_rsp (task s3 0),
      p_user_rflags := p_user_rflags (task s3 0), p_user_rax := 0,
      p_user_regs := p_user_regs (task s3 0), p_fs_base := p_fs_base (task s3 0), p_cwd := p_cwd (task s3 0)\<rparr>) s3"
  have "heap_view s4 = heap_view (s1\<lparr>hblocks := h\<rparr>)" using ag by (simp add: s4_def s2_def)
  then have h4: "heap_ok s4 [(0x10000000, 0x20, False), (0x10000040, 0x120, False), (0x10000180, 0x10000, False), (0x100101A0, 0x6FE40, True)]"
    using heap_ok_view h2 by blast
  have fit4: "fit_layout (fit_size sizeof_vfs_file) [(0x10000000, 0x20, False), (0x10000040, 0x120, False), (0x10000180, 0x10000, False), (0x100101A0, 0x6FE40, True)] =
      Some (0x100101A0, [(0x10000000, 0x20, False), (0x10000040, 0x120, False), (0x10000180, 0x10000, False), (0x100101A0, 0x120, False), (0x100102E0, 0x6FD00, True)])"
    by (simp add: fit_size_def align_up_def split_layout_def)
  obtain h' where k4: "kmalloc sizeof_vfs_file s4 = Some (0x100101C0, s4\<lparr>hblocks := h'\<rparr>)"
    by (rule kmalloc_fit [OF h4 _ _ fit4]) simp_all
  define s5 where "s5 = set_fd 1 0 0x100101C0 (s4\<lparr>hblocks := h'\<rparr>)"
  define s6 where "s6 = fput 0x100101C0 (blank_file\<lparr>vf_path := console_path\<rparr>) s5"
  have t3: "tasks s3 = tasks s2" "files s3 = files fork_example" "current_task s3 = 0"
    using ag by (simp_all add: s2_def s1_def e)
  have t2: "task s2 0 = task fork_example 0" "length (tasks s2) = 16" "p_pid (task s2 1) = 2"
    using len by (simp_all add: s2_def s1_def)
  have t6: "task s6 0 = task fork_example 0" "p_pid (task s6 1) = 2" "length (tasks s6) = 16"
    using t3 t2 by (simp_all add: s6_def s5_def s4_def)
  have f4: "files s4 0x10000060 = Some (blank_file\<lparr>vf_path := console_path\<rparr>)"
    using t3 by (simp add: s4_def e)
  have s6: "fput 0x100101C0 (blank_file\<lparr>vf_path := console_path\<rparr>) (set_fd 1 0 0x100101C0 (s4\<lparr>hblocks := h'\<rparr>)) = s6"
    by (simp add: s6_def s5_def)
  have fds: "p_fds (task fork_example 0) = 0x10000060 # replicate 31 0" by (simp add: e)
  have rest: "fork_fds 0 1 [1..<PROC_MAX_FD] s6 = Some (True, s6)"
    by (rule fork_fds_none) (auto simp: t6(1) fds nth_Cons' intro!: nth_replicate)
  have upt: "[0..<PROC_MAX_FD] = 0 # [1..<PROC_MAX_FD]" by (simp add: upt_conv_Cons)
  have "pipe_ref (blank_file\<lparr>vf_path := console_path\<rparr>) s6 = Some s6" by (simp add: pipe_ref_def blank_file_def)
  moreover have "p_fds (task s4 0) ! 0 = 0x10000060" using t3(1) t2 fds by (simp add: s4_def)
  ultimately have fk: "fork_fds 0 1 [0..<PROC_MAX_FD] s4 = Some (True, s6)"
    unfolding upt using k4 rest f4 s6 by (simp add: Let_def)
  have "proc_fork fork_example = Some (2, set_state 1 TASK_RUNNABLE s6)"
    unfolding proc_fork_def Let_def e(4) using al cl fk t6 s4_def [symmetric]
    by (simp add: set_state_def)
  then show ?thesis by blast
qed

theorem fork_copies_witness:
  "\<exists>s'. proc_fork fork_example = Some (2, s') \<and> forked 2 fork_example s'"
proof -
  obtain s' where run: "proc_fork fork_example = Some (2, s')" using fork_example_runs by auto
  have "heap_budget 0x261000 fork_example" by (simp add: heap_budget_def fork_example_def)
  then have "(2 :: int) = - 1 \<or> forked 2 fork_example s'" using fork_copies [OF fork_example_ok _ run] by blast
  then show ?thesis using run by simp
qed

end
