(* ===== verification/Calls.thy ===== *)
theory Calls
  imports Reach Syscall
begin

unbundle bit_operations_syntax

text \<open>
  Every system call keeps the invariant of the process table (\<open>fds_ok\<close> of \<open>Fds\<close>): what \<open>syscall_dispatch\<close> of \<^verbatim>\<open>core/syscall.c\<close>
  does to tasks, descriptors, open files and pipes, the calls that wait for other tasks included.
\<close>

section \<open>What the invariant does not see\<close>

lemma more_fds_ok: "kpaging.more s' = kpaging.more s \<Longrightarrow> fds_ok s' = fds_ok s"
  by (rule fds_ok_agree [OF agree_paging_more])

lemma more_fds_get: "kpaging.more s' = kpaging.more s \<Longrightarrow> tasks s' = tasks s \<and> current_task s' = current_task s \<and> files s' = files s"
  using proc_fields [OF proc_fields_paging] by metis

lemma console_fds_ok [simp]:
  "fds_ok (s\<lparr>vga_dev := v\<rparr>) = fds_ok s" "fds_ok (s\<lparr>buffer_tail := i\<rparr>) = fds_ok s" "fds_ok (s\<lparr>buffer_head := i\<rparr>) = fds_ok s"
  by (rule fds_ok_agree; simp add: agree_def heap_view_def)+

lemma sched_fds_ok [simp]:
  "fds_ok (s\<lparr>rr_index := r\<rparr>) = fds_ok s" "fds_ok (s\<lparr>ticks := t\<rparr>) = fds_ok s"
  by (rule fds_ok_agree; simp add: agree_def heap_view_def)+

lemma register_fds_ok [simp]:
  "fds_ok (wrmsr_fs_base w s) = fds_ok s" "fds_ok (gdt_set_rsp0 w s) = fds_ok s" "fds_ok (paging_switch_cr3 w s) = fds_ok s"
  by (rule fds_ok_agree; simp add: agree_def heap_view_def wrmsr_fs_base_def gdt_set_rsp0_def paging_switch_cr3_def Let_def)+

lemma fds_ok_view:
  assumes ok: "fds_ok s" and p: "procs_ok s'"
    and same: "tasks s' = tasks s" "heap_view s' = heap_view s" "inodes s' = inodes s" "root_inode s' = root_inode s"
      "files s' = files s" "pipes s' = pipes s"
  shows "fds_ok s'"
proof (rule fds_ok_table [OF ok p _ _ same(5,6,3)])
  show "held s' \<subseteq>\<^sub>m held s" using held_same [OF same(1)] by simp
  show "vfs_ok s'" using vfs_view_same [OF same(2-4)] fds_okD(2) [OF ok] by simp
  show "kmalloc_live s' q" if "kmalloc_live s q" for q using that heap_view_same(2) [OF same(2)] by simp
qed

text \<open>A change of a task outside its descriptors, its state and its place in the family.\<close>

definition same_owner :: "process \<Rightarrow> process \<Rightarrow> bool" where
  "same_owner t t' \<longleftrightarrow> p_fds t' = p_fds t \<and> p_state t' = p_state t \<and> p_pid t' = p_pid t \<and> p_parent t' = p_parent t \<and>
     length (p_user_regs t') = length (p_user_regs t)"

lemma on_task_fds_ok:
  assumes ok: "fds_ok s" and i: "i < 16" and f: "same_owner (task s i) (f (task s i))"
  shows "fds_ok (on_task i f s)"
proof (rule fds_ok_table [OF ok])
  note p = procs_okD [OF fds_okD(1) [OF ok]]
  note f' = f [unfolded same_owner_def]
  have "task_ok (next_pid s) i (f (task s i))" using p(4) [OF i] f' by (simp add: task_ok_def)
  then show "procs_ok (on_task i f s)" by (rule procs_ok_on_task [OF fds_okD(1) [OF ok] i]) (use f' p(3) in auto)
  have "held (on_task i f s) = held s" by (rule held_on_task) (use p(1) i f' in auto)
  then show "held (on_task i f s) \<subseteq>\<^sub>m held s" by simp
  show "vfs_ok (on_task i f s)" using vfs_view_same [of "on_task i f s" s] fds_okD(2) [OF ok] by simp
  show "kmalloc_live (on_task i f s) q" if "kmalloc_live s q" for q
    using that heap_view_same(2) [of "on_task i f s" s] by simp
qed simp_all

lemma current_lt: "fds_ok s \<Longrightarrow> current_task s < 16"
  using procs_okD(2) [OF fds_okD(1)] .

lemma wake_all_fds_ok: "fds_ok s \<Longrightarrow> fds_ok (sched_wake_all s)"
proof -
  have "fds_ok (wake_slot i s)" if "fds_ok s" "i < 16" for i and s :: "'a kproc_scheme"
    using that by (auto simp: wake_slot_def intro!: set_state_fds_ok)
  then have "fds_ok s \<Longrightarrow> \<forall>i \<in> set is. i < 16 \<Longrightarrow> fds_ok (fold wake_slot is s)" for "is" and s :: "'a kproc_scheme"
    by (induction "is" arbitrary: s) simp_all
  then show "fds_ok s \<Longrightarrow> fds_ok (sched_wake_all s)" by (simp add: sched_wake_all_def)
qed

section \<open>Waiting\<close>

text \<open>What the invariant asks of the parameters: what happens while another task runs keeps the invariant, and the task that waits
  for it is still there.\<close>

definition well_behaved :: "('a kproc_scheme \<Rightarrow> 'a kproc_scheme option) \<Rightarrow> bool" where
  "well_behaved run \<longleftrightarrow> (\<forall>s s'. fds_ok s \<longrightarrow> run s = Some s' \<longrightarrow>
     fds_ok s' \<and> (\<forall>p. fork_jmp_parent s = Some p \<longrightarrow> p_state (task s p) \<noteq> TASK_UNUSED \<longrightarrow> p_state (task s' p) \<noteq> TASK_UNUSED))"

lemma jmp_fds_ok:
  "fds_ok s \<Longrightarrow> fds_ok (s\<lparr>fork_jmp_active := b, fork_jmp_parent := None\<rparr>)"
  "fds_ok s \<Longrightarrow> fds_ok (s\<lparr>fork_jmp_parent := Some (current_task s), fork_jmp_active := b\<rparr>)"
proof -
  assume ok: "fds_ok s"
  note p = procs_okD [OF fds_okD(1) [OF ok]]
  have "0 < p_pid (cur s)" using p(4) [OF p(2)] p(3) by (simp add: task_ok_def)
  then have "procs_ok (s\<lparr>fork_jmp_active := b, fork_jmp_parent := None\<rparr>)"
    "procs_ok (s\<lparr>fork_jmp_parent := Some (current_task s), fork_jmp_active := b\<rparr>)"
    using fds_okD(1) [OF ok] by (simp_all add: procs_ok_def)
  from this [THEN fds_ok_view [OF ok]] show "fds_ok (s\<lparr>fork_jmp_active := b, fork_jmp_parent := None\<rparr>)"
    "fds_ok (s\<lparr>fork_jmp_parent := Some (current_task s), fork_jmp_active := b\<rparr>)"
    by (simp_all add: heap_view_def)
qed

lemma activate_jmp [simp]: "fork_jmp_parent (proc_activate i s) = fork_jmp_parent s"
  by (simp add: proc_activate_def Let_def wrmsr_fs_base_def gdt_set_rsp0_def paging_switch_cr3_def proc_switch_current_def)

lemma run_runnable_fds_ok:
  assumes ok: "fds_ok s" and w: "well_behaved run" and r: "proc_run_runnable run s = Some (went, s')"
  shows "fds_ok s'"
proof (cases "find (\<lambda>i. \<not> (p_state (task s i) \<noteq> TASK_RUNNABLE \<or> i = current_task s)) [0..<PROC_MAX_TASKS]")
  case None
  then show ?thesis using r ok by (simp add: proc_run_runnable_def Let_def)
next
  case (Some i)
  then have i: "i < 16" "p_state (task s i) = TASK_RUNNABLE" by (auto simp: find_Some_iff)
  let ?self = "current_task s" and ?s = "s\<lparr>fork_jmp_parent := Some (current_task s), fork_jmp_active := True\<rparr>"
  obtain s1 where s1: "run (proc_activate i ?s) = Some s1"
    "s' = proc_activate ?self (s1\<lparr>fork_jmp_active := False, fork_jmp_parent := None\<rparr>)"
    using r Some by (auto simp: proc_run_runnable_def Let_def split: Option.bind_splits)
  have "fds_ok (proc_activate i ?s)" using activate_fds_ok [OF jmp_fds_ok(2) [OF ok]] i by simp
  moreover have "fork_jmp_parent (proc_activate i ?s) = Some ?self" by simp
  moreover have "p_state (task (proc_activate i ?s) ?self) \<noteq> TASK_UNUSED"
    using procs_okD(1-3) [OF fds_okD(1) [OF ok]] i(1) by (simp add: proc_activate_def Let_def nth_list_update set_state_def)
  ultimately have "fds_ok s1" "p_state (task s1 ?self) \<noteq> TASK_UNUSED" using w s1(1) unfolding well_behaved_def by blast+
  then show ?thesis unfolding s1(2) using activate_fds_ok [OF jmp_fds_ok(1)] current_lt [OF ok] by simp
qed

lemma switch_fds_ok: "fds_ok s \<Longrightarrow> i < 16 \<Longrightarrow> p_state (task s i) \<noteq> TASK_UNUSED \<Longrightarrow> fds_ok (proc_switch_current i s)"
proof -
  assume ok: "fds_ok s" and i: "i < 16" "p_state (task s i) \<noteq> TASK_UNUSED"
  show ?thesis
    by (rule fds_ok_view [OF ok switch_current_ok [OF fds_okD(1) [OF ok] i]])
      (simp_all add: proc_switch_current_def heap_view_def)
qed

lemma switch_to_fds_ok:
  assumes ok: "fds_ok s" and n: "n < 16" "ready (task s n)"
  shows "fds_ok (sched_switch_to n s)"
proof -
  note p = procs_okD [OF fds_okD(1) [OF ok]]
  let ?s1 = "if p_state (cur s) = TASK_RUNNING then set_state (current_task s) TASK_RUNNABLE s else s"
  have ok1: "fds_ok ?s1" using ok p(2,3) by (auto intro!: set_state_fds_ok)
  have t1: "length (tasks ?s1) = 16" "p_state (task ?s1 n) \<noteq> TASK_UNUSED" using n p(1,2) by (auto simp: ready_def)
  have ok2: "fds_ok (set_state n TASK_RUNNING ?s1)" by (rule set_state_fds_ok [OF ok1 n(1)]) (use t1 in auto)
  have "p_state (task (set_state n TASK_RUNNING ?s1) n) \<noteq> TASK_UNUSED" using t1(1) n(1) by simp
  note ok3 = switch_fds_ok [OF ok2 n(1) this]
  show ?thesis
    using ok ok3 p(2,3) unfolding sched_switch_to_def Let_def proc_current_def
    by (auto intro!: set_state_fds_ok split del: if_split split: if_split)
qed

lemma yield_fds_ok:
  assumes "fds_ok s"
  shows "fds_ok (sched_yield s)"
proof (cases "sched_count_runnable s \<le> 1")
  case False
  then have "filter (\<lambda>i. ready (task s i)) [0..<16] \<noteq> []" by (auto simp: sched_count_runnable_def)
  then obtain k where k: "k < 16" "ready (task s k)" by (auto simp: filter_empty_conv)
  obtain n s1 where p: "sched_pick_next s = (n, s1)" by fastforce
  note q = pick_next_ready [OF k p]
  then obtain r where "s1 = s\<lparr>rr_index := r\<rparr>" by blast
  then have "fds_ok s1" "ready (task s1 n)" using q assms by simp_all
  then have "fds_ok (sched_switch_to n s1)" using q by (blast intro: switch_to_fds_ok)
  then show ?thesis using False p by (simp add: sched_yield_def)
qed (use assms in \<open>simp add: sched_yield_def\<close>)

lemma block_wait_fds_ok:
  assumes w: "well_behaved run" "well_behaved irq" and r: "block_wait run irq c s = Some s'" and ok: "fds_ok s"
  shows "fds_ok s'"
proof -
  have "well_behaved run \<longrightarrow> well_behaved irq \<longrightarrow> fds_ok s \<longrightarrow> fds_ok s'"
  proof (rule block_wait.raw_induct [where P = "\<lambda>run irq c s s'. well_behaved run \<longrightarrow> well_behaved irq \<longrightarrow> fds_ok s \<longrightarrow> fds_ok s'", OF _ r])
    fix f run irq c s s'
    assume IH: "\<And>run irq c s s'. f run irq c s = Some s' \<Longrightarrow> well_behaved run \<longrightarrow> well_behaved irq \<longrightarrow> fds_ok s \<longrightarrow> fds_ok s'"
      and body: "(if proc_current s = c \<and> p_state (task s c) = TASK_BLOCKED then
        do { (went, s1) \<leftarrow> proc_run_runnable run s;
             if went then Some s1 else do { s2 \<leftarrow> irq s1; f run irq c s2 } }
        else Some s) = Some s'"
    show "well_behaved run \<longrightarrow> well_behaved irq \<longrightarrow> fds_ok s \<longrightarrow> fds_ok s'"
    proof (intro impI)
      assume w: "well_behaved run" "well_behaved irq" and ok: "fds_ok s"
      show "fds_ok s'"
      proof (cases "proc_current s = c \<and> p_state (task s c) = TASK_BLOCKED")
        case True
        then obtain went s1 where s1: "proc_run_runnable run s = Some (went, s1)"
          "(if went then Some s1 else do { s2 \<leftarrow> irq s1; f run irq c s2 }) = Some s'"
          using body by (auto split: Option.bind_splits)
        note ok1 = run_runnable_fds_ok [OF ok w(1) s1(1)]
        show ?thesis
        proof (cases went)
          case False
          then obtain s2 where "irq s1 = Some s2" "f run irq c s2 = Some s'" using s1(2) by (auto split: Option.bind_splits)
          moreover from this have "fds_ok s2" using w(2) ok1 unfolding well_behaved_def by blast
          ultimately show ?thesis using IH w by blast
        qed (use s1(2) ok1 in simp)
      qed (use body ok in \<open>simp split: if_splits\<close>)
    qed
  qed
  then show ?thesis using w ok by blast
qed

lemma run_again_fds_ok: "fds_ok s \<Longrightarrow> c < 16 \<Longrightarrow> fds_ok (run_again c s)"
  by (auto simp: run_again_def intro!: set_state_fds_ok)

lemma block_fds_ok:
  assumes ok: "fds_ok s" and w: "well_behaved run" "well_behaved irq" and r: "sched_block_current run irq s = Some s'"
  shows "fds_ok s'"
proof -
  let ?c = "current_task s"
  obtain went s1 where s1: "proc_run_runnable run s = Some (went, s1)"
    using r by (auto simp: sched_block_current_def Let_def proc_current_def split: Option.bind_splits)
  note ok1 = run_runnable_fds_ok [OF ok w(1) s1]
  note c = current_lt [OF ok]
  show ?thesis
  proof (cases went)
    case True
    then show ?thesis using r s1 run_again_fds_ok [OF ok1 c] by (simp add: sched_block_current_def Let_def proc_current_def)
  next
    case False
    then have "s1 = s" using s1 by (auto simp: proc_run_runnable_def Let_def split: option.splits Option.bind_splits)
    then obtain s3 where s3: "block_wait run irq ?c (sched_yield (set_state ?c TASK_BLOCKED s)) = Some s3" "s' = run_again ?c s3"
      using r s1 False by (auto simp: sched_block_current_def Let_def proc_current_def split: Option.bind_splits)
    have "fds_ok (set_state ?c TASK_BLOCKED s)"
      by (rule set_state_fds_ok [OF ok c]) (use procs_okD(3) [OF fds_okD(1) [OF ok]] in auto)
    from block_wait_fds_ok [OF w s3(1) yield_fds_ok [OF this]] show ?thesis unfolding s3(2) by (rule run_again_fds_ok [OF _ c])
  qed
qed

section \<open>Reading and writing\<close>

lemma copy_fds_ok: "copy_to_user a bs s = Some (r, s') \<Longrightarrow> fds_ok s \<Longrightarrow> fds_ok s'"
  using fds_ok_agree [OF copy_to_user_agree] by blast

lemma answer_fds_ok: "answer a bs v s = Some (r, s') \<Longrightarrow> fds_ok s \<Longrightarrow> fds_ok s'"
  by (auto simp: answer_def dest: copy_fds_ok split: Option.bind_splits)

lemma if_Some_cases: "(if b then Some x else m) = Some r \<Longrightarrow> (b \<Longrightarrow> r = x \<Longrightarrow> P) \<Longrightarrow> (\<not> b \<Longrightarrow> m = Some r \<Longrightarrow> P) \<Longrightarrow> P"
  by (auto split: if_splits)

lemma fd_file_Some: "fd_file fd s = Some (Some f) \<longleftrightarrow> fd_get fd s \<noteq> 0 \<and> files s (fd_get fd s) = Some f"
  by (auto simp: fd_file_def split: Option.bind_splits)

lemma move_fds_ok:
  assumes "fds_ok s" and "fd_get fd s \<noteq> 0" and "files s (fd_get fd s) = Some f"
  shows "fds_ok (fput (fd_get fd s) (f\<lparr>vf_pos := pos\<rparr>) s)"
  using seek_ok [OF assms(1) _ assms(3)] fd_get_held [OF assms(1) refl assms(2)] by blast

lemma pipe_put_wait_fds_ok:
  assumes w: "well_behaved run" "well_behaved irq" and r: "pipe_put_wait run irq a bs s = Some (e, n, s')" and ok: "fds_ok s"
  shows "fds_ok s'"
proof -
  have "well_behaved run \<longrightarrow> well_behaved irq \<longrightarrow> fds_ok s \<longrightarrow> fds_ok (snd (snd (e, n, s')))"
  proof (rule pipe_put_wait.raw_induct [where P = "\<lambda>run irq a bs s r. well_behaved run \<longrightarrow> well_behaved irq \<longrightarrow> fds_ok s \<longrightarrow>
        fds_ok (snd (snd r))", OF _ r], intro impI)
    fix f run irq a bs s r
    assume IH: "\<And>run irq a bs s r. f run irq a bs s = Some r \<Longrightarrow>
        well_behaved run \<longrightarrow> well_behaved irq \<longrightarrow> fds_ok s \<longrightarrow> fds_ok (snd (snd r))"
      and body: "do { fl \<leftarrow> files s a;
          case vf_pipe fl of
            None \<Rightarrow> Some (- E_FAULT, 0, s)
          | Some k \<Rightarrow>
              do { (n, p) \<leftarrow> pipe_write bs (length bs) (pipes s ! k);
                   let s1 = on_pipe k (\<lambda>_. p) s;
                   if n > 0 then Some (0, n, sched_wake_all s1)
                   else if readers (pipes s1 ! k) = 0 then Some (- EPIPE, 0, s1)
                   else do { s2 \<leftarrow> sched_block_current run irq s1; f run irq a bs s2 } } } = Some r"
      and w: "well_behaved run" "well_behaved irq" and ok: "fds_ok s"
    obtain fl where fl: "files s a = Some fl" using body by (auto split: Option.bind_splits)
    show "fds_ok (snd (snd r))"
    proof (cases "vf_pipe fl")
      case None
      then show ?thesis using body fl ok by auto
    next
      case (Some k)
      obtain n p where p: "pipe_write bs (length bs) (pipes s ! k) = Some (n, p)"
        using body fl Some by (auto split: Option.bind_splits)
      let ?s = "on_pipe k (\<lambda>_. p) s"
      have ok1: "fds_ok ?s" by (rule pipe_bytes_ok [OF ok pipe_write_ok [OF p]])
      have "(if n > 0 then Some (0, n, sched_wake_all ?s) else if readers (pipes ?s ! k) = 0 then Some (- EPIPE, 0, ?s)
          else do { s2 \<leftarrow> sched_block_current run irq ?s; f run irq a bs s2 }) = Some r"
        using body fl Some p by (simp add: Let_def)
      then consider "n > 0" "r = (0, n, sched_wake_all ?s)" | "r = (- EPIPE, 0, ?s)"
        | s2 where "sched_block_current run irq ?s = Some s2" "f run irq a bs s2 = Some r"
        by (elim if_Some_cases) (auto split: Option.bind_splits)
      then show ?thesis
      proof cases
        case 3
        then show ?thesis using IH w block_fds_ok [OF ok1 w] by blast
      qed (use ok1 wake_all_fds_ok [OF ok1] in simp_all)
    qed
  qed
  then show ?thesis using w ok by simp
qed

lemma write_pipe_loop_fds_ok:
  assumes w: "well_behaved run" "well_behaved irq" and r: "write_pipe_loop run irq a u d c s = Some (e, s')" and ok: "fds_ok s"
  shows "fds_ok s'"
proof -
  have "well_behaved run \<longrightarrow> well_behaved irq \<longrightarrow> fds_ok s \<longrightarrow> fds_ok (snd (e, s'))"
  proof (rule write_pipe_loop.raw_induct [where P = "\<lambda>run irq a u d c s r. well_behaved run \<longrightarrow> well_behaved irq \<longrightarrow> fds_ok s \<longrightarrow>
        fds_ok (snd r)", OF _ r], intro impI)
    fix f run irq a u d c s r
    assume IH: "\<And>run irq a u d c s r. f run irq a u d c s = Some r \<Longrightarrow>
        well_behaved run \<longrightarrow> well_behaved irq \<longrightarrow> fds_ok s \<longrightarrow> fds_ok (snd r)"
      and body: "(if d < c then
        do { let chunk = (if c - d > 512 then 512 else c - d);
             (r, kbuf) \<leftarrow> copy_from_user (u + d) chunk s;
             if r \<noteq> 0 then Some (- E_FAULT, s)
             else
               do { (e, n, s1) \<leftarrow> pipe_put_wait run irq a kbuf s;
                    if e \<noteq> 0 then Some (e, s1) else f run irq a u (d + of_nat n) c s1 } }
        else Some (sint d, s)) = Some r"
      and w: "well_behaved run" "well_behaved irq" and ok: "fds_ok s"
    consider "snd r = s" | kbuf e n s1 where "pipe_put_wait run irq a kbuf s = Some (e, n, s1)"
        "snd r = s1 \<or> f run irq a u (d + of_nat n) c s1 = Some r"
      using body by (auto simp: Let_def split: Option.bind_splits if_splits)
    then show "fds_ok (snd r)"
    proof cases
      case 2
      then show ?thesis using pipe_put_wait_fds_ok [OF w 2(1) ok] IH w by blast
    qed (use ok in simp)
  qed
  then show ?thesis using w ok by simp
qed

lemma write_tty_loop_fds_ok:
  assumes r: "write_tty_loop u d c s = Some (e, s')" and ok: "fds_ok s"
  shows "fds_ok s'"
proof -
  have "fds_ok s \<longrightarrow> fds_ok (snd (e, s'))"
  proof (rule write_tty_loop.raw_induct [where P = "\<lambda>u d c s r. fds_ok s \<longrightarrow> fds_ok (snd r)", OF _ r], intro impI)
    fix f u d c s r
    assume IH: "\<And>u d c s r. f u d c s = Some r \<Longrightarrow> fds_ok s \<longrightarrow> fds_ok (snd r)"
      and body: "(if d < c then
        do { let chunk = (if c - d > 512 then 512 else c - d);
             (r, kbuf) \<leftarrow> copy_from_user (u + d) chunk s;
             if r \<noteq> 0 then Some (- E_FAULT, s)
             else do { v \<leftarrow> vga_puts kbuf (vga_dev s); f u (d + chunk) c (s\<lparr>vga_dev := v\<rparr>) } }
        else Some (sint d, s)) = Some r"
      and ok: "fds_ok s"
    consider "snd r = s" | d' v where "f u d' c (s\<lparr>vga_dev := v\<rparr>) = Some r"
      using body by (auto simp: Let_def split: Option.bind_splits if_splits)
    then show "fds_ok (snd r)" using IH ok by cases auto
  qed
  then show ?thesis using ok by simp
qed

lemma sys_write_fds_ok:
  assumes w: "well_behaved run" "well_behaved irq" and r: "sys_write run irq fd u c s = Some (e, s')" and ok: "fds_ok s"
  shows "fds_ok s'"
proof -
  have "(e, s') = (sint c, s) \<or> (e, s') = (- E_BADF, s) \<or> write_pipe_loop run irq (fd_get fd s) u 0 c s = Some (e, s') \<or>
      write_tty_loop u 0 c s = Some (e, s')"
    using r unfolding sys_write_def by (simp split: Option.bind_splits if_splits)
  then show ?thesis using ok write_pipe_loop_fds_ok [OF w _ ok] write_tty_loop_fds_ok [OF _ ok] by blast
qed

lemma writev_loop_fds_ok:
  assumes w: "well_behaved run" "well_behaved irq" and r: "writev_loop run irq fd p n i t s = Some (e, s')" and ok: "fds_ok s"
  shows "fds_ok s'"
proof -
  have "well_behaved run \<longrightarrow> well_behaved irq \<longrightarrow> fds_ok s \<longrightarrow> fds_ok (snd (e, s'))"
  proof (rule writev_loop.raw_induct [where P = "\<lambda>run irq fd p n i t s r. well_behaved run \<longrightarrow> well_behaved irq \<longrightarrow> fds_ok s \<longrightarrow>
        fds_ok (snd r)", OF _ r], intro impI)
    fix f run irq fd p n i t s r
    assume IH: "\<And>run irq fd p n i t s r. f run irq fd p n i t s = Some r \<Longrightarrow>
        well_behaved run \<longrightarrow> well_behaved irq \<longrightarrow> fds_ok s \<longrightarrow> fds_ok (snd r)"
      and body: "(if i < n then
        do { (r, iov) \<leftarrow> copy_from_user (p + i * 16) 16 s;
             if r \<noteq> 0 then Some (if t > 0 then t else - E_FAULT, s)
             else
               do { let base = of_nat (le_val (take 8 iov));
                    let len = of_nat (le_val (drop 8 iov));
                    (k, s1) \<leftarrow> sys_write run irq fd base len s;
                    if k < 0 then Some (if t > 0 then t else k, s1)
                    else if (word_of_int k :: u64) < len then Some (t + k, s1)
                    else f run irq fd p n (i + 1) (t + k) s1 } }
        else Some (t, s)) = Some r"
      and w: "well_behaved run" "well_behaved irq" and ok: "fds_ok s"
    consider "snd r = s" | b l k s1 where "sys_write run irq fd b l s = Some (k, s1)"
        "snd r = s1 \<or> f run irq fd p n (i + 1) (t + k) s1 = Some r"
      using body by (auto simp: Let_def split: Option.bind_splits if_splits)
    then show "fds_ok (snd r)"
    proof cases
      case 2
      then show ?thesis using sys_write_fds_ok [OF w 2(1) ok] IH w by blast
    qed (use ok in simp)
  qed
  then show ?thesis using w ok by simp
qed

lemma read_pipe_loop_fds_ok:
  assumes w: "well_behaved run" "well_behaved irq" and r: "read_pipe_loop run irq a u c s = Some (e, s')" and ok: "fds_ok s"
  shows "fds_ok s'"
proof -
  have "well_behaved run \<longrightarrow> well_behaved irq \<longrightarrow> fds_ok s \<longrightarrow> fds_ok (snd (e, s'))"
  proof (rule read_pipe_loop.raw_induct [where P = "\<lambda>run irq a u c s r. well_behaved run \<longrightarrow> well_behaved irq \<longrightarrow> fds_ok s \<longrightarrow>
        fds_ok (snd r)", OF _ r], intro impI)
    fix f run irq a u c s r
    assume IH: "\<And>run irq a u c s r. f run irq a u c s = Some r \<Longrightarrow>
        well_behaved run \<longrightarrow> well_behaved irq \<longrightarrow> fds_ok s \<longrightarrow> fds_ok (snd r)"
      and body: "do { fl \<leftarrow> files s a;
          case vf_pipe fl of
            None \<Rightarrow> Some (- E_FAULT, s)
          | Some k \<Rightarrow>
              do { (kbuf, p) \<leftarrow> pipe_read 256 (unat c) (pipes s ! k);
                   let s1 = on_pipe k (\<lambda>_. p) s;
                   if kbuf \<noteq> [] then
                     do { (r, s2) \<leftarrow> copy_to_user u kbuf s1;
                          Some (if r \<noteq> 0 then - E_FAULT else int (length kbuf), s2) }
                   else if writers (pipes s1 ! k) = 0 then Some (0, s1)
                   else do { s2 \<leftarrow> sched_block_current run irq s1; f run irq a u c s2 } } } = Some r"
      and w: "well_behaved run" "well_behaved irq" and ok: "fds_ok s"
    obtain fl where fl: "files s a = Some fl" using body by (auto split: Option.bind_splits)
    show "fds_ok (snd r)"
    proof (cases "vf_pipe fl")
      case None
      then show ?thesis using body fl ok by auto
    next
      case (Some k)
      obtain bs p where p: "pipe_read 256 (unat c) (pipes s ! k) = Some (bs, p)"
        using body fl Some by (auto split: Option.bind_splits)
      let ?s = "on_pipe k (\<lambda>_. p) s"
      have ok1: "fds_ok ?s" by (rule pipe_bytes_ok [OF ok pipe_read_ok [OF p]])
      have rest: "(if bs \<noteq> [] then do { (r, s2) \<leftarrow> copy_to_user u bs ?s; Some (if r \<noteq> 0 then - E_FAULT else int (length bs), s2) }
          else if writers (pipes ?s ! k) = 0 then Some (0, ?s)
          else do { s2 \<leftarrow> sched_block_current run irq ?s; f run irq a u c s2 }) = Some r"
        using body fl Some p by (simp add: Let_def)
      show ?thesis
      proof (cases "bs \<noteq> []")
        case True
        then obtain q s2 where "copy_to_user u bs ?s = Some (q, s2)" "snd r = s2" using rest by (auto split: Option.bind_splits)
        then show ?thesis using copy_fds_ok [OF _ ok1] by blast
      next
        case False
        then have "(if writers (pipes ?s ! k) = 0 then Some (0, ?s)
            else do { s2 \<leftarrow> sched_block_current run irq ?s; f run irq a u c s2 }) = Some r" using rest by (simp only: if_False)
        then consider "r = (0, ?s)" | s2 where "sched_block_current run irq ?s = Some s2" "f run irq a u c s2 = Some r"
          by (elim if_Some_cases) (auto split: Option.bind_splits)
        then show ?thesis
        proof cases
          case 2
          then show ?thesis using IH w block_fds_ok [OF ok1 w] by blast
        qed (use ok1 in simp)
      qed
    qed
  qed
  then show ?thesis using w ok by simp
qed

lemma keyboard_fds_ok [simp]:
  "fds_ok (s\<lparr>extended_scancode := b\<rparr>) = fds_ok s" "fds_ok (s\<lparr>shift_pressed := b\<rparr>) = fds_ok s"
  "fds_ok (s\<lparr>kbd_data := d\<rparr>) = fds_ok s" "fds_ok (s\<lparr>keyboard_buffer := k\<rparr>) = fds_ok s"
  by (rule fds_ok_agree; simp add: agree_def heap_view_def)+

lemma push_fds_ok: "fds_ok s \<Longrightarrow> fds_ok (keyboard_push k s)"
  by (simp add: keyboard_push_def Let_def wake_all_fds_ok)

lemma poll_fds_ok: "fds_ok s \<Longrightarrow> fds_ok (keyboard_poll s)"
proof -
  have "fds_ok (keyboard_handle_scancode c s)" if "fds_ok s" for c and s :: "'a kconsole_scheme"
    using that by (simp add: keyboard_handle_scancode_def keyboard_handle_extended_def Let_def push_fds_ok)
  then have "fds_ok s \<Longrightarrow> fds_ok (fold keyboard_handle_scancode cs s)" for cs and s :: "'a kconsole_scheme"
    by (induction cs arbitrary: s) simp_all
  then show "fds_ok s \<Longrightarrow> fds_ok (keyboard_poll s)" by (simp add: keyboard_poll_def)
qed

lemma getchar_wait_fds_ok:
  assumes w: "well_behaved run" "well_behaved irq" and r: "getchar_wait run irq s = Some s'" and ok: "fds_ok s"
  shows "fds_ok s'"
proof -
  have "well_behaved run \<longrightarrow> well_behaved irq \<longrightarrow> fds_ok s \<longrightarrow> fds_ok s'"
  proof (rule getchar_wait.raw_induct [where P = "\<lambda>run irq s r. well_behaved run \<longrightarrow> well_behaved irq \<longrightarrow> fds_ok s \<longrightarrow>
        fds_ok r", OF _ r], intro impI)
    fix f run irq s r
    assume IH: "\<And>run irq s r. f run irq s = Some r \<Longrightarrow> well_behaved run \<longrightarrow> well_behaved irq \<longrightarrow> fds_ok s \<longrightarrow> fds_ok r"
      and body: "(let (has, s1) = keyboard_haschar s
        in if has then Some s1 else do { s2 \<leftarrow> sched_block_current run irq s1; f run irq s2 }) = Some r"
      and w: "well_behaved run" "well_behaved irq" and ok: "fds_ok s"
    note ok1 = poll_fds_ok [OF ok]
    have "(if buffer_head (keyboard_poll s) \<noteq> buffer_tail (keyboard_poll s) then Some (keyboard_poll s)
        else do { s2 \<leftarrow> sched_block_current run irq (keyboard_poll s); f run irq s2 }) = Some r"
      using body by (simp only: keyboard_haschar_def Let_def prod.case)
    then consider "r = keyboard_poll s" | s2 where "sched_block_current run irq (keyboard_poll s) = Some s2" "f run irq s2 = Some r"
      by (elim if_Some_cases) (auto split: Option.bind_splits)
    then show "fds_ok r"
    proof cases
      case 2
      then show ?thesis using IH w block_fds_ok [OF ok1 w] by blast
    qed (use ok1 in simp)
  qed
  then show ?thesis using w ok by simp
qed

lemma sys_read_fds_ok:
  assumes w: "well_behaved run" "well_behaved irq" and r: "sys_read run irq fd u c s = Some (e, s')" and ok: "fds_ok s"
  shows "fds_ok s'"
proof -
  obtain fo where fo: "fd_file fd s = Some fo" using r by (auto simp: sys_read_def split: Option.bind_splits)
  consider (pipe) "read_pipe_loop run irq (fd_get fd s) u c s = Some (e, s')" | (same) "s' = s"
    | (key) k s1 where "keyboard_getchar run irq s = Some (k, s1)" "\<exists>r. copy_to_user u [word_of_int k] s1 = Some (r, s')"
    | (read) f c1 n bs f1 where "fo = Some f" "vfs_read f c1 s = Some (n, bs, f1)"
        "s' = fput (fd_get fd s) f1 s \<or> (\<exists>r. copy_to_user u bs (fput (fd_get fd s) f1 s) = Some (r, s'))"
    using r fo unfolding sys_read_def
    by (auto simp: Let_def split: Option.bind_splits if_splits option.splits)
  then show ?thesis
  proof cases
    case pipe
    then show ?thesis by (rule read_pipe_loop_fds_ok [OF w _ ok])
  next
    case key
    then obtain s0 where "getchar_wait run irq s = Some s0" "fds_ok s1 = fds_ok s0"
      by (auto simp: keyboard_getchar_def Let_def split: Option.bind_splits)
    then have "fds_ok s1" using getchar_wait_fds_ok [OF w _ ok] by simp
    then show ?thesis using key(2) copy_fds_ok by blast
  next
    case read
    have "f1 = f\<lparr>vf_pos := vf_pos f1\<rparr>"
      using read(2) by (auto simp: vfs_read_def Let_def split: Option.bind_splits if_splits)
    then have "fds_ok (fput (fd_get fd s) f1 s)"
      using move_fds_ok [OF ok, of fd f "vf_pos f1"] fo read(1) by (simp add: fd_file_Some)
    then show ?thesis using read(3) copy_fds_ok by blast
  qed (use ok in simp)
qed

lemma sys_lseek_fds_ok:
  assumes r: "sys_lseek fd off whence s = Some (e, s')" and ok: "fds_ok s"
  shows "fds_ok s'"
proof -
  obtain fo where fo: "fd_file fd s = Some fo" using r by (auto simp: sys_lseek_def split: Option.bind_splits)
  consider "s' = s" | f pos where "fo = Some f" "s' = fput (fd_get fd s) (f\<lparr>vf_pos := pos\<rparr>) s"
    using r fo by (auto simp: sys_lseek_def Let_def split: Option.bind_splits if_splits option.splits)
  then show ?thesis using ok move_fds_ok [OF ok] fo by cases (auto simp: fd_file_Some)
qed

lemma getdents_loop_fds_ok:
  assumes "getdents_loop a u c es i out s = Some (e, s')" and "fds_ok s" and "held s x = Some a"
  shows "fds_ok s'"
  using assms
proof (induction a u c es i out s rule: getdents_loop.induct)
  case (2 a u c name ty es i out s)
  let ?n = "(sizeof_linux_dirent64 + of_nat (length name + 1) + 7) AND 0xFFFFFFF8"
  show ?case
  proof (cases "out + ?n > c")
    case True
    then show ?thesis using 2(2,3) by (simp add: Let_def)
  next
    case False
    obtain r1 s1 where c1: "copy_to_user (u + out) (dirent_bytes i ?n ty) s = Some (r1, s1)"
      using 2(2) False by (auto simp: Let_def split: Option.bind_splits)
    note ag1 = copy_to_user_agree [OF c1]
    have ok1: "fds_ok s1" by (rule copy_fds_ok [OF c1 2(3)])
    show ?thesis
    proof (cases "r1 = 0")
      case r1: True
      obtain r2 s2 where c2: "copy_to_user (u + out + sizeof_linux_dirent64) (name @ [0]) s1 = Some (r2, s2)"
        using 2(2) False c1 r1 by (auto simp: Let_def split: Option.bind_splits)
      note ag2 = copy_to_user_agree [OF c2]
      have ok2: "fds_ok s2" by (rule copy_fds_ok [OF c2 ok1])
      have h2: "held s2 x = Some a" using 2(4) held_same [of s1 s] held_same [of s2 s1] ag1 ag2 by (simp add: agree_def)
      show ?thesis
      proof (cases "r2 = 0")
        case r2: True
        obtain f where f: "files s2 a = Some f"
          "getdents_loop a u c es (i + 1) (out + ?n) (fput a (f\<lparr>vf_pos := ucast (i + 1)\<rparr>) s2) = Some (e, s')"
          using 2(2) False c1 r1 c2 r2 by (auto simp: Let_def split: Option.bind_splits)
        have "fds_ok (fput a (f\<lparr>vf_pos := ucast (i + 1)\<rparr>) s2)" by (rule seek_ok [OF ok2 h2 f(1)])
        moreover have "held (fput a (f\<lparr>vf_pos := ucast (i + 1)\<rparr>) s2) x = Some a"
          using h2 held_same [of "fput a (f\<lparr>vf_pos := ucast (i + 1)\<rparr>) s2" s2] by simp
        ultimately show ?thesis
          using 2(1) [OF refl refl False c1 _ _ c2 _ _ f] r1 r2 by simp
      qed (use 2(2) False c1 r1 c2 ok2 in \<open>simp add: Let_def\<close>)
    qed (use 2(2) False c1 ok1 in \<open>simp add: Let_def\<close>)
  qed
qed simp

section \<open>Tasks and memory\<close>

lemma wait_loop_fds_ok:
  assumes w: "well_behaved run" "well_behaved irq" and r: "wait_loop run irq pid u s = Some (e, s')" and ok: "fds_ok s"
  shows "fds_ok s'"
proof -
  have "well_behaved run \<longrightarrow> well_behaved irq \<longrightarrow> fds_ok s \<longrightarrow> fds_ok (snd (e, s'))"
  proof (rule wait_loop.raw_induct [where P = "\<lambda>run irq pid u s r. well_behaved run \<longrightarrow> well_behaved irq \<longrightarrow> fds_ok s \<longrightarrow>
        fds_ok (snd r)", OF _ r], intro impI)
    fix f run irq pid u s r
    assume IH: "\<And>run irq pid u s r. f run irq pid u s = Some r \<Longrightarrow>
        well_behaved run \<longrightarrow> well_behaved irq \<longrightarrow> fds_ok s \<longrightarrow> fds_ok (snd r)"
      and body: "(let (reaped, status, s1) = proc_fork_take_status pid s
        in if reaped \<ge> 0 then
             (case status of
                Some st \<Rightarrow>
                  if u \<noteq> 0 then
                    do { (r, s2) \<leftarrow> copy_to_user u (int_bytes st) s1; Some (if r \<noteq> 0 then - E_FAULT else reaped, s2) }
                  else Some (reaped, s1)
              | None \<Rightarrow> None)
           else if \<not> proc_has_children s1 then Some (- E_CHLD, s1)
           else
             do { (went, s2) \<leftarrow> proc_run_runnable run s1;
                  if went then f run irq pid u s2
                  else do { s3 \<leftarrow> sched_block_current run irq s2; f run irq pid u s3 } }) = Some r"
      and w: "well_behaved run" "well_behaved irq" and ok: "fds_ok s"
    obtain p st s1 where t: "proc_fork_take_status pid s = (p, st, s1)" by (metis prod_cases3)
    have ok1: "fds_ok s1" by (rule reap_fds_ok [OF ok t])
    show "fds_ok (snd r)"
    proof (cases "p \<ge> 0 \<or> \<not> proc_has_children s1")
      case True
      then consider "snd r = s1" | q bs s2 where "copy_to_user u bs s1 = Some (q, s2)" "snd r = s2"
        using body t by (auto split: Option.bind_splits if_splits option.splits)
      then show ?thesis using ok1 copy_fds_ok [OF _ ok1] by cases simp_all
    next
      case False
      then obtain went s2 where v: "proc_run_runnable run s1 = Some (went, s2)"
        "(if went then f run irq pid u s2 else do { s3 \<leftarrow> sched_block_current run irq s2; f run irq pid u s3 }) = Some r"
        using body t by (auto split: Option.bind_splits)
      note ok2 = run_runnable_fds_ok [OF ok1 w(1) v(1)]
      show ?thesis
      proof (cases went)
        case False
        then obtain s3 where "sched_block_current run irq s2 = Some s3" "f run irq pid u s3 = Some r"
          using v(2) by (auto split: Option.bind_splits)
        then show ?thesis using IH w block_fds_ok [OF ok2 w] by blast
      qed (use v(2) IH w ok2 in auto)
    qed
  qed
  then show ?thesis using w ok by simp
qed

lemma more_lt: "kpaging.more s' = kpaging.more s \<Longrightarrow> fds_ok s \<Longrightarrow> fds_ok s'"
  using more_fds_ok by blast

lemma brk_loop_fds_ok:
  assumes r: "brk_loop p a s = Some (b, s')" and ok: "fds_ok s" and p: "p < 16"
  shows "fds_ok s'"
proof -
  have "fds_ok s \<longrightarrow> p < 16 \<longrightarrow> fds_ok (snd (b, s'))"
  proof (rule brk_loop.raw_induct [where P = "\<lambda>p a s r. fds_ok s \<longrightarrow> p < 16 \<longrightarrow> fds_ok (snd r)", OF _ r], intro impI)
    fix f p a s r
    assume IH: "\<And>p a s r. f p a s = Some r \<Longrightarrow> fds_ok s \<longrightarrow> p < 16 \<longrightarrow> fds_ok (snd r)"
      and body: "(if p_brk (task s p) < a then
        (let (frame, s1) = paging_alloc_page s
         in if frame = 0 then Some (False, s1)
            else
              do { (r, s2) \<leftarrow> paging_clear_phys frame PAGE_SIZE s1;
                   if r \<noteq> 0 then Some (False, paging_free_page frame s2)
                   else
                     (let (r, s3) = paging_map_user_page (p_brk (task s2 p)) frame (PAGE_PRESENT OR PAGE_WRITABLE) s2
                      in if r \<noteq> 0 then Some (False, paging_free_page frame s3)
                         else f p a (on_task p (\<lambda>t. t\<lparr>p_brk := p_brk t + PAGE_SIZE\<rparr>) s3)) })
      else Some (True, s)) = Some r"
      and ok: "fds_ok s" and p: "p < 16"
    obtain fr s1 where a1: "paging_alloc_page s = (fr, s1)" by fastforce
    note ok1 = more_lt [OF alloc_page_more [OF a1] ok]
    show "fds_ok (snd r)"
    proof (cases "p_brk (task s p) < a \<and> fr \<noteq> 0")
      case False
      then show ?thesis using body a1 ok ok1 by (auto split: if_splits)
    next
      case True
      then obtain q s2 where c: "paging_clear_phys fr PAGE_SIZE s1 = Some (q, s2)"
        using body a1 by (auto split: Option.bind_splits)
      note ok2 = more_lt [OF clear_phys_more [OF c] ok1]
      obtain q3 s3 where m: "paging_map_user_page (p_brk (task s2 p)) fr (PAGE_PRESENT OR PAGE_WRITABLE) s2 = (q3, s3)" by fastforce
      note ok3 = more_lt [OF map_user_page_more [OF m] ok2]
      have ok4: "fds_ok (on_task p (\<lambda>t. t\<lparr>p_brk := p_brk t + PAGE_SIZE\<rparr>) s3)"
        by (rule on_task_fds_ok [OF ok3 p]) (simp add: same_owner_def)
      have "snd r = paging_free_page fr s2 \<or> snd r = paging_free_page fr s3 \<or>
          f p a (on_task p (\<lambda>t. t\<lparr>p_brk := p_brk t + PAGE_SIZE\<rparr>) s3) = Some r"
        using body a1 True c m by (auto simp: Let_def split: if_splits)
      moreover have fr: "fds_ok (paging_free_page fr s2)" "fds_ok (paging_free_page fr s3)"
        using more_lt [OF kpaging_more_simps(2) ok2] more_lt [OF kpaging_more_simps(2) ok3] by blast+
      ultimately consider "snd r = paging_free_page fr s2" | "snd r = paging_free_page fr s3"
        | "f p a (on_task p (\<lambda>t. t\<lparr>p_brk := p_brk t + PAGE_SIZE\<rparr>) s3) = Some r" by blast
      then show ?thesis
      proof cases
        case 3
        then show ?thesis using IH p ok4 by blast
      qed (use fr in simp_all)
    qed
  qed
  then show ?thesis using ok p by simp
qed

lemma sys_brk_fds_ok:
  assumes r: "sys_brk a s = Some (e, s')" and ok: "fds_ok s"
  shows "fds_ok s'"
proof -
  note p = current_lt [OF ok]
  show ?thesis
  proof (cases "a = 0 \<or> a < USER_BRK_START")
    case True
    then show ?thesis using r ok by (auto simp: sys_brk_def Let_def split: if_splits)
  next
    case False
    then obtain b s1 where b: "brk_loop (current_task s) a s = Some (b, s1)"
      using r by (auto simp: sys_brk_def Let_def split: Option.bind_splits)
    note ok1 = brk_loop_fds_ok [OF b ok p]
    have "fds_ok (on_task (current_task s) (\<lambda>t. t\<lparr>p_brk := g\<rparr>) s1)" for g
      by (rule on_task_fds_ok [OF ok1 p]) (simp add: same_owner_def)
    then show ?thesis using r False b ok1 by (cases b) (auto simp: sys_brk_def Let_def)
  qed
qed

lemma sys_mmap_fds_ok: "sys_mmap a n p fl s = Some (e, s') \<Longrightarrow> fds_ok s \<Longrightarrow> fds_ok s'"
  by (auto simp: sys_mmap_def Let_def dest!: map_user_range_more more_lt split: Option.bind_splits if_splits)

section \<open>Programs\<close>

lemma close_loop_fds_ok:
  fixes s :: "'a kproc_scheme"
  shows "fd_close_loop is s = Some s' \<Longrightarrow> fds_ok s \<Longrightarrow> \<forall>i \<in> set is. i < 32 \<Longrightarrow> fds_ok s'"
proof (induction "is" arbitrary: s)
  case (Cons i "is")
  let ?a = "p_fds (cur s) ! i" and ?c = "current_task s"
  note ok = Cons.prems(2)
  show ?case
  proof (cases "?a = 0")
    case True
    then show ?thesis using Cons by (simp add: Let_def)
  next
    case False
    have i: "i < 32" "?c < 16" using Cons.prems(3) current_lt [OF ok] by simp_all
    have h: "held s (?c, i) = Some ?a" using False i procs_okD(3) [OF fds_okD(1) [OF ok]] by (simp add: held_def)
    obtain f where f: "files s ?a = Some f" by (rule held_file [OF ok h]) blast
    let ?s = "fput ?a (vfs_close f) s"
    note own = fds_okD(3) [OF ok]
    obtain s2 where s2: "free_file ?a ?s = Some s2" "fds_ok (set_fd ?c i 0 s2)" "same_table s s2"
      by (rule close_held [OF ok i(2,1) h f, of ?s])
        (use own_okD(3) [OF own] fds_okD(4) [OF ok] in \<open>simp_all add: fput_def same_table_def heap_view_def\<close>)
    have "fd_close_loop is (set_fd ?c i 0 s2) = Some s'"
      using Cons.prems(1) False f s2(1) same_tableD [OF s2(3)] by (simp add: Let_def)
    then show ?thesis using Cons.IH s2(2) Cons.prems(3) by simp
  qed
qed simp

lemma segment_page_more: "segment_page junk path ph a s = Some (r, s') \<Longrightarrow> kpaging.more s' = kpaging.more s"
  by (auto simp: segment_page_def Let_def dest!: clear_phys_more write_phys_more promote_more
      split: Option.bind_splits if_splits prod.splits)

lemma map_segment_more: "elf_map_segment junk path ph s = Some (r, s') \<Longrightarrow> kpaging.more s' = kpaging.more s"
proof -
  assume run: "elf_map_segment junk path ph s = Some (r, s')"
  let ?P = "\<lambda>s1. kpaging.more s1 = kpaging.more s"
  have "?P (paging_split_huge_range a b s)" for a b by (rule split_huge_range_more)
  then show ?thesis
    using run unfolding elf_map_segment_def Let_def
    by (auto split: if_splits elim!: for_status_invariant [where P = ?P, rotated 2] dest: segment_page_more)
qed

lemma elf_load_more: "elf_load junk path s = Some (r, e, s') \<Longrightarrow> kpaging.more s' = kpaging.more s"
  unfolding elf_load_def Let_def
  by (auto split: if_splits Option.bind_splits prod.splits dest!: map_segment_more
      elim!: for_status_invariant [where P = "\<lambda>s1. kpaging.more s1 = kpaging.more s", rotated 2])

lemma push_more:
  "push_strings strs sp s = Some (ps, sp', s') \<Longrightarrow> kpaging.more s' = kpaging.more s"
  "push_aux k v sp s = Some (sp', s') \<Longrightarrow> kpaging.more s' = kpaging.more s"
  "push_words ws sp s = Some (sp', s') \<Longrightarrow> kpaging.more s' = kpaging.more s"
proof -
  show "push_strings strs sp s = Some (ps, sp', s') \<Longrightarrow> kpaging.more s' = kpaging.more s"
    by (induction strs arbitrary: sp s ps) (auto simp: Let_def dest: virt_write_more split: Option.bind_splits)
  show "push_aux k v sp s = Some (sp', s') \<Longrightarrow> kpaging.more s' = kpaging.more s"
    by (auto simp: push_aux_def store64_def Let_def dest!: virt_write_more split: Option.bind_splits)
  show "push_words ws sp s = Some (sp', s') \<Longrightarrow> kpaging.more s' = kpaging.more s"
    by (induction ws arbitrary: sp' s') (auto simp: store64_def dest!: virt_write_more split: Option.bind_splits)
qed

lemma user_stack_more: "elf_user_stack_init argv envp s = Some (us, s') \<Longrightarrow> kpaging.more s' = kpaging.more s"
  by (auto simp: elf_user_stack_init_def elf_build_stack_def Let_def dest!: map_user_range_more push_more virt_write_more
      simp del: push_words.simps split: Option.bind_splits if_splits)

lemma proc_exec_fds_ok:
  assumes r: "proc_exec junk path argv envp s = Some (x, s')" and ok: "fds_ok s"
  shows "fds_ok s'"
proof (cases "s' = s")
  case False
  obtain st where st: "vfs_stat path s = Some (0, Some st)" "st_type st = VFS_TYPE_FILE"
    using r False by (auto simp: proc_exec_def split: Option.bind_splits if_splits)
  obtain s1 where s1: "proc_fd_close_all s = Some s1"
    using r False by (auto simp: proc_exec_def split: Option.bind_splits if_splits)
  have ok1: "fds_ok s1" by (rule close_loop_fds_ok [OF s1 [unfolded proc_fd_close_all_def] ok]) simp
  obtain c s2 where s2: "paging_clone_current_address_space False s1 = Some (c, s2)"
    using r False s1 by (auto simp: proc_exec_def split: Option.bind_splits if_splits)
  have ok2: "fds_ok s2" by (rule more_lt [OF clone_more [OF s2] ok1])
  define s3 where "s3 = (if c \<noteq> 0 then paging_switch_cr3 c (on_task (current_task s2) (\<lambda>t. t\<lparr>p_cr3 := c\<rparr>) s2) else s2)"
  have ok3: "fds_ok s3"
    using on_task_fds_ok [OF ok2 current_lt [OF ok2], of "\<lambda>t. t\<lparr>p_cr3 := c\<rparr>"] ok2 by (simp add: s3_def same_owner_def)
  define s4 where "s4 = wrmsr_fs_base 0 (on_task (current_task s3) (\<lambda>t. t\<lparr>p_brk := USER_BRK_START, p_fs_base := 0\<rparr>) s3)"
  have ok4: "fds_ok s4"
    using on_task_fds_ok [OF ok3 current_lt [OF ok3], of "\<lambda>t. t\<lparr>p_brk := USER_BRK_START, p_fs_base := 0\<rparr>"]
    by (simp add: s4_def same_owner_def)
  obtain q e s5 where s5: "elf_load junk path s4 = Some (q, e, s5)"
    "(if q \<noteq> 0 then Some (Exec_failed, s5)
      else
        do { (us, s6) \<leftarrow> elf_user_stack_init argv envp s5;
             if us_sp us = 0 then Some (Exec_failed, s6)
             else
               Some (Enter_usermode e (us_sp us) (us_argc us) (us_argv us) (us_envp us),
                 on_task (current_task s6) (\<lambda>t. t\<lparr>p_user_rip := e, p_user_rsp := us_sp us,
                   p_user_rflags := 0x202, p_user_rax := 0, p_user_regs := replicate 15 0,
                   p_cr3 := paging_current_cr3 s6\<rparr>) s6) }) = Some (x, s')"
  proof -
    have body: "do { (r5, entry, s5) \<leftarrow> elf_load junk path s4;
      if r5 \<noteq> 0 then Some (Exec_failed, s5)
      else
        do { (us, s6) \<leftarrow> elf_user_stack_init argv envp s5;
             if us_sp us = 0 then Some (Exec_failed, s6)
             else
               Some (Enter_usermode entry (us_sp us) (us_argc us) (us_argv us) (us_envp us),
                 on_task (current_task s6) (\<lambda>t. t\<lparr>p_user_rip := entry, p_user_rsp := us_sp us,
                   p_user_rflags := 0x202, p_user_rax := 0, p_user_regs := replicate 15 0,
                   p_cr3 := paging_current_cr3 s6\<rparr>) s6) } } = Some (x, s')"
      using r st s1 s2 unfolding proc_exec_def s4_def s3_def by (simp add: Let_def del: USER_BRK_START_def split del: if_split)
    show thesis
    proof (cases "elf_load junk path s4")
      case (Some y)
      obtain q e s5 where "y = (q, e, s5)" by (metis prod_cases3)
      then show thesis using that [of q e s5] body Some by simp
    qed (use body in simp)
  qed
  have ok5: "fds_ok s5" by (rule more_lt [OF elf_load_more [OF s5(1)] ok4])
  show ?thesis
  proof (cases "q = 0")
    case True
    then obtain us s6 where s6: "elf_user_stack_init argv envp s5 = Some (us, s6)" using s5(2) by (auto split: Option.bind_splits)
    have ok6: "fds_ok s6" by (rule more_lt [OF user_stack_more [OF s6] ok5])
    have "length (p_user_regs (cur s6)) = 15"
      using procs_okD(2,4) [OF fds_okD(1) [OF ok6]] by (simp add: task_ok_def)
    then have "fds_ok (on_task (current_task s6) (\<lambda>t. t\<lparr>p_user_rip := e, p_user_rsp := us_sp us,
        p_user_rflags := 0x202, p_user_rax := 0, p_user_regs := replicate 15 0, p_cr3 := paging_current_cr3 s6\<rparr>) s6)"
      by (intro on_task_fds_ok [OF ok6 current_lt [OF ok6]]) (simp add: same_owner_def)
    then show ?thesis using s5(2) True s6 ok6 by (auto split: if_splits)
  qed (use s5(2) ok5 in simp)
qed (use ok in simp)

section \<open>The dispatch\<close>

lemma retE: "ret m = Some (x, s') \<Longrightarrow> (\<And>r. m = Some (r, s') \<Longrightarrow> x = Sys_ret r \<Longrightarrow> P) \<Longrightarrow> P"
  by (auto simp: ret_def split: Option.bind_splits)

lemma set_fs_fds_ok: "fds_ok s \<Longrightarrow> fds_ok (proc_set_fs_base v s)"
  using on_task_fds_ok [of s "current_task s" "\<lambda>t. t\<lparr>p_fs_base := v\<rparr>"]
  by (simp add: proc_set_fs_base_def current_lt same_owner_def)

lemma cur_task_fds_ok:
  assumes "fds_ok s" and "\<And>t. same_owner t (f t)"
  shows "fds_ok (on_task (current_task s) f s)"
  by (rule on_task_fds_ok [where f = f, OF assms(1) current_lt [OF assms(1)] assms(2)])

lemma plain_call_fds_ok:
  assumes ok: "fds_ok s"
  shows "sys_setsid s = Some (r, s') \<Longrightarrow> fds_ok s'" and "sys_setpgid p g s = Some (r, s') \<Longrightarrow> fds_ok s'"
    and "sys_chdir a s = Some (r, s') \<Longrightarrow> fds_ok s'" and "sys_arch_prctl c a s = Some (r, s') \<Longrightarrow> fds_ok s'"
proof -
  show "sys_setsid s = Some (r, s') \<Longrightarrow> fds_ok s'"
    using cur_task_fds_ok [OF ok, of "\<lambda>t. t\<lparr>p_sid := p_pid t\<rparr>"] by (auto simp: sys_setsid_def Let_def same_owner_def)
  show "sys_setpgid p g s = Some (r, s') \<Longrightarrow> fds_ok s'"
    using cur_task_fds_ok [OF ok, of "\<lambda>t. t\<lparr>p_pgid := g\<rparr>"] ok by (auto simp: sys_setpgid_def same_owner_def split: if_splits)
  have "fds_ok (on_task (current_task s) (\<lambda>t. t\<lparr>p_cwd := d\<rparr>) s)" for d
    using cur_task_fds_ok [OF ok, of "\<lambda>t. t\<lparr>p_cwd := d\<rparr>"] by (simp add: same_owner_def)
  then show "sys_chdir a s = Some (r, s') \<Longrightarrow> fds_ok s'"
    using ok by (auto simp: sys_chdir_def split: if_splits Option.bind_splits)
  show "sys_arch_prctl c a s = Some (r, s') \<Longrightarrow> fds_ok s'"
    using set_fs_fds_ok [OF ok] ok by (auto simp: sys_arch_prctl_def dest: answer_fds_ok split: if_splits)
qed

text \<open>The calls that only answer: their state is the old one, or that after a copy to the user.\<close>

lemma answering_call_fds_ok:
  assumes ok: "fds_ok s"
  shows "sys_getcwd a n s = Some (r, s') \<Longrightarrow> fds_ok s'" and "sys_access a s = Some (r, s') \<Longrightarrow> fds_ok s'"
    and "sys_unlink a s = Some (r, s') \<Longrightarrow> fds_ok s'" and "sys_ioctl q a s = Some (r, s') \<Longrightarrow> fds_ok s'"
    and "sys_poll a n s = Some (r, s') \<Longrightarrow> fds_ok s'" and "sys_prlimit64 a s = Some (r, s') \<Longrightarrow> fds_ok s'"
    and "sys_clock_gettime a s = Some (r, s') \<Longrightarrow> fds_ok s'" and "sys_readlink a u n s = Some (r, s') \<Longrightarrow> fds_ok s'"
    and "sys_getrandom a n s = Some (r, s') \<Longrightarrow> fds_ok s'" and "sys_stat a u s = Some (r, s') \<Longrightarrow> fds_ok s'"
    and "sys_newfstatat d a u s = Some (r, s') \<Longrightarrow> fds_ok s'" and "sys_fstat fd u s = Some (r, s') \<Longrightarrow> fds_ok s'"
    and "sys_uname a s = Some (r, s') \<Longrightarrow> fds_ok s'" and "sys_readlinkat d a u n s = Some (r, s') \<Longrightarrow> fds_ok s'"
proof -
  note ans = answer_fds_ok [OF _ ok]
  have path: "stat_path p u s = Some (r, s') \<Longrightarrow> fds_ok s'" for p
    using ok by (auto simp: stat_path_def dest: ans split: Option.bind_splits option.splits if_splits)
  show "sys_getcwd a n s = Some (r, s') \<Longrightarrow> fds_ok s'" using ok by (auto simp: sys_getcwd_def Let_def dest: ans split: if_splits)
  show "sys_access a s = Some (r, s') \<Longrightarrow> fds_ok s'" using ok by (auto simp: sys_access_def split: Option.bind_splits if_splits)
  show "sys_unlink a s = Some (r, s') \<Longrightarrow> fds_ok s'" using ok by (auto simp: sys_unlink_def split: Option.bind_splits if_splits)
  show "sys_ioctl q a s = Some (r, s') \<Longrightarrow> fds_ok s'" using ok by (auto simp: sys_ioctl_def dest: ans split: if_splits)
  show "sys_poll a n s = Some (r, s') \<Longrightarrow> fds_ok s'"
    using ok by (auto simp: sys_poll_def Let_def dest: ans split: Option.bind_splits if_splits)
  show "sys_prlimit64 a s = Some (r, s') \<Longrightarrow> fds_ok s'" using ok by (auto simp: sys_prlimit64_def dest: ans split: if_splits)
  show "sys_clock_gettime a s = Some (r, s') \<Longrightarrow> fds_ok s'" by (auto simp: sys_clock_gettime_def dest: ans)
  show rl: "sys_readlink a u n s = Some (r, s') \<Longrightarrow> fds_ok s'"
    using ok by (auto simp: sys_readlink_def Let_def dest!: ans split: Option.bind_splits if_splits)
  then show "sys_readlinkat d a u n s = Some (r, s') \<Longrightarrow> fds_ok s'" using ok by (auto simp: sys_readlinkat_def split: if_splits)
  show "sys_getrandom a n s = Some (r, s') \<Longrightarrow> fds_ok s'" by (auto simp: sys_getrandom_def Let_def dest: ans)
  show "sys_stat a u s = Some (r, s') \<Longrightarrow> fds_ok s'"
    using ok by (auto simp: sys_stat_def dest: path split: Option.bind_splits if_splits)
  show "sys_newfstatat d a u s = Some (r, s') \<Longrightarrow> fds_ok s'"
    using ok by (auto simp: sys_newfstatat_def Let_def dest: path split: Option.bind_splits if_splits)
  show "sys_fstat fd u s = Some (r, s') \<Longrightarrow> fds_ok s'"
    using ok by (auto simp: sys_fstat_def dest: ans split: Option.bind_splits option.splits if_splits)
  show "sys_uname a s = Some (r, s') \<Longrightarrow> fds_ok s'" by (auto simp: sys_uname_def dest: ans)
qed

lemma sys_getdents_fds_ok:
  assumes r: "sys_getdents64 fd u c s = Some (e, s')" and ok: "fds_ok s"
  shows "fds_ok s'"
proof (cases "fd_get fd s = 0")
  case True
  then show ?thesis using r ok by (simp add: sys_getdents64_def fd_file_def)
next
  case False
  then have "held s (current_task s, nat fd) = Some (fd_get fd s)" using fd_get_held [OF ok refl] by blast
  from getdents_loop_fds_ok [OF _ ok this] show ?thesis
    using r ok by (auto simp: sys_getdents64_def Let_def split: Option.bind_splits option.splits if_splits)
qed

lemma sys_exit_fds_ok: "sys_exit run c s = Some (x, s') \<Longrightarrow> fds_ok s \<Longrightarrow> fds_ok s'"
proof -
  assume r: "sys_exit run c s = Some (x, s')" and ok: "fds_ok s"
  obtain v y where "proc_exit (sint (ucast c :: u32)) (s\<lparr>vga_dev := v\<rparr>) = (y, s')"
    using r by (auto simp: sys_exit_def Let_def split: Option.bind_splits prod.splits if_splits)
  then show ?thesis using exit_fds_ok [of "s\<lparr>vga_dev := v\<rparr>" "sint (ucast c :: u32)"] ok by simp
qed

lemma sys_execve_fds_ok: "sys_execve junk a v e s = Some (x, s') \<Longrightarrow> fds_ok s \<Longrightarrow> fds_ok s'"
  by (auto simp: sys_execve_def dest!: proc_exec_fds_ok split: Option.bind_splits if_splits)


text \<open>The task of \<open>fork_example\<close> with the console of \<open>Keyboard\<close>.\<close>

definition call_example :: kconsole where
  "call_example = kproc.extend (kproc.truncate fork_example) (kproc.more console_example)"

lemma call_example_ok: "fds_ok call_example" "ample call_example"
proof -
  have e: "tasks call_example = tasks fork_example" "current_task call_example = current_task fork_example"
    "next_pid call_example = next_pid fork_example" "fork_jmp_parent call_example = fork_jmp_parent fork_example"
    "files call_example = files fork_example" "pipes call_example = pipes fork_example"
    "inodes call_example = inodes fork_example" "root_inode call_example = root_inode fork_example"
    "heap_view call_example = heap_view fork_example" "heap_current call_example = heap_current fork_example"
    by (simp_all add: call_example_def kproc.defs heap_view_def)
  show "fds_ok call_example"
    using fork_example_ok heap_view_same [OF e(9)] vfs_view_same [OF e(9,7,8)] procs_ok_same [OF e(1-4)] held_same [OF e(1)]
    by (simp add: fds_ok_def e)
  show "ample call_example"
    by (simp add: ample_def counts_ok_def heap_budget_def e fork_example_def boot_procs_view zero_pipe_def)
qed


end
