(* ===== verification/Ports.thy ===== *)
theory Ports
  imports Keyboard Descr
begin

unbundle bit_operations_syntax

text \<open>
  Port access (\<^verbatim>\<open>core/include/drivers.h\<close>) and the code that is nothing but port access: the set-up of the keyboard
  controller (\<^verbatim>\<open>core/drivers/keyboard.c\<close>), of the timer (\<^verbatim>\<open>core/idt.c\<close>) and of the screen's cursor
  (\<^verbatim>\<open>core/drivers/vga.c\<close>).  The hardware behind the ports is a parameter: a bus with what a read returns and what
  reads and writes do to the devices, whose state has an arbitrary type.  \<open>kbc\<close>, \<open>pit\<close> and \<open>crtc\<close> are the documented
  behaviour of the three controllers; \<open>drives\<close> says that the ports of a bus lead to such a controller.  The
  theorems hold for every bus for which this is so, the controller's own ports are an instance.
\<close>

section \<open>The bus\<close>

record 'd bus =
  inb :: "u16 \<Rightarrow> 'd \<Rightarrow> u8 \<times> 'd"
  outb :: "u16 \<Rightarrow> u8 \<Rightarrow> 'd \<Rightarrow> 'd"

definition io_wait :: "'d bus \<Rightarrow> 'd \<Rightarrow> 'd" where
  "io_wait b d = outb b 0x80 0 d"

definition KEYBOARD_DATA_PORT :: u16 where [simp]: "KEYBOARD_DATA_PORT = 0x60"
definition KEYBOARD_STAT_PORT :: u16 where [simp]: "KEYBOARD_STAT_PORT = 0x64"

section \<open>Setting up the keyboard controller\<close>

text \<open>The two waiting loops; what they return is the counter.\<close>

function wait_input_loop :: "'d bus \<Rightarrow> int \<Rightarrow> 'd \<Rightarrow> int \<times> 'd" where
  "wait_input_loop b limit d =
     (let (st, d1) = inb b KEYBOARD_STAT_PORT d
      in if st AND 0x02 \<noteq> 0
         then (if limit - 1 > 0 then wait_input_loop b (limit - 1) (io_wait b d1) else (limit - 1, d1))
         else (limit, d1))"
  by pat_completeness auto
termination by (relation "measure (\<lambda>(b, limit, d). nat limit)") auto

function wait_output_loop :: "'d bus \<Rightarrow> int \<Rightarrow> 'd \<Rightarrow> int \<times> 'd" where
  "wait_output_loop b limit d =
     (let (st, d1) = inb b KEYBOARD_STAT_PORT d
      in if st AND 0x01 = 0
         then (if limit - 1 > 0 then wait_output_loop b (limit - 1) (io_wait b d1) else (limit - 1, d1))
         else (limit, d1))"
  by pat_completeness auto
termination by (relation "measure (\<lambda>(b, limit, d). nat limit)") auto

declare wait_input_loop.simps [simp del] wait_output_loop.simps [simp del]

definition i8042_wait_input_timeout :: "'d bus \<Rightarrow> int \<Rightarrow> 'd \<Rightarrow> bool \<times> 'd" where
  "i8042_wait_input_timeout b limit d = (let (n, d1) = wait_input_loop b limit d in (n > 0, d1))"

definition i8042_wait_output_timeout :: "'d bus \<Rightarrow> int \<Rightarrow> 'd \<Rightarrow> bool \<times> 'd" where
  "i8042_wait_output_timeout b limit d = (let (n, d1) = wait_output_loop b limit d in (n > 0, d1))"

partial_function (option) keyboard_drain :: "'d bus \<Rightarrow> 'd \<Rightarrow> 'd option" where
  "keyboard_drain b d =
     (let (st, d1) = inb b KEYBOARD_STAT_PORT d
      in if st AND 0x01 \<noteq> 0 then keyboard_drain b (snd (inb b KEYBOARD_DATA_PORT d1)) else Some d1)"

definition i8042_write_command :: "'d bus \<Rightarrow> u8 \<Rightarrow> 'd \<Rightarrow> 'd" where
  "i8042_write_command b v d =
     (let (ok, d1) = i8042_wait_input_timeout b 100000 d in if \<not> ok then d1 else outb b KEYBOARD_STAT_PORT v d1)"

definition i8042_write_data :: "'d bus \<Rightarrow> u8 \<Rightarrow> 'd \<Rightarrow> 'd" where
  "i8042_write_data b v d =
     (let (ok, d1) = i8042_wait_input_timeout b 100000 d in if \<not> ok then d1 else outb b KEYBOARD_DATA_PORT v d1)"

definition keyboard_write :: "'d bus \<Rightarrow> u8 \<Rightarrow> 'd \<Rightarrow> 'd" where
  "keyboard_write b v d = i8042_write_data b v (i8042_write_command b 0xD2 d)"

definition i8042_configure :: "'d bus \<Rightarrow> 'd \<Rightarrow> 'd option" where
  "i8042_configure b d =
     do { d1 \<leftarrow> keyboard_drain b d;
          let d2 = i8042_write_command b 0x20 d1;
          let (ok, d3) = i8042_wait_output_timeout b 100000 d2;
          if \<not> ok then Some d3
          else
            (let (config, d4) = inb b KEYBOARD_DATA_PORT d3;
                 config1 = ((config OR 0x01) OR 0x40) AND NOT 0x10;
                 d5 = i8042_write_data b config1 (i8042_write_command b 0x60 d4)
             in Some (keyboard_write b 0xF4 d5)) }"

text \<open>\<^verbatim>\<open>keyboard_init\<close> as a whole, and \<^verbatim>\<open>keyboard_poll\<close> on the ports.\<close>

definition keyboard_setup :: "'d bus \<Rightarrow> 'a kconsole_scheme \<times> 'd \<Rightarrow> ('a kconsole_scheme \<times> 'd) option" where
  "keyboard_setup b = (\<lambda>(s, d). do { d1 \<leftarrow> i8042_configure b d; Some (keyboard_init s, d1) })"

partial_function (option) poll_ports :: "'d bus \<Rightarrow> 'a kconsole_scheme \<Rightarrow> 'd \<Rightarrow> ('a kconsole_scheme \<times> 'd) option" where
  "poll_ports b s d =
     (let (st, d1) = inb b KEYBOARD_STAT_PORT d
      in if st AND 0x01 \<noteq> 0
         then (let (code, d2) = inb b KEYBOARD_DATA_PORT d1 in poll_ports b (keyboard_handle_scancode code s) d2)
         else Some (s, d1))"

section \<open>The timer\<close>

definition PIT_HZ :: u32 where [simp]: "PIT_HZ = 100"
definition PIT_BASE_HZ :: u32 where [simp]: "PIT_BASE_HZ = 1193182"

definition pit_init :: "'d bus \<Rightarrow> 'd \<Rightarrow> 'd" where
  "pit_init b d =
     (let divisor = (ucast (PIT_BASE_HZ div PIT_HZ) :: u16)
      in outb b 0x40 (ucast (drop_bit 8 divisor)) (outb b 0x40 (ucast (divisor AND 0xFF)) (outb b 0x43 0x36 d)))"

section \<open>The cursor of the screen\<close>

definition hardware_cursor_ports :: "'d bus \<Rightarrow> vga \<Rightarrow> 'd \<Rightarrow> 'd" where
  "hardware_cursor_ports b v d =
     (let position = (word_of_int (cursor_y v * VGA_WIDTH + cursor_x v) :: u16)
      in outb b 0x3D5 (ucast (drop_bit 8 position AND 0xFF)) (outb b 0x3D4 0x0E
           (outb b 0x3D5 (ucast (position AND 0xFF)) (outb b 0x3D4 0x0F d))))"

definition cursor_shape_ports :: "'d bus \<Rightarrow> 'd \<Rightarrow> 'd" where
  "cursor_shape_ports b d =
     (let (oldA, d1) = inb b 0x3D5 (outb b 0x3D4 0x0A d);
          d2 = outb b 0x3D5 ((oldA AND 0x20) OR (0 AND 0x1F)) d1;
          (oldB, d3) = inb b 0x3D5 (outb b 0x3D4 0x0B d2)
      in outb b 0x3D5 ((oldB AND 0x60) OR (15 AND 0x1F)) d3)"

definition vga_init_ports :: "'d bus \<Rightarrow> vga \<times> 'd \<Rightarrow> vga \<times> 'd" where
  "vga_init_ports b = (\<lambda>(v, d). let v1 = vga_init v in (v1, hardware_cursor_ports b v1 (cursor_shape_ports b d)))"

section \<open>What the controllers are documented to do\<close>

text \<open>
  A bus drives a device when the device is visible in the bus's state and answers its ports, at the reads and writes
  that its documentation is about.
\<close>

definition drives :: "'d bus \<Rightarrow> ('d \<Rightarrow> 'k) \<Rightarrow> (u16 \<Rightarrow> 'k \<Rightarrow> bool) \<Rightarrow> (u16 \<Rightarrow> 'k \<Rightarrow> u8 \<times> 'k) \<Rightarrow>
    (u16 \<Rightarrow> u8 \<Rightarrow> 'k \<Rightarrow> bool) \<Rightarrow> (u16 \<Rightarrow> u8 \<Rightarrow> 'k \<Rightarrow> 'k) \<Rightarrow> bool" where
  "drives b dev rd_ok rd wr_ok wr \<longleftrightarrow>
     (\<forall>p d. rd_ok p (dev d) \<longrightarrow> fst (inb b p d) = fst (rd p (dev d)) \<and> dev (snd (inb b p d)) = snd (rd p (dev d))) \<and>
     (\<forall>p v d. wr_ok p v (dev d) \<longrightarrow> dev (outb b p v d) = wr p v (dev d))"

text \<open>
  The 8042: \<open>kb_out\<close> are the bytes that wait to be read, \<open>kb_cmd\<close> the command byte, \<open>kb_pending\<close> the command that
  waits for its parameter, \<open>kb_busy\<close> the number of delays until the last write has been taken in, which is \<open>kb_delay\<close>
  after each write; a byte shows up only then.  Bit 0 of the status says that a byte waits, bit 1 that a write is
  not taken in yet.  Command \<open>0x20\<close> reads the command byte, \<open>0x60\<close> writes it, \<open>0xD2\<close> puts its parameter among the
  bytes that wait to be read.  No key is pressed meanwhile.
\<close>

record kbc =
  kb_out :: "u8 list"
  kb_cmd :: u8
  kb_pending :: u8
  kb_busy :: nat
  kb_delay :: nat

definition kbc_status :: "kbc \<Rightarrow> u8" where
  "kbc_status k = (if kb_busy k \<noteq> 0 then 2 else if kb_out k \<noteq> [] then 1 else 0)"

definition kbc_reads :: "u16 \<Rightarrow> kbc \<Rightarrow> bool" where
  "kbc_reads p k \<longleftrightarrow> p = 0x64 \<or> p = 0x60 \<and> kbc_status k = 1"

definition kbc_in :: "u16 \<Rightarrow> kbc \<Rightarrow> u8 \<times> kbc" where
  "kbc_in p k = (if p = 0x64 then (kbc_status k, k) else (hd (kb_out k), k\<lparr>kb_out := tl (kb_out k)\<rparr>))"

definition kbc_writes :: "u16 \<Rightarrow> u8 \<Rightarrow> kbc \<Rightarrow> bool" where
  "kbc_writes p v k \<longleftrightarrow> p = 0x80 \<or> p = 0x64 \<and> kb_busy k = 0 \<and> v \<in> {0x20, 0x60, 0xD2} \<or>
     p = 0x60 \<and> kb_busy k = 0 \<and> kb_pending k \<in> {0x60, 0xD2}"

definition kbc_out :: "u16 \<Rightarrow> u8 \<Rightarrow> kbc \<Rightarrow> kbc" where
  "kbc_out p v k =
     (if p = 0x80 then k\<lparr>kb_busy := kb_busy k - 1\<rparr>
      else if p = 0x64 then
        (if v = 0x20 then k\<lparr>kb_out := kb_out k @ [kb_cmd k], kb_busy := kb_delay k\<rparr>
         else k\<lparr>kb_pending := v, kb_busy := kb_delay k\<rparr>)
      else if kb_pending k = 0x60 then k\<lparr>kb_cmd := v, kb_pending := 0, kb_busy := kb_delay k\<rparr>
      else k\<lparr>kb_out := kb_out k @ [v], kb_pending := 0, kb_busy := kb_delay k\<rparr>)"

abbreviation drives_kbc :: "'d bus \<Rightarrow> ('d \<Rightarrow> kbc) \<Rightarrow> bool" where
  "drives_kbc b kb \<equiv> drives b kb kbc_reads kbc_in kbc_writes kbc_out"

text \<open>The counter 0 of the timer: a control word at port \<open>0x43\<close> chooses how the bytes at port \<open>0x40\<close> follow; access 3
  is the low byte before the high byte.\<close>

record pit =
  pit_mode :: u8
  pit_low :: "u8 option"
  pit_reload :: u16

definition pit_writes :: "u16 \<Rightarrow> u8 \<Rightarrow> pit \<Rightarrow> bool" where
  "pit_writes p v k \<longleftrightarrow> p = 0x43 \<and> drop_bit 6 v = 0 \<and> drop_bit 4 v AND 3 = 3 \<or>
     p = 0x40 \<and> drop_bit 4 (pit_mode k) AND 3 = 3"

definition pit_out :: "u16 \<Rightarrow> u8 \<Rightarrow> pit \<Rightarrow> pit" where
  "pit_out p v k =
     (if p = 0x43 then k\<lparr>pit_mode := v, pit_low := None\<rparr>
      else
        (case pit_low k of
           None \<Rightarrow> k\<lparr>pit_low := Some v\<rparr>
         | Some l \<Rightarrow> k\<lparr>pit_low := None, pit_reload := ucast l OR push_bit 8 (ucast v)\<rparr>))"

abbreviation drives_pit :: "'d bus \<Rightarrow> ('d \<Rightarrow> pit) \<Rightarrow> bool" where
  "drives_pit b tm \<equiv> drives b tm (\<lambda>_ _. False) (\<lambda>_ k. (0, k)) pit_writes pit_out"

text \<open>The registers of the screen's controller: one port selects, the other one reads and writes.\<close>

record crtc =
  crtc_index :: u8
  crtc_reg :: "u8 \<Rightarrow> u8"

definition crtc_in :: "u16 \<Rightarrow> crtc \<Rightarrow> u8 \<times> crtc" where
  "crtc_in p k = (crtc_reg k (crtc_index k), k)"

definition crtc_out :: "u16 \<Rightarrow> u8 \<Rightarrow> crtc \<Rightarrow> crtc" where
  "crtc_out p v k = (if p = 0x3D4 then k\<lparr>crtc_index := v\<rparr> else k\<lparr>crtc_reg := (crtc_reg k)(crtc_index k := v)\<rparr>)"

abbreviation drives_crtc :: "'d bus \<Rightarrow> ('d \<Rightarrow> crtc) \<Rightarrow> bool" where
  "drives_crtc b sc \<equiv> drives b sc (\<lambda>p _. p = 0x3D5) crtc_in (\<lambda>p _ _. p \<in> {0x3D4, 0x3D5}) crtc_out"

definition crtc_cursor :: "crtc \<Rightarrow> u16" where
  "crtc_cursor k = ucast (crtc_reg k 0x0F) OR push_bit 8 (ucast (crtc_reg k 0x0E))"

section \<open>What the code does with them\<close>

lemma drives_inb:
  assumes "drives b dev rd_ok rd wr_ok wr" and "rd_ok p (dev d)"
  obtains d' where "inb b p d = (fst (rd p (dev d)), d')" and "dev d' = snd (rd p (dev d))"
proof -
  have "fst (inb b p d) = fst (rd p (dev d))" and "dev (snd (inb b p d)) = snd (rd p (dev d))"
    using assms by (simp_all add: drives_def)
  then show ?thesis by (intro that [of "snd (inb b p d)"]) (simp_all add: prod_eq_iff)
qed

lemma drives_outb: "drives b dev rd_ok rd wr_ok wr \<Longrightarrow> wr_ok p v (dev d) \<Longrightarrow> dev (outb b p v d) = wr p v (dev d)"
  by (simp add: drives_def)

text \<open>Reading the status changes nothing and every delay brings the controller nearer.\<close>

lemma kbc_stat:
  assumes "drives_kbc b kb"
  obtains d' where "inb b 0x64 d = (kbc_status (kb d), d')" and "kb d' = kb d"
  by (rule drives_inb [where p = "0x64" and d = d, OF assms]) (simp_all add: kbc_reads_def kbc_in_def that)

lemma kbc_io_wait: "drives_kbc b kb \<Longrightarrow> kb (io_wait b d) = (kb d)\<lparr>kb_busy := kb_busy (kb d) - 1\<rparr>"
  by (simp add: io_wait_def drives_outb kbc_writes_def kbc_out_def)

lemma not_busy: "kb_busy k = 0 \<Longrightarrow> k\<lparr>kb_busy := 0\<rparr> = k"
  by (cases k) simp

lemma wait_input_ready:
  assumes "drives_kbc b kb" and "kb_busy (kb d) = n" and "int n < limit"
  shows "\<exists>m d'. wait_input_loop b limit d = (m, d') \<and> 0 < m \<and> kb d' = (kb d)\<lparr>kb_busy := 0\<rparr>"
  using assms(2,3)
proof (induction n arbitrary: d limit)
  case 0
  from kbc_stat [OF assms(1)] obtain d' where "inb b 0x64 d = (kbc_status (kb d), d')" "kb d' = kb d" .
  with 0 show ?case by (subst wait_input_loop.simps) (simp add: kbc_status_def not_busy)
next
  case (Suc n)
  from kbc_stat [OF assms(1)] obtain d' where d': "inb b 0x64 d = (kbc_status (kb d), d')" "kb d' = kb d" .
  have kb: "kb (io_wait b d') = (kb d)\<lparr>kb_busy := n\<rparr>" by (simp add: kbc_io_wait [OF assms(1)] d' Suc.prems(1))
  obtain m e where "wait_input_loop b (limit - 1) (io_wait b d') = (m, e)" "0 < m" "kb e = (kb (io_wait b d'))\<lparr>kb_busy := 0\<rparr>"
    using Suc.IH [of "io_wait b d'" "limit - 1"] kb Suc.prems(2) by auto
  then show ?case using Suc.prems kb by (subst wait_input_loop.simps) (simp add: d' kbc_status_def)
qed

lemma wait_output_ready:
  assumes "drives_kbc b kb" and "kb_busy (kb d) = n" and "int n < limit" and "kb_out (kb d) \<noteq> []"
  shows "\<exists>m d'. wait_output_loop b limit d = (m, d') \<and> 0 < m \<and> kb d' = (kb d)\<lparr>kb_busy := 0\<rparr>"
  using assms(2-4)
proof (induction n arbitrary: d limit)
  case 0
  from kbc_stat [OF assms(1)] obtain d' where "inb b 0x64 d = (kbc_status (kb d), d')" "kb d' = kb d" .
  with 0 show ?case by (subst wait_output_loop.simps) (simp add: kbc_status_def not_busy)
next
  case (Suc n)
  from kbc_stat [OF assms(1)] obtain d' where d': "inb b 0x64 d = (kbc_status (kb d), d')" "kb d' = kb d" .
  have kb: "kb (io_wait b d') = (kb d)\<lparr>kb_busy := n\<rparr>" by (simp add: kbc_io_wait [OF assms(1)] d' Suc.prems(1))
  obtain m e where "wait_output_loop b (limit - 1) (io_wait b d') = (m, e)" "0 < m" "kb e = (kb (io_wait b d'))\<lparr>kb_busy := 0\<rparr>"
    using Suc.IH [of "io_wait b d'" "limit - 1"] kb Suc.prems(2,3) by auto
  then show ?case using Suc.prems kb by (subst wait_output_loop.simps) (simp add: d' kbc_status_def)
qed

text \<open>A write reaches the controller if it takes its writes in within the time that the loops wait.\<close>

lemma write_command_ready:
  assumes "drives_kbc b kb" and "kb_busy (kb d) < 100000" and "v \<in> {0x20, 0x60, 0xD2}"
  shows "kb (i8042_write_command b v d) = kbc_out 0x64 v ((kb d)\<lparr>kb_busy := 0\<rparr>)"
proof -
  obtain n d' where "wait_input_loop b 100000 d = (n, d')" "0 < n" and d': "kb d' = (kb d)\<lparr>kb_busy := 0\<rparr>"
    using wait_input_ready [OF assms(1) refl, of d 100000] assms(2) by auto
  moreover have "kb (outb b 0x64 v d') = kbc_out 0x64 v (kb d')"
    using assms(3) by (intro drives_outb [OF assms(1)]) (simp add: kbc_writes_def d')
  ultimately show ?thesis by (simp add: i8042_write_command_def i8042_wait_input_timeout_def)
qed

lemma write_data_ready:
  assumes "drives_kbc b kb" and "kb_busy (kb d) < 100000" and "kb_pending (kb d) \<in> {0x60, 0xD2}"
  shows "kb (i8042_write_data b v d) = kbc_out 0x60 v ((kb d)\<lparr>kb_busy := 0\<rparr>)"
proof -
  obtain n d' where "wait_input_loop b 100000 d = (n, d')" "0 < n" and d': "kb d' = (kb d)\<lparr>kb_busy := 0\<rparr>"
    using wait_input_ready [OF assms(1) refl, of d 100000] assms(2) by auto
  moreover have "kb (outb b 0x60 v d') = kbc_out 0x60 v (kb d')"
    using assms(3) by (intro drives_outb [OF assms(1)]) (simp add: kbc_writes_def d')
  ultimately show ?thesis by (simp add: i8042_write_data_def i8042_wait_input_timeout_def)
qed

lemma drain_ready:
  assumes "drives_kbc b kb" and "kb_busy (kb d) = 0"
  shows "\<exists>d'. keyboard_drain b d = Some d' \<and> kb d' = (kb d)\<lparr>kb_out := []\<rparr>"
  using assms(2)
proof (induction "kb_out (kb d)" arbitrary: d)
  case Nil
  from kbc_stat [OF assms(1)] obtain d' where d': "inb b 0x64 d = (kbc_status (kb d), d')" "kb d' = kb d" .
  have "(kb d)\<lparr>kb_out := []\<rparr> = kb d" using Nil by (cases "kb d") simp
  with d' Nil show ?case by (subst keyboard_drain.simps) (simp add: kbc_status_def)
next
  case (Cons c cs)
  from kbc_stat [OF assms(1)] obtain d' where d': "inb b 0x64 d = (kbc_status (kb d), d')" "kb d' = kb d" .
  have st: "kbc_status (kb d) = 1" using Cons.prems by (simp add: kbc_status_def flip: Cons.hyps(2))
  obtain e where e: "inb b 0x60 d' = (c, e)" "kb e = (kb d)\<lparr>kb_out := cs\<rparr>"
    by (rule drives_inb [where p = "0x60" and d = d', OF assms(1)])
      (simp_all add: kbc_reads_def kbc_in_def d' st that flip: Cons.hyps(2))
  have "\<exists>f. keyboard_drain b e = Some f \<and> kb f = (kb e)\<lparr>kb_out := []\<rparr>"
    using Cons.prems by (intro Cons.hyps(1)) (simp_all add: e)
  then show ?case by (subst keyboard_drain.simps) (auto simp: d' st e)
qed


definition kbc_bus :: "kbc bus" where
  "kbc_bus = \<lparr>inb = kbc_in, outb = kbc_out\<rparr>"


text \<open>A controller that never takes anything in does not stop the kernel: the loops have counters, and the writes are
  given up.  \<open>obs\<close> is anything that reading the status and waiting leave alone.\<close>

lemma wait_input_stuck:
  assumes "\<And>d. fst (inb b 0x64 d) = 2" and "\<And>d. obs (snd (inb b 0x64 d)) = obs d" and "\<And>d. obs (io_wait b d) = obs d"
    and "0 < limit"
  shows "\<exists>d'. wait_input_loop b limit d = (0, d') \<and> obs d' = obs d"
  using assms(4)
proof (induction "nat (limit - 1)" arbitrary: d limit)
  case 0
  then show ?case
    using assms(1) [of d] assms(2) [of d] by (subst wait_input_loop.simps) (auto simp: prod_eq_iff split_beta)
next
  case (Suc n)
  have "n = nat (limit - 1 - 1)" "0 < limit - 1" using Suc(2) by auto
  from Suc(1) [OF this, of "io_wait b (snd (inb b 0x64 d))"]
  have "\<exists>d'. wait_input_loop b (limit - 1) (io_wait b (snd (inb b 0x64 d))) = (0, d') \<and> obs d' = obs d"
    by (simp add: assms(2,3))
  moreover have "0 < limit - 1" using Suc(2) by simp
  ultimately show ?case
    using assms(1) [of d] by (subst wait_input_loop.simps) (auto simp: split_beta)
qed

lemma wait_output_stuck:
  assumes "\<And>d. fst (inb b 0x64 d) = 2" and "\<And>d. obs (snd (inb b 0x64 d)) = obs d" and "\<And>d. obs (io_wait b d) = obs d"
    and "0 < limit"
  shows "\<exists>d'. wait_output_loop b limit d = (0, d') \<and> obs d' = obs d"
  using assms(4)
proof (induction "nat (limit - 1)" arbitrary: d limit)
  case 0
  then show ?case
    using assms(1) [of d] assms(2) [of d] by (subst wait_output_loop.simps) (auto simp: prod_eq_iff split_beta)
next
  case (Suc n)
  have "n = nat (limit - 1 - 1)" "0 < limit - 1" using Suc(2) by auto
  from Suc(1) [OF this, of "io_wait b (snd (inb b 0x64 d))"]
  have "\<exists>d'. wait_output_loop b (limit - 1) (io_wait b (snd (inb b 0x64 d))) = (0, d') \<and> obs d' = obs d"
    by (simp add: assms(2,3))
  moreover have "0 < limit - 1" using Suc(2) by simp
  ultimately show ?case
    using assms(1) [of d] by (subst wait_output_loop.simps) (auto simp: split_beta)
qed

lemma stuck_controller_given_up:
  assumes "\<And>d. fst (inb b 0x64 d) = 2" and "\<And>d. obs (snd (inb b 0x64 d)) = obs d" and "\<And>d. obs (io_wait b d) = obs d"
  shows "\<exists>d'. keyboard_setup b (s, d) = Some (keyboard_init s, d') \<and> obs d' = obs d"
proof -
  have drain: "keyboard_drain b d = Some (snd (inb b 0x64 d))"
    using assms(1) [of d] by (subst keyboard_drain.simps) (simp add: split_beta)
  obtain d2 where d2: "i8042_write_command b 0x20 (snd (inb b 0x64 d)) = d2" "obs d2 = obs d"
    using wait_input_stuck [of b obs 100000 "snd (inb b 0x64 d)"] assms
    by (auto simp: i8042_write_command_def i8042_wait_input_timeout_def)
  obtain d3 where d3: "wait_output_loop b 100000 d2 = (0, d3)" "obs d3 = obs d"
    using wait_output_stuck [of b obs 100000 d2] assms d2(2) by auto
  show ?thesis
    by (simp add: keyboard_setup_def i8042_configure_def drain d2(1) i8042_wait_output_timeout_def d3)
qed

text \<open>Polling the ports decodes exactly the scancodes that wait in the controller, in their order: \<open>keyboard_poll\<close>
  of the model with its list of waiting bytes is what the port loop does.\<close>

lemma poll_ports_poll:
  assumes "drives_kbc b kb" and "kb_busy (kb d) = 0"
  shows "\<exists>d'. poll_ports b s d = Some (fold keyboard_handle_scancode (kb_out (kb d)) s, d') \<and> kb d' = (kb d)\<lparr>kb_out := []\<rparr>"
  using assms(2)
proof (induction "kb_out (kb d)" arbitrary: d s)
  case Nil
  from kbc_stat [OF assms(1)] obtain d' where d': "inb b 0x64 d = (kbc_status (kb d), d')" "kb d' = kb d" .
  have "(kb d)\<lparr>kb_out := []\<rparr> = kb d" using Nil by (cases "kb d") simp
  with d' Nil(1) [symmetric] Nil(2) show ?case by (subst poll_ports.simps) (simp add: kbc_status_def)
next
  case (Cons c cs)
  from kbc_stat [OF assms(1)] obtain d' where d': "inb b 0x64 d = (kbc_status (kb d), d')" "kb d' = kb d" .
  have st: "kbc_status (kb d) = 1" using Cons.prems by (simp add: kbc_status_def flip: Cons.hyps(2))
  obtain e where e: "inb b 0x60 d' = (c, e)" "kb e = (kb d)\<lparr>kb_out := cs\<rparr>"
    by (rule drives_inb [where p = "0x60" and d = d', OF assms(1)])
      (simp_all add: kbc_reads_def kbc_in_def d' st that flip: Cons.hyps(2))
  have "\<exists>f. poll_ports b (keyboard_handle_scancode c s) e = Some (fold keyboard_handle_scancode (kb_out (kb e)) (keyboard_handle_scancode c s), f) \<and>
      kb f = (kb e)\<lparr>kb_out := []\<rparr>"
    using Cons.prems by (intro Cons.hyps(1)) (simp_all add: e)
  then show ?case by (subst poll_ports.simps) (auto simp: d' st e simp flip: Cons.hyps(2))
qed

text \<open>The timer counts \<open>11931\<close> ticks of its clock, a hundredth of a second, in mode 3.\<close>

lemma pit_init_reload:
  assumes "drives_pit b tm"
  shows "pit_reload (tm (pit_init b d)) = 11931 \<and> pit_mode (tm (pit_init b d)) = 0x36"
proof -
  have 1: "tm (outb b 0x43 0x36 d) = (tm d)\<lparr>pit_mode := 0x36, pit_low := None\<rparr>"
    by (simp add: drives_outb [OF assms] pit_writes_def pit_out_def)
  have 2: "tm (outb b 0x40 0x9B (outb b 0x43 0x36 d)) = (tm d)\<lparr>pit_mode := 0x36, pit_low := Some 0x9B\<rparr>"
    by (simp add: drives_outb [OF assms] pit_writes_def pit_out_def 1)
  have "tm (outb b 0x40 0x2E (outb b 0x40 0x9B (outb b 0x43 0x36 d))) = (tm d)\<lparr>pit_mode := 0x36, pit_low := None, pit_reload := 11931\<rparr>"
    by (simp add: drives_outb [OF assms] pit_writes_def pit_out_def 2)
  then show ?thesis by (simp add: pit_init_def)
qed

text \<open>The screen's controller shows the cursor where the driver's state has it, as an underline over all sixteen lines.\<close>

lemma bytes_of_position:
  "(ucast (ucast (x AND 0xFF) :: u8) :: u16) OR push_bit 8 (ucast (ucast (drop_bit 8 x AND 0xFF) :: u8)) = x" for x :: u16
proof (rule bit_word_eqI)
  fix n assume "n < LENGTH(16)"
  then consider "n < 8" | "8 \<le> n" "n < 16" by fastforce
  then show "bit ((ucast (ucast (x AND 0xFF) :: u8) :: u16) OR push_bit 8 (ucast (ucast (drop_bit 8 x AND 0xFF) :: u8))) n = bit x n"
    unfolding low_mask by cases (auto simp: bit_simps dest: bit_imp_le_length)
qed

lemma hardware_cursor_shown:
  assumes "drives_crtc b sc"
  shows "crtc_cursor (sc (hardware_cursor_ports b v d)) = hw_cursor (vga_update_hardware_cursor v) \<and>
     (\<forall>r. r \<notin> {0x0E, 0x0F} \<longrightarrow> crtc_reg (sc (hardware_cursor_ports b v d)) r = crtc_reg (sc d) r)"
  using bytes_of_position
  by (simp add: hardware_cursor_ports_def Let_def drives_outb [OF assms] crtc_out_def crtc_cursor_def vga_update_hardware_cursor_def)

lemma vga_init_ports_shown:
  assumes "drives_crtc b sc" and "vga_init_ports b (v, d) = (v1, d1)"
  shows "v1 = vga_init v \<and> crtc_cursor (sc d1) = hw_cursor v1 \<and> crtc_reg (sc d1) 0x0A = crtc_reg (sc d) 0x0A AND 0x20 \<and>
     crtc_reg (sc d1) 0x0B = (crtc_reg (sc d) 0x0B AND 0x60) OR 15"
proof -
  define da where "da = outb b 0x3D4 0x0A d"
  have da: "sc da = (sc d)\<lparr>crtc_index := 0x0A\<rparr>" by (simp add: da_def drives_outb [OF assms(1)] crtc_out_def)
  obtain db where db: "inb b 0x3D5 da = (crtc_reg (sc d) 0x0A, db)" "sc db = (sc d)\<lparr>crtc_index := 0x0A\<rparr>"
    by (rule drives_inb [where p = "0x3D5" and d = da, OF assms(1)]) (simp_all add: crtc_in_def da that)
  define dc where "dc = outb b 0x3D4 0x0B (outb b 0x3D5 (crtc_reg (sc d) 0x0A AND 0x20) db)"
  have dc: "sc dc = (sc d)\<lparr>crtc_index := 0x0B, crtc_reg := (crtc_reg (sc d))(0x0A := crtc_reg (sc d) 0x0A AND 0x20)\<rparr>"
    by (simp add: dc_def drives_outb [OF assms(1)] crtc_out_def db)
  obtain dd where dd: "inb b 0x3D5 dc = (crtc_reg (sc d) 0x0B, dd)" "sc dd = sc dc"
    by (rule drives_inb [where p = "0x3D5" and d = dc, OF assms(1)]) (simp_all add: crtc_in_def dc that)
  have shape: "crtc_reg (sc (cursor_shape_ports b d)) 0x0A = crtc_reg (sc d) 0x0A AND 0x20"
    "crtc_reg (sc (cursor_shape_ports b d)) 0x0B = (crtc_reg (sc d) 0x0B AND 0x60) OR 15"
    unfolding cursor_shape_ports_def by (simp_all add: Let_def db dd drives_outb [OF assms(1)] crtc_out_def dc flip: da_def dc_def)
  have "v1 = vga_init v" and d1: "d1 = hardware_cursor_ports b v1 (cursor_shape_ports b d)"
    using assms(2) by (auto simp: vga_init_ports_def Let_def)
  moreover have "hw_cursor v1 = hw_cursor (vga_update_hardware_cursor v1)"
    unfolding \<open>v1 = vga_init v\<close> vga_init_def Let_def by (simp add: vga_update_hardware_cursor_def)
  ultimately show ?thesis
    using hardware_cursor_shown [OF assms(1), of v1 "cursor_shape_ports b d"] by (simp add: shape)
qed

end
