(* ===== verification/Clone.thy ===== *)
theory Clone
  imports UserPages
begin

unbundle bit_operations_syntax

text \<open>
  The memory of \<^verbatim>\<open>fork\<close>: \<^verbatim>\<open>paging_clone_current_address_space\<close> of \<^verbatim>\<open>core/mm/paging.c\<close> copies the tables and the pages that
  carry the user bit, level by level, and shares every other entry.  \<open>later s s'\<close> says that \<open>s'\<close> comes from \<open>s\<close> by steps that
  leave every frame in use as it was; \<open>copying s0 M D s\<close> is the invariant of the four loops, with the frames of the
  copy by their paths (\<open>M\<close>) and the entries stored so far (\<open>D\<close>); \<open>clone_step\<close> is the contract of the work for one entry,
  proved from the innermost level outwards.  \<open>forkable s\<close> says when the copy can be relied on: the tables are well-formed,
  the two pages of the mapping window are not in use, the program's pages are its own, and the frames that the
  code reaches through their own addresses are mapped there.  The last condition is the one that the boot
  sequence gives for the first 64 MiB only.
\<close>

section \<open>Steps that leave every used frame alone\<close>

definition later :: "'a kpaging_scheme \<Rightarrow> 'a kpaging_scheme \<Rightarrow> bool" where
  "later s s' \<longleftrightarrow> pml4 s' = pml4 s \<and> cr3 s' = cr3 s \<and> kpaging.more s' = kpaging.more s \<and>
     total_frames s' = total_frames s \<and> kernel_end s' = kernel_end s \<and> stack_top s' = stack_top s \<and> frames_ok s' \<and>
     (\<forall>f. frame_used s f \<longrightarrow> frame_used s' f) \<and> (\<forall>a. frame_used s (page_of a) \<longrightarrow> mem s' a = mem s a)"

definition window_unmapped :: "'a kpaging_scheme \<Rightarrow> bool" where
  "window_unmapped s \<longleftrightarrow> paging_pte_value KERNEL_KMAP_WINDOW s = 0 \<and>
     paging_pte_value (KERNEL_KMAP_WINDOW + PAGE_SIZE) s = 0"

lemma set_entry_limits: "kernel_end (set_entry t i v s) = kernel_end s" "stack_top (set_entry t i v s) = stack_top s"
  by (simp_all add: set_entry_def)

lemma later_refl: "frames_ok s \<Longrightarrow> later s s"
  by (simp add: later_def)

lemma later_trans: "later s s' \<Longrightarrow> later s' s'' \<Longrightarrow> later s s''"
  unfolding later_def by simp

lemma later_entry:
  assumes "later s s'" and "frame_used s t" and "i < 512"
  shows "get_entry t i s' = get_entry t i s"
proof (rule get_entry_agree [OF _ assms(3)])
  show "page_aligned t" using assms(2) by (simp add: frame_used_def)
  show "mem s' a = mem s a" if "page_of a = t" for a using assms(1,2) that by (simp add: later_def)
qed

lemma later_tree:
  assumes L: "later s s'" and ok: "pt_ok s"
  shows "valid_path p \<Longrightarrow> table_at s' p = table_at s p" and "table_frame s' f = table_frame s f" and "pt_ok s'"
    and "paging_virt_to_phys v s' = paging_virt_to_phys v s" and "paging_pte_value v s' = paging_pte_value v s"
    and "paging_get_pt v s' = paging_get_pt v s"
proof -
  have ent: "get_entry t i s' = get_entry t i s" if "table_at s p = Some t" "valid_path p" "i < 512" for p t i
    using later_entry [OF L pt_ok_table(1) [OF ok that(2,1)] that(3)] .
  have at: "table_at s' p = table_at s p" if "valid_path p" for p
    using that
  proof (induction p)
    case Nil
    then show ?case using L by (simp add: later_def)
  next
    case (Cons i p)
    then show ?case using ent by (auto simp: valid_path_Cons split: option.splits)
  qed
  show "valid_path p \<Longrightarrow> table_at s' p = table_at s p" by (rule at)
  show "table_frame s' f = table_frame s f" using at unfolding table_frame_def by metis
  have used: "frame_used s' t" if "valid_path p" "table_at s p = Some t" for p t
    using L pt_ok_table(1) [OF ok that] by (simp add: later_def)
  have tl: "valid_path p" if "valid_path (i # p)" for i :: u64 and p using that by (simp add: valid_path_Cons)
  have huge: "length p = 2 \<and> get_entry t i s' AND 0x1FF000 = 0"
    if "valid_path (i # p)" "table_at s p = Some t" "pte_present (get_entry t i s')" "pte_huge (get_entry t i s')" for p t i
    using that pt_ok_huge [OF ok that(1,2)] ent [OF that(2) tl [OF that(1)]] by (simp add: valid_path_Cons)
  show ok': "pt_ok s'"
    unfolding pt_ok_def
  proof (intro conjI allI impI)
    fix p t assume p: "valid_path p" "table_at s' p = Some t"
    then have "table_at s p = Some t" by (simp add: at)
    then show "frame_used s' t" "t \<noteq> 0" "t < IDENTITY_MAP_LIMIT" using used pt_ok_table(2,4) [OF ok] p(1) by blast+
  next
    fix p q t assume "valid_path p" "valid_path q" "table_at s' p = Some t" "table_at s' q = Some t"
    then show "p = q" using pt_ok_inject [OF ok] by (simp add: at)
  next
    fix p t i assume p: "valid_path (i # p)" "table_at s' p = Some t" "pte_present (get_entry t i s')" "pte_huge (get_entry t i s')"
    then have "table_at s p = Some t" using at [OF tl] by metis
    then show "length p = 2" "get_entry t i s' AND 0x1FF000 = 0" using huge p by blast+
  qed
  have pt: "table_at s (PD_INDEX v # pd_path v) = Some (e AND PTE_ADDR_MASK)"
    if "table_at s (pd_path v) = Some pd" "get_entry pd (PD_INDEX v) s = e" "pte_present e" "\<not> pte_huge e" for pd e v
    using that by simp
  show "paging_virt_to_phys v s' = paging_virt_to_phys v s"
    unfolding virt_to_phys_tree [OF ok] virt_to_phys_tree [OF ok'] at [OF pd_path_valid(1)]
    using ent [OF _ pd_path_valid(1) index_less(3)] ent [OF pt valid_pt_path index_less(4)]
    by (auto simp: Let_def split: option.split)
  show "paging_pte_value v s' = paging_pte_value v s"
    unfolding paging_get_pt_tree [OF ok] paging_get_pt_tree [OF ok'] at [OF valid_pt_path]
    using ent [OF _ valid_pt_path index_less(4)] by (auto split: option.split)
  show "paging_get_pt v s' = paging_get_pt v s"
    unfolding paging_get_pt_tree [OF ok] paging_get_pt_tree [OF ok'] at [OF valid_pt_path] ..
qed

lemma later_space:
  assumes L: "later s s'" and ok: "space_ok s"
  shows "space_ok s'" and "window_unmapped s' = window_unmapped s"
proof -
  note tree = later_tree [OF L space_okD(1) [OF ok]]
  show "space_ok s'"
    using L ok tree(3,6) unfolding space_ok_def window_ready_def later_def by metis
  show "window_unmapped s' = window_unmapped s" by (simp add: window_unmapped_def tree(5))
qed

section \<open>Copying one frame\<close>

text \<open>A frame that the code reaches through its own address.\<close>

definition direct :: "'a kpaging_scheme \<Rightarrow> u64 \<Rightarrow> bool" where
  "direct s f \<longleftrightarrow> (\<forall>k. unat k < 4096 \<longrightarrow> paging_virt_to_phys (f + k) s = f + k)"

lemma aligned_offset:
  assumes "page_aligned v" and "unat v < 2 ^ 48" and "unat k < 4096"
  shows "same_page v (v + k)" and "(v + k) AND (PAGE_SIZE - 1) = k" and "unat (v + k) = unat v + unat k"
proof -
  obtain n where n: "unat v = 4096 * n" using assms(1) unfolding page_aligned_def by (metis dvdE mod_0_imp_dvd)
  show sum: "unat (v + k) = unat v + unat k" using assms by (simp add: unat_add_small)
  have lt: "unat (v + k) < 2 ^ 48" using assms n unfolding sum by simp
  have "unat (v + k) div 4096 = unat v div 4096" using assms(3) unfolding sum n by simp
  then show "same_page v (v + k)" using same_page_number [OF assms(2) lt] by simp
  have "unat ((v + k) AND (PAGE_SIZE - 1)) = unat (v + k) mod 4096"
    using unat_and_mask [of "v + k" 12] by (simp add: mask_eq_exp_minus_1)
  also have "\<dots> = unat k" using assms(3) unfolding sum n by simp
  finally show "(v + k) AND (PAGE_SIZE - 1) = k" by (simp only: unat_eq_iff)
qed

lemma leaf_translates:
  assumes ok: "pt_ok s" and at: "table_at s (PD_INDEX v # pd_path v) = Some pt"
    and e: "pte_present (get_entry pt (PT_INDEX v) s)"
  shows "paging_virt_to_phys v s = (get_entry pt (PT_INDEX v) s AND PTE_ADDR_MASK) + (v AND (PAGE_SIZE - 1))"
    and "cr3 s AND PTE_ADDR_MASK = pml4 s \<Longrightarrow>
      mmu s v = Some ((get_entry pt (PT_INDEX v) s AND PTE_ADDR_MASK) + (v AND (PAGE_SIZE - 1)))"
proof -
  from at obtain pd where pd: "table_at s (pd_path v) = Some pd" "pte_present (get_entry pd (PD_INDEX v) s)"
    "\<not> pte_huge (get_entry pd (PD_INDEX v) s)" "get_entry pd (PD_INDEX v) s AND PTE_ADDR_MASK = pt"
    by (auto simp: Let_def split: option.splits if_splits)
  then show "paging_virt_to_phys v s = (get_entry pt (PT_INDEX v) s AND PTE_ADDR_MASK) + (v AND (PAGE_SIZE - 1))"
    using e unfolding virt_to_phys_tree [OF ok] by (simp add: Let_def)
  show "mmu s v = Some ((get_entry pt (PT_INDEX v) s AND PTE_ADDR_MASK) + (v AND (PAGE_SIZE - 1)))"
    if "cr3 s AND PTE_ADDR_MASK = pml4 s"
    using e pd unfolding mmu_tree [OF ok that] by (simp add: Let_def)
qed

lemma leaf_page:
  assumes "pt_ok s" and "cr3 s AND PTE_ADDR_MASK = pml4 s" and v: "page_aligned v" "unat v < 2 ^ 48"
    and at: "table_at s (PD_INDEX v # pd_path v) = Some pt" and e: "pte_present (get_entry pt (PT_INDEX v) s)"
    and k: "unat k < 4096"
  shows "mmu s (v + k) = Some ((get_entry pt (PT_INDEX v) s AND PTE_ADDR_MASK) + k)"
proof -
  note off = aligned_offset [OF v k]
  have "PD_INDEX (v + k) # pd_path (v + k) = PD_INDEX v # pd_path v" and pt: "PT_INDEX (v + k) = PT_INDEX v"
    using off(1) unfolding same_page_paths by simp_all
  then have "table_at s (PD_INDEX (v + k) # pd_path (v + k)) = Some pt" using at by (simp only:)
  from leaf_translates(2) [OF assms(1) this _ assms(2)] show ?thesis using e off(2) pt by simp
qed

lemma direct_mmu:
  assumes "space_ok s" and "direct s f" and "f \<noteq> 0" and "page_aligned f" and "unat k < 4096"
  shows "mmu s (f + k) = Some (f + k)"
proof -
  have "f + k \<noteq> 0"
  proof
    assume "f + k = 0"
    moreover have "page_of (f + k) = f" by (rule page_of_add [OF assms(4,5)])
    ultimately show False using assms(3) by (simp add: page_of_def)
  qed
  then show ?thesis using mmu_virt [OF space_okD(1,3) [OF assms(1)], of "f + k"] assms(2,5) by (simp add: direct_def)
qed

lemma le_bytes_zero: "k < n \<Longrightarrow> le_bytes n 0 ! k = 0"
  by (induction n arbitrary: k) (auto simp: nth_Cons split: nat.split)

lemma rd64_zero:
  assumes "rd64 m a = 0" and k: "unat k < 8"
  shows "m (a + k) = 0"
proof -
  define n where "n = le_val (mem_read m a 8)"
  have n: "n < 2 ^ 64" using le_val_bound [of "mem_read m a 8"] by (simp add: n_def)
  have "(of_nat n :: u64) = 0" using assms(1) by (simp add: rd64_def n_def)
  then have "n = 0" using n by (metis unat_0 unat_of_nat_small)
  then have "mem_read m a 8 = le_bytes 8 0" using le_bytes_val [of "mem_read m a 8"] unfolding n_def by simp
  then have "mem_read m a 8 ! unat k = 0" using le_bytes_zero [OF k] by (simp only:)
  then show ?thesis unfolding nth_mem_read [OF k] by simp
qed

lemma set_entry_apply:
  "mem (set_entry t i v s) a = (if unat (a - (t + 8 * i)) < 8 then le_bytes 8 (unat v) ! unat (a - (t + 8 * i)) else mem s a)"
proof -
  have upd: "mem (s\<lparr>mem := m\<rparr>) = m" for m by simp
  have "length (le_bytes 8 (unat v)) \<le> 2 ^ 64" by simp
  from mem_write_apply [OF this, of "mem s" "t + 8 * i" a] show ?thesis
    unfolding set_entry_def wr64_def upd length_le_bytes .
qed

text \<open>Two entries that were zero are zero again after use: the memory is what it was.\<close>

lemma entry_zeroed_again:
  assumes "get_entry t i s = 0"
  shows "mem (set_entry t i 0 s') a = (if unat (a - (t + 8 * i)) < 8 then mem s a else mem s' a)"
proof (cases "unat (a - (t + 8 * i)) < 8")
  case True
  have "mem s (t + 8 * i + (a - (t + 8 * i))) = 0"
    using assms [unfolded get_entry_def] True by (rule rd64_zero)
  then have "mem s a = 0" by (simp only: add_diff_cancel_left' diff_add_cancel add.commute [of _ "a - _"])
  then show ?thesis unfolding set_entry_apply using le_bytes_zero [OF True] True by (simp only: unat_0 if_True)
next
  case False
  then show ?thesis unfolding set_entry_apply by (simp only: if_False)
qed

text \<open>What the bytes of a frame are after it has been written as a whole.\<close>

lemma write_frame:
  assumes "page_aligned dst"
  shows "page_of a \<noteq> dst \<Longrightarrow> mem_write m dst (mem_read m' src 4096) a = m a"
    and "unat k < 4096 \<Longrightarrow> mem_write m dst (mem_read m' src 4096) (dst + k) = m' (src + k)"
proof -
  have w: "mem_write m dst (mem_read m' src 4096) a =
      (if unat (a - dst) < 4096 then mem_read m' src 4096 ! unat (a - dst) else m a)" for a
    using mem_write_apply [of "mem_read m' src 4096" m dst a] by simp
  show "mem_write m dst (mem_read m' src 4096) a = m a" if "page_of a \<noteq> dst"
    using that page_of_diff [OF assms, of a] unfolding w by simp
  show "mem_write m dst (mem_read m' src 4096) (dst + k) = m' (src + k)" if "unat k < 4096"
    using that unfolding w by simp
qed

lemma window_paths:
  "PD_INDEX (KERNEL_KMAP_WINDOW + PAGE_SIZE) # pd_path (KERNEL_KMAP_WINDOW + PAGE_SIZE) = PD_INDEX KERNEL_KMAP_WINDOW # pd_path KERNEL_KMAP_WINDOW"
  "PT_INDEX KERNEL_KMAP_WINDOW = 0" "PT_INDEX (KERNEL_KMAP_WINDOW + PAGE_SIZE) = 1"
  by (simp_all add: pd_path_def PD_INDEX_def PDP_INDEX_def PML4_INDEX_def PT_INDEX_def)

lemma frame_entry:
  assumes "page_aligned f" and "unat f < 2 ^ 52" and "fl AND PTE_ADDR_MASK = 0" and "pte_present fl"
  shows "(f AND PTE_ADDR_MASK) OR fl = f OR fl" and "pte_present (f OR fl)" and "(f OR fl) AND PTE_ADDR_MASK = f"
proof -
  have f: "f AND PTE_ADDR_MASK = f" by (rule aligned_low_mask [OF assms(1,2)])
  show "(f AND PTE_ADDR_MASK) OR fl = f OR fl" unfolding f ..
  show "pte_present (f OR fl)" using assms(4) by (simp add: pte_present_def bit.conj_disj_distrib2 or_eq_0_iff)
  show "(f OR fl) AND PTE_ADDR_MASK = f" unfolding bit.conj_disj_distrib2 f assms(3) by simp
qed

lemma copy_frame_window:
  assumes ok: "space_ok s" and un: "window_unmapped s"
    and d: "page_aligned dst" "unat dst < 2 ^ 52" "\<not> table_frame s dst"
    and c: "page_aligned src" "unat src < 2 ^ 52" "\<not> table_frame s src"
    and high: "\<not> (src < IDENTITY_MAP_LIMIT \<and> dst < IDENTITY_MAP_LIMIT)"
  obtains s' where "paging_copy_frame dst src s = Some (0, s')" and "s' = s\<lparr>mem := mem s'\<rparr>"
    and "\<And>a. page_of a \<noteq> dst \<Longrightarrow> mem s' a = mem s a"
    and "\<And>k. unat k < 4096 \<Longrightarrow> mem s' (dst + k) = mem s (src + k)"
proof -
  let ?w = KERNEL_KMAP_WINDOW and ?v = "KERNEL_KMAP_WINDOW + PAGE_SIZE"
  note pt_s = space_okD(1) [OF ok] and cr = space_okD(3) [OF ok]
  define pt where "pt = paging_get_pt ?w s"
  have pt: "paging_get_pt ?w s = pt" "pt \<noteq> 0" using space_okD(4) [OF ok] by (auto simp: pt_def window_ready_def)
  have w0: "?w AND (PAGE_SIZE - 1) = 0" "?v AND (PAGE_SIZE - 1) = 0" by simp_all
  note al = aligned_low(1) [OF c(1)] aligned_low(1) [OF d(1)]
  note map1 = map_present_path [OF pt_s pt w0(1) al(1), unfolded window_paths(2)]
  have fl: "PAGE_PRESENT AND PTE_ADDR_MASK = 0" "pte_present PAGE_PRESENT"
    "(PAGE_PRESENT OR PAGE_WRITABLE) AND PTE_ADDR_MASK = 0" "pte_present (PAGE_PRESENT OR PAGE_WRITABLE)"
    by (simp_all add: pte_present_def)
  note e1 = frame_entry [OF c(1,2) fl(1,2)] and e2 = frame_entry [OF d(1,2) fl(3,4)]
  define s1 where "s1 = set_entry pt 0 (src OR PAGE_PRESENT) s"
  define s2 where "s2 = set_entry pt 1 (dst OR (PAGE_PRESENT OR PAGE_WRITABLE)) s1"
  note leaf = map1(2) valid_pt_path
  have len: "length (PD_INDEX ?w # pd_path ?w) = 3" by simp
  have i: "(0::u64) < 512" "(1::u64) < 512" by simp_all
  have pal: "page_aligned pt" by (rule pt_ok_table(3) [OF pt_s valid_pt_path map1(2)])
  have ok1: "pt_ok s1" unfolding s1_def by (rule leaf_pt_ok [OF pt_s leaf len i(1)])
  have at1: "table_at s1 (PD_INDEX ?w # pd_path ?w) = Some pt"
    unfolding s1_def using leaf_table_at [OF pt_s leaf len i(1) valid_pt_path] map1(2) by simp
  have "paging_get_pt ?v s1 = pt" unfolding paging_get_pt_tree(1) [OF ok1] window_paths(1) at1 by simp
  note map2 = map_present_path(1) [OF ok1 this pt(2) w0(2) al(2), unfolded window_paths(3)]
  have ok2: "pt_ok s2" unfolding s2_def by (rule leaf_pt_ok [OF ok1 at1 valid_pt_path len i(2)])
  have at2: "table_at s2 (PD_INDEX ?w # pd_path ?w) = Some pt"
    unfolding s2_def using leaf_table_at [OF ok1 at1 valid_pt_path len i(2) valid_pt_path] at1 by simp
  have tf: "table_frame s2 f = table_frame s f" for f
    unfolding s1_def s2_def table_frame_def
    using leaf_table_at [OF pt_s leaf len i(1)] leaf_table_at [OF ok1 at1 valid_pt_path len i(2)] by (metis s1_def)
  have g: "get_entry pt 0 s2 = src OR PAGE_PRESENT" "get_entry pt 1 s2 = dst OR (PAGE_PRESENT OR PAGE_WRITABLE)"
    using pal by (simp_all add: s2_def s1_def get_set_entry del: PAGE_PRESENT_def PAGE_WRITABLE_def)
  have cr2: "cr3 s2 AND PTE_ADDR_MASK = pml4 s2" using cr by (simp add: s2_def s1_def)
  have wal: "page_aligned ?w" "unat ?w < 2 ^ 48" "page_aligned ?v" "unat ?v < 2 ^ 48" by (simp_all add: page_aligned_def)
  have mmu1: "mmu s2 (?w + k) = Some (src + k)" if k: "unat k < 4096" for k
    using leaf_page [OF ok2 cr2 wal(1,2) at2 _ k] e1(2,3) unfolding window_paths g by simp
  have at2': "table_at s2 (PD_INDEX ?v # pd_path ?v) = Some pt" unfolding window_paths(1) by (rule at2)
  have mmu2: "mmu s2 (?v + k) = Some (dst + k)" if k: "unat k < 4096" for k
    using leaf_page [OF ok2 cr2 wal(3,4) at2' _ k] e2(2,3) unfolding window_paths(2,3) g by simp
  let ?bs = "mem_read (mem s2) src 4096"
  have rd: "virt_read s2 ?w 4096 = Some ?bs"
    by (rule virt_read_at) (simp add: mmu1 unat_of_nat_small del: KERNEL_KMAP_WINDOW_def)
  define s3 where "s3 = s2\<lparr>mem := mem_write (mem s2) dst ?bs\<rparr>"
  have wr: "virt_write ?v ?bs s2 = Some s3"
    unfolding s3_def
  proof (rule virt_write_at [OF ok2 cr2])
    fix i assume "i < length ?bs"
    then have i: "unat (of_nat i :: u64) < 4096" by (simp add: unat_of_nat_small)
    show "mmu s2 (?v + of_nat i) = Some (dst + of_nat i)" by (rule mmu2 [OF i])
    show "\<not> table_frame s2 (page_of (dst + of_nat i))" using d(3) page_of_add [OF d(1) i] by (simp add: tf)
  qed
  have tables: "\<forall>a. table_frame s2 (page_of a) \<longrightarrow> mem_write (mem s2) dst ?bs a = mem s2 a"
    using d(3) write_frame(1) [OF d(1)] tf by metis
  note ag = agree_tables [OF ok2 refl tables, folded s3_def]
  have at3: "table_at s3 (PD_INDEX ?w # pd_path ?w) = Some pt" using ag(2) [OF valid_pt_path] at2 by metis
  have un1: "paging_unmap_page ?w s3 = set_entry pt 0 0 s3"
    unfolding paging_get_pt_tree(3) [OF ag(3)] at3 window_paths by simp
  define s4 where "s4 = set_entry pt 0 0 s3"
  have ok4: "pt_ok s4" unfolding s4_def by (rule leaf_pt_ok [OF ag(3) at3 valid_pt_path len i(1)])
  have at4: "table_at s4 (PD_INDEX ?w # pd_path ?w) = Some pt"
    unfolding s4_def using leaf_table_at [OF ag(3) at3 valid_pt_path len i(1) valid_pt_path] at3 by simp
  have un2: "paging_unmap_page ?v s4 = set_entry pt 1 0 s4"
    unfolding paging_get_pt_tree(3) [OF ok4] window_paths at4 by simp
  define s5 where "s5 = set_entry pt 1 0 s4"
  have run: "paging_copy_frame dst src s = Some (0, s5)"
    unfolding paging_copy_frame_def if_not_P [OF high] using map1(1) map2 rd wr un1 un2
    by (simp add: s1_def [symmetric] s2_def [symmetric] s4_def [symmetric] s5_def [symmetric] e1(1) e2(1)
      del: PAGE_PRESENT_def PAGE_WRITABLE_def KERNEL_KMAP_WINDOW_def PAGE_SIZE_def PTE_ADDR_MASK_def IDENTITY_MAP_LIMIT_def)
  have shape: "s5 = s\<lparr>mem := mem s5\<rparr>"
    by (simp add: s5_def s4_def s3_def s2_def s1_def set_entry_def)
  have zero: "get_entry pt 0 s = 0" "get_entry pt 1 s = 0"
    using un unfolding window_unmapped_def paging_get_pt_tree(2) [OF pt_s] window_paths map1(2) by simp_all
  have ptt: "table_frame s pt" using map1(2) valid_pt_path unfolding table_frame_def by blast
  have mem2: "mem s2 a = mem s a" if "page_of a \<noteq> pt" for a
    unfolding s2_def s1_def by (simp add: set_entry_mem [OF pal _ that])
  have far: "mem s5 a = mem_write (mem s2) dst ?bs a" if "page_of a \<noteq> pt" for a
    unfolding s5_def s4_def using that by (simp add: set_entry_mem [OF pal _ that] s3_def)
  have near: "mem s5 a = mem s a" if a: "page_of a = pt" for a
  proof -
    have "mem s3 a = mem s2 a" using tables a ptt tf by (simp add: s3_def)
    then show ?thesis
      unfolding s5_def s4_def entry_zeroed_again [OF zero(1)] entry_zeroed_again [OF zero(2)]
      by (auto simp only: s2_def s1_def set_entry_apply if_False if_True refl split: if_split)
  qed
  have "mem s5 a = mem s a" if "page_of a \<noteq> dst" for a
    using near far write_frame(1) [OF d(1) that] mem2 by metis
  moreover have "mem s5 (dst + k) = mem s (src + k)" if k: "unat k < 4096" for k
  proof -
    have "page_of (dst + k) = dst" "page_of (src + k) = src" using page_of_add d(1) c(1) k by blast+
    moreover have "dst \<noteq> pt" "src \<noteq> pt" using d(3) c(3) ptt by auto
    ultimately show ?thesis using far mem2 write_frame(2) [OF d(1) k] by metis
  qed
  ultimately show thesis by (rule that [OF run shape])
qed

lemma copy_frame_run:
  assumes ok: "space_ok s" and un: "window_unmapped s"
    and d: "page_aligned dst" "dst \<noteq> 0" "unat dst < 2 ^ 52" "\<not> table_frame s dst"
    and c: "page_aligned src" "src \<noteq> 0" "unat src < 2 ^ 52" "\<not> table_frame s src"
    and low: "src < IDENTITY_MAP_LIMIT \<Longrightarrow> direct s src" "dst < IDENTITY_MAP_LIMIT \<Longrightarrow> direct s dst"
  obtains s' where "paging_copy_frame dst src s = Some (0, s')" and "s' = s\<lparr>mem := mem s'\<rparr>"
    and "\<And>a. page_of a \<noteq> dst \<Longrightarrow> mem s' a = mem s a"
    and "\<And>k. unat k < 4096 \<Longrightarrow> mem s' (dst + k) = mem s (src + k)"
proof (cases "src < IDENTITY_MAP_LIMIT \<and> dst < IDENTITY_MAP_LIMIT")
  case False
  show thesis by (rule copy_frame_window [OF ok un d(1,3,4) c(1,3,4) False]) (rule that)
next
  case True
  let ?bs = "mem_read (mem s) src 4096"
  have rd: "virt_read s src 4096 = Some ?bs"
  proof (rule virt_read_at)
    fix i :: nat assume "i < 4096"
    then have i: "unat (of_nat i :: u64) < 4096" by (simp add: unat_of_nat_small)
    show "mmu s (src + of_nat i) = Some (src + of_nat i)" using direct_mmu [OF ok low(1) c(2,1) i] True by simp
  qed
  have wr: "virt_write dst ?bs s = Some (s\<lparr>mem := mem_write (mem s) dst ?bs\<rparr>)"
  proof (rule virt_write_at [OF space_okD(1,3) [OF ok]])
    fix i assume "i < length ?bs"
    then have i: "unat (of_nat i :: u64) < 4096" by (simp add: unat_of_nat_small)
    show "mmu s (dst + of_nat i) = Some (dst + of_nat i)" using direct_mmu [OF ok low(2) d(2,1) i] True by simp
    show "\<not> table_frame s (page_of (dst + of_nat i))" using d(4) page_of_add [OF d(1) i] by simp
  qed
  have "paging_copy_frame dst src s = Some (0, s\<lparr>mem := mem_write (mem s) dst ?bs\<rparr>)"
    unfolding paging_copy_frame_def if_P [OF True] rd by (simp add: wr)
  then show thesis by (rule that) (simp_all add: write_frame [OF d(1)])
qed

section \<open>How far a copy has come\<close>

text \<open>The entries that are copied rather than shared: those of the program; a large page is shared.\<close>

definition copies :: "u64 list \<Rightarrow> u64 \<Rightarrow> bool" where
  "copies p e \<longleftrightarrow> pte_present e \<and> pte_user e \<and> \<not> (length p = 2 \<and> pte_huge e)"

definition source :: "'a kpaging_scheme \<Rightarrow> u64 list \<Rightarrow> u64 \<Rightarrow> bool" where
  "source s p i \<longleftrightarrow> length p \<le> 3 \<and> i < 512 \<and> (\<exists>t. table_at s p = Some t \<and> copies p (get_entry t i s))"

abbreviation src_entry :: "'a kpaging_scheme \<Rightarrow> u64 list \<Rightarrow> u64 \<Rightarrow> u64" where
  "src_entry s p i \<equiv> get_entry (the (table_at s p)) i s"

text \<open>
  \<open>copying s0 M D s\<close>: the copy of \<open>s0\<close> has come to \<open>s\<close>.  \<open>M\<close> maps the paths that are copied to the frames of the copy,
  those of length 4 to the copied pages; \<open>D\<close> has the entries that are stored, by path and index.
\<close>

definition image_entry :: "'a kpaging_scheme \<Rightarrow> (u64 list \<Rightarrow> u64 option) \<Rightarrow> u64 list \<Rightarrow> u64 \<Rightarrow> u64" where
  "image_entry s0 M p i =
     (let e = src_entry s0 p i
      in if \<not> pte_present e then 0 else if \<not> copies p e then e
         else the (M (i # p)) OR (if length p = 3 then e AND NOT PTE_ADDR_MASK else 7))"

definition fresh_frame :: "'a kpaging_scheme \<Rightarrow> 'a kpaging_scheme \<Rightarrow> u64 \<Rightarrow> bool" where
  "fresh_frame s0 s f \<longleftrightarrow> page_aligned f \<and> f \<noteq> 0 \<and> unat f < 2 ^ 31 \<and> f div PAGE_SIZE < total_frames s0 \<and>
     \<not> frame_used s0 f \<and> frame_used s f"

definition copying :: "'a kpaging_scheme \<Rightarrow> (u64 list \<Rightarrow> u64 option) \<Rightarrow> (u64 list \<times> u64) set \<Rightarrow> 'a kpaging_scheme \<Rightarrow> bool" where
  "copying s0 M D s \<longleftrightarrow> later s0 s \<and>
     (\<forall>p q f. M p = Some f \<longrightarrow> M q = Some f \<longrightarrow> p = q) \<and>
     (\<forall>p f. M p = Some f \<longrightarrow> fresh_frame s0 s f \<and> (length p \<le> 3 \<longrightarrow> f < IDENTITY_MAP_LIMIT)) \<and>
     (\<forall>p i. i # p \<in> dom M \<longrightarrow> (p, i) \<in> D \<and> source s0 p i) \<and>
     (\<forall>p i. (p, i) \<in> D \<longrightarrow> p \<in> dom M \<and> length p \<le> 3 \<and> i < 512 \<and> (source s0 p i \<longrightarrow> i # p \<in> dom M)) \<and>
     (\<forall>p T i. M p = Some T \<longrightarrow> length p \<le> 3 \<longrightarrow> i < 512 \<longrightarrow>
        get_entry T i s = (if (p, i) \<in> D then image_entry s0 M p i else 0)) \<and>
     (\<forall>p i f k. length p = 3 \<longrightarrow> M (i # p) = Some f \<longrightarrow> unat k < 4096 \<longrightarrow>
        mem s (f + k) = mem s0 ((src_entry s0 p i AND PTE_ADDR_MASK) + k))"

lemma copyingD:
  assumes "copying s0 M D s"
  shows "later s0 s" and "M p = Some f \<Longrightarrow> M q = Some f \<Longrightarrow> p = q"
    and "M p = Some f \<Longrightarrow> fresh_frame s0 s f" and "M p = Some f \<Longrightarrow> length p \<le> 3 \<Longrightarrow> f < IDENTITY_MAP_LIMIT"
    and "M (i # p) = Some f \<Longrightarrow> (p, i) \<in> D" and "M (i # p) = Some f \<Longrightarrow> source s0 p i"
    and "(p, i) \<in> D \<Longrightarrow> p \<in> dom M \<and> length p \<le> 3 \<and> i < 512" and "(p, i) \<in> D \<Longrightarrow> source s0 p i \<Longrightarrow> i # p \<in> dom M"
    and "M p = Some f \<Longrightarrow> length p \<le> 3 \<Longrightarrow> i < 512 \<Longrightarrow>
      get_entry f i s = (if (p, i) \<in> D then image_entry s0 M p i else 0)"
    and "length p = 3 \<Longrightarrow> M (i # p) = Some f \<Longrightarrow> unat k < 4096 \<Longrightarrow>
      mem s (f + k) = mem s0 ((src_entry s0 p i AND PTE_ADDR_MASK) + k)"
  using assms unfolding copying_def dom_def by blast+

text \<open>A copied path is a path of the source.\<close>

lemma copied_path:
  assumes C: "copying s0 M D s" and ok: "pt_ok s0"
  shows "p \<in> dom M \<Longrightarrow> length p \<le> 3 \<Longrightarrow> valid_path p \<and> (\<exists>t. table_at s0 p = Some t)"
proof (induction p)
  case (Cons i p)
  then have "source s0 p i" using copyingD(6) [OF C] by auto
  then obtain t where t: "i < 512" "table_at s0 p = Some t" "copies p (get_entry t i s0)" by (auto simp: source_def)
  have "p \<in> dom M" using Cons.prems copyingD(5,7) [OF C] by blast
  then have v: "valid_path p" using Cons by simp
  then have v': "valid_path (i # p)" using t(1) Cons.prems(2) by (simp add: valid_path_Cons)
  have "\<not> pte_huge (get_entry t i s0)"
    using pt_ok_huge [OF ok v' t(2)] t(3) unfolding copies_def by blast
  then show ?case using v' t by (simp add: Let_def copies_def)
qed simp

lemma copying_later:
  assumes C: "copying s0 M D s" and "later s s'"
  shows "copying s0 M D s'"
proof -
  have u: "fresh_frame s0 s' f" if "fresh_frame s0 s f" for f using that assms(2) by (simp add: fresh_frame_def later_def)
  have g: "get_entry f i s' = get_entry f i s" if "M p = Some f" "i < 512" for p f i
    using later_entry [OF assms(2) _ that(2)] copyingD(3) [OF C that(1)] by (simp add: fresh_frame_def)
  have m: "mem s' (f + k) = mem s (f + k)" if "M p = Some f" "unat k < 4096" for p f k
    using copyingD(3) [OF C that(1)] page_of_add [OF _ that(2), of f] assms(2) by (simp add: fresh_frame_def later_def)
  show ?thesis
    unfolding copying_def
  proof (intro conjI allI impI)
    show "later s0 s'" using later_trans copyingD(1) [OF C] assms(2) by blast
    fix p i k T f
    show "M p = Some T \<Longrightarrow> length p \<le> 3 \<Longrightarrow> i < 512 \<Longrightarrow> get_entry T i s' = (if (p, i) \<in> D then image_entry s0 M p i else 0)"
      using g copyingD(9) [OF C] by metis
    show "length p = 3 \<Longrightarrow> M (i # p) = Some f \<Longrightarrow> unat k < 4096 \<Longrightarrow>
        mem s' (f + k) = mem s0 ((src_entry s0 p i AND PTE_ADDR_MASK) + k)"
      using m copyingD(10) [OF C] by metis
    show "M p = Some f \<Longrightarrow> M q = Some f \<Longrightarrow> p = q" for q by (rule copyingD(2) [OF C])
    show "M p = Some f \<Longrightarrow> fresh_frame s0 s' f" using copyingD(3) [OF C] u by blast
  qed (use copyingD(4-8) [OF C] in blast)+
qed

text \<open>An entry is stored; when it leads to a copy, the copy is a frame that no path has yet.\<close>

definition new_copy :: "'a kpaging_scheme \<Rightarrow> (u64 list \<Rightarrow> u64 option) \<Rightarrow> 'a kpaging_scheme \<Rightarrow> u64 list \<Rightarrow> u64 \<Rightarrow> u64 \<Rightarrow> bool" where
  "new_copy s0 M s p i f \<longleftrightarrow> source s0 p i \<and> fresh_frame s0 s f \<and> f \<notin> ran M \<and>
     (length p < 3 \<longrightarrow> f < IDENTITY_MAP_LIMIT \<and> (\<forall>j < 512. get_entry f j s = 0)) \<and>
     (length p = 3 \<longrightarrow> (\<forall>k. unat k < 4096 \<longrightarrow> mem s (f + k) = mem s0 ((src_entry s0 p i AND PTE_ADDR_MASK) + k)))"

lemma copying_put:
  assumes C: "copying s0 M D s" and p: "M p = Some T" "length p \<le> 3" and i: "i < 512" "(p, i) \<notin> D"
    and new: "\<And>f. fo = Some f \<Longrightarrow> new_copy s0 M s p i f" and src: "source s0 p i \<Longrightarrow> fo \<noteq> None"
    and M': "M' = M(i # p := fo)" and v: "v = image_entry s0 M' p i"
  shows "copying s0 M' (insert (p, i) D) (set_entry T i v s)"
proof -
  let ?s = "set_entry T i v s" and ?D = "insert (p, i) D"
  have none: "M (i # p) = None" using copyingD(5) [OF C] i(2) by fastforce
  have old: "M q = Some f \<Longrightarrow> M' q = Some f" for q f using M' none by auto
  have M'D: "M' q = Some f \<Longrightarrow> q = i # p \<and> new_copy s0 M s p i f \<or> q \<noteq> i # p \<and> M q = Some f" for q f
    using M' new by (auto split: if_splits)
  have T: "page_aligned T" "\<not> frame_used s0 T" "frame_used s T" using copyingD(3) [OF C p(1)] by (auto simp: fresh_frame_def)
  have mem: "mem ?s a = mem s a" if "page_of a \<noteq> T" for a using set_entry_mem [OF T(1) i(1) that] .
  have "mem ?s a = mem s a" if "frame_used s0 (page_of a)" for a using mem [of a] T(2) that by metis
  then have L: "later s0 ?s" using copyingD(1) [OF C] unfolding later_def by (simp add: set_entry_limits)
  have fresh: "fresh_frame s0 s f" if "M' q = Some f" for q f
    using M'D [OF that] copyingD(3) [OF C] unfolding new_copy_def by blast
  have inj: "q = q'" if "M' q = Some f" "M' q' = Some f" for q q' f
  proof -
    have "f \<notin> ran M" if "new_copy s0 M s p i f" using that by (simp add: new_copy_def)
    then show ?thesis using M'D [OF that(1)] M'D [OF that(2)] copyingD(2) [OF C] by (metis ranI)
  qed
  have g: "get_entry U j ?s = (if p' = p \<and> j = i then v else get_entry U j s)" if "M' p' = Some U" "j < 512" for p' U j
  proof -
    have "page_aligned U" using fresh [OF that(1)] by (simp add: fresh_frame_def)
    moreover have "U = T \<longleftrightarrow> p' = p" using inj that(1) old [OF p(1)] by auto
    ultimately show ?thesis using get_set_entry [of T i U j] T(1) i(1) that(2) by auto
  qed
  have image: "image_entry s0 M' p' i' = image_entry s0 M p' i'" if "(p', i') \<in> D" for p' i'
    using that i(2) unfolding image_entry_def M' by (auto simp: Let_def)
  have notD: "(i # p, j) \<notin> D" for j using copyingD(7) [OF C] none by blast
  show ?thesis
    unfolding copying_def
  proof (intro conjI allI impI)
    show "later s0 ?s" by (rule L)
    fix p' i' k U f
    show "get_entry U i' ?s = (if (p', i') \<in> ?D then image_entry s0 M' p' i' else 0)"
      if U: "M' p' = Some U" "length p' \<le> 3" "i' < 512"
    proof -
      have "get_entry U i' s = (if (p', i') \<in> D then image_entry s0 M p' i' else 0)"
        using M'D [OF U(1)] copyingD(9) [OF C _ U(2,3)] U(2,3) notD unfolding new_copy_def by auto
      then show ?thesis using g [OF U(1,3)] v image by auto
    qed
    show "mem ?s (f + k) = mem s0 ((src_entry s0 p' i' AND PTE_ADDR_MASK) + k)"
      if f: "length p' = 3" "M' (i' # p') = Some f" "unat k < 4096"
    proof -
      have "f \<noteq> T" using inj [OF f(2), of p] old [OF p(1)] p(2) f(1) by auto
      moreover have "page_of (f + k) = f" using fresh [OF f(2)] page_of_add f(3) by (simp add: fresh_frame_def)
      ultimately have "mem ?s (f + k) = mem s (f + k)" using mem by simp
      then show ?thesis using M'D [OF f(2)] copyingD(10) [OF C f(1) _ f(3)] f unfolding new_copy_def by auto
    qed
    show "fresh_frame s0 ?s f" if "M' p' = Some f" using fresh [OF that] by (simp add: fresh_frame_def)
    show "f < IDENTITY_MAP_LIMIT" if "M' p' = Some f" "length p' \<le> 3"
      using M'D [OF that(1)] copyingD(4) [OF C] that(2) unfolding new_copy_def by auto
    show "(p', i') \<in> ?D" "source s0 p' i'" if "i' # p' \<in> dom M'"
      using that M'D copyingD(5,6) [OF C] unfolding new_copy_def by blast+
    show "p' \<in> dom M'" "length p' \<le> 3" "i' < 512" if "(p', i') \<in> ?D"
      using that copyingD(7) [OF C] p i(1) old by blast+
    show "i' # p' \<in> dom M'" if "(p', i') \<in> ?D" "source s0 p' i'"
      using that copyingD(8) [OF C] src M' old by (cases "(p', i') \<in> D") (auto simp: dom_def)
    show "M' p' = Some f \<Longrightarrow> M' q = Some f \<Longrightarrow> p' = q" for q by (rule inj)
  qed
qed

section \<open>One step of the copying loops\<close>

text \<open>What an entry adds to the copy: itself and everything below it, down to the pages.\<close>

definition grows :: "u64 list \<Rightarrow> u64 \<Rightarrow> (u64 list \<Rightarrow> u64 option) \<Rightarrow> (u64 list \<times> u64) set \<Rightarrow>
    (u64 list \<Rightarrow> u64 option) \<Rightarrow> (u64 list \<times> u64) set \<Rightarrow> bool" where
  "grows p i M D M' D' \<longleftrightarrow> M \<subseteq>\<^sub>m M' \<and> insert (p, i) D \<subseteq> D' \<and>
     (\<forall>q j. (q, j) \<in> D' \<longrightarrow> (q, j) \<notin> D \<longrightarrow> (q, j) = (p, i) \<or> length p < length q) \<and>
     (\<forall>q j. q \<in> dom M' \<longrightarrow> q \<notin> dom M \<longrightarrow> length q \<le> 3 \<longrightarrow> j < 512 \<longrightarrow> (q, j) \<in> D')"

definition filled :: "u64 list \<Rightarrow> nat \<Rightarrow> (u64 list \<Rightarrow> u64 option) \<Rightarrow> (u64 list \<times> u64) set \<Rightarrow>
    (u64 list \<Rightarrow> u64 option) \<Rightarrow> (u64 list \<times> u64) set \<Rightarrow> bool" where
  "filled p k M D M' D' \<longleftrightarrow> M \<subseteq>\<^sub>m M' \<and> D \<subseteq> D' \<and> (\<forall>j. unat j < k \<longrightarrow> (p, j) \<in> D') \<and>
     (\<forall>q j. (q, j) \<in> D' \<longrightarrow> (q, j) \<notin> D \<longrightarrow> q = p \<and> unat j < k \<or> length p < length q) \<and>
     (\<forall>q j. q \<in> dom M' \<longrightarrow> q \<notin> dom M \<longrightarrow> length q \<le> 3 \<longrightarrow> j < 512 \<longrightarrow> (q, j) \<in> D')"

lemma filled_0: "filled p 0 M D M D"
  by (simp add: filled_def)

lemma filled_Suc:
  assumes f: "filled p k M D M1 D1" and g: "grows p (of_nat k) M1 D1 M2 D2" and k: "k < 512"
  shows "filled p (Suc k) M D M2 D2"
proof -
  have unat: "unat (of_nat k :: u64) = k" using k by (simp add: unat_of_nat_small)
  have eq: "unat j < Suc k \<longleftrightarrow> unat j < k \<or> j = of_nat k" for j :: u64
    unfolding less_Suc_eq unat_eq_iff unat by blast
  have f1: "M \<subseteq>\<^sub>m M1" and f2: "D \<subseteq> D1" and f3: "\<And>j. unat j < k \<Longrightarrow> (p, j) \<in> D1"
    and f4: "\<And>q j. (q, j) \<in> D1 \<Longrightarrow> (q, j) \<notin> D \<Longrightarrow> q = p \<and> unat j < k \<or> length p < length q"
    and f5: "\<And>q j. q \<in> dom M1 \<Longrightarrow> q \<notin> dom M \<Longrightarrow> length q \<le> 3 \<Longrightarrow> j < 512 \<Longrightarrow> (q, j) \<in> D1"
    using f by (simp_all only: filled_def) blast+
  have g1: "M1 \<subseteq>\<^sub>m M2" and g2: "D1 \<subseteq> D2" and g3: "(p, of_nat k) \<in> D2"
    and g4: "\<And>q j. (q, j) \<in> D2 \<Longrightarrow> (q, j) \<notin> D1 \<Longrightarrow> (q, j) = (p, of_nat k) \<or> length p < length q"
    and g5: "\<And>q j. q \<in> dom M2 \<Longrightarrow> q \<notin> dom M1 \<Longrightarrow> length q \<le> 3 \<Longrightarrow> j < 512 \<Longrightarrow> (q, j) \<in> D2"
    using g by (simp_all only: grows_def) blast+
  show ?thesis
    unfolding filled_def
  proof (intro conjI allI impI)
    show "M \<subseteq>\<^sub>m M2" by (rule map_le_trans [OF f1 g1])
    show "D \<subseteq> D2" by (rule order_trans [OF f2 g2])
    fix q j
    show "(p, j) \<in> D2" if "unat j < Suc k" using that f3 [of j] g2 g3 unfolding eq by auto
    show "q = p \<and> unat j < Suc k \<or> length p < length q" if "(q, j) \<in> D2" "(q, j) \<notin> D"
      unfolding eq using f4 [of q j] g4 [of q j] that by auto
    show "(q, j) \<in> D2" if "q \<in> dom M2" "q \<notin> dom M" "length q \<le> 3" "j < 512"
      using f5 [of q j] g5 [of q j] g2 that by auto
  qed
qed

text \<open>The contract of the code that copies the entry \<open>i\<close> of the table at \<open>p\<close>: it returns, used frames keep their content,
  and it either has stored the entry with all that is below it, or there are no frames left for tables.\<close>

definition clone_step :: "'a kpaging_scheme \<Rightarrow> u64 list \<Rightarrow> u64 \<Rightarrow> (u64 \<Rightarrow> 'a kpaging_scheme \<Rightarrow> (int \<times> 'a kpaging_scheme) option) \<Rightarrow> bool" where
  "clone_step s0 p i F \<longleftrightarrow>
     (\<forall>s M D. copying s0 M D s \<longrightarrow> p \<in> dom M \<longrightarrow> (p, i) \<notin> D \<longrightarrow>
        (\<exists>r s'. F (the (M p)) s = Some (r, s') \<and> later s0 s' \<and>
           (if r = 0 then \<exists>M' D'. copying s0 M' D' s' \<and> grows p i M D M' D' else free_tables s' = {})))"

lemma clone_loop:
  assumes step: "\<And>i. i < 512 \<Longrightarrow> clone_step s0 p (of_nat i) (\<lambda>T. body T i)"
    and C: "copying s0 M D s" and p: "p \<in> dom M" and new: "\<And>j. (p, j) \<notin> D"
  shows "\<exists>r s'. for_status (body (the (M p))) [0..<512] s = Some (r, s') \<and> later s0 s' \<and>
      (if r = 0 then \<exists>M' D'. copying s0 M' D' s' \<and> filled p 512 M D M' D' else free_tables s' = {})"
proof -
  have "\<exists>r s'. for_status (body (the (M p))) [k..<512] s1 = Some (r, s') \<and> later s0 s' \<and>
      (if r = 0 then \<exists>M' D'. copying s0 M' D' s' \<and> filled p 512 M D M' D' else free_tables s' = {})"
    if "k \<le> 512" "copying s0 M1 D1 s1" "filled p k M D M1 D1" for k s1 M1 D1
    using that
  proof (induction "512 - k" arbitrary: k s1 M1 D1)
    case 0
    then show ?case using copyingD(1) [OF 0(3)] by auto
  next
    case (Suc n)
    then have k: "k < 512" by simp
    have M1: "M1 p = M p" using Suc.prems(3) p unfolding filled_def map_le_def by auto
    have "(p, of_nat k) \<notin> D1"
      using Suc.prems(3) new k unfolding filled_def by (metis less_irrefl of_nat_index(2))
    then obtain r s2 where run: "body (the (M p)) k s1 = Some (r, s2)" and L: "later s0 s2"
      and res: "if r = 0 then \<exists>M' D'. copying s0 M' D' s2 \<and> grows p (of_nat k) M1 D1 M' D' else free_tables s2 = {}"
      using step [OF k, unfolded clone_step_def, rule_format, OF Suc.prems(2)] p M1 by (auto simp: domIff)
    have list: "[k..<512] = k # [Suc k..<512]" using k by (rule upt_conv_Cons)
    show ?case
    proof (cases "r = 0")
      case True
      with res obtain M2 D2 where 2: "copying s0 M2 D2 s2" "grows p (of_nat k) M1 D1 M2 D2" by auto
      have "n = 512 - Suc k" "Suc k \<le> 512" using Suc.hyps(2) k by simp_all
      from Suc.hyps(1) [OF this 2(1) filled_Suc [OF Suc.prems(3) 2(2) k]] show ?thesis
        unfolding list using run True by simp
    next
      case False
      then show ?thesis unfolding list using run L res by simp
    qed
  qed
  from this [OF _ C filled_0] show ?thesis by simp
qed

section \<open>When an address space can be copied\<close>

fun user_path :: "'a kpaging_scheme \<Rightarrow> u64 list \<Rightarrow> bool" where
  "user_path s [] = True"
| "user_path s (i # p) = (user_path s p \<and> source s p i)"

definition clone_ready :: "'a kpaging_scheme \<Rightarrow> bool" where
  "clone_ready s \<longleftrightarrow> space_ok s \<and> window_unmapped s \<and>
     (\<forall>p i. length p = 3 \<longrightarrow> user_path s (i # p) \<longrightarrow>
        (let f = src_entry s p i AND PTE_ADDR_MASK
         in f \<noteq> 0 \<and> frame_used s f \<and> \<not> table_frame s f \<and> (f < IDENTITY_MAP_LIMIT \<longrightarrow> direct s f))) \<and>
     (\<forall>f. page_aligned f \<longrightarrow> f < IDENTITY_MAP_LIMIT \<longrightarrow> f div PAGE_SIZE < total_frames s \<longrightarrow> \<not> frame_used s f \<longrightarrow> direct s f)"

lemma clone_readyD:
  assumes "clone_ready s"
  shows "space_ok s" and "window_unmapped s" and "pt_ok s"
    and "length p = 3 \<Longrightarrow> user_path s (i # p) \<Longrightarrow> src_entry s p i AND PTE_ADDR_MASK \<noteq> 0"
    and "length p = 3 \<Longrightarrow> user_path s (i # p) \<Longrightarrow> frame_used s (src_entry s p i AND PTE_ADDR_MASK)"
    and "length p = 3 \<Longrightarrow> user_path s (i # p) \<Longrightarrow> \<not> table_frame s (src_entry s p i AND PTE_ADDR_MASK)"
    and "length p = 3 \<Longrightarrow> user_path s (i # p) \<Longrightarrow> src_entry s p i AND PTE_ADDR_MASK < IDENTITY_MAP_LIMIT \<Longrightarrow>
      direct s (src_entry s p i AND PTE_ADDR_MASK)"
    and "page_aligned f \<Longrightarrow> f < IDENTITY_MAP_LIMIT \<Longrightarrow> f div PAGE_SIZE < total_frames s \<Longrightarrow> \<not> frame_used s f \<Longrightarrow> direct s f"
  using assms space_okD(1) unfolding clone_ready_def Let_def by blast+

lemma copied_user:
  assumes C: "copying s0 M D s"
  shows "p \<in> dom M \<Longrightarrow> user_path s0 p"
proof (induction p)
  case (Cons i p)
  then have "source s0 p i" "p \<in> dom M" using copyingD(5-7) [OF C] by blast+
  then show ?case using Cons.IH by simp
qed simp

lemma grows_insert: "grows p i M D M (insert (p, i) D)"
  by (auto simp: grows_def)

lemma set_zero_again:
  assumes "get_entry t i s = 0"
  shows "set_entry t i 0 s = s"
proof -
  have "mem (set_entry t i 0 s) = mem s" using entry_zeroed_again [OF assms, of s] by (intro ext) simp
  moreover have "set_entry t i 0 s = s\<lparr>mem := mem (set_entry t i 0 s)\<rparr>" by (simp add: set_entry_def)
  ultimately show ?thesis by simp
qed

lemma step_shared:
  assumes C: "copying s0 M D s" and p: "p \<in> dom M" "length p \<le> 3" and i: "i < 512" "(p, i) \<notin> D"
    and not: "\<not> copies p (src_entry s0 p i)"
  shows "copying s0 M (insert (p, i) D)
      (if pte_present (src_entry s0 p i) then set_entry (the (M p)) i (src_entry s0 p i) s else s)"
proof -
  let ?e = "src_entry s0 p i"
  obtain T where T: "M p = Some T" using p(1) by blast
  have none: "M (i # p) = None" using copyingD(5) [OF C] i(2) by fastforce
  then have same: "M = M(i # p := None)" by (simp add: fun_upd_idem)
  have "\<not> source s0 p i" using not by (auto simp: source_def)
  then have put: "copying s0 M (insert (p, i) D) (set_entry T i (image_entry s0 M p i) s)"
    using copying_put [OF C T p(2) i, of None M] same by auto
  show ?thesis
  proof (cases "pte_present ?e")
    case True
    then show ?thesis using put not T by (simp add: image_entry_def Let_def)
  next
    case False
    have zero: "get_entry T i s = 0" using copyingD(9) [OF C T p(2) i(1)] i(2) by simp
    show ?thesis using put False set_zero_again [OF zero] by (simp add: image_entry_def Let_def)
  qed
qed

text \<open>A frame that is taken and a page that is copied into it.\<close>

lemma alloc_page_later:
  assumes "frames_ok s" and "paging_alloc_page s = (f, s1)" and "f \<noteq> 0"
  shows "later s s1" and "page_aligned f" and "unat f < 2 ^ 31" and "\<not> frame_used s f" and "frame_used s1 f"
    and "f div PAGE_SIZE < total_frames s" and "mem s1 = mem s"
proof -
  note takes = alloc_page_takes [OF assms]
  note shape = alloc_page_shape [OF assms(2)]
  have eq: "pml4 s1 = pml4 s" "cr3 s1 = cr3 s" "kpaging.more s1 = kpaging.more s" "mem s1 = mem s"
    "total_frames s1 = total_frames s" "kernel_end s1 = kernel_end s" "stack_top s1 = stack_top s"
    by (subst shape, simp)+
  show "later s s1"
    using takes_frame_inv [OF takes assms(1)] takes_frame_used [OF takes] by (simp add: later_def eq)
  show "page_aligned f" "unat f < 2 ^ 31" using takes_frame_aligned [OF takes] by simp_all
  show "\<not> frame_used s f" by (rule takes_frame_fresh [OF takes])
  show "frame_used s1 f" using takes_frame_used [OF takes] by simp
  obtain g where "g < MAX_FRAMES" "g < total_frames s" "f = g * PAGE_SIZE" using takes unfolding takes_frame_def by blast
  then show "f div PAGE_SIZE < total_frames s" by (metis frame_address)
  show "mem s1 = mem s" by (rule eq)
qed

lemma alloc_page_none:
  assumes "frames_ok s" and "paging_alloc_page s = (0, s1)"
  shows "s1 = s" and "free_tables s = {}"
proof -
  show "s1 = s" by (rule alloc_page_fails [OF assms])
  have "\<not> 0 < card (free_tables s)" using alloc_page_consumes(2) [OF assms] by blast
  moreover have "finite (free_tables s)" by (rule finite)
  ultimately show "free_tables s = {}" by (simp add: card_gt_0_iff)
qed

lemma alloc_table_later:
  assumes ok: "frames_ok s" and a: "paging_alloc_table s = (f, s1)" and f: "f \<noteq> 0"
  shows "later s s1" and "page_aligned f" and "unat f < 2 ^ 31" and "\<not> frame_used s f" and "frame_used s1 f"
    and "f < IDENTITY_MAP_LIMIT" and "j < 512 \<Longrightarrow> get_entry f j s1 = 0" and "f div PAGE_SIZE < total_frames s"
proof -
  note takes = alloc_table_takes [OF assms]
  have mem: "mem s1 = memset8 (mem s) f 0 4096" and lim: "f < IDENTITY_MAP_LIMIT" using alloc_table_cases [OF ok a] f by auto
  note new = takes_frame_aligned [OF takes] takes_frame_fresh [OF takes]
  have "mem s1 a = mem s a" if "frame_used s (page_of a)" for a
    using alloc_table_mem [OF ok a f] that new(3) by metis
  then show "later s s1"
    using takes_frame_inv [OF takes ok] takes_frame_used [OF takes] alloc_table_simps [OF a] alloc_table_limits [of s]
    by (simp add: later_def a)
  show "page_aligned f" "unat f < 2 ^ 31" "\<not> frame_used s f" "f < IDENTITY_MAP_LIMIT" by (fact new lim)+
  show "frame_used s1 f" using takes_frame_used [OF takes] by simp
  show "get_entry f j s1 = 0" if "j < 512" using get_entry_zeroed [of f j f s1 s] new(1) mem that by simp
  obtain g where "g < MAX_FRAMES" "g < total_frames s" "f = g * PAGE_SIZE" using takes unfolding takes_frame_def by blast
  then show "f div PAGE_SIZE < total_frames s" by (metis frame_address)
qed

lemma alloc_table_none:
  assumes "frames_ok s" and "paging_alloc_table s = (0, s1)"
  shows "s1 = s" and "free_tables s = {}"
  using alloc_table_fails [OF assms] alloc_table_succeeds [OF assms(1)] assms(2) by auto

lemma unused_not_copied:
  assumes C: "copying s0 M D s" and "\<not> frame_used s f"
  shows "f \<notin> ran M" and "\<not> frame_used s0 f"
  using copyingD(1,3) [OF C] assms(2) unfolding fresh_frame_def later_def ran_def by blast+

lemma step_page:
  assumes R: "clone_ready s0" and C: "copying s0 M D s" and p: "p \<in> dom M" "length p = 3" and i: "i < 512" "(p, i) \<notin> D"
    and e: "copies p (src_entry s0 p i)" and a: "paging_alloc_page s = (f, s1)" "f \<noteq> 0"
  obtains s2 M' where "paging_copy_frame f (src_entry s0 p i AND PTE_ADDR_MASK) s1 = Some (0, s2)"
    and "copying s0 M' (insert (p, i) D) (set_entry (the (M p)) i (f OR (src_entry s0 p i AND NOT PTE_ADDR_MASK)) s2)"
    and "grows p i M D M' (insert (p, i) D)"
proof -
  note L = copyingD(1) [OF C] and R' = clone_readyD [OF R]
  have fok: "frames_ok s" using L by (simp add: later_def)
  note new = alloc_page_later [OF fok a]
  have L1: "later s0 s1" by (rule later_trans [OF L new(1)])
  note S1 = later_space [OF L1 R'(1)] and T1 = later_tree [OF L1 R'(3)]
  obtain t where t: "table_at s0 p = Some t" using copied_path [OF C R'(3) p(1)] p(2) by auto
  have src: "source s0 p i" using e i(1) p(2) t by (simp add: source_def)
  then have u: "user_path s0 (i # p)" using copied_user [OF C p(1)] by simp
  define c where "c = src_entry s0 p i AND PTE_ADDR_MASK"
  note c = R'(4-7) [OF p(2) u, folded c_def]
  have cal: "page_aligned c" using c(2) by (simp add: frame_used_def)
  have "c \<le> PTE_ADDR_MASK" unfolding c_def by (rule word_and_le1)
  then have c52: "unat c < 2 ^ 52" by (simp add: unat_le_iff)
  have nc: "f \<notin> ran M" "\<not> frame_used s0 f" by (rule unused_not_copied [OF C new(4)])+
  have tot: "total_frames s = total_frames s0" using L by (simp add: later_def)
  then have df: "f < IDENTITY_MAP_LIMIT \<Longrightarrow> direct s1 f" "c < IDENTITY_MAP_LIMIT \<Longrightarrow> direct s1 c"
    using R'(8) [OF new(2) _ _ nc(2)] new(6) c(4) unfolding direct_def T1(4) by simp_all
  have nt: "\<not> table_frame s1 f" "\<not> table_frame s1 c"
    using table_frame_used [OF R'(3)] nc(2) c(3) unfolding T1(2) by blast+
  have f52: "unat f < 2 ^ 52" using new(3) by simp
  obtain s2 where run: "paging_copy_frame f c s1 = Some (0, s2)" and shape: "s2 = s1\<lparr>mem := mem s2\<rparr>"
    and same: "\<And>a. page_of a \<noteq> f \<Longrightarrow> mem s2 a = mem s1 a"
    and bytes: "\<And>k. unat k < 4096 \<Longrightarrow> mem s2 (f + k) = mem s1 (c + k)"
    by (rule copy_frame_run [OF S1(1) S1(2) [THEN iffD2, OF R'(2)] new(2) a(2) f52 nt(1) cal c(1) c52 nt(2)], erule df(2), erule df(1), rule that)
  have eq: "pml4 s2 = pml4 s1" "cr3 s2 = cr3 s1" "kpaging.more s2 = kpaging.more s1" "total_frames s2 = total_frames s1"
    "kernel_end s2 = kernel_end s1" "stack_top s2 = stack_top s1" "frames_ok s2 = frames_ok s1"
    and used: "frame_used s2 g = frame_used s1 g" for g
    by (subst shape, simp add: frames_ok_def frame_used_def bitmap_test_def)+
  have L2: "later s s2"
    using new(1,4) same unfolding later_def eq used by metis
  note C2 = copying_later [OF C L2]
  have cpage: "page_of (c + k) = c" if "unat k < 4096" for k using page_of_add [OF cal that] .
  have content: "mem s2 (f + k) = mem s0 (c + k)" if "unat k < 4096" for k
    using bytes [OF that] L1 cpage [OF that] c(2) unfolding later_def by metis
  have nw: "new_copy s0 M s2 p i f"
    unfolding new_copy_def fresh_frame_def
    using src new(2,3,5,6) a(2) nc p(2) content used tot by (simp add: c_def)
  let ?M = "M(i # p := Some f)"
  obtain T where T: "M p = Some T" using p(1) by blast
  have "copying s0 ?M (insert (p, i) D) (set_entry T i (image_entry s0 ?M p i) s2)"
    by (rule copying_put [OF C2 T _ i _ _ refl refl]) (use nw p(2) in auto)
  moreover have "image_entry s0 ?M p i = f OR (src_entry s0 p i AND NOT PTE_ADDR_MASK)"
    using e p(2) unfolding image_entry_def by (simp add: copies_def Let_def)
  moreover have "grows p i M D ?M (insert (p, i) D)"
  proof -
    have "M (i # p) = None" using copyingD(5) [OF C] i(2) by fastforce
    then have "M \<subseteq>\<^sub>m ?M" by (auto simp: map_le_def)
    then show ?thesis using p(2) by (auto simp: grows_def split: if_splits)
  qed
  ultimately show thesis using that [OF run [unfolded c_def]] T by simp
qed

text \<open>A table that is taken, linked and then filled by a loop over its entries.\<close>

lemma filled_grows:
  assumes f: "filled (i # p) 512 (M(i # p := Some c)) (insert (p, i) D) M' D'" and none: "M (i # p) = None"
  shows "grows p i M D M' D'"
proof -
  let ?M = "M(i # p := Some c)"
  have f1: "?M \<subseteq>\<^sub>m M'" and f2: "insert (p, i) D \<subseteq> D'" and f3: "\<And>j. j < 512 \<Longrightarrow> (i # p, j) \<in> D'"
    and f4: "\<And>q j. (q, j) \<in> D' \<Longrightarrow> (q, j) \<notin> insert (p, i) D \<Longrightarrow> q = i # p \<or> length (i # p) < length q"
    and f5: "\<And>q j. q \<in> dom M' \<Longrightarrow> q \<notin> dom ?M \<Longrightarrow> length q \<le> 3 \<Longrightarrow> j < 512 \<Longrightarrow> (q, j) \<in> D'"
    using f by (simp_all only: filled_def) (auto simp: unat_less_iff)
  have "M \<subseteq>\<^sub>m ?M" using none by (auto simp: map_le_def)
  then have m: "M \<subseteq>\<^sub>m M'" using f1 by (rule map_le_trans)
  show ?thesis
    unfolding grows_def
  proof (intro conjI allI impI)
    show "M \<subseteq>\<^sub>m M'" "insert (p, i) D \<subseteq> D'" by (fact m f2)+
    fix q j
    show "(q, j) = (p, i) \<or> length p < length q" if "(q, j) \<in> D'" "(q, j) \<notin> D"
    proof (cases "(q, j) = (p, i)")
      case False
      then have "(q, j) \<notin> insert (p, i) D" using that(2) by simp
      from f4 [OF that(1) this] show ?thesis by auto
    qed simp
    show "(q, j) \<in> D'" if "q \<in> dom M'" "q \<notin> dom M" "length q \<le> 3" "j < 512"
      using f3 f5 [OF that(1) _ that(3,4)] that by (cases "q = i # p") auto
  qed
qed

lemma clone_table:
  assumes R: "clone_ready s0" and p: "length p \<le> 2" and i: "i < 512" and src: "source s0 p i"
    and body: "\<And>j. j < 512 \<Longrightarrow> clone_step s0 (i # p) (of_nat j) (\<lambda>T. body T j)"
    and F: "\<And>T s. F T s = (let (c, s1) = paging_alloc_table s
      in if c = 0 then Some (- 1, s1)
         else for_status (body c) [0..<512] (set_entry T i (c OR PAGE_PRESENT OR PAGE_WRITABLE OR PAGE_USER) s1))"
  shows "clone_step s0 p i F"
  unfolding clone_step_def
proof (intro allI impI)
  fix s M D
  assume C: "copying s0 M D s" and pM: "p \<in> dom M" and iD: "(p, i) \<notin> D"
  obtain T where T: "M p = Some T" using pM by blast
  have fok: "frames_ok s" using copyingD(1) [OF C] by (simp add: later_def)
  obtain c s1 where a: "paging_alloc_table s = (c, s1)" by fastforce
  show "\<exists>r s'. F (the (M p)) s = Some (r, s') \<and> later s0 s' \<and>
      (if r = 0 then \<exists>M' D'. copying s0 M' D' s' \<and> grows p i M D M' D' else free_tables s' = {})"
  proof (cases "c = 0")
    case True
    then show ?thesis using alloc_table_none [OF fok] a copyingD(1) [OF C] by (simp add: F)
  next
    case False
    note new = alloc_table_later [OF fok a False]
    note C1 = copying_later [OF C new(1)]
    have nc: "c \<notin> ran M" "\<not> frame_used s0 c" by (rule unused_not_copied [OF C new(4)])+
    have tot: "total_frames s = total_frames s0" using copyingD(1) [OF C] by (simp add: later_def)
    have nw: "new_copy s0 M s1 p i c"
      using src new(2,3,5-8) nc False p tot by (simp add: new_copy_def fresh_frame_def)
    let ?M = "M(i # p := Some c)" and ?D = "insert (p, i) D"
    let ?s = "set_entry T i (c OR PAGE_PRESENT OR PAGE_WRITABLE OR PAGE_USER) s1"
    have "copying s0 ?M ?D (set_entry T i (image_entry s0 ?M p i) s1)"
      by (rule copying_put [OF C1 T _ i iD _ _ refl refl]) (use nw p in auto)
    moreover have "image_entry s0 ?M p i = c OR PAGE_PRESENT OR PAGE_WRITABLE OR PAGE_USER"
      using src p unfolding image_entry_def source_def by (auto simp: copies_def Let_def)
    ultimately have C2: "copying s0 ?M ?D ?s" by simp
    have none: "M (i # p) = None" using copyingD(5) [OF C] iD by fastforce
    have "(i # p, j) \<notin> ?D" for j using copyingD(7) [OF C] none by auto
    from clone_loop [where body = body and p = "i # p", OF body C2 _ this]
    obtain r s' where run: "for_status (body c) [0..<512] ?s = Some (r, s')" and L: "later s0 s'"
      and res: "if r = 0 then \<exists>M' D'. copying s0 M' D' s' \<and> filled (i # p) 512 ?M ?D M' D' else free_tables s' = {}"
      by auto
    have "F (the (M p)) s = Some (r, s')" using a False run T by (simp add: F)
    moreover have "if r = 0 then \<exists>M' D'. copying s0 M' D' s' \<and> grows p i M D M' D' else free_tables s' = {}"
      using res filled_grows [where i = i and p = p and M = M and c = c and D = D, OF _ none] by (cases "r = 0") (simp_all, blast)
    ultimately show ?thesis using L by blast
  qed
qed

section \<open>The four levels\<close>

lemma shared_step:
  assumes "i < 512" and "length p \<le> 3" and "\<not> copies p (src_entry s0 p i)"
    and F: "\<And>T s. get_entry (the (table_at s0 p)) i s = src_entry s0 p i \<Longrightarrow>
      F T s = Some (0, if pte_present (src_entry s0 p i) then set_entry T i (src_entry s0 p i) s else s)"
    and E: "\<And>s M D. copying s0 M D s \<Longrightarrow> p \<in> dom M \<Longrightarrow> get_entry (the (table_at s0 p)) i s = src_entry s0 p i"
  shows "clone_step s0 p i F"
  unfolding clone_step_def
proof (intro allI impI)
  fix s M D
  assume C: "copying s0 M D s" and pM: "p \<in> dom M" and iD: "(p, i) \<notin> D"
  note st = step_shared [OF C pM assms(2,1) iD assms(3)]
  show "\<exists>r s'. F (the (M p)) s = Some (r, s') \<and> later s0 s' \<and>
      (if r = 0 then \<exists>M' D'. copying s0 M' D' s' \<and> grows p i M D M' D' else free_tables s' = {})"
  proof -
    let ?s = "if pte_present (src_entry s0 p i) then set_entry (the (M p)) i (src_entry s0 p i) s else s"
    have "\<exists>M' D'. copying s0 M' D' ?s \<and> grows p i M D M' D'" using st grows_insert by blast
    then show ?thesis unfolding F [OF E [OF C pM]] using copyingD(1) [OF st] by (intro exI [of _ 0] exI [of _ ?s]) simp
  qed
qed

lemma source_entry_now:
  assumes R: "clone_ready s0" and C: "copying s0 M D s" and "p \<in> dom M" and "length p \<le> 3" and "i < 512"
  shows "get_entry (the (table_at s0 p)) i s = src_entry s0 p i"
proof -
  from copied_path [OF C clone_readyD(3) [OF R] assms(3,4)] obtain t
    where t: "valid_path p" "table_at s0 p = Some t" by blast
  then have "frame_used s0 t" by (rule pt_ok_table(1) [OF clone_readyD(3) [OF R]])
  then show ?thesis using later_entry [OF copyingD(1) [OF C] _ assms(5)] t(2) by simp
qed

text \<open>An entry that is copied: the rest of the contract for it.\<close>

lemma clone_step_cases:
  assumes R: "clone_ready s0" and p: "length p \<le> 3" "i < 512"
    and shared: "\<And>T s e. get_entry (the (table_at s0 p)) i s = e \<Longrightarrow> \<not> copies p e \<Longrightarrow>
      F T s = Some (0, if pte_present e then set_entry T i e s else s)"
    and copied: "copies p (src_entry s0 p i) \<Longrightarrow> clone_step s0 p i F"
  shows "clone_step s0 p i F"
proof (cases "copies p (src_entry s0 p i)")
  case False
  show ?thesis
    by (rule shared_step [OF p(2,1) False]) (use shared False source_entry_now [OF R] p in blast)+
qed (rule copied)

lemma clone_page_step:
  assumes R: "clone_ready s0" and p: "length p = 3" and t: "table_at s0 p = Some t" and i: "i < 512"
  shows "clone_step s0 p i (\<lambda>T s.
    (let e = get_entry t i s
     in if \<not> pte_present e then Some (0, s)
        else if \<not> pte_user e then Some (0, set_entry T i e s)
        else
          (let (frame, s2) = paging_alloc_page s
           in if frame = 0 then Some (- 1, s2)
              else
                do { (r, s3) \<leftarrow> paging_copy_frame frame (e AND PTE_ADDR_MASK) s2;
                     if r \<noteq> 0 then Some (- 1, paging_free_page frame s3)
                     else Some (0, set_entry T i (frame OR (e AND NOT PTE_ADDR_MASK)) s3) })))"
    (is "clone_step s0 p i ?F")
proof (rule clone_step_cases [OF R _ i])
  show "length p \<le> 3" using p by simp
  fix T :: u64 and s :: "'a kpaging_scheme" and e
  assume "get_entry (the (table_at s0 p)) i s = e" and "\<not> copies p e"
  then show "?F T s = Some (0, if pte_present e then set_entry T i e s else s)"
    using p by (simp add: t copies_def Let_def)
next
  assume e: "copies p (src_entry s0 p i)"
  show "clone_step s0 p i ?F"
    unfolding clone_step_def
  proof (intro allI impI)
    fix s M D
    assume C: "copying s0 M D s" and pM: "p \<in> dom M" and iD: "(p, i) \<notin> D"
    have now: "get_entry t i s = src_entry s0 p i" using source_entry_now [OF R C pM _ i] p by (simp add: t)
    have fok: "frames_ok s" using copyingD(1) [OF C] by (simp add: later_def)
    have pu: "pte_present (src_entry s0 p i)" "pte_user (src_entry s0 p i)" using e by (simp_all add: copies_def)
    obtain f s1 where a: "paging_alloc_page s = (f, s1)" by fastforce
    show "\<exists>r s'. ?F (the (M p)) s = Some (r, s') \<and> later s0 s' \<and>
        (if r = 0 then \<exists>M' D'. copying s0 M' D' s' \<and> grows p i M D M' D' else free_tables s' = {})"
    proof (cases "f = 0")
      case True
      then show ?thesis
        using alloc_page_none [OF fok] a copyingD(1) [OF C] pu by (simp add: now)
    next
      case False
      show ?thesis
      proof (rule step_page [OF R C pM p i iD e a False])
        fix s2 M'
        assume run: "paging_copy_frame f (src_entry s0 p i AND PTE_ADDR_MASK) s1 = Some (0, s2)"
          and C': "copying s0 M' (insert (p, i) D) (set_entry (the (M p)) i (f OR (src_entry s0 p i AND NOT PTE_ADDR_MASK)) s2)"
          and g: "grows p i M D M' (insert (p, i) D)"
        have "?F (the (M p)) s = Some (0, set_entry (the (M p)) i (f OR (src_entry s0 p i AND NOT PTE_ADDR_MASK)) s2)"
          using pu a False run by (simp add: now del: PTE_ADDR_MASK_def)
        then show ?thesis using C' g copyingD(1) [OF C'] by auto
      qed
    qed
  qed
qed

lemma clone_user_pt_step:
  assumes R: "clone_ready s0" and p: "length p = 2" and i: "i < 512" and src: "source s0 p i" and t: "table_at s0 (i # p) = Some t"
  shows "clone_step s0 p i (\<lambda>T. paging_clone_user_pt T t i vb)"
proof (rule clone_table [OF R _ i src])
  show "length p \<le> 2" using p by simp
  fix j :: nat assume "j < 512"
  then show "clone_step s0 (i # p) (of_nat j) (\<lambda>T s.
    (let e = get_entry t (of_nat j) s
     in if \<not> pte_present e then Some (0, s)
        else if \<not> pte_user e then Some (0, set_entry T (of_nat j) e s)
        else
          (let (frame, s2) = paging_alloc_page s
           in if frame = 0 then Some (- 1, s2)
              else
                do { (r, s3) \<leftarrow> paging_copy_frame frame (e AND PTE_ADDR_MASK) s2;
                     if r \<noteq> 0 then Some (- 1, paging_free_page frame s3)
                     else Some (0, set_entry T (of_nat j) (frame OR (e AND NOT PTE_ADDR_MASK)) s3) })))"
    using clone_page_step [OF R _ t, of "of_nat j"] p by (simp add: of_nat_index)
qed (simp add: paging_clone_user_pt_def)

lemma copied_table:
  assumes R: "clone_ready s0" and c: "copies p (src_entry s0 p i)" and v: "valid_path (i # p)" and at: "table_at s0 p = Some t"
  shows "source s0 p i" and "table_at s0 (i # p) = Some (table_entry_virt (src_entry s0 p i))"
proof -
  show "source s0 p i" using c v at by (simp add: source_def valid_path_Cons)
  have "pte_present (get_entry t i s0)" "\<not> pte_huge (get_entry t i s0)"
    using c at pt_ok_huge [OF clone_readyD(3) [OF R] v at] by (auto simp: copies_def)
  then show "table_at s0 (i # p) = Some (table_entry_virt (src_entry s0 p i))"
    using at by (simp add: Let_def table_entry_virt_def)
qed

lemma clone_step_status:
  assumes "clone_step s0 p i (\<lambda>T. G T)"
  shows "clone_step s0 p i (\<lambda>T s. do { (r, s2) \<leftarrow> G T s; Some (if r \<noteq> 0 then - 1 else 0, s2) })"
  unfolding clone_step_def
proof (intro allI impI)
  fix s M D
  assume "copying s0 M D s" and "p \<in> dom M" and "(p, i) \<notin> D"
  then obtain r s' where "G (the (M p)) s = Some (r, s')" "later s0 s'"
    "if r = 0 then \<exists>M' D'. copying s0 M' D' s' \<and> grows p i M D M' D' else free_tables s' = {}"
    using assms unfolding clone_step_def by blast
  then show "\<exists>r s'. do { (r, s2) \<leftarrow> G (the (M p)) s; Some (if r \<noteq> 0 then - 1 :: int else 0, s2) } = Some (r, s') \<and> later s0 s' \<and>
      (if r = 0 then \<exists>M' D'. copying s0 M' D' s' \<and> grows p i M D M' D' else free_tables s' = {})"
    by (cases "r = 0") auto
qed

lemma clone_level_step:
  assumes R: "clone_ready s0" and v: "valid_path (i # p)" and at: "table_at s0 p = Some t"
    and large: "\<And>e. copies p e \<longleftrightarrow> pte_present e \<and> pte_user e \<and> \<not> large e"
    and G: "\<And>u. source s0 p i \<Longrightarrow> table_at s0 (i # p) = Some u \<Longrightarrow> clone_step s0 p i (\<lambda>T. G T u)"
  shows "clone_step s0 p i (\<lambda>T s.
    (let e = get_entry t i s
     in if \<not> pte_present e then Some (0, s)
        else if \<not> pte_user e then Some (0, set_entry T i e s)
        else if large e then Some (0, set_entry T i e s)
        else G T (table_entry_virt e) s))"
    (is "clone_step s0 p i ?F")
proof (rule clone_step_cases [OF R])
  show "length p \<le> 3" "i < 512" using v by (simp_all add: valid_path_Cons)
  fix T :: u64 and s :: "'a kpaging_scheme" and e
  assume "get_entry (the (table_at s0 p)) i s = e" and "\<not> copies p e"
  then show "?F T s = Some (0, if pte_present e then set_entry T i e s else s)"
    by (simp add: at large Let_def)
next
  assume e: "copies p (src_entry s0 p i)"
  note tab = copied_table [OF R e v at]
  show "clone_step s0 p i ?F"
    unfolding clone_step_def
  proof (intro allI impI)
    fix s M D
    assume C: "copying s0 M D s" and pM: "p \<in> dom M" and iD: "(p, i) \<notin> D"
    have l: "length p \<le> 3" "i < 512" using v by (simp_all add: valid_path_Cons)
    have now: "get_entry t i s = src_entry s0 p i" using source_entry_now [OF R C pM l] by (simp add: at)
    obtain r s' where run: "G (the (M p)) (table_entry_virt (src_entry s0 p i)) s = Some (r, s')" and L: "later s0 s'"
      and res: "if r = 0 then \<exists>M' D'. copying s0 M' D' s' \<and> grows p i M D M' D' else free_tables s' = {}"
      using G [OF tab, unfolded clone_step_def] C pM iD by blast
    have "?F (the (M p)) s = Some (r, s')"
      using e run by (simp add: now large)
    then show "\<exists>r s'. ?F (the (M p)) s = Some (r, s') \<and> later s0 s' \<and>
        (if r = 0 then \<exists>M' D'. copying s0 M' D' s' \<and> grows p i M D M' D' else free_tables s' = {})"
      using L res by (cases "r = 0") auto
  qed
qed

lemma clone_user_pd_step:
  assumes R: "clone_ready s0" and v: "valid_path (i # p)" and p: "length p = 1" and src: "source s0 p i"
    and t: "table_at s0 (i # p) = Some t"
  shows "clone_step s0 p i (\<lambda>T. paging_clone_user_pd T t i vb)"
proof (rule clone_table [OF R _ _ src])
  show "length p \<le> 2" "i < 512" using p v by (simp_all add: valid_path_Cons)
  fix j :: nat assume j: "j < 512"
  have v': "valid_path (of_nat j # i # p)" using v p j by (simp add: valid_path_Cons of_nat_index)
  show "clone_step s0 (i # p) (of_nat j) (\<lambda>T s.
    (let e = get_entry t (of_nat j) s
     in if \<not> pte_present e then Some (0, s)
        else if \<not> pte_user e then Some (0, set_entry T (of_nat j) e s)
        else if pte_huge e then Some (0, set_entry T (of_nat j) e s)
        else do { (r, s2) \<leftarrow> paging_clone_user_pt T (table_entry_virt e) (of_nat j) (vb + of_nat j * 0x200000) s;
                  Some (if r \<noteq> 0 then - 1 else 0, s2) }))"
    by (rule clone_level_step [OF R v' t], simp add: copies_def p,
        rule clone_step_status, rule clone_user_pt_step [OF R]) (simp_all add: p j of_nat_index)
qed (simp add: paging_clone_user_pd_def)

lemma clone_user_pdpt_step:
  assumes R: "clone_ready s0" and i: "i < 512" and src: "source s0 [] i" and t: "table_at s0 [i] = Some t"
  shows "clone_step s0 [] i (\<lambda>T. paging_clone_user_pdpt T t i vb)"
proof (rule clone_table [OF R _ i src])
  fix j :: nat assume j: "j < 512"
  have v': "valid_path [of_nat j, i]" using i j by (simp add: valid_path_Cons of_nat_index)
  have "clone_step s0 [i] (of_nat j) (\<lambda>T s.
    (let e = get_entry t (of_nat j) s
     in if \<not> pte_present e then Some (0, s)
        else if \<not> pte_user e then Some (0, set_entry T (of_nat j) e s)
        else if False then Some (0, set_entry T (of_nat j) e s)
        else do { (r, s2) \<leftarrow> paging_clone_user_pd T (table_entry_virt e) (of_nat j) (vb + of_nat j * 0x40000000) s;
                  Some (if r \<noteq> 0 then - 1 else 0, s2) }))"
    by (rule clone_level_step [OF R v' t, where large = "\<lambda>e. False"], simp add: copies_def,
        rule clone_step_status, rule clone_user_pd_step [OF R v']) simp_all
  then show "clone_step s0 [i] (of_nat j) (\<lambda>T s.
    (let e = get_entry t (of_nat j) s
     in if \<not> pte_present e then Some (0, s)
        else if \<not> pte_user e then Some (0, set_entry T (of_nat j) e s)
        else do { (r, s2) \<leftarrow> paging_clone_user_pd T (table_entry_virt e) (of_nat j) (vb + of_nat j * 0x40000000) s;
                  Some (if r \<noteq> 0 then - 1 else 0, s2) }))"
    by (simp only: if_False)
qed (simp_all add: paging_clone_user_pdpt_def)

lemma clone_top_step:
  assumes R: "clone_ready s0" and j: "j < 512"
  shows "clone_step s0 [] (of_nat j) (\<lambda>T s.
    (let e = get_entry (pml4 s0) (of_nat j) s
     in if \<not> pte_present e then Some (0, s)
        else if \<not> True \<or> \<not> pte_user e then Some (0, set_entry T (of_nat j) e s)
        else paging_clone_user_pdpt T (table_entry_virt e) (of_nat j) (push_bit 39 (of_nat j)) s))"
proof -
  have v: "valid_path [of_nat j]" using j by (simp add: valid_path_Cons of_nat_index)
  have t: "table_at s0 [] = Some (pml4 s0)" by simp
  have "clone_step s0 [] (of_nat j) (\<lambda>T s.
    (let e = get_entry (pml4 s0) (of_nat j) s
     in if \<not> pte_present e then Some (0, s)
        else if \<not> pte_user e then Some (0, set_entry T (of_nat j) e s)
        else if False then Some (0, set_entry T (of_nat j) e s)
        else paging_clone_user_pdpt T (table_entry_virt e) (of_nat j) (push_bit 39 (of_nat j)) s))"
    by (rule clone_level_step [OF R v t, where large = "\<lambda>e. False"], simp add: copies_def,
        rule clone_user_pdpt_step [OF R]) (simp_all add: j of_nat_index)
  then show ?thesis by (simp only: if_False not_True_eq_False disj_not1 simp_thms)
qed

lemma copying_start:
  assumes "later s0 s1" and "fresh_frame s0 s1 c" and "c < IDENTITY_MAP_LIMIT" and "\<And>j. j < 512 \<Longrightarrow> get_entry c j s1 = 0"
  shows "copying s0 [[] \<mapsto> c] {} s1"
  using assms by (auto simp: copying_def split: if_splits)

text \<open>The whole copy: it returns; when it succeeds every entry of every copied table is stored.\<close>

lemma clone_run:
  assumes R: "clone_ready s"
  obtains c s' where "paging_clone_current_address_space True s = Some (c, s')" and "later s s'"
    and "c = 0 \<Longrightarrow> free_tables s' = {}"
    and "c \<noteq> 0 \<Longrightarrow> \<exists>M D. copying s M D s' \<and> M [] = Some c \<and> (\<forall>p j. p \<in> dom M \<longrightarrow> length p \<le> 3 \<longrightarrow> j < 512 \<longrightarrow> (p, j) \<in> D)"
proof -
  have fok: "frames_ok s" using space_okD(2) [OF clone_readyD(1) [OF R]] .
  obtain c s1 where a: "paging_alloc_table s = (c, s1)" by fastforce
  show thesis
  proof (cases "c = 0")
    case True
    then have "s1 = s" "free_tables s = {}" using alloc_table_none [OF fok] a by auto
    then show thesis
      using that [of 0 s] a True later_refl [OF fok] by (simp add: paging_clone_current_address_space_def)
  next
    case False
    note new = alloc_table_later [OF fok a False]
    have C: "copying s [[] \<mapsto> c] {} s1"
      by (rule copying_start [OF new(1) _ new(6)]) (use new False in \<open>auto simp: fresh_frame_def\<close>)
    let ?body = "\<lambda>T i s'. (let e = get_entry (pml4 s) (of_nat i) s'
     in if \<not> pte_present e then Some (0, s')
        else if \<not> True \<or> \<not> pte_user e then Some (0, set_entry T (of_nat i) e s')
        else paging_clone_user_pdpt T (table_entry_virt e) (of_nat i) (push_bit 39 (of_nat i)) s')"
    from clone_loop [where body = ?body and p = "[]", OF clone_top_step [OF R] C, unfolded fun_upd_same option.sel]
    obtain r s' where run: "for_status (?body c) [0..<512] s1 = Some (r, s')" and L: "later s s'"
      and res: "if r = 0 then \<exists>M' D'. copying s M' D' s' \<and> filled [] 512 [[] \<mapsto> c] {} M' D' else free_tables s' = {}"
      by auto
    have clone: "paging_clone_current_address_space True s = Some (if r \<noteq> 0 then 0 else c, s')"
      unfolding paging_clone_current_address_space_def using a False run by simp
    show thesis
    proof (cases "r = 0")
      case r: True
      with res obtain M D where C': "copying s M D s'" and f: "filled [] 512 [[] \<mapsto> c] {} M D" by auto
      have f1: "[[] \<mapsto> c] \<subseteq>\<^sub>m M" and f3: "\<And>j. j < 512 \<Longrightarrow> ([], j) \<in> D"
        and f5: "\<And>q j. q \<in> dom M \<Longrightarrow> q \<noteq> [] \<Longrightarrow> length q \<le> 3 \<Longrightarrow> j < 512 \<Longrightarrow> (q, j) \<in> D"
        using f by (simp_all add: filled_def unat_less_iff)
      have "M [] = Some c" using f1 by (simp add: map_le_def)
      moreover have "\<forall>p j. p \<in> dom M \<longrightarrow> length p \<le> 3 \<longrightarrow> j < 512 \<longrightarrow> (p, j) \<in> D" using f3 f5 by metis
      ultimately show thesis using that [OF clone L] C' r False by auto
    next
      case False
      then show thesis using that [OF clone L] res by simp
    qed
  qed
qed

section \<open>The new address space\<close>

definition whole_copy :: "'a kpaging_scheme \<Rightarrow> (u64 list \<Rightarrow> u64 option) \<Rightarrow> 'a kpaging_scheme \<Rightarrow> bool" where
  "whole_copy s M s' \<longleftrightarrow> clone_ready s \<and>
     (\<exists>D. copying s M D s' \<and> [] \<in> dom M \<and> (\<forall>p j. p \<in> dom M \<longrightarrow> length p \<le> 3 \<longrightarrow> j < 512 \<longrightarrow> (p, j) \<in> D))"

lemma whole_copyD:
  assumes W: "whole_copy s M s'"
  shows "later s s'" and "M p = Some f \<Longrightarrow> M q = Some f \<Longrightarrow> p = q" and "M p = Some f \<Longrightarrow> fresh_frame s s' f"
    and "M p = Some f \<Longrightarrow> length p \<le> 3 \<Longrightarrow> f < IDENTITY_MAP_LIMIT"
    and "p \<in> dom M \<longleftrightarrow> user_path s p"
    and "M p = Some f \<Longrightarrow> length p \<le> 3 \<Longrightarrow> i < 512 \<Longrightarrow> get_entry f i s' = image_entry s M p i"
    and "length p = 3 \<Longrightarrow> M (i # p) = Some f \<Longrightarrow> unat k < 4096 \<Longrightarrow>
      mem s' (f + k) = mem s ((src_entry s p i AND PTE_ADDR_MASK) + k)"
    and "p \<in> dom M \<Longrightarrow> length p \<le> 3 \<Longrightarrow> valid_path p \<and> (\<exists>t. table_at s p = Some t)"
    and "pt_ok s"
proof -
  from W obtain D where C: "copying s M D s'" and root: "[] \<in> dom M"
    and all: "\<And>p j. p \<in> dom M \<Longrightarrow> length p \<le> 3 \<Longrightarrow> j < 512 \<Longrightarrow> (p, j) \<in> D" and R: "clone_ready s"
    unfolding whole_copy_def by blast
  show "later s s'" "M p = Some f \<Longrightarrow> M q = Some f \<Longrightarrow> p = q" "M p = Some f \<Longrightarrow> fresh_frame s s' f"
    "M p = Some f \<Longrightarrow> length p \<le> 3 \<Longrightarrow> f < IDENTITY_MAP_LIMIT"
    "length p = 3 \<Longrightarrow> M (i # p) = Some f \<Longrightarrow> unat k < 4096 \<Longrightarrow>
      mem s' (f + k) = mem s ((src_entry s p i AND PTE_ADDR_MASK) + k)"
    by (fact copyingD [OF C])+
  show "get_entry f i s' = image_entry s M p i" if "M p = Some f" "length p \<le> 3" "i < 512"
    using copyingD(9) [OF C that] all [of p i] that by auto
  have "user_path s p \<Longrightarrow> p \<in> dom M"
  proof (induction p)
    case (Cons i p)
    then have "p \<in> dom M" "length p \<le> 3" "i < 512" "source s p i" by (auto simp: source_def)
    then show ?case using all copyingD(8) [OF C] by blast
  qed (rule root)
  then show "p \<in> dom M \<longleftrightarrow> user_path s p" using copied_user [OF C] by blast
  show "pt_ok s" by (rule clone_readyD(3) [OF R])
  then show "p \<in> dom M \<Longrightarrow> length p \<le> 3 \<Longrightarrow> valid_path p \<and> (\<exists>t. table_at s p = Some t)"
    by (rule copied_path [OF C])
qed

lemma switch_simps [simp]:
  "mem (paging_switch_cr3 c s) = mem s" "cr3 (paging_switch_cr3 c s) = c" "pml4 (paging_switch_cr3 c s) = c AND PTE_ADDR_MASK"
  "get_entry t i (paging_switch_cr3 c s) = get_entry t i s" "frame_used (paging_switch_cr3 c s) f = frame_used s f"
  "frames_ok (paging_switch_cr3 c s) = frames_ok s" "total_frames (paging_switch_cr3 c s) = total_frames s"
  by (simp_all add: paging_switch_cr3_def get_entry_def frame_used_def bitmap_test_def frames_ok_def)

text \<open>The stored entries, read as page-table entries.\<close>

lemma flag_bits:
  assumes f: "page_aligned f" "unat f < 2 ^ 31"
  shows "(f OR 7) AND PTE_ADDR_MASK = f" and "pte_present (f OR 7)" and "pte_user (f OR 7)" and "\<not> pte_huge (f OR 7)"
    and "(f OR (e AND NOT PTE_ADDR_MASK)) AND PTE_ADDR_MASK = f"
    and "pte_present e \<Longrightarrow> pte_present (f OR (e AND NOT PTE_ADDR_MASK))"
    and "pte_user e \<Longrightarrow> pte_user (f OR (e AND NOT PTE_ADDR_MASK))"
proof -
  have fm: "f AND PTE_ADDR_MASK = f" by (rule aligned_low_mask) (use f in simp_all)
  have "(f AND PTE_ADDR_MASK) AND 0x80 = 0" unfolding and.assoc by simp
  then have low: "f AND 0x80 = 0" unfolding fm .
  show "(f OR 7) AND PTE_ADDR_MASK = f" unfolding bit.conj_disj_distrib2 fm by simp
  show "pte_present (f OR 7)" "pte_user (f OR 7)"
    by (simp_all add: pte_present_def pte_user_def bit.conj_disj_distrib2 or_eq_0_iff)
  show "\<not> pte_huge (f OR 7)" using low by (simp add: pte_huge_def bit.conj_disj_distrib2)
  show "(f OR (e AND NOT PTE_ADDR_MASK)) AND PTE_ADDR_MASK = f"
    unfolding bit.conj_disj_distrib2 fm and.assoc by simp
  have keep: "(f OR (e AND NOT PTE_ADDR_MASK)) AND m \<noteq> 0" if "e AND m \<noteq> 0" "NOT PTE_ADDR_MASK AND m = m" for m
    unfolding bit.conj_disj_distrib2 and.assoc that(2) or_eq_0_iff using that(1) by blast
  show "pte_present e \<Longrightarrow> pte_present (f OR (e AND NOT PTE_ADDR_MASK))"
    "pte_user e \<Longrightarrow> pte_user (f OR (e AND NOT PTE_ADDR_MASK))"
    unfolding pte_present_def pte_user_def by (rule keep; simp)+
qed

lemma image_cases:
  assumes W: "whole_copy s M s'" and p: "user_path s p" "length p \<le> 3" and i: "i < 512"
  obtains (shared) "\<not> source s p i" and "image_entry s M p i = src_entry s p i \<or>
      \<not> pte_present (image_entry s M p i) \<and> \<not> pte_present (src_entry s p i)" and "\<not> copies p (image_entry s M p i)"
    | (copied) f where "source s p i" and "M (i # p) = Some f" and "copies p (image_entry s M p i)"
      and "image_entry s M p i AND PTE_ADDR_MASK = f" and "length p < 3 \<Longrightarrow> \<not> pte_huge (image_entry s M p i)"
proof (cases "source s p i")
  case True
  then have c: "copies p (src_entry s p i)" by (auto simp: source_def)
  have "user_path s (i # p)" using True p by simp
  then obtain f where f: "M (i # p) = Some f" using whole_copyD(5) [OF W] by blast
  then have fr: "page_aligned f" "unat f < 2 ^ 31" using whole_copyD(3) [OF W] by (auto simp: fresh_frame_def)
  note fb = flag_bits [OF fr]
  have im: "image_entry s M p i = f OR (if length p = 3 then src_entry s p i AND NOT PTE_ADDR_MASK else 7)"
    using c f by (simp add: image_entry_def copies_def Let_def del: PTE_ADDR_MASK_def)
  show thesis
  proof (rule copied [OF True f])
    show "copies p (image_entry s M p i)" unfolding im using c fb by (simp add: copies_def del: PTE_ADDR_MASK_def)
    show "image_entry s M p i AND PTE_ADDR_MASK = f" unfolding im using fb by (simp del: PTE_ADDR_MASK_def)
    show "length p < 3 \<Longrightarrow> \<not> pte_huge (image_entry s M p i)" unfolding im using fb by simp
  qed
next
  case False
  obtain t where t: "table_at s p = Some t" using whole_copyD(5,8) [OF W] p by blast
  then have nc: "\<not> copies p (src_entry s p i)" using False p(2) i by (auto simp: source_def)
  have im: "image_entry s M p i = (if pte_present (src_entry s p i) then src_entry s p i else 0)"
    using nc by (simp add: image_entry_def Let_def)
  show thesis
    by (rule shared [OF False]) (use nc in \<open>auto simp: im copies_def pte_present_def\<close>)
qed

lemma copy_table_at:
  assumes W: "whole_copy s M s'" and c: "M [] = Some c" and v: "valid_path p"
  shows "table_at (paging_switch_cr3 c s') p = (if user_path s p then M p else table_at s p)"
  using v
proof (induction p)
  case Nil
  have "fresh_frame s s' c" by (rule whole_copyD(3) [OF W c])
  then have "c AND PTE_ADDR_MASK = c" by (intro aligned_low_mask) (simp_all add: fresh_frame_def)
  then show ?case using c by simp
next
  case (Cons i p)
  then have v: "valid_path p" "i < 512" "length p \<le> 2" by (simp_all add: valid_path_Cons)
  note IH = Cons.IH [OF v(1)]
  note ok = whole_copyD(9) [OF W]
  show ?case
  proof (cases "user_path s p")
    case True
    then obtain T where T: "M p = Some T" using whole_copyD(5) [OF W] by blast
    obtain t where t: "table_at s p = Some t" using whole_copyD(8) [OF W] T v(3) by force
    have ent: "get_entry T i s' = image_entry s M p i" using whole_copyD(6) [OF W T _ v(2)] v(3) by simp
    have l3: "length p \<le> 3" using v(3) by simp
    show ?thesis
    proof (rule image_cases [OF W True l3 v(2)])
      assume a: "\<not> source s p i" "image_entry s M p i = src_entry s p i \<or>
        \<not> pte_present (image_entry s M p i) \<and> \<not> pte_present (src_entry s p i)"
      then show ?thesis using True IH T t ent by (auto simp: Let_def)
    next
      fix f
      assume "source s p i" "M (i # p) = Some f" "copies p (image_entry s M p i)"
        "image_entry s M p i AND PTE_ADDR_MASK = f" "length p < 3 \<Longrightarrow> \<not> pte_huge (image_entry s M p i)"
      then show ?thesis using True IH T ent v(3) by (simp add: Let_def copies_def)
    qed
  next
    case False
    have "get_entry t i s' = get_entry t i s" if "table_at s p = Some t" for t
      using later_entry [OF whole_copyD(1) [OF W] pt_ok_table(1) [OF ok v(1) that] v(2)] .
    then show ?thesis using False IH by (auto simp: Let_def split: option.split)
  qed
qed

lemma copy_entry:
  assumes W: "whole_copy s M s'" and c: "M [] = Some c" and v: "valid_path p" and i: "i < 512"
    and at: "table_at (paging_switch_cr3 c s') p = Some T"
  shows "get_entry T i s' = (if user_path s p then image_entry s M p i else src_entry s p i)"
proof -
  have l: "length p \<le> 3" using v by (simp add: valid_path_def)
  show ?thesis
  proof (cases "user_path s p")
    case True
    then have "M p = Some T" using at copy_table_at [OF W c v] by simp
    then show ?thesis using whole_copyD(6) [OF W _ l i] True by simp
  next
    case False
    then have "table_at s p = Some T" using at copy_table_at [OF W c v] by simp
    then show ?thesis
      using later_entry [OF whole_copyD(1) [OF W] pt_ok_table(1) [OF whole_copyD(9) [OF W] v] i] False by simp
  qed
qed

lemma copy_table_frame:
  assumes W: "whole_copy s M s'" and c: "M [] = Some c" and "table_frame (paging_switch_cr3 c s') f"
  shows "table_frame s f \<or> (\<exists>p. length p \<le> 3 \<and> M p = Some f)"
  using assms(3) copy_table_at [OF W c] unfolding table_frame_def valid_path_def by (metis (no_types))

lemma copy_pt_ok:
  assumes W: "whole_copy s M s'" and c: "M [] = Some c"
  shows "pt_ok (paging_switch_cr3 c s')"
proof -
  let ?s = "paging_switch_cr3 c s'"
  note at = copy_table_at [OF W c] and ok = whole_copyD(9) [OF W]
  have l: "length p \<le> 3" if "valid_path p" for p using that by (simp add: valid_path_def)
  have own: "M p = Some t" if "valid_path p" "user_path s p" "table_at ?s p = Some t" for p t using at that by simp
  have src: "table_at s p = Some t" if "valid_path p" "\<not> user_path s p" "table_at ?s p = Some t" for p t
    using at that by simp
  have sep: False if "M p = Some t" "valid_path q" "table_at s q = Some t" for p q t
    using whole_copyD(3) [OF W that(1)] pt_ok_table(1) [OF ok that(2,3)] by (simp add: fresh_frame_def)
  show ?thesis
    unfolding pt_ok_def
  proof (intro conjI allI impI)
    fix p t assume p: "valid_path p" "table_at ?s p = Some t"
    have "frame_used s' t \<and> t \<noteq> 0 \<and> t < IDENTITY_MAP_LIMIT"
    proof (cases "user_path s p")
      case True
      from own [OF p(1) True p(2)] whole_copyD(3,4) [OF W] l [OF p(1)] show ?thesis by (auto simp: fresh_frame_def)
    next
      case False
      from src [OF p(1) False p(2)] have "table_at s p = Some t" .
      then show ?thesis
        using pt_ok_table [OF ok p(1)] whole_copyD(1) [OF W] unfolding later_def by blast
    qed
    then show "frame_used ?s t" "t \<noteq> 0" "t < IDENTITY_MAP_LIMIT" by simp_all
  next
    fix p q t assume pq: "valid_path p" "valid_path q" "table_at ?s p = Some t" "table_at ?s q = Some t"
    show "p = q"
      using own [OF pq(1) _ pq(3)] own [OF pq(2) _ pq(4)] src [OF pq(1) _ pq(3)] src [OF pq(2) _ pq(4)]
        whole_copyD(2) [OF W] pt_ok_inject [OF ok pq(1,2)] sep pq(1,2) by metis
  next
    fix p t i
    assume p: "valid_path (i # p)" "table_at ?s p = Some t" "pte_present (get_entry t i ?s)" "pte_huge (get_entry t i ?s)"
    have v: "valid_path p" "i < 512" "length p \<le> 2" using p(1) by (simp_all add: valid_path_Cons)
    have ent: "get_entry t i ?s = (if user_path s p then image_entry s M p i else src_entry s p i)"
      using copy_entry [OF W c v(1,2) p(2)] by simp
    obtain u where u: "table_at s p = Some u"
      using whole_copyD(5,8) [OF W] l [OF v(1)] src [OF v(1) _ p(2)] by metis
    have huge: "length p = 2 \<and> get_entry t i ?s AND 0x1FF000 = 0" if "get_entry t i ?s = src_entry s p i"
      using pt_ok_huge [OF ok p(1) u] p(3,4) that u by simp
    have "length p = 2 \<and> get_entry t i ?s AND 0x1FF000 = 0"
    proof (cases "user_path s p")
      case True
      have l3: "length p \<le> 3" "length p < 3" using v(3) by simp_all
      show ?thesis
        using image_cases [OF W True l3(1) v(2)] ent True huge p(3,4) l3(2) by (smt (verit) if_P)
    qed (use huge ent in simp)
    then show "length p = 2" "get_entry t i ?s AND 0x1FF000 = 0" by blast+
  qed
qed

text \<open>The program's paths in the copy are those of the original.\<close>

lemma copy_source:
  assumes W: "whole_copy s M s'" and c: "M [] = Some c" and p: "user_path s p"
  shows "source (paging_switch_cr3 c s') p i \<longleftrightarrow> source s p i"
proof (cases "length p \<le> 3 \<and> i < 512")
  case True
  then have l: "length p \<le> 3" and i: "i < 512" by simp_all
  obtain T where T: "M p = Some T" using p whole_copyD(5) [OF W] by blast
  then have v: "valid_path p" using whole_copyD(8) [OF W _ l] by blast
  have at: "table_at (paging_switch_cr3 c s') p = Some T" using copy_table_at [OF W c v] p T by simp
  have "source (paging_switch_cr3 c s') p i \<longleftrightarrow> copies p (image_entry s M p i)"
    using at True copy_entry [OF W c v i at] p by (simp add: source_def)
  also have "\<dots> \<longleftrightarrow> source s p i" by (rule image_cases [OF W p l i]) simp_all
  finally show ?thesis .
qed (auto simp: source_def)

lemma copy_user_path:
  assumes W: "whole_copy s M s'" and c: "M [] = Some c"
  shows "user_path (paging_switch_cr3 c s') p \<longleftrightarrow> user_path s p"
  by (induction p) (use copy_source [OF W c] in auto)

text \<open>Where an address leads.\<close>

abbreviation pt_path :: "u64 \<Rightarrow> u64 list" where
  "pt_path v \<equiv> PD_INDEX v # pd_path v"

lemma virt_leaf:
  assumes ok: "pt_ok s"
  shows "table_at s (pt_path v) = Some t \<Longrightarrow> paging_virt_to_phys v s =
      (if pte_present (get_entry t (PT_INDEX v) s)
       then (get_entry t (PT_INDEX v) s AND PTE_ADDR_MASK) + (v AND (PAGE_SIZE - 1)) else 0)"
    and "table_at s (pt_path v) = None \<Longrightarrow> paging_virt_to_phys v s =
      (case table_at s (pd_path v) of None \<Rightarrow> 0
       | Some pd \<Rightarrow> (let e = get_entry pd (PD_INDEX v) s
                    in if pte_present e then (e AND PTE_ADDR_MASK) + (v AND 0x1FFFFF) else 0))"
  unfolding virt_to_phys_tree [OF ok] by (auto simp: Let_def split: option.splits if_splits)

lemma copy_virt_user:
  assumes W: "whole_copy s M s'" and c: "M [] = Some c" and f: "M (PT_INDEX v # pt_path v) = Some f"
  shows "paging_virt_to_phys v (paging_switch_cr3 c s') = f + (v AND (PAGE_SIZE - 1))"
    and "paging_virt_to_phys v s = (src_entry s (pt_path v) (PT_INDEX v) AND PTE_ADDR_MASK) + (v AND (PAGE_SIZE - 1))"
proof -
  let ?p = "pt_path v" and ?i = "PT_INDEX v"
  have u: "user_path s (?i # ?p)" using f whole_copyD(5) [OF W] by blast
  then have up: "user_path s ?p" and src: "source s ?p ?i" by simp_all
  have l: "length ?p \<le> 3" by simp
  obtain T where T: "M ?p = Some T" using up whole_copyD(5) [OF W] by blast
  have at: "table_at (paging_switch_cr3 c s') ?p = Some T" using copy_table_at [OF W c valid_pt_path] up T by simp
  have ent: "get_entry T ?i (paging_switch_cr3 c s') = image_entry s M ?p ?i"
    using copy_entry [OF W c valid_pt_path index_less(4) at] up by simp
  show "paging_virt_to_phys v (paging_switch_cr3 c s') = f + (v AND (PAGE_SIZE - 1))"
  proof (rule image_cases [OF W up l index_less(4)])
    assume "\<not> source s ?p ?i"
    then show ?thesis using src by contradiction
  next
    fix g
    assume "M (?i # ?p) = Some g" "copies ?p (image_entry s M ?p ?i)" "image_entry s M ?p ?i AND PTE_ADDR_MASK = g"
    then show ?thesis
      unfolding virt_leaf(1) [OF copy_pt_ok [OF W c] at] ent using f by (simp add: copies_def)
  qed
  obtain t where t: "table_at s ?p = Some t" "copies ?p (get_entry t ?i s)" using src by (auto simp: source_def)
  then show "paging_virt_to_phys v s = (src_entry s ?p ?i AND PTE_ADDR_MASK) + (v AND (PAGE_SIZE - 1))"
    unfolding virt_leaf(1) [OF whole_copyD(9) [OF W] t(1)] by (simp add: copies_def)
qed

lemma copy_unshared_entry:
  assumes W: "whole_copy s M s'" and c: "M [] = Some c" and v: "valid_path p" and i: "i < 512" and none: "M (i # p) = None"
    and at: "table_at (paging_switch_cr3 c s') p = Some T"
  obtains t where "table_at s p = Some t" and "get_entry T i s' = get_entry t i s \<or>
    \<not> pte_present (get_entry T i s') \<and> \<not> pte_present (get_entry t i s)"
proof (cases "user_path s p")
  case True
  have l: "length p \<le> 3" using v by (simp add: valid_path_def)
  obtain t where t: "table_at s p = Some t" using whole_copyD(5,8) [OF W] True l by blast
  have ent: "get_entry T i s' = image_entry s M p i" using copy_entry [OF W c v i at] True by simp
  show thesis
  proof (rule image_cases [OF W True l i])
    assume "image_entry s M p i = src_entry s p i \<or>
      \<not> pte_present (image_entry s M p i) \<and> \<not> pte_present (src_entry s p i)"
    then show thesis using that [OF t] t by (simp add: ent)
  next
    fix f assume "M (i # p) = Some f"
    then show thesis using none by simp
  qed
next
  case False
  have "table_at s p = Some T" using copy_table_at [OF W c v] at False by simp
  then show thesis using that copy_entry [OF W c v i at] False by simp
qed

lemma copy_virt_other:
  assumes W: "whole_copy s M s'" and c: "M [] = Some c" and none: "M (PT_INDEX v # pt_path v) = None"
  shows "paging_virt_to_phys v (paging_switch_cr3 c s') = paging_virt_to_phys v s"
proof -
  let ?s = "paging_switch_cr3 c s'"
  note ok = whole_copyD(9) [OF W] and ok' = copy_pt_ok [OF W c]
  note at = copy_table_at [OF W c]
  show ?thesis
  proof (cases "table_at ?s (pt_path v)")
    case (Some T)
    then obtain t where "table_at s (pt_path v) = Some t" "get_entry T (PT_INDEX v) s' = get_entry t (PT_INDEX v) s \<or>
        \<not> pte_present (get_entry T (PT_INDEX v) s') \<and> \<not> pte_present (get_entry t (PT_INDEX v) s)"
      using copy_unshared_entry [OF W c valid_pt_path index_less(4) none] by blast
    then show ?thesis unfolding virt_leaf(1) [OF ok' Some] by (auto simp: virt_leaf(1) [OF ok])
  next
    case None
    then have "\<not> user_path s (pt_path v)"
      using at [OF valid_pt_path] whole_copyD(5) [OF W] by (metis domIff)
    then have nu: "\<not> user_path s (pt_path v)" "table_at s (pt_path v) = None"
      using at [OF valid_pt_path] None by metis+
    then have m: "M (pt_path v) = None" using whole_copyD(5) [OF W] by blast
    show ?thesis
    proof (cases "table_at ?s (pd_path v)")
      case (Some T)
      then obtain t where "table_at s (pd_path v) = Some t" "get_entry T (PD_INDEX v) s' = get_entry t (PD_INDEX v) s \<or>
          \<not> pte_present (get_entry T (PD_INDEX v) s') \<and> \<not> pte_present (get_entry t (PD_INDEX v) s)"
        using copy_unshared_entry [OF W c pd_path_valid(1) index_less(3) m] by blast
      then show ?thesis unfolding virt_leaf(2) [OF ok' None] virt_leaf(2) [OF ok nu(2)] Some by (auto simp: Let_def)
    next
      case n: None
      then have "table_at s (pd_path v) = None"
        using at [OF pd_path_valid(1)] whole_copyD(5) [OF W] by (metis domIff)
      then show ?thesis unfolding virt_leaf(2) [OF ok' None] virt_leaf(2) [OF ok nu(2)] n by simp
    qed
  qed
qed

section \<open>Address spaces that can be copied\<close>

text \<open>The addresses that the program may use, through 4 KiB pages.\<close>

definition user_space :: "'a kpaging_scheme \<Rightarrow> u64 set" where
  "user_space s = {v. unat v < 2 ^ 48 \<and> user_path s (PT_INDEX v # pt_path v)}"

text \<open>
  The program's addresses are its own; the window is not in use; and the frames below the identity-map limit that the
  code may want to reach through their own addresses, the free ones and those of the program, are mapped there.
\<close>

definition forkable :: "'a kpaging_scheme \<Rightarrow> bool" where
  "forkable s \<longleftrightarrow> space_ok s \<and> window_unmapped s \<and> owned s (user_space s) \<and>
     (\<forall>v \<in> user_space s. page_of (paging_virt_to_phys v s) < IDENTITY_MAP_LIMIT \<longrightarrow> direct s (page_of (paging_virt_to_phys v s))) \<and>
     (\<forall>f. page_aligned f \<longrightarrow> f < IDENTITY_MAP_LIMIT \<longrightarrow> f div PAGE_SIZE < total_frames s \<longrightarrow> \<not> frame_used s f \<longrightarrow> direct s f)"

lemma digit_512: "j < 512 \<Longrightarrow> (x * 512 + j) div 512 = x" "j < 512 \<Longrightarrow> (x * 512 + j) mod 512 = j" for j x :: nat
  by simp_all

lemma path_address:
  assumes "valid_path p" and "length p = 3" and "i < 512"
  obtains v where "unat v < 2 ^ 48" and "PT_INDEX v # pt_path v = i # p" and "v AND (PAGE_SIZE - 1) = 0"
proof -
  from assms(2) obtain a b c where p: "p = [a, b, c]" by (auto simp: numeral_3_eq_3 length_Suc_conv)
  have lt: "unat a < 512" "unat b < 512" "unat c < 512" "unat i < 512"
    using assms(1,3) by (simp_all add: p valid_path_def unat_less_iff)
  define n where "n = ((unat c * 512 + unat b) * 512 + unat a) * 512 + unat i"
  define v :: u64 where "v = of_nat (n * 4096)"
  have n: "n div 512 = (unat c * 512 + unat b) * 512 + unat a" "n mod 512 = unat i"
    unfolding n_def by (rule digit_512 [OF lt(4)])+
  have n2: "n div 512 div 512 = unat c * 512 + unat b" "n div 512 mod 512 = unat a"
    unfolding n by (rule digit_512 [OF lt(1)])+
  have n3: "n div 512 div 512 div 512 = unat c" "n div 512 div 512 mod 512 = unat b"
    unfolding n2 by (rule digit_512 [OF lt(2)])+
  have "n div 512 div 512 div 512 < 512" unfolding n3 by (rule lt(3))
  then have nlt: "n < 2 ^ 36" by (simp add: div_mult2_eq [symmetric] div_less_iff_less_mult)
  then have v: "unat v = n * 4096" unfolding v_def by (intro unat_of_nat_small) simp
  have pow: "(2::nat) ^ 12 = 4096" "(2::nat) ^ 21 = 4096 * 512" "(2::nat) ^ 30 = 4096 * 512 * 512" "(2::nat) ^ 39 = 4096 * 512 * 512 * 512"
    by simp_all
  have v0: "unat v div 4096 = n" unfolding v by simp
  have n4: "n div 512 div 512 div 512 mod 512 = unat c" unfolding n3 using lt(3) by simp
  have "PT_INDEX v = i" "PD_INDEX v = a" "PDP_INDEX v = b" "PML4_INDEX v = c"
    unfolding PML4_INDEX_def PDP_INDEX_def PD_INDEX_def PT_INDEX_def unat_eq_iff unat_index pow div_mult2_eq v0
    by (fact n(2) n2(2) n3(2) n4)+
  then have "PT_INDEX v # pt_path v = i # p" by (simp add: p pd_path_def)
  moreover have "unat v < 2 ^ 48" using nlt unfolding v by simp
  moreover have "v AND (PAGE_SIZE - 1) = 0"
    using unat_and_mask [of v 12] by (simp add: mask_eq_exp_minus_1 unat_eq_iff v)
  ultimately show thesis by (intro that [of v])
qed

lemma user_path_valid:
  assumes ok: "pt_ok s"
  shows "user_path s p \<Longrightarrow> length p \<le> 3 \<Longrightarrow> valid_path p \<and> (\<exists>t. table_at s p = Some t)"
proof (induction p)
  case (Cons i p)
  then obtain t where t: "i < 512" "table_at s p = Some t" "copies p (get_entry t i s)" by (auto simp: source_def)
  have v: "valid_path (i # p)" using Cons t(1) by (simp add: valid_path_Cons)
  have "\<not> pte_huge (get_entry t i s)" using pt_ok_huge [OF ok v t(2)] t(3) unfolding copies_def by blast
  then show ?case using v t by (simp add: Let_def copies_def)
qed simp

text \<open>An address is its page and its offset.\<close>

lemma same_address:
  assumes "same_page v w" and "unat v < 2 ^ 48" and "unat w < 2 ^ 48" and "v AND (PAGE_SIZE - 1) = w AND (PAGE_SIZE - 1)"
  shows "v = w"
proof -
  have d: "unat v div 4096 = unat w div 4096" using same_page_number assms(1-3) by blast
  have "unat v mod 4096 = unat w mod 4096"
    using assms(4) unat_and_mask [of v 12] unat_and_mask [of w 12] by (simp add: mask_eq_exp_minus_1)
  then have "unat v = unat w" using d by (metis div_mod_decomp)
  then show "v = w" by (simp only: unat_eq_iff)
qed

lemma user_space_page:
  assumes ok: "pt_ok s" and v: "v \<in> user_space s"
  shows "paging_virt_to_phys v s = (src_entry s (pt_path v) (PT_INDEX v) AND PTE_ADDR_MASK) + (v AND (PAGE_SIZE - 1))"
    and "page_of (paging_virt_to_phys v s) = src_entry s (pt_path v) (PT_INDEX v) AND PTE_ADDR_MASK"
proof -
  have "source s (pt_path v) (PT_INDEX v)" using v by (simp add: user_space_def)
  then obtain t where t: "table_at s (pt_path v) = Some t" "copies (pt_path v) (get_entry t (PT_INDEX v) s)" by (auto simp: source_def)
  then show eq: "paging_virt_to_phys v s = (src_entry s (pt_path v) (PT_INDEX v) AND PTE_ADDR_MASK) + (v AND (PAGE_SIZE - 1))"
    unfolding virt_leaf(1) [OF ok t(1)] by (simp add: copies_def)
  let ?f = "src_entry s (pt_path v) (PT_INDEX v) AND PTE_ADDR_MASK"
  have "page_of ?f = ?f" by (simp add: page_of_def and.assoc)
  then have "page_aligned ?f" using page_of_aligned [of ?f] by (simp only:)
  moreover have "unat (v AND (PAGE_SIZE - 1)) < 4096" using unat_and_mask [of v 12] by (simp add: mask_eq_exp_minus_1)
  ultimately show "page_of (paging_virt_to_phys v s) = ?f" unfolding eq by (rule page_of_add)
qed

lemma forkableD:
  assumes "forkable s"
  shows "space_ok s" and "window_unmapped s" and "owned s (user_space s)" and "pt_ok s"
    and "v \<in> user_space s \<Longrightarrow> page_of (paging_virt_to_phys v s) < IDENTITY_MAP_LIMIT \<Longrightarrow> direct s (page_of (paging_virt_to_phys v s))"
    and "page_aligned f \<Longrightarrow> f < IDENTITY_MAP_LIMIT \<Longrightarrow> f div PAGE_SIZE < total_frames s \<Longrightarrow> \<not> frame_used s f \<Longrightarrow> direct s f"
  using assms space_okD(1) unfolding forkable_def by blast+

lemma forkable_ready:
  assumes F: "forkable s"
  shows "clone_ready s"
proof -
  note f = forkableD [OF F]
  have "(let f = src_entry s p i AND PTE_ADDR_MASK
         in f \<noteq> 0 \<and> frame_used s f \<and> \<not> table_frame s f \<and> (f < IDENTITY_MAP_LIMIT \<longrightarrow> direct s f))"
    if p: "length p = 3" "user_path s (i # p)" for p i
  proof -
    have "valid_path p" "i < 512" using user_path_valid [OF f(4), of p] p by (auto simp: source_def)
    then obtain v where v: "unat v < 2 ^ 48" "PT_INDEX v # pt_path v = i # p" "v AND (PAGE_SIZE - 1) = 0"
      using path_address p(1) by blast
    then have vs: "v \<in> user_space s" using p(2) by (simp add: user_space_def del: user_path.simps)
    have e: "src_entry s p i = src_entry s (pt_path v) (PT_INDEX v)" using v(2) by simp
    note pg = user_space_page [OF f(4) vs, folded e]
    have b: "user_byte s (paging_virt_to_phys v s)" using f(3) vs by (simp add: owned_def)
    have virt: "paging_virt_to_phys v s = src_entry s p i AND PTE_ADDR_MASK" unfolding pg(1) v(3) by simp
    note pg' = pg(2) [unfolded virt]
    show ?thesis using f(5) [OF vs] b unfolding user_byte_def Let_def virt pg' by blast
  qed
  then show ?thesis using f(1,2,6) unfolding clone_ready_def by blast
qed

text \<open>Both address spaces can be copied again.\<close>

lemma later_user_path:
  assumes L: "later s s'" and ok: "pt_ok s"
  shows "user_path s' p \<longleftrightarrow> user_path s p"
proof (induction p)
  case (Cons i p)
  have "source s' p i \<longleftrightarrow> source s p i" if u: "user_path s p"
  proof (cases "length p \<le> 3 \<and> i < 512")
    case True
    then obtain t where t: "valid_path p" "table_at s p = Some t" using user_path_valid [OF ok u] by blast
    then have "get_entry t i s' = get_entry t i s" using later_entry [OF L pt_ok_table(1) [OF ok t]] True by blast
    then show ?thesis using t later_tree(1) [OF L ok t(1)] by (simp add: source_def)
  qed (auto simp: source_def)
  then show ?case using Cons by auto
qed simp

lemma owned_later:
  assumes L: "later s s'" and ok: "pt_ok s" and own: "owned s V"
  shows "owned s' V" and "v \<in> V \<Longrightarrow> view s' v = view s v"
proof -
  note tree = later_tree [OF L ok]
  have b: "user_byte s (paging_virt_to_phys v s)" if "v \<in> V" for v using own that by (simp add: owned_def)
  have "user_byte s' a" if "user_byte s a" for a using that L unfolding user_byte_def tree(2) later_def by blast
  then show "owned s' V" using own unfolding owned_def tree(4) by blast
  show "view s' v = view s v" if "v \<in> V" using b [OF that] L unfolding view_def tree(4) user_byte_def later_def by blast
qed

lemma forkable_later:
  assumes L: "later s s'" and F: "forkable s"
  shows "forkable s'" and "user_space s' = user_space s"
proof -
  note f = forkableD [OF F] and tree = later_tree [OF L forkableD(4) [OF F]]
  show us: "user_space s' = user_space s" by (simp only: user_space_def later_user_path [OF L f(4)])
  have d: "direct s' g = direct s g" for g by (simp only: direct_def tree(4))
  have "total_frames s' = total_frames s" "\<And>g. frame_used s g \<Longrightarrow> frame_used s' g" using L by (simp_all add: later_def)
  then show "forkable s'"
    using later_space [OF L f(1)] f(2,5,6) owned_later(1) [OF L f(4,3)] unfolding forkable_def us d tree(4) by metis
qed

text \<open>An address that is mapped to itself is not the program's if its frame is free.\<close>

lemma direct_not_user:
  assumes F: "forkable s" and d: "direct s f" and f: "page_aligned f" "\<not> frame_used s f" and k: "unat k < 4096"
    and low: "unat f < 2 ^ 31"
  shows "\<not> user_path s (PT_INDEX (f + k) # pt_path (f + k))"
proof
  assume u: "user_path s (PT_INDEX (f + k) # pt_path (f + k))"
  have "unat (f + k) < 2 ^ 48" using low k by (simp add: unat_add_small)
  then have "f + k \<in> user_space s" using u by (simp add: user_space_def del: user_path.simps)
  then have "user_byte s (paging_virt_to_phys (f + k) s)" using forkableD(3) [OF F] by (simp add: owned_def)
  moreover have "paging_virt_to_phys (f + k) s = f + k" using d k by (simp add: direct_def)
  ultimately show False using page_of_add [OF f(1) k] f(2) by (simp add: user_byte_def)
qed

lemma copy_direct:
  assumes F: "forkable s" and W: "whole_copy s M s'" and c: "M [] = Some c" and d: "direct s f"
    and f: "page_aligned f" "\<not> frame_used s f" "unat f < 2 ^ 31"
  shows "direct (paging_switch_cr3 c s') f"
  unfolding direct_def
proof (intro allI impI)
  fix k :: u64 assume k: "unat k < 4096"
  have "M (PT_INDEX (f + k) # pt_path (f + k)) = None"
    using direct_not_user [OF F d f(1,2) k f(3)] whole_copyD(5) [OF W] by (metis domIff)
  then show "paging_virt_to_phys (f + k) (paging_switch_cr3 c s') = f + k"
    using copy_virt_other [OF W c] d k by (simp add: direct_def)
qed

lemma copy_user_space:
  assumes F: "forkable s" and W: "whole_copy s M s'" and c: "M [] = Some c" and v: "v \<in> user_space s"
  obtains f where "M (PT_INDEX v # pt_path v) = Some f" and "paging_virt_to_phys v (paging_switch_cr3 c s') = f + (v AND (PAGE_SIZE - 1))"
    and "page_of (paging_virt_to_phys v (paging_switch_cr3 c s')) = f" and "fresh_frame s s' f"
    and "view (paging_switch_cr3 c s') v = view s v"
proof -
  have u: "user_path s (PT_INDEX v # pt_path v)" using v by (simp add: user_space_def del: user_path.simps)
  then obtain f where f: "M (PT_INDEX v # pt_path v) = Some f" using whole_copyD(5) [OF W] by blast
  note virt = copy_virt_user [OF W c f]
  have fr: "fresh_frame s s' f" by (rule whole_copyD(3) [OF W f])
  have off: "unat (v AND (PAGE_SIZE - 1)) < 4096" using unat_and_mask [of v 12] by (simp add: mask_eq_exp_minus_1)
  have pg: "page_of (f + (v AND (PAGE_SIZE - 1))) = f" using fr off by (intro page_of_add) (simp_all add: fresh_frame_def)
  have "length (pt_path v) = 3" by simp
  from whole_copyD(7) [OF W this f off] have "view (paging_switch_cr3 c s') v = view s v"
    unfolding view_def virt by simp
  then show thesis using that [OF f virt(1) _ fr] pg virt(1) by simp
qed

lemma copy_owned:
  assumes F: "forkable s" and W: "whole_copy s M s'" and c: "M [] = Some c"
  shows "owned (paging_switch_cr3 c s') (user_space s)"
proof -
  let ?s = "paging_switch_cr3 c s'"
  have b: "user_byte ?s (paging_virt_to_phys v ?s)" if v: "v \<in> user_space s" for v
  proof (rule copy_user_space [OF F W c v])
    fix f
    assume f: "M (PT_INDEX v # pt_path v) = Some f" "page_of (paging_virt_to_phys v ?s) = f" "fresh_frame s s' f"
    have "\<not> table_frame ?s f"
    proof
      assume "table_frame ?s f"
      then consider "table_frame s f" | p where "length p \<le> 3" "M p = Some f" using copy_table_frame [OF W c] by blast
      then show False
      proof cases
        case 1
        then show False using table_frame_used [OF whole_copyD(9) [OF W]] f(3) by (simp add: fresh_frame_def)
      next
        case 2
        then have "p = PT_INDEX v # pt_path v" using whole_copyD(2) [OF W] f(1) by blast
        then show False using 2(1) by simp
      qed
    qed
    moreover have "paging_virt_to_phys v ?s \<noteq> 0"
    proof
      assume "paging_virt_to_phys v ?s = 0"
      then have "f = 0" using f(2) by (simp add: page_of_def)
      then show False using f(3) by (simp add: fresh_frame_def)
    qed
    ultimately show ?thesis using f(2,3) unfolding user_byte_def by (simp add: fresh_frame_def)
  qed
  moreover have "inj_on (\<lambda>v. paging_virt_to_phys v ?s) (user_space s)"
  proof (rule inj_onI)
    fix v w assume v: "v \<in> user_space s" and w: "w \<in> user_space s" and eq: "paging_virt_to_phys v ?s = paging_virt_to_phys w ?s"
    obtain f where f: "M (PT_INDEX v # pt_path v) = Some f" "paging_virt_to_phys v ?s = f + (v AND (PAGE_SIZE - 1))"
      "page_of (paging_virt_to_phys v ?s) = f" by (rule copy_user_space [OF F W c v])
    obtain g where g: "M (PT_INDEX w # pt_path w) = Some g" "paging_virt_to_phys w ?s = g + (w AND (PAGE_SIZE - 1))"
      "page_of (paging_virt_to_phys w ?s) = g" by (rule copy_user_space [OF F W c w])
    have fg: "f = g" using f(3) g(3) eq by simp
    then have path: "PT_INDEX v # pt_path v = PT_INDEX w # pt_path w" using whole_copyD(2) [OF W] f(1) g(1) by blast
    then have "same_page v w" by (simp add: same_page_paths)
    moreover have "unat v < 2 ^ 48" "unat w < 2 ^ 48" using v w by (simp_all add: user_space_def)
    moreover have "v AND (PAGE_SIZE - 1) = w AND (PAGE_SIZE - 1)" using f(2) g(2) eq fg by simp
    ultimately show "v = w" by (rule same_address)
  qed
  ultimately show ?thesis by (simp add: owned_def)
qed

lemma copy_forkable:
  assumes F: "forkable s" and W: "whole_copy s M s'" and c: "M [] = Some c"
  shows "forkable (paging_switch_cr3 c s')" and "user_space (paging_switch_cr3 c s') = user_space s"
proof -
  let ?s = "paging_switch_cr3 c s'"
  note f = forkableD [OF F] and L = whole_copyD(1) [OF W]
  have ok: "pt_ok ?s" by (rule copy_pt_ok [OF W c])
  show us: "user_space ?s = user_space s" by (simp only: user_space_def copy_user_path [OF W c])
  have wat: "\<exists>T. table_at ?s (pt_path v) = Some T \<and> T \<noteq> 0" if w: "paging_get_pt v s \<noteq> 0" for v
  proof -
    obtain t where t: "table_at s (pt_path v) = Some t" "t \<noteq> 0"
      using w unfolding paging_get_pt_tree(1) [OF f(4)] by (auto split: option.splits simp del: table_at.simps)
    show ?thesis
      using copy_table_at [OF W c valid_pt_path, of v] t whole_copyD(3,5) [OF W] unfolding fresh_frame_def
      by (metis domD)
  qed
  have "paging_get_pt KERNEL_KMAP_WINDOW s \<noteq> 0" using space_okD(4) [OF f(1)] by (simp add: window_ready_def)
  then have "paging_get_pt KERNEL_KMAP_WINDOW ?s \<noteq> 0"
    unfolding paging_get_pt_tree(1) [OF ok] using wat [of KERNEL_KMAP_WINDOW] by (auto simp del: table_at.simps)
  then have space: "space_ok ?s" using ok L by (simp add: space_ok_def window_ready_def later_def)
  have pte: "paging_pte_value v ?s = 0" if "paging_pte_value v s = 0" for v
  proof (cases "table_at ?s (pt_path v)")
    case None
    then show ?thesis unfolding paging_get_pt_tree(2) [OF ok] by (simp del: table_at.simps)
  next
    case (Some T)
    have l: "length (pt_path v) \<le> 3" by simp
    note ent = copy_entry [OF W c valid_pt_path index_less(4) Some]
    have "get_entry T (PT_INDEX v) s' = 0"
    proof (cases "user_path s (pt_path v)")
      case True
      obtain t where t: "table_at s (pt_path v) = Some t" using user_path_valid [OF f(4) True l] by blast
      then have "get_entry t (PT_INDEX v) s = 0" using that unfolding paging_get_pt_tree(2) [OF f(4)] by simp
      then show ?thesis using ent [of v] True t by (simp add: image_entry_def pte_present_def del: user_path.simps table_at.simps)
    next
      case False
      then have "table_at s (pt_path v) = Some T" using copy_table_at [OF W c valid_pt_path] Some by metis
      then show ?thesis using ent [of v] False that unfolding paging_get_pt_tree(2) [OF f(4)] by (simp del: user_path.simps table_at.simps)
    qed
    then show ?thesis unfolding paging_get_pt_tree(2) [OF ok] Some by simp
  qed
  have own: "owned ?s (user_space s)" by (rule copy_owned [OF F W c])
  have dir: "direct ?s g" if "direct s g" "page_aligned g" "\<not> frame_used s g" "g < IDENTITY_MAP_LIMIT" for g
    using copy_direct [OF F W c that(1-3)] that(4) by (simp add: unat_less_iff)
  have free: "direct ?s g" if g: "page_aligned g" "g < IDENTITY_MAP_LIMIT" "g div PAGE_SIZE < total_frames s" "\<not> frame_used s g" for g
    using dir [OF f(6) [OF g] g(1,4,2)] .
  have "direct ?s (page_of (paging_virt_to_phys v ?s))" if v: "v \<in> user_space s"
    and low: "page_of (paging_virt_to_phys v ?s) < IDENTITY_MAP_LIMIT" for v
  proof (rule copy_user_space [OF F W c v])
    fix g assume "page_of (paging_virt_to_phys v ?s) = g" "fresh_frame s s' g"
    then show ?thesis using free [of g] low by (simp add: fresh_frame_def)
  qed
  moreover have "direct ?s g" if "page_aligned g" "g < IDENTITY_MAP_LIMIT" "g div PAGE_SIZE < total_frames ?s" "\<not> frame_used ?s g" for g
    using free [of g] that L by (simp add: later_def) blast
  ultimately show "forkable ?s"
    using space own pte f(2) unfolding forkable_def window_unmapped_def us by blast
qed


section \<open>A machine for the witness\<close>

text \<open>
  A PML4, a page directory pointer table and a page directory, of which entry 0 maps the first 2 MiB to themselves,
  entry 40 leads to the empty page table of the window and entry 2 to the program's page table, which has one page; 64
  frames, the first seven in use.
\<close>

definition clone_example :: kpaging where
  "clone_example =
     set_entry 0x5000 0 0x6007 (set_entry 0x3000 2 0x5007 (set_entry 0x3000 40 0x4003 (set_entry 0x3000 0 0x83
       (set_entry 0x2000 0 0x3007 (set_entry 0x1000 0 0x2007
         (boot_example\<lparr>frame_bitmap := (\<lambda>i. if i = 0 then 0x7F else 0), total_frames := 64\<rparr>))))))"

lemma clone_example_fields:
  "cr3 clone_example = 0x1000" "pml4 clone_example = 0x1000" "total_frames clone_example = 64"
  by (simp_all add: clone_example_def boot_example_def)

lemma clone_example_used:
  assumes "f \<in> {0, 0x1000, 0x2000, 0x3000, 0x4000, 0x5000, 0x6000}"
  shows "frame_used clone_example f"
proof -
  have "frame_used clone_example f =
    frame_used (boot_example\<lparr>frame_bitmap := (\<lambda>i. if i = 0 then 0x7F else 0), total_frames := 64\<rparr>) f"
    by (simp add: clone_example_def)
  then show ?thesis using assms by (auto simp: frame_used_def page_aligned_def bitmap_test_def)
qed

lemma clone_example_entry:
  assumes "page_aligned t" and "i < 512"
  shows "get_entry t i clone_example =
    (if t = 0x1000 \<and> i = 0 then 0x2007 else if t = 0x2000 \<and> i = 0 then 0x3007 else if t = 0x3000 \<and> i = 0 then 0x83
     else if t = 0x3000 \<and> i = 40 then 0x4003 else if t = 0x3000 \<and> i = 2 then 0x5007
     else if t = 0x5000 \<and> i = 0 then 0x6007 else 0)"
proof -
  have "get_entry t i (boot_example\<lparr>frame_bitmap := (\<lambda>i. if i = 0 then 0x7F else 0), total_frames := 64\<rparr>) = 0"
    by (simp add: zero_entry boot_example_def)
  then show ?thesis using assms by (simp add: clone_example_def get_set_entry page_aligned_def)
qed

text \<open>A path has at most three indices.\<close>

lemma valid_path_cases:
  assumes "valid_path p"
  obtains "p = []" | i where "p = [i]" "i < 512" | i j where "p = [j, i]" "i < 512" "j < 512"
    | i j k where "p = [k, j, i]" "i < 512" "j < 512" "k < 512"
  using assms unfolding valid_path_def
  by (cases p rule: list.exhaust; (cases "tl p"; (cases "tl (tl p)"; cases "tl (tl (tl p))")?)?) auto

lemma clone_example_tables:
  assumes "valid_path p"
  shows "table_at clone_example p =
    (if p = [] then Some 0x1000 else if p = [0] then Some 0x2000 else if p = [0, 0] then Some 0x3000
     else if p = [40, 0, 0] then Some 0x4000 else if p = [2, 0, 0] then Some 0x5000 else None)"
proof -
  note ent = clone_example_entry [unfolded page_aligned_def]
  have t1: "table_at clone_example [i] = (if i = 0 then Some 0x2000 else None)" if "i < 512" for i
    using that by (simp add: ent clone_example_fields pte_present_def pte_huge_def)
  have t2: "table_at clone_example [j, i] = (if i = 0 \<and> j = 0 then Some 0x3000 else None)" if "i < 512" "j < 512" for i j
    using that unfolding table_at.simps(2) [of _ j] t1 [OF that(1)] by (simp add: ent pte_present_def pte_huge_def)
  have t3: "table_at clone_example [k, j, i] =
    (if i = 0 \<and> j = 0 \<and> k = 40 then Some 0x4000 else if i = 0 \<and> j = 0 \<and> k = 2 then Some 0x5000 else None)"
    if "i < 512" "j < 512" "k < 512" for i j k
    using that unfolding table_at.simps(2) [of _ k] t2 [OF that(1,2)] by (simp add: ent pte_present_def pte_huge_def)
  from valid_path_cases [OF assms] show ?thesis
    by cases (simp_all only: t1 t2 t3, simp_all add: clone_example_fields)
qed

lemma clone_example_ok: "space_ok clone_example" "pt_ok clone_example"
proof -
  show ok: "pt_ok clone_example"
    unfolding pt_ok_def
  proof (intro conjI allI impI)
    fix p t assume "valid_path p" "table_at clone_example p = Some t"
    then show "frame_used clone_example t" "t \<noteq> 0" "t < IDENTITY_MAP_LIMIT"
      by (auto simp: clone_example_tables clone_example_used split: if_splits)
  next
    fix p q t assume "valid_path p" "valid_path q" "table_at clone_example p = Some t" "table_at clone_example q = Some t"
    then show "p = q" by (simp add: clone_example_tables split: if_splits)
  next
    fix p t i assume p: "valid_path (i # p)" "table_at clone_example p = Some t" "pte_present (get_entry t i clone_example)"
      "pte_huge (get_entry t i clone_example)"
    then have "valid_path p" "i < 512" by (simp_all add: valid_path_Cons)
    then show "length p = 2" "get_entry t i clone_example AND 0x1FF000 = 0"
      using p by (auto simp: clone_example_tables clone_example_entry page_aligned_def pte_present_def pte_huge_def split: if_splits)
  qed
  have "frames_ok clone_example"
    using clone_example_used [of 0] by (simp add: frames_ok_def clone_example_fields frame_used_def)
  moreover have "PD_INDEX KERNEL_KMAP_WINDOW # pd_path KERNEL_KMAP_WINDOW = [40, 0, 0]"
    by (simp add: pd_path_def PML4_INDEX_def PDP_INDEX_def PD_INDEX_def)
  ultimately show "space_ok clone_example"
    using ok by (simp add: space_ok_def window_ready_def paging_get_pt_tree clone_example_fields clone_example_tables valid_path_def del: table_at.simps)
qed

lemma clone_example_direct:
  assumes "unat f < 0x40000" and "page_aligned f"
  shows "direct clone_example f"
  unfolding direct_def
proof (intro allI impI)
  fix k :: u64 assume k: "unat k < 4096"
  let ?v = "f + k"
  have v: "unat ?v < 2 ^ 21" using assms k by (simp add: unat_add_small)
  then have idx: "PML4_INDEX ?v = 0" "PDP_INDEX ?v = 0" "PD_INDEX ?v = 0"
    unfolding PML4_INDEX_def PDP_INDEX_def PD_INDEX_def unat_eq_iff unat_index by simp_all
  have "unat (?v AND 0x1FFFFF) = unat ?v" using unat_and_mask [of ?v 21] v by (simp add: mask_eq_exp_minus_1)
  then have "?v AND 0x1FFFFF = ?v" by (simp only: unat_eq_iff)
  then show "paging_virt_to_phys ?v clone_example = ?v"
    unfolding virt_to_phys_tree [OF clone_example_ok(2)] pd_path_def idx
    by (simp add: clone_example_tables clone_example_entry valid_path_def page_aligned_def pte_present_def pte_huge_def del: table_at.simps)
qed

lemma clone_example_user:
  assumes "v \<in> user_space clone_example"
  shows "PT_INDEX v # pt_path v = [0, 2, 0, 0]" and "paging_virt_to_phys v clone_example = 0x6000 + (v AND (PAGE_SIZE - 1))"
    and "page_of (paging_virt_to_phys v clone_example) = 0x6000"
proof -
  note e = clone_example_entry [unfolded page_aligned_def] and t = clone_example_tables [unfolded valid_path_def]
  have u: "source clone_example [] (PML4_INDEX v)" "source clone_example [PML4_INDEX v] (PDP_INDEX v)"
    "source clone_example (pd_path v) (PD_INDEX v)" "source clone_example (pt_path v) (PT_INDEX v)"
    using assms by (simp_all add: user_space_def pd_path_def)
  have i4: "PML4_INDEX v = 0" using u(1) by (auto simp: source_def copies_def t e pte_present_def simp del: table_at.simps split: if_splits)
  have i3: "PDP_INDEX v = 0" using u(2) by (auto simp: source_def copies_def t e i4 pte_present_def simp del: table_at.simps split: if_splits)
  have i2: "PD_INDEX v = 2" using u(3)
    by (auto simp: source_def copies_def t e i4 i3 pd_path_def pte_present_def pte_user_def pte_huge_def simp del: table_at.simps split: if_splits)
  have i1: "PT_INDEX v = 0" using u(4)
    by (auto simp: source_def copies_def t e i4 i3 i2 pd_path_def pte_present_def simp del: table_at.simps split: if_splits)
  show p: "PT_INDEX v # pt_path v = [0, 2, 0, 0]" by (simp add: i4 i3 i2 i1 pd_path_def)
  then have "src_entry clone_example (pt_path v) (PT_INDEX v) AND PTE_ADDR_MASK = 0x6000"
    by (simp add: t e del: table_at.simps)
  then show "paging_virt_to_phys v clone_example = 0x6000 + (v AND (PAGE_SIZE - 1))"
    "page_of (paging_virt_to_phys v clone_example) = 0x6000"
    using user_space_page [OF clone_example_ok(2) assms] by simp_all
qed

lemma clone_example_forkable: "forkable clone_example"
proof -
  let ?s = clone_example
  have win: "window_unmapped ?s"
    unfolding window_unmapped_def paging_get_pt_tree(2) [OF clone_example_ok(2)]
    by (simp add: pd_path_def PML4_INDEX_def PDP_INDEX_def PD_INDEX_def PT_INDEX_def clone_example_tables clone_example_entry
      valid_path_def page_aligned_def del: table_at.simps)
  have tab: "\<not> table_frame ?s 0x6000" by (auto simp: table_frame_def clone_example_tables split: if_splits)
  have "user_byte ?s (paging_virt_to_phys v ?s)" if "v \<in> user_space ?s" for v
  proof -
    have "paging_virt_to_phys v ?s \<noteq> 0" using clone_example_user(3) [OF that] by (auto simp: page_of_def)
    then show ?thesis using tab by (simp add: user_byte_def clone_example_user(3) [OF that] clone_example_used)
  qed
  moreover have "inj_on (\<lambda>v. paging_virt_to_phys v ?s) (user_space ?s)"
  proof (rule inj_onI)
    fix v w assume v: "v \<in> user_space ?s" "w \<in> user_space ?s" "paging_virt_to_phys v ?s = paging_virt_to_phys w ?s"
    then have "same_page v w" "v AND (PAGE_SIZE - 1) = w AND (PAGE_SIZE - 1)"
      using clone_example_user(1,2) [OF v(1)] clone_example_user(1,2) [OF v(2)] by (simp_all add: same_page_paths)
    moreover have "unat v < 2 ^ 48" "unat w < 2 ^ 48" using v(1,2) by (simp_all only: user_space_def mem_Collect_eq)
    ultimately show "v = w" using same_address by blast
  qed
  ultimately have "owned ?s (user_space ?s)" by (simp add: owned_def)
  moreover have "direct ?s f" if "page_aligned f" "f div PAGE_SIZE < total_frames ?s" for f
  proof (rule clone_example_direct [OF _ that(1)])
    have "unat f div 4096 < 64" using that(2) by (simp add: clone_example_fields unat_less_iff unat_div)
    then show "unat f < 0x40000" by simp
  qed
  moreover have "direct ?s 0x6000" by (rule clone_example_direct) (simp_all add: page_aligned_def)
  ultimately show ?thesis
    using clone_example_ok win clone_example_user(3) unfolding forkable_def by simp
qed


end
