(* ===== verification/BootPaging.thy ===== *)
theory BootPaging
  imports UserPages
begin

unbundle bit_operations_syntax

text \<open>
  What \<^verbatim>\<open>paging_init\<close> of \<^verbatim>\<open>core/mm/paging.c\<close> makes of the machine that the boot code hands over.  \<open>boot_tables\<close> is the
  table tree that the assembly leaves: a PML4, a page directory pointer table and a page directory that maps the first
  4 MiB by two large pages.  \<open>identity s0 n s\<close> is the invariant of the loop that maps the rest, frame by frame, and
  \<open>available\<close> and \<open>reserved\<close> say which frames the memory map offers and which are kept back.
\<close>

section \<open>Extending the identity map\<close>

definition identity :: "'a kpaging_scheme \<Rightarrow> nat \<Rightarrow> 'a kpaging_scheme \<Rightarrow> bool" where
  "identity s0 n s \<longleftrightarrow> pt_ok s \<and> frames_ok s \<and> pml4 s = pml4 s0 \<and> cr3 s = cr3 s0 \<and> kpaging.more s = kpaging.more s0 \<and>
     (\<forall>f. frame_used s0 f \<longrightarrow> frame_used s f) \<and> (\<forall>f. frame_used s f \<longrightarrow> frame_used s0 f \<or> table_frame s f) \<and>
     tables_grow s0 s \<and> (\<forall>v. unat v < 2 ^ 48 \<longrightarrow> paging_virt_to_phys v s = (if unat v < n * 4096 then v else 0)) \<and>
     (\<exists>pd. table_at s [0, 0] = Some pd) \<and> (\<forall>k. 2 \<le> k \<longrightarrow> k * 512 < n \<longrightarrow> table_at s [of_nat k, 0, 0] \<noteq> None) \<and>
     card (free_tables s0) + 2 \<le> card (free_tables s) + (n + 511) div 512"

lemma identityD:
  assumes "identity s0 n s"
  shows "pt_ok s" and "frames_ok s" and "pml4 s = pml4 s0" and "cr3 s = cr3 s0" and "kpaging.more s = kpaging.more s0"
    and "frame_used s0 f \<Longrightarrow> frame_used s f" and "frame_used s f \<Longrightarrow> frame_used s0 f \<or> table_frame s f"
    and "tables_grow s0 s" and "unat v < 2 ^ 48 \<Longrightarrow> paging_virt_to_phys v s = (if unat v < n * 4096 then v else 0)"
    and "\<exists>pd. table_at s [0, 0] = Some pd" and "2 \<le> k \<Longrightarrow> k * 512 < n \<Longrightarrow> table_at s [of_nat k, 0, 0] \<noteq> None"
    and "card (free_tables s0) + 2 \<le> card (free_tables s) + (n + 511) div 512"
  using assms unfolding identity_def by blast+

text \<open>The indices of the frames in the first GiB.\<close>

lemma low_indices:
  assumes "unat v div 4096 = n" and "n < 2 ^ 18"
  shows "pd_path v = [0, 0]" and "PD_INDEX v = of_nat (n div 512)" and "PT_INDEX v = of_nat (n mod 512)"
proof -
  have pow: "(2::nat) ^ 12 = 4096" "(2::nat) ^ 21 = 4096 * 512" "(2::nat) ^ 30 = 4096 * 512 * 512" "(2::nat) ^ 39 = 4096 * 512 * 512 * 512"
    by simp_all
  have n: "n div 512 < 512" using assms(2) by (simp add: div_less_iff_less_mult)
  have "unat (of_nat (n div 512) :: u64) = n div 512" "unat (of_nat (n mod 512) :: u64) = n mod 512"
    using n by (intro unat_of_nat_small; simp)+
  then show "PD_INDEX v = of_nat (n div 512)" "PT_INDEX v = of_nat (n mod 512)"
    unfolding PD_INDEX_def PT_INDEX_def unat_eq_iff unat_index pow div_mult2_eq assms(1) using n by simp_all
  show "pd_path v = [0, 0]"
    unfolding pd_path_def PML4_INDEX_def PDP_INDEX_def list.inject unat_eq_iff unat_index pow div_mult2_eq assms(1)
    using n by simp
qed

text \<open>With its page directory in place, mapping a page needs at most a page table.\<close>

lemma map_page_at:
  assumes ok: "pt_ok s" and pd: "table_at s (pd_path v) = Some pd"
    and nh: "\<not> (pte_present (get_entry pd (PD_INDEX v) s) \<and> pte_huge (get_entry pd (PD_INDEX v) s))"
    and al: "v AND (PAGE_SIZE - 1) = 0" "phys AND (PAGE_SIZE - 1) = 0"
  shows "paging_map_page v phys flags s =
    (let (pt, s1) = get_or_create_table pd (PD_INDEX v) (PAGE_PRESENT OR PAGE_WRITABLE) s
     in if pt = 0 then (- 1, s1) else (0, set_entry pt (PT_INDEX v) ((phys AND PTE_ADDR_MASK) OR flags) s1))"
proof -
  obtain pdpt where pdpt: "table_at s [PML4_INDEX v] = Some pdpt"
    and e3: "pte_present (get_entry pdpt (PDP_INDEX v) s)" "\<not> pte_huge (get_entry pdpt (PDP_INDEX v) s)"
      "get_entry pdpt (PDP_INDEX v) s AND PTE_ADDR_MASK = pd"
    using pd by (auto simp: Let_def pd_path_def split: option.splits if_splits)
  then have e4: "pte_present (get_entry (pml4 s) (PML4_INDEX v) s)" "\<not> pte_huge (get_entry (pml4 s) (PML4_INDEX v) s)"
    "get_entry (pml4 s) (PML4_INDEX v) s AND PTE_ADDR_MASK = pdpt"
    by (auto simp: Let_def split: if_splits)
  have nz: "pdpt \<noteq> 0" "pd \<noteq> 0"
    using pt_ok_table(2) [OF ok _ pdpt] pt_ok_table(2) [OF ok pd_path_valid(1) pd] by (auto simp: valid_path_def)
  have g4: "get_or_create_table (pml4 s) (PML4_INDEX v) fl s = (pdpt, s)" for fl
    using e4 by (simp add: get_or_create_table_def table_entry_virt_def del: PTE_ADDR_MASK_def)
  have g3: "get_or_create_table pdpt (PDP_INDEX v) fl s = (pd, s)" for fl
    using e3 by (simp add: get_or_create_table_def table_entry_virt_def del: PTE_ADDR_MASK_def)
  show ?thesis
    using al nh unfolding paging_map_page_def paging_map_page_flags_def g4
    by (simp add: g3 nz Let_def if_not_P [OF nh] del: PTE_ADDR_MASK_def PAGE_SIZE_def PAGE_PRESENT_def PAGE_WRITABLE_def)
qed

lemma get_or_create_table_uses:
  assumes ok: "pt_ok s" "frames_ok s" and path: "valid_path (i # p)" "table_at s p = Some t"
    and nh: "\<not> (pte_present (get_entry t i s) \<and> pte_huge (get_entry t i s))"
    and flags: "linkable flags" and step: "get_or_create_table t i flags s = (c, s')"
  shows "frame_used s' f \<Longrightarrow> frame_used s f \<or> table_frame s' f" and "c = 0 \<Longrightarrow> s' = s \<and> free_tables s = {}"
    and "pte_present (get_entry t i s) \<Longrightarrow> s' = s" and "card (free_tables s) \<le> Suc (card (free_tables s'))"
proof -
  have at: "c \<noteq> 0 \<Longrightarrow> table_frame s' c"
    using get_or_create_table_kept(2) [OF ok path flags step] path(1) unfolding table_frame_def by blast
  have "(frame_used s' f \<longrightarrow> frame_used s f \<or> table_frame s' f) \<and> (c = 0 \<longrightarrow> s' = s \<and> free_tables s = {}) \<and>
    (pte_present (get_entry t i s) \<longrightarrow> s' = s) \<and> card (free_tables s) \<le> Suc (card (free_tables s'))"
  proof (cases "pte_present (get_entry t i s)")
    case True
    then have "s' = s" using step nh by (auto simp: get_or_create_table_def Let_def)
    moreover have "c \<noteq> 0" by (rule get_or_create_table_succeeds(1) [OF ok path nh _ step]) (simp add: True)
    ultimately show ?thesis by simp
  next
    case False
    obtain d s1 where alloc: "paging_alloc_table s = (d, s1)" by fastforce
    show ?thesis
    proof (cases "d = 0")
      case True
      then have "free_tables s = {}" using alloc_table_succeeds [OF ok(2)] alloc by (metis fst_conv)
      moreover have "s1 = s" using True alloc_table_fails ok(2) alloc by blast
      ultimately show ?thesis using True False alloc step by (auto simp: get_or_create_table_def)
    next
      case d: False
      then have "takes_frame s d s1" using alloc_table_takes ok(2) alloc by blast
      then have "frame_used s1 f \<longleftrightarrow> f = d \<or> frame_used s f" by (rule takes_frame_used)
      moreover have c: "c = d" "s' = set_entry t i (d OR flags) s1"
        using False alloc d step by (auto simp: get_or_create_table_def)
      ultimately show ?thesis using at d False alloc_table_consumes [OF ok(2) alloc] by auto
    qed
  qed
  then show "frame_used s' f \<Longrightarrow> frame_used s f \<or> table_frame s' f" and "c = 0 \<Longrightarrow> s' = s \<and> free_tables s = {}"
    and "pte_present (get_entry t i s) \<Longrightarrow> s' = s" and "card (free_tables s) \<le> Suc (card (free_tables s'))" by blast+
qed

lemma frame_number:
  assumes "n < 2 ^ 18"
  shows "unat (of_nat n * PAGE_SIZE) = n * 4096" and "(of_nat n * PAGE_SIZE) AND (PAGE_SIZE - 1) = 0"
    and "(of_nat n * PAGE_SIZE) AND PTE_ADDR_MASK = of_nat n * PAGE_SIZE"
proof -
  have n: "unat (of_nat n :: u64) = n" using assms by (intro unat_of_nat_small) simp
  show u: "unat (of_nat n * PAGE_SIZE) = n * 4096" using n assms by (simp add: unat_word_ariths)
  have al: "page_aligned (of_nat n * PAGE_SIZE)" using u by (simp only: page_aligned_def) simp
  then show "(of_nat n * PAGE_SIZE) AND (PAGE_SIZE - 1) = 0" by (rule aligned_low)
  show "(of_nat n * PAGE_SIZE) AND PTE_ADDR_MASK = of_nat n * PAGE_SIZE"
    by (rule aligned_low_mask [OF al]) (use u assms in simp)
qed

lemma page_and_offset:
  assumes "unat v div 4096 = n" and "n < 2 ^ 18"
  shows "of_nat n * PAGE_SIZE + (v AND (PAGE_SIZE - 1)) = v"
proof -
  have m: "unat (v AND (PAGE_SIZE - 1)) = unat v mod 4096" using unat_and_mask [of v 12] by (simp add: mask_eq_exp_minus_1)
  have "unat v = n * 4096 + unat v mod 4096" using div_mult_mod_eq [of "unat v" 4096] assms(1) by simp
  then show ?thesis
    unfolding unat_eq_iff using frame_number(1) [OF assms(2)] assms(2) m by (subst unat_add_small) simp_all
qed

text \<open>One frame more.\<close>

lemma identity_step:
  assumes I: "identity s0 n s" and n: "1024 \<le> n" "n < 16384"
    and step: "paging_map_page (of_nat n * PAGE_SIZE) (of_nat n * PAGE_SIZE) (PAGE_PRESENT OR PAGE_WRITABLE) s = (r, s')"
  shows "if r = 0 then identity s0 (Suc n) s' else identity s0 n s' \<and> card (free_tables s0) < 30"
proof -
  let ?v = "of_nat n * PAGE_SIZE :: u64" and ?fl = "PAGE_PRESENT OR PAGE_WRITABLE"
  note i = identityD [OF I]
  have n18: "n < 2 ^ 18" using n by simp
  note v = frame_number [OF n18]
  have vd: "unat ?v div 4096 = n" unfolding v(1) by simp
  note idx = low_indices [OF vd n18]
  obtain pd where pd0: "table_at s [0, 0] = Some pd" using i(10) by blast
  then have pd: "table_at s (pd_path ?v) = Some pd" unfolding idx(1) .
  have vp: "valid_path (PD_INDEX ?v # pd_path ?v)" by simp
  have nh: "\<not> (pte_present (get_entry pd (PD_INDEX ?v) s) \<and> pte_huge (get_entry pd (PD_INDEX ?v) s))"
  proof
    assume h: "pte_present (get_entry pd (PD_INDEX ?v) s) \<and> pte_huge (get_entry pd (PD_INDEX ?v) s)"
    let ?w = "?v + 1" and ?e = "get_entry pd (PD_INDEX ?v) s"
    have w: "unat ?w = n * 4096 + 1" using v(1) n by (simp add: unat_add_small)
    have "unat ?w div 4096 = n" unfolding w by simp
    note widx = low_indices [OF this n18]
    have "paging_virt_to_phys ?w s = (?e AND PTE_ADDR_MASK) + (?w AND 0x1FFFFF)"
      unfolding virt_to_phys_tree [OF i(1)] widx(1,2) using pd0 h unfolding idx(2) by (simp add: Let_def)
    moreover have "paging_virt_to_phys ?w s = 0" using i(9) [of ?w] n unfolding w by simp
    ultimately have z: "(?e AND PTE_ADDR_MASK) + (?w AND 0x1FFFFF) = 0" by simp
    have "odd (Suc (n * 4096) mod 2097152)" by (simp add: dvd_mod_iff)
    then have "odd (unat (?w AND 0x1FFFFF))" using unat_and_mask [of ?w 21] w by (simp add: mask_eq_exp_minus_1)
    then have "bit (?w AND 0x1FFFFF) 0" by (metis bit_0 bit_unsigned_iff unsigned_eq_0_iff bit_imp_possible_bit possible_bit_word)
    moreover have "\<not> bit (?e AND PTE_ADDR_MASK) 0" by (simp only: bit_and_iff PTE_ADDR_MASK_def) simp
    ultimately have "odd ((?e AND PTE_ADDR_MASK) + (?w AND 0x1FFFFF))" by (simp add: bit_0)
    then show False unfolding z by simp
  qed
  obtain pt s1 where g: "get_or_create_table pd (PD_INDEX ?v) ?fl s = (pt, s1)" by fastforce
  have run: "(r, s') = (if pt = 0 then (- 1, s1) else (0, set_entry pt (PT_INDEX ?v) (?v OR ?fl) s1))"
    using step unfolding map_page_at [OF i(1) pd nh v(2,2)] g v(3) by simp
  note path = vp pd
  have fl: "linkable ?fl" by (simp add: linkable_def pte_present_def pte_huge_def)
  note k = get_or_create_table_kept [OF i(1,2) path fl g] and w = get_or_create_table_grow [OF i(1,2) path fl g]
    and u = get_or_create_table_uses [OF i(1,2) path nh fl g]
  have ok1: "pt_ok s1" "frames_ok s1" using k(1) by (simp_all add: tables_kept_def)
  have new: "n mod 512 = 0" if "\<not> pte_present (get_entry pd (PD_INDEX ?v) s)"
  proof (rule ccontr)
    assume m: "n mod 512 \<noteq> 0"
    have d: "n div 512 * 512 + n mod 512 = n" by (rule div_mult_mod_eq)
    have "n div 512 * 512 < n" using m d by linarith
    moreover have "2 \<le> n div 512" using n(1) by (simp add: less_eq_div_iff_mult_less_eq)
    ultimately have "table_at s [of_nat (n div 512), 0, 0] \<noteq> None" using i(11) by blast
    then show False using that pd0 unfolding idx(2) by (simp add: Let_def split: if_splits)
  qed
  show ?thesis
  proof (cases "pt = 0")
    case True
    then have s': "s' = s" "r = - 1" and e: "free_tables s = {}" using run u(2) by simp_all
    have "\<not> pte_present (get_entry pd (PD_INDEX ?v) s)"
      using get_or_create_table_succeeds(1) [OF i(1,2) path nh _ g] True by blast
    then have "n mod 512 = 0" by (rule new)
    then obtain m where "n = m * 512" by (metis mod_0_imp_dvd dvd_def mult.commute)
    then have "(n + 511) div 512 < 32" using n(2) by simp
    then show ?thesis using I i(12) e s' by simp
  next
    case False
    let ?s = "set_entry pt (PT_INDEX ?v) (?v OR ?fl) s1"
    have s': "s' = ?s" "r = 0" using run False by simp_all
    have at: "table_at s1 (PD_INDEX ?v # pd_path ?v) = Some pt" by (rule k(2) [OF False])
    have len: "length (PD_INDEX ?v # pd_path ?v) = 3" by simp
    have ok': "pt_ok ?s" by (rule leaf_pt_ok [OF ok1(1) at vp len index_less(4)])
    have tat: "table_at ?s q = table_at s1 q" if "valid_path q" for q
      by (rule leaf_table_at [OF ok1(1) at vp len index_less(4) that])
    have tf: "table_frame ?s f = table_frame s1 f" for f using tat unfolding table_frame_def by metis
    have grow: "tables_grow s0 ?s"
      using tables_grow_trans [OF tables_grow_trans [OF i(8) w i(6)] leaf_grow [OF ok1(1) at]] k(1) i(6)
      unfolding tables_kept_def by blast
    have used: "frame_used s0 f \<or> table_frame ?s f" if "frame_used ?s f" for f
    proof -
      have "frame_used s f \<or> table_frame s1 f" using u(1) that by simp
      then show ?thesis using i(7) w unfolding tf tables_grow_def by blast
    qed
    have e: "pte_present (?v OR ?fl)" "(?v OR ?fl) AND PTE_ADDR_MASK = ?v"
      using link_entry(1,3) [OF v(3) fl] by simp_all
    have virt: "paging_virt_to_phys x ?s = (if unat x < Suc n * 4096 then x else 0)" if x: "unat x < 2 ^ 48" for x
    proof (cases "same_page ?v x")
      case True
      have "unat ?v < 2 ^ 48" unfolding v(1) using n by simp
      then have d: "unat x div 4096 = n" using True same_page_number x vd by metis
      have "?v + (x AND (PAGE_SIZE - 1)) = x" by (rule page_and_offset [OF d n18])
      moreover have "unat x < Suc n * 4096" using d by (simp add: div_less_iff_less_mult [symmetric])
      ultimately show ?thesis unfolding leaf_virt [OF ok1(1) at] using True e by simp
    next
      case False
      have "unat ?v < 2 ^ 48" unfolding v(1) using n by simp
      then have "unat x div 4096 \<noteq> n" using False same_page_number x vd by metis
      then have "unat x < Suc n * 4096 \<longleftrightarrow> unat x < n * 4096" by (simp add: div_less_iff_less_mult [symmetric]) linarith
      then show ?thesis
        unfolding leaf_virt [OF ok1(1) at] using False i(9) [OF x] k(1) by (simp add: tables_kept_def)
    qed
    have keep: "table_at ?s q = Some t" if "valid_path q" "table_at s q = Some t" for q t
      using that k(1) tat unfolding tables_kept_def by simp
    have "valid_path [0, 0]" by (simp add: valid_path_def)
    then have pd': "\<exists>pd. table_at ?s [0, 0] = Some pd" using keep pd0 by blast
    have pts: "table_at ?s [of_nat k, 0, 0] \<noteq> None" if k: "2 \<le> k" "k * 512 < Suc n" for k
    proof (cases "k * 512 < n")
      case True
      then have "k < 512" using n by simp
      then have "(of_nat k :: u64) < 512" by (simp add: unat_less_iff unat_of_nat_small)
      then have "valid_path [of_nat k, 0, 0]" by (simp add: valid_path_def)
      then show ?thesis using i(11) [OF k(1) True] keep by blast
    next
      case False
      then have "n = k * 512" using k(2) by simp
      then have "k = n div 512" by simp
      then have "PD_INDEX ?v # pd_path ?v = [of_nat k, 0, 0]" using idx by simp
      then show ?thesis using tat [OF vp] at by simp
    qed
    have "card (free_tables s) + (n + 511) div 512 \<le> card (free_tables s1) + (Suc n + 511) div 512"
    proof (cases "pte_present (get_entry pd (PD_INDEX ?v) s)")
      case True
      then have "s1 = s" by (rule u(3))
      moreover have "(n + 511) div 512 \<le> (Suc n + 511) div 512" by (rule div_le_mono) simp
      ultimately show ?thesis by simp
    next
      case absent: False
      note u(4)
      moreover obtain m where "n = m * 512" using new [OF absent] by (metis mod_0_imp_dvd dvd_def mult.commute)
      ultimately show ?thesis by simp
    qed
    then have "card (free_tables s0) + 2 \<le> card (free_tables ?s) + (Suc n + 511) div 512" using i(12) by simp
    then have "identity s0 (Suc n) ?s"
      using ok' ok1(2) i(3-6) k(1) used grow virt pd' pts unfolding identity_def tables_kept_def
      by (simp del: table_at.simps)
    then show ?thesis using s' by simp
  qed
qed

lemma identity_loop:
  assumes "identity s0 n s" and "1024 \<le> n" and "n \<le> 16384"
  shows "\<exists>r s' m. for_status (\<lambda>f s. Some (paging_map_page (of_nat f * PAGE_SIZE) (of_nat f * PAGE_SIZE) (PAGE_PRESENT OR PAGE_WRITABLE) s))
      [n..<16384] s = Some (r, s') \<and> identity s0 m s' \<and> 1024 \<le> m \<and> m \<le> 16384 \<and> (30 \<le> card (free_tables s0) \<longrightarrow> m = 16384)"
  using assms
proof (induction "16384 - n" arbitrary: n s)
  case 0
  then show ?case by auto
next
  case (Suc k)
  then have n: "n < 16384" "k = 16384 - Suc n" by simp_all
  obtain r s1 where step: "paging_map_page (of_nat n * PAGE_SIZE) (of_nat n * PAGE_SIZE) (PAGE_PRESENT OR PAGE_WRITABLE) s = (r, s1)"
    by fastforce
  note one = identity_step [OF Suc.prems(1,2) n(1) step]
  have list: "[n..<16384] = n # [Suc n..<16384]" using n(1) by (rule upt_conv_Cons)
  show ?case
  proof (cases "r = 0")
    case True
    then have "identity s0 (Suc n) s1" using one by simp
    from Suc.hyps(1) [OF n(2) this] show ?thesis
      unfolding list for_status.simps step using True Suc.prems n(1) by simp
  next
    case False
    then show ?thesis unfolding list for_status.simps step using one Suc.prems(2,3) by auto
  qed
qed

section \<open>The tables of the boot code\<close>

definition boot_tables :: "'a kpaging_scheme \<Rightarrow> bool" where
  "boot_tables s \<longleftrightarrow>
     (\<forall>t \<in> {pml4_table s, pdp_table s, pd_table s}. page_aligned t \<and> t \<noteq> 0 \<and> t < kernel_end s \<and> t < IDENTITY_4K_START) \<and>
     distinct [pml4_table s, pdp_table s, pd_table s] \<and> cr3 s = pml4_table s \<and>
     (\<forall>i < 512. get_entry (pml4_table s) i s = (if i = 0 then pdp_table s OR 3 else 0) \<and>
        get_entry (pdp_table s) i s = (if i = 0 then pd_table s OR 3 else 0) \<and>
        get_entry (pd_table s) i s = (if i = 0 then 0x83 else if i = 1 then 0x200083 else 0))"

lemma boot_links:
  assumes B: "boot_tables s" and t: "t \<in> {pml4_table s, pdp_table s, pd_table s}"
  shows "pte_present (t OR 3)" and "\<not> pte_huge (t OR 3)" and "(t OR 3) AND PTE_ADDR_MASK = t"
proof -
  have al: "page_aligned t" "t < 0x400000" using B t unfolding boot_tables_def by auto
  have "t AND PTE_ADDR_MASK = t" by (rule aligned_low_mask [OF al(1)]) (use al(2) in \<open>simp add: unat_less_iff\<close>)
  then show "pte_present (t OR 3)" and "\<not> pte_huge (t OR 3)" and "(t OR 3) AND PTE_ADDR_MASK = t"
    using link_entry [of t 3] by (simp_all add: linkable_def pte_present_def pte_huge_def)
qed

lemma boot_entries:
  assumes "boot_tables s" and "i < 512"
  shows "get_entry (pml4_table s) i s = (if i = 0 then pdp_table s OR 3 else 0)"
    and "get_entry (pdp_table s) i s = (if i = 0 then pd_table s OR 3 else 0)"
    and "get_entry (pd_table s) i s = (if i = 0 then 0x83 else if i = 1 then 0x200083 else 0)"
  using assms unfolding boot_tables_def by blast+

lemma boot_table_at:
  assumes B: "boot_tables s" and p4: "pml4 s = pml4_table s" and v: "valid_path p"
  shows "table_at s p =
    (if p = [] then Some (pml4_table s) else if p = [0] then Some (pdp_table s) else if p = [0, 0] then Some (pd_table s) else None)"
proof -
  note lk = boot_links [OF B] and e = boot_entries [OF B]
  have t1: "table_at s [i] = (if i = 0 then Some (pdp_table s) else None)" if "i < 512" for i
    using lk [of "pdp_table s"] that by (simp add: p4 e(1)) (simp add: pte_present_def)
  have t2: "table_at s [j, i] = (if i = 0 \<and> j = 0 then Some (pd_table s) else None)" if "i < 512" "j < 512" for i j
    using lk [of "pd_table s"] that(2) unfolding table_at.simps(2) [of _ j] t1 [OF that(1)]
    by (simp add: e(2)) (simp add: pte_present_def)
  have t3: "table_at s [k, j, i] = None" if "i < 512" "j < 512" "k < 512" for i j k
    using that(3) unfolding table_at.simps(2) [of _ k] t2 [OF that(1,2)]
    by (simp add: e(3)) (simp add: pte_present_def pte_huge_def)
  consider "p = []" | i where "p = [i]" "i < 512" | i j where "p = [j, i]" "i < 512" "j < 512"
    | i j k where "p = [k, j, i]" "i < 512" "j < 512" "k < 512"
    using v unfolding valid_path_def
    by (cases p rule: list.exhaust; (cases "tl p"; (cases "tl (tl p)"; cases "tl (tl (tl p))")?)?) auto
  then show ?thesis
    by cases (simp_all only: t1 t2 t3, simp_all add: p4)
qed

lemma boot_identity:
  assumes B: "boot_tables s" and p4: "pml4 s = pml4_table s" and fr: "frames_ok s"
    and used: "\<And>t. t \<in> {pml4_table s, pdp_table s, pd_table s} \<Longrightarrow> frame_used s t"
  shows "identity s 1024 s"
proof -
  note at = boot_table_at [OF B p4]
  have dist: "distinct [pml4_table s, pdp_table s, pd_table s]" using B by (simp only: boot_tables_def)
  have low: "t \<noteq> 0 \<and> t < IDENTITY_4K_START" if "t \<in> {pml4_table s, pdp_table s, pd_table s}" for t
    using B that unfolding boot_tables_def by blast
  note e = boot_entries [OF B]
  have tabs: "t \<in> {pml4_table s, pdp_table s, pd_table s}" if "valid_path p" "table_at s p = Some t" for p t
    using that by (auto simp: at split: if_splits)
  have ok: "pt_ok s"
    unfolding pt_ok_def
  proof (intro conjI allI impI)
    fix p t assume p: "valid_path p" "table_at s p = Some t"
    note t = tabs [OF p]
    show "frame_used s t" "t \<noteq> 0" using used [OF t] low [OF t] by simp_all
    show "t < IDENTITY_MAP_LIMIT" by (rule less_trans [OF conjunct2 [OF low [OF t]]]) simp
  next
    fix p q t assume "valid_path p" "valid_path q" "table_at s p = Some t" "table_at s q = Some t"
    then show "p = q" using dist by (auto simp: at split: if_splits)
  next
    fix p t i assume p: "valid_path (i # p)" "table_at s p = Some t" "pte_present (get_entry t i s)" "pte_huge (get_entry t i s)"
    then have v: "valid_path p" "i < 512" by (simp_all add: valid_path_Cons)
    have "\<not> pte_huge (pdp_table s OR 3)" "\<not> pte_huge (pd_table s OR 3)" using boot_links(2) [OF B] by simp_all
    then have "p = [0, 0]" using p v at [OF v(1)] e [OF v(2)] by (auto simp: pte_present_def split: if_splits)
    then show "length p = 2" "get_entry t i s AND 0x1FF000 = 0" using p(2) v at [OF v(1)] e [OF v(2)] by auto
  qed
  have "table_frame s f \<Longrightarrow> frame_used s f" for f using used tabs unfolding table_frame_def by blast
  moreover have "paging_virt_to_phys v s = (if unat v < 1024 * 4096 then v else 0)" if v: "unat v < 2 ^ 48" for v
  proof (cases "unat v < 1024 * 4096")
    case True
    have n: "unat v div 4096 < 2 ^ 18" using True by simp
    have k: "unat v div 4096 div 512 < 2" using True by simp
    note idx = low_indices [OF refl n]
    have m: "unat (v AND 0x1FFFFF) = unat v mod 0x200000" using unat_and_mask [of v 21] by (simp add: mask_eq_exp_minus_1)
    have "unat v div 4096 div 512 = unat v div 0x200000" by (simp add: div_mult2_eq [symmetric])
    then have split: "unat v = unat v div 4096 div 512 * 0x200000 + unat (v AND 0x1FFFFF)"
      unfolding m using div_mult_mod_eq [of "unat v" "0x200000"] by simp
    have "unat v div 4096 div 512 = 0 \<or> unat v div 4096 div 512 = 1" using k by linarith
    then show ?thesis
    proof
      assume z: "unat v div 4096 div 512 = 0"
      then have "v AND 0x1FFFFF = v" using split by (simp add: unat_eq_iff)
      then show ?thesis
        using True unfolding virt_to_phys_tree [OF ok] idx(1,2) z
        by (simp add: at valid_path_def e(3) pte_present_def pte_huge_def del: table_at.simps)
    next
      assume z: "unat v div 4096 div 512 = 1"
      have "unat (0x200000 + (v AND 0x1FFFFF)) = 0x200000 + unat (v AND 0x1FFFFF)" unfolding m by (subst unat_add_small) (simp_all add: m)
      then have "0x200000 + (v AND 0x1FFFFF) = v" using split z by (simp add: unat_eq_iff)
      then show ?thesis
        using True unfolding virt_to_phys_tree [OF ok] idx(1,2) z
        by (simp add: at valid_path_def e(3) pte_present_def pte_huge_def del: table_at.simps)
    qed
  next
    case False
    have "\<not> pte_present (get_entry (pd_table s) (PD_INDEX v) s)" if "pd_path v = [0, 0]"
    proof -
      have "PDP_INDEX v = 0" "PML4_INDEX v = 0" using that by (simp_all add: pd_path_def)
      then have z: "unat v div 2 ^ 30 mod 512 = 0" "unat v div 2 ^ 39 mod 512 = 0"
        unfolding PDP_INDEX_def PML4_INDEX_def unat_eq_iff unat_index by simp_all
      have "unat v div 2 ^ 39 < 512" using v by simp
      then have "unat v div 2 ^ 30 div 512 = 0" using z(2) by (simp add: div_mult2_eq [symmetric])
      then have "unat v div 2 ^ 30 = 0" using z(1) by (metis div_mult_mod_eq mult_zero_left add_0)
      then have lt: "unat v div 2 ^ 21 < 512" by simp
      have "2 \<le> unat v div 2 ^ 21" using False by simp
      then have "2 \<le> unat (PD_INDEX v)" using lt unfolding PD_INDEX_def unat_index by simp
      then have "PD_INDEX v \<noteq> 0" "PD_INDEX v \<noteq> 1" by auto
      then show ?thesis using e(3) [OF index_less(3)] by (simp add: pte_present_def)
    qed
    then have "paging_virt_to_phys v s = 0"
      unfolding virt_to_phys_tree [OF ok] at [OF pd_path_valid(1)] by (simp add: pd_path_def)
    then show ?thesis using False by simp
  qed
  moreover have "table_at s [0, 0] = Some (pd_table s)" by (simp add: at valid_path_def del: table_at.simps)
  ultimately show ?thesis using ok fr unfolding identity_def by simp
qed

section \<open>The frames of the memory map\<close>

text \<open>Steps that only change the bitmap and the number of frames.\<close>

definition bitmap_only :: "'a kpaging_scheme \<Rightarrow> 'a kpaging_scheme \<Rightarrow> bool" where
  "bitmap_only s s' \<longleftrightarrow> (\<exists>b t. s' = s\<lparr>frame_bitmap := b, total_frames := t\<rparr>)"

lemma bitmap_onlyD:
  assumes "bitmap_only s s'"
  shows "mem s' = mem s" and "cr3 s' = cr3 s" and "pml4 s' = pml4 s" and "kpaging.more s' = kpaging.more s"
    and "pml4_table s' = pml4_table s" and "pdp_table s' = pdp_table s" and "pd_table s' = pd_table s"
    and "kernel_end s' = kernel_end s" and "stack_bottom s' = stack_bottom s" and "stack_top s' = stack_top s"
  using assms by (auto simp: bitmap_only_def)

lemma bitmap_only_refl: "bitmap_only s s"
  unfolding bitmap_only_def by (rule exI [of _ "frame_bitmap s"], rule exI [of _ "total_frames s"]) simp

lemma bitmap_only_total: "bitmap_only s (s\<lparr>total_frames := t\<rparr>)"
  unfolding bitmap_only_def by (rule exI [of _ "frame_bitmap s"], rule exI [of _ t]) simp

lemma bitmap_only_trans:
  assumes "bitmap_only s s'" and "bitmap_only s' s''"
  shows "bitmap_only s s''"
proof -
  from assms obtain b t b' t' where "s' = s\<lparr>frame_bitmap := b, total_frames := t\<rparr>"
    "s'' = s'\<lparr>frame_bitmap := b', total_frames := t'\<rparr>" unfolding bitmap_only_def by blast
  then have "s'' = s\<lparr>frame_bitmap := b', total_frames := t'\<rparr>" by simp
  then show ?thesis unfolding bitmap_only_def by blast
qed

lemma bitmap_only_bytes: "bitmap_only s (s\<lparr>frame_bitmap := b\<rparr>)"
  unfolding bitmap_only_def by (rule exI [of _ b], rule exI [of _ "total_frames s"]) simp

lemma bitmap_only_set: "bitmap_only s (bitmap_set f s)" "bitmap_only s (bitmap_clear f s)"
  by (simp_all add: bitmap_set_def bitmap_clear_def bitmap_only_bytes bitmap_only_refl)

lemma reserve_frames_only: "bitmap_only s (reserve_frames a b s)" "total_frames (reserve_frames a b s) = total_frames s"
proof -
  let ?f = "\<lambda>frame s. if of_nat frame < MAX_FRAMES then bitmap_set (of_nat frame) s else s"
  have "bitmap_only s (fold ?f fs s)" for fs
  proof (induction fs arbitrary: s)
    case (Cons f fs)
    have "bitmap_only s (?f f s)" by (simp add: bitmap_only_set(1) bitmap_only_refl)
    from bitmap_only_trans [OF this Cons.IH] show ?case by simp
  qed (simp add: bitmap_only_refl)
  moreover have "total_frames (fold ?f fs s) = total_frames s" for fs
  proof (induction fs arbitrary: s)
    case (Cons f fs)
    have "total_frames (?f f s) = total_frames s" by simp
    then show ?case using Cons.IH [of "?f f s"] by simp
  qed simp
  ultimately show "bitmap_only s (reserve_frames a b s)" "total_frames (reserve_frames a b s) = total_frames s"
    unfolding reserve_frames_def Let_def by blast+
qed

text \<open>Every free frame is below the number of frames, and that number is zero only if none is free.\<close>

definition managed :: "'a kpaging_scheme \<Rightarrow> bool" where
  "managed s \<longleftrightarrow> total_frames s \<le> MAX_FRAMES \<and>
     (\<forall>f. page_aligned f \<longrightarrow> \<not> frame_used s f \<longrightarrow> f div PAGE_SIZE < total_frames s) \<and>
     (total_frames s \<noteq> 0 \<longrightarrow> (\<exists>f. page_aligned f \<and> \<not> frame_used s f))"

text \<open>The frames that the loop over the region from \<open>a\<close> to \<open>b\<close> frees: it steps by whole pages from \<open>a\<close>, so that
  a frame which the region covers only in part is freed, too.\<close>

definition marked :: "u64 \<Rightarrow> u64 \<Rightarrow> u64 \<Rightarrow> bool" where
  "marked a b f \<longleftrightarrow> unat a < unat f + 4096 \<and> unat f + unat a mod 4096 < unat b"

lemma page_step:
  fixes a k :: nat
  shows "a < 4096 * k + 4096 \<longleftrightarrow> a div 4096 \<le> k" and "4096 * (a div 4096) + a mod 4096 = a"
proof -
  have "a < 4096 * k + 4096 \<longleftrightarrow> a < Suc k * 4096" by (simp add: algebra_simps)
  also have "\<dots> \<longleftrightarrow> a div 4096 < Suc k" by (rule div_less_iff_less_mult [symmetric]) simp
  finally show "a < 4096 * k + 4096 \<longleftrightarrow> a div 4096 \<le> k" by (simp only: less_Suc_eq_le)
qed simp

lemma mark_region_frees:
  assumes "unat b \<le> unat MAX_PHYS_MEM" and "managed s"
  shows "bitmap_only s (mark_region a b s) \<and> managed (mark_region a b s) \<and>
    (\<forall>f. page_aligned f \<longrightarrow> frame_used (mark_region a b s) f = (frame_used s f \<and> \<not> marked a b f))"
  using assms
proof (induction a b s rule: mark_region.induct)
  case (1 a b s)
  show ?case
  proof (cases "a < b")
    case False
    have "\<not> marked a b f" if al: "page_aligned f" for f
    proof
      assume m: "marked a b f"
      obtain k where f: "unat f = 4096 * k" using al unfolding page_aligned_def by (metis dvdE mod_0_imp_dvd)
      have "unat a div 4096 \<le> k" using m page_step(1) [of "unat a" k] unfolding marked_def f by (simp only:)
      then have "4096 * (unat a div 4096) \<le> unat f" unfolding f by simp
      then have "unat a \<le> unat f + unat a mod 4096" using page_step(2) [of "unat a"] by linarith
      then show False using False m unfolding marked_def by (simp add: unat_less_iff)
    qed
    moreover have "mark_region a b s = s" using False by (subst mark_region.simps) simp
    ultimately show ?thesis using 1(3) bitmap_only_refl by metis
  next
    case True
    let ?f = "a div PAGE_SIZE" and ?s1 = "if a div PAGE_SIZE + 1 > total_frames s then s\<lparr>total_frames := a div PAGE_SIZE + 1\<rparr> else s"
    have lt: "unat a < unat MAX_PHYS_MEM" using True 1(2) unfolding unat_less_iff by simp
    have fn: "unat ?f = unat a div 4096" by (simp add: unat_div)
    then have f: "?f < MAX_FRAMES" using lt unfolding unat_less_iff by simp
    let ?s2 = "bitmap_clear ?f ?s1"
    have run: "mark_region a b s = mark_region (a + PAGE_SIZE) b ?s2"
      using True f by (subst mark_region.simps) (simp add: Let_def del: PAGE_SIZE_def MAX_FRAMES_def)
    have "bitmap_only s ?s1" by (simp add: bitmap_only_total bitmap_only_refl)
    then have only: "bitmap_only s ?s2" by (rule bitmap_only_trans [OF _ bitmap_only_set(2)])
    have u1: "frame_used ?s1 g = frame_used s g" for g by (simp add: frame_used_def bitmap_test_def)
    have u2: "frame_used ?s2 g \<longleftrightarrow> g \<noteq> ?f * PAGE_SIZE \<and> frame_used s g" for g
      unfolding frame_used_clear [OF f] u1 ..
    have t2: "total_frames ?s2 = max (total_frames s) (?f + 1)" by (auto simp: max_def)
    have nw: "unat (?f + 1) = unat ?f + 1" using f by (simp add: unat_add_small unat_less_iff)
    have fa: "page_aligned (?f * PAGE_SIZE)" "(?f * PAGE_SIZE) div PAGE_SIZE = ?f" using frame_address [OF f] by blast+
    have man: "managed ?s2"
      unfolding managed_def
    proof (intro conjI allI impI)
      have "?f + 1 \<le> MAX_FRAMES" using f nw unfolding unat_less_iff unat_le_iff by simp
      then show "total_frames ?s2 \<le> MAX_FRAMES" using 1(3) unfolding t2 managed_def by simp
      fix g assume g: "page_aligned g" "\<not> frame_used ?s2 g"
      have "?f < ?f + 1" using nw unfolding unat_less_iff by simp
      then show "g div PAGE_SIZE < total_frames ?s2"
        using g 1(3) fa unfolding t2 u2 managed_def by (metis less_max_iff_disj)
    next
      show "\<exists>g. page_aligned g \<and> \<not> frame_used ?s2 g" using fa(1) u2 by blast
    qed
    note IH = 1(1) [OF True refl _ refl 1(2) man, unfolded not_le, OF f, folded run]
    have sum: "unat (a + PAGE_SIZE) = unat a + 4096" by (rule unat_add_page [OF f])
    have "marked a b g \<longleftrightarrow> g = ?f * PAGE_SIZE \<or> marked (a + PAGE_SIZE) b g" if g: "page_aligned g" for g
    proof -
      obtain k where k: "unat g = 4096 * k" using g unfolding page_aligned_def by (metis dvdE mod_0_imp_dvd)
      have "g = ?f * PAGE_SIZE \<longleftrightarrow> k = unat a div 4096" unfolding unat_eq_iff unat_frame_address [OF f] fn k by auto
      moreover have "unat a < unat b" using True by (simp add: unat_less_iff)
      ultimately show ?thesis
        unfolding marked_def sum k mod_add_self2 using page_step(1) [of "unat a" k] page_step(1) [of "unat a + 4096" k] page_step(2) [of "unat a"]
        by auto
    qed
    then show ?thesis
      using IH u2 bitmap_only_trans [OF only] by blast
  qed
qed

text \<open>An entry of the memory map, and the entries of the map at \<open>mmap\<close>.\<close>

definition region_frame :: "memory \<Rightarrow> u64 \<Rightarrow> u64 \<Rightarrow> bool" where
  "region_frame m e f \<longleftrightarrow> rd32 m (e + 16) = MULTIBOOT_MEMORY_AVAILABLE \<and> rd64 m e < MAX_PHYS_MEM \<and>
     marked (rd64 m e) (min MAX_PHYS_MEM (rd64 m e + rd64 m (e + 8))) f"

definition map_entry :: "memory \<Rightarrow> u64 \<Rightarrow> nat \<Rightarrow> u64" where
  "map_entry m mmap i = mmap + 16 + of_nat (i * unat (rd32 m (mmap + 8)))"

definition map_length :: "memory \<Rightarrow> u64 \<Rightarrow> nat" where
  "map_length m mmap = (unat (tag_size m mmap) - 16) div unat (rd32 m (mmap + 8))"

lemma map_entry_more:
  assumes "unat mmap < 2 ^ 34" and "0 < unat (rd32 m (mmap + 8))" and "i \<le> map_length m mmap"
  shows "map_entry m mmap i + ucast (rd32 m (mmap + 8)) \<le> mmap + ucast (tag_size m mmap) \<longleftrightarrow> i < map_length m mmap"
    and "map_entry m mmap i + ucast (rd32 m (mmap + 8)) = map_entry m mmap (Suc i)"
proof -
  let ?u = "unat (rd32 m (mmap + 8))" and ?t = "unat (tag_size m mmap)"
  have lt: "?u < 2 ^ 32" "?t < 2 ^ 32" using unsigned_less [of "rd32 m (mmap + 8)"] unsigned_less [of "tag_size m mmap"] by simp_all
  have "i * ?u \<le> ?t - 16" using assms(3) unfolding map_length_def by (meson div_times_less_eq_dividend le_trans mult_le_mono1)
  then have iu: "i * ?u < 2 ^ 32" using lt(2) by linarith
  have uc: "unat (ucast (rd32 m (mmap + 8)) :: u64) = ?u" "unat (ucast (tag_size m mmap) :: u64) = ?t"
    by (simp_all only: unsigned_ucast_eq) (rule take_bit_nat_eq_self; use lt in simp)+
  have n: "unat (of_nat (i * ?u) :: u64) = i * ?u" by (rule unat_of_nat_small) (use iu in simp)
  have e: "unat (map_entry m mmap i) = unat mmap + 16 + i * ?u"
    unfolding map_entry_def using assms(1) iu n by (simp add: unat_add_small)
  have "unat (map_entry m mmap i + ucast (rd32 m (mmap + 8))) = unat mmap + 16 + i * ?u + ?u"
    using assms(1) iu lt(1) by (subst unat_add_small) (simp_all add: e uc)
  moreover have "unat (mmap + ucast (tag_size m mmap)) = unat mmap + ?t"
    using assms(1) lt(2) by (subst unat_add_small) (simp_all add: uc)
  ultimately have "map_entry m mmap i + ucast (rd32 m (mmap + 8)) \<le> mmap + ucast (tag_size m mmap) \<longleftrightarrow> 16 + Suc i * ?u \<le> ?t"
    unfolding unat_le_iff by auto
  also have "\<dots> \<longleftrightarrow> Suc i * ?u \<le> ?t - 16" using assms(2) by auto
  also have "\<dots> \<longleftrightarrow> i < map_length m mmap"
    unfolding map_length_def using assms(2) less_eq_div_iff_mult_less_eq [of ?u "Suc i" "?t - 16"] by (simp only: Suc_le_eq)
  finally show "map_entry m mmap i + ucast (rd32 m (mmap + 8)) \<le> mmap + ucast (tag_size m mmap) \<longleftrightarrow> i < map_length m mmap" .
  show "map_entry m mmap i + ucast (rd32 m (mmap + 8)) = map_entry m mmap (Suc i)"
    by (simp add: map_entry_def)
qed

lemma cut_off: "(if m < x then m else x) = min m x" for m x :: u64
  by (auto simp: min_def)

lemma mmap_loop_frees:
  assumes "unat mmap < 2 ^ 34" and "0 < unat (rd32 m (mmap + 8))" and "i \<le> map_length m mmap" and "mem s = m" and "managed s"
  shows "\<exists>s'. mmap_loop mmap (map_entry m mmap i) (mmap + ucast (tag_size m mmap)) s = Some s' \<and> bitmap_only s s' \<and> managed s' \<and>
    (\<forall>f. page_aligned f \<longrightarrow> frame_used s' f =
       (frame_used s f \<and> \<not> (\<exists>j. i \<le> j \<and> j < map_length m mmap \<and> region_frame m (map_entry m mmap j) f)))"
  using assms(3-5)
proof (induction "map_length m mmap - i" arbitrary: i s)
  case 0
  then have i: "i = map_length m mmap" by simp
  have "mmap_loop mmap (map_entry m mmap i) (mmap + ucast (tag_size m mmap)) s = Some s"
    using map_entry_more(1) [OF assms(1,2) 0(2)] i 0(3) by (subst mmap_loop.simps) (simp add: Let_def)
  then show ?case using 0(4) i bitmap_only_refl by (intro exI [of _ s]) simp
next
  case (Suc k)
  then have i: "i < map_length m mmap" "k = map_length m mmap - Suc i" by simp_all
  let ?e = "map_entry m mmap i"
  let ?b = "rd64 m ?e" and ?l = "rd64 m (?e + 8)"
  let ?s1 = "if rd32 m (?e + 16) = MULTIBOOT_MEMORY_AVAILABLE \<and> ?b < MAX_PHYS_MEM then mark_region ?b (min MAX_PHYS_MEM (?b + ?l)) s else s"
  have lim: "unat (min MAX_PHYS_MEM (?b + ?l)) \<le> unat MAX_PHYS_MEM" unfolding unat_le_iff [symmetric] by (rule min.cobounded1)
  have one: "bitmap_only s ?s1 \<and> managed ?s1 \<and> (\<forall>f. page_aligned f \<longrightarrow> frame_used ?s1 f = (frame_used s f \<and> \<not> region_frame m ?e f))"
    using mark_region_frees [OF lim Suc.prems(3)] Suc.prems(3) bitmap_only_refl [of s] unfolding region_frame_def
    by (cases "rd32 m (?e + 16) = MULTIBOOT_MEMORY_AVAILABLE \<and> ?b < MAX_PHYS_MEM") (simp_all, blast)
  have m1: "mem ?s1 = m" using bitmap_onlyD(1) [of s ?s1] one Suc.prems(2) by simp
  have mn: "(if ?b + ?l > MAX_PHYS_MEM then MAX_PHYS_MEM else ?b + ?l) = min MAX_PHYS_MEM (?b + ?l)" by (rule cut_off)
  have run: "mmap_loop mmap ?e (mmap + ucast (tag_size m mmap)) s = mmap_loop mmap (map_entry m mmap (Suc i)) (mmap + ucast (tag_size m mmap)) ?s1"
    using map_entry_more [OF assms(1,2) Suc.prems(1)] i(1) Suc.prems(2) unfolding mmap_loop.simps [of mmap ?e] Let_def
    by (simp only: if_True mn)
  from Suc.hyps(1) [OF i(2) _ m1] one i(1) obtain s' where s': "mmap_loop mmap (map_entry m mmap (Suc i)) (mmap + ucast (tag_size m mmap)) ?s1 = Some s'"
    "bitmap_only ?s1 s'" "managed s'"
    "\<And>f. page_aligned f \<Longrightarrow> frame_used s' f =
       (frame_used ?s1 f \<and> \<not> (\<exists>j. Suc i \<le> j \<and> j < map_length m mmap \<and> region_frame m (map_entry m mmap j) f))" by auto
  have "frame_used s' f = (frame_used s f \<and> \<not> (\<exists>j. i \<le> j \<and> j < map_length m mmap \<and> region_frame m (map_entry m mmap j) f))"
    if "page_aligned f" for f
  proof -
    have first: "i \<le> j \<longleftrightarrow> j = i \<or> Suc i \<le> j" for j by auto
    have "(\<exists>j. i \<le> j \<and> j < map_length m mmap \<and> region_frame m (map_entry m mmap j) f) \<longleftrightarrow>
      region_frame m ?e f \<or> (\<exists>j. Suc i \<le> j \<and> j < map_length m mmap \<and> region_frame m (map_entry m mmap j) f)"
      unfolding first using i(1) by (simp add: ex_disj_distrib conj_disj_distribR)
    then show ?thesis using s'(4) [OF that] one that by blast
  qed
  then show ?case unfolding run using s'(1-3) bitmap_only_trans one by blast
qed

text \<open>The entries of the first map among the tags \<open>ts\<close>, the frames that they offer, and the frames that the kernel
  starts with: all of them when no map offers any.\<close>

definition memory_map :: "memory \<Rightarrow> u64 list \<Rightarrow> u64 list" where
  "memory_map m ts =
     (case filter (\<lambda>t. tag_type m t = MULTIBOOT_TAG_TYPE_MMAP) ts of
        [] \<Rightarrow> []
      | t # _ \<Rightarrow> if rd32 m (t + 8) \<ge> 24 then map (map_entry m t) [0..<map_length m t] else [])"

definition offered :: "memory \<Rightarrow> u64 list \<Rightarrow> u64 \<Rightarrow> bool" where
  "offered m ts f \<longleftrightarrow> (\<exists>e \<in> set (memory_map m ts). region_frame m e f)"

definition available :: "memory \<Rightarrow> u64 list \<Rightarrow> u64 \<Rightarrow> bool" where
  "available m ts f \<longleftrightarrow> (if \<exists>g. page_aligned g \<and> offered m ts g then offered m ts f else f < MAX_PHYS_MEM)"

definition multiboot_ok :: "memory \<Rightarrow> u64 \<Rightarrow> u64 list \<Rightarrow> bool" where
  "multiboot_ok m info ts \<longleftrightarrow> multiboot_info_valid m info \<and> unat info < 2 ^ 32 \<and> length ts < 2 ^ 32 \<and>
     tag_chain m (multiboot_first_tag info) (multiboot_tag_end m info) ts"

lemma unat_ucast_32: "unat (ucast (x :: u32) :: u64) = unat x" "unat x < 2 ^ 32" for x :: u32
proof -
  show "unat x < 2 ^ 32" using unsigned_less [of x] by simp
  then have "unat x < 2 ^ 64" by simp
  then show "unat (ucast x :: u64) = unat x" by (simp only: unsigned_ucast_eq) (rule take_bit_nat_eq_self, simp)
qed

lemma tag_chain_low:
  assumes "unat stop < 2 ^ 34"
  shows "tag_chain m tag stop ts \<Longrightarrow> 0 < unat tag \<Longrightarrow> t \<in> set ts \<Longrightarrow> 0 < unat t \<and> unat t < 2 ^ 34"
proof (induction ts arbitrary: tag)
  case (Cons u ts)
  then have u: "u = tag" "unat tag < unat stop" and rest: "tag_chain m (multiboot_next_tag m tag) stop ts"
    by (simp_all add: unat_less_iff)
  let ?n = "ucast ((tag_size m tag + 7) AND NOT 7) :: u64"
  have "unat ?n < 2 ^ 32" by (simp only: unat_ucast_32)
  then have "unat (multiboot_next_tag m tag) = unat tag + unat ?n"
    using u(2) assms unfolding multiboot_next_tag_def by (subst unat_add_small) simp_all
  then show ?case using Cons u rest assms by auto
qed simp

lemma multiboot_tags_low:
  assumes "multiboot_ok m info ts" and "t \<in> set ts"
  shows "t \<noteq> 0" and "unat t < 2 ^ 34"
proof -
  note a = assms(1) [unfolded multiboot_ok_def]
  have "unat (multiboot_first_tag info) = unat info + 8" using a unfolding multiboot_first_tag_def by (subst unat_add_small) simp_all
  moreover have "unat (multiboot_tag_end m info) = unat info + unat (rd32 m info)"
    using a unat_ucast_32 [of "rd32 m info"] unfolding multiboot_tag_end_def by (subst unat_add_small) simp_all
  moreover have "unat (rd32 m info) < 2 ^ 32" by (rule unat_ucast_32)
  ultimately have "0 < unat t \<and> unat t < 2 ^ 34"
    using a assms(2) by (intro tag_chain_low [of "multiboot_tag_end m info" m "multiboot_first_tag info" ts]) simp_all
  then show "t \<noteq> 0" and "unat t < 2 ^ 34" by auto
qed

lemma find_mmap_map:
  assumes M: "multiboot_ok m info ts"
  obtains mmap where "multiboot_find_mmap m info = Some mmap" and "unat mmap < 2 ^ 34"
    and "memory_map m ts = (if mmap \<noteq> 0 \<and> rd32 m (mmap + 8) \<ge> 24 then map (map_entry m mmap) [0..<map_length m mmap] else [])"
proof -
  let ?fs = "filter (\<lambda>t. tag_type m t = MULTIBOOT_TAG_TYPE_MMAP) ts"
  have find: "multiboot_find_mmap m info = Some (case ?fs of [] \<Rightarrow> 0 | t # _ \<Rightarrow> t)"
    using M find_tag_loop_chain by (simp add: multiboot_find_mmap_def multiboot_find_tag_def multiboot_ok_def)
  show thesis
  proof (cases ?fs)
    case Nil
    then show thesis using find by (intro that [of 0]) (simp_all add: memory_map_def)
  next
    case (Cons t us)
    then have "t \<in> set ?fs" by simp
    then have "t \<in> set ts" by simp
    then have "t \<noteq> 0" "unat t < 2 ^ 34" by (rule multiboot_tags_low [OF M])+
    then show thesis using find Cons by (intro that [of t]) (simp_all add: memory_map_def)
  qed
qed

lemma all_used:
  assumes "frame_bitmap s = (\<lambda>i. 0xFF)"
  shows "frame_used s f \<longleftrightarrow> page_aligned f"
proof -
  have "bitmap_test g s" for g
  proof (cases "g < MAX_FRAMES")
    case True
    have "(0xFF :: u8) = - 1" by simp
    then show ?thesis unfolding bitmap_test_bit [OF True] assms by (simp only: bit_minus_1_iff) (simp add: possible_bit_def)
  qed (simp add: bitmap_test_outside)
  then show ?thesis by (simp add: frame_used_def)
qed

text \<open>The first half of \<^verbatim>\<open>paging_init\<close>.\<close>

lemma memory_map_frames:
  assumes M: "multiboot_ok (mem s) info ts" and all: "frame_bitmap s = (\<lambda>i. 0xFF)" and t0: "total_frames s = 0"
  obtains mmap s2 where "multiboot_find_mmap (mem s) info = Some mmap"
    and "(if mmap \<noteq> 0 \<and> rd32 (mem s) (mmap + 8) \<ge> 24
          then mmap_loop mmap (mmap + 16) (mmap + ucast (tag_size (mem s) mmap)) s else Some s) = Some s2"
    and "bitmap_only s s2" and "managed s2"
    and "\<And>f. page_aligned f \<Longrightarrow> frame_used s2 f \<longleftrightarrow> \<not> offered (mem s) ts f"
proof -
  have man: "managed s" using all_used [OF all] t0 by (simp add: managed_def)
  obtain mmap where f: "multiboot_find_mmap (mem s) info = Some mmap" "unat mmap < 2 ^ 34"
    "memory_map (mem s) ts = (if mmap \<noteq> 0 \<and> rd32 (mem s) (mmap + 8) \<ge> 24
       then map (map_entry (mem s) mmap) [0..<map_length (mem s) mmap] else [])" by (rule find_mmap_map [OF M])
  show thesis
  proof (cases "mmap \<noteq> 0 \<and> rd32 (mem s) (mmap + 8) \<ge> 24")
    case True
    then have pos: "0 < unat (rd32 (mem s) (mmap + 8))" by (simp add: word_le_nat_alt)
    have e0: "map_entry (mem s) mmap 0 = mmap + 16" by (simp add: map_entry_def)
    obtain s2 where s2: "mmap_loop mmap (mmap + 16) (mmap + ucast (tag_size (mem s) mmap)) s = Some s2" "bitmap_only s s2" "managed s2"
      "\<And>f. page_aligned f \<Longrightarrow> frame_used s2 f = (frame_used s f \<and>
         \<not> (\<exists>j. 0 \<le> j \<and> j < map_length (mem s) mmap \<and> region_frame (mem s) (map_entry (mem s) mmap j) f))"
      using mmap_loop_frees [OF f(2) pos le0 refl man, unfolded e0] by (elim exE conjE) (rule that, assumption+, drule spec, erule (1) mp)
    have "frame_used s2 g \<longleftrightarrow> \<not> offered (mem s) ts g" if "page_aligned g" for g
      using s2(4) [OF that] all_used [OF all] that True f(3) by (auto simp: offered_def)
    then show thesis using s2 True f(1) by (intro that [of mmap s2]) simp_all
  next
    case False
    have "memory_map (mem s) ts = []" using f(3) unfolding if_not_P [OF False] .
    then have "\<not> offered (mem s) ts g" for g by (simp add: offered_def)
    then show thesis
      using f(1) man bitmap_only_refl [of s] all_used [OF all] by (intro that [of mmap s]) (simp_all add: if_not_P [OF False])
  qed
qed

section \<open>The frames that are kept back\<close>

definition touches :: "u64 \<Rightarrow> u64 \<Rightarrow> u64 \<Rightarrow> bool" where
  "touches a b f \<longleftrightarrow> unat a < unat f + 4096 \<and> unat f < unat b"

definition reserved :: "'a kpaging_scheme \<Rightarrow> u64 list \<Rightarrow> u64 \<Rightarrow> bool" where
  "reserved s ts f \<longleftrightarrow> touches 0 (kernel_end s) f \<or> touches (stack_bottom s) (stack_top s) f \<or>
     touches USER_IMAGE_PHYS_START USER_IMAGE_PHYS_END f \<or>
     (\<exists>t \<in> set (modules (mem s) ts). touches (ucast (mod_start (mem s) t)) (ucast (mod_end (mem s) t)) f)"

lemma reserve_frames_touches:
  assumes "unat b + 4096 \<le> 2 ^ 64" and "page_aligned f"
  shows "frame_used (reserve_frames a b s) f \<longleftrightarrow> frame_used s f \<or> (f < MAX_PHYS_MEM \<and> touches a b f)"
  using reserve_frames_spec [OF assms(1)] assms(2) by (auto simp: touches_def unat_less_iff)

lemma ex_nth: "(\<exists>i \<in> set [0..<length xs]. P (xs ! i)) \<longleftrightarrow> (\<exists>x \<in> set xs. P x)"
proof -
  have "set xs = (\<lambda>i. xs ! i) ` set [0..<length xs]" unfolding list.set_map [symmetric] map_nth ..
  then show ?thesis by simp
qed

lemma reserve_modules_run:
  assumes M: "multiboot_ok (mem s) info ts"
  obtains s' where "reserve_modules info s = Some s'" and "bitmap_only s s'" and "total_frames s' = total_frames s"
    and "\<And>f. page_aligned f \<Longrightarrow> frame_used s' f \<longleftrightarrow> frame_used s f \<or>
      (f < MAX_PHYS_MEM \<and> (\<exists>t \<in> set (modules (mem s) ts). touches (ucast (mod_start (mem s) t)) (ucast (mod_end (mem s) t)) f))"
proof -
  let ?m = "mem s" and ?ms = "modules (mem s) ts"
  let ?body = "\<lambda>i s. do { module \<leftarrow> multiboot_module_at (mem s) info (of_nat i);
                  Some (0 :: int, if module \<noteq> 0 then reserve_frames (ucast (mod_start (mem s) module)) (ucast (mod_end (mem s) module)) s
                           else s) }"
  have "length ?ms \<le> length ts" by (simp add: modules_def)
  then have len: "length ?ms < 2 ^ 32" using M unfolding multiboot_ok_def by linarith
  have nz: "t \<noteq> 0" if "t \<in> set ?ms" for t using multiboot_tags_low(1) [OF M] that by (simp add: modules_def)
  have valid: "multiboot_info_valid ?m info" and chain: "tag_chain ?m (multiboot_first_tag info) (multiboot_tag_end ?m info) ts"
    using M by (simp_all add: multiboot_ok_def)
  have count: "multiboot_module_count ?m info = Some (of_nat (length ?ms))"
    using valid module_count_loop_chain [OF chain] by (simp add: multiboot_module_count_def)
  have at: "multiboot_module_at ?m info (of_nat i) = Some (?ms ! i)" if "i < length ?ms" for i
  proof -
    have "unat (of_nat i :: u32) = i" using that len by (simp add: unat_of_nat take_bit_nat_eq_self)
    then show ?thesis using valid module_at_loop_chain [OF chain, of 0 "of_nat i"] that by (simp add: multiboot_module_at_def)
  qed
  have end': "unat (ucast (mod_end ?m t) :: u64) + 4096 \<le> 2 ^ 64" for t
    using unat_ucast_32 [of "mod_end ?m t"] by simp
  have loop: "\<exists>s'. for_status ?body is s1 = Some (0, s') \<and> bitmap_only s1 s' \<and> total_frames s' = total_frames s1 \<and>
      (\<forall>f. page_aligned f \<longrightarrow> frame_used s' f = (frame_used s1 f \<or>
        (f < MAX_PHYS_MEM \<and> (\<exists>i \<in> set is. touches (ucast (mod_start ?m (?ms ! i))) (ucast (mod_end ?m (?ms ! i))) f))))"
    if "mem s1 = ?m" "\<forall>i \<in> set is. i < length ?ms" for "is" s1
    using that
  proof (induction "is" arbitrary: s1)
    case Nil
    then show ?case using bitmap_only_refl [of s1] by simp
  next
    case (Cons i "is")
    let ?t = "?ms ! i"
    let ?s2 = "reserve_frames (ucast (mod_start ?m ?t)) (ucast (mod_end ?m ?t)) s1"
    have "?t \<in> set ?ms" using Cons.prems(2) by simp
    then have step: "?body i s1 = Some (0, ?s2)" using at [of i] Cons.prems nz by simp
    note only = reserve_frames_only [where s = s1 and a = "ucast (mod_start ?m ?t)" and b = "ucast (mod_end ?m ?t)"]
    have "mem ?s2 = ?m" using bitmap_onlyD(1) [OF only(1)] Cons.prems(1) by simp
    from Cons.IH [OF this] Cons.prems(2) obtain s' where s': "for_status ?body is ?s2 = Some (0, s')" "bitmap_only ?s2 s'"
      "total_frames s' = total_frames ?s2"
      "\<forall>f. page_aligned f \<longrightarrow> frame_used s' f = (frame_used ?s2 f \<or>
        (f < MAX_PHYS_MEM \<and> (\<exists>i \<in> set is. touches (ucast (mod_start ?m (?ms ! i))) (ucast (mod_end ?m (?ms ! i))) f)))" by auto
    have "for_status ?body (i # is) s1 = Some (0, s')" unfolding for_status.simps step using s'(1) by simp
    moreover have "frame_used s' f = (frame_used s1 f \<or>
        (f < MAX_PHYS_MEM \<and> (\<exists>i \<in> set (i # is). touches (ucast (mod_start ?m (?ms ! i))) (ucast (mod_end ?m (?ms ! i))) f)))"
      if "page_aligned f" for f
      using s'(4) that reserve_frames_touches [OF end' that] by auto
    ultimately show ?case using s'(3) only(2) bitmap_only_trans [OF only(1) s'(2)] by auto
  qed
  have "unat (of_nat (length ?ms) :: u32) = length ?ms" using len by (simp add: unat_of_nat take_bit_nat_eq_self)
  moreover obtain s' where s': "for_status ?body [0..<length ?ms] s = Some (0, s')" "bitmap_only s s'" "total_frames s' = total_frames s"
    "\<forall>f. page_aligned f \<longrightarrow> frame_used s' f = (frame_used s f \<or>
      (f < MAX_PHYS_MEM \<and> (\<exists>i \<in> set [0..<length ?ms]. touches (ucast (mod_start ?m (?ms ! i))) (ucast (mod_end ?m (?ms ! i))) f)))"
    using loop [OF refl, of "[0..<length ?ms]"] by auto
  ultimately have run: "reserve_modules info s = Some s'" by (simp add: reserve_modules_def count)
  note u = s'(4) [unfolded ex_nth [where P = "\<lambda>t. touches (ucast (mod_start ?m t)) (ucast (mod_end ?m t)) f" for f]]
  show thesis by (rule that [OF run s'(2,3)]) (rule u [rule_format])
qed

section \<open>What paging starts with\<close>

text \<open>The frames that may become page tables.\<close>

definition table_pool :: "'a kpaging_scheme \<Rightarrow> u64 list \<Rightarrow> u64 set" where
  "table_pool s ts = {f. page_aligned f \<and> f < IDENTITY_MAP_LIMIT \<and> available (mem s) ts f \<and> \<not> reserved s ts f \<and>
     \<not> (kernel_end s \<le> f \<and> f < stack_top s)}"

lemma offered_low: "offered m ts f \<Longrightarrow> f < MAX_PHYS_MEM"
proof -
  assume "offered m ts f"
  then obtain a b where "marked a (min MAX_PHYS_MEM b) f" by (auto simp: offered_def region_frame_def)
  then have "unat f < unat (min MAX_PHYS_MEM b)" by (simp add: marked_def)
  then have "f < min MAX_PHYS_MEM b" by (simp only: unat_less_iff)
  then show ?thesis by (rule less_le_trans) simp
qed

text \<open>\<^verbatim>\<open>paging_init\<close> up to the loop that extends the map.\<close>

lemma paging_init_frames:
  assumes M: "multiboot_ok (mem s) info ts" and top: "unat (stack_top s) + 4096 \<le> 2 ^ 64"
  obtains s' where "paging_init info s = paging_extend_identity_map s'" and "pml4 s' = pml4_table s"
    and "bitmap_only (s\<lparr>pml4 := pml4_table s, pdp0 := pdp_table s, pd0 := pd_table s\<rparr>) s'" and "total_frames s' \<le> MAX_FRAMES"
    and "\<And>f. page_aligned f \<Longrightarrow> frame_used s' f \<longleftrightarrow> \<not> available (mem s) ts f \<or> reserved s ts f"
    and "\<And>f. page_aligned f \<Longrightarrow> available (mem s) ts f \<Longrightarrow> f div PAGE_SIZE < total_frames s'"
proof -
  let ?s0 = "s\<lparr>pml4 := pml4_table s, pdp0 := pdp_table s, pd0 := pd_table s\<rparr>"
  let ?s1 = "s\<lparr>pml4 := pml4_table s, pdp0 := pdp_table s, pd0 := pd_table s, frame_bitmap := (\<lambda>i. 0xFF), total_frames := 0\<rparr>"
  have M1: "multiboot_ok (mem ?s1) info ts" using M by simp
  obtain mmap s2 where find: "multiboot_find_mmap (mem ?s1) info = Some mmap"
    and map: "(if mmap \<noteq> 0 \<and> rd32 (mem ?s1) (mmap + 8) \<ge> 24
          then mmap_loop mmap (mmap + 16) (mmap + ucast (tag_size (mem ?s1) mmap)) ?s1 else Some ?s1) = Some s2"
    and s2: "bitmap_only ?s1 s2" "managed s2" "\<And>f. page_aligned f \<Longrightarrow> frame_used s2 f \<longleftrightarrow> \<not> offered (mem ?s1) ts f"
    by (rule memory_map_frames [OF M1]) (simp, simp, rule that)
  let ?s3 = "if total_frames s2 = 0 then s2\<lparr>total_frames := MAX_FRAMES, frame_bitmap := (\<lambda>i. 0)\<rparr> else s2"
  have any: "total_frames s2 = 0 \<longleftrightarrow> \<not> (\<exists>g. page_aligned g \<and> offered (mem s) ts g)"
    using s2(2,3) unfolding managed_def by auto
  have "bitmap_only ?s0 ?s1" unfolding bitmap_only_def by (rule exI [of _ "\<lambda>i. 0xFF"], rule exI [of _ 0]) simp
  moreover have "bitmap_only s2 ?s3"
    using bitmap_only_trans [OF bitmap_only_total [of s2 MAX_FRAMES] bitmap_only_bytes [of _ "\<lambda>i. 0"]] bitmap_only_refl [of s2]
    by simp
  ultimately have b3: "bitmap_only ?s0 ?s3" using s2(1) bitmap_only_trans by blast
  have u3: "frame_used ?s3 f \<longleftrightarrow> \<not> available (mem s) ts f" if f: "page_aligned f" for f
  proof (cases "total_frames s2 = 0")
    case True
    have "frame_used ?s3 f \<longleftrightarrow> MAX_FRAMES \<le> f div PAGE_SIZE" using True f by (simp add: frame_used_def bitmap_test_def)
    also have "\<dots> \<longleftrightarrow> \<not> f < MAX_PHYS_MEM" by (simp add: unat_le_iff unat_less_iff unat_div) linarith
    also have "\<dots> \<longleftrightarrow> \<not> available (mem s) ts f" using True any unfolding available_def by (subst if_not_P) simp_all
    finally show ?thesis .
  next
    case False
    then show ?thesis using s2(3) [OF f] any unfolding available_def by (subst if_P) simp_all
  qed
  have t3: "total_frames ?s3 \<le> MAX_FRAMES" using s2(2) by (simp add: managed_def)
  have m3: "f div PAGE_SIZE < total_frames ?s3" if "page_aligned f" "available (mem s) ts f" for f
  proof (cases "total_frames s2 = 0")
    case True
    then have "f < MAX_PHYS_MEM" using that any unfolding available_def by meson
    then have "f div PAGE_SIZE < MAX_FRAMES" by (simp add: unat_less_iff unat_div)
    then show ?thesis using True by simp
  next
    case False
    then have "\<not> frame_used s2 f" using u3 [OF that(1)] that(2) by simp
    then show ?thesis using False s2(2) that(1) by (simp add: managed_def)
  qed
  let ?k = "if MAX_PHYS_MEM < kernel_end ?s3 then MAX_PHYS_MEM else kernel_end ?s3"
  let ?s4 = "reserve_frames 0 ?k ?s3"
  let ?s5 = "reserve_frames (stack_bottom ?s4) (stack_top ?s4) ?s4"
  let ?s6 = "reserve_frames USER_IMAGE_PHYS_START USER_IMAGE_PHYS_END ?s5"
  have b4: "bitmap_only ?s0 ?s4" by (rule bitmap_only_trans [OF b3 reserve_frames_only(1)])
  have b5: "bitmap_only ?s0 ?s5" by (rule bitmap_only_trans [OF b4 reserve_frames_only(1)])
  have b6: "bitmap_only ?s0 ?s6" by (rule bitmap_only_trans [OF b5 reserve_frames_only(1)])
  have fld: "kernel_end ?s3 = kernel_end s" "stack_bottom ?s4 = stack_bottom s" "stack_top ?s4 = stack_top s" "mem ?s6 = mem s"
    using bitmap_onlyD(8) [OF b3] bitmap_onlyD(9,10) [OF b4] bitmap_onlyD(1) [OF b6] by simp_all
  have M6: "multiboot_ok (mem ?s6) info ts" using M fld(4) by simp
  obtain s7 where s7: "reserve_modules info ?s6 = Some s7" "bitmap_only ?s6 s7" "total_frames s7 = total_frames ?s6"
    "\<And>f. page_aligned f \<Longrightarrow> frame_used s7 f \<longleftrightarrow> frame_used ?s6 f \<or>
      (f < MAX_PHYS_MEM \<and> (\<exists>t \<in> set (modules (mem ?s6) ts). touches (ucast (mod_start (mem ?s6) t)) (ucast (mod_end (mem ?s6) t)) f))"
    by (rule reserve_modules_run [OF M6], rule that)
  have "info \<noteq> 0" using M by (simp add: multiboot_ok_def multiboot_info_valid_def)
  then have run: "paging_init info s = paging_extend_identity_map s7"
    unfolding paging_init_def Let_def find bind.bind_lunit map s7(1) by (simp add: s7(1))
  have b7: "bitmap_only ?s0 s7" by (rule bitmap_only_trans [OF b6 s7(2)])
  have used: "frame_used s7 f \<longleftrightarrow> \<not> available (mem s) ts f \<or> reserved s ts f" if f: "page_aligned f" for f
  proof -
    have low: "f < MAX_PHYS_MEM" if "available (mem s) ts f"
      using that offered_low [of "mem s" ts f] unfolding available_def by meson
    have k: "f < MAX_PHYS_MEM \<Longrightarrow> touches 0 ?k f \<longleftrightarrow> touches 0 (kernel_end s) f" "unat ?k + 4096 \<le> 2 ^ 64"
      unfolding fld(1) by (auto simp: touches_def unat_less_iff)
    have img: "unat USER_IMAGE_PHYS_END + 4096 \<le> 2 ^ 64" by simp
    have u: "frame_used ?s6 f \<longleftrightarrow> frame_used ?s3 f \<or> (f < MAX_PHYS_MEM \<and> (touches 0 ?k f \<or> touches (stack_bottom s) (stack_top s) f \<or>
      touches USER_IMAGE_PHYS_START USER_IMAGE_PHYS_END f))"
      unfolding reserve_frames_touches [OF img f] fld(2,3) reserve_frames_touches [OF top f] reserve_frames_touches [OF k(2) f] by blast
    show ?thesis unfolding s7(4) [OF f] u u3 [OF f] fld(4) reserved_def using low k(1) by blast
  qed
  have "total_frames s7 = total_frames ?s3" unfolding s7(3) reserve_frames_only(2) ..
  then show thesis
    using t3 m3 bitmap_onlyD(3) [OF b7] by (intro that [OF run _ b7 _ used]) (simp_all del: MAX_FRAMES_def)
qed


text \<open>A machine as the boot code leaves it, with an information structure that holds no tag.\<close>

definition start_memory :: kpaging where
  "start_memory = \<lparr>mem = (\<lambda>a. 0)(0x8000 := 16), cr3 = 0x1000, kernel_end = 0x100000, stack_bottom = 0x100000, stack_top = 0x104000,
     pml4_table = 0x1000, pdp_table = 0x2000, pd_table = 0x3000,
     frame_bitmap = (\<lambda>i. 0), total_frames = 0, pml4 = 0, pdp0 = 0, pd0 = 0\<rparr>"

definition start_example :: kpaging where
  "start_example = set_entry 0x3000 1 0x200083 (set_entry 0x3000 0 0x83 (set_entry 0x2000 0 0x3003 (set_entry 0x1000 0 0x2003 start_memory)))"

lemma start_example_fields:
  "pml4_table start_example = 0x1000" "pdp_table start_example = 0x2000" "pd_table start_example = 0x3000"
  "cr3 start_example = 0x1000" "kernel_end start_example = 0x100000" "stack_bottom start_example = 0x100000"
  "stack_top start_example = 0x104000"
  by (simp_all add: start_example_def start_memory_def set_entry_def)

lemma start_example_tables: "boot_tables start_example"
proof -
  have z: "get_entry t i start_memory = 0" if "t \<in> {0x1000, 0x2000, 0x3000}" "i < 512" for t i
  proof -
    have "page_aligned t" using that(1) by (auto simp: page_aligned_def)
    moreover have "mem start_memory a = 0" if "page_of a = t" for a
      using that \<open>t \<in> _\<close> by (auto simp: start_memory_def page_of_def)
    ultimately have "get_entry t i start_memory = get_entry t i (start_memory\<lparr>mem := \<lambda>a. 0\<rparr>)"
      by (intro get_entry_agree [OF _ that(2)]) simp_all
    then show ?thesis by (simp add: zero_entry)
  qed
  have "get_entry 0x1000 i start_example = (if i = 0 then 0x2003 else 0) \<and>
        get_entry 0x2000 i start_example = (if i = 0 then 0x3003 else 0) \<and>
        get_entry 0x3000 i start_example = (if i = 0 then 0x83 else if i = 1 then 0x200083 else 0)" if "i < 512" for i
    using that z by (simp add: start_example_def get_set_entry page_aligned_def)
  then show ?thesis by (simp add: boot_tables_def start_example_fields page_aligned_def)
qed

lemma start_example_tags: "multiboot_ok (mem start_example) 0x8000 []"
proof -
  have m: "mem start_example a = mem start_memory a" if "page_of a = 0x8000" for a
    using that by (simp add: start_example_def set_entry_mem page_aligned_def)
  have "rd32 (mem start_example) 0x8000 = 16" "rd32 (mem start_example) 0x8008 = 0"
    by (simp_all add: rd_eval m page_of_def) (simp_all add: start_memory_def)
  then show ?thesis
    by (simp add: multiboot_ok_def multiboot_info_valid_def multiboot_first_tag_def tag_type_def)
qed

lemma start_example_pool: "30 \<le> card (table_pool start_example [])"
proof -
  let ?f = "\<lambda>i. of_nat (0x800 + i) * PAGE_SIZE :: u64"
  have f: "unat (?f i) = (0x800 + i) * 4096" if "i < 30" for i
    by (rule frame_number(1)) (use that in simp)
  have free: "available (mem start_example) [] f" if "f < MAX_PHYS_MEM" for f
    using that by (simp add: available_def offered_def memory_map_def)
  have "?f i \<in> table_pool start_example []" if i: "i < 30" for i
  proof -
    have "?f i < MAX_PHYS_MEM" "?f i < IDENTITY_MAP_LIMIT" "\<not> ?f i < stack_top start_example"
      unfolding unat_less_iff f [OF i] start_example_fields using i by simp_all
    moreover have "page_aligned (?f i)" unfolding page_aligned_def f [OF i] by simp
    moreover have "\<not> reserved start_example [] (?f i)"
      unfolding reserved_def touches_def f [OF i] start_example_fields by (simp add: modules_def)
    ultimately show ?thesis using free unfolding table_pool_def by blast
  qed
  then have "?f ` {..<30} \<subseteq> table_pool start_example []" by blast
  then have "card (?f ` {..<30}) \<le> card (table_pool start_example [])" by (rule card_mono [rotated]) simp
  moreover have "inj_on ?f {..<30}"
  proof (rule inj_onI)
    fix i j :: nat assume "i \<in> {..<30}" "j \<in> {..<30}" "?f i = ?f j"
    then show "i = j" using f [of i] f [of j] by simp
  qed
  ultimately show ?thesis by (simp add: card_image)
qed


end
