(* ===== verification/LoadImage.thy ===== *)
theory LoadImage
  imports BootPaging Clone Elf
begin

unbundle bit_operations_syntax

text \<open>
  The image of a program: what \<^verbatim>\<open>elf_map_segment\<close> of \<^verbatim>\<open>core/elf.c\<close> makes of a segment.  The page tables of the image
  window are there from the boot on; \<open>retag s s'\<close> says that only flags of their entries have changed, as
  \<^verbatim>\<open>paging_promote_user_identity\<close> changes them, and \<open>image_upto s0 f k n s\<close> is the invariant of the loop over the pages.
\<close>

section \<open>Flags of table entries\<close>

definition retag :: "'a kpaging_scheme \<Rightarrow> 'a kpaging_scheme \<Rightarrow> bool" where
  "retag s s' \<longleftrightarrow> s' = s\<lparr>mem := mem s'\<rparr> \<and> pt_ok s' \<and> (\<forall>q. valid_path q \<longrightarrow> table_at s' q = table_at s q) \<and>
     (\<forall>v. paging_virt_to_phys v s' = paging_virt_to_phys v s) \<and>
     (\<forall>a. \<not> table_frame s (page_of a) \<longrightarrow> mem s' a = mem s a) \<and> (\<forall>q j. valid_path q \<longrightarrow> source s q j \<longrightarrow> source s' q j)"

lemma retagD:
  assumes "retag s s'"
  shows "s' = s\<lparr>mem := mem s'\<rparr>" and "pt_ok s'" and "valid_path q \<Longrightarrow> table_at s' q = table_at s q"
    and "paging_virt_to_phys v s' = paging_virt_to_phys v s" and "\<not> table_frame s (page_of a) \<Longrightarrow> mem s' a = mem s a"
    and "valid_path q \<Longrightarrow> source s q j \<Longrightarrow> source s' q j" and "table_frame s' f = table_frame s f"
proof -
  note r = assms [unfolded retag_def]
  show "s' = s\<lparr>mem := mem s'\<rparr>" "pt_ok s'" by (rule conjunct1 [OF r], rule conjunct1 [OF conjunct2 [OF r]])
  show at: "valid_path q \<Longrightarrow> table_at s' q = table_at s q" for q using r by blast
  show "paging_virt_to_phys v s' = paging_virt_to_phys v s" using r by blast
  show "\<not> table_frame s (page_of a) \<Longrightarrow> mem s' a = mem s a" using r by blast
  show "valid_path q \<Longrightarrow> source s q j \<Longrightarrow> source s' q j" using r by blast
  show "table_frame s' f = table_frame s f" using at unfolding table_frame_def by metis
qed

lemma memory_only_trans: "s' = s\<lparr>mem := m\<rparr> \<Longrightarrow> s'' = s'\<lparr>mem := m'\<rparr> \<Longrightarrow> s'' = s\<lparr>mem := m'\<rparr>"
  by simp

lemma retag_trans:
  assumes a: "retag s s'" and b: "retag s' s''"
  shows "retag s s''"
  unfolding retag_def
proof (intro conjI allI impI)
  show "s'' = s\<lparr>mem := mem s''\<rparr>" by (rule memory_only_trans [OF retagD(1) [OF a] retagD(1) [OF b]])
  show "pt_ok s''" by (rule retagD(2) [OF b])
  show "table_at s'' q = table_at s q" if "valid_path q" for q using retagD(3) [OF a that] retagD(3) [OF b that] by simp
  show "paging_virt_to_phys v s'' = paging_virt_to_phys v s" for v using retagD(4) [OF a] retagD(4) [OF b] by simp
  show "mem s'' x = mem s x" if "\<not> table_frame s (page_of x)" for x
    using retagD(5) [OF a that] retagD(5) [OF b, of x] retagD(7) [OF a] that by simp
  show "source s'' q j" if "valid_path q" "source s q j" for q j by (rule retagD(6) [OF b that(1) retagD(6) [OF a that]])
qed

lemma retag_entry:
  assumes ok: "pt_ok s" and vp: "valid_path (i # p)" and at: "table_at s p = Some t"
    and e: "e AND PTE_ADDR_MASK = get_entry t i s AND PTE_ADDR_MASK" "pte_present e = pte_present (get_entry t i s)"
      "pte_huge e = pte_huge (get_entry t i s)" "pte_user e"
  shows "retag s (set_entry t i e s)"
proof -
  let ?s = "set_entry t i e s"
  have v: "valid_path p" "i < 512" "length p \<le> 2" using vp by (simp_all add: valid_path_Cons)
  have tal: "page_aligned t" and tf: "table_frame s t"
    using pt_ok_table(3) [OF ok v(1) at] v(1) at unfolding table_frame_def by blast+
  have ent: "get_entry u j ?s = (if u = t \<and> j = i then e else get_entry u j s)" if "valid_path q" "table_at s q = Some u" "j < 512" for q u j
    using pt_ok_table(3) [OF ok that(1,2)] that(3) tal v(2) by (simp add: get_set_entry)
  have same: "table_at ?s q = table_at s q" if "valid_path q" for q
    using that
  proof (induction q)
    case (Cons j q)
    then have q: "valid_path q" "j < 512" by (simp_all add: valid_path_Cons)
    show ?case
    proof (cases "table_at s q")
      case (Some u)
      then show ?thesis using Cons.IH [OF q(1)] ent [OF q(1) Some q(2)] e by (simp add: Let_def)
    qed (use Cons.IH [OF q(1)] in simp)
  qed simp
  have low: "x AND 0x1FF000 = (x AND PTE_ADDR_MASK) AND 0x1FF000" for x by (simp add: and.assoc)
  have lowe: "e AND 0x1FF000 = get_entry t i s AND 0x1FF000"
    by (rule trans [OF low]) (simp only: e(1) low [symmetric])
  have ok': "pt_ok ?s"
    unfolding pt_ok_def
  proof (intro conjI allI impI)
    fix q u assume q: "valid_path q" "table_at ?s q = Some u"
    then show "frame_used ?s u" "u \<noteq> 0" "u < IDENTITY_MAP_LIMIT" using pt_ok_table(1,2,4) [OF ok] same by simp_all
  next
    fix q q' u assume "valid_path q" "valid_path q'" "table_at ?s q = Some u" "table_at ?s q' = Some u"
    then show "q = q'" using pt_ok_inject [OF ok] same by metis
  next
    fix q u j assume q: "valid_path (j # q)" "table_at ?s q = Some u" "pte_present (get_entry u j ?s)" "pte_huge (get_entry u j ?s)"
    then have v': "valid_path q" "j < 512" by (simp_all add: valid_path_Cons)
    have u: "table_at s q = Some u" using q(2) same [OF v'(1)] by simp
    note h = pt_ok_huge [OF ok q(1) u] and g = ent [OF v'(1) u v'(2)]
    have "length q = 2 \<and> get_entry u j s AND 0x1FF000 = 0" using h q(3,4) g e(2,3) by (simp split: if_splits)
    moreover have "get_entry u j ?s AND 0x1FF000 = get_entry u j s AND 0x1FF000"
      unfolding g using lowe by simp
    ultimately show "length q = 2" "get_entry u j ?s AND 0x1FF000 = 0" by simp_all
  qed
  have virt: "paging_virt_to_phys w ?s = paging_virt_to_phys w s" for w
  proof (cases "table_at s (pd_path w)")
    case None
    then show ?thesis unfolding virt_to_phys_tree [OF ok] virt_to_phys_tree [OF ok'] same [OF pd_path_valid(1)] by simp
  next
    case (Some pd)
    let ?d = "get_entry pd (PD_INDEX w) s"
    note d = ent [OF pd_path_valid(1) Some index_less(3) [of w]]
    have d': "get_entry pd (PD_INDEX w) ?s AND PTE_ADDR_MASK = ?d AND PTE_ADDR_MASK"
      "pte_present (get_entry pd (PD_INDEX w) ?s) = pte_present ?d" "pte_huge (get_entry pd (PD_INDEX w) ?s) = pte_huge ?d"
      using d e by simp_all
    have "get_entry (?d AND PTE_ADDR_MASK) (PT_INDEX w) ?s = get_entry (?d AND PTE_ADDR_MASK) (PT_INDEX w) s"
      if "pte_present ?d" "\<not> pte_huge ?d"
    proof -
      have u: "table_at s (PD_INDEX w # pd_path w) = Some (?d AND PTE_ADDR_MASK)" using that Some by simp
      have "PD_INDEX w # pd_path w \<noteq> p" using v(3) by auto
      then have "?d AND PTE_ADDR_MASK \<noteq> t" using pt_ok_inject [OF ok valid_pt_path v(1) u] at by blast
      then show ?thesis using ent [OF valid_pt_path u index_less(4) [of w]] by simp
    qed
    then show ?thesis
      unfolding virt_to_phys_tree [OF ok] virt_to_phys_tree [OF ok'] same [OF pd_path_valid(1)] Some
      using d' by (simp add: Let_def del: PTE_ADDR_MASK_def)
  qed
  have src: "source ?s q j" if q: "valid_path q" "source s q j" for q j
  proof -
    obtain u where u: "length q \<le> 3" "j < 512" "table_at s q = Some u" "copies q (get_entry u j s)" using q(2) unfolding source_def by blast
    have "copies q (get_entry u j ?s)" 
    proof (cases "u = t \<and> j = i")
      case True
      then show ?thesis using u(4) e(2-4) ent [OF q(1) u(3,2)] by (simp add: copies_def)
    next
      case False
      then show ?thesis using u(4) ent [OF q(1) u(3,2)] by (simp only: if_False)
    qed
    then show ?thesis using u(1-3) same [OF q(1)] unfolding source_def by metis
  qed
  have shape: "?s = s\<lparr>mem := mem ?s\<rparr>" by (simp add: set_entry_def)
  have memk: "mem ?s a = mem s a" if "\<not> table_frame s (page_of a)" for a
  proof (rule set_entry_mem [OF tal v(2)])
    show "page_of a \<noteq> t" using tf that by metis
  qed
  show ?thesis unfolding retag_def by (intro conjI allI impI shape ok' same virt memk src)
qed

text \<open>The user bit of an entry.\<close>

lemma user_bit:
  "(e OR PAGE_USER) AND PTE_ADDR_MASK = e AND PTE_ADDR_MASK" "pte_present (e OR PAGE_USER) = pte_present e"
  "pte_huge (e OR PAGE_USER) = pte_huge e" "pte_user (e OR PAGE_USER)"
  by (simp_all add: bit.conj_disj_distrib2 pte_present_def pte_huge_def pte_user_def)

lemma retag_user:
  assumes ok: "pt_ok s" and vp: "valid_path (i # p)" and at: "table_at s (i # p) = Some u" and t: "table_at s p = Some t"
  shows "retag s (set_entry t i (get_entry t i s OR PAGE_USER) s)"
    and "source (set_entry t i (get_entry t i s OR PAGE_USER) s) p i"
    and "get_entry t i s AND PTE_ADDR_MASK = u" and "pte_present (get_entry t i s)"
proof -
  let ?e = "get_entry t i s OR PAGE_USER"
  show r: "retag s (set_entry t i ?e s)" by (rule retag_entry [OF ok vp t user_bit])
  have e: "pte_present (get_entry t i s)" "\<not> pte_huge (get_entry t i s)" "get_entry t i s AND PTE_ADDR_MASK = u"
    using at t by (auto simp: Let_def split: if_splits)
  show "get_entry t i s AND PTE_ADDR_MASK = u" "pte_present (get_entry t i s)" using e by simp_all
  have v: "valid_path p" "i < 512" "length p \<le> 3" using vp by (auto simp: valid_path_Cons)
  have "copies p ?e" using e user_bit by (simp add: copies_def del: PAGE_USER_def)
  moreover have "table_at (set_entry t i ?e s) p = Some t" using retagD(3) [OF r v(1)] t by simp
  moreover have "get_entry t i (set_entry t i ?e s) = ?e" by simp
  ultimately show "source (set_entry t i ?e s) p i" using v(2,3) unfolding source_def by metis
qed

lemma set_user_path_run:
  assumes ok: "pt_ok s" and at: "table_at s (PD_INDEX v # pd_path v) = Some pt"
  shows "retag s (paging_set_user_path v s)" and "user_path (paging_set_user_path v s) (PD_INDEX v # pd_path v)"
proof -
  let ?i4 = "PML4_INDEX v" and ?i3 = "PDP_INDEX v" and ?i2 = "PD_INDEX v"
  obtain pd where pd: "table_at s [?i3, ?i4] = Some pd" using at by (auto simp: pd_path_def split: option.splits)
  obtain pdpt where pdpt: "table_at s [?i4] = Some pdpt"
    using pd by (cases "table_at s [?i4]") (simp_all del: table_at.simps(2) add: table_at.simps(2) [of s ?i3])
  have p4: "table_at s [] = Some (pml4 s)" by simp
  have vp: "valid_path [?i4]" "valid_path [?i3, ?i4]" "valid_path [?i2, ?i3, ?i4]" by (simp_all add: valid_path_def)
  have at': "table_at s [?i2, ?i3, ?i4] = Some pt" using at by (simp only: pd_path_def)
  define s1 where "s1 = set_entry (pml4 s) ?i4 (get_entry (pml4 s) ?i4 s OR PAGE_USER) s"
  note a = retag_user [OF ok vp(1) pdpt p4, folded s1_def]
  note at1 = retagD(3) [OF a(1)] and ok1 = retagD(2) [OF a(1)]
  have pdpt1: "table_at s1 [?i4] = Some pdpt" "table_at s1 [?i3, ?i4] = Some pd" using at1 vp pdpt pd by metis+
  define s2 where "s2 = set_entry pdpt ?i3 (get_entry pdpt ?i3 s1 OR PAGE_USER) s1"
  note b = retag_user [OF ok1 vp(2) pdpt1(2,1), folded s2_def]
  note at2 = retagD(3) [OF b(1)] and ok2 = retagD(2) [OF b(1)]
  have pd2: "table_at s2 [?i3, ?i4] = Some pd" "table_at s2 [?i2, ?i3, ?i4] = Some pt" using at1 at2 vp pd at' by metis+
  define s3 where "s3 = set_entry pd ?i2 (get_entry pd ?i2 s2 OR PAGE_USER) s2"
  note c = retag_user [OF ok2 vp(3) pd2(2,1), folded s3_def]
  have p41: "pml4 s1 = pml4 s" by (simp add: s1_def)
  have g4: "get_entry (pml4 s) ?i4 s1 = get_entry (pml4 s) ?i4 s OR PAGE_USER" by (simp add: s1_def)
  have g3: "get_entry pdpt ?i3 s2 = get_entry pdpt ?i3 s1 OR PAGE_USER" by (simp add: s2_def)
  have run: "paging_set_user_path v s = s3"
    unfolding paging_set_user_path_def Let_def s1_def [symmetric] p41 g4 user_bit table_entry_virt_def a(3) s2_def [symmetric] g3 b(3)
      s3_def [symmetric]
    using a(4) b(4) by simp
  show "retag s (paging_set_user_path v s)" unfolding run by (rule retag_trans [OF a(1) retag_trans [OF b(1) c(1)]])
  have "source s3 [] ?i4" "source s3 [?i4] ?i3"
    using retagD(6) [OF c(1) _ retagD(6) [OF b(1) _ a(2)]] retagD(6) [OF c(1) _ b(2)] vp by simp_all
  then show "user_path (paging_set_user_path v s) (PD_INDEX v # pd_path v)"
    unfolding run pd_path_def using c(2) by simp
qed

text \<open>A page of the image becomes the program's, at its own address.\<close>

lemma promote_run:
  assumes ok: "pt_ok s" and v: "page_aligned v" "USER_IMAGE_PHYS_START \<le> v" "v < USER_IMAGE_PHYS_END"
    and pt0: "paging_get_pt v s \<noteq> 0" and fl: "flags AND PTE_ADDR_MASK = 0" "pte_present flags"
  obtains s' where "paging_promote_user_identity v flags s = (0, s')" and "s' = s\<lparr>mem := mem s'\<rparr>" and "pt_ok s'"
    and "\<And>q. valid_path q \<Longrightarrow> table_at s' q = table_at s q"
    and "\<And>w. paging_virt_to_phys w s' = (if same_page v w then v + (w AND (PAGE_SIZE - 1)) else paging_virt_to_phys w s)"
    and "\<And>a. \<not> table_frame s (page_of a) \<Longrightarrow> mem s' a = mem s a"
    and "\<And>q j. valid_path q \<Longrightarrow> source s q j \<Longrightarrow> source s' q j"
    and "\<And>w. same_page v w \<Longrightarrow> user_path s' (PT_INDEX w # pt_path w)"
proof -
  let ?s1 = "paging_set_user_path v s"
  obtain pt where at: "table_at s (PD_INDEX v # pd_path v) = Some pt" and pt: "paging_get_pt v s = pt" "pt \<noteq> 0"
    using pt0 unfolding paging_get_pt_tree(1) [OF ok] by (auto split: option.splits simp del: table_at.simps)
  note r = set_user_path_run [OF ok at]
  note R = retagD [OF r(1)]
  have at1: "table_at ?s1 (PD_INDEX v # pd_path v) = Some pt" using R(3) [OF valid_pt_path] at by metis
  let ?e = "v OR flags OR PAGE_USER OR PAGE_WRITABLE" and ?f = "flags OR PAGE_USER OR PAGE_WRITABLE"
  let ?s = "set_entry pt (PT_INDEX v) ?e ?s1"
  have pg: "v AND PAGE_MASK = v" by (rule aligned_low(2) [OF v(1)])
  have run: "paging_promote_user_identity v flags s = (0, ?s)"
    unfolding paging_promote_user_identity_def Let_def pg pt(1) using v(2,3) pt(2) by (simp add: not_less)
  have lt: "unat v < 2 ^ 52" using v(3) by (simp add: unat_less_iff)
  have vm: "v AND PTE_ADDR_MASK = v" by (rule aligned_low_mask [OF v(1) lt])
  have e: "pte_present ?e" "?e AND PTE_ADDR_MASK = v" "pte_user ?e"
    using fl(2) by (simp_all add: pte_present_def pte_user_def bit.conj_disj_distrib2 or_eq_0_iff vm fl(1) del: PTE_ADDR_MASK_def)
      (simp_all add: PTE_ADDR_MASK_def)
  have len: "length (PD_INDEX v # pd_path v) = 3" by simp
  note leaf = at1 valid_pt_path len
  have tal: "page_aligned pt" by (rule pt_ok_table(3) [OF R(2) valid_pt_path at1])
  have tf: "table_frame s pt" using at valid_pt_path unfolding table_frame_def by blast
  have same: "table_at ?s q = table_at ?s1 q" if "valid_path q" for q by (rule leaf_table_at [OF R(2) leaf index_less(4) that])
  have shape: "?s = s\<lparr>mem := mem ?s\<rparr>"
    by (rule memory_only_trans [OF R(1), of _ "mem ?s"]) (simp add: set_entry_def)
  have memk: "mem ?s a = mem s a" if "\<not> table_frame s (page_of a)" for a
  proof -
    have pa: "page_of a \<noteq> pt" using tf that by metis
    show ?thesis unfolding set_entry_mem [OF tal index_less(4) pa] by (rule R(5) [OF that])
  qed
  have src: "source ?s q j" if q: "valid_path q" "source ?s1 q j" for q j
  proof -
    obtain u where u: "length q \<le> 3" "j < 512" "table_at ?s1 q = Some u" "copies q (get_entry u j ?s1)" using q(2) unfolding source_def by blast
    have "page_aligned u" by (rule pt_ok_table(3) [OF R(2) q(1) u(3)])
    then have g: "get_entry u j ?s = (if u = pt \<and> j = PT_INDEX v then ?e else get_entry u j ?s1)"
      using tal u(2) by (intro get_set_entry) simp_all
    have "q = PD_INDEX v # pd_path v" if "u = pt" using pt_ok_inject [OF R(2) q(1) valid_pt_path u(3)] at1 that by metis
    then have "copies q ?e" if "u = pt" using that e by (simp add: copies_def)
    then have "copies q (get_entry u j ?s)" using u(4) unfolding g by simp
    then show ?thesis using u(1-3) same [OF q(1)] unfolding source_def by metis
  qed
  have own: "source ?s (PD_INDEX v # pd_path v) (PT_INDEX v)"
  proof -
    have "copies (PD_INDEX v # pd_path v) (get_entry pt (PT_INDEX v) ?s)" using e by (simp add: copies_def)
    moreover have "table_at ?s (PD_INDEX v # pd_path v) = Some pt" using same [OF valid_pt_path] at1 by metis
    ultimately show ?thesis unfolding source_def using len index_less(4) by (metis order_refl)
  qed
  have path: "user_path ?s q" if "user_path ?s1 q" "valid_path q" for q
    using that
  proof (induction q)
    case (Cons j q)
    then have "valid_path q" "user_path ?s q" by (simp_all add: valid_path_Cons)
    then show ?case using src Cons.prems(1) by simp
  qed simp
  have user: "user_path ?s (PT_INDEX v # pt_path v)" using own path [OF r(2) valid_pt_path] by (simp del: user_path.simps add: user_path.simps(2) [of _ "PT_INDEX v"])
  show thesis
  proof (rule that [OF run shape])
    show "pt_ok ?s" by (rule leaf_pt_ok [OF R(2) leaf index_less(4)])
    show "table_at ?s q = table_at s q" if "valid_path q" for q using same [OF that] R(3) [OF that] by simp
    show "paging_virt_to_phys w ?s = (if same_page v w then v + (w AND (PAGE_SIZE - 1)) else paging_virt_to_phys w s)" for w
      unfolding leaf_virt [OF R(2) at1] R(4) using e by simp
    show "mem ?s a = mem s a" if "\<not> table_frame s (page_of a)" for a by (rule memk [OF that])
    show "source ?s q j" if "valid_path q" "source s q j" for q j by (rule src [OF that(1) R(6) [OF that]])
    show "user_path ?s (PT_INDEX w # pt_path w)" if "same_page v w" for w using user that unfolding same_page_paths by simp
  qed
qed

section \<open>Bytes from a file\<close>

text \<open>Only the first \<open>len\<close> bytes of the buffer are written.\<close>

lemma write_phys_take:
  fixes s :: "'a kpaging_scheme"
  shows "paging_write_phys phys src len s = paging_write_phys phys (take (unat len) src) len s"
proof (induction "unat len" arbitrary: phys src len s rule: less_induct)
  case less
  show ?case
  proof (cases "len = 0")
    case True
    then show ?thesis by (simp add: paging_write_phys.simps)
  next
    case False
    let ?c = "page_chunk phys len" and ?w = KERNEL_KMAP_WINDOW
    note c = page_chunk_bounds(1,2) [OF False, of phys]
    have le: "unat ?c \<le> unat len" using c by (simp only: unat_le_iff)
    have "0 < unat ?c" using c(1) by (simp add: unat_gt_0)
    then have shorter: "unat (len - ?c) < unat len" using le c(2) by (simp add: unat_sub_le)
    obtain r s1 where m: "paging_map_page ?w (phys AND PAGE_MASK) (PAGE_PRESENT OR PAGE_WRITABLE) s = (r, s1)" by fastforce
    have tk: "take (unat ?c) (take (unat len) src) = take (unat ?c) src" using le by simp
    have dr: "drop (unat ?c) (take (unat len) src) = take (unat (len - ?c)) (drop (unat ?c) src)"
      unfolding unat_sub_le [OF c(2)] by (rule drop_take)
    show ?thesis
    proof (cases "r = 0")
      case True
      have "paging_write_phys (phys + ?c) (drop (unat ?c) src) (len - ?c) (paging_unmap_page ?w s2) =
        paging_write_phys (phys + ?c) (take (unat (len - ?c)) (drop (unat ?c) src)) (len - ?c) (paging_unmap_page ?w s2)" for s2 :: "'a kpaging_scheme"
        by (rule less [OF shorter])
      then show ?thesis
        unfolding paging_write_phys.simps [of phys src] paging_write_phys.simps [of phys "take (unat len) src"] Let_def m tk dr
        using False True by simp
    next
      case r: False
      then show ?thesis
        unfolding paging_write_phys.simps [of phys src] paging_write_phys.simps [of phys "take (unat len) src"] Let_def m
        using False by simp
    qed
  qed
qed

definition program_file :: "u8 list \<Rightarrow> u8 list \<Rightarrow> 'a kvfs_scheme \<Rightarrow> bool" where
  "program_file path bs s \<longleftrightarrow> vfs_ok s \<and> 0 \<notin> set path \<and> length bs < 2 ^ 63 \<and>
     (\<exists>a i. vfs_lookup_path path True s = Some a \<and> a \<noteq> 0 \<and> inodes s a = Some i \<and> i_type i = VFS_TYPE_FILE \<and> file_content i = bs)"

lemma program_file_read:
  assumes "program_file path bs s"
  shows "vfs_read_at path off cnt s = Some (int (min (unat cnt) (length bs - unat off)), take (unat cnt) (drop (unat off) bs))"
proof -
  obtain a i where f: "vfs_ok s" "length bs < 2 ^ 63" "vfs_lookup_path path True s = Some a" "a \<noteq> 0" "inodes s a = Some i"
    "i_type i = VFS_TYPE_FILE" "file_content i = bs" using assms unfolding program_file_def by blast
  have ok: "inode_ok s i" by (rule vfs_okD(3) [OF f(1,5)])
  have sz: "length bs = unat (i_size i)" using file_content_length [OF ok f(6)] f(7) by simp
  show ?thesis using read_at_file [OF f(3-6) ok] f(2,7) sz by simp
qed

lemma program_file_kept:
  assumes "program_file path bs s" and "kpaging.more s' = kpaging.more s"
  shows "program_file path bs s'"
proof -
  obtain a i where f: "vfs_ok s" "0 \<notin> set path" "length bs < 2 ^ 63" "vfs_lookup_path path True s = Some a" "a \<noteq> 0" "inodes s a = Some i"
    "i_type i = VFS_TYPE_FILE" "file_content i = bs" using assms unfolding program_file_def by blast
  have same: "heap_view s' = heap_view s" "inodes s' = inodes s" "root_inode s' = root_inode s" "kheap.more s' = kheap.more s"
    using assms(2) by (cases s; cases s'; simp add: heap_view_def)+
  have ok: "vfs_ok s'" using f(1) vfs_view_same [OF same(1-3)] by simp
  have "vfs_lookup_path path True s' = Some a" by (rule lookup_extends [OF f(1) ok extends_heap [OF same(4)] f(2,4,5)])
  then show ?thesis using ok f same(2) unfolding program_file_def by metis
qed

section \<open>One page of a segment\<close>

text \<open>A segment that lies in the image window and whose bytes the file \<open>bs\<close> has; and the byte that belongs at an
  address: one of the file, or zero.\<close>

definition segment_ok :: "elf64_phdr \<Rightarrow> u8 list \<Rightarrow> bool" where
  "segment_ok ph bs \<longleftrightarrow> unat USER_IMAGE_PHYS_START \<le> unat (p_vaddr ph) \<and>
     unat (p_vaddr ph) + unat (p_memsz ph) \<le> unat USER_IMAGE_PHYS_END \<and> p_filesz ph \<le> p_memsz ph \<and>
     unat (p_offset ph) + unat (p_filesz ph) \<le> length bs"

definition seg_byte :: "elf64_phdr \<Rightarrow> u8 list \<Rightarrow> u64 \<Rightarrow> u8" where
  "seg_byte ph bs a =
     (if unat (p_vaddr ph) \<le> unat a \<and> unat a < unat (p_vaddr ph) + unat (p_filesz ph)
      then bs ! (unat (p_offset ph) + (unat a - unat (p_vaddr ph))) else 0)"

lemma page_of_unat: "page_aligned f \<Longrightarrow> page_of a = f \<longleftrightarrow> unat f \<le> unat a \<and> unat a < unat f + 4096"
proof -
  assume al: "page_aligned f"
  then obtain k where k: "unat f = k * 4096" unfolding page_aligned_def by (metis dvdE mod_0_imp_dvd mult.commute)
  have "page_of a = f \<longleftrightarrow> unat a div 4096 = k" unfolding unat_eq_iff unat_page_of k by simp
  also have "\<dots> \<longleftrightarrow> k * 4096 \<le> unat a \<and> unat a < k * 4096 + 4096"
    using page_step(1) [of "unat a" k] page_step(2) [of "unat a"] by auto
  finally show ?thesis unfolding k .
qed

lemma offset_less:
  fixes a c :: u64
  assumes "unat c + n \<le> 2 ^ 64"
  shows "unat (a - c) < n \<longleftrightarrow> unat c \<le> unat a \<and> unat a < unat c + n"
proof (cases "c \<le> a")
  case True
  then show ?thesis using unat_sub_le [OF True] by (auto simp: unat_le_iff)
next
  case False
  have "\<not> unat (a - c) < n"
  proof
    assume "unat (a - c) < n"
    then have "unat (c + (a - c)) = unat c + unat (a - c)" using assms by (intro unat_add_small) simp
    then show False using False by (simp add: unat_le_iff)
  qed
  then show ?thesis using False by (simp add: unat_le_iff)
qed

text \<open>Clearing the page and copying the file's part of it.\<close>

lemma segment_fill:
  assumes ok: "space_ok s" and A: "page_aligned A" "unat A < 2 ^ 31" "\<not> table_frame s A"
    and G: "segment_ok ph bs" and pf: "program_file path bs s"
    and cs: "copy_start = (if A < p_vaddr ph then p_vaddr ph else A)"
    and ce: "copy_end = (if A + PAGE_SIZE < p_vaddr ph + p_filesz ph then A + PAGE_SIZE else p_vaddr ph + p_filesz ph)"
  obtains s1 s2 where "paging_clear_phys A PAGE_SIZE s = Some (0, s1)"
    and "(if copy_start < copy_end then
            (let len = copy_end - copy_start; src_off = p_offset ph + (copy_start - p_vaddr ph)
             in if len > 4096 then Some (- 1, s1)
                else do { (n, bytes) \<leftarrow> vfs_read_at path src_off len s1;
                          if n < 0 then Some (- 1, s1)
                          else do { (w, s2) \<leftarrow> paging_write_phys copy_start (bytes @ drop (length bytes) junk) len s1;
                                    Some (if w \<noteq> 0 then - 1 else 0, s2) } })
          else Some (0, s1)) = Some (0 :: int, s2)"
    and "window_step s s2"
    and "\<And>a. \<not> table_frame s (page_of a) \<Longrightarrow> mem s2 a = (if page_of a = A then seg_byte ph bs a else mem s a)"
proof -
  obtain s1 where s1: "paging_clear_phys A PAGE_SIZE s = Some (0, s1)" "window_step s s1"
    "\<And>a. \<not> table_frame s (page_of a) \<Longrightarrow> mem s1 a = (if page_of a = A then 0 else mem s a)"
    by (rule clear_frame_run [OF ok A], rule that)
  note f1 = window_step_facts [OF s1(2) ok]
  let ?va = "unat (p_vaddr ph)" and ?fs = "unat (p_filesz ph)" and ?off = "unat (p_offset ph)"
  have g: "?va + ?fs \<le> 0x800000" "?off + ?fs \<le> length bs" "length bs < 2 ^ 63"
    using G pf unfolding segment_ok_def program_file_def unat_le_iff by simp_all
  have fe: "unat (p_vaddr ph + p_filesz ph) = ?va + ?fs" by (rule unat_add_small) (use g in simp)
  have pe: "unat (A + PAGE_SIZE) = unat A + 4096" using A(2) by (simp add: unat_add_small)
  have ucs: "unat copy_start = max (unat A) ?va" unfolding cs by (simp add: max_def unat_less_iff)
  have uce: "unat copy_end = min (unat A + 4096) (?va + ?fs)" unfolding ce using fe pe by (simp add: min_def unat_less_iff)
  show thesis
  proof (cases "copy_start < copy_end")
    case False
    have "seg_byte ph bs a = 0" if "page_of a = A" for a
      using False that page_of_unat [OF A(1), of a] unfolding unat_less_iff ucs uce seg_byte_def by auto
    then show thesis using s1 False by (intro that [OF s1(1), of s1]) simp_all
  next
    case True
    let ?len = "copy_end - copy_start" and ?so = "p_offset ph + (copy_start - p_vaddr ph)"
    have lt: "unat copy_start < unat copy_end" using True by (simp only: unat_less_iff)
    have ul: "unat ?len = unat copy_end - unat copy_start" by (rule unat_sub_le) (use True in simp)
    have small: "unat ?len \<le> 4096" unfolding ul ucs uce by auto
    have "unat (copy_start - p_vaddr ph) = unat copy_start - ?va" by (rule unat_sub_le) (simp add: unat_le_iff ucs)
    moreover have "unat copy_start - ?va \<le> ?fs" using lt uce by linarith
    then have "?off + (unat copy_start - ?va) < 2 ^ 64" using g(2,3) by simp
    ultimately have uso: "unat ?so = ?off + (unat copy_start - ?va)" by (subst unat_add_small) simp_all
    let ?n = "unat ?len"
    have inb: "unat ?so + ?n \<le> length bs" unfolding uso ul using g lt uce ucs by auto
    let ?bytes = "take ?n (drop (unat ?so) bs)"
    have rd: "vfs_read_at path ?so ?len s1 = Some (int ?n, ?bytes)"
      using program_file_read [OF program_file_kept [OF pf f1(2)], of ?so ?len] inb by simp
    have lb: "length ?bytes = ?n" using inb by simp
    have out: "outside_tables s1 copy_start ?n"
      unfolding outside_tables_def
    proof (intro conjI allI impI)
      show "unat copy_start + ?n \<le> 2 ^ 52" unfolding ul using lt uce A(2) by simp
      fix i assume i: "i < ?n"
      have "unat (copy_start + of_nat i) = unat copy_start + i"
        using i small ucs A(2) g by (simp add: unat_add_small unat_of_nat_small)
      then have "page_of (copy_start + of_nat i) = A" using page_of_unat [OF A(1)] i lt unfolding ul ucs uce by auto
      then show "\<not> table_frame s1 (page_of (copy_start + of_nat i))" using A(3) f1(6) by simp
    qed
    have ready: "window_ready s1" using f1(1) by (simp add: space_ok_def)
    obtain s2 where s2: "paging_write_phys copy_start ?bytes ?len s1 = Some (0, s2)" "window_step s1 s2"
      "\<forall>a. \<not> table_frame s1 (page_of a) \<longrightarrow> mem s2 a = mem_write (mem s1) copy_start ?bytes a"
      using write_phys_run [OF ready, of ?len ?bytes copy_start] lb out by auto
    have wr: "paging_write_phys copy_start (?bytes @ drop (length ?bytes) junk) ?len s1 = Some (0, s2)"
      unfolding write_phys_take [of copy_start "?bytes @ drop (length ?bytes) junk"] using s2(1) lb by simp
    have "mem s2 a = (if page_of a = A then seg_byte ph bs a else mem s a)" if a: "\<not> table_frame s (page_of a)" for a
    proof -
      have cn: "unat copy_start + ?n \<le> 2 ^ 64" unfolding ul using lt uce A(2) by simp
      have cen: "unat copy_start + ?n = unat copy_end" unfolding ul using lt by simp
      have at: "unat (a - copy_start) < ?n \<longleftrightarrow> unat copy_start \<le> unat a \<and> unat a < unat copy_end"
        using offset_less [OF cn, of a] unfolding cen .
      have nt: "\<not> table_frame s1 (page_of a)" using a f1(6) by simp
      have lim: "length ?bytes \<le> 2 ^ 64" unfolding lb using small by simp
      have m2: "mem s2 a = (if unat (a - copy_start) < ?n then ?bytes ! unat (a - copy_start) else mem s1 a)"
        unfolding s2(3) [rule_format, OF nt] mem_write_apply [OF lim] lb ..
      show ?thesis
      proof (cases "unat copy_start \<le> unat a \<and> unat a < unat copy_end")
        case True
        then have lt_n: "unat (a - copy_start) < ?n" using at by simp
        have d: "unat (a - copy_start) = unat a - unat copy_start" by (rule unat_sub_le) (use True in \<open>simp add: unat_le_iff\<close>)
        have pa: "page_of a = A" using page_of_unat [OF A(1), of a] True unfolding ucs uce by auto
        have "?bytes ! unat (a - copy_start) = bs ! (unat ?so + unat (a - copy_start))" using lt_n inb by simp
        moreover have "unat ?so + unat (a - copy_start) = ?off + (unat a - ?va)" unfolding uso d using True ucs by simp
        moreover have "?va \<le> unat a \<and> unat a < ?va + ?fs" using True ucs uce by simp
        ultimately show ?thesis using m2 lt_n pa by (simp add: seg_byte_def)
      next
        case False
        then have "mem s2 a = mem s1 a" unfolding m2 at by (rule if_not_P)
        moreover have "seg_byte ph bs a = 0" if "page_of a = A"
          using False that page_of_unat [OF A(1), of a] unfolding ucs uce seg_byte_def by auto
        ultimately show ?thesis using s1(3) [OF a] by simp
      qed
    qed
    then show thesis
      using s1(1) window_step_trans [OF s1(2) s2(2)] True small rd wr
      by (intro that [OF s1(1), of s2]) (simp_all add: Let_def word_le_nat_alt not_less)
  qed
qed

section \<open>The pages of a segment\<close>

text \<open>The page tables of the image window are in place, its frames hold no table, and the page directory that the
  splitting loop looks at has no large page there.\<close>

definition pd_ready :: "'a kpaging_scheme \<Rightarrow> bool" where
  "pd_ready s \<longleftrightarrow> table_at s [0, 0] = Some (pd0 s) \<or>
     (page_aligned (pd0 s) \<and> \<not> table_frame s (pd0 s) \<and> \<not> (1024 \<le> unat (pd0 s) div 4096 \<and> unat (pd0 s) div 4096 < 2048) \<and>
      (\<forall>i \<in> {2, 3}. \<not> (pte_present (get_entry (pd0 s) i s) \<and> pte_huge (get_entry (pd0 s) i s))))"

definition image_ready :: "'a kpaging_scheme \<Rightarrow> bool" where
  "image_ready s \<longleftrightarrow> space_ok s \<and> pd_ready s \<and>
     (\<forall>p. 1024 \<le> p \<longrightarrow> p < 2048 \<longrightarrow> paging_get_pt (of_nat p * PAGE_SIZE) s \<noteq> 0 \<and>
        frame_used s (of_nat p * PAGE_SIZE) \<and> \<not> table_frame s (of_nat p * PAGE_SIZE))"

lemma image_readyD:
  assumes "image_ready s"
  shows "space_ok s" and "pd_ready s" and "1024 \<le> p \<Longrightarrow> p < 2048 \<Longrightarrow> paging_get_pt (of_nat p * PAGE_SIZE) s \<noteq> 0"
    and "1024 \<le> p \<Longrightarrow> p < 2048 \<Longrightarrow> frame_used s (of_nat p * PAGE_SIZE)"
    and "1024 \<le> p \<Longrightarrow> p < 2048 \<Longrightarrow> \<not> table_frame s (of_nat p * PAGE_SIZE)"
  using assms unfolding image_ready_def by blast+

abbreviation page_no :: "u64 \<Rightarrow> nat" where
  "page_no v \<equiv> unat v div 4096"

definition image_upto :: "'a kpaging_scheme \<Rightarrow> (u64 \<Rightarrow> u8) \<Rightarrow> nat \<Rightarrow> nat \<Rightarrow> 'a kpaging_scheme \<Rightarrow> bool" where
  "image_upto s0 f k n s \<longleftrightarrow> s = s0\<lparr>mem := mem s\<rparr> \<and> space_ok s \<and> (\<forall>q. valid_path q \<longrightarrow> table_at s q = table_at s0 q) \<and>
     (\<forall>v. \<not> same_page KERNEL_KMAP_WINDOW v \<longrightarrow> unat v < 2 ^ 48 \<longrightarrow>
        paging_virt_to_phys v s = (if k \<le> page_no v \<and> page_no v < n then v else paging_virt_to_phys v s0)) \<and>
     (\<forall>a. \<not> table_frame s0 (page_of a) \<longrightarrow> mem s a = (if k \<le> page_no a \<and> page_no a < n then f a else mem s0 a)) \<and>
     (\<forall>v. k \<le> page_no v \<longrightarrow> page_no v < n \<longrightarrow> v \<in> user_space s)"

lemma image_uptoD:
  assumes "image_upto s0 f k n s"
  shows "s = s0\<lparr>mem := mem s\<rparr>" and "space_ok s" and "valid_path q \<Longrightarrow> table_at s q = table_at s0 q"
    and "\<not> same_page KERNEL_KMAP_WINDOW v \<Longrightarrow> unat v < 2 ^ 48 \<Longrightarrow>
      paging_virt_to_phys v s = (if k \<le> page_no v \<and> page_no v < n then v else paging_virt_to_phys v s0)"
    and "\<not> table_frame s0 (page_of a) \<Longrightarrow> mem s a = (if k \<le> page_no a \<and> page_no a < n then f a else mem s0 a)"
    and "k \<le> page_no v \<Longrightarrow> page_no v < n \<Longrightarrow> v \<in> user_space s"
  using assms unfolding image_upto_def by (blast, blast, blast, blast, blast, blast)

lemma image_fields:
  assumes "image_upto s0 f k n s"
  shows "kpaging.more s = kpaging.more s0" and "cr3 s = cr3 s0" and "pml4 s = pml4 s0" and "pd0 s = pd0 s0"
    and "frame_used s g = frame_used s0 g" and "table_frame s g = table_frame s0 g"
proof -
  note s = image_uptoD(1) [OF assms]
  show "kpaging.more s = kpaging.more s0" "cr3 s = cr3 s0" "pml4 s = pml4 s0" "pd0 s = pd0 s0" by (subst s, simp)+
  show "frame_used s g = frame_used s0 g" by (subst s) (simp add: frame_used_def bitmap_test_def)
  show "table_frame s g = table_frame s0 g" using image_uptoD(3) [OF assms] unfolding table_frame_def by metis
qed

lemma image_refl: "space_ok s \<Longrightarrow> image_upto s f k k s"
  by (auto simp: image_upto_def)

text \<open>The window's page table is not one of the image, so its use keeps the program's path.\<close>

lemma image_window:
  assumes "1024 \<le> page_no v" and "page_no v < 2048"
  shows "\<not> same_page KERNEL_KMAP_WINDOW v" and "pd_path v = [0, 0]"
    and "PD_INDEX v # pd_path v \<noteq> PD_INDEX KERNEL_KMAP_WINDOW # pd_path KERNEL_KMAP_WINDOW" and "unat v < 2 ^ 48"
proof -
  have n18: "page_no v < 2 ^ 18" using assms by simp
  note idx = low_indices [OF refl n18]
  have w: "PD_INDEX KERNEL_KMAP_WINDOW = 40" by (simp add: PD_INDEX_def)
  have lt: "page_no v div 512 < 4" using assms by simp
  then have "unat (of_nat (page_no v div 512) :: u64) = page_no v div 512" by (intro unat_of_nat_small) simp
  then have "PD_INDEX v \<noteq> 40" using lt unfolding idx(2) unat_eq_iff by simp
  then show "PD_INDEX v # pd_path v \<noteq> PD_INDEX KERNEL_KMAP_WINDOW # pd_path KERNEL_KMAP_WINDOW"
    and "\<not> same_page KERNEL_KMAP_WINDOW v" using w by (simp_all add: same_page_def)
  show "pd_path v = [0, 0]" by (rule idx(1))
  show "unat v < 2 ^ 48" using assms(2) by simp
qed

lemma window_step_source:
  assumes ok: "pt_ok s" and st: "window_step s s'" and q: "valid_path q" "q \<noteq> PD_INDEX KERNEL_KMAP_WINDOW # pd_path KERNEL_KMAP_WINDOW"
    and src: "source s q j"
  shows "source s' q j"
proof -
  obtain u where u: "length q \<le> 3" "j < 512" "table_at s q = Some u" "copies q (get_entry u j s)" using src unfolding source_def by blast
  have tf: "table_frame s u" using q(1) u(3) unfolding table_frame_def by blast
  have "table_at s (PD_INDEX KERNEL_KMAP_WINDOW # pd_path KERNEL_KMAP_WINDOW) \<noteq> Some u"
    using pt_ok_inject [OF ok q(1) valid_pt_path u(3)] q(2) by blast
  then have "mem s' a = mem s a" if "page_of a = u" for a
    using st tf that unfolding window_step_def by blast
  then have "get_entry u j s' = get_entry u j s" by (rule get_entry_agree [OF pt_ok_table(3) [OF ok q(1) u(3)] u(2)])
  moreover have "table_at s' q = Some u" using st q(1) u(3) unfolding window_step_def by metis
  ultimately show ?thesis using u(1,2,4) unfolding source_def by metis
qed

lemma user_space_sources:
  "v \<in> user_space s \<longleftrightarrow> unat v < 2 ^ 48 \<and> source s [] (PML4_INDEX v) \<and> source s [PML4_INDEX v] (PDP_INDEX v) \<and>
     source s (pd_path v) (PD_INDEX v) \<and> source s (pt_path v) (PT_INDEX v)"
  by (auto simp: user_space_def pd_path_def)

lemma user_space_mono:
  assumes v: "v \<in> user_space s" and m: "\<And>q j. valid_path q \<Longrightarrow> q \<in> {[], [PML4_INDEX v], pd_path v, pt_path v} \<Longrightarrow> source s q j \<Longrightarrow> source s' q j"
  shows "v \<in> user_space s'"
proof -
  have "valid_path [PML4_INDEX v]" by (simp add: valid_path_def)
  then show ?thesis using v m unfolding user_space_sources by simp
qed

lemma segment_page_run:
  assumes R: "image_ready s0" and I: "image_upto s0 (seg_byte ph bs) k n s" and n: "1024 \<le> k" "k \<le> n" "n < 2048"
    and G: "segment_ok ph bs" and pf: "program_file path bs s0"
  shows "\<exists>s'. segment_page junk path ph (of_nat n * PAGE_SIZE) s = Some (0, s') \<and> image_upto s0 (seg_byte ph bs) k (Suc n) s'"
proof -
  let ?A = "of_nat n * PAGE_SIZE :: u64" and ?fl = "elf_segment_flags (p_flags ph)"
  note r = image_readyD [OF R] and i = image_uptoD [OF I] and fld = image_fields [OF I]
  have n18: "n < 2 ^ 18" and n1: "1024 \<le> n" using n by simp_all
  note uA = frame_number(1) [OF n18]
  have A: "page_aligned ?A" "unat ?A < 2 ^ 31" unfolding page_aligned_def uA using n(3) by simp_all
  have tA: "\<not> table_frame s ?A" unfolding fld(6) by (rule r(5) [OF n1 n(3)])
  note ok = space_okD(1) [OF i(2)]
  obtain s1 s2 where clr: "paging_clear_phys ?A PAGE_SIZE s = Some (0, s1)"
    and cpy: "(if (if ?A < p_vaddr ph then p_vaddr ph else ?A) < (if ?A + PAGE_SIZE < p_vaddr ph + p_filesz ph then ?A + PAGE_SIZE else p_vaddr ph + p_filesz ph) then
            (let len = (if ?A + PAGE_SIZE < p_vaddr ph + p_filesz ph then ?A + PAGE_SIZE else p_vaddr ph + p_filesz ph) - (if ?A < p_vaddr ph then p_vaddr ph else ?A);
                 src_off = p_offset ph + ((if ?A < p_vaddr ph then p_vaddr ph else ?A) - p_vaddr ph)
             in if len > 4096 then Some (- 1, s1)
                else do { (n, bytes) \<leftarrow> vfs_read_at path src_off len s1;
                          if n < 0 then Some (- 1, s1)
                          else do { (w, s2) \<leftarrow> paging_write_phys (if ?A < p_vaddr ph then p_vaddr ph else ?A) (bytes @ drop (length bytes) junk) len s1;
                                    Some (if w \<noteq> 0 then - 1 else 0, s2) } })
          else Some (0, s1)) = Some (0 :: int, s2)"
    and st: "window_step s s2"
    and m2: "\<And>a. \<not> table_frame s (page_of a) \<Longrightarrow> mem s2 a = (if page_of a = ?A then seg_byte ph bs a else mem s a)"
    by (rule segment_fill [OF i(2) A tA G program_file_kept [OF pf fld(1)] refl refl], rule that)
  note wf = window_step_facts [OF st i(2)] and ok2 = space_okD(1) [OF window_step_facts(1) [OF st i(2)]]
  have at2: "table_at s2 q = table_at s0 q" if "valid_path q" for q using st i(3) [OF that] that unfolding window_step_def by metis
  have pt: "paging_get_pt ?A s2 \<noteq> 0"
    using r(3) [OF n1 n(3)] unfolding paging_get_pt_tree(1) [OF ok2] paging_get_pt_tree(1) [OF space_okD(1) [OF r(1)]] at2 [OF valid_pt_path] .
  have bd: "USER_IMAGE_PHYS_START \<le> ?A" "?A < USER_IMAGE_PHYS_END" unfolding unat_le_iff unat_less_iff uA using n1 n(3) by simp_all
  have fl: "?fl AND PTE_ADDR_MASK = 0" "pte_present ?fl" by (simp_all add: elf_segment_flags_def pte_present_def)
  obtain s3 where pro: "paging_promote_user_identity ?A ?fl s2 = (0, s3)" and sh3: "s3 = s2\<lparr>mem := mem s3\<rparr>" and ok3: "pt_ok s3"
    and at3: "\<And>q. valid_path q \<Longrightarrow> table_at s3 q = table_at s2 q"
    and v3: "\<And>w. paging_virt_to_phys w s3 = (if same_page ?A w then ?A + (w AND (PAGE_SIZE - 1)) else paging_virt_to_phys w s2)"
    and m3: "\<And>a. \<not> table_frame s2 (page_of a) \<Longrightarrow> mem s3 a = mem s2 a"
    and src3: "\<And>q j. valid_path q \<Longrightarrow> source s2 q j \<Longrightarrow> source s3 q j"
    and usr3: "\<And>w. same_page ?A w \<Longrightarrow> user_path s3 (PT_INDEX w # pt_path w)"
    by (rule promote_run [OF ok2 A(1) bd pt fl], rule that)
  have run: "segment_page junk path ph ?A s = Some (0, s3)"
    unfolding segment_page_def Let_def clr bind.bind_lunit case_prod_conv cpy [unfolded Let_def] pro by simp
  have in_page: "same_page ?A v \<longleftrightarrow> page_no v = n" if "unat v < 2 ^ 48" for v
  proof -
    have "unat ?A < 2 ^ 48" "page_no ?A = n" unfolding uA using n(3) by simp_all
    then show ?thesis using same_page_number [OF _ that, of ?A] by auto
  qed
  have shape: "s3 = s0\<lparr>mem := mem s3\<rparr>"
  proof (rule memory_only_trans [OF _ sh3])
    show "s2 = s0\<lparr>mem := mem s2\<rparr>" by (rule memory_only_trans [OF i(1)]) (use st in \<open>simp add: window_step_def\<close>)
  qed
  have "cr3 s3 = cr3 s2" "pml4 s3 = pml4 s2" "frames_ok s3 = frames_ok s2"
    by (subst sh3, simp)+ (subst sh3, simp add: frames_ok_def bitmap_test_def)
  moreover have "paging_get_pt KERNEL_KMAP_WINDOW s3 = paging_get_pt KERNEL_KMAP_WINDOW s2"
    unfolding paging_get_pt_tree(1) [OF ok2] paging_get_pt_tree(1) [OF ok3] at3 [OF valid_pt_path] ..
  ultimately have space: "space_ok s3" using ok3 wf(1) by (simp add: space_ok_def window_ready_def)
  have virt: "paging_virt_to_phys v s3 = (if k \<le> page_no v \<and> page_no v < Suc n then v else paging_virt_to_phys v s0)"
    if v: "\<not> same_page KERNEL_KMAP_WINDOW v" "unat v < 2 ^ 48" for v
  proof (cases "page_no v = n")
    case True
    then show ?thesis unfolding v3 using in_page [OF v(2)] page_and_offset [OF True n18] n(2) by simp
  next
    case False
    have "paging_virt_to_phys v s2 = paging_virt_to_phys v s" using st v(1) by (simp add: window_step_def)
    then show ?thesis unfolding v3 using False in_page [OF v(2)] i(4) [OF v] by auto
  qed
  have mem: "mem s3 a = (if k \<le> page_no a \<and> page_no a < Suc n then seg_byte ph bs a else mem s0 a)" if a: "\<not> table_frame s0 (page_of a)" for a
  proof -
    have t: "\<not> table_frame s (page_of a)" "\<not> table_frame s2 (page_of a)" using a fld(6) wf(6) by simp_all
    have "page_of a = ?A \<longleftrightarrow> page_no a = n" unfolding unat_eq_iff unat_page_of uA by simp
    then show ?thesis using m3 [OF t(2)] m2 [OF t(1)] i(5) [OF a] n(2) by auto
  qed
  have user: "v \<in> user_space s3" if v: "k \<le> page_no v" "page_no v < Suc n" for v
  proof (cases "page_no v = n")
    case True
    then have "unat v < 2 ^ 48" using n(3) by simp
    then show ?thesis using usr3 True in_page by (simp add: user_space_def del: user_path.simps)
  next
    case False
    then have w: "v \<in> user_space s" "1024 \<le> page_no v" "page_no v < 2048" using i(6) v n by simp_all
    note iw = image_window [OF w(2,3)]
    have "v \<in> user_space s2"
    proof (rule user_space_mono [OF w(1)])
      fix q j assume q: "valid_path q" "q \<in> {[], [PML4_INDEX v], pd_path v, pt_path v}" "source s q j"
      have "q \<noteq> PD_INDEX KERNEL_KMAP_WINDOW # pd_path KERNEL_KMAP_WINDOW" using q(2) iw(3) by (auto simp: pd_path_def)
      then show "source s2 q j" by (rule window_step_source [OF ok st q(1) _ q(3)])
    qed
    then show ?thesis by (rule user_space_mono) (rule src3)
  qed
  have "image_upto s0 (seg_byte ph bs) k (Suc n) s3"
    unfolding image_upto_def by (intro conjI allI impI shape space virt mem user) (simp_all add: at3 at2)
  then show ?thesis using run by blast
qed

section \<open>A whole segment\<close>

text \<open>No large page is left to be split.\<close>

lemma split_range_none:
  assumes R: "image_ready s" and b: "unat USER_IMAGE_PHYS_START \<le> unat a" "unat b \<le> unat USER_IMAGE_PHYS_END" "unat b mod 4096 = 0"
  shows "paging_split_huge_range a b s = s"
proof (cases "b \<le> a")
  case True
  then show ?thesis by (simp add: paging_split_huge_range_def)
next
  case False
  note r = image_readyD [OF R] and ok = space_okD(1) [OF image_readyD(1) [OF R]]
  have e: "\<not> (pte_present (get_entry (pd0 s) i s) \<and> pte_huge (get_entry (pd0 s) i s))" if i: "i = 2 \<or> i = 3" for i
  proof (cases "table_at s [0, 0] = Some (pd0 s)")
    case at: True
    define p :: nat where "p = (if i = 2 then 1024 else 1536)"
    have p: "1024 \<le> p" "p < 2048" "p < 2 ^ 18" "of_nat (p div 512) = i" using i by (auto simp: p_def)
    have d: "unat (of_nat p * PAGE_SIZE) div 4096 = p" using frame_number(1) [OF p(3)] by simp
    note idx = low_indices [OF d p(3), unfolded p(4)]
    have "table_at s (i # [0, 0]) \<noteq> None"
      using r(3) [OF p(1,2)] unfolding paging_get_pt_tree(1) [OF ok] idx by (auto split: option.splits simp del: table_at.simps)
    then show ?thesis unfolding table_at.simps(2) [of s i] at by (auto simp: Let_def split: if_splits)
  next
    case False
    then show ?thesis using r(2) i unfolding pd_ready_def by blast
  qed
  have steps: "fold split_range_step is (False, s) = (False, s)" if "\<forall>i \<in> set is. i = 2 \<or> i = 3" for "is"
    using that
  proof (induction "is")
    case (Cons i "is")
    have "(of_nat i :: u64) = 2 \<or> (of_nat i :: u64) = 3" using Cons.prems by auto
    note ne = e [OF this]
    have "split_range_step i (False, s) = (False, s)" unfolding split_range_step_def Let_def prod.case if_not_P [OF ne] by simp
    then show ?case using Cons by simp
  qed simp
  have lt: "unat a < unat b" using False by (simp add: unat_le_iff)
  have u: "unat (drop_bit 21 (x AND PAGE_MASK)) = unat x div 4096 * 4096 div 2097152" for x :: u64
  proof -
    have w: "unat (x AND PAGE_MASK) = unat x div 4096 * 4096" by (rule unat_page_of [unfolded page_of_def])
    show ?thesis unfolding drop_bit_eq_div unat_div w by simp
  qed
  have "1 \<le> b" using lt by (simp add: word_le_nat_alt)
  then have "unat (b - 1) = unat b - 1" by (simp add: unat_sub_le)
  then have "unat (b - 1) div 4096 < 2048" using b(2) lt by simp
  then have "unat (drop_bit 21 ((b - 1) AND PAGE_MASK)) \<le> 3" unfolding u by linarith
  moreover have "1024 \<le> unat a div 4096" using b(1) by simp
  then have "2 \<le> unat (drop_bit 21 (a AND PAGE_MASK))" unfolding u by linarith
  ultimately have "\<forall>i \<in> set [unat (drop_bit 21 (a AND PAGE_MASK)) ..< Suc (unat (drop_bit 21 ((b - 1) AND PAGE_MASK)))]. i = 2 \<or> i = 3"
    by auto
  then show ?thesis unfolding paging_split_huge_range_def Let_def if_not_P [OF False] by (simp only: steps snd_conv)
qed

lemma segment_loop:
  assumes R: "image_ready s0" and G: "segment_ok ph bs" and pf: "program_file path bs s0"
    and "image_upto s0 (seg_byte ph bs) k n s" and "1024 \<le> k" and "k \<le> n" and "n \<le> m" and "m \<le> 2048"
  shows "\<exists>s'. for_status (\<lambda>p. segment_page junk path ph (of_nat p * PAGE_SIZE)) [n..<m] s = Some (0, s') \<and> image_upto s0 (seg_byte ph bs) k m s'"
  using assms(4-)
proof (induction "m - n" arbitrary: n s)
  case 0
  then show ?case by auto
next
  case (Suc l)
  then have n: "n < m" "n < 2048" "l = m - Suc n" by simp_all
  obtain s1 where s1: "segment_page junk path ph (of_nat n * PAGE_SIZE) s = Some (0, s1)" "image_upto s0 (seg_byte ph bs) k (Suc n) s1"
    using segment_page_run [OF R Suc.prems(1-3) n(2) G pf] by blast
  have list: "[n..<m] = n # [Suc n..<m]" using n(1) by (rule upt_conv_Cons)
  show ?case
    unfolding list for_status.simps s1(1) using Suc.hyps(1) [OF n(3) s1(2)] Suc.prems n(1) by simp
qed

lemma image_ready_kept:
  assumes R: "image_ready s0" and I: "image_upto s0 f k n s" and b: "1024 \<le> k" "n \<le> 2048"
  shows "image_ready s"
proof -
  note r = image_readyD [OF R] and i = image_uptoD [OF I] and fld = image_fields [OF I]
  note ok = space_okD(1) [OF i(2)] and ok0 = space_okD(1) [OF r(1)]
  have pt: "paging_get_pt v s = paging_get_pt v s0" for v
    unfolding paging_get_pt_tree(1) [OF ok] paging_get_pt_tree(1) [OF ok0] i(3) [OF valid_pt_path] ..
  have "pd_ready s"
  proof (cases "table_at s0 [0, 0] = Some (pd0 s0)")
    case True
    moreover have "table_at s [0, 0] = table_at s0 [0, 0]" by (rule i(3)) (simp add: valid_path_def)
    ultimately show ?thesis unfolding pd_ready_def fld(4) by simp
  next
    case False
    then have p: "page_aligned (pd0 s0)" "\<not> table_frame s0 (pd0 s0)" "\<not> (1024 \<le> page_no (pd0 s0) \<and> page_no (pd0 s0) < 2048)"
      "\<forall>j \<in> {2, 3}. \<not> (pte_present (get_entry (pd0 s0) j s0) \<and> pte_huge (get_entry (pd0 s0) j s0))"
      using r(2) unfolding pd_ready_def by blast+
    have m: "mem s a = mem s0 a" if a: "page_of a = pd0 s0" for a
    proof -
      have "page_no a = page_no (pd0 s0)" using unat_page_of [of a] unfolding a by simp
      then have "\<not> (k \<le> page_no a \<and> page_no a < n)" using p(3) b by (metis less_le_trans order_trans)
      moreover have "\<not> table_frame s0 (page_of a)" using p(2) a by simp
      ultimately show ?thesis using i(5) by metis
    qed
    have "get_entry (pd0 s0) j s = get_entry (pd0 s0) j s0" if "j < 512" for j by (rule get_entry_agree [OF p(1) that m])
    then show ?thesis using p unfolding pd_ready_def fld(4,6) by simp
  qed
  then show ?thesis using i(2) r(3-5) unfolding image_ready_def pt fld(5,6) by blast
qed

text \<open>C7. Loading a segment.  \<^verbatim>\<open>elf_map_segment\<close> takes a segment that lies in the image window and in the program file: every
  page that the segment touches becomes the program's own, mapped at its own address, and reads as the header says, the bytes
  of the file first and zeros in the rest of the pages.  No other translation changes except that of the kernel's copy
  window, no other memory outside the page tables, and the machine can load the next segment.\<close>

theorem elf_map_segment_loads:
  assumes R: "image_ready s" and pf: "program_file path bs s" and G: "segment_ok ph bs"
  shows "\<exists>s'. elf_map_segment junk path ph s = Some (0, s') \<and> image_ready s' \<and> program_file path bs s' \<and>
    (\<forall>v. page_no (p_vaddr ph) \<le> page_no v \<and> page_no v < (unat (p_vaddr ph) + unat (p_memsz ph) + 4095) div 4096 \<longrightarrow>
       v \<in> user_space s' \<and> paging_virt_to_phys v s' = v \<and> mem s' v = seg_byte ph bs v) \<and>
    (\<forall>v. \<not> (page_no (p_vaddr ph) \<le> page_no v \<and> page_no v < (unat (p_vaddr ph) + unat (p_memsz ph) + 4095) div 4096) \<longrightarrow>
       (\<not> table_frame s (page_of v) \<longrightarrow> mem s' v = mem s v) \<and>
       (unat v < 2 ^ 48 \<and> \<not> same_page KERNEL_KMAP_WINDOW v \<longrightarrow> paging_virt_to_phys v s' = paging_virt_to_phys v s))"
proof -
  let ?a = "p_vaddr ph AND PAGE_MASK" and ?b = "(p_vaddr ph + p_memsz ph + PAGE_SIZE - 1) AND PAGE_MASK"
  define k where "k = page_no (p_vaddr ph)"
  define m where "m = (unat (p_vaddr ph) + unat (p_memsz ph) + 4095) div 4096"
  have g: "unat USER_IMAGE_PHYS_START \<le> unat (p_vaddr ph)" "unat (p_vaddr ph) + unat (p_memsz ph) \<le> unat USER_IMAGE_PHYS_END"
    using G unfolding segment_ok_def by blast+
  have b: "1024 \<le> k" "k \<le> m" "m \<le> 2048" using g by (simp_all add: k_def m_def)
  have sum: "unat (p_vaddr ph + p_memsz ph + PAGE_SIZE - 1) = unat (p_vaddr ph) + unat (p_memsz ph) + 4095"
  proof -
    have "p_vaddr ph + p_memsz ph + PAGE_SIZE - 1 = of_nat (unat (p_vaddr ph) + unat (p_memsz ph) + 4095)" by simp
    then show ?thesis using g by (simp only: unat_of_nat_small) (subst unat_of_nat_small; simp)
  qed
  have ua: "unat ?a = k * 4096" unfolding k_def by (rule unat_page_of [unfolded page_of_def])
  have ub: "unat ?b = m * 4096" unfolding unat_page_of [unfolded page_of_def] sum m_def ..
  have bounds: "unat USER_IMAGE_PHYS_START \<le> unat ?a" "unat ?b \<le> unat USER_IMAGE_PHYS_END" "unat ?b mod 4096 = 0"
    unfolding ua ub using b by simp_all
  have inside: "\<not> (?a < USER_IMAGE_PHYS_START \<or> ?b > USER_IMAGE_PHYS_END)" using bounds(1,2) unfolding unat_less_iff by linarith
  have pages: "unat (?a div PAGE_SIZE) = k" "unat (?b div PAGE_SIZE) = m" unfolding unat_div ua ub by simp_all
  obtain s' where run: "for_status (\<lambda>p. segment_page junk path ph (of_nat p * PAGE_SIZE)) [k..<m] s = Some (0, s')"
    and I: "image_upto s (seg_byte ph bs) k m s'"
    using segment_loop [OF R G pf image_refl [OF image_readyD(1) [OF R]] b(1) order_refl b(2,3)] by blast
  have elf: "elf_map_segment junk path ph s = Some (0, s')"
    unfolding elf_map_segment_def Let_def if_not_P [OF inside] split_range_none [OF R bounds] pages by (rule run)
  note i = image_uptoD [OF I]
  have own: "v \<in> user_space s' \<and> paging_virt_to_phys v s' = v \<and> mem s' v = seg_byte ph bs v" if v: "k \<le> page_no v \<and> page_no v < m" for v
  proof -
    have n: "1024 \<le> page_no v" "page_no v < 2048" using v b by simp_all
    note w = image_window [OF n]
    have "page_of v = of_nat (page_no v) * PAGE_SIZE" using frame_number(1) [of "page_no v"] n unfolding unat_eq_iff unat_page_of by simp
    then have "\<not> table_frame s (page_of v)" using image_readyD(5) [OF R n] by simp
    then show ?thesis using i(4) [OF w(1,4)] i(5) i(6) v by simp
  qed
  have rest: "(\<not> table_frame s (page_of v) \<longrightarrow> mem s' v = mem s v) \<and>
       (unat v < 2 ^ 48 \<and> \<not> same_page KERNEL_KMAP_WINDOW v \<longrightarrow> paging_virt_to_phys v s' = paging_virt_to_phys v s)"
    if "\<not> (k \<le> page_no v \<and> page_no v < m)" for v
    using i(4,5) [of v] that by argo
  show ?thesis
    using elf image_ready_kept [OF R I b(1,3)] program_file_kept [OF pf image_fields(1) [OF I]] own rest
    unfolding k_def [symmetric] m_def [symmetric] by blast
qed

text \<open>A machine with the page tables of the image window, and the file \<^verbatim>\<open>/etc\<close> of five bytes as the program.\<close>

definition image_machine :: kvfs where
  "image_machine = file_example\<lparr>mem := (\<lambda>a. 0), cr3 := 0x1000, pml4 := 0x1000, pd0 := 0x3000, frame_bitmap := (\<lambda>i. 0xFF),
     total_frames := 0x800\<rparr>"

definition image_example :: kvfs where
  "image_example =
     set_entry 0x3000 3 0x6003 (set_entry 0x3000 2 0x5003 (set_entry 0x3000 40 0x4003
       (set_entry 0x2000 0 0x3003 (set_entry 0x1000 0 0x2003 image_machine))))"

lemma image_example_fields:
  "cr3 image_example = 0x1000" "pml4 image_example = 0x1000" "pd0 image_example = 0x3000" "total_frames image_example = 0x800"
  "frame_bitmap image_example = (\<lambda>i. 0xFF)" "kpaging.more image_example = kpaging.more file_example"
  by (simp_all add: image_example_def image_machine_def set_entry_def)

lemma bit_mask_8: "bit (0xFF :: u8) k \<longleftrightarrow> k < 8"
proof -
  have "(0xFF :: u8) = mask 8" by (simp add: mask_eq_exp_minus_1)
  then show ?thesis by (simp only: bit_mask_iff) simp
qed

lemma image_example_used: "page_aligned f \<Longrightarrow> f \<noteq> 0 \<Longrightarrow> unat f < 0x800000 \<Longrightarrow> frame_used image_example f"
proof -
  assume "page_aligned f"
  moreover have "unat (f div PAGE_SIZE mod 8) < 8" by (simp add: unat_mod)
  ultimately show "frame_used image_example f"
    unfolding frame_used_def bitmap_test_def drop_bit_and_1 image_example_fields bit_mask_8 by simp
qed

lemma image_example_entry:
  assumes "page_aligned t" and "i < 512"
  shows "get_entry t i image_example =
    (if t = 0x1000 \<and> i = 0 then 0x2003 else if t = 0x2000 \<and> i = 0 then 0x3003 else if t = 0x3000 \<and> i = 40 then 0x4003
     else if t = 0x3000 \<and> i = 2 then 0x5003 else if t = 0x3000 \<and> i = 3 then 0x6003 else 0)"
proof -
  have "get_entry t i image_machine = 0" by (simp add: zero_entry image_machine_def)
  then show ?thesis using assms by (simp add: image_example_def get_set_entry page_aligned_def)
qed

lemma image_example_tables:
  assumes "valid_path p"
  shows "table_at image_example p =
    (if p = [] then Some 0x1000 else if p = [0] then Some 0x2000 else if p = [0, 0] then Some 0x3000
     else if p = [40, 0, 0] then Some 0x4000 else if p = [2, 0, 0] then Some 0x5000 else if p = [3, 0, 0] then Some 0x6000 else None)"
proof -
  note ent = image_example_entry [unfolded page_aligned_def]
  have t1: "table_at image_example [i] = (if i = 0 then Some 0x2000 else None)" if "i < 512" for i
    using that by (simp add: ent image_example_fields pte_present_def pte_huge_def)
  have t2: "table_at image_example [j, i] = (if i = 0 \<and> j = 0 then Some 0x3000 else None)" if "i < 512" "j < 512" for i j
    using that unfolding table_at.simps(2) [of _ j] t1 [OF that(1)] by (simp add: ent pte_present_def pte_huge_def)
  have t3: "table_at image_example [k, j, i] =
    (if k = 40 \<and> j = 0 \<and> i = 0 then Some 0x4000 else if k = 2 \<and> j = 0 \<and> i = 0 then Some 0x5000
     else if k = 3 \<and> j = 0 \<and> i = 0 then Some 0x6000 else None)"
    if "i < 512" "j < 512" "k < 512" for i j k
  proof (cases "i = 0 \<and> j = 0")
    case True
    then have at: "table_at image_example [j, i] = Some 0x3000" using t2 [OF that(1,2)] by simp
    have e: "get_entry 0x3000 k image_example = (if k = 40 then 0x4003 else if k = 2 then 0x5003 else if k = 3 then 0x6003 else 0)"
      using that(3) by (simp add: ent)
    have at3: "table_at image_example [k, j, i] = (let e = get_entry 0x3000 k image_example in
        if pte_present e \<and> \<not> pte_huge e then Some (e AND PTE_ADDR_MASK) else None)"
      unfolding table_at.simps(2) [of _ k] at by simp
    have p: "pte_present 0x4003" "pte_present 0x5003" "pte_present 0x6003" "\<not> pte_present 0" "\<not> pte_huge 0x4003" "\<not> pte_huge 0x5003" "\<not> pte_huge 0x6003"
      "0x4003 AND PTE_ADDR_MASK = 0x4000" "0x5003 AND PTE_ADDR_MASK = 0x5000" "0x6003 AND PTE_ADDR_MASK = 0x6000"
      by (simp_all add: pte_present_def pte_huge_def)
    have ij: "i = 0" "j = 0" using True by simp_all
    show ?thesis
    proof (cases "k \<in> {40, 2, 3}")
      case True
      then show ?thesis unfolding at3 unfolding ij Let_def e insert_iff empty_iff
        by (elim disjE) (simp_all only: p if_True if_False simp_thms, simp_all add: p)
    next
      case False
      then show ?thesis unfolding at3 unfolding ij Let_def e insert_iff empty_iff 
        by (simp only: p de_Morgan_disj if_False simp_thms)
    qed
  next
    case False
    then have at: "table_at image_example [j, i] = None" unfolding t2 [OF that(1,2)] by (rule if_not_P)
    have "table_at image_example [k, j, i] = None" unfolding table_at.simps(2) [of _ k] at by (simp only: option.case)
    moreover have "\<not> (k = n \<and> j = 0 \<and> i = 0)" for n using False by blast
    ultimately show ?thesis by (simp only: if_False)
  qed
  show ?thesis
  proof (rule valid_path_cases [OF assms])
    assume "p = []" then show ?thesis by (simp add: image_example_fields)
  next
    fix i assume p: "p = [i]" "i < 512" show ?thesis unfolding p(1) t1 [OF p(2)] by simp
  next
    fix i j assume p: "p = [j, i]" "i < 512" "j < 512" show ?thesis unfolding p(1) t2 [OF p(2,3)] by auto
  next
    fix i j k assume p: "p = [k, j, i]" "i < 512" "j < 512" "k < 512" show ?thesis unfolding p(1) t3 [OF p(2-4)] by simp
  qed
qed

lemma image_example_ok: "pt_ok image_example" "space_ok image_example"
proof -
  show ok: "pt_ok image_example"
    unfolding pt_ok_def
  proof (intro conjI allI impI)
    fix p t assume "valid_path p" "table_at image_example p = Some t"
    then show "frame_used image_example t" "t \<noteq> 0" "t < IDENTITY_MAP_LIMIT"
      by (auto simp: image_example_tables page_aligned_def intro!: image_example_used split: if_splits)
  next
    fix p q t assume "valid_path p" "valid_path q" "table_at image_example p = Some t" "table_at image_example q = Some t"
    then show "p = q" by (simp add: image_example_tables split: if_splits)
  next
    fix p t i assume p: "valid_path (i # p)" "table_at image_example p = Some t" "pte_present (get_entry t i image_example)"
      "pte_huge (get_entry t i image_example)"
    then have "valid_path p" "i < 512" by (simp_all add: valid_path_Cons)
    then show "length p = 2" "get_entry t i image_example AND 0x1FF000 = 0"
      using p by (auto simp: image_example_tables image_example_entry page_aligned_def pte_present_def pte_huge_def split: if_splits)
  qed
  have "frames_ok image_example" by (simp add: frames_ok_def bitmap_test_def image_example_fields)
  moreover have "PD_INDEX KERNEL_KMAP_WINDOW # pd_path KERNEL_KMAP_WINDOW = [40, 0, 0]"
    by (simp add: pd_path_def PML4_INDEX_def PDP_INDEX_def PD_INDEX_def)
  ultimately show "space_ok image_example"
    using ok by (simp add: space_ok_def window_ready_def paging_get_pt_tree image_example_fields image_example_tables valid_path_def del: table_at.simps)
qed

lemma image_example_ready: "image_ready image_example"
  unfolding image_ready_def
proof (intro conjI allI impI)
  show "space_ok image_example" by (rule image_example_ok(2))
  show "pd_ready image_example"
    using image_example_tables [of "[0, 0]"] by (simp add: pd_ready_def image_example_fields valid_path_def del: table_at.simps)
  fix p :: nat assume p: "1024 \<le> p" "p < 2048"
  let ?f = "of_nat p * PAGE_SIZE :: u64"
  have p18: "p < 2 ^ 18" using p by simp
  have u: "unat ?f = p * 4096" by (rule frame_number(1) [OF p18])
  have d: "page_no ?f = p" unfolding u by simp
  have "p div 512 = 2 \<or> p div 512 = 3" using p by linarith
  then have i: "(of_nat (p div 512) :: u64) = 2 \<or> (of_nat (p div 512) :: u64) = 3" by auto
  note idx = low_indices [OF d p18]
  show "paging_get_pt ?f image_example \<noteq> 0"
    unfolding paging_get_pt_tree(1) [OF image_example_ok(1)] image_example_tables [OF valid_pt_path]
    unfolding idx using i by auto
  have al: "page_aligned ?f" unfolding page_aligned_def u by simp
  then show "frame_used image_example ?f" by (rule image_example_used) (use p u in \<open>simp_all add: unat_eq_iff\<close>)
  show "\<not> table_frame image_example ?f"
  proof
    assume "table_frame image_example ?f"
    then have "?f \<in> {0x1000, 0x2000, 0x3000, 0x4000, 0x5000, 0x6000}"
      unfolding table_frame_def using image_example_tables by (auto split: if_splits)
    then have "unat ?f \<le> 0x6000" by auto
    then show False using p unfolding u by simp
  qed
qed

lemma image_example_program: "program_file etc_path [1, 2, 3, 4, 5] image_example"
proof (rule program_file_kept [OF _ image_example_fields(6)])
  have "vfs_lookup_path etc_path True file_example = Some 0x10000060"
    by (rule lookup_found [OF file_example_ok etc_ok(1)])
      (simp_all add: file_example_def find_entry_def blank_inode_def, simp add: file_inode_def)
  then show "program_file etc_path [1, 2, 3, 4, 5] file_example"
    unfolding program_file_def using file_example_ok
    by (intro conjI exI [of _ "0x10000060"]) (simp_all add: file_example_def file_inode_def file_content_def)
qed

theorem elf_map_segment_loads_witness:
  "\<exists>s'. elf_map_segment [] etc_path \<lparr>p_type = 1, p_flags = 5, p_offset = 0, p_vaddr = 0x400FFE, p_paddr = 0, p_filesz = 5,
       p_memsz = 6, p_align = 0\<rparr> image_example = Some (0, s') \<and>
     mem s' 0x400FFE = 1 \<and> mem s' 0x401002 = 5 \<and> mem s' 0x401003 = 0 \<and> 0x401FFF \<in> user_space s'"
proof -
  let ?ph = "\<lparr>p_type = 1, p_flags = 5, p_offset = 0, p_vaddr = 0x400FFE, p_paddr = 0, p_filesz = 5, p_memsz = 6, p_align = 0\<rparr>"
  have G: "segment_ok ?ph [1, 2, 3, 4, 5]" by (simp add: segment_ok_def)
  obtain s' where s': "elf_map_segment [] etc_path ?ph image_example = Some (0, s')"
    "\<forall>v. page_no (p_vaddr ?ph) \<le> page_no v \<and> page_no v < (unat (p_vaddr ?ph) + unat (p_memsz ?ph) + 4095) div 4096 \<longrightarrow>
       v \<in> user_space s' \<and> paging_virt_to_phys v s' = v \<and> mem s' v = seg_byte ?ph [1, 2, 3, 4, 5] v"
    using elf_map_segment_loads [OF image_example_ready image_example_program G] by blast
  show ?thesis
    using s'(1) s'(2) [rule_format, of "0x400FFE"] s'(2) [rule_format, of "0x401002"] s'(2) [rule_format, of "0x401003"]
      s'(2) [rule_format, of "0x401FFF"]
    by (intro exI [of _ s']) (simp add: seg_byte_def)
qed

end
