(* ===== verification/Spec2Isabelle.thy ===== *)
theory Spec2Isabelle
  imports Boot UserStack SysIO Calls Ports Clone BootPaging LoadImage
begin

text \<open>
  A verification development for the TypeOS kernel, the C code under \<^verbatim>\<open>src/core\<close>.

  \<^bold>\<open>The program.\<close>  A boot loader enters \<^verbatim>\<open>kmain\<close> (\<^verbatim>\<open>core/kernel.c\<close>) with a list of tags.  The kernel reads the memory
  map from it, sets up a frame bitmap and four-level page tables (\<^verbatim>\<open>core/mm/paging.c\<close>), a heap of linked blocks
  (\<^verbatim>\<open>core/mm/heap.c\<close>), a file system in the heap (\<^verbatim>\<open>core/fs/vfs.c\<close>) filled from a cpio archive
  (\<^verbatim>\<open>core/fs/cpio.c\<close>), sixteen tasks with sixteen descriptors each (\<^verbatim>\<open>core/proc.c\<close>, \<^verbatim>\<open>core/sched.c\<close>) and loads the
  first program (\<^verbatim>\<open>core/elf.c\<close>).  From then on it runs in system calls (\<^verbatim>\<open>core/syscall.c\<close>) and in the timer and keyboard
  interrupts; the console is \<^verbatim>\<open>core/drivers/vga.c\<close> and \<^verbatim>\<open>core/drivers/keyboard.c\<close>.

  \<^bold>\<open>The state\<close> is one record that grows by extension, from the machine outwards: memory, CR3 and the page-table and
  frame variables (\<open>kpaging\<close>), the heap (\<open>kheap\<close>), the inodes (\<open>kvfs\<close>), the tasks, open files and pipes (\<open>kproc\<close>), the
  screen and the keyboard (\<open>kconsole\<close>), the processor's tables (\<open>kboot\<close>).  An operation takes the state and returns it
  changed; \<open>None\<close> is a crash: a page fault in the kernel, a dead pointer, an array bound, or a call that does not
  return.  C's error codes are values.  Structures that the code keeps in heap blocks (block headers, inodes, directory
  entries, open files) are typed stores, maps from their addresses; a dead address has no value there.  Everything
  else is in the bytes of physical memory, page tables included, and is reached through the page tables where the code
  does so.

  \<^bold>\<open>Theories and code.\<close>
  \<^item> \<open>Prelude\<close>, \<open>Interfaces\<close>: words, loops with early exit, lists; the locales \<open>allocator\<close>, \<open>entry_store\<close> and
    \<open>bounded_queue\<close>, interpreted for frames, table frames, heap blocks, page-table entries, pipes and the keys.
  \<^item> \<open>CString\<close>: \<^verbatim>\<open>core/string.c\<close>.  \<open>Machine\<close>: memory and registers.  \<open>Multiboot\<close>: the tags, \<^verbatim>\<open>core/multiboot.c\<close>.
  \<^item> \<open>Frames\<close>, \<open>PageTables\<close>, \<open>PhysWindow\<close>: \<^verbatim>\<open>core/mm/paging.c\<close>; \<open>Translation\<close> says what page tables mean (the walk
    of the processor), states the invariant \<open>pt_ok\<close> and proves mapping and unmapping against it.
  \<^item> \<open>Heap\<close>: \<^verbatim>\<open>core/mm/heap.c\<close>, refined to a list of blocks.  \<open>Kept\<close>: what the memory layers leave alone.
  \<^item> \<open>Vfs\<close>, \<open>Cpio\<close>: \<^verbatim>\<open>core/fs\<close>, refined to paths and contents.
  \<^item> \<open>Ring\<close>, \<open>Proc\<close>, \<open>Sched\<close>, \<open>Fds\<close>, \<open>Reach\<close>, \<open>Calls\<close>: pipes, tasks, the scheduler, descriptors, what holds in every state
    that the calls on tasks and descriptors reach, and that the whole dispatch keeps it.
  \<^item> \<open>Vga\<close>, \<open>Keyboard\<close>: the console, refined to a terminal and a line editor.
  \<^item> \<open>UserMem\<close>, \<open>Elf\<close>, \<open>Syscall\<close>: user memory, the program loader, the dispatch of the system calls.
  \<^item> \<open>UserPages\<close>, \<open>UserStack\<close>, \<open>SysMem\<close>, \<open>SysIO\<close>: what a program sees.  \<open>view s\<close> is the memory of the program as a function
    from its addresses, \<open>owned s V\<close> says that the addresses \<open>V\<close> are its own; mapping pages, building the initial stack,
    \<^verbatim>\<open>brk\<close>, \<^verbatim>\<open>mmap\<close>, \<^verbatim>\<open>read\<close> and \<^verbatim>\<open>write\<close> are proved against it.
  \<^item> \<open>BootPaging\<close>: that \<^verbatim>\<open>paging_init\<close> establishes the invariants of the frames and the page tables, from the tables that the
    boot code leaves and the memory map of the boot loader.
  \<^item> \<open>Clone\<close>: the copy of an address space that \<^verbatim>\<open>fork\<close> makes, proved against the same views; the parent keeps its
    memory and the child gets an equal one in frames of its own.
  \<^item> \<open>LoadImage\<close>: what \<^verbatim>\<open>elf_map_segment\<close> (\<^verbatim>\<open>core/elf.c\<close>) makes of a segment of a program file, page by page, in the
    image window from 4 MiB to 8 MiB.
  \<^item> \<open>Ports\<close>: port access (\<^verbatim>\<open>core/include/drivers.h\<close>), the set-up of the keyboard controller, the timer and the
    cursor.
  \<^item> \<open>Descr\<close>, \<open>Boot\<close>: \<^verbatim>\<open>core/gdt.c\<close>, \<^verbatim>\<open>core/idt.c\<close>, \<^verbatim>\<open>core/exc.c\<close>, \<^verbatim>\<open>core/kernel.c\<close>.

  \<^bold>\<open>What is shown.\<close> Memory: the boot leaves well-formed tables and frees the right frames;
  frames and tables are handed out once; mapping, splitting and unmapping change exactly the translation they
  should; physical writes through the window arrive. Heap: first fit with splitting and coalescing on an abstract
  block list, blocks disjoint and mapped, for every sequence of calls. Files: lookup is the walk over the
  components, created files read back, updates leave other paths alone, unpacking an archive is installing its
  entries. Tasks: fork copies the descriptors and the memory, exit and wait hand over the status once, the picker is
  fair, descriptors own their files. Programs: pages that a program gets are its own and zero, copies between the
  kernel and a program move exactly their bytes, a segment of a program file is loaded where its header says, the
  initial stack is laid out as the ABI prescribes, files and pipes carry bytes between buffers, bad calls change nothing. Console: text arrives on the screen as on an abstract
  terminal, typed keys arrive in order, numbers print as numerals. Some theorems describe what the code does where
  it does not do what it means to; they are named in the findings of the manifest.

  \<^bold>\<open>Loops, fuel and bounds.\<close>  A loop whose end depends on the data is \<open>partial_function (option)\<close>: not to return is
  \<open>None\<close>, and the theorems state that it returns.  No definition takes fuel.  A loop with a fixed range runs through
  \<open>for_status\<close> or \<open>for_scan\<close> over that range.  \<open>heap_budget c s\<close> says that the heap may still grow by \<open>c\<close> bytes below its
  limit: theorems about operations that allocate assume as much budget as their blocks can need, and the heap's invariant says that
  growing within the limit needs no new page tables.  Machine integers have their width; lengths of byte lists are
  natural numbers where C has a \<^verbatim>\<open>size_t\<close> that cannot wrap.

  \<^bold>\<open>Parameters.\<close>  \<open>run\<close> is what happens from switching to another task until control comes back, \<open>irq\<close> what an interrupt does
  while the kernel waits; both are arbitrary functions of the state.  The bus of \<open>Ports\<close> is the hardware behind the ports:
  its theorems assume that the documented controllers answer there.  \<open>junk\<close> is the content of an uninitialised buffer
  on the stack.  \<open>link_map\<close> holds the addresses that the linker gives.

  \<^bold>\<open>Not modelled.\<close>  The assembly files (entry, context switch, interrupt stubs; their effect is \<open>run\<close> and \<open>irq\<close>; the interrupt
  controller is programmed there too); flushing the TLB; the log messages of the initialisers and of the
  tracing of system calls.  \<^verbatim>\<open>core/shell.c\<close> is empty.
\<close>

end
